(* ===== verification/Prelude.thy ===== *)
theory Prelude
  imports Main "HOL-Library.Char_ord" "HOL-Library.List_Lexorder"
begin

text \<open>
  Shared vocabulary of the development: the failure values that stand for the assertion
  macros of the client (\<open>HARD_ASSERT\<close>, \<open>HARD_FAIL\<close>, \<open>UNREACHABLE\<close> in
  \<open>util/hard_assert.h\<close> all abort the operation) and for \<open>ThrowInvalidArgument\<close> and the
  status of that code and \<open>ThrowIllegalState\<close>, the result monad over them, and the generic facts on lists and maps that the components share.

  The order on strings is the one of \<open>List_Lexorder\<close> over \<open>Char_ord\<close>: characters
  compare by their code 0..255, a proper prefix comes first.  This is what
  \<open>std::string::compare\<close> computes.
\<close>

section \<open>Failures and results\<close>

datatype failure = HardAssert | HardFail | Unreachable | InvalidArgument | IllegalState

type_synonym 'a result = "failure + 'a"

definition hard_assert :: "bool \<Rightarrow> 'a result \<Rightarrow> 'a result" where
  "hard_assert c r = (if c then r else Inl HardAssert)"

definition rbind :: "'a result \<Rightarrow> ('a \<Rightarrow> 'b result) \<Rightarrow> 'b result" where
  "rbind r f = (case r of Inl e \<Rightarrow> Inl e | Inr x \<Rightarrow> f x)"

definition rmap :: "('a \<Rightarrow> 'b) \<Rightarrow> 'a result \<Rightarrow> 'b result" where
  "rmap f r = (case r of Inl e \<Rightarrow> Inl e | Inr x \<Rightarrow> Inr (f x))"

lemma hard_assert_simps [simp]:
  "hard_assert True r = r"
  "hard_assert False r = Inl HardAssert"
  by (simp_all add: hard_assert_def)

lemma hard_assert_Inr [simp]: "(hard_assert c r = Inr x) = (c \<and> r = Inr x)"
  by (simp add: hard_assert_def)

lemma rbind_simps [simp]:
  "rbind (Inl e) f = Inl e"
  "rbind (Inr x) f = f x"
  by (simp_all add: rbind_def)

lemma rmap_simps [simp]:
  "rmap g (Inl e) = Inl e"
  "rmap g (Inr x) = Inr (g x)"
  by (simp_all add: rmap_def)

lemma rbind_Inr_conv: "(rbind r f = Inr y) = (\<exists>x. r = Inr x \<and> f x = Inr y)"
  by (cases r) simp_all

lemma rmap_Inr_conv: "(rmap f r = Inr y) = (\<exists>x. r = Inr x \<and> y = f x)"
  by (cases r) auto

section \<open>Folding a fallible step over a list\<close>

fun rfold :: "('s \<Rightarrow> 'a \<Rightarrow> 's result) \<Rightarrow> 's \<Rightarrow> 'a list \<Rightarrow> 's result" where
  "rfold f s [] = Inr s"
| "rfold f s (x # xs) = (case f s x of Inl e \<Rightarrow> Inl e | Inr s' \<Rightarrow> rfold f s' xs)"

lemma rfold_invariant:
  assumes "\<And>s x s'. P s \<Longrightarrow> x \<in> set xs \<Longrightarrow> f s x = Inr s' \<Longrightarrow> P s'"
    and "P s" and "rfold f s xs = Inr t"
  shows "P t"
  using assms
proof (induction xs arbitrary: s)
  case Nil
  then show ?case by simp
next
  case (Cons x xs)
  from Cons.prems(3) obtain s' where s': "f s x = Inr s'" "rfold f s' xs = Inr t"
    by (auto split: sum.splits)
  have "P s'" using Cons.prems(1)[OF Cons.prems(2) _ s'(1)] by simp
  show ?case
  proof (rule Cons.IH[OF _ \<open>P s'\<close> s'(2)])
    fix u y u'
    assume "P u" "y \<in> set xs" "f u y = Inr u'"
    then show "P u'" using Cons.prems(1)[of u y u'] by simp
  qed
qed

lemma rfold_keeps:
  assumes "rfold f s xs = Inr t" and "P s"
    and "\<And>s x s'. P s \<Longrightarrow> x \<in> set xs \<Longrightarrow> f s x = Inr s' \<Longrightarrow> P s'"
  shows "P t"
  using rfold_invariant[of P xs f s t] assms by blast

lemma rfold_append:
  "rfold f s (xs @ ys) = (case rfold f s xs of Inl e \<Rightarrow> Inl e | Inr s' \<Rightarrow> rfold f s' ys)"
proof (induction xs arbitrary: s)
  case (Cons x xs)
  then show ?case by (cases "f s x") simp_all
qed simp

section \<open>Lists\<close>

lemma takeWhile_all_conv: "(takeWhile P xs = xs) = (\<forall>x \<in> set xs. P x)"
  by (induction xs) auto

lemma length_takeWhile_less: "x \<in> set xs \<Longrightarrow> \<not> P x \<Longrightarrow> length (takeWhile P xs) < length xs"
  by (induction xs) auto

lemma drop_length_takeWhile [simp]: "drop (length (takeWhile P xs)) xs = dropWhile P xs"
  by (induction xs) auto

lemma take_length_takeWhile [simp]: "take (length (takeWhile P xs)) xs = takeWhile P xs"
  by (induction xs) auto

lemma sorted_wrt_filter_keys:
  "sorted_wrt R (map f xs) \<Longrightarrow> sorted_wrt R (map f (filter P xs))"
  by (induction xs) auto

lemma sorted_wrt_unique_lists:
  assumes "\<And>a b c. R a b \<Longrightarrow> R b c \<Longrightarrow> R a c" and "\<And>a. \<not> R a a"
    and "sorted_wrt R xs" and "sorted_wrt R ys" and "set xs = set ys"
  shows "xs = ys"
  using assms(3-5)
proof (induction xs arbitrary: ys)
  case (Cons x xs)
  then obtain y zs where ys: "ys = y # zs" by (cases ys) auto
  have "x = y"
  proof (rule ccontr)
    assume "x \<noteq> y"
    then have "R x y" "R y x" using Cons.prems ys by auto
    then show False using assms(1)[of x y x] assms(2) by blast
  qed
  moreover have "x \<notin> set xs" "y \<notin> set zs" using Cons.prems assms(2) ys by auto
  ultimately have "set xs = set zs" using Cons.prems(3) ys by auto
  then show ?case using Cons.IH[of zs] Cons.prems ys \<open>x = y\<close> by auto
qed simp

section \<open>Ordered sets as ascending lists, and a fallible map\<close>

definition std_set_insert :: "'a::linorder \<Rightarrow> 'a list \<Rightarrow> 'a list" where
  "std_set_insert x s = (if x \<in> set s then s else insort x s)"

definition std_set_erase :: "'a \<Rightarrow> 'a list \<Rightarrow> 'a list" where
  "std_set_erase x s = filter (\<lambda>y. y \<noteq> x) s"

definition std_set_ok :: "'a::linorder list \<Rightarrow> bool" where
  "std_set_ok s = (sorted s \<and> distinct s)"

lemma set_std_set_insert [simp]: "set (std_set_insert x s) = insert x (set s)"
  by (auto simp: std_set_insert_def set_insort_key)

lemma set_std_set_erase [simp]: "set (std_set_erase x s) = set s - {x}"
  by (auto simp: std_set_erase_def)

lemma std_set_ok_ops [simp]:
  "std_set_ok []"
  "std_set_ok s \<Longrightarrow> std_set_ok (std_set_insert x s)"
  "std_set_ok s \<Longrightarrow> std_set_ok (std_set_erase x s)"
  by (auto simp: std_set_ok_def std_set_insert_def std_set_erase_def sorted_insort distinct_insort
      intro: sorted_filter[of "\<lambda>x. x", simplified])

lemma std_set_ext: "std_set_ok s \<Longrightarrow> std_set_ok t \<Longrightarrow> set s = set t \<Longrightarrow> s = t"
  by (auto simp: std_set_ok_def sorted_distinct_set_unique)

fun rmapM :: "('a \<Rightarrow> 'b result) \<Rightarrow> 'a list \<Rightarrow> 'b list result" where
  "rmapM f [] = Inr []"
| "rmapM f (x # xs) = rbind (f x) (\<lambda>y. rmap ((#) y) (rmapM f xs))"

lemma rmapM_total: "(\<And>x. x \<in> set xs \<Longrightarrow> \<exists>y. f x = Inr y) \<Longrightarrow> \<exists>ys. rmapM f xs = Inr ys"
proof (induction xs)
  case (Cons x xs)
  obtain y where y: "f x = Inr y" using Cons.prems[of x] by auto
  obtain ys where ys: "rmapM f xs = Inr ys" using Cons by auto
  show ?case using y ys by simp
qed simp

lemma rmapM_length: "rmapM f xs = Inr ys \<Longrightarrow> length ys = length xs"
  by (induction xs arbitrary: ys) (auto simp: rbind_Inr_conv rmap_Inr_conv)

lemma rmapM_nth: "rmapM f xs = Inr ys \<Longrightarrow> i < length xs \<Longrightarrow> f (xs ! i) = Inr (ys ! i)"
  by (induction xs arbitrary: ys i) (auto simp: rbind_Inr_conv rmap_Inr_conv nth_Cons split: nat.splits)

lemma rfold_total:
  assumes "\<And>s x. P s \<Longrightarrow> x \<in> set xs \<Longrightarrow> \<exists>s'. f s x = Inr s' \<and> P s'" and "P s"
  shows "\<exists>t. rfold f s xs = Inr t \<and> P t"
  using assms
proof (induction xs arbitrary: s)
  case (Cons x xs)
  obtain s' where s': "f s x = Inr s'" "P s'" using Cons.prems(1)[OF Cons.prems(2), of x] by auto
  then show ?case using Cons.IH[OF Cons.prems(1) s'(2)] by simp
qed simp

end
