(* ===== verification/Comparison.thy ===== *)
theory Comparison
  imports Prelude
begin

text \<open>
  Three-way comparison, \<open>util/comparison.h\<close> and \<open>util/comparison.cc\<close>: the result
  enumeration, the default comparator, the string comparator and the lexicographic comparison
  of containers.  The contract every comparator of the client has to meet so that the sorted
  containers work is the locale \<open>total_comparator\<close>; \<open>strict_comparator\<close> adds that
  only equal values compare as \<open>Same\<close>.
\<close>

section \<open>The result of a comparison\<close>

datatype comparison_result = Ascending | Same | Descending

definition cr_to_int :: "comparison_result \<Rightarrow> int" where
  "cr_to_int c = (case c of Ascending \<Rightarrow> -1 | Same \<Rightarrow> 0 | Descending \<Rightarrow> 1)"

definition ComparisonResultFromInt :: "int \<Rightarrow> comparison_result" where
  "ComparisonResultFromInt v =
     (if v < 0 then Ascending else if v > 0 then Descending else Same)"

definition ReverseOrder :: "comparison_result \<Rightarrow> comparison_result" where
  "ReverseOrder c = ComparisonResultFromInt (- cr_to_int c)"

lemma ReverseOrder_simps [simp]:
  "ReverseOrder Ascending = Descending"
  "ReverseOrder Same = Same"
  "ReverseOrder Descending = Ascending"
  by (simp_all add: ReverseOrder_def cr_to_int_def ComparisonResultFromInt_def)

lemma ReverseOrder_ReverseOrder [simp]: "ReverseOrder (ReverseOrder c) = c"
  by (cases c) simp_all

lemma ReverseOrder_eq_iff [simp]:
  "(ReverseOrder c = Ascending) = (c = Descending)"
  "(ReverseOrder c = Same) = (c = Same)"
  "(ReverseOrder c = Descending) = (c = Ascending)"
  by (cases c; simp)+

lemma ComparisonResultFromInt_cr_to_int [simp]: "ComparisonResultFromInt (cr_to_int c) = c"
  by (cases c) (simp_all add: cr_to_int_def ComparisonResultFromInt_def)

section \<open>The contract of comparators\<close>

locale total_comparator =
  fixes cmp :: "'a \<Rightarrow> 'a \<Rightarrow> comparison_result"
  assumes flip: "cmp b a = ReverseOrder (cmp a b)"
    and le_trans: "cmp a b \<noteq> Descending \<Longrightarrow> cmp b c \<noteq> Descending \<Longrightarrow> cmp a c \<noteq> Descending"
begin

lemma cmp_refl [simp]: "cmp a a = Same"
  using flip[of a a] by (cases "cmp a a") simp_all

lemma desc_iff: "(cmp a b = Descending) = (cmp b a = Ascending)"
  using flip[of a b] by simp

lemma same_sym: "(cmp a b = Same) = (cmp b a = Same)"
  using flip[of a b] by simp

lemma asc_le_trans:
  assumes "cmp a b = Ascending" "cmp b c \<noteq> Descending" shows "cmp a c = Ascending"
proof (rule ccontr)
  assume "cmp a c \<noteq> Ascending"
  then have "cmp c a \<noteq> Descending" using flip[of a c] by auto
  with assms(2) have "cmp b a \<noteq> Descending" by (rule le_trans)
  with assms(1) show False using flip[of a b] by simp
qed

lemma le_asc_trans:
  assumes "cmp a b \<noteq> Descending" "cmp b c = Ascending" shows "cmp a c = Ascending"
proof (rule ccontr)
  assume "cmp a c \<noteq> Ascending"
  then have "cmp c a \<noteq> Descending" using flip[of a c] by auto
  from this assms(1) have "cmp c b \<noteq> Descending" by (rule le_trans)
  with assms(2) show False using flip[of b c] by simp
qed

lemma asc_trans: "cmp a b = Ascending \<Longrightarrow> cmp b c = Ascending \<Longrightarrow> cmp a c = Ascending"
  using asc_le_trans[of a b c] by simp

lemma desc_trans: "cmp a b = Descending \<Longrightarrow> cmp b c = Descending \<Longrightarrow> cmp a c = Descending"
  using asc_trans desc_iff by blast

lemma same_trans: "cmp a b = Same \<Longrightarrow> cmp b c = Same \<Longrightarrow> cmp a c = Same"
  using le_trans[of a b c] le_trans[of c b a] same_sym[of a b] same_sym[of b c] desc_iff[of c a]
  by (cases "cmp a c") auto

lemma same_cong_left:
  assumes "cmp a b = Same" shows "cmp a c = cmp b c"
proof -
  have ba: "cmp b a = Same" using assms same_sym by blast
  have "(cmp a c = Ascending) = (cmp b c = Ascending)"
    using le_asc_trans[of a b c] le_asc_trans[of b a c] assms ba by auto
  moreover have "(cmp a c = Same) = (cmp b c = Same)"
    using same_trans[of a b c] same_trans[of b a c] assms ba by auto
  ultimately show ?thesis by (cases "cmp a c"; cases "cmp b c") auto
qed

lemma same_cong_right: "cmp a b = Same \<Longrightarrow> cmp c a = cmp c b"
  using same_cong_left[of a b c] flip[of c a] flip[of c b] by simp

lemma asc_not_same: "cmp a b = Ascending \<Longrightarrow> cmp b a = Descending"
  using flip[of a b] by simp

end

locale strict_comparator = total_comparator +
  assumes same_eq: "cmp a b = Same \<Longrightarrow> a = b"
begin

lemma same_iff_eq [simp]: "(cmp a b = Same) = (a = b)"
  using same_eq by auto

end

section \<open>Comparators of the library\<close>

text \<open>\<open>DefaultComparator<T>\<close>, used for \<open>bool\<close>, \<open>int32_t\<close> and \<open>int64_t\<close>.\<close>

definition DefaultCompare :: "'a::linorder \<Rightarrow> 'a \<Rightarrow> comparison_result" where
  "DefaultCompare left right =
     (if left < right then Ascending else if right < left then Descending else Same)"

text \<open>
  \<open>std::string::compare\<close> returns an integer of which only the sign is specified: the
  characters compare as unsigned bytes, then the lengths.
\<close>

fun std_string_compare :: "string \<Rightarrow> string \<Rightarrow> int" where
  "std_string_compare [] [] = 0"
| "std_string_compare [] (_ # _) = -1"
| "std_string_compare (_ # _) [] = 1"
| "std_string_compare (x # xs) (y # ys) =
     (if (of_char x :: nat) < of_char y then -1
      else if (of_char y :: nat) < of_char x then 1
      else std_string_compare xs ys)"

definition StringCompare :: "string \<Rightarrow> string \<Rightarrow> comparison_result" where
  "StringCompare left right = ComparisonResultFromInt (std_string_compare left right)"

fun CompareContainer :: "('a \<Rightarrow> 'a \<Rightarrow> comparison_result) \<Rightarrow> 'a list \<Rightarrow> 'a list \<Rightarrow> comparison_result" where
  "CompareContainer cmp [] [] = Same"
| "CompareContainer cmp [] (_ # _) = Ascending"
| "CompareContainer cmp (_ # _) [] = Descending"
| "CompareContainer cmp (x # xs) (y # ys) =
     (case cmp x y of Same \<Rightarrow> CompareContainer cmp xs ys | c \<Rightarrow> c)"

section \<open>They meet the contract\<close>

lemma DefaultCompare_simps [simp]:
  "(DefaultCompare a b = Ascending) = (a < b)"
  "(DefaultCompare a b = Descending) = (b < a)"
  "(DefaultCompare a b = Same) = (a = b)"
  by (auto simp: DefaultCompare_def)

interpretation default_cmp: strict_comparator "DefaultCompare :: 'a::linorder \<Rightarrow> _"
  by unfold_locales (auto simp: DefaultCompare_def split: if_splits)

lemma std_string_compare_lex:
  "std_string_compare xs ys = (if xs < ys then -1 else if ys < xs then 1 else 0)"
proof (induction xs ys rule: std_string_compare.induct)
  case (4 x xs y ys)
  have "x = y" if "\<not> x < y" "\<not> y < x"
    using that by simp
  then show ?case
    using 4 by (auto simp: less_char_def less_eq_char_def)
qed simp_all

lemma StringCompare_eq_Default: "StringCompare = DefaultCompare"
  by (intro ext) (simp add: StringCompare_def std_string_compare_lex DefaultCompare_def
      ComparisonResultFromInt_def)

interpretation string_cmp: strict_comparator StringCompare
  unfolding StringCompare_eq_Default by (rule default_cmp.strict_comparator_axioms)

lemma CompareContainer_flip:
  assumes "\<And>a b. cmp b a = ReverseOrder (cmp a b)"
  shows "CompareContainer cmp ys xs = ReverseOrder (CompareContainer cmp xs ys)"
proof (induction xs arbitrary: ys)
  case Nil
  then show ?case by (cases ys) simp_all
next
  case (Cons x xs)
  have "cmp y x = ReverseOrder (cmp x y)" for y by (rule assms)
  then show ?case using Cons by (cases ys) (auto split: comparison_result.split)
qed

context total_comparator
begin

lemma container_le_trans:
  "CompareContainer cmp xs ys \<noteq> Descending \<Longrightarrow> CompareContainer cmp ys zs \<noteq> Descending
   \<Longrightarrow> CompareContainer cmp xs zs \<noteq> Descending"
proof (induction xs arbitrary: ys zs)
  case Nil
  then show ?case by (cases zs) simp_all
next
  case (Cons x xs)
  then obtain y ys' z zs' where ys: "ys = y # ys'" and zs: "zs = z # zs'"
    by (cases ys; cases zs) auto
  show ?case
  proof (cases "cmp x y = Same")
    case True
    then have "cmp x z = cmp y z" by (rule same_cong_left)
    with True Cons show ?thesis unfolding ys zs
      by (auto split: comparison_result.splits)
  next
    case False
    with Cons.prems(1) have xy: "cmp x y = Ascending" unfolding ys
      by (cases "cmp x y") auto
    have "cmp y z \<noteq> Descending" using Cons.prems(2) unfolding ys zs by auto
    with xy have "cmp x z = Ascending" by (rule asc_le_trans)
    then show ?thesis unfolding zs by simp
  qed
qed

lemma container_total: "total_comparator (CompareContainer cmp)"
  by unfold_locales (auto intro: CompareContainer_flip flip dest: container_le_trans)

end

context strict_comparator
begin

lemma container_same_eq: "CompareContainer cmp xs ys = Same \<Longrightarrow> xs = ys"
proof (induction xs arbitrary: ys)
  case Nil
  then show ?case by (cases ys) simp_all
next
  case (Cons x xs)
  then show ?case by (cases ys) (auto split: comparison_result.splits)
qed

lemma container_strict: "strict_comparator (CompareContainer cmp)"
  using container_total container_same_eq
  by (simp add: strict_comparator_def strict_comparator_axioms_def)

end

lemma CompareContainer_Default: "CompareContainer DefaultCompare = DefaultCompare"
proof (intro ext)
  fix xs ys :: "'a::linorder list"
  show "CompareContainer DefaultCompare xs ys = DefaultCompare xs ys"
  proof (induction xs arbitrary: ys)
    case Nil
    then show ?case by (cases ys) (simp_all add: DefaultCompare_def)
  next
    case (Cons x xs)
    note IH = Cons.IH
    have step: "DefaultCompare (x # xs) (y # zs) =
        (case DefaultCompare x y of Same \<Rightarrow> DefaultCompare xs zs | c \<Rightarrow> c)" for y zs
      by (auto simp: DefaultCompare_def)
    show ?case
    proof (cases ys)
      case Nil
      then show ?thesis by (simp add: DefaultCompare_def)
    next
      case (Cons y zs)
      then show ?thesis using IH step by (auto split: comparison_result.split)
    qed
  qed
qed

interpretation string_list_cmp: strict_comparator "CompareContainer StringCompare"
  by (rule string_cmp.container_strict)

section \<open>Building comparators from comparators\<close>

lemma total_comparator_key:
  assumes "total_comparator c" shows "total_comparator (\<lambda>a b. c (f a) (f b))"
  using assms unfolding total_comparator_def by blast

lemma total_comparator_ranked:
  fixes rank :: "'a \<Rightarrow> 'r::linorder"
  assumes "\<And>a b. rank a = rank b \<Longrightarrow> c b a = ReverseOrder (c a b)"
    and "\<And>x y z. rank x = rank y \<Longrightarrow> rank y = rank z \<Longrightarrow> c x y \<noteq> Descending \<Longrightarrow> c y z \<noteq> Descending \<Longrightarrow>
           c x z \<noteq> Descending"
  shows "total_comparator (\<lambda>a b. if rank a = rank b then c a b else DefaultCompare (rank a) (rank b))"
proof
  fix a b
  show "(if rank b = rank a then c b a else DefaultCompare (rank b) (rank a)) =
    ReverseOrder (if rank a = rank b then c a b else DefaultCompare (rank a) (rank b))"
    using assms(1)[of a b] default_cmp.flip[of "rank b" "rank a"] by (auto simp: eq_commute)
next
  fix a b d
  assume ab: "(if rank a = rank b then c a b else DefaultCompare (rank a) (rank b)) \<noteq> Descending"
    and bd: "(if rank b = rank d then c b d else DefaultCompare (rank b) (rank d)) \<noteq> Descending"
  have le: "rank a \<le> rank b" "rank b \<le> rank d" using ab bd by (auto split: if_splits)
  show "(if rank a = rank d then c a d else DefaultCompare (rank a) (rank d)) \<noteq> Descending"
  proof (cases "rank a = rank d")
    case True
    then have "rank a = rank b" "rank b = rank d" using le by auto
    then show ?thesis using ab bd assms(2)[of a b d] by simp
  next
    case False
    then show ?thesis using le by auto
  qed
qed

lemma total_comparator_lex:
  assumes "total_comparator c1" "total_comparator c2"
  shows "total_comparator (\<lambda>a b. case c1 a b of Same \<Rightarrow> c2 a b | r \<Rightarrow> r)"
proof -
  note a = total_comparator.flip[OF assms(1)] total_comparator.same_trans[OF assms(1)]
    total_comparator.asc_le_trans[OF assms(1)] total_comparator.le_asc_trans[OF assms(1)]
  note b = total_comparator.flip[OF assms(2)] total_comparator.le_trans[OF assms(2)]
  show ?thesis
  proof
    fix x y show "(case c1 y x of Same \<Rightarrow> c2 y x | r \<Rightarrow> r) = ReverseOrder (case c1 x y of Same \<Rightarrow> c2 x y | r \<Rightarrow> r)"
      using a(1)[of y x] b(1)[of y x] by (cases "c1 x y") simp_all
  next
    fix x y z
    assume xy: "(case c1 x y of Same \<Rightarrow> c2 x y | r \<Rightarrow> r) \<noteq> Descending"
      and yz: "(case c1 y z of Same \<Rightarrow> c2 y z | r \<Rightarrow> r) \<noteq> Descending"
    show "(case c1 x z of Same \<Rightarrow> c2 x z | r \<Rightarrow> r) \<noteq> Descending"
    proof (cases "c1 x y = Same \<and> c1 y z = Same")
      case True
      then have "c1 x z = Same" using a(2) by blast
      then show ?thesis using True xy yz b(2)[of x y z] by simp
    next
      case False
      have "c1 x y \<noteq> Descending" "c1 y z \<noteq> Descending" using xy yz by auto
      then have "c1 x z = Ascending"
        using False a(3)[of x y z] a(4)[of x y z] by (cases "c1 x y"; cases "c1 y z") auto
      then show ?thesis by simp
    qed
  qed
qed

section \<open>The relational operators of the \<open>Comparable\<close> mixin\<close>

definition cmp_eq :: "('a \<Rightarrow> 'a \<Rightarrow> comparison_result) \<Rightarrow> 'a \<Rightarrow> 'a \<Rightarrow> bool" where
  "cmp_eq cmp lhs rhs = (cmp lhs rhs = Same)"

definition cmp_lt :: "('a \<Rightarrow> 'a \<Rightarrow> comparison_result) \<Rightarrow> 'a \<Rightarrow> 'a \<Rightarrow> bool" where
  "cmp_lt cmp lhs rhs = (cmp lhs rhs = Ascending)"

definition cmp_gt :: "('a \<Rightarrow> 'a \<Rightarrow> comparison_result) \<Rightarrow> 'a \<Rightarrow> 'a \<Rightarrow> bool" where
  "cmp_gt cmp lhs rhs = (cmp lhs rhs = Descending)"

definition cmp_le :: "('a \<Rightarrow> 'a \<Rightarrow> comparison_result) \<Rightarrow> 'a \<Rightarrow> 'a \<Rightarrow> bool" where
  "cmp_le cmp lhs rhs = (\<not> cmp_lt cmp rhs lhs)"

definition cmp_ge :: "('a \<Rightarrow> 'a \<Rightarrow> comparison_result) \<Rightarrow> 'a \<Rightarrow> 'a \<Rightarrow> bool" where
  "cmp_ge cmp lhs rhs = (\<not> cmp_lt cmp lhs rhs)"

lemmas cmp_ops = cmp_eq_def cmp_lt_def cmp_gt_def cmp_le_def cmp_ge_def

text \<open>The mixin's operators are the ones of a linear preorder.\<close>

lemma cmp_le_iff:
  assumes "total_comparator cmp"
  shows "cmp_le cmp a b = (cmp_lt cmp a b \<or> cmp_eq cmp a b)"
    and "cmp_gt cmp a b = cmp_lt cmp b a"
    and "cmp_ge cmp a b = cmp_le cmp b a"
  using total_comparator.flip[OF assms, of a b] total_comparator.flip[OF assms, of b a]
  by (auto simp: cmp_ops) (cases "cmp a b"; auto)+

end
