(* ===== verification/Floating.thy ===== *)
theory Floating
  imports Comparison "HOL-Library.Word" "HOL-Library.Log_Nat"
begin

unbundle bit_operations_syntax

text \<open>
  The numbers of the client: \<open>int64_t\<close> as a 64-bit word read with \<open>sint\<close>, and
  \<open>double\<close> as the 64-bit IEEE 754 pattern itself.  The value of a pattern is kept exactly, as
  an integer count of \<open>2 ^ -1074\<close> (the smallest subnormal), so that the comparison, the
  truncation to \<open>int64_t\<close>, the rounding conversion from \<open>int64_t\<close> and the addition of
  doubles are all computed on integers.  On top of them stand the comparison functions of
  \<open>util/comparison.cc\<close>.
\<close>

type_synonym int64 = "64 word"
type_synonym double = "64 word"

section \<open>Decoding a double\<close>

definition fp_sign :: "double \<Rightarrow> bool" where
  "fp_sign d = (2 ^ 63 \<le> uint d)"

definition fp_exp :: "double \<Rightarrow> nat" where
  "fp_exp d = nat (uint d div 2 ^ 52 mod 2 ^ 11)"

definition fp_frac :: "double \<Rightarrow> int" where
  "fp_frac d = uint d mod 2 ^ 52"

definition fp_isnan :: "double \<Rightarrow> bool" where
  "fp_isnan d = (fp_exp d = 2047 \<and> fp_frac d \<noteq> 0)"

definition fp_isinf :: "double \<Rightarrow> bool" where
  "fp_isinf d = (fp_exp d = 2047 \<and> fp_frac d = 0)"

definition fp_mag :: "double \<Rightarrow> int" where
  "fp_mag d = (if fp_exp d = 0 then fp_frac d else (2 ^ 52 + fp_frac d) * 2 ^ (fp_exp d - 1))"

text \<open>
  The value in units of \<open>2 ^ -1074\<close>.  An infinity decodes to a value above (below) every
  finite one, so that it takes its place in the order.
\<close>

definition fp_scaled :: "double \<Rightarrow> int" where
  "fp_scaled d = (if fp_sign d then - fp_mag d else fp_mag d)"

definition fp_unit :: int where
  "fp_unit = 2 ^ 1074"

definition fp_nan :: double where
  "fp_nan = 0x7FF8000000000000"

definition fp_inf :: "bool \<Rightarrow> double" where
  "fp_inf s = (if s then 0xFFF0000000000000 else 0x7FF0000000000000)"

section \<open>The operations of the language on doubles\<close>

definition fp_lt :: "double \<Rightarrow> double \<Rightarrow> bool" where
  "fp_lt a b = (\<not> fp_isnan a \<and> \<not> fp_isnan b \<and> fp_scaled a < fp_scaled b)"

definition fp_eq :: "double \<Rightarrow> double \<Rightarrow> bool" where
  "fp_eq a b = (\<not> fp_isnan a \<and> \<not> fp_isnan b \<and> fp_scaled a = fp_scaled b)"

definition fp_ge :: "double \<Rightarrow> double \<Rightarrow> bool" where
  "fp_ge a b = (\<not> fp_isnan a \<and> \<not> fp_isnan b \<and> fp_scaled b \<le> fp_scaled a)"

text \<open>Truncation towards zero, the conversion of \<open>static_cast<int64_t>(double)\<close>.\<close>

definition fp_trunc :: "double \<Rightarrow> int" where
  "fp_trunc d = (if fp_sign d then - (fp_mag d div fp_unit) else fp_mag d div fp_unit)"

definition fp_to_int64 :: "double \<Rightarrow> int64" where
  "fp_to_int64 d = word_of_int (fp_trunc d)"

text \<open>Rounding to nearest, ties to even, of a magnitude in units of \<open>2 ^ -1074\<close>.\<close>

definition fp_round_even :: "nat \<Rightarrow> nat \<Rightarrow> nat" where
  "fp_round_even a sh =
     (let q = a div 2 ^ sh; r = a mod 2 ^ sh
      in if 2 ^ sh < 2 * r \<or> (2 * r = 2 ^ sh \<and> odd q) then q + 1 else q)"

definition fp_round_bits :: "nat \<Rightarrow> nat" where
  "fp_round_bits a =
     (if a < 2 ^ 53 then a
      else let sh = floorlog 2 a - 53
           in min ((sh + 1) * 2 ^ 52 + (fp_round_even a sh - 2 ^ 52)) (2047 * 2 ^ 52))"

definition fp_of_mag :: "bool \<Rightarrow> nat \<Rightarrow> double" where
  "fp_of_mag s a = word_of_int (int (fp_round_bits a) + (if s then 2 ^ 63 else 0))"

text \<open>The conversion \<open>static_cast<double>(int64_t)\<close>: a magnitude of \<open>l\<close> binary digits
  gets the biased exponent \<open>l - 1 + 1023\<close>.\<close>

definition fp_bits_of_nat :: "nat \<Rightarrow> nat" where
  "fp_bits_of_nat a =
     (if a = 0 then 0
      else let l = floorlog 2 a
           in (l + 1022) * 2 ^ 52 +
              ((if l \<le> 53 then a * 2 ^ (53 - l) else fp_round_even a (l - 53)) - 2 ^ 52))"

definition fp_of_int64 :: "int64 \<Rightarrow> double" where
  "fp_of_int64 n =
     word_of_int (int (fp_bits_of_nat (nat \<bar>sint n\<bar>)) + (if sint n < 0 then 2 ^ 63 else 0))"

definition fp_add :: "double \<Rightarrow> double \<Rightarrow> double" where
  "fp_add a b =
     (if fp_isnan a \<or> fp_isnan b then fp_nan
      else if fp_isinf a \<and> fp_isinf b then (if fp_sign a = fp_sign b then a else fp_nan)
      else if fp_isinf a then a
      else if fp_isinf b then b
      else let s = fp_scaled a + fp_scaled b
           in if s = 0 then fp_of_mag (fp_sign a \<and> fp_sign b) 0
              else fp_of_mag (s < 0) (nat \<bar>s\<bar>))"

section \<open>Comparison of doubles and of mixed numbers\<close>

definition DoubleCompare :: "double \<Rightarrow> double \<Rightarrow> comparison_result" where
  "DoubleCompare left right =
     (if fp_lt left right then Ascending
      else if fp_lt right left then Descending
      else if fp_eq left right then Same
      else if \<not> fp_isnan right then Ascending
      else if \<not> fp_isnan left then Descending
      else Same)"

definition Int64Compare :: "int64 \<Rightarrow> int64 \<Rightarrow> comparison_result" where
  "Int64Compare left right = DefaultCompare (sint left) (sint right)"

definition INT64_MIN_VALUE_AS_DOUBLE :: double where
  "INT64_MIN_VALUE_AS_DOUBLE = fp_of_int64 0x8000000000000000"

definition INT64_MAX_VALUE_AS_DOUBLE :: double where
  "INT64_MAX_VALUE_AS_DOUBLE = fp_of_int64 0x7FFFFFFFFFFFFFFF"

definition CompareMixedNumber :: "double \<Rightarrow> int64 \<Rightarrow> comparison_result" where
  "CompareMixedNumber double_value int64_value =
     (if fp_lt double_value INT64_MIN_VALUE_AS_DOUBLE then Ascending
      else if fp_ge double_value INT64_MAX_VALUE_AS_DOUBLE then Descending
      else if fp_isnan double_value then Ascending
      else let double_as_int64 = fp_to_int64 double_value;
               cmp = Int64Compare double_as_int64 int64_value
           in if cmp \<noteq> Same then cmp
              else DoubleCompare double_value (fp_of_int64 int64_value))"

definition DoubleBits :: "double \<Rightarrow> 64 word" where
  "DoubleBits d = (if fp_isnan d then fp_nan else d)"

definition DoubleBitwiseEquals :: "double \<Rightarrow> double \<Rightarrow> bool" where
  "DoubleBitwiseEquals left right = (DoubleBits left = DoubleBits right)"

definition DoubleBitwiseHash :: "double \<Rightarrow> 64 word" where
  "DoubleBitwiseHash d = (let bits = DoubleBits d in bits XOR drop_bit 32 bits)"

section \<open>Rounding is exact on representable magnitudes\<close>

lemma fp_decode:
  fixes b :: nat and s :: bool and w :: double
  assumes "b < 2 ^ 63"
  defines "w \<equiv> word_of_int (int b + (if s then 2 ^ 63 else 0))"
  shows "uint w = int b + (if s then 2 ^ 63 else 0)"
    and "fp_exp w = b div 2 ^ 52"
    and "fp_frac w = int (b mod 2 ^ 52)"
    and "fp_sign w = s"
proof -
  have b: "int b < 2 ^ 63" using assms(1) by simp
  have u: "uint w = int b + (if s then 2 ^ 63 else 0)"
    unfolding w_def uint_word_of_int using b by (auto intro!: mod_pos_pos_trivial)
  then show "uint w = int b + (if s then 2 ^ 63 else 0)" .
  have d: "(int b + 2 ^ 63) div 2 ^ 52 = 2 ^ 11 + int b div 2 ^ 52"
    using div_mult_self1[of "2 ^ 52 :: int" "int b" "2 ^ 11"] by simp
  have m: "(int b + 2 ^ 63) mod 2 ^ 52 = int b mod 2 ^ 52"
    using mod_mult_self1[of "int b" "2 ^ 11" "2 ^ 52 :: int"] by simp
  have "b div 2 ^ 52 < 2 ^ 11"
    by (rule less_mult_imp_div_less) (use assms(1) in simp)
  then have "int (b div 2 ^ 52 mod 2 ^ 11) = int (b div 2 ^ 52)"
    by (simp only: mod_less)
  then have l: "int b div 2 ^ 52 mod 2 ^ 11 = int b div 2 ^ 52"
    by (simp only: of_nat_div of_nat_mod of_nat_power of_nat_numeral)
  have q: "int b div 2 ^ 52 = int (b div 2 ^ 52)"
    by (simp only: of_nat_div of_nat_power of_nat_numeral)
  have "uint w div 2 ^ 52 mod 2 ^ 11 = int b div 2 ^ 52"
    unfolding u by (cases s) (simp_all only: if_True if_False d l mod_add_self1 add_0_right)
  then show "fp_exp w = b div 2 ^ 52"
    unfolding fp_exp_def by (simp only: q nat_int)
  have "uint w mod 2 ^ 52 = int b mod 2 ^ 52"
    unfolding u by (cases s) (simp_all only: if_True if_False m add_0_right)
  then show "fp_frac w = int (b mod 2 ^ 52)"
    unfolding fp_frac_def by (simp only: of_nat_mod of_nat_power of_nat_numeral)
  show "fp_sign w = s"
    unfolding fp_sign_def u using b by simp
qed

lemma fp_round_bits_small: "a < 2 ^ 53 \<Longrightarrow> fp_round_bits a = a"
  by (simp only: fp_round_bits_def if_True)

text \<open>A magnitude with at most 53 significant bits below the overflow threshold.\<close>

lemma fp_round_bits_exact:
  assumes a: "a = k * 2 ^ j" and k: "k < 2 ^ 53" and big: "\<not> a < 2 ^ 53" and lim: "a < 2 ^ 2098"
  obtains e q where "fp_round_bits a = e * 2 ^ 52 + (q - 2 ^ 52)" and "2 ^ 52 \<le> q" and "q < 2 ^ 53"
    and "1 \<le> e" and "e < 2047" and "a = q * 2 ^ (e - 1)"
proof -
  define L where "L = floorlog 2 a"
  have a0: "0 < a" using big by (cases "a = 0") simp_all
  have L: "2 ^ (L - 1) \<le> a" "a < 2 ^ L"
    using floorlog_bounds[of a 2] a0 by (simp_all add: L_def)
  have L53: "53 < L"
    using big L(2) by (metis linorder_not_less one_less_numeral_iff order.strict_trans2
        power_increasing_iff semiring_norm(76))
  have L2098: "L \<le> 2098"
    unfolding L_def by (rule floorlog_leI[OF lim]) simp_all
  define sh where "sh = L - 53"
  have "2 ^ (L - 1) < (2 :: nat) ^ (53 + j)"
  proof -
    have "a < 2 ^ 53 * 2 ^ j" unfolding a by (rule mult_less_mono1[OF k]) simp
    then show ?thesis using L(1) by (simp only: power_add)
  qed
  then have "L - 1 < 53 + j"
    by (rule power_less_imp_less_exp[rotated]) simp
  then have "sh \<le> j" using L53 by (simp add: sh_def)
  then have dvd: "2 ^ sh dvd a"
    unfolding a by (simp only: le_imp_power_dvd dvd_mult)
  define q where "q = a div 2 ^ sh"
  have aq: "a = q * 2 ^ sh" using dvd by (simp only: q_def dvd_div_mult_self)
  have r: "a mod 2 ^ sh = 0" using dvd by (rule dvd_imp_mod_0)
  have LL: "L - 1 = 52 + sh" "L = 53 + sh" using L53 by (simp_all add: sh_def)
  have q1: "2 ^ 52 \<le> q"
  proof -
    have "2 ^ 52 * 2 ^ sh \<le> q * 2 ^ sh"
      using L(1) unfolding LL(1) aq[symmetric] by (simp only: power_add)
    then show ?thesis by (simp only: mult_le_cancel2) simp
  qed
  have q2: "q < 2 ^ 53"
  proof -
    have "q * 2 ^ sh < 2 ^ 53 * 2 ^ sh"
      using L(2) unfolding LL(2) aq[symmetric] by (simp only: power_add)
    then show ?thesis by (simp only: mult_less_cancel2)
  qed
  have bound: "(sh + 1) * 2 ^ 52 + (q - 2 ^ 52) \<le> 2047 * 2 ^ 52"
  proof -
    have "(sh + 1) * 2 ^ 52 \<le> (2046 :: nat) * 2 ^ 52"
      by (rule mult_le_mono1) (use L2098 LL in simp)
    moreover have "q - 2 ^ 52 \<le> 2 ^ 52" using q2 by simp
    ultimately show ?thesis by simp
  qed
  have "fp_round_bits a = min ((sh + 1) * 2 ^ 52 + (q - 2 ^ 52)) (2047 * 2 ^ 52)"
    using big by (simp add: fp_round_bits_def fp_round_even_def Let_def r flip: L_def sh_def q_def)
  then have "fp_round_bits a = (sh + 1) * 2 ^ 52 + (q - 2 ^ 52)"
    using bound by (simp only: min_absorb1)
  moreover have "sh + 1 < 2047" using L2098 LL by simp
  ultimately show ?thesis using that[of "sh + 1" q] q1 q2 aq by simp
qed

text \<open>A biased exponent and a 53-bit significand, packed and decoded again.\<close>

lemma fp_decode_normal:
  fixes e q :: nat and s :: bool and w :: double
  assumes q1: "2 ^ 52 \<le> q" and q2: "q < 2 ^ 53" and e1: "1 \<le> e" and e2: "e < 2047"
  defines "w \<equiv> word_of_int (int (e * 2 ^ 52 + (q - 2 ^ 52)) + (if s then 2 ^ 63 else 0))"
  shows "fp_mag w = int q * 2 ^ (e - 1)" and "fp_exp w = e" and "fp_sign w = s"
proof -
  have f: "q - 2 ^ 52 < 2 ^ 52" using q1 q2 by simp
  have b: "e * 2 ^ 52 + (q - 2 ^ 52) < 2 ^ 63"
  proof -
    have "e * 2 ^ 52 \<le> 2046 * 2 ^ 52" by (rule mult_le_mono1) (use e2 in simp)
    with f show ?thesis by simp
  qed
  note D = fp_decode[OF b, of s, folded w_def]
  have dm: "(e * 2 ^ 52 + (q - 2 ^ 52)) div 2 ^ 52 = e"
    "(e * 2 ^ 52 + (q - 2 ^ 52)) mod 2 ^ 52 = q - 2 ^ 52"
    using f by simp_all
  have iq: "2 ^ 52 + int (q - 2 ^ 52) = int q"
    using q1 by simp
  have "e \<noteq> 0" using e1 by simp
  then show "fp_mag w = int q * 2 ^ (e - 1)"
    unfolding fp_mag_def D dm iq by (simp only: if_False)
  show "fp_exp w = e" unfolding D dm by (rule refl)
  show "fp_sign w = s" by (rule D(4))
qed

lemma fp_of_mag_exact:
  assumes a: "a = k * 2 ^ j" and k: "k < 2 ^ 53" and lim: "a < 2 ^ 2098"
  shows "fp_mag (fp_of_mag s a) = int a \<and> fp_sign (fp_of_mag s a) = s \<and> fp_exp (fp_of_mag s a) < 2047"
proof (cases "a < 2 ^ 53")
  case True
  then have b: "a < 2 ^ 63" by simp
  have w: "fp_of_mag s a = word_of_int (int a + (if s then 2 ^ 63 else 0))"
    by (simp only: fp_of_mag_def fp_round_bits_small[OF True])
  note D = fp_decode[OF b, of s, folded w]
  have e: "a div 2 ^ 52 \<le> 1" using True by (simp add: div_le_dividend less_Suc_eq_le[symmetric] less_mult_imp_div_less)
  have split: "a = a div 2 ^ 52 * 2 ^ 52 + a mod 2 ^ 52" by (rule div_mult_mod_eq[symmetric])
  have "fp_mag (fp_of_mag s a) = int a"
  proof (cases "a div 2 ^ 52 = 0")
    case True
    with split show ?thesis unfolding fp_mag_def D by simp
  next
    case False
    with e have 1: "a div 2 ^ 52 = 1" by simp
    with split have "a = 2 ^ 52 + a mod 2 ^ 52" by (simp only: mult_1)
    then have "int a = 2 ^ 52 + int (a mod 2 ^ 52)"
      by (metis of_nat_add of_nat_numeral of_nat_power)
    with 1 show ?thesis unfolding fp_mag_def D by simp
  qed
  with D e show ?thesis by simp
next
  case False
  from fp_round_bits_exact[OF a k False lim] obtain e q where
    r: "fp_round_bits a = e * 2 ^ 52 + (q - 2 ^ 52)" and q1: "2 ^ 52 \<le> q" and q2: "q < 2 ^ 53"
    and e1: "1 \<le> e" and e2: "e < 2047" and aq: "a = q * 2 ^ (e - 1)" .
  have w: "fp_of_mag s a = word_of_int (int (e * 2 ^ 52 + (q - 2 ^ 52)) + (if s then 2 ^ 63 else 0))"
    by (simp only: fp_of_mag_def r)
  note D = fp_decode_normal[OF q1 q2 e1 e2, of s, folded w]
  have "fp_mag (fp_of_mag s a) = int q * 2 ^ (e - 1)" by (rule D(1))
  moreover have "int a = int q * 2 ^ (e - 1)"
    unfolding aq by (simp only: of_nat_mult of_nat_power of_nat_numeral)
  ultimately have 1: "fp_mag (fp_of_mag s a) = int a" by (simp only:)
  have 2: "fp_exp (fp_of_mag s a) < 2047" unfolding D(2) by (rule e2)
  show ?thesis by (intro conjI 1 2 D(3))
qed

text \<open>Every decoded magnitude has that form.\<close>

lemma fp_frac_bounds: "0 \<le> fp_frac d" "fp_frac d < 2 ^ 52"
  by (simp_all add: fp_frac_def)

lemma fp_mag_nonneg: "0 \<le> fp_mag d"
  using fp_frac_bounds[of d] by (simp add: fp_mag_def)

lemma fp_exp_le: "fp_exp d \<le> 2047"
proof -
  have "uint d div 2 ^ 52 mod 2 ^ 11 < (2 :: int) ^ 11" by (rule pos_mod_bound) simp
  then show ?thesis by (simp add: fp_exp_def)
qed

lemma fp_mag_form:
  obtains k where "nat (fp_mag d) = k * 2 ^ (fp_exp d - 1)" and "k < 2 ^ 53"
    and "fp_exp d \<noteq> 0 \<Longrightarrow> 2 ^ 52 \<le> k"
proof (cases "fp_exp d = 0")
  case True
  have "nat (fp_frac d) < 2 ^ 53" using fp_frac_bounds[of d] by simp
  with True that[of "nat (fp_frac d)"] show ?thesis by (simp add: fp_mag_def)
next
  case False
  have "nat (fp_mag d) = nat (2 ^ 52 + fp_frac d) * 2 ^ (fp_exp d - 1)"
    using False fp_frac_bounds[of d] by (simp add: fp_mag_def nat_mult_distrib nat_power_eq)
  moreover have "nat (2 ^ 52 + fp_frac d) < 2 ^ 53" "2 ^ 52 \<le> nat (2 ^ 52 + fp_frac d)"
    using fp_frac_bounds[of d] by simp_all
  ultimately show ?thesis using that by blast
qed

section \<open>The conversion from \<open>int64_t\<close>\<close>

lemma fp_of_nat_exact:
  fixes a :: nat and s :: bool and w :: double
  assumes a: "a = k * 2 ^ j" and k: "k < 2 ^ 53" and a64: "a < 2 ^ 64"
  defines "w \<equiv> word_of_int (int (fp_bits_of_nat a) + (if s then 2 ^ 63 else 0))"
  shows "fp_mag w = int a * fp_unit \<and> fp_exp w < 2047 \<and> fp_sign w = s"
proof (cases "a = 0")
  case True
  have "w = word_of_int (int 0 + (if s then 2 ^ 63 else 0))"
    by (simp add: w_def fp_bits_of_nat_def True)
  note D = fp_decode[of 0 s, folded this]
  show ?thesis using D by (simp add: True fp_mag_def)
next
  case False
  define L where "L = floorlog 2 a"
  have L: "2 ^ (L - 1) \<le> a" "a < 2 ^ L"
    using floorlog_bounds[of a 2] False by (simp_all add: L_def)
  have L64: "L \<le> 64" unfolding L_def by (rule floorlog_leI[OF a64]) simp_all
  have L0: "0 < L" using L(2) False by (cases L) simp_all
  obtain q where q: "fp_bits_of_nat a = (L + 1022) * 2 ^ 52 + (q - 2 ^ 52)"
      and q1: "2 ^ 52 \<le> q" and q2: "q < 2 ^ 53" and aq: "a * 2 ^ 1074 = q * 2 ^ (L + 1021)"
  proof (cases "L \<le> 53")
    case True
    then obtain i where i: "53 = L + i" using le_Suc_ex by blast
    have m: "52 = L - 1 + i" using i L0 by simp
    have "2 ^ (L - 1) * 2 ^ i \<le> a * 2 ^ i" by (rule mult_le_mono1[OF L(1)])
    then have 1: "2 ^ 52 \<le> a * 2 ^ i" unfolding m power_add .
    have "a * 2 ^ i < 2 ^ L * 2 ^ i" by (rule mult_less_mono1[OF L(2)]) simp
    then have 2: "a * 2 ^ i < 2 ^ 53" unfolding i power_add .
    have "1074 = i + (L + 1021)" using i by simp
    then have 3: "a * 2 ^ 1074 = a * 2 ^ i * 2 ^ (L + 1021)"
      by (simp only: power_add mult.assoc)
    have "53 - L = i" using i by simp
    then have 4: "fp_bits_of_nat a = (L + 1022) * 2 ^ 52 + (a * 2 ^ i - 2 ^ 52)"
      by (simp only: fp_bits_of_nat_def Let_def L_def[symmetric] True False if_True if_False)
    show ?thesis by (rule that[OF 4 1 2 3])
  next
    case L53: False
    define i where "i = L - 53"
    have i: "L = 53 + i" "L - 1 = 52 + i" using L53 by (simp_all add: i_def)
    have "2 ^ (L - 1) < (2 :: nat) ^ (53 + j)"
    proof -
      have "a < 2 ^ 53 * 2 ^ j" unfolding a by (rule mult_less_mono1[OF k]) simp
      then show ?thesis using L(1) by (simp only: power_add)
    qed
    then have "L - 1 < 53 + j" by (rule power_less_imp_less_exp[rotated]) simp
    then have "i \<le> j" using i by simp
    then have dvd: "2 ^ i dvd a" unfolding a by (simp only: le_imp_power_dvd dvd_mult)
    have aq: "a = a div 2 ^ i * 2 ^ i" using dvd by (simp only: dvd_div_mult_self)
    have "2 ^ 52 * 2 ^ i \<le> a div 2 ^ i * 2 ^ i"
      using L(1) unfolding i(2) aq[symmetric] by (simp only: power_add)
    then have 1: "2 ^ 52 \<le> a div 2 ^ i" by (simp only: mult_le_cancel2) simp
    have "a div 2 ^ i * 2 ^ i < 2 ^ 53 * 2 ^ i"
      using L(2) unfolding i(1) aq[symmetric] by (simp only: power_add)
    then have 2: "a div 2 ^ i < 2 ^ 53" by (simp only: mult_less_cancel2)
    have "L + 1021 = i + 1074" using i by simp
    then have 3: "a * 2 ^ 1074 = a div 2 ^ i * 2 ^ (L + 1021)"
      using aq by (simp only: power_add mult.assoc[symmetric])
    have r: "a mod 2 ^ i = 0" using dvd by (rule dvd_imp_mod_0)
    have "fp_round_even a i = a div 2 ^ i" by (simp add: fp_round_even_def r)
    then have 4: "fp_bits_of_nat a = (L + 1022) * 2 ^ 52 + (a div 2 ^ i - 2 ^ 52)"
      by (simp only: fp_bits_of_nat_def Let_def L_def[symmetric] L53 False if_False i_def[symmetric])
    show ?thesis by (rule that[OF 4 1 2 3])
  qed
  have e: "1 \<le> L + 1022" "L + 1022 < 2047" using L64 by simp_all
  have w: "w = word_of_int (int ((L + 1022) * 2 ^ 52 + (q - 2 ^ 52)) + (if s then 2 ^ 63 else 0))"
    by (simp only: w_def q)
  note D = fp_decode_normal[OF q1 q2 e, of s, folded w]
  have le: "L + 1022 - 1 = L + 1021" by simp
  have "int (a * 2 ^ 1074) = int (q * 2 ^ (L + 1021))" by (simp only: aq)
  then have "fp_mag w = int a * fp_unit"
    unfolding D(1) le fp_unit_def by (simp only: of_nat_mult of_nat_power of_nat_numeral)
  then show ?thesis using D(2,3) e(2) by (simp only: simp_thms)
qed

section \<open>The comparison functions are exact\<close>

lemmas fp_eval = fp_of_int64_def fp_bits_of_nat_def compute_floorlog fp_round_even_def Let_def
  fp_scaled_def fp_mag_def fp_exp_def fp_frac_def fp_sign_def fp_isnan_def fp_isinf_def fp_unit_def
  fp_lt_def fp_ge_def fp_eq_def

lemma int64_limits_as_double:
  "INT64_MAX_VALUE_AS_DOUBLE = 0x43E0000000000000"
  "INT64_MIN_VALUE_AS_DOUBLE = 0xC3E0000000000000"
  by (simp_all add: INT64_MAX_VALUE_AS_DOUBLE_def INT64_MIN_VALUE_AS_DOUBLE_def fp_eval)

lemma int64_limits_scaled:
  "fp_scaled INT64_MAX_VALUE_AS_DOUBLE = 2 ^ 63 * fp_unit"
  "fp_scaled INT64_MIN_VALUE_AS_DOUBLE = - (2 ^ 63) * fp_unit"
  "\<not> fp_isnan INT64_MAX_VALUE_AS_DOUBLE" "\<not> fp_isnan INT64_MIN_VALUE_AS_DOUBLE"
  by (simp_all add: int64_limits_as_double fp_eval)
lemma DoubleCompare_key:
  "DoubleCompare a b =
     (if fp_isnan a then (if fp_isnan b then Same else Ascending)
      else if fp_isnan b then Descending else DefaultCompare (fp_scaled a) (fp_scaled b))"
  by (auto simp: DoubleCompare_def fp_lt_def fp_eq_def DefaultCompare_def)

interpretation double_cmp: total_comparator DoubleCompare
  by unfold_locales (auto simp: DoubleCompare_key DefaultCompare_def split: if_splits)

interpretation int64_cmp: strict_comparator Int64Compare
  by unfold_locales (auto simp: Int64Compare_def DefaultCompare_def signed_word_eqI split: if_splits)

lemma fp_of_int64_scaled:
  assumes a: "nat \<bar>sint n\<bar> = k * 2 ^ j" and k: "k < 2 ^ 53"
  shows "fp_scaled (fp_of_int64 n) = sint n * fp_unit" and "\<not> fp_isnan (fp_of_int64 n)"
proof -
  have "\<bar>sint n\<bar> \<le> 2 ^ 63"
    using sint_greater_eq[of n] sint_less[of n] by simp
  then have lim: "nat \<bar>sint n\<bar> < 2 ^ 64" by simp
  note E = fp_of_nat_exact[OF a k lim, of "sint n < 0", folded fp_of_int64_def]
  show "\<not> fp_isnan (fp_of_int64 n)" using E by (simp add: fp_isnan_def)
  show "fp_scaled (fp_of_int64 n) = sint n * fp_unit"
    using E by (simp add: fp_scaled_def)
qed

text \<open>Truncation: the order against an integer is decided by the truncated value unless they agree.\<close>

lemma fp_unit_pos: "0 < fp_unit" by (simp add: fp_unit_def)

lemma fp_trunc_scaled:
  "fp_trunc d < n \<Longrightarrow> fp_scaled d < n * fp_unit"
  "n < fp_trunc d \<Longrightarrow> n * fp_unit < fp_scaled d"
proof -
  define q where "q = fp_mag d div fp_unit"
  have le: "q * fp_unit \<le> fp_mag d" 
    unfolding q_def using fp_unit_pos by (metis minus_mod_eq_div_mult pos_mod_sign diff_ge_0_iff_ge add.commute add_le_same_cancel1 div_mult_mod_eq le_add_same_cancel1 )
  have lt: "fp_mag d < (q + 1) * fp_unit"
    unfolding q_def by (metis div_mult_mod_eq pos_mod_bound fp_unit_pos distrib_right mult_1 add_strict_left_mono)
  have mono: "x \<le> y \<Longrightarrow> x * fp_unit \<le> y * fp_unit" for x y :: int
    using fp_unit_pos by (simp add: mult_right_mono less_imp_le)
  show "fp_scaled d < n * fp_unit" if "fp_trunc d < n"
  proof (cases "fp_sign d")
    case True
    with that have "- n + 1 \<le> q" by (simp add: fp_trunc_def q_def)
    from mono[OF this] le have "fp_unit - n * fp_unit \<le> fp_mag d"
      by (simp add: left_diff_distrib)
    then show ?thesis using True fp_unit_pos by (simp add: fp_scaled_def)
  next
    case False
    with that have "q + 1 \<le> n" by (simp add: fp_trunc_def q_def)
    from mono[OF this] lt show ?thesis using False by (simp add: fp_scaled_def)
  qed
  show "n * fp_unit < fp_scaled d" if "n < fp_trunc d"
  proof (cases "fp_sign d")
    case True
    with that have "q + 1 \<le> - n" by (simp add: fp_trunc_def q_def)
    from mono[OF this] lt have "fp_mag d < - n * fp_unit" by simp
    then show ?thesis using True by (simp add: fp_scaled_def)
  next
    case False
    with that have "n + 1 \<le> q" by (simp add: fp_trunc_def q_def)
    from mono[OF this] le have "n * fp_unit + fp_unit \<le> fp_mag d" by (simp add: distrib_right)
    then show ?thesis using False fp_unit_pos by (simp add: fp_scaled_def)
  qed
qed

lemma fp_trunc_form:
  obtains k j where "nat (fp_mag d div fp_unit) = k * 2 ^ j" and "k < 2 ^ 53"
proof -
  obtain k where k: "nat (fp_mag d) = k * 2 ^ (fp_exp d - 1)" "k < 2 ^ 53" by (rule fp_mag_form)
  have n: "nat (fp_mag d div fp_unit) = nat (fp_mag d) div 2 ^ 1074"
    unfolding fp_unit_def by (simp only: nat_div_distrib fp_mag_nonneg nat_power_eq zero_le_numeral nat_numeral)
  show ?thesis
  proof (cases "1074 \<le> fp_exp d - 1")
    case True
    then obtain i where i: "fp_exp d - 1 = 1074 + i" using le_Suc_ex by blast
    have "nat (fp_mag d) = k * 2 ^ i * 2 ^ 1074"
      unfolding k i by (simp only: power_add mult.assoc mult.commute[of "2 ^ 1074"])
    then have "nat (fp_mag d) div 2 ^ 1074 = k * 2 ^ i"
      by (simp only: nonzero_mult_div_cancel_right power_not_zero zero_neq_numeral[symmetric] simp_thms)
    with n k(2) that show ?thesis by (simp only:)
  next
    case False
    then have "(2::nat) ^ (fp_exp d - 1) \<le> 2 ^ 1074" by (intro power_increasing) simp_all
    then have "nat (fp_mag d) div 2 ^ 1074 \<le> nat (fp_mag d) div 2 ^ (fp_exp d - 1)"
      by (intro div_le_mono2) simp_all
    also have "\<dots> = k" unfolding k by simp
    finally have "nat (fp_mag d div fp_unit) < 2 ^ 53" unfolding n using k(2) by (rule le_less_trans)
    then show ?thesis using that[of "nat (fp_mag d div fp_unit)" 0] by simp
  qed
qed

lemma fp_trunc_same:
  assumes t: "fp_trunc d = sint n"
  shows "fp_scaled (fp_of_int64 n) = sint n * fp_unit \<and> \<not> fp_isnan (fp_of_int64 n)"
proof -
  have "0 \<le> fp_mag d div fp_unit"
    using fp_mag_nonneg[of d] fp_unit_pos by (simp add: pos_imp_zdiv_nonneg_iff)
  then have nd: "\<bar>sint n\<bar> = fp_mag d div fp_unit"
    unfolding t[symmetric] fp_trunc_def by simp
  obtain k j where "nat \<bar>sint n\<bar> = k * 2 ^ j" "k < 2 ^ 53"
    unfolding nd by (rule fp_trunc_form)
  then show ?thesis using fp_of_int64_scaled by blast
qed

lemma fp_to_int64_in_range:
  assumes lo: "- (2 ^ 63) * fp_unit \<le> fp_scaled d" and hi: "fp_scaled d < 2 ^ 63 * fp_unit"
  shows "sint (fp_to_int64 d) = fp_trunc d"
proof -
  have "- (2 ^ 63) \<le> fp_trunc d"
    using fp_trunc_scaled(1)[of d "- (2 ^ 63)"] lo by linarith
  moreover have "fp_trunc d < 2 ^ 63"
  proof (rule ccontr)
    assume "\<not> fp_trunc d < 2 ^ 63"
    then have big: "2 ^ 63 \<le> fp_trunc d" by simp
    then have "2 ^ 63 * fp_unit \<le> fp_trunc d * fp_unit"
      using fp_unit_pos by (simp only: mult_right_mono less_imp_le)
    moreover have "\<not> fp_trunc d \<le> 0" using big by simp
    moreover have "fp_trunc d * fp_unit \<le> fp_scaled d \<or> fp_trunc d \<le> 0"
    proof (cases "fp_sign d")
      case True
      then show ?thesis
        using fp_mag_nonneg[of d] fp_unit_pos by (simp add: fp_trunc_def pos_imp_zdiv_nonneg_iff)
    next
      case False
      have "fp_mag d div fp_unit * fp_unit + fp_mag d mod fp_unit = fp_mag d"
        by (rule div_mult_mod_eq)
      moreover have "0 \<le> fp_mag d mod fp_unit" by (rule pos_mod_sign[OF fp_unit_pos])
      ultimately have "fp_mag d div fp_unit * fp_unit \<le> fp_mag d" by linarith
      then show ?thesis using False by (simp add: fp_trunc_def fp_scaled_def)
    qed
    ultimately show False using hi by linarith
  qed
  ultimately show ?thesis
    unfolding fp_to_int64_def int_word_sint by simp
qed

text \<open>
  The mixed comparison is the comparison of the exact values: no rounding error of either
  conversion can make it wrong.
\<close>

lemma CompareMixedNumber_key:
  "CompareMixedNumber d n =
     (if fp_isnan d then Ascending else DefaultCompare (fp_scaled d) (sint n * fp_unit))"
proof (cases "fp_isnan d \<or> fp_lt d INT64_MIN_VALUE_AS_DOUBLE \<or> fp_ge d INT64_MAX_VALUE_AS_DOUBLE")
  case True
  have "- (2 ^ 63) \<le> sint n" "sint n < 2 ^ 63"
    using sint_greater_eq[of n] sint_less[of n] by simp_all
  then have r: "- (2 ^ 63) * fp_unit \<le> sint n * fp_unit" "sint n * fp_unit < 2 ^ 63 * fp_unit"
    using fp_unit_pos by (simp_all only: mult_right_mono less_imp_le mult_strict_right_mono)
  from True consider "fp_isnan d" | "\<not> fp_isnan d" "fp_scaled d < - (2 ^ 63) * fp_unit"
    | "\<not> fp_isnan d" "\<not> fp_scaled d < - (2 ^ 63) * fp_unit" "2 ^ 63 * fp_unit \<le> fp_scaled d"
    by (auto simp: fp_lt_def fp_ge_def int64_limits_scaled)
  then show ?thesis
  proof cases
    case 1
    then show ?thesis by (simp add: CompareMixedNumber_def fp_lt_def fp_ge_def)
  next
    case 2
    with r(1) have "fp_scaled d < sint n * fp_unit" by linarith
    with 2 show ?thesis by (simp add: CompareMixedNumber_def fp_lt_def int64_limits_scaled DefaultCompare_def)
  next
    case 3
    with r(2) have "sint n * fp_unit < fp_scaled d" by linarith
    with 3 show ?thesis
      by (simp add: CompareMixedNumber_def fp_lt_def fp_ge_def int64_limits_scaled DefaultCompare_def)
  qed
next
  case False
  then have nn: "\<not> fp_isnan d" and lo: "- (2 ^ 63) * fp_unit \<le> fp_scaled d" and hi: "fp_scaled d < 2 ^ 63 * fp_unit"
    by (auto simp: fp_lt_def fp_ge_def int64_limits_scaled)
  note s = fp_to_int64_in_range[OF lo hi]
  have c: "CompareMixedNumber d n =
      (if fp_trunc d < sint n then Ascending else if sint n < fp_trunc d then Descending
       else DoubleCompare d (fp_of_int64 n))"
    using False by (simp add: CompareMixedNumber_def Int64Compare_def s DefaultCompare_def Let_def)
  consider "fp_trunc d < sint n" | "sint n < fp_trunc d" | "fp_trunc d = sint n" by linarith
  then show ?thesis
  proof cases
    case 1
    with fp_trunc_scaled(1)[OF 1] nn show ?thesis unfolding c by (simp add: DefaultCompare_def)
  next
    case 2
    with fp_trunc_scaled(2)[OF 2] nn show ?thesis unfolding c by (simp add: DefaultCompare_def)
  next
    case 3
    with fp_trunc_same[OF 3] nn show ?thesis unfolding c by (simp add: DoubleCompare_key)
  qed
qed

lemma DoubleBitwiseEquals_iff:
  "DoubleBitwiseEquals a b = (fp_isnan a \<and> fp_isnan b \<or> a = b)"
proof -
  have "fp_isnan fp_nan" by (simp add: fp_nan_def fp_eval)
  then show ?thesis by (auto simp: DoubleBitwiseEquals_def DoubleBits_def)
qed

lemma DoubleBitwiseEquals_hash:
  "DoubleBitwiseEquals a b \<Longrightarrow> DoubleBitwiseHash a = DoubleBitwiseHash b"
  by (simp add: DoubleBitwiseEquals_def DoubleBitwiseHash_def)

lemma DoubleBitwiseEquals_same: "DoubleBitwiseEquals a b \<Longrightarrow> DoubleCompare a b = Same"
  by (auto simp: DoubleBitwiseEquals_iff DoubleCompare_key)

end
