(* ===== verification/Timestamps.thy ===== *)
theory Timestamps
  imports Floating
begin

text \<open>
  \<open>timestamp.cc\<close>, \<open>model/snapshot_version.cc\<close> and \<open>geo_point.cc\<close>.  The relational operators
  of \<open>Timestamp\<close> become an instance of \<open>linorder\<close>; a \<open>GeoPoint\<close> is a type of the pairs
  its constructor admits, so that NaN coordinates cannot occur.
\<close>

type_synonym int32 = "32 word"

section \<open>Timestamps\<close>

datatype Timestamp = Timestamp (seconds: int64) (nanoseconds: int32)

definition kNanosPerSecond :: int where
  "kNanosPerSecond = 1000 * 1000 * 1000"

definition ValidateBounds :: "Timestamp \<Rightarrow> bool" where
  "ValidateBounds t = (0 \<le> sint (nanoseconds t) \<and> sint (nanoseconds t) < kNanosPerSecond \<and>
     -62135596800 \<le> sint (seconds t) \<and> sint (seconds t) < 253402300800)"

definition make_Timestamp :: "int64 \<Rightarrow> int32 \<Rightarrow> Timestamp result" where
  "make_Timestamp s n = hard_assert (ValidateBounds (Timestamp s n)) (Inr (Timestamp s n))"

definition MakeNormalizedTimestamp :: "int64 \<Rightarrow> int64 \<Rightarrow> Timestamp result" where
  "MakeNormalizedTimestamp s nanos =
     (let (s, nanos) = (if sint nanos < 0 then (s - 1, word_of_int kNanosPerSecond + nanos) else (s, nanos))
      in hard_assert (sint nanos < kNanosPerSecond) (make_Timestamp s (word_of_int (sint nanos))))"

definition FromTimeT :: "int64 \<Rightarrow> Timestamp result" where
  "FromTimeT s = make_Timestamp s 0"

instantiation Timestamp :: linorder
begin

definition less_Timestamp :: "Timestamp \<Rightarrow> Timestamp \<Rightarrow> bool" where
  "less_Timestamp lhs rhs = (sint (seconds lhs) < sint (seconds rhs) \<or>
     (sint (seconds lhs) = sint (seconds rhs) \<and> sint (nanoseconds lhs) < sint (nanoseconds rhs)))"

definition less_eq_Timestamp :: "Timestamp \<Rightarrow> Timestamp \<Rightarrow> bool" where
  "less_eq_Timestamp lhs rhs = (\<not> rhs < lhs)"

instance
proof
  fix a b c :: Timestamp
  show "a \<le> b \<Longrightarrow> b \<le> a \<Longrightarrow> a = b"
    by (cases a; cases b) (auto simp: less_eq_Timestamp_def less_Timestamp_def dest: signed_word_eqI)
qed (auto simp: less_eq_Timestamp_def less_Timestamp_def)

end

text \<open>The equality operator is the negation of the two orders, and is equality.\<close>

definition Timestamp_eq :: "Timestamp \<Rightarrow> Timestamp \<Rightarrow> bool" where
  "Timestamp_eq lhs rhs = (\<not> (lhs < rhs \<or> rhs < lhs))"

lemma Timestamp_eq_iff [simp]: "Timestamp_eq a b = (a = b)"
  by (auto simp: Timestamp_eq_def)

lemma MakeNormalizedTimestamp_value:
  assumes "MakeNormalizedTimestamp s n = Inr t" "- kNanosPerSecond \<le> sint n"
    "- (2 ^ 62) \<le> sint s"
  shows "sint (seconds t) * kNanosPerSecond + sint (nanoseconds t) = sint s * kNanosPerSecond + sint n"
    and "ValidateBounds t"
proof -
  define s' n' where "s' = (if sint n < 0 then s - 1 else s)"
    and "n' = (if sint n < 0 then word_of_int kNanosPerSecond + n else n)"
  have t: "t = Timestamp s' (word_of_int (sint n'))" "ValidateBounds t" "sint n' < kNanosPerSecond"
    using assms(1) by (auto simp: MakeNormalizedTimestamp_def make_Timestamp_def s'_def n'_def split: if_splits)
  have "sint n < 2 ^ 63" "- (2 ^ 63) \<le> sint n" "sint s < 2 ^ 63" using sint_less[of n] sint_greater_eq[of n] sint_less[of s] by simp_all
  then have n': "sint n' = (if sint n < 0 then kNanosPerSecond + sint n else sint n)"
    using assms(2) by (auto simp: n'_def kNanosPerSecond_def sint_word_ariths signed_take_bit_int_eq_self_iff
        signed_take_bit_int_eq_self)
  have s': "sint s' = (if sint n < 0 then sint s - 1 else sint s)"
    using assms(3) \<open>sint s < 2 ^ 63\<close> by (auto simp: s'_def sint_word_ariths signed_take_bit_int_eq_self)
  have "0 \<le> sint n'" "sint n' < 2 ^ 31" using n' t(3) assms(2) by (auto simp: kNanosPerSecond_def)
  moreover have "sint (word_of_int k :: int32) = k" if "0 \<le> k" "k < 2 ^ 31" for k
    using that by (simp add: sint_sbintrunc' signed_take_bit_int_eq_self)
  ultimately have "sint (word_of_int (sint n') :: int32) = sint n'" by blast
  then show "sint (seconds t) * kNanosPerSecond + sint (nanoseconds t) = sint s * kNanosPerSecond + sint n"
    using t(1) s' n' by (auto simp: algebra_simps)
  show "ValidateBounds t" by (rule t(2))
qed

section \<open>Snapshot versions\<close>

type_synonym SnapshotVersion = Timestamp

definition SnapshotVersion_None :: SnapshotVersion where
  "SnapshotVersion_None = Timestamp 0 0"

definition SnapshotVersion_CompareTo :: "SnapshotVersion \<Rightarrow> SnapshotVersion \<Rightarrow> comparison_result" where
  "SnapshotVersion_CompareTo lhs rhs = DefaultCompare lhs rhs"

section \<open>Geographical points\<close>

definition fp_ninety :: double where "fp_ninety = 0x4056800000000000"
definition fp_hundred_eighty :: double where "fp_hundred_eighty = 0x4066800000000000"
definition fp_neg :: "double \<Rightarrow> double" where "fp_neg d = d XOR 0x8000000000000000"

definition geo_in_range :: "double \<Rightarrow> double \<Rightarrow> bool" where
  "geo_in_range lat lng =
     (\<not> fp_isnan lat \<and> fp_ge lat (fp_neg fp_ninety) \<and> fp_ge fp_ninety lat \<and>
      \<not> fp_isnan lng \<and> fp_ge lng (fp_neg fp_hundred_eighty) \<and> fp_ge fp_hundred_eighty lng)"

lemma geo_in_range_zero: "geo_in_range 0 0"
  by (simp add: geo_in_range_def fp_ninety_def fp_hundred_eighty_def fp_neg_def fp_ge_def fp_isnan_def
      fp_scaled_def fp_sign_def fp_mag_def fp_exp_def fp_frac_def)

typedef GeoPoint = "{(lat, lng). geo_in_range lat lng}"
  morphisms geo_coords Abs_GeoPoint
  using geo_in_range_zero by auto

setup_lifting type_definition_GeoPoint

definition latitude :: "GeoPoint \<Rightarrow> double" where
  "latitude p = fst (geo_coords p)"

definition longitude :: "GeoPoint \<Rightarrow> double" where
  "longitude p = snd (geo_coords p)"

definition make_GeoPoint :: "double \<Rightarrow> double \<Rightarrow> GeoPoint result" where
  "make_GeoPoint lat lng = hard_assert (geo_in_range lat lng) (Inr (Abs_GeoPoint (lat, lng)))"

definition GeoPoint_lt :: "GeoPoint \<Rightarrow> GeoPoint \<Rightarrow> bool" where
  "GeoPoint_lt lhs rhs =
     (if fp_eq (latitude lhs) (latitude rhs) then fp_lt (longitude lhs) (longitude rhs)
      else fp_lt (latitude lhs) (latitude rhs))"

definition GeoPoint_eq :: "GeoPoint \<Rightarrow> GeoPoint \<Rightarrow> bool" where
  "GeoPoint_eq lhs rhs = (\<not> (GeoPoint_lt lhs rhs \<or> GeoPoint_lt rhs lhs))"

text \<open>\<open>DefaultComparator\<close> over an arbitrary less-than operator.\<close>

definition CompareByLess :: "('a \<Rightarrow> 'a \<Rightarrow> bool) \<Rightarrow> 'a \<Rightarrow> 'a \<Rightarrow> comparison_result" where
  "CompareByLess lt left right =
     (if lt left right then Ascending else if lt right left then Descending else Same)"

definition GeoPoint_Compare :: "GeoPoint \<Rightarrow> GeoPoint \<Rightarrow> comparison_result" where
  "GeoPoint_Compare = CompareByLess GeoPoint_lt"

lemma GeoPoint_not_nan: "\<not> fp_isnan (latitude p)" "\<not> fp_isnan (longitude p)"
  using geo_coords[of p] by (auto simp: latitude_def longitude_def geo_in_range_def)

lemma GeoPoint_Compare_key:
  "GeoPoint_Compare a b =
     (case DefaultCompare (fp_scaled (latitude a)) (fp_scaled (latitude b)) of
        Same \<Rightarrow> DefaultCompare (fp_scaled (longitude a)) (fp_scaled (longitude b)) | c \<Rightarrow> c)"
  using GeoPoint_not_nan[of a] GeoPoint_not_nan[of b]
  by (auto simp: GeoPoint_Compare_def CompareByLess_def GeoPoint_lt_def fp_lt_def fp_eq_def DefaultCompare_def)

interpretation geo_cmp: total_comparator GeoPoint_Compare
  by unfold_locales (auto simp: GeoPoint_Compare_key DefaultCompare_def split: if_splits)

lemma make_GeoPoint_coords:
  "make_GeoPoint lat lng = Inr p \<Longrightarrow> latitude p = lat \<and> longitude p = lng"
  by (auto simp: make_GeoPoint_def latitude_def longitude_def Abs_GeoPoint_inverse split: if_splits)

end
