(* ===== verification/SortedSpec.thy ===== *)
theory SortedSpec
  imports Comparison
begin

text \<open>
  The abstract contract of the immutable sorted maps of \<open>immutable/\<close>: an association list
  in strictly ascending key order, under a comparator.  \<open>al_put\<close> and \<open>al_del\<close> are the
  reference insertion and removal; the locale \<open>sorted_map\<close> is the interface the rest of the
  client relies on, and its lemmas are what the client may conclude from it.
\<close>

definition sorted_keys :: "('k \<Rightarrow> 'k \<Rightarrow> comparison_result) \<Rightarrow> ('k \<times> 'v) list \<Rightarrow> bool" where
  "sorted_keys cmp es = sorted_wrt (\<lambda>a b. cmp a b = Ascending) (map fst es)"

fun al_get :: "('k \<Rightarrow> 'k \<Rightarrow> comparison_result) \<Rightarrow> 'k \<Rightarrow> ('k \<times> 'v) list \<Rightarrow> 'v option" where
  "al_get cmp k [] = None"
| "al_get cmp k ((k', v) # es) = (if cmp k k' = Same then Some v else al_get cmp k es)"

fun al_put :: "('k \<Rightarrow> 'k \<Rightarrow> comparison_result) \<Rightarrow> 'k \<Rightarrow> 'v \<Rightarrow> ('k \<times> 'v) list \<Rightarrow> ('k \<times> 'v) list" where
  "al_put cmp k v [] = [(k, v)]"
| "al_put cmp k v ((k', v') # es) =
     (case cmp k k' of
        Ascending \<Rightarrow> (k, v) # (k', v') # es
      | Same \<Rightarrow> (k', v) # es
      | Descending \<Rightarrow> (k', v') # al_put cmp k v es)"

fun al_del :: "('k \<Rightarrow> 'k \<Rightarrow> comparison_result) \<Rightarrow> 'k \<Rightarrow> ('k \<times> 'v) list \<Rightarrow> ('k \<times> 'v) list" where
  "al_del cmp k [] = []"
| "al_del cmp k ((k', v') # es) = (if cmp k k' = Same then es else (k', v') # al_del cmp k es)"

lemma sorted_keys_Nil [simp]: "sorted_keys cmp []"
  by (simp add: sorted_keys_def)

lemma sorted_keys_Cons [simp]:
  "sorted_keys cmp (e # es) = ((\<forall>e' \<in> set es. cmp (fst e) (fst e') = Ascending) \<and> sorted_keys cmp es)"
  by (simp add: sorted_keys_def)

lemma sorted_keys_append [simp]:
  "sorted_keys cmp (es @ fs) = (sorted_keys cmp es \<and> sorted_keys cmp fs \<and>
     (\<forall>e \<in> set es. \<forall>f \<in> set fs. cmp (fst e) (fst f) = Ascending))"
  by (auto simp: sorted_keys_def sorted_wrt_append)

lemma set_al_put_keys:
  "x \<in> set (al_put cmp k v es) \<Longrightarrow> fst x = k \<or> (\<exists>y \<in> set es. fst x = fst y)"
  by (induction es) (auto split: comparison_result.splits)

lemma set_al_put_vals:
  "x \<in> set (al_put cmp k v es) \<Longrightarrow> snd x = v \<or> (\<exists>y \<in> set es. snd x = snd y)"
  by (induction es) (auto split: comparison_result.splits)

lemma set_al_del: "x \<in> set (al_del cmp k es) \<Longrightarrow> x \<in> set es"
  by (induction es) (auto split: if_splits)

lemma al_get_append:
  "al_get cmp k (es @ fs) = (case al_get cmp k es of None \<Rightarrow> al_get cmp k fs | Some v \<Rightarrow> Some v)"
  by (induction es) auto

lemma al_get_None: "(\<forall>e \<in> set es. cmp k (fst e) \<noteq> Same) \<Longrightarrow> al_get cmp k es = None"
  by (induction es) auto

lemma al_get_Some_set: "al_get cmp k es = Some v \<Longrightarrow> \<exists>k'. (k', v) \<in> set es \<and> cmp k k' = Same"
  by (induction es) (auto split: if_splits)

lemma length_al_put: "length (al_put cmp k v es) \<le> Suc (length es)"
  by (induction es) (auto split: comparison_result.splits)

context total_comparator
begin

lemma sorted_al_put: "sorted_keys cmp es \<Longrightarrow> sorted_keys cmp (al_put cmp k v es)"
proof (induction es)
  case Nil
  then show ?case by simp
next
  case (Cons e es)
  obtain k' v' where e: "e = (k', v')" by (cases e)
  have "cmp k' (fst x) = Ascending" if "cmp k k' = Descending" "x \<in> set (al_put cmp k v es)" for x
    using set_al_put_keys[OF that(2)] that(1) Cons.prems desc_iff[of k k'] unfolding e by auto
  then show ?case
    using Cons unfolding e by (auto split: comparison_result.splits intro: asc_trans)
qed

lemma sorted_al_del: "sorted_keys cmp es \<Longrightarrow> sorted_keys cmp (al_del cmp k es)"
  by (induction es) (fastforce dest: set_al_del)+

lemma al_get_al_put:
  "sorted_keys cmp es \<Longrightarrow>
   al_get cmp k' (al_put cmp k v es) = (if cmp k' k = Same then Some v else al_get cmp k' es)"
proof (induction es)
  case Nil
  then show ?case by simp
next
  case (Cons e es)
  obtain a b where e: "e = (a, b)" by (cases e)
  have 1: "cmp k' k = Same" if "cmp k a = Same" "cmp k' a = Same"
    using that same_sym same_trans by blast
  have 2: "cmp k' a = Same" if "cmp k a = Same" "cmp k' k = Same"
    using that same_trans by blast
  have 3: False if "cmp k a = Descending" "cmp k' a = Same" "cmp k' k = Same"
    using that same_cong_left[of k' k a] by simp
  show ?case
    using Cons unfolding e by (auto split: comparison_result.splits dest: 1 2 3)
qed

lemma al_get_al_del:
  "sorted_keys cmp es \<Longrightarrow>
   al_get cmp k' (al_del cmp k es) = (if cmp k' k = Same then None else al_get cmp k' es)"
proof (induction es)
  case Nil
  then show ?case by simp
next
  case (Cons e es)
  obtain a b where e: "e = (a, b)" by (cases e)
  have 1: "cmp k' k = Same" if "cmp k a = Same" "cmp k' a = Same"
    using that same_sym same_trans by blast
  have 2: "cmp k a = Same" if "cmp k' k = Same" "cmp k' a = Same"
    using that same_sym same_trans by blast
  have 3: "al_get cmp k' es = None" if "cmp k a = Same" "cmp k' k = Same"
  proof (rule al_get_None, rule ballI)
    fix x assume x: "x \<in> set es"
    have "cmp k' a = Same" using that same_trans by blast
    moreover have "cmp a (fst x) = Ascending" using Cons.prems x unfolding e by auto
    ultimately show "cmp k' (fst x) \<noteq> Same" using same_cong_left[of k' a "fst x"] by simp
  qed
  show ?case
    using Cons unfolding e by (auto dest: 1 2 3)
qed

text \<open>Localised insertion and removal, the form the tree proofs use.\<close>

lemma al_put_append_less:
  "cmp k (fst e) = Ascending \<Longrightarrow> al_put cmp k v (es @ e # fs) = al_put cmp k v es @ e # fs"
  by (induction es; cases e) (auto split: comparison_result.splits)

lemma al_put_append_ge:
  "\<forall>x \<in> set es. cmp k (fst x) = Descending \<Longrightarrow> al_put cmp k v (es @ fs) = es @ al_put cmp k v fs"
  by (induction es) auto

lemma al_del_append_notin:
  "\<forall>x \<in> set es. cmp k (fst x) \<noteq> Same \<Longrightarrow> al_del cmp k (es @ fs) = es @ al_del cmp k fs"
  by (induction es) auto

lemma al_del_notin: "\<forall>x \<in> set es. cmp k (fst x) \<noteq> Same \<Longrightarrow> al_del cmp k es = es"
  using al_del_append_notin[of es k "[]"] by simp

lemma al_del_append_gt:
  "\<forall>x \<in> set fs. cmp k (fst x) \<noteq> Same \<Longrightarrow> al_del cmp k (es @ fs) = al_del cmp k es @ fs"
  by (induction es) (auto simp: al_del_notin)

lemma al_del_less:
  assumes "cmp k (fst e) = Ascending" "sorted_keys cmp (es @ e # fs)"
  shows "al_del cmp k (es @ e # fs) = al_del cmp k es @ e # fs"
proof (rule al_del_append_gt, rule ballI)
  fix x assume "x \<in> set (e # fs)"
  then have "cmp k (fst x) = Ascending" using assms asc_trans by auto
  then show "cmp k (fst x) \<noteq> Same" by simp
qed

lemma al_del_ge:
  assumes "cmp k (fst e) \<noteq> Ascending" "sorted_keys cmp (es @ e # fs)"
  shows "al_del cmp k (es @ e # fs) = es @ al_del cmp k (e # fs)"
proof (rule al_del_append_notin, rule ballI)
  fix x assume "x \<in> set es"
  then have "cmp (fst x) (fst e) = Ascending" using assms(2) by auto
  moreover have "cmp (fst e) k \<noteq> Descending" using assms(1) desc_iff by blast
  ultimately have "cmp (fst x) k = Ascending" by (rule asc_le_trans)
  then show "cmp k (fst x) \<noteq> Same" using flip[of "fst x" k] by simp
qed

end

context strict_comparator
begin

lemma al_get_put_strict: "al_get cmp k' (al_put cmp k v es) = (if k' = k then Some v else al_get cmp k' es)"
proof (induction es)
  case (Cons e es)
  then show ?case by (cases e; cases "cmp k (fst e)") auto
qed simp

end

section \<open>The interface\<close>

locale sorted_map = total_comparator cmp
  for cmp :: "'k \<Rightarrow> 'k \<Rightarrow> comparison_result" +
  fixes inv :: "'m \<Rightarrow> bool"
    and room :: "'m \<Rightarrow> bool"
    and entries :: "'m \<Rightarrow> ('k \<times> 'v) list"
    and insert_op :: "'k \<Rightarrow> 'v \<Rightarrow> 'm \<Rightarrow> 'm"
    and erase_op :: "'k \<Rightarrow> 'm \<Rightarrow> 'm"
    and get_op :: "'k \<Rightarrow> 'm \<Rightarrow> 'v option"
  assumes inv_sorted: "inv m \<Longrightarrow> sorted_keys cmp (entries m)"
    and insert_inv: "inv m \<Longrightarrow> room m \<Longrightarrow> inv (insert_op k v m)"
    and insert_get: "inv m \<Longrightarrow> room m \<Longrightarrow>
          al_get cmp k' (entries (insert_op k v m)) =
          (if cmp k' k = Same then Some v else al_get cmp k' (entries m))"
    and erase_inv: "inv m \<Longrightarrow> inv (erase_op k m)"
    and erase_entries: "inv m \<Longrightarrow> entries (erase_op k m) = al_del cmp k (entries m)"
    and get_spec: "inv m \<Longrightarrow> get_op k m = al_get cmp k (entries m)"
begin

lemma get_insert:
  "inv m \<Longrightarrow> room m \<Longrightarrow> get_op k' (insert_op k v m) = (if cmp k' k = Same then Some v else get_op k' m)"
  by (simp add: get_spec insert_inv insert_get)

lemma get_erase:
  "inv m \<Longrightarrow> get_op k' (erase_op k m) = (if cmp k' k = Same then None else get_op k' m)"
  by (simp add: get_spec erase_inv erase_entries al_get_al_del inv_sorted)

lemma erase_absent: "inv m \<Longrightarrow> get_op k m = None \<Longrightarrow> entries (erase_op k m) = entries m"
proof -
  have "al_get cmp k es = None \<Longrightarrow> al_del cmp k es = es" for es :: "('k \<times> 'v) list"
    by (induction es) (auto split: if_splits)
  then show "inv m \<Longrightarrow> get_op k m = None \<Longrightarrow> entries (erase_op k m) = entries m"
    by (simp add: get_spec erase_entries)
qed

lemma get_insert_erase:
  "inv m \<Longrightarrow> room (erase_op k m) \<Longrightarrow>
   get_op k' (insert_op k v (erase_op k m)) = (if cmp k' k = Same then Some v else get_op k' m)"
  by (simp add: get_insert get_erase erase_inv)

end

end
