(* ===== verification/Paths.thy ===== *)
theory Paths
  imports SortedSpec
begin

text \<open>
  \<open>model/base_path.h\<close>, \<open>model/resource_path.cc\<close>, \<open>model/field_path.cc\<close>,
  \<open>model/document_key.cc\<close> and \<open>model/database_id.cc\<close>.  A path is the list of its segments,
  a string the list of its bytes; the throw of \<open>ThrowInvalidArgument\<close> and the status with
  \<open>kErrorInvalidArgument\<close> are the failure \<open>InvalidArgument\<close>.
\<close>

type_synonym path = "string list"
type_synonym ResourcePath = path
type_synonym FieldPath = path
type_synonym DocumentKey = ResourcePath

section \<open>Operations of every path\<close>

definition path_at :: "path \<Rightarrow> nat \<Rightarrow> string result" where
  "path_at p i = hard_assert (i < length p) (Inr (p ! i))"

definition first_segment :: "path \<Rightarrow> string result" where
  "first_segment p = hard_assert (p \<noteq> []) (Inr (p ! 0))"

definition last_segment :: "path \<Rightarrow> string result" where
  "last_segment p = hard_assert (p \<noteq> []) (Inr (p ! (length p - 1)))"

definition path_Append :: "path \<Rightarrow> string \<Rightarrow> path" where
  "path_Append p segment = p @ [segment]"

definition path_Concat :: "path \<Rightarrow> path \<Rightarrow> path" where
  "path_Concat p q = p @ q"

definition PopFirst :: "path \<Rightarrow> nat \<Rightarrow> path result" where
  "PopFirst p n = hard_assert (n \<le> length p) (Inr (drop n p))"

definition PopLast :: "path \<Rightarrow> path result" where
  "PopLast p = hard_assert (p \<noteq> []) (Inr (take (length p - 1) p))"

definition IsPrefixOf :: "path \<Rightarrow> path \<Rightarrow> bool" where
  "IsPrefixOf p rhs = (length p \<le> length rhs \<and> take (length p) rhs = p)"

definition IsImmediateParentOf :: "path \<Rightarrow> path \<Rightarrow> bool" where
  "IsImmediateParentOf p potential_child =
     (length p + 1 = length potential_child \<and> take (length p) potential_child = p)"

definition path_CompareTo :: "path \<Rightarrow> path \<Rightarrow> comparison_result" where
  "path_CompareTo p rhs = CompareContainer StringCompare p rhs"

interpretation path_cmp: strict_comparator path_CompareTo
proof -
  have "path_CompareTo = CompareContainer StringCompare" by (intro ext) (simp add: path_CompareTo_def)
  then show "strict_comparator path_CompareTo" using string_list_cmp.strict_comparator_axioms by simp
qed

lemma path_CompareTo_Default: "path_CompareTo = DefaultCompare"
  by (intro ext) (simp add: path_CompareTo_def StringCompare_eq_Default CompareContainer_Default)

section \<open>Splitting and joining\<close>

text \<open>\<open>absl::StrSplit\<close> on one character, \<open>absl::SkipEmpty\<close>, and \<open>absl::StrJoin\<close>.\<close>

fun StrSplit :: "char \<Rightarrow> string \<Rightarrow> string list" where
  "StrSplit d [] = [[]]"
| "StrSplit d (c # cs) =
     (if c = d then [] # StrSplit d cs
      else case StrSplit d cs of [] \<Rightarrow> [[c]] | s # ss \<Rightarrow> (c # s) # ss)"

definition StrSplit_SkipEmpty :: "char \<Rightarrow> string \<Rightarrow> string list" where
  "StrSplit_SkipEmpty d s = filter (\<lambda>x. x \<noteq> []) (StrSplit d s)"

fun StrJoin :: "string \<Rightarrow> string list \<Rightarrow> string" where
  "StrJoin sep [] = []"
| "StrJoin sep [s] = s"
| "StrJoin sep (s # t # ss) = s @ sep @ StrJoin sep (t # ss)"

fun has_double_slash :: "string \<Rightarrow> bool" where
  "has_double_slash (a # b # cs) = ((a = CHR ''/'' \<and> b = CHR ''/'') \<or> has_double_slash (b # cs))"
| "has_double_slash _ = False"

definition ResourcePath_FromString :: "string \<Rightarrow> ResourcePath result" where
  "ResourcePath_FromString p =
     hard_assert (\<not> has_double_slash p) (Inr (StrSplit_SkipEmpty (CHR ''/'') p))"

definition ResourcePath_CanonicalString :: "ResourcePath \<Rightarrow> string" where
  "ResourcePath_CanonicalString p = StrJoin ''/'' p"

section \<open>Field paths\<close>

definition is_alpha :: "char \<Rightarrow> bool" where
  "is_alpha c = (let n = of_char c :: nat
     in n = 95 \<or> (97 \<le> n \<and> n \<le> 122) \<or> (65 \<le> n \<and> n \<le> 90))"

definition is_alnum :: "char \<Rightarrow> bool" where
  "is_alnum c = (is_alpha c \<or> (let n = of_char c :: nat in 48 \<le> n \<and> n \<le> 57))"

fun IsValidIdentifier :: "string \<Rightarrow> bool" where
  "IsValidIdentifier [] = False"
| "IsValidIdentifier (c # cs) = (is_alpha c \<and> list_all is_alnum cs)"

definition BACKTICK :: char where "BACKTICK = CHR 0x60"
definition BACKSLASH :: char where "BACKSLASH = CHR 0x5C"
definition NUL :: char where "NUL = CHR 0x00"

definition escape_char :: "char \<Rightarrow> string" where
  "escape_char c = (if c = BACKSLASH then [BACKSLASH, BACKSLASH]
                    else if c = BACKTICK then [BACKSLASH, BACKTICK] else [c])"

definition escaped_segment :: "string \<Rightarrow> string" where
  "escaped_segment segment =
     (let escaped = concat (map escape_char segment)
      in if \<not> IsValidIdentifier escaped then [BACKTICK] @ escaped @ [BACKTICK] else escaped)"

definition FieldPath_CanonicalString :: "FieldPath \<Rightarrow> string" where
  "FieldPath_CanonicalString p = StrJoin ''.'' (map escaped_segment p)"

definition FromDotSeparatedString :: "string \<Rightarrow> FieldPath result" where
  "FromDotSeparatedString p =
     (if \<exists>c \<in> set p. c \<in> set ''~*/[]'' then Inl InvalidArgument
      else let segments = StrSplit (CHR ''.'') p
           in if [] \<in> set segments then Inl InvalidArgument else Inr segments)"

definition finish_segment :: "string list \<Rightarrow> string \<Rightarrow> string list result" where
  "finish_segment segments segment =
     (if segment = [] then Inl InvalidArgument else Inr (segments @ [segment]))"

text \<open>The scanning loop: the state is the finished segments, the current one and the flag.\<close>

fun scan_path :: "string \<Rightarrow> string list \<Rightarrow> string \<Rightarrow> bool \<Rightarrow> (string list \<times> string \<times> bool) result" where
  "scan_path [] segments segment inside = Inr (segments, segment, inside)"
| "scan_path (c # cs) segments segment inside =
     (if c = NUL then Inr (segments, segment, inside)
      else if c = CHR ''.'' then
        (if \<not> inside then
           (case finish_segment segments segment of
              Inl e \<Rightarrow> Inl e
            | Inr segments' \<Rightarrow> scan_path cs segments' [] inside)
         else scan_path cs segments (segment @ [c]) inside)
      else if c = BACKTICK then scan_path cs segments segment (\<not> inside)
      else if c = BACKSLASH then
        (case cs of
           [] \<Rightarrow> Inl InvalidArgument
         | d # ds \<Rightarrow> scan_path ds segments (segment @ [d]) inside)
      else scan_path cs segments (segment @ [c]) inside)"

definition FromServerFormat :: "string \<Rightarrow> FieldPath result" where
  "FromServerFormat p =
     rbind (scan_path p [] [] False) (\<lambda>(segments, segment, inside_backticks).
       rbind (finish_segment segments segment) (\<lambda>segments'.
         if inside_backticks then Inl InvalidArgument else Inr segments'))"

definition kDocumentKeyPath :: string where
  "kDocumentKeyPath = ''__name__''"

definition KeyFieldPath :: FieldPath where
  "KeyFieldPath = [kDocumentKeyPath]"

definition IsKeyFieldPath :: "FieldPath \<Rightarrow> bool" where
  "IsKeyFieldPath p = (length p = 1 \<and> first_segment p = Inr kDocumentKeyPath)"

definition FieldPath_FromSegments :: "string list \<Rightarrow> FieldPath result" where
  "FieldPath_FromSegments segments =
     (if segments = [] then Inl InvalidArgument
      else if [] \<in> set segments then Inl InvalidArgument
      else Inr segments)"

section \<open>Document keys and database ids\<close>

definition IsDocumentKey :: "ResourcePath \<Rightarrow> bool" where
  "IsDocumentKey p = (length p mod 2 = 0)"

definition make_DocumentKey :: "ResourcePath \<Rightarrow> DocumentKey result" where
  "make_DocumentKey p = hard_assert (IsDocumentKey p) (Inr p)"

definition DocumentKey_FromPathString :: "string \<Rightarrow> DocumentKey result" where
  "DocumentKey_FromPathString s = rbind (ResourcePath_FromString s) make_DocumentKey"

definition DocumentKey_CompareTo :: "DocumentKey \<Rightarrow> DocumentKey \<Rightarrow> comparison_result" where
  "DocumentKey_CompareTo k other = path_CompareTo k other"

definition HasCollectionId :: "DocumentKey \<Rightarrow> string \<Rightarrow> bool" where
  "HasCollectionId k collection_id =
     (let size = length k in 2 \<le> size \<and> k ! (size - 2) = collection_id)"

interpretation key_cmp: strict_comparator DocumentKey_CompareTo
proof -
  have "DocumentKey_CompareTo = path_CompareTo" by (intro ext) (simp add: DocumentKey_CompareTo_def)
  then show "strict_comparator DocumentKey_CompareTo" using path_cmp.strict_comparator_axioms by simp
qed

datatype DatabaseId = DatabaseId (project_id: string) (database_id: string)

definition make_DatabaseId :: "string \<Rightarrow> string \<Rightarrow> DatabaseId result" where
  "make_DatabaseId p d = hard_assert (p \<noteq> []) (hard_assert (d \<noteq> []) (Inr (DatabaseId p d)))"

definition DatabaseId_CompareTo :: "DatabaseId \<Rightarrow> DatabaseId \<Rightarrow> comparison_result" where
  "DatabaseId_CompareTo lhs rhs =
     (let cmp = StringCompare (project_id lhs) (project_id rhs)
      in if cmp \<noteq> Same then cmp else StringCompare (database_id lhs) (database_id rhs))"

interpretation database_cmp: strict_comparator DatabaseId_CompareTo
  by unfold_locales
    (auto simp: DatabaseId_CompareTo_def StringCompare_eq_Default DefaultCompare_def Let_def
        split: if_splits intro: DatabaseId.expand)

section \<open>Lemmas on paths\<close>

lemma IsPrefixOf_iff: "IsPrefixOf p q = (\<exists>r. q = p @ r)"
proof
  assume "IsPrefixOf p q"
  then have "q = p @ drop (length p) q"
    by (metis IsPrefixOf_def append_take_drop_id)
  then show "\<exists>r. q = p @ r" by blast
qed (auto simp: IsPrefixOf_def)

lemma IsImmediateParentOf_iff: "IsImmediateParentOf p q = (\<exists>s. q = path_Append p s)"
proof
  assume a: "IsImmediateParentOf p q"
  then have "IsPrefixOf p q" by (simp add: IsImmediateParentOf_def IsPrefixOf_def)
  then obtain r where r: "q = p @ r" using IsPrefixOf_iff by blast
  then have "length r = Suc 0" using a by (simp add: IsImmediateParentOf_def)
  then obtain s where "r = [s]" by (cases r) auto
  then show "\<exists>s. q = path_Append p s" using r by (auto simp: path_Append_def)
qed (auto simp: IsImmediateParentOf_def path_Append_def)

lemma PopLast_Append [simp]: "PopLast (path_Append p s) = Inr p"
  by (simp add: PopLast_def path_Append_def)

lemma StrSplit_nonempty: "StrSplit d s \<noteq> []"
  by (cases s) (auto split: list.splits)

lemma StrSplit_plain: "d \<notin> set s \<Longrightarrow> StrSplit d s = [s]"
  by (induction s) auto

lemma StrSplit_append_sep: "d \<notin> set s \<Longrightarrow> StrSplit d (s @ d # t) = s # StrSplit d t"
  by (induction s) auto

lemma StrSplit_StrJoin:
  "ps \<noteq> [] \<Longrightarrow> \<forall>s \<in> set ps. d \<notin> set s \<Longrightarrow> StrSplit d (StrJoin [d] ps) = ps"
  by (induction "[d]" ps rule: StrJoin.induct) (auto simp: StrSplit_plain StrSplit_append_sep)

lemma StrSplit_no_sep: "s \<in> set (StrSplit d t) \<Longrightarrow> d \<notin> set s"
  by (induction t arbitrary: s) (auto split: list.splits if_splits)

lemma StrJoin_nonempty: "ps \<noteq> [] \<Longrightarrow> \<forall>s \<in> set ps. s \<noteq> [] \<Longrightarrow> StrJoin sep ps \<noteq> []"
  by (induction sep ps rule: StrJoin.induct) auto

lemma StrJoin_hd:
  "ps \<noteq> [] \<Longrightarrow> \<forall>s \<in> set ps. s \<noteq> [] \<and> d \<notin> set s \<Longrightarrow> hd (StrJoin [d] ps) \<noteq> d"
  by (induction "[d]" ps rule: StrJoin.induct) (auto simp: hd_append dest: hd_in_set)

lemma has_double_slash_Cons:
  "has_double_slash (a # s) = ((a = CHR ''/'' \<and> s \<noteq> [] \<and> hd s = CHR ''/'') \<or> has_double_slash s)"
  by (cases s) auto

lemma has_double_slash_plain: "CHR ''/'' \<notin> set s \<Longrightarrow> \<not> has_double_slash s"
  by (induction s) (auto simp: has_double_slash_Cons)

lemma has_double_slash_append:
  "CHR ''/'' \<notin> set s \<Longrightarrow> has_double_slash (s @ CHR ''/'' # t) = has_double_slash (CHR ''/'' # t)"
  by (induction s) (auto simp: has_double_slash_Cons)

lemma no_double_slash_StrJoin:
  "\<forall>s \<in> set ps. s \<noteq> [] \<and> CHR ''/'' \<notin> set s \<Longrightarrow> \<not> has_double_slash (StrJoin ''/'' ps)"
proof (induction "''/''" ps rule: StrJoin.induct)
  case (3 s t ss)
  then show ?case using StrJoin_hd[of "t # ss" "CHR ''/''"]
    by (simp add: has_double_slash_append has_double_slash_Cons)
qed (auto simp: has_double_slash_plain)

lemma ResourcePath_FromString_Canonical:
  assumes "\<forall>s \<in> set p. s \<noteq> [] \<and> CHR ''/'' \<notin> set s"
  shows "ResourcePath_FromString (ResourcePath_CanonicalString p) = Inr p"
proof (cases "p = []")
  case True
  then show ?thesis
    by (simp add: ResourcePath_FromString_def ResourcePath_CanonicalString_def StrSplit_SkipEmpty_def)
next
  case False
  then have "StrSplit (CHR ''/'') (StrJoin ''/'' p) = p" using assms by (intro StrSplit_StrJoin) auto
  moreover have "filter (\<lambda>x. x \<noteq> []) p = p" using assms by (auto intro: filter_True)
  ultimately show ?thesis using no_double_slash_StrJoin[OF assms]
    by (simp add: ResourcePath_FromString_def ResourcePath_CanonicalString_def StrSplit_SkipEmpty_def)
qed

lemma ResourcePath_FromString_segments:
  "ResourcePath_FromString t = Inr p \<Longrightarrow> s \<in> set p \<Longrightarrow> s \<noteq> [] \<and> CHR ''/'' \<notin> set s"
  by (auto simp: ResourcePath_FromString_def StrSplit_SkipEmpty_def dest: StrSplit_no_sep)

section \<open>The scanner undoes the escaping\<close>

lemma scan_plain:
  "\<forall>c \<in> set s. c \<noteq> NUL \<and> c \<noteq> CHR ''.'' \<and> c \<noteq> BACKTICK \<and> c \<noteq> BACKSLASH \<Longrightarrow>
   scan_path (s @ rest) segs seg inside = scan_path rest segs (seg @ s) inside"
  by (induction s arbitrary: seg) auto

lemma special_chars [simp]:
  "BACKSLASH \<noteq> NUL" "BACKSLASH \<noteq> CHR ''.''" "BACKSLASH \<noteq> BACKTICK"
  "BACKTICK \<noteq> NUL" "BACKTICK \<noteq> CHR ''.''" "BACKTICK \<noteq> BACKSLASH" "CHR ''.'' \<noteq> NUL"
  by (simp_all add: BACKSLASH_def BACKTICK_def NUL_def)

lemma scan_escaped:
  "NUL \<notin> set s \<Longrightarrow>
   scan_path (concat (map escape_char s) @ rest) segs seg True = scan_path rest segs (seg @ s) True"
  by (induction s arbitrary: seg) (auto simp: escape_char_def)

lemma is_alnum_special: "is_alnum c \<Longrightarrow> c \<noteq> NUL \<and> c \<noteq> CHR ''.'' \<and> c \<noteq> BACKTICK \<and> c \<noteq> BACKSLASH"
  by (auto simp: is_alnum_def is_alpha_def NUL_def BACKTICK_def BACKSLASH_def Let_def)

lemma IsValidIdentifier_alnum: "IsValidIdentifier s \<Longrightarrow> \<forall>c \<in> set s. is_alnum c"
  by (cases s) (auto simp: is_alnum_def list_all_iff)

lemma escape_id: "BACKSLASH \<notin> set (concat (map escape_char s)) \<Longrightarrow> concat (map escape_char s) = s"
proof (induction s)
  case (Cons c s)
  then show ?case by (cases "c = BACKSLASH"; cases "c = BACKTICK") (simp_all add: escape_char_def)
qed simp

lemma escape_valid:
  "IsValidIdentifier (concat (map escape_char s)) \<Longrightarrow> concat (map escape_char s) = s"
proof -
  assume "IsValidIdentifier (concat (map escape_char s))"
  then have "BACKSLASH \<notin> set (concat (map escape_char s))"
    using IsValidIdentifier_alnum is_alnum_special by blast
  then show "concat (map escape_char s) = s" by (rule escape_id)
qed

lemma scan_escaped_segment:
  assumes "NUL \<notin> set s"
  shows "scan_path (escaped_segment s @ rest) segs [] False = scan_path rest segs s False"
proof (cases "IsValidIdentifier (concat (map escape_char s))")
  case True
  then have "concat (map escape_char s) = s" by (rule escape_valid)
  then show ?thesis
    using True scan_plain[of s rest segs "[]" False] IsValidIdentifier_alnum[of s] is_alnum_special
    by (simp add: escaped_segment_def)
next
  case False
  then show ?thesis using scan_escaped[OF assms, of "BACKTICK # rest" segs "[]"]
    by (simp add: escaped_segment_def Let_def)
qed

lemma scan_canonical:
  assumes "p \<noteq> []" "\<forall>s \<in> set p. s \<noteq> [] \<and> NUL \<notin> set s"
  shows "scan_path (StrJoin ''.'' (map escaped_segment p)) segs [] False = Inr (segs @ butlast p, last p, False)"
  using assms
proof (induction p arbitrary: segs)
  case (Cons s p)
  show ?case
  proof (cases p)
    case Nil
    then show ?thesis using scan_escaped_segment[of s "[]" segs] Cons.prems by simp
  next
    case (Cons t q)
    then have "scan_path (StrJoin ''.'' (map escaped_segment (s # p))) segs [] False =
        scan_path (CHR ''.'' # StrJoin ''.'' (map escaped_segment p)) segs s False"
      using scan_escaped_segment[of s] Cons.prems by simp
    also have "\<dots> = scan_path (StrJoin ''.'' (map escaped_segment p)) (segs @ [s]) [] False"
      using Cons.prems by (simp add: finish_segment_def)
    also have "\<dots> = Inr (segs @ [s] @ butlast p, last p, False)"
      using Cons.IH[of "segs @ [s]"] Cons.prems Cons by simp
    finally show ?thesis using Cons by simp
  qed
qed simp

lemma FromServerFormat_Canonical:
  assumes "p \<noteq> []" "\<forall>s \<in> set p. s \<noteq> [] \<and> NUL \<notin> set s"
  shows "FromServerFormat (FieldPath_CanonicalString p) = Inr p"
  using scan_canonical[OF assms, of "[]"] assms
  by (simp add: FromServerFormat_def FieldPath_CanonicalString_def finish_segment_def)

lemma scan_path_segments:
  "scan_path cs segs seg b = Inr r \<Longrightarrow> [] \<notin> set segs \<Longrightarrow> [] \<notin> set (fst r)"
proof (induction cs segs seg b rule: scan_path.induct)
  case (2 c cs segs seg b)
  consider "c = NUL" | "c = CHR ''.''" | "c = BACKTICK" | "c = BACKSLASH"
    | "c \<noteq> NUL" "c \<noteq> CHR ''.''" "c \<noteq> BACKTICK" "c \<noteq> BACKSLASH" by blast
  then show ?case
  proof cases
    case 1
    then show ?thesis using "2.prems" by auto
  next
    case 2
    then show ?thesis using "2.IH"(1,2) "2.prems"
      by (cases b; cases "seg = []") (simp_all add: finish_segment_def)
  next
    case 3
    then show ?thesis using "2.IH"(3) "2.prems" by simp
  next
    case 4
    then show ?thesis using "2.IH"(4) "2.prems" by (cases cs) simp_all
  next
    case 5
    then show ?thesis using "2.IH"(5) "2.prems" by simp
  qed
qed auto

lemma FromServerFormat_segments:
  assumes "FromServerFormat t = Inr p"
  shows "p \<noteq> [] \<and> [] \<notin> set p"
proof -
  obtain segs seg b where s: "scan_path t [] [] False = Inr (segs, seg, b)"
    "finish_segment segs seg = Inr p"
    using assms by (auto simp: FromServerFormat_def rbind_Inr_conv split: if_splits)
  have "[] \<notin> set segs" using scan_path_segments[OF s(1)] by simp
  then show ?thesis using s(2) by (auto simp: finish_segment_def split: if_splits)
qed

end
