(* ===== verification/FieldValues.thy ===== *)
theory FieldValues
  imports Timestamps Paths "HOL-Library.Option_ord"
begin

text \<open>
  \<open>model/field_value.h\<close> and \<open>model/field_value.cc\<close>: the values of document fields.  The map of
  an object value is kept as the ascending list of its entries (theory \<open>SortedMap\<close> shows that
  the map's operations are \<open>al_put\<close>, \<open>al_del\<close> and \<open>al_get\<close> on these entries).  The virtual
  methods of \<open>BaseValue\<close> call back the methods of \<open>FieldValue\<close> on their elements; the
  argument \<open>f\<close> stands for this call.
\<close>

section \<open>The values\<close>

datatype FieldValue =
    FNull
  | FBoolean bool
  | FInteger int64
  | FDouble double
  | FTimestamp Timestamp
  | FServerTimestamp Timestamp "FieldValue option"
  | FString string
  | FBlob string
  | FReference DatabaseId DocumentKey
  | FGeoPoint GeoPoint
  | FArray "FieldValue list"
  | FObject "(string \<times> FieldValue) list"

type_synonym fv_map = "(string \<times> FieldValue) list"

datatype Type = TNull | TBoolean | TInteger | TDouble | TTimestamp | TServerTimestamp
  | TString | TBlob | TReference | TGeoPoint | TArray | TObject

fun Type_index :: "Type \<Rightarrow> nat" where
  "Type_index TNull = 0" | "Type_index TBoolean = 1" | "Type_index TInteger = 2"
| "Type_index TDouble = 3" | "Type_index TTimestamp = 4" | "Type_index TServerTimestamp = 5"
| "Type_index TString = 6" | "Type_index TBlob = 7" | "Type_index TReference = 8"
| "Type_index TGeoPoint = 9" | "Type_index TArray = 10" | "Type_index TObject = 11"

lemma Type_index_inj: "(Type_index a = Type_index b) = (a = b)"
  by (cases a; cases b) simp_all

instantiation Type :: linorder
begin

definition less_Type :: "Type \<Rightarrow> Type \<Rightarrow> bool" where
  "less_Type a b = (Type_index a < Type_index b)"

definition less_eq_Type :: "Type \<Rightarrow> Type \<Rightarrow> bool" where
  "less_eq_Type a b = (Type_index a \<le> Type_index b)"

instance
  by standard (auto simp: less_Type_def less_eq_Type_def Type_index_inj[symmetric])

end

fun type_of :: "FieldValue \<Rightarrow> Type" where
  "type_of FNull = TNull"
| "type_of (FBoolean b) = TBoolean"
| "type_of (FInteger i) = TInteger"
| "type_of (FDouble d) = TDouble"
| "type_of (FTimestamp t) = TTimestamp"
| "type_of (FServerTimestamp t p) = TServerTimestamp"
| "type_of (FString s) = TString"
| "type_of (FBlob b) = TBlob"
| "type_of (FReference d k) = TReference"
| "type_of (FGeoPoint p) = TGeoPoint"
| "type_of (FArray vs) = TArray"
| "type_of (FObject es) = TObject"

definition is_number :: "FieldValue \<Rightarrow> bool" where
  "is_number v = (let t = type_of v in t = TInteger \<or> t = TDouble)"

text \<open>The accessors assert the type.\<close>

definition boolean_value :: "FieldValue \<Rightarrow> bool result" where
  "boolean_value v = (case v of FBoolean b \<Rightarrow> Inr b | _ \<Rightarrow> Inl HardAssert)"

definition integer_value :: "FieldValue \<Rightarrow> int64 result" where
  "integer_value v = (case v of FInteger i \<Rightarrow> Inr i | _ \<Rightarrow> Inl HardAssert)"

definition double_value :: "FieldValue \<Rightarrow> double result" where
  "double_value v = (case v of FDouble d \<Rightarrow> Inr d | _ \<Rightarrow> Inl HardAssert)"

definition array_value :: "FieldValue \<Rightarrow> FieldValue list result" where
  "array_value v = (case v of FArray vs \<Rightarrow> Inr vs | _ \<Rightarrow> Inl HardAssert)"

definition object_value :: "FieldValue \<Rightarrow> fv_map result" where
  "object_value v = (case v of FObject es \<Rightarrow> Inr es | _ \<Rightarrow> Inl HardAssert)"

definition is_nan :: "FieldValue \<Rightarrow> bool" where
  "is_nan v = (case v of FDouble d \<Rightarrow> fp_isnan d | _ \<Rightarrow> False)"

definition kCanonicalNanBits :: "64 word" where
  "kCanonicalNanBits = 0x7ff8000000000000"

definition FromDouble :: "double \<Rightarrow> FieldValue" where
  "FromDouble d = FDouble (if fp_isnan d then kCanonicalNanBits else d)"

definition FieldValue_Nan :: FieldValue where
  "FieldValue_Nan = FromDouble fp_nan"

definition EmptyObject :: FieldValue where
  "EmptyObject = FObject []"

section \<open>Comparison\<close>

definition TypesComparable :: "Type \<Rightarrow> Type \<Rightarrow> bool" where
  "TypesComparable lhs rhs =
     (if lhs = TInteger \<or> lhs = TDouble then rhs = TInteger \<or> rhs = TDouble
      else if lhs = TTimestamp \<or> lhs = TServerTimestamp then rhs = TTimestamp \<or> rhs = TServerTimestamp
      else lhs = rhs)"

definition CompareTypes :: "FieldValue \<Rightarrow> FieldValue \<Rightarrow> comparison_result" where
  "CompareTypes this other =
     (if TypesComparable (type_of this) (type_of other) then Same
      else DefaultCompare (type_of this) (type_of other))"

fun NumberValue_CompareTo :: "FieldValue \<Rightarrow> FieldValue \<Rightarrow> comparison_result" where
  "NumberValue_CompareTo (FInteger i) (FInteger j) = Int64Compare i j"
| "NumberValue_CompareTo (FDouble d) (FDouble e) = DoubleCompare d e"
| "NumberValue_CompareTo (FInteger i) (FDouble e) = ReverseOrder (CompareMixedNumber e i)"
| "NumberValue_CompareTo (FDouble d) (FInteger j) = CompareMixedNumber d j"
| "NumberValue_CompareTo _ _ = Same"

fun TimestampValue_CompareTo :: "FieldValue \<Rightarrow> FieldValue \<Rightarrow> comparison_result" where
  "TimestampValue_CompareTo (FTimestamp s) (FTimestamp t) = DefaultCompare s t"
| "TimestampValue_CompareTo _ _ = Ascending"

fun ServerTimestampValue_CompareTo :: "FieldValue \<Rightarrow> FieldValue \<Rightarrow> comparison_result" where
  "ServerTimestampValue_CompareTo (FServerTimestamp s p) (FServerTimestamp t q) = DefaultCompare s t"
| "ServerTimestampValue_CompareTo _ _ = Descending"

definition ReferenceValue_CompareTo ::
  "DatabaseId \<times> DocumentKey \<Rightarrow> DatabaseId \<times> DocumentKey \<Rightarrow> comparison_result" where
  "ReferenceValue_CompareTo a b =
     (let cmp = DatabaseId_CompareTo (fst a) (fst b)
      in if cmp \<noteq> Same then cmp else DocumentKey_CompareTo (snd a) (snd b))"

text \<open>
  The elements of a map are pairs, which have no \<open>CompareTo\<close>: they compare by the
  \<open>operator<\<close> of \<open>std::pair\<close>, in both directions.
\<close>

definition pair_lt :: "(FieldValue \<Rightarrow> FieldValue \<Rightarrow> comparison_result) \<Rightarrow>
    string \<times> FieldValue \<Rightarrow> string \<times> FieldValue \<Rightarrow> bool" where
  "pair_lt f p q = (std_string_compare (fst p) (fst q) < 0 \<or>
     (\<not> std_string_compare (fst q) (fst p) < 0 \<and> f (snd p) (snd q) = Ascending))"

definition BaseValue_CompareTo :: "(FieldValue \<Rightarrow> FieldValue \<Rightarrow> comparison_result) \<Rightarrow>
    FieldValue \<Rightarrow> FieldValue \<Rightarrow> comparison_result" where
  "BaseValue_CompareTo f this other =
     (let cmp = CompareTypes this other
      in if cmp \<noteq> Same then cmp
         else (case this of
             FNull \<Rightarrow> Same
           | FBoolean b \<Rightarrow> (case other of FBoolean c \<Rightarrow> DefaultCompare b c | _ \<Rightarrow> Same)
           | FInteger i \<Rightarrow> NumberValue_CompareTo this other
           | FDouble d \<Rightarrow> NumberValue_CompareTo this other
           | FTimestamp t \<Rightarrow> TimestampValue_CompareTo this other
           | FServerTimestamp t p \<Rightarrow> ServerTimestampValue_CompareTo this other
           | FString s \<Rightarrow> (case other of FString t \<Rightarrow> StringCompare s t | _ \<Rightarrow> Same)
           | FBlob s \<Rightarrow> (case other of FBlob t \<Rightarrow> StringCompare s t | _ \<Rightarrow> Same)
           | FReference d k \<Rightarrow> (case other of FReference d' k' \<Rightarrow> ReferenceValue_CompareTo (d, k) (d', k') | _ \<Rightarrow> Same)
           | FGeoPoint p \<Rightarrow> (case other of FGeoPoint q \<Rightarrow> GeoPoint_Compare p q | _ \<Rightarrow> Same)
           | FArray xs \<Rightarrow> (case other of FArray ys \<Rightarrow> CompareContainer f xs ys | _ \<Rightarrow> Same)
           | FObject es \<Rightarrow> (case other of FObject fs \<Rightarrow> CompareContainer (CompareByLess (pair_lt f)) es fs | _ \<Rightarrow> Same)))"

lemma CompareContainer_cong:
  "(\<And>x y. x \<in> set xs \<Longrightarrow> y \<in> set ys \<Longrightarrow> f x y = g x y) \<Longrightarrow> CompareContainer f xs ys = CompareContainer g xs ys"
  by (induction f xs ys rule: CompareContainer.induct) (auto split: comparison_result.splits)

lemma entry_size: "p \<in> set es \<Longrightarrow> size (snd p) \<le> size_list (size_prod (\<lambda>x. 0) size) es"
  for es :: fv_map
  by (induction es) auto

lemma BaseValue_CompareTo_cong [fundef_cong]:
  assumes "a = a'" "b = b'" "\<And>x y. size x + size y < size a' + size b' \<Longrightarrow> f x y = g x y"
  shows "BaseValue_CompareTo f a b = BaseValue_CompareTo g a' b'"
proof -
  have arr: "CompareContainer f xs ys = CompareContainer g xs ys" if "a' = FArray xs" "b' = FArray ys" for xs ys
  proof (rule CompareContainer_cong, rule assms(3))
    fix x y assume "x \<in> set xs" "y \<in> set ys"
    then show "size x + size y < size a' + size b'"
      using size_list_estimation'[of x xs "size x" size] size_list_estimation'[of y ys "size y" size] that by simp
  qed
  have obj: "CompareContainer (CompareByLess (pair_lt f)) es fs = CompareContainer (CompareByLess (pair_lt g)) es fs"
    if "a' = FObject es" "b' = FObject fs" for es fs
  proof (rule CompareContainer_cong)
    fix p q assume "p \<in> set es" "q \<in> set fs"
    then have "size (snd p) + size (snd q) < size a' + size b'"
      using entry_size[of p es] entry_size[of q fs] that by simp
    then have "f (snd p) (snd q) = g (snd p) (snd q)" "f (snd q) (snd p) = g (snd q) (snd p)"
      using assms(3)[of "snd p" "snd q"] assms(3)[of "snd q" "snd p"] by simp_all
    then show "CompareByLess (pair_lt f) p q = CompareByLess (pair_lt g) p q"
      by (simp add: CompareByLess_def pair_lt_def)
  qed
  show ?thesis
    unfolding assms(1,2) BaseValue_CompareTo_def Let_def
    using arr obj by (auto split: FieldValue.split)
qed

function FieldValue_CompareTo :: "FieldValue \<Rightarrow> FieldValue \<Rightarrow> comparison_result" where
  "FieldValue_CompareTo lhs rhs = BaseValue_CompareTo FieldValue_CompareTo lhs rhs"
  by auto
termination by (relation "measure (\<lambda>(a, b). size a + size b)") auto

declare FieldValue_CompareTo.simps [simp del]

section \<open>Equality\<close>

definition BaseValue_Equals :: "(FieldValue \<Rightarrow> FieldValue \<Rightarrow> bool) \<Rightarrow> FieldValue \<Rightarrow> FieldValue \<Rightarrow> bool" where
  "BaseValue_Equals f this other =
     (if type_of this \<noteq> type_of other then False
      else (case this of
          FNull \<Rightarrow> True
        | FBoolean b \<Rightarrow> (case other of FBoolean c \<Rightarrow> b = c | _ \<Rightarrow> False)
        | FInteger i \<Rightarrow> (case other of FInteger j \<Rightarrow> i = j | _ \<Rightarrow> False)
        | FDouble d \<Rightarrow> (case other of FDouble e \<Rightarrow> DoubleBitwiseEquals d e | _ \<Rightarrow> False)
        | FTimestamp t \<Rightarrow> (case other of FTimestamp u \<Rightarrow> Timestamp_eq t u | _ \<Rightarrow> False)
        | FServerTimestamp t p \<Rightarrow> (case other of FServerTimestamp u q \<Rightarrow> Timestamp_eq t u | _ \<Rightarrow> False)
        | FString s \<Rightarrow> (case other of FString t \<Rightarrow> s = t | _ \<Rightarrow> False)
        | FBlob s \<Rightarrow> (case other of FBlob t \<Rightarrow> s = t | _ \<Rightarrow> False)
        | FReference d k \<Rightarrow> (case other of FReference d' k' \<Rightarrow>
             cmp_eq DatabaseId_CompareTo d d' \<and> k = k' | _ \<Rightarrow> False)
        | FGeoPoint p \<Rightarrow> (case other of FGeoPoint q \<Rightarrow> GeoPoint_eq p q | _ \<Rightarrow> False)
        | FArray xs \<Rightarrow> (case other of FArray ys \<Rightarrow> list_all2 f xs ys | _ \<Rightarrow> False)
        | FObject es \<Rightarrow> (case other of FObject fs \<Rightarrow>
             list_all2 (\<lambda>p q. fst p = fst q \<and> f (snd p) (snd q)) es fs | _ \<Rightarrow> False)))"

lemma list_all2_eq_cong:
  "(\<And>x y. x \<in> set xs \<Longrightarrow> y \<in> set ys \<Longrightarrow> f x y = g x y) \<Longrightarrow> list_all2 f xs ys = list_all2 g xs ys"
  using list.rel_cong by blast

lemma BaseValue_Equals_cong [fundef_cong]:
  assumes "a = a'" "b = b'" "\<And>x y. size x + size y < size a' + size b' \<Longrightarrow> f x y = g x y"
  shows "BaseValue_Equals f a b = BaseValue_Equals g a' b'"
proof -
  have arr: "list_all2 f xs ys = list_all2 g xs ys" if "a' = FArray xs" "b' = FArray ys" for xs ys
  proof (rule list_all2_eq_cong, rule assms(3))
    fix x y assume "x \<in> set xs" "y \<in> set ys"
    then show "size x + size y < size a' + size b'"
      using size_list_estimation'[of x xs "size x" size] size_list_estimation'[of y ys "size y" size] that by simp
  qed
  have obj: "list_all2 (\<lambda>p q. fst p = fst q \<and> f (snd p) (snd q)) es fs =
      list_all2 (\<lambda>p q. fst p = fst q \<and> g (snd p) (snd q)) es fs"
    if "a' = FObject es" "b' = FObject fs" for es fs
  proof (rule list_all2_eq_cong)
    fix p q assume "p \<in> set es" "q \<in> set fs"
    then have "size (snd p) + size (snd q) < size a' + size b'"
      using entry_size[of p es] entry_size[of q fs] that by simp
    then show "(fst p = fst q \<and> f (snd p) (snd q)) = (fst p = fst q \<and> g (snd p) (snd q))"
      using assms(3)[of "snd p" "snd q"] by simp
  qed
  show ?thesis
    unfolding assms(1,2) BaseValue_Equals_def
    using arr obj by (auto split: FieldValue.split)
qed

function FieldValue_eq :: "FieldValue \<Rightarrow> FieldValue \<Rightarrow> bool" where
  "FieldValue_eq lhs rhs = BaseValue_Equals FieldValue_eq lhs rhs"
  by auto
termination by (relation "measure (\<lambda>(a, b). size a + size b)") auto

declare FieldValue_eq.simps [simp del]

end
