(* ===== verification/FieldValueProofs.thy ===== *)
theory FieldValueProofs
  imports FieldValues
begin

text \<open>
  The comparison of field values is a total preorder, whatever the nesting and the mix of
  integers and doubles, and equality refines it.
\<close>

section \<open>The order groups\<close>

fun order_group :: "FieldValue \<Rightarrow> Type" where
  "order_group (FDouble d) = TInteger"
| "order_group (FServerTimestamp t p) = TTimestamp"
| "order_group v = type_of v"

lemma CompareTypes_group: "CompareTypes a b = DefaultCompare (order_group a) (order_group b)"
  by (cases a; cases b) (simp_all add: CompareTypes_def TypesComparable_def DefaultCompare_def less_Type_def)

text \<open>Numbers compare by their exact value, NaN first.\<close>

fun number_key :: "FieldValue \<Rightarrow> int option" where
  "number_key (FInteger i) = Some (sint i * fp_unit)"
| "number_key (FDouble d) = (if fp_isnan d then None else Some (fp_scaled d))"
| "number_key _ = None"

lemma DefaultCompare_scale: "0 < (k::int) \<Longrightarrow> DefaultCompare (a * k) (b * k) = DefaultCompare a b"
  by (simp add: DefaultCompare_def)

lemma NumberValue_CompareTo_key:
  assumes "is_number a" "is_number b"
  shows "NumberValue_CompareTo a b = DefaultCompare (number_key a) (number_key b)"
proof -
  have o: "DefaultCompare (Some x) (Some y) = DefaultCompare x y" "DefaultCompare None (Some x) = Ascending"
    "DefaultCompare (Some x) None = Descending" "DefaultCompare (None :: int option) None = Same" for x y :: int
    by (auto simp: DefaultCompare_def)
  have r: "ReverseOrder (DefaultCompare x y) = DefaultCompare y x" for x y :: int
    by (auto simp: DefaultCompare_def)
  show ?thesis using assms fp_unit_pos
    by (cases a; cases b)
      (auto simp: is_number_def o r Int64Compare_def DoubleCompare_key CompareMixedNumber_key DefaultCompare_scale)
qed

fun time_key :: "FieldValue \<Rightarrow> nat \<times> Timestamp" where
  "time_key (FTimestamp t) = (0, t)"
| "time_key (FServerTimestamp t p) = (1, t)"
| "time_key v = (2, Timestamp 0 0)"

definition group_compare :: "(FieldValue \<Rightarrow> FieldValue \<Rightarrow> comparison_result) \<Rightarrow>
    FieldValue \<Rightarrow> FieldValue \<Rightarrow> comparison_result" where
  "group_compare f a b = BaseValue_CompareTo f a b"

lemma BaseValue_CompareTo_ranked:
  "BaseValue_CompareTo f a b =
     (if order_group a = order_group b then group_compare f a b
      else DefaultCompare (order_group a) (order_group b))"
proof (cases "order_group a = order_group b")
  case False
  then have "CompareTypes a b \<noteq> Same" by (simp add: CompareTypes_group)
  then show ?thesis using False CompareTypes_group by (simp add: BaseValue_CompareTo_def)
qed (simp add: group_compare_def)

lemma group_compare_simps:
  "group_compare f FNull FNull = Same"
  "group_compare f (FBoolean b) (FBoolean c) = DefaultCompare b c"
  "is_number v \<Longrightarrow> is_number w \<Longrightarrow> group_compare f v w = DefaultCompare (number_key v) (number_key w)"
  "group_compare f (FTimestamp s) (FTimestamp t) = DefaultCompare s t"
  "group_compare f (FTimestamp s) (FServerTimestamp t q) = Ascending"
  "group_compare f (FServerTimestamp s p) (FTimestamp t) = Descending"
  "group_compare f (FServerTimestamp s p) (FServerTimestamp t q) = DefaultCompare s t"
  "group_compare f (FString x) (FString y) = StringCompare x y"
  "group_compare f (FBlob x) (FBlob y) = StringCompare x y"
  "group_compare f (FReference d k) (FReference d' k') = ReferenceValue_CompareTo (d, k) (d', k')"
  "group_compare f (FGeoPoint g) (FGeoPoint h) = GeoPoint_Compare g h"
  "group_compare f (FArray xs) (FArray ys) = CompareContainer f xs ys"
  "group_compare f (FObject es) (FObject fs) = CompareContainer (CompareByLess (pair_lt f)) es fs"
proof -
  assume n: "is_number v" "is_number w"
  then have "CompareTypes v w = Same"
    by (cases v; cases w) (simp_all add: is_number_def CompareTypes_group)
  then have "group_compare f v w = NumberValue_CompareTo v w" using n
    by (cases v) (simp_all add: group_compare_def BaseValue_CompareTo_def is_number_def)
  then show "group_compare f v w = DefaultCompare (number_key v) (number_key w)"
    using NumberValue_CompareTo_key[OF n] by simp
qed (simp_all add: group_compare_def BaseValue_CompareTo_def CompareTypes_group)

section \<open>One level of the comparison keeps the contract\<close>

lemma pair_compare_lex:
  assumes "total_comparator f"
  shows "CompareByLess (pair_lt f) p q =
    (case StringCompare (fst p) (fst q) of Same \<Rightarrow> f (snd p) (snd q) | r \<Rightarrow> r)"
proof -
  have "(f (snd q) (snd p) = Ascending) = (f (snd p) (snd q) = Descending)"
    using total_comparator.desc_iff[OF assms] by blast
  then show ?thesis
    by (cases "f (snd p) (snd q)")
      (auto simp: CompareByLess_def pair_lt_def StringCompare_def ComparisonResultFromInt_def std_string_compare_lex)
qed

lemma pair_compare_total:
  assumes "total_comparator f" shows "total_comparator (CompareByLess (pair_lt f))"
proof -
  have "CompareByLess (pair_lt f) =
      (\<lambda>p q. case StringCompare (fst p) (fst q) of Same \<Rightarrow> f (snd p) (snd q) | r \<Rightarrow> r)"
    using pair_compare_lex[OF assms] by (intro ext)
  then show ?thesis
    using total_comparator_lex[OF total_comparator_key[OF string_cmp.total_comparator_axioms, of fst]
        total_comparator_key[OF assms, of snd]] by simp
qed

lemma reference_total: "total_comparator ReferenceValue_CompareTo"
proof -
  have "ReferenceValue_CompareTo =
      (\<lambda>p q. case DatabaseId_CompareTo (fst p) (fst q) of Same \<Rightarrow> DocumentKey_CompareTo (snd p) (snd q) | r \<Rightarrow> r)"
    by (intro ext) (auto simp: ReferenceValue_CompareTo_def Let_def split: comparison_result.split)
  then show ?thesis
    using total_comparator_lex[OF total_comparator_key[OF database_cmp.total_comparator_axioms, of fst]
        total_comparator_key[OF key_cmp.total_comparator_axioms, of snd]] by simp
qed

lemma order_group_number: "(order_group v = TInteger) = is_number v"
  by (cases v) (simp_all add: is_number_def)

lemma group_compare_flip:
  assumes f: "total_comparator f" and g: "order_group a = order_group b"
  shows "group_compare f b a = ReverseOrder (group_compare f a b)"
proof (cases "is_number a")
  case True
  then have "is_number b" using g order_group_number by metis
  with True show ?thesis using default_cmp.flip[of "number_key b" "number_key a"] by (simp add: group_compare_simps(3))
next
  case False
  then have n: "\<not> is_number b" using g order_group_number by metis
  show ?thesis
  proof (cases a)
    case (FReference d k)
    then obtain d2 k2 where "b = FReference d2 k2" using g by (cases b) simp_all
    then show ?thesis using FReference
      by (simp only: group_compare_simps) (rule total_comparator.flip[OF reference_total])
  next
    case (FArray xs)
    then obtain ys where "b = FArray ys" using g by (cases b) simp_all
    then show ?thesis using FArray
      by (simp only: group_compare_simps)
        (rule total_comparator.flip[OF total_comparator.container_total[OF f]])
  next
    case (FObject xs)
    then obtain ys where "b = FObject ys" using g by (cases b) simp_all
    then show ?thesis using FObject
      by (simp only: group_compare_simps)
        (rule total_comparator.flip[OF total_comparator.container_total[OF pair_compare_total[OF f]]])
  next
    case (FString s)
    then obtain t where "b = FString t" using g by (cases b) simp_all
    then show ?thesis using FString by (simp only: group_compare_simps) (rule string_cmp.flip)
  next
    case (FBlob s)
    then obtain t where "b = FBlob t" using g by (cases b) simp_all
    then show ?thesis using FBlob by (simp only: group_compare_simps) (rule string_cmp.flip)
  next
    case (FGeoPoint s)
    then obtain t where "b = FGeoPoint t" using g by (cases b) simp_all
    then show ?thesis using FGeoPoint by (simp only: group_compare_simps) (rule geo_cmp.flip)
  next
    case (FBoolean x)
    then obtain y where "b = FBoolean y" using g by (cases b) simp_all
    then show ?thesis using FBoolean by (simp only: group_compare_simps) (rule default_cmp.flip)
  next
    case (FTimestamp t)
    then show ?thesis using g by (cases b) (simp_all add: group_compare_simps default_cmp.flip[of t])
  next
    case (FServerTimestamp t p)
    then show ?thesis using g by (cases b) (simp_all add: group_compare_simps default_cmp.flip[of t])
  next
    case FNull
    then have "b = FNull" using g by (cases b) simp_all
    then show ?thesis using FNull by (simp add: group_compare_simps)
  qed (use False in \<open>simp_all add: is_number_def\<close>)
qed

lemma group_compare_trans:
  assumes f: "total_comparator f" and g: "order_group a = order_group b" "order_group b = order_group c"
    and le: "group_compare f a b \<noteq> Descending" "group_compare f b c \<noteq> Descending"
  shows "group_compare f a c \<noteq> Descending"
proof (cases "is_number a")
  case True
  then have "is_number b" "is_number c" using g order_group_number by metis+
  with True le show ?thesis by (simp add: group_compare_simps)
next
  case False
  then have n: "\<not> is_number b" "\<not> is_number c" using g order_group_number by metis+
  note T = string_cmp.le_trans geo_cmp.le_trans total_comparator.le_trans[OF reference_total]
    total_comparator.le_trans[OF total_comparator.container_total[OF f]]
    total_comparator.le_trans[OF total_comparator.container_total[OF pair_compare_total[OF f]]]
  show ?thesis
  proof (cases a)
    case (FTimestamp t)
    then show ?thesis using g le by (cases b; cases c) (simp_all add: group_compare_simps)
  next
    case (FServerTimestamp t p)
    then show ?thesis using g le by (cases b; cases c) (simp_all add: group_compare_simps)
  next
    case (FReference d k)
    then obtain d2 k2 d3 k3 where "b = FReference d2 k2" "c = FReference d3 k3"
      using g by (cases b; cases c) simp_all
    then show ?thesis using le T(3)[of "(d, k)" "(d2, k2)" "(d3, k3)"] FReference by (simp add: group_compare_simps)
  next
    case (FArray xs)
    then obtain ys zs where "b = FArray ys" "c = FArray zs" using g by (cases b; cases c) simp_all
    then show ?thesis using le T(4)[of xs ys zs] FArray by (simp add: group_compare_simps)
  next
    case (FObject xs)
    then obtain ys zs where "b = FObject ys" "c = FObject zs" using g by (cases b; cases c) simp_all
    then show ?thesis using le T(5)[of xs ys zs] FObject by (simp add: group_compare_simps)
  next
    case (FString s)
    then obtain t u where "b = FString t" "c = FString u" using g by (cases b; cases c) simp_all
    then show ?thesis using le T(1)[of s t u] FString by (simp add: group_compare_simps)
  next
    case (FBlob s)
    then obtain t u where "b = FBlob t" "c = FBlob u" using g by (cases b; cases c) simp_all
    then show ?thesis using le T(1)[of s t u] FBlob by (simp add: group_compare_simps)
  next
    case (FGeoPoint s)
    then obtain t u where "b = FGeoPoint t" "c = FGeoPoint u" using g by (cases b; cases c) simp_all
    then show ?thesis using le T(2)[of s t u] FGeoPoint by (simp add: group_compare_simps)
  next
    case FNull
    then have "c = FNull" using g by (cases b; cases c) simp_all
    then show ?thesis using FNull by (simp add: group_compare_simps)
  next
    case (FBoolean x)
    then obtain y z where "b = FBoolean y" "c = FBoolean z" using g by (cases b; cases c) simp_all
    then show ?thesis using le FBoolean by (auto simp: group_compare_simps)
  qed (use False in \<open>simp_all add: is_number_def\<close>)
qed

lemma BaseValue_CompareTo_total:
  assumes "total_comparator f" shows "total_comparator (BaseValue_CompareTo f)"
proof -
  have "BaseValue_CompareTo f =
      (\<lambda>a b. if order_group a = order_group b then group_compare f a b
             else DefaultCompare (order_group a) (order_group b))"
    by (intro ext) (rule BaseValue_CompareTo_ranked)
  moreover have "total_comparator \<dots>"
    by (rule total_comparator_ranked) (use assms group_compare_flip group_compare_trans in blast)+
  ultimately show ?thesis by simp
qed

section \<open>The comparison to any depth\<close>

primrec cmp_to_depth :: "nat \<Rightarrow> FieldValue \<Rightarrow> FieldValue \<Rightarrow> comparison_result" where
  "cmp_to_depth 0 = (\<lambda>_ _. Same)"
| "cmp_to_depth (Suc n) = BaseValue_CompareTo (cmp_to_depth n)"

lemma cmp_to_depth_total: "total_comparator (cmp_to_depth n)"
proof (induction n)
  case 0
  show ?case by unfold_locales simp_all
qed (simp add: BaseValue_CompareTo_total)

lemma cmp_to_depth_eq: "size a + size b < n \<Longrightarrow> cmp_to_depth n a b = FieldValue_CompareTo a b"
proof (induction n arbitrary: a b)
  case (Suc n)
  have "BaseValue_CompareTo (cmp_to_depth n) a b = BaseValue_CompareTo FieldValue_CompareTo a b"
    by (rule BaseValue_CompareTo_cong) (use Suc in auto)
  then show ?case by (simp add: FieldValue_CompareTo.simps)
qed simp

interpretation fv_cmp: total_comparator FieldValue_CompareTo
proof
  fix a b c :: FieldValue
  define n where "n = Suc (size a + size b + size c + size b + size a + size c)"
  have n: "cmp_to_depth n x y = FieldValue_CompareTo x y" if "x \<in> {a, b, c}" "y \<in> {a, b, c}" for x y
    by (rule cmp_to_depth_eq) (use that in \<open>auto simp: n_def\<close>)
  show "FieldValue_CompareTo b a = ReverseOrder (FieldValue_CompareTo a b)"
    using total_comparator.flip[OF cmp_to_depth_total, of n b a] n by simp
  show "FieldValue_CompareTo a b \<noteq> Descending \<Longrightarrow> FieldValue_CompareTo b c \<noteq> Descending \<Longrightarrow>
      FieldValue_CompareTo a c \<noteq> Descending"
    using total_comparator.le_trans[OF cmp_to_depth_total, of n a b c] n by simp
qed

lemma FieldValue_CompareTo_group:
  "FieldValue_CompareTo a b =
     (if order_group a = order_group b then group_compare FieldValue_CompareTo a b
      else DefaultCompare (order_group a) (order_group b))"
  by (simp add: FieldValue_CompareTo.simps BaseValue_CompareTo_ranked)

section \<open>Equality\<close>

lemma FieldValue_eq_simps [simp]:
  "FieldValue_eq FNull v = (v = FNull)"
  "FieldValue_eq (FBoolean b) v = (v = FBoolean b)"
  "FieldValue_eq (FInteger i) v = (v = FInteger i)"
  "FieldValue_eq (FTimestamp t) v = (v = FTimestamp t)"
  "FieldValue_eq (FString s) v = (v = FString s)"
  "FieldValue_eq (FBlob s) v = (v = FBlob s)"
  "FieldValue_eq (FReference d k) v = (v = FReference d k)"
  "FieldValue_eq (FDouble x) v = (\<exists>y. v = FDouble y \<and> DoubleBitwiseEquals x y)"
  "FieldValue_eq (FServerTimestamp t p) v = (\<exists>q. v = FServerTimestamp t q)"
  "FieldValue_eq (FGeoPoint g) v = (\<exists>h. v = FGeoPoint h \<and> GeoPoint_Compare g h = Same)"
  "FieldValue_eq (FArray xs) v = (\<exists>ys. v = FArray ys \<and> list_all2 FieldValue_eq xs ys)"
  "FieldValue_eq (FObject es) v = (\<exists>fs. v = FObject fs \<and>
     list_all2 (\<lambda>p q. fst p = fst q \<and> FieldValue_eq (snd p) (snd q)) es fs)"
  by (subst FieldValue_eq.simps;
      cases v; auto simp: BaseValue_Equals_def cmp_eq_def GeoPoint_eq_def GeoPoint_Compare_def CompareByLess_def)+

lemma CompareContainer_Same:
  "list_all2 (\<lambda>x y. f x y = Same) xs ys \<Longrightarrow> CompareContainer f xs ys = Same"
  by (induction rule: list_all2_induct) simp_all

lemma list_all2_elem_mono:
  "list_all2 P xs ys \<Longrightarrow> (\<And>x y. x \<in> set xs \<Longrightarrow> P x y \<Longrightarrow> Q x y) \<Longrightarrow> list_all2 Q xs ys"
  by (induction rule: list_all2_induct) auto

lemma FieldValue_eq_Same: "FieldValue_eq a b \<Longrightarrow> FieldValue_CompareTo a b = Same"
proof (induction a arbitrary: b)
  case (FDouble x)
  then obtain y where y: "b = FDouble y" "DoubleBitwiseEquals x y" by auto
  have "number_key (FDouble x) = number_key (FDouble y)"
    using DoubleBitwiseEquals_same[OF y(2)] by (auto simp: DoubleCompare_key split: if_splits)
  then show ?case using y
    by (simp add: FieldValue_CompareTo_group group_compare_simps(3) is_number_def del: number_key.simps)
next
  case (FArray xs)
  then obtain ys where ys: "b = FArray ys" "list_all2 FieldValue_eq xs ys" by auto
  have "list_all2 (\<lambda>x y. FieldValue_CompareTo x y = Same) xs ys"
    using ys(2) FArray.IH by (rule list_all2_elem_mono)
  then show ?case using ys by (simp add: FieldValue_CompareTo_group group_compare_simps CompareContainer_Same)
next
  case (FObject es)
  then obtain fs where fs: "b = FObject fs"
    "list_all2 (\<lambda>p q. fst p = fst q \<and> FieldValue_eq (snd p) (snd q)) es fs" by auto
  have "list_all2 (\<lambda>p q. CompareByLess (pair_lt FieldValue_CompareTo) p q = Same) es fs"
    using fs(2)
  proof (rule list_all2_elem_mono)
    fix p q assume p: "p \<in> set es" and e: "fst p = fst q \<and> FieldValue_eq (snd p) (snd q)"
    have "FieldValue_CompareTo (snd p) (snd q) = Same"
      using FObject.IH[OF p, of "snd p" "snd q"] e by (cases p rule: prod.exhaust) auto
    then show "CompareByLess (pair_lt FieldValue_CompareTo) p q = Same"
      using e by (simp add: pair_compare_lex[OF fv_cmp.total_comparator_axioms])
  qed
  then show ?case using fs by (simp add: FieldValue_CompareTo_group group_compare_simps CompareContainer_Same)
qed (auto simp: FieldValue_CompareTo_group group_compare_simps is_number_def)

lemma FieldValue_eq_refl [simp]: "FieldValue_eq a a"
proof (induction a)
  case (FArray xs)
  then show ?case by (simp add: list_all2_same)
next
  case (FObject es)
  have "FieldValue_eq (snd p) (snd p)" if "p \<in> set es" for p
    using FObject[OF that, of "snd p"] by (cases p rule: prod.exhaust) auto
  then show ?case by (simp add: list_all2_same)
qed (auto simp: DoubleBitwiseEquals_def)

lemma list_all2_flip_elem:
  "list_all2 P xs ys \<Longrightarrow> (\<And>x y. x \<in> set xs \<Longrightarrow> P x y \<Longrightarrow> Q y x) \<Longrightarrow> list_all2 Q ys xs"
  by (induction rule: list_all2_induct) auto

lemma FieldValue_eq_sym: "FieldValue_eq a b \<Longrightarrow> FieldValue_eq b a"
proof (induction a arbitrary: b)
  case (FArray xs)
  then obtain ys where ys: "b = FArray ys" "list_all2 FieldValue_eq xs ys" by auto
  have "list_all2 FieldValue_eq ys xs" using ys(2) FArray.IH by (rule list_all2_flip_elem)
  then show ?case using ys by simp
next
  case (FObject es)
  then obtain fs where fs: "b = FObject fs"
    "list_all2 (\<lambda>p q. fst p = fst q \<and> FieldValue_eq (snd p) (snd q)) es fs" by auto
  have "list_all2 (\<lambda>p q. fst p = fst q \<and> FieldValue_eq (snd p) (snd q)) fs es"
    using fs(2)
  proof (rule list_all2_flip_elem)
    fix p q assume p: "p \<in> set es" and e: "fst p = fst q \<and> FieldValue_eq (snd p) (snd q)"
    then show "fst q = fst p \<and> FieldValue_eq (snd q) (snd p)"
      using FObject.IH[OF p, of "snd p" "snd q"] by (cases p rule: prod.exhaust) auto
  qed
  then show ?case using fs by simp
qed (auto simp: DoubleBitwiseEquals_def geo_cmp.same_sym)

end
