(* ===== verification/ObjectValues.thy ===== *)
theory ObjectValues
  imports FieldValueProofs
begin

text \<open>
  \<open>ObjectValue\<close> of \<open>model/field_value.cc\<close> and \<open>model/field_mask.cc\<close>: reading, setting and
  deleting a field of a document by its path, and the mask of the fields an object holds.  A
  \<open>std::set<FieldPath>\<close> is the ascending list of its elements.
\<close>

type_synonym ObjectValue = fv_map
type_synonym FieldMask = "FieldPath list"

section \<open>Operations\<close>

definition make_ObjectValue :: "FieldValue \<Rightarrow> ObjectValue result" where
  "make_ObjectValue fv = object_value fv"

definition SetChild :: "string \<Rightarrow> FieldValue \<Rightarrow> ObjectValue \<Rightarrow> ObjectValue" where
  "SetChild child_name v obj = al_put StringCompare child_name v obj"

fun ObjectValue_Set :: "FieldPath \<Rightarrow> FieldValue \<Rightarrow> ObjectValue \<Rightarrow> ObjectValue result" where
  "ObjectValue_Set [] v obj = Inl HardAssert"
| "ObjectValue_Set [child_name] v obj = Inr (SetChild child_name v obj)"
| "ObjectValue_Set (child_name # p # ps) v obj =
     (let child = (case al_get StringCompare child_name obj of
                     Some (FObject entries) \<Rightarrow> entries | _ \<Rightarrow> [])
      in rmap (\<lambda>new_child. SetChild child_name (FObject new_child) obj)
           (ObjectValue_Set (p # ps) v child))"

fun ObjectValue_Delete :: "FieldPath \<Rightarrow> ObjectValue \<Rightarrow> ObjectValue result" where
  "ObjectValue_Delete [] obj = Inl HardAssert"
| "ObjectValue_Delete [child_name] obj = Inr (al_del StringCompare child_name obj)"
| "ObjectValue_Delete (child_name # p # ps) obj =
     (case al_get StringCompare child_name obj of
        Some (FObject entries) \<Rightarrow>
          rmap (\<lambda>new_child. SetChild child_name (FObject new_child) obj)
            (ObjectValue_Delete (p # ps) entries)
      | _ \<Rightarrow> Inr obj)"

fun get_from :: "FieldValue \<Rightarrow> FieldPath \<Rightarrow> FieldValue option" where
  "get_from current [] = Some current"
| "get_from current (p # ps) =
     (case current of
        FObject entries \<Rightarrow>
          (case al_get StringCompare p entries of None \<Rightarrow> None | Some v \<Rightarrow> get_from v ps)
      | _ \<Rightarrow> None)"

definition ObjectValue_Get :: "ObjectValue \<Rightarrow> FieldPath \<Rightarrow> FieldValue option" where
  "ObjectValue_Get obj field_path = get_from (FObject obj) field_path"

definition ObjectValue_CompareTo :: "ObjectValue \<Rightarrow> ObjectValue \<Rightarrow> comparison_result" where
  "ObjectValue_CompareTo lhs rhs = FieldValue_CompareTo (FObject lhs) (FObject rhs)"

text \<open>\<open>operator==\<close> comes from the \<open>Comparable\<close> mixin.\<close>

definition ObjectValue_eq :: "ObjectValue \<Rightarrow> ObjectValue \<Rightarrow> bool" where
  "ObjectValue_eq = cmp_eq ObjectValue_CompareTo"

function ToFieldMask :: "ObjectValue \<Rightarrow> FieldMask" where
  "ToFieldMask obj =
     foldl (\<lambda>fields entry.
       (case snd entry of
          FObject nested \<Rightarrow>
            (let nested_mask = ToFieldMask nested
             in if length nested_mask = 0 then std_set_insert [fst entry] fields
                else foldl (\<lambda>fs nested_path. std_set_insert (path_Concat [fst entry] nested_path) fs)
                       fields nested_mask)
        | _ \<Rightarrow> std_set_insert [fst entry] fields)) [] obj"
  by auto
termination
proof (relation "measure (size_list (size_prod (\<lambda>x. 0) size))")
  fix obj :: ObjectValue and entry nested
  assume "entry \<in> set obj" "snd entry = FObject nested"
  then show "(nested, obj) \<in> measure (size_list (size_prod (\<lambda>x. 0) size))"
    using entry_size[of entry obj] by simp
qed simp

declare ToFieldMask.simps [simp del]

definition mask_covers :: "FieldMask \<Rightarrow> FieldPath \<Rightarrow> bool" where
  "mask_covers fields field_path = list_ex (\<lambda>p. IsPrefixOf p field_path) fields"

section \<open>Well-formed values\<close>

function fv_ok :: "FieldValue \<Rightarrow> bool" where
  "fv_ok (FObject es) = (sorted_keys StringCompare es \<and> (\<forall>e \<in> set es. fv_ok (snd e)))"
| "fv_ok (FArray vs) = (\<forall>v \<in> set vs. fv_ok v)"
| "fv_ok FNull = True" | "fv_ok (FBoolean b) = True" | "fv_ok (FInteger i) = True"
| "fv_ok (FDouble d) = True" | "fv_ok (FTimestamp t) = True" | "fv_ok (FServerTimestamp t p) = True"
| "fv_ok (FString s) = True" | "fv_ok (FBlob s) = True" | "fv_ok (FReference d k) = True"
| "fv_ok (FGeoPoint g) = True"
  by pat_completeness auto
termination
  by (relation "measure size") (auto dest!: entry_size simp: less_Suc_eq_le intro: size_list_estimation')

abbreviation obj_ok :: "ObjectValue \<Rightarrow> bool" where
  "obj_ok obj \<equiv> fv_ok (FObject obj)"

lemma al_get_ok: "obj_ok obj \<Longrightarrow> al_get StringCompare k obj = Some v \<Longrightarrow> fv_ok v"
  using al_get_Some_set[of StringCompare k obj v] by fastforce

lemma SetChild_ok:
  assumes "obj_ok obj" "fv_ok v" shows "obj_ok (SetChild k v obj)"
proof -
  have "fv_ok (snd e)" if "e \<in> set (al_put StringCompare k v obj)" for e
    using set_al_put_vals[OF that] assms by force
  then show ?thesis using assms(1) by (simp add: SetChild_def string_cmp.sorted_al_put)
qed

section \<open>Set\<close>

lemma ObjectValue_Set_total: "p \<noteq> [] \<Longrightarrow> \<exists>obj'. ObjectValue_Set p v obj = Inr obj'"
  by (induction p v obj rule: ObjectValue_Set.induct) (auto simp: rmap_def Let_def split: sum.splits)

lemma get_SetChild [simp]:
  "get_from (FObject (SetChild k v obj)) (k' # ps) =
     (if k' = k then get_from v ps else get_from (FObject obj) (k' # ps))"
  by (simp add: SetChild_def string_cmp.al_get_put_strict)

lemma ObjectValue_Set_below:
  "ObjectValue_Set p v obj = Inr obj' \<Longrightarrow> get_from (FObject obj') (p @ q) = get_from v q"
  by (induction p v obj arbitrary: obj' rule: ObjectValue_Set.induct)
    (auto simp: rmap_Inr_conv Let_def simp del: get_from.simps(2))

lemma get_child: "get_from (FObject (case al_get StringCompare k obj of Some (FObject es) \<Rightarrow> es | _ \<Rightarrow> [])) (p # ps)
    = get_from (FObject obj) (k # p # ps)"
  by (auto split: option.splits FieldValue.splits)

lemma ObjectValue_Set_disjoint:
  "ObjectValue_Set p v obj = Inr obj' \<Longrightarrow> \<not> IsPrefixOf p q \<Longrightarrow> \<not> IsPrefixOf q p \<Longrightarrow>
   get_from (FObject obj') q = get_from (FObject obj) q"
proof (induction p v obj arbitrary: obj' q rule: ObjectValue_Set.induct)
  case (2 k v obj)
  then show ?case by (cases q) (auto simp: IsPrefixOf_def simp del: get_from.simps(2))
next
  case (3 k p ps v obj)
  define child where "child = (case al_get StringCompare k obj of Some (FObject es) \<Rightarrow> es | _ \<Rightarrow> [])"
  obtain c' where c': "ObjectValue_Set (p # ps) v child = Inr c'" "obj' = SetChild k (FObject c') obj"
    using 3(2) by (auto simp: rmap_Inr_conv Let_def child_def)
  obtain k' qs where q: "q = k' # qs" using 3(4) by (cases q) (auto simp: IsPrefixOf_def)
  show ?case
  proof (cases "k' = k")
    case True
    then have np: "\<not> IsPrefixOf (p # ps) qs" "\<not> IsPrefixOf qs (p # ps)"
      using 3(3,4) q by (auto simp: IsPrefixOf_def)
    then obtain a as where qs: "qs = a # as" by (cases qs) (auto simp: IsPrefixOf_def)
    have "get_from (FObject c') qs = get_from (FObject child) qs"
      using 3(1)[OF child_def c'(1) np] .
    then show ?thesis using True q qs c'(2) get_child[of k obj a as]
      by (simp add: child_def del: get_from.simps(2))
  next
    case False
    then show ?thesis using q c'(2) by (simp del: get_from.simps(2))
  qed
qed simp

lemma ObjectValue_Set_ok: "ObjectValue_Set p v obj = Inr obj' \<Longrightarrow> obj_ok obj \<Longrightarrow> fv_ok v \<Longrightarrow> obj_ok obj'"
proof (induction p v obj arbitrary: obj' rule: ObjectValue_Set.induct)
  case (2 k v obj)
  then show ?case using SetChild_ok[OF 2(2,3), of k] by (simp del: fv_ok.simps)
next
  case (3 k p ps v obj)
  define child where "child = (case al_get StringCompare k obj of Some (FObject es) \<Rightarrow> es | _ \<Rightarrow> [])"
  obtain c' where c': "ObjectValue_Set (p # ps) v child = Inr c'" "obj' = SetChild k (FObject c') obj"
    using 3(2) by (auto simp: rmap_Inr_conv Let_def child_def)
  have "obj_ok child"
    using al_get_ok[OF 3(3), of k] by (fastforce simp: child_def split: option.splits FieldValue.splits)
  then have "obj_ok c'" using 3(1)[OF child_def c'(1)] 3(4) by (simp del: fv_ok.simps)
  then show ?case unfolding c'(2) using 3(3) by (rule SetChild_ok[rotated])
qed simp

section \<open>Delete\<close>

lemma ObjectValue_Delete_total: "p \<noteq> [] \<Longrightarrow> \<exists>obj'. ObjectValue_Delete p obj = Inr obj'"
  by (induction p obj rule: ObjectValue_Delete.induct)
    (auto simp: rmap_def split: sum.splits option.splits FieldValue.splits)

lemma al_get_del_string:
  "sorted_keys StringCompare obj \<Longrightarrow> al_get StringCompare k' (al_del StringCompare k obj) =
     (if k' = k then None else al_get StringCompare k' obj)"
  by (simp add: string_cmp.al_get_al_del)

lemma ObjectValue_Delete_below:
  "ObjectValue_Delete p obj = Inr obj' \<Longrightarrow> obj_ok obj \<Longrightarrow> get_from (FObject obj') (p @ q) = None"
proof (induction p obj arbitrary: obj' rule: ObjectValue_Delete.induct)
  case (3 k p ps obj)
  show ?case
  proof (cases "\<exists>es. al_get StringCompare k obj = Some (FObject es)")
    case True
    then obtain es where es: "al_get StringCompare k obj = Some (FObject es)" by blast
    then obtain c' where c': "ObjectValue_Delete (p # ps) es = Inr c'" "obj' = SetChild k (FObject c') obj"
      using 3(2) by (auto simp: rmap_Inr_conv)
    have "obj_ok es" using al_get_ok[OF 3(3) es] .
    then show ?thesis using 3(1)[OF es refl c'(1)] c'(2) by (simp del: get_from.simps(2) fv_ok.simps)
  next
    case False
    then have "obj' = obj" using 3(2) by (auto split: option.splits FieldValue.splits)
    then show ?thesis using False by (auto split: option.splits FieldValue.splits)
  qed
qed (auto simp: al_get_del_string)

lemma ObjectValue_Delete_disjoint:
  "ObjectValue_Delete p obj = Inr obj' \<Longrightarrow> obj_ok obj \<Longrightarrow> \<not> IsPrefixOf p q \<Longrightarrow> \<not> IsPrefixOf q p \<Longrightarrow>
   get_from (FObject obj') q = get_from (FObject obj) q"
proof (induction p obj arbitrary: obj' q rule: ObjectValue_Delete.induct)
  case (2 k obj)
  then show ?case by (cases q) (auto simp: IsPrefixOf_def al_get_del_string)
next
  case (3 k p ps obj)
  show ?case
  proof (cases "\<exists>es. al_get StringCompare k obj = Some (FObject es)")
    case True
    then obtain es where es: "al_get StringCompare k obj = Some (FObject es)" by blast
    then obtain c' where c': "ObjectValue_Delete (p # ps) es = Inr c'" "obj' = SetChild k (FObject c') obj"
      using 3(2) by (auto simp: rmap_Inr_conv)
    have ok: "obj_ok es" using al_get_ok[OF 3(3) es] .
    obtain k' qs where q: "q = k' # qs" using 3(5) by (cases q) (auto simp: IsPrefixOf_def)
    show ?thesis
    proof (cases "k' = k")
      case True
      then have np: "\<not> IsPrefixOf (p # ps) qs" "\<not> IsPrefixOf qs (p # ps)"
        using 3(4,5) q by (auto simp: IsPrefixOf_def)
      have "get_from (FObject c') qs = get_from (FObject es) qs"
        using 3(1)[OF es refl c'(1) ok np] .
      then show ?thesis using True q es c'(2) by simp (simp add: SetChild_def string_cmp.al_get_put_strict)
    next
      case False
      then show ?thesis using q c'(2) by (simp del: get_from.simps(2))
    qed
  next
    case False
    then have "obj' = obj" using 3(2) by (auto split: option.splits FieldValue.splits)
    then show ?thesis by simp
  qed
qed simp

lemma al_del_ok: "obj_ok obj \<Longrightarrow> obj_ok (al_del StringCompare k obj)"
  by (auto simp: string_cmp.sorted_al_del dest: set_al_del)

lemma ObjectValue_Delete_ok: "ObjectValue_Delete p obj = Inr obj' \<Longrightarrow> obj_ok obj \<Longrightarrow> obj_ok obj'"
proof (induction p obj arbitrary: obj' rule: ObjectValue_Delete.induct)
  case (2 k obj)
  then show ?case using al_del_ok[OF 2(2), of k] by (simp del: fv_ok.simps)
next
  case (3 k p ps obj)
  show ?case
  proof (cases "\<exists>es. al_get StringCompare k obj = Some (FObject es)")
    case True
    then obtain es where es: "al_get StringCompare k obj = Some (FObject es)" by blast
    then obtain c' where c': "ObjectValue_Delete (p # ps) es = Inr c'" "obj' = SetChild k (FObject c') obj"
      using 3(2) by (auto simp: rmap_Inr_conv)
    have "obj_ok c'" using 3(1)[OF es refl c'(1)] al_get_ok[OF 3(3) es] by blast
    then show ?thesis unfolding c'(2) using 3(3) by (rule SetChild_ok[rotated])
  next
    case False
    then have "obj' = obj" using 3(2) by (auto split: option.splits FieldValue.splits)
    then show ?thesis using 3(3) by simp
  qed
qed simp

lemma get_from_ok: "fv_ok v \<Longrightarrow> get_from v p = Some w \<Longrightarrow> fv_ok w"
proof (induction v p rule: get_from.induct)
  case (2 v p ps)
  then obtain es u where u: "v = FObject es" "al_get StringCompare p es = Some u" "get_from u ps = Some w"
    by (auto split: FieldValue.splits option.splits)
  then show ?case using 2 al_get_ok[of es p u] by (simp del: fv_ok.simps)
qed simp

section \<open>The field mask of an object\<close>

lemma set_foldl_insert: "set (foldl (\<lambda>fs x. std_set_insert (g x) fs) s xs) = set s \<union> g ` set xs"
  by (induction xs arbitrary: s) auto

definition entry_mask :: "string \<times> FieldValue \<Rightarrow> FieldPath set" where
  "entry_mask e = (case snd e of
     FObject nested \<Rightarrow> (if nested = [] then {[fst e]} else (Cons (fst e)) ` set (ToFieldMask nested))
   | _ \<Rightarrow> {[fst e]})"

lemma set_ToFieldMask_aux:
  assumes "\<And>e nested. e \<in> set es \<Longrightarrow> snd e = FObject nested \<Longrightarrow> (ToFieldMask nested = []) = (nested = [])"
  shows "set (foldl (\<lambda>fields entry.
       (case snd entry of
          FObject nested \<Rightarrow>
            (let nested_mask = ToFieldMask nested
             in if length nested_mask = 0 then std_set_insert [fst entry] fields
                else foldl (\<lambda>fs nested_path. std_set_insert (path_Concat [fst entry] nested_path) fs)
                       fields nested_mask)
        | _ \<Rightarrow> std_set_insert [fst entry] fields)) s es) = set s \<union> (\<Union>e \<in> set es. entry_mask e)"
  using assms
proof (induction es arbitrary: s)
  case (Cons e es)
  have IH: "(ToFieldMask nested = []) = (nested = [])" if "snd e = FObject nested" for nested
    using Cons.prems[of e nested] that by simp
  show ?case
    using Cons.prems by (subst foldl_Cons, subst Cons.IH)
      (auto simp: entry_mask_def Let_def set_foldl_insert path_Concat_def IH split: FieldValue.split)
qed simp

lemma ToFieldMask_props:
  "(ToFieldMask es = []) = (es = []) \<and> set (ToFieldMask es) = (\<Union>e \<in> set es. entry_mask e)"
proof (induction es rule: ToFieldMask.induct)
  case (1 es)
  have "set (ToFieldMask es) = (\<Union>e \<in> set es. entry_mask e)"
    using 1 by (subst ToFieldMask.simps, subst set_ToFieldMask_aux) auto
  moreover have "entry_mask e \<noteq> {}" if "e \<in> set es" for e
  proof (cases "\<exists>nested. snd e = FObject nested \<and> nested \<noteq> []")
    case True
    then obtain nested where n: "snd e = FObject nested" "nested \<noteq> []" by blast
    then have "ToFieldMask nested \<noteq> []" using 1[OF that n(1)] by blast
    then show ?thesis using n by (simp add: entry_mask_def)
  next
    case False
    then show ?thesis by (auto simp: entry_mask_def split: FieldValue.splits)
  qed
  moreover have "ToFieldMask [] = []" by (simp add: ToFieldMask.simps)
  ultimately show ?case by (cases es) (fastforce simp flip: set_empty)+
qed

lemma al_get_string_mem:
  assumes "sorted_keys StringCompare es" "(k, v) \<in> set es"
  shows "al_get StringCompare k es = Some v"
  using assms
proof (induction es)
  case (Cons e es)
  then show ?case by (cases e) fastforce
qed simp

text \<open>The mask is the set of paths to the values that are not non-empty objects.\<close>

lemma ToFieldMask_leaves:
  "obj_ok es \<Longrightarrow> p \<in> set (ToFieldMask es) \<longleftrightarrow>
     p \<noteq> [] \<and> (\<exists>v. get_from (FObject es) p = Some v \<and> (\<forall>ns. v = FObject ns \<longrightarrow> ns = []))"
proof (induction p arbitrary: es)
  case Nil
  then show ?case by (auto simp: ToFieldMask_props entry_mask_def split: FieldValue.splits if_splits)
next
  case (Cons k ps)
  have s: "sorted_keys StringCompare es" using Cons.prems by simp
  have mem: "(k, v) \<in> set es \<longleftrightarrow> al_get StringCompare k es = Some v" for v
    using al_get_string_mem[OF s] al_get_Some_set[of StringCompare k es v] by fastforce
  have e1: "(k # ps \<in> entry_mask (k', v)) = (k' = k \<and> (case v of
      FObject ns \<Rightarrow> (if ns = [] then ps = [] else ps \<in> set (ToFieldMask ns)) | _ \<Rightarrow> ps = []))" for k' v
    by (auto simp: entry_mask_def split: FieldValue.splits)
  have "k # ps \<in> set (ToFieldMask es) \<longleftrightarrow> (\<exists>v. (k, v) \<in> set es \<and> k # ps \<in> entry_mask (k, v))"
  proof -
    have "fst e = k" if "k # ps \<in> entry_mask e" for e using that e1[of "fst e" "snd e"] by simp
    then show ?thesis by (force simp: ToFieldMask_props)
  qed
  also have "\<dots> \<longleftrightarrow> (\<exists>v. al_get StringCompare k es = Some v \<and> (case v of
      FObject ns \<Rightarrow> (if ns = [] then ps = [] else ps \<in> set (ToFieldMask ns)) | _ \<Rightarrow> ps = []))"
    by (simp add: mem e1)
  also have "\<dots> \<longleftrightarrow> (\<exists>w. get_from (FObject es) (k # ps) = Some w \<and> (\<forall>ns. w = FObject ns \<longrightarrow> ns = []))"
  proof (cases "al_get StringCompare k es")
    case (Some v)
    have ok: "fv_ok v" using al_get_ok[OF Cons.prems Some] .
    show ?thesis
    proof (cases "\<exists>ns. v = FObject ns \<and> ns \<noteq> []")
      case True
      then obtain ns where ns: "v = FObject ns" "ns \<noteq> []" by blast
      have "ps \<in> set (ToFieldMask ns) \<longleftrightarrow> ps \<noteq> [] \<and>
          (\<exists>w. get_from (FObject ns) ps = Some w \<and> (\<forall>ns. w = FObject ns \<longrightarrow> ns = []))"
        using Cons.IH[of ns] ok ns by (simp del: fv_ok.simps)
      then show ?thesis using Some ns by (cases ps) auto
    next
      case False
      then show ?thesis using Some by (cases ps) (auto split: FieldValue.split)
    qed
  qed simp
  finally show ?case by simp
qed

end
