(* ===== verification/Documents.thy ===== *)
theory Documents
  imports ObjectValues
begin

text \<open>
  \<open>model/maybe_document.cc\<close>, \<open>model/document.cc\<close>, \<open>model/no_document.cc\<close>,
  \<open>model/unknown_document.cc\<close>, \<open>model/precondition.cc\<close> and \<open>model/document_map.h\<close>.  The
  invalid document (a null representation) is not a value of the type.  Sets and maps over
  document keys are kept as ascending lists.
\<close>

datatype DocumentState = kLocalMutations | kCommittedMutations | kSynced

datatype MaybeDocument =
    Document (doc_data: ObjectValue) (doc_key: DocumentKey) (doc_version: SnapshotVersion)
      (document_state: DocumentState)
  | NoDocument (doc_key: DocumentKey) (doc_version: SnapshotVersion) (no_doc_committed: bool)
  | UnknownDocument (doc_key: DocumentKey) (doc_version: SnapshotVersion)

definition is_document :: "MaybeDocument \<Rightarrow> bool" where
  "is_document d = (case d of Document _ _ _ _ \<Rightarrow> True | _ \<Rightarrow> False)"

fun has_pending_writes :: "MaybeDocument \<Rightarrow> bool" where
  "has_pending_writes (Document data k v st) = (st = kLocalMutations \<or> st = kCommittedMutations)"
| "has_pending_writes (NoDocument k v committed) = committed"
| "has_pending_writes (UnknownDocument k v) = True"

definition has_local_mutations :: "MaybeDocument \<Rightarrow> bool" where
  "has_local_mutations d = (case d of Document _ _ _ st \<Rightarrow> st = kLocalMutations | _ \<Rightarrow> False)"

definition has_committed_mutations :: "MaybeDocument \<Rightarrow> bool" where
  "has_committed_mutations d =
     (case d of Document _ _ _ st \<Rightarrow> st = kCommittedMutations | NoDocument _ _ c \<Rightarrow> c | _ \<Rightarrow> False)"

fun MaybeDocument_eq :: "MaybeDocument \<Rightarrow> MaybeDocument \<Rightarrow> bool" where
  "MaybeDocument_eq (Document d k v st) (Document d' k' v' st') =
     (cmp_eq SnapshotVersion_CompareTo v v' \<and> k = k' \<and> st = st' \<and> ObjectValue_eq d d')"
| "MaybeDocument_eq (NoDocument k v c) (NoDocument k' v' c') =
     (cmp_eq SnapshotVersion_CompareTo v v' \<and> k = k' \<and> c = c')"
| "MaybeDocument_eq (UnknownDocument k v) (UnknownDocument k' v') =
     (cmp_eq SnapshotVersion_CompareTo v v' \<and> k = k')"
| "MaybeDocument_eq _ _ = False"

definition Document_field :: "MaybeDocument \<Rightarrow> FieldPath \<Rightarrow> FieldValue option" where
  "Document_field d p = (case d of Document data _ _ _ \<Rightarrow> ObjectValue_Get data p | _ \<Rightarrow> None)"

section \<open>Preconditions\<close>

datatype PreconditionType = PNone | PExists | PUpdateTime

record Precondition =
  pre_type :: PreconditionType
  pre_update_time :: SnapshotVersion
  pre_exists :: bool

definition Precondition_Exists :: "bool \<Rightarrow> Precondition" where
  "Precondition_Exists e = \<lparr>pre_type = PExists, pre_update_time = SnapshotVersion_None, pre_exists = e\<rparr>"

definition Precondition_UpdateTime :: "SnapshotVersion \<Rightarrow> Precondition" where
  "Precondition_UpdateTime t = \<lparr>pre_type = PUpdateTime, pre_update_time = t, pre_exists = False\<rparr>"

definition Precondition_None :: Precondition where
  "Precondition_None = \<lparr>pre_type = PNone, pre_update_time = SnapshotVersion_None, pre_exists = False\<rparr>"

definition IsValidFor :: "Precondition \<Rightarrow> MaybeDocument option \<Rightarrow> bool" where
  "IsValidFor pre maybe_doc =
     (case pre_type pre of
        PUpdateTime \<Rightarrow> (case maybe_doc of None \<Rightarrow> False
          | Some d \<Rightarrow> is_document d \<and> cmp_eq SnapshotVersion_CompareTo (doc_version d) (pre_update_time pre))
      | PExists \<Rightarrow> (pre_exists pre = (case maybe_doc of None \<Rightarrow> False | Some d \<Rightarrow> is_document d))
      | PNone \<Rightarrow> True)"

lemma IsValidFor_simps [simp]:
  "IsValidFor Precondition_None md"
  "IsValidFor (Precondition_Exists True) (Some d) = is_document d"
  "\<not> IsValidFor (Precondition_Exists True) None"
  "IsValidFor (Precondition_Exists False) None"
  by (simp_all add: IsValidFor_def Precondition_None_def Precondition_Exists_def)

section \<open>Sets and maps over document keys\<close>

type_synonym DocumentKeySet = "DocumentKey list"
type_synonym MaybeDocumentMap = "(DocumentKey \<times> MaybeDocument) list"

definition dm_get :: "DocumentKey \<Rightarrow> (DocumentKey \<times> 'v) list \<Rightarrow> 'v option" where
  "dm_get k m = al_get DocumentKey_CompareTo k m"

definition dm_insert :: "DocumentKey \<Rightarrow> 'v \<Rightarrow> (DocumentKey \<times> 'v) list \<Rightarrow> (DocumentKey \<times> 'v) list" where
  "dm_insert k v m = al_put DocumentKey_CompareTo k v m"

definition dm_erase :: "DocumentKey \<Rightarrow> (DocumentKey \<times> 'v) list \<Rightarrow> (DocumentKey \<times> 'v) list" where
  "dm_erase k m = al_del DocumentKey_CompareTo k m"

definition dm_ok :: "(DocumentKey \<times> 'v) list \<Rightarrow> bool" where
  "dm_ok m = sorted_keys DocumentKey_CompareTo m"

definition dks_insert :: "DocumentKey \<Rightarrow> DocumentKeySet \<Rightarrow> DocumentKeySet" where
  "dks_insert = std_set_insert"

definition dks_erase :: "DocumentKey \<Rightarrow> DocumentKeySet \<Rightarrow> DocumentKeySet" where
  "dks_erase = std_set_erase"

definition dks_contains :: "DocumentKey \<Rightarrow> DocumentKeySet \<Rightarrow> bool" where
  "dks_contains k s = (k \<in> set s)"

lemma dm_get_insert [simp]: "dm_get k' (dm_insert k v m) = (if k' = k then Some v else dm_get k' m)"
  by (simp add: dm_get_def dm_insert_def key_cmp.al_get_put_strict)

lemma dm_get_erase: "dm_ok m \<Longrightarrow> dm_get k' (dm_erase k m) = (if k' = k then None else dm_get k' m)"
  by (simp add: dm_get_def dm_erase_def dm_ok_def key_cmp.al_get_al_del)

lemma dm_get_Nil [simp]: "dm_get k [] = None"
  by (simp add: dm_get_def)

lemma dm_ok_ops [simp]:
  "dm_ok []" "dm_ok m \<Longrightarrow> dm_ok (dm_insert k v m)" "dm_ok m \<Longrightarrow> dm_ok (dm_erase k m)"
  by (simp_all add: dm_ok_def dm_insert_def dm_erase_def key_cmp.sorted_al_put key_cmp.sorted_al_del)

lemma dm_get_mem: "dm_ok m \<Longrightarrow> (dm_get k m = Some v) = ((k, v) \<in> set m)"
proof (induction m)
  case (Cons e m)
  obtain a b where e: "e = (a, b)" by (cases e)
  have "a \<noteq> fst x" if "x \<in> set m" for x
    using Cons.prems that by (auto simp: dm_ok_def e)
  then show ?case using Cons by (auto simp: dm_get_def dm_ok_def e)
qed (simp add: dm_get_def)

text \<open>The ascending lists of \<open>std_set_insert\<close> are ascending for the key comparator.\<close>

lemma key_less_iff: "(DocumentKey_CompareTo a b = Ascending) = (a < b)"
  by (simp add: DocumentKey_CompareTo_def path_CompareTo_Default)

lemma SnapshotVersion_eq [simp]: "cmp_eq SnapshotVersion_CompareTo a b = (a = b)"
  by (simp add: cmp_eq_def SnapshotVersion_CompareTo_def)

text \<open>
  Equality of documents compares the data with \<open>CompareTo\<close>, so it is coarser than the
  equality of field values.
\<close>

lemma ObjectValue_eq_of_FieldValue_eq: "FieldValue_eq (FObject a) (FObject b) \<Longrightarrow> ObjectValue_eq a b"
  by (simp only: ObjectValue_eq_def cmp_eq_def ObjectValue_CompareTo_def FieldValue_eq_Same)

lemma FieldValue_CompareTo_int_double:
  "FieldValue_CompareTo (FInteger i) (FDouble d) = ReverseOrder (CompareMixedNumber d i)"
  by (simp add: FieldValue_CompareTo.simps BaseValue_CompareTo_def CompareTypes_def TypesComparable_def)

lemma ObjectValue_CompareTo_single:
  "ObjectValue_CompareTo [(k, v)] [(k, w)] = FieldValue_CompareTo v w"
proof -
  have "ObjectValue_CompareTo [(k, v)] [(k, w)] =
      CompareContainer (CompareByLess (pair_lt FieldValue_CompareTo)) [(k, v)] [(k, w)]"
    by (simp add: ObjectValue_CompareTo_def FieldValue_CompareTo_group[of "FObject _"] group_compare_simps(13))
  then show ?thesis
    by (simp add: pair_compare_lex[OF fv_cmp.total_comparator_axioms] split: comparison_result.split)
qed

lemma Document_eq_ignores_number_type:
  "CompareMixedNumber d i = Same \<Longrightarrow>
   MaybeDocument_eq (Document [(f, FInteger i)] k v st) (Document [(f, FDouble d)] k v st)"
  by (simp add: ObjectValue_eq_def cmp_eq_def ObjectValue_CompareTo_single FieldValue_CompareTo_int_double
      SnapshotVersion_CompareTo_def)

end
