(* ===== verification/Filters.thy ===== *)
theory Filters
  imports Documents
begin

text \<open>
  \<open>core/filter.h\<close>, \<open>core/field_filter.cc\<close> and its subclasses, \<open>core/direction.cc\<close>,
  \<open>core/order_by.cc\<close> and \<open>core/bound.cc\<close>: the constraints of a query on single documents.
  The virtual methods of the filter representations dispatch on the type of the filter.
\<close>

section \<open>Filters\<close>

datatype Operator = LessThan | LessThanOrEqual | Equal | NotEqual | GreaterThanOrEqual | GreaterThan
  | ArrayContains | OpIn | ArrayContainsAny | OpNotIn

datatype FilterType = kArrayContainsAnyFilter | kArrayContainsFilter | kFieldFilter | kInFilter
  | kNotInFilter | kKeyFieldFilter | kKeyFieldInFilter | kKeyFieldNotInFilter

record Filter =
  ff_class :: FilterType
  ff_field :: FieldPath
  ff_op :: Operator
  ff_value :: FieldValue

definition IsArrayOperator :: "Operator \<Rightarrow> bool" where
  "IsArrayOperator op = (op = ArrayContains \<or> op = ArrayContainsAny)"

definition ValidateArrayValue :: "FieldValue \<Rightarrow> bool" where
  "ValidateArrayValue v = (case v of
     FArray vs \<Rightarrow> list_all (\<lambda>r. type_of r = TReference) vs | _ \<Rightarrow> False)"

definition FieldFilter_Create :: "FieldPath \<Rightarrow> Operator \<Rightarrow> FieldValue \<Rightarrow> Filter result" where
  "FieldFilter_Create p op v =
     (if IsKeyFieldPath p then
        (if op = OpIn then
           hard_assert (ValidateArrayValue v) (Inr \<lparr>ff_class = kKeyFieldInFilter, ff_field = p, ff_op = OpIn, ff_value = v\<rparr>)
         else if op = OpNotIn then
           hard_assert (ValidateArrayValue v) (Inr \<lparr>ff_class = kKeyFieldNotInFilter, ff_field = p, ff_op = OpNotIn, ff_value = v\<rparr>)
         else hard_assert (type_of v = TReference) (hard_assert (\<not> IsArrayOperator op)
           (Inr \<lparr>ff_class = kKeyFieldFilter, ff_field = p, ff_op = op, ff_value = v\<rparr>)))
      else if op = ArrayContains then
        Inr \<lparr>ff_class = kArrayContainsFilter, ff_field = p, ff_op = ArrayContains, ff_value = v\<rparr>
      else if op = OpIn then hard_assert (type_of v = TArray)
        (Inr \<lparr>ff_class = kInFilter, ff_field = p, ff_op = OpIn, ff_value = v\<rparr>)
      else if op = ArrayContainsAny then hard_assert (type_of v = TArray)
        (Inr \<lparr>ff_class = kArrayContainsAnyFilter, ff_field = p, ff_op = ArrayContainsAny, ff_value = v\<rparr>)
      else if op = OpNotIn then hard_assert (type_of v = TArray)
        (Inr \<lparr>ff_class = kNotInFilter, ff_field = p, ff_op = OpNotIn, ff_value = v\<rparr>)
      else Inr \<lparr>ff_class = kFieldFilter, ff_field = p, ff_op = op, ff_value = v\<rparr>)"

definition IsInequality :: "Filter \<Rightarrow> bool" where
  "IsInequality f = (ff_op f = LessThan \<or> ff_op f = LessThanOrEqual \<or> ff_op f = GreaterThan \<or>
     ff_op f = GreaterThanOrEqual \<or> ff_op f = NotEqual \<or> ff_op f = OpNotIn)"

definition MatchesComparison :: "Operator \<Rightarrow> comparison_result \<Rightarrow> bool result" where
  "MatchesComparison op comparison = (case op of
      LessThan \<Rightarrow> Inr (comparison = Ascending)
    | LessThanOrEqual \<Rightarrow> Inr (comparison = Ascending \<or> comparison = Same)
    | Equal \<Rightarrow> Inr (comparison = Same)
    | GreaterThanOrEqual \<Rightarrow> Inr (comparison = Descending \<or> comparison = Same)
    | GreaterThan \<Rightarrow> Inr (comparison = Descending)
    | NotEqual \<Rightarrow> Inr (comparison \<noteq> Same)
    | _ \<Rightarrow> Inl HardFail)"

text \<open>\<open>absl::c_linear_search\<close>.\<close>

definition c_linear_search :: "FieldValue list \<Rightarrow> FieldValue \<Rightarrow> bool" where
  "c_linear_search vs v = list_ex (\<lambda>x. FieldValue_eq x v) vs"

definition reference_key :: "FieldValue \<Rightarrow> DocumentKey result" where
  "reference_key v = (case v of FReference d k \<Rightarrow> Inr k | _ \<Rightarrow> Inl HardAssert)"

definition FieldFilter_Matches :: "Filter \<Rightarrow> MaybeDocument \<Rightarrow> bool result" where
  "FieldFilter_Matches f doc =
     (case Document_field doc (ff_field f) of
        None \<Rightarrow> Inr False
      | Some lhs \<Rightarrow>
          (if ff_op f = NotEqual then MatchesComparison (ff_op f) (FieldValue_CompareTo lhs (ff_value f))
           else if TypesComparable (type_of lhs) (type_of (ff_value f))
           then MatchesComparison (ff_op f) (FieldValue_CompareTo lhs (ff_value f))
           else Inr False))"

definition ArrayContains_Matches :: "Filter \<Rightarrow> MaybeDocument \<Rightarrow> bool result" where
  "ArrayContains_Matches f doc =
     (case Document_field doc (ff_field f) of
        Some (FArray contents) \<Rightarrow> Inr (c_linear_search contents (ff_value f))
      | _ \<Rightarrow> Inr False)"

definition ArrayContainsAny_Matches :: "Filter \<Rightarrow> MaybeDocument \<Rightarrow> bool result" where
  "ArrayContainsAny_Matches f doc =
     rbind (array_value (ff_value f)) (\<lambda>vs.
       case Document_field doc (ff_field f) of
         Some (FArray contents) \<Rightarrow> Inr (list_ex (\<lambda>val. c_linear_search vs val) contents)
       | _ \<Rightarrow> Inr False)"

definition InFilter_Matches :: "Filter \<Rightarrow> MaybeDocument \<Rightarrow> bool result" where
  "InFilter_Matches f doc =
     rbind (array_value (ff_value f)) (\<lambda>vs.
       case Document_field doc (ff_field f) of
         None \<Rightarrow> Inr False
       | Some lhs \<Rightarrow> Inr (c_linear_search vs lhs))"

definition NotInFilter_Matches :: "Filter \<Rightarrow> MaybeDocument \<Rightarrow> bool result" where
  "NotInFilter_Matches f doc =
     rbind (array_value (ff_value f)) (\<lambda>vs.
       if c_linear_search vs FNull then Inr False
       else (case Document_field doc (ff_field f) of
               None \<Rightarrow> Inr False
             | Some lhs \<Rightarrow> Inr (\<not> c_linear_search vs lhs)))"

definition KeyFieldFilter_Matches :: "Filter \<Rightarrow> MaybeDocument \<Rightarrow> bool result" where
  "KeyFieldFilter_Matches f doc =
     rbind (reference_key (ff_value f)) (\<lambda>rhs_key.
       MatchesComparison (ff_op f) (DocumentKey_CompareTo (doc_key doc) rhs_key))"

fun KeyFieldIn_Contains :: "FieldValue list \<Rightarrow> MaybeDocument \<Rightarrow> bool result" where
  "KeyFieldIn_Contains [] doc = Inr False"
| "KeyFieldIn_Contains (rhs # vs) doc =
     rbind (reference_key rhs) (\<lambda>k. if doc_key doc = k then Inr True else KeyFieldIn_Contains vs doc)"

definition KeyFieldIn_Matches :: "Filter \<Rightarrow> MaybeDocument \<Rightarrow> bool result" where
  "KeyFieldIn_Matches f doc = rbind (array_value (ff_value f)) (\<lambda>vs. KeyFieldIn_Contains vs doc)"

definition KeyFieldNotIn_Matches :: "Filter \<Rightarrow> MaybeDocument \<Rightarrow> bool result" where
  "KeyFieldNotIn_Matches f doc = rbind (array_value (ff_value f)) (\<lambda>vs. rmap Not (KeyFieldIn_Contains vs doc))"

definition Filter_Matches :: "Filter \<Rightarrow> MaybeDocument \<Rightarrow> bool result" where
  "Filter_Matches f doc = (case ff_class f of
      kFieldFilter \<Rightarrow> FieldFilter_Matches f doc
    | kArrayContainsFilter \<Rightarrow> ArrayContains_Matches f doc
    | kArrayContainsAnyFilter \<Rightarrow> ArrayContainsAny_Matches f doc
    | kInFilter \<Rightarrow> InFilter_Matches f doc
    | kNotInFilter \<Rightarrow> NotInFilter_Matches f doc
    | kKeyFieldFilter \<Rightarrow> KeyFieldFilter_Matches f doc
    | kKeyFieldInFilter \<Rightarrow> KeyFieldIn_Matches f doc
    | kKeyFieldNotInFilter \<Rightarrow> KeyFieldNotIn_Matches f doc)"

section \<open>Order\<close>

datatype Direction = DirAscending | DirDescending

fun ApplyTo :: "Direction \<Rightarrow> comparison_result \<Rightarrow> comparison_result" where
  "ApplyTo DirAscending c = c"
| "ApplyTo DirDescending c = ReverseOrder c"

lemma ApplyTo_Same [simp]: "ApplyTo d Same = Same" "(ApplyTo d c = Same) = (c = Same)"
  by (cases d; simp)+

record OrderBy =
  ob_field :: FieldPath
  ob_direction :: Direction

definition OrderBy_Compare :: "OrderBy \<Rightarrow> MaybeDocument \<Rightarrow> MaybeDocument \<Rightarrow> comparison_result result" where
  "OrderBy_Compare ob lhs rhs =
     rmap (ApplyTo (ob_direction ob))
       (if ob_field ob = KeyFieldPath then Inr (DocumentKey_CompareTo (doc_key lhs) (doc_key rhs))
        else (case (Document_field lhs (ob_field ob), Document_field rhs (ob_field ob)) of
                (Some value1, Some value2) \<Rightarrow> Inr (FieldValue_CompareTo value1 value2)
              | _ \<Rightarrow> Inl HardAssert))"

record Bound =
  bound_position :: "FieldValue list"
  bound_before :: bool

fun bound_compare :: "FieldValue list \<Rightarrow> OrderBy list \<Rightarrow> MaybeDocument \<Rightarrow> comparison_result result" where
  "bound_compare [] order_by doc = Inr Same"
| "bound_compare (v # vs) [] doc = Inl HardAssert"
| "bound_compare (v # vs) (ob # obs) doc =
     rbind (if ob_field ob = KeyFieldPath
            then rmap (\<lambda>k. DocumentKey_CompareTo k (doc_key doc)) (reference_key v)
            else (case Document_field doc (ob_field ob) of
                    None \<Rightarrow> Inl HardAssert
                  | Some doc_value \<Rightarrow> Inr (FieldValue_CompareTo v doc_value)))
       (\<lambda>comparison.
          let comparison = ApplyTo (ob_direction ob) comparison
          in if comparison \<noteq> Same then Inr comparison else bound_compare vs obs doc)"

definition SortsBeforeDocument :: "Bound \<Rightarrow> OrderBy list \<Rightarrow> MaybeDocument \<Rightarrow> bool result" where
  "SortsBeforeDocument b order_by doc =
     hard_assert (length (bound_position b) \<le> length order_by)
       (rmap (\<lambda>res. if bound_before b then res \<noteq> Descending else res = Ascending)
          (bound_compare (bound_position b) order_by doc))"

section \<open>A filter made by \<open>Create\<close> never fails\<close>

definition filter_ok :: "Filter \<Rightarrow> bool" where
  "filter_ok f = (FieldFilter_Create (ff_field f) (ff_op f) (ff_value f) = Inr f)"

lemma Create_ok: "FieldFilter_Create p op v = Inr f \<Longrightarrow> filter_ok f \<and> ff_field f = p \<and> ff_op f = op \<and> ff_value f = v"
  by (auto simp: FieldFilter_Create_def filter_ok_def split: if_splits)

lemma type_of_array: "type_of v = TArray \<Longrightarrow> \<exists>vs. v = FArray vs"
  by (cases v) simp_all

lemma type_of_reference: "type_of v = TReference \<Longrightarrow> \<exists>d k. v = FReference d k"
  by (cases v) simp_all

lemma array_value_total: "type_of v = TArray \<Longrightarrow> \<exists>vs. array_value v = Inr vs"
  by (cases v) (simp_all add: array_value_def)

lemma ValidateArrayValue_array: "ValidateArrayValue v \<Longrightarrow> \<exists>vs. v = FArray vs \<and> (\<forall>r \<in> set vs. type_of r = TReference)"
  by (cases v) (simp_all add: ValidateArrayValue_def list_all_iff)

lemma KeyFieldIn_Contains_spec:
  "\<forall>r \<in> set vs. type_of r = TReference \<Longrightarrow>
   KeyFieldIn_Contains vs doc = Inr (\<exists>d. FReference d (doc_key doc) \<in> set vs)"
proof (induction vs)
  case (Cons v vs)
  obtain d k where "v = FReference d k" using Cons.prems type_of_reference[of v] by auto
  then show ?case using Cons by (auto simp: reference_key_def)
qed simp

lemma MatchesComparison_total:
  "\<not> IsArrayOperator op \<Longrightarrow> op \<noteq> OpIn \<Longrightarrow> op \<noteq> OpNotIn \<Longrightarrow> \<exists>b. MatchesComparison op c = Inr b"
  by (cases op) (simp_all add: MatchesComparison_def IsArrayOperator_def)

lemma Filter_Matches_total:
  assumes "filter_ok f" shows "\<exists>b. Filter_Matches f doc = Inr b"
proof -
  have c: "FieldFilter_Create (ff_field f) (ff_op f) (ff_value f) = Inr f" using assms by (simp add: filter_ok_def)
  show ?thesis
  proof (cases "ff_class f")
    case kFieldFilter
    then have op: "\<not> IsArrayOperator (ff_op f)" "ff_op f \<noteq> OpIn" "ff_op f \<noteq> OpNotIn"
      using c by (cases f; auto simp: FieldFilter_Create_def IsArrayOperator_def split: if_splits)+
    show ?thesis using MatchesComparison_total[OF op]
      by (auto simp: Filter_Matches_def kFieldFilter FieldFilter_Matches_def split: option.split)
  next
    case kArrayContainsFilter
    then show ?thesis by (auto simp: Filter_Matches_def ArrayContains_Matches_def split: option.split FieldValue.split)
  next
    case kArrayContainsAnyFilter
    then have "type_of (ff_value f) = TArray" using c by (cases f) (auto simp: FieldFilter_Create_def split: if_splits)
    from array_value_total[OF this] kArrayContainsAnyFilter show ?thesis
      by (auto simp: Filter_Matches_def ArrayContainsAny_Matches_def split: option.split FieldValue.split)
  next
    case kInFilter
    then have "type_of (ff_value f) = TArray" using c by (cases f) (auto simp: FieldFilter_Create_def split: if_splits)
    from array_value_total[OF this] kInFilter show ?thesis
      by (auto simp: Filter_Matches_def InFilter_Matches_def split: option.split)
  next
    case kNotInFilter
    then have "type_of (ff_value f) = TArray" using c by (cases f) (auto simp: FieldFilter_Create_def split: if_splits)
    from array_value_total[OF this] kNotInFilter show ?thesis
      by (auto simp: Filter_Matches_def NotInFilter_Matches_def split: option.split)
  next
    case kKeyFieldFilter
    then have op: "\<not> IsArrayOperator (ff_op f)" "ff_op f \<noteq> OpIn" "ff_op f \<noteq> OpNotIn" "type_of (ff_value f) = TReference"
      using c by (cases f; auto simp: FieldFilter_Create_def IsArrayOperator_def split: if_splits)+
    obtain d k where "ff_value f = FReference d k" using type_of_reference[OF op(4)] by blast
    then show ?thesis using MatchesComparison_total[OF op(1,2,3)]
      by (simp add: Filter_Matches_def kKeyFieldFilter KeyFieldFilter_Matches_def reference_key_def)
  next
    case kKeyFieldInFilter
    then have "ValidateArrayValue (ff_value f)" using c by (cases f) (auto simp: FieldFilter_Create_def split: if_splits)
    then obtain vs where "ff_value f = FArray vs" "\<forall>r \<in> set vs. type_of r = TReference"
      using ValidateArrayValue_array by blast
    then show ?thesis using kKeyFieldInFilter
      by (simp add: Filter_Matches_def KeyFieldIn_Matches_def array_value_def KeyFieldIn_Contains_spec)
  next
    case kKeyFieldNotInFilter
    then have "ValidateArrayValue (ff_value f)" using c by (cases f) (auto simp: FieldFilter_Create_def split: if_splits)
    then obtain vs where "ff_value f = FArray vs" "\<forall>r \<in> set vs. type_of r = TReference"
      using ValidateArrayValue_array by blast
    then show ?thesis using kKeyFieldNotInFilter
      by (simp add: Filter_Matches_def KeyFieldNotIn_Matches_def array_value_def KeyFieldIn_Contains_spec)
  qed
qed

text \<open>A document that passes an inequality filter on a field has the field.\<close>

lemma inequality_field_exists:
  assumes "filter_ok f" "IsInequality f" "\<not> IsKeyFieldPath (ff_field f)" "Filter_Matches f doc = Inr True"
  shows "Document_field doc (ff_field f) \<noteq> None"
proof -
  have c: "FieldFilter_Create (ff_field f) (ff_op f) (ff_value f) = Inr f" using assms(1) by (simp add: filter_ok_def)
  have "ff_class f = kFieldFilter \<or> ff_class f = kNotInFilter"
    using c assms(2,3) by (cases f) (auto simp: FieldFilter_Create_def IsInequality_def split: if_splits)
  then show ?thesis using assms(4)
    by (auto simp: Filter_Matches_def FieldFilter_Matches_def NotInFilter_Matches_def rbind_Inr_conv split: if_splits option.splits)
qed

section \<open>Order by and bounds on documents with the fields\<close>

definition has_order_fields :: "OrderBy list \<Rightarrow> MaybeDocument \<Rightarrow> bool" where
  "has_order_fields obs doc = (\<forall>ob \<in> set obs. ob_field ob \<noteq> KeyFieldPath \<longrightarrow> Document_field doc (ob_field ob) \<noteq> None)"

definition bound_ok :: "OrderBy list \<Rightarrow> Bound \<Rightarrow> bool" where
  "bound_ok obs b = (length (bound_position b) \<le> length obs \<and>
     (\<forall>i < length (bound_position b). ob_field (obs ! i) = KeyFieldPath \<longrightarrow> type_of (bound_position b ! i) = TReference))"

lemma bound_compare_total:
  "length vs \<le> length obs \<Longrightarrow>
   \<forall>i < length vs. ob_field (obs ! i) = KeyFieldPath \<longrightarrow> type_of (vs ! i) = TReference \<Longrightarrow>
   has_order_fields obs doc \<Longrightarrow> \<exists>c. bound_compare vs obs doc = Inr c"
proof (induction vs obs doc rule: bound_compare.induct)
  case (3 v vs ob obs doc)
  have rest: "\<exists>c. bound_compare vs obs doc = Inr c"
  proof (cases "length vs \<le> length obs")
    case True
    moreover have "\<forall>i < length vs. ob_field (obs ! i) = KeyFieldPath \<longrightarrow> type_of (vs ! i) = TReference"
    proof (intro allI impI)
      fix i assume "i < length vs" "ob_field (obs ! i) = KeyFieldPath"
      then show "type_of (vs ! i) = TReference" using spec[OF 3(3), of "Suc i"] by simp
    qed
    moreover have "has_order_fields obs doc" using 3(4) by (simp add: has_order_fields_def)
    moreover have "length vs \<le> length obs \<Longrightarrow>
      \<forall>i < length vs. ob_field (obs ! i) = KeyFieldPath \<longrightarrow> type_of (vs ! i) = TReference \<Longrightarrow>
      has_order_fields obs doc \<Longrightarrow> \<exists>c. bound_compare vs obs doc = Inr c"
      by (rule 3(1)[of Same Same]) simp_all
    ultimately show ?thesis by blast
  qed (use 3 in simp)
  show ?case
  proof (cases "ob_field ob = KeyFieldPath")
    case True
    then have "type_of v = TReference" using spec[OF 3(3), of 0] by simp
    then obtain d k where "v = FReference d k" using type_of_reference by blast
    then show ?thesis using True rest by (simp add: reference_key_def Let_def)
  next
    case False
    then obtain w where "Document_field doc (ob_field ob) = Some w" using 3(4) by (auto simp: has_order_fields_def)
    then show ?thesis using False rest by (simp add: Let_def)
  qed
qed simp_all

lemma SortsBeforeDocument_total:
  "bound_ok obs b \<Longrightarrow> has_order_fields obs doc \<Longrightarrow> \<exists>c. SortsBeforeDocument b obs doc = Inr c"
  using bound_compare_total[of "bound_position b" obs doc] by (auto simp: bound_ok_def SortsBeforeDocument_def)

text \<open>Flipping every direction and the side of the bound negates the test.\<close>

definition flip_direction :: "Direction \<Rightarrow> Direction" where
  "flip_direction d = (if d = DirDescending then DirAscending else DirDescending)"

definition flip_order :: "OrderBy \<Rightarrow> OrderBy" where
  "flip_order ob = \<lparr>ob_field = ob_field ob, ob_direction = flip_direction (ob_direction ob)\<rparr>"

lemma ApplyTo_flip: "ApplyTo (flip_direction d) c = ReverseOrder (ApplyTo d c)"
  by (cases d) (simp_all add: flip_direction_def)

lemma bound_compare_flip:
  "bound_compare vs (map flip_order obs) doc = rmap ReverseOrder (bound_compare vs obs doc)"
proof (induction vs obs doc rule: bound_compare.induct)
  case (3 v vs ob obs doc)
  have IH: "bound_compare vs (map flip_order obs) doc = rmap ReverseOrder (bound_compare vs obs doc)"
    if "ApplyTo (ob_direction ob) c = Same" for c using 3[of Same c] that by simp
  have dir: "ob_direction (flip_order ob) = flip_direction (ob_direction ob)" "ob_field (flip_order ob) = ob_field ob"
    by (simp_all add: flip_order_def)
  have step: "rbind r (\<lambda>c. let c = ApplyTo (flip_direction (ob_direction ob)) c
        in if c \<noteq> Same then Inr c else bound_compare vs (map flip_order obs) doc) =
      rmap ReverseOrder (rbind r (\<lambda>c. let c = ApplyTo (ob_direction ob) c
        in if c \<noteq> Same then Inr c else bound_compare vs obs doc))" for r
    using IH by (cases r) (auto simp: Let_def ApplyTo_flip)
  show ?case unfolding list.map bound_compare.simps dir by (rule step)
qed simp_all

lemma SortsBeforeDocument_flip:
  "SortsBeforeDocument \<lparr>bound_position = bound_position b, bound_before = \<not> bound_before b\<rparr> (map flip_order obs) doc =
   rmap Not (SortsBeforeDocument b obs doc)"
proof (cases "length (bound_position b) \<le> length obs")
  case True
  then show ?thesis
    by (cases "bound_compare (bound_position b) obs doc")
      (auto simp: SortsBeforeDocument_def bound_compare_flip)
qed (simp add: SortsBeforeDocument_def)

end
