(* ===== verification/Queries.thy ===== *)
theory Queries
  imports Filters
begin

text \<open>
  \<open>core/query.cc\<close> and \<open>core/target.cc\<close>: building a query, its implicit orderings, which
  documents it matches, how it sorts them, and the backend target it stands for.  The memoised
  fields are computed where they are read.
\<close>

definition kNoLimit :: int32 where
  "kNoLimit = 0x7FFFFFFF"

datatype LimitType = LimitNone | LimitFirst | LimitLast

record Query =
  q_path :: ResourcePath
  q_collection_group :: "string option"
  q_filters :: "Filter list"
  q_explicit_order_bys :: "OrderBy list"
  q_limit :: int32
  q_limit_type :: LimitType
  q_start_at :: "Bound option"
  q_end_at :: "Bound option"

record Target =
  t_path :: ResourcePath
  t_collection_group :: "string option"
  t_filters :: "Filter list"
  t_order_bys :: "OrderBy list"
  t_limit :: int32
  t_start_at :: "Bound option"
  t_end_at :: "Bound option"

definition make_Query :: "ResourcePath \<Rightarrow> string option \<Rightarrow> Query" where
  "make_Query p cg = \<lparr>q_path = p, q_collection_group = cg, q_filters = [], q_explicit_order_bys = [],
     q_limit = kNoLimit, q_limit_type = LimitNone, q_start_at = None, q_end_at = None\<rparr>"

section \<open>Accessors\<close>

definition Query_IsDocumentQuery :: "Query \<Rightarrow> bool" where
  "Query_IsDocumentQuery q = (IsDocumentKey (q_path q) \<and> q_collection_group q = None \<and> q_filters q = [])"

definition IsCollectionGroupQuery :: "Query \<Rightarrow> bool" where
  "IsCollectionGroupQuery q = (q_collection_group q \<noteq> None)"

definition MatchesAllDocuments :: "Query \<Rightarrow> bool" where
  "MatchesAllDocuments q = (q_filters q = [] \<and> q_limit q = kNoLimit \<and> q_start_at q = None \<and> q_end_at q = None \<and>
     (q_explicit_order_bys q = [] \<or>
      (length (q_explicit_order_bys q) = 1 \<and> IsKeyFieldPath (ob_field (hd (q_explicit_order_bys q))))))"

definition InequalityFilterField :: "Query \<Rightarrow> FieldPath option" where
  "InequalityFilterField q = map_option ff_field (find IsInequality (q_filters q))"

definition FindOperator :: "Query \<Rightarrow> Operator list \<Rightarrow> Operator option" where
  "FindOperator q ops = map_option ff_op (find (\<lambda>f. ff_op f \<in> set ops) (q_filters q))"

definition FirstOrderByField :: "Query \<Rightarrow> FieldPath option" where
  "FirstOrderByField q = (case q_explicit_order_bys q of [] \<Rightarrow> None | ob # _ \<Rightarrow> Some (ob_field ob))"

definition has_limit_to_first :: "Query \<Rightarrow> bool" where
  "has_limit_to_first q = (q_limit_type q = LimitFirst \<and> q_limit q \<noteq> kNoLimit)"

definition has_limit_to_last :: "Query \<Rightarrow> bool" where
  "has_limit_to_last q = (q_limit_type q = LimitLast \<and> q_limit q \<noteq> kNoLimit)"

definition Query_limit :: "Query \<Rightarrow> int32 result" where
  "Query_limit q = hard_assert (q_limit_type q \<noteq> LimitNone) (Inr (q_limit q))"

definition key_order :: "Direction \<Rightarrow> OrderBy" where
  "key_order d = \<lparr>ob_field = KeyFieldPath, ob_direction = d\<rparr>"

definition order_bys :: "Query \<Rightarrow> OrderBy list result" where
  "order_bys q =
     (let inequality_field = InequalityFilterField q;
          first_order_by_field = FirstOrderByField q
      in case (inequality_field, first_order_by_field) of
           (Some f, None) \<Rightarrow>
             (if IsKeyFieldPath f then Inr [key_order DirAscending]
              else Inr [\<lparr>ob_field = f, ob_direction = DirAscending\<rparr>, key_order DirAscending])
         | _ \<Rightarrow>
             hard_assert (inequality_field = None \<or> inequality_field = first_order_by_field)
               (let explicit = q_explicit_order_bys q;
                    found_explicit_key_order = list_ex (\<lambda>ob. IsKeyFieldPath (ob_field ob)) explicit;
                    last_direction = (if explicit = [] then DirAscending else ob_direction (last explicit))
                in Inr (if \<not> found_explicit_key_order then explicit @ [key_order last_direction] else explicit)))"

section \<open>Builder methods\<close>

definition AddingFilter :: "Filter \<Rightarrow> Query \<Rightarrow> Query result" where
  "AddingFilter f q =
     hard_assert (\<not> Query_IsDocumentQuery q)
       (let new_inequality_field = (if IsInequality f then Some (ff_field f) else None);
            query_inequality_field = InequalityFilterField q
        in hard_assert (query_inequality_field = None \<or> new_inequality_field = None \<or>
                        query_inequality_field = new_inequality_field)
             (Inr (q\<lparr>q_filters := q_filters q @ [f]\<rparr>)))"

definition AddingOrderBy :: "OrderBy \<Rightarrow> Query \<Rightarrow> Query result" where
  "AddingOrderBy ob q =
     hard_assert (\<not> Query_IsDocumentQuery q)
       (hard_assert (q_explicit_order_bys q = [] \<longrightarrow>
          (InequalityFilterField q = None \<or> InequalityFilterField q = Some (ob_field ob)))
        (Inr (q\<lparr>q_explicit_order_bys := q_explicit_order_bys q @ [ob]\<rparr>)))"

definition WithLimitToFirst :: "int32 \<Rightarrow> Query \<Rightarrow> Query" where
  "WithLimitToFirst limit q = q\<lparr>q_limit := limit, q_limit_type := LimitFirst\<rparr>"

definition WithLimitToLast :: "int32 \<Rightarrow> Query \<Rightarrow> Query" where
  "WithLimitToLast limit q = q\<lparr>q_limit := limit, q_limit_type := LimitLast\<rparr>"

definition StartingAt :: "Bound \<Rightarrow> Query \<Rightarrow> Query" where
  "StartingAt b q = q\<lparr>q_start_at := Some b\<rparr>"

definition EndingAt :: "Bound \<Rightarrow> Query \<Rightarrow> Query" where
  "EndingAt b q = q\<lparr>q_end_at := Some b\<rparr>"

definition AsCollectionQueryAtPath :: "ResourcePath \<Rightarrow> Query \<Rightarrow> Query" where
  "AsCollectionQueryAtPath p q = q\<lparr>q_path := p, q_collection_group := None\<rparr>"

section \<open>Matching\<close>

definition MatchesPathAndCollectionGroup :: "Query \<Rightarrow> MaybeDocument \<Rightarrow> bool" where
  "MatchesPathAndCollectionGroup q doc =
     (let doc_path = doc_key doc
      in case q_collection_group q of
           Some cg \<Rightarrow> HasCollectionId (doc_key doc) cg \<and> IsPrefixOf (q_path q) doc_path
         | None \<Rightarrow> (if IsDocumentKey (q_path q) then q_path q = doc_path
                   else IsImmediateParentOf (q_path q) doc_path))"

fun all_match :: "Filter list \<Rightarrow> MaybeDocument \<Rightarrow> bool result" where
  "all_match [] doc = Inr True"
| "all_match (f # fs) doc = rbind (Filter_Matches f doc) (\<lambda>b. if \<not> b then Inr False else all_match fs doc)"

definition MatchesFilters :: "Query \<Rightarrow> MaybeDocument \<Rightarrow> bool result" where
  "MatchesFilters q doc = all_match (q_filters q) doc"

definition MatchesOrderBy :: "Query \<Rightarrow> MaybeDocument \<Rightarrow> bool" where
  "MatchesOrderBy q doc =
     list_all (\<lambda>ob. \<not> (ob_field ob \<noteq> KeyFieldPath \<and> Document_field doc (ob_field ob) = None))
       (q_explicit_order_bys q)"

definition MatchesBounds :: "Query \<Rightarrow> MaybeDocument \<Rightarrow> bool result" where
  "MatchesBounds q doc =
     rbind (order_bys q) (\<lambda>ordering.
       rbind (case q_start_at q of None \<Rightarrow> Inr True | Some b \<Rightarrow> SortsBeforeDocument b ordering doc) (\<lambda>ok.
         if \<not> ok then Inr False
         else rbind (case q_end_at q of None \<Rightarrow> Inr False | Some b \<Rightarrow> SortsBeforeDocument b ordering doc) (\<lambda>out.
           Inr (\<not> out))))"

definition Query_Matches :: "Query \<Rightarrow> MaybeDocument \<Rightarrow> bool result" where
  "Query_Matches q doc =
     (if MatchesPathAndCollectionGroup q doc \<and> MatchesOrderBy q doc
      then rbind (MatchesFilters q doc) (\<lambda>b. if b then MatchesBounds q doc else Inr False)
      else Inr False)"

text \<open>The comparison by the order-bys.\<close>

fun compare_by :: "OrderBy list \<Rightarrow> MaybeDocument \<Rightarrow> MaybeDocument \<Rightarrow> comparison_result result" where
  "compare_by [] doc1 doc2 = Inr Same"
| "compare_by (ob # obs) doc1 doc2 =
     rbind (OrderBy_Compare ob doc1 doc2) (\<lambda>comp. if comp \<noteq> Same then Inr comp else compare_by obs doc1 doc2)"

definition Query_Comparator :: "Query \<Rightarrow> MaybeDocument \<Rightarrow> MaybeDocument \<Rightarrow> comparison_result result" where
  "Query_Comparator q doc1 doc2 =
     rbind (order_bys q) (\<lambda>ordering.
       hard_assert (list_ex (\<lambda>ob. ob_field ob = KeyFieldPath) ordering) (compare_by ordering doc1 doc2))"

section \<open>The target\<close>

definition flip_bound :: "Bound \<Rightarrow> Bound" where
  "flip_bound b = \<lparr>bound_position = bound_position b, bound_before = \<not> bound_before b\<rparr>"

definition ToTarget :: "Query \<Rightarrow> Target result" where
  "ToTarget q =
     rmap (\<lambda>obs.
       if q_limit_type q = LimitLast
       then \<lparr>t_path = q_path q, t_collection_group = q_collection_group q, t_filters = q_filters q,
             t_order_bys = map flip_order obs, t_limit = q_limit q,
             t_start_at = map_option flip_bound (q_end_at q),
             t_end_at = map_option flip_bound (q_start_at q)\<rparr>
       else \<lparr>t_path = q_path q, t_collection_group = q_collection_group q, t_filters = q_filters q,
             t_order_bys = obs, t_limit = q_limit q, t_start_at = q_start_at q, t_end_at = q_end_at q\<rparr>)
     (order_bys q)"

definition Target_IsDocumentQuery :: "Target \<Rightarrow> bool" where
  "Target_IsDocumentQuery t = (IsDocumentKey (t_path t) \<and> t_collection_group t = None \<and> t_filters t = [])"

section \<open>Well-formed queries\<close>

definition query_ok :: "Query \<Rightarrow> bool" where
  "query_ok q = ((\<forall>f \<in> set (q_filters q). filter_ok f) \<and>
     (\<exists>obs. order_bys q = Inr obs \<and>
        (case q_start_at q of None \<Rightarrow> True | Some b \<Rightarrow> bound_ok obs b) \<and>
        (case q_end_at q of None \<Rightarrow> True | Some b \<Rightarrow> bound_ok obs b)))"

lemma IsKeyFieldPath_iff: "IsKeyFieldPath p = (p = KeyFieldPath)"
  by (cases p) (auto simp: IsKeyFieldPath_def first_segment_def KeyFieldPath_def)

lemma order_bys_has_key: "order_bys q = Inr obs \<Longrightarrow> list_ex (\<lambda>ob. ob_field ob = KeyFieldPath) obs"
  by (auto simp: order_bys_def Let_def key_order_def IsKeyFieldPath_iff list_ex_iff split: option.splits if_splits)

text \<open>The builders keep the first order-by on the inequality field, so the orderings exist.\<close>

definition order_fits :: "Query \<Rightarrow> bool" where
  "order_fits q = (InequalityFilterField q = None \<or> FirstOrderByField q = None \<or>
     InequalityFilterField q = FirstOrderByField q)"

lemma order_bys_defined: "(\<exists>obs. order_bys q = Inr obs) = order_fits q"
  by (auto simp: order_bys_def order_fits_def Let_def split: option.splits)

lemma AddingOrderBy_fits:
  assumes "AddingOrderBy ob q = Inr q'" "order_fits q" shows "order_fits q'"
  using assms
  by (auto simp: AddingOrderBy_def order_fits_def FirstOrderByField_def InequalityFilterField_def split: list.splits)

lemma all_match_total: "\<forall>f \<in> set fs. filter_ok f \<Longrightarrow> \<exists>b. all_match fs doc = Inr b"
proof (induction fs)
  case (Cons f fs)
  then show ?case using Filter_Matches_total[of f doc] by auto
qed (auto intro: exI[of _ True])

lemma all_match_True: "all_match fs doc = Inr True \<Longrightarrow> f \<in> set fs \<Longrightarrow> Filter_Matches f doc = Inr True"
  by (induction fs) (auto simp: rbind_Inr_conv split: if_splits)

lemma matched_has_order_fields:
  assumes "\<forall>f \<in> set (q_filters q). filter_ok f" "order_bys q = Inr obs"
    "MatchesOrderBy q doc" "MatchesFilters q doc = Inr True"
  shows "has_order_fields obs doc"
proof -
  have e: "has_order_fields (q_explicit_order_bys q) doc"
    using assms(3) by (auto simp: MatchesOrderBy_def has_order_fields_def list_all_iff)
  have f: "Document_field doc p \<noteq> None" if i: "InequalityFilterField q = Some p" "\<not> IsKeyFieldPath p" for p
  proof -
    obtain g where g: "find IsInequality (q_filters q) = Some g" "ff_field g = p"
      using i(1) by (auto simp: InequalityFilterField_def)
    then have "g \<in> set (q_filters q)" "IsInequality g" by (auto simp: find_Some_iff)
    then show ?thesis
      using inequality_field_exists[of g doc] assms(1,4) i(2) g(2) all_match_True[of "q_filters q" doc g]
      by (auto simp: MatchesFilters_def)
  qed
  show ?thesis
  proof (cases "\<exists>p. InequalityFilterField q = Some p \<and> FirstOrderByField q = None")
    case True
    then show ?thesis using assms(2) f
      by (auto simp: order_bys_def has_order_fields_def key_order_def IsKeyFieldPath_iff split: if_splits)
  next
    case False
    then have "obs = q_explicit_order_bys q \<or> (\<exists>d. obs = q_explicit_order_bys q @ [key_order d])"
      using assms(2) by (auto simp: order_bys_def Let_def split: option.splits if_splits)
    then show ?thesis using e by (auto simp: has_order_fields_def key_order_def)
  qed
qed

text \<open>Matching a well-formed query never fails, and a match has every field it is sorted by.\<close>

lemma Query_Matches_total:
  assumes "query_ok q" shows "\<exists>b. Query_Matches q doc = Inr b"
proof -
  obtain obs where obs: "order_bys q = Inr obs" "case q_start_at q of None \<Rightarrow> True | Some b \<Rightarrow> bound_ok obs b"
    "case q_end_at q of None \<Rightarrow> True | Some b \<Rightarrow> bound_ok obs b"
    and fs: "\<forall>f \<in> set (q_filters q). filter_ok f" using assms by (auto simp: query_ok_def)
  obtain b where b: "MatchesFilters q doc = Inr b" using all_match_total[OF fs] by (auto simp: MatchesFilters_def)
  have "\<exists>c. MatchesBounds q doc = Inr c" if "MatchesOrderBy q doc" "b"
  proof -
    have h: "has_order_fields obs doc" using matched_has_order_fields[OF fs obs(1) that(1)] b that(2) by simp
    have s: "\<exists>c. (case q_start_at q of None \<Rightarrow> Inr True | Some b \<Rightarrow> SortsBeforeDocument b obs doc) = Inr c"
      using obs(2) SortsBeforeDocument_total[OF _ h] by (cases "q_start_at q") auto
    have e: "\<exists>c. (case q_end_at q of None \<Rightarrow> Inr False | Some b \<Rightarrow> SortsBeforeDocument b obs doc) = Inr c"
      using obs(3) SortsBeforeDocument_total[OF _ h] by (cases "q_end_at q") auto
    from s e show ?thesis by (auto simp: MatchesBounds_def obs(1))
  qed
  then show ?thesis using b by (auto simp: Query_Matches_def)
qed

lemma Query_Matches_fields:
  assumes "query_ok q" "Query_Matches q doc = Inr True" "order_bys q = Inr obs"
  shows "has_order_fields obs doc"
  using assms matched_has_order_fields[of q obs doc]
  by (auto simp: query_ok_def Query_Matches_def rbind_Inr_conv split: if_splits)

section \<open>The comparator of a query is a total order on its matches\<close>

text \<open>The extension of the comparison to documents that lack a field: the absent value comes first.\<close>

definition option_cmp :: "('a \<Rightarrow> 'a \<Rightarrow> comparison_result) \<Rightarrow> 'a option \<Rightarrow> 'a option \<Rightarrow> comparison_result" where
  "option_cmp c x y = (case (x, y) of
      (None, None) \<Rightarrow> Same | (None, Some _) \<Rightarrow> Ascending | (Some _, None) \<Rightarrow> Descending | (Some a, Some b) \<Rightarrow> c a b)"

definition order_cmp1 :: "OrderBy \<Rightarrow> MaybeDocument \<Rightarrow> MaybeDocument \<Rightarrow> comparison_result" where
  "order_cmp1 ob d1 d2 = ApplyTo (ob_direction ob)
     (if ob_field ob = KeyFieldPath then DocumentKey_CompareTo (doc_key d1) (doc_key d2)
      else option_cmp FieldValue_CompareTo (Document_field d1 (ob_field ob)) (Document_field d2 (ob_field ob)))"

fun order_cmp :: "OrderBy list \<Rightarrow> MaybeDocument \<Rightarrow> MaybeDocument \<Rightarrow> comparison_result" where
  "order_cmp [] d1 d2 = Same"
| "order_cmp (ob # obs) d1 d2 = (case order_cmp1 ob d1 d2 of Same \<Rightarrow> order_cmp obs d1 d2 | c \<Rightarrow> c)"

lemma option_cmp_total:
  assumes "total_comparator c" shows "total_comparator (option_cmp c)"
proof
  fix a b show "option_cmp c b a = ReverseOrder (option_cmp c a b)"
  proof (cases "\<exists>x y. a = Some x \<and> b = Some y")
    case True
    then obtain x y where "a = Some x" "b = Some y" by blast
    then show ?thesis using total_comparator.flip[OF assms, of y x] by (simp add: option_cmp_def)
  next
    case False
    then show ?thesis by (cases a; cases b) (simp_all add: option_cmp_def)
  qed
next
  fix a b d assume le: "option_cmp c a b \<noteq> Descending" "option_cmp c b d \<noteq> Descending"
  show "option_cmp c a d \<noteq> Descending"
  proof (cases "\<exists>x y z. a = Some x \<and> b = Some y \<and> d = Some z")
    case True
    then obtain x y z where "a = Some x" "b = Some y" "d = Some z" by blast
    then show ?thesis using le total_comparator.le_trans[OF assms, of x y z] by (simp add: option_cmp_def)
  next
    case False
    then show ?thesis using le by (cases a; cases b; cases d) (simp_all add: option_cmp_def)
  qed
qed

lemma ApplyTo_total:
  assumes "total_comparator c" shows "total_comparator (\<lambda>a b. ApplyTo d (c a b))"
proof (cases d)
  case DirDescending
  have f: "c b a = ReverseOrder (c a b)" for a b by (rule total_comparator.flip[OF assms])
  show ?thesis
  proof
    fix x y show "ApplyTo d (c y x) = ReverseOrder (ApplyTo d (c x y))" using f[of y x] DirDescending by simp
  next
    fix x y z assume "ApplyTo d (c x y) \<noteq> Descending" "ApplyTo d (c y z) \<noteq> Descending"
    then have "c z y \<noteq> Descending" "c y x \<noteq> Descending" using f[of y x] f[of z y] DirDescending by auto
    then have "c z x \<noteq> Descending" by (rule total_comparator.le_trans[OF assms])
    then show "ApplyTo d (c x z) \<noteq> Descending" using f[of z x] DirDescending by simp
  qed
qed (use assms in simp)

lemma order_cmp1_total: "total_comparator (order_cmp1 ob)"
proof -
  have "total_comparator (\<lambda>d1 d2. ApplyTo (ob_direction ob) ((\<lambda>a b. DocumentKey_CompareTo (doc_key a) (doc_key b)) d1 d2))"
    by (rule ApplyTo_total) (rule total_comparator_key[OF key_cmp.total_comparator_axioms])
  moreover have "total_comparator (\<lambda>d1 d2. ApplyTo (ob_direction ob) ((\<lambda>a b. option_cmp FieldValue_CompareTo
      (Document_field a (ob_field ob)) (Document_field b (ob_field ob))) d1 d2))"
    by (rule ApplyTo_total)
      (rule total_comparator_key[OF option_cmp_total[OF fv_cmp.total_comparator_axioms], of "\<lambda>d. Document_field d (ob_field ob)"])
  ultimately show ?thesis
    by (cases "ob_field ob = KeyFieldPath") (simp_all add: order_cmp1_def[abs_def])
qed

lemma order_cmp_total: "total_comparator (order_cmp obs)"
proof (induction obs)
  case Nil
  show ?case by unfold_locales simp_all
next
  case (Cons ob obs)
  have "order_cmp (ob # obs) = (\<lambda>a b. case order_cmp1 ob a b of Same \<Rightarrow> order_cmp obs a b | r \<Rightarrow> r)"
    by (intro ext) simp
  then show ?case using total_comparator_lex[OF order_cmp1_total Cons] by simp
qed

lemma compare_by_order_cmp:
  "has_order_fields obs d1 \<Longrightarrow> has_order_fields obs d2 \<Longrightarrow> compare_by obs d1 d2 = Inr (order_cmp obs d1 d2)"
proof (induction obs)
  case (Cons ob obs)
  have "has_order_fields obs d1" "has_order_fields obs d2" using Cons.prems by (auto simp: has_order_fields_def)
  moreover have "OrderBy_Compare ob d1 d2 = Inr (order_cmp1 ob d1 d2)"
    using Cons.prems by (auto simp: has_order_fields_def OrderBy_Compare_def order_cmp1_def option_cmp_def)
  ultimately show ?case using Cons.IH by (auto split: comparison_result.split)
qed simp

lemma order_cmp_same_key:
  "list_ex (\<lambda>ob. ob_field ob = KeyFieldPath) obs \<Longrightarrow> order_cmp obs d1 d2 = Same \<Longrightarrow> doc_key d1 = doc_key d2"
proof (induction obs)
  case (Cons ob obs)
  then show ?case by (auto simp: order_cmp1_def split: comparison_result.splits)
qed simp

text \<open>\<open>DocumentComparator::ByKey\<close> of \<open>model/document_set.cc\<close>.\<close>

definition ByKey :: "MaybeDocument \<Rightarrow> MaybeDocument \<Rightarrow> comparison_result" where
  "ByKey lhs rhs = DocumentKey_CompareTo (doc_key lhs) (doc_key rhs)"

text \<open>
  The comparator of a query as a total function: that of \<open>Query_Comparator\<close> wherever the
  code's comparator returns (see \<open>Query_Comparator_eq\<close>), by key for a query without orderings.
\<close>

definition query_cmp :: "Query \<Rightarrow> MaybeDocument \<Rightarrow> MaybeDocument \<Rightarrow> comparison_result" where
  "query_cmp q = (case order_bys q of Inr obs \<Rightarrow> order_cmp obs | Inl _ \<Rightarrow> ByKey)"

lemma ByKey_total: "total_comparator ByKey"
  using total_comparator_key[OF key_cmp.total_comparator_axioms, of doc_key] by (simp add: ByKey_def[abs_def])

lemma query_cmp_total: "total_comparator (query_cmp q)"
  by (cases "order_bys q") (simp_all add: query_cmp_def order_cmp_total ByKey_total)

lemma Query_Comparator_eq:
  assumes "query_ok q" "Query_Matches q d1 = Inr True" "Query_Matches q d2 = Inr True"
  shows "Query_Comparator q d1 d2 = Inr (query_cmp q d1 d2)"
proof -
  obtain obs where obs: "order_bys q = Inr obs" using assms(1) by (auto simp: query_ok_def)
  have "has_order_fields obs d1" "has_order_fields obs d2"
    using Query_Matches_fields[OF assms(1) _ obs] assms(2,3) by blast+
  then show ?thesis using order_bys_has_key[OF obs]
    by (simp add: Query_Comparator_def obs query_cmp_def compare_by_order_cmp)
qed

lemma query_cmp_same_key:
  assumes "query_cmp q d1 d2 = Same" shows "doc_key d1 = doc_key d2"
proof (cases "order_bys q")
  case (Inr obs)
  then show ?thesis using order_cmp_same_key[OF order_bys_has_key[OF Inr]] assms by (simp add: query_cmp_def)
qed (use assms in \<open>simp add: query_cmp_def ByKey_def\<close>)

section \<open>The target of a limit-to-last query\<close>

text \<open>Which documents a target accepts by its bounds, as the backend reads them.\<close>

definition Target_bounds :: "Target \<Rightarrow> MaybeDocument \<Rightarrow> bool result" where
  "Target_bounds t doc =
     rbind (case t_start_at t of None \<Rightarrow> Inr True | Some b \<Rightarrow> SortsBeforeDocument b (t_order_bys t) doc) (\<lambda>ok.
       rbind (case t_end_at t of None \<Rightarrow> Inr False | Some b \<Rightarrow> SortsBeforeDocument b (t_order_bys t) doc) (\<lambda>out.
         Inr (ok \<and> \<not> out)))"

lemma order_cmp_flip: "order_cmp (map flip_order obs) d1 d2 = ReverseOrder (order_cmp obs d1 d2)"
proof (induction obs)
  case (Cons ob obs)
  have "order_cmp1 (flip_order ob) d1 d2 = ReverseOrder (order_cmp1 ob d1 d2)"
    by (simp add: order_cmp1_def flip_order_def ApplyTo_flip)
  then show ?case using Cons by (cases "order_cmp1 ob d1 d2") simp_all
qed simp

lemma ToTarget_bounds:
  assumes "query_ok q" "ToTarget q = Inr t" "order_bys q = Inr obs" "has_order_fields obs doc"
  shows "Target_bounds t doc = MatchesBounds q doc"
proof -
  obtain s where s: "(case q_start_at q of None \<Rightarrow> Inr True | Some b \<Rightarrow> SortsBeforeDocument b obs doc) = Inr s"
    using assms SortsBeforeDocument_total[OF _ assms(4)] by (cases "q_start_at q") (auto simp: query_ok_def)
  obtain e where e: "(case q_end_at q of None \<Rightarrow> Inr False | Some b \<Rightarrow> SortsBeforeDocument b obs doc) = Inr e"
    using assms SortsBeforeDocument_total[OF _ assms(4)] by (cases "q_end_at q") (auto simp: query_ok_def)
  have m: "MatchesBounds q doc = Inr (s \<and> \<not> e)" by (simp add: MatchesBounds_def assms(3) s e)
  show ?thesis
  proof (cases "q_limit_type q = LimitLast")
    case False
    then have "t_order_bys t = obs" "t_start_at t = q_start_at q" "t_end_at t = q_end_at q"
      using assms(2,3) by (auto simp: ToTarget_def)
    then show ?thesis using m s e by (cases "q_start_at q"; cases "q_end_at q") (simp_all add: Target_bounds_def)
  next
    case True
    then have t: "t_order_bys t = map flip_order obs" "t_start_at t = map_option flip_bound (q_end_at q)"
      "t_end_at t = map_option flip_bound (q_start_at q)" using assms(2,3) by (auto simp: ToTarget_def)
    have f: "SortsBeforeDocument (flip_bound b) (map flip_order obs) doc = rmap Not (SortsBeforeDocument b obs doc)" for b
      using SortsBeforeDocument_flip by (simp add: flip_bound_def)
    have s': "(case t_start_at t of None \<Rightarrow> Inr True | Some b \<Rightarrow> SortsBeforeDocument b (t_order_bys t) doc) = Inr (\<not> e)"
      using e by (cases "q_end_at q") (simp_all add: t f)
    have e': "(case t_end_at t of None \<Rightarrow> Inr False | Some b \<Rightarrow> SortsBeforeDocument b (t_order_bys t) doc) = Inr (\<not> s)"
      using s by (cases "q_start_at q") (simp_all add: t f)
    show ?thesis using m s' e' by (auto simp: Target_bounds_def)
  qed
qed

end
