(* ===== verification/DocumentSets.thy ===== *)
theory DocumentSets
  imports Queries
begin

text \<open>
  \<open>model/document_set.cc\<close>: the documents of a view, indexed by key and sorted by the comparator
  of the query.  The two collections are sorted maps (the set stores an empty value for each
  document), kept as their entry lists.  The comparator is an argument of the operations; the
  locale \<open>document_comparator\<close> is what the set needs of it.
\<close>

record DocumentSet =
  ds_index :: MaybeDocumentMap
  ds_sorted :: "(MaybeDocument \<times> unit) list"

type_synonym document_cmp = "MaybeDocument \<Rightarrow> MaybeDocument \<Rightarrow> comparison_result"

definition ds_new :: DocumentSet where
  "ds_new = \<lparr>ds_index = [], ds_sorted = []\<rparr>"

definition ds_size :: "DocumentSet \<Rightarrow> nat" where
  "ds_size s = length (ds_index s)"

definition ds_docs :: "DocumentSet \<Rightarrow> MaybeDocument list" where
  "ds_docs s = map fst (ds_sorted s)"

definition ds_GetDocument :: "DocumentKey \<Rightarrow> DocumentSet \<Rightarrow> MaybeDocument option" where
  "ds_GetDocument key s = dm_get key (ds_index s)"

definition ds_ContainsKey :: "DocumentKey \<Rightarrow> DocumentSet \<Rightarrow> bool" where
  "ds_ContainsKey key s = (dm_get key (ds_index s) \<noteq> None)"

definition ds_GetFirstDocument :: "DocumentSet \<Rightarrow> MaybeDocument option" where
  "ds_GetFirstDocument s = (case ds_docs s of [] \<Rightarrow> None | d # _ \<Rightarrow> Some d)"

definition ds_GetLastDocument :: "DocumentSet \<Rightarrow> MaybeDocument option" where
  "ds_GetLastDocument s = (if ds_docs s = [] then None else Some (last (ds_docs s)))"

definition ds_IndexOf :: "document_cmp \<Rightarrow> DocumentKey \<Rightarrow> DocumentSet \<Rightarrow> nat option" where
  "ds_IndexOf cmp key s =
     (case ds_GetDocument key s of
        None \<Rightarrow> None
      | Some d \<Rightarrow>
          (let i = length (takeWhile (\<lambda>e. cmp d (fst e) \<noteq> Same) (ds_sorted s))
           in if i = length (ds_sorted s) then None else Some i))"

definition ds_erase :: "document_cmp \<Rightarrow> DocumentKey \<Rightarrow> DocumentSet \<Rightarrow> DocumentSet" where
  "ds_erase cmp key s =
     (case ds_GetDocument key s of
        None \<Rightarrow> s
      | Some d \<Rightarrow> \<lparr>ds_index = dm_erase key (ds_index s), ds_sorted = al_del cmp d (ds_sorted s)\<rparr>)"

definition ds_insert :: "document_cmp \<Rightarrow> MaybeDocument option \<Rightarrow> DocumentSet \<Rightarrow> DocumentSet" where
  "ds_insert cmp document s =
     (case document of
        None \<Rightarrow> s
      | Some d \<Rightarrow>
          (let removed = ds_erase cmp (doc_key d) s
           in \<lparr>ds_index = dm_insert (doc_key d) d (ds_index removed),
               ds_sorted = al_put cmp d () (ds_sorted removed)\<rparr>))"

definition ds_eq :: "DocumentSet \<Rightarrow> DocumentSet \<Rightarrow> bool" where
  "ds_eq lhs rhs = list_all2 MaybeDocument_eq (ds_docs lhs) (ds_docs rhs)"

section \<open>The invariant\<close>

definition ds_inv :: "document_cmp \<Rightarrow> DocumentSet \<Rightarrow> bool" where
  "ds_inv cmp s = (dm_ok (ds_index s) \<and> (\<forall>e \<in> set (ds_index s). doc_key (snd e) = fst e) \<and>
     sorted_keys cmp (ds_sorted s) \<and> set (ds_docs s) = snd ` set (ds_index s))"

lemma ds_inv_new [simp]: "ds_inv cmp ds_new"
  by (simp add: ds_inv_def ds_new_def ds_docs_def dm_ok_def)

lemma ds_get_new [simp]: "ds_GetDocument k ds_new = None"
  by (simp add: ds_GetDocument_def ds_new_def)

definition index_ok :: "MaybeDocumentMap \<Rightarrow> bool" where
  "index_ok m = (dm_ok m \<and> (\<forall>e \<in> set m. doc_key (snd e) = fst e))"

lemma index_mem:
  assumes "index_ok m" shows "(x \<in> snd ` set m) = (dm_get (doc_key x) m = Some x)"
proof -
  have "dm_ok m" using assms by (simp add: index_ok_def)
  then have g: "(dm_get (doc_key x) m = Some x) = ((doc_key x, x) \<in> set m)" by (rule dm_get_mem)
  have "x \<in> snd ` set m \<longleftrightarrow> (doc_key x, x) \<in> set m" using assms by (force simp: index_ok_def)
  then show ?thesis by (simp only: g)
qed

lemma index_get_key: "index_ok m \<Longrightarrow> dm_get k m = Some d \<Longrightarrow> doc_key d = k"
  using dm_get_mem[of m k d] by (auto simp: index_ok_def)

lemma index_ok_insert: "index_ok m \<Longrightarrow> index_ok (dm_insert (doc_key d) d m)"
proof -
  assume m: "index_ok m"
  have "dm_ok (dm_insert (doc_key d) d m)" using m by (simp add: index_ok_def)
  moreover have "doc_key x = k" if "(k, x) \<in> set (dm_insert (doc_key d) d m)" for k x
  proof -
    have "dm_get k (dm_insert (doc_key d) d m) = Some x" using dm_get_mem[OF \<open>dm_ok _\<close>] that by simp
    then show ?thesis using m index_get_key[of m k x] by (auto split: if_splits)
  qed
  ultimately show ?thesis by (auto simp: index_ok_def)
qed

lemma index_ok_erase: "index_ok m \<Longrightarrow> index_ok (dm_erase k m)"
  by (auto simp: index_ok_def dm_erase_def dest: set_al_del) (simp add: dm_ok_def key_cmp.sorted_al_del)

lemma ds_inv_parts:
  "ds_inv cmp s = (index_ok (ds_index s) \<and> sorted_keys cmp (ds_sorted s) \<and>
     (\<forall>d. (d \<in> set (ds_docs s)) = (ds_GetDocument (doc_key d) s = Some d)))"
proof (cases "index_ok (ds_index s)")
  case True
  then have "(set (ds_docs s) = snd ` set (ds_index s)) =
      (\<forall>d. (d \<in> set (ds_docs s)) = (ds_GetDocument (doc_key d) s = Some d))"
    unfolding ds_GetDocument_def index_mem[OF True, symmetric] by blast
  then show ?thesis using True by (simp add: ds_inv_def index_ok_def)
qed (auto simp: ds_inv_def index_ok_def)

lemma ds_mem: "ds_inv cmp s \<Longrightarrow> (d \<in> set (ds_docs s)) = (ds_GetDocument (doc_key d) s = Some d)"
  by (simp add: ds_inv_parts)

lemma ds_unique: "ds_inv cmp s \<Longrightarrow> x \<in> set (ds_docs s) \<Longrightarrow> y \<in> set (ds_docs s) \<Longrightarrow> doc_key x = doc_key y \<Longrightarrow> x = y"
  by (simp add: ds_mem)

lemma ds_get_key: "ds_inv cmp s \<Longrightarrow> ds_GetDocument k s = Some d \<Longrightarrow> doc_key d = k"
  unfolding ds_inv_parts ds_GetDocument_def by (blast dest: index_get_key)

lemma ds_get_mem: "ds_inv cmp s \<Longrightarrow> ds_GetDocument k s = Some d \<Longrightarrow> d \<in> set (ds_docs s)"
  using ds_mem ds_get_key by blast

section \<open>What the set needs of its comparator\<close>

locale document_comparator = total_comparator cmp for cmp :: document_cmp +
  assumes same_key: "cmp a b = Same \<Longrightarrow> doc_key a = doc_key b"
begin

lemma sorted_distinct_docs: "ds_inv cmp s \<Longrightarrow> distinct (ds_docs s)"
proof -
  have "distinct (map fst es)" if "sorted_keys cmp es" for es :: "(MaybeDocument \<times> unit) list"
    using that by (induction es) (auto simp: sorted_keys_def)
  then show "ds_inv cmp s \<Longrightarrow> distinct (ds_docs s)" by (simp add: ds_inv_def ds_docs_def)
qed

lemma docs_keys_distinct: "ds_inv cmp s \<Longrightarrow> distinct (map doc_key (ds_docs s))"
proof -
  assume s: "ds_inv cmp s"
  then have "inj_on doc_key (set (ds_docs s))"
    using ds_mem[OF s] by (auto intro!: inj_onI)
  then show ?thesis using sorted_distinct_docs[OF s] by (simp add: distinct_map)
qed

lemma size_docs: "ds_inv cmp s \<Longrightarrow> ds_size s = length (ds_docs s)"
proof -
  assume s: "ds_inv cmp s"
  have "distinct (map fst m)" if "dm_ok m" for m :: MaybeDocumentMap
    using that unfolding dm_ok_def by (induction m) (auto simp: key_cmp.asc_not_same)
  then have d: "distinct (map fst (ds_index s))" using s by (simp add: ds_inv_def)
  have "map fst (ds_index s) = map doc_key (map snd (ds_index s))" using s by (auto simp: ds_inv_def)
  with d have "distinct (map snd (ds_index s))" by (metis distinct_map)
  then have "length (ds_index s) = card (snd ` set (ds_index s))"
    by (metis distinct_card length_map set_map)
  also have "\<dots> = card (set (ds_docs s))" using s by (simp add: ds_inv_def)
  also have "\<dots> = length (ds_docs s)" by (rule distinct_card[OF sorted_distinct_docs[OF s]])
  finally show ?thesis by (simp add: ds_size_def)
qed

lemma al_del_keys:
  assumes "sorted_keys cmp es" "\<forall>k \<in> fst ` set es. cmp d k = Same \<longrightarrow> k = d"
  shows "fst ` set (al_del cmp d es) = fst ` set es - {d}"
  using assms
proof (induction es)
  case (Cons e es)
  obtain k v where e: "e = (k, v)" by (cases e)
  show ?case
  proof (cases "cmp d k = Same")
    case True
    then have "k = d" using Cons.prems(2) e by simp
    moreover have "d \<notin> fst ` set es" using Cons.prems(1) \<open>k = d\<close> e by auto
    ultimately show ?thesis by (simp add: e)
  next
    case False
    then have "k \<noteq> d" by auto
    then show ?thesis using False Cons by (auto simp: e)
  qed
qed simp

lemma al_put_new_keys:
  "\<forall>k \<in> fst ` set es. cmp d k \<noteq> Same \<Longrightarrow> fst ` set (al_put cmp d v es) = insert d (fst ` set es)"
proof (induction es)
  case (Cons e es)
  obtain k w where e: "e = (k, w)" by (cases e)
  then show ?case using Cons by (cases "cmp d k") auto
qed simp

lemma same_is_itself:
  assumes "ds_inv cmp s" "d \<in> set (ds_docs s)" "e \<in> set (ds_sorted s)" "cmp d (fst e) = Same"
  shows "fst e = d"
proof -
  have "fst e \<in> set (ds_docs s)" using assms(3) by (simp add: ds_docs_def)
  then show ?thesis using ds_unique[OF assms(1) assms(2)] same_key[OF assms(4)] by metis
qed

lemma erase_docs: "ds_inv cmp s \<Longrightarrow> set (ds_docs (ds_erase cmp k s)) = {d \<in> set (ds_docs s). doc_key d \<noteq> k}"
proof (cases "ds_GetDocument k s")
  case None
  assume "ds_inv cmp s"
  then have "\<forall>d \<in> set (ds_docs s). doc_key d \<noteq> k" using None ds_mem by auto
  then show ?thesis using None by (auto simp: ds_erase_def)
next
  case (Some d)
  assume s: "ds_inv cmp s"
  have d: "d \<in> set (ds_docs s)" "doc_key d = k" using ds_get_mem[OF s Some] ds_get_key[OF s Some] by auto
  have "fst ` set (al_del cmp d (ds_sorted s)) = fst ` set (ds_sorted s) - {d}"
    by (rule al_del_keys) (use s same_is_itself[OF s d(1)] in \<open>auto simp: ds_inv_parts\<close>)
  moreover have u: "x = d" if "x \<in> set (ds_docs s)" "doc_key x = k" for x
    using ds_unique[OF s that(1) d(1)] that(2) d(2) by simp
  moreover have "set (ds_docs (ds_erase cmp k s)) = fst ` set (al_del cmp d (ds_sorted s))"
    "set (ds_docs s) = fst ` set (ds_sorted s)" using Some by (simp_all add: ds_erase_def ds_docs_def)
  ultimately have "set (ds_docs (ds_erase cmp k s)) = set (ds_docs s) - {d}" by simp
  moreover have "{x \<in> set (ds_docs s). doc_key x \<noteq> k} = set (ds_docs s) - {d}" using u d(2) by blast
  ultimately show ?thesis by simp
qed

lemma get_erase: "ds_inv cmp s \<Longrightarrow> ds_GetDocument k' (ds_erase cmp k s) = (if k' = k then None else ds_GetDocument k' s)"
  by (cases "ds_GetDocument k s") (auto simp: ds_erase_def ds_GetDocument_def dm_get_erase ds_inv_def)

lemma erase_inv: "ds_inv cmp s \<Longrightarrow> ds_inv cmp (ds_erase cmp k s)"
proof (cases "ds_GetDocument k s")
  case (Some d)
  assume s: "ds_inv cmp s"
  have "index_ok (ds_index (ds_erase cmp k s))" "sorted_keys cmp (ds_sorted (ds_erase cmp k s))"
    using s Some by (simp_all add: ds_erase_def ds_inv_parts index_ok_erase sorted_al_del)
  moreover have "(x \<in> set (ds_docs (ds_erase cmp k s))) = (ds_GetDocument (doc_key x) (ds_erase cmp k s) = Some x)" for x
    by (simp add: erase_docs[OF s] get_erase[OF s] ds_mem[OF s] conj_commute)
  ultimately show ?thesis by (simp add: ds_inv_parts)
qed (simp add: ds_erase_def)

lemma get_insert:
  "ds_inv cmp s \<Longrightarrow> ds_GetDocument k (ds_insert cmp (Some d) s) = (if k = doc_key d then Some d else ds_GetDocument k s)"
  using get_erase[of s k "doc_key d"] by (auto simp: ds_insert_def ds_GetDocument_def Let_def)

lemma insert_docs:
  "ds_inv cmp s \<Longrightarrow> set (ds_docs (ds_insert cmp (Some d) s)) = insert d {x \<in> set (ds_docs s). doc_key x \<noteq> doc_key d}"
proof -
  assume s: "ds_inv cmp s"
  let ?r = "ds_erase cmp (doc_key d) s"
  have r: "fst ` set (ds_sorted ?r) = {x \<in> set (ds_docs s). doc_key x \<noteq> doc_key d}"
    using erase_docs[OF s, of "doc_key d"] by (simp add: ds_docs_def)
  have "\<forall>k \<in> fst ` set (ds_sorted ?r). cmp d k \<noteq> Same" unfolding r using same_key by fastforce
  from al_put_new_keys[OF this, of "()"] r show ?thesis by (simp add: ds_insert_def Let_def ds_docs_def)
qed

lemma insert_inv: "ds_inv cmp s \<Longrightarrow> ds_inv cmp (ds_insert cmp (Some d) s)"
proof -
  assume s: "ds_inv cmp s"
  note r = erase_inv[OF s, of "doc_key d"]
  have "index_ok (ds_index (ds_insert cmp (Some d) s))" "sorted_keys cmp (ds_sorted (ds_insert cmp (Some d) s))"
    using r by (simp_all add: ds_insert_def Let_def ds_inv_parts index_ok_insert sorted_al_put)
  moreover have "(x \<in> set (ds_docs (ds_insert cmp (Some d) s))) =
      (ds_GetDocument (doc_key x) (ds_insert cmp (Some d) s) = Some x)" for x
    by (auto simp: insert_docs[OF s] get_insert[OF s] ds_mem[OF s])
  ultimately show ?thesis by (simp add: ds_inv_parts)
qed

lemma IndexOf_spec:
  assumes s: "ds_inv cmp s"
  shows "ds_IndexOf cmp k s = (if ds_ContainsKey k s then Some (length (takeWhile (\<lambda>d. doc_key d \<noteq> k) (ds_docs s))) else None)"
proof (cases "ds_GetDocument k s")
  case (Some d)
  have d: "d \<in> set (ds_docs s)" "doc_key d = k" using ds_get_mem[OF s Some] ds_get_key[OF s Some] by auto
  have e: "(cmp d (fst e) \<noteq> Same) = (doc_key (fst e) \<noteq> k)" if "e \<in> set (ds_sorted s)" for e
  proof -
    have "fst e \<in> set (ds_docs s)" using that by (simp add: ds_docs_def)
    then have "d = fst e" if "doc_key (fst e) = k" using ds_unique[OF s d(1)] d(2) that by simp
    then have "cmp d (fst e) = Same" if "doc_key (fst e) = k" using that by simp
    moreover have "doc_key (fst e) = k" if "cmp d (fst e) = Same" using same_key[OF that] d(2) by simp
    ultimately show ?thesis by blast
  qed
  have "length (takeWhile (\<lambda>e. cmp d (fst e) \<noteq> Same) (ds_sorted s)) =
      length (takeWhile (\<lambda>d. doc_key d \<noteq> k) (ds_docs s))"
    using takeWhile_cong[OF refl, of "ds_sorted s" "\<lambda>e. cmp d (fst e) \<noteq> Same" "\<lambda>e. doc_key (fst e) \<noteq> k"] e
    by (simp add: ds_docs_def takeWhile_map comp_def)
  moreover have "length (takeWhile (\<lambda>d. doc_key d \<noteq> k) (ds_docs s)) < length (ds_sorted s)"
    using length_takeWhile_less[of d "ds_docs s"] d by (simp add: ds_docs_def)
  ultimately show ?thesis using Some by (simp add: ds_IndexOf_def ds_ContainsKey_def ds_GetDocument_def Let_def)
qed (simp add: ds_IndexOf_def ds_ContainsKey_def ds_GetDocument_def)

lemma docs_sorted: "ds_inv cmp s \<Longrightarrow> sorted_wrt (\<lambda>a b. cmp a b = Ascending) (ds_docs s)"
  by (simp add: ds_inv_def sorted_keys_def ds_docs_def)

lemma first_least:
  assumes "ds_inv cmp s" "ds_GetFirstDocument s = Some d" "x \<in> set (ds_docs s)"
  shows "cmp d x \<noteq> Descending"
proof -
  obtain ds where ds: "ds_docs s = d # ds" using assms(2) by (auto simp: ds_GetFirstDocument_def split: list.splits)
  then show ?thesis using docs_sorted[OF assms(1)] assms(3) by auto
qed

lemma last_greatest:
  assumes "ds_inv cmp s" "ds_GetLastDocument s = Some d" "x \<in> set (ds_docs s)"
  shows "cmp x d \<noteq> Descending"
proof -
  obtain ds where ds: "ds_docs s = ds @ [d]"
    using assms(2) by (cases "ds_docs s" rule: rev_cases) (auto simp: ds_GetLastDocument_def)
  then show ?thesis using docs_sorted[OF assms(1)] assms(3) by (auto simp: sorted_wrt_append)
qed

lemma first_mem: "ds_GetFirstDocument s = Some d \<Longrightarrow> d \<in> set (ds_docs s)"
  by (auto simp: ds_GetFirstDocument_def split: list.splits)

lemma last_mem: "ds_GetLastDocument s = Some d \<Longrightarrow> d \<in> set (ds_docs s)"
  by (auto simp: ds_GetLastDocument_def split: if_splits)

lemma docs_nonempty: "ds_inv cmp s \<Longrightarrow> 0 < ds_size s \<Longrightarrow> ds_docs s \<noteq> []"
  by (auto simp: size_docs)

end

lemma ByKey_document_comparator: "document_comparator ByKey"
proof -
  have "document_comparator_axioms ByKey" by unfold_locales (simp add: ByKey_def)
  then show ?thesis using ByKey_total by (simp add: document_comparator_def)
qed

lemma query_document_comparator: "document_comparator (query_cmp q)"
proof -
  have "document_comparator_axioms (query_cmp q)" by unfold_locales (rule query_cmp_same_key)
  then show ?thesis using query_cmp_total by (simp add: document_comparator_def)
qed

interpretation by_key: document_comparator ByKey
  by (rule ByKey_document_comparator)

interpretation query_set: document_comparator "query_cmp q" for q
  by (rule query_document_comparator)

end
