(* ===== verification/TargetIds.thy ===== *)
theory TargetIds
  imports Prelude "HOL-Library.Word"
begin

unbundle bit_operations_syntax

text \<open>
  \<open>core/target_id_generator.h\<close> and \<open>core/target_id_generator.cc\<close>: the two generators of target
  ids.  Ids are 32-bit integers; a signed overflow of the counter wraps here.
\<close>

type_synonym TargetId = "32 word"

datatype TargetIdGeneratorId = GenTargetCache | GenSyncEngine

fun generator_value :: "TargetIdGeneratorId \<Rightarrow> TargetId" where
  "generator_value GenTargetCache = 0"
| "generator_value GenSyncEngine = 1"

record TargetIdGenerator =
  tig_generator_id :: TargetIdGeneratorId
  tig_next_id :: TargetId

definition kReservedBits :: nat where
  "kReservedBits = 1"

definition tig_seek :: "TargetId \<Rightarrow> TargetIdGenerator \<Rightarrow> TargetIdGenerator result" where
  "tig_seek target_id g =
     (let generator = generator_value (tig_generator_id g)
      in hard_assert (target_id AND generator = generator) (Inr (g\<lparr>tig_next_id := target_id\<rparr>)))"

definition make_TargetIdGenerator :: "TargetIdGeneratorId \<Rightarrow> TargetId \<Rightarrow> TargetIdGenerator result" where
  "make_TargetIdGenerator generator_id seed =
     tig_seek seed \<lparr>tig_generator_id = generator_id, tig_next_id = 0\<rparr>"

definition tig_NextId :: "TargetIdGenerator \<Rightarrow> TargetId \<times> TargetIdGenerator" where
  "tig_NextId g = (let next_id = tig_next_id g
     in (next_id, g\<lparr>tig_next_id := tig_next_id g + push_bit kReservedBits 1\<rparr>))"

definition TargetCacheTargetIdGenerator :: "TargetId \<Rightarrow> TargetIdGenerator result" where
  "TargetCacheTargetIdGenerator after =
     rmap (\<lambda>g. snd (tig_NextId g)) (make_TargetIdGenerator GenTargetCache after)"

definition SyncEngineTargetIdGenerator :: "TargetIdGenerator result" where
  "SyncEngineTargetIdGenerator = make_TargetIdGenerator GenSyncEngine 1"

text \<open>The ids of a generator, in the order of the calls.\<close>

primrec tig_ids :: "nat \<Rightarrow> TargetIdGenerator \<Rightarrow> TargetId list" where
  "tig_ids 0 g = []"
| "tig_ids (Suc n) g = (case tig_NextId g of (i, g') \<Rightarrow> i # tig_ids n g')"

lemma tig_ids_nth: "i < n \<Longrightarrow> tig_ids n g ! i = tig_next_id g + 2 * of_nat i"
proof (induction n arbitrary: i g)
  case (Suc n)
  then show ?case by (cases i) (simp_all add: tig_NextId_def kReservedBits_def algebra_simps)
qed simp

lemma length_tig_ids [simp]: "length (tig_ids n g) = n"
  by (induction n arbitrary: g) (simp_all add: tig_NextId_def)

lemma word_even_sum: "even (a + 2 * b :: 32 word) = even a"
  by simp

lemma tig_ids_parity: "x \<in> set (tig_ids n g) \<Longrightarrow> even x = even (tig_next_id g)"
  by (metis in_set_conv_nth length_tig_ids tig_ids_nth word_even_sum)

lemma and_one_eq_odd: "(x AND 1 = (1 :: 32 word)) = odd x"
  by (simp add: and_one_eq odd_iff_mod_2_eq_one)

lemma seek_SyncEngine: "(make_TargetIdGenerator GenSyncEngine s = Inr g) \<Longrightarrow> odd (tig_next_id g)"
  by (auto simp: make_TargetIdGenerator_def tig_seek_def and_one_eq_odd)

lemma seek_TargetCache: "make_TargetIdGenerator GenTargetCache s = Inr \<lparr>tig_generator_id = GenTargetCache, tig_next_id = s\<rparr>"
  by (simp add: make_TargetIdGenerator_def tig_seek_def)

text \<open>From an even start the two generators never meet.\<close>

lemma generators_disjoint:
  assumes "TargetCacheTargetIdGenerator after = Inr g" "SyncEngineTargetIdGenerator = Inr h" "even after"
  shows "set (tig_ids n g) \<inter> set (tig_ids m h) = {}"
proof -
  have "even (tig_next_id g)"
    using assms(1,3) by (auto simp: TargetCacheTargetIdGenerator_def seek_TargetCache tig_NextId_def kReservedBits_def)
  moreover have "odd (tig_next_id h)"
    using assms(2) seek_SyncEngine by (simp add: SyncEngineTargetIdGenerator_def)
  ultimately show ?thesis using tig_ids_parity by blast
qed

text \<open>Until the counter overflows the ids are strictly increasing, hence distinct.\<close>

lemma tig_ids_increasing:
  assumes "sint (tig_next_id g) + 2 * int n < 2 ^ 31" "i < j" "j < n"
  shows "sint (tig_ids n g ! i) < sint (tig_ids n g ! j)"
proof -
  have s: "sint (tig_ids n g ! k) = sint (tig_next_id g) + 2 * int k" if "k < n" for k
  proof -
    have b: "- (2 ^ 31) \<le> sint (tig_next_id g)" using sint_greater_eq[of "tig_next_id g"] by simp
    have w: "tig_ids n g ! k = word_of_int (sint (tig_next_id g) + 2 * int k)"
      using tig_ids_nth[OF that, of g] by simp
    show ?thesis unfolding w
      using that assms(1) b by (subst sint_sbintrunc') (simp add: signed_take_bit_int_eq_self)
  qed
  show ?thesis using s[of i] s[of j] assms(2,3) by simp
qed

end
