(* ===== verification/TargetData.thy ===== *)
theory TargetData
  imports Queries TargetIds
begin

text \<open>
  What the client keeps and learns about a target: \<open>local/target_data.cc\<close>, and the
  \<open>TargetChange\<close> of \<open>remote/remote_event.h\<close> that a watch snapshot carries for it.
\<close>

datatype QueryPurpose = QPListen | QPExistenceFilterMismatch | QPLimboResolution

type_synonym ListenSequenceNumber = int64
type_synonym ByteString = string

record TargetData =
  td_target :: Target
  td_target_id :: TargetId
  td_sequence_number :: ListenSequenceNumber
  td_purpose :: QueryPurpose
  td_snapshot_version :: SnapshotVersion
  td_last_limbo_free_snapshot_version :: SnapshotVersion
  td_resume_token :: ByteString

definition make_TargetData :: "Target \<Rightarrow> TargetId \<Rightarrow> ListenSequenceNumber \<Rightarrow> QueryPurpose \<Rightarrow> TargetData" where
  "make_TargetData t i n p = \<lparr>td_target = t, td_target_id = i, td_sequence_number = n, td_purpose = p,
     td_snapshot_version = SnapshotVersion_None, td_last_limbo_free_snapshot_version = SnapshotVersion_None,
     td_resume_token = []\<rparr>"

definition WithSequenceNumber :: "ListenSequenceNumber \<Rightarrow> TargetData \<Rightarrow> TargetData" where
  "WithSequenceNumber n td = td\<lparr>td_sequence_number := n\<rparr>"

definition WithResumeToken :: "ByteString \<Rightarrow> SnapshotVersion \<Rightarrow> TargetData \<Rightarrow> TargetData" where
  "WithResumeToken tok v td = td\<lparr>td_snapshot_version := v, td_resume_token := tok\<rparr>"

definition WithLastLimboFreeSnapshotVersion :: "SnapshotVersion \<Rightarrow> TargetData \<Rightarrow> TargetData" where
  "WithLastLimboFreeSnapshotVersion v td = td\<lparr>td_last_limbo_free_snapshot_version := v\<rparr>"

record TargetChange =
  tc_resume_token :: ByteString
  tc_current :: bool
  tc_added_documents :: DocumentKeySet
  tc_modified_documents :: DocumentKeySet
  tc_removed_documents :: DocumentKeySet

definition CreateSynthesizedTargetChange :: "bool \<Rightarrow> TargetChange" where
  "CreateSynthesizedTargetChange current = \<lparr>tc_resume_token = [], tc_current = current,
     tc_added_documents = [], tc_modified_documents = [], tc_removed_documents = []\<rparr>"

end
