(* ===== verification/OnlineState.thy ===== *)
theory OnlineState
  imports Prelude
begin

text \<open>
  \<open>remote/online_state_tracker.cc\<close>: the state machine that decides when the client counts as
  offline.  The delayed operation of the timer is a flag, its firing an event of the worker
  queue; the calls of the handler and of the log are the outputs of a step.
\<close>

datatype OnlineState = OS_Unknown | OS_Online | OS_Offline

datatype tracker_output = Broadcast OnlineState | LogWarn | LogDebug

record OnlineStateTracker =
  ost_state :: OnlineState
  watch_stream_failures :: int
  online_state_timer :: bool
  should_warn_client_is_offline :: bool

definition kMaxWatchStreamFailures :: int where
  "kMaxWatchStreamFailures = 1"

definition tracker_init :: OnlineStateTracker where
  "tracker_init = \<lparr>ost_state = OS_Unknown, watch_stream_failures = 0, online_state_timer = False,
     should_warn_client_is_offline = True\<rparr>"

type_synonym tracker_step = "OnlineStateTracker \<times> tracker_output list"

definition SetAndBroadcast :: "OnlineState \<Rightarrow> OnlineStateTracker \<Rightarrow> tracker_step" where
  "SetAndBroadcast new_state t =
     (if new_state \<noteq> ost_state t then (t\<lparr>ost_state := new_state\<rparr>, [Broadcast new_state]) else (t, []))"

definition LogClientOfflineWarningIfNecessary :: "OnlineStateTracker \<Rightarrow> tracker_step" where
  "LogClientOfflineWarningIfNecessary t =
     (if should_warn_client_is_offline t then (t\<lparr>should_warn_client_is_offline := False\<rparr>, [LogWarn])
      else (t, [LogDebug]))"

definition ClearOnlineStateTimer :: "OnlineStateTracker \<Rightarrow> OnlineStateTracker" where
  "ClearOnlineStateTimer t = t\<lparr>online_state_timer := False\<rparr>"

definition HandleWatchStreamStart :: "OnlineStateTracker \<Rightarrow> tracker_step result" where
  "HandleWatchStreamStart t =
     (if watch_stream_failures t \<noteq> 0 then Inr (t, [])
      else (let (t, out) = SetAndBroadcast OS_Unknown t
            in hard_assert (\<not> online_state_timer t) (Inr (t\<lparr>online_state_timer := True\<rparr>, out))))"

definition OnlineStateTimeout :: "OnlineStateTracker \<Rightarrow> tracker_step result" where
  "OnlineStateTimeout t =
     (let t = t\<lparr>online_state_timer := False\<rparr>
      in hard_assert (ost_state t = OS_Unknown)
           (let (t, out1) = LogClientOfflineWarningIfNecessary t;
                (t, out2) = SetAndBroadcast OS_Offline t
            in Inr (t, out1 @ out2)))"

definition HandleWatchStreamFailure :: "OnlineStateTracker \<Rightarrow> tracker_step result" where
  "HandleWatchStreamFailure t =
     (if ost_state t = OS_Online
      then (let (t, out) = SetAndBroadcast OS_Unknown t
            in hard_assert (watch_stream_failures t = 0)
                 (hard_assert (\<not> online_state_timer t) (Inr (t, out))))
      else (let t = t\<lparr>watch_stream_failures := watch_stream_failures t + 1\<rparr>
            in if kMaxWatchStreamFailures \<le> watch_stream_failures t
               then (let t = ClearOnlineStateTimer t;
                         (t, out1) = LogClientOfflineWarningIfNecessary t;
                         (t, out2) = SetAndBroadcast OS_Offline t
                     in Inr (t, out1 @ out2))
               else Inr (t, [])))"

definition UpdateState :: "OnlineState \<Rightarrow> OnlineStateTracker \<Rightarrow> tracker_step result" where
  "UpdateState new_state t =
     (let t = ClearOnlineStateTimer t;
          t = t\<lparr>watch_stream_failures := 0\<rparr>;
          t = (if new_state = OS_Online then t\<lparr>should_warn_client_is_offline := False\<rparr> else t)
      in Inr (SetAndBroadcast new_state t))"

section \<open>The state machine\<close>

datatype tracker_event = EStart | EFailure | EUpdate OnlineState | ETimeout

definition tracker_handle :: "tracker_event \<Rightarrow> OnlineStateTracker \<Rightarrow> tracker_step result" where
  "tracker_handle ev t = (case ev of
      EStart \<Rightarrow> HandleWatchStreamStart t
    | EFailure \<Rightarrow> HandleWatchStreamFailure t
    | EUpdate s \<Rightarrow> UpdateState s t
    | ETimeout \<Rightarrow> OnlineStateTimeout t)"

text \<open>The queue runs the timeout only while the timer is pending; the watch stream is started
  only when no start is pending.\<close>

definition tracker_enabled :: "tracker_event \<Rightarrow> OnlineStateTracker \<Rightarrow> bool" where
  "tracker_enabled ev t = (case ev of ETimeout \<Rightarrow> online_state_timer t | EStart \<Rightarrow> \<not> online_state_timer t | _ \<Rightarrow> True)"

inductive tracker_run :: "OnlineStateTracker \<Rightarrow> tracker_output list \<Rightarrow> bool" where
  run_init: "tracker_run tracker_init []"
| run_step: "tracker_run t out \<Longrightarrow> tracker_enabled ev t \<Longrightarrow> tracker_handle ev t = Inr (t', out') \<Longrightarrow>
     tracker_run t' (out @ out')"

inductive_cases tracker_runE: "tracker_run t out"

definition tracker_inv :: "OnlineStateTracker \<Rightarrow> bool" where
  "tracker_inv t = (0 \<le> watch_stream_failures t \<and>
     (online_state_timer t \<longrightarrow> ost_state t = OS_Unknown \<and> watch_stream_failures t = 0) \<and>
     (ost_state t = OS_Online \<longrightarrow> watch_stream_failures t = 0 \<and> \<not> should_warn_client_is_offline t) \<and>
     (watch_stream_failures t \<noteq> 0 \<longrightarrow> ost_state t = OS_Offline \<and> \<not> should_warn_client_is_offline t))"

lemmas tracker_defs = tracker_handle_def tracker_enabled_def HandleWatchStreamStart_def OnlineStateTimeout_def
  HandleWatchStreamFailure_def UpdateState_def SetAndBroadcast_def LogClientOfflineWarningIfNecessary_def
  ClearOnlineStateTimer_def kMaxWatchStreamFailures_def Let_def hard_assert_def

lemma tracker_step_inv:
  assumes "tracker_inv t" "tracker_enabled ev t"
  shows "\<exists>t' out. tracker_handle ev t = Inr (t', out) \<and> tracker_inv t'"
  using assms by (cases ev) (auto simp: tracker_defs tracker_inv_def)

lemma tracker_run_inv: "tracker_run t out \<Longrightarrow> tracker_inv t"
proof (induction rule: tracker_run.induct)
  case run_init
  show ?case by (simp add: tracker_inv_def tracker_init_def)
next
  case (run_step t out ev t' out')
  then show ?case using tracker_step_inv[of t ev] by auto
qed

text \<open>The handler hears of every change, and only of changes.\<close>

fun broadcasts :: "tracker_output list \<Rightarrow> OnlineState list" where
  "broadcasts [] = []"
| "broadcasts (Broadcast s # out) = s # broadcasts out"
| "broadcasts (_ # out) = broadcasts out"

lemma broadcasts_append [simp]: "broadcasts (a @ b) = broadcasts a @ broadcasts b"
  by (induction a rule: broadcasts.induct) simp_all

lemma tracker_step_broadcasts:
  "tracker_handle ev t = Inr (t', out) \<Longrightarrow>
   broadcasts out = (if ost_state t' = ost_state t then [] else [ost_state t'])"
  by (cases ev) (auto simp: tracker_defs split: if_splits)

definition warnings :: "tracker_output list \<Rightarrow> nat" where
  "warnings out = length (filter (\<lambda>x. x = LogWarn) out)"

lemma tracker_step_warnings:
  "tracker_handle ev t = Inr (t', out) \<Longrightarrow>
   warnings out \<le> (if should_warn_client_is_offline t then 1 else 0) \<and>
   (0 < warnings out \<longrightarrow> \<not> should_warn_client_is_offline t') \<and>
   (should_warn_client_is_offline t' \<longrightarrow> should_warn_client_is_offline t)"
  by (cases ev) (auto simp: tracker_defs warnings_def split: if_splits)

lemma tracker_run_warnings:
  "tracker_run t out \<Longrightarrow> warnings out \<le> 1 \<and> (0 < warnings out \<longrightarrow> \<not> should_warn_client_is_offline t)"
proof (induction rule: tracker_run.induct)
  case (run_step t out ev t' out')
  have "warnings (out @ out') = warnings out + warnings out'" by (simp add: warnings_def)
  then show ?case using run_step.IH tracker_step_warnings[OF run_step.hyps(3)] by (auto split: if_splits)
qed (simp add: warnings_def)

lemma tracker_run_broadcasts:
  "tracker_run t out \<Longrightarrow>
   last (OS_Unknown # broadcasts out) = ost_state t \<and> distinct_adj (OS_Unknown # broadcasts out)"
proof (induction rule: tracker_run.induct)
  case (run_step t out ev t' out')
  have b: "broadcasts out' = (if ost_state t' = ost_state t then [] else [ost_state t'])"
    by (rule tracker_step_broadcasts[OF run_step.hyps(3)])
  show ?case
  proof (cases "ost_state t' = ost_state t")
    case True
    then show ?thesis using b run_step.IH by simp
  next
    case False
    have "distinct_adj ((OS_Unknown # broadcasts out) @ [ost_state t'])"
      using run_step.IH False by (subst distinct_adj_append_iff) auto
    then show ?thesis using b False by simp
  qed
qed (simp add: tracker_init_def)

end
