(* ===== verification/Views.thy ===== *)
theory Views
  imports DocumentSets TargetData OnlineState
begin

text \<open>
  \<open>core/view_snapshot.cc\<close> and \<open>core/view.cc\<close>: the results of one query as the client sees them.
  A view computes the effect of changed documents on its result set (with the limits of the query),
  tracks which results the backend has confirmed, which are in limbo, and turns the difference into
  a snapshot.  The comparator of the view is \<open>query_cmp\<close> of its query, with which the code's
  comparator agrees on every document that matches.
\<close>

section \<open>Changes\<close>

datatype ChangeType = CRemoved | CAdded | CModified | CMetadata

record DocumentViewChange =
  dvc_document :: MaybeDocument
  dvc_type :: ChangeType

type_synonym DocumentViewChangeSet = "(DocumentKey \<times> DocumentViewChange) list"

definition AddChange :: "DocumentViewChange \<Rightarrow> DocumentViewChangeSet \<Rightarrow> DocumentViewChangeSet result" where
  "AddChange change cs =
     (let key = doc_key (dvc_document change)
      in case dm_get key cs of
           None \<Rightarrow> Inr (dm_insert key change cs)
         | Some old \<Rightarrow>
             (let old_type = dvc_type old; new_type = dvc_type change;
                  keep = (\<lambda>d t. Inr (dm_insert key \<lparr>dvc_document = d, dvc_type = t\<rparr> cs))
              in if new_type \<noteq> CAdded \<and> old_type = CMetadata then Inr (dm_insert key change cs)
                 else if new_type = CMetadata \<and> old_type \<noteq> CRemoved then keep (dvc_document change) old_type
                 else if new_type = CModified \<and> old_type = CModified then keep (dvc_document change) CModified
                 else if new_type = CModified \<and> old_type = CAdded then keep (dvc_document change) CAdded
                 else if new_type = CRemoved \<and> old_type = CAdded then Inr (dm_erase key cs)
                 else if new_type = CRemoved \<and> old_type = CModified then keep (dvc_document old) CRemoved
                 else if new_type = CAdded \<and> old_type = CRemoved then keep (dvc_document change) CModified
                 else Inl HardFail))"

definition GetChanges :: "DocumentViewChangeSet \<Rightarrow> DocumentViewChange list" where
  "GetChanges cs = map snd cs"

datatype SyncState = SSNone | SSLocal | SSSynced

record ViewSnapshot =
  vs_query :: Query
  vs_documents :: DocumentSet
  vs_old_documents :: DocumentSet
  vs_document_changes :: "DocumentViewChange list"
  vs_mutated_keys :: DocumentKeySet
  vs_from_cache :: bool
  vs_sync_state_changed :: bool
  vs_excludes_metadata_changes :: bool

definition FromInitialDocuments ::
  "Query \<Rightarrow> DocumentSet \<Rightarrow> DocumentKeySet \<Rightarrow> bool \<Rightarrow> bool \<Rightarrow> ViewSnapshot" where
  "FromInitialDocuments q documents mutated from_cache excludes =
     \<lparr>vs_query = q, vs_documents = documents, vs_old_documents = ds_new,
      vs_document_changes = map (\<lambda>d. \<lparr>dvc_document = d, dvc_type = CAdded\<rparr>) (ds_docs documents),
      vs_mutated_keys = mutated, vs_from_cache = from_cache, vs_sync_state_changed = True,
      vs_excludes_metadata_changes = excludes\<rparr>"

definition vs_has_pending_writes :: "ViewSnapshot \<Rightarrow> bool" where
  "vs_has_pending_writes s = (vs_mutated_keys s \<noteq> [])"

datatype LimboDocumentChange = LimboAdded DocumentKey | LimboRemoved DocumentKey

record ViewDocumentChanges =
  vdc_document_set :: DocumentSet
  vdc_change_set :: DocumentViewChangeSet
  vdc_mutated_keys :: DocumentKeySet
  vdc_needs_refill :: bool

record ViewChange =
  vc_snapshot :: "ViewSnapshot option"
  vc_limbo_changes :: "LimboDocumentChange list"

section \<open>The view\<close>

record View =
  view_query :: Query
  view_document_set :: DocumentSet
  view_synced_documents :: DocumentKeySet
  view_limbo_documents :: DocumentKeySet
  view_mutated_keys :: DocumentKeySet
  view_sync_state :: SyncState
  view_current :: bool

definition make_View :: "Query \<Rightarrow> DocumentKeySet \<Rightarrow> View" where
  "make_View q remote_documents = \<lparr>view_query = q, view_document_set = ds_new,
     view_synced_documents = remote_documents, view_limbo_documents = [], view_mutated_keys = [],
     view_sync_state = SSNone, view_current = False\<rparr>"

definition ShouldWaitForSyncedDocument :: "MaybeDocument \<Rightarrow> MaybeDocument \<Rightarrow> bool" where
  "ShouldWaitForSyncedDocument new_doc old_doc =
     (has_local_mutations old_doc \<and> has_committed_mutations new_doc \<and> \<not> has_local_mutations new_doc)"

text \<open>The new document of an entry, when it is a document that matches the query.\<close>

definition matched_doc :: "Query \<Rightarrow> DocumentKey \<Rightarrow> MaybeDocument \<Rightarrow> MaybeDocument option result" where
  "matched_doc q key maybe_new_doc =
     (if is_document maybe_new_doc
      then hard_assert (key = doc_key maybe_new_doc)
             (rmap (\<lambda>b. if b then Some maybe_new_doc else None) (Query_Matches q maybe_new_doc))
      else Inr None)"

text \<open>The change an entry amounts to, if any, and whether it makes a refill necessary.\<close>

definition document_change ::
  "Query \<Rightarrow> MaybeDocument option \<Rightarrow> MaybeDocument option \<Rightarrow> bool \<Rightarrow> bool \<Rightarrow>
   MaybeDocument option \<Rightarrow> MaybeDocument option \<Rightarrow> (DocumentViewChange \<times> bool) option" where
  "document_change q last_doc_in_limit first_doc_in_limit old_pending new_pending old_doc new_doc =
     (case (old_doc, new_doc) of
        (Some old, Some new) \<Rightarrow>
          (if \<not> ObjectValue_eq (doc_data old) (doc_data new) then
             (if \<not> ShouldWaitForSyncedDocument new old then
                (let outside_limit = (case last_doc_in_limit of None \<Rightarrow> False | Some l \<Rightarrow> query_cmp q new l = Descending);
                     outside_limit_to_last = (case first_doc_in_limit of None \<Rightarrow> False | Some f \<Rightarrow> query_cmp q new f = Ascending)
                 in Some (\<lparr>dvc_document = new, dvc_type = CModified\<rparr>, outside_limit \<or> outside_limit_to_last))
              else None)
           else if old_pending \<noteq> new_pending then Some (\<lparr>dvc_document = new, dvc_type = CMetadata\<rparr>, False)
           else None)
      | (None, Some new) \<Rightarrow> Some (\<lparr>dvc_document = new, dvc_type = CAdded\<rparr>, False)
      | (Some old, None) \<Rightarrow> Some (\<lparr>dvc_document = old, dvc_type = CRemoved\<rparr>,
                              last_doc_in_limit \<noteq> None \<or> first_doc_in_limit \<noteq> None)
      | (None, None) \<Rightarrow> None)"

definition store_change ::
  "Query \<Rightarrow> DocumentKey \<Rightarrow> MaybeDocument option \<Rightarrow> ViewDocumentChanges \<Rightarrow> ViewDocumentChanges" where
  "store_change q key new_doc acc =
     (case new_doc of
        Some d \<Rightarrow> acc\<lparr>vdc_document_set := ds_insert (query_cmp q) new_doc (vdc_document_set acc),
                     vdc_mutated_keys := (if has_local_mutations d then dks_insert key (vdc_mutated_keys acc)
                                          else dks_erase key (vdc_mutated_keys acc))\<rparr>
      | None \<Rightarrow> acc\<lparr>vdc_document_set := ds_erase (query_cmp q) key (vdc_document_set acc),
                   vdc_mutated_keys := dks_erase key (vdc_mutated_keys acc)\<rparr>)"

text \<open>One iteration of the loop over the changed documents.\<close>

definition doc_change_step ::
  "View \<Rightarrow> DocumentSet \<Rightarrow> MaybeDocument option \<Rightarrow> MaybeDocument option \<Rightarrow>
   ViewDocumentChanges \<Rightarrow> DocumentKey \<times> MaybeDocument \<Rightarrow> ViewDocumentChanges result" where
  "doc_change_step v old_document_set last_doc_in_limit first_doc_in_limit acc kv =
     (let key = fst kv; q = view_query v; old_doc = ds_GetDocument key old_document_set
      in rbind (matched_doc q key (snd kv)) (\<lambda>new_doc.
           let old_pending = (old_doc \<noteq> None \<and> dks_contains key (view_mutated_keys v));
               new_pending = (case new_doc of None \<Rightarrow> False
                 | Some d \<Rightarrow> has_local_mutations d \<or> (dks_contains key (view_mutated_keys v) \<and> has_committed_mutations d))
           in case document_change q last_doc_in_limit first_doc_in_limit old_pending new_pending old_doc new_doc of
                None \<Rightarrow> Inr acc
              | Some (change, refill) \<Rightarrow>
                  rmap (\<lambda>cs. store_change q key new_doc
                     (acc\<lparr>vdc_change_set := cs, vdc_needs_refill := vdc_needs_refill acc \<or> refill\<rparr>))
                   (AddChange change (vdc_change_set acc))))"

text \<open>The loop that drops the documents outside the limit, one per iteration.\<close>

primrec drop_outside_limit :: "Query \<Rightarrow> nat \<Rightarrow> ViewDocumentChanges \<Rightarrow> ViewDocumentChanges result" where
  "drop_outside_limit q 0 acc = Inr acc"
| "drop_outside_limit q (Suc n) acc =
     (case (if has_limit_to_first q then ds_GetLastDocument (vdc_document_set acc)
            else ds_GetFirstDocument (vdc_document_set acc)) of
        None \<Rightarrow> Inl Unreachable
      | Some old_doc \<Rightarrow>
          rbind (AddChange \<lparr>dvc_document = old_doc, dvc_type = CRemoved\<rparr> (vdc_change_set acc)) (\<lambda>cs.
            drop_outside_limit q n
              (acc\<lparr>vdc_document_set := ds_erase (query_cmp q) (doc_key old_doc) (vdc_document_set acc),
                  vdc_mutated_keys := dks_erase (doc_key old_doc) (vdc_mutated_keys acc),
                  vdc_change_set := cs\<rparr>)))"

text \<open>\<open>static_cast<size_t>\<close> of a limit: sign extended to the width of a size.\<close>

definition limit_size :: "int32 \<Rightarrow> nat" where
  "limit_size l = unat (scast l :: 64 word)"

definition apply_limit :: "Query \<Rightarrow> ViewDocumentChanges \<Rightarrow> ViewDocumentChanges result" where
  "apply_limit q acc =
     (if q_limit_type q \<noteq> LimitNone \<and> limit_size (q_limit q) < ds_size (vdc_document_set acc)
      then drop_outside_limit q (ds_size (vdc_document_set acc) - limit_size (q_limit q)) acc
      else Inr acc)"

definition start_changes :: "View \<Rightarrow> ViewDocumentChanges option \<Rightarrow> ViewDocumentChanges" where
  "start_changes v previous_changes =
     (case previous_changes of
        Some p \<Rightarrow> p\<lparr>vdc_needs_refill := False\<rparr>
      | None \<Rightarrow> \<lparr>vdc_document_set = view_document_set v, vdc_change_set = [],
                vdc_mutated_keys = view_mutated_keys v, vdc_needs_refill = False\<rparr>)"

definition ComputeDocumentChanges ::
  "View \<Rightarrow> MaybeDocumentMap \<Rightarrow> ViewDocumentChanges option \<Rightarrow> ViewDocumentChanges result" where
  "ComputeDocumentChanges v doc_changes previous_changes =
     (let q = view_query v; start = start_changes v previous_changes;
          old_document_set = vdc_document_set start;
          full = (ds_size old_document_set = limit_size (q_limit q));
          last_doc_in_limit = (if has_limit_to_first q \<and> full then ds_GetLastDocument old_document_set else None);
          first_doc_in_limit = (if has_limit_to_last q \<and> full then ds_GetFirstDocument old_document_set else None)
      in rbind (rfold (doc_change_step v old_document_set last_doc_in_limit first_doc_in_limit) start doc_changes) (\<lambda>acc.
           rbind (apply_limit q acc) (\<lambda>acc.
             hard_assert (\<not> vdc_needs_refill acc \<or> previous_changes = None) (Inr acc))))"

section \<open>Applying changes\<close>

fun change_position :: "ChangeType \<Rightarrow> nat" where
  "change_position CRemoved = 0"
| "change_position CAdded = 1"
| "change_position CModified = 2"
| "change_position CMetadata = 2"

definition change_less :: "Query \<Rightarrow> DocumentViewChange \<Rightarrow> DocumentViewChange \<Rightarrow> bool" where
  "change_less q lhs rhs =
     (let pos1 = change_position (dvc_type lhs); pos2 = change_position (dvc_type rhs)
      in if pos1 \<noteq> pos2 then pos1 < pos2 else query_cmp q (dvc_document lhs) (dvc_document rhs) = Ascending)"

fun insort_less :: "('a \<Rightarrow> 'a \<Rightarrow> bool) \<Rightarrow> 'a \<Rightarrow> 'a list \<Rightarrow> 'a list" where
  "insort_less lt x [] = [x]"
| "insort_less lt x (y # ys) = (if lt y x then y # insort_less lt x ys else x # y # ys)"

definition std_sort :: "('a \<Rightarrow> 'a \<Rightarrow> bool) \<Rightarrow> 'a list \<Rightarrow> 'a list" where
  "std_sort lt xs = foldr (insort_less lt) xs []"

definition ShouldBeInLimbo :: "View \<Rightarrow> DocumentKey \<Rightarrow> bool" where
  "ShouldBeInLimbo v key =
     (if dks_contains key (view_synced_documents v) then False
      else if \<not> ds_ContainsKey key (view_document_set v) then False
      else case ds_GetDocument key (view_document_set v) of
             Some d \<Rightarrow> \<not> has_local_mutations d | None \<Rightarrow> True)"

definition ApplyTargetChange :: "TargetChange option \<Rightarrow> View \<Rightarrow> View result" where
  "ApplyTargetChange maybe_target_change v =
     (case maybe_target_change of
        None \<Rightarrow> Inr v
      | Some tc \<Rightarrow>
          (let synced = foldl (\<lambda>s key. dks_insert key s) (view_synced_documents v) (tc_added_documents tc)
           in hard_assert (list_all (\<lambda>key. dks_contains key synced) (tc_modified_documents tc))
                (Inr (v\<lparr>view_synced_documents := foldl (\<lambda>s key. dks_erase key s) synced (tc_removed_documents tc),
                        view_current := tc_current tc\<rparr>))))"

definition UpdateLimboDocuments :: "View \<Rightarrow> LimboDocumentChange list \<times> View" where
  "UpdateLimboDocuments v =
     (if \<not> view_current v then ([], v)
      else let old = view_limbo_documents v;
               new = foldl (\<lambda>s d. if ShouldBeInLimbo v (doc_key d) then dks_insert (doc_key d) s else s) []
                       (ds_docs (view_document_set v))
           in (map LimboRemoved (filter (\<lambda>key. \<not> dks_contains key new) old) @
               map LimboAdded (filter (\<lambda>key. \<not> dks_contains key old) new),
               v\<lparr>view_limbo_documents := new\<rparr>))"

definition View_ApplyChanges ::
  "ViewDocumentChanges \<Rightarrow> TargetChange option \<Rightarrow> View \<Rightarrow> (ViewChange \<times> View) result" where
  "View_ApplyChanges doc_changes target_change v =
     hard_assert (\<not> vdc_needs_refill doc_changes)
       (let old_documents = view_document_set v;
            v = v\<lparr>view_document_set := vdc_document_set doc_changes, view_mutated_keys := vdc_mutated_keys doc_changes\<rparr>;
            changes = std_sort (change_less (view_query v)) (GetChanges (vdc_change_set doc_changes))
        in rbind (ApplyTargetChange target_change v) (\<lambda>v.
             let (limbo_changes, v) = UpdateLimboDocuments v;
                 synced = (view_limbo_documents v = [] \<and> view_current v);
                 new_sync_state = (if synced then SSSynced else SSLocal);
                 sync_state_changed = (new_sync_state \<noteq> view_sync_state v);
                 v = v\<lparr>view_sync_state := new_sync_state\<rparr>
             in Inr (if changes = [] \<and> \<not> sync_state_changed
                     then (\<lparr>vc_snapshot = None, vc_limbo_changes = limbo_changes\<rparr>, v)
                     else (\<lparr>vc_snapshot = Some \<lparr>vs_query = view_query v,
                              vs_documents = vdc_document_set doc_changes, vs_old_documents = old_documents,
                              vs_document_changes = changes, vs_mutated_keys = vdc_mutated_keys doc_changes,
                              vs_from_cache = (new_sync_state = SSLocal), vs_sync_state_changed = sync_state_changed,
                              vs_excludes_metadata_changes = False\<rparr>,
                            vc_limbo_changes = limbo_changes\<rparr>, v))))"

definition View_ApplyOnlineStateChange :: "OnlineState \<Rightarrow> View \<Rightarrow> (ViewChange \<times> View) result" where
  "View_ApplyOnlineStateChange online_state v =
     (if view_current v \<and> online_state = OS_Offline
      then (let v = v\<lparr>view_current := False\<rparr>
            in View_ApplyChanges \<lparr>vdc_document_set = view_document_set v, vdc_change_set = [],
                 vdc_mutated_keys = view_mutated_keys v, vdc_needs_refill = False\<rparr> None v)
      else Inr (\<lparr>vc_snapshot = None, vc_limbo_changes = []\<rparr>, v))"

end
