(* ===== verification/Statuses.thy ===== *)
theory Statuses
  imports Timestamps
begin

text \<open>
  \<open>util/status.h\<close>, the codes of \<open>firestore_errors.h\<close> and the classes of errors of \<open>remote/datastore.cc\<close>.
  A status is its code and its message.
\<close>

type_synonym Status = "int32 \<times> string"

definition Status_OK :: Status where
  "Status_OK = (0, [])"

definition Status_ok :: "Status \<Rightarrow> bool" where
  "Status_ok s = (fst s = 0)"

definition kErrorCancelled :: int32 where "kErrorCancelled = 1"
definition kErrorInvalidArgument :: int32 where "kErrorInvalidArgument = 3"
definition kErrorResourceExhausted :: int32 where "kErrorResourceExhausted = 8"
definition kErrorFailedPrecondition :: int32 where "kErrorFailedPrecondition = 9"
definition kErrorAborted :: int32 where "kErrorAborted = 10"
definition kErrorUnauthenticated :: int32 where "kErrorUnauthenticated = 16"

text \<open>The codes of the two branches of the switch.\<close>

definition transient_codes :: "int32 list" where
  "transient_codes = [1, 2, 4, 8, 13, 14, 16]"

definition permanent_codes :: "int32 list" where
  "permanent_codes = [3, 5, 6, 7, 9, 10, 11, 12, 15]"

definition IsAbortedError :: "Status \<Rightarrow> bool" where
  "IsAbortedError error = (fst error = kErrorAborted)"

definition IsPermanentError :: "Status \<Rightarrow> bool result" where
  "IsPermanentError error =
     (if fst error = 0 then Inl HardFail
      else if fst error \<in> set transient_codes then Inr False
      else if fst error \<in> set permanent_codes then Inr True
      else Inl HardFail)"

definition IsPermanentWriteError :: "Status \<Rightarrow> bool result" where
  "IsPermanentWriteError error = rmap (\<lambda>permanent. permanent \<and> \<not> IsAbortedError error) (IsPermanentError error)"

lemma Status_OK_ok [simp]: "Status_ok Status_OK"
  by (simp add: Status_ok_def Status_OK_def)

end
