(* ===== verification/QueryListeners.thy ===== *)
theory QueryListeners
  imports Views Statuses
begin

text \<open>
  \<open>core/query_listener.cc\<close> and \<open>core/listen_options.h\<close>: when the snapshots of a view become events of
  the user.  The calls of the user's listener are the outputs of an operation.
\<close>

section \<open>The listener\<close>

record ListenOptions =
  include_query_metadata_changes :: bool
  include_document_metadata_changes :: bool
  wait_for_sync_when_online :: bool

definition DefaultOptions :: ListenOptions where
  "DefaultOptions = \<lparr>include_query_metadata_changes = False, include_document_metadata_changes = False,
     wait_for_sync_when_online = False\<rparr>"

definition FromIncludeMetadataChanges :: "bool \<Rightarrow> ListenOptions" where
  "FromIncludeMetadataChanges include = \<lparr>include_query_metadata_changes = include,
     include_document_metadata_changes = include, wait_for_sync_when_online = False\<rparr>"

datatype user_event = UserSnapshot ViewSnapshot | UserError Status

record QueryListener =
  ql_query :: Query
  ql_options :: ListenOptions
  ql_raised_initial_event :: bool
  ql_online_state :: OnlineState
  ql_snapshot :: "ViewSnapshot option"

definition make_QueryListener :: "Query \<Rightarrow> ListenOptions \<Rightarrow> QueryListener" where
  "make_QueryListener q options = \<lparr>ql_query = q, ql_options = options, ql_raised_initial_event = False,
     ql_online_state = OS_Unknown, ql_snapshot = None\<rparr>"

definition ShouldRaiseInitialEvent :: "ViewSnapshot \<Rightarrow> OnlineState \<Rightarrow> QueryListener \<Rightarrow> bool result" where
  "ShouldRaiseInitialEvent snapshot online_state l =
     hard_assert (\<not> ql_raised_initial_event l)
       (if \<not> vs_from_cache snapshot then Inr True
        else let maybe_online = (online_state \<noteq> OS_Offline)
             in if wait_for_sync_when_online (ql_options l) \<and> maybe_online
                then hard_assert (vs_from_cache snapshot) (Inr False)
                else Inr (ds_size (vs_documents snapshot) \<noteq> 0 \<or> online_state = OS_Offline))"

definition ShouldRaiseEvent :: "ViewSnapshot \<Rightarrow> QueryListener \<Rightarrow> bool" where
  "ShouldRaiseEvent snapshot l =
     (if vs_document_changes snapshot \<noteq> [] then True
      else let has_pending_writes_changed =
             (case ql_snapshot l of None \<Rightarrow> False
              | Some s \<Rightarrow> vs_has_pending_writes s \<noteq> vs_has_pending_writes snapshot)
           in if vs_sync_state_changed snapshot \<or> has_pending_writes_changed
              then include_query_metadata_changes (ql_options l) else False)"

definition RaiseInitialEvent :: "ViewSnapshot \<Rightarrow> QueryListener \<Rightarrow> (user_event list \<times> QueryListener) result" where
  "RaiseInitialEvent snapshot l =
     hard_assert (\<not> ql_raised_initial_event l)
       (Inr ([UserSnapshot (FromInitialDocuments (vs_query snapshot) (vs_documents snapshot)
                (vs_mutated_keys snapshot) (vs_from_cache snapshot) (vs_excludes_metadata_changes snapshot))],
             l\<lparr>ql_raised_initial_event := True\<rparr>))"

definition without_metadata_changes :: "ViewSnapshot \<Rightarrow> ViewSnapshot" where
  "without_metadata_changes s =
     s\<lparr>vs_document_changes := filter (\<lambda>c. dvc_type c \<noteq> CMetadata) (vs_document_changes s),
       vs_excludes_metadata_changes := True\<rparr>"

type_synonym listener_step = "bool \<times> user_event list \<times> QueryListener"

definition ql_OnViewSnapshot :: "ViewSnapshot \<Rightarrow> QueryListener \<Rightarrow> listener_step result" where
  "ql_OnViewSnapshot snapshot l =
     hard_assert (vs_document_changes snapshot \<noteq> [] \<or> vs_sync_state_changed snapshot)
       (let snapshot = (if include_document_metadata_changes (ql_options l) then snapshot
                        else without_metadata_changes snapshot);
            store = (\<lambda>l. l\<lparr>ql_snapshot := Some snapshot\<rparr>)
        in if \<not> ql_raised_initial_event l then
             rbind (ShouldRaiseInitialEvent snapshot (ql_online_state l) l) (\<lambda>raise.
               if raise then rmap (\<lambda>(events, l). (True, events, store l)) (RaiseInitialEvent snapshot l)
               else Inr (False, [], store l))
           else if ShouldRaiseEvent snapshot l then Inr (True, [UserSnapshot snapshot], store l)
           else Inr (False, [], store l))"

definition ql_OnError :: "Status \<Rightarrow> QueryListener \<Rightarrow> user_event list" where
  "ql_OnError e l = [UserError e]"

definition ql_OnOnlineStateChanged :: "OnlineState \<Rightarrow> QueryListener \<Rightarrow> listener_step result" where
  "ql_OnOnlineStateChanged online_state l =
     (let l = l\<lparr>ql_online_state := online_state\<rparr>
      in case ql_snapshot l of
           None \<Rightarrow> Inr (False, [], l)
         | Some s \<Rightarrow>
             (if \<not> ql_raised_initial_event l then
                rbind (ShouldRaiseInitialEvent s online_state l) (\<lambda>raise.
                  if raise then rmap (\<lambda>(events, l). (True, events, l)) (RaiseInitialEvent s l)
                  else Inr (False, [], l))
              else Inr (False, [], l)))"

section \<open>Runs\<close>

text \<open>What a listener is told, and a run: the events of the user so far and the listener.\<close>

datatype listener_input = ViewInput ViewSnapshot | OnlineInput OnlineState

fun listener_input_step :: "listener_input \<Rightarrow> QueryListener \<Rightarrow> listener_step result" where
  "listener_input_step (ViewInput s) l = ql_OnViewSnapshot s l"
| "listener_input_step (OnlineInput os) l = ql_OnOnlineStateChanged os l"

definition run_step :: "user_event list \<times> QueryListener \<Rightarrow> listener_input \<Rightarrow> (user_event list \<times> QueryListener) result" where
  "run_step = (\<lambda>(shown, l) i. rmap (\<lambda>(raised, events, l). (shown @ events, l)) (listener_input_step i l))"

text \<open>A snapshot a view raises has a change or a change of the sync state.\<close>

fun input_ok :: "listener_input \<Rightarrow> bool" where
  "input_ok (ViewInput s) = (vs_document_changes s \<noteq> [] \<or> vs_sync_state_changed s)"
| "input_ok (OnlineInput os) = True"

text \<open>The snapshot as the listener keeps it.\<close>

definition kept :: "QueryListener \<Rightarrow> ViewSnapshot \<Rightarrow> ViewSnapshot" where
  "kept l s = (if include_document_metadata_changes (ql_options l) then s else without_metadata_changes s)"

definition initial_ready :: "QueryListener \<Rightarrow> ViewSnapshot \<Rightarrow> OnlineState \<Rightarrow> bool" where
  "initial_ready l s os = (\<not> vs_from_cache s \<or> os = OS_Offline \<or>
     (\<not> wait_for_sync_when_online (ql_options l) \<and> ds_size (vs_documents s) \<noteq> 0))"

definition initial_of :: "ViewSnapshot \<Rightarrow> user_event" where
  "initial_of s = UserSnapshot (FromInitialDocuments (vs_query s) (vs_documents s) (vs_mutated_keys s)
     (vs_from_cache s) (vs_excludes_metadata_changes s))"

definition initial_event :: "user_event \<Rightarrow> bool" where
  "initial_event e = (\<exists>s. e = initial_of s)"

lemma initial_ready_updates [simp]:
  "initial_ready (l\<lparr>ql_snapshot := x\<rparr>) s os = initial_ready l s os"
  "initial_ready (l\<lparr>ql_online_state := os'\<rparr>) s os = initial_ready l s os"
  "initial_ready (l\<lparr>ql_raised_initial_event := b\<rparr>) s os = initial_ready l s os"
  by (simp_all add: initial_ready_def)

lemma initial_event_of [simp]: "initial_event (initial_of s)"
  by (auto simp: initial_event_def)

lemma ShouldRaiseInitialEvent_ready:
  "\<not> ql_raised_initial_event l \<Longrightarrow> ShouldRaiseInitialEvent s os l = Inr (initial_ready l s os)"
  by (auto simp: ShouldRaiseInitialEvent_def initial_ready_def Let_def)

lemma OnViewSnapshot_spec:
  assumes "input_ok (ViewInput s)"
  shows "ql_OnViewSnapshot s l =
    (let k = kept l s; store = l\<lparr>ql_snapshot := Some k\<rparr>
     in if \<not> ql_raised_initial_event l
        then (if initial_ready l k (ql_online_state l)
              then Inr (True, [initial_of k], store\<lparr>ql_raised_initial_event := True\<rparr>) else Inr (False, [], store))
        else if ShouldRaiseEvent k l then Inr (True, [UserSnapshot k], store) else Inr (False, [], store))"
  using assms by (auto simp: ql_OnViewSnapshot_def kept_def Let_def ShouldRaiseInitialEvent_ready RaiseInitialEvent_def initial_of_def)

lemma OnOnlineStateChanged_spec:
  "ql_OnOnlineStateChanged os l =
    (let l' = l\<lparr>ql_online_state := os\<rparr>
     in case ql_snapshot l of
          None \<Rightarrow> Inr (False, [], l')
        | Some s \<Rightarrow> if \<not> ql_raised_initial_event l \<and> initial_ready l s os
                   then Inr (True, [initial_of s], l'\<lparr>ql_raised_initial_event := True\<rparr>) else Inr (False, [], l'))"
  by (auto simp: ql_OnOnlineStateChanged_def Let_def ShouldRaiseInitialEvent_ready RaiseInitialEvent_def initial_of_def
      split: option.split)

section \<open>The invariant of a run\<close>

text \<open>No event before the first, which lists all documents as added; afterwards events as opted.\<close>

definition later_event :: "ListenOptions \<Rightarrow> user_event \<Rightarrow> bool" where
  "later_event options e = (case e of
     UserSnapshot s \<Rightarrow> (vs_document_changes s \<noteq> [] \<or> include_query_metadata_changes options) \<and>
       (include_document_metadata_changes options \<or>
         (vs_excludes_metadata_changes s \<and> (\<forall>c \<in> set (vs_document_changes s). dvc_type c \<noteq> CMetadata)))
   | UserError _ \<Rightarrow> False)"

definition listener_inv :: "user_event list \<Rightarrow> QueryListener \<Rightarrow> bool" where
  "listener_inv shown l =
     ((ql_raised_initial_event l = (shown \<noteq> [])) \<and>
      (shown \<noteq> [] \<longrightarrow> initial_event (hd shown) \<and> (\<forall>e \<in> set (tl shown). later_event (ql_options l) e)) \<and>
      (shown = [] \<longrightarrow> (case ql_snapshot l of None \<Rightarrow> True
                        | Some s \<Rightarrow> \<not> initial_ready l s (ql_online_state l))))"

lemma listener_inv_init: "listener_inv [] (make_QueryListener q options)"
  by (simp add: listener_inv_def make_QueryListener_def)

lemma kept_later: "ShouldRaiseEvent (kept l s) l \<Longrightarrow> later_event (ql_options l) (UserSnapshot (kept l s))"
  by (auto simp: later_event_def ShouldRaiseEvent_def kept_def without_metadata_changes_def Let_def split: if_splits)

lemma listener_inv_step:
  assumes "listener_inv shown l" "input_ok i"
  shows "\<exists>events l'. listener_input_step i l = Inr (events \<noteq> [], events, l') \<and> listener_inv (shown @ events) l' \<and>
    ql_options l' = ql_options l \<and> ql_query l' = ql_query l"
proof (cases i)
  case (ViewInput s)
  let ?k = "kept l s"
  have ok: "input_ok (ViewInput s)" using assms(2) ViewInput by simp
  note spec = OnViewSnapshot_spec[OF ok, of l, unfolded Let_def]
  have r: "ql_raised_initial_event l = (shown \<noteq> [])" using assms(1) by (simp add: listener_inv_def)
  consider "shown = []" "initial_ready l ?k (ql_online_state l)" | "shown = []" "\<not> initial_ready l ?k (ql_online_state l)"
    | "shown \<noteq> []" "ShouldRaiseEvent ?k l" | "shown \<noteq> []" "\<not> ShouldRaiseEvent ?k l" by blast
  then show ?thesis
  proof cases
    case 1
    then show ?thesis using r by (simp add: ViewInput spec listener_inv_def)
  next
    case 2
    then show ?thesis using r by (simp add: ViewInput spec listener_inv_def)
  next
    case 3
    then show ?thesis using r assms(1) kept_later[OF 3(2)] by (auto simp: ViewInput spec listener_inv_def)
  next
    case 4
    then show ?thesis using r assms(1) by (simp add: ViewInput spec listener_inv_def)
  qed
next
  case (OnlineInput os)
  note spec = OnOnlineStateChanged_spec[of os l, unfolded Let_def]
  show ?thesis
  proof (cases "ql_snapshot l")
    case None
    then show ?thesis using assms(1) by (simp add: OnlineInput spec listener_inv_def)
  next
    case (Some s)
    show ?thesis
    proof (cases "\<not> ql_raised_initial_event l \<and> initial_ready l s os")
      case True
      then show ?thesis using Some assms(1) by (simp add: OnlineInput spec listener_inv_def)
    next
      case False
      then have "listener_input_step i l = Inr (False, [], l\<lparr>ql_online_state := os\<rparr>)"
        using Some by (simp add: OnlineInput spec)
      moreover have "listener_inv shown (l\<lparr>ql_online_state := os\<rparr>)"
        using assms(1) False Some by (simp add: listener_inv_def)
      ultimately show ?thesis by simp
    qed
  qed
qed

lemma listener_run:
  assumes "list_all input_ok is" "listener_inv shown l"
  shows "\<exists>shown' l'. rfold run_step (shown, l) is = Inr (shown', l') \<and> listener_inv shown' l' \<and> ql_options l' = ql_options l"
  using assms
proof (induction "is" arbitrary: shown l)
  case (Cons i "is")
  have i: "input_ok i" "list_all input_ok is" using Cons.prems(1) by simp_all
  obtain events l' where s: "listener_input_step i l = Inr (events \<noteq> [], events, l')" "listener_inv (shown @ events) l'"
    "ql_options l' = ql_options l" using listener_inv_step[OF Cons.prems(2) i(1)] by blast
  obtain shown' l'' where r: "rfold run_step (shown @ events, l') is = Inr (shown', l'')" "listener_inv shown' l''"
    "ql_options l'' = ql_options l'" using Cons.IH[OF i(2) s(2)] by blast
  have "run_step (shown, l) i = Inr (shown @ events, l')" by (simp only: run_step_def prod.case s(1) rmap_simps)
  then have "rfold run_step (shown, l) (i # is) = Inr (shown', l'')" by (simp only: rfold.simps sum.case r(1))
  then show ?case using r(2,3) s(3) by metis
qed simp

section \<open>What the user sees\<close>

text \<open>Snapshots of a run follow each other: each starts from the documents of the one before.\<close>

fun chained :: "DocumentSet \<Rightarrow> listener_input list \<Rightarrow> bool" where
  "chained docs [] = True"
| "chained docs (ViewInput s # is) = (vs_old_documents s = docs \<and> chained (vs_documents s) is)"
| "chained docs (OnlineInput os # is) = chained docs is"

fun last_documents :: "DocumentSet \<Rightarrow> listener_input list \<Rightarrow> DocumentSet" where
  "last_documents docs [] = docs"
| "last_documents docs (ViewInput s # is) = last_documents (vs_documents s) is"
| "last_documents docs (OnlineInput os # is) = last_documents docs is"

definition shown_documents :: "user_event list \<Rightarrow> DocumentSet" where
  "shown_documents shown = (case last shown of UserSnapshot s \<Rightarrow> vs_documents s | UserError _ \<Rightarrow> ds_new)"

text \<open>A snapshot none of whose changes the listener passes on leaves the results as they are, up to \<open>R\<close>.\<close>

fun unseen_same :: "ListenOptions \<Rightarrow> (DocumentSet \<Rightarrow> DocumentSet \<Rightarrow> bool) \<Rightarrow> listener_input \<Rightarrow> bool" where
  "unseen_same options R (ViewInput s) =
     ((\<forall>c \<in> set (vs_document_changes s). \<not> include_document_metadata_changes options \<and> dvc_type c = CMetadata) \<longrightarrow>
      R (vs_old_documents s) (vs_documents s))"
| "unseen_same options R (OnlineInput os) = True"

definition shows_current :: "(DocumentSet \<Rightarrow> DocumentSet \<Rightarrow> bool) \<Rightarrow> DocumentSet \<Rightarrow> user_event list \<Rightarrow> QueryListener \<Rightarrow> bool" where
  "shows_current R docs shown l =
     ((case ql_snapshot l of None \<Rightarrow> shown = [] | Some k \<Rightarrow> vs_documents k = docs) \<and>
      (shown \<noteq> [] \<longrightarrow> R (shown_documents shown) docs))"

lemma kept_documents [simp]: "vs_documents (kept l s) = vs_documents s"
  by (simp add: kept_def without_metadata_changes_def)

lemma not_raised_unseen:
  "\<not> ShouldRaiseEvent (kept l s) l \<Longrightarrow>
     c \<in> set (vs_document_changes s) \<Longrightarrow> \<not> include_document_metadata_changes (ql_options l) \<and> dvc_type c = CMetadata"
  by (auto simp: ShouldRaiseEvent_def kept_def without_metadata_changes_def filter_empty_conv split: if_splits)

lemma shown_documents_snoc [simp]:
  "shown_documents (shown @ [UserSnapshot s]) = vs_documents s" "shown_documents (shown @ [initial_of s]) = vs_documents s"
  "shown_documents [initial_of s] = vs_documents s"
  by (simp_all add: shown_documents_def initial_of_def FromInitialDocuments_def)

lemma shows_current_step:
  assumes "shows_current R docs shown l" "listener_inv shown l" "input_ok i" "unseen_same (ql_options l) R i"
    and R: "\<And>d. R d d" "\<And>a b c. R a b \<Longrightarrow> R b c \<Longrightarrow> R a c"
    and "chained docs [i]" "listener_input_step i l = Inr (raised, events, l')"
  shows "shows_current R (last_documents docs [i]) (shown @ events) l'"
proof (cases i)
  case (ViewInput s)
  let ?k = "kept l s"
  have ok: "input_ok (ViewInput s)" using assms(3) ViewInput by simp
  note spec = OnViewSnapshot_spec[OF ok, of l, unfolded Let_def]
  have r: "ql_raised_initial_event l = (shown \<noteq> [])" using assms(2) by (simp add: listener_inv_def)
  have old: "vs_old_documents s = docs" using assms(7) by (simp add: ViewInput)
  consider "shown = []" | "shown \<noteq> []" "ShouldRaiseEvent ?k l" | "shown \<noteq> []" "\<not> ShouldRaiseEvent ?k l" by blast
  then show ?thesis
  proof cases
    case 1
    then show ?thesis using r assms(8) R(1) by (auto simp: ViewInput spec shows_current_def split: if_splits)
  next
    case 2
    then show ?thesis using r assms(8) R(1) by (auto simp: ViewInput spec shows_current_def)
  next
    case 3
    have "R docs (vs_documents s)" using not_raised_unseen[OF 3(2)] assms(4) old by (simp add: ViewInput)
    moreover have "R (shown_documents shown) docs" using assms(1) 3(1) by (simp add: shows_current_def)
    ultimately have "R (shown_documents shown) (vs_documents s)" using R(2) by blast
    then show ?thesis using 3 r assms(8) by (auto simp: ViewInput spec shows_current_def)
  qed
next
  case (OnlineInput os)
  note spec = OnOnlineStateChanged_spec[of os l, unfolded Let_def]
  show ?thesis
  proof (cases "ql_snapshot l")
    case None
    then show ?thesis using assms(1,8) by (auto simp: OnlineInput spec shows_current_def)
  next
    case (Some s)
    show ?thesis
    proof (cases "\<not> ql_raised_initial_event l \<and> initial_ready l s os")
      case True
      then have "events = [initial_of s]" "ql_snapshot l' = Some s" using Some assms(8) by (auto simp: OnlineInput spec)
      then show ?thesis using Some assms(1) R(1) by (simp add: OnlineInput shows_current_def)
    next
      case False
      then have "l' = l\<lparr>ql_online_state := os\<rparr>" "events = []" using Some assms(8) by (auto simp: OnlineInput spec split: if_splits)
      then show ?thesis using assms(1) by (simp add: OnlineInput shows_current_def)
    qed
  qed
qed

lemma shows_current_run:
  assumes "shows_current R docs shown l" "listener_inv shown l" "list_all input_ok is"
    "list_all (unseen_same (ql_options l) R) is" "\<And>d. R d d" "\<And>a b c. R a b \<Longrightarrow> R b c \<Longrightarrow> R a c"
    "chained docs is" "rfold run_step (shown, l) is = Inr (shown', l')"
  shows "shows_current R (last_documents docs is) shown' l'"
  using assms(1-4,7-8)
proof (induction "is" arbitrary: docs shown l)
  case (Cons i "is")
  have i: "input_ok i" "unseen_same (ql_options l) R i" using Cons.prems(3,4) by simp_all
  obtain events l1 where s: "listener_input_step i l = Inr (events \<noteq> [], events, l1)" "listener_inv (shown @ events) l1"
    "ql_options l1 = ql_options l" using listener_inv_step[OF Cons.prems(2) i(1)] by blast
  have "chained docs [i] \<and> chained (last_documents docs [i]) is" using Cons.prems(5) by (cases i) simp_all
  then have c: "chained docs [i]" "chained (last_documents docs [i]) is" by blast+
  have "run_step (shown, l) i = Inr (shown @ events, l1)" by (simp only: run_step_def prod.case s(1) rmap_simps)
  then have r: "rfold run_step (shown @ events, l1) is = Inr (shown', l')"
    using Cons.prems(6) by (simp only: rfold.simps sum.case)
  have "shows_current R (last_documents docs [i]) (shown @ events) l1"
    by (rule shows_current_step[OF Cons.prems(1,2) i assms(5,6) c(1) s(1)])
  then have "shows_current R (last_documents (last_documents docs [i]) is) shown' l'"
    using Cons.IH[OF _ s(2) _ _ c(2) r] Cons.prems(3,4) s(3) by simp
  then show ?case by (cases i) simp_all
qed simp

end
