(* ===== verification/QueryEquality.thy ===== *)
theory QueryEquality
  imports Queries
begin

text \<open>
  The equality operators of \<open>core/filter.cc\<close>, \<open>core/field_filter.cc\<close>, \<open>core/order_by.cc\<close>,
  \<open>core/bound.cc\<close>, \<open>core/target.cc\<close> and \<open>core/query.cc\<close>, by which queries and targets are keys of maps:
  each is an equivalence, and values with other representations (a NaN with other bits, another
  pending server timestamp) count as the same key.
\<close>

section \<open>The operators\<close>

text \<open>\<open>FilterType\<close> as \<open>type()\<close> returns it: the class of not-in filters on the key returns that of in filters.\<close>

definition filter_type :: "Filter \<Rightarrow> FilterType" where
  "filter_type f = (if ff_class f = kKeyFieldNotInFilter then kKeyFieldInFilter else ff_class f)"

definition Filter_eq :: "Filter \<Rightarrow> Filter \<Rightarrow> bool" where
  "Filter_eq lhs rhs =
     (if filter_type lhs \<noteq> filter_type rhs then False
      else ff_op lhs = ff_op rhs \<and> ff_field lhs = ff_field rhs \<and> FieldValue_eq (ff_value lhs) (ff_value rhs))"

definition OrderBy_eq :: "OrderBy \<Rightarrow> OrderBy \<Rightarrow> bool" where
  "OrderBy_eq lhs rhs = (ob_field lhs = ob_field rhs \<and> ob_direction lhs = ob_direction rhs)"

definition Bound_eq :: "Bound \<Rightarrow> Bound \<Rightarrow> bool" where
  "Bound_eq lhs rhs =
     (list_all2 FieldValue_eq (bound_position lhs) (bound_position rhs) \<and> bound_before lhs = bound_before rhs)"

text \<open>\<open>util::Equals\<close> of two pointers.\<close>

definition util_Equals :: "('a \<Rightarrow> 'a \<Rightarrow> bool) \<Rightarrow> 'a option \<Rightarrow> 'a option \<Rightarrow> bool" where
  "util_Equals eq lhs rhs = (case lhs of None \<Rightarrow> rhs = None | Some l \<Rightarrow> (case rhs of None \<Rightarrow> False | Some r \<Rightarrow> eq l r))"

definition Target_eq :: "Target \<Rightarrow> Target \<Rightarrow> bool" where
  "Target_eq lhs rhs =
     (t_path lhs = t_path rhs \<and> util_Equals (=) (t_collection_group lhs) (t_collection_group rhs) \<and>
      list_all2 Filter_eq (t_filters lhs) (t_filters rhs) \<and> list_all2 OrderBy_eq (t_order_bys lhs) (t_order_bys rhs) \<and>
      t_limit lhs = t_limit rhs \<and> util_Equals Bound_eq (t_start_at lhs) (t_start_at rhs) \<and>
      util_Equals Bound_eq (t_end_at lhs) (t_end_at rhs))"

text \<open>
  A query whose target cannot be built (the code aborts) equals none; the operations that look a
  query up build its target first.
\<close>

definition Query_eq :: "Query \<Rightarrow> Query \<Rightarrow> bool" where
  "Query_eq lhs rhs =
     (q_limit_type lhs = q_limit_type rhs \<and>
      (case (ToTarget lhs, ToTarget rhs) of (Inr s, Inr t) \<Rightarrow> Target_eq s t | _ \<Rightarrow> False))"

section \<open>They are equivalences\<close>

lemma list_all2_trans_elem:
  "list_all2 P xs ys \<Longrightarrow> list_all2 P ys zs \<Longrightarrow> (\<And>x y z. x \<in> set xs \<Longrightarrow> P x y \<Longrightarrow> P y z \<Longrightarrow> Q x z) \<Longrightarrow> list_all2 Q xs zs"
proof (induction xs ys arbitrary: zs rule: list_all2_induct)
  case (Cons x xs y ys)
  then show ?case by (cases zs) auto
qed simp

lemma FieldValue_eq_trans: "FieldValue_eq a b \<Longrightarrow> FieldValue_eq b c \<Longrightarrow> FieldValue_eq a c"
proof (induction a arbitrary: b c)
  case (FArray xs)
  then obtain ys zs where e: "b = FArray ys" "c = FArray zs" "list_all2 FieldValue_eq xs ys" "list_all2 FieldValue_eq ys zs"
    by auto
  have "list_all2 FieldValue_eq xs zs" using e(3,4) FArray.IH by (rule list_all2_trans_elem)
  then show ?case using e by simp
next
  case (FObject es)
  let ?P = "\<lambda>p q. fst p = fst q \<and> FieldValue_eq (snd p) (snd q)"
  obtain fs gs where e: "b = FObject fs" "c = FObject gs" "list_all2 ?P es fs" "list_all2 ?P fs gs"
    using FObject.prems by auto
  have "list_all2 ?P es gs"
    using e(3,4)
  proof (rule list_all2_trans_elem)
    fix p q r assume p: "p \<in> set es" "?P p q" "?P q r"
    then show "?P p r" using FObject.IH[OF p(1), of "snd p" "snd q" "snd r"] by (cases p rule: prod.exhaust) auto
  qed
  then show ?case using e by simp
next
  case (FGeoPoint g)
  then obtain h k where e: "b = FGeoPoint h" "c = FGeoPoint k" "GeoPoint_Compare g h = Same" "GeoPoint_Compare h k = Same"
    by auto
  then show ?case using geo_cmp.same_trans[OF e(3,4)] by simp
qed (auto simp: DoubleBitwiseEquals_def)

locale equivalence_test =
  fixes eq :: "'a \<Rightarrow> 'a \<Rightarrow> bool"
  assumes refl: "eq a a" and sym: "eq a b \<Longrightarrow> eq b a" and trans: "eq a b \<Longrightarrow> eq b c \<Longrightarrow> eq a c"
begin

lemma on_lists: "equivalence_test (list_all2 eq)"
proof
  show "list_all2 eq xs xs" for xs by (simp add: list_all2_same refl)
  show "list_all2 eq xs ys \<Longrightarrow> list_all2 eq ys xs" for xs ys by (erule list_all2_flip_elem) (rule sym)
  show "list_all2 eq xs ys \<Longrightarrow> list_all2 eq ys zs \<Longrightarrow> list_all2 eq xs zs" for xs ys zs
    by (erule list_all2_trans_elem, assumption) (rule trans)
qed

lemma on_options: "equivalence_test (util_Equals eq)"
  by unfold_locales (auto simp: util_Equals_def intro: refl sym trans split: option.splits)

lemma same_class: "eq a b \<Longrightarrow> eq a c = eq b c"
  using sym trans by blast

end

interpretation field_value_eq: equivalence_test FieldValue_eq
  by unfold_locales (auto intro: FieldValue_eq_sym FieldValue_eq_trans)

interpretation filter_eq: equivalence_test Filter_eq
  by unfold_locales (auto simp: Filter_eq_def intro: field_value_eq.sym field_value_eq.trans split: if_splits)

interpretation order_by_eq: equivalence_test OrderBy_eq
  by unfold_locales (auto simp: OrderBy_eq_def)

interpretation field_value_lists_eq: equivalence_test "list_all2 FieldValue_eq"
  by (rule field_value_eq.on_lists)

interpretation bound_eq: equivalence_test Bound_eq
  by unfold_locales (auto simp: Bound_eq_def field_value_lists_eq.refl
      intro: field_value_lists_eq.sym field_value_lists_eq.trans)

interpretation filters_eq: equivalence_test "list_all2 Filter_eq"
  by (rule filter_eq.on_lists)

interpretation order_bys_eq: equivalence_test "list_all2 OrderBy_eq"
  by (rule order_by_eq.on_lists)

interpretation bounds_eq: equivalence_test "util_Equals Bound_eq"
  by (rule bound_eq.on_options)

interpretation groups_eq: equivalence_test "util_Equals (=)"
  by (rule equivalence_test.on_options) (unfold_locales; simp)

interpretation target_eq: equivalence_test Target_eq
proof
  show "Target_eq a a" for a
    by (simp add: Target_eq_def filters_eq.refl order_bys_eq.refl bounds_eq.refl groups_eq.refl)
  show "Target_eq a b \<Longrightarrow> Target_eq b a" for a b
    unfolding Target_eq_def by (metis filters_eq.sym order_bys_eq.sym bounds_eq.sym groups_eq.sym)
  show "Target_eq a b \<Longrightarrow> Target_eq b c \<Longrightarrow> Target_eq a c" for a b c
    unfolding Target_eq_def by (metis filters_eq.trans order_bys_eq.trans bounds_eq.trans groups_eq.trans)
qed

text \<open>Among the queries that have a target, the equality of queries is one as well.\<close>

definition has_target :: "Query \<Rightarrow> bool" where
  "has_target q = (\<exists>t. ToTarget q = Inr t)"

lemma query_ok_has_target: "query_ok q \<Longrightarrow> has_target q"
  by (auto simp: query_ok_def has_target_def ToTarget_def)

lemma Query_eq_targets: "Query_eq a b \<Longrightarrow> has_target a \<and> has_target b"
  by (auto simp: Query_eq_def has_target_def split: sum.splits)

lemma Query_eq_refl: "has_target q \<Longrightarrow> Query_eq q q"
  by (auto simp: Query_eq_def has_target_def target_eq.refl)

lemma Query_eq_sym: "Query_eq a b \<Longrightarrow> Query_eq b a"
  by (auto simp: Query_eq_def intro: target_eq.sym split: sum.splits)

lemma Query_eq_trans: "Query_eq a b \<Longrightarrow> Query_eq b c \<Longrightarrow> Query_eq a c"
  by (auto simp: Query_eq_def intro: target_eq.trans split: sum.splits)

end
