(* ===== verification/EventManagers.thy ===== *)
theory EventManagers
  imports QueryListeners QueryEquality
begin

text \<open>
  \<open>core/event_manager.cc\<close>: the fan-out of the snapshots of a query to its listeners.  Listeners are
  shared objects: the manager holds references, and their states are in a heap of its state.  The
  calls to the users' listeners and to the source of the events (\<open>QueryEventSource\<close>, the sync
  engine) are outputs.  \<open>Listen\<close> of the source is a parameter: the target id it returns and the
  snapshots it delivers by \<open>OnViewSnapshots\<close> before it returns.  The unordered map of the queries is
  a list of entries, one per class of equal queries.
\<close>

section \<open>The manager\<close>

type_synonym ListenerRef = nat

record QueryListenersInfo =
  qi_target_id :: int32
  qi_listeners :: "ListenerRef list"
  qi_snapshot :: "ViewSnapshot option"

definition new_QueryListenersInfo :: QueryListenersInfo where
  "new_QueryListenersInfo = \<lparr>qi_target_id = 0, qi_listeners = [], qi_snapshot = None\<rparr>"

record EventManager =
  em_online_state :: OnlineState
  em_queries :: "(Query \<times> QueryListenersInfo) list"
  em_in_sync :: "ListenerRef list"
  em_heap :: "ListenerRef \<Rightarrow> QueryListener"

datatype em_output = ToListener ListenerRef user_event | ToInSync ListenerRef
  | CallListen Query | CallStopListening Query

definition make_EventManager :: "(ListenerRef \<Rightarrow> QueryListener) \<Rightarrow> EventManager" where
  "make_EventManager heap = \<lparr>em_online_state = OS_Unknown, em_queries = [], em_in_sync = [], em_heap = heap\<rparr>"

text \<open>The map of the queries; to look a query up its hash, and so its target, is computed.\<close>

definition qm_find :: "Query \<Rightarrow> (Query \<times> 'i) list \<Rightarrow> 'i option" where
  "qm_find q m = map_option snd (find (\<lambda>e. Query_eq (fst e) q) m)"

definition qm_update :: "Query \<Rightarrow> ('i \<Rightarrow> 'i) \<Rightarrow> (Query \<times> 'i) list \<Rightarrow> (Query \<times> 'i) list" where
  "qm_update q f m = map (\<lambda>e. if Query_eq (fst e) q then (fst e, f (snd e)) else e) m"

definition qm_erase :: "Query \<Rightarrow> (Query \<times> 'i) list \<Rightarrow> (Query \<times> 'i) list" where
  "qm_erase q m = filter (\<lambda>e. \<not> Query_eq (fst e) q) m"

definition qm_emplace :: "Query \<Rightarrow> 'i \<Rightarrow> (Query \<times> 'i) list \<Rightarrow> (Query \<times> 'i) list" where
  "qm_emplace q i m = (if qm_find q m = None then m @ [(q, i)] else m)"

definition with_target :: "Query \<Rightarrow> 'a result \<Rightarrow> 'a result" where
  "with_target q k = rbind (ToTarget q) (\<lambda>_. k)"

text \<open>A loop over listeners: whether one raised an event, the outputs and the heap after it.\<close>

fun notify_all :: "(QueryListener \<Rightarrow> listener_step result) \<Rightarrow> ListenerRef list \<Rightarrow> (ListenerRef \<Rightarrow> QueryListener) \<Rightarrow>
    (bool \<times> em_output list \<times> (ListenerRef \<Rightarrow> QueryListener)) result" where
  "notify_all f [] h = Inr (False, [], h)"
| "notify_all f (r # rs) h =
     rbind (f (h r)) (\<lambda>(raised, events, l).
       rmap (\<lambda>(raised', out, h'). (raised \<or> raised', map (ToListener r) events @ out, h'))
         (notify_all f rs (h(r := l))))"

definition RaiseSnapshotsInSyncEvent :: "EventManager \<Rightarrow> em_output list" where
  "RaiseSnapshotsInSyncEvent em = map ToInSync (em_in_sync em)"

definition AddSnapshotsInSyncListener :: "ListenerRef \<Rightarrow> EventManager \<Rightarrow> em_output list \<times> EventManager" where
  "AddSnapshotsInSyncListener r em =
     ([ToInSync r], em\<lparr>em_in_sync := (if r \<in> set (em_in_sync em) then em_in_sync em else em_in_sync em @ [r])\<rparr>)"

definition RemoveSnapshotsInSyncListener :: "ListenerRef \<Rightarrow> EventManager \<Rightarrow> EventManager" where
  "RemoveSnapshotsInSyncListener r em = em\<lparr>em_in_sync := removeAll r (em_in_sync em)\<rparr>"

definition view_snapshot_step ::
  "bool \<times> em_output list \<times> EventManager \<Rightarrow> ViewSnapshot \<Rightarrow> (bool \<times> em_output list \<times> EventManager) result" where
  "view_snapshot_step = (\<lambda>(raised, out, em) s.
     with_target (vs_query s)
       (case qm_find (vs_query s) (em_queries em) of
          None \<Rightarrow> Inr (raised, out, em)
        | Some info \<Rightarrow>
            rmap (\<lambda>(raised', out', h).
              (raised \<or> raised', out @ out',
               em\<lparr>em_heap := h, em_queries := qm_update (vs_query s) (\<lambda>i. i\<lparr>qi_snapshot := Some s\<rparr>) (em_queries em)\<rparr>))
            (notify_all (ql_OnViewSnapshot s) (qi_listeners info) (em_heap em))))"

definition em_OnViewSnapshots :: "ViewSnapshot list \<Rightarrow> EventManager \<Rightarrow> (em_output list \<times> EventManager) result" where
  "em_OnViewSnapshots snapshots em =
     rmap (\<lambda>(raised, out, em). (out @ (if raised then RaiseSnapshotsInSyncEvent em else []), em))
       (rfold view_snapshot_step (False, [], em) snapshots)"

definition AddQueryListener ::
  "(Query \<Rightarrow> int32 \<times> ViewSnapshot list) \<Rightarrow> ListenerRef \<Rightarrow> EventManager \<Rightarrow> (int32 \<times> em_output list \<times> EventManager) result" where
  "AddQueryListener listen r em =
     (let query = ql_query (em_heap em r)
      in with_target query
        (let first_listen = (qm_find query (em_queries em) = None);
             em = em\<lparr>em_queries := qm_update query (\<lambda>i. i\<lparr>qi_listeners := qi_listeners i @ [r]\<rparr>)
                      (qm_emplace query new_QueryListenersInfo (em_queries em))\<rparr>
         in rbind (ql_OnOnlineStateChanged (em_online_state em) (em_heap em r)) (\<lambda>(raised, events, l).
           hard_assert (\<not> raised)
             (let em = em\<lparr>em_heap := (em_heap em)(r := l)\<rparr>
              in rbind
                (case Option.bind (qm_find query (em_queries em)) qi_snapshot of
                   None \<Rightarrow> Inr ([], em)
                 | Some s \<Rightarrow>
                     rmap (\<lambda>(raised, events, l).
                         (map (ToListener r) events @ (if raised then RaiseSnapshotsInSyncEvent em else []),
                          em\<lparr>em_heap := (em_heap em)(r := l)\<rparr>))
                       (ql_OnViewSnapshot s (em_heap em r)))
                (\<lambda>(out, em).
                  if first_listen then
                    (let (target_id, snapshots) = listen query
                     in rmap (\<lambda>(out', em). (target_id, map (ToListener r) events @ out @ CallListen query # out',
                           em\<lparr>em_queries := qm_update query (\<lambda>i. i\<lparr>qi_target_id := target_id\<rparr>) (em_queries em)\<rparr>))
                         (em_OnViewSnapshots snapshots em))
                  else Inr (case qm_find query (em_queries em) of None \<Rightarrow> 0 | Some i \<Rightarrow> qi_target_id i,
                         map (ToListener r) events @ out, em))))))"

definition Erase :: "ListenerRef \<Rightarrow> QueryListenersInfo \<Rightarrow> bool \<times> QueryListenersInfo" where
  "Erase r i = (r \<in> set (qi_listeners i), i\<lparr>qi_listeners := remove1 r (qi_listeners i)\<rparr>)"

definition RemoveQueryListener :: "ListenerRef \<Rightarrow> EventManager \<Rightarrow> (em_output list \<times> EventManager) result" where
  "RemoveQueryListener r em =
     (let query = ql_query (em_heap em r)
      in with_target query
        (case qm_find query (em_queries em) of
           None \<Rightarrow> Inr ([], em)
         | Some info \<Rightarrow>
             (let info' = snd (Erase r info)
              in if qi_listeners info' = []
                 then Inr ([CallStopListening query], em\<lparr>em_queries := qm_erase query (em_queries em)\<rparr>)
                 else Inr ([], em\<lparr>em_queries := qm_update query (\<lambda>_. info') (em_queries em)\<rparr>))))"

definition HandleOnlineStateChange :: "OnlineState \<Rightarrow> EventManager \<Rightarrow> (em_output list \<times> EventManager) result" where
  "HandleOnlineStateChange online_state em =
     (let em = em\<lparr>em_online_state := online_state\<rparr>
      in rmap (\<lambda>(raised, out, h).
           let em = em\<lparr>em_heap := h\<rparr> in (out @ (if raised then RaiseSnapshotsInSyncEvent em else []), em))
         (notify_all (ql_OnOnlineStateChanged online_state)
           (concat (map (\<lambda>e. qi_listeners (snd e)) (em_queries em))) (em_heap em)))"

definition em_OnError :: "Query \<Rightarrow> Status \<Rightarrow> EventManager \<Rightarrow> (em_output list \<times> EventManager) result" where
  "em_OnError query e em =
     with_target query
       (case qm_find query (em_queries em) of
          None \<Rightarrow> Inr ([], em)
        | Some info \<Rightarrow>
            Inr (concat (map (\<lambda>r. map (ToListener r) (ql_OnError e (em_heap em r))) (qi_listeners info)),
                 em\<lparr>em_queries := qm_erase query (em_queries em)\<rparr>))"

section \<open>The map of the queries\<close>

definition qm_ok :: "(Query \<times> 'i) list \<Rightarrow> bool" where
  "qm_ok m = ((\<forall>e \<in> set m. has_target (fst e)) \<and> sorted_wrt (\<lambda>a b. \<not> Query_eq (fst a) (fst b)) m)"

lemma with_target_ok [simp]: "has_target q \<Longrightarrow> with_target q k = k"
  by (auto simp: has_target_def with_target_def)

lemma qm_find_simps [simp]:
  "qm_find q [] = None"
  "qm_find q (e # m) = (if Query_eq (fst e) q then Some (snd e) else qm_find q m)"
  by (simp_all add: qm_find_def)

lemma qm_find_cong: "Query_eq q q' \<Longrightarrow> qm_find q m = qm_find q' m"
  by (induction m) (auto dest: Query_eq_trans Query_eq_sym)

lemma qm_find_mem: "qm_find q m = Some i \<Longrightarrow> \<exists>q'. (q', i) \<in> set m \<and> Query_eq q' q"
  by (induction m) (auto split: if_splits)

lemma qm_mem_find: "qm_ok m \<Longrightarrow> (q, i) \<in> set m \<Longrightarrow> qm_find q m = Some i"
proof (induction m)
  case (Cons e m)
  then show ?case
  proof (cases "(q, i) = e")
    case True
    then show ?thesis using Cons.prems Query_eq_refl[of q] by (auto simp: qm_ok_def)
  next
    case False
    then have "(q, i) \<in> set m" using Cons.prems(2) by simp
    then show ?thesis using Cons by (auto simp: qm_ok_def)
  qed
qed simp

lemma qm_find_update:
  "has_target q \<Longrightarrow> qm_find q' (qm_update q f m) = (if Query_eq q q' then map_option f (qm_find q' m) else qm_find q' m)"
proof (induction m)
  case (Cons e m)
  have "Query_eq (fst e) q' \<Longrightarrow> Query_eq (fst e) q = Query_eq q q'" by (metis Query_eq_trans Query_eq_sym)
  then show ?case using Cons by (auto simp: qm_update_def)
qed (simp add: qm_update_def)

lemma qm_find_erase: "qm_find q' (qm_erase q m) = (if Query_eq q q' then None else qm_find q' m)"
proof (induction m)
  case (Cons e m)
  have "Query_eq (fst e) q' \<Longrightarrow> Query_eq (fst e) q = Query_eq q q'" by (metis Query_eq_trans Query_eq_sym)
  then show ?case using Cons by (auto simp: qm_erase_def)
qed (simp add: qm_erase_def)

lemma qm_find_emplace:
  "qm_find q' (qm_emplace q i m) = (case qm_find q' m of Some j \<Rightarrow> Some j | None \<Rightarrow> if Query_eq q q' then Some i else None)"
proof (cases "qm_find q m")
  case None
  have "qm_find q' (m @ [(q, i)]) = (case qm_find q' m of Some j \<Rightarrow> Some j | None \<Rightarrow> if Query_eq q q' then Some i else None)" for m
    by (induction m) auto
  then show ?thesis using None by (simp add: qm_emplace_def)
next
  case (Some j)
  then show ?thesis using qm_find_cong[of q q' m] by (auto simp: qm_emplace_def split: option.split)
qed

lemma qm_ok_keys:
  "qm_ok m = ((\<forall>q \<in> set (map fst m). has_target q) \<and> sorted_wrt (\<lambda>a b. \<not> Query_eq a b) (map fst m))"
  by (simp add: qm_ok_def sorted_wrt_map)

lemma qm_update_keys [simp]: "map fst (qm_update q f m) = map fst m"
  by (induction m) (auto simp: qm_update_def)

lemma qm_ok_update [simp]: "qm_ok (qm_update q f m) = qm_ok m"
  unfolding qm_ok_keys qm_update_keys ..

lemma qm_ok_erase: "qm_ok m \<Longrightarrow> qm_ok (qm_erase q m)"
  by (auto simp: qm_ok_def qm_erase_def intro: sorted_wrt_filter)

lemma qm_find_None: "qm_find q m = None \<Longrightarrow> e \<in> set m \<Longrightarrow> \<not> Query_eq (fst e) q"
  by (induction m) (auto split: if_splits)

lemma qm_ok_emplace: "has_target q \<Longrightarrow> qm_ok m \<Longrightarrow> qm_ok (qm_emplace q i m)"
  by (auto simp: qm_emplace_def qm_ok_def sorted_wrt_append dest: qm_find_None)

end
