(* ===== verification/EventManagerProofs.thy ===== *)
theory EventManagerProofs
  imports EventManagers
begin

text \<open>
  Correctness of the event manager: its invariant ties every entry to its listeners; no assertion
  fails; the source is told of the first and the last listener of a query; and every snapshot reaches
  exactly the listeners of its query.
\<close>

section \<open>What one listener does\<close>

lemma kept_updates [simp]:
  "kept (l\<lparr>ql_snapshot := x\<rparr>) s = kept l s" "kept (l\<lparr>ql_online_state := os\<rparr>) s = kept l s"
  "kept (l\<lparr>ql_raised_initial_event := b\<rparr>) s = kept l s"
  by (simp_all add: kept_def)

text \<open>A listener of a query, after the snapshot \<open>snap\<close> of the query and at an online state.\<close>

definition listener_fit :: "OnlineState \<Rightarrow> Query \<Rightarrow> ViewSnapshot option \<Rightarrow> QueryListener \<Rightarrow> bool" where
  "listener_fit os q snap l =
     (Query_eq q (ql_query l) \<and> ql_online_state l = os \<and> ql_snapshot l = map_option (kept l) snap \<and>
      (case snap of None \<Rightarrow> \<not> ql_raised_initial_event l
       | Some s \<Rightarrow> ql_raised_initial_event l \<or> \<not> initial_ready l (kept l s) os))"

lemma OnViewSnapshot_fit:
  assumes "input_ok (ViewInput s)" "Query_eq q (ql_query l)" "ql_online_state l = os"
  shows "\<exists>es l'. ql_OnViewSnapshot s l = Inr (es \<noteq> [], es, l') \<and> listener_fit os q (Some s) l' \<and>
    ql_options l' = ql_options l"
proof -
  note spec = OnViewSnapshot_spec[OF assms(1), of l, unfolded Let_def]
  consider "\<not> ql_raised_initial_event l" "initial_ready l (kept l s) os" | "\<not> ql_raised_initial_event l" "\<not> initial_ready l (kept l s) os"
    | "ql_raised_initial_event l" "ShouldRaiseEvent (kept l s) l" | "ql_raised_initial_event l" "\<not> ShouldRaiseEvent (kept l s) l" by blast
  then show ?thesis using assms(2,3) by cases (simp_all add: spec listener_fit_def)
qed

lemma OnOnlineStateChanged_fit:
  assumes "listener_fit os q snap l"
  shows "\<exists>es l'. ql_OnOnlineStateChanged os' l = Inr (es \<noteq> [], es, l') \<and> listener_fit os' q snap l' \<and>
    ql_options l' = ql_options l \<and> (snap = None \<longrightarrow> es = [])"
proof (cases snap)
  case None
  then show ?thesis using assms by (simp add: OnOnlineStateChanged_spec Let_def listener_fit_def)
next
  case (Some s)
  note spec = OnOnlineStateChanged_spec[of os' l, unfolded Let_def]
  show ?thesis
  proof (cases "\<not> ql_raised_initial_event l \<and> initial_ready l (kept l s) os'")
    case True
    then show ?thesis using Some assms by (simp add: spec listener_fit_def)
  next
    case False
    then have "ql_OnOnlineStateChanged os' l = Inr (False, [], l\<lparr>ql_online_state := os'\<rparr>)"
      using Some assms by (simp add: spec listener_fit_def)
    then show ?thesis using Some assms False by (auto simp: listener_fit_def)
  qed
qed

section \<open>A loop over listeners\<close>

lemma notify_all_spec:
  assumes "distinct rs" "\<And>r. r \<in> set rs \<Longrightarrow> \<exists>b es l. f (h r) = Inr (b, es, l)"
  shows "notify_all f rs h = Inr (\<exists>r \<in> set rs. fst (projr (f (h r))),
    concat (map (\<lambda>r. map (ToListener r) (fst (snd (projr (f (h r)))))) rs),
    (\<lambda>r. if r \<in> set rs then snd (snd (projr (f (h r)))) else h r))"
  using assms
proof (induction rs arbitrary: h)
  case (Cons r rs)
  obtain b es l where f: "f (h r) = Inr (b, es, l)" using Cons.prems(2)[of r] by auto
  let ?h = "h(r := l)"
  have same: "?h x = h x" if "x \<in> set rs" for x using that Cons.prems(1) by auto
  have ex: "\<exists>b es l. f (?h x) = Inr (b, es, l)" if "x \<in> set rs" for x
    unfolding same[OF that] using Cons.prems(2)[of x] that by simp
  have d: "distinct rs" using Cons.prems(1) by simp
  have c: "concat (map (\<lambda>r. map (ToListener r) (fst (snd (projr (f (?h r)))))) rs) =
      concat (map (\<lambda>r. map (ToListener r) (fst (snd (projr (f (h r)))))) rs)"
    using same by (intro arg_cong[of _ _ concat] map_cong refl) simp
  have e: "(\<exists>r \<in> set rs. fst (projr (f (?h r)))) = (\<exists>r \<in> set rs. fst (projr (f (h r))))" using same by simp
  have g: "(\<lambda>x. if x \<in> set rs then snd (snd (projr (f (?h x)))) else ?h x) =
      (\<lambda>x. if x \<in> set (r # rs) then snd (snd (projr (f (h x)))) else h x)"
    using same Cons.prems(1) f by (intro ext) auto
  have ih: "notify_all f rs ?h = Inr (\<exists>r \<in> set rs. fst (projr (f (h r))),
      concat (map (\<lambda>r. map (ToListener r) (fst (snd (projr (f (h r)))))) rs),
      (\<lambda>x. if x \<in> set (r # rs) then snd (snd (projr (f (h x)))) else h x))"
    using Cons.IH[of ?h, OF d ex] unfolding c e g .
  show ?case by (simp only: notify_all.simps f rbind_simps prod.case ih rmap_simps) (simp add: f)
qed simp

section \<open>The invariant\<close>

definition info_ok :: "OnlineState \<Rightarrow> (ListenerRef \<Rightarrow> QueryListener) \<Rightarrow> Query \<times> QueryListenersInfo \<Rightarrow> bool" where
  "info_ok os h e = (qi_listeners (snd e) \<noteq> [] \<and> distinct (qi_listeners (snd e)) \<and>
     (\<forall>r \<in> set (qi_listeners (snd e)). listener_fit os (fst e) (qi_snapshot (snd e)) (h r)) \<and>
     (case qi_snapshot (snd e) of None \<Rightarrow> True | Some s \<Rightarrow> input_ok (ViewInput s)))"

definition em_ok :: "EventManager \<Rightarrow> bool" where
  "em_ok em = (qm_ok (em_queries em) \<and> (\<forall>e \<in> set (em_queries em). info_ok (em_online_state em) (em_heap em) e))"

lemma make_EventManager_ok: "em_ok (make_EventManager h)"
  by (simp add: em_ok_def make_EventManager_def qm_ok_def)

text \<open>A listener belongs to one entry, that of its query.\<close>

lemma listener_entry:
  assumes "em_ok em" "e \<in> set (em_queries em)" "r \<in> set (qi_listeners (snd e))"
  shows "qm_find (ql_query (em_heap em r)) (em_queries em) = Some (snd e)"
proof -
  have "Query_eq (fst e) (ql_query (em_heap em r))" "qm_ok (em_queries em)"
    using assms by (auto simp: em_ok_def info_ok_def listener_fit_def)
  then show ?thesis using qm_find_cong qm_mem_find[of "em_queries em" "fst e" "snd e"] assms(2) by (metis prod.collapse)
qed

lemma entries_disjoint:
  assumes "em_ok em" "e \<in> set (em_queries em)" "e' \<in> set (em_queries em)"
    "r \<in> set (qi_listeners (snd e))" "r \<in> set (qi_listeners (snd e'))"
  shows "Query_eq (fst e) (fst e')"
proof -
  have "Query_eq (fst e) (ql_query (em_heap em r))" "Query_eq (fst e') (ql_query (em_heap em r))"
    using assms by (auto simp: em_ok_def info_ok_def listener_fit_def)
  then show ?thesis by (blast intro: Query_eq_sym Query_eq_trans)
qed

definition all_listeners :: "EventManager \<Rightarrow> ListenerRef list" where
  "all_listeners em = concat (map (\<lambda>e. qi_listeners (snd e)) (em_queries em))"

lemma distinct_listeners:
  assumes "em_ok em" shows "distinct (all_listeners em)"
proof -
  have "distinct (concat (map (\<lambda>e. qi_listeners (snd e)) m))"
    if "set m \<subseteq> set (em_queries em)" "sorted_wrt (\<lambda>a b. \<not> Query_eq (fst a) (fst b)) m" for m
    using that
  proof (induction m)
    case (Cons e m)
    have d: "distinct (qi_listeners (snd e))" using Cons.prems(1) assms by (auto simp: em_ok_def info_ok_def)
    have False if "x \<in> set m" "r \<in> set (qi_listeners (snd e))" "r \<in> set (qi_listeners (snd x))" for r x
    proof -
      have "Query_eq (fst e) (ql_query (em_heap em r))" "Query_eq (fst x) (ql_query (em_heap em r))"
        using that Cons.prems(1) assms by (auto simp: em_ok_def info_ok_def listener_fit_def)
      then show False using Cons.prems(2) that(1) by (auto dest: Query_eq_sym Query_eq_trans)
    qed
    then show ?case using Cons d by auto
  qed simp
  then show ?thesis using assms by (simp add: all_listeners_def em_ok_def qm_ok_def)
qed

lemma info_ok_heap:
  "info_ok os h e \<Longrightarrow> (\<And>r. r \<in> set (qi_listeners (snd e)) \<Longrightarrow> h' r = h r) \<Longrightarrow> info_ok os h' e"
  by (auto simp: info_ok_def)

lemma em_ok_update:
  assumes "em_ok em"
    "\<And>e. e \<in> set (em_queries em) \<Longrightarrow> Query_eq (fst e) q \<Longrightarrow> info_ok (em_online_state em) h' (fst e, f (snd e))"
    "\<And>e r. e \<in> set (em_queries em) \<Longrightarrow> \<not> Query_eq (fst e) q \<Longrightarrow> r \<in> set (qi_listeners (snd e)) \<Longrightarrow> h' r = em_heap em r"
  shows "em_ok (em\<lparr>em_heap := h', em_queries := qm_update q f (em_queries em)\<rparr>)"
proof -
  have "info_ok (em_online_state em) h' x" if x: "x \<in> set (qm_update q f (em_queries em))" for x
  proof -
    obtain e where e: "e \<in> set (em_queries em)" "x = (if Query_eq (fst e) q then (fst e, f (snd e)) else e)"
      using x unfolding qm_update_def set_map by (rule imageE) simp
    show ?thesis
    proof (cases "Query_eq (fst e) q")
      case True
      then show ?thesis using assms(2) e by simp
    next
      case False
      have "info_ok (em_online_state em) (em_heap em) e" using assms(1) e(1) by (simp add: em_ok_def)
      then show ?thesis using info_ok_heap assms(3)[OF e(1) False] e(2) False by (metis (full_types))
    qed
  qed
  then show ?thesis using assms(1) by (simp add: em_ok_def)
qed

lemma em_ok_add_entry:
  assumes "em_ok em" "qm_find q (em_queries em) = None" "has_target q" "info_ok (em_online_state em) h' (q, i)"
    "\<And>r. r \<in> set (all_listeners em) \<Longrightarrow> h' r = em_heap em r"
  shows "em_ok (em\<lparr>em_heap := h', em_queries := em_queries em @ [(q, i)]\<rparr>)"
proof -
  have "info_ok (em_online_state em) h' e" if "e \<in> set (em_queries em)" for e
  proof (rule info_ok_heap)
    show "info_ok (em_online_state em) (em_heap em) e" using assms(1) that by (simp add: em_ok_def)
    show "h' r = em_heap em r" if "r \<in> set (qi_listeners (snd e))" for r
    proof (rule assms(5))
      show "r \<in> set (all_listeners em)" using \<open>e \<in> set (em_queries em)\<close> that unfolding all_listeners_def set_concat set_map by blast
    qed
  qed
  moreover have "qm_ok (em_queries em @ [(q, i)])"
    using qm_ok_emplace[OF assms(3), of "em_queries em" i] assms(1,2) by (simp add: qm_emplace_def em_ok_def)
  ultimately show ?thesis using assms(4) by (auto simp: em_ok_def)
qed

section \<open>Snapshots\<close>

definition after_snapshot :: "ViewSnapshot \<Rightarrow> QueryListener \<Rightarrow> QueryListener" where
  "after_snapshot s l = snd (snd (projr (ql_OnViewSnapshot s l)))"

definition events_of_snapshot :: "ViewSnapshot \<Rightarrow> QueryListener \<Rightarrow> user_event list" where
  "events_of_snapshot s l = fst (snd (projr (ql_OnViewSnapshot s l)))"

definition listeners_of :: "Query \<Rightarrow> EventManager \<Rightarrow> ListenerRef list" where
  "listeners_of q em = (case qm_find q (em_queries em) of None \<Rightarrow> [] | Some i \<Rightarrow> qi_listeners i)"

text \<open>The listeners of the query, and no others, see the snapshot.\<close>

definition told_heap :: "ViewSnapshot \<Rightarrow> EventManager \<Rightarrow> ListenerRef \<Rightarrow> QueryListener" where
  "told_heap s em r = (if r \<in> set (listeners_of (vs_query s) em) then after_snapshot s (em_heap em r) else em_heap em r)"

definition told_events :: "ViewSnapshot \<Rightarrow> EventManager \<Rightarrow> em_output list" where
  "told_events s em = concat (map (\<lambda>r. map (ToListener r) (events_of_snapshot s (em_heap em r))) (listeners_of (vs_query s) em))"

definition told :: "ViewSnapshot \<Rightarrow> EventManager \<Rightarrow> EventManager" where
  "told s em = em\<lparr>em_heap := told_heap s em,
     em_queries := qm_update (vs_query s) (\<lambda>i. i\<lparr>qi_snapshot := Some s\<rparr>) (em_queries em)\<rparr>"

lemma qm_update_none: "qm_find q m = None \<Longrightarrow> qm_update q f m = m"
  by (induction m) (auto simp: qm_update_def split: if_splits)

lemma view_snapshot_step_spec:
  assumes "em_ok em" "input_ok (ViewInput s)" "has_target (vs_query s)"
  shows "view_snapshot_step (raised, out, em) s = Inr (raised \<or> told_events s em \<noteq> [], out @ told_events s em, told s em) \<and>
    em_ok (told s em)"
proof (cases "qm_find (vs_query s) (em_queries em)")
  case None
  have "told s em = em" using None by (simp add: told_def told_heap_def[abs_def] listeners_of_def qm_update_none)
  then show ?thesis using None assms by (simp add: view_snapshot_step_def told_events_def listeners_of_def)
next
  case (Some info)
  let ?h = "em_heap em" and ?rs = "qi_listeners info"
  obtain q where q: "(q, info) \<in> set (em_queries em)" "Query_eq q (vs_query s)" using qm_find_mem[OF Some] by blast
  have rs: "listeners_of (vs_query s) em = ?rs" using Some by (simp add: listeners_of_def)
  have ok: "info_ok (em_online_state em) ?h (q, info)" using assms(1) q(1) by (auto simp: em_ok_def)
  have fit: "\<exists>es l'. ql_OnViewSnapshot s (?h r) = Inr (es \<noteq> [], es, l') \<and> listener_fit (em_online_state em) q (Some s) l'"
    if "r \<in> set ?rs" for r
  proof -
    have "listener_fit (em_online_state em) q (qi_snapshot info) (?h r)" using ok that by (simp add: info_ok_def)
    then show ?thesis using OnViewSnapshot_fit[OF assms(2), of q "?h r" "em_online_state em"] by (auto simp: listener_fit_def)
  qed
  have n: "notify_all (ql_OnViewSnapshot s) ?rs ?h = Inr (told_events s em \<noteq> [], told_events s em, told_heap s em)"
  proof -
    have t: "\<exists>b es l. ql_OnViewSnapshot s (?h r) = Inr (b, es, l)" if "r \<in> set ?rs" for r using fit[OF that] by blast
    have "fst (projr (ql_OnViewSnapshot s (?h r))) = (events_of_snapshot s (?h r) \<noteq> [])" if "r \<in> set ?rs" for r
      using fit[OF that] by (auto simp: events_of_snapshot_def)
    then have "(\<exists>r \<in> set ?rs. fst (projr (ql_OnViewSnapshot s (?h r)))) = (told_events s em \<noteq> [])"
      by (auto simp: told_events_def rs)
    moreover have "(\<lambda>r. if r \<in> set ?rs then snd (snd (projr (ql_OnViewSnapshot s (?h r)))) else ?h r) = told_heap s em"
      by (rule ext) (simp add: told_heap_def rs after_snapshot_def)
    moreover have "concat (map (\<lambda>r. map (ToListener r) (fst (snd (projr (ql_OnViewSnapshot s (?h r)))))) ?rs) = told_events s em"
      by (simp add: told_events_def rs events_of_snapshot_def)
    moreover have "distinct ?rs" using ok by (simp add: info_ok_def)
    ultimately show ?thesis using notify_all_spec[of ?rs "ql_OnViewSnapshot s" ?h] t by simp
  qed
  have step: "view_snapshot_step (raised, out, em) s = Inr (raised \<or> told_events s em \<noteq> [], out @ told_events s em, told s em)"
    using Some assms(3) by (simp add: view_snapshot_step_def n told_def)
  have "em_ok (told s em)"
    unfolding told_def
  proof (rule em_ok_update[OF assms(1)])
    fix e assume e: "e \<in> set (em_queries em)" "Query_eq (fst e) (vs_query s)"
    have "snd e = info"
    proof -
      have "qm_find (fst e) (em_queries em) = Some (snd e)" using qm_mem_find[of "em_queries em" "fst e" "snd e"] e(1) assms(1) by (simp add: em_ok_def)
      then show ?thesis using qm_find_cong[OF e(2), of "em_queries em"] Some by simp
    qed
    moreover have "listener_fit (em_online_state em) (fst e) (Some s) (told_heap s em r)" if r: "r \<in> set ?rs" for r
    proof -
      have "listener_fit (em_online_state em) q (Some s) (told_heap s em r)"
        using fit[OF r] r by (auto simp: told_heap_def rs after_snapshot_def)
      moreover have "Query_eq (fst e) q" using e(2) q(2) by (blast intro: Query_eq_sym Query_eq_trans)
      ultimately show ?thesis unfolding listener_fit_def by (blast intro: Query_eq_trans)
    qed
    ultimately show "info_ok (em_online_state em) (told_heap s em) (fst e, (snd e)\<lparr>qi_snapshot := Some s\<rparr>)"
      using ok assms(2) by (simp add: info_ok_def)
  next
    fix e r assume e: "e \<in> set (em_queries em)" "\<not> Query_eq (fst e) (vs_query s)" "r \<in> set (qi_listeners (snd e))"
    have "r \<notin> set ?rs" using entries_disjoint[OF assms(1) e(1) q(1) e(3)] e(2) q(2) by (auto intro: Query_eq_trans)
    then show "told_heap s em r = em_heap em r" by (simp add: told_heap_def rs)
  qed
  then show ?thesis using step by blast
qed

definition snapshots_ok :: "ViewSnapshot list \<Rightarrow> bool" where
  "snapshots_ok ss = (\<forall>s \<in> set ss. input_ok (ViewInput s) \<and> has_target (vs_query s))"

definition same_entries :: "EventManager \<Rightarrow> EventManager \<Rightarrow> bool" where
  "same_entries em em' = (em_online_state em' = em_online_state em \<and> em_in_sync em' = em_in_sync em \<and>
     map fst (em_queries em') = map fst (em_queries em) \<and> (\<forall>q. listeners_of q em' = listeners_of q em))"

lemma listeners_of_update:
  "has_target q \<Longrightarrow> (\<And>i. qi_listeners (f i) = qi_listeners i) \<Longrightarrow>
     listeners_of q' (em\<lparr>em_heap := h, em_queries := qm_update q f (em_queries em)\<rparr>) = listeners_of q' em"
  by (auto simp: listeners_of_def qm_find_update split: option.split)

lemma told_same: "has_target (vs_query s) \<Longrightarrow> same_entries em (told s em)"
  by (simp add: same_entries_def told_def listeners_of_update)

lemma snapshot_steps:
  assumes "em_ok em" "snapshots_ok ss"
  shows "\<exists>raised' out' em'. rfold view_snapshot_step (raised, out, em) ss = Inr (raised', out @ out', em') \<and> em_ok em' \<and>
    same_entries em em' \<and> (\<forall>o' \<in> set out'. \<exists>r e. o' = ToListener r e)"
  using assms
proof (induction ss arbitrary: raised out em)
  case (Cons s ss)
  have s: "input_ok (ViewInput s)" "has_target (vs_query s)" "snapshots_ok ss" using Cons.prems(2) by (auto simp: snapshots_ok_def)
  note step = view_snapshot_step_spec[OF Cons.prems(1) s(1,2)]
  obtain raised' out' em' where r: "rfold view_snapshot_step (raised \<or> told_events s em \<noteq> [], out @ told_events s em, told s em) ss =
      Inr (raised', (out @ told_events s em) @ out', em')" "em_ok em'" "same_entries (told s em) em'"
    "\<forall>o' \<in> set out'. \<exists>r e. o' = ToListener r e"
    using Cons.IH[OF conjunct2[OF step] s(3)] by blast
  have "same_entries em em'" using told_same[OF s(2), of em] r(3) by (simp add: same_entries_def)
  moreover have "\<forall>o' \<in> set (told_events s em @ out'). \<exists>r e. o' = ToListener r e" using r(4) by (auto simp: told_events_def)
  ultimately show ?case using step r(1,2) by (simp only: rfold.simps sum.case append_assoc) blast
qed (auto simp: same_entries_def)

text \<open>The calls of the source among the outputs.\<close>

fun is_call :: "em_output \<Rightarrow> bool" where
  "is_call (CallListen q) = True"
| "is_call (CallStopListening q) = True"
| "is_call _ = False"

lemma em_OnViewSnapshots_ok:
  assumes "em_ok em" "snapshots_ok ss"
  shows "\<exists>out em'. em_OnViewSnapshots ss em = Inr (out, em') \<and> em_ok em' \<and> same_entries em em' \<and> filter is_call out = []"
proof -
  obtain raised' out' em' where r: "rfold view_snapshot_step (False, [], em) ss = Inr (raised', [] @ out', em')" "em_ok em'"
    "same_entries em em'" "\<forall>o' \<in> set out'. \<exists>r e. o' = ToListener r e"
    using snapshot_steps[OF assms, of False "[]"] by blast
  have "filter is_call (out' @ (if raised' then RaiseSnapshotsInSyncEvent em' else [])) = []"
    using r(4) by (auto simp: filter_empty_conv RaiseSnapshotsInSyncEvent_def)
  then show ?thesis using r(1-3) by (simp add: em_OnViewSnapshots_def)
qed

section \<open>Adding and removing listeners\<close>

text \<open>A new listener, as \<open>QueryListener::Create\<close> makes it.\<close>

definition fresh_listener :: "ListenerRef \<Rightarrow> EventManager \<Rightarrow> bool" where
  "fresh_listener r em = (r \<notin> set (all_listeners em) \<and> ql_snapshot (em_heap em r) = None \<and>
     \<not> ql_raised_initial_event (em_heap em r) \<and> has_target (ql_query (em_heap em r)))"

lemma fresh_not_in: "fresh_listener r em \<Longrightarrow> e \<in> set (em_queries em) \<Longrightarrow> r \<notin> set (qi_listeners (snd e))"
  by (auto simp: fresh_listener_def all_listeners_def)

lemma same_entries_queries:
  assumes "same_entries em em'" "em_ok em'" shows "(qm_find q (em_queries em') = None) = (listeners_of q em = [])"
proof -
  have "listeners_of q em = listeners_of q em'" using assms(1) by (simp add: same_entries_def)
  moreover have "qi_listeners i \<noteq> []" if i: "qm_find q (em_queries em') = Some i" for i
  proof -
    obtain q' where "(q', i) \<in> set (em_queries em')" using qm_find_mem[OF i] by blast
    then show ?thesis using assms(2) by (auto simp: em_ok_def info_ok_def)
  qed
  ultimately show ?thesis by (auto simp: listeners_of_def split: option.splits)
qed

lemma AddQueryListener_ok:
  assumes "em_ok em" "fresh_listener r em" "snapshots_ok (snd (listen (ql_query (em_heap em r))))"
  defines "q \<equiv> ql_query (em_heap em r)"
  shows "\<exists>t out em'. AddQueryListener listen r em = Inr (t, out, em') \<and> em_ok em' \<and>
    (\<forall>q'. listeners_of q' em' = (if Query_eq q q' then listeners_of q em @ [r] else listeners_of q' em)) \<and>
    filter is_call out = (if listeners_of q em = [] then [CallListen q] else []) \<and>
    (listeners_of q em = [] \<longrightarrow> t = fst (listen q))"
proof -
  have q: "has_target q" and l0: "ql_snapshot (em_heap em r) = None" "\<not> ql_raised_initial_event (em_heap em r)"
    using assms(2) by (simp_all add: fresh_listener_def q_def)
  define l where "l = (em_heap em r)\<lparr>ql_online_state := em_online_state em\<rparr>"
  have online: "ql_OnOnlineStateChanged (em_online_state em) (em_heap em r) = Inr (False, [], l)"
    using l0 by (simp add: OnOnlineStateChanged_spec Let_def l_def)
  have lq: "ql_query l = q" "ql_online_state l = em_online_state em" "ql_snapshot l = None" "\<not> ql_raised_initial_event l"
    using l0 by (simp_all add: l_def q_def)
  show ?thesis
  proof (cases "qm_find q (em_queries em)")
    case None
    let ?i = "new_QueryListenersInfo\<lparr>qi_listeners := [r]\<rparr>"
    define em1 where "em1 = em\<lparr>em_heap := (em_heap em)(r := l), em_queries := em_queries em @ [(q, ?i)]\<rparr>"
    have e1: "em_ok em1"
      unfolding em1_def
    proof (rule em_ok_add_entry[OF assms(1) None q])
      show "info_ok (em_online_state em) ((em_heap em)(r := l)) (q, ?i)"
        using lq q by (simp add: info_ok_def new_QueryListenersInfo_def listener_fit_def Query_eq_refl)
      show "((em_heap em)(r := l)) x = em_heap em x" if "x \<in> set (all_listeners em)" for x
        using that assms(2) by (auto simp: fresh_listener_def)
    qed
    have l1: "listeners_of q' em1 = (if Query_eq q q' then [r] else listeners_of q' em)" for q'
      using None qm_find_cong[of q q' "em_queries em"] qm_find_emplace[of q' q ?i "em_queries em"]
      by (simp add: listeners_of_def em1_def qm_emplace_def split: option.split)
    obtain t ss where ls: "listen q = (t, ss)" by (cases "listen q")
    obtain out em2 where v: "em_OnViewSnapshots ss em1 = Inr (out, em2)" "em_ok em2" "same_entries em1 em2" "filter is_call out = []"
      using em_OnViewSnapshots_ok[OF e1, of ss] assms(3) ls by (auto simp: q_def)
    let ?f = "\<lambda>i. i\<lparr>qi_target_id := t\<rparr>"
    let ?em3 = "em2\<lparr>em_queries := qm_update q ?f (em_queries em2)\<rparr>"
    have e3: "em_ok (em2\<lparr>em_heap := em_heap em2, em_queries := qm_update q ?f (em_queries em2)\<rparr>)"
      using v(2) by (intro em_ok_update) (auto simp: em_ok_def info_ok_def)
    have l3: "listeners_of q' ?em3 = (if Query_eq q q' then [r] else listeners_of q' em)" for q'
      using listeners_of_update[OF q, of ?f q' em2 "em_heap em2"] v(3) l1[of q'] by (simp add: same_entries_def)
    have up: "qm_update q (\<lambda>i. i\<lparr>qi_listeners := qi_listeners i @ [r]\<rparr>) (qm_emplace q new_QueryListenersInfo (em_queries em)) =
        em_queries em @ [(q, ?i)]"
      using None q qm_update_none[OF None] Query_eq_refl[OF q]
      by (simp add: qm_emplace_def qm_update_def new_QueryListenersInfo_def)
    have find: "qm_find q (em_queries em @ [(q, ?i)]) = Some ?i"
      using None q qm_find_emplace[of q q ?i "em_queries em"] by (simp add: qm_emplace_def Query_eq_refl)
    have em1_alt: "em1 = em\<lparr>em_queries := em_queries em @ [(q, ?i)], em_heap := (em_heap em)(r := l)\<rparr>"
      by (cases em) (simp add: em1_def)
    have snap: "qi_snapshot new_QueryListenersInfo = None" by (simp add: new_QueryListenersInfo_def)
    have "AddQueryListener listen r em = Inr (t, CallListen q # out, ?em3)"
      using q None v(1)
      by (simp add: AddQueryListener_def Let_def q_def[symmetric] online up find snap ls em1_alt[symmetric])
    moreover have "listeners_of q em = []" using None by (simp add: listeners_of_def)
    ultimately show ?thesis using e3 l3 v(4) ls by simp
  next
    case (Some info)
    let ?add = "\<lambda>i. i\<lparr>qi_listeners := qi_listeners i @ [r]\<rparr>"
    obtain q0 where q0: "(q0, info) \<in> set (em_queries em)" "Query_eq q0 q" using qm_find_mem[OF Some] by blast
    have iok: "info_ok (em_online_state em) (em_heap em) (q0, info)" using assms(1) q0(1) by (auto simp: em_ok_def)
    have rs: "listeners_of q em = qi_listeners info" "qi_listeners info \<noteq> []" "r \<notin> set (qi_listeners info)"
      using Some iok fresh_not_in[OF assms(2) q0(1)] by (simp_all add: listeners_of_def info_ok_def)
    have emp: "qm_emplace q new_QueryListenersInfo (em_queries em) = em_queries em" using Some by (simp add: qm_emplace_def)
    have find: "qm_find q (qm_update q ?add (em_queries em)) = Some (?add info)"
      using Some q by (simp add: qm_find_update Query_eq_refl)
    let ?em = "\<lambda>l'. em\<lparr>em_heap := (em_heap em)(r := l'), em_queries := qm_update q ?add (em_queries em)\<rparr>"
    have ok: "em_ok (?em l')" if fit: "listener_fit (em_online_state em) q (qi_snapshot info) l'" for l'
    proof (rule em_ok_update[OF assms(1)])
      fix e assume e: "e \<in> set (em_queries em)" "Query_eq (fst e) q"
      have "qm_find (fst e) (em_queries em) = Some (snd e)"
        using qm_mem_find[of "em_queries em" "fst e" "snd e"] e(1) assms(1) by (simp add: em_ok_def)
      then have i: "snd e = info" using qm_find_cong[OF e(2), of "em_queries em"] Some by simp
      have "listener_fit (em_online_state em) (fst e) (qi_snapshot info) l'"
        using fit e(2) unfolding listener_fit_def by (blast intro: Query_eq_trans)
      moreover have "info_ok (em_online_state em) (em_heap em) e" using assms(1) e(1) by (simp add: em_ok_def)
      ultimately show "info_ok (em_online_state em) ((em_heap em)(r := l')) (fst e, ?add (snd e))"
        using rs(3) i by (auto simp: info_ok_def)
    next
      fix e r' assume e: "e \<in> set (em_queries em)" "r' \<in> set (qi_listeners (snd e))"
      then have "r' \<noteq> r" using fresh_not_in[OF assms(2) e(1)] by blast
      then show "((em_heap em)(r := l')) r' = em_heap em r'" by simp
    qed
    have ls: "listeners_of q' (?em l') = (if Query_eq q q' then listeners_of q em @ [r] else listeners_of q' em)" for q' l'
    proof -
      have "Query_eq q q' \<Longrightarrow> qm_find q' (em_queries em) = Some info" using Some qm_find_cong[of q q' "em_queries em"] by simp
      then show ?thesis using q Some by (auto simp: listeners_of_def qm_find_update)
    qed
    show ?thesis
    proof (cases "qi_snapshot info")
      case None
      have "listener_fit (em_online_state em) q (qi_snapshot info) l" using lq q None by (simp add: listener_fit_def Query_eq_refl)
      moreover have "AddQueryListener listen r em = Inr (qi_target_id info, [], ?em l)"
        using q Some None by (simp add: AddQueryListener_def Let_def q_def[symmetric] online emp find)
      ultimately show ?thesis using ok ls rs(1,2) by simp
    next
      case (Some s)
      have s: "input_ok (ViewInput s)" using iok Some by (simp add: info_ok_def)
      obtain es l' where v: "ql_OnViewSnapshot s l = Inr (es \<noteq> [], es, l')" "listener_fit (em_online_state em) q (Some s) l'"
        using OnViewSnapshot_fit[OF s, of q l "em_online_state em"] lq q by (auto simp: Query_eq_refl)
      let ?sync = "if es \<noteq> [] then map ToInSync (em_in_sync em) else []"
      have "AddQueryListener listen r em = Inr (qi_target_id info, map (ToListener r) es @ ?sync, ?em l')"
        using q \<open>qm_find q (em_queries em) = Some info\<close> Some
        by (simp add: AddQueryListener_def Let_def q_def[symmetric] online emp find v(1) RaiseSnapshotsInSyncEvent_def)
      moreover have "filter is_call (map (ToListener r) es @ ?sync) = []" by (auto simp: filter_empty_conv)
      ultimately show ?thesis using ok[of l'] v(2) Some ls rs(1,2) by simp
    qed
  qed
qed

lemma RemoveQueryListener_ok:
  assumes "em_ok em" "has_target (ql_query (em_heap em r))"
  defines "q \<equiv> ql_query (em_heap em r)"
  shows "\<exists>em'. RemoveQueryListener r em = Inr (if listeners_of q em = [r] then [CallStopListening q] else [], em') \<and> em_ok em' \<and>
    (\<forall>q'. listeners_of q' em' = (if Query_eq q q' then remove1 r (listeners_of q em) else listeners_of q' em))"
proof (cases "qm_find q (em_queries em)")
  case None
  then have "\<forall>q'. Query_eq q q' \<longrightarrow> listeners_of q' em = []" using qm_find_cong by (metis listeners_of_def option.case(1))
  then show ?thesis using None assms(1,2)
    by (auto simp: RemoveQueryListener_def Let_def q_def[symmetric] listeners_of_def)
next
  case (Some info)
  let ?rs = "qi_listeners info" and ?h = "em_heap em"
  obtain q0 where q0: "(q0, info) \<in> set (em_queries em)" "Query_eq q0 q" using qm_find_mem[OF Some] by blast
  have ok: "info_ok (em_online_state em) ?h (q0, info)" using assms(1) q0(1) by (auto simp: em_ok_def)
  have rs: "listeners_of q em = ?rs" "?rs \<noteq> []" using Some ok by (simp_all add: listeners_of_def info_ok_def)
  have ht: "has_target q" using assms(2) by (simp add: q_def)
  have empty: "(remove1 r ?rs = []) = (?rs = [r])" using rs(2) by (cases ?rs) auto
  show ?thesis
  proof (cases "?rs = [r]")
    case True
    let ?em = "em\<lparr>em_queries := qm_erase q (em_queries em)\<rparr>"
    have "em_ok ?em" using assms(1) by (auto simp: em_ok_def qm_ok_erase) (simp add: qm_erase_def)
    moreover have "listeners_of q' ?em = (if Query_eq q q' then remove1 r ?rs else listeners_of q' em)" for q'
      using True by (simp add: listeners_of_def qm_find_erase)
    ultimately show ?thesis using Some ht True rs
      by (simp add: RemoveQueryListener_def Let_def q_def[symmetric] Erase_def)
  next
    case False
    let ?info = "info\<lparr>qi_listeners := remove1 r ?rs\<rparr>"
    let ?em = "em\<lparr>em_queries := qm_update q (\<lambda>_. ?info) (em_queries em)\<rparr>"
    have ne: "remove1 r ?rs \<noteq> []" using empty False by simp
    have "em_ok (em\<lparr>em_heap := ?h, em_queries := qm_update q (\<lambda>_. ?info) (em_queries em)\<rparr>)"
    proof (rule em_ok_update[OF assms(1)])
      fix e assume e: "e \<in> set (em_queries em)" "Query_eq (fst e) q"
      have "qm_find (fst e) (em_queries em) = Some (snd e)"
        using qm_mem_find[of "em_queries em" "fst e" "snd e"] e(1) assms(1) by (simp add: em_ok_def)
      then have "snd e = info" using qm_find_cong[OF e(2), of "em_queries em"] Some by simp
      then have "info_ok (em_online_state em) ?h (fst e, info)" using assms(1) e(1) by (cases e) (auto simp: em_ok_def)
      then show "info_ok (em_online_state em) ?h (fst e, ?info)" using ne by (auto simp: info_ok_def dest: in_set_remove1[THEN iffD1, rotated] notin_set_remove1 set_remove1_subset[THEN subsetD])
    qed simp
    then have "em_ok ?em" by simp
    moreover have "listeners_of q' ?em = (if Query_eq q q' then remove1 r ?rs else listeners_of q' em)" for q'
    proof -
      have "Query_eq q q' \<Longrightarrow> qm_find q' (em_queries em) = Some info" using Some qm_find_cong[of q q' "em_queries em"] by simp
      then show ?thesis using ht by (auto simp: listeners_of_def qm_find_update)
    qed
    ultimately show ?thesis using Some ht False rs ne
      by (simp add: RemoveQueryListener_def Let_def q_def[symmetric] Erase_def)
  qed
qed

section \<open>Online state and errors\<close>

lemma HandleOnlineStateChange_ok:
  assumes "em_ok em"
  shows "\<exists>out em'. HandleOnlineStateChange os em = Inr (out, em') \<and> em_ok em' \<and> em_online_state em' = os \<and>
    em_queries em' = em_queries em \<and> filter is_call out = []"
proof -
  let ?h = "em_heap em" and ?rs = "all_listeners em"
  let ?f = "ql_OnOnlineStateChanged os"
  have fit: "\<exists>es l'. ?f (?h r) = Inr (es \<noteq> [], es, l') \<and> listener_fit os (fst e) (qi_snapshot (snd e)) l'"
    if "e \<in> set (em_queries em)" "r \<in> set (qi_listeners (snd e))" for e r
  proof -
    have "listener_fit (em_online_state em) (fst e) (qi_snapshot (snd e)) (?h r)"
      using assms that by (auto simp: em_ok_def info_ok_def)
    then show ?thesis using OnOnlineStateChanged_fit by blast
  qed
  let ?h' = "\<lambda>r. if r \<in> set ?rs then snd (snd (projr (?f (?h r)))) else ?h r"
  let ?out = "concat (map (\<lambda>r. map (ToListener r) (fst (snd (projr (?f (?h r)))))) ?rs)"
  have n: "notify_all ?f ?rs ?h = Inr (\<exists>r \<in> set ?rs. fst (projr (?f (?h r))), ?out, ?h')"
    using distinct_listeners[OF assms] fit by (intro notify_all_spec) (auto simp: all_listeners_def, metis)
  let ?em = "em\<lparr>em_online_state := os, em_heap := ?h'\<rparr>"
  let ?sync = "if \<exists>r \<in> set ?rs. fst (projr (?f (?h r))) then RaiseSnapshotsInSyncEvent ?em else []"
  have r: "HandleOnlineStateChange os em = Inr (?out @ ?sync, ?em)"
    using n by (simp add: HandleOnlineStateChange_def Let_def all_listeners_def)
  have "info_ok os ?h' e" if e: "e \<in> set (em_queries em)" for e
  proof -
    have "listener_fit os (fst e) (qi_snapshot (snd e)) (?h' r)" if r: "r \<in> set (qi_listeners (snd e))" for r
    proof -
      have "r \<in> set ?rs" using e r unfolding all_listeners_def set_concat set_map by blast
      then show ?thesis using fit[OF e r] by auto
    qed
    moreover have "info_ok (em_online_state em) ?h e" using assms e by (simp add: em_ok_def)
    ultimately show ?thesis unfolding info_ok_def by blast
  qed
  then have "em_ok ?em" using assms by (simp add: em_ok_def)
  moreover have "filter is_call (?out @ ?sync) = []" by (auto simp: filter_empty_conv RaiseSnapshotsInSyncEvent_def)
  ultimately show ?thesis using r by simp
qed

lemma em_OnError_ok:
  assumes "em_ok em" "has_target q"
  shows "\<exists>em'. em_OnError q err em = Inr (map (\<lambda>r. ToListener r (UserError err)) (listeners_of q em), em') \<and> em_ok em' \<and>
    (\<forall>q'. listeners_of q' em' = (if Query_eq q q' then [] else listeners_of q' em))"
proof (cases "qm_find q (em_queries em)")
  case None
  then have "Query_eq q q' \<Longrightarrow> listeners_of q' em = []" for q'
    using qm_find_cong[of q q' "em_queries em"] by (simp add: listeners_of_def)
  then show ?thesis using None assms by (auto simp: em_OnError_def listeners_of_def)
next
  case (Some info)
  let ?em = "em\<lparr>em_queries := qm_erase q (em_queries em)\<rparr>"
  have "em_ok ?em" using assms(1) by (auto simp: em_ok_def qm_ok_erase) (simp add: qm_erase_def)
  moreover have "listeners_of q' ?em = (if Query_eq q q' then [] else listeners_of q' em)" for q'
    by (simp add: listeners_of_def qm_find_erase)
  moreover have "concat (map (\<lambda>r. map (ToListener r) (ql_OnError err (em_heap em r))) rs) = map (\<lambda>r. ToListener r (UserError err)) rs" for rs
    by (induction rs) (simp_all add: ql_OnError_def)
  ultimately show ?thesis using Some assms(2) by (simp add: em_OnError_def listeners_of_def)
qed

end
