(* ===== verification/OrderedCode.thy ===== *)
theory OrderedCode
  imports Prelude "HOL-Library.Word"
begin

text \<open>
  \<open>util/ordered_code.cc\<close> and \<open>util/bits.h\<close>: order-preserving encodings of strings and numbers, the
  basis of the keys of the LevelDB tables.  Strings are lists of bytes; a writer appends to its
  destination; a reader returns the rest of its source with the value, or \<open>None\<close> when it returns
  false.  The platform is little endian (the branch of \<open>ABSL_IS_LITTLE_ENDIAN\<close>).
\<close>

unbundle bit_operations_syntax

type_synonym byte = "8 word"
type_synonym bytes = "8 word list"

section \<open>Bits and bytes\<close>

text \<open>\<open>Bits::Log2Floor64\<close>: 63 xor the count of leading zeros, -1 for 0.\<close>

definition Log2Floor64 :: "64 word \<Rightarrow> int" where
  "Log2Floor64 n = (if n = 0 then -1 else 63 - int (length (takeWhile (\<lambda>i. \<not> bit n i) (rev [0..<64]))))"

definition Log2FloorNonZero :: "32 word \<Rightarrow> int" where
  "Log2FloorNonZero n = 31 - int (length (takeWhile (\<lambda>i. \<not> bit n i) (rev [0..<32])))"

definition Log2Floor :: "32 word \<Rightarrow> int" where
  "Log2Floor n = (if n = 0 then -1 else Log2FloorNonZero n)"

definition Log2FloorNonZero64 :: "64 word \<Rightarrow> int" where
  "Log2FloorNonZero64 n = 63 - int (length (takeWhile (\<lambda>i. \<not> bit n i) (rev [0..<64])))"

text \<open>The portable variants: one step of the loop on the value and the logarithm so far.\<close>

definition log_step :: "32 word \<times> nat \<Rightarrow> nat \<Rightarrow> 32 word \<times> nat" where
  "log_step = (\<lambda>(v, log) i. let shift = 2 ^ i; x = drop_bit shift v in if x \<noteq> 0 then (x, log + shift) else (v, log))"

definition Log2Floor_Portable :: "32 word \<Rightarrow> int result" where
  "Log2Floor_Portable n =
     (if n = 0 then Inr (-1)
      else let (v, log) = foldl log_step (n, 0) [4, 3, 2, 1, 0] in hard_assert (v = 1) (Inr (int log)))"

definition Log2FloorNonZero_Portable :: "32 word \<Rightarrow> int" where
  "Log2FloorNonZero_Portable n = Log2Floor n"

definition Log2Floor64_Portable :: "64 word \<Rightarrow> int" where
  "Log2Floor64_Portable n =
     (let top_bits = ucast (drop_bit 32 n) :: 32 word
      in if top_bits = 0 then Log2Floor (ucast n) else 32 + Log2FloorNonZero top_bits)"

definition Log2FloorNonZero64_Portable :: "64 word \<Rightarrow> int" where
  "Log2FloorNonZero64_Portable n =
     (let top_bits = ucast (drop_bit 32 n) :: 32 word
      in if top_bits = 0 then Log2FloorNonZero (ucast n) else 32 + Log2FloorNonZero top_bits)"

text \<open>\<open>UNALIGNED_LOAD64\<close> and \<open>UNALIGNED_LOAD32\<close> of bytes in memory order.\<close>

definition bytes_value :: "bytes \<Rightarrow> nat" where
  "bytes_value bs = foldr (\<lambda>b v. unat b + 256 * v) bs 0"

definition load_le :: "bytes \<Rightarrow> 'w::len word" where
  "load_le bs = word_of_nat (bytes_value bs)"

text \<open>The bytes that \<open>ghtonll\<close> followed by a store leaves in memory: most significant first.\<close>

definition be_bytes :: "nat \<Rightarrow> 64 word \<Rightarrow> bytes" where
  "be_bytes n v = map (\<lambda>i. ucast (drop_bit (8 * i) v)) (rev [0..<n])"

section \<open>Special bytes\<close>

definition IsSpecialByte :: "byte \<Rightarrow> bool" where
  "IsSpecialByte c = (c + 1 < 2)"

definition special_test64 :: "64 word \<Rightarrow> bool" where
  "special_test64 v =
     (((v - 0x0101010101010101) AND NOT (v + 0x0101010101010101) AND 0x8080808080808080) \<noteq> 0)"

definition special_test32 :: "32 word \<Rightarrow> bool" where
  "special_test32 v = (((v - 0x01010101) AND NOT (v + 0x01010101) AND 0x80808080) \<noteq> 0)"

definition AdvanceIfNoSpecialBytes :: "32 word \<Rightarrow> bytes \<Rightarrow> nat result" where
  "AdvanceIfNoSpecialBytes v_32 p =
     hard_assert (load_le (take 4 p) = v_32)
       (if special_test32 v_32
        then hard_assert (IsSpecialByte (p ! 0) \<or> IsSpecialByte (p ! 1) \<or> IsSpecialByte (p ! 2) \<or> IsSpecialByte (p ! 3)) (Inr 0)
        else hard_assert (\<not> IsSpecialByte (p ! 0)) (hard_assert (\<not> IsSpecialByte (p ! 1))
          (hard_assert (\<not> IsSpecialByte (p ! 2)) (hard_assert (\<not> IsSpecialByte (p ! 3)) (Inr 4)))))"

text \<open>The bytes between start and limit; the result is the offset of the returned pointer.\<close>

function SkipToNextSpecialByte :: "bytes \<Rightarrow> nat result" where
  "SkipToNextSpecialByte p =
     (if 8 \<le> length p then
        (let v = load_le (take 8 p) :: 64 word
         in if \<not> special_test64 v then rmap (\<lambda>n. 8 + n) (SkipToNextSpecialByte (drop 8 p))
            else rbind (AdvanceIfNoSpecialBytes (ucast v) p) (\<lambda>n.
                   let q = drop n p
                   in if IsSpecialByte (q ! 0) then Inr n
                      else if IsSpecialByte (q ! 1) then Inr (n + 1)
                      else if IsSpecialByte (q ! 2) then Inr (n + 2)
                      else hard_assert (IsSpecialByte (q ! 3)) (Inr (n + 3))))
      else rbind (if 4 \<le> length p then AdvanceIfNoSpecialBytes (load_le (take 4 p)) p else Inr 0) (\<lambda>n.
             Inr (n + length (takeWhile (\<lambda>c. \<not> IsSpecialByte c) (drop n p)))))"
  by auto
termination by (relation "measure length") auto

section \<open>Strings\<close>

definition kEscape1 :: byte where "kEscape1 = 0"
definition kNullCharacter :: byte where "kNullCharacter = 0xff"
definition kSeparator :: byte where "kSeparator = 1"
definition kEscape2 :: byte where "kEscape2 = 0xff"
definition kInfinity :: byte where "kInfinity = 0xff"
definition kFFCharacter :: byte where "kFFCharacter = 0"

lemmas ordered_code_chars = kEscape1_def kNullCharacter_def kSeparator_def kEscape2_def kInfinity_def kFFCharacter_def

text \<open>The loop, at \<open>copy_start\<close>: the destination so far and the bytes left.\<close>

function encode_loop :: "bytes \<Rightarrow> bytes \<Rightarrow> bytes result" where
  "encode_loop dest s =
     (case SkipToNextSpecialByte s of
        Inl e \<Rightarrow> Inl e
      | Inr n \<Rightarrow>
          (if length s \<le> n then Inr (dest @ s)
           else let c = s ! n
                in if \<not> IsSpecialByte c then Inl HardFail
                   else if c = kEscape1 then encode_loop (dest @ take n s @ [kEscape1, kNullCharacter]) (drop (Suc n) s)
                   else if c \<noteq> kEscape2 then Inl HardFail
                   else encode_loop (dest @ take n s @ [kEscape2, kFFCharacter]) (drop (Suc n) s)))"
  by auto
termination by (relation "measure (\<lambda>(dest, s). length s)") auto

definition EncodeStringFragment :: "bytes \<Rightarrow> bytes \<Rightarrow> bytes result" where
  "EncodeStringFragment dest s = encode_loop dest s"

definition WriteString :: "bytes \<Rightarrow> bytes \<Rightarrow> bytes result" where
  "WriteString dest s = rmap (\<lambda>d. d @ [kEscape1, kSeparator]) (EncodeStringFragment dest s)"

definition WriteInfinity :: "bytes \<Rightarrow> bytes" where
  "WriteInfinity dest = dest @ [kEscape2, kInfinity]"

definition WriteTrailingString :: "bytes \<Rightarrow> bytes \<Rightarrow> bytes" where
  "WriteTrailingString dest str = dest @ str"

text \<open>The loop of the reader, at \<open>copy_start\<close>; the scan stops before the last byte.\<close>

function read_loop :: "bytes \<Rightarrow> bytes \<Rightarrow> (bytes \<times> bytes) option result" where
  "read_loop src res =
     (case SkipToNextSpecialByte (butlast src) of
        Inl e \<Rightarrow> Inl e
      | Inr n \<Rightarrow>
          (if length src - 1 \<le> n then Inr None
           else let c = src ! n; res' = res @ take n src; nxt = src ! Suc n; rest = drop (Suc (Suc n)) src
                in if \<not> IsSpecialByte c then Inl HardFail
                   else if c = kEscape1 then
                     (if nxt = kSeparator then Inr (Some (rest, res'))
                      else if nxt = kNullCharacter then read_loop rest (res' @ [0])
                      else Inr None)
                   else if c \<noteq> kEscape2 then Inl HardFail
                   else (if nxt = kFFCharacter then read_loop rest (res' @ [0xff]) else Inr None)))"
  by auto
termination by (relation "measure (\<lambda>(src, res). length src)") auto

definition ReadString :: "bytes \<Rightarrow> (bytes \<times> bytes) option result" where
  "ReadString src = read_loop src []"

definition ReadInfinity :: "bytes \<Rightarrow> bytes option" where
  "ReadInfinity src =
     (if 2 \<le> length src \<and> src ! 0 = kEscape2 \<and> src ! 1 = kInfinity then Some (drop 2 src) else None)"

definition ReadTrailingString :: "bytes \<Rightarrow> bytes \<times> bytes" where
  "ReadTrailingString src = ([], src)"

text \<open>The string, or \<open>None\<close> for infinity.\<close>

definition ReadStringOrInfinity :: "bytes \<Rightarrow> (bytes \<times> bytes option) option result" where
  "ReadStringOrInfinity src =
     (case ReadInfinity src of
        Some rest \<Rightarrow> Inr (Some (rest, None))
      | None \<Rightarrow> rmap (map_option (\<lambda>(rest, s). (rest, Some s))) (ReadString src))"

section \<open>Unsigned numbers\<close>

definition OrderedNumLength :: "64 word \<Rightarrow> nat" where
  "OrderedNumLength val = nat (Log2Floor64 val + 1 + 7) div 8"

definition AppendUpto9 :: "bytes \<Rightarrow> bytes \<Rightarrow> nat \<Rightarrow> bytes" where
  "AppendUpto9 dst src n = (let d = dst @ take 9 src; extra = 9 - n in take (length d - extra) d)"

definition WriteNumIncreasing :: "bytes \<Rightarrow> 64 word \<Rightarrow> bytes" where
  "WriteNumIncreasing dest val =
     (let buf = [0] @ be_bytes 8 val @ replicate 8 0; len = OrderedNumLength val; start = 9 - len - 1;
          buf = buf[start := word_of_nat len]
      in AppendUpto9 dest (drop start buf) (len + 1))"

definition ReadNumIncreasing :: "bytes \<Rightarrow> (bytes \<times> 64 word) option result" where
  "ReadNumIncreasing src =
     (if src = [] then Inr None
      else let len = scast (src ! 0) :: 64 word
           in hard_assert (len = 0 \<or> length src = 1 \<or> src ! 1 \<noteq> 0)
                (if length src < unat (len + 1) \<or> 8 < len then Inr None
                 else Inr (Some (drop (unat len + 1) src,
                   foldl (\<lambda>tmp b. push_bit 8 tmp OR ucast b) 0 (take (unat len) (drop 1 src))))))"

section \<open>Signed numbers\<close>

definition kMaxSigned64Length :: nat where "kMaxSigned64Length = 10"

definition kLengthToHeaderBits :: "(byte \<times> byte) list" where
  "kLengthToHeaderBits =
     [(0, 0), (0x80, 0), (0xc0, 0), (0xe0, 0), (0xf0, 0), (0xf8, 0), (0xfc, 0), (0xfe, 0),
      (0xff, 0), (0xff, 0x80), (0xff, 0xc0)]"

definition kLengthToMask :: "64 word list" where
  "kLengthToMask =
     [0, 0x80, 0xc000, 0xe00000, 0xf0000000, 0xf800000000, 0xfc0000000000, 0xfe000000000000,
      0xff00000000000000, 0x8000000000000000, 0]"

definition kBitsToLength :: "nat list" where
  "kBitsToLength =
     [1, 1, 1, 1, 1, 1, 1, 2, 2, 2, 2, 2, 2, 2, 3, 3, 3, 3, 3, 3, 3, 4,
      4, 4, 4, 4, 4, 4, 5, 5, 5, 5, 5, 5, 5, 6, 6, 6, 6, 6, 6, 6, 7, 7,
      7, 7, 7, 7, 7, 8, 8, 8, 8, 8, 8, 8, 9, 9, 9, 9, 9, 9, 9, 10]"

definition SignedEncodingLength :: "64 word \<Rightarrow> nat" where
  "SignedEncodingLength n = kBitsToLength ! nat (Log2Floor64 (if sint n < 0 then NOT n else n) + 1)"

definition SignedEncodingLengthPositive :: "64 word \<Rightarrow> nat" where
  "SignedEncodingLengthPositive n = kBitsToLength ! nat (Log2FloorNonZero64 n + 1)"

definition WriteSignedNumIncreasing :: "bytes \<Rightarrow> 64 word \<Rightarrow> bytes result" where
  "WriteSignedNumIncreasing dest val =
     (let x = (if sint val < 0 then NOT val else val)
      in if sint x < 64 then Inr (dest @ [fst (kLengthToHeaderBits ! 1) XOR ucast val])
         else let sign_byte = (if sint val < 0 then 0xff else 0) :: byte;
                  buf = [sign_byte, sign_byte] @ be_bytes 8 val;
                  len = SignedEncodingLengthPositive x
              in hard_assert (2 \<le> len)
                   (let beg = drop (10 - len) buf;
                        beg = beg[0 := beg ! 0 XOR fst (kLengthToHeaderBits ! len)];
                        beg = beg[1 := beg ! 1 XOR snd (kLengthToHeaderBits ! len)]
                    in Inr (dest @ take len beg)))"

text \<open>The length and the raw value, before the header bits are removed.\<close>

definition read_signed_raw :: "bytes \<Rightarrow> (nat \<times> 64 word) option" where
  "read_signed_raw src =
     (let xor_mask = (if src ! 0 AND 0x80 = 0 then - 1 else 0) :: 64 word;
          first_byte = ucast ((scast (src ! 0) :: 64 word) XOR (xor_mask AND 0xff)) :: byte
      in if first_byte \<noteq> 0xff then
           (let len = nat (7 - Log2FloorNonZero (ucast (first_byte XOR 0xff)))
            in if length src < len then None
               else Some (len, foldl (\<lambda>x b. push_bit 8 x OR ucast b) xor_mask (take len src)))
         else if length src < 8 then None
         else let second_byte = ucast ((scast (src ! 1) :: 64 word) XOR (xor_mask AND 0xff)) :: byte;
                  load = (\<lambda>len. if length src < len then None
                                else Some (len, foldl (\<lambda>x b. push_bit 8 x OR ucast b) 0 (take 8 (drop (len - 8) src))))
              in if second_byte < 0x80 then load 8
                 else if second_byte < 0xc0 then load 9
                 else let third_byte = ucast ((scast (src ! 2) :: 64 word) XOR (xor_mask AND 0xff)) :: byte
                      in if second_byte = 0xc0 \<and> third_byte < 0x80 then load 10 else None)"

definition ReadSignedNumIncreasing :: "bytes \<Rightarrow> (bytes \<times> 64 word) option result" where
  "ReadSignedNumIncreasing src =
     (if src = [] then Inr None
      else case read_signed_raw src of
             None \<Rightarrow> Inr None
           | Some (len, raw) \<Rightarrow>
               (let x = raw XOR kLengthToMask ! len
                in hard_assert (len = SignedEncodingLength x) (Inr (Some (drop len src, x)))))"

end
