(* ===== verification/OrderedCodeProofs.thy ===== *)
theory OrderedCodeProofs
  imports OrderedCode SortedSpec
begin

text \<open>
  Correctness of the ordered encodings: the word tricks that look for special bytes find the first
  one, every encoding is read back whatever follows it, and the encodings of different values differ
  first at a byte that orders them as the values.
\<close>

section \<open>Finding special bytes with word arithmetic\<close>

lemma byte_less_256: "unat (b :: byte) < 256"
  using unsigned_less[of b] by simp

lemma IsSpecialByte_unat: "IsSpecialByte c = (unat c = 0 \<or> unat c = 255)"
  unfolding IsSpecialByte_def using byte_less_256[of c]
  by (cases "unat c = 255") (auto simp: word_less_nat_alt unat_word_ariths)

lemma byte_eq_255: "(unat (c :: byte) = 255) = (c = 0xff)"
  by unat_arith

lemma IsSpecialByte_iff: "IsSpecialByte c = (c = 0 \<or> c = 0xff)"
  by (simp add: IsSpecialByte_unat byte_eq_255 unat_eq_0)

lemma bytes_value_simps [simp]:
  "bytes_value [] = 0" "bytes_value (b # bs) = unat b + 256 * bytes_value bs"
  by (simp_all add: bytes_value_def)

lemma bytes_value_less: "bytes_value bs < 256 ^ length bs"
proof (induction bs)
  case (Cons b bs)
  show ?case using Cons byte_less_256[of b] by simp
qed simp

lemma bytes_value_append: "bytes_value (xs @ ys) = bytes_value xs + 256 ^ length xs * bytes_value ys"
  by (induction xs) (simp_all add: algebra_simps)

primrec ones :: "nat \<Rightarrow> int" where
  "ones 0 = 0"
| "ones (Suc n) = 1 + 256 * ones n"

text \<open>The test, on integers, for a number of bytes.\<close>

definition special_test :: "nat \<Rightarrow> int \<Rightarrow> int" where
  "special_test n v = (v - ones n) AND NOT (v + ones n) AND (128 * ones n)"

lemma special_low_byte:
  assumes "0 \<le> b" "b < 256"
  shows "(take_bit 8 ((b - 1) AND NOT (b + 1) AND (128 :: int)) = 0) = (b \<noteq> 0 \<and> b \<noteq> 255)"
proof -
  have "list_all (\<lambda>b. (take_bit 8 ((b - 1) AND NOT (b + 1) AND (128 :: int)) = 0) = (b \<noteq> 0 \<and> b \<noteq> 255)) [0..255]"
    by code_simp
  then show ?thesis using assms by (simp add: list_all_iff)
qed

lemma special_test_low: "take_bit 8 (special_test (Suc n) (b + 256 * v)) = take_bit 8 ((b - 1) AND NOT (b + 1) AND 128)"
proof -
  have t: "take_bit 8 (x + 256 * y) = take_bit 8 x" for x y :: int by (simp add: take_bit_eq_mod)
  have n: "take_bit 8 (NOT x) = take_bit 8 (NOT (take_bit 8 x))" for x :: int by (rule bit_eqI) (auto simp: bit_simps)
  have "take_bit 8 (b + 256 * v - ones (Suc n)) = take_bit 8 (b - 1)"
    using t[of "b - 1" "v - ones n"] by (simp add: algebra_simps)
  moreover have "take_bit 8 (b + 256 * v + ones (Suc n)) = take_bit 8 (b + 1)"
    using t[of "b + 1" "v + ones n"] by (simp add: algebra_simps)
  then have "take_bit 8 (NOT (b + 256 * v + ones (Suc n))) = take_bit 8 (NOT (b + 1))" by (metis n)
  moreover have "take_bit 8 (128 * ones (Suc n)) = take_bit 8 128" using t[of 128 "128 * ones n"] by (simp add: algebra_simps)
  ultimately show ?thesis by (simp add: special_test_def take_bit_and)
qed

lemma special_test_high:
  assumes "1 \<le> b" "b \<le> 254"
  shows "drop_bit 8 (special_test (Suc n) (b + 256 * v)) = special_test n v"
proof -
  have d: "drop_bit 8 (x + 256 * y) = y" if "0 \<le> x" "x < 256" for x y :: int using that by (simp add: drop_bit_eq_div)
  have "drop_bit 8 (b + 256 * v - ones (Suc n)) = v - ones n"
    using d[of "b - 1" "v - ones n"] assms by (simp add: algebra_simps)
  moreover have "drop_bit 8 (b + 256 * v + ones (Suc n)) = v + ones n"
    using d[of "b + 1" "v + ones n"] assms by (simp add: algebra_simps)
  moreover have "drop_bit 8 (128 * ones (Suc n)) = 128 * ones n" using d[of 128 "128 * ones n"] by (simp add: algebra_simps)
  moreover have "drop_bit 8 (NOT x) = NOT (drop_bit 8 x)" for x :: int by (rule bit_eqI) (simp add: bit_simps)
  ultimately show ?thesis by (simp add: special_test_def drop_bit_and)
qed

lemma special_test_bytes:
  "(special_test (length bs) (int (bytes_value bs)) = 0) = (\<forall>b \<in> set bs. \<not> IsSpecialByte b)"
proof (induction bs)
  case Nil
  then show ?case by (simp add: special_test_def)
next
  case (Cons b bs)
  let ?t = "special_test (Suc (length bs)) (int (unat b) + 256 * int (bytes_value bs))"
  have b: "0 \<le> int (unat b)" "int (unat b) < 256" using byte_less_256[of b] by linarith+
  have s: "IsSpecialByte b = (int (unat b) = 0 \<or> int (unat b) = 255)"
    unfolding IsSpecialByte_unat by presburger
  have low: "(take_bit 8 ?t = 0) = (\<not> IsSpecialByte b)"
    unfolding special_test_low special_low_byte[OF b] s by simp
  have split: "(?t = 0) = (take_bit 8 ?t = 0 \<and> drop_bit 8 ?t = 0)"
    using bits_ident[of 8 ?t] by (metis add.right_neutral push_bit_of_0 take_bit_of_0 drop_bit_of_0)
  show ?case
  proof (cases "IsSpecialByte b")
    case True
    then show ?thesis using split low by simp
  next
    case False
    then have "1 \<le> int (unat b)" "int (unat b) \<le> 254" using b s by linarith+
    from special_test_high[OF this] show ?thesis using split low False Cons.IH by simp
  qed
qed

lemma special_test_nonneg: "0 \<le> special_test n v" "special_test n v \<le> 128 * ones n"
proof -
  have o: "0 \<le> ones n" by (induction n) simp_all
  then show "0 \<le> special_test n v" by (simp add: special_test_def)
  show "special_test n v \<le> 128 * ones n" unfolding special_test_def using o
    by (metis AND_upper2 and.assoc mult_nonneg_nonneg zero_le_numeral)
qed

lemma special_test64_bytes:
  assumes "length bs = 8"
  shows "special_test64 (load_le bs) = (\<exists>b \<in> set bs. IsSpecialByte b)"
proof -
  let ?v = "int (bytes_value bs)"
  have o: "ones 8 = 0x0101010101010101" by (simp add: eval_nat_numeral)
  have "(load_le bs - 0x0101010101010101) AND NOT (load_le bs + 0x0101010101010101) AND 0x8080808080808080 =
      (word_of_int (special_test 8 ?v) :: 64 word)"
    by (simp add: special_test_def o load_le_def of_int_and_eq of_int_not_eq)
  moreover have "special_test 8 ?v mod 2 ^ 64 = special_test 8 ?v"
    using special_test_nonneg[of 8 ?v] by (simp add: o)
  then have "((word_of_int (special_test 8 ?v) :: 64 word) = 0) = (special_test 8 ?v = 0)"
    by (simp add: word_of_int_eq_0_iff dvd_eq_mod_eq_0)
  ultimately show ?thesis using special_test_bytes[of bs] assms by (simp add: special_test64_def)
qed

lemma special_test32_bytes:
  assumes "length bs = 4"
  shows "special_test32 (load_le bs) = (\<exists>b \<in> set bs. IsSpecialByte b)"
proof -
  let ?v = "int (bytes_value bs)"
  have o: "ones 4 = 0x01010101" by (simp add: eval_nat_numeral)
  have "(load_le bs - 0x01010101) AND NOT (load_le bs + 0x01010101) AND 0x80808080 =
      (word_of_int (special_test 4 ?v) :: 32 word)"
    by (simp add: special_test_def o load_le_def of_int_and_eq of_int_not_eq)
  moreover have "special_test 4 ?v mod 2 ^ 32 = special_test 4 ?v"
    using special_test_nonneg[of 4 ?v] by (simp add: o)
  then have "((word_of_int (special_test 4 ?v) :: 32 word) = 0) = (special_test 4 ?v = 0)"
    by (simp add: word_of_int_eq_0_iff dvd_eq_mod_eq_0)
  ultimately show ?thesis using special_test_bytes[of bs] assms by (simp add: special_test32_def)
qed

section \<open>The skipping loop is a scan\<close>

declare SkipToNextSpecialByte.simps [simp del] encode_loop.simps [simp del] read_loop.simps [simp del]

definition plain_prefix :: "bytes \<Rightarrow> nat" where
  "plain_prefix p = length (takeWhile (\<lambda>c. \<not> IsSpecialByte c) p)"

lemma plain_prefix_skip:
  "\<forall>c \<in> set (take k p). \<not> IsSpecialByte c \<Longrightarrow> k \<le> length p \<Longrightarrow> plain_prefix p = k + plain_prefix (drop k p)"
proof -
  assume a: "\<forall>c \<in> set (take k p). \<not> IsSpecialByte c" "k \<le> length p"
  have "plain_prefix (take k p @ drop k p) = length (take k p) + plain_prefix (drop k p)"
    using a(1) unfolding plain_prefix_def by (subst takeWhile_append2) (auto simp del: append_take_drop_id)
  then show ?thesis using a(2) by (simp add: min_absorb2)
qed

lemma four_bytes: "4 \<le> length p \<Longrightarrow> \<exists>a b c d r. p = a # b # c # d # r"
  by (auto simp: Suc_le_length_iff eval_nat_numeral)

lemma take4: "4 \<le> length p \<Longrightarrow> take 4 p = [p ! 0, p ! 1, p ! 2, p ! 3]"
  using four_bytes[of p] by auto

lemma AdvanceIfNoSpecialBytes_spec:
  assumes "4 \<le> length p"
  shows "AdvanceIfNoSpecialBytes (load_le (take 4 p)) p = Inr (if \<exists>c \<in> set (take 4 p). IsSpecialByte c then 0 else 4)"
  using special_test32_bytes[of "take 4 p"] assms
  by (simp add: AdvanceIfNoSpecialBytes_def take4[OF assms] hard_assert_def)

lemma ucast_of_nat_half: "ucast (word_of_nat n :: 64 word) = (word_of_nat n :: 32 word)"
  by (rule bit_word_eqI) (auto simp: bit_simps)

lemma load_low_half:
  assumes "8 \<le> length p"
  shows "ucast (load_le (take 8 p) :: 64 word) = (load_le (take 4 p) :: 32 word)"
proof -
  have "take 8 p = take 4 p @ take 4 (drop 4 p)" using take_add[of 4 4 p] by simp
  then have "bytes_value (take 8 p) = bytes_value (take 4 p) + 2 ^ 32 * bytes_value (take 4 (drop 4 p))"
    using assms by (simp add: bytes_value_append)
  then have "(word_of_nat (bytes_value (take 8 p)) :: 32 word) = word_of_nat (bytes_value (take 4 p))"
    by (simp only: word_of_nat_eq_iff) (simp add: take_bit_eq_mod)
  then show ?thesis by (simp only: load_le_def ucast_of_nat_half)
qed

lemma nth_special:
  assumes "4 \<le> length q" "\<exists>c \<in> set (take 4 q). IsSpecialByte c"
  shows "plain_prefix q = (if IsSpecialByte (q ! 0) then 0 else if IsSpecialByte (q ! 1) then 1
    else if IsSpecialByte (q ! 2) then 2 else 3) \<and>
    (IsSpecialByte (q ! 0) \<or> IsSpecialByte (q ! 1) \<or> IsSpecialByte (q ! 2) \<or> IsSpecialByte (q ! 3))"
proof -
  obtain a b c d r where q: "q = a # b # c # d # r"
    using four_bytes[OF assms(1)] by blast
  then show ?thesis using assms(2) by (auto simp: plain_prefix_def)
qed

lemma SkipToNextSpecialByte_spec: "SkipToNextSpecialByte p = Inr (plain_prefix p)"
proof (induction p rule: SkipToNextSpecialByte.induct)
  case (1 p)
  show ?case
  proof (cases "8 \<le> length p")
    case True
    let ?v = "load_le (take 8 p) :: 64 word"
    have t: "special_test64 ?v = (\<exists>c \<in> set (take 8 p). IsSpecialByte c)" using special_test64_bytes[of "take 8 p"] True by simp
    show ?thesis
    proof (cases "special_test64 ?v")
      case False
      then show ?thesis using 1(1)[OF True refl] True t plain_prefix_skip[of 8 p]
        by (subst SkipToNextSpecialByte.simps) (simp add: Let_def)
    next
      case sp: True
      define n where "n = (if \<exists>c \<in> set (take 4 p). IsSpecialByte c then 0 else 4 :: nat)"
      have n4: "n \<le> 4" by (simp add: n_def)
      have adv: "AdvanceIfNoSpecialBytes (ucast ?v) p = Inr n"
        using AdvanceIfNoSpecialBytes_spec[of p] True by (simp add: load_low_half n_def)
      have "take 8 p = take 4 p @ take 4 (drop 4 p)" using take_add[of 4 4 p] by simp
      then have ex: "\<exists>c \<in> set (take 4 (drop n p)). IsSpecialByte c" using sp t by (auto simp: n_def)
      have len: "4 \<le> length (drop n p)" using True n4 by simp
      have "plain_prefix p = n + plain_prefix (drop n p)"
      proof (rule plain_prefix_skip)
        show "\<forall>c \<in> set (take n p). \<not> IsSpecialByte c" by (auto simp: n_def)
      qed (use True n4 in simp)
      then show ?thesis using nth_special[OF len ex] True sp
        by (subst SkipToNextSpecialByte.simps) (auto simp: Let_def adv hard_assert_def)
    qed
  next
    case False
    show ?thesis
    proof (cases "4 \<le> length p")
      case True
      then show ?thesis using False AdvanceIfNoSpecialBytes_spec[OF True] plain_prefix_skip[of 4 p]
        by (subst SkipToNextSpecialByte.simps) (auto simp: plain_prefix_def)
    next
      case n4: False
      then show ?thesis using False by (subst SkipToNextSpecialByte.simps) (simp add: plain_prefix_def)
    qed
  qed
qed

section \<open>Strings\<close>

definition escaped :: "byte \<Rightarrow> bytes" where
  "escaped c = (if c = 0 then [0, 0xff] else if c = 0xff then [0xff, 0] else [c])"

definition string_code :: "bytes \<Rightarrow> bytes" where
  "string_code s = concat (map escaped s) @ [0, 1]"

lemma escaped_special [simp]: "escaped 0 = [0, 0xff]" "escaped 0xff = [0xff, 0]"
  by (simp_all add: escaped_def)

lemma escaped_plain: "\<forall>c \<in> set xs. \<not> IsSpecialByte c \<Longrightarrow> concat (map escaped xs) = xs"
  by (induction xs) (auto simp: escaped_def IsSpecialByte_iff)

lemma plain_split:
  assumes "plain_prefix s < length s"
  shows "s = take (plain_prefix s) s @ s ! plain_prefix s # drop (Suc (plain_prefix s)) s"
    "\<forall>c \<in> set (take (plain_prefix s) s). \<not> IsSpecialByte c" "IsSpecialByte (s ! plain_prefix s)"
proof -
  show "s = take (plain_prefix s) s @ s ! plain_prefix s # drop (Suc (plain_prefix s)) s" by (rule id_take_nth_drop[OF assms])
  have "take (plain_prefix s) s = takeWhile (\<lambda>c. \<not> IsSpecialByte c) s"
    unfolding plain_prefix_def by (metis append_eq_conv_conj takeWhile_dropWhile_id)
  then show "\<forall>c \<in> set (take (plain_prefix s) s). \<not> IsSpecialByte c" by (auto dest: set_takeWhileD)
  show "IsSpecialByte (s ! plain_prefix s)" using nth_length_takeWhile[of "\<lambda>c. \<not> IsSpecialByte c" s] assms by (simp add: plain_prefix_def)
qed

lemma plain_all: "\<not> plain_prefix s < length s \<Longrightarrow> \<forall>c \<in> set s. \<not> IsSpecialByte c"
  unfolding plain_prefix_def
  by (metis length_takeWhile_le le_antisym not_less takeWhile_eq_take set_takeWhileD take_all)

lemma encode_loop_spec: "encode_loop dest s = Inr (dest @ concat (map escaped s))"
proof (induction dest s rule: encode_loop.induct)
  case (1 dest s)
  let ?n = "plain_prefix s"
  show ?case
  proof (cases "?n < length s")
    case False
    then show ?thesis using escaped_plain[OF plain_all[OF False]]
      by (subst encode_loop.simps) (simp add: SkipToNextSpecialByte_spec)
  next
    case True
    note sp = plain_split[OF True]
    have c: "concat (map escaped s) = take ?n s @ escaped (s ! ?n) @ concat (map escaped (drop (Suc ?n) s))"
      using sp(1) escaped_plain[OF sp(2)] by (metis append_Cons append_eq_append_conv2 concat.simps(2) concat_append map_append list.simps(9))
    show ?thesis
    proof (cases "s ! ?n = 0")
      case z: True
      then show ?thesis using 1(1)[OF SkipToNextSpecialByte_spec] True sp(3) c
        by (subst encode_loop.simps) (simp add: SkipToNextSpecialByte_spec Let_def ordered_code_chars not_le)
    next
      case nz: False
      then have "s ! ?n = 0xff" using sp(3) by (simp add: IsSpecialByte_iff)
      then show ?thesis using 1(2)[OF SkipToNextSpecialByte_spec] True sp(3) c
        by (subst encode_loop.simps) (simp add: SkipToNextSpecialByte_spec Let_def ordered_code_chars not_le)
    qed
  qed
qed

lemma WriteString_spec: "WriteString dest s = Inr (dest @ string_code s)"
  by (simp add: WriteString_def EncodeStringFragment_def encode_loop_spec string_code_def ordered_code_chars)

lemma butlast_plain: "plain_prefix (butlast s) < length s - 1 \<Longrightarrow> s \<noteq> []"
  by (cases s) simp_all

text \<open>Reading what was written, at every position of the loop.\<close>

lemma read_loop_code: "read_loop (concat (map escaped s) @ [0, 1] @ rest) res = Inr (Some (rest, res @ s))"
proof (induction s arbitrary: res rule: length_induct)
  case (1 s)
  let ?n = "plain_prefix s" and ?src = "concat (map escaped s) @ [0, 1] @ rest"
  define a where "a = take ?n s"
  have plain: "\<forall>c \<in> set a. \<not> IsSpecialByte c"
  proof (cases "?n < length s")
    case True
    then show ?thesis using plain_split(2) by (simp add: a_def)
  next
    case False
    then show ?thesis using plain_all[OF False] by (auto simp: a_def dest: in_set_takeD)
  qed
  obtain c d r where src: "?src = a @ c # d # r" "IsSpecialByte c"
    and step: "c = 0 \<and> d = 1 \<and> s = a \<and> r = rest \<or>
      (\<exists>t. s = a @ (if c = 0 then 0 else 0xff) # t \<and> d = (if c = 0 then 0xff else 0) \<and>
         r = concat (map escaped t) @ [0, 1] @ rest)"
  proof (cases "?n < length s")
    case False
    then have "s = a" by (simp add: a_def)
    then show thesis using that[of 0 1 rest] escaped_plain[OF plain] by (simp add: IsSpecialByte_iff)
  next
    case True
    note sp = plain_split[OF True]
    obtain t where t: "s = a @ s ! ?n # t" using sp(1) a_def by blast
    have sn: "s ! ?n = 0 \<or> s ! ?n = 0xff" using sp(3) by (simp add: IsSpecialByte_iff)
    have "?src = a @ escaped (s ! ?n) @ concat (map escaped t) @ [0, 1] @ rest"
      by (subst t) (simp add: escaped_plain[OF plain])
    then show thesis using that[of "s ! ?n" "if s ! ?n = 0 then 0xff else 0" "concat (map escaped t) @ [0, 1] @ rest"] sn t sp(3)
      by auto
  qed
  have bl: "butlast ?src = a @ c # butlast (d # r)" unfolding src(1) by (simp add: butlast_append)
  have pp: "plain_prefix (butlast ?src) = length a"
    unfolding bl plain_prefix_def using plain src(2) by (simp add: takeWhile_append2)
  have *: "read_loop ?src res = (if c = 0 then if d = 1 then Inr (Some (r, res @ a)) else if d = 0xff then read_loop r ((res @ a) @ [0]) else Inr None
      else if d = 0 then read_loop r ((res @ a) @ [0xff]) else Inr None)"
    apply (subst read_loop.simps)
    apply (simp only: SkipToNextSpecialByte_spec pp sum.case)
    apply (simp only: src(1))
    using src(2) by (auto simp: Let_def ordered_code_chars IsSpecialByte_iff nth_append)
  show ?case
  proof (cases "c = 0 \<and> d = 1")
    case True
    then have "s = a \<and> r = rest" using step by auto
    then show ?thesis using * True by simp
  next
    case False
    then obtain t where t: "s = a @ (if c = 0 then 0 else 0xff) # t" "d = (if c = 0 then 0xff else 0)"
      "r = concat (map escaped t) @ [0, 1] @ rest" using step by auto
    have "length t < length s" unfolding t(1) by simp
    then have "read_loop r res' = Inr (Some (rest, res' @ t))" for res' using 1 t(3) by blast
    then show ?thesis using * t src(2) by (auto simp: IsSpecialByte_iff)
  qed
qed

lemma ReadString_code: "ReadString (string_code s @ rest) = Inr (Some (rest, s))"
  using read_loop_code[of s rest "[]"] by (simp add: ReadString_def string_code_def)

section \<open>Encodings that order\<close>

text \<open>The first byte that differs decides, whatever follows.\<close>

definition byte_before :: "bytes \<Rightarrow> bytes \<Rightarrow> bool" where
  "byte_before u v = (\<exists>p a b r s. u = p @ a # r \<and> v = p @ b # s \<and> a < b)"

abbreviation bytes_less :: "bytes \<Rightarrow> bytes \<Rightarrow> bool" where
  "bytes_less u v \<equiv> (u, v) \<in> lexord {(a, b). a < b}"

lemma byte_before_append: "byte_before u v \<Longrightarrow> byte_before (u @ r) (v @ s)"
  by (force simp: byte_before_def)

lemma byte_before_prefix: "byte_before u v \<Longrightarrow> byte_before (p @ u) (p @ v)"
  unfolding byte_before_def by (metis append.assoc)

lemma byte_before_less: "byte_before u v \<Longrightarrow> bytes_less u v"
  unfolding byte_before_def lexord_def by blast

lemma byte_before_Cons: "a < b \<Longrightarrow> byte_before (a # r) (b # s)"
  unfolding byte_before_def by (metis append_Nil)

lemma byte_before_neq: "byte_before u v \<Longrightarrow> u \<noteq> v"
  by (auto simp: byte_before_def)

text \<open>What the keys of the tables need of the encoding of one kind of item.\<close>

locale ordered_item =
  fixes code :: "'a \<Rightarrow> bytes" and read :: "bytes \<Rightarrow> (bytes \<times> 'a) option result" and item_less :: "'a \<Rightarrow> 'a \<Rightarrow> bool"
  assumes read_code: "read (code x @ rest) = Inr (Some (rest, x))"
    and code_before: "item_less x y \<Longrightarrow> byte_before (code x) (code y)"
begin

lemma code_inject: "code x @ r = code y @ s \<Longrightarrow> x = y \<and> r = s"
proof -
  assume "code x @ r = code y @ s"
  then have "read (code x @ r) = Inr (Some (s, y))" by (simp only: read_code)
  then show ?thesis by (simp add: read_code)
qed

lemma code_prefix_free: "code y = code x @ r \<Longrightarrow> x = y \<and> r = []"
  using code_inject[of y "[]" x r] by simp

lemma code_less: "item_less x y \<Longrightarrow> bytes_less (code x @ r) (code y @ s)"
  by (rule byte_before_less[OF byte_before_append[OF code_before]])

end

lemma escaped_before: "a < b \<Longrightarrow> byte_before (escaped a @ r) (escaped b @ s)"
proof -
  assume ab: "a < b"
  have "a \<noteq> 0xff"
  proof
    assume "a = 0xff"
    then show False using ab byte_less_256[of b] by (simp add: word_less_nat_alt)
  qed
  have hd: "escaped b = b # drop 1 (escaped b)" for b by (simp add: escaped_def)
  show ?thesis using ab hd[of a] hd[of b] byte_before_Cons[OF ab] by (metis append_Cons)
qed

lemma string_code_before:
  assumes "bytes_less s t"
  shows "byte_before (string_code s) (string_code t)"
proof -
  have pre: "byte_before ([0, 1] :: bytes) (escaped a @ concat (map escaped v) @ [0, 1])" for a v
  proof (cases "a = 0")
    case True
    then show ?thesis using byte_before_prefix[OF byte_before_Cons, of 1 "0xff" "[0]" "[]" "concat (map escaped v) @ [0, 1]"] by simp
  next
    case False
    then have "0 < a" by (simp add: word_neq_0_conv)
    moreover have "escaped a = a # drop 1 (escaped a)" by (simp add: escaped_def)
    ultimately show ?thesis using byte_before_Cons[of 0 a] by (metis append_Cons)
  qed
  from assms consider (prefix) a v where "t = s @ a # v"
    | (differ) u a b v w where "a < b" "s = u @ a # v" "t = u @ b # w" unfolding lexord_def by blast
  then show ?thesis
  proof cases
    case prefix
    from byte_before_prefix[OF pre, of "concat (map escaped s)" a v] prefix show ?thesis by (simp add: string_code_def)
  next
    case differ
    from byte_before_prefix[OF escaped_before[OF differ(1)], of "concat (map escaped u)"] differ(2,3)
    show ?thesis by (simp add: string_code_def)
  qed
qed

lemma string_code_before_infinity: "byte_before (string_code s) [0xff, 0xff]"
proof (cases s)
  case Nil
  then show ?thesis using byte_before_Cons[of 0 "0xff"] by (simp add: string_code_def)
next
  case (Cons c t)
  show ?thesis
  proof (cases "c = 0xff")
    case True
    then show ?thesis using Cons byte_before_prefix[OF byte_before_Cons, of 0 "0xff" "[0xff]"] by (simp add: string_code_def)
  next
    case False
    then have "unat c \<noteq> 255" by (simp add: byte_eq_255)
    then have "c < 0xff" using byte_less_256[of c] by (simp add: word_less_nat_alt)
    moreover have "escaped c = c # drop 1 (escaped c)" by (simp add: escaped_def)
    ultimately show ?thesis using Cons byte_before_Cons[of c "0xff"] by (simp add: string_code_def) (metis append_Cons)
  qed
qed

interpretation string_item: ordered_item string_code ReadString bytes_less
  by unfold_locales (simp_all add: ReadString_code string_code_before)

end
