(* ===== verification/LevelDbKeys.thy ===== *)
theory LevelDbKeys
  imports OrderedCodeProofs Paths Timestamps
begin

text \<open>
  \<open>local/leveldb_key.cc\<close>: the keys of the LevelDB tables, sequences of labelled components, with
  the reader and the writer of their bytes.  A function of the reader takes the reader and returns its
  value and the reader after it.  \<open>Decode\<close> returns the fields it has set and the flag it returns.
\<close>

section \<open>Strings and their bytes\<close>

definition to_bytes :: "string \<Rightarrow> bytes" where
  "to_bytes s = map of_char s"

definition of_bytes :: "bytes \<Rightarrow> string" where
  "of_bytes bs = map (\<lambda>b. char_of (unat b)) bs"

section \<open>Tables and labels\<close>

definition kVersionGlobalTable :: string where "kVersionGlobalTable = ''version''"
definition kMutationsTable :: string where "kMutationsTable = ''mutation''"
definition kDocumentMutationsTable :: string where "kDocumentMutationsTable = ''document_mutation''"
definition kMutationQueuesTable :: string where "kMutationQueuesTable = ''mutation_queue''"
definition kTargetGlobalTable :: string where "kTargetGlobalTable = ''target_global''"
definition kTargetsTable :: string where "kTargetsTable = ''target''"
definition kQueryTargetsTable :: string where "kQueryTargetsTable = ''query_target''"
definition kTargetDocumentsTable :: string where "kTargetDocumentsTable = ''target_document''"
definition kDocumentTargetsTable :: string where "kDocumentTargetsTable = ''document_target''"
definition kRemoteDocumentsTable :: string where "kRemoteDocumentsTable = ''remote_document''"
definition kCollectionParentsTable :: string where "kCollectionParentsTable = ''collection_parent''"
definition kRemoteDocumentReadTimeTable :: string where
  "kRemoteDocumentReadTimeTable = ''remote_document_read_time''"

datatype ComponentLabel = Terminator | TableName | BatchId | CanonicalId | TargetId | UserId
  | CollectionId | DocumentId | SnapshotVersion | PathSegment | Unknown

fun label_value :: "ComponentLabel \<Rightarrow> int64" where
  "label_value Terminator = 0"
| "label_value TableName = 5"
| "label_value BatchId = 10"
| "label_value CanonicalId = 11"
| "label_value TargetId = 12"
| "label_value UserId = 13"
| "label_value CollectionId = 14"
| "label_value DocumentId = 15"
| "label_value SnapshotVersion = 16"
| "label_value PathSegment = 62"
| "label_value Unknown = 63"

section \<open>The reader\<close>

record Reader =
  rd_src :: bytes
  rd_ok :: bool

type_synonym 'a reading = "Reader \<Rightarrow> ('a \<times> Reader) result"

definition make_Reader :: "bytes \<Rightarrow> Reader" where
  "make_Reader src = \<lparr>rd_src = src, rd_ok = True\<rparr>"

definition Reader_empty :: "Reader \<Rightarrow> bool" where
  "Reader_empty r = (\<not> rd_ok r \<or> rd_src r = [])"

definition Reader_Fail :: "Reader \<Rightarrow> Reader" where
  "Reader_Fail r = r\<lparr>rd_ok := False\<rparr>"

text \<open>Sequencing, and the value of a function that returns.\<close>

definition then_read :: "'a reading \<Rightarrow> ('a \<Rightarrow> 'b reading) \<Rightarrow> 'b reading" where
  "then_read f g r = rbind (f r) (\<lambda>(x, r'). g x r')"

definition give :: "'a \<Rightarrow> 'a reading" where
  "give x r = Inr (x, r)"

definition fail_with :: "'a \<Rightarrow> 'a reading" where
  "fail_with x r = Inr (x, Reader_Fail r)"

text \<open>The common shape of the two adapters of \<open>OrderedCode\<close> readers.\<close>

definition read_with :: "'a \<Rightarrow> (bytes \<Rightarrow> (bytes \<times> 'a) option result) \<Rightarrow> 'a reading" where
  "read_with dflt read r =
     (if rd_ok r then
        (case read (rd_src r) of
           Inl e \<Rightarrow> Inl e
         | Inr (Some (tmp, x)) \<Rightarrow> give x (r\<lparr>rd_src := tmp\<rparr>)
         | Inr None \<Rightarrow> fail_with dflt r)
      else fail_with dflt r)"

definition Reader_ReadSignedNumIncreasing :: "int64 reading" where
  "Reader_ReadSignedNumIncreasing = read_with 0 ReadSignedNumIncreasing"

definition Reader_ReadString :: "string reading" where
  "Reader_ReadString = then_read (read_with [] ReadString) (\<lambda>bs. give (of_bytes bs))"

text \<open>The label as its number: the cast of the code can give a number that is no label.\<close>

definition ReadComponentLabel :: "int64 reading" where
  "ReadComponentLabel r =
     (if rd_ok r then
        then_read Reader_ReadSignedNumIncreasing (\<lambda>raw r.
          if rd_ok r \<and> sint (label_value Terminator) \<le> sint raw \<and> sint raw \<le> sint (label_value Unknown)
          then give raw r else fail_with (label_value Unknown) r) r
      else fail_with (label_value Unknown) r)"

definition ReadComponentLabelMatching :: "ComponentLabel \<Rightarrow> bool reading" where
  "ReadComponentLabelMatching expected_label r =
     (if rd_ok r then
        then_read Reader_ReadSignedNumIncreasing (\<lambda>raw r.
          if rd_ok r then give (raw = label_value expected_label) r else fail_with False r) r
      else fail_with False r)"

text \<open>\<open>if (!Read...Matching(...)) { Fail(); }\<close>\<close>

definition or_fail :: "bool reading \<Rightarrow> unit reading" where
  "or_fail f = then_read f (\<lambda>b. if b then give () else fail_with ())"

definition ReadInt32 :: "int32 reading" where
  "ReadInt32 r =
     (if rd_ok r then
        then_read Reader_ReadSignedNumIncreasing (\<lambda>raw r.
          if rd_ok r \<and> - (2 ^ 31) \<le> sint raw \<and> sint raw \<le> 2 ^ 31 - 1
          then give (scast raw) r else fail_with 0 r) r
      else fail_with 0 r)"

definition ReadLabeledInt32 :: "ComponentLabel \<Rightarrow> int32 reading" where
  "ReadLabeledInt32 expected_label =
     then_read (or_fail (ReadComponentLabelMatching expected_label)) (\<lambda>_. ReadInt32)"

definition ReadInt64 :: "int64 reading" where
  "ReadInt64 = Reader_ReadSignedNumIncreasing"

definition ReadLabeledString :: "ComponentLabel \<Rightarrow> string reading" where
  "ReadLabeledString expected_label =
     then_read (or_fail (ReadComponentLabelMatching expected_label)) (\<lambda>_. Reader_ReadString)"

definition ReadLabeledStringMatching :: "ComponentLabel \<Rightarrow> string \<Rightarrow> bool reading" where
  "ReadLabeledStringMatching expected_label expected_value =
     then_read (ReadLabeledString expected_label) (\<lambda>value r.
       if rd_ok r then give (value = expected_value) r else fail_with False r)"

definition ReadTableNameMatching :: "string \<Rightarrow> unit reading" where
  "ReadTableNameMatching expected_table_name =
     or_fail (ReadLabeledStringMatching TableName expected_table_name)"

definition ReadBatchId :: "int32 reading" where "ReadBatchId = ReadLabeledInt32 BatchId"
definition ReadCanonicalId :: "string reading" where "ReadCanonicalId = ReadLabeledString CanonicalId"
definition ReadTargetId :: "int32 reading" where "ReadTargetId = ReadLabeledInt32 TargetId"
definition ReadUserId :: "string reading" where "ReadUserId = ReadLabeledString UserId"
definition ReadCollectionId :: "string reading" where "ReadCollectionId = ReadLabeledString CollectionId"
definition ReadDocumentId :: "string reading" where "ReadDocumentId = ReadLabeledString DocumentId"

definition ReadTerminator :: "unit reading" where
  "ReadTerminator = or_fail (ReadComponentLabelMatching Terminator)"

subsection \<open>What the reader consumes\<close>

lemma read_loop_shrinks: "read_loop src res = Inr (Some (rest, s)) \<Longrightarrow> length rest < length src"
proof (induction "length src" arbitrary: src res rule: less_induct)
  case less
  let ?n = "SkipToNextSpecialByte (butlast src)"
  obtain n where n: "?n = Inr n" using less(2) by (cases ?n) (simp_all add: read_loop.simps[of src res])
  have lt: "n < length src - 1" using less(2) n by (auto simp: read_loop.simps[of src res] split: if_splits)
  let ?rest = "drop (Suc (Suc n)) src"
  have sh: "length ?rest < length src" using lt by simp
  consider "rest = ?rest" | r where "read_loop ?rest r = Inr (Some (rest, s))"
    using less(2) n lt by (auto simp: read_loop.simps[of src res] Let_def split: if_splits)
  then show ?case
  proof cases
    case 1
    then show ?thesis using sh by simp
  next
    case 2
    show ?thesis using less(1)[OF sh 2] sh by (rule less_trans)
  qed
qed

lemma ReadSigned_within:
  "Reader_ReadSignedNumIncreasing r = Inr (x, r') \<Longrightarrow> length (rd_src r') \<le> length (rd_src r)"
proof -
  have "ReadSignedNumIncreasing src = Inr (Some (rest, y)) \<Longrightarrow> length rest \<le> length src" for src rest y
    by (auto simp: ReadSignedNumIncreasing_def Let_def split: if_splits option.splits)
  then show "Reader_ReadSignedNumIncreasing r = Inr (x, r') \<Longrightarrow> ?thesis"
    by (auto simp: Reader_ReadSignedNumIncreasing_def read_with_def give_def fail_with_def Reader_Fail_def
        split: if_splits sum.splits option.splits prod.splits)
qed

lemma ReadComponentLabelMatching_within:
  "ReadComponentLabelMatching l r = Inr (b, r') \<Longrightarrow>
    length (rd_src r') \<le> length (rd_src r) \<and> (b \<longrightarrow> rd_ok r') \<and> (rd_ok r' \<longrightarrow> rd_ok r)"
  by (auto simp: ReadComponentLabelMatching_def then_read_def give_def fail_with_def Reader_Fail_def rbind_Inr_conv
      dest: ReadSigned_within split: if_splits)

lemma Reader_ReadString_within:
  "Reader_ReadString r = Inr (s, r') \<Longrightarrow> length (rd_src r') \<le> length (rd_src r) \<and>
    (rd_ok r' \<longrightarrow> rd_ok r \<and> length (rd_src r') < length (rd_src r))"
  by (auto simp: Reader_ReadString_def read_with_def then_read_def give_def fail_with_def Reader_Fail_def
      rbind_Inr_conv ReadString_def dest: read_loop_shrinks less_imp_le
      split: if_splits sum.splits option.splits prod.splits)

subsection \<open>Paths, document keys and versions\<close>

function path_loop :: "path \<Rightarrow> path reading" where
  "path_loop path_segments r =
     (if Reader_empty r then give path_segments r
      else case ReadComponentLabelMatching PathSegment r of
             Inl e \<Rightarrow> Inl e
           | Inr (matching, r1) \<Rightarrow>
               (if \<not> matching then give path_segments (r1\<lparr>rd_src := rd_src r\<rparr>)
                else case Reader_ReadString r1 of
                       Inl e \<Rightarrow> Inl e
                     | Inr (segment, r2) \<Rightarrow>
                         (if \<not> rd_ok r2 then give path_segments r2 else path_loop (path_segments @ [segment]) r2)))"
  by auto
termination
  by (relation "measure (\<lambda>(p, r). length (rd_src r))")
    (auto dest!: ReadComponentLabelMatching_within Reader_ReadString_within)

declare path_loop.simps [simp del]

definition ReadResourcePath :: "ResourcePath reading" where
  "ReadResourcePath = path_loop []"

definition ReadDocumentKey :: "DocumentKey reading" where
  "ReadDocumentKey = then_read ReadResourcePath (\<lambda>path r.
     if rd_ok r \<and> path \<noteq> [] \<and> IsDocumentKey path then rmap (\<lambda>k. (k, r)) (make_DocumentKey path)
     else fail_with [] r)"

definition ReadSnapshotVersion :: "SnapshotVersion reading" where
  "ReadSnapshotVersion =
     then_read (or_fail (ReadComponentLabelMatching SnapshotVersion)) (\<lambda>_.
     then_read ReadInt64 (\<lambda>seconds.
     then_read ReadInt32 (\<lambda>nanos r. rmap (\<lambda>v. (v, r)) (make_Timestamp seconds nanos))))"

section \<open>The writer\<close>

definition WriteSigned :: "int64 \<Rightarrow> bytes \<Rightarrow> bytes result" where
  "WriteSigned x dest = WriteSignedNumIncreasing dest x"

definition WriteComponentLabel :: "ComponentLabel \<Rightarrow> bytes \<Rightarrow> bytes result" where
  "WriteComponentLabel label = WriteSigned (label_value label)"

definition then_write :: "(bytes \<Rightarrow> bytes result) \<Rightarrow> (bytes \<Rightarrow> bytes result) \<Rightarrow> bytes \<Rightarrow> bytes result" where
  "then_write f g dest = rbind (f dest) g"

definition WriteLabeledInt32 :: "ComponentLabel \<Rightarrow> int32 \<Rightarrow> bytes \<Rightarrow> bytes result" where
  "WriteLabeledInt32 label v = then_write (WriteComponentLabel label) (WriteSigned (scast v))"

definition WriteLabeledString :: "ComponentLabel \<Rightarrow> string \<Rightarrow> bytes \<Rightarrow> bytes result" where
  "WriteLabeledString label v = then_write (WriteComponentLabel label) (\<lambda>dest. WriteString dest (to_bytes v))"

definition WriteTerminator :: "bytes \<Rightarrow> bytes result" where
  "WriteTerminator = WriteSigned (label_value Terminator)"

definition WriteTableName :: "string \<Rightarrow> bytes \<Rightarrow> bytes result" where
  "WriteTableName = WriteLabeledString TableName"

definition WriteBatchId :: "int32 \<Rightarrow> bytes \<Rightarrow> bytes result" where
  "WriteBatchId = WriteLabeledInt32 BatchId"

definition WriteCanonicalId :: "string \<Rightarrow> bytes \<Rightarrow> bytes result" where
  "WriteCanonicalId = WriteLabeledString CanonicalId"

definition WriteTargetId :: "int32 \<Rightarrow> bytes \<Rightarrow> bytes result" where
  "WriteTargetId = WriteLabeledInt32 TargetId"

definition WriteUserId :: "string \<Rightarrow> bytes \<Rightarrow> bytes result" where
  "WriteUserId = WriteLabeledString UserId"

definition WriteCollectionId :: "string \<Rightarrow> bytes \<Rightarrow> bytes result" where
  "WriteCollectionId = WriteLabeledString CollectionId"

definition WriteDocumentId :: "string \<Rightarrow> bytes \<Rightarrow> bytes result" where
  "WriteDocumentId = WriteLabeledString DocumentId"

definition WriteSnapshotVersion :: "SnapshotVersion \<Rightarrow> bytes \<Rightarrow> bytes result" where
  "WriteSnapshotVersion v =
     then_write (WriteComponentLabel SnapshotVersion)
       (then_write (WriteSigned (seconds v)) (WriteSigned (scast (nanoseconds v))))"

fun WriteResourcePath :: "ResourcePath \<Rightarrow> bytes \<Rightarrow> bytes result" where
  "WriteResourcePath [] dest = Inr dest"
| "WriteResourcePath (segment # path) dest =
     rbind (WriteComponentLabel PathSegment dest) (\<lambda>dest.
     rbind (WriteString dest (to_bytes segment)) (WriteResourcePath path))"

definition write_key :: "(bytes \<Rightarrow> bytes result) list \<Rightarrow> bytes result" where
  "write_key ws = foldr then_write ws Inr []"

section \<open>The keys of the tables\<close>

definition decode :: "'a reading \<Rightarrow> bytes \<Rightarrow> ('a \<times> bool) result" where
  "decode f key = rmap (\<lambda>(x, reader). (x, rd_ok reader)) (f (make_Reader key))"

definition LevelDbVersionKey_Key :: "bytes result" where
  "LevelDbVersionKey_Key = write_key [WriteTableName kVersionGlobalTable, WriteTerminator]"

definition LevelDbMutationKey_KeyPrefix :: "bytes result" where
  "LevelDbMutationKey_KeyPrefix = write_key [WriteTableName kMutationsTable]"

definition LevelDbMutationKey_KeyPrefix_user :: "string \<Rightarrow> bytes result" where
  "LevelDbMutationKey_KeyPrefix_user user_id = write_key [WriteTableName kMutationsTable, WriteUserId user_id]"

definition LevelDbMutationKey_Key :: "string \<Rightarrow> int32 \<Rightarrow> bytes result" where
  "LevelDbMutationKey_Key user_id batch_id =
     write_key [WriteTableName kMutationsTable, WriteUserId user_id, WriteBatchId batch_id, WriteTerminator]"

definition LevelDbMutationKey_Decode :: "bytes \<Rightarrow> ((string \<times> int32) \<times> bool) result" where
  "LevelDbMutationKey_Decode = decode (
     then_read (ReadTableNameMatching kMutationsTable) (\<lambda>_.
     then_read ReadUserId (\<lambda>user_id.
     then_read ReadBatchId (\<lambda>batch_id.
     then_read ReadTerminator (\<lambda>_. give (user_id, batch_id))))))"

definition LevelDbDocumentMutationKey_KeyPrefix :: "bytes result" where
  "LevelDbDocumentMutationKey_KeyPrefix = write_key [WriteTableName kDocumentMutationsTable]"

definition LevelDbDocumentMutationKey_KeyPrefix_user :: "string \<Rightarrow> bytes result" where
  "LevelDbDocumentMutationKey_KeyPrefix_user user_id =
     write_key [WriteTableName kDocumentMutationsTable, WriteUserId user_id]"

definition LevelDbDocumentMutationKey_KeyPrefix_path :: "string \<Rightarrow> ResourcePath \<Rightarrow> bytes result" where
  "LevelDbDocumentMutationKey_KeyPrefix_path user_id resource_path =
     write_key [WriteTableName kDocumentMutationsTable, WriteUserId user_id, WriteResourcePath resource_path]"

definition LevelDbDocumentMutationKey_Key :: "string \<Rightarrow> DocumentKey \<Rightarrow> int32 \<Rightarrow> bytes result" where
  "LevelDbDocumentMutationKey_Key user_id document_key batch_id =
     write_key [WriteTableName kDocumentMutationsTable, WriteUserId user_id, WriteResourcePath document_key, WriteBatchId batch_id, WriteTerminator]"

definition LevelDbDocumentMutationKey_Decode :: "bytes \<Rightarrow> ((string \<times> DocumentKey \<times> int32) \<times> bool) result" where
  "LevelDbDocumentMutationKey_Decode = decode (
     then_read (ReadTableNameMatching kDocumentMutationsTable) (\<lambda>_.
     then_read ReadUserId (\<lambda>user_id.
     then_read ReadDocumentKey (\<lambda>document_key.
     then_read ReadBatchId (\<lambda>batch_id.
     then_read ReadTerminator (\<lambda>_. give (user_id, document_key, batch_id)))))))"

definition LevelDbMutationQueueKey_KeyPrefix :: "bytes result" where
  "LevelDbMutationQueueKey_KeyPrefix = write_key [WriteTableName kMutationQueuesTable]"

definition LevelDbMutationQueueKey_Key :: "string \<Rightarrow> bytes result" where
  "LevelDbMutationQueueKey_Key user_id =
     write_key [WriteTableName kMutationQueuesTable, WriteUserId user_id, WriteTerminator]"

definition LevelDbMutationQueueKey_Decode :: "bytes \<Rightarrow> ((string) \<times> bool) result" where
  "LevelDbMutationQueueKey_Decode = decode (
     then_read (ReadTableNameMatching kMutationQueuesTable) (\<lambda>_.
     then_read ReadUserId (\<lambda>user_id.
     then_read ReadTerminator (\<lambda>_. give user_id))))"

definition LevelDbTargetGlobalKey_Key :: "bytes result" where
  "LevelDbTargetGlobalKey_Key = write_key [WriteTableName kTargetGlobalTable, WriteTerminator]"

definition LevelDbTargetGlobalKey_Decode :: "bytes \<Rightarrow> ((unit) \<times> bool) result" where
  "LevelDbTargetGlobalKey_Decode = decode (
     then_read (ReadTableNameMatching kTargetGlobalTable) (\<lambda>_.
     then_read ReadTerminator (\<lambda>_. give ())))"

definition LevelDbTargetKey_KeyPrefix :: "bytes result" where
  "LevelDbTargetKey_KeyPrefix = write_key [WriteTableName kTargetsTable]"

definition LevelDbTargetKey_Key :: "int32 \<Rightarrow> bytes result" where
  "LevelDbTargetKey_Key target_id =
     write_key [WriteTableName kTargetsTable, WriteTargetId target_id, WriteTerminator]"

definition LevelDbTargetKey_Decode :: "bytes \<Rightarrow> ((int32) \<times> bool) result" where
  "LevelDbTargetKey_Decode = decode (
     then_read (ReadTableNameMatching kTargetsTable) (\<lambda>_.
     then_read ReadTargetId (\<lambda>target_id.
     then_read ReadTerminator (\<lambda>_. give target_id))))"

definition LevelDbQueryTargetKey_KeyPrefix :: "bytes result" where
  "LevelDbQueryTargetKey_KeyPrefix = write_key [WriteTableName kQueryTargetsTable]"

definition LevelDbQueryTargetKey_KeyPrefix_id :: "string \<Rightarrow> bytes result" where
  "LevelDbQueryTargetKey_KeyPrefix_id canonical_id =
     write_key [WriteTableName kQueryTargetsTable, WriteCanonicalId canonical_id]"

definition LevelDbQueryTargetKey_Key :: "string \<Rightarrow> int32 \<Rightarrow> bytes result" where
  "LevelDbQueryTargetKey_Key canonical_id target_id =
     write_key [WriteTableName kQueryTargetsTable, WriteCanonicalId canonical_id, WriteTargetId target_id, WriteTerminator]"

definition LevelDbQueryTargetKey_Decode :: "bytes \<Rightarrow> ((string \<times> int32) \<times> bool) result" where
  "LevelDbQueryTargetKey_Decode = decode (
     then_read (ReadTableNameMatching kQueryTargetsTable) (\<lambda>_.
     then_read ReadCanonicalId (\<lambda>canonical_id.
     then_read ReadTargetId (\<lambda>target_id.
     then_read ReadTerminator (\<lambda>_. give (canonical_id, target_id))))))"

definition LevelDbTargetDocumentKey_KeyPrefix :: "bytes result" where
  "LevelDbTargetDocumentKey_KeyPrefix = write_key [WriteTableName kTargetDocumentsTable]"

definition LevelDbTargetDocumentKey_KeyPrefix_target :: "int32 \<Rightarrow> bytes result" where
  "LevelDbTargetDocumentKey_KeyPrefix_target target_id =
     write_key [WriteTableName kTargetDocumentsTable, WriteTargetId target_id]"

definition LevelDbTargetDocumentKey_Key :: "int32 \<Rightarrow> DocumentKey \<Rightarrow> bytes result" where
  "LevelDbTargetDocumentKey_Key target_id document_key =
     write_key [WriteTableName kTargetDocumentsTable, WriteTargetId target_id, WriteResourcePath document_key, WriteTerminator]"

definition LevelDbTargetDocumentKey_Decode :: "bytes \<Rightarrow> ((int32 \<times> DocumentKey) \<times> bool) result" where
  "LevelDbTargetDocumentKey_Decode = decode (
     then_read (ReadTableNameMatching kTargetDocumentsTable) (\<lambda>_.
     then_read ReadTargetId (\<lambda>target_id.
     then_read ReadDocumentKey (\<lambda>document_key.
     then_read ReadTerminator (\<lambda>_. give (target_id, document_key))))))"

definition LevelDbDocumentTargetKey_KeyPrefix :: "bytes result" where
  "LevelDbDocumentTargetKey_KeyPrefix = write_key [WriteTableName kDocumentTargetsTable]"

definition LevelDbDocumentTargetKey_KeyPrefix_path :: "ResourcePath \<Rightarrow> bytes result" where
  "LevelDbDocumentTargetKey_KeyPrefix_path resource_path =
     write_key [WriteTableName kDocumentTargetsTable, WriteResourcePath resource_path]"

definition LevelDbDocumentTargetKey_Key :: "DocumentKey \<Rightarrow> int32 \<Rightarrow> bytes result" where
  "LevelDbDocumentTargetKey_Key document_key target_id =
     write_key [WriteTableName kDocumentTargetsTable, WriteResourcePath document_key, WriteTargetId target_id, WriteTerminator]"

definition kInvalidTargetId :: int32 where
  "kInvalidTargetId = 0"

definition LevelDbDocumentTargetKey_SentinelKey :: "DocumentKey \<Rightarrow> bytes result" where
  "LevelDbDocumentTargetKey_SentinelKey document_key = LevelDbDocumentTargetKey_Key document_key kInvalidTargetId"

definition EncodeSentinelValue :: "int64 \<Rightarrow> bytes result" where
  "EncodeSentinelValue sequence_number = WriteSignedNumIncreasing [] sequence_number"

definition DecodeSentinelValue :: "bytes \<Rightarrow> int64 result" where
  "DecodeSentinelValue src =
     (case ReadSignedNumIncreasing src of
        Inl e \<Rightarrow> Inl e
      | Inr None \<Rightarrow> Inl HardFail
      | Inr (Some (rest, decoded)) \<Rightarrow> Inr decoded)"

definition IsSentinel :: "int32 \<Rightarrow> bool" where
  "IsSentinel target_id = (target_id = kInvalidTargetId)"

definition LevelDbDocumentTargetKey_Decode :: "bytes \<Rightarrow> ((DocumentKey \<times> int32) \<times> bool) result" where
  "LevelDbDocumentTargetKey_Decode = decode (
     then_read (ReadTableNameMatching kDocumentTargetsTable) (\<lambda>_.
     then_read ReadDocumentKey (\<lambda>document_key.
     then_read ReadTargetId (\<lambda>target_id.
     then_read ReadTerminator (\<lambda>_. give (document_key, target_id))))))"

definition LevelDbRemoteDocumentKey_KeyPrefix :: "bytes result" where
  "LevelDbRemoteDocumentKey_KeyPrefix = write_key [WriteTableName kRemoteDocumentsTable]"

definition LevelDbRemoteDocumentKey_KeyPrefix_path :: "ResourcePath \<Rightarrow> bytes result" where
  "LevelDbRemoteDocumentKey_KeyPrefix_path resource_path =
     write_key [WriteTableName kRemoteDocumentsTable, WriteResourcePath resource_path]"

definition LevelDbRemoteDocumentKey_Key :: "DocumentKey \<Rightarrow> bytes result" where
  "LevelDbRemoteDocumentKey_Key document_key =
     write_key [WriteTableName kRemoteDocumentsTable, WriteResourcePath document_key, WriteTerminator]"

definition LevelDbRemoteDocumentKey_Decode :: "bytes \<Rightarrow> ((DocumentKey) \<times> bool) result" where
  "LevelDbRemoteDocumentKey_Decode = decode (
     then_read (ReadTableNameMatching kRemoteDocumentsTable) (\<lambda>_.
     then_read ReadDocumentKey (\<lambda>document_key.
     then_read ReadTerminator (\<lambda>_. give document_key))))"

definition LevelDbCollectionParentKey_KeyPrefix :: "bytes result" where
  "LevelDbCollectionParentKey_KeyPrefix = write_key [WriteTableName kCollectionParentsTable]"

definition LevelDbCollectionParentKey_KeyPrefix_id :: "string \<Rightarrow> bytes result" where
  "LevelDbCollectionParentKey_KeyPrefix_id collection_id =
     write_key [WriteTableName kCollectionParentsTable, WriteCollectionId collection_id]"

definition LevelDbCollectionParentKey_Key :: "string \<Rightarrow> ResourcePath \<Rightarrow> bytes result" where
  "LevelDbCollectionParentKey_Key collection_id parent =
     write_key [WriteTableName kCollectionParentsTable, WriteCollectionId collection_id, WriteResourcePath parent, WriteTerminator]"

definition LevelDbCollectionParentKey_Decode :: "bytes \<Rightarrow> ((string \<times> ResourcePath) \<times> bool) result" where
  "LevelDbCollectionParentKey_Decode = decode (
     then_read (ReadTableNameMatching kCollectionParentsTable) (\<lambda>_.
     then_read ReadCollectionId (\<lambda>collection_id.
     then_read ReadResourcePath (\<lambda>parent.
     then_read ReadTerminator (\<lambda>_. give (collection_id, parent))))))"

definition LevelDbRemoteDocumentReadTimeKey_KeyPrefix :: "ResourcePath \<Rightarrow> SnapshotVersion \<Rightarrow> bytes result" where
  "LevelDbRemoteDocumentReadTimeKey_KeyPrefix collection_path read_time =
     write_key [WriteTableName kRemoteDocumentReadTimeTable, WriteResourcePath collection_path, WriteSnapshotVersion read_time]"

definition LevelDbRemoteDocumentReadTimeKey_Key :: "ResourcePath \<Rightarrow> SnapshotVersion \<Rightarrow> string \<Rightarrow> bytes result" where
  "LevelDbRemoteDocumentReadTimeKey_Key collection_path read_time document_id =
     write_key [WriteTableName kRemoteDocumentReadTimeTable, WriteResourcePath collection_path, WriteSnapshotVersion read_time, WriteDocumentId document_id, WriteTerminator]"

definition LevelDbRemoteDocumentReadTimeKey_Decode :: "bytes \<Rightarrow> ((ResourcePath \<times> SnapshotVersion \<times> string) \<times> bool) result" where
  "LevelDbRemoteDocumentReadTimeKey_Decode = decode (
     then_read (ReadTableNameMatching kRemoteDocumentReadTimeTable) (\<lambda>_.
     then_read ReadResourcePath (\<lambda>collection_path.
     then_read ReadSnapshotVersion (\<lambda>read_time.
     then_read ReadDocumentId (\<lambda>document_id.
     then_read ReadTerminator (\<lambda>_. give (collection_path, read_time, document_id)))))))"

end
