(* ===== verification/OrderedNumbers.thy ===== *)
theory OrderedNumbers
  imports OrderedCodeProofs
begin

text \<open>
  The encodings of numbers of \<open>util/ordered_code.cc\<close>: both are the big-endian bytes of a number, with
  a length byte or length bits in front; the signed one of a negative number is the complement of that
  of its complement.
\<close>

section \<open>Big-endian bytes\<close>

definition be :: "nat \<Rightarrow> nat \<Rightarrow> bytes" where
  "be n v = map (\<lambda>i. word_of_nat (v div 256 ^ i)) (rev [0..<n])"

definition be_value :: "bytes \<Rightarrow> nat" where
  "be_value bs = foldl (\<lambda>a b. a * 256 + unat b) 0 bs"

lemma length_be [simp]: "length (be n v) = n"
  by (simp add: be_def)

lemma be_Suc: "be (Suc n) v = word_of_nat (v div 256 ^ n) # be n v"
  by (simp add: be_def)

lemma be_0 [simp]: "be 0 v = []"
  by (simp add: be_def)

lemma be_drop: "k \<le> n \<Longrightarrow> drop k (be n v) = be (n - k) v"
proof (induction k arbitrary: n)
  case (Suc k)
  then obtain m where "n = Suc m" by (cases n) auto
  then show ?case using Suc by (simp add: be_Suc)
qed simp

lemma be_value_foldl: "foldl (\<lambda>a b. a * 256 + unat b) a bs = a * 256 ^ length bs + be_value bs"
  unfolding be_value_def
proof (induction bs arbitrary: a)
  case (Cons b bs)
  show ?case using Cons[of "a * 256 + unat b"] Cons[of "unat b"] by (simp add: algebra_simps)
qed simp

lemma be_value_simps [simp]: "be_value [] = 0" "be_value (b # bs) = unat b * 256 ^ length bs + be_value bs"
  using be_value_foldl[of "unat b" bs] by (simp_all add: be_value_def)

lemma be_value_less: "be_value bs < 256 ^ length bs"
proof (induction bs)
  case (Cons b bs)
  have "Suc (unat b) * 256 ^ length bs \<le> 256 * 256 ^ length bs"
    using byte_less_256[of b] by (intro mult_le_mono1) simp
  moreover have "unat b * 256 ^ length bs + be_value bs < Suc (unat b) * 256 ^ length bs" using Cons by simp
  ultimately show ?case by (simp only: be_value_simps list.size add_Suc_right power_Suc add_0_right)
qed simp

lemma unat_byte: "unat (word_of_nat n :: byte) = n mod 256"
  by (simp add: unat_of_nat)

lemma be_value_be: "be_value (be n v) = v mod 256 ^ n"
proof (induction n)
  case (Suc n)
  have "v mod (256 ^ n * 256) = 256 ^ n * (v div 256 ^ n mod 256) + v mod 256 ^ n" by (rule mod_mult2_eq)
  then show ?case using Suc by (simp add: be_Suc unat_byte algebra_simps)
qed simp

lemma word_of_nat_256: "(word_of_nat (a + 256 * c) :: byte) = word_of_nat a"
  by (simp only: word_of_nat_eq_iff) (simp add: take_bit_eq_mod)

lemma be_be_value: "be (length bs) (be_value bs) = bs"
proof (induction bs)
  case (Cons b bs)
  have l: "be_value bs < 256 ^ length bs" by (rule be_value_less)
  have "be (length bs) (unat b * 256 ^ length bs + be_value bs) = be (length bs) (be_value bs)"
  proof -
    have "word_of_nat ((x * 256 ^ m + y) div 256 ^ i) = (word_of_nat (y div 256 ^ i) :: byte)" if im: "i < m" for x y m i
    proof -
      obtain k where "m = Suc (i + k)" using less_imp_Suc_add[OF im] by blast
      then have m: "m = Suc (k + i)" by simp
      have "(x * 256 ^ m + y) div 256 ^ i = (y + 256 * (x * 256 ^ k) * 256 ^ i) div 256 ^ i" by (simp add: m power_add algebra_simps)
      also have "\<dots> = y div 256 ^ i + 256 * (x * 256 ^ k)" by simp
      finally show ?thesis by (simp only: word_of_nat_256)
    qed
    then show ?thesis by (simp add: be_def)
  qed
  moreover have "(unat b * 256 ^ length bs + be_value bs) div 256 ^ length bs = unat b" using l by simp
  ultimately show ?case using Cons by (simp add: be_Suc)
qed simp

lemma be_bytes_be: "be_bytes n v = be n (unat v)"
proof -
  have "(ucast (drop_bit k v) :: byte) = word_of_nat (unat v div 2 ^ k)" for k
  proof -
    have "(ucast (drop_bit k v) :: byte) = word_of_nat (unat (drop_bit k v))" by simp
    then show ?thesis by (simp only: unat_drop_bit_eq[of k v] drop_bit_eq_div[of k "unat v"])
  qed
  then show ?thesis by (simp add: be_bytes_def be_def power_mult)
qed

text \<open>Among lists of one length the value decides the order.\<close>

lemma be_value_before:
  "length u = length v \<Longrightarrow> be_value u < be_value v \<Longrightarrow> byte_before u v"
proof (induction u v rule: list_induct2)
  case (Cons a u b v)
  show ?case
  proof (cases "a = b")
    case True
    then have "byte_before u v" using Cons by simp
    then show ?thesis using True byte_before_prefix[of u v "[a]"] by simp
  next
    case False
    have "a < b"
    proof (rule ccontr)
      assume "\<not> a < b"
      then have "unat b < unat a" using False by (simp add: word_less_nat_alt not_less le_less word_unat_eq_iff)
      then have "Suc (unat b) * 256 ^ length v \<le> unat a * 256 ^ length u" using Cons(1) by (intro mult_le_mono) auto
      then show False using Cons(3) be_value_less[of v] by simp
    qed
    then show ?thesis by (rule byte_before_Cons)
  qed
qed simp

lemma byte_before_trim:
  "byte_before (u @ r) (v @ s) \<Longrightarrow> byte_before u v \<or> (\<exists>w. v = u @ w) \<or> (\<exists>w. u = v @ w)"
proof -
  assume "byte_before (u @ r) (v @ s)"
  then obtain p a b x y where e: "u @ r = p @ a # x" "v @ s = p @ b # y" "a < b" unfolding byte_before_def by blast
  show ?thesis
  proof (cases "length p < length u \<and> length p < length v")
    case True
    have "u = p @ a # drop (Suc (length p)) u" "v = p @ b # drop (Suc (length p)) v"
      using e(1,2) True by (auto simp: append_eq_append_conv2 append_eq_Cons_conv)
    then show ?thesis using e(3) unfolding byte_before_def by blast
  next
    case False
    then have "take (length u) p = u \<or> take (length v) p = v"
      using e(1,2) by (auto simp: append_eq_append_conv_if)
    then show ?thesis using e(1,2) False by (auto simp: append_eq_append_conv2)
  qed
qed

section \<open>Logarithms\<close>

lemma bit_le: "bit (n :: nat) i \<Longrightarrow> 2 ^ i \<le> n"
  by (metis bit_iff_odd div_less even_zero not_le)

lemma high_bits_zero: "(\<forall>j. m \<le> j \<longrightarrow> \<not> bit (n :: nat) j) \<Longrightarrow> n < 2 ^ m"
proof -
  assume "\<forall>j. m \<le> j \<longrightarrow> \<not> bit n j"
  then have "take_bit m n = n" by (intro bit_eqI) (auto simp: bit_take_bit_iff not_le)
  then show ?thesis by (metis take_bit_nat_less_exp)
qed

lemma leading_zeros:
  fixes n :: "'w::len word"
  assumes "n \<noteq> 0" and W: "W = LENGTH('w)"
  defines "k \<equiv> length (takeWhile (\<lambda>i. \<not> bit n i) (rev [0..<W]))"
  shows "k < W" "2 ^ (W - 1 - k) \<le> unat n" "unat n < 2 ^ (W - k)"
proof -
  obtain j where j: "bit n j" using assms(1) by (metis bit_eqI bit_0_eq bot_apply bot_bool_def)
  then have jW: "j < W" using bit_imp_le_length W by blast
  show k: "k < W" unfolding k_def using length_takeWhile_less[of j "rev [0..<W]" "\<lambda>i. \<not> bit n i"] j jW by simp
  have at: "rev [0..<W] ! i = W - 1 - i" if "i < W" for i using that by (simp add: rev_nth)
  have "bit n (W - 1 - k)" using nth_length_takeWhile[of "\<lambda>i. \<not> bit n i" "rev [0..<W]"] k at[OF k] unfolding k_def by simp
  then have "bit (unat n) (W - 1 - k)" by (simp add: bit_unsigned_iff)
  then show "2 ^ (W - 1 - k) \<le> unat n" by (rule bit_le)
  have "\<not> bit n j" if "W - k \<le> j" for j
  proof (cases "j < W")
    case True
    have "W - 1 - j < k" using that k True by simp
    then have "\<not> bit n (rev [0..<W] ! (W - 1 - j))"
      using takeWhile_nth[of "W - 1 - j" "\<lambda>i. \<not> bit n i" "rev [0..<W]"] set_takeWhileD[of _ "\<lambda>i. \<not> bit n i" "rev [0..<W]"] nth_mem
      unfolding k_def by metis
    then show ?thesis using at[of "W - 1 - j"] True by simp
  next
    case False
    then show ?thesis using bit_imp_le_length W by auto
  qed
  then show "unat n < 2 ^ (W - k)" by (intro high_bits_zero) (simp add: bit_unsigned_iff)
qed

lemma log_unique: "2 ^ a \<le> (n :: nat) \<Longrightarrow> n < 2 ^ Suc b \<Longrightarrow> 2 ^ b \<le> n \<Longrightarrow> n < 2 ^ Suc a \<Longrightarrow> a = b"
proof -
  assume a: "2 ^ a \<le> n" "n < 2 ^ Suc b" "2 ^ b \<le> n" "n < 2 ^ Suc a"
  have "(2 :: nat) ^ a < 2 ^ Suc b" "(2 :: nat) ^ b < 2 ^ Suc a" using a by (blast intro: le_less_trans)+
  then have "a < Suc b" "b < Suc a" by (simp_all only: power_strict_increasing_iff one_less_numeral_iff semiring_norm)
  then show "a = b" by simp
qed

lemma Log2Floor64_eq:
  assumes "2 ^ m \<le> unat n" "unat n < 2 ^ Suc m"
  shows "Log2Floor64 n = int m"
proof -
  have n: "n \<noteq> 0" using assms(1) by auto
  let ?k = "length (takeWhile (\<lambda>i. \<not> bit n i) (rev [0..<64]))"
  note l = leading_zeros[OF n, of 64, simplified]
  have "64 - ?k = Suc (63 - ?k)" using l(1) by simp
  then have "m = 63 - ?k" using log_unique[OF assms(1) _ _ assms(2)] l by metis
  then show ?thesis using n l(1) by (simp add: Log2Floor64_def)
qed

lemma Log2FloorNonZero_eq:
  assumes "2 ^ m \<le> unat n" "unat n < 2 ^ Suc m"
  shows "Log2FloorNonZero n = int m"
proof -
  have n: "n \<noteq> 0" using assms(1) by auto
  let ?k = "length (takeWhile (\<lambda>i. \<not> bit n i) (rev [0..<32]))"
  note l = leading_zeros[OF n, of 32, simplified]
  have "32 - ?k = Suc (31 - ?k)" using l(1) by simp
  then have "m = 31 - ?k" using log_unique[OF assms(1) _ _ assms(2)] l by metis
  then show ?thesis using l(1) by (simp add: Log2FloorNonZero_def)
qed

text \<open>The portable variants compute the same.\<close>

lemma log_exists: "n \<noteq> (0 :: 64 word) \<Longrightarrow> \<exists>m < 64. 2 ^ m \<le> unat n \<and> unat n < 2 ^ Suc m"
proof -
  assume n: "n \<noteq> 0"
  let ?k = "length (takeWhile (\<lambda>i. \<not> bit n i) (rev [0..<64]))"
  note l = leading_zeros[OF n, of 64, simplified]
  have "64 - ?k = Suc (63 - ?k)" using l(1) by simp
  then show ?thesis using l(2,3) by (intro exI[of _ "63 - ?k"]) simp
qed

lemma Log2FloorNonZero64_eq [simp]: "Log2FloorNonZero64 n = Log2Floor64 n"
proof -
  have t: "takeWhile (\<lambda>i. True) xs = xs" for xs :: "nat list" by (rule takeWhile_eq_all_conv[THEN iffD2]) simp
  show ?thesis by (cases "n = 0") (simp_all add: Log2FloorNonZero64_def Log2Floor64_def t)
qed

lemma unat_drop_bit: "unat (drop_bit k (v :: 'w::len word)) = unat v div 2 ^ k"
  by (simp only: unat_drop_bit_eq drop_bit_eq_div[of k "unat v"])

lemma drop_bit_zero_iff: "(drop_bit k (v :: 'w::len word) = 0) = (unat v < 2 ^ k)"
proof -
  have "(drop_bit k v = 0) = (unat v div 2 ^ k = 0)"
    by (simp only: word_unat_eq_iff unat_drop_bit unat_0)
  then show ?thesis by (simp add: div_eq_0_iff)
qed

definition log_left :: "32 word \<Rightarrow> nat \<Rightarrow> 32 word \<times> nat \<Rightarrow> bool" where
  "log_left n k = (\<lambda>(v, log). unat v = unat n div 2 ^ log \<and> v \<noteq> 0 \<and> unat v < 2 ^ k)"

lemma log_step_left:
  assumes "log_left n (2 * 2 ^ i) s"
  shows "log_left n (2 ^ i) (log_step s i)"
proof -
  obtain v log where s: "s = (v, log)" by (cases s)
  have v: "unat v = unat n div 2 ^ log" "v \<noteq> 0" "unat v < 2 ^ 2 ^ i * 2 ^ 2 ^ i"
    using assms by (simp_all add: s log_left_def power2_eq_square mult.commute[of 2] power_mult)
  have d: "unat (drop_bit (2 ^ i) v) = unat v div 2 ^ 2 ^ i" by (rule unat_drop_bit)
  have "unat v div 2 ^ 2 ^ i < 2 ^ 2 ^ i" using v(3) by (rule less_mult_imp_div_less)
  moreover have "unat n div 2 ^ log div 2 ^ 2 ^ i = unat n div 2 ^ (log + 2 ^ i)"
    by (simp only: power_add div_mult2_eq)
  ultimately show ?thesis using v d drop_bit_zero_iff[of "2 ^ i" v]
    by (auto simp: s log_step_def log_left_def Let_def)
qed

lemma log_left_end:
  assumes "log_left n 1 (v, log)"
  shows "v = 1" "Log2FloorNonZero n = int log"
proof -
  have "unat v = 1" using assms by (auto simp: log_left_def word_unat_eq_iff less_Suc_eq numeral_2_eq_2)
  then show "v = 1" by (simp add: word_unat_eq_iff)
  have "unat n div 2 ^ log = 1" using assms \<open>unat v = 1\<close> by (simp add: log_left_def)
  then have "1 * 2 ^ log \<le> unat n" "unat n < Suc 1 * 2 ^ log"
    by (metis div_times_less_eq_dividend, metis dividend_less_div_times mult_Suc add.commute zero_less_power zero_less_numeral)
  then show "Log2FloorNonZero n = int log" by (intro Log2FloorNonZero_eq) simp_all
qed

lemma Log2Floor_Portable_eq: "Log2Floor_Portable n = Inr (Log2Floor n)"
proof (cases "n = 0")
  case True
  then show ?thesis by (simp add: Log2Floor_Portable_def Log2Floor_def)
next
  case False
  have "log_left n 32 (n, 0)" using False unsigned_less[of n] by (simp add: log_left_def)
  then have "log_left n (2 * 2 ^ 4) (n, 0)" by simp
  note step = log_step_left
  have "log_left n (2 ^ 0) (log_step (log_step (log_step (log_step (log_step (n, 0) 4) 3) 2) 1) 0)"
    by (intro step, simp, rule step[of _ 1, simplified], rule step[of _ 2, simplified], rule step[of _ 3, simplified],
        rule step[of _ 4, simplified]) fact
  then show ?thesis
    using log_left_end False by (auto simp: Log2Floor_Portable_def Log2Floor_def split: prod.split)
qed

lemma top_bits_log:
  assumes "unat n div 2 ^ 32 \<noteq> 0"
  shows "Log2Floor64 n = 32 + Log2FloorNonZero (ucast (drop_bit 32 n))"
proof -
  let ?t = "ucast (drop_bit 32 n) :: 32 word"
  have "unat n div 2 ^ 32 < 2 ^ 32" using unsigned_less[of n] by (intro less_mult_imp_div_less) simp
  then have t: "unat ?t = unat n div 2 ^ 32" by (simp add: unsigned_ucast_eq unat_drop_bit take_bit_nat_eq_self_iff del: drop_bit_eq_div)
  obtain m where m: "2 ^ m \<le> unat n" "unat n < 2 ^ Suc m" using assms log_exists[of n] by force
  have "32 \<le> m"
  proof (rule ccontr)
    assume "\<not> 32 \<le> m"
    then have "(2 :: nat) ^ Suc m \<le> 2 ^ 32" by (intro power_increasing) simp_all
    then show False using m(2) assms by simp
  qed
  then obtain k where k: "m = k + 32" by (metis add.commute le_Suc_ex)
  have "2 ^ k \<le> unat ?t" using m(1) div_le_mono[OF m(1), of "2 ^ 32"] unfolding t k power_add by simp
  moreover have "unat ?t < 2 ^ Suc k" using m(2) unfolding t k by (intro less_mult_imp_div_less) (simp add: power_add)
  ultimately have "Log2FloorNonZero ?t = int k" by (rule Log2FloorNonZero_eq)
  then show ?thesis using Log2Floor64_eq[OF m] by (simp add: k)
qed

lemma Log2Floor64_Portable_eq: "Log2Floor64_Portable n = Log2Floor64 n"
proof -
  have d: "(ucast (drop_bit 32 n) = (0 :: 32 word)) = (unat n div 2 ^ 32 = 0)"
  proof -
    have "unat n div 2 ^ 32 < 2 ^ 32" using unsigned_less[of n] by (intro less_mult_imp_div_less) simp
    then have "unat (ucast (drop_bit 32 n) :: 32 word) = unat n div 2 ^ 32"
      by (simp add: unsigned_ucast_eq unat_drop_bit take_bit_nat_eq_self_iff del: drop_bit_eq_div)
    then show ?thesis by (simp only: word_unat_eq_iff unat_0)
  qed
  show ?thesis
  proof (cases "unat n div 2 ^ 32 = 0")
    case True
    then have l: "unat n < 2 ^ 32" by (simp add: div_eq_0_iff)
    then have u: "unat (ucast n :: 32 word) = unat n" by (simp add: unsigned_ucast_eq take_bit_nat_eq_self_iff)
    then have z: "(ucast n = (0 :: 32 word)) = (n = 0)" by (metis unsigned_0 unsigned_word_eqI)
    have "Log2Floor (ucast n) = Log2Floor64 n"
    proof (cases "n = 0")
      case False
      then obtain m where m: "2 ^ m \<le> unat n" "unat n < 2 ^ Suc m" using log_exists by blast
      then have "Log2FloorNonZero (ucast n) = int m" by (intro Log2FloorNonZero_eq) (simp_all only: u)
      then show ?thesis using Log2Floor64_eq[OF m] z False by (simp add: Log2Floor_def)
    qed (simp add: Log2Floor_def Log2Floor64_def)
    then show ?thesis using True d by (simp add: Log2Floor64_Portable_def Let_def)
  next
    case False
    then show ?thesis using top_bits_log d by (simp add: Log2Floor64_Portable_def Let_def)
  qed
qed

section \<open>Reading bytes into a word\<close>

definition read_bytes :: "64 word \<Rightarrow> bytes \<Rightarrow> 64 word" where
  "read_bytes x bs = foldl (\<lambda>x b. push_bit 8 x OR ucast b) x bs"

lemma push_or: "push_bit 8 (word_of_nat a) OR ucast (b :: byte) = (word_of_nat (a * 256 + unat b) :: 64 word)"
proof -
  have "push_bit 8 (word_of_nat a :: 64 word) AND ucast b = 0"
    by (rule bit_word_eqI) (auto simp: bit_simps dest: bit_imp_le_length)
  then have "push_bit 8 (word_of_nat a :: 64 word) OR ucast b = push_bit 8 (word_of_nat a) + ucast b"
    by (rule disjunctive_add_eq_or[symmetric])
  then show ?thesis by (simp add: push_bit_eq_mult mult.commute)
qed

lemma read_bytes_value: "read_bytes (word_of_nat a) bs = word_of_nat (a * 256 ^ length bs + be_value bs)"
proof (induction bs arbitrary: a)
  case (Cons b bs)
  have "read_bytes (word_of_nat a) (b # bs) = read_bytes (word_of_nat (a * 256 + unat b)) bs"
    by (simp only: read_bytes_def foldl.simps push_or)
  then show ?case using Cons[of "a * 256 + unat b"] by (simp only: be_value_simps length_Cons power_Suc algebra_simps)
qed (simp add: read_bytes_def)

lemma read_bytes_0: "read_bytes 0 bs = word_of_nat (be_value bs)"
  using read_bytes_value[of 0 bs] by simp

lemma read_bytes_not: "read_bytes (NOT x) (map NOT bs) = NOT (read_bytes x bs)"
proof (induction bs arbitrary: x)
  case (Cons b bs)
  have "push_bit 8 (NOT x) OR ucast (NOT b) = NOT (push_bit 8 x OR ucast b)"
    by (rule bit_word_eqI) (auto simp: bit_simps dest: bit_imp_le_length)
  then show ?case using Cons.IH[of "push_bit 8 x OR ucast b"] by (simp only: read_bytes_def foldl.simps list.map)
qed (simp add: read_bytes_def)

lemma read_bytes_8: "length bs = 8 \<Longrightarrow> read_bytes x bs = read_bytes 0 bs"
proof -
  assume l: "length bs = 8"
  have "(256 :: 64 word) ^ 8 = 0" by simp
  moreover have "read_bytes x bs = word_of_nat (unat x * 256 ^ 8 + be_value bs)"
    using read_bytes_value[of "unat x" bs] l by simp
  ultimately show ?thesis by (simp only: of_nat_add of_nat_mult of_nat_power of_nat_numeral mult_zero_right add_0 read_bytes_0)
qed

section \<open>Unsigned numbers\<close>

lemma OrderedNumLength_spec:
  "unat val < 256 ^ OrderedNumLength val" "OrderedNumLength val \<le> 8"
  "OrderedNumLength val = 0 \<or> 256 ^ (OrderedNumLength val - 1) \<le> unat val"
proof -
  have "unat val < 256 ^ OrderedNumLength val \<and> OrderedNumLength val \<le> 8 \<and>
    (OrderedNumLength val = 0 \<or> 256 ^ (OrderedNumLength val - 1) \<le> unat val)"
  proof (cases "val = 0")
    case True
    then show ?thesis by (simp add: OrderedNumLength_def Log2Floor64_def)
  next
    case False
    then obtain m where m: "m < 64" "2 ^ m \<le> unat val" "unat val < 2 ^ Suc m" using log_exists by blast
    define q where "q = m div 8"
    have q: "8 * q \<le> m" "Suc m \<le> 8 * Suc q" "q < 8" using m(1) by (simp_all add: q_def)
    have "nat (int m + 1 + 7) div 8 = Suc q" by (simp add: q_def nat_add_distrib flip: of_nat_Suc)
    then have l: "OrderedNumLength val = Suc q" by (simp add: OrderedNumLength_def Log2Floor64_eq[OF m(2,3)])
    have "(2 :: nat) ^ (8 * q) \<le> 2 ^ m" "(2 :: nat) ^ Suc m \<le> 2 ^ (8 * Suc q)" using q by (simp_all only: power_increasing one_le_numeral)
    moreover have "(256 :: nat) ^ k = 2 ^ (8 * k)" for k by (simp add: power_mult)
    ultimately have "256 ^ q \<le> unat val" "unat val < 256 ^ Suc q" using m(2,3) by (metis le_trans, metis less_le_trans)
    then show ?thesis using l q(3) by simp
  qed
  then show "unat val < 256 ^ OrderedNumLength val" "OrderedNumLength val \<le> 8"
    "OrderedNumLength val = 0 \<or> 256 ^ (OrderedNumLength val - 1) \<le> unat val" by blast+
qed

definition num_code :: "64 word \<Rightarrow> bytes" where
  "num_code val = word_of_nat (OrderedNumLength val) # be (OrderedNumLength val) (unat val)"

lemma drop_update_same: "i < length xs \<Longrightarrow> drop i (xs[i := x]) = x # drop (Suc i) xs"
  by (metis Cons_nth_drop_Suc drop_update_cancel length_list_update lessI nth_list_update_eq)

lemma WriteNumIncreasing_spec: "WriteNumIncreasing dest val = dest @ num_code val"
proof -
  let ?n = "OrderedNumLength val" and ?z = "replicate 8 (0 :: byte)"
  let ?buf = "[0] @ be_bytes 8 val @ ?z"
  have n: "?n \<le> 8" by (rule OrderedNumLength_spec)
  have l: "8 - ?n < length ?buf" by (simp add: be_bytes_def)
  have "drop (8 - ?n) (?buf[8 - ?n := word_of_nat ?n]) = word_of_nat ?n # drop (Suc (8 - ?n)) ?buf"
    by (rule drop_update_same[OF l])
  also have "\<dots> = word_of_nat ?n # drop (8 - ?n) (be_bytes 8 val) @ ?z" by (simp add: be_bytes_def)
  also have "\<dots> = num_code val @ ?z" using n by (simp add: be_bytes_be be_drop num_code_def)
  finally have b: "drop (9 - ?n - 1) (?buf[9 - ?n - 1 := word_of_nat ?n]) = num_code val @ ?z" by simp
  have "length (num_code val) = Suc ?n" by (simp add: num_code_def)
  moreover have "WriteNumIncreasing dest val = AppendUpto9 dest (num_code val @ ?z) (?n + 1)"
    by (simp only: WriteNumIncreasing_def Let_def b)
  ultimately show ?thesis using n by (simp add: AppendUpto9_def)
qed

lemma scast_small: "n \<le> 8 \<Longrightarrow> (scast (word_of_nat n :: byte) :: 64 word) = word_of_nat n"
proof -
  assume "n \<le> 8"
  then have "n \<in> {0, 1, 2, 3, 4, 5, 6, 7, 8}" by auto
  then show ?thesis by auto
qed

lemma ReadNumIncreasing_code: "ReadNumIncreasing (num_code val @ rest) = Inr (Some (rest, val))"
proof -
  let ?n = "OrderedNumLength val" and ?src = "num_code val @ rest"
  note n = OrderedNumLength_spec[of val]
  have len: "(scast (?src ! 0) :: 64 word) = word_of_nat ?n" using scast_small[OF n(2)] by (simp add: num_code_def)
  have un: "unat (word_of_nat ?n :: 64 word) = ?n" "unat (word_of_nat ?n + 1 :: 64 word) = Suc ?n"
    using n(2) by (simp_all add: unat_of_nat unat_word_ariths)
  have le: "\<not> length ?src < unat (word_of_nat ?n + 1 :: 64 word)" unfolding un(2) by (simp add: num_code_def)
  have l8: "\<not> 8 < (word_of_nat ?n :: 64 word)" using n(2) by (simp add: word_less_nat_alt un(1))
  have nz: "word_of_nat ?n = (0 :: 64 word) \<or> length ?src = 1 \<or> ?src ! 1 \<noteq> 0"
  proof (cases ?n)
    case (Suc k)
    have "?src ! 1 = word_of_nat (unat val div 256 ^ k)" using Suc by (simp add: num_code_def be_Suc nth_append)
    moreover have "unat val div 256 ^ k < 256" "0 < unat val div 256 ^ k"
      using n(1,3) Suc by (simp_all add: less_mult_imp_div_less div_greater_zero_iff)
    then have "unat (word_of_nat (unat val div 256 ^ k) :: byte) \<noteq> 0" by (simp add: unat_byte)
    ultimately show ?thesis by (metis unat_0)
  qed simp
  have tk: "take ?n (drop 1 ?src) = be ?n (unat val)" by (simp add: num_code_def)
  have "read_bytes 0 (be ?n (unat val)) = val" using n(1) by (simp add: read_bytes_0 be_value_be)
  then show ?thesis using nz le l8
    by (simp add: ReadNumIncreasing_def Let_def len un(1) hard_assert_def read_bytes_def[symmetric] tk) (simp add: num_code_def)
qed

lemma num_code_before:
  assumes "x < y"
  shows "byte_before (num_code x) (num_code y)"
proof -
  let ?m = "OrderedNumLength x" and ?n = "OrderedNumLength y"
  have xy: "unat x < unat y" using assms by (simp add: word_less_nat_alt)
  note sx = OrderedNumLength_spec[of x] and sy = OrderedNumLength_spec[of y]
  show ?thesis
  proof (cases "?m = ?n")
    case True
    have "byte_before (be ?n (unat x)) (be ?n (unat y))"
      using xy sx(1) sy(1) True by (intro be_value_before) (simp_all add: be_value_be)
    then show ?thesis using byte_before_prefix[of _ _ "[word_of_nat ?n]"] True by (simp add: num_code_def)
  next
    case False
    have "\<not> ?n < ?m"
    proof
      assume "?n < ?m"
      then have "(256 :: nat) ^ ?n \<le> 256 ^ (?m - 1)" by (intro power_increasing) simp_all
      moreover have "256 ^ (?m - 1) \<le> unat x" using sx(3) \<open>?n < ?m\<close> by (cases "?m = 0") simp_all
      ultimately have "unat y < unat x" using sy(1) by (meson le_trans less_le_trans)
      then show False using xy by simp
    qed
    then have "?m < ?n" using False by simp
    then have "(word_of_nat ?m :: byte) < word_of_nat ?n" using sy(2) by (simp add: word_less_nat_alt unat_byte)
    then show ?thesis unfolding num_code_def by (rule byte_before_Cons)
  qed
qed

interpretation num_item: ordered_item num_code ReadNumIncreasing "(<)"
  by unfold_locales (simp_all add: ReadNumIncreasing_code num_code_before)

section \<open>Signed numbers\<close>

text \<open>The header bits of a code of \<open>n\<close> bytes as a number, and the code of a number that is not negative.\<close>

definition header :: "nat \<Rightarrow> nat" where
  "header n = 2 ^ (8 * n) - 2 ^ (7 * n)"

definition signed_len :: "nat \<Rightarrow> nat" where
  "signed_len x = SignedEncodingLengthPositive (word_of_nat x)"

definition pos_code :: "nat \<Rightarrow> bytes" where
  "pos_code x = be (signed_len x) (x + header (signed_len x))"

definition signed_code :: "64 word \<Rightarrow> bytes" where
  "signed_code val = (if sint val < 0 then map NOT (pos_code (unat (NOT val))) else pos_code (unat val))"

lemma kBitsToLength_fits:
  "b < 64 \<Longrightarrow> 1 \<le> kBitsToLength ! b \<and> kBitsToLength ! b \<le> 10 \<and> b \<le> 7 * kBitsToLength ! b - 1 \<and>
    (kBitsToLength ! b = 1 \<or> 7 * (kBitsToLength ! b - 1) - 1 < b)"
proof -
  have "list_all (\<lambda>b. 1 \<le> kBitsToLength ! b \<and> kBitsToLength ! b \<le> 10 \<and> b \<le> 7 * kBitsToLength ! b - 1 \<and>
    (kBitsToLength ! b = 1 \<or> 7 * (kBitsToLength ! b - 1) - 1 < b)) [0..<64]" by code_simp
  then show "b < 64 \<Longrightarrow> ?thesis" by (simp add: list_all_iff)
qed

lemma signed_len_spec:
  assumes "x < 2 ^ 63"
  shows "1 \<le> signed_len x" "signed_len x \<le> 10" "x < 2 ^ (7 * signed_len x - 1)"
    "signed_len x = 1 \<or> 2 ^ (7 * (signed_len x - 1) - 1) \<le> x"
proof -
  let ?n = "signed_len x"
  have ux: "unat (word_of_nat x :: 64 word) = x" using assms by (simp add: unat_of_nat)
  have "1 \<le> ?n \<and> ?n \<le> 10 \<and> x < 2 ^ (7 * ?n - 1) \<and> (?n = 1 \<or> 2 ^ (7 * (?n - 1) - 1) \<le> x)"
  proof (cases "x = 0")
    case True
    then show ?thesis by (simp add: signed_len_def SignedEncodingLengthPositive_def Log2Floor64_def kBitsToLength_def)
  next
    case False
    then have "(word_of_nat x :: 64 word) \<noteq> 0" using ux by (metis unat_0)
    then obtain m where m: "2 ^ m \<le> x" "x < 2 ^ Suc m" using log_exists ux by metis
    have "(2 :: nat) ^ m < 2 ^ 63" using m(1) assms by (rule le_less_trans)
    then have "Suc m < 64" by (simp only: power_strict_increasing_iff one_less_numeral_iff semiring_norm)
    from kBitsToLength_fits[OF this] have k: "1 \<le> kBitsToLength ! Suc m" "kBitsToLength ! Suc m \<le> 10"
      "Suc m \<le> 7 * kBitsToLength ! Suc m - 1"
      "kBitsToLength ! Suc m = 1 \<or> 7 * (kBitsToLength ! Suc m - 1) - 1 < Suc m" by blast+
    have "Log2Floor64 (word_of_nat x) = int m" using m ux by (intro Log2Floor64_eq) simp_all
    then have n: "?n = kBitsToLength ! Suc m"
      by (simp add: signed_len_def SignedEncodingLengthPositive_def nat_add_distrib)
    have "x < 2 ^ (7 * ?n - 1)"
      using m(2) power_increasing[of "Suc m" "7 * ?n - 1" "2 :: nat"] k(3) unfolding n by (meson less_le_trans one_le_numeral)
    moreover have "?n = 1 \<or> 2 ^ (7 * (?n - 1) - 1) \<le> x"
      using m(1) power_increasing[of "7 * (?n - 1) - 1" m "2 :: nat"] k(4) unfolding n
      by (meson le_trans less_Suc_eq_le one_le_numeral)
    ultimately show ?thesis using k(1,2) n by simp
  qed
  then show "1 \<le> ?n" "?n \<le> 10" "x < 2 ^ (7 * ?n - 1)" "?n = 1 \<or> 2 ^ (7 * (?n - 1) - 1) \<le> x" by blast+
qed

lemma signed_len_unique:
  assumes "x < 2 ^ 63" "1 \<le> n" "x < 2 ^ (7 * n - 1)" "n = 1 \<or> 2 ^ (7 * (n - 1) - 1) \<le> x"
  shows "signed_len x = n"
proof -
  note s = signed_len_spec[OF assms(1)]
  have lt: "\<not> a < b" if "x < 2 ^ (7 * a - 1)" "b = 1 \<or> 2 ^ (7 * (b - 1) - 1) \<le> x" "1 \<le> a" for a b
  proof
    assume ab: "a < b"
    then have "2 ^ (7 * (b - 1) - 1) \<le> x" using that by auto
    moreover have "(2 :: nat) ^ (7 * a - 1) \<le> 2 ^ (7 * (b - 1) - 1)" using ab that(3) by (intro power_increasing) auto
    ultimately show False using that(1) by (meson le_trans not_le)
  qed
  show ?thesis using lt[OF s(3) assms(4) s(1)] lt[OF assms(3) s(4) assms(2)] by simp
qed

lemma lengths_2_10: "2 \<le> n \<Longrightarrow> n \<le> 10 \<Longrightarrow> n \<in> {2, 3, 4, 5, 6, 7, 8, 9, 10 :: nat}"
  by auto

lemma xor_disjoint:
  assumes "a < 2 ^ k" "h = 2 ^ k * c"
  shows "(word_of_nat a XOR word_of_nat h :: 'w::len word) = word_of_nat (a + h)"
proof -
  have "take_bit k a = a" using assms(1) by (simp add: take_bit_nat_eq_self)
  moreover have "h = push_bit k c" using assms(2) by (simp add: push_bit_eq_mult mult.commute)
  ultimately have "a AND h = 0" by (intro bit_eqI) (metis bit_take_bit_iff bit_push_bit_iff_nat bit_and_iff bit_0_eq bot_apply bot_bool_def not_less)
  then have "a + h = a XOR h" by (rule disjunctive_add_eq_xor)
  then show ?thesis by (simp add: of_nat_xor_eq)
qed

lemma be_add_high: "be m (v + 256 ^ m * c) = be m v"
proof -
  have "word_of_nat ((v + 256 ^ m * c) div 256 ^ i) = (word_of_nat (v div 256 ^ i) :: byte)" if im: "i < m" for i
  proof -
    obtain k where "m = Suc (i + k)" using less_imp_Suc_add[OF im] by blast
    then have "(v + 256 ^ m * c) div 256 ^ i = (v + 256 * (256 ^ k * c) * 256 ^ i) div 256 ^ i" by (simp add: power_add algebra_simps)
    also have "\<dots> = v div 256 ^ i + 256 * (256 ^ k * c)" by simp
    finally show ?thesis by (simp only: word_of_nat_256)
  qed
  then show ?thesis by (simp add: be_def)
qed

definition xor_header :: "nat \<Rightarrow> bytes \<Rightarrow> bytes" where
  "xor_header n bs = (let bs = bs[0 := bs ! 0 XOR fst (kLengthToHeaderBits ! n)]
     in bs[1 := bs ! 1 XOR snd (kLengthToHeaderBits ! n)])"

lemma div_256_Suc: "(v :: nat) div 256 ^ Suc m = v div 256 ^ m div 256"
  by (simp only: power_Suc2 div_mult2_eq)

lemma xor_header_be:
  "xor_header (m + 2) (be (m + 2) v) =
     (word_of_nat (v div 256 ^ m div 256) XOR fst (kLengthToHeaderBits ! (m + 2))) #
     (word_of_nat (v div 256 ^ m) XOR snd (kLengthToHeaderBits ! (m + 2))) # be m v"
  unfolding add_2_eq_Suc' be_Suc div_256_Suc by (simp add: xor_header_def Let_def)

lemma be_plus_header:
  assumes "header (m + 2) = 256 ^ m * H"
  shows "be (m + 2) (v + header (m + 2)) =
     word_of_nat ((v div 256 ^ m + H) div 256) # word_of_nat (v div 256 ^ m + H) # be m v"
proof -
  have "(v + 256 ^ m * H) div 256 ^ m = v div 256 ^ m + H" by simp
  then show ?thesis unfolding assms unfolding add_2_eq_Suc' be_Suc div_256_Suc be_add_high by (simp only:)
qed

lemma headers:
  assumes "m \<le> 6"
  shows "fst (kLengthToHeaderBits ! (m + 2)) = word_of_nat (2 ^ (6 - m) * (2 ^ (m + 2) - 1))"
    "snd (kLengthToHeaderBits ! (m + 2)) = 0" "header (m + 2) = 256 ^ m * (256 * (2 ^ (6 - m) * (2 ^ (m + 2) - 1)))"
proof -
  have "m \<in> {0, 1, 2, 3, 4, 5, 6}" using assms by auto
  then show "fst (kLengthToHeaderBits ! (m + 2)) = word_of_nat (2 ^ (6 - m) * (2 ^ (m + 2) - 1))"
    "snd (kLengthToHeaderBits ! (m + 2)) = 0" "header (m + 2) = 256 ^ m * (256 * (2 ^ (6 - m) * (2 ^ (m + 2) - 1)))"
    by (auto simp: kLengthToHeaderBits_def header_def)
qed

lemma xor_header_code:
  assumes "v < 2 ^ (7 * (m + 2) - 1)" "v < 2 ^ 63" "m \<le> 8"
  shows "xor_header (m + 2) (be (m + 2) v) = be (m + 2) (v + header (m + 2))"
proof -
  define q where "q = v div 256 ^ m"
  consider "m \<le> 6" | "m = 7" | "m = 8" using assms(3) by linarith
  then show ?thesis
  proof cases
    case 1
    let ?h = "2 ^ (6 - m) * (2 ^ (m + 2) - 1) :: nat"
    note h = headers[OF 1]
    have "(2 :: nat) ^ (6 - m) * 256 ^ Suc m = 2 ^ (6 - m + 8 * Suc m)" by (simp only: power_add power_mult) simp
    moreover have "(2 :: nat) ^ (7 * (m + 2) - 1) \<le> 2 ^ (6 - m + 8 * Suc m)" using 1 by (intro power_increasing) auto
    ultimately have "v < 2 ^ (6 - m) * 256 ^ Suc m" using assms(1) by linarith
    then have "v div 256 ^ Suc m < 2 ^ (6 - m)" by (rule less_mult_imp_div_less)
    then have "q div 256 < 2 ^ (6 - m)" by (simp only: div_256_Suc q_def)
    from xor_disjoint[OF this refl, where c = "2 ^ (m + 2) - 1" and 'w = 8]
    have "word_of_nat (q div 256) XOR word_of_nat ?h = (word_of_nat (q div 256 + ?h) :: byte)" .
    moreover have "(q + 256 * ?h) div 256 = q div 256 + ?h" by simp
    ultimately show ?thesis
      unfolding xor_header_be be_plus_header[OF h(3)] h(1,2) q_def[symmetric] word_of_nat_256 by simp
  next
    case 2
    have q: "q < 2 ^ 6" using assms(1) 2 unfolding q_def by (intro less_mult_imp_div_less) simp
    have h: "header (m + 2) = 256 ^ m * (128 + 256 * 255)" by (simp add: 2 header_def)
    have "word_of_nat q XOR word_of_nat 128 = (word_of_nat (q + 128) :: byte)" using q by (intro xor_disjoint[of q 6 128 2]) simp_all
    moreover have "(word_of_nat (q + (128 + 256 * 255)) :: byte) = word_of_nat (q + 128)"
      using word_of_nat_256[of "q + 128" 255] by (simp only: add.assoc)
    moreover have "q div 256 = 0" "(q + (128 + 256 * 255)) div 256 = 255" using q by simp_all
    moreover have "fst (kLengthToHeaderBits ! (m + 2)) = 255" "snd (kLengthToHeaderBits ! (m + 2)) = word_of_nat 128"
      by (simp_all add: 2 kLengthToHeaderBits_def)
    ultimately show ?thesis unfolding xor_header_be be_plus_header[OF h] q_def[symmetric] by simp
  next
    case 3
    have q: "q = 0" using assms(2) 3 by (simp add: q_def)
    have h: "header (m + 2) = 256 ^ m * (192 + 256 * 255)" by (simp add: 3 header_def)
    have "fst (kLengthToHeaderBits ! (m + 2)) = 255" "snd (kLengthToHeaderBits ! (m + 2)) = 192"
      by (simp_all add: 3 kLengthToHeaderBits_def)
    then show ?thesis unfolding xor_header_be be_plus_header[OF h] q_def[symmetric] q by simp
  qed
qed

text \<open>The codes of negative numbers are complements.\<close>

lemma be_bytes_not: "n \<le> 8 \<Longrightarrow> be_bytes n (NOT v) = map NOT (be_bytes n v)"
proof -
  assume n: "n \<le> 8"
  have "(ucast (drop_bit (8 * i) (NOT v)) :: byte) = NOT (ucast (drop_bit (8 * i) v))" if "i < n" for i
    using that n by (intro bit_word_eqI) (auto simp: bit_simps)
  then show ?thesis by (simp add: be_bytes_def)
qed

lemma xor_header_not: "2 \<le> length bs \<Longrightarrow> xor_header n (map NOT bs) = map NOT (xor_header n bs)"
proof -
  assume "2 \<le> length bs"
  then obtain a b r where "bs = a # b # r" by (metis Suc_le_length_iff numeral_2_eq_2)
  moreover have "NOT x XOR h = NOT (x XOR h)" for x h :: byte by (rule bit_word_eqI) (auto simp: bit_simps)
  ultimately show ?thesis by (simp add: xor_header_def Let_def)
qed

lemma magnitude:
  fixes val :: "64 word"
  defines "x \<equiv> (if sint val < 0 then NOT val else val)"
  shows "unat x < 2 ^ 63" "sint x = int (unat x)" "0 \<le> sint x"
proof -
  have b: "bit v 63 = (sint v < 0)" for v :: "64 word" using bit_last_iff[of v] by simp
  have "bit (NOT v) 63 = (\<not> bit v 63)" for v :: "64 word" by (simp add: bit_simps)
  then have nb: "\<not> bit x 63" using b[of val] by (simp add: x_def)
  have "\<not> bit x j" if "63 \<le> j" for j
    using nb that bit_imp_le_length[of x j] by (cases "j = 63") auto
  then have "\<forall>j. 63 \<le> j \<longrightarrow> \<not> bit (unat x) j" by (simp add: bit_unsigned_iff)
  then show u: "unat x < 2 ^ 63" by (rule high_bits_zero)
  then have "int (unat x) < int (2 ^ 63)" by (simp only: of_nat_less_iff)
  then have "uint x < 2 ^ 63" by (simp only: of_nat_power of_nat_numeral uint_nat)
  then have "signed_take_bit 63 (uint x) = uint x" using uint_ge_0[of x] by (intro signed_take_bit_int_eq_self) linarith+
  then show s: "sint x = int (unat x)" by (simp add: sint_uint)
  show "0 \<le> sint x" unfolding s by simp
qed

lemma be_8_10: "v < 2 ^ 64 \<Longrightarrow> [0, 0] @ be 8 v = be 10 v"
proof -
  assume "v < 2 ^ 64"
  then have "v div 256 ^ 8 = 0" "v div 256 ^ 9 = 0" by simp_all
  moreover have "be 10 v = word_of_nat (v div 256 ^ 9) # word_of_nat (v div 256 ^ 8) # be 8 v"
    using be_Suc[of 9 v] be_Suc[of 8 v] by simp
  ultimately show ?thesis by simp
qed

lemma small_code: "unat x < 64 \<Longrightarrow> pos_code (unat x) = [0x80 XOR ucast (x :: 64 word)]"
proof -
  assume x: "unat x < 64"
  then have l: "signed_len (unat x) = 1" by (intro signed_len_unique) auto
  have "(word_of_nat (unat x) XOR word_of_nat 128 :: byte) = word_of_nat (unat x + 128)"
    using x by (intro xor_disjoint[of _ 6 128 2]) simp_all
  then have "word_of_nat (unat x + 128) = (0x80 XOR ucast x :: byte)" by (simp add: xor.commute)
  then show ?thesis by (simp add: pos_code_def l header_def be_def)
qed

lemma WriteSignedNumIncreasing_spec: "WriteSignedNumIncreasing dest val = Inr (dest @ signed_code val)"
proof -
  define neg where "neg = (sint val < 0)"
  define x where "x = (if neg then NOT val else val)"
  have m: "unat x < 2 ^ 63" "sint x = int (unat x)" using magnitude[of val] by (simp_all add: x_def neg_def)
  define flip :: "bytes \<Rightarrow> bytes" where "flip = (if neg then map NOT else id)"
  have sc: "signed_code val = flip (pos_code (unat x))" by (simp add: signed_code_def flip_def x_def neg_def)
  have val: "val = (if neg then NOT x else x)" by (simp add: x_def)
  show ?thesis
  proof (cases "unat x < 64")
    case True
    have "(0x80 XOR ucast (NOT x) :: byte) = NOT (0x80 XOR ucast x)" by (rule bit_word_eqI) (auto simp: bit_simps)
    then have "[0x80 XOR ucast val] = flip (pos_code (unat x))"
      unfolding small_code[OF True] flip_def by (subst val) simp
    moreover have "sint x < 64" using True m(2) by linarith
    ultimately show ?thesis
      by (simp add: WriteSignedNumIncreasing_def Let_def sc neg_def[symmetric] x_def[symmetric] kLengthToHeaderBits_def)
  next
    case False
    let ?n = "signed_len (unat x)"
    note sl = signed_len_spec[OF m(1)]
    have n2: "2 \<le> ?n"
    proof (rule ccontr)
      assume "\<not> 2 \<le> ?n"
      then have "?n = 1" using sl(1) by simp
      then show False using sl(3) False by simp
    qed
    then obtain k where k: "?n = k + 2" by (metis add.commute le_Suc_ex)
    let ?sign = "(if neg then 0xff else 0) :: byte"
    have buf: "[?sign, ?sign] @ be_bytes 8 val = flip (be 10 (unat x))"
    proof -
      have "be 10 (unat x) = 0 # 0 # be 8 (unat x)" using be_8_10[of "unat x"] m(1) by simp
      moreover have "(NOT 0 :: byte) = 0xff" by simp
      moreover have "be_bytes 8 (NOT x) = map NOT (be 8 (unat x))" using be_bytes_not[of 8 x] by (simp only: be_bytes_be)
      ultimately show ?thesis by (cases neg) (simp_all add: val flip_def be_bytes_be)
    qed
    have "drop (10 - ?n) (flip (be 10 (unat x))) = flip (be ?n (unat x))"
      using sl(2) by (simp add: flip_def drop_map be_drop)
    moreover have "xor_header ?n (flip (be ?n (unat x))) = flip (xor_header ?n (be ?n (unat x)))"
      using n2 by (simp add: flip_def xor_header_not)
    moreover have "xor_header ?n (be ?n (unat x)) = be ?n (unat x + header ?n)"
      using xor_header_code[of "unat x" k] sl(2,3) m(1) unfolding k by simp
    ultimately have h: "xor_header ?n (drop (10 - ?n) ([?sign, ?sign] @ be_bytes 8 val)) = signed_code val"
      unfolding buf sc pos_code_def by simp
    have len: "SignedEncodingLengthPositive x = ?n" by (simp add: signed_len_def)
    have "length (signed_code val) = ?n" by (simp add: sc flip_def pos_code_def)
    moreover have "\<not> sint x < 64" using False m(2) by linarith
    ultimately show ?thesis using n2 h
      by (simp add: WriteSignedNumIncreasing_def Let_def neg_def[symmetric] x_def[symmetric] len hard_assert_def
          xor_header_def[unfolded Let_def])
  qed
qed

section \<open>Reading signed numbers\<close>

definition flip :: "bool \<Rightarrow> bytes \<Rightarrow> bytes" where
  "flip neg bs = (if neg then map NOT bs else bs)"

definition flip1 :: "bool \<Rightarrow> 'w::len word \<Rightarrow> 'w word" where
  "flip1 neg b = (if neg then NOT b else b)"

lemma flip_simps [simp]:
  "flip neg (b # bs) = flip1 neg b # flip neg bs" "length (flip neg bs) = length bs"
  "drop k (flip neg bs) = flip neg (drop k bs)" "i < length bs \<Longrightarrow> flip neg bs ! i = flip1 neg (bs ! i)"
  by (simp_all add: flip_def flip1_def drop_map)

lemma sign_bit: "128 \<le> unat (b :: byte) \<Longrightarrow> (flip1 neg b AND 0x80 = 0) = neg"
proof -
  assume b: "128 \<le> unat b"
  have e: "(c AND 0x80 = 0) = (\<not> bit c 7)" for c :: byte
  proof -
    have "c AND push_bit k 1 = (if bit c k then push_bit k 1 else 0)" for k
      by (rule bit_word_eqI) (auto simp: bit_simps)
    from this[of 7] show ?thesis by auto
  qed
  have "bit b 7"
  proof (rule ccontr)
    assume "\<not> bit b 7"
    then have "\<not> bit b j" if "7 \<le> j" for j using that bit_imp_le_length[of b j] by (cases "j = 7") auto
    then have "unat b < 2 ^ 7" by (intro high_bits_zero) (simp add: bit_unsigned_iff)
    then show False using b by simp
  qed
  then show ?thesis unfolding e flip1_def by (simp add: bit_simps)
qed

lemma unflip: "(ucast ((scast (flip1 neg b) :: 64 word) XOR ((if neg then - 1 else 0) AND 0xff)) :: byte) = b"
proof -
  have m: "(0xff :: 64 word) = mask 8" by (simp add: mask_numeral)
  show ?thesis unfolding m by (rule bit_word_eqI) (auto simp: flip1_def bit_simps)
qed

lemma masks: "1 \<le> n \<Longrightarrow> n \<le> 10 \<Longrightarrow> kLengthToMask ! n = word_of_nat (header n) \<and> header n = 2 ^ (7 * n) * (2 ^ n - 1)"
proof -
  assume "1 \<le> n" "n \<le> 10"
  then have "n \<in> {1, 2, 3, 4, 5, 6, 7, 8, 9, 10}" by simp arith
  then show ?thesis by (auto simp: kLengthToMask_def header_def)
qed

lemma raw_unmask:
  assumes "1 \<le> n" "n \<le> 10" "v < 2 ^ (7 * n - 1)"
  shows "flip1 neg (word_of_nat (v + header n)) XOR kLengthToMask ! n = flip1 neg (word_of_nat v :: 64 word)"
proof -
  note m = masks[OF assms(1,2)]
  have "(2 :: nat) ^ (7 * n - 1) \<le> 2 ^ (7 * n)" by (intro power_increasing) simp_all
  then have "v < 2 ^ (7 * n)" using assms(3) by (rule less_le_trans[rotated])
  then have "(word_of_nat v XOR word_of_nat (header n) :: 64 word) = word_of_nat (v + header n)"
    using xor_disjoint[of v "7 * n" "header n" "2 ^ n - 1"] m by blast
  then have "(word_of_nat (v + header n) :: 64 word) = word_of_nat v XOR kLengthToMask ! n" by (simp only: m)
  moreover have "NOT (a XOR h) XOR h = NOT a" for a h :: "64 word" by (rule bit_word_eqI) (auto simp: bit_simps)
  ultimately show ?thesis by (simp add: flip1_def xor.assoc)
qed

lemma read_flipped: "read_bytes (if neg then - 1 else 0) (flip neg bs) = flip1 neg (word_of_nat (be_value bs))"
  using read_bytes_not[of 0 bs] by (simp add: flip_def flip1_def read_bytes_0)

lemma read_flipped_8: "length bs = 8 \<Longrightarrow> read_bytes 0 (flip neg bs) = flip1 neg (word_of_nat (be_value bs))"
  using read_flipped[of neg bs] read_bytes_8[of "flip neg bs" "if neg then - 1 else 0"] by simp

text \<open>The leading bytes of a code.\<close>

lemma pos_code_nth: "i < signed_len v \<Longrightarrow>
  pos_code v ! i = word_of_nat ((v + header (signed_len v)) div 256 ^ (signed_len v - 1 - i))"
  by (simp add: pos_code_def be_def rev_nth)

lemma first_byte_short:
  assumes "1 \<le> n" "n \<le> 7" "v < 2 ^ (7 * n - 1)"
  defines "t \<equiv> (v + header n) div 256 ^ (n - 1)"
  shows "256 - 2 ^ (8 - n) \<le> t" "t < 256 - 2 ^ (7 - n)"
proof -
  have "n \<in> {1, 2, 3, 4, 5, 6, 7}" using assms(1,2) by auto
  then have "256 - 2 ^ (8 - n) \<le> t \<and> t < 256 - 2 ^ (7 - n)"
    using assms(3) unfolding t_def by (elim insertE emptyE) (simp_all add: header_def less_mult_imp_div_less div_le_mono)
  then show "256 - 2 ^ (8 - n) \<le> t" "t < 256 - 2 ^ (7 - n)" by blast+
qed

lemma first_byte_long:
  assumes "8 \<le> n" "n \<le> 10" "v < 2 ^ (7 * n - 1)" "v < 2 ^ 63"
  shows "(v + header n) div 256 ^ (n - 1) = 255"
    "n = 8 \<Longrightarrow> (v + header n) div 256 ^ (n - 2) mod 256 < 128"
    "n = 9 \<Longrightarrow> 128 \<le> (v + header n) div 256 ^ (n - 2) mod 256 \<and> (v + header n) div 256 ^ (n - 2) mod 256 < 192"
    "n = 10 \<Longrightarrow> (v + header n) div 256 ^ (n - 2) mod 256 = 192 \<and> (v + header n) div 256 ^ (n - 3) mod 256 < 128"
proof -
  have "n \<in> {8, 9, 10}" using assms(1,2) by auto
  then show "(v + header n) div 256 ^ (n - 1) = 255" using assms(3,4) by (auto simp: header_def div_nat_eqI)
  have a: "(x + 256 ^ m * (256 * k + c)) div 256 ^ m mod 256 = (x div 256 ^ m + c) mod 256" for x m k c :: nat
  proof -
    have "(x + 256 ^ m * (256 * k + c)) div 256 ^ m = x div 256 ^ m + c + 256 * k" by simp
    then show ?thesis by presburger
  qed
  show "(v + header n) div 256 ^ (n - 2) mod 256 < 128" if "n = 8"
  proof -
    have "v div 256 ^ 6 < 128" using assms(3) that by (intro less_mult_imp_div_less) simp
    then show ?thesis using a[of v 6 255 0] that by (simp add: header_def)
  qed
  show "128 \<le> (v + header n) div 256 ^ (n - 2) mod 256 \<and> (v + header n) div 256 ^ (n - 2) mod 256 < 192" if "n = 9"
  proof -
    have "v div 256 ^ 7 < 64" using assms(3) that by (intro less_mult_imp_div_less) simp
    then show ?thesis using a[of v 7 255 128] that by (simp add: header_def)
  qed
  show "(v + header n) div 256 ^ (n - 2) mod 256 = 192 \<and> (v + header n) div 256 ^ (n - 3) mod 256 < 128" if "n = 10"
  proof -
    have "v div 256 ^ 8 = 0" "v div 256 ^ 7 < 128" using assms(4) by (simp, intro less_mult_imp_div_less, simp)
    then show ?thesis using a[of v 8 255 192] a[of v 7 "255 * 256 + 192" 0] that by (simp add: header_def)
  qed
qed

lemma unat_not_byte: "unat (NOT b :: byte) = 255 - unat b"
proof -
  have "NOT b = - 1 - b" by (simp add: not_eq_complement)
  moreover have "b \<le> - 1" by simp
  ultimately have "unat (NOT b) = unat (- 1 :: byte) - unat b" by (simp only: unat_sub)
  moreover have "unat (- 1 :: byte) = 255" by (simp add: unsigned_minus_1_eq_mask mask_eq_exp_minus_1)
  ultimately show ?thesis by (simp only:)
qed

lemma read_signed_raw_code:
  assumes v: "v < 2 ^ 63"
  shows "read_signed_raw (flip neg (pos_code v) @ rest) = Some (signed_len v, flip1 neg (word_of_nat (v + header (signed_len v))))"
proof -
  let ?n = "signed_len v" and ?src = "flip neg (pos_code v) @ rest" and ?mask = "(if neg then - 1 else 0) :: 64 word"
  note sl = signed_len_spec[OF v]
  have len: "length (pos_code v) = ?n" by (simp add: pos_code_def)
  have nth: "?src ! i = flip1 neg (word_of_nat ((v + header ?n) div 256 ^ (?n - 1 - i)))" if "i < ?n" for i
    using that pos_code_nth[OF that] by (simp add: nth_append len)
  define b where "b = (word_of_nat ((v + header ?n) div 256 ^ (?n - 1)) :: byte)"
  have src0: "?src ! 0 = flip1 neg b" using nth[of 0] sl(1) by (simp add: b_def)
  have val: "be_value (pos_code v) = (v + header ?n) mod 256 ^ ?n" by (simp add: pos_code_def be_value_be)
  show ?thesis
  proof (cases "?n \<le> 7")
    case True
    note t = first_byte_short[OF sl(1) True sl(3)]
    define t where "t = (v + header ?n) div 256 ^ (?n - 1)"
    have p: "(2 :: nat) ^ (8 - ?n) = 2 * 2 ^ (7 - ?n)" using True by (simp add: Suc_diff_le flip: power_Suc)
    have "(2 :: nat) ^ (8 - ?n) \<le> 2 ^ 7" using sl(1) by (intro power_increasing) simp_all
    then have p7: "(2 :: nat) ^ (8 - ?n) \<le> 128" by (simp only: power_numeral_even power_numeral_odd) simp
    note p = p p7
    have "t < 256" using t(2) unfolding t_def by linarith
    then have ub: "unat b = t" by (simp only: b_def unat_byte t_def mod_less)
    have tt: "256 - 2 ^ (8 - ?n) \<le> t" "t < 256 - 2 ^ (7 - ?n)" using t unfolding t_def by blast+
    have "(1 :: nat) \<le> 2 ^ (7 - ?n)" by simp
    then have b: "128 \<le> unat b" "unat b < 255" unfolding ub using tt p by - linarith+
    have "b XOR 0xff = NOT b"
    proof -
      have "(0xff :: byte) = NOT 0" by simp
      then show ?thesis by (metis xor.right_neutral bit.xor_compl_right)
    qed
    moreover have "unat (ucast c :: 32 word) = unat c" for c :: byte
      using byte_less_256[of c] by (simp add: unsigned_ucast_eq take_bit_nat_eq_self_iff)
    ultimately have u32: "unat (ucast (b XOR 0xff) :: 32 word) = 255 - unat b" by (simp only: unat_not_byte)
    have "Log2FloorNonZero (ucast (b XOR 0xff)) = int (7 - ?n)"
    proof (rule Log2FloorNonZero_eq)
      have e: "Suc (7 - ?n) = 8 - ?n" using True by simp
      show "2 ^ (7 - ?n) \<le> unat (ucast (b XOR 0xff) :: 32 word)" "unat (ucast (b XOR 0xff) :: 32 word) < 2 ^ Suc (7 - ?n)"
        unfolding u32 e ub using tt p by - linarith+
    qed
    then have lg: "nat (7 - Log2FloorNonZero (ucast (b XOR 0xff))) = ?n" using True by simp
    have "header ?n + v < 256 ^ ?n"
    proof -
      have "v < 2 ^ (7 * ?n)" using sl(3) by (meson less_le_trans power_increasing one_le_numeral diff_le_self)
      moreover have "(2 :: nat) ^ (7 * ?n) \<le> 2 ^ (8 * ?n)" by (intro power_increasing) simp_all
      ultimately show ?thesis by (simp add: header_def power_mult)
    qed
    then have "be_value (pos_code v) = v + header ?n" by (simp add: val add.commute)
    then have "read_bytes ?mask (take ?n ?src) = flip1 neg (word_of_nat (v + header ?n))"
      using read_flipped[of neg "pos_code v"] len by simp
    then show ?thesis using b(2) len
      by (simp add: read_signed_raw_def Let_def src0 sign_bit[OF b(1)] unflip lg read_bytes_def byte_eq_255[symmetric])
  next
    case False
    then have n8: "8 \<le> ?n" by simp
    note t = first_byte_long[OF n8 sl(2,3) v]
    have b: "b = 0xff" unfolding b_def t(1) by simp
    have tk: "take 8 (drop (?n - 8) ?src) = flip neg (be 8 (v + header ?n))"
      using n8 len be_drop[of "?n - 8" ?n "v + header ?n"] by (simp add: pos_code_def)
    have m64: "(word_of_nat (x mod 256 ^ 8) :: 64 word) = word_of_nat x" for x
      by (simp only: word_of_nat_eq_iff) (simp add: take_bit_eq_mod)
    have raw: "read_bytes 0 (take 8 (drop (?n - 8) ?src)) = flip1 neg (word_of_nat (v + header ?n))"
      unfolding tk by (subst read_flipped_8) (simp_all only: length_be be_value_be m64)
    have ln: "length ?src = ?n + length rest" by (simp add: len)
    have i: "?n - 1 - 1 = ?n - 2" "?n - 1 - 2 = ?n - 3" by simp_all
    define b1 where "b1 = (word_of_nat ((v + header ?n) div 256 ^ (?n - 2)) :: byte)"
    define b2 where "b2 = (word_of_nat ((v + header ?n) div 256 ^ (?n - 3)) :: byte)"
    have s: "?src ! Suc 0 = flip1 neg b1" "?src ! 2 = flip1 neg b2"
      using nth[of "Suc 0"] nth[of 2] n8 i by (simp_all add: b1_def b2_def)
    have u: "unat b1 = (v + header ?n) div 256 ^ (?n - 2) mod 256" "unat b2 = (v + header ?n) div 256 ^ (?n - 3) mod 256"
      by (simp_all only: b1_def b2_def unat_byte)
    from n8 sl(2) consider "?n = 8" | "?n = 9" | "?n = 10" by linarith
    then show ?thesis
    proof cases
      case 1
      have "b1 < 0x80" using t(2)[OF 1] by (simp add: word_less_nat_alt u(1))
      then show ?thesis using raw 1 ln
        by (simp add: read_signed_raw_def Let_def src0 b sign_bit unflip[of neg "0xff"] unflip[of neg b1] s read_bytes_def)
    next
      case 2
      have "\<not> b1 < 0x80" "b1 < 0xc0" using t(3)[OF 2] by (simp_all add: word_less_nat_alt u(1))
      then show ?thesis using raw 2 ln
        by (simp add: read_signed_raw_def Let_def src0 b sign_bit unflip[of neg "0xff"] unflip[of neg b1] s read_bytes_def)
    next
      case 3
      have "b1 = 0xc0" "b2 < 0x80" using t(4)[OF 3] by (simp_all add: word_less_nat_alt word_unat_eq_iff u)
      then show ?thesis using raw 3 ln unflip[of neg b1]
        by (simp add: read_signed_raw_def Let_def src0 b sign_bit unflip[of neg "0xff"] unflip[of neg b2] s read_bytes_def)
    qed
  qed
qed


lemma be_value_pos_code:
  assumes "v < 2 ^ 63"
  shows "be_value (pos_code v) = v + header (signed_len v)"
proof -
  let ?n = "signed_len v"
  have "(2 :: nat) ^ (7 * ?n - 1) \<le> 2 ^ (7 * ?n)" by (intro power_increasing) simp_all
  then have "v < 2 ^ (7 * ?n)" using signed_len_spec(3)[OF assms] by (rule less_le_trans[rotated])
  moreover have "(2 :: nat) ^ (7 * ?n) \<le> 2 ^ (8 * ?n)" by (intro power_increasing) simp_all
  ultimately have "v + header ?n < 256 ^ ?n" by (simp add: header_def power_mult)
  then show ?thesis by (simp add: pos_code_def be_value_be)
qed

lemma signed_code_flip: "signed_code val = flip (sint val < 0) (pos_code (unat (flip1 (sint val < 0) val)))"
  by (simp add: signed_code_def flip_def flip1_def)

lemma ReadSignedNumIncreasing_code: "ReadSignedNumIncreasing (signed_code val @ rest) = Inr (Some (rest, val))"
proof -
  define neg where "neg = (sint val < 0)"
  define x where "x = flip1 neg val"
  define v where "v = unat x"
  have m: "v < 2 ^ 63" "sint x = int v" using magnitude[of val] by (simp_all add: v_def x_def neg_def flip1_def)
  note sl = signed_len_spec[OF m(1)]
  have len: "length (signed_code val) = signed_len v"
    by (simp add: signed_code_flip v_def x_def neg_def pos_code_def)
  have raw: "read_signed_raw (signed_code val @ rest) = Some (signed_len v, flip1 neg (word_of_nat (v + header (signed_len v))))"
    using read_signed_raw_code[OF m(1), of neg rest] by (simp only: signed_code_flip neg_def[symmetric] x_def[symmetric] v_def[symmetric])
  have "flip1 neg (word_of_nat (v + header (signed_len v))) XOR kLengthToMask ! signed_len v = flip1 neg x"
    using raw_unmask[OF sl(1,2,3), of neg] by (simp add: v_def)
  also have "\<dots> = val" by (simp add: x_def flip1_def)
  finally have un: "flip1 neg (word_of_nat (v + header (signed_len v))) XOR kLengthToMask ! signed_len v = val" .
  have "SignedEncodingLength val = SignedEncodingLengthPositive x"
    by (simp add: SignedEncodingLength_def SignedEncodingLengthPositive_def x_def flip1_def neg_def)
  then have "SignedEncodingLength val = signed_len v" by (simp add: signed_len_def v_def)
  moreover have "signed_code val @ rest \<noteq> []" using len sl(1) by auto
  moreover have "drop (signed_len v) (signed_code val @ rest) = rest" using len by simp
  ultimately show ?thesis by (simp only: ReadSignedNumIncreasing_def raw un Let_def option.case prod.case hard_assert_def if_False simp_thms if_True)
qed

section \<open>The order of signed numbers\<close>

lemma pos_code_inject:
  assumes "v < 2 ^ 63" "w < 2 ^ 63" "pos_code v @ r = pos_code w @ s"
  shows "v = w"
proof -
  have e: "read_signed_raw (pos_code u @ t) = Some (signed_len u, word_of_nat (u + header (signed_len u)))" if "u < 2 ^ 63" for u t
    using read_signed_raw_code[OF that, of False t] by (simp add: flip_def flip1_def)
  have "signed_len v = signed_len w" using e[OF assms(1), of r] e[OF assms(2), of s] assms(3) by simp
  then have "length (pos_code v) = length (pos_code w)" by (simp add: pos_code_def)
  from append_eq_append_conv[OF disjI1[OF this], of r s] have "pos_code v = pos_code w" using assms(3) by blast
  then show ?thesis using be_value_pos_code[OF assms(1)] be_value_pos_code[OF assms(2)] \<open>signed_len v = signed_len w\<close>
    by (metis add_right_imp_eq)
qed

lemma be_value_append: "be_value (u @ w) = be_value u * 256 ^ length w + be_value w"
  using be_value_foldl[of "be_value u" w] by (simp add: be_value_def)

lemma header_mono_bound:
  assumes "m < n" "x < 2 ^ (7 * m - 1)" "1 \<le> m"
  shows "(x + header m) * 256 ^ (n - m) < header n + 1"
proof -
  have m: "(2 :: nat) ^ (7 * m - 1) * 2 = 2 ^ (7 * m)" using assms(3) by (simp flip: power_Suc2)
  have "(2 :: nat) ^ (7 * m) \<le> 2 ^ (8 * m)" by (intro power_increasing) simp_all
  then have "x + header m + 2 ^ (7 * m - 1) \<le> 2 ^ (8 * m)" using assms(2) m unfolding header_def by linarith
  then have "(x + header m + 2 ^ (7 * m - 1)) * 256 ^ (n - m) \<le> 2 ^ (8 * m) * 256 ^ (n - m)" by (rule mult_le_mono1)
  moreover have "(2 :: nat) ^ (8 * m) * 256 ^ (n - m) = 2 ^ (8 * n)"
    using assms(1) by (simp add: power_mult flip: power_add)
  moreover have "(2 :: nat) ^ (7 * n) \<le> 2 ^ (7 * m - 1) * 256 ^ (n - m)"
  proof -
    have "(256 :: nat) ^ (n - m) = 2 ^ (8 * (n - m))" by (simp add: power_mult)
    then have "(2 :: nat) ^ (7 * m - 1) * 256 ^ (n - m) = 2 ^ (7 * m - 1 + 8 * (n - m))" by (simp only: power_add)
    moreover have "7 * n \<le> 7 * m - 1 + 8 * (n - m)" using assms(1,3) by linarith
    ultimately show ?thesis by (simp only: power_increasing one_le_numeral)
  qed
  ultimately show ?thesis unfolding header_def[of n] add_mult_distrib by linarith
qed

lemma pos_code_before:
  assumes "x < y" "y < 2 ^ 63"
  shows "byte_before (pos_code x) (pos_code y)"
proof -
  have x: "x < 2 ^ 63" using assms by simp
  let ?m = "signed_len x" and ?n = "signed_len y"
  note sx = signed_len_spec[OF x] and sy = signed_len_spec[OF assms(2)]
  have len: "length (pos_code z) = signed_len z" for z by (simp add: pos_code_def)
  have "\<not> ?n < ?m"
  proof
    assume lt: "?n < ?m"
    then have "(2 :: nat) ^ (7 * ?n - 1) \<le> 2 ^ (7 * (?m - 1) - 1)" using sy(1) by (intro power_increasing) auto
    moreover have "2 ^ (7 * (?m - 1) - 1) \<le> x" using sx(4) sy(1) lt by auto
    ultimately have "y < x" using sy(3) by linarith
    then show False using assms(1) by simp
  qed
  then consider "?m = ?n" | "?m < ?n" by linarith
  then show ?thesis
  proof cases
    case 1
    show ?thesis
      using 1 assms by (intro be_value_before) (simp_all add: len be_value_pos_code[OF x] be_value_pos_code[OF assms(2)])
  next
    case 2
    let ?u = "pos_code x @ replicate (?n - ?m) 0"
    have z: "be_value (replicate k 0) = 0" for k by (induction k) simp_all
    have "y \<ge> 1" using assms(1) by simp
    then have "be_value ?u < be_value (pos_code y)"
      using header_mono_bound[OF 2 sx(3,1)]
      by (simp add: be_value_append z be_value_pos_code[OF x] be_value_pos_code[OF assms(2)])
    moreover have "length ?u = length (pos_code y)" using 2 by (simp add: len)
    ultimately have "byte_before ?u (pos_code y @ [])" using be_value_before by simp
    from byte_before_trim[OF this] consider "byte_before (pos_code x) (pos_code y)"
      | w where "pos_code y = pos_code x @ w" | w where "pos_code x = pos_code y @ w" by blast
    then show ?thesis
    proof cases
      case (2 w)
      then show ?thesis using pos_code_inject[OF assms(2) x, of "[]" w] assms(1) by simp
    next
      case (3 w)
      then show ?thesis using pos_code_inject[OF x assms(2), of "[]" w] assms(1) by simp
    qed
  qed
qed

lemma byte_before_not:
  assumes "byte_before v u"
  shows "byte_before (map NOT u) (map NOT v)"
proof -
  obtain p a b x y where e: "v = p @ a # x" "u = p @ b # y" "a < b" using assms unfolding byte_before_def by blast
  have "NOT b < NOT a" using e(3) byte_less_256[of b] by (simp add: word_less_nat_alt unat_not_byte)
  then have "byte_before (NOT b # map NOT y) (NOT a # map NOT x)" by (rule byte_before_Cons)
  then show ?thesis using e(1,2) byte_before_prefix[of "NOT b # map NOT y" "NOT a # map NOT x" "map NOT p"] by simp
qed

lemma pos_code_first: "v < 2 ^ 63 \<Longrightarrow> \<exists>b bs. pos_code v = b # bs \<and> 128 \<le> unat b"
proof -
  assume v: "v < 2 ^ 63"
  note sl = signed_len_spec[OF v]
  let ?n = "signed_len v"
  have l: "0 < length (pos_code v)" using sl(1) by (simp add: pos_code_def)
  have u: "unat (pos_code v ! 0) = (v + header ?n) div 256 ^ (?n - 1) mod 256"
    using pos_code_nth[of 0 v] sl(1) by (simp add: unat_byte)
  have "128 \<le> unat (pos_code v ! 0)"
  proof (cases "?n \<le> 7")
    case True
    have "(2 :: nat) ^ (8 - ?n) \<le> 2 ^ 7" using sl(1) by (intro power_increasing) simp_all
    then show ?thesis using first_byte_short[OF sl(1) True sl(3)] unfolding u by simp
  next
    case False
    then show ?thesis using first_byte_long(1)[OF _ sl(2,3) v] unfolding u by simp
  qed
  then show ?thesis using l by (metis hd_conv_nth length_greater_0_conv list.collapse)
qed

lemma signed_code_before:
  assumes "x <s y"
  shows "byte_before (signed_code x) (signed_code y)"
proof -
  have xy: "sint x < sint y" using assms by (simp add: word_sless_alt)
  have n: "sint (NOT w) = - sint w - 1" for w :: "64 word"
    using sint_ge[of w] sint_lt[of w] by (simp add: signed_not_eq not_int_def signed_take_bit_int_eq_self)
  consider "sint x < 0" "sint y < 0" | "sint x < 0" "0 \<le> sint y" | "0 \<le> sint x" "0 \<le> sint y" using xy by linarith
  then show ?thesis
  proof cases
    case 1
    have "int (unat (NOT y)) < int (unat (NOT x))"
      using magnitude(2)[of x] magnitude(2)[of y] 1 n[of x] n[of y] xy by simp_all
    then have "byte_before (pos_code (unat (NOT y))) (pos_code (unat (NOT x)))"
      using magnitude(1)[of x] 1 by (intro pos_code_before) (simp_all only: if_True of_nat_less_iff)
    then show ?thesis using byte_before_not 1 by (simp add: signed_code_def)
  next
    case 2
    obtain b bs where b: "pos_code (unat (NOT x)) = b # bs" "128 \<le> unat b"
      using pos_code_first magnitude(1)[of x] 2(1) by (metis (full_types))
    obtain c cs where c: "pos_code (unat y) = c # cs" "128 \<le> unat c"
      using pos_code_first magnitude(1)[of y] 2(2) by (metis (full_types) not_le)
    have "NOT b < c" using b(2) c(2) by (simp add: word_less_nat_alt unat_not_byte)
    then show ?thesis using 2 by (simp add: signed_code_def b(1) c(1) byte_before_Cons)
  next
    case 3
    have "int (unat x) < int (unat y)"
      using magnitude(2)[of x] magnitude(2)[of y] 3 xy by simp_all
    then have "unat x < unat y" by (simp only: of_nat_less_iff)
    moreover have "unat y < 2 ^ 63" using magnitude(1)[of y] 3(2) by (simp only: not_le[symmetric] simp_thms if_False)
    ultimately have "byte_before (pos_code (unat x)) (pos_code (unat y))" by (rule pos_code_before)
    then show ?thesis using 3 by (simp add: signed_code_def)
  qed
qed

lemma signed_code_length: "Suc 0 \<le> length (signed_code x)" "length (signed_code x) \<le> 10"
  using signed_len_spec[OF magnitude(1)[of x]] by (auto simp: signed_code_def pos_code_def split: if_splits)

interpretation signed_item: ordered_item signed_code ReadSignedNumIncreasing "\<lambda>x y. x <s y"
  by unfold_locales (simp_all add: ReadSignedNumIncreasing_code signed_code_before)

end
