(* ===== verification/LevelDbKeyProofs.thy ===== *)
theory LevelDbKeyProofs
  imports LevelDbKeys OrderedNumbers
begin

text \<open>
  The bytes of every key as a concatenation of component codes; that a decoder gets the components of
  its key back; that the order of the bytes is the order of the components; and which keys a prefix
  selects.
\<close>

section \<open>Strings\<close>

lemma unat_of_char: "unat (of_char c :: byte) = of_char c"
proof -
  have "(of_char c :: byte) = word_of_nat (of_char c)" by (simp only: of_nat_of_char)
  then show ?thesis by (simp only: unat_byte of_char_mod_256)
qed

lemma of_bytes_to_bytes [simp]: "of_bytes (to_bytes s) = s"
  by (simp add: of_bytes_def to_bytes_def comp_def unat_of_char)

lemma of_char_less: "((of_char c :: byte) < of_char d) = (c < d)"
  by (simp add: word_less_nat_alt unat_of_char less_char_def)

lemma to_bytes_less: "s < t \<Longrightarrow> bytes_less (to_bytes s) (to_bytes t)"
proof -
  assume "s < t"
  then have "(s, t) \<in> lexord {(u, v). u < v}" by (simp add: list_less_def)
  then consider (prefix) a v where "t = s @ a # v"
    | (differ) u a b v w where "a < b" "s = u @ a # v" "t = u @ b # w" unfolding lexord_def by blast
  then show ?thesis
  proof cases
    case prefix
    then have "to_bytes t = to_bytes s @ of_char a # to_bytes v" by (simp add: to_bytes_def)
    then show ?thesis unfolding lexord_def by blast
  next
    case differ
    then have "(of_char a :: byte) < of_char b" by (simp only: of_char_less)
    then have "byte_before (to_bytes s) (to_bytes t)"
      using byte_before_prefix[OF byte_before_Cons, of "of_char a" "of_char b" "to_bytes u" "to_bytes v" "to_bytes w"] differ(2,3)
      by (simp add: to_bytes_def)
    then show ?thesis by (rule byte_before_less)
  qed
qed

section \<open>The codes of components\<close>

definition label_code :: "ComponentLabel \<Rightarrow> bytes" where
  "label_code l = [0x80 XOR ucast (label_value l)]"

definition string_item_code :: "string \<Rightarrow> bytes" where
  "string_item_code s = string_code (to_bytes s)"

definition int32_code :: "int32 \<Rightarrow> bytes" where
  "int32_code v = signed_code (scast v)"

definition path_code :: "ResourcePath \<Rightarrow> bytes" where
  "path_code p = concat (map (\<lambda>s. label_code PathSegment @ string_item_code s) p)"

lemma signed_label: "signed_code (label_value l) = label_code l"
proof -
  have "unat (label_value l) < 64 \<and> \<not> sint (label_value l) < 0" by (cases l) simp_all
  then show ?thesis by (simp add: signed_code_def label_code_def small_code)
qed

declare label_value.simps [simp del]

lemma label_nonempty: "label_code l \<noteq> []"
  by (simp add: label_code_def)

lemma label_value_inject: "(label_value l = label_value l') = (l = l')"
  by (cases l; cases l') (simp_all add: label_value.simps)

lemma scast_int32: "sint (scast v :: int64) = sint (v :: int32)" "scast (scast v :: int64) = v"
  by (simp_all add: sint_up_scast scast_up_scast_id is_up)

lemma write_codes [simp]:
  "WriteComponentLabel l dest = Inr (dest @ label_code l)"
  "WriteTerminator dest = Inr (dest @ label_code Terminator)"
  "WriteTableName t dest = Inr (dest @ label_code TableName @ string_item_code t)"
  "WriteBatchId b dest = Inr (dest @ label_code BatchId @ int32_code b)"
  "WriteCanonicalId s dest = Inr (dest @ label_code CanonicalId @ string_item_code s)"
  "WriteTargetId b dest = Inr (dest @ label_code TargetId @ int32_code b)"
  "WriteUserId s dest = Inr (dest @ label_code UserId @ string_item_code s)"
  "WriteCollectionId s dest = Inr (dest @ label_code CollectionId @ string_item_code s)"
  "WriteDocumentId s dest = Inr (dest @ label_code DocumentId @ string_item_code s)"
  "WriteSnapshotVersion v dest =
     Inr (dest @ label_code SnapshotVersion @ signed_code (seconds v) @ int32_code (nanoseconds v))"
  by (simp_all add: WriteComponentLabel_def WriteTerminator_def WriteTableName_def WriteBatchId_def WriteCanonicalId_def
      WriteTargetId_def WriteUserId_def WriteCollectionId_def WriteDocumentId_def WriteSnapshotVersion_def
      WriteLabeledString_def WriteLabeledInt32_def WriteSigned_def then_write_def WriteSignedNumIncreasing_spec
      WriteString_spec signed_label string_item_code_def int32_code_def)

lemma WriteResourcePath_code [simp]: "WriteResourcePath p dest = Inr (dest @ path_code p)"
  by (induction p dest rule: WriteResourcePath.induct)
    (simp_all add: path_code_def WriteString_spec string_item_code_def)

definition write_from :: "(bytes \<Rightarrow> bytes result) list \<Rightarrow> bytes \<Rightarrow> bytes result" where
  "write_from ws dest = foldr then_write ws Inr dest"

lemma write_from_simps [simp]:
  "write_key ws = write_from ws []" "write_from [] dest = Inr dest"
  "write_from (w # ws) dest = rbind (w dest) (write_from ws)"
  by (simp_all add: write_key_def then_write_def write_from_def[abs_def])

section \<open>Reading codes\<close>

abbreviation rdr :: "bytes \<Rightarrow> Reader" where
  "rdr src \<equiv> \<lparr>rd_src = src, rd_ok = True\<rparr>"

context ordered_item
begin

lemma read_with_code: "read_with d read (rdr (code x @ rest)) = Inr (x, rdr rest)"
  by (simp add: read_with_def read_code give_def)

end

lemma give_simp [simp]: "give x r = Inr (x, r)"
  by (simp add: give_def)

lemma read_signed [simp]: "Reader_ReadSignedNumIncreasing (rdr (signed_code x @ rest)) = Inr (x, rdr rest)"
  by (simp add: Reader_ReadSignedNumIncreasing_def signed_item.read_with_code)

lemma read_label_number [simp]: "Reader_ReadSignedNumIncreasing (rdr (label_code l @ rest)) = Inr (label_value l, rdr rest)"
  using read_signed[of "label_value l" rest] by (simp add: signed_label)

lemma read_string [simp]: "Reader_ReadString (rdr (string_item_code s @ rest)) = Inr (s, rdr rest)"
  by (simp add: Reader_ReadString_def string_item_code_def then_read_def string_item.read_with_code)

lemma read_label [simp]:
  "ReadComponentLabelMatching l (rdr (label_code l' @ rest)) = Inr (l' = l, rdr rest)"
  by (simp add: ReadComponentLabelMatching_def then_read_def label_value_inject)

lemma read_int32 [simp]: "ReadInt32 (rdr (int32_code v @ rest)) = Inr (v, rdr rest)"
  using sint_ge[of v] sint_lt[of v]
  by (simp add: ReadInt32_def int32_code_def then_read_def scast_int32)

lemma or_fail_label [simp]: "or_fail (ReadComponentLabelMatching l) (rdr (label_code l @ rest)) = Inr ((), rdr rest)"
  by (simp add: or_fail_def then_read_def)

lemma read_labelled [simp]:
  "ReadLabeledString l (rdr (label_code l @ string_item_code s @ rest)) = Inr (s, rdr rest)"
  "ReadLabeledInt32 l (rdr (label_code l @ int32_code v @ rest)) = Inr (v, rdr rest)"
  by (simp_all add: ReadLabeledString_def ReadLabeledInt32_def then_read_def)

lemma read_table [simp]:
  "ReadTableNameMatching t (rdr (label_code TableName @ string_item_code t' @ rest)) =
     Inr ((), \<lparr>rd_src = rest, rd_ok = (t' = t)\<rparr>)"
  by (simp add: ReadTableNameMatching_def or_fail_def ReadLabeledStringMatching_def then_read_def fail_with_def
      Reader_Fail_def)

lemma read_components [simp]:
  "ReadBatchId (rdr (label_code BatchId @ int32_code b @ rest)) = Inr (b, rdr rest)"
  "ReadTargetId (rdr (label_code TargetId @ int32_code b @ rest)) = Inr (b, rdr rest)"
  "ReadCanonicalId (rdr (label_code CanonicalId @ string_item_code s @ rest)) = Inr (s, rdr rest)"
  "ReadUserId (rdr (label_code UserId @ string_item_code s @ rest)) = Inr (s, rdr rest)"
  "ReadCollectionId (rdr (label_code CollectionId @ string_item_code s @ rest)) = Inr (s, rdr rest)"
  "ReadDocumentId (rdr (label_code DocumentId @ string_item_code s @ rest)) = Inr (s, rdr rest)"
  "ReadTerminator (rdr (label_code Terminator @ rest)) = Inr ((), rdr rest)"
  by (simp_all add: ReadBatchId_def ReadTargetId_def ReadCanonicalId_def ReadUserId_def ReadCollectionId_def
      ReadDocumentId_def ReadTerminator_def)

lemma read_terminator_end [simp]: "ReadTerminator (rdr (label_code Terminator)) = Inr ((), rdr [])"
  using read_components(7)[of "[]"] by simp

lemma read_version [simp]:
  "ReadSnapshotVersion (rdr (label_code SnapshotVersion @ signed_code (seconds v) @ int32_code (nanoseconds v) @ rest)) =
     rmap (\<lambda>v. (v, rdr rest)) (make_Timestamp (seconds v) (nanoseconds v))"
  by (simp add: ReadSnapshotVersion_def then_read_def ReadInt64_def then_read_def
      then_read_def)

text \<open>A path is read up to the next label.\<close>

lemma path_loop_code:
  assumes "l \<noteq> PathSegment"
  shows "path_loop segs (rdr (path_code p @ label_code l @ rest)) = Inr (segs @ p, rdr (label_code l @ rest))"
proof (induction p arbitrary: segs)
  case Nil
  then show ?case using assms by (subst path_loop.simps) (simp add: path_code_def Reader_empty_def label_nonempty)
next
  case (Cons s p)
  have e: "path_code (s # p) @ r = label_code PathSegment @ string_item_code s @ path_code p @ r" for r
    by (simp add: path_code_def)
  then show ?case unfolding e by (subst path_loop.simps) (simp add: Reader_empty_def label_nonempty Cons.IH)
qed

lemma read_path [simp]:
  "l \<noteq> PathSegment \<Longrightarrow> ReadResourcePath (rdr (path_code p @ label_code l @ rest)) = Inr (p, rdr (label_code l @ rest))"
  by (simp add: ReadResourcePath_def path_loop_code)

lemma read_path_end [simp]: "ReadResourcePath (rdr (path_code p @ label_code Terminator)) = Inr (p, rdr (label_code Terminator))"
  using read_path[of Terminator p "[]"] by simp

lemma read_document_key [simp]:
  "l \<noteq> PathSegment \<Longrightarrow> p \<noteq> [] \<Longrightarrow> IsDocumentKey p \<Longrightarrow>
     ReadDocumentKey (rdr (path_code p @ label_code l @ rest)) = Inr (p, rdr (label_code l @ rest))"
  by (simp add: ReadDocumentKey_def then_read_def make_DocumentKey_def)

lemma read_document_key_end [simp]:
  "p \<noteq> [] \<Longrightarrow> IsDocumentKey p \<Longrightarrow>
     ReadDocumentKey (rdr (path_code p @ label_code Terminator)) = Inr (p, rdr (label_code Terminator))"
  using read_document_key[of Terminator p "[]"] by simp

section \<open>Round trips\<close>

lemma decode_def': "decode f key = rmap (\<lambda>(x, reader). (x, rd_ok reader)) (f (rdr key))"
  by (simp add: decode_def make_Reader_def)

lemmas key_defs =
  LevelDbVersionKey_Key_def LevelDbMutationKey_Key_def LevelDbDocumentMutationKey_Key_def LevelDbMutationQueueKey_Key_def
  LevelDbTargetGlobalKey_Key_def LevelDbTargetKey_Key_def LevelDbQueryTargetKey_Key_def LevelDbTargetDocumentKey_Key_def
  LevelDbDocumentTargetKey_Key_def LevelDbRemoteDocumentKey_Key_def LevelDbCollectionParentKey_Key_def
  LevelDbRemoteDocumentReadTimeKey_Key_def

lemmas decode_defs =
  LevelDbMutationKey_Decode_def LevelDbDocumentMutationKey_Decode_def LevelDbMutationQueueKey_Decode_def
  LevelDbTargetGlobalKey_Decode_def LevelDbTargetKey_Decode_def LevelDbQueryTargetKey_Decode_def
  LevelDbTargetDocumentKey_Decode_def LevelDbDocumentTargetKey_Decode_def LevelDbRemoteDocumentKey_Decode_def
  LevelDbCollectionParentKey_Decode_def LevelDbRemoteDocumentReadTimeKey_Decode_def

lemma user_keys_roundtrip:
  "rbind (LevelDbMutationKey_Key u b) LevelDbMutationKey_Decode = Inr ((u, b), True)"
  "rbind (LevelDbMutationQueueKey_Key u) LevelDbMutationQueueKey_Decode = Inr (u, True)"
  "rbind LevelDbTargetGlobalKey_Key LevelDbTargetGlobalKey_Decode = Inr ((), True)"
  "rbind (LevelDbTargetKey_Key t) LevelDbTargetKey_Decode = Inr (t, True)"
  "rbind (LevelDbQueryTargetKey_Key c t) LevelDbQueryTargetKey_Decode = Inr ((c, t), True)"
  "rbind (LevelDbCollectionParentKey_Key c p) LevelDbCollectionParentKey_Decode = Inr ((c, p), True)"
  by (simp_all add: key_defs decode_defs decode_def' then_read_def)

lemma document_keys_roundtrip:
  assumes "k \<noteq> []" "IsDocumentKey k"
  shows "rbind (LevelDbDocumentMutationKey_Key u k b) LevelDbDocumentMutationKey_Decode = Inr ((u, k, b), True)"
    "rbind (LevelDbTargetDocumentKey_Key t k) LevelDbTargetDocumentKey_Decode = Inr ((t, k), True)"
    "rbind (LevelDbDocumentTargetKey_Key k t) LevelDbDocumentTargetKey_Decode = Inr ((k, t), True)"
    "rbind (LevelDbRemoteDocumentKey_Key k) LevelDbRemoteDocumentKey_Decode = Inr (k, True)"
  using assms by (simp_all add: key_defs decode_defs decode_def' then_read_def)

lemma read_time_key_roundtrip:
  "ValidateBounds v \<Longrightarrow> rbind (LevelDbRemoteDocumentReadTimeKey_Key p v d) LevelDbRemoteDocumentReadTimeKey_Decode =
     Inr ((p, v, d), True)"
  by (simp add: key_defs decode_defs decode_def' then_read_def make_Timestamp_def)

lemma read_time_key_invalid:
  "\<not> ValidateBounds v \<Longrightarrow> rbind (LevelDbRemoteDocumentReadTimeKey_Key p v d) LevelDbRemoteDocumentReadTimeKey_Decode =
     Inl HardAssert"
  by (simp add: key_defs decode_defs decode_def' then_read_def make_Timestamp_def)

section \<open>A reader that has failed\<close>

text \<open>Every function of the reader returns, and leaves a failed reader as it is.\<close>

definition keeps_failed :: "'a reading \<Rightarrow> bool" where
  "keeps_failed f = (\<forall>r. \<not> rd_ok r \<longrightarrow> (\<exists>x. f r = Inr (x, r)))"

lemma Reader_Fail_failed [simp]: "\<not> rd_ok r \<Longrightarrow> Reader_Fail r = r"
  by (cases r) (simp add: Reader_Fail_def)

lemma keeps_failed_then: "keeps_failed f \<Longrightarrow> (\<And>x. keeps_failed (g x)) \<Longrightarrow> keeps_failed (then_read f g)"
  by (fastforce simp: keeps_failed_def then_read_def)

lemma keeps_failedI: "(\<And>r. \<not> rd_ok r \<Longrightarrow> \<exists>x. f r = Inr (x, r)) \<Longrightarrow> keeps_failed f"
  by (simp add: keeps_failed_def)

lemma keeps_failed_basic [simp]:
  "keeps_failed (give x)" "keeps_failed (fail_with x)" "keeps_failed (read_with d f)"
  "keeps_failed (ReadComponentLabelMatching l)" "keeps_failed ReadInt32" "keeps_failed (path_loop p)"
  by (rule keeps_failedI; auto simp: fail_with_def read_with_def ReadComponentLabelMatching_def ReadInt32_def
      path_loop.simps Reader_empty_def)+

lemma keeps_failed_path [simp]: "keeps_failed ReadResourcePath"
  unfolding ReadResourcePath_def by (rule keeps_failed_basic(6))

lemma keeps_failed_or_fail [simp]: "keeps_failed f \<Longrightarrow> keeps_failed (or_fail f)"
  unfolding or_fail_def by (rule keeps_failed_then) simp_all

lemma keeps_failed_readers [simp]:
  "keeps_failed Reader_ReadString" "keeps_failed ReadBatchId" "keeps_failed ReadTargetId" "keeps_failed ReadUserId"
  "keeps_failed ReadCanonicalId" "keeps_failed ReadCollectionId" "keeps_failed ReadDocumentId"
  "keeps_failed ReadTerminator"
  by (simp_all add: Reader_ReadString_def ReadBatchId_def ReadTargetId_def ReadUserId_def ReadCanonicalId_def
      ReadCollectionId_def ReadDocumentId_def ReadTerminator_def ReadLabeledString_def
      ReadLabeledInt32_def keeps_failed_then)

lemma keeps_failed_ReadDocumentKey [simp]: "keeps_failed ReadDocumentKey"
  unfolding ReadDocumentKey_def by (rule keeps_failed_then) (simp, rule keeps_failedI, simp add: fail_with_def)

lemma keeps_failed_ReadSnapshotVersion [simp]: "keeps_failed ReadSnapshotVersion"
  by (simp add: keeps_failed_def ReadSnapshotVersion_def then_read_def or_fail_def ReadComponentLabelMatching_def
      fail_with_def ReadInt64_def Reader_ReadSignedNumIncreasing_def read_with_def ReadInt32_def make_Timestamp_def
      ValidateBounds_def kNanosPerSecond_def)

lemma decode_fails:
  assumes "\<And>u. keeps_failed (f u)" "t \<noteq> t'"
  shows "\<exists>x. decode (then_read (ReadTableNameMatching t) f) (label_code TableName @ string_item_code t' @ rest) = Inr (x, False)"
proof -
  obtain x where "f () \<lparr>rd_src = rest, rd_ok = False\<rparr> = Inr (x, \<lparr>rd_src = rest, rd_ok = False\<rparr>)"
    using assms(1)[of "()"] unfolding keeps_failed_def by (metis Reader.select_convs(2))
  then show ?thesis using assms(2) by (simp add: decode_def' then_read_def)
qed

text \<open>The key of another table is refused by every decoder.\<close>

definition table_row :: "string \<Rightarrow> bytes \<Rightarrow> bool" where
  "table_row t key = (\<exists>rest. key = label_code TableName @ string_item_code t @ rest)"

lemma decode_other_table:
  assumes "table_row t key"
  shows "t \<noteq> kMutationsTable \<Longrightarrow> \<exists>x. LevelDbMutationKey_Decode key = Inr (x, False)"
    "t \<noteq> kDocumentMutationsTable \<Longrightarrow> \<exists>x. LevelDbDocumentMutationKey_Decode key = Inr (x, False)"
    "t \<noteq> kMutationQueuesTable \<Longrightarrow> \<exists>x. LevelDbMutationQueueKey_Decode key = Inr (x, False)"
    "t \<noteq> kTargetsTable \<Longrightarrow> \<exists>x. LevelDbTargetKey_Decode key = Inr (x, False)"
    "t \<noteq> kQueryTargetsTable \<Longrightarrow> \<exists>x. LevelDbQueryTargetKey_Decode key = Inr (x, False)"
    "t \<noteq> kTargetDocumentsTable \<Longrightarrow> \<exists>x. LevelDbTargetDocumentKey_Decode key = Inr (x, False)"
    "t \<noteq> kDocumentTargetsTable \<Longrightarrow> \<exists>x. LevelDbDocumentTargetKey_Decode key = Inr (x, False)"
    "t \<noteq> kRemoteDocumentsTable \<Longrightarrow> \<exists>x. LevelDbRemoteDocumentKey_Decode key = Inr (x, False)"
    "t \<noteq> kCollectionParentsTable \<Longrightarrow> \<exists>x. LevelDbCollectionParentKey_Decode key = Inr (x, False)"
    "t \<noteq> kRemoteDocumentReadTimeTable \<Longrightarrow> \<exists>x. LevelDbRemoteDocumentReadTimeKey_Decode key = Inr (x, False)"
  using assms unfolding table_row_def decode_defs
  by (elim exE; simp only:; intro decode_fails keeps_failed_then keeps_failed_readers keeps_failed_basic
      keeps_failed_ReadDocumentKey keeps_failed_ReadSnapshotVersion keeps_failed_path; simp)+

section \<open>Order\<close>

lemma label_less: "label_value l < label_value l' \<Longrightarrow> byte_before (label_code l @ r) (label_code l' @ s)"
  by (cases l; cases l') (simp_all add: label_value.simps label_code_def byte_before_Cons)

context ordered_item
begin

lemma code_before_prefix: "item_less x y \<Longrightarrow> byte_before (p @ code x @ r) (p @ code y @ s)"
  by (rule byte_before_prefix[OF byte_before_append[OF code_before]])

end

lemma string_before: "s < t \<Longrightarrow> byte_before (p @ string_item_code s @ u) (p @ string_item_code t @ v)"
  unfolding string_item_code_def by (rule string_item.code_before_prefix[OF to_bytes_less])

lemma int32_before: "x <s y \<Longrightarrow> byte_before (p @ int32_code x @ u) (p @ int32_code y @ v)"
  unfolding int32_code_def by (rule signed_item.code_before_prefix) (simp add: word_sless_alt scast_int32)

lemma path_code_simps [simp]:
  "path_code [] = []" "path_code (s # p) = label_code PathSegment @ string_item_code s @ path_code p"
  "path_code (p @ q) = path_code p @ path_code q"
  by (simp_all add: path_code_def)

lemma path_before:
  assumes "p < q" "label_value l < label_value PathSegment"
  shows "byte_before (c @ path_code p @ label_code l @ u) (c @ path_code q @ v)"
proof -
  have "(p, q) \<in> lexord {(u, v). u < v}" using assms(1) by (simp add: list_less_def)
  then consider (prefix) s w where "q = p @ s # w"
    | (differ) w s t x y where "s < t" "p = w @ s # x" "q = w @ t # y" unfolding lexord_def by blast
  then show ?thesis
  proof cases
    case prefix
    show ?thesis using byte_before_prefix[OF label_less[OF assms(2), of u], of "c @ path_code p"] prefix by simp
  next
    case differ
    show ?thesis using string_before[OF differ(1), of "c @ path_code w @ label_code PathSegment"] differ(2,3) by simp
  qed
qed

lemma bytes_less_asym: "bytes_less u v \<Longrightarrow> \<not> bytes_less v u"
proof -
  have "asym (lexord {(a, b :: byte). a < b})" by (intro asymI lexord_asymmetric) (auto simp: asym_on_def)
  then show "bytes_less u v \<Longrightarrow> ?thesis" by (auto dest: asymD)
qed

lemma bytes_less_irrefl [simp]: "\<not> bytes_less u u"
  using bytes_less_asym by blast

text \<open>Where the order of the keys decides that of the bytes, it is the order of the bytes.\<close>

lemma order_decides:
  assumes "P \<Longrightarrow> byte_before a b" "Q \<Longrightarrow> byte_before b a" "P \<or> Q \<or> a = b"
  shows "bytes_less a b = P"
  using assms by (metis byte_before_less bytes_less_asym bytes_less_irrefl)

text \<open>The order of a path followed by a label, of a number and of a version, in a key.\<close>

lemma sless_cases: "(x :: 'w::len word) <s y \<or> y <s x \<or> x = y"
  by (metis signed.less_linear)

lemma version_before:
  assumes "v < w"
  shows "byte_before (p @ signed_code (seconds v) @ int32_code (nanoseconds v) @ r)
    (p @ signed_code (seconds w) @ int32_code (nanoseconds w) @ s)"
proof (cases "seconds v = seconds w")
  case True
  then show ?thesis
    using int32_before[of "nanoseconds v" "nanoseconds w" "p @ signed_code (seconds w)"] assms
    by (simp add: less_Timestamp_def word_sless_alt)
next
  case False
  then have "seconds v <s seconds w" using assms by (auto simp: less_Timestamp_def word_sless_alt dest: signed_word_eqI)
  then show ?thesis by (rule signed_item.code_before_prefix)
qed

lemma mutation_key_bytes:
  "LevelDbMutationKey_Key u b = Inr (label_code TableName @ string_item_code kMutationsTable @
     label_code UserId @ string_item_code u @ label_code BatchId @ int32_code b @ label_code Terminator)"
  by (simp add: key_defs)

lemma mutation_keys_order:
  assumes "LevelDbMutationKey_Key u b = Inr x" "LevelDbMutationKey_Key u' b' = Inr y"
  shows "bytes_less x y = (u < u' \<or> u = u' \<and> b <s b')"
proof -
  have before: "byte_before x y" if "LevelDbMutationKey_Key u b = Inr x" "LevelDbMutationKey_Key u' b' = Inr y"
    "u < u' \<or> u = u' \<and> b <s b'" for u u' b b' x y
    using that string_before[of u u' "label_code TableName @ string_item_code kMutationsTable @ label_code UserId"]
      int32_before[of b b' "label_code TableName @ string_item_code kMutationsTable @ label_code UserId @
        string_item_code u @ label_code BatchId"]
    by (auto simp: mutation_key_bytes)
  show ?thesis
    using before[OF assms] before[OF assms(2,1)] assms sless_cases[of b b'] less_linear[of u u']
    by (intro order_decides[of _ _ _ "u' < u \<or> u = u' \<and> b' <s b"]) auto
qed

lemma remote_document_keys_order:
  assumes "LevelDbRemoteDocumentKey_Key k = Inr x" "LevelDbRemoteDocumentKey_Key k' = Inr y"
  shows "bytes_less x y = (k < k')"
proof -
  have before: "byte_before x y" if "LevelDbRemoteDocumentKey_Key k = Inr x" "LevelDbRemoteDocumentKey_Key k' = Inr y" "k < k'"
    for k k' x y
    using that path_before[of k k' Terminator "label_code TableName @ string_item_code kRemoteDocumentsTable" "[]"]
    by (auto simp: key_defs label_value.simps)
  show ?thesis
    using before[OF assms] before[OF assms(2,1)] assms less_linear[of k k']
    by (intro order_decides[of _ _ _ "k' < k"]) auto
qed

lemma document_target_keys_order:
  assumes "LevelDbDocumentTargetKey_Key k t = Inr x" "LevelDbDocumentTargetKey_Key k' t' = Inr y"
  shows "bytes_less x y = (k < k' \<or> k = k' \<and> t <s t')"
proof -
  have before: "byte_before x y" if "LevelDbDocumentTargetKey_Key k t = Inr x" "LevelDbDocumentTargetKey_Key k' t' = Inr y"
    "k < k' \<or> k = k' \<and> t <s t'" for k k' t t' x y
    using that path_before[of k k' TargetId "label_code TableName @ string_item_code kDocumentTargetsTable"]
      int32_before[of t t' "label_code TableName @ string_item_code kDocumentTargetsTable @ path_code k @ label_code TargetId"]
    by (auto simp: key_defs label_value.simps)
  show ?thesis
    using before[OF assms] before[OF assms(2,1)] assms sless_cases[of t t'] less_linear[of k k']
    by (intro order_decides[of _ _ _ "k' < k \<or> k = k' \<and> t' <s t"]) auto
qed

section \<open>Prefixes\<close>

lemma label_code_inject: "(label_code l @ r = label_code l' @ s) = (l = l' \<and> r = s)"
  using signed_item.code_inject[of "label_value l" r "label_value l'" s] by (auto simp: signed_label label_value_inject)

lemma string_code_inject: "(string_item_code u @ r = string_item_code v @ s) = (u = v \<and> r = s)"
proof -
  have "to_bytes u = to_bytes v \<Longrightarrow> u = v" by (metis of_bytes_to_bytes)
  then show ?thesis using string_item.code_inject[of "to_bytes u" r "to_bytes v" s] by (auto simp: string_item_code_def)
qed

lemma int32_code_inject: "(int32_code u @ r = int32_code v @ s) = (u = v \<and> r = s)"
proof -
  have "(scast u :: int64) = scast v \<Longrightarrow> u = v" by (metis scast_int32(2))
  then show ?thesis using signed_item.code_inject[of "scast u" r "scast v" s] by (auto simp: int32_code_def)
qed

lemma path_prefix_code:
  "l \<noteq> PathSegment \<Longrightarrow> (\<exists>r. path_code k @ label_code l @ s = path_code p @ r) = IsPrefixOf p k"
proof (induction p arbitrary: k)
  case Nil
  then show ?case by (simp add: IsPrefixOf_iff)
next
  case (Cons a p)
  show ?case
  proof (cases k)
    case Nil
    then show ?thesis using Cons.prems by (simp add: label_code_inject IsPrefixOf_iff)
  next
    case (Cons b k')
    have "IsPrefixOf (a # p) (b # k') = (a = b \<and> IsPrefixOf p k')" by (auto simp: IsPrefixOf_iff)
    then show ?thesis using Cons.IH[OF Cons.prems, of k'] Cons by (auto simp: label_code_inject string_code_inject)
  qed
qed

lemma table_prefix_code:
  "(\<exists>r. label_code TableName @ string_item_code t' @ s = label_code TableName @ string_item_code t @ r) = (t = t')"
  by (auto simp: string_code_inject)

lemma remote_document_prefix:
  assumes "LevelDbRemoteDocumentKey_KeyPrefix_path p = Inr x" "LevelDbRemoteDocumentKey_Key k = Inr y"
  shows "(\<exists>r. y = x @ r) = IsPrefixOf p k"
  using assms path_prefix_code[of Terminator k "[]" p] by (auto simp: key_defs LevelDbRemoteDocumentKey_KeyPrefix_path_def)

lemma document_mutation_prefix:
  assumes "LevelDbDocumentMutationKey_KeyPrefix_path u p = Inr x" "LevelDbDocumentMutationKey_Key u' k b = Inr y"
  shows "(\<exists>r. y = x @ r) = (u = u' \<and> IsPrefixOf p k)"
proof -
  have "(\<exists>r. y = x @ r) = (u = u' \<and> (\<exists>r. path_code k @ label_code BatchId @ int32_code b @ label_code Terminator = path_code p @ r))"
    using assms by (auto simp: key_defs LevelDbDocumentMutationKey_KeyPrefix_path_def string_code_inject label_code_inject)
  then show ?thesis using path_prefix_code[of BatchId k _ p] by simp
qed

lemma read_time_scan:
  assumes "LevelDbRemoteDocumentReadTimeKey_KeyPrefix c v = Inr x" "LevelDbRemoteDocumentReadTimeKey_Key c w d = Inr y"
  shows "bytes_less x y = (v \<le> w)"
proof -
  let ?p = "label_code TableName @ string_item_code kRemoteDocumentReadTimeTable @ path_code c @ label_code SnapshotVersion"
  let ?v = "\<lambda>v. signed_code (seconds v) @ int32_code (nanoseconds v)"
  let ?r = "label_code DocumentId @ string_item_code d @ label_code Terminator"
  have x: "x = ?p @ ?v v" and y: "y = ?p @ ?v w @ ?r"
    using assms by (simp_all add: key_defs LevelDbRemoteDocumentReadTimeKey_KeyPrefix_def)
  consider "v < w" | "v = w" | "w < v" by (rule linorder_cases)
  then show ?thesis
  proof cases
    case 1
    then show ?thesis using byte_before_less[OF version_before[OF 1, of ?p "[]" ?r]] by (simp add: x y)
  next
    case 2
    have "\<exists>a r. ?r = a # r" by (simp add: label_code_def)
    then show ?thesis using 2 unfolding x y lexord_def by auto
  next
    case 3
    then show ?thesis using bytes_less_asym[OF byte_before_less[OF version_before[OF 3, of ?p ?r "[]"]]] by (simp add: x y)
  qed
qed

end
