(* ===== verification/RemoteEvents.thy ===== *)
theory RemoteEvents
  imports Views Statuses "HOL-Library.AList"
begin

text \<open>
  \<open>remote/remote_event.cc\<close>, \<open>remote/watch_change.h\<close> and \<open>remote/existence_filter.h\<close>: the changes
  of the watch stream, accumulated per target until a consistent snapshot is raised.  The provider
  of the targets' metadata (the remote store in the code) is a record of its two functions.  An
  unordered map is an association list: one over document keys is kept sorted, one over target ids
  in the order of insertion; sets of target ids are lists whose order is not observed.  The number
  of outstanding responses is an integer.
\<close>

section \<open>Watch changes\<close>

record DocumentWatchChange =
  dwc_updated_target_ids :: "TargetId list"
  dwc_removed_target_ids :: "TargetId list"
  dwc_document_key :: DocumentKey
  dwc_new_document :: "MaybeDocument option"

record ExistenceFilterWatchChange =
  efc_count :: int32
  efc_target_id :: TargetId

datatype WatchTargetChangeState = WNoChange | WAdded | WRemoved | WCurrent | WReset

record WatchTargetChange =
  wtc_state :: WatchTargetChangeState
  wtc_target_ids :: "TargetId list"
  wtc_resume_token :: ByteString
  wtc_cause :: Status

record TargetMetadataProvider =
  GetRemoteKeysForTarget :: "TargetId \<Rightarrow> DocumentKeySet"
  GetTargetDataForTarget :: "TargetId \<Rightarrow> TargetData option"

section \<open>The state of one target\<close>

record TargetState =
  ts_outstanding_responses :: int
  ts_document_changes :: "(DocumentKey \<times> ChangeType) list"
  ts_resume_token :: ByteString
  ts_current :: bool
  ts_has_pending_changes :: bool

definition new_TargetState :: TargetState where
  "new_TargetState = \<lparr>ts_outstanding_responses = 0, ts_document_changes = [], ts_resume_token = [],
     ts_current = False, ts_has_pending_changes = True\<rparr>"

definition IsPending :: "TargetState \<Rightarrow> bool" where
  "IsPending s = (ts_outstanding_responses s \<noteq> 0)"

definition UpdateResumeToken :: "ByteString \<Rightarrow> TargetState \<Rightarrow> TargetState" where
  "UpdateResumeToken token s =
     (if token \<noteq> [] then s\<lparr>ts_has_pending_changes := True, ts_resume_token := token\<rparr> else s)"

text \<open>The switch of the loop over the document changes.\<close>

definition sort_change :: "TargetChange \<Rightarrow> DocumentKey \<times> ChangeType \<Rightarrow> TargetChange result" where
  "sort_change tc e =
     (case snd e of
        CAdded \<Rightarrow> Inr (tc\<lparr>tc_added_documents := dks_insert (fst e) (tc_added_documents tc)\<rparr>)
      | CModified \<Rightarrow> Inr (tc\<lparr>tc_modified_documents := dks_insert (fst e) (tc_modified_documents tc)\<rparr>)
      | CRemoved \<Rightarrow> Inr (tc\<lparr>tc_removed_documents := dks_insert (fst e) (tc_removed_documents tc)\<rparr>)
      | CMetadata \<Rightarrow> Inl HardFail)"

definition ToTargetChange :: "TargetState \<Rightarrow> TargetChange result" where
  "ToTargetChange s = rfold sort_change
     \<lparr>tc_resume_token = ts_resume_token s, tc_current = ts_current s, tc_added_documents = [],
      tc_modified_documents = [], tc_removed_documents = []\<rparr> (ts_document_changes s)"

definition ClearPendingChanges :: "TargetState \<Rightarrow> TargetState" where
  "ClearPendingChanges s = s\<lparr>ts_has_pending_changes := False, ts_document_changes := []\<rparr>"

definition ts_RecordPendingTargetRequest :: "TargetState \<Rightarrow> TargetState" where
  "ts_RecordPendingTargetRequest s = s\<lparr>ts_outstanding_responses := ts_outstanding_responses s + 1\<rparr>"

definition RecordTargetResponse :: "TargetState \<Rightarrow> TargetState" where
  "RecordTargetResponse s = s\<lparr>ts_outstanding_responses := ts_outstanding_responses s - 1\<rparr>"

definition MarkCurrent :: "TargetState \<Rightarrow> TargetState" where
  "MarkCurrent s = s\<lparr>ts_has_pending_changes := True, ts_current := True\<rparr>"

definition AddDocumentChange :: "DocumentKey \<Rightarrow> ChangeType \<Rightarrow> TargetState \<Rightarrow> TargetState" where
  "AddDocumentChange key type s =
     s\<lparr>ts_has_pending_changes := True, ts_document_changes := dm_insert key type (ts_document_changes s)\<rparr>"

definition RemoveDocumentChange :: "DocumentKey \<Rightarrow> TargetState \<Rightarrow> TargetState" where
  "RemoveDocumentChange key s =
     s\<lparr>ts_has_pending_changes := True, ts_document_changes := dm_erase key (ts_document_changes s)\<rparr>"

section \<open>The aggregator\<close>

record RemoteEvent =
  re_snapshot_version :: SnapshotVersion
  re_target_changes :: "(TargetId \<times> TargetChange) list"
  re_target_mismatches :: "TargetId list"
  re_document_updates :: "(DocumentKey \<times> MaybeDocument) list"
  re_limbo_document_changes :: DocumentKeySet

record WatchChangeAggregator =
  wca_target_states :: "(TargetId \<times> TargetState) list"
  wca_document_updates :: "(DocumentKey \<times> MaybeDocument) list"
  wca_target_mappings :: "(DocumentKey \<times> TargetId list) list"
  wca_target_resets :: "TargetId list"

definition new_WatchChangeAggregator :: WatchChangeAggregator where
  "new_WatchChangeAggregator = \<lparr>wca_target_states = [], wca_document_updates = [],
     wca_target_mappings = [], wca_target_resets = []\<rparr>"

text \<open>
  \<open>target_states_[id]\<close> creates an initial state for a target it does not know: the state as read,
  and the aggregator after a change of it.
\<close>

definition EnsureTargetState :: "TargetId \<Rightarrow> WatchChangeAggregator \<Rightarrow> TargetState" where
  "EnsureTargetState t w = (case map_of (wca_target_states w) t of Some s \<Rightarrow> s | None \<Rightarrow> new_TargetState)"

definition on_target_state ::
  "(TargetState \<Rightarrow> TargetState) \<Rightarrow> TargetId \<Rightarrow> WatchChangeAggregator \<Rightarrow> WatchChangeAggregator" where
  "on_target_state f t w =
     w\<lparr>wca_target_states := AList.update t (f (EnsureTargetState t w)) (wca_target_states w)\<rparr>"

definition TargetDataForActiveTarget ::
  "TargetMetadataProvider \<Rightarrow> WatchChangeAggregator \<Rightarrow> TargetId \<Rightarrow> TargetData option" where
  "TargetDataForActiveTarget p w t =
     (case map_of (wca_target_states w) t of
        Some s \<Rightarrow> if IsPending s then None else GetTargetDataForTarget p t
      | None \<Rightarrow> GetTargetDataForTarget p t)"

definition IsActiveTarget :: "TargetMetadataProvider \<Rightarrow> WatchChangeAggregator \<Rightarrow> TargetId \<Rightarrow> bool" where
  "IsActiveTarget p w t = (TargetDataForActiveTarget p w t \<noteq> None)"

definition TargetContainsDocument :: "TargetMetadataProvider \<Rightarrow> TargetId \<Rightarrow> DocumentKey \<Rightarrow> bool" where
  "TargetContainsDocument p t key = dks_contains key (GetRemoteKeysForTarget p t)"

text \<open>\<open>pending_document_target_mappings_[key].insert(target_id)\<close>.\<close>

definition map_document_target :: "DocumentKey \<Rightarrow> TargetId \<Rightarrow> WatchChangeAggregator \<Rightarrow> WatchChangeAggregator" where
  "map_document_target key t w = w\<lparr>wca_target_mappings :=
     dm_insert key (List.insert t (case dm_get key (wca_target_mappings w) of Some ts \<Rightarrow> ts | None \<Rightarrow> []))
       (wca_target_mappings w)\<rparr>"

definition AddDocumentToTarget ::
  "TargetMetadataProvider \<Rightarrow> TargetId \<Rightarrow> MaybeDocument \<Rightarrow> WatchChangeAggregator \<Rightarrow> WatchChangeAggregator" where
  "AddDocumentToTarget p t document w =
     (if \<not> IsActiveTarget p w t then w
      else let key = doc_key document;
               change_type = (if TargetContainsDocument p t key then CModified else CAdded);
               w = on_target_state (AddDocumentChange key change_type) t w;
               w = w\<lparr>wca_document_updates := dm_insert key document (wca_document_updates w)\<rparr>
           in map_document_target key t w)"

definition RemoveDocumentFromTarget ::
  "TargetMetadataProvider \<Rightarrow> TargetId \<Rightarrow> DocumentKey \<Rightarrow> MaybeDocument option \<Rightarrow>
   WatchChangeAggregator \<Rightarrow> WatchChangeAggregator" where
  "RemoveDocumentFromTarget p t key updated_document w =
     (if \<not> IsActiveTarget p w t then w
      else let w = (if TargetContainsDocument p t key
                    then on_target_state (AddDocumentChange key CRemoved) t w
                    else on_target_state (RemoveDocumentChange key) t w);
               w = map_document_target key t w
           in (case updated_document of
                 Some d \<Rightarrow> w\<lparr>wca_document_updates := dm_insert key d (wca_document_updates w)\<rparr>
               | None \<Rightarrow> w))"

definition RemoveTarget :: "TargetId \<Rightarrow> WatchChangeAggregator \<Rightarrow> WatchChangeAggregator" where
  "RemoveTarget t w = w\<lparr>wca_target_states := AList.delete t (wca_target_states w)\<rparr>"

definition RecordPendingTargetRequest :: "TargetId \<Rightarrow> WatchChangeAggregator \<Rightarrow> WatchChangeAggregator" where
  "RecordPendingTargetRequest t w = on_target_state ts_RecordPendingTargetRequest t w"

definition ResetTarget ::
  "TargetMetadataProvider \<Rightarrow> TargetId \<Rightarrow> WatchChangeAggregator \<Rightarrow> WatchChangeAggregator result" where
  "ResetTarget p t w =
     (case map_of (wca_target_states w) t of
        None \<Rightarrow> Inl HardFail
      | Some s \<Rightarrow> hard_assert (\<not> IsPending s)
          (Inr (foldl (\<lambda>w key. RemoveDocumentFromTarget p t key None w)
             (on_target_state (\<lambda>_. new_TargetState) t w) (GetRemoteKeysForTarget p t))))"

text \<open>The sizes of the sets are unsigned 32-bit integers, and so is their sum before it is returned.\<close>

definition GetCurrentDocumentCountForTarget ::
  "TargetMetadataProvider \<Rightarrow> TargetId \<Rightarrow> WatchChangeAggregator \<Rightarrow> (int32 \<times> WatchChangeAggregator) result" where
  "GetCurrentDocumentCountForTarget p t w =
     (let w = on_target_state id t w
      in rmap (\<lambda>tc. (word_of_nat (length (GetRemoteKeysForTarget p t)) + word_of_nat (length (tc_added_documents tc)) -
                     word_of_nat (length (tc_removed_documents tc)), w))
           (ToTargetChange (EnsureTargetState t w)))"

section \<open>Handling the changes of the watch stream\<close>

definition updated_target_step ::
  "TargetMetadataProvider \<Rightarrow> DocumentWatchChange \<Rightarrow> WatchChangeAggregator \<Rightarrow> TargetId \<Rightarrow> WatchChangeAggregator" where
  "updated_target_step p change w t =
     (case dwc_new_document change of
        None \<Rightarrow> w
      | Some new_doc \<Rightarrow>
          (if is_document new_doc then AddDocumentToTarget p t new_doc w
           else if is_NoDocument new_doc
           then RemoveDocumentFromTarget p t (dwc_document_key change) (dwc_new_document change) w
           else w))"

definition HandleDocumentChange ::
  "TargetMetadataProvider \<Rightarrow> DocumentWatchChange \<Rightarrow> WatchChangeAggregator \<Rightarrow> WatchChangeAggregator" where
  "HandleDocumentChange p change w =
     (let w = foldl (updated_target_step p change) w (dwc_updated_target_ids change)
      in foldl (\<lambda>w t. RemoveDocumentFromTarget p t (dwc_document_key change) (dwc_new_document change) w) w
           (dwc_removed_target_ids change))"

definition GetTargetIds ::
  "TargetMetadataProvider \<Rightarrow> WatchTargetChange \<Rightarrow> WatchChangeAggregator \<Rightarrow> TargetId list" where
  "GetTargetIds p change w =
     (if wtc_target_ids change \<noteq> [] then wtc_target_ids change
      else filter (IsActiveTarget p w) (map fst (wca_target_states w)))"

definition target_change_step ::
  "TargetMetadataProvider \<Rightarrow> WatchTargetChange \<Rightarrow> WatchChangeAggregator \<Rightarrow> TargetId \<Rightarrow> WatchChangeAggregator result" where
  "target_change_step p change w t =
     (let w = on_target_state id t w; token = wtc_resume_token change
      in case wtc_state change of
           WNoChange \<Rightarrow> Inr (if IsActiveTarget p w t then on_target_state (UpdateResumeToken token) t w else w)
         | WAdded \<Rightarrow>
             (let w = on_target_state RecordTargetResponse t w;
                  w = (if \<not> IsPending (EnsureTargetState t w) then on_target_state ClearPendingChanges t w else w)
              in Inr (on_target_state (UpdateResumeToken token) t w))
         | WRemoved \<Rightarrow>
             (let w = on_target_state RecordTargetResponse t w;
                  w = (if \<not> IsPending (EnsureTargetState t w) then RemoveTarget t w else w)
              in hard_assert (Status_ok (wtc_cause change)) (Inr w))
         | WCurrent \<Rightarrow>
             Inr (if IsActiveTarget p w t
                  then on_target_state (UpdateResumeToken token) t (on_target_state MarkCurrent t w) else w)
         | WReset \<Rightarrow>
             (if IsActiveTarget p w t
              then rmap (on_target_state (UpdateResumeToken token) t) (ResetTarget p t w) else Inr w))"

definition HandleTargetChange ::
  "TargetMetadataProvider \<Rightarrow> WatchTargetChange \<Rightarrow> WatchChangeAggregator \<Rightarrow> WatchChangeAggregator result" where
  "HandleTargetChange p change w = rfold (target_change_step p change) w (GetTargetIds p change w)"

definition HandleExistenceFilter ::
  "TargetMetadataProvider \<Rightarrow> ExistenceFilterWatchChange \<Rightarrow> WatchChangeAggregator \<Rightarrow> WatchChangeAggregator result" where
  "HandleExistenceFilter p change w =
     (let t = efc_target_id change; expected_count = efc_count change
      in case TargetDataForActiveTarget p w t of
           None \<Rightarrow> Inr w
         | Some target_data \<Rightarrow>
             (if Target_IsDocumentQuery (td_target target_data) then
                (if expected_count = 0
                 then let key = t_path (td_target target_data)
                      in Inr (RemoveDocumentFromTarget p t key (Some (NoDocument key SnapshotVersion_None False)) w)
                 else hard_assert (expected_count = 1) (Inr w))
              else rbind (GetCurrentDocumentCountForTarget p t w) (\<lambda>(current_size, w).
                     if current_size \<noteq> expected_count
                     then rmap (\<lambda>w. w\<lparr>wca_target_resets := List.insert t (wca_target_resets w)\<rparr>) (ResetTarget p t w)
                     else Inr w)))"

section \<open>Raising a remote event\<close>

text \<open>The document a current document target is known not to have.\<close>

definition synthesize_delete ::
  "TargetMetadataProvider \<Rightarrow> SnapshotVersion \<Rightarrow> TargetId \<Rightarrow> TargetData \<Rightarrow> WatchChangeAggregator \<Rightarrow> WatchChangeAggregator" where
  "synthesize_delete p version t target_data w =
     (if ts_current (EnsureTargetState t w) \<and> Target_IsDocumentQuery (td_target target_data)
      then let key = t_path (td_target target_data)
           in if dm_get key (wca_document_updates w) = None \<and> \<not> TargetContainsDocument p t key
              then RemoveDocumentFromTarget p t key (Some (NoDocument key version False)) w
              else w
      else w)"

definition remote_event_step ::
  "TargetMetadataProvider \<Rightarrow> SnapshotVersion \<Rightarrow> (TargetId \<times> TargetChange) list \<times> WatchChangeAggregator \<Rightarrow>
   TargetId \<Rightarrow> ((TargetId \<times> TargetChange) list \<times> WatchChangeAggregator) result" where
  "remote_event_step p version acc t =
     (let (target_changes, w) = acc
      in case TargetDataForActiveTarget p w t of
           None \<Rightarrow> Inr acc
         | Some target_data \<Rightarrow>
             (let w = synthesize_delete p version t target_data w; s = EnsureTargetState t w
              in if ts_has_pending_changes s
                 then rmap (\<lambda>tc. (AList.update t tc target_changes, on_target_state ClearPendingChanges t w))
                        (ToTargetChange s)
                 else Inr (target_changes, w)))"

definition is_only_limbo_target :: "TargetMetadataProvider \<Rightarrow> WatchChangeAggregator \<Rightarrow> TargetId list \<Rightarrow> bool" where
  "is_only_limbo_target p w ts = (\<not> list_ex (\<lambda>t. case TargetDataForActiveTarget p w t of
      Some target_data \<Rightarrow> td_purpose target_data \<noteq> QPLimboResolution | None \<Rightarrow> False) ts)"

definition CreateRemoteEvent ::
  "TargetMetadataProvider \<Rightarrow> SnapshotVersion \<Rightarrow> WatchChangeAggregator \<Rightarrow> (RemoteEvent \<times> WatchChangeAggregator) result" where
  "CreateRemoteEvent p version w =
     rbind (rfold (remote_event_step p version) ([], w) (map fst (wca_target_states w))) (\<lambda>(target_changes, w).
       let resolved = foldl (\<lambda>s e. if is_only_limbo_target p w (snd e) then dks_insert (fst e) s else s) []
                        (wca_target_mappings w)
       in Inr (\<lparr>re_snapshot_version = version, re_target_changes = target_changes,
                re_target_mismatches = wca_target_resets w, re_document_updates = wca_document_updates w,
                re_limbo_document_changes = resolved\<rparr>,
               w\<lparr>wca_document_updates := [], wca_target_mappings := [], wca_target_resets := []\<rparr>))"

end
