(* ===== verification/ViewProofs.thy ===== *)
theory ViewProofs
  imports Views "HOL-Library.Multiset"
begin

text \<open>
  Correctness of the views: merged changes describe the difference of the old and the new result
  set, the result set satisfies the query and its limit, the set of mutated keys is that of the
  results with local mutations, and the limbo documents are the unconfirmed results.
\<close>

section \<open>The change set is the difference\<close>

text \<open>What the change set records for one key, against the document before and after.\<close>

definition cs_at :: "MaybeDocument option \<Rightarrow> MaybeDocument option \<Rightarrow> DocumentViewChange option \<Rightarrow> bool" where
  "cs_at before after c = (case (before, after) of
      (None, None) \<Rightarrow> c = None
    | (None, Some n) \<Rightarrow> c = Some \<lparr>dvc_document = n, dvc_type = CAdded\<rparr>
    | (Some b, None) \<Rightarrow> (case c of None \<Rightarrow> False | Some ch \<Rightarrow> dvc_type ch = CRemoved \<and> doc_key (dvc_document ch) = doc_key b)
    | (Some b, Some n) \<Rightarrow> (case c of None \<Rightarrow> n = b
        | Some ch \<Rightarrow> dvc_document ch = n \<and> (dvc_type ch = CModified \<or> dvc_type ch = CMetadata)))"

definition change_from_to :: "MaybeDocument option \<Rightarrow> MaybeDocument option \<Rightarrow> DocumentViewChange \<Rightarrow> bool" where
  "change_from_to o1 n ch = (case (o1, n) of
      (None, None) \<Rightarrow> False
    | (None, Some d) \<Rightarrow> ch = \<lparr>dvc_document = d, dvc_type = CAdded\<rparr>
    | (Some d, None) \<Rightarrow> ch = \<lparr>dvc_document = d, dvc_type = CRemoved\<rparr>
    | (Some _, Some d) \<Rightarrow> dvc_document ch = d \<and> (dvc_type ch = CModified \<or> dvc_type ch = CMetadata))"

lemma AddChange_other:
  "AddChange ch cs = Inr cs' \<Longrightarrow> dm_ok cs \<Longrightarrow> k \<noteq> doc_key (dvc_document ch) \<Longrightarrow> dm_get k cs' = dm_get k cs"
  by (auto simp: AddChange_def Let_def dm_get_erase split: option.splits if_splits)

lemma AddChange_ok: "AddChange ch cs = Inr cs' \<Longrightarrow> dm_ok cs \<Longrightarrow> dm_ok cs'"
  by (auto simp: AddChange_def Let_def split: option.splits if_splits)

lemma AddChange_cs_at:
  assumes "cs_at b o1 (dm_get k cs)" "change_from_to o1 n ch" "doc_key (dvc_document ch) = k" "dm_ok cs"
    "\<forall>d. b = Some d \<longrightarrow> doc_key d = k"
  shows "\<exists>cs'. AddChange ch cs = Inr cs' \<and> cs_at b n (dm_get k cs')"
proof -
  obtain d t where ch: "ch = \<lparr>dvc_document = d, dvc_type = t\<rparr>" by (cases ch)
  show ?thesis
  proof (cases "dm_get k cs")
    case None
    then have "AddChange ch cs = Inr (dm_insert k ch cs)" using assms(3) by (simp add: AddChange_def Let_def)
    then show ?thesis using assms None
      by (cases b; cases o1; cases n) (auto simp: cs_at_def change_from_to_def)
  next
    case (Some old)
    obtain od ot where old: "old = \<lparr>dvc_document = od, dvc_type = ot\<rparr>" by (cases old)
    show ?thesis using assms
      by (cases b; cases o1; cases n; cases t; cases ot)
        (auto simp: AddChange_def Let_def Some old ch cs_at_def change_from_to_def dm_get_erase)
  qed
qed

section \<open>The invariant of the accumulated changes\<close>

definition result_docs_ok :: "Query \<Rightarrow> DocumentSet \<Rightarrow> bool" where
  "result_docs_ok q s = (ds_inv (query_cmp q) s \<and>
     (\<forall>d \<in> set (ds_docs s). is_document d \<and> Query_Matches q d = Inr True))"

text \<open>The mutated keys are those of the results with local mutations.\<close>

definition mutated_ok :: "DocumentSet \<Rightarrow> DocumentKeySet \<Rightarrow> bool" where
  "mutated_ok s mutated = (set mutated = doc_key ` {d \<in> set (ds_docs s). has_local_mutations d})"

definition changes_ok :: "Query \<Rightarrow> DocumentSet \<Rightarrow> ViewDocumentChanges \<Rightarrow> bool" where
  "changes_ok q base acc = (result_docs_ok q (vdc_document_set acc) \<and>
     mutated_ok (vdc_document_set acc) (vdc_mutated_keys acc) \<and> dm_ok (vdc_change_set acc) \<and>
     (\<forall>k. cs_at (ds_GetDocument k base) (ds_GetDocument k (vdc_document_set acc)) (dm_get k (vdc_change_set acc))))"

lemma result_docs_get:
  "result_docs_ok q s \<Longrightarrow> ds_GetDocument k s = Some d \<Longrightarrow> doc_key d = k \<and> is_document d \<and> Query_Matches q d = Inr True"
  using ds_get_key ds_get_mem by (auto simp: result_docs_ok_def)

lemma result_docs_insert:
  "result_docs_ok q s \<Longrightarrow> is_document d \<Longrightarrow> Query_Matches q d = Inr True \<Longrightarrow>
   result_docs_ok q (ds_insert (query_cmp q) (Some d) s)"
  by (auto simp: result_docs_ok_def query_set.insert_docs query_set.insert_inv)

lemma result_docs_erase: "result_docs_ok q s \<Longrightarrow> result_docs_ok q (ds_erase (query_cmp q) k s)"
  by (auto simp: result_docs_ok_def query_set.erase_docs query_set.erase_inv)

lemma mutated_insert:
  assumes "mutated_ok s mutated" "ds_inv (query_cmp q) s"
  shows "mutated_ok (ds_insert (query_cmp q) (Some d) s)
    (if has_local_mutations d then dks_insert (doc_key d) mutated else dks_erase (doc_key d) mutated)"
  using assms(1) by (auto simp: mutated_ok_def query_set.insert_docs[OF assms(2)] dks_insert_def dks_erase_def)

lemma mutated_erase:
  assumes "mutated_ok s mutated" "ds_inv (query_cmp q) s"
  shows "mutated_ok (ds_erase (query_cmp q) k s) (dks_erase k mutated)"
  using assms(1) by (auto simp: mutated_ok_def query_set.erase_docs[OF assms(2)] dks_erase_def)

lemma changes_ok_store:
  assumes ok: "changes_ok q base acc" and base: "ds_inv (query_cmp q) base"
    and ch: "change_from_to (ds_GetDocument k (vdc_document_set acc)) new_doc ch" "doc_key (dvc_document ch) = k"
    and new: "\<forall>d. new_doc = Some d \<longrightarrow> doc_key d = k \<and> is_document d \<and> Query_Matches q d = Inr True"
  shows "\<exists>cs. AddChange ch (vdc_change_set acc) = Inr cs \<and>
    changes_ok q base (store_change q k new_doc (acc\<lparr>vdc_change_set := cs, vdc_needs_refill := r\<rparr>)) \<and>
    \<not> (\<exists>k'. k' \<noteq> k \<and> ds_GetDocument k' (vdc_document_set (store_change q k new_doc
        (acc\<lparr>vdc_change_set := cs, vdc_needs_refill := r\<rparr>))) \<noteq> ds_GetDocument k' (vdc_document_set acc))"
proof -
  have inv: "ds_inv (query_cmp q) (vdc_document_set acc)" and dmok: "dm_ok (vdc_change_set acc)"
    and r: "result_docs_ok q (vdc_document_set acc)" and m: "mutated_ok (vdc_document_set acc) (vdc_mutated_keys acc)"
    and c: "cs_at (ds_GetDocument k' base) (ds_GetDocument k' (vdc_document_set acc)) (dm_get k' (vdc_change_set acc))" for k'
    using ok by (auto simp: changes_ok_def result_docs_ok_def)
  obtain cs where cs: "AddChange ch (vdc_change_set acc) = Inr cs" "cs_at (ds_GetDocument k base) new_doc (dm_get k cs)"
    using AddChange_cs_at[OF c ch dmok] ds_get_key[OF base] by auto
  let ?acc = "store_change q k new_doc (acc\<lparr>vdc_change_set := cs, vdc_needs_refill := r\<rparr>)"
  have get: "ds_GetDocument k' (vdc_document_set ?acc) = (if k' = k then new_doc else ds_GetDocument k' (vdc_document_set acc))" for k'
    using new inv by (auto simp: store_change_def query_set.get_insert query_set.get_erase split: option.split)
  have "result_docs_ok q (vdc_document_set ?acc)"
    using r new by (auto simp: store_change_def result_docs_insert result_docs_erase split: option.split)
  moreover have "mutated_ok (vdc_document_set ?acc) (vdc_mutated_keys ?acc)"
  proof (cases new_doc)
    case None
    then show ?thesis using mutated_erase[OF m inv, of k] by (simp add: store_change_def)
  next
    case (Some a)
    then have "k = doc_key a" using new by simp
    then show ?thesis using mutated_insert[OF m inv, of a] Some
      by (cases "has_local_mutations a") (simp_all add: store_change_def)
  qed
  moreover have "vdc_change_set ?acc = cs" by (simp add: store_change_def split: option.split)
  moreover have "cs_at (ds_GetDocument k' base) (ds_GetDocument k' (vdc_document_set ?acc)) (dm_get k' cs)" for k'
    using cs(2) c[of k'] AddChange_other[OF cs(1) dmok, of k'] ch(2) by (simp add: get)
  ultimately have "changes_ok q base ?acc" using AddChange_ok[OF cs(1) dmok] by (simp add: changes_ok_def)
  then show ?thesis using cs(1) get by auto
qed

section \<open>One iteration\<close>

lemma matched_doc_total:
  assumes "query_ok q" "is_document d \<longrightarrow> doc_key d = k"
  shows "\<exists>n. matched_doc q k d = Inr n \<and>
    (\<forall>x. n = Some x \<longrightarrow> x = d \<and> doc_key x = k \<and> is_document x \<and> Query_Matches q x = Inr True)"
proof -
  obtain b where "Query_Matches q d = Inr b" using Query_Matches_total[OF assms(1)] by blast
  then show ?thesis using assms(2) by (auto simp: matched_doc_def)
qed

lemma document_change_from_to:
  "document_change q l f op np o1 n = Some (ch, r) \<Longrightarrow> change_from_to o1 n ch \<and>
     (\<exists>d. (o1 = Some d \<or> n = Some d) \<and> dvc_document ch = d)"
  by (auto simp: document_change_def change_from_to_def Let_def split: option.splits if_splits)

lemma doc_change_step_ok:
  assumes "query_ok (view_query v)" "changes_ok (view_query v) base acc" "ds_inv (query_cmp (view_query v)) base"
    "ds_GetDocument (fst kv) (vdc_document_set acc) = ds_GetDocument (fst kv) old_set"
    "is_document (snd kv) \<longrightarrow> doc_key (snd kv) = fst kv"
  shows "\<exists>acc'. doc_change_step v old_set l f acc kv = Inr acc' \<and> changes_ok (view_query v) base acc' \<and>
    \<not> (\<exists>k'. k' \<noteq> fst kv \<and> ds_GetDocument k' (vdc_document_set acc') \<noteq> ds_GetDocument k' (vdc_document_set acc))"
proof -
  let ?q = "view_query v" and ?k = "fst kv"
  let ?o = "ds_GetDocument ?k old_set"
  obtain n where n: "matched_doc ?q ?k (snd kv) = Inr n"
    "\<forall>x. n = Some x \<longrightarrow> x = snd kv \<and> doc_key x = ?k \<and> is_document x \<and> Query_Matches ?q x = Inr True"
    using matched_doc_total[OF assms(1,5)] by blast
  define op np where "op = (?o \<noteq> None \<and> dks_contains ?k (view_mutated_keys v))"
    and "np = (case n of None \<Rightarrow> False | Some d \<Rightarrow> has_local_mutations d \<or>
      (dks_contains ?k (view_mutated_keys v) \<and> has_committed_mutations d))"
  show ?thesis
  proof (cases "document_change ?q l f op np ?o n")
    case None
    then show ?thesis using assms(2) n(1) by (simp add: doc_change_step_def Let_def op_def np_def)
  next
    case (Some cr)
    obtain ch r where cr: "cr = (ch, r)" by (cases cr)
    have ft: "change_from_to ?o n ch" "\<exists>d. (?o = Some d \<or> n = Some d) \<and> dvc_document ch = d"
      using document_change_from_to[OF Some[unfolded cr]] by auto
    have "result_docs_ok ?q (vdc_document_set acc)" using assms(2) by (simp add: changes_ok_def)
    then have "doc_key (dvc_document ch) = ?k" using ft(2) n(2) result_docs_get[of ?q "vdc_document_set acc" ?k] assms(4) by auto
    then have *: "\<exists>cs. AddChange ch (vdc_change_set acc) = Inr cs \<and>
      changes_ok ?q base (store_change ?q ?k n (acc\<lparr>vdc_change_set := cs, vdc_needs_refill := vdc_needs_refill acc \<or> r\<rparr>)) \<and>
      \<not> (\<exists>k'. k' \<noteq> ?k \<and> ds_GetDocument k' (vdc_document_set (store_change ?q ?k n
        (acc\<lparr>vdc_change_set := cs, vdc_needs_refill := vdc_needs_refill acc \<or> r\<rparr>))) \<noteq> ds_GetDocument k' (vdc_document_set acc))"
      using n(2) ft(1) assms(4) by (intro changes_ok_store[OF assms(2,3)]) auto
    then obtain cs where "AddChange ch (vdc_change_set acc) = Inr cs"
      "changes_ok ?q base (store_change ?q ?k n (acc\<lparr>vdc_change_set := cs, vdc_needs_refill := vdc_needs_refill acc \<or> r\<rparr>))"
      "\<not> (\<exists>k'. k' \<noteq> ?k \<and> ds_GetDocument k' (vdc_document_set (store_change ?q ?k n
        (acc\<lparr>vdc_change_set := cs, vdc_needs_refill := vdc_needs_refill acc \<or> r\<rparr>))) \<noteq> ds_GetDocument k' (vdc_document_set acc))"
      by blast
    moreover have "doc_change_step v old_set l f acc kv = rmap (\<lambda>cs. store_change ?q ?k n
         (acc\<lparr>vdc_change_set := cs, vdc_needs_refill := vdc_needs_refill acc \<or> r\<rparr>)) (AddChange ch (vdc_change_set acc))"
      using Some n(1) cr by (simp add: doc_change_step_def Let_def op_def np_def)
    ultimately show ?thesis by auto
  qed
qed

text \<open>
  What becomes of the result for one changed document: gone when the new document does not match,
  else the new document, or the old one when the contents agree or a write is about to be confirmed.
\<close>

definition step_result :: "Query \<Rightarrow> MaybeDocument \<Rightarrow> MaybeDocument option \<Rightarrow> MaybeDocument option \<Rightarrow> bool" where
  "step_result q d old new =
     (if is_document d \<and> Query_Matches q d = Inr True
      then new = Some d \<or> (case old of None \<Rightarrow> False | Some x \<Rightarrow> new = Some x \<and>
             (ObjectValue_eq (doc_data x) (doc_data d) \<or> ShouldWaitForSyncedDocument d x))
      else new = None)"

lemma doc_change_step_own:
  assumes step: "doc_change_step v old_set l f acc kv = Inr acc'" and q: "query_ok (view_query v)"
    and inv: "ds_inv (query_cmp (view_query v)) (vdc_document_set acc)"
    and same: "ds_GetDocument (fst kv) (vdc_document_set acc) = ds_GetDocument (fst kv) old_set"
    and key: "is_document (snd kv) \<longrightarrow> doc_key (snd kv) = fst kv"
  shows "step_result (view_query v) (snd kv) (ds_GetDocument (fst kv) old_set) (ds_GetDocument (fst kv) (vdc_document_set acc'))"
proof -
  let ?q = "view_query v" and ?k = "fst kv"
  obtain b where b: "Query_Matches ?q (snd kv) = Inr b" using Query_Matches_total[OF q] by blast
  define n where "n = (if is_document (snd kv) \<and> b then Some (snd kv) else None)"
  have m: "matched_doc ?q ?k (snd kv) = Inr n" using b key by (simp add: matched_doc_def n_def)
  have st: "ds_GetDocument ?k (vdc_document_set (store_change ?q ?k n (acc\<lparr>vdc_change_set := cs, vdc_needs_refill := r\<rparr>))) = n" for cs r
    using inv key by (simp add: store_change_def n_def query_set.get_insert query_set.get_erase)
  define op np where "op = (ds_GetDocument ?k old_set \<noteq> None \<and> dks_contains ?k (view_mutated_keys v))"
    and "np = (case n of None \<Rightarrow> False | Some d \<Rightarrow> has_local_mutations d \<or>
      (dks_contains ?k (view_mutated_keys v) \<and> has_committed_mutations d))"
  show ?thesis
  proof (cases "document_change ?q l f op np (ds_GetDocument ?k old_set) n")
    case None
    then have "acc' = acc" using step m by (simp add: doc_change_step_def Let_def op_def np_def)
    then show ?thesis using None same b
      by (auto simp: step_result_def n_def document_change_def Let_def split: if_splits option.splits)
  next
    case (Some cr)
    then have "ds_GetDocument ?k (vdc_document_set acc') = n"
      using step m st by (cases cr) (auto simp: doc_change_step_def Let_def op_def np_def rmap_Inr_conv)
    then show ?thesis using b by (auto simp: step_result_def n_def)
  qed
qed

lemma doc_changes_fold_ok:
  assumes "query_ok (view_query v)" "changes_ok (view_query v) base acc" "ds_inv (query_cmp (view_query v)) base"
    "\<forall>kv \<in> set kvs. ds_GetDocument (fst kv) (vdc_document_set acc) = ds_GetDocument (fst kv) old_set"
    "\<forall>kv \<in> set kvs. is_document (snd kv) \<longrightarrow> doc_key (snd kv) = fst kv" "distinct (map fst kvs)"
  shows "\<exists>acc'. rfold (doc_change_step v old_set l f) acc kvs = Inr acc' \<and> changes_ok (view_query v) base acc' \<and>
    (\<forall>k. k \<notin> fst ` set kvs \<longrightarrow> ds_GetDocument k (vdc_document_set acc') = ds_GetDocument k (vdc_document_set acc)) \<and>
    (\<forall>kv \<in> set kvs. step_result (view_query v) (snd kv) (ds_GetDocument (fst kv) old_set)
       (ds_GetDocument (fst kv) (vdc_document_set acc')))"
  using assms(2,4-6)
proof (induction kvs arbitrary: acc)
  case (Cons kv kvs)
  obtain acc' where a: "doc_change_step v old_set l f acc kv = Inr acc'" "changes_ok (view_query v) base acc'"
    "\<not> (\<exists>k'. k' \<noteq> fst kv \<and> ds_GetDocument k' (vdc_document_set acc') \<noteq> ds_GetDocument k' (vdc_document_set acc))"
    using doc_change_step_ok[OF assms(1) Cons.prems(1) assms(3), of kv old_set l f] Cons.prems(2,3) by auto
  have own: "step_result (view_query v) (snd kv) (ds_GetDocument (fst kv) old_set) (ds_GetDocument (fst kv) (vdc_document_set acc'))"
    using Cons.prems by (intro doc_change_step_own[OF a(1) assms(1)]) (auto simp: changes_ok_def result_docs_ok_def)
  have "ds_GetDocument (fst x) (vdc_document_set acc') = ds_GetDocument (fst x) old_set" if "x \<in> set kvs" for x
  proof -
    have "fst x \<noteq> fst kv" using Cons.prems(4) rev_image_eqI[OF that, of "fst kv" fst] by auto
    then show ?thesis using a(3) Cons.prems(2) that by auto
  qed
  then obtain acc2 where a2: "rfold (doc_change_step v old_set l f) acc' kvs = Inr acc2" "changes_ok (view_query v) base acc2"
    "\<forall>k. k \<notin> fst ` set kvs \<longrightarrow> ds_GetDocument k (vdc_document_set acc2) = ds_GetDocument k (vdc_document_set acc')"
    "\<forall>kv \<in> set kvs. step_result (view_query v) (snd kv) (ds_GetDocument (fst kv) old_set)
       (ds_GetDocument (fst kv) (vdc_document_set acc2))"
    using Cons.IH[OF a(2)] Cons.prems(3,4) by auto
  have "fst kv \<notin> fst ` set kvs" using Cons.prems(4) by simp
  then have "step_result (view_query v) (snd kv) (ds_GetDocument (fst kv) old_set) (ds_GetDocument (fst kv) (vdc_document_set acc2))"
    using own a2(3) by simp
  moreover have "\<forall>k. k \<notin> fst ` set (kv # kvs) \<longrightarrow> ds_GetDocument k (vdc_document_set acc2) = ds_GetDocument k (vdc_document_set acc)"
    using a2(3) a(3) by auto
  moreover have "rfold (doc_change_step v old_set l f) acc (kv # kvs) = Inr acc2" using a(1) a2(1) by simp
  ultimately show ?case using a2(2,4) by (intro exI[of _ acc2]) simp
qed simp

section \<open>The limit\<close>

lemma erase_docs_list:
  assumes "ds_inv (query_cmp q) s" "d \<in> set (ds_docs s)" "set xs = set (ds_docs s) - {d}"
    "sorted_wrt (\<lambda>a b. query_cmp q a b = Ascending) xs"
  shows "ds_docs (ds_erase (query_cmp q) (doc_key d) s) = xs"
proof (rule sorted_wrt_unique_lists[of "\<lambda>a b. query_cmp q a b = Ascending"])
  show "query_cmp q a b = Ascending \<Longrightarrow> query_cmp q b c = Ascending \<Longrightarrow> query_cmp q a c = Ascending" for a b c
    by (rule query_set.asc_trans)
  show "sorted_wrt (\<lambda>a b. query_cmp q a b = Ascending) (ds_docs (ds_erase (query_cmp q) (doc_key d) s))"
    by (rule query_set.docs_sorted[OF query_set.erase_inv[OF assms(1)]])
  have "{x \<in> set (ds_docs s). doc_key x \<noteq> doc_key d} = set (ds_docs s) - {d}"
    using ds_unique[OF assms(1) _ assms(2)] by blast
  then show "set (ds_docs (ds_erase (query_cmp q) (doc_key d) s)) = set xs"
    by (simp add: query_set.erase_docs[OF assms(1)] assms(3))
qed (simp_all add: assms(4))

lemma erase_last:
  assumes "ds_inv (query_cmp q) s" "ds_docs s = ds @ [d]"
  shows "ds_docs (ds_erase (query_cmp q) (doc_key d) s) = ds"
  using assms(2) query_set.docs_sorted[OF assms(1)] query_set.sorted_distinct_docs[OF assms(1)]
  by (intro erase_docs_list[OF assms(1)]) (auto simp: sorted_wrt_append)

lemma erase_first:
  assumes "ds_inv (query_cmp q) s" "ds_docs s = d # ds"
  shows "ds_docs (ds_erase (query_cmp q) (doc_key d) s) = ds"
  using assms(2) query_set.docs_sorted[OF assms(1)] query_set.sorted_distinct_docs[OF assms(1)]
  by (intro erase_docs_list[OF assms(1)]) auto

definition limited :: "Query \<Rightarrow> nat \<Rightarrow> 'a list \<Rightarrow> 'a list" where
  "limited q n xs = (if has_limit_to_first q then take (length xs - n) xs else drop n xs)"

lemma drop_outside_limit_ok:
  assumes "changes_ok q base acc" "ds_inv (query_cmp q) base" "n \<le> length (ds_docs (vdc_document_set acc))"
  shows "\<exists>acc'. drop_outside_limit q n acc = Inr acc' \<and> changes_ok q base acc' \<and>
    vdc_needs_refill acc' = vdc_needs_refill acc \<and>
    ds_docs (vdc_document_set acc') = limited q n (ds_docs (vdc_document_set acc))"
  using assms(1,3)
proof (induction n arbitrary: acc)
  case 0
  then show ?case by (simp add: limited_def)
next
  case (Suc n)
  let ?s = "vdc_document_set acc"
  have inv: "ds_inv (query_cmp q) ?s" using Suc.prems(1) by (simp add: changes_ok_def result_docs_ok_def)
  obtain d ds where d: "(if has_limit_to_first q then ds_GetLastDocument ?s else ds_GetFirstDocument ?s) = Some d"
    "d \<in> set (ds_docs ?s)" "ds_docs (ds_erase (query_cmp q) (doc_key d) ?s) = ds" "Suc (length ds) = length (ds_docs ?s)"
    "limited q (Suc n) (ds_docs ?s) = limited q n ds"
  proof (cases "has_limit_to_first q")
    case True
    from Suc.prems(2) obtain ds d where "ds_docs ?s = ds @ [d]" by (cases "ds_docs ?s" rule: rev_cases) auto
    then show thesis using that[of d ds] True erase_last[OF inv] Suc.prems(2)
      by (simp add: ds_GetLastDocument_def limited_def)
  next
    case False
    from Suc.prems(2) obtain ds d where "ds_docs ?s = d # ds" by (cases "ds_docs ?s") auto
    then show thesis using that[of d ds] False erase_first[OF inv]
      by (simp add: ds_GetFirstDocument_def limited_def)
  qed
  let ?ch = "\<lparr>dvc_document = d, dvc_type = CRemoved\<rparr>"
  have "ds_GetDocument (doc_key d) ?s = Some d" using ds_mem[OF inv] d(2) by blast
  then obtain cs where cs: "AddChange ?ch (vdc_change_set acc) = Inr cs"
    "changes_ok q base (store_change q (doc_key d) None (acc\<lparr>vdc_change_set := cs, vdc_needs_refill := vdc_needs_refill acc\<rparr>))"
    using changes_ok_store[OF Suc.prems(1) assms(2), of "doc_key d" None ?ch "vdc_needs_refill acc"]
    by (auto simp: change_from_to_def)
  define acc1 where "acc1 = acc\<lparr>vdc_document_set := ds_erase (query_cmp q) (doc_key d) ?s,
      vdc_mutated_keys := dks_erase (doc_key d) (vdc_mutated_keys acc), vdc_change_set := cs\<rparr>"
  have "acc1 = store_change q (doc_key d) None (acc\<lparr>vdc_change_set := cs, vdc_needs_refill := vdc_needs_refill acc\<rparr>)"
    by (simp add: acc1_def store_change_def)
  then have ok1: "changes_ok q base acc1" using cs(2) by simp
  have "ds_docs (vdc_document_set acc1) = ds" "vdc_needs_refill acc1 = vdc_needs_refill acc"
    using d(3) by (simp_all add: acc1_def)
  moreover have "drop_outside_limit q (Suc n) acc = drop_outside_limit q n acc1"
    using d(1) cs(1) by (simp add: acc1_def)
  ultimately show ?case using Suc.IH[OF ok1] Suc.prems(2) d(4,5) by simp
qed

lemma apply_limit_ok:
  assumes "changes_ok q base acc" "ds_inv (query_cmp q) base"
  shows "\<exists>acc'. apply_limit q acc = Inr acc' \<and> changes_ok q base acc' \<and>
    vdc_needs_refill acc' = vdc_needs_refill acc \<and>
    ds_docs (vdc_document_set acc') =
      (if q_limit_type q = LimitNone then ds_docs (vdc_document_set acc)
       else limited q (length (ds_docs (vdc_document_set acc)) - limit_size (q_limit q)) (ds_docs (vdc_document_set acc)))"
proof -
  have inv: "ds_inv (query_cmp q) (vdc_document_set acc)" using assms(1) by (simp add: changes_ok_def result_docs_ok_def)
  show ?thesis
    using drop_outside_limit_ok[OF assms, of "length (ds_docs (vdc_document_set acc)) - limit_size (q_limit q)"] assms(1)
    by (auto simp: apply_limit_def query_set.size_docs[OF inv] limited_def)
qed

section \<open>Computing the changes\<close>

definition view_ok :: "View \<Rightarrow> bool" where
  "view_ok v = (query_ok (view_query v) \<and> result_docs_ok (view_query v) (view_document_set v) \<and>
     mutated_ok (view_document_set v) (view_mutated_keys v) \<and>
     (view_current v \<longrightarrow> set (view_limbo_documents v) = {k. ShouldBeInLimbo v k}) \<and>
     (view_sync_state v = SSSynced \<longrightarrow> view_current v \<and> view_limbo_documents v = []))"

definition doc_changes_ok :: "MaybeDocumentMap \<Rightarrow> bool" where
  "doc_changes_ok m = (distinct (map fst m) \<and> (\<forall>kv \<in> set m. is_document (snd kv) \<longrightarrow> doc_key (snd kv) = fst kv))"

lemma start_changes_ok: "view_ok v \<Longrightarrow> changes_ok (view_query v) (view_document_set v) (start_changes v None)"
  by (auto simp: view_ok_def changes_ok_def start_changes_def cs_at_def dm_ok_def split: option.split)

text \<open>
  The computation never fails; without the limit every result is the one expected of its changed
  document, and with the limit the results are the first (or last) ones of those.
\<close>

lemma ComputeDocumentChanges_ok:
  assumes "view_ok v" "doc_changes_ok m"
  obtains all acc where "ComputeDocumentChanges v m None = Inr acc" "changes_ok (view_query v) (view_document_set v) acc"
    "result_docs_ok (view_query v) all"
    "\<forall>k. k \<notin> fst ` set m \<longrightarrow> ds_GetDocument k all = ds_GetDocument k (view_document_set v)"
    "\<forall>kv \<in> set m. step_result (view_query v) (snd kv) (ds_GetDocument (fst kv) (view_document_set v)) (ds_GetDocument (fst kv) all)"
    "ds_docs (vdc_document_set acc) = (if q_limit_type (view_query v) = LimitNone then ds_docs all
       else limited (view_query v) (length (ds_docs all) - limit_size (q_limit (view_query v))) (ds_docs all))"
proof -
  let ?q = "view_query v" and ?s = "view_document_set v"
  have inv: "ds_inv (query_cmp ?q) ?s" and qok: "query_ok ?q"
    using assms(1) by (auto simp: view_ok_def result_docs_ok_def)
  have vs: "vdc_document_set (start_changes v None) = ?s" by (simp add: start_changes_def)
  define l f where "l = (if has_limit_to_first ?q \<and> ds_size ?s = limit_size (q_limit ?q) then ds_GetLastDocument ?s else None)"
    and "f = (if has_limit_to_last ?q \<and> ds_size ?s = limit_size (q_limit ?q) then ds_GetFirstDocument ?s else None)"
  obtain acc1 where a1: "rfold (doc_change_step v ?s l f) (start_changes v None) m = Inr acc1" "changes_ok ?q ?s acc1"
    "\<forall>k. k \<notin> fst ` set m \<longrightarrow> ds_GetDocument k (vdc_document_set acc1) = ds_GetDocument k ?s"
    "\<forall>kv \<in> set m. step_result ?q (snd kv) (ds_GetDocument (fst kv) ?s) (ds_GetDocument (fst kv) (vdc_document_set acc1))"
    using doc_changes_fold_ok[OF qok start_changes_ok[OF assms(1)] inv, of m ?s l f] assms(2)
    by (auto simp: vs doc_changes_ok_def)
  obtain acc2 where a2: "apply_limit ?q acc1 = Inr acc2" "changes_ok ?q ?s acc2"
    "ds_docs (vdc_document_set acc2) =
      (if q_limit_type ?q = LimitNone then ds_docs (vdc_document_set acc1)
       else limited ?q (length (ds_docs (vdc_document_set acc1)) - limit_size (q_limit ?q)) (ds_docs (vdc_document_set acc1)))"
    using apply_limit_ok[OF a1(2) inv] by blast
  have c: "ComputeDocumentChanges v m None = Inr acc2"
    by (simp only: ComputeDocumentChanges_def Let_def vs l_def[symmetric] f_def[symmetric] a1(1) rbind_simps a2(1))
      (simp add: hard_assert_def)
  have "result_docs_ok ?q (vdc_document_set acc1)" using a1(2) by (simp add: changes_ok_def)
  from that[OF c a2(2) this a1(3,4) a2(3)] show thesis .
qed

text \<open>A pass that refills from the documents of the collection, on top of a first pass.\<close>

lemma refill_step:
  assumes "doc_change_step v old_set l f acc kv = Inr acc'"
    "ds_GetDocument (fst kv) old_set = Some (snd kv) \<or> ds_GetDocument (fst kv) old_set = None"
    "\<not> vdc_needs_refill acc" "is_document (snd kv) \<and> Query_Matches (view_query v) (snd kv) = Inr True"
  shows "\<not> vdc_needs_refill acc'"
proof -
  have eq: "ObjectValue_eq a a" for a by (simp add: ObjectValue_eq_def cmp_eq_def ObjectValue_CompareTo_def)
  have n: "matched_doc (view_query v) (fst kv) (snd kv) = Inr (Some (snd kv))"
    using assms(1,4) by (auto simp: matched_doc_def doc_change_step_def Let_def hard_assert_def split: if_splits)
  show ?thesis using assms(1-3) n
    by (auto simp: doc_change_step_def Let_def document_change_def store_change_def rmap_Inr_conv eq
        split: if_splits option.splits)
qed

lemma refill_fold:
  assumes "rfold (doc_change_step v old_set l f) acc m = Inr acc'" "\<not> vdc_needs_refill acc"
    "\<forall>kv \<in> set m. (ds_GetDocument (fst kv) old_set = Some (snd kv) \<or> ds_GetDocument (fst kv) old_set = None) \<and>
       is_document (snd kv) \<and> Query_Matches (view_query v) (snd kv) = Inr True"
  shows "\<not> vdc_needs_refill acc'"
  using assms
proof (induction m arbitrary: acc)
  case (Cons kv m)
  then obtain acc1 where "doc_change_step v old_set l f acc kv = Inr acc1" "rfold (doc_change_step v old_set l f) acc1 m = Inr acc'"
    by (auto split: sum.splits)
  then show ?case using Cons refill_step by (metis list.set_intros)
qed simp

lemma refill_ok:
  assumes "view_ok v" "doc_changes_ok m" "changes_ok (view_query v) (view_document_set v) prev"
    "\<forall>kv \<in> set m. (ds_GetDocument (fst kv) (vdc_document_set prev) = Some (snd kv) \<or>
        ds_GetDocument (fst kv) (vdc_document_set prev) = None) \<and>
       is_document (snd kv) \<and> Query_Matches (view_query v) (snd kv) = Inr True"
  shows "\<exists>acc. ComputeDocumentChanges v m (Some prev) = Inr acc \<and> \<not> vdc_needs_refill acc \<and>
    changes_ok (view_query v) (view_document_set v) acc"
proof -
  let ?q = "view_query v" and ?b = "view_document_set v"
  define start where "start = start_changes v (Some prev)"
  define s where "s = vdc_document_set start"
  have st: "changes_ok ?q ?b start" "\<not> vdc_needs_refill start" "s = vdc_document_set prev"
    using assms(3) by (simp_all add: start_def s_def start_changes_def changes_ok_def)
  have inv: "ds_inv (query_cmp ?q) ?b" and qok: "query_ok ?q"
    using assms(1) by (auto simp: view_ok_def result_docs_ok_def)
  define l f where "l = (if has_limit_to_first ?q \<and> ds_size s = limit_size (q_limit ?q) then ds_GetLastDocument s else None)"
    and "f = (if has_limit_to_last ?q \<and> ds_size s = limit_size (q_limit ?q) then ds_GetFirstDocument s else None)"
  obtain acc1 where a1: "rfold (doc_change_step v s l f) start m = Inr acc1" "changes_ok ?q ?b acc1"
    using doc_changes_fold_ok[OF qok st(1) inv, of m s l f] assms(2) by (auto simp: s_def doc_changes_ok_def)
  obtain acc2 where a2: "apply_limit ?q acc1 = Inr acc2" "changes_ok ?q ?b acc2" "vdc_needs_refill acc2 = vdc_needs_refill acc1"
    using apply_limit_ok[OF a1(2) inv] by blast
  have "\<not> vdc_needs_refill acc2" using refill_fold[OF a1(1) st(2)] assms(4) a2(3) st(3) by simp
  moreover from this have "ComputeDocumentChanges v m (Some prev) = Inr acc2"
    by (simp only: ComputeDocumentChanges_def Let_def start_def[symmetric] s_def[symmetric] l_def[symmetric]
        f_def[symmetric] a1(1) rbind_simps a2(1)) (simp add: hard_assert_def)
  ultimately show ?thesis using a2(2) by blast
qed

section \<open>The order of the changes\<close>

lemma std_sort_insort:
  assumes "\<And>x y z. \<not> lt y x \<Longrightarrow> \<not> lt z y \<Longrightarrow> \<not> lt z x" "\<And>x y. lt x y \<Longrightarrow> \<not> lt y x"
  shows "mset (std_sort lt xs) = mset xs \<and> sorted_wrt (\<lambda>a b. \<not> lt b a) (std_sort lt xs)"
proof -
  have ins: "mset (insort_less lt x ys) = add_mset x (mset ys)" for x ys by (induction ys) auto
  have "sorted_wrt (\<lambda>a b. \<not> lt b a) (insort_less lt x ys)" if "sorted_wrt (\<lambda>a b. \<not> lt b a) ys" for x ys
    using that
  proof (induction ys)
    case (Cons y ys)
    have "set (insort_less lt x ys) = insert x (set ys)" using arg_cong[OF ins, of set_mset] by simp
    then have "\<forall>z \<in> set (insort_less lt x ys). z = x \<or> z \<in> set ys" by simp
    moreover have "\<not> lt z x" if "\<not> lt y x" "z \<in> set ys" for z
      using Cons.prems assms(1)[OF that(1), of z] that(2) by simp
    ultimately show ?case using Cons assms(2)[of y x] by (cases "lt y x") auto
  qed simp
  then show ?thesis by (induction xs) (simp_all add: std_sort_def ins)
qed

lemma change_less_order:
  shows "\<not> change_less q y x \<Longrightarrow> \<not> change_less q z y \<Longrightarrow> \<not> change_less q z x"
    and "change_less q x y \<Longrightarrow> \<not> change_less q y x"
proof -
  have c: "(query_cmp q b a \<noteq> Ascending) = (query_cmp q a b \<noteq> Descending)" for a b
    using query_set.desc_iff by blast
  show "\<not> change_less q y x \<Longrightarrow> \<not> change_less q z y \<Longrightarrow> \<not> change_less q z x"
    using query_set.le_trans by (auto simp: change_less_def Let_def c split: if_splits)
  show "change_less q x y \<Longrightarrow> \<not> change_less q y x"
    using query_set.asc_not_same[of q "dvc_document x" "dvc_document y"] by (auto simp: change_less_def Let_def split: if_splits)
qed

lemma changes_sorted:
  "mset (std_sort (change_less q) cs) = mset cs \<and>
   sorted_wrt (\<lambda>a b. \<not> change_less q b a) (std_sort (change_less q) cs)"
  using change_less_order by (rule std_sort_insort)

section \<open>Applying the changes\<close>

lemma dks_sets [simp]:
  "set (dks_insert k s) = insert k (set s)" "set (dks_erase k s) = set s - {k}" "dks_contains k s = (k \<in> set s)"
  by (auto simp: dks_insert_def dks_erase_def dks_contains_def)

lemma set_fold_insert: "set (foldl (\<lambda>s k. dks_insert k s) s ks) = set s \<union> set ks"
  by (induction ks arbitrary: s) auto

lemma set_fold_erase: "set (foldl (\<lambda>s k. dks_erase k s) s ks) = set s - set ks"
  by (induction ks arbitrary: s) auto

text \<open>The target change mentions as modified only documents that the backend has confirmed.\<close>

definition target_change_ok :: "View \<Rightarrow> TargetChange option \<Rightarrow> bool" where
  "target_change_ok v tc = (case tc of None \<Rightarrow> True
     | Some c \<Rightarrow> set (tc_modified_documents c) \<subseteq> set (view_synced_documents v) \<union> set (tc_added_documents c))"

lemma ApplyTargetChange_spec:
  assumes "target_change_ok v tc"
  obtains synced current where "ApplyTargetChange tc v = Inr (v\<lparr>view_synced_documents := synced, view_current := current\<rparr>)"
    "set synced = (case tc of None \<Rightarrow> set (view_synced_documents v)
       | Some c \<Rightarrow> (set (view_synced_documents v) \<union> set (tc_added_documents c)) - set (tc_removed_documents c))"
    "current = (case tc of None \<Rightarrow> view_current v | Some c \<Rightarrow> tc_current c)"
proof (cases tc)
  case None
  then show thesis using that[of "view_current v" "view_synced_documents v"] by (simp add: ApplyTargetChange_def)
next
  case c: (Some c)
  let ?ins = "foldl (\<lambda>s k. dks_insert k s) (view_synced_documents v) (tc_added_documents c)"
  let ?del = "foldl (\<lambda>s k. dks_erase k s) ?ins (tc_removed_documents c)"
  have "list_all (\<lambda>k. dks_contains k ?ins) (tc_modified_documents c)"
    using assms c by (auto simp: target_change_ok_def list_all_iff set_fold_insert)
  then have "ApplyTargetChange tc v = Inr (v\<lparr>view_synced_documents := ?del, view_current := tc_current c\<rparr>)"
    by (simp only: c ApplyTargetChange_def option.case Let_def hard_assert_def if_True)
  then show thesis
    by (rule that[of "tc_current c" ?del]) (simp_all only: c option.case set_fold_insert set_fold_erase)
qed

lemma ShouldBeInLimbo_cong:
  "view_synced_documents v = view_synced_documents w \<Longrightarrow> view_document_set v = view_document_set w \<Longrightarrow>
   ShouldBeInLimbo v k = ShouldBeInLimbo w k"
  by (simp add: ShouldBeInLimbo_def)

text \<open>The documents in limbo: unconfirmed results without local mutations.\<close>

lemma ShouldBeInLimbo_iff:
  assumes "result_docs_ok q (view_document_set v)"
  shows "ShouldBeInLimbo v k = (k \<notin> set (view_synced_documents v) \<and>
    (\<exists>d \<in> set (ds_docs (view_document_set v)). doc_key d = k \<and> \<not> has_local_mutations d))"
proof -
  have "(\<exists>d \<in> set (ds_docs (view_document_set v)). doc_key d = k \<and> \<not> has_local_mutations d) =
    (\<exists>d. ds_GetDocument k (view_document_set v) = Some d \<and> \<not> has_local_mutations d)"
    using assms ds_mem ds_get_key ds_get_mem unfolding result_docs_ok_def by blast
  then show ?thesis
    by (auto simp: ShouldBeInLimbo_def ds_ContainsKey_def ds_GetDocument_def split: option.splits)
qed

lemma new_limbo_set:
  "set (foldl (\<lambda>s d. if P (doc_key d) then dks_insert (doc_key d) s else s) s ds) = set s \<union> {k \<in> doc_key ` set ds. P k}"
  by (induction ds arbitrary: s) auto

lemma UpdateLimboDocuments_spec:
  assumes "result_docs_ok q (view_document_set v)"
  obtains changes limbo where "UpdateLimboDocuments v = (changes, v\<lparr>view_limbo_documents := limbo\<rparr>)"
    "\<not> view_current v \<longrightarrow> changes = [] \<and> limbo = view_limbo_documents v"
    "view_current v \<longrightarrow> set limbo = {k. ShouldBeInLimbo v k}"
    "set changes = LimboRemoved ` (set (view_limbo_documents v) - set limbo) \<union>
       LimboAdded ` (set limbo - set (view_limbo_documents v))"
proof (cases "view_current v")
  case False
  then show thesis using that[of "[]" "view_limbo_documents v"] by (simp add: UpdateLimboDocuments_def)
next
  case True
  let ?new = "foldl (\<lambda>s d. if ShouldBeInLimbo v (doc_key d) then dks_insert (doc_key d) s else s) []
                       (ds_docs (view_document_set v))"
  have "set ?new = {k \<in> doc_key ` set (ds_docs (view_document_set v)). ShouldBeInLimbo v k}"
    using new_limbo_set[of "ShouldBeInLimbo v" "[]"] by simp
  then have "set ?new = {k. ShouldBeInLimbo v k}" using ShouldBeInLimbo_iff[OF assms] by auto
  then show thesis using that[of "fst (UpdateLimboDocuments v)" ?new] True
    by (auto simp: UpdateLimboDocuments_def Let_def)
qed

lemma View_ApplyChanges_spec:
  assumes ok: "view_ok v" and ch: "changes_ok (view_query v) base acc" "\<not> vdc_needs_refill acc"
    and tc: "target_change_ok v tc"
  obtains vc v' where "View_ApplyChanges acc tc v = Inr (vc, v')" "view_ok v'"
    "view_document_set v' = vdc_document_set acc" "view_query v' = view_query v"
    "view_current v' = (case tc of None \<Rightarrow> view_current v | Some c \<Rightarrow> tc_current c)"
    "set (view_synced_documents v') = (case tc of None \<Rightarrow> set (view_synced_documents v)
       | Some c \<Rightarrow> (set (view_synced_documents v) \<union> set (tc_added_documents c)) - set (tc_removed_documents c))"
    "view_sync_state v' = (if view_current v' \<and> view_limbo_documents v' = [] then SSSynced else SSLocal)"
    "set (vc_limbo_changes vc) = LimboRemoved ` (set (view_limbo_documents v) - set (view_limbo_documents v')) \<union>
       LimboAdded ` (set (view_limbo_documents v') - set (view_limbo_documents v))"
    "\<not> view_current v' \<longrightarrow> view_limbo_documents v' = view_limbo_documents v"
    "(vc_snapshot vc = None) = (vdc_change_set acc = [] \<and> view_sync_state v' = view_sync_state v)"
    "\<forall>s. vc_snapshot vc = Some s \<longrightarrow> vs_documents s = view_document_set v' \<and>
       vs_old_documents s = view_document_set v \<and> vs_mutated_keys s = view_mutated_keys v' \<and>
       vs_document_changes s = std_sort (change_less (view_query v)) (map snd (vdc_change_set acc)) \<and>
       vs_from_cache s = (view_sync_state v' \<noteq> SSSynced) \<and>
       vs_sync_state_changed s = (view_sync_state v' \<noteq> view_sync_state v)"
proof -
  let ?q = "view_query v"
  define v1 where "v1 = v\<lparr>view_document_set := vdc_document_set acc, view_mutated_keys := vdc_mutated_keys acc\<rparr>"
  have "target_change_ok v1 tc" using tc by (cases tc) (simp_all add: target_change_ok_def v1_def)
  then obtain synced current where t: "ApplyTargetChange tc v1 = Inr (v1\<lparr>view_synced_documents := synced, view_current := current\<rparr>)"
    "set synced = (case tc of None \<Rightarrow> set (view_synced_documents v1)
       | Some c \<Rightarrow> (set (view_synced_documents v1) \<union> set (tc_added_documents c)) - set (tc_removed_documents c))"
    "current = (case tc of None \<Rightarrow> view_current v1 | Some c \<Rightarrow> tc_current c)"
    by (rule ApplyTargetChange_spec)
  define v2 where "v2 = v1\<lparr>view_synced_documents := synced, view_current := current\<rparr>"
  have r: "result_docs_ok ?q (view_document_set v2)" using ch(1) by (simp add: v2_def v1_def changes_ok_def)
  obtain lc limbo where u: "UpdateLimboDocuments v2 = (lc, v2\<lparr>view_limbo_documents := limbo\<rparr>)"
    "\<not> view_current v2 \<longrightarrow> lc = [] \<and> limbo = view_limbo_documents v2"
    "view_current v2 \<longrightarrow> set limbo = {k. ShouldBeInLimbo v2 k}"
    "set lc = LimboRemoved ` (set (view_limbo_documents v2) - set limbo) \<union> LimboAdded ` (set limbo - set (view_limbo_documents v2))"
    by (rule UpdateLimboDocuments_spec[OF r])
  define sync where "sync = (if limbo = [] \<and> current then SSSynced else SSLocal)"
  define v3 where "v3 = v2\<lparr>view_limbo_documents := limbo, view_sync_state := sync\<rparr>"
  define cl where "cl = std_sort (change_less ?q) (map snd (vdc_change_set acc))"
  have cl: "(cl = []) = (vdc_change_set acc = [])"
    using changes_sorted[of ?q "map snd (vdc_change_set acc)"] unfolding cl_def by (metis mset_zero_iff map_is_Nil_conv)
  let ?snap = "\<lparr>vs_query = ?q, vs_documents = vdc_document_set acc, vs_old_documents = view_document_set v,
       vs_document_changes = cl, vs_mutated_keys = vdc_mutated_keys acc,
       vs_from_cache = (sync = SSLocal), vs_sync_state_changed = (sync \<noteq> view_sync_state v),
       vs_excludes_metadata_changes = False\<rparr>"
  let ?vc = "\<lparr>vc_snapshot = (if cl = [] \<and> sync = view_sync_state v then None else Some ?snap), vc_limbo_changes = lc\<rparr>"
  have res: "View_ApplyChanges acc tc v = Inr (?vc, v3)"
    unfolding View_ApplyChanges_def Let_def v1_def[symmetric] t(1) rbind_simps v2_def[symmetric] u(1) GetChanges_def
    using ch(2) by (simp add: hard_assert_def cl_def[symmetric] v3_def sync_def v2_def v1_def)
  have "ShouldBeInLimbo v3 = ShouldBeInLimbo v2" by (rule ext, rule ShouldBeInLimbo_cong) (simp_all add: v3_def)
  then have v3: "view_ok v3" using ok ch(1) u(3)
    by (auto simp: view_ok_def v3_def v2_def v1_def changes_ok_def sync_def split: if_splits)
  show thesis
    by (rule that[OF res v3])
      (use t(2,3) u(2,4) cl in \<open>auto simp: v3_def v2_def v1_def sync_def cl_def split: option.splits\<close>)
qed

lemma docs_ds_new [simp]: "ds_docs ds_new = []"
  by (simp add: ds_docs_def ds_new_def)

lemma make_View_ok: "query_ok q \<Longrightarrow> view_ok (make_View q remote)"
  by (simp add: view_ok_def make_View_def result_docs_ok_def mutated_ok_def)

lemma ApplyOnlineStateChange_ok:
  assumes "view_ok v"
  obtains vc v' where "View_ApplyOnlineStateChange os v = Inr (vc, v')" "view_ok v'"
    "view_document_set v' = view_document_set v" "vc_limbo_changes vc = []"
    "os = OS_Offline \<longrightarrow> \<not> view_current v' \<and> view_sync_state v' \<noteq> SSSynced"
proof (cases "view_current v \<and> os = OS_Offline")
  case True
  define v0 where "v0 = v\<lparr>view_current := False\<rparr>"
  define acc where "acc = \<lparr>vdc_document_set = view_document_set v0, vdc_change_set = [],
                 vdc_mutated_keys = view_mutated_keys v0, vdc_needs_refill = False\<rparr>"
  define v1 where "v1 = v0\<lparr>view_sync_state := SSLocal\<rparr>"
  have v1: "view_ok v1" using assms by (simp add: view_ok_def v0_def v1_def)
  have "View_ApplyChanges acc None v0 = Inr (if view_sync_state v0 = SSLocal
      then (\<lparr>vc_snapshot = None, vc_limbo_changes = []\<rparr>, v1)
      else (fst (projr (View_ApplyChanges acc None v0)), v1)) \<and> vc_limbo_changes (fst (projr (View_ApplyChanges acc None v0))) = []"
    by (simp add: View_ApplyChanges_def Let_def acc_def hard_assert_def ApplyTargetChange_def UpdateLimboDocuments_def
        v0_def v1_def std_sort_def GetChanges_def)
  then show thesis using that[of _ v1] v1 True
    by (cases "view_sync_state v0 = SSLocal")
      (auto simp: View_ApplyOnlineStateChange_def v1_def v0_def acc_def Let_def)
next
  case False
  then have "View_ApplyOnlineStateChange os v = Inr (\<lparr>vc_snapshot = None, vc_limbo_changes = []\<rparr>, v)"
    by (simp only: View_ApplyOnlineStateChange_def if_False)
  then show thesis using that[OF _ assms] False assms by (auto simp: view_ok_def)
qed

end
