(* ===== verification/RemoteEventProofs.thy ===== *)
theory RemoteEventProofs
  imports RemoteEvents ViewProofs
begin

text \<open>
  Correctness of the watch change aggregator.  The abstract state of a target is the set of
  documents it has once the accumulated changes are applied to its remote keys: every handler acts
  on it as on a set, the existence filter compares its size, and the raised event is its difference
  to the remote keys.
\<close>

section \<open>States of targets\<close>

lemma EnsureTargetState_on [simp]:
  "EnsureTargetState t' (on_target_state f t w) = (if t' = t then f (EnsureTargetState t w) else EnsureTargetState t' w)"
  by (simp add: EnsureTargetState_def on_target_state_def update_conv')

lemma EnsureTargetState_frame [simp]:
  "EnsureTargetState t (w\<lparr>wca_document_updates := u\<rparr>) = EnsureTargetState t w"
  "EnsureTargetState t (w\<lparr>wca_target_resets := r\<rparr>) = EnsureTargetState t w"
  "EnsureTargetState t (w\<lparr>wca_target_mappings := m\<rparr>) = EnsureTargetState t w"
  "EnsureTargetState t (map_document_target key t' w) = EnsureTargetState t w"
  by (simp_all add: EnsureTargetState_def map_document_target_def)

lemma EnsureTargetState_remove [simp]:
  "EnsureTargetState t' (RemoveTarget t w) = (if t' = t then new_TargetState else EnsureTargetState t' w)"
  by (simp add: EnsureTargetState_def RemoveTarget_def delete_conv')

lemma TargetDataForActiveTarget_eq:
  "TargetDataForActiveTarget p w t =
     (if IsPending (EnsureTargetState t w) then None else GetTargetDataForTarget p t)"
  by (simp add: TargetDataForActiveTarget_def EnsureTargetState_def IsPending_def new_TargetState_def split: option.split)

lemma IsPending_ops [simp]:
  "IsPending (AddDocumentChange k c s) = IsPending s" "IsPending (RemoveDocumentChange k s) = IsPending s"
  "IsPending (ClearPendingChanges s) = IsPending s" "IsPending (UpdateResumeToken tok s) = IsPending s"
  "IsPending (MarkCurrent s) = IsPending s" "\<not> IsPending new_TargetState"
  by (simp_all add: IsPending_def AddDocumentChange_def RemoveDocumentChange_def ClearPendingChanges_def
      UpdateResumeToken_def MarkCurrent_def new_TargetState_def)

lemma changes_ops [simp]:
  "ts_document_changes (AddDocumentChange k c s) = dm_insert k c (ts_document_changes s)"
  "ts_document_changes (RemoveDocumentChange k s) = dm_erase k (ts_document_changes s)"
  "ts_document_changes (ClearPendingChanges s) = []"
  "ts_document_changes (UpdateResumeToken tok s) = ts_document_changes s"
  "ts_document_changes (MarkCurrent s) = ts_document_changes s"
  "ts_document_changes (RecordTargetResponse s) = ts_document_changes s"
  "ts_document_changes (ts_RecordPendingTargetRequest s) = ts_document_changes s"
  "ts_document_changes new_TargetState = []"
  by (simp_all add: AddDocumentChange_def RemoveDocumentChange_def ClearPendingChanges_def UpdateResumeToken_def
      MarkCurrent_def RecordTargetResponse_def ts_RecordPendingTargetRequest_def new_TargetState_def)

lemma pending_changes_ops [simp]:
  "ts_has_pending_changes (AddDocumentChange k c s)" "ts_has_pending_changes (RemoveDocumentChange k s)"
  "\<not> ts_has_pending_changes (ClearPendingChanges s)" "ts_has_pending_changes (MarkCurrent s)"
  "ts_has_pending_changes (RecordTargetResponse s) = ts_has_pending_changes s"
  "ts_has_pending_changes (ts_RecordPendingTargetRequest s) = ts_has_pending_changes s"
  "ts_has_pending_changes new_TargetState"
  by (simp_all add: AddDocumentChange_def RemoveDocumentChange_def ClearPendingChanges_def
      MarkCurrent_def RecordTargetResponse_def ts_RecordPendingTargetRequest_def new_TargetState_def)

lemma UpdateResumeToken_pending [simp]:
  "ts_has_pending_changes (UpdateResumeToken tok s) = (tok \<noteq> [] \<or> ts_has_pending_changes s)"
  by (simp add: UpdateResumeToken_def)

section \<open>The invariant and the abstraction\<close>

definition changes_fit :: "DocumentKeySet \<Rightarrow> (DocumentKey \<times> ChangeType) list \<Rightarrow> bool" where
  "changes_fit ks cs = (dm_ok cs \<and> (\<forall>k c. dm_get k cs = Some c \<longrightarrow>
     (if k \<in> set ks then c = CModified \<or> c = CRemoved else c = CAdded)))"

definition state_fit :: "DocumentKeySet \<Rightarrow> TargetState \<Rightarrow> bool" where
  "state_fit ks s = (changes_fit ks (ts_document_changes s) \<and>
     (ts_has_pending_changes s \<or> ts_document_changes s = []))"

text \<open>The changes of every target are relative to its remote keys; map keys are unique.\<close>

definition wca_ok :: "TargetMetadataProvider \<Rightarrow> WatchChangeAggregator \<Rightarrow> bool" where
  "wca_ok p w = ((\<forall>t. state_fit (GetRemoteKeysForTarget p t) (EnsureTargetState t w)) \<and>
     distinct (map fst (wca_target_states w)) \<and> dm_ok (wca_target_mappings w) \<and> dm_ok (wca_document_updates w))"

definition members :: "TargetMetadataProvider \<Rightarrow> WatchChangeAggregator \<Rightarrow> TargetId \<Rightarrow> DocumentKey set" where
  "members p w t = (let cs = ts_document_changes (EnsureTargetState t w)
     in {k \<in> set (GetRemoteKeysForTarget p t). dm_get k cs \<noteq> Some CRemoved} \<union> {k. dm_get k cs = Some CAdded})"

lemma changes_fit_ops:
  "changes_fit ks []"
  "changes_fit ks cs \<Longrightarrow> k \<in> set ks \<Longrightarrow> c = CModified \<or> c = CRemoved \<Longrightarrow> changes_fit ks (dm_insert k c cs)"
  "changes_fit ks cs \<Longrightarrow> k \<notin> set ks \<Longrightarrow> changes_fit ks (dm_insert k CAdded cs)"
  "changes_fit ks cs \<Longrightarrow> changes_fit ks (dm_erase k cs)"
  by (auto simp: changes_fit_def dm_get_erase)

lemma new_wca_ok: "wca_ok p new_WatchChangeAggregator"
  by (simp add: wca_ok_def new_WatchChangeAggregator_def EnsureTargetState_def state_fit_def changes_fit_ops)

lemma on_target_state_ok:
  "wca_ok p w \<Longrightarrow> state_fit (GetRemoteKeysForTarget p t) (f (EnsureTargetState t w)) \<Longrightarrow>
   wca_ok p (on_target_state f t w)"
  by (auto simp: wca_ok_def distinct_update) (simp_all add: on_target_state_def distinct_update)

lemma wca_ok_state: "wca_ok p w \<Longrightarrow> state_fit (GetRemoteKeysForTarget p t) (EnsureTargetState t w)"
  by (simp add: wca_ok_def)

lemma wca_ok_fit: "wca_ok p w \<Longrightarrow> changes_fit (GetRemoteKeysForTarget p t) (ts_document_changes (EnsureTargetState t w))"
  by (simp add: wca_ok_def state_fit_def)

lemma map_document_target_ok: "wca_ok p w \<Longrightarrow> wca_ok p (map_document_target key t w)"
  by (simp add: wca_ok_def) (simp add: map_document_target_def)

lemma update_document_ok: "wca_ok p w \<Longrightarrow> wca_ok p (w\<lparr>wca_document_updates := dm_insert k d (wca_document_updates w)\<rparr>)"
  by (simp add: wca_ok_def)

lemma AddDocumentToTarget_ok: "wca_ok p w \<Longrightarrow> wca_ok p (AddDocumentToTarget p t d w)"
  using wca_ok_fit[of p w t]
  by (auto simp: AddDocumentToTarget_def Let_def TargetContainsDocument_def state_fit_def
      intro!: map_document_target_ok update_document_ok on_target_state_ok changes_fit_ops)

lemma RemoveDocumentFromTarget_ok: "wca_ok p w \<Longrightarrow> wca_ok p (RemoveDocumentFromTarget p t k d w)"
  using wca_ok_fit[of p w t]
  by (auto simp: RemoveDocumentFromTarget_def Let_def TargetContainsDocument_def state_fit_def
      intro!: map_document_target_ok update_document_ok on_target_state_ok changes_fit_ops split: option.split)

section \<open>Adding and removing documents act as on sets\<close>

lemma IsActiveTarget_eq:
  "IsActiveTarget p w t = (\<not> IsPending (EnsureTargetState t w) \<and> GetTargetDataForTarget p t \<noteq> None)"
  by (simp add: IsActiveTarget_def TargetDataForActiveTarget_eq)

lemma members_cong: "EnsureTargetState t w' = EnsureTargetState t w \<Longrightarrow> members p w' t = members p w t"
  by (simp add: members_def)

lemma members_add:
  assumes "wca_ok p w"
  shows "members p (AddDocumentToTarget p t d w) t' =
    (if t' = t \<and> IsActiveTarget p w t then insert (doc_key d) (members p w t) else members p w t')"
  using wca_ok_fit[OF assms, of t]
  by (auto simp: members_def AddDocumentToTarget_def Let_def TargetContainsDocument_def changes_fit_def split: if_splits)

lemma members_remove:
  assumes "wca_ok p w"
  shows "members p (RemoveDocumentFromTarget p t k d w) t' =
    (if t' = t \<and> IsActiveTarget p w t then members p w t - {k} else members p w t')"
  using wca_ok_fit[OF assms, of t]
  by (auto simp: members_def RemoveDocumentFromTarget_def Let_def TargetContainsDocument_def changes_fit_def dm_get_erase
      split: if_splits option.splits)

lemma active_add [simp]: "IsActiveTarget p (AddDocumentToTarget p t d w) t' = IsActiveTarget p w t'"
  by (simp add: AddDocumentToTarget_def Let_def IsActiveTarget_eq)

lemma active_remove [simp]: "IsActiveTarget p (RemoveDocumentFromTarget p t k d w) t' = IsActiveTarget p w t'"
  by (simp add: RemoveDocumentFromTarget_def Let_def IsActiveTarget_eq split: option.split)

lemma remove_fold:
  assumes "wca_ok p w"
  shows "let w' = foldl (\<lambda>w t. RemoveDocumentFromTarget p t k d w) w ts in wca_ok p w' \<and> (\<forall>t. IsActiveTarget p w' t = IsActiveTarget p w t \<and>
    members p w' t = (if t \<in> set ts \<and> IsActiveTarget p w t then members p w t - {k} else members p w t))"
  using assms unfolding Let_def
proof (induction ts arbitrary: w)
  case (Cons a ts)
  from Cons.IH[OF RemoveDocumentFromTarget_ok[OF Cons.prems(1)]] Cons.prems
  show ?case by (auto simp: members_remove)
qed simp

text \<open>What a document change does to the documents of one active target.\<close>

definition changed_members :: "DocumentWatchChange \<Rightarrow> TargetId \<Rightarrow> DocumentKey set \<Rightarrow> DocumentKey set" where
  "changed_members c t ks =
     (if t \<in> set (dwc_removed_target_ids c) then ks - {dwc_document_key c}
      else if t \<in> set (dwc_updated_target_ids c) then
        (case dwc_new_document c of None \<Rightarrow> ks
         | Some d \<Rightarrow> if is_document d then insert (dwc_document_key c) ks
             else if is_NoDocument d then ks - {dwc_document_key c} else ks)
      else ks)"

lemma update_fold:
  assumes "wca_ok p w" "\<forall>d. dwc_new_document c = Some d \<longrightarrow> doc_key d = dwc_document_key c"
  shows "let w' = foldl (updated_target_step p c) w ts in wca_ok p w' \<and> (\<forall>t. IsActiveTarget p w' t = IsActiveTarget p w t \<and>
    members p w' t = (if t \<in> set ts \<and> IsActiveTarget p w t
      then (case dwc_new_document c of None \<Rightarrow> members p w t
         | Some d \<Rightarrow> if is_document d then insert (dwc_document_key c) (members p w t)
             else if is_NoDocument d then members p w t - {dwc_document_key c} else members p w t)
      else members p w t))"
  using assms unfolding Let_def
proof (induction ts arbitrary: w)
  case (Cons a ts)
  have ok: "wca_ok p (updated_target_step p c w a)"
    using Cons.prems by (simp add: updated_target_step_def AddDocumentToTarget_ok RemoveDocumentFromTarget_ok split: option.split)
  from Cons.IH[OF ok Cons.prems(2)] Cons.prems
  show ?case by (cases "dwc_new_document c") (auto simp: updated_target_step_def members_add members_remove)
qed simp

lemma HandleDocumentChange_spec:
  assumes "wca_ok p w" "\<forall>d. dwc_new_document c = Some d \<longrightarrow> doc_key d = dwc_document_key c"
  shows "wca_ok p (HandleDocumentChange p c w) \<and>
    (\<forall>t. IsActiveTarget p (HandleDocumentChange p c w) t = IsActiveTarget p w t \<and>
       members p (HandleDocumentChange p c w) t =
         (if IsActiveTarget p w t then changed_members c t (members p w t) else members p w t))"
proof -
  let ?w = "foldl (updated_target_step p c) w (dwc_updated_target_ids c)"
  note u = update_fold[unfolded Let_def, OF assms, of "dwc_updated_target_ids c"]
  note r = remove_fold[unfolded Let_def, of p ?w "dwc_document_key c" "dwc_new_document c" "dwc_removed_target_ids c"]
  show ?thesis using u r
    by (cases "dwc_new_document c") (auto simp: HandleDocumentChange_def Let_def changed_members_def)
qed

section \<open>Target changes and document counts\<close>

definition tc_base :: "TargetState \<Rightarrow> TargetChange" where
  "tc_base s = \<lparr>tc_resume_token = ts_resume_token s, tc_current = ts_current s, tc_added_documents = [],
      tc_modified_documents = [], tc_removed_documents = []\<rparr>"

definition tc_sets_ok :: "TargetChange \<Rightarrow> bool" where
  "tc_sets_ok tc = (std_set_ok (tc_added_documents tc) \<and> std_set_ok (tc_modified_documents tc) \<and>
     std_set_ok (tc_removed_documents tc))"

lemma sort_change_fold:
  assumes "\<forall>e \<in> set cs. snd e \<noteq> CMetadata" "tc_sets_ok tc"
  shows "\<exists>tc'. rfold sort_change tc cs = Inr tc' \<and> tc_sets_ok tc' \<and>
    tc_resume_token tc' = tc_resume_token tc \<and> tc_current tc' = tc_current tc \<and>
    set (tc_added_documents tc') = set (tc_added_documents tc) \<union> {k. (k, CAdded) \<in> set cs} \<and>
    set (tc_modified_documents tc') = set (tc_modified_documents tc) \<union> {k. (k, CModified) \<in> set cs} \<and>
    set (tc_removed_documents tc') = set (tc_removed_documents tc) \<union> {k. (k, CRemoved) \<in> set cs}"
  using assms
proof (induction cs arbitrary: tc)
  case (Cons e cs)
  obtain k c where e: "e = (k, c)" by (cases e)
  have "\<exists>tc1. sort_change tc e = Inr tc1 \<and> tc_sets_ok tc1 \<and>
    tc_resume_token tc1 = tc_resume_token tc \<and> tc_current tc1 = tc_current tc \<and>
    set (tc_added_documents tc1) = set (tc_added_documents tc) \<union> {k. (k, CAdded) = e} \<and>
    set (tc_modified_documents tc1) = set (tc_modified_documents tc) \<union> {k. (k, CModified) = e} \<and>
    set (tc_removed_documents tc1) = set (tc_removed_documents tc) \<union> {k. (k, CRemoved) = e}"
    using Cons.prems by (cases c) (auto simp: e sort_change_def tc_sets_ok_def dks_insert_def)
  then obtain tc1 where tc1: "sort_change tc e = Inr tc1" "tc_sets_ok tc1"
    "tc_resume_token tc1 = tc_resume_token tc" "tc_current tc1 = tc_current tc"
    "set (tc_added_documents tc1) = set (tc_added_documents tc) \<union> {k. (k, CAdded) = e}"
    "set (tc_modified_documents tc1) = set (tc_modified_documents tc) \<union> {k. (k, CModified) = e}"
    "set (tc_removed_documents tc1) = set (tc_removed_documents tc) \<union> {k. (k, CRemoved) = e}" by blast
  from Cons.IH[OF _ tc1(2)] Cons.prems(1) obtain tc' where "rfold sort_change tc1 cs = Inr tc'" "tc_sets_ok tc'"
    "tc_resume_token tc' = tc_resume_token tc1" "tc_current tc' = tc_current tc1"
    "set (tc_added_documents tc') = set (tc_added_documents tc1) \<union> {k. (k, CAdded) \<in> set cs}"
    "set (tc_modified_documents tc') = set (tc_modified_documents tc1) \<union> {k. (k, CModified) \<in> set cs}"
    "set (tc_removed_documents tc') = set (tc_removed_documents tc1) \<union> {k. (k, CRemoved) \<in> set cs}" by auto
  then show ?case using tc1 by (intro exI[of _ tc']) auto
qed simp

lemma ToTargetChange_spec:
  assumes "changes_fit ks (ts_document_changes s)"
  obtains tc where "ToTargetChange s = Inr tc" "tc_sets_ok tc" "tc_resume_token tc = ts_resume_token s"
    "tc_current tc = ts_current s"
    "set (tc_added_documents tc) = {k. dm_get k (ts_document_changes s) = Some CAdded}"
    "set (tc_modified_documents tc) = {k. dm_get k (ts_document_changes s) = Some CModified}"
    "set (tc_removed_documents tc) = {k. dm_get k (ts_document_changes s) = Some CRemoved}"
proof -
  let ?cs = "ts_document_changes s"
  have ok: "dm_ok ?cs" using assms by (simp add: changes_fit_def)
  have m: "(dm_get k ?cs = Some c) = ((k, c) \<in> set ?cs)" for k c by (rule dm_get_mem[OF ok])
  have "snd e \<noteq> CMetadata" if "e \<in> set ?cs" for e
    using assms that m[of "fst e" "snd e"] unfolding changes_fit_def by (metis ChangeType.distinct(5,9,11) prod.collapse)
  moreover have "tc_sets_ok (tc_base s)" by (simp add: tc_sets_ok_def tc_base_def)
  ultimately show thesis using sort_change_fold[of ?cs "tc_base s"] that
    unfolding m by (auto simp: ToTargetChange_def tc_base_def)
qed

text \<open>The raised change is the difference of the documents of the target to its remote keys.\<close>

definition change_of_members :: "DocumentKeySet \<Rightarrow> DocumentKey set \<Rightarrow> TargetChange \<Rightarrow> bool" where
  "change_of_members ks ms tc = (set (tc_added_documents tc) = ms - set ks \<and>
     set (tc_removed_documents tc) = set ks - ms \<and> set (tc_modified_documents tc) \<subseteq> set ks \<inter> ms)"

lemma ToTargetChange_members:
  assumes "wca_ok p w" "ToTargetChange (EnsureTargetState t w) = Inr tc"
  shows "change_of_members (GetRemoteKeysForTarget p t) (members p w t) tc"
proof -
  let ?s = "EnsureTargetState t w"
  note fit = wca_ok_fit[OF assms(1), of t]
  obtain "set (tc_added_documents tc) = {k. dm_get k (ts_document_changes ?s) = Some CAdded}"
    "set (tc_modified_documents tc) = {k. dm_get k (ts_document_changes ?s) = Some CModified}"
    "set (tc_removed_documents tc) = {k. dm_get k (ts_document_changes ?s) = Some CRemoved}"
    using ToTargetChange_spec[OF fit] assms(2) by auto
  then show ?thesis using fit
    by (auto simp: change_of_members_def members_def changes_fit_def Let_def split: if_splits)
qed

lemma count_members:
  assumes "wca_ok p w" "distinct (GetRemoteKeysForTarget p t)"
  shows "\<exists>w'. GetCurrentDocumentCountForTarget p t w = Inr (word_of_nat (card (members p w t)), w') \<and> w' = on_target_state id t w"
proof -
  let ?ks = "GetRemoteKeysForTarget p t"
  obtain tc where tc: "ToTargetChange (EnsureTargetState t w) = Inr tc" "tc_sets_ok tc"
    using ToTargetChange_spec[OF wca_ok_fit[OF assms(1), of t]] by metis
  have c: "set (tc_added_documents tc) = members p w t - set ?ks" "set (tc_removed_documents tc) = set ?ks - members p w t"
    using ToTargetChange_members[OF assms(1) tc(1)] by (auto simp: change_of_members_def)
  have l: "length (tc_added_documents tc) = card (members p w t - set ?ks)"
    "length (tc_removed_documents tc) = card (set ?ks - members p w t)" "length ?ks = card (set ?ks)"
    using tc(2) c assms(2) by (metis tc_sets_ok_def std_set_ok_def distinct_card)+
  have fin: "finite (members p w t)"
    using finite_set[of "tc_added_documents tc"] unfolding c(1) by (metis finite_Diff2 finite_set)
  have "card (set ?ks) + card (members p w t - set ?ks) = card (set ?ks \<union> members p w t)"
    using fin by (metis Un_Diff_cancel card_Un_disjoint Diff_disjoint finite_Diff finite_set)
  moreover have "card (members p w t) + card (set ?ks - members p w t) = card (members p w t \<union> set ?ks)"
    using fin by (metis Un_Diff_cancel card_Un_disjoint Diff_disjoint finite_Diff finite_set)
  ultimately have "card (set ?ks) + card (members p w t - set ?ks) = card (members p w t) + card (set ?ks - members p w t)"
    by (simp add: Un_commute)
  then have "(word_of_nat (length ?ks) + word_of_nat (length (tc_added_documents tc)) :: int32) =
      word_of_nat (card (members p w t)) + word_of_nat (length (tc_removed_documents tc))"
    unfolding l by (metis of_nat_add)
  then show ?thesis using tc(1)
    by (simp add: GetCurrentDocumentCountForTarget_def Let_def algebra_simps)
qed

section \<open>Resets and existence filters\<close>

lemma reset_fold:
  assumes "wca_ok p w" "IsActiveTarget p w t"
  shows "let w' = foldl (\<lambda>w k. RemoveDocumentFromTarget p t k None w) w ks in wca_ok p w' \<and>
    (\<forall>t'. IsActiveTarget p w' t' = IsActiveTarget p w t') \<and>
    (\<forall>t'. members p w' t' = (if t' = t then members p w t - set ks else members p w t')) \<and>
    wca_target_resets w' = wca_target_resets w \<and> wca_document_updates w' = wca_document_updates w"
  using assms unfolding Let_def
proof (induction ks arbitrary: w)
  case (Cons k ks)
  have "wca_target_resets (RemoveDocumentFromTarget p t k None w) = wca_target_resets w"
    "wca_document_updates (RemoveDocumentFromTarget p t k None w) = wca_document_updates w"
    by (simp_all add: RemoveDocumentFromTarget_def Let_def on_target_state_def map_document_target_def)
  with Cons.IH[OF RemoveDocumentFromTarget_ok[OF Cons.prems(1)]] Cons.prems
  show ?case by (auto simp: members_remove)
qed simp

lemma on_target_state_frame [simp]:
  "wca_target_resets (on_target_state f t w) = wca_target_resets w"
  "wca_document_updates (on_target_state f t w) = wca_document_updates w"
  "wca_target_mappings (on_target_state f t w) = wca_target_mappings w"
  by (simp_all add: on_target_state_def)

lemma ResetTarget_spec:
  assumes "wca_ok p w" "IsActiveTarget p w t" "map_of (wca_target_states w) t \<noteq> None"
  obtains w' where "ResetTarget p t w = Inr w'" "wca_ok p w'"
    "\<forall>t'. IsActiveTarget p w' t' = IsActiveTarget p w t'"
    "\<forall>t'. members p w' t' = (if t' = t then {} else members p w t')"
    "wca_target_resets w' = wca_target_resets w" "wca_document_updates w' = wca_document_updates w"
proof -
  let ?w = "on_target_state (\<lambda>_. new_TargetState) t w"
  have ok: "wca_ok p ?w" by (rule on_target_state_ok[OF assms(1)]) (simp add: state_fit_def changes_fit_ops)
  have act: "IsActiveTarget p ?w t' = IsActiveTarget p w t'" for t' using assms(2) by (auto simp: IsActiveTarget_eq)
  have mem: "members p ?w t' = (if t' = t then set (GetRemoteKeysForTarget p t) else members p w t')" for t'
    by (auto simp: members_def)
  have "\<not> IsPending (EnsureTargetState t w)" using assms(2) by (simp add: IsActiveTarget_eq)
  then have "ResetTarget p t w = Inr (foldl (\<lambda>w k. RemoveDocumentFromTarget p t k None w) ?w (GetRemoteKeysForTarget p t))"
    using assms(3) by (auto simp: ResetTarget_def EnsureTargetState_def)
  then show thesis
    using that[of "foldl (\<lambda>w k. RemoveDocumentFromTarget p t k None w) ?w (GetRemoteKeysForTarget p t)"]
      reset_fold[OF ok, of t "GetRemoteKeysForTarget p t", unfolded Let_def] assms(2) act mem by simp
qed

lemma HandleExistenceFilter_spec:
  assumes ok: "wca_ok p w" and td: "TargetDataForActiveTarget p w t = Some td" "\<not> Target_IsDocumentQuery (td_target td)"
    and ks: "distinct (GetRemoteKeysForTarget p t)"
  obtains w' where "HandleExistenceFilter p \<lparr>efc_count = n, efc_target_id = t\<rparr> w = Inr w'" "wca_ok p w'"
    "\<forall>t'. IsActiveTarget p w' t' = IsActiveTarget p w t'"
    "\<forall>t'. members p w' t' = (if t' = t \<and> word_of_nat (card (members p w t)) \<noteq> n then {} else members p w t')"
    "set (wca_target_resets w') = set (wca_target_resets w) \<union> (if word_of_nat (card (members p w t)) \<noteq> n then {t} else {})"
proof -
  let ?w = "on_target_state id t w"
  have ok1: "wca_ok p ?w" by (rule on_target_state_ok[OF ok]) (simp add: wca_ok_state[OF ok])
  have act: "IsActiveTarget p ?w t' = IsActiveTarget p w t'" and mem: "members p ?w t' = members p w t'" for t'
    by (auto simp: IsActiveTarget_eq members_def)
  have a: "IsActiveTarget p ?w t" using td(1) act[of t] by (simp add: IsActiveTarget_def)
  have h: "HandleExistenceFilter p \<lparr>efc_count = n, efc_target_id = t\<rparr> w =
      (if word_of_nat (card (members p w t)) \<noteq> n
       then rmap (\<lambda>w. w\<lparr>wca_target_resets := List.insert t (wca_target_resets w)\<rparr>) (ResetTarget p t ?w) else Inr ?w)"
    using td count_members[OF ok ks] by (simp add: HandleExistenceFilter_def Let_def)
  show thesis
  proof (cases "word_of_nat (card (members p w t)) \<noteq> n")
    case True
    have "map_of (wca_target_states ?w) t \<noteq> None" by (simp add: on_target_state_def update_conv')
    then obtain w' where w': "ResetTarget p t ?w = Inr w'" "wca_ok p w'"
      "\<forall>t'. IsActiveTarget p w' t' = IsActiveTarget p ?w t'"
      "\<forall>t'. members p w' t' = (if t' = t then {} else members p ?w t')" "wca_target_resets w' = wca_target_resets ?w"
      using ResetTarget_spec[OF ok1 a] by metis
    let ?r = "w'\<lparr>wca_target_resets := List.insert t (wca_target_resets w')\<rparr>"
    have "wca_ok p ?r" using w'(2) by (simp add: wca_ok_def)
    moreover have "IsActiveTarget p ?r t' = IsActiveTarget p w' t'" "members p ?r t' = members p w' t'" for t'
      by (auto simp: IsActiveTarget_eq members_def)
    ultimately show thesis using that[of ?r] True h w' act mem by auto
  next
    case False
    then show thesis using that[of ?w] ok1 h act mem by auto
  qed
qed

section \<open>Target changes\<close>

text \<open>What a target change does to the documents of one of its targets.\<close>

definition members_after :: "TargetMetadataProvider \<Rightarrow> WatchTargetChange \<Rightarrow> WatchChangeAggregator \<Rightarrow> TargetId \<Rightarrow> DocumentKey set" where
  "members_after p c w t =
     (let last_response = (ts_outstanding_responses (EnsureTargetState t w) = 1)
      in case wtc_state c of
           WAdded \<Rightarrow> if last_response then set (GetRemoteKeysForTarget p t) else members p w t
         | WRemoved \<Rightarrow> if last_response then set (GetRemoteKeysForTarget p t) else members p w t
         | WReset \<Rightarrow> if IsActiveTarget p w t then {} else members p w t
         | _ \<Rightarrow> members p w t)"

lemma RemoveTarget_ok: "wca_ok p w \<Longrightarrow> wca_ok p (RemoveTarget t w)"
  by (auto simp: wca_ok_def state_fit_def changes_fit_ops) (simp_all add: RemoveTarget_def distinct_delete)

lemma members_on_same [simp]:
  "(\<And>s. ts_document_changes (f s) = ts_document_changes s) \<Longrightarrow> members p (on_target_state f t w) t' = members p w t'"
  by (simp add: members_def)

lemma members_RemoveTarget [simp]:
  "members p (RemoveTarget t w) t' = (if t' = t then set (GetRemoteKeysForTarget p t) else members p w t')"
  by (auto simp: members_def)

lemma on_target_state_fit:
  assumes "wca_ok p w" "\<And>s. state_fit (GetRemoteKeysForTarget p t) s \<Longrightarrow> state_fit (GetRemoteKeysForTarget p t) (f s)"
  shows "wca_ok p (on_target_state f t w)"
  using assms on_target_state_ok wca_ok_state by blast

lemma state_fit_ops [simp]:
  "state_fit ks s \<Longrightarrow> state_fit ks (UpdateResumeToken tok s)" "state_fit ks s \<Longrightarrow> state_fit ks (MarkCurrent s)"
  "state_fit ks s \<Longrightarrow> state_fit ks (RecordTargetResponse s)" "state_fit ks (ClearPendingChanges s)"
  "state_fit ks s \<Longrightarrow> state_fit ks (ts_RecordPendingTargetRequest s)" "state_fit ks s \<Longrightarrow> state_fit ks (id s)"
  "state_fit ks new_TargetState"
  by (auto simp: state_fit_def changes_fit_ops)

lemma IsPending_RecordTargetResponse: "IsPending (RecordTargetResponse s) = (ts_outstanding_responses s \<noteq> 1)"
  by (simp add: IsPending_def RecordTargetResponse_def)

lemma target_change_step_spec:
  assumes ok: "wca_ok p w" and cause: "wtc_state c = WRemoved \<longrightarrow> Status_ok (wtc_cause c)"
  shows "\<exists>w'. target_change_step p c w t = Inr w' \<and> wca_ok p w' \<and>
    (\<forall>t'. members p w' t' = (if t' = t then members_after p c w t else members p w t'))"
proof -
  let ?w = "on_target_state id t w" and ?tok = "wtc_resume_token c"
  have ok1: "wca_ok p ?w" by (rule on_target_state_fit[OF ok]) simp
  have act: "IsActiveTarget p ?w t = IsActiveTarget p w t" by (simp add: IsActiveTarget_eq)
  have mem: "members p ?w t' = members p w t'" for t' by simp
  have okr: "wca_ok p (on_target_state RecordTargetResponse t ?w)" by (rule on_target_state_fit[OF ok1]) simp
  show ?thesis
  proof (cases "wtc_state c")
    case WNoChange
    have "wca_ok p (on_target_state (UpdateResumeToken ?tok) t ?w)" by (rule on_target_state_fit[OF ok1]) simp
    then show ?thesis using WNoChange ok1 by (simp add: target_change_step_def members_after_def Let_def)
  next
    case WAdded
    define w2 where "w2 = (if \<not> IsPending (EnsureTargetState t (on_target_state RecordTargetResponse t ?w))
      then on_target_state ClearPendingChanges t (on_target_state RecordTargetResponse t ?w)
      else on_target_state RecordTargetResponse t ?w)"
    have "wca_ok p w2" unfolding w2_def using okr by (simp add: on_target_state_fit)
    then have "wca_ok p (on_target_state (UpdateResumeToken ?tok) t w2)" by (rule on_target_state_fit) simp
    moreover have "target_change_step p c w t = Inr (on_target_state (UpdateResumeToken ?tok) t w2)"
      by (simp add: target_change_step_def WAdded Let_def w2_def)
    moreover have "members p w2 t' = (if t' = t then members_after p c w t else members p w t')" for t'
      by (cases "t' = t") (auto simp: w2_def members_after_def WAdded members_def IsPending_RecordTargetResponse Let_def)
    ultimately show ?thesis by simp
  next
    case WRemoved
    define w2 where "w2 = (if \<not> IsPending (EnsureTargetState t (on_target_state RecordTargetResponse t ?w))
      then RemoveTarget t (on_target_state RecordTargetResponse t ?w) else on_target_state RecordTargetResponse t ?w)"
    have "wca_ok p w2" unfolding w2_def using okr by (simp add: RemoveTarget_ok)
    moreover have "target_change_step p c w t = Inr w2"
      using cause by (simp add: target_change_step_def WRemoved Let_def w2_def)
    moreover have "members p w2 t' = (if t' = t then members_after p c w t else members p w t')" for t'
      by (auto simp: w2_def members_after_def WRemoved IsPending_RecordTargetResponse Let_def)
    ultimately show ?thesis by simp
  next
    case WCurrent
    have "wca_ok p (on_target_state (UpdateResumeToken ?tok) t (on_target_state MarkCurrent t ?w))"
      by (rule on_target_state_fit[OF on_target_state_fit[OF ok1]]) simp_all
    then show ?thesis using WCurrent ok1 by (simp add: target_change_step_def members_after_def Let_def)
  next
    case WReset
    show ?thesis
    proof (cases "IsActiveTarget p w t")
      case True
      have "map_of (wca_target_states ?w) t \<noteq> None" by (simp add: on_target_state_def update_conv')
      moreover have "IsActiveTarget p ?w t" using True act by simp
      ultimately obtain w2 where w2: "ResetTarget p t ?w = Inr w2" "wca_ok p w2"
        "\<forall>t'. members p w2 t' = (if t' = t then {} else members p ?w t')"
        using ResetTarget_spec[OF ok1] by metis
      have "wca_ok p (on_target_state (UpdateResumeToken ?tok) t w2)" by (rule on_target_state_fit[OF w2(2)]) simp
      then show ?thesis using WReset True w2(1,3) \<open>IsActiveTarget p ?w t\<close>
        by (simp add: target_change_step_def members_after_def Let_def)
    next
      case False
      then show ?thesis using WReset ok1 act by (simp add: target_change_step_def members_after_def Let_def)
    qed
  qed
qed

lemma HandleTargetChange_ok:
  assumes "wca_ok p w" "wtc_state c = WRemoved \<longrightarrow> Status_ok (wtc_cause c)"
  shows "\<exists>w'. HandleTargetChange p c w = Inr w' \<and> wca_ok p w'"
  unfolding HandleTargetChange_def
  using target_change_step_spec[OF _ assms(2)] assms(1) by (intro rfold_total[where P="wca_ok p"]) blast+

lemma HandleTargetChange_one:
  assumes "wca_ok p w" "wtc_state c = WRemoved \<longrightarrow> Status_ok (wtc_cause c)" "wtc_target_ids c = [t]"
  shows "\<exists>w'. HandleTargetChange p c w = Inr w' \<and> wca_ok p w' \<and>
    (\<forall>t'. members p w' t' = (if t' = t then members_after p c w t else members p w t'))"
  using target_change_step_spec[OF assms(1,2), of t] assms(3) by (auto simp: HandleTargetChange_def GetTargetIds_def)

lemma RecordPendingTargetRequest_ok: "wca_ok p w \<Longrightarrow> wca_ok p (RecordPendingTargetRequest t w)"
  unfolding RecordPendingTargetRequest_def by (rule on_target_state_fit) simp_all

section \<open>Raising an event\<close>

text \<open>What raising an event keeps: activity, resets, the documents updated, the targets mapped.\<close>

definition event_frame ::
  "TargetMetadataProvider \<Rightarrow> SnapshotVersion \<Rightarrow> WatchChangeAggregator \<Rightarrow> WatchChangeAggregator \<Rightarrow> bool" where
  "event_frame p version w w' = (wca_ok p w' \<and> (\<forall>t. IsActiveTarget p w' t = IsActiveTarget p w t) \<and>
     wca_target_resets w' = wca_target_resets w \<and>
     (\<forall>k d. dm_get k (wca_document_updates w') = Some d \<longrightarrow>
        dm_get k (wca_document_updates w) = Some d \<or> d = NoDocument k version False) \<and>
     (\<forall>k d. dm_get k (wca_document_updates w) = Some d \<longrightarrow> dm_get k (wca_document_updates w') = Some d) \<and>
     (\<forall>k ts. dm_get k (wca_target_mappings w) = Some ts \<longrightarrow>
        (\<exists>ts'. dm_get k (wca_target_mappings w') = Some ts' \<and> set ts \<subseteq> set ts')))"

lemma event_frame_refl: "wca_ok p w \<Longrightarrow> event_frame p version w w"
  by (auto simp: event_frame_def)

lemma event_frame_trans: "event_frame p version a b \<Longrightarrow> event_frame p version b c \<Longrightarrow> event_frame p version a c"
proof -
  assume a: "event_frame p version a b" and b: "event_frame p version b c"
  have "\<exists>ts'. dm_get k (wca_target_mappings c) = Some ts' \<and> set ts \<subseteq> set ts'"
    if k: "dm_get k (wca_target_mappings a) = Some ts" for k ts
  proof -
    obtain tb where "dm_get k (wca_target_mappings b) = Some tb" "set ts \<subseteq> set tb" using a k unfolding event_frame_def by blast
    moreover from this obtain tc where "dm_get k (wca_target_mappings c) = Some tc" "set tb \<subseteq> set tc"
      using b unfolding event_frame_def by blast
    ultimately show ?thesis by blast
  qed
  moreover have "dm_get k (wca_document_updates a) = Some d \<or> d = NoDocument k version False"
    if "dm_get k (wca_document_updates c) = Some d" for k d
    using a b that unfolding event_frame_def by metis
  ultimately show "event_frame p version a c" using a b by (simp add: event_frame_def)
qed

text \<open>The documents of a target for which a delete may be synthesized.\<close>

definition settled_members ::
  "TargetMetadataProvider \<Rightarrow> WatchChangeAggregator \<Rightarrow> TargetId \<Rightarrow> DocumentKey set \<Rightarrow> bool" where
  "settled_members p w t ms = (case GetTargetDataForTarget p t of None \<Rightarrow> ms = members p w t
     | Some td \<Rightarrow> if ts_current (EnsureTargetState t w) \<and> Target_IsDocumentQuery (td_target td)
         then ms = members p w t \<or>
           (ms = members p w t - {t_path (td_target td)} \<and> t_path (td_target td) \<notin> set (GetRemoteKeysForTarget p t))
         else ms = members p w t)"

lemma synthesize_delete_spec:
  assumes ok: "wca_ok p w" and td: "TargetDataForActiveTarget p w t = Some td"
    and w'_def: "w' = synthesize_delete p version t td w"
  shows "event_frame p version w w' \<and> settled_members p w t (members p w' t) \<and>
    (\<forall>t'. t' \<noteq> t \<longrightarrow> EnsureTargetState t' w' = EnsureTargetState t' w) \<and>
    ts_resume_token (EnsureTargetState t w') = ts_resume_token (EnsureTargetState t w) \<and>
    ts_current (EnsureTargetState t w') = ts_current (EnsureTargetState t w) \<and>
    (w' = w \<or> ts_has_pending_changes (EnsureTargetState t w')) \<and>
    fst ` set (wca_target_states w') \<subseteq> insert t (fst ` set (wca_target_states w))"
proof -
  let ?key = "t_path (td_target td)"
  have g: "GetTargetDataForTarget p t = Some td" using td by (simp add: TargetDataForActiveTarget_eq split: if_splits)
  have a: "IsActiveTarget p w t" using td by (simp add: IsActiveTarget_def)
  show ?thesis
  proof (cases "ts_current (EnsureTargetState t w) \<and> Target_IsDocumentQuery (td_target td) \<and>
      dm_get ?key (wca_document_updates w) = None \<and> \<not> TargetContainsDocument p t ?key")
    case True
    then have w': "w' = RemoveDocumentFromTarget p t ?key (Some (NoDocument ?key version False)) w"
      by (simp add: w'_def synthesize_delete_def Let_def)
    have e: "RemoveDocumentFromTarget p t ?key (Some (NoDocument ?key version False)) w =
      map_document_target ?key t (on_target_state (RemoveDocumentChange ?key) t w)
        \<lparr>wca_document_updates := dm_insert ?key (NoDocument ?key version False) (wca_document_updates w)\<rparr>"
      using True a by (simp add: RemoveDocumentFromTarget_def Let_def map_document_target_def)
    have "event_frame p version w w'"
      unfolding event_frame_def
    proof (intro conjI allI)
      show "wca_ok p w'" unfolding w' by (rule RemoveDocumentFromTarget_ok[OF ok])
    qed (use True in \<open>auto simp: w' e map_document_target_def IsActiveTarget_eq split: option.split\<close>)
    moreover have "members p w' t = members p w t - {?key}" using a by (simp add: w' members_remove[OF ok])
    moreover have "EnsureTargetState t w' = RemoveDocumentChange ?key (EnsureTargetState t w)" by (simp add: w' e)
    moreover have "fst ` set (wca_target_states w') \<subseteq> insert t (fst ` set (wca_target_states w))"
      by (auto simp: w' e map_document_target_def on_target_state_def dom_update)
    moreover have "EnsureTargetState t' w' = EnsureTargetState t' w" if "t' \<noteq> t" for t' using that by (simp add: w' e)
    ultimately show ?thesis using True g
      by (simp add: settled_members_def TargetContainsDocument_def dks_contains_def) (simp add: RemoveDocumentChange_def)
  next
    case False
    then have "w' = w" by (auto simp: w'_def synthesize_delete_def Let_def)
    then show ?thesis using event_frame_refl[OF ok] g by (auto simp: settled_members_def)
  qed
qed

text \<open>What the event says of one active target.\<close>

definition raised ::
  "TargetMetadataProvider \<Rightarrow> WatchChangeAggregator \<Rightarrow> TargetId \<Rightarrow> TargetChange option \<Rightarrow> bool" where
  "raised p w t c = (\<exists>ms. settled_members p w t ms \<and> (case c of
      None \<Rightarrow> \<not> ts_has_pending_changes (EnsureTargetState t w) \<and> ms = set (GetRemoteKeysForTarget p t)
    | Some tc \<Rightarrow> change_of_members (GetRemoteKeysForTarget p t) ms tc \<and>
        tc_resume_token tc = ts_resume_token (EnsureTargetState t w) \<and>
        tc_current tc = ts_current (EnsureTargetState t w)))"

lemma no_changes_members:
  "wca_ok p w \<Longrightarrow> \<not> ts_has_pending_changes (EnsureTargetState t w) \<Longrightarrow> members p w t = set (GetRemoteKeysForTarget p t)"
  using wca_ok_state[of p w t] by (simp add: state_fit_def members_def)

lemma remote_event_step_spec:
  assumes ok: "wca_ok p w" and new: "map_of tcs t = None"
  obtains tcs' w' where "remote_event_step p version (tcs, w) t = Inr (tcs', w')" "event_frame p version w w'"
    "\<forall>t'. t' \<noteq> t \<longrightarrow> EnsureTargetState t' w' = EnsureTargetState t' w \<and> map_of tcs' t' = map_of tcs t'"
    "if IsActiveTarget p w t then \<not> ts_has_pending_changes (EnsureTargetState t w') \<and> raised p w t (map_of tcs' t)
     else EnsureTargetState t w' = EnsureTargetState t w \<and> map_of tcs' t = None"
proof (cases "TargetDataForActiveTarget p w t")
  case None
  then show thesis using that[of tcs w] new event_frame_refl[OF ok]
    by (simp add: remote_event_step_def IsActiveTarget_def)
next
  case (Some td)
  define w1 where "w1 = synthesize_delete p version t td w"
  note sd = synthesize_delete_spec[OF ok Some w1_def]
  have a: "IsActiveTarget p w t" using Some by (simp add: IsActiveTarget_def)
  have ok1: "wca_ok p w1" using sd by (simp add: event_frame_def)
  show thesis
  proof (cases "ts_has_pending_changes (EnsureTargetState t w1)")
    case True
    define w2 where "w2 = on_target_state ClearPendingChanges t w1"
    obtain tc where tc: "ToTargetChange (EnsureTargetState t w1) = Inr tc"
      "tc_resume_token tc = ts_resume_token (EnsureTargetState t w1)" "tc_current tc = ts_current (EnsureTargetState t w1)"
      using ToTargetChange_spec[OF wca_ok_fit[OF ok1, of t]] by metis
    have cm: "change_of_members (GetRemoteKeysForTarget p t) (members p w1 t) tc"
      by (rule ToTargetChange_members[OF ok1 tc(1)])
    have "wca_ok p w2" unfolding w2_def by (rule on_target_state_fit[OF ok1]) simp
    then have "event_frame p version w1 w2" by (auto simp: event_frame_def w2_def IsActiveTarget_eq)
    then have f: "event_frame p version w w2" using sd event_frame_trans by blast
    have st: "remote_event_step p version (tcs, w) t = Inr (AList.update t tc tcs, w2)"
      using Some True tc(1) by (simp add: remote_event_step_def w1_def[symmetric] w2_def Let_def)
    have "raised p w t (Some tc)" using sd cm tc(2,3) unfolding raised_def by (intro exI[of _ "members p w1 t"]) simp
    then show thesis using that[OF st f] sd a by (simp add: w2_def update_conv')
  next
    case False
    then have "w1 = w" using sd by blast
    moreover have "raised p w t None"
      using sd False no_changes_members[OF ok, of t] unfolding raised_def \<open>w1 = w\<close> by auto
    ultimately show thesis using that[of tcs w] event_frame_refl[OF ok] Some False new a
      by (simp add: remote_event_step_def w1_def[symmetric] Let_def)
  qed
qed

lemma remote_event_fold:
  assumes "wca_ok p w" "distinct ts" "\<forall>t \<in> set ts. map_of tcs t = None"
  shows "\<exists>tcs' w'. rfold (remote_event_step p version) (tcs, w) ts = Inr (tcs', w') \<and> event_frame p version w w' \<and>
    (\<forall>t. if t \<in> set ts
       then (if IsActiveTarget p w t then \<not> ts_has_pending_changes (EnsureTargetState t w') \<and> raised p w t (map_of tcs' t)
             else EnsureTargetState t w' = EnsureTargetState t w \<and> map_of tcs' t = None)
       else EnsureTargetState t w' = EnsureTargetState t w \<and> map_of tcs' t = map_of tcs t)"
  using assms
proof (induction ts arbitrary: tcs w)
  case Nil
  then show ?case using event_frame_refl by auto
next
  case (Cons a ts)
  have "map_of tcs a = None" using Cons.prems(3) by simp
  then obtain tcs1 w1 where st: "remote_event_step p version (tcs, w) a = Inr (tcs1, w1)" "event_frame p version w w1"
    "\<forall>t'. t' \<noteq> a \<longrightarrow> EnsureTargetState t' w1 = EnsureTargetState t' w \<and> map_of tcs1 t' = map_of tcs t'"
    "if IsActiveTarget p w a then \<not> ts_has_pending_changes (EnsureTargetState a w1) \<and> raised p w a (map_of tcs1 a)
     else EnsureTargetState a w1 = EnsureTargetState a w \<and> map_of tcs1 a = None"
    using remote_event_step_spec[OF Cons.prems(1)] by metis
  have ok1: "wca_ok p w1" using st(2) by (simp add: event_frame_def)
  have "\<forall>t \<in> set ts. map_of tcs1 t = None" using Cons.prems(2,3) st(3) by auto
  then obtain tcs2 w2 where r: "rfold (remote_event_step p version) (tcs1, w1) ts = Inr (tcs2, w2)" "event_frame p version w1 w2"
    "\<forall>t. if t \<in> set ts
       then (if IsActiveTarget p w1 t then \<not> ts_has_pending_changes (EnsureTargetState t w2) \<and> raised p w1 t (map_of tcs2 t)
             else EnsureTargetState t w2 = EnsureTargetState t w1 \<and> map_of tcs2 t = None)
       else EnsureTargetState t w2 = EnsureTargetState t w1 \<and> map_of tcs2 t = map_of tcs1 t"
    using Cons.IH[OF ok1, of tcs1] Cons.prems(2) by auto
  have act: "IsActiveTarget p w1 t = IsActiveTarget p w t" for t using st(2) by (simp add: event_frame_def)
  have ra: "raised p w1 t c = raised p w t c" if "t \<noteq> a" for t c
  proof -
    have "EnsureTargetState t w1 = EnsureTargetState t w" using st(3) that by blast
    then show ?thesis using members_cong[of t w1 w p] unfolding raised_def settled_members_def by (simp only:)
  qed
  have an: "a \<notin> set ts" using Cons.prems(2) by simp
  have "\<forall>t. if t \<in> set (a # ts)
       then (if IsActiveTarget p w t then \<not> ts_has_pending_changes (EnsureTargetState t w2) \<and> raised p w t (map_of tcs2 t)
             else EnsureTargetState t w2 = EnsureTargetState t w \<and> map_of tcs2 t = None)
       else EnsureTargetState t w2 = EnsureTargetState t w \<and> map_of tcs2 t = map_of tcs t"
  proof
    fix t
    show "if t \<in> set (a # ts)
       then (if IsActiveTarget p w t then \<not> ts_has_pending_changes (EnsureTargetState t w2) \<and> raised p w t (map_of tcs2 t)
             else EnsureTargetState t w2 = EnsureTargetState t w \<and> map_of tcs2 t = None)
       else EnsureTargetState t w2 = EnsureTargetState t w \<and> map_of tcs2 t = map_of tcs t"
      using r(3)[rule_format, of t] st(3)[rule_format, of t] st(4) an ra[of t] act[of t]
      by (cases "t = a"; cases "t \<in> set ts"; cases "IsActiveTarget p w t") simp_all
  qed
  moreover have "rfold (remote_event_step p version) (tcs, w) (a # ts) = Inr (tcs2, w2)" using st(1) r(1) by simp
  ultimately show ?case using event_frame_trans[OF st(2) r(2)] by blast
qed

lemma limbo_fold:
  "set (foldl (\<lambda>s e. if P (snd e) then dks_insert (fst e) s else s) s es) = set s \<union> {k. \<exists>ts. (k, ts) \<in> set es \<and> P ts}"
  by (induction es arbitrary: s) auto

lemma CreateRemoteEvent_spec:
  assumes ok: "wca_ok p w"
  obtains ev w' where "CreateRemoteEvent p version w = Inr (ev, w')" "wca_ok p w'"
    "wca_document_updates w' = []" "wca_target_mappings w' = []" "wca_target_resets w' = []"
    "re_target_mismatches ev = wca_target_resets w" "re_snapshot_version ev = version"
    "\<forall>t. if t \<in> fst ` set (wca_target_states w) \<and> IsActiveTarget p w t
       then \<not> ts_has_pending_changes (EnsureTargetState t w') \<and> raised p w t (map_of (re_target_changes ev) t)
       else EnsureTargetState t w' = EnsureTargetState t w \<and> map_of (re_target_changes ev) t = None"
    "\<forall>k d. dm_get k (re_document_updates ev) = Some d \<longrightarrow>
        dm_get k (wca_document_updates w) = Some d \<or> d = NoDocument k version False"
    "\<forall>k d. dm_get k (wca_document_updates w) = Some d \<longrightarrow> dm_get k (re_document_updates ev) = Some d"
    "\<forall>k \<in> set (re_limbo_document_changes ev). \<forall>ts. dm_get k (wca_target_mappings w) = Some ts \<longrightarrow>
       is_only_limbo_target p w ts"
proof -
  obtain tcs w1 where r: "rfold (remote_event_step p version) ([], w) (map fst (wca_target_states w)) = Inr (tcs, w1)"
    "event_frame p version w w1"
    "\<forall>t. if t \<in> set (map fst (wca_target_states w))
       then (if IsActiveTarget p w t then \<not> ts_has_pending_changes (EnsureTargetState t w1) \<and> raised p w t (map_of tcs t)
             else EnsureTargetState t w1 = EnsureTargetState t w \<and> map_of tcs t = None)
       else EnsureTargetState t w1 = EnsureTargetState t w \<and> map_of tcs t = map_of [] t"
    using remote_event_fold[OF ok, of "map fst (wca_target_states w)" "[]" version] ok by (auto simp: wca_ok_def)
  define ev where "ev = \<lparr>re_snapshot_version = version, re_target_changes = tcs,
                re_target_mismatches = wca_target_resets w1, re_document_updates = wca_document_updates w1,
                re_limbo_document_changes = foldl (\<lambda>s e. if is_only_limbo_target p w1 (snd e) then dks_insert (fst e) s else s) []
                        (wca_target_mappings w1)\<rparr>"
  define w2 where "w2 = w1\<lparr>wca_document_updates := [], wca_target_mappings := [], wca_target_resets := []\<rparr>"
  have c: "CreateRemoteEvent p version w = Inr (ev, w2)"
    by (simp add: CreateRemoteEvent_def r(1) ev_def w2_def Let_def)
  have ok1: "wca_ok p w1" using r(2) by (simp add: event_frame_def)
  then have ok2: "wca_ok p w2" by (simp add: wca_ok_def w2_def)
  have e: "EnsureTargetState t w2 = EnsureTargetState t w1" for t by (simp add: w2_def)
  have act: "TargetDataForActiveTarget p w1 t = TargetDataForActiveTarget p w t" for t
  proof -
    have "IsActiveTarget p w1 t = IsActiveTarget p w t" using r(2) by (simp add: event_frame_def)
    then show ?thesis by (cases "GetTargetDataForTarget p t") (auto simp: IsActiveTarget_eq TargetDataForActiveTarget_eq)
  qed
  have lim: "is_only_limbo_target p w ts"
    if k: "k \<in> set (re_limbo_document_changes ev)" "dm_get k (wca_target_mappings w) = Some ts" for k ts
  proof -
    obtain ts' where ts': "dm_get k (wca_target_mappings w1) = Some ts'" "set ts \<subseteq> set ts'"
      using r(2) k(2) unfolding event_frame_def by blast
    obtain ts2 where "(k, ts2) \<in> set (wca_target_mappings w1)" "is_only_limbo_target p w1 ts2"
      using k(1) by (auto simp: ev_def limbo_fold)
    then have "is_only_limbo_target p w1 ts'"
      using ts'(1) dm_get_mem[of "wca_target_mappings w1" k ts2] ok1 by (simp add: wca_ok_def)
    then show ?thesis using ts'(2) by (auto simp: is_only_limbo_target_def list_ex_iff act)
  qed
  have ts: "\<forall>t. if t \<in> fst ` set (wca_target_states w) \<and> IsActiveTarget p w t
       then \<not> ts_has_pending_changes (EnsureTargetState t w2) \<and> raised p w t (map_of (re_target_changes ev) t)
       else EnsureTargetState t w2 = EnsureTargetState t w \<and> map_of (re_target_changes ev) t = None"
  proof
    fix t
    show "if t \<in> fst ` set (wca_target_states w) \<and> IsActiveTarget p w t
       then \<not> ts_has_pending_changes (EnsureTargetState t w2) \<and> raised p w t (map_of (re_target_changes ev) t)
       else EnsureTargetState t w2 = EnsureTargetState t w \<and> map_of (re_target_changes ev) t = None"
      using r(3)[rule_format, of t] e[of t] by (simp add: ev_def split: if_splits)
  qed
  have w2: "wca_document_updates w2 = []" "wca_target_mappings w2 = []" "wca_target_resets w2 = []"
    "re_target_mismatches ev = wca_target_resets w" "re_snapshot_version ev = version"
    "re_document_updates ev = wca_document_updates w1"
    using r(2) by (simp_all add: ev_def w2_def event_frame_def)
  show thesis
    by (rule that[OF c ok2 w2(1-5) ts]) (use r(2) lim in \<open>auto simp: w2(6) event_frame_def\<close>)
qed

lemma CreateRemoteEvent_raised:
  assumes "wca_ok p w" "CreateRemoteEvent p version w = Inr (ev, w')"
  shows "map_of (re_target_changes ev) t = Some tc \<Longrightarrow> raised p w t (Some tc)"
    and "t \<in> fst ` set (wca_target_states w) \<and> IsActiveTarget p w t \<Longrightarrow> raised p w t (map_of (re_target_changes ev) t)"
proof -
  obtain ev' w'' where e: "CreateRemoteEvent p version w = Inr (ev', w'')"
    "\<forall>t. if t \<in> fst ` set (wca_target_states w) \<and> IsActiveTarget p w t
       then \<not> ts_has_pending_changes (EnsureTargetState t w'') \<and> raised p w t (map_of (re_target_changes ev') t)
       else EnsureTargetState t w'' = EnsureTargetState t w \<and> map_of (re_target_changes ev') t = None"
    by (rule CreateRemoteEvent_spec[OF assms(1), of version]) blast
  then have ev: "ev' = ev" using assms(2) by simp
  note r = e(2)[rule_format, of t, unfolded ev]
  show "map_of (re_target_changes ev) t = Some tc \<Longrightarrow> raised p w t (Some tc)"
    using r by (cases "t \<in> fst ` set (wca_target_states w) \<and> IsActiveTarget p w t") auto
  show "t \<in> fst ` set (wca_target_states w) \<and> IsActiveTarget p w t \<Longrightarrow> raised p w t (map_of (re_target_changes ev) t)"
    using r by simp
qed

end
