(* ===== verification/Backoff.thy ===== *)
theory Backoff
  imports Prelude
begin

text \<open>
  \<open>remote/exponential_backoff.cc\<close>, with the default factor 1.5.  Delays are counts of
  milliseconds; the product of a delay of at most a minute with 1.5 is exact in a double, so its
  truncation is a division.  The random jitter and the time since the last attempt are arguments.
\<close>

record ExponentialBackoff =
  eb_pending :: "int option"
  eb_current_base :: int
  eb_initial_delay :: int
  eb_max_delay :: int

definition kDefaultBackoffInitialDelay :: int where "kDefaultBackoffInitialDelay = 1000"
definition kDefaultBackoffMaxDelay :: int where "kDefaultBackoffMaxDelay = 60 * 1000"

definition make_ExponentialBackoff :: "int \<Rightarrow> int \<Rightarrow> ExponentialBackoff result" where
  "make_ExponentialBackoff initial_delay max_delay =
     hard_assert (0 \<le> initial_delay) (hard_assert (0 \<le> max_delay) (hard_assert (initial_delay \<le> max_delay)
       (Inr \<lparr>eb_pending = None, eb_current_base = 0, eb_initial_delay = initial_delay, eb_max_delay = max_delay\<rparr>)))"

definition default_ExponentialBackoff :: "ExponentialBackoff result" where
  "default_ExponentialBackoff = make_ExponentialBackoff kDefaultBackoffInitialDelay kDefaultBackoffMaxDelay"

definition eb_Reset :: "ExponentialBackoff \<Rightarrow> ExponentialBackoff" where
  "eb_Reset b = b\<lparr>eb_current_base := 0\<rparr>"

definition eb_ResetToMax :: "ExponentialBackoff \<Rightarrow> ExponentialBackoff" where
  "eb_ResetToMax b = b\<lparr>eb_current_base := eb_max_delay b\<rparr>"

definition eb_Cancel :: "ExponentialBackoff \<Rightarrow> ExponentialBackoff" where
  "eb_Cancel b = b\<lparr>eb_pending := None\<rparr>"

definition ClampDelay :: "ExponentialBackoff \<Rightarrow> int \<Rightarrow> int" where
  "ClampDelay b delay =
     (if delay < eb_initial_delay b then eb_initial_delay b
      else if eb_max_delay b < delay then eb_max_delay b
      else delay)"

definition times_backoff_factor :: "int \<Rightarrow> int" where
  "times_backoff_factor base = base * 3 div 2"

definition BackoffAndRun :: "int \<Rightarrow> int \<Rightarrow> ExponentialBackoff \<Rightarrow> ExponentialBackoff" where
  "BackoffAndRun jitter delay_so_far b =
     (let b = eb_Cancel b;
          desired_delay_with_jitter = eb_current_base b + jitter;
          remaining_delay = max 0 (desired_delay_with_jitter - delay_so_far);
          b = b\<lparr>eb_pending := Some remaining_delay\<rparr>
      in b\<lparr>eb_current_base := ClampDelay b (times_backoff_factor (eb_current_base b))\<rparr>)"

definition eb_inv :: "ExponentialBackoff \<Rightarrow> bool" where
  "eb_inv b = (0 \<le> eb_initial_delay b \<and> eb_initial_delay b \<le> eb_max_delay b \<and>
     (eb_current_base b = 0 \<or> (eb_initial_delay b \<le> eb_current_base b \<and> eb_current_base b \<le> eb_max_delay b)))"

lemma make_ExponentialBackoff_inv: "make_ExponentialBackoff i m = Inr b \<Longrightarrow> eb_inv b"
  by (auto simp: make_ExponentialBackoff_def eb_inv_def)

lemma BackoffAndRun_inv: "eb_inv b \<Longrightarrow> eb_inv (BackoffAndRun j d b)"
  by (auto simp: eb_inv_def BackoffAndRun_def eb_Cancel_def ClampDelay_def Let_def)

lemma eb_resets_inv: "eb_inv b \<Longrightarrow> eb_inv (eb_Reset b)" "eb_inv b \<Longrightarrow> eb_inv (eb_ResetToMax b)"
  by (auto simp: eb_inv_def eb_Reset_def eb_ResetToMax_def)

text \<open>The scheduled delay, with a jitter of at most half the base.\<close>

lemma BackoffAndRun_delay:
  assumes "eb_inv b" "0 \<le> d" "\<bar>2 * j\<bar> \<le> eb_current_base b"
  shows "\<exists>t. eb_pending (BackoffAndRun j d b) = Some t \<and> 0 \<le> t \<and> 2 * t \<le> 3 * eb_max_delay b"
proof -
  define t where "t = max 0 (eb_current_base b + j - d)"
  have "eb_pending (BackoffAndRun j d b) = Some t"
    by (simp add: BackoffAndRun_def Let_def t_def eb_Cancel_def)
  moreover have "0 \<le> t" by (simp add: t_def)
  moreover have "2 * (eb_current_base b + j - d) \<le> 3 * eb_max_delay b" "0 \<le> eb_max_delay b"
    using assms by (auto simp: eb_inv_def)
  then have "2 * t \<le> 3 * eb_max_delay b" by (auto simp: t_def max_def)
  ultimately show ?thesis by blast
qed

lemma BackoffAndRun_grows:
  assumes "eb_inv b"
  shows "eb_current_base b \<le> eb_current_base (BackoffAndRun j d b)"
  using assms by (auto simp: eb_inv_def BackoffAndRun_def eb_Cancel_def ClampDelay_def Let_def times_backoff_factor_def)

primrec backoff_bases :: "nat \<Rightarrow> ExponentialBackoff \<Rightarrow> int" where
  "backoff_bases 0 b = eb_current_base b"
| "backoff_bases (Suc n) b = backoff_bases n (BackoffAndRun 0 0 b)"

text \<open>The bases do not depend on the jitter, so a run of attempts is determined by its length.\<close>

lemma BackoffAndRun_base:
  "eb_current_base (BackoffAndRun j d b) = ClampDelay b (times_backoff_factor (eb_current_base b))"
  "eb_initial_delay (BackoffAndRun j d b) = eb_initial_delay b"
  "eb_max_delay (BackoffAndRun j d b) = eb_max_delay b"
  by (simp_all add: BackoffAndRun_def eb_Cancel_def Let_def ClampDelay_def)

lemma backoff_after:
  "eb_inv b \<Longrightarrow> foldl (\<lambda>b (j, d). BackoffAndRun j d b) b js = b' \<Longrightarrow>
   eb_current_base b' = backoff_bases (length js) b"
proof (induction js arbitrary: b)
  case (Cons x js)
  obtain j d where x: "x = (j, d)" by (cases x)
  have "backoff_bases n b1 = backoff_bases n b2"
    if "eb_current_base b1 = eb_current_base b2" "eb_initial_delay b1 = eb_initial_delay b2"
      "eb_max_delay b1 = eb_max_delay b2" for n b1 b2
    using that by (induction n arbitrary: b1 b2) (simp_all add: BackoffAndRun_base ClampDelay_def)
  then have "backoff_bases (length js) (BackoffAndRun j d b) = backoff_bases (length js) (BackoffAndRun 0 0 b)"
    by (simp add: BackoffAndRun_base ClampDelay_def)
  then show ?case using Cons.IH[OF BackoffAndRun_inv[OF Cons.prems(1), of j d]] Cons.prems(2) by (simp add: x)
qed simp

end
