(* ===== verification/Transforms.thy ===== *)
theory Transforms
  imports Documents
begin

text \<open>
  \<open>model/transform_operation.cc\<close> and \<open>model/field_transform.h\<close>: the transformations of single
  fields, server timestamps, array union and removal, and numeric increments.
\<close>

datatype TransformType = TTServerTimestamp | TTArrayUnion | TTArrayRemove | TTIncrement

datatype TransformOperation =
    ServerTimestampTransform
  | ArrayTransform TransformType "FieldValue list"
  | NumericIncrementTransform FieldValue

definition IsArrayTransform :: "TransformType \<Rightarrow> bool" where
  "IsArrayTransform t = (t = TTArrayUnion \<or> t = TTArrayRemove)"

definition make_ArrayTransform :: "TransformType \<Rightarrow> FieldValue list \<Rightarrow> TransformOperation result" where
  "make_ArrayTransform t elements = hard_assert (IsArrayTransform t) (Inr (ArrayTransform t elements))"

definition make_NumericIncrementTransform :: "FieldValue \<Rightarrow> TransformOperation result" where
  "make_NumericIncrementTransform operand =
     hard_assert (is_number operand) (Inr (NumericIncrementTransform operand))"

fun transform_ok :: "TransformOperation \<Rightarrow> bool" where
  "transform_ok ServerTimestampTransform = True"
| "transform_ok (ArrayTransform t elements) = IsArrayTransform t"
| "transform_ok (NumericIncrementTransform operand) = is_number operand"

section \<open>Arrays\<close>

definition CoercedFieldValuesArray :: "FieldValue option \<Rightarrow> FieldValue list" where
  "CoercedFieldValuesArray value = (case value of Some (FArray vs) \<Rightarrow> vs | _ \<Rightarrow> [])"

text \<open>\<open>absl::c_find\<close> gives the position of the first element equal to the given one.\<close>

definition c_find :: "FieldValue list \<Rightarrow> FieldValue \<Rightarrow> nat" where
  "c_find xs element = length (takeWhile (\<lambda>x. \<not> FieldValue_eq x element) xs)"

definition array_apply_step :: "TransformType \<Rightarrow> FieldValue list \<Rightarrow> FieldValue \<Rightarrow> FieldValue list result" where
  "array_apply_step type res element =
     (let pos = c_find res element
      in if type = TTArrayUnion then (if pos = length res then Inr (res @ [element]) else Inr res)
         else hard_assert (type = TTArrayRemove)
           (if pos \<noteq> length res then Inr (take pos res @ drop (pos + 1) res) else Inr res))"

definition ArrayTransform_Apply ::
  "TransformType \<Rightarrow> FieldValue list \<Rightarrow> FieldValue option \<Rightarrow> FieldValue result" where
  "ArrayTransform_Apply type elements previous_value =
     rmap FArray (rfold (array_apply_step type) (CoercedFieldValuesArray previous_value) elements)"

section \<open>Numeric increments\<close>

definition LONG_MAX :: int64 where "LONG_MAX = 0x7FFFFFFFFFFFFFFF"
definition LONG_MIN :: int64 where "LONG_MIN = 0x8000000000000000"

definition SafeIncrement :: "int64 \<Rightarrow> int64 \<Rightarrow> int64" where
  "SafeIncrement x y =
     (if 0 < sint x \<and> sint (LONG_MAX - x) < sint y then LONG_MAX
      else if sint x < 0 \<and> sint y < sint (LONG_MIN - x) then LONG_MIN
      else x + y)"

definition AsDouble :: "FieldValue \<Rightarrow> double result" where
  "AsDouble value = (case value of FDouble d \<Rightarrow> Inr d | FInteger i \<Rightarrow> Inr (fp_of_int64 i) | _ \<Rightarrow> Inl HardFail)"

definition Increment_ComputeBaseValue :: "FieldValue option \<Rightarrow> FieldValue option" where
  "Increment_ComputeBaseValue previous_value =
     (case previous_value of
        Some v \<Rightarrow> if is_number v then previous_value else Some (FInteger 0)
      | None \<Rightarrow> Some (FInteger 0))"

definition Increment_ApplyToLocalView :: "FieldValue \<Rightarrow> FieldValue option \<Rightarrow> FieldValue result" where
  "Increment_ApplyToLocalView operand previous_value =
     (let base_value = Increment_ComputeBaseValue previous_value
      in case (base_value, operand) of
           (Some (FInteger i), FInteger j) \<Rightarrow> Inr (FInteger (SafeIncrement i j))
         | _ \<Rightarrow>
             (case base_value of
                None \<Rightarrow> Inl HardAssert
              | Some base \<Rightarrow> hard_assert (is_number base)
                  (rbind (AsDouble base) (\<lambda>a. rbind (AsDouble operand) (\<lambda>b.
                     Inr (FromDouble (fp_add a b)))))))"

section \<open>The operations of \<open>TransformOperation\<close>\<close>

fun Transform_ApplyToLocalView ::
  "TransformOperation \<Rightarrow> FieldValue option \<Rightarrow> Timestamp \<Rightarrow> FieldValue result" where
  "Transform_ApplyToLocalView ServerTimestampTransform previous_value local_write_time =
     Inr (FServerTimestamp local_write_time previous_value)"
| "Transform_ApplyToLocalView (ArrayTransform type elements) previous_value local_write_time =
     ArrayTransform_Apply type elements previous_value"
| "Transform_ApplyToLocalView (NumericIncrementTransform operand) previous_value local_write_time =
     Increment_ApplyToLocalView operand previous_value"

fun Transform_ApplyToRemoteDocument ::
  "TransformOperation \<Rightarrow> FieldValue option \<Rightarrow> FieldValue \<Rightarrow> FieldValue result" where
  "Transform_ApplyToRemoteDocument ServerTimestampTransform previous_value transform_result = Inr transform_result"
| "Transform_ApplyToRemoteDocument (ArrayTransform type elements) previous_value transform_result =
     ArrayTransform_Apply type elements previous_value"
| "Transform_ApplyToRemoteDocument (NumericIncrementTransform operand) previous_value transform_result =
     Inr transform_result"

fun Transform_ComputeBaseValue :: "TransformOperation \<Rightarrow> FieldValue option \<Rightarrow> FieldValue option" where
  "Transform_ComputeBaseValue ServerTimestampTransform previous_value = None"
| "Transform_ComputeBaseValue (ArrayTransform type elements) previous_value = None"
| "Transform_ComputeBaseValue (NumericIncrementTransform operand) previous_value =
     Increment_ComputeBaseValue previous_value"

fun Transform_Equals :: "TransformOperation \<Rightarrow> TransformOperation \<Rightarrow> bool" where
  "Transform_Equals ServerTimestampTransform ServerTimestampTransform = True"
| "Transform_Equals (ArrayTransform t xs) (ArrayTransform u ys) = (t = u \<and> list_all2 FieldValue_eq ys xs)"
| "Transform_Equals (NumericIncrementTransform a) (NumericIncrementTransform b) = FieldValue_eq a b"
| "Transform_Equals _ _ = False"

record FieldTransform =
  ft_path :: FieldPath
  ft_transformation :: TransformOperation

section \<open>Lemmas\<close>

lemma SafeIncrement_clamps:
  "sint (SafeIncrement x y) = max (- (2 ^ 63)) (min (2 ^ 63 - 1) (sint x + sint y))"
proof -
  have b: "- (2 ^ 63) \<le> sint x" "sint x < 2 ^ 63" "- (2 ^ 63) \<le> sint y" "sint y < 2 ^ 63"
    using sint_greater_eq[of x] sint_less[of x] sint_greater_eq[of y] sint_less[of y] by simp_all
  have m: "sint LONG_MAX = 2 ^ 63 - 1" "sint LONG_MIN = - (2 ^ 63)" by (simp_all add: LONG_MAX_def LONG_MIN_def)
  have d1: "sint (LONG_MAX - x) = 2 ^ 63 - 1 - sint x" if "0 < sint x"
    using that b by (simp add: sint_word_ariths m signed_take_bit_int_eq_self)
  have d2: "sint (LONG_MIN - x) = - (2 ^ 63) - sint x" if "sint x < 0"
    using that b by (simp add: sint_word_ariths m signed_take_bit_int_eq_self)
  have s: "sint (x + y) = sint x + sint y" if "- (2 ^ 63) \<le> sint x + sint y" "sint x + sint y < 2 ^ 63"
    using that by (simp add: sint_word_ariths signed_take_bit_int_eq_self)
  show ?thesis
  proof (cases "0 < sint x \<and> sint (LONG_MAX - x) < sint y")
    case True
    then show ?thesis using d1 by (simp add: SafeIncrement_def m)
  next
    case hi: False
    show ?thesis
    proof (cases "sint x < 0 \<and> sint y < sint (LONG_MIN - x)")
      case True
      then show ?thesis using d2 by (simp add: SafeIncrement_def m)
    next
      case lo: False
      have "- (2 ^ 63) \<le> sint x + sint y" "sint x + sint y < 2 ^ 63"
        using hi lo d1 d2 b by linarith+
      moreover have "SafeIncrement x y = x + y" using hi lo unfolding SafeIncrement_def by argo
      ultimately show ?thesis using s by simp
    qed
  qed
qed

lemma array_apply_step_total:
  "IsArrayTransform type \<Longrightarrow> \<exists>res'. array_apply_step type res element = Inr res'"
  by (auto simp: array_apply_step_def IsArrayTransform_def Let_def)

lemma ArrayTransform_Apply_total:
  "IsArrayTransform type \<Longrightarrow> \<exists>v. ArrayTransform_Apply type elements prev = Inr v"
  using rfold_total[of "\<lambda>_. True" elements "array_apply_step type" "CoercedFieldValuesArray prev"]
    array_apply_step_total by (auto simp: ArrayTransform_Apply_def)

lemma Transform_local_total:
  "transform_ok t \<Longrightarrow> \<exists>v. Transform_ApplyToLocalView t prev ts = Inr v"
proof (cases t)
  case (NumericIncrementTransform operand)
  assume "transform_ok t"
  then have n: "is_number operand" by (simp add: NumericIncrementTransform)
  have "\<exists>b. Increment_ComputeBaseValue prev = Some b \<and> is_number b"
    by (auto simp: Increment_ComputeBaseValue_def is_number_def split: option.splits)
  then obtain b where b: "Increment_ComputeBaseValue prev = Some b" "is_number b" by blast
  show ?thesis using n b
    by (cases b; cases operand)
      (auto simp: NumericIncrementTransform Increment_ApplyToLocalView_def is_number_def AsDouble_def)
qed (auto dest: ArrayTransform_Apply_total)

lemma Transform_remote_total:
  "transform_ok t \<Longrightarrow> \<exists>v. Transform_ApplyToRemoteDocument t prev r = Inr v"
  by (cases t) (auto dest: ArrayTransform_Apply_total)

subsection \<open>Array union\<close>

lemma c_find_end: "(c_find xs e = length xs) = (\<forall>x \<in> set xs. \<not> FieldValue_eq x e)"
  using takeWhile_all_conv[of "\<lambda>x. \<not> FieldValue_eq x e" xs] takeWhile_eq_take[of "\<lambda>x. \<not> FieldValue_eq x e" xs]
  by (metis c_find_def length_take min.idem take_all_iff order_refl)

lemma union_step: "array_apply_step TTArrayUnion xs e =
    Inr (if \<exists>x \<in> set xs. FieldValue_eq x e then xs else xs @ [e])"
  using c_find_end[of xs e] by (auto simp: array_apply_step_def Let_def)

lemma union_fold_extends:
  "rfold (array_apply_step TTArrayUnion) xs es = Inr ys \<Longrightarrow>
   (\<exists>zs. ys = xs @ zs \<and> set zs \<subseteq> set es) \<and> (\<forall>e \<in> set es. \<exists>y \<in> set ys. FieldValue_eq y e)"
proof (induction es arbitrary: xs)
  case (Cons e es)
  define xs' where "xs' = (if \<exists>x \<in> set xs. FieldValue_eq x e then xs else xs @ [e])"
  have r: "rfold (array_apply_step TTArrayUnion) xs' es = Inr ys"
    using Cons.prems union_step[of xs e] unfolding xs'_def by simp
  from Cons.IH[OF r] obtain zs where zs: "ys = xs' @ zs" "set zs \<subseteq> set es"
    "\<forall>e \<in> set es. \<exists>y \<in> set ys. FieldValue_eq y e" by blast
  have "\<exists>y \<in> set xs'. FieldValue_eq y e" by (auto simp: xs'_def)
  then show ?case using zs by (auto simp: xs'_def split: if_splits)
qed simp

lemma union_fold_present:
  "\<forall>e \<in> set es. \<exists>x \<in> set xs. FieldValue_eq x e \<Longrightarrow> rfold (array_apply_step TTArrayUnion) xs es = Inr xs"
  by (induction es) (auto simp: union_step)

lemma ArrayUnion_idempotent:
  assumes "ArrayTransform_Apply TTArrayUnion elements prev = Inr v"
  shows "ArrayTransform_Apply TTArrayUnion elements (Some v) = Inr v"
proof -
  obtain ys where ys: "rfold (array_apply_step TTArrayUnion) (CoercedFieldValuesArray prev) elements = Inr ys"
    "v = FArray ys" using assms by (auto simp: ArrayTransform_Apply_def rmap_Inr_conv)
  have "\<forall>e \<in> set elements. \<exists>y \<in> set ys. FieldValue_eq y e" using union_fold_extends[OF ys(1)] by blast
  then have "rfold (array_apply_step TTArrayUnion) ys elements = Inr ys" by (rule union_fold_present)
  then show ?thesis by (simp add: ArrayTransform_Apply_def CoercedFieldValuesArray_def ys(2))
qed

lemma ArrayUnion_contents:
  assumes "ArrayTransform_Apply TTArrayUnion elements prev = Inr v"
  shows "\<exists>zs. v = FArray (CoercedFieldValuesArray prev @ zs) \<and> set zs \<subseteq> set elements \<and>
    (\<forall>e \<in> set elements. \<exists>y \<in> set (CoercedFieldValuesArray prev @ zs). FieldValue_eq y e)"
proof -
  obtain ys where ys: "rfold (array_apply_step TTArrayUnion) (CoercedFieldValuesArray prev) elements = Inr ys"
    "v = FArray ys" using assms by (auto simp: ArrayTransform_Apply_def rmap_Inr_conv)
  then show ?thesis using union_fold_extends[OF ys(1)] by auto
qed

subsection \<open>Array removal\<close>

lemma remove_step: "array_apply_step TTArrayRemove xs e =
    Inr (takeWhile (\<lambda>x. \<not> FieldValue_eq x e) xs @ tl (dropWhile (\<lambda>x. \<not> FieldValue_eq x e) xs))"
proof -
  let ?P = "\<lambda>x. \<not> FieldValue_eq x e"
  have t: "take (c_find xs e) xs = takeWhile ?P xs" by (simp add: c_find_def)
  have d: "drop (c_find xs e + 1) xs = tl (dropWhile ?P xs)"
    by (simp add: c_find_def drop_Suc drop_tl)
  show ?thesis
  proof (cases "c_find xs e = length xs")
    case True
    then have "\<forall>x \<in> set xs. ?P x" by (simp add: c_find_end)
    then have "takeWhile ?P xs = xs" "dropWhile ?P xs = []" by (simp_all add: takeWhile_all_conv)
    then show ?thesis using True by (simp only: array_apply_step_def Let_def) simp
  next
    case False
    then show ?thesis using t d by (simp add: array_apply_step_def Let_def)
  qed
qed

lemma ArrayRemove_single:
  "ArrayTransform_Apply TTArrayRemove [e] (Some (FArray xs)) =
   Inr (FArray (takeWhile (\<lambda>x. \<not> FieldValue_eq x e) xs @ tl (dropWhile (\<lambda>x. \<not> FieldValue_eq x e) xs)))"
  by (simp add: ArrayTransform_Apply_def CoercedFieldValuesArray_def remove_step)

end
