(* ===== verification/Mutations.thy ===== *)
theory Mutations
  imports Transforms
begin

text \<open>
  \<open>model/mutation.cc\<close>, \<open>set_mutation.cc\<close>, \<open>patch_mutation.cc\<close>, \<open>transform_mutation.cc\<close>,
  \<open>delete_mutation.cc\<close>, \<open>verify_mutation.cc\<close>, \<open>mutation_batch.cc\<close> and
  \<open>mutation_batch_result.cc\<close>: writes, applied to the local view of a document or to the
  document the backend acknowledged.
\<close>

datatype Mutation =
    SetMutation (mut_key: DocumentKey) ObjectValue Precondition
  | PatchMutation (mut_key: DocumentKey) ObjectValue FieldMask Precondition
  | TransformMutation (mut_key: DocumentKey) "FieldTransform list"
  | DeleteMutation (mut_key: DocumentKey) Precondition
  | VerifyMutation (mut_key: DocumentKey) Precondition

text \<open>A transform always has the precondition that the document exists.\<close>

fun mut_precondition :: "Mutation \<Rightarrow> Precondition" where
  "mut_precondition (SetMutation k v p) = p"
| "mut_precondition (PatchMutation k v m p) = p"
| "mut_precondition (TransformMutation k ts) = Precondition_Exists True"
| "mut_precondition (DeleteMutation k p) = p"
| "mut_precondition (VerifyMutation k p) = p"

record MutationResult =
  mr_version :: SnapshotVersion
  mr_transform_results :: "FieldValue list option"

definition VerifyKeyMatches :: "DocumentKey \<Rightarrow> MaybeDocument option \<Rightarrow> bool" where
  "VerifyKeyMatches key maybe_doc = (case maybe_doc of None \<Rightarrow> True | Some d \<Rightarrow> doc_key d = key)"

definition GetPostMutationVersion :: "MaybeDocument option \<Rightarrow> SnapshotVersion" where
  "GetPostMutationVersion maybe_doc =
     (case maybe_doc of Some d \<Rightarrow> (if is_document d then doc_version d else SnapshotVersion_None)
                      | None \<Rightarrow> SnapshotVersion_None)"

definition maybe_field :: "MaybeDocument option \<Rightarrow> FieldPath \<Rightarrow> FieldValue option" where
  "maybe_field maybe_doc p =
     (case maybe_doc of Some d \<Rightarrow> (if is_document d then Document_field d p else None) | None \<Rightarrow> None)"

section \<open>Patches\<close>

definition patch_step :: "ObjectValue \<Rightarrow> ObjectValue \<Rightarrow> FieldPath \<Rightarrow> ObjectValue result" where
  "patch_step value obj path =
     (if path \<noteq> [] then
        (case ObjectValue_Get value path of
           None \<Rightarrow> ObjectValue_Delete path obj
         | Some new_value \<Rightarrow> ObjectValue_Set path new_value obj)
      else Inr obj)"

definition PatchObject :: "ObjectValue \<Rightarrow> FieldMask \<Rightarrow> ObjectValue \<Rightarrow> ObjectValue result" where
  "PatchObject value fmask obj = rfold (patch_step value) obj fmask"

definition PatchDocument :: "ObjectValue \<Rightarrow> FieldMask \<Rightarrow> MaybeDocument option \<Rightarrow> ObjectValue result" where
  "PatchDocument value fmask maybe_doc =
     (case maybe_doc of
        Some (Document data _ _ _) \<Rightarrow> PatchObject value fmask data
      | _ \<Rightarrow> PatchObject value fmask [])"

section \<open>Transforms\<close>

definition LocalTransformResults ::
  "FieldTransform list \<Rightarrow> MaybeDocument option \<Rightarrow> MaybeDocument option \<Rightarrow> Timestamp \<Rightarrow> FieldValue list result" where
  "LocalTransformResults transforms maybe_doc base_doc local_write_time =
     rmapM (\<lambda>ft.
       let previous_value = maybe_field maybe_doc (ft_path ft);
           previous_value = (if previous_value = None then maybe_field base_doc (ft_path ft) else previous_value)
       in Transform_ApplyToLocalView (ft_transformation ft) previous_value local_write_time) transforms"

definition ServerTransformResults ::
  "FieldTransform list \<Rightarrow> MaybeDocument option \<Rightarrow> FieldValue list \<Rightarrow> FieldValue list result" where
  "ServerTransformResults transforms base_doc server_transform_results =
     hard_assert (length transforms = length server_transform_results)
       (rmapM (\<lambda>(ft, server_result).
          Transform_ApplyToRemoteDocument (ft_transformation ft) (maybe_field base_doc (ft_path ft)) server_result)
        (zip transforms server_transform_results))"

definition TransformObject ::
  "FieldTransform list \<Rightarrow> ObjectValue \<Rightarrow> FieldValue list \<Rightarrow> ObjectValue result" where
  "TransformObject transforms obj_value transform_results =
     hard_assert (length transform_results = length transforms)
       (rfold (\<lambda>obj (ft, v). ObjectValue_Set (ft_path ft) v obj) obj_value
          (zip transforms transform_results))"

text \<open>The base value holds the coerced previous values of the non-idempotent transforms.\<close>

definition ExtractBaseValue_step ::
  "MaybeDocument option \<Rightarrow> ObjectValue option \<Rightarrow> FieldTransform \<Rightarrow> ObjectValue option result" where
  "ExtractBaseValue_step maybe_doc base_object ft =
     (case Transform_ComputeBaseValue (ft_transformation ft) (maybe_field maybe_doc (ft_path ft)) of
        None \<Rightarrow> Inr base_object
      | Some coerced_value \<Rightarrow>
          rmap Some (ObjectValue_Set (ft_path ft) coerced_value
            (case base_object of None \<Rightarrow> [] | Some b \<Rightarrow> b)))"

fun ExtractBaseValue :: "Mutation \<Rightarrow> MaybeDocument option \<Rightarrow> ObjectValue option result" where
  "ExtractBaseValue (TransformMutation k transforms) maybe_doc =
     rfold (ExtractBaseValue_step maybe_doc) None transforms"
| "ExtractBaseValue _ maybe_doc = Inr None"

section \<open>Applying a mutation\<close>

fun Mutation_ApplyToRemoteDocument ::
  "Mutation \<Rightarrow> MaybeDocument option \<Rightarrow> MutationResult \<Rightarrow> MaybeDocument result" where
  "Mutation_ApplyToRemoteDocument (SetMutation key v pre) maybe_doc mr =
     hard_assert (VerifyKeyMatches key maybe_doc)
       (hard_assert (mr_transform_results mr = None)
          (Inr (Document v key (mr_version mr) kCommittedMutations)))"
| "Mutation_ApplyToRemoteDocument (PatchMutation key v fmask pre) maybe_doc mr =
     hard_assert (VerifyKeyMatches key maybe_doc)
       (hard_assert (mr_transform_results mr = None)
          (if \<not> IsValidFor pre maybe_doc then Inr (UnknownDocument key (mr_version mr))
           else rmap (\<lambda>new_data. Document new_data key (mr_version mr) kCommittedMutations)
                  (PatchDocument v fmask maybe_doc)))"
| "Mutation_ApplyToRemoteDocument (TransformMutation key transforms) maybe_doc mr =
     hard_assert (VerifyKeyMatches key maybe_doc)
       (case mr_transform_results mr of
          None \<Rightarrow> Inl HardAssert
        | Some server_results \<Rightarrow>
            (if \<not> IsValidFor (Precondition_Exists True) maybe_doc then Inr (UnknownDocument key (mr_version mr))
             else (case maybe_doc of
                 Some (Document data _ _ _) \<Rightarrow>
                   rbind (ServerTransformResults transforms maybe_doc server_results) (\<lambda>transform_results.
                     rmap (\<lambda>new_data. Document new_data key (mr_version mr) kCommittedMutations)
                       (TransformObject transforms data transform_results))
               | _ \<Rightarrow> Inl HardAssert)))"
| "Mutation_ApplyToRemoteDocument (DeleteMutation key pre) maybe_doc mr =
     hard_assert (VerifyKeyMatches key maybe_doc)
       (hard_assert (mr_transform_results mr = None)
          (Inr (NoDocument key (mr_version mr) True)))"
| "Mutation_ApplyToRemoteDocument (VerifyMutation key pre) maybe_doc mr = Inl HardFail"

fun Mutation_ApplyToLocalView ::
  "Mutation \<Rightarrow> MaybeDocument option \<Rightarrow> MaybeDocument option \<Rightarrow> Timestamp \<Rightarrow> MaybeDocument option result" where
  "Mutation_ApplyToLocalView (SetMutation key v pre) maybe_doc base_doc local_write_time =
     hard_assert (VerifyKeyMatches key maybe_doc)
       (if \<not> IsValidFor pre maybe_doc then Inr maybe_doc
        else Inr (Some (Document v key (GetPostMutationVersion maybe_doc) kLocalMutations)))"
| "Mutation_ApplyToLocalView (PatchMutation key v fmask pre) maybe_doc base_doc local_write_time =
     hard_assert (VerifyKeyMatches key maybe_doc)
       (if \<not> IsValidFor pre maybe_doc then Inr maybe_doc
        else rmap (\<lambda>new_data. Some (Document new_data key (GetPostMutationVersion maybe_doc) kLocalMutations))
               (PatchDocument v fmask maybe_doc))"
| "Mutation_ApplyToLocalView (TransformMutation key transforms) maybe_doc base_doc local_write_time =
     hard_assert (VerifyKeyMatches key maybe_doc)
       (if \<not> IsValidFor (Precondition_Exists True) maybe_doc then Inr maybe_doc
        else (case maybe_doc of
            Some (Document data dkey dversion _) \<Rightarrow>
              rbind (LocalTransformResults transforms maybe_doc base_doc local_write_time) (\<lambda>transform_results.
                rmap (\<lambda>new_data. Some (Document new_data dkey dversion kLocalMutations))
                  (TransformObject transforms data transform_results))
          | _ \<Rightarrow> Inl HardAssert))"
| "Mutation_ApplyToLocalView (DeleteMutation key pre) maybe_doc base_doc local_write_time =
     hard_assert (VerifyKeyMatches key maybe_doc)
       (if \<not> IsValidFor pre maybe_doc then Inr maybe_doc
        else Inr (Some (NoDocument key SnapshotVersion_None False)))"
| "Mutation_ApplyToLocalView (VerifyMutation key pre) maybe_doc base_doc local_write_time = Inl HardFail"

section \<open>Batches\<close>

type_synonym BatchId = int32

record MutationBatch =
  mb_batch_id :: BatchId
  mb_local_write_time :: Timestamp
  mb_base_mutations :: "Mutation list"
  mb_mutations :: "Mutation list"

definition make_MutationBatch ::
  "BatchId \<Rightarrow> Timestamp \<Rightarrow> Mutation list \<Rightarrow> Mutation list \<Rightarrow> MutationBatch result" where
  "make_MutationBatch b t base ms = hard_assert (ms \<noteq> [])
     (Inr \<lparr>mb_batch_id = b, mb_local_write_time = t, mb_base_mutations = base, mb_mutations = ms\<rparr>)"

record MutationBatchResult =
  mbr_batch :: MutationBatch
  mbr_commit_version :: SnapshotVersion
  mbr_mutation_results :: "MutationResult list"
  mbr_stream_token :: string
  mbr_doc_versions :: "(DocumentKey \<times> SnapshotVersion) list"

text \<open>
  The version of a mutation result is never absent, so the substitution of the commit version
  in the constructor has no effect.
\<close>

definition doc_versions_step ::
  "SnapshotVersion \<Rightarrow> (DocumentKey \<times> SnapshotVersion) list \<Rightarrow> Mutation \<times> MutationResult \<Rightarrow>
   (DocumentKey \<times> SnapshotVersion) list" where
  "doc_versions_step commit_version versions m =
     (let version = Some (mr_version (snd m));
          version = (case version of None \<Rightarrow> commit_version | Some v \<Rightarrow> v)
      in dm_insert (mut_key (fst m)) version versions)"

definition make_MutationBatchResult ::
  "MutationBatch \<Rightarrow> SnapshotVersion \<Rightarrow> MutationResult list \<Rightarrow> string \<Rightarrow> MutationBatchResult result" where
  "make_MutationBatchResult batch commit_version results token =
     hard_assert (length (mb_mutations batch) = length results)
       (Inr \<lparr>mbr_batch = batch, mbr_commit_version = commit_version, mbr_mutation_results = results,
             mbr_stream_token = token,
             mbr_doc_versions = foldl (doc_versions_step commit_version) [] (zip (mb_mutations batch) results)\<rparr>)"

definition Batch_ApplyToRemoteDocument ::
  "MutationBatch \<Rightarrow> MaybeDocument option \<Rightarrow> DocumentKey \<Rightarrow> MutationBatchResult \<Rightarrow> MaybeDocument option result" where
  "Batch_ApplyToRemoteDocument batch maybe_doc document_key batch_result =
     hard_assert (VerifyKeyMatches document_key maybe_doc)
       (hard_assert (length (mbr_mutation_results batch_result) = length (mb_mutations batch))
          (rfold (\<lambda>d (m, r). if mut_key m = document_key then rmap Some (Mutation_ApplyToRemoteDocument m d r)
                             else Inr d)
             maybe_doc (zip (mb_mutations batch) (mbr_mutation_results batch_result))))"

definition local_step ::
  "DocumentKey \<Rightarrow> (MaybeDocument option \<Rightarrow> MaybeDocument option) \<Rightarrow> Timestamp \<Rightarrow>
   MaybeDocument option \<Rightarrow> Mutation \<Rightarrow> MaybeDocument option result" where
  "local_step document_key base_of t d m =
     (if mut_key m = document_key then Mutation_ApplyToLocalView m d (base_of d) t else Inr d)"

definition Batch_ApplyToLocalDocument ::
  "MutationBatch \<Rightarrow> MaybeDocument option \<Rightarrow> DocumentKey \<Rightarrow> MaybeDocument option result" where
  "Batch_ApplyToLocalDocument batch maybe_doc document_key =
     hard_assert (VerifyKeyMatches document_key maybe_doc)
       (rbind (rfold (local_step document_key (\<lambda>d. d) (mb_local_write_time batch)) maybe_doc (mb_base_mutations batch))
          (\<lambda>base_doc. rfold (local_step document_key (\<lambda>_. base_doc) (mb_local_write_time batch)) base_doc
                         (mb_mutations batch)))"

definition local_set_step :: "MutationBatch \<Rightarrow> MaybeDocumentMap \<Rightarrow> Mutation \<Rightarrow> MaybeDocumentMap result" where
  "local_set_step batch docs m =
     (let key = mut_key m; previous_document = dm_get key docs
      in rmap (\<lambda>mutated. case mutated of Some d \<Rightarrow> dm_insert key d docs | None \<Rightarrow> docs)
           (Batch_ApplyToLocalDocument batch previous_document key))"

definition Batch_ApplyToLocalDocumentSet :: "MutationBatch \<Rightarrow> MaybeDocumentMap \<Rightarrow> MaybeDocumentMap result" where
  "Batch_ApplyToLocalDocumentSet batch document_set =
     rfold (local_set_step batch) document_set (mb_mutations batch)"

definition Batch_keys :: "MutationBatch \<Rightarrow> DocumentKeySet" where
  "Batch_keys batch = foldl (\<lambda>s m. dks_insert (mut_key m) s) [] (mb_mutations batch)"

section \<open>Patching an object\<close>

lemma patch_step_total: "\<exists>obj'. patch_step value obj p = Inr obj'"
  using ObjectValue_Set_total[of p _ obj] ObjectValue_Delete_total[of p obj]
  by (auto simp: patch_step_def split: option.split)

lemma PatchObject_total: "\<exists>obj'. PatchObject value fmask obj = Inr obj'"
  using rfold_total[of "\<lambda>_. True" fmask "patch_step value" obj] patch_step_total
  by (auto simp: PatchObject_def)

lemma patch_step_ok: "patch_step value obj p = Inr obj' \<Longrightarrow> obj_ok value \<Longrightarrow> obj_ok obj \<Longrightarrow> obj_ok obj'"
  using ObjectValue_Set_ok[of p _ obj obj'] ObjectValue_Delete_ok[of p obj obj'] get_from_ok[of "FObject value" p]
  by (auto simp: patch_step_def ObjectValue_Get_def simp del: fv_ok.simps split: if_splits option.splits)

lemma PatchObject_ok: "PatchObject value fmask obj = Inr obj' \<Longrightarrow> obj_ok value \<Longrightarrow> obj_ok obj \<Longrightarrow> obj_ok obj'"
  unfolding PatchObject_def by (erule rfold_keeps) (use patch_step_ok in blast)+

lemma get_from_append:
  "get_from v (p @ q) = (case get_from v p of None \<Rightarrow> None | Some w \<Rightarrow> get_from w q)"
  by (induction v p rule: get_from.induct) (auto split: FieldValue.split option.split)

lemma patch_step_get:
  assumes "patch_step value obj p = Inr obj'" "obj_ok obj" "p \<noteq> []"
  shows "get_from (FObject obj') (p @ q) = get_from (FObject value) (p @ q)"
proof (cases "ObjectValue_Get value p")
  case None
  then have "get_from (FObject value) (p @ q) = None" by (simp add: get_from_append ObjectValue_Get_def)
  moreover have "ObjectValue_Delete p obj = Inr obj'" using assms None by (simp add: patch_step_def)
  ultimately show ?thesis using ObjectValue_Delete_below assms(2) by metis
next
  case (Some w)
  then have "get_from (FObject value) (p @ q) = get_from w q" by (simp add: get_from_append ObjectValue_Get_def)
  moreover have "ObjectValue_Set p w obj = Inr obj'" using assms Some by (simp add: patch_step_def)
  ultimately show ?thesis by (simp only: ObjectValue_Set_below)
qed

lemma patch_step_disjoint:
  assumes "patch_step value obj p = Inr obj'" "obj_ok obj" "\<not> IsPrefixOf p q" "\<not> IsPrefixOf q p"
  shows "get_from (FObject obj') q = get_from (FObject obj) q"
  using assms ObjectValue_Set_disjoint ObjectValue_Delete_disjoint
  by (auto simp: patch_step_def simp del: fv_ok.simps split: if_splits option.splits)

definition paths_disjoint :: "FieldPath \<Rightarrow> FieldPath \<Rightarrow> bool" where
  "paths_disjoint p q = (\<not> IsPrefixOf p q \<and> \<not> IsPrefixOf q p)"

lemma PatchObject_outside:
  assumes "PatchObject value fmask obj = Inr obj'" "obj_ok value" "obj_ok obj" "\<forall>p \<in> set fmask. paths_disjoint p q"
  shows "get_from (FObject obj') q = get_from (FObject obj) q"
proof -
  have "rfold (patch_step value) obj fmask = Inr obj'" using assms(1) by (simp add: PatchObject_def)
  then have "obj_ok obj' \<and> get_from (FObject obj') q = get_from (FObject obj) q"
  proof (rule rfold_keeps)
    fix s x s'
    assume s: "obj_ok s \<and> get_from (FObject s) q = get_from (FObject obj) q" "x \<in> set fmask"
      "patch_step value s x = Inr s'"
    then show "obj_ok s' \<and> get_from (FObject s') q = get_from (FObject obj) q"
      using patch_step_disjoint[OF s(3), of q] patch_step_ok[OF s(3) assms(2)] assms(4)
      by (simp add: paths_disjoint_def del: fv_ok.simps)
  qed (use assms(3) in blast)
  then show ?thesis by blast
qed

lemma disjoint_extend: "paths_disjoint p q \<Longrightarrow> paths_disjoint p (q @ r)"
  by (auto simp: paths_disjoint_def IsPrefixOf_iff append_eq_append_conv2)

lemma PatchObject_masked:
  assumes "PatchObject value fmask obj = Inr obj'" "obj_ok value" "obj_ok obj"
    "sorted_wrt paths_disjoint fmask" "p \<in> set fmask" "p \<noteq> []"
  shows "get_from (FObject obj') (p @ q) = get_from (FObject value) (p @ q)"
proof -
  from assms(5) obtain ps bs where ab: "fmask = ps @ p # bs" by (meson split_list)
  have "rfold (patch_step value) obj (ps @ p # bs) = Inr obj'" using assms(1) by (simp add: PatchObject_def ab)
  then obtain o1 o2 where o: "rfold (patch_step value) obj ps = Inr o1" "patch_step value o1 p = Inr o2"
    "rfold (patch_step value) o2 bs = Inr obj'"
    by (auto simp: rfold_append split: sum.splits)
  have ok1: "obj_ok o1" using PatchObject_ok[of "value" ps obj o1] o(1) assms(2,3) by (simp add: PatchObject_def del: fv_ok.simps)
  have ok2: "obj_ok o2" using patch_step_ok[OF o(2) assms(2) ok1] .
  have "\<forall>b \<in> set bs. paths_disjoint b (p @ q)"
  proof
    fix b assume "b \<in> set bs"
    then have "paths_disjoint p b" using assms(4) by (simp add: ab sorted_wrt_append)
    then have "paths_disjoint b p" by (auto simp: paths_disjoint_def)
    then show "paths_disjoint b (p @ q)" by (rule disjoint_extend)
  qed
  then have "get_from (FObject obj') (p @ q) = get_from (FObject o2) (p @ q)"
    using PatchObject_outside[of "value" bs o2 obj' "p @ q"] o(3) assms(2) ok2 by (simp add: PatchObject_def del: fv_ok.simps)
  also have "\<dots> = get_from (FObject value) (p @ q)" by (rule patch_step_get[OF o(2) ok1 assms(6)])
  finally show ?thesis .
qed

section \<open>Applying mutations\<close>

fun mutation_ok :: "Mutation \<Rightarrow> bool" where
  "mutation_ok (TransformMutation k ts) = (\<forall>t \<in> set ts. ft_path t \<noteq> [] \<and> transform_ok (ft_transformation t))"
| "mutation_ok (VerifyMutation k p) = False"
| "mutation_ok _ = True"

lemma TransformObject_total:
  assumes "length vs = length ts" "\<forall>t \<in> set ts. ft_path t \<noteq> []"
  shows "\<exists>obj'. TransformObject ts obj vs = Inr obj'"
proof -
  have "\<exists>t. rfold (\<lambda>obj (ft, v). ObjectValue_Set (ft_path ft) v obj) obj (zip ts vs) = Inr t \<and> True"
  proof (rule rfold_total)
    fix s x assume "x \<in> set (zip ts vs)"
    then have "ft_path (fst x) \<noteq> []" using assms(2) set_zip_leftD[of "fst x" "snd x" ts vs] by auto
    then show "\<exists>s'. (case x of (ft, v) \<Rightarrow> ObjectValue_Set (ft_path ft) v s) = Inr s' \<and> True"
      using ObjectValue_Set_total by (auto split: prod.split)
  qed simp
  then show ?thesis using assms(1) by (simp add: TransformObject_def)
qed

lemma LocalTransformResults_total:
  assumes "\<forall>t \<in> set ts. transform_ok (ft_transformation t)"
  shows "\<exists>vs. LocalTransformResults ts d b w = Inr vs \<and> length vs = length ts"
proof -
  have "\<exists>vs. LocalTransformResults ts d b w = Inr vs"
    unfolding LocalTransformResults_def
    by (rule rmapM_total) (use assms Transform_local_total in \<open>simp add: Let_def\<close>)
  then show ?thesis by (auto simp: LocalTransformResults_def dest: rmapM_length)
qed

text \<open>A well-formed mutation applies to every document of its key, and keeps the key.\<close>

lemma Mutation_local_total:
  assumes "mutation_ok m" "VerifyKeyMatches (mut_key m) d"
  shows "\<exists>d'. Mutation_ApplyToLocalView m d b w = Inr d' \<and> VerifyKeyMatches (mut_key m) d'"
proof (cases m)
  case (PatchMutation k v fmask pre)
  have "\<exists>nd. PatchDocument v fmask d = Inr nd"
    by (auto simp: PatchDocument_def PatchObject_total split: option.split MaybeDocument.split)
  then show ?thesis using assms by (auto simp: PatchMutation VerifyKeyMatches_def)
next
  case (TransformMutation k ts)
  show ?thesis
  proof (cases "IsValidFor (Precondition_Exists True) d")
    case True
    then obtain data dk dv st where d: "d = Some (Document data dk dv st)"
      by (cases d) (auto simp: is_document_def split: MaybeDocument.splits)
    obtain vs where vs: "LocalTransformResults ts d b w = Inr vs" "length vs = length ts"
      using LocalTransformResults_total[of ts d b w] assms(1) by (auto simp: TransformMutation)
    obtain nd where "TransformObject ts data vs = Inr nd"
      using TransformObject_total[OF vs(2)] assms(1) by (auto simp: TransformMutation)
    then show ?thesis using assms(2) vs(1) True by (auto simp: TransformMutation d VerifyKeyMatches_def)
  next
    case False
    then show ?thesis using assms(2) by (simp add: TransformMutation)
  qed
qed (use assms in \<open>auto simp: VerifyKeyMatches_def\<close>)

lemma Mutation_local_invalid:
  assumes "\<not> IsValidFor (mut_precondition m) d" "VerifyKeyMatches (mut_key m) d" "mutation_ok m"
  shows "Mutation_ApplyToLocalView m d b w = Inr d"
  using assms by (cases m) simp_all

lemma Mutation_remote_key:
  "Mutation_ApplyToRemoteDocument m d r = Inr d' \<Longrightarrow>
   doc_key d' = mut_key m \<and> doc_version d' = mr_version r \<and> has_pending_writes d'"
  by (cases m) (auto simp: rmap_Inr_conv rbind_Inr_conv split: if_splits option.splits MaybeDocument.splits)

lemma local_step_total:
  assumes "\<forall>m \<in> set ms. mutation_ok m" "VerifyKeyMatches k d"
  shows "\<exists>d'. rfold (local_step k base w) d ms = Inr d' \<and> VerifyKeyMatches k d'"
proof (rule rfold_total)
  fix s m assume "VerifyKeyMatches k s" "m \<in> set ms"
  then show "\<exists>s'. local_step k base w s m = Inr s' \<and> VerifyKeyMatches k s'"
    using assms(1) Mutation_local_total[of m s "base s" w] by (auto simp: local_step_def)
qed (rule assms(2))

definition batch_ok :: "MutationBatch \<Rightarrow> bool" where
  "batch_ok batch = (\<forall>m \<in> set (mb_base_mutations batch) \<union> set (mb_mutations batch). mutation_ok m)"

lemma Batch_local_total:
  assumes "batch_ok batch" "VerifyKeyMatches k d"
  shows "\<exists>d'. Batch_ApplyToLocalDocument batch d k = Inr d' \<and> VerifyKeyMatches k d'"
proof -
  obtain b where b: "rfold (local_step k (\<lambda>d. d) (mb_local_write_time batch)) d (mb_base_mutations batch) = Inr b"
    "VerifyKeyMatches k b"
    using local_step_total[of "mb_base_mutations batch" k d "\<lambda>d. d" "mb_local_write_time batch"] assms
    by (auto simp: batch_ok_def)
  moreover have "\<forall>m \<in> set (mb_mutations batch). mutation_ok m" using assms(1) by (simp add: batch_ok_def)
  ultimately show ?thesis
    using local_step_total[of "mb_mutations batch" k b "\<lambda>_. b" "mb_local_write_time batch"] assms(2)
    by (auto simp: Batch_ApplyToLocalDocument_def)
qed

lemma rfold_skip: "\<forall>x \<in> set xs. f s x = Inr s \<Longrightarrow> rfold f s xs = Inr s"
  by (induction xs) auto

lemma set_Batch_keys: "set (Batch_keys batch) = mut_key ` set (mb_mutations batch)"
proof -
  have "set (foldl (\<lambda>s m. dks_insert (mut_key m) s) s ms) = set s \<union> mut_key ` set ms" for s ms
    by (induction ms arbitrary: s) (auto simp: dks_insert_def)
  then show ?thesis by (simp add: Batch_keys_def)
qed

lemma Batch_local_other_key:
  assumes "VerifyKeyMatches k d" "k \<notin> mut_key ` set (mb_base_mutations batch)" "k \<notin> set (Batch_keys batch)"
  shows "Batch_ApplyToLocalDocument batch d k = Inr d"
proof -
  have "rfold (local_step k base w) d ms = Inr d" if "k \<notin> mut_key ` set ms" for base w ms
    by (rule rfold_skip) (use that in \<open>auto simp: local_step_def\<close>)
  then show ?thesis using assms by (simp add: Batch_ApplyToLocalDocument_def set_Batch_keys)
qed

text \<open>The documents of the other keys are untouched by the application to a set.\<close>

lemma local_set_step_get:
  "local_set_step batch docs m = Inr docs' \<Longrightarrow> k \<noteq> mut_key m \<Longrightarrow> dm_get k docs' = dm_get k docs"
  by (auto simp: local_set_step_def Let_def rmap_Inr_conv split: option.splits)

lemma local_set_fold_get:
  assumes "rfold (local_set_step batch) docs ms = Inr docs'" "k \<notin> mut_key ` set ms"
  shows "dm_get k docs' = dm_get k docs"
  using assms(1)
proof (rule rfold_keeps)
  fix s x s' assume "dm_get k s = dm_get k docs" "x \<in> set ms" "local_set_step batch s x = Inr s'"
  then show "dm_get k s' = dm_get k docs" using assms(2) local_set_step_get[of batch s x s' k] by auto
qed simp

lemma Batch_local_set_other:
  "Batch_ApplyToLocalDocumentSet batch docs = Inr docs' \<Longrightarrow> k \<notin> set (Batch_keys batch) \<Longrightarrow>
   dm_get k docs' = dm_get k docs"
  unfolding Batch_ApplyToLocalDocumentSet_def set_Batch_keys by (rule local_set_fold_get)

text \<open>With one mutation per document, the set application is the pointwise application.\<close>

lemma Batch_local_set_pointwise_aux:
  assumes "distinct (map mut_key ms)" "rfold (local_set_step batch) docs ms = Inr docs'"
    "m \<in> set ms"
  shows "\<exists>d'. Batch_ApplyToLocalDocument batch (dm_get (mut_key m) docs) (mut_key m) = Inr d' \<and>
    dm_get (mut_key m) docs' = (case d' of None \<Rightarrow> dm_get (mut_key m) docs | Some d \<Rightarrow> Some d)"
  using assms
proof (induction ms arbitrary: docs)
  case (Cons n ms)
  obtain docs1 where s: "local_set_step batch docs n = Inr docs1" "rfold (local_set_step batch) docs1 ms = Inr docs'"
    using Cons.prems(2) by (auto split: sum.splits)
  show ?case
  proof (cases "m = n")
    case True
    then have "dm_get (mut_key m) docs' = dm_get (mut_key m) docs1"
      using local_set_fold_get[OF s(2), of "mut_key m"] Cons.prems(1) by simp
    moreover obtain x where x: "Batch_ApplyToLocalDocument batch (dm_get (mut_key m) docs) (mut_key m) = Inr x"
      "docs1 = (case x of Some d \<Rightarrow> dm_insert (mut_key m) d docs | None \<Rightarrow> docs)"
      using s(1) True by (auto simp: local_set_step_def Let_def rmap_Inr_conv)
    ultimately show ?thesis by (cases x) simp_all
  next
    case False
    then have "m \<in> set ms" using Cons.prems(3) by simp
    moreover from imageI[OF this, of mut_key] have "mut_key m \<noteq> mut_key n" using Cons.prems(1) by auto
    note ne = this
    ultimately show ?thesis
      using Cons.IH[OF _ s(2)] Cons.prems(1) unfolding local_set_step_get[OF s(1) ne] by simp
  qed
qed simp

lemma doc_versions_ignore_commit: "doc_versions_step c = doc_versions_step c'"
  by (intro ext) (simp add: doc_versions_step_def)

end
