(* ===== verification/Streams.thy ===== *)
theory Streams
  imports RemoteEvents Backoff Mutations
begin

text \<open>
  \<open>remote/stream.cc\<close>, \<open>watch_stream.cc\<close> and \<open>write_stream.cc\<close>: the state machine of a stream to the
  backend.  What it asks of gRPC and of the credentials provider is output; a request is the value that
  the serializer encodes.  A stream does not call its listener in the model: an operation that closes it
  returns the status the listener is to be notified with.  The random jitter and the time since the last
  attempt, which the backoff reads, are an infinite supply in the state.
\<close>

section \<open>State\<close>

datatype StreamState = StreamInitial | StreamStarting | StreamOpen | StreamError | StreamBackoff

datatype stream_request =
    WatchRequest TargetData
  | UnwatchRequest TargetId
  | HandshakeRequest
  | MutationsRequest "Mutation list" ByteString
  | EmptyMutationsRequest ByteString

datatype grpc_call =
    GrpcStart
  | GrpcWrite stream_request
  | GrpcFinishImmediately
  | GrpcWriteAndFinish stream_request
  | InvalidateToken

text \<open>
  The closures given to the credentials provider are kept as the close counts they have captured; a timer
  is its flag.
\<close>

record Stream =
  st_state :: StreamState
  st_backoff :: ExponentialBackoff
  st_grpc_stream :: bool
  st_idleness_timer :: bool
  st_close_count :: nat
  st_token_requests :: "nat list"
  st_output :: "grpc_call list"
  st_random :: "nat \<Rightarrow> int \<times> int"
  st_draws :: nat

record WriteStream = Stream +
  ws_last_stream_token :: ByteString
  ws_handshake_complete :: bool

definition make_Stream :: "(nat \<Rightarrow> int \<times> int) \<Rightarrow> Stream result" where
  "make_Stream random = rmap (\<lambda>backoff.
     \<lparr>st_state = StreamInitial, st_backoff = backoff, st_grpc_stream = False, st_idleness_timer = False,
      st_close_count = 0, st_token_requests = [], st_output = [], st_random = random, st_draws = 0\<rparr>)
     (make_ExponentialBackoff kDefaultBackoffInitialDelay kDefaultBackoffMaxDelay)"

definition make_WriteStream :: "(nat \<Rightarrow> int \<times> int) \<Rightarrow> WriteStream result" where
  "make_WriteStream random = rmap (\<lambda>st.
     Stream.extend st \<lparr>ws_last_stream_token = [], ws_handshake_complete = False\<rparr>) (make_Stream random)"

definition grpc :: "grpc_call \<Rightarrow> 'a Stream_scheme \<Rightarrow> 'a Stream_scheme" where
  "grpc call st = st\<lparr>st_output := st_output st @ [call]\<rparr>"

definition IsOpen :: "'a Stream_scheme \<Rightarrow> bool" where
  "IsOpen st = (st_state st = StreamOpen)"

definition IsStarted :: "'a Stream_scheme \<Rightarrow> bool" where
  "IsStarted st = (st_state st = StreamStarting \<or> st_state st = StreamBackoff \<or> IsOpen st)"

section \<open>Starting\<close>

definition RequestCredentials :: "'a Stream_scheme \<Rightarrow> 'a Stream_scheme" where
  "RequestCredentials st = st\<lparr>st_token_requests := st_token_requests st @ [st_close_count st]\<rparr>"

definition BackoffAndTryRestarting :: "'a Stream_scheme \<Rightarrow> 'a Stream_scheme result" where
  "BackoffAndTryRestarting st = hard_assert (st_state st = StreamError)
     (let (jitter, elapsed) = st_random st (st_draws st);
          st = st\<lparr>st_state := StreamBackoff\<rparr>
      in Inr (st\<lparr>st_backoff := BackoffAndRun jitter elapsed (st_backoff st), st_draws := Suc (st_draws st)\<rparr>))"

definition stream_Start :: "'a Stream_scheme \<Rightarrow> 'a Stream_scheme result" where
  "stream_Start st =
     (if st_state st = StreamError then BackoffAndTryRestarting st
      else hard_assert (st_state st = StreamInitial)
             (let st = st\<lparr>st_state := StreamStarting\<rparr> in Inr (RequestCredentials st)))"

text \<open>The closure of \<open>BackoffAndTryRestarting\<close>, when its timer fires.\<close>

definition backoff_elapsed :: "'a Stream_scheme \<Rightarrow> 'a Stream_scheme result" where
  "backoff_elapsed st =
     (let st = st\<lparr>st_backoff := (st_backoff st)\<lparr>eb_pending := None\<rparr>\<rparr>
      in hard_assert (st_state st = StreamBackoff)
           (let st = st\<lparr>st_state := StreamInitial\<rparr>
            in rbind (stream_Start st) (\<lambda>st. hard_assert (IsStarted st) (Inr st))))"

definition InhibitBackoff :: "'a Stream_scheme \<Rightarrow> 'a Stream_scheme result" where
  "InhibitBackoff st = hard_assert (\<not> IsStarted st)
     (let st = st\<lparr>st_state := StreamInitial\<rparr> in Inr (st\<lparr>st_backoff := eb_Reset (st_backoff st)\<rparr>))"

section \<open>Idleness\<close>

definition MarkIdle :: "'a Stream_scheme \<Rightarrow> 'a Stream_scheme" where
  "MarkIdle st = (if IsOpen st \<and> \<not> st_idleness_timer st then st\<lparr>st_idleness_timer := True\<rparr> else st)"

definition CancelIdleCheck :: "'a Stream_scheme \<Rightarrow> 'a Stream_scheme" where
  "CancelIdleCheck st = st\<lparr>st_idleness_timer := False\<rparr>"

definition stream_Write :: "stream_request \<Rightarrow> 'a Stream_scheme \<Rightarrow> 'a Stream_scheme result" where
  "stream_Write request st = hard_assert (IsOpen st) (Inr (grpc (GrpcWrite request) (CancelIdleCheck st)))"

section \<open>Closing\<close>

definition HandleErrorStatus :: "Status \<Rightarrow> 'a Stream_scheme \<Rightarrow> 'a Stream_scheme" where
  "HandleErrorStatus status st =
     (if fst status = kErrorResourceExhausted then st\<lparr>st_backoff := eb_ResetToMax (st_backoff st)\<rparr>
      else if fst status = kErrorUnauthenticated then grpc InvalidateToken st
      else st)"

text \<open>
  \<open>Close\<close> up to the notification of the listener, with the \<open>TearDown\<close> of the kind of stream; the second
  component tells whether the listener is to be notified.
\<close>

definition stream_Close ::
  "('a Stream_scheme \<Rightarrow> 'a Stream_scheme) \<Rightarrow> Status \<Rightarrow> 'a Stream_scheme \<Rightarrow> ('a Stream_scheme \<times> bool) result" where
  "stream_Close TearDown status st =
     (let graceful_stop = Status_ok status
      in if graceful_stop \<and> \<not> IsStarted st then Inr (st, False)
         else hard_assert (IsStarted st)
           (let st = CancelIdleCheck st;
                st = st\<lparr>st_backoff := eb_Cancel (st_backoff st)\<rparr>;
                st = st\<lparr>st_close_count := st_close_count st + 1\<rparr>;
                st = (if graceful_stop then st\<lparr>st_backoff := eb_Reset (st_backoff st)\<rparr> else HandleErrorStatus status st);
                st = (if graceful_stop \<and> st_grpc_stream st then TearDown st else st);
                st = st\<lparr>st_grpc_stream := False\<rparr>;
                st = st\<lparr>st_state := (if graceful_stop then StreamInitial else StreamError)\<rparr>
            in Inr (st, True)))"

section \<open>Callbacks\<close>

text \<open>
  The answer of the credentials provider to the request that captured \<open>initial_close_count\<close>.  A failure
  is the status with which the stream finishes.
\<close>

definition ResumeStartWithCredentials :: "Status option \<Rightarrow> 'a Stream_scheme \<Rightarrow> ('a Stream_scheme \<times> Status option) result" where
  "ResumeStartWithCredentials token_error st = hard_assert (st_state st = StreamStarting)
     (case token_error of
        Some status \<Rightarrow> Inr (st, Some status)
      | None \<Rightarrow> Inr (grpc GrpcStart (st\<lparr>st_grpc_stream := True\<rparr>), None))"

definition token_arrived ::
  "nat \<Rightarrow> Status option \<Rightarrow> 'a Stream_scheme \<Rightarrow> ('a Stream_scheme \<times> Status option) result" where
  "token_arrived initial_close_count token_error st =
     (let st = st\<lparr>st_token_requests := remove1 initial_close_count (st_token_requests st)\<rparr>
      in if st_close_count st \<noteq> initial_close_count then Inr (st, None)
         else ResumeStartWithCredentials token_error st)"

definition OnStreamStart :: "'a Stream_scheme \<Rightarrow> 'a Stream_scheme" where
  "OnStreamStart st = st\<lparr>st_state := StreamOpen\<rparr>"

section \<open>The watch stream\<close>

definition WatchQuery :: "TargetData \<Rightarrow> Stream \<Rightarrow> Stream result" where
  "WatchQuery query st = stream_Write (WatchRequest query) st"

definition UnwatchTargetId :: "TargetId \<Rightarrow> Stream \<Rightarrow> Stream result" where
  "UnwatchTargetId target_id st = stream_Write (UnwatchRequest target_id) st"

definition watch_TearDown :: "Stream \<Rightarrow> Stream" where
  "watch_TearDown st = grpc GrpcFinishImmediately st"

section \<open>The write stream\<close>

definition set_last_stream_token :: "ByteString \<Rightarrow> WriteStream \<Rightarrow> WriteStream" where
  "set_last_stream_token token ws = ws\<lparr>ws_last_stream_token := token\<rparr>"

definition WriteHandshake :: "WriteStream \<Rightarrow> WriteStream result" where
  "WriteHandshake ws = hard_assert (IsOpen ws) (hard_assert (\<not> ws_handshake_complete ws)
     (stream_Write HandshakeRequest ws))"

definition ws_WriteMutations :: "Mutation list \<Rightarrow> WriteStream \<Rightarrow> WriteStream result" where
  "ws_WriteMutations mutations ws = hard_assert (IsOpen ws) (hard_assert (ws_handshake_complete ws)
     (stream_Write (MutationsRequest mutations (ws_last_stream_token ws)) ws))"

definition write_TearDown :: "WriteStream \<Rightarrow> WriteStream" where
  "write_TearDown ws =
     (if ws_handshake_complete ws then grpc (GrpcWriteAndFinish (EmptyMutationsRequest (ws_last_stream_token ws))) ws
      else grpc GrpcFinishImmediately ws)"

section \<open>What a stream keeps\<close>

text \<open>
  The gRPC stream is there exactly from the arrival of the token on, a timer runs only in its state, and
  the one request for a token that is not stale belongs to a stream that waits for it.
\<close>

definition stream_ok :: "'a Stream_scheme \<Rightarrow> bool" where
  "stream_ok st =
     (eb_inv (st_backoff st) \<and>
      (IsOpen st \<longrightarrow> st_grpc_stream st) \<and>
      (st_grpc_stream st \<longrightarrow> st_state st = StreamOpen \<or> st_state st = StreamStarting) \<and>
      (st_idleness_timer st \<longrightarrow> IsOpen st) \<and>
      (eb_pending (st_backoff st) \<noteq> None) = (st_state st = StreamBackoff) \<and>
      distinct (st_token_requests st) \<and> (\<forall>c \<in> set (st_token_requests st). c \<le> st_close_count st) \<and>
      (st_close_count st \<in> set (st_token_requests st)) = (st_state st = StreamStarting \<and> \<not> st_grpc_stream st))"

lemmas stream_defs = IsStarted_def IsOpen_def grpc_def Let_def CancelIdleCheck_def

lemma eb_pending_simps [simp]:
  "eb_pending (eb_Cancel b) = None" "eb_pending (eb_Reset b) = eb_pending b" "eb_pending (eb_ResetToMax b) = eb_pending b"
  "\<exists>delay. eb_pending (BackoffAndRun j d b) = Some delay"
  by (simp_all add: eb_Cancel_def eb_Reset_def eb_ResetToMax_def BackoffAndRun_def Let_def)

lemma eb_inv_simps [simp]:
  "eb_inv (b\<lparr>eb_pending := p\<rparr>) = eb_inv b" "eb_inv (eb_Cancel b) = eb_inv b"
  by (simp_all add: eb_inv_def eb_Cancel_def)

lemma make_Stream_ok: "make_Stream random = Inr st \<Longrightarrow> stream_ok st"
  by (auto simp: make_Stream_def rmap_Inr_conv stream_ok_def stream_defs eb_inv_def
      make_ExponentialBackoff_def)

lemma stream_Start_ok:
  assumes "stream_ok st" "stream_Start st = Inr st'"
  shows "stream_ok st'" "IsStarted st'" "\<not> IsOpen st'" "\<not> st_grpc_stream st'"
  using assms by (auto simp: stream_Start_def stream_ok_def stream_defs RequestCredentials_def BackoffAndTryRestarting_def
      BackoffAndRun_inv split: if_splits prod.splits)

lemma stream_Start_total: "stream_ok st \<Longrightarrow> \<not> IsStarted st \<Longrightarrow> \<exists>st'. stream_Start st = Inr st'"
  by (cases "st_state st") (auto simp: stream_Start_def BackoffAndTryRestarting_def stream_defs split: prod.splits)

text \<open>A token that arrives is never met by a stream that does not wait for it.\<close>

lemma token_arrived_total:
  "stream_ok st \<Longrightarrow> c \<in> set (st_token_requests st) \<Longrightarrow> \<exists>r. token_arrived c e st = Inr r"
  by (auto simp: token_arrived_def stream_ok_def ResumeStartWithCredentials_def Let_def split: option.splits)

text \<open>Closing a stream invalidates every request for a token, and leaves it without a timer.\<close>

definition only_asks :: "('a Stream_scheme \<Rightarrow> 'a Stream_scheme) \<Rightarrow> bool" where
  "only_asks f = (\<forall>st. \<exists>call. f st = grpc call st)"

lemma TearDown_only_asks: "only_asks watch_TearDown" "only_asks write_TearDown"
  by (auto simp: only_asks_def watch_TearDown_def write_TearDown_def)

lemma grpc_simps [simp]:
  "st_state (grpc c st) = st_state st" "st_backoff (grpc c st) = st_backoff st"
  "st_grpc_stream (grpc c st) = st_grpc_stream st" "st_idleness_timer (grpc c st) = st_idleness_timer st"
  "st_close_count (grpc c st) = st_close_count st" "st_token_requests (grpc c st) = st_token_requests st"
  "st_output (grpc c st) = st_output st @ [c]" "Stream.more (grpc c st) = Stream.more st"
  "IsOpen (grpc c st) = IsOpen st" "IsStarted (grpc c st) = IsStarted st"
  by (simp_all add: grpc_def stream_defs)

lemma stream_ok_fields:
  "stream_ok st \<Longrightarrow> st_state st' = st_state st \<Longrightarrow> st_backoff st' = st_backoff st \<Longrightarrow> st_grpc_stream st' = st_grpc_stream st \<Longrightarrow>
   st_idleness_timer st' = st_idleness_timer st \<Longrightarrow> st_close_count st' = st_close_count st \<Longrightarrow>
   st_token_requests st' = st_token_requests st \<Longrightarrow> stream_ok st'"
  by (simp add: stream_ok_def IsOpen_def)

definition closing_backoff :: "Status \<Rightarrow> ExponentialBackoff \<Rightarrow> ExponentialBackoff" where
  "closing_backoff status b =
     (if Status_ok status then eb_Reset (eb_Cancel b)
      else if fst status = kErrorResourceExhausted then eb_ResetToMax (eb_Cancel b) else eb_Cancel b)"

lemma closing_backoff_simps [simp]:
  "eb_pending (closing_backoff status b) = None" "eb_inv b \<Longrightarrow> eb_inv (closing_backoff status b)"
  by (simp_all add: closing_backoff_def eb_resets_inv)

lemma HandleErrorStatus_fields:
  "st_close_count (HandleErrorStatus status st) = st_close_count st"
  "st_token_requests (HandleErrorStatus status st) = st_token_requests st"
  "st_idleness_timer (HandleErrorStatus status st) = st_idleness_timer st"
  "st_backoff (HandleErrorStatus status st) =
     (if fst status = kErrorResourceExhausted then eb_ResetToMax (st_backoff st) else st_backoff st)"
  by (simp_all add: HandleErrorStatus_def)

lemma stream_Close_fields:
  assumes "stream_Close td status st = Inr (st', True)" "only_asks td"
  shows "IsStarted st" "st_state st' = (if Status_ok status then StreamInitial else StreamError)"
    "\<not> st_grpc_stream st'" "\<not> st_idleness_timer st'" "st_close_count st' = st_close_count st + 1"
    "st_token_requests st' = st_token_requests st" "st_backoff st' = closing_backoff status (st_backoff st)"
proof -
  have td: "st_close_count (td s) = st_close_count s" "st_token_requests (td s) = st_token_requests s"
    "st_backoff (td s) = st_backoff s" "st_idleness_timer (td s) = st_idleness_timer s" for s
  proof -
    obtain call where "td s = grpc call s" using assms(2) unfolding only_asks_def by blast
    then show "st_close_count (td s) = st_close_count s" "st_token_requests (td s) = st_token_requests s"
      "st_backoff (td s) = st_backoff s" "st_idleness_timer (td s) = st_idleness_timer s" by simp_all
  qed
  show "IsStarted st" using assms(1) by (simp add: stream_Close_def Let_def split: if_splits)
  show "st_state st' = (if Status_ok status then StreamInitial else StreamError)" "\<not> st_grpc_stream st'"
    using assms(1) by (simp_all add: stream_Close_def Let_def split: if_split_asm) auto
  show "\<not> st_idleness_timer st'"
    using assms(1) by (auto simp: stream_Close_def Let_def td HandleErrorStatus_fields CancelIdleCheck_def split: if_split_asm)
  show "st_close_count st' = st_close_count st + 1" "st_token_requests st' = st_token_requests st"
    "st_backoff st' = closing_backoff status (st_backoff st)"
    using assms(1) by (auto simp: stream_Close_def Let_def td HandleErrorStatus_fields CancelIdleCheck_def
        closing_backoff_def split: if_split_asm)
qed

lemma stream_Close_idempotent: "stream_Close td status st = Inr (st', False) \<Longrightarrow> st' = st \<and> \<not> IsStarted st"
  by (auto simp: stream_Close_def Let_def split: if_splits)

lemma stream_Close_ok:
  assumes "stream_Close td status st = Inr (st', told)" "stream_ok st" "only_asks td"
  shows "stream_ok st'" "\<not> IsStarted st'" "told = IsStarted st"
proof -
  have "stream_ok st' \<and> \<not> IsStarted st' \<and> told = IsStarted st"
  proof (cases told)
    case True
    then have "stream_Close td status st = Inr (st', True)" using assms(1) by simp
    note f = stream_Close_fields[OF this assms(3)]
    have fresh: "Suc (st_close_count st) \<notin> set (st_token_requests st)"
      "\<forall>c \<in> set (st_token_requests st). c \<le> Suc (st_close_count st)" using assms(2) by (auto simp: stream_ok_def)
    have "stream_ok st'" "\<not> IsStarted st'" using assms(2) f fresh by (simp_all add: stream_ok_def IsOpen_def IsStarted_def)
    then show ?thesis using f(1) True by simp
  next
    case False
    then have "stream_Close td status st = Inr (st', False)" using assms(1) by simp
    then show ?thesis using stream_Close_idempotent[of td status st st'] assms(2) False by simp
  qed
  then show "stream_ok st'" "\<not> IsStarted st'" "told = IsStarted st" by auto
qed

lemma stream_Close_total:
  "Status_ok status \<or> IsStarted st \<Longrightarrow> \<exists>st' told. stream_Close td status st = Inr (st', told)"
  by (auto simp: stream_Close_def Let_def)

lemma stream_Close_graceful:
  "stream_Close td status st = Inr (st', told) \<Longrightarrow> Status_ok status \<Longrightarrow> told \<Longrightarrow> st_state st' = StreamInitial"
  by (auto simp: stream_Close_def Let_def split: if_splits)

lemma stream_Write_ok:
  assumes "stream_Write request st = Inr st'" "stream_ok st"
  shows "stream_ok st'" "IsOpen st'" "\<not> st_idleness_timer st'" "st_output st' = st_output st @ [GrpcWrite request]"
    "Stream.more st' = Stream.more st"
  using assms by (auto simp: stream_Write_def stream_ok_def stream_defs)

lemma token_arrived_ok:
  assumes "token_arrived c e st = Inr (st', status)" "stream_ok st" "c \<in> set (st_token_requests st)"
  shows "status = None \<Longrightarrow> stream_ok st'" "st_state st' = st_state st"
    "status \<noteq> None \<Longrightarrow> st_state st = StreamStarting \<and> e = status"
proof -
  have r: "c \<notin> set (remove1 c (st_token_requests st))" "set (remove1 c (st_token_requests st)) = set (st_token_requests st) - {c}"
    using assms(2) by (auto simp: stream_ok_def)
  show "stream_ok st'" if "status = None"
    using assms that r by (auto simp: token_arrived_def ResumeStartWithCredentials_def stream_ok_def stream_defs
        split: if_splits option.splits)
  show "st_state st' = st_state st" "status \<noteq> None \<Longrightarrow> st_state st = StreamStarting \<and> e = status"
    using assms by (auto simp: token_arrived_def ResumeStartWithCredentials_def Let_def grpc_def split: if_splits option.splits)
qed

section \<open>The state machine\<close>

text \<open>
  The calls of the owner of a stream and of the closures it has handed out.  The owner starts only a
  stream that is not started and writes only to an open one; a timer fires while it is pending, the
  provider answers a request once, and a gRPC stream reports only while it is there, opening once.
\<close>

inductive stream_step :: "('a Stream_scheme \<Rightarrow> 'a Stream_scheme) \<Rightarrow> 'a Stream_scheme \<Rightarrow> 'a Stream_scheme \<Rightarrow> bool"
  for TearDown where
  step_start: "\<not> IsStarted st \<Longrightarrow> stream_Start st = Inr st' \<Longrightarrow> stream_step TearDown st st'"
| step_token: "c \<in> set (st_token_requests st) \<Longrightarrow> token_arrived c token_error st = Inr (st', None) \<Longrightarrow>
    stream_step TearDown st st'"
| step_no_token: "c \<in> set (st_token_requests st) \<Longrightarrow> \<not> Status_ok status \<Longrightarrow>
    token_arrived c (Some status) st = Inr (st1, Some status) \<Longrightarrow>
    stream_Close TearDown status st1 = Inr (st', told) \<Longrightarrow> stream_step TearDown st st'"
| step_opened: "st_grpc_stream st \<Longrightarrow> st_state st = StreamStarting \<Longrightarrow> stream_step TearDown st (OnStreamStart st)"
| step_backoff: "eb_pending (st_backoff st) \<noteq> None \<Longrightarrow> backoff_elapsed st = Inr st' \<Longrightarrow> stream_step TearDown st st'"
| step_inhibit: "InhibitBackoff st = Inr st' \<Longrightarrow> stream_step TearDown st st'"
| step_mark_idle: "stream_step TearDown st (MarkIdle st)"
| step_cancel_idle: "stream_step TearDown st (CancelIdleCheck st)"
| step_write: "stream_Write request st = Inr st' \<Longrightarrow> stream_step TearDown st st'"
| step_idle: "st_idleness_timer st \<Longrightarrow> stream_Close TearDown Status_OK st = Inr (st', told) \<Longrightarrow> stream_step TearDown st st'"
| step_stop: "stream_Close TearDown Status_OK st = Inr (st', told) \<Longrightarrow> stream_step TearDown st st'"
| step_finish: "st_grpc_stream st \<Longrightarrow> stream_Close TearDown status st = Inr (st', told) \<Longrightarrow> stream_step TearDown st st'"

inductive stream_reachable :: "(Stream \<Rightarrow> Stream) \<Rightarrow> Stream \<Rightarrow> bool" for TearDown where
  new_stream: "make_Stream random = Inr st \<Longrightarrow> stream_reachable TearDown st"
| stream_moves: "stream_reachable TearDown st \<Longrightarrow> stream_step TearDown st st' \<Longrightarrow> stream_reachable TearDown st'"

text \<open>The edges of the diagram in \<open>stream.h\<close>.\<close>

definition diagram_edge :: "StreamState \<Rightarrow> StreamState \<Rightarrow> bool" where
  "diagram_edge a b =
     (b = StreamInitial \<or>
      (a, b) \<in> {(StreamInitial, StreamStarting), (StreamStarting, StreamOpen), (StreamStarting, StreamError),
                (StreamOpen, StreamError), (StreamError, StreamBackoff), (StreamBackoff, StreamStarting)})"

definition follows_diagram :: "StreamState \<Rightarrow> StreamState \<Rightarrow> bool" where
  "follows_diagram a b = (a = b \<or> diagram_edge a b)"

lemma backoff_elapsed_ok:
  assumes "stream_ok st" "eb_pending (st_backoff st) \<noteq> None"
  shows "\<exists>st'. backoff_elapsed st = Inr st' \<and> stream_ok st' \<and> st_state st = StreamBackoff \<and> st_state st' = StreamStarting"
  using assms by (auto simp: backoff_elapsed_def stream_Start_def RequestCredentials_def stream_ok_def stream_defs)

lemma OnStreamStart_ok: "stream_ok st \<Longrightarrow> st_grpc_stream st \<Longrightarrow> stream_ok (OnStreamStart st)"
  by (auto simp: stream_ok_def OnStreamStart_def IsOpen_def)

lemma InhibitBackoff_ok:
  assumes "stream_ok st" "InhibitBackoff st = Inr st'"
  shows "stream_ok st'" "st_state st' = StreamInitial"
  using assms by (auto simp: InhibitBackoff_def stream_ok_def stream_defs eb_resets_inv)

lemma MarkIdle_ok: "stream_ok st \<Longrightarrow> stream_ok (MarkIdle st)" "st_state (MarkIdle st) = st_state st"
  by (auto simp: MarkIdle_def stream_ok_def IsOpen_def)

lemma stream_Start_state:
  "stream_Start st = Inr st' \<Longrightarrow> diagram_edge (st_state st) (st_state st')"
  by (auto simp: stream_Start_def BackoffAndTryRestarting_def RequestCredentials_def diagram_edge_def split: if_splits prod.splits)

lemma stream_Close_state:
  assumes "stream_Close td status st = Inr (st', told)" "only_asks td" "Status_ok status \<or> st_state st \<in> {StreamStarting, StreamOpen}"
  shows "follows_diagram (st_state st) (st_state st')"
proof (cases told)
  case True
  then have "stream_Close td status st = Inr (st', True)" using assms(1) by simp
  from stream_Close_fields(2)[OF this assms(2)] show ?thesis using assms(3) by (auto simp: follows_diagram_def diagram_edge_def)
next
  case False
  then show ?thesis using stream_Close_idempotent[of td status st st'] assms(1) by (simp add: follows_diagram_def)
qed

lemma token_failure_ok:
  assumes "token_arrived c e st = Inr (st1, Some status)" "stream_ok st" "c \<in> set (st_token_requests st)"
    and "\<not> Status_ok status" "stream_Close td status st1 = Inr (st', told)" "only_asks td"
  shows "stream_ok st'" "st_state st = StreamStarting" "st_state st' = StreamError"
proof -
  have st1: "st1 = st\<lparr>st_token_requests := remove1 c (st_token_requests st)\<rparr>" "c = st_close_count st"
    "st_state st = StreamStarting"
    using assms(1) by (auto simp: token_arrived_def ResumeStartWithCredentials_def Let_def split: if_splits option.splits)
  have told: "told" using stream_Close_idempotent[of td status st1 st'] assms(5) st1 by (cases told) (auto simp: stream_defs)
  then have "stream_Close td status st1 = Inr (st', True)" using assms(5) by simp
  note f = stream_Close_fields[OF this assms(6)]
  have "set (remove1 c (st_token_requests st)) = set (st_token_requests st) - {c}" "distinct (remove1 c (st_token_requests st))"
    using assms(2) by (auto simp: stream_ok_def)
  then have "Suc (st_close_count st) \<notin> set (remove1 c (st_token_requests st))"
    "\<forall>c \<in> set (remove1 c (st_token_requests st)). c \<le> Suc (st_close_count st)" "distinct (remove1 c (st_token_requests st))"
    using assms(2) by (auto simp: stream_ok_def)
  then show "stream_ok st'" using f assms(2,4) st1 by (simp add: stream_ok_def IsOpen_def)
  show "st_state st = StreamStarting" "st_state st' = StreamError" using st1 f(2) assms(4) by simp_all
qed

lemma stream_step_ok:
  assumes "stream_step td st st'" "stream_ok st" "only_asks td"
  shows "stream_ok st' \<and> follows_diagram (st_state st) (st_state st')"
  using assms(1)
proof cases
  case step_start
  then show ?thesis using stream_Start_ok(1) stream_Start_state assms(2) by (auto simp: follows_diagram_def)
next
  case (step_token c e)
  then show ?thesis using token_arrived_ok(1,2)[OF step_token(2) assms(2) step_token(1)] by (simp add: follows_diagram_def)
next
  case (step_no_token c status st1 told)
  then show ?thesis using token_failure_ok[OF step_no_token(3) assms(2) step_no_token(1,2,4) assms(3)]
    by (simp add: follows_diagram_def diagram_edge_def)
next
  case step_opened
  then show ?thesis using OnStreamStart_ok[OF assms(2)] by (simp add: follows_diagram_def diagram_edge_def OnStreamStart_def)
next
  case step_backoff
  then show ?thesis using backoff_elapsed_ok[OF assms(2)] by (auto simp: follows_diagram_def diagram_edge_def)
next
  case step_inhibit
  then show ?thesis using InhibitBackoff_ok[OF assms(2)] by (simp add: follows_diagram_def diagram_edge_def)
next
  case step_mark_idle
  then show ?thesis using assms(2) by (simp add: follows_diagram_def MarkIdle_ok)
next
  case step_cancel_idle
  then show ?thesis using assms(2) by (simp add: follows_diagram_def CancelIdleCheck_def stream_ok_def IsOpen_def)
next
  case (step_write request)
  then have "st_state st' = st_state st" by (auto simp: stream_Write_def grpc_def CancelIdleCheck_def)
  then show ?thesis using stream_Write_ok(1)[OF step_write assms(2)] by (simp add: follows_diagram_def)
next
  case (step_idle told)
  show ?thesis using stream_Close_ok(1)[OF step_idle(2) assms(2,3)] stream_Close_state[OF step_idle(2) assms(3)] by simp
next
  case (step_stop told)
  show ?thesis using stream_Close_ok(1)[OF step_stop assms(2,3)] stream_Close_state[OF step_stop assms(3)] by simp
next
  case (step_finish status told)
  have "st_state st \<in> {StreamStarting, StreamOpen}" using step_finish(1) assms(2) by (auto simp: stream_ok_def)
  then show ?thesis using stream_Close_ok(1)[OF step_finish(2) assms(2,3)] stream_Close_state[OF step_finish(2) assms(3)] by simp
qed

lemma stream_reachable_ok: "stream_reachable td st \<Longrightarrow> only_asks td \<Longrightarrow> stream_ok st"
proof (induction rule: stream_reachable.induct)
  case (stream_moves st st')
  then show ?case using stream_step_ok by blast
qed (rule make_Stream_ok)

end
