(* ===== verification/UnorderedMaps.thy ===== *)
theory UnorderedMaps
  imports QueryEquality
begin

text \<open>
  \<open>std::unordered_map\<close> as the components of \<open>local/\<close> and \<open>core/\<close> use it: the entries in some
  order, at most one for each key up to the equality of the keys.  An assignment keeps the key that
  is already there.
\<close>

definition um_find :: "('k \<Rightarrow> 'k \<Rightarrow> bool) \<Rightarrow> 'k \<Rightarrow> ('k \<times> 'v) list \<Rightarrow> 'v option" where
  "um_find eq k m = map_option snd (find (\<lambda>e. eq (fst e) k) m)"

fun um_put :: "('k \<Rightarrow> 'k \<Rightarrow> bool) \<Rightarrow> 'k \<Rightarrow> 'v \<Rightarrow> ('k \<times> 'v) list \<Rightarrow> ('k \<times> 'v) list" where
  "um_put eq k v [] = [(k, v)]"
| "um_put eq k v ((k', v') # m) = (if eq k' k then (k', v) # m else (k', v') # um_put eq k v m)"

definition um_erase :: "('k \<Rightarrow> 'k \<Rightarrow> bool) \<Rightarrow> 'k \<Rightarrow> ('k \<times> 'v) list \<Rightarrow> ('k \<times> 'v) list" where
  "um_erase eq k m = filter (\<lambda>e. \<not> eq (fst e) k) m"

definition um_ok :: "('k \<Rightarrow> 'k \<Rightarrow> bool) \<Rightarrow> ('k \<times> 'v) list \<Rightarrow> bool" where
  "um_ok eq m = sorted_wrt (\<lambda>a b. \<not> eq a b) (map fst m)"

lemma um_ok_simps [simp]:
  "um_ok eq []"
  "um_ok eq (e # m) = ((\<forall>x \<in> set m. \<not> eq (fst e) (fst x)) \<and> um_ok eq m)"
  by (simp_all add: um_ok_def)

lemma um_find_simps [simp]:
  "um_find eq k [] = None"
  "um_find eq k (e # m) = (if eq (fst e) k then Some (snd e) else um_find eq k m)"
  by (simp_all add: um_find_def)

lemma um_erase_simps [simp]:
  "um_erase eq k [] = []"
  "um_erase eq k (e # m) = (if eq (fst e) k then um_erase eq k m else e # um_erase eq k m)"
  by (simp_all add: um_erase_def)

lemma um_find_None: "(um_find eq k m = None) = (\<forall>e \<in> set m. \<not> eq (fst e) k)"
  by (induction m) auto

lemma um_find_Some: "um_find eq k m = Some v \<Longrightarrow> \<exists>k'. (k', v) \<in> set m \<and> eq k' k"
  by (induction m) (auto split: if_splits)

lemma set_um_erase [simp]: "set (um_erase eq k m) = {e \<in> set m. \<not> eq (fst e) k}"
  by (auto simp: um_erase_def)

lemma um_ok_filter: "um_ok eq m \<Longrightarrow> um_ok eq (filter P m)"
  by (induction m) auto

lemma um_ok_erase: "um_ok eq m \<Longrightarrow> um_ok eq (um_erase eq k m)"
  by (simp add: um_erase_def um_ok_filter)

lemma set_um_put: "e \<in> set (um_put eq k v m) \<Longrightarrow> e \<in> set m \<or> (snd e = v \<and> (fst e = k \<or> (eq (fst e) k \<and> fst e \<in> fst ` set m)))"
proof (induction m)
  case (Cons x m)
  then show ?case by (cases x) (auto split: if_splits)
qed simp

context equivalence_test
begin

lemma um_find_put: "um_find eq k' (um_put eq k v m) = (if eq k k' then Some v else um_find eq k' m)"
proof (induction m)
  case (Cons e m)
  obtain a b where e: "e = (a, b)" by (cases e)
  show ?case
  proof (cases "eq a k")
    case True
    then show ?thesis using same_class[OF True, of k'] by (simp add: e)
  next
    case False
    then have "\<not> (eq a k' \<and> eq k k')" using sym trans by blast
    then show ?thesis using Cons False by (auto simp: e)
  qed
qed simp

lemma um_find_erase: "um_find eq k' (um_erase eq k m) = (if eq k k' then None else um_find eq k' m)"
proof (induction m)
  case (Cons e m)
  have "eq (fst e) k \<Longrightarrow> eq (fst e) k' = eq k k'" by (rule same_class)
  moreover have "eq (fst e) k' \<Longrightarrow> eq k k' \<Longrightarrow> eq (fst e) k" using sym trans by blast
  ultimately show ?case using Cons by auto
qed simp

lemma um_ok_put: "um_ok eq m \<Longrightarrow> um_ok eq (um_put eq k v m)"
proof (induction m)
  case (Cons e m)
  obtain a b where e: "e = (a, b)" by (cases e)
  show ?case
  proof (cases "eq a k")
    case False
    have "\<not> eq a (fst x)" if "x \<in> set (um_put eq k v m)" for x
      using set_um_put[OF that] Cons.prems False by (auto simp: e)
    then show ?thesis using Cons False by (simp add: e)
  qed (use Cons in \<open>simp add: e\<close>)
qed simp

lemma um_find_mem:
  assumes "um_ok eq m" "(k', v) \<in> set m" "eq k' k" shows "um_find eq k m = Some v"
  using assms
proof (induction m)
  case (Cons e m)
  show ?case
  proof (cases "e = (k', v)")
    case False
    then have m: "(k', v) \<in> set m" using Cons.prems(2) by simp
    then have "\<not> eq (fst e) k'" using Cons.prems(1) by fastforce
    then have "\<not> eq (fst e) k" using Cons.prems(3) sym trans by blast
    then show ?thesis using Cons m by simp
  qed (use Cons.prems in simp)
qed simp

lemma um_find_cong: "eq k k' \<Longrightarrow> um_find eq k m = um_find eq k' m"
  by (induction m) (auto dest: trans intro: sym trans)

end

text \<open>Keys that compare by their representation.\<close>

interpretation plain_eq: equivalence_test "(=)"
  by unfold_locales auto

lemma um_put_keys: "fst ` set (um_put (=) k v m) = insert k (fst ` set m)"
proof (induction m)
  case (Cons e m)
  then show ?case by (cases e) auto
qed simp

lemma um_find_keys: "(um_find (=) k m \<noteq> None) = (k \<in> fst ` set m)"
  by (induction m) auto

end
