(* ===== verification/IndexManagers.thy ===== *)
theory IndexManagers
  imports UnorderedMaps
begin

text \<open>
  \<open>local/memory_index_manager.cc\<close>: for every collection id the set of the parents that have a
  collection of that id.
\<close>

type_synonym MemoryCollectionParentIndex = "(string \<times> ResourcePath list) list"

definition CollectionParentIndex_Add ::
  "ResourcePath \<Rightarrow> MemoryCollectionParentIndex \<Rightarrow> (bool \<times> MemoryCollectionParentIndex) result" where
  "CollectionParentIndex_Add collection_path index =
     hard_assert (length collection_path mod 2 = 1)
       (rbind (last_segment collection_path) (\<lambda>collection_id.
        rbind (PopLast collection_path) (\<lambda>parent_path.
          let existing_parents = (case um_find (=) collection_id index of None \<Rightarrow> [] | Some ps \<Rightarrow> ps);
              inserted = (parent_path \<notin> set existing_parents)
          in Inr (inserted, um_put (=) collection_id (std_set_insert parent_path existing_parents) index))))"

definition GetEntries :: "string \<Rightarrow> MemoryCollectionParentIndex \<Rightarrow> ResourcePath list" where
  "GetEntries collection_id index =
     (case um_find (=) collection_id index of None \<Rightarrow> [] | Some parent_paths \<Rightarrow> parent_paths)"

record MemoryIndexManager =
  im_collection_parents_index :: MemoryCollectionParentIndex

definition AddToCollectionParentIndex :: "ResourcePath \<Rightarrow> MemoryIndexManager \<Rightarrow> MemoryIndexManager result" where
  "AddToCollectionParentIndex collection_path im =
     rmap (\<lambda>(inserted, index). im\<lparr>im_collection_parents_index := index\<rparr>)
       (CollectionParentIndex_Add collection_path (im_collection_parents_index im))"

definition GetCollectionParents :: "string \<Rightarrow> MemoryIndexManager \<Rightarrow> ResourcePath list" where
  "GetCollectionParents collection_id im = GetEntries collection_id (im_collection_parents_index im)"

section \<open>The index is a set of collection paths\<close>

definition im_collections :: "MemoryIndexManager \<Rightarrow> ResourcePath set" where
  "im_collections im = {parent @ [i] | parent i. parent \<in> set (GetCollectionParents i im)}"

lemma GetEntries_put:
  "GetEntries i (um_put (=) j ps index) = (if i = j then ps else GetEntries i index)"
  by (simp add: GetEntries_def plain_eq.um_find_put)

lemma AddToCollectionParentIndex_ok:
  assumes "length p mod 2 = 1"
  shows "\<exists>im'. AddToCollectionParentIndex p im = Inr im' \<and> im_collections im' = insert p (im_collections im)"
proof -
  have "p \<noteq> []" using assms by auto
  then obtain parent i where p: "p = parent @ [i]" by (cases p rule: rev_cases) auto
  have e: "(case um_find (=) i (im_collection_parents_index im) of None \<Rightarrow> [] | Some ps \<Rightarrow> ps) = GetCollectionParents i im"
    by (simp add: GetCollectionParents_def GetEntries_def)
  show ?thesis
    using assms by (auto simp: p AddToCollectionParentIndex_def CollectionParentIndex_Add_def last_segment_def PopLast_def
        Let_def e im_collections_def GetCollectionParents_def GetEntries_put split: if_splits)
qed

lemma GetCollectionParents_ok: "(parent \<in> set (GetCollectionParents i im)) = (parent @ [i] \<in> im_collections im)"
  by (auto simp: im_collections_def)

definition im_ok :: "MemoryIndexManager \<Rightarrow> bool" where
  "im_ok im = (\<forall>i. std_set_ok (GetCollectionParents i im))"

lemma im_ok_add: "im_ok im \<Longrightarrow> AddToCollectionParentIndex p im = Inr im' \<Longrightarrow> im_ok im'"
  by (auto simp: im_ok_def AddToCollectionParentIndex_def CollectionParentIndex_Add_def rmap_Inr_conv rbind_Inr_conv Let_def
      GetCollectionParents_def GetEntries_put) (simp add: GetEntries_def split: option.splits)+

end
