(* ===== verification/LlrbNode.thy ===== *)
theory LlrbNode
  imports SortedSpec
begin

text \<open>
  \<open>immutable/llrb_node.h\<close>: the left-leaning red-black tree behind large sorted maps.  A node
  keeps its entry, its colour and a 31-bit size field; \<open>Empty\<close> is the shared empty node or a
  clone of it, which is why it carries a colour of its own.  A node is empty when its size field
  is 0.  The operations follow the code: insertion and removal copy the path they touch and
  restore the colours with \<open>fix_up\<close>.

  The tree invariants are \<open>size_ok\<close> (the size field is the number of entries, below
  \<open>2 ^ 31\<close>), \<open>invh\<close> (equal black heights) and \<open>invc\<close> (no red right child, no two red
  nodes in a row, no red empty node).
\<close>

datatype color = Black | Red

datatype ('k, 'v) llrb =
    Empty color
  | Node "'k \<times> 'v" color nat "('k, 'v) llrb" "('k, 'v) llrb"

section \<open>Accessors\<close>

definition size31 :: "nat \<Rightarrow> nat" where
  "size31 n = n mod 2 ^ 31"

fun node_size :: "('k, 'v) llrb \<Rightarrow> nat" where
  "node_size (Empty c) = 0"
| "node_size (Node e c s l r) = s"

definition node_empty :: "('k, 'v) llrb \<Rightarrow> bool" where
  "node_empty t = (node_size t = 0)"

fun node_color :: "('k, 'v) llrb \<Rightarrow> color" where
  "node_color (Empty c) = c"
| "node_color (Node e c s l r) = c"

definition red :: "('k, 'v) llrb \<Rightarrow> bool" where
  "red t = (node_color t = Red)"

text \<open>The links of the empty node lead back to the shared empty node.\<close>

fun node_left :: "('k, 'v) llrb \<Rightarrow> ('k, 'v) llrb" where
  "node_left (Empty c) = Empty Black"
| "node_left (Node e c s l r) = l"

fun node_right :: "('k, 'v) llrb \<Rightarrow> ('k, 'v) llrb" where
  "node_right (Empty c) = Empty Black"
| "node_right (Node e c s l r) = r"

fun opposite :: "color \<Rightarrow> color" where
  "opposite Red = Black"
| "opposite Black = Red"

fun set_color :: "color \<Rightarrow> ('k, 'v) llrb \<Rightarrow> ('k, 'v) llrb" where
  "set_color c (Empty _) = Empty c"
| "set_color c (Node e _ s l r) = Node e c s l r"

fun set_left :: "('k, 'v) llrb \<Rightarrow> ('k, 'v) llrb \<Rightarrow> ('k, 'v) llrb" where
  "set_left l' (Empty c) = Empty c"
| "set_left l' (Node e c s l r) = Node e c s l' r"

fun set_right :: "('k, 'v) llrb \<Rightarrow> ('k, 'v) llrb \<Rightarrow> ('k, 'v) llrb" where
  "set_right r' (Empty c) = Empty c"
| "set_right r' (Node e c s l r) = Node e c s l r'"

fun set_size :: "nat \<Rightarrow> ('k, 'v) llrb \<Rightarrow> ('k, 'v) llrb" where
  "set_size n (Empty c) = Empty c"
| "set_size n (Node e c s l r) = Node e c (size31 n) l r"

fun set_entry :: "'k \<times> 'v \<Rightarrow> ('k, 'v) llrb \<Rightarrow> ('k, 'v) llrb" where
  "set_entry e' (Empty c) = Empty c"
| "set_entry e' (Node e c s l r) = Node e' c s l r"

section \<open>Rotations and colour flips\<close>

fun rotate_left :: "('k, 'v) llrb \<Rightarrow> ('k, 'v) llrb" where
  "rotate_left (Node e c s l (Node er cr sr rl rr)) =
     Node er c s (Node e Red (size31 (node_size l + 1 + node_size rl)) l rl) rr"
| "rotate_left t = t"

fun rotate_right :: "('k, 'v) llrb \<Rightarrow> ('k, 'v) llrb" where
  "rotate_right (Node e c s (Node el cl sl ll lr) r) =
     Node el c s ll (Node e Red (size31 (node_size lr + 1 + node_size r)) lr r)"
| "rotate_right t = t"

definition flip_child :: "('k, 'v) llrb \<Rightarrow> ('k, 'v) llrb" where
  "flip_child t = set_color (opposite (node_color t)) t"

fun flip_color :: "('k, 'v) llrb \<Rightarrow> ('k, 'v) llrb" where
  "flip_color (Empty c) = Empty (opposite c)"
| "flip_color (Node e c s l r) = Node e (opposite c) s (flip_child l) (flip_child r)"

definition fix_up :: "('k, 'v) llrb \<Rightarrow> ('k, 'v) llrb" where
  "fix_up t =
     (let t = set_size (node_size (node_left t) + 1 + node_size (node_right t)) t;
          t = (if red (node_right t) \<and> \<not> red (node_left t) then rotate_left t else t);
          t = (if red (node_left t) \<and> red (node_left (node_left t)) then rotate_right t else t)
      in if red (node_left t) \<and> red (node_right t) then flip_color t else t)"

definition fix_root_color :: "('k, 'v) llrb \<Rightarrow> ('k, 'v) llrb" where
  "fix_root_color t = (if red t then set_color Black t else t)"

definition move_red_left :: "('k, 'v) llrb \<Rightarrow> ('k, 'v) llrb" where
  "move_red_left t =
     (let t = flip_color t
      in if red (node_left (node_right t))
         then flip_color (rotate_left (set_right (rotate_right (node_right t)) t))
         else t)"

definition move_red_right :: "('k, 'v) llrb \<Rightarrow> ('k, 'v) llrb" where
  "move_red_right t =
     (let t = flip_color t
      in if red (node_left (node_left t)) then flip_color (rotate_right t) else t)"

section \<open>Insertion\<close>

fun inner_insert ::
  "('k \<Rightarrow> 'k \<Rightarrow> comparison_result) \<Rightarrow> 'k \<Rightarrow> 'v \<Rightarrow> ('k, 'v) llrb \<Rightarrow> ('k, 'v) llrb" where
  "inner_insert cmp key v (Empty c) = Node (key, v) Red 1 (Empty Black) (Empty Black)"
| "inner_insert cmp key v (Node e c s l r) =
     (if node_empty (Node e c s l r) then Node (key, v) Red 1 (Empty Black) (Empty Black)
      else (case cmp (fst e) key of
              Descending \<Rightarrow> fix_up (Node e c s (inner_insert cmp key v l) r)
            | Ascending \<Rightarrow> fix_up (Node e c s l (inner_insert cmp key v r))
            | Same \<Rightarrow> Node (fst e, v) c s l r))"

definition node_insert ::
  "('k \<Rightarrow> 'k \<Rightarrow> comparison_result) \<Rightarrow> 'k \<Rightarrow> 'v \<Rightarrow> ('k, 'v) llrb \<Rightarrow> ('k, 'v) llrb" where
  "node_insert cmp key v t = fix_root_color (inner_insert cmp key v t)"

section \<open>Removal\<close>

fun count :: "('k, 'v) llrb \<Rightarrow> nat" where
  "count (Empty c) = 0"
| "count (Node e c s l r) = count l + 1 + count r"

lemma count_set_color [simp]: "count (set_color c t) = count t"
  by (cases t) simp_all

lemma count_flip_child [simp]: "count (flip_child t) = count t"
  by (simp add: flip_child_def)

lemma count_flip_color [simp]: "count (flip_color t) = count t"
  by (cases t) simp_all

lemma count_rotate_left [simp]: "count (rotate_left t) = count t"
  by (cases t rule: rotate_left.cases) simp_all

lemma count_rotate_right [simp]: "count (rotate_right t) = count t"
  by (cases t rule: rotate_right.cases) simp_all

lemma count_set_right: "count r = count (node_right t) \<Longrightarrow> count (set_right r t) = count t"
  by (cases t) simp_all

lemma count_move_red_left [simp]: "count (move_red_left t) = count t"
  by (simp add: move_red_left_def Let_def count_set_right)

lemma count_move_red_right [simp]: "count (move_red_right t) = count t"
  by (simp add: move_red_right_def Let_def)

lemma count_node_left: "count t \<noteq> 0 \<Longrightarrow> count (node_left t) < count t"
  by (cases t) simp_all

lemma count_node_right: "count t \<noteq> 0 \<Longrightarrow> count (node_right t) < count t"
  by (cases t) simp_all

fun node_min :: "('k, 'v) llrb \<Rightarrow> ('k, 'v) llrb" where
  "node_min (Empty c) = Empty c"
| "node_min (Node e c s l r) = (if node_empty l then Node e c s l r else node_min l)"

fun node_max :: "('k, 'v) llrb \<Rightarrow> ('k, 'v) llrb" where
  "node_max (Empty c) = Empty c"
| "node_max (Node e c s l r) = (if node_empty r then Node e c s l r else node_max r)"

function remove_min :: "('k, 'v) llrb \<Rightarrow> ('k, 'v) llrb" where
  "remove_min (Empty c) = Empty Black"
| "remove_min (Node e c s l r) =
     (if node_empty l then Empty Black
      else let n = Node e c s l r;
               n = (if \<not> red l \<and> \<not> red (node_left l) then move_red_left n else n)
           in fix_up (set_left (remove_min (node_left n)) n))"
  by pat_completeness auto
termination
  by (relation "measure count") (auto intro: count_node_left[THEN order.strict_trans2])

fun entry_of :: "('k, 'v) llrb \<Rightarrow> ('k \<times> 'v) option" where
  "entry_of (Empty c) = None"
| "entry_of (Node e c s l r) = Some e"

text \<open>The comparison of the searched key with the key of a node.\<close>

definition key_cmp :: "('k \<Rightarrow> 'k \<Rightarrow> comparison_result) \<Rightarrow> 'k \<Rightarrow> ('k, 'v) llrb \<Rightarrow> comparison_result option" where
  "key_cmp cmp key t = map_option (\<lambda>e. cmp key (fst e)) (entry_of t)"

function inner_erase ::
  "('k \<Rightarrow> 'k \<Rightarrow> comparison_result) \<Rightarrow> 'k \<Rightarrow> ('k, 'v) llrb \<Rightarrow> ('k, 'v) llrb" where
  "inner_erase cmp key (Empty c) = Empty Black"
| "inner_erase cmp key (Node e c s l r) =
     (if node_empty (Node e c s l r) then Empty Black
      else let n = Node e c s l r
           in if cmp key (fst e) = Ascending then
                let n = (if \<not> node_empty l \<and> \<not> red l \<and> \<not> red (node_left l)
                         then move_red_left n else n)
                in fix_up (set_left (inner_erase cmp key (node_left n)) n)
              else
                let n = (if red l then rotate_right n else n);
                    n = (if \<not> node_empty (node_right n) \<and> \<not> red (node_right n)
                            \<and> \<not> red (node_left (node_right n))
                         then move_red_right n else n)
                in if key_cmp cmp key n = Some Same then
                     if node_empty (node_right n) then Empty Black
                     else (case entry_of (node_min (node_right n)) of
                             None \<Rightarrow> fix_up (set_right (remove_min (node_right n)) n)
                           | Some e' \<Rightarrow> fix_up (set_right (remove_min (node_right n)) (set_entry e' n)))
                   else fix_up (set_right (inner_erase cmp key (node_right n)) n))"
  by pat_completeness auto
termination
proof (relation "measure (\<lambda>(cmp, key, t). count t)", goal_cases)
  case (2 cmp key e c s l r x xa)
  have "count xa = count (Node e c s l r)" using 2(2-4) by (simp split: if_splits)
  then show ?case using count_node_left[of xa] by simp
next
  case (3 cmp key e c s l r x xa xb)
  have "count xa = count (Node e c s l r)" using 3(2-4) by (simp split: if_splits)
  then have "count xb = count (Node e c s l r)" using 3(5) by (simp split: if_splits)
  then show ?case using count_node_right[of xb] by simp
qed simp

definition node_erase ::
  "('k \<Rightarrow> 'k \<Rightarrow> comparison_result) \<Rightarrow> 'k \<Rightarrow> ('k, 'v) llrb \<Rightarrow> ('k, 'v) llrb" where
  "node_erase cmp key t = fix_root_color (inner_erase cmp key t)"

end
