(* ===== verification/LlrbProofs.thy ===== *)
theory LlrbProofs
  imports LlrbNode
begin

text \<open>
  Correctness of the left-leaning red-black trees: in-order contents of every operation, the
  balance invariants, and the exactness of the size fields.  The two step lemmas
  \<open>left_step\<close> and \<open>right_step\<close> hold the colour reasoning of one level of the removal, so
  that the inductions over \<open>remove_min\<close> and \<open>inner_erase\<close> only compose them.
\<close>

section \<open>Invariants\<close>

fun inorder :: "('k, 'v) llrb \<Rightarrow> ('k \<times> 'v) list" where
  "inorder (Empty c) = []"
| "inorder (Node e c s l r) = inorder l @ e # inorder r"

fun size_ok :: "('k, 'v) llrb \<Rightarrow> bool" where
  "size_ok (Empty c) = True"
| "size_ok (Node e c s l r) = (s = count l + 1 + count r \<and> s < 2 ^ 31 \<and> size_ok l \<and> size_ok r)"

fun bheight :: "('k, 'v) llrb \<Rightarrow> nat" where
  "bheight (Empty c) = 0"
| "bheight (Node e c s l r) = bheight l + (if c = Black then 1 else 0)"

fun invh :: "('k, 'v) llrb \<Rightarrow> bool" where
  "invh (Empty c) = True"
| "invh (Node e c s l r) = (bheight l = bheight r \<and> invh l \<and> invh r)"

fun invc :: "('k, 'v) llrb \<Rightarrow> bool" where
  "invc (Empty c) = (c = Black)"
| "invc (Node e c s l r) = (\<not> red r \<and> (c = Red \<longrightarrow> \<not> red l) \<and> invc l \<and> invc r)"

text \<open>The weaker colour invariant at the root: its left child may be red too.\<close>

fun invc2 :: "('k, 'v) llrb \<Rightarrow> bool" where
  "invc2 (Empty c) = (c = Black)"
| "invc2 (Node e c s l r) = (\<not> red r \<and> invc l \<and> invc r)"

definition llrb_ok :: "('k, 'v) llrb \<Rightarrow> bool" where
  "llrb_ok t = (size_ok t \<and> invh t \<and> invc t)"

lemma red_simps [simp]:
  "red (Empty c) = (c = Red)"
  "red (Node e c s l r) = (c = Red)"
  by (simp_all add: red_def)

lemma not_red_color [simp]: "(c \<noteq> Black) = (c = Red)" "(c \<noteq> Red) = (c = Black)"
  by (cases c; simp)+

lemma opposite_simps [simp]:
  "(opposite c = Red) = (c = Black)" "(opposite c = Black) = (c = Red)"
  by (cases c; simp)+

lemma length_inorder: "length (inorder t) = count t"
  by (induction t) simp_all

lemma node_empty_size_ok: "size_ok t \<Longrightarrow> node_empty t = (count t = 0)"
  by (cases t) (simp_all add: node_empty_def)

lemma count_0_Empty: "(count t = 0) = (\<exists>c. t = Empty c)"
  by (cases t) simp_all

lemma invc_invc2: "invc t \<Longrightarrow> invc2 t"
  by (cases t) auto

section \<open>Contents of the local operations\<close>

lemma inorder_set_color [simp]: "inorder (set_color c t) = inorder t"
  by (cases t) simp_all

lemma inorder_flip_child [simp]: "inorder (flip_child t) = inorder t"
  by (simp add: flip_child_def)

lemma inorder_flip_color [simp]: "inorder (flip_color t) = inorder t"
  by (cases t) simp_all

lemma inorder_rotate_left [simp]: "inorder (rotate_left t) = inorder t"
  by (cases t rule: rotate_left.cases) simp_all

lemma inorder_rotate_right [simp]: "inorder (rotate_right t) = inorder t"
  by (cases t rule: rotate_right.cases) simp_all

lemma inorder_set_size [simp]: "inorder (set_size n t) = inorder t"
  by (cases t) simp_all

lemma inorder_fix_up [simp]: "inorder (fix_up t) = inorder t"
  by (simp add: fix_up_def Let_def)

lemma inorder_fix_root_color [simp]: "inorder (fix_root_color t) = inorder t"
  by (simp add: fix_root_color_def)

lemma inorder_set_right: "inorder r = inorder (node_right t) \<Longrightarrow> inorder (set_right r t) = inorder t"
  by (cases t) simp_all

lemma inorder_move_red_left [simp]: "inorder (move_red_left t) = inorder t"
  by (simp add: move_red_left_def Let_def inorder_set_right)

lemma inorder_move_red_right [simp]: "inorder (move_red_right t) = inorder t"
  by (simp add: move_red_right_def Let_def)

lemma count_inorder_eq: "inorder t = inorder u \<Longrightarrow> count t = count u"
  by (metis length_inorder)

lemma count_fix_up [simp]: "count (fix_up t) = count t"
  by (rule count_inorder_eq) simp

section \<open>Size fields of the local operations\<close>

lemma size31_id: "n < 2 ^ 31 \<Longrightarrow> size31 n = n"
  by (simp add: size31_def)

lemma node_size_count: "size_ok t \<Longrightarrow> node_size t = count t"
  by (cases t) simp_all

lemma size_ok_set_color [simp]: "size_ok (set_color c t) = size_ok t"
  by (cases t) simp_all

lemma size_ok_flip_child [simp]: "size_ok (flip_child t) = size_ok t"
  by (simp add: flip_child_def)

lemma size_ok_flip_color: "size_ok t \<Longrightarrow> size_ok (flip_color t)"
  by (cases t) simp_all

lemma size_ok_rotate_left: "size_ok t \<Longrightarrow> size_ok (rotate_left t)"
  by (cases t rule: rotate_left.cases) (simp_all add: size31_id node_size_count)

lemma size_ok_rotate_right: "size_ok t \<Longrightarrow> size_ok (rotate_right t)"
  by (cases t rule: rotate_right.cases) (simp_all add: size31_id node_size_count)

lemma size_ok_fix_up:
  assumes "size_ok l" "size_ok r" "count l + 1 + count r < 2 ^ 31"
  shows "size_ok (fix_up (Node e c s l r))"
proof -
  have "size_ok (set_size (node_size l + 1 + node_size r) (Node e c s l r))"
    using assms by (simp add: node_size_count size31_id)
  then show ?thesis
    by (simp add: fix_up_def Let_def size_ok_flip_color size_ok_rotate_left size_ok_rotate_right)
qed

lemma size_ok_node_left: "size_ok t \<Longrightarrow> size_ok (node_left t)"
  by (cases t) simp_all

lemma size_ok_node_right: "size_ok t \<Longrightarrow> size_ok (node_right t)"
  by (cases t) simp_all

lemma size_ok_set_right:
  "size_ok t \<Longrightarrow> size_ok r \<Longrightarrow> count r = count (node_right t) \<Longrightarrow> size_ok (set_right r t)"
  by (cases t) simp_all

lemma size_ok_move_red_left: "size_ok t \<Longrightarrow> size_ok (move_red_left t)"
  by (simp add: move_red_left_def Let_def size_ok_flip_color size_ok_rotate_left
      size_ok_rotate_right size_ok_set_right size_ok_node_right)

lemma size_ok_move_red_right: "size_ok t \<Longrightarrow> size_ok (move_red_right t)"
  by (simp add: move_red_right_def Let_def size_ok_flip_color size_ok_rotate_right)

section \<open>Insertion\<close>

lemma fix_up_insert_left:
  assumes "invc (Node e c s l r)" "invh (Node e c s l r)"
    and "invh u" "bheight u = bheight l" "invc2 u" "\<not> red l \<Longrightarrow> invc u"
  shows "invh (fix_up (Node e c s u r)) \<and> bheight (fix_up (Node e c s u r)) = bheight (Node e c s l r)
    \<and> invc2 (fix_up (Node e c s u r)) \<and> (c = Black \<longrightarrow> invc (fix_up (Node e c s u r)))"
proof (cases u)
  case (Empty d)
  then show ?thesis using assms by (simp add: fix_up_def Let_def)
next
  case (Node e' d s' ul ur)
  then show ?thesis using assms
    by (cases ul; cases r) (auto simp: fix_up_def Let_def flip_child_def)
qed

lemma fix_up_insert_right:
  assumes "invc (Node e c s l r)" "invh (Node e c s l r)"
    and "invh u" "bheight u = bheight r" "invc u"
  shows "invh (fix_up (Node e c s l u)) \<and> bheight (fix_up (Node e c s l u)) = bheight (Node e c s l r)
    \<and> invc2 (fix_up (Node e c s l u)) \<and> (c = Black \<longrightarrow> invc (fix_up (Node e c s l u)))"
proof (cases u)
  case (Empty d)
  then show ?thesis using assms by (cases l) (auto simp: fix_up_def Let_def)
next
  case (Node e' d s' ul ur)
  then show ?thesis using assms
    by (cases l; cases ul) (auto simp: fix_up_def Let_def flip_child_def split: if_splits)
qed

lemma inner_insert_inv:
  "llrb_ok t \<Longrightarrow> invh (inner_insert cmp k v t) \<and> bheight (inner_insert cmp k v t) = bheight t
    \<and> invc2 (inner_insert cmp k v t) \<and> (\<not> red t \<longrightarrow> invc (inner_insert cmp k v t))"
proof (induction t)
  case (Empty c)
  then show ?case by (simp add: llrb_ok_def)
next
  case (Node e c s l r)
  have ok: "llrb_ok l" "llrb_ok r" "\<not> node_empty (Node e c s l r)"
    and inv: "invc (Node e c s l r)" "invh (Node e c s l r)"
    using Node.prems by (auto simp: llrb_ok_def node_empty_def)
  note L = Node.IH(1)[OF ok(1)] and R = Node.IH(2)[OF ok(2)]
  have "\<not> red r" using inv(1) by simp
  with R have R': "invc (inner_insert cmp k v r)" by simp
  show ?case
  proof (cases "cmp (fst e) k")
    case Ascending
    with fix_up_insert_right[OF inv, of "inner_insert cmp k v r"] R R' ok(3) show ?thesis by simp
  next
    case Same
    with inv ok(3) show ?thesis by simp
  next
    case Descending
    with fix_up_insert_left[OF inv, of "inner_insert cmp k v l"] L ok(3) show ?thesis by simp
  qed
qed

lemma inner_insert_count:
  "size_ok t \<Longrightarrow> count t + 1 < 2 ^ 31 \<Longrightarrow>
   size_ok (inner_insert cmp k v t) \<and> count (inner_insert cmp k v t) \<le> count t + 1"
proof (induction t)
  case (Empty c)
  then show ?case by simp
next
  case (Node e c s l r)
  have e: "\<not> node_empty (Node e c s l r)" using Node.prems by (simp add: node_empty_def)
  have L: "size_ok (inner_insert cmp k v l)" "count (inner_insert cmp k v l) \<le> count l + 1"
    and R: "size_ok (inner_insert cmp k v r)" "count (inner_insert cmp k v r) \<le> count r + 1"
    using Node by simp_all
  show ?case
    using Node.prems e L R
    by (auto split: comparison_result.splits intro!: size_ok_fix_up)
qed

lemma llrb_ok_fix_root:
  "size_ok t \<Longrightarrow> invh t \<Longrightarrow> invc2 t \<Longrightarrow> \<not> red t \<longrightarrow> invc t \<Longrightarrow>
   llrb_ok (fix_root_color t) \<and> \<not> red (fix_root_color t)"
  by (cases t) (auto simp: llrb_ok_def fix_root_color_def)

context total_comparator
begin

lemma inorder_inner_insert:
  "size_ok t \<Longrightarrow> sorted_keys cmp (inorder t) \<Longrightarrow>
   inorder (inner_insert cmp k v t) = al_put cmp k v (inorder t)"
proof (induction t)
  case (Empty c)
  then show ?case by simp
next
  case (Node e c s l r)
  have e: "\<not> node_empty (Node e c s l r)" using Node.prems by (simp add: node_empty_def)
  have L: "inorder (inner_insert cmp k v l) = al_put cmp k v (inorder l)"
    and R: "inorder (inner_insert cmp k v r) = al_put cmp k v (inorder r)"
    using Node by simp_all
  have less: "\<forall>x \<in> set (inorder l). cmp k (fst x) = Descending" if "cmp (fst e) k \<noteq> Descending"
    using that Node.prems(2) asc_le_trans desc_iff by (simp) blast
  obtain ek ev where ee: "e = (ek, ev)" by (cases e)
  show ?case
  proof (cases "cmp (fst e) k")
    case Ascending
    then have "cmp k ek = Descending" using desc_iff[of k ek] by (simp add: ee)
    with Ascending e R less show ?thesis by (simp add: al_put_append_ge ee)
  next
    case Same
    then have "cmp k ek = Same" using same_sym by (simp add: ee)
    with Same e less show ?thesis by (simp add: al_put_append_ge ee)
  next
    case Descending
    then have "cmp k (fst e) = Ascending" using flip[of "fst e" k] by simp
    with Descending e L show ?thesis by (simp add: al_put_append_less)
  qed
qed

end

section \<open>Removal: one level\<close>

definition bendable :: "('k, 'v) llrb \<Rightarrow> bool" where
  "bendable t = (red t \<or> red (node_left t) \<or> (\<exists>c. t = Empty c))"

text \<open>
  What a removal leaves behind: below the root the black height is kept; at a black root
  without red left child the colours are only right after the root is painted black.
\<close>

definition removed_ok :: "('k, 'v) llrb \<Rightarrow> ('k, 'v) llrb \<Rightarrow> bool" where
  "removed_ok t u = (invh u \<and> invc u \<and> bheight u = bheight t \<and> (\<not> red t \<longrightarrow> \<not> red u))"

definition removed_root :: "('k, 'v) llrb \<Rightarrow> bool" where
  "removed_root u = (invh u \<and> invc2 u \<and> (\<not> red u \<longrightarrow> invc u))"

definition descend_left :: "('k, 'v) llrb \<Rightarrow> ('k, 'v) llrb" where
  "descend_left n =
     (if count (node_left n) \<noteq> 0 \<and> \<not> red (node_left n) \<and> \<not> red (node_left (node_left n))
      then move_red_left n else n)"

lemma left_step:
  assumes "invc (Node e c s l r)" "invh (Node e c s l r)"
  defines "n \<equiv> descend_left (Node e c s l r)"
  shows "invc (node_left n)" "invh (node_left n)" "bendable (node_left n)"
    and "removed_ok (node_left n) u \<Longrightarrow>
      (if bendable (Node e c s l r) then removed_ok (Node e c s l r) (fix_up (set_left u n))
       else removed_root (fix_up (set_left u n)))"
proof -
  have "invc (node_left n) \<and> invh (node_left n) \<and> bendable (node_left n) \<and>
     (removed_ok (node_left n) u \<longrightarrow>
      (if bendable (Node e c s l r) then removed_ok (Node e c s l r) (fix_up (set_left u n))
       else removed_root (fix_up (set_left u n))))"
  proof (cases l)
    case (Empty d)
    then show ?thesis using assms
      by (cases u; cases r) (auto simp: n_def descend_left_def bendable_def removed_ok_def removed_root_def fix_up_def Let_def)
  next
    case l: (Node le lc ls ll lr)
    show ?thesis
    proof (cases "lc = Red \<or> red ll")
      case True
      then have n: "n = Node e c s l r" by (auto simp: n_def descend_left_def l)
      show ?thesis using assms(1,2) True unfolding n l
        by (cases u; cases "node_left u")
          (auto simp: bendable_def removed_ok_def removed_root_def fix_up_def Let_def)
    next
      case False
      then obtain re rs rl rr where r: "r = Node re Black rs rl rr"
        using assms(1,2) l by (cases r) auto
      show ?thesis
      proof (cases "red rl")
        case True
        then obtain rle rls rll rlr where rl: "rl = Node rle Red rls rll rlr"
          using assms(1) r by (cases rl) auto
        obtain s1 s2 where n: "n = Node rle c s (Node e Black s1 (set_color Red l) rll) (Node re Black s2 rlr rr)"
          using False by (cases c) (auto simp: n_def descend_left_def l r rl move_red_left_def Let_def flip_child_def)
        show ?thesis using assms(1,2) False unfolding n l r rl
          by (cases u; cases "node_left u")
            (auto simp: bendable_def removed_ok_def removed_root_def fix_up_def Let_def)
      next
        case rl: False
        have n: "n = Node e (opposite c) s (set_color Red l) (set_color Red r)"
          using False rl by (auto simp: n_def descend_left_def l r move_red_left_def Let_def flip_child_def)
        show ?thesis using assms(1,2) False rl unfolding n l r
          by (cases c; cases u; cases "node_left u"; cases rl)
            (auto simp: bendable_def removed_ok_def removed_root_def fix_up_def Let_def flip_child_def)
      qed
    qed
  qed
  then show "invc (node_left n)" "invh (node_left n)" "bendable (node_left n)"
    and "removed_ok (node_left n) u \<Longrightarrow>
      (if bendable (Node e c s l r) then removed_ok (Node e c s l r) (fix_up (set_left u n))
       else removed_root (fix_up (set_left u n)))" by blast+
qed

definition descend_right :: "('k, 'v) llrb \<Rightarrow> ('k, 'v) llrb" where
  "descend_right n =
     (let n = (if red (node_left n) then rotate_right n else n)
      in if count (node_right n) \<noteq> 0 \<and> \<not> red (node_right n) \<and> \<not> red (node_left (node_right n))
         then move_red_right n else n)"

text \<open>
  \<open>move_red_right\<close> with a red left grandchild leaves a right child whose own right child is
  red.  This is the only place where the tree leans right, and the search only enters such a
  node with a key that is not below its key, so the removal never turns left there.
\<close>

fun rlean :: "('k, 'v) llrb \<Rightarrow> bool" where
  "rlean (Empty c) = False"
| "rlean (Node e c s l r) = (c = Black \<and> \<not> red l \<and> red r \<and> invc l \<and> invc r)"

lemma right_step:
  assumes "invc (Node e c s l r)" "invh (Node e c s l r)"
  defines "n \<equiv> descend_right (Node e c s l r)"
  shows "invh (node_right n)"
    and "invc (node_right n) \<and> bendable (node_right n) \<or>
         rlean (node_right n) \<and> entry_of (node_right n) = Some e \<and> entry_of n = entry_of l"
    and "removed_ok (node_right n) u \<Longrightarrow>
      (if bendable (Node e c s l r) then removed_ok (Node e c s l r) (fix_up (set_right u (set_entry e' n)))
       else removed_root (fix_up (set_right u (set_entry e' n))))"
    and "count (node_right n) = 0 \<Longrightarrow> count l = 0 \<and> count r = 0 \<and> n = Node e c s l r"
proof -
  have "invh (node_right n) \<and>
     (invc (node_right n) \<and> bendable (node_right n) \<or>
      rlean (node_right n) \<and> entry_of (node_right n) = Some e \<and> entry_of n = entry_of l) \<and>
     (removed_ok (node_right n) u \<longrightarrow>
      (if bendable (Node e c s l r) then removed_ok (Node e c s l r) (fix_up (set_right u (set_entry e' n)))
       else removed_root (fix_up (set_right u (set_entry e' n))))) \<and>
     (count (node_right n) = 0 \<longrightarrow> count l = 0 \<and> count r = 0 \<and> n = Node e c s l r)"
  proof (cases "red l")
    case True
    then obtain le ls ll lr where l: "l = Node le Red ls ll lr"
      using assms(1) by (cases l) auto
    obtain s1 where n: "n = Node le c s ll (Node e Red s1 lr r)"
      using assms(1) by (auto simp: n_def descend_right_def l Let_def)
    show ?thesis using assms(1,2) unfolding n l
      by (cases u; cases "node_left u"; cases ll)
        (auto simp: bendable_def removed_ok_def removed_root_def fix_up_def Let_def split: if_splits)
  next
    case l: False
    show ?thesis
    proof (cases r)
      case (Empty d)
      then have n: "n = Node e c s l r" using l by (auto simp: n_def descend_right_def)
      have "count l = 0" using assms(1,2) l Empty by (cases l) (auto split: if_splits)
      then show ?thesis using assms(1,2) l Empty unfolding n
        by (cases u; cases l) (auto simp: bendable_def removed_ok_def removed_root_def fix_up_def Let_def)
    next
      case r: (Node re rc rs rl rr)
      have rc: "rc = Black" using assms(1) r by simp
      then obtain le ls ll lr where l': "l = Node le Black ls ll lr"
        using assms(1,2) l r by (cases l) (auto split: if_splits)
      show ?thesis
      proof (cases "red rl")
        case True
        then have n: "n = Node e c s l r" by (auto simp: n_def descend_right_def l' r rc)
        show ?thesis using assms(1,2) True unfolding n l' r rc
          by (cases u; cases "node_left u")
            (auto simp: bendable_def removed_ok_def removed_root_def fix_up_def Let_def)
      next
        case rl: False
        show ?thesis
        proof (cases "red ll")
          case True
          then obtain lle lls lll llr where ll: "ll = Node lle Red lls lll llr"
            using assms(1) l' by (cases ll) auto
          obtain s2 where n: "n = Node le c s (set_color Black ll) (Node e Black s2 lr (set_color Red r))"
            using rl by (cases c) (auto simp: n_def descend_right_def l' r rc ll move_red_right_def Let_def flip_child_def)
          show ?thesis using assms(1,2) rl unfolding n l' r rc ll
            by (cases u; cases "node_left u"; cases lr)
              (auto simp: bendable_def removed_ok_def removed_root_def fix_up_def Let_def split: if_splits)
        next
          case ll: False
          have n: "n = Node e (opposite c) s (set_color Red l) (set_color Red r)"
            using rl ll by (auto simp: n_def descend_right_def l' r rc move_red_right_def Let_def flip_child_def)
          show ?thesis using assms(1,2) rl ll unfolding n l' r rc
            by (cases c; cases u; cases "node_left u"; cases ll)
              (auto simp: bendable_def removed_ok_def removed_root_def fix_up_def Let_def flip_child_def split: if_splits)
        qed
      qed
    qed
  qed
  then show "invh (node_right n)"
    and "invc (node_right n) \<and> bendable (node_right n) \<or>
         rlean (node_right n) \<and> entry_of (node_right n) = Some e \<and> entry_of n = entry_of l"
    and "removed_ok (node_right n) u \<Longrightarrow>
      (if bendable (Node e c s l r) then removed_ok (Node e c s l r) (fix_up (set_right u (set_entry e' n)))
       else removed_root (fix_up (set_right u (set_entry e' n))))"
    and "count (node_right n) = 0 \<Longrightarrow> count l = 0 \<and> count r = 0 \<and> n = Node e c s l r" by blast+
qed

lemma rlean_step:
  assumes "rlean (Node e c s l r)" "invh (Node e c s l r)" and "removed_ok r u"
  shows "removed_ok (Node e c s l r) (fix_up (set_right u (Node e' c s l r)))"
  using assms
  by (cases u; cases "node_left u")
    (auto simp: removed_ok_def fix_up_def Let_def split: if_splits)

section \<open>Removal of the minimum\<close>

lemma size_ok_fix_left:
  assumes "size_ok n" "size_ok u" "count u \<le> count (node_left n)"
  shows "size_ok (fix_up (set_left u n))"
proof (cases n)
  case (Empty c)
  then show ?thesis by (simp add: fix_up_def Let_def flip_child_def)
next
  case (Node e c s l r)
  then show ?thesis using assms by (auto intro!: size_ok_fix_up)
qed

lemma size_ok_fix_right:
  assumes "size_ok n" "size_ok u" "count u \<le> count (node_right n)"
  shows "size_ok (fix_up (set_right u (set_entry e' n)))"
proof (cases n)
  case (Empty c)
  then show ?thesis by (simp add: fix_up_def Let_def flip_child_def)
next
  case (Node e c s l r)
  then show ?thesis using assms by (auto intro!: size_ok_fix_up)
qed

lemma size_ok_descend_left: "size_ok t \<Longrightarrow> size_ok (descend_left t)"
  by (simp add: descend_left_def size_ok_move_red_left)

lemma size_ok_descend_right: "size_ok t \<Longrightarrow> size_ok (descend_right t)"
  by (simp add: descend_right_def Let_def size_ok_move_red_right size_ok_rotate_right)

lemma inorder_descend_left [simp]: "inorder (descend_left t) = inorder t"
  by (simp add: descend_left_def)

lemma inorder_descend_right [simp]: "inorder (descend_right t) = inorder t"
  by (simp add: descend_right_def Let_def)

lemma descend_Node:
  obtains e' c' s' l' r' where "descend_left (Node e c s l r) = Node e' c' s' l' r'"
  using count_inorder_eq[OF inorder_descend_left[of "Node e c s l r"]]
  by (cases "descend_left (Node e c s l r)") auto

lemma descend_right_Node:
  obtains e' c' s' l' r' where "descend_right (Node e c s l r) = Node e' c' s' l' r'"
  using count_inorder_eq[OF inorder_descend_right[of "Node e c s l r"]]
  by (cases "descend_right (Node e c s l r)") auto

lemma count_descend_left: "count (node_left t) \<le> count (node_left (descend_left t))"
proof -
  have rot: "count (node_left t) \<le> count (node_left (rotate_left t))" for t :: "('a, 'b) llrb"
    by (cases t rule: rotate_left.cases) simp_all
  have flip: "count (node_left (flip_color t)) = count (node_left t)" for t :: "('a, 'b) llrb"
    by (cases t) simp_all
  have right: "node_left (set_right r t) = node_left t" for r t :: "('a, 'b) llrb"
    by (cases t) simp_all
  show ?thesis
    using rot[of "set_right (rotate_right (node_right (flip_color t))) (flip_color t)"]
    by (simp add: descend_left_def move_red_left_def Let_def flip right)
qed

lemma single_removed:
  "invc (Node e c s (Empty d) r) \<Longrightarrow> invh (Node e c s (Empty d) r) \<Longrightarrow>
   (bendable (Node e c s (Empty d) r) \<longrightarrow> removed_ok (Node e c s (Empty d) r) (Empty Black))
   \<and> removed_root (Empty Black) \<and> count r = 0"
  by (cases r) (auto simp: removed_ok_def removed_root_def bendable_def split: if_splits)

lemma remove_min_step:
  assumes "count l \<noteq> 0" "size_ok (Node e c s l r)"
  shows "remove_min (Node e c s l r) =
    fix_up (set_left (remove_min (node_left (descend_left (Node e c s l r)))) (descend_left (Node e c s l r)))"
  using assms by (simp add: descend_left_def Let_def node_empty_size_ok)

lemma remove_min_correct:
  "size_ok t \<Longrightarrow> invc t \<Longrightarrow> invh t \<Longrightarrow> bendable t \<Longrightarrow>
   removed_ok t (remove_min t) \<and> size_ok (remove_min t) \<and> inorder (remove_min t) = tl (inorder t)"
proof (induction "count t" arbitrary: t rule: less_induct)
  case less
  show ?case
  proof (cases t)
    case (Empty c)
    then show ?thesis using less.prems by (simp add: removed_ok_def)
  next
    case (Node e c s l r)
    show ?thesis
    proof (cases "count l = 0")
      case True
      then obtain d where d: "l = Empty d" using count_0_Empty by blast
      have "count r = 0" "removed_ok t (Empty Black)"
        using single_removed[of e c s d r] less.prems unfolding Node d by blast+
      then have "inorder r = []" using length_inorder[of r] by simp
      then show ?thesis using Node d \<open>removed_ok t (Empty Black)\<close> by (simp add: node_empty_def)
    next
      case False
      define n where "n = descend_left t"
      define u where "u = remove_min (node_left n)"
      obtain e' c' s' l' r' where n': "n = Node e' c' s' l' r'"
        unfolding n_def Node by (rule descend_Node)
      have ino: "inorder t = inorder l' @ e' # inorder r'"
        using inorder_descend_left[of t] unfolding n_def[symmetric] n' by simp
      have "count t = count l' + 1 + count r'" using length_inorder[of t] ino by (simp add: length_inorder)
      then have smaller: "count (node_left n) < count t" by (simp add: n')
      have sn: "size_ok n" unfolding n_def by (rule size_ok_descend_left[OF less.prems(1)])
      note L = left_step[OF less.prems(2,3)[unfolded Node], folded Node, folded n_def]
      have IH: "removed_ok (node_left n) u \<and> size_ok u \<and> inorder u = tl (inorder (node_left n))"
        unfolding u_def using less.hyps[OF smaller] size_ok_node_left[OF sn] L(1-3) by blast
      have rm: "remove_min t = fix_up (set_left u n)"
        using remove_min_step[OF False less.prems(1)[unfolded Node]] unfolding Node u_def n_def .
      have "removed_ok t (fix_up (set_left u n))" using L(4)[of u] IH less.prems(4) by simp
      moreover have "count u \<le> count (node_left n)"
        using IH length_inorder[of u] length_inorder[of "node_left n"] by simp
      then have "size_ok (fix_up (set_left u n))"
        using size_ok_fix_left[OF sn] IH by blast
      moreover have "inorder (fix_up (set_left u n)) = tl (inorder t)"
      proof -
        have "inorder l' \<noteq> []"
        proof
          assume "inorder l' = []"
          then have "count (node_left n) = 0" using length_inorder[of l'] n' by simp
          moreover have "count (node_left n) \<noteq> 0"
            using False count_descend_left[of t] unfolding n_def by (simp add: Node)
          ultimately show False by simp
        qed
        then show ?thesis using IH by (simp add: n' ino)
      qed
      ultimately show ?thesis unfolding rm by blast
    qed
  qed
qed

section \<open>Removal of a key\<close>

lemma node_min_hd: "size_ok t \<Longrightarrow> count t \<noteq> 0 \<Longrightarrow> entry_of (node_min t) = Some (hd (inorder t))"
proof (induction t)
  case (Node e c s l r)
  show ?case
  proof (cases "count l = 0")
    case True
    then have "inorder l = []" using length_inorder[of l] by simp
    with True Node show ?thesis by (simp add: node_empty_size_ok)
  next
    case False
    then have "inorder l \<noteq> []" using length_inorder[of l] by auto
    with False Node show ?thesis by (simp add: node_empty_size_ok)
  qed
qed simp

lemma node_max_last: "size_ok t \<Longrightarrow> count t \<noteq> 0 \<Longrightarrow> entry_of (node_max t) = Some (last (inorder t))"
proof (induction t)
  case (Node e c s l r)
  show ?case
  proof (cases "count r = 0")
    case True
    then have "inorder r = []" using length_inorder[of r] by simp
    with True Node show ?thesis by (simp add: node_empty_size_ok)
  next
    case False
    then have "inorder r \<noteq> []" using length_inorder[of r] by auto
    with False Node show ?thesis by (simp add: node_empty_size_ok)
  qed
qed simp

text \<open>Removal of a key, written over the two descents.\<close>

lemma inner_erase_less:
  assumes "size_ok (Node e c s l r)" "cmp key (fst e) = Ascending"
  shows "inner_erase cmp key (Node e c s l r) =
    fix_up (set_left (inner_erase cmp key (node_left (descend_left (Node e c s l r))))
       (descend_left (Node e c s l r)))"
  using assms by (simp add: descend_left_def Let_def node_empty_size_ok)

lemma inner_erase_ge:
  assumes sz: "size_ok (Node e c s l r)" and "cmp key (fst e) \<noteq> Ascending"
  defines "n \<equiv> descend_right (Node e c s l r)"
  shows "inner_erase cmp key (Node e c s l r) =
    (if key_cmp cmp key n = Some Same then
       if count (node_right n) = 0 then Empty Black
       else fix_up (set_right (remove_min (node_right n)) (set_entry (hd (inorder (node_right n))) n))
     else fix_up (set_right (inner_erase cmp key (node_right n)) n))"
proof -
  define m where "m = (if red l then rotate_right (Node e c s l r) else Node e c s l r)"
  have sm: "size_ok m" using sz by (simp add: m_def size_ok_rotate_right del: rotate_right.simps)
  have n: "n = (if \<not> node_empty (node_right m) \<and> \<not> red (node_right m) \<and> \<not> red (node_left (node_right m))
      then move_red_right m else m)"
    using node_empty_size_ok[OF size_ok_node_right[OF sm]]
    by (simp add: n_def descend_right_def m_def Let_def)
  have sn: "size_ok (node_right n)"
    unfolding n_def by (rule size_ok_node_right[OF size_ok_descend_right[OF sz]])
  have e: "\<not> node_empty (Node e c s l r)" using sz by (simp add: node_empty_size_ok)
  have "inner_erase cmp key (Node e c s l r) =
    (if key_cmp cmp key n = Some Same then
       if node_empty (node_right n) then Empty Black
       else (case entry_of (node_min (node_right n)) of
               None \<Rightarrow> fix_up (set_right (remove_min (node_right n)) n)
             | Some e' \<Rightarrow> fix_up (set_right (remove_min (node_right n)) (set_entry e' n)))
     else fix_up (set_right (inner_erase cmp key (node_right n)) n))"
    using assms(2) e unfolding inner_erase.simps(2) Let_def n m_def by (simp only: if_False simp_thms)
  then show ?thesis
    using node_empty_size_ok[OF sn] node_min_hd[OF sn] by simp
qed

lemma split_at_later:
  "xs @ e # ys = xs' @ e' # ys' \<Longrightarrow> length xs \<le> length xs' \<Longrightarrow> e' = e \<or> e' \<in> set ys"
  by (auto simp: append_eq_append_conv2 Cons_eq_append_conv)

lemma split_at_earlier:
  assumes "xs @ e # ys = xs' @ e' # ys'" "length ys \<le> length ys'"
  shows "e' = e \<or> e' \<in> set xs"
proof -
  have "length xs' \<le> length xs"
    using arg_cong[OF assms(1), of length] assms(2) by simp
  with assms(1) show ?thesis
    by (auto simp: append_eq_append_conv2 Cons_eq_append_conv append_eq_Cons_conv)
qed

lemma count_descend_right: "count (node_right t) \<le> count (node_right (descend_right t))"
proof -
  have rot: "count (node_right t) \<le> count (node_right (rotate_right t))" for t :: "('a, 'b) llrb"
    by (cases t rule: rotate_right.cases) simp_all
  have flip: "count (node_right (flip_color t)) = count (node_right t)" for t :: "('a, 'b) llrb"
    by (cases t) simp_all
  have mrr: "count (node_right t) \<le> count (node_right (move_red_right t))" for t :: "('a, 'b) llrb"
    using rot[of "flip_color t"] by (simp add: move_red_right_def Let_def flip)
  show ?thesis
    using rot[of t] mrr[of t] mrr[of "rotate_right t"] by (simp add: descend_right_def Let_def)
qed

lemma set_entry_self: "entry_of n = Some e \<Longrightarrow> set_entry e n = n"
  by (cases n) simp_all

lemma inorder_set_left_fix:
  "entry_of n = Some e \<Longrightarrow> inorder (fix_up (set_left u n)) = inorder u @ e # inorder (node_right n)"
  by (cases n) simp_all

lemma inorder_set_right_fix:
  "entry_of n = Some e \<Longrightarrow>
   inorder (fix_up (set_right u (set_entry e' n))) = inorder (node_left n) @ e' # inorder u"
  by (cases n) simp_all

lemma inorder_parts:
  "entry_of n = Some e \<Longrightarrow> inorder n = inorder (node_left n) @ e # inorder (node_right n)"
  by (cases n) simp_all

definition erase_pre :: "('k \<Rightarrow> 'k \<Rightarrow> comparison_result) \<Rightarrow> 'k \<Rightarrow> ('k, 'v) llrb \<Rightarrow> bool" where
  "erase_pre cmp key t = (size_ok t \<and> invh t \<and> sorted_keys cmp (inorder t) \<and>
     (invc t \<or> rlean t \<and> key_cmp cmp key t \<noteq> Some Ascending))"

definition erase_post ::
  "('k \<Rightarrow> 'k \<Rightarrow> comparison_result) \<Rightarrow> 'k \<Rightarrow> ('k, 'v) llrb \<Rightarrow> ('k, 'v) llrb \<Rightarrow> bool" where
  "erase_post cmp key t u = (size_ok u \<and> inorder u = al_del cmp key (inorder t) \<and>
     (if bendable t \<or> rlean t then removed_ok t u else removed_root u))"

lemma length_al_del_le: "length (al_del cmp k es) \<le> length es"
  by (induction es) auto

lemma erase_post_count: "erase_post cmp key t u \<Longrightarrow> count u \<le> count t"
  unfolding erase_post_def using length_inorder[of u] length_inorder[of t] length_al_del_le
  by metis

text \<open>The right descent of a node that already leans right is the node itself.\<close>

lemma descend_right_rlean: "rlean t \<Longrightarrow> descend_right t = t"
  by (cases t) (auto simp: descend_right_def)

context total_comparator
begin

lemma erase_left_step:
  fixes e :: "'a \<times> 'v"
  assumes pre: "erase_pre cmp key (Node e c s l r)" and lt: "cmp key (fst e) = Ascending"
    and IH: "\<And>t :: ('a, 'v) llrb. count t < count (Node e c s l r) \<Longrightarrow> erase_pre cmp key t \<Longrightarrow> erase_post cmp key t (inner_erase cmp key t)"
  shows "erase_post cmp key (Node e c s l r) (inner_erase cmp key (Node e c s l r))"
proof -
  let ?t = "Node e c s l r"
  define n where "n = descend_left ?t"
  define u where "u = inner_erase cmp key (node_left n)"
  from descend_Node obtain e' where e': "entry_of n = Some e'" unfolding n_def by (metis entry_of.simps(2))
  have inv: "invc ?t" "invh ?t" "size_ok ?t" "sorted_keys cmp (inorder ?t)"
    using pre lt by (auto simp: erase_pre_def key_cmp_def)
  have ino: "inorder ?t = inorder (node_left n) @ e' # inorder (node_right n)"
    using inorder_parts[OF e'] inorder_descend_left[of ?t] by (simp add: n_def)
  note L = left_step[OF inv(1,2), folded n_def]
  have sn: "size_ok n" unfolding n_def by (rule size_ok_descend_left[OF inv(3)])
  have "erase_post cmp key (node_left n) u" unfolding u_def
  proof (rule IH)
    show "count (node_left n) < count ?t"
      using length_inorder[of ?t] unfolding ino by (simp add: length_inorder)
    show "erase_pre cmp key (node_left n)"
      using L(1,2) size_ok_node_left[OF sn] inv(4) unfolding erase_pre_def ino by simp
  qed
  note post = this
  then have u: "removed_ok (node_left n) u" "size_ok u" "inorder u = al_del cmp key (inorder (node_left n))"
    using L(3) by (auto simp: erase_post_def)
  note u4 = erase_post_count[OF post]
  have "length (inorder l) \<le> length (inorder (node_left n))"
    using count_descend_left[of ?t] by (simp add: length_inorder n_def)
  then have "e' = e \<or> e' \<in> set (inorder r)"
    using split_at_later[of "inorder l" e "inorder r"] ino by simp
  then have "cmp key (fst e') = Ascending" using lt inv(4) asc_trans by auto
  then have "inorder (fix_up (set_left u n)) = al_del cmp key (inorder ?t)"
    unfolding inorder_set_left_fix[OF e'] u(3) ino using inv(4) ino al_del_less by metis
  moreover have "\<not> rlean ?t" using inv(1) by auto
  moreover have "inner_erase cmp key ?t = fix_up (set_left u n)"
    unfolding u_def n_def using inv(3) lt by (rule inner_erase_less)
  ultimately show ?thesis
    using L(4)[OF u(1)] size_ok_fix_left[OF sn u(2) u4]
    by (simp only: erase_post_def simp_thms)
qed

text \<open>One level to the right, for a normal node and for one that leans right.\<close>

lemma erase_right_facts:
  fixes e :: "'a \<times> 'v"
  assumes pre: "erase_pre cmp key (Node e c s l r)" and ge: "cmp key (fst e) \<noteq> Ascending"
  defines "t \<equiv> Node e c s l r"
  defines "n \<equiv> descend_right t"
  obtains e' where "entry_of n = Some e'"
    and "inorder t = inorder (node_left n) @ e' # inorder (node_right n)"
    and "cmp key (fst e') \<noteq> Ascending"
    and "size_ok n"
    and "erase_pre cmp key (node_right n)"
    and "bendable (node_right n) \<or> rlean (node_right n)"
    and "cmp key (fst e') = Same \<Longrightarrow> invc (node_right n) \<and> bendable (node_right n)"
    and "\<And>u f. removed_ok (node_right n) u \<Longrightarrow>
      (if bendable t \<or> rlean t then removed_ok t (fix_up (set_right u (set_entry f n)))
       else removed_root (fix_up (set_right u (set_entry f n))))"
    and "count (node_right n) = 0 \<Longrightarrow>
      inorder t = [e'] \<and> (if bendable t \<or> rlean t then removed_ok t (Empty Black :: ('a, 'v) llrb)
        else removed_root (Empty Black :: ('a, 'v) llrb))"
proof -
  from descend_right_Node obtain e' where e': "entry_of n = Some e'"
    unfolding n_def t_def by (metis entry_of.simps(2))
  have inv: "invh t" "size_ok t" "sorted_keys cmp (inorder t)" "invc t \<or> rlean t"
    using pre by (auto simp: erase_pre_def t_def)
  have ino: "inorder t = inorder (node_left n) @ e' # inorder (node_right n)"
    using inorder_parts[OF e'] inorder_descend_right[of t] by (simp add: n_def)
  have sn: "size_ok n" unfolding n_def by (rule size_ok_descend_right[OF inv(2)])
  have "length (inorder r) \<le> length (inorder (node_right n))"
    using count_descend_right[of t] by (simp add: length_inorder n_def t_def)
  then have at: "e' = e \<or> e' \<in> set (inorder l)"
    using split_at_earlier[of "inorder l" e "inorder r"] ino by (simp add: t_def)
  then have "cmp key (fst e') \<noteq> Ascending"
    using ge inv(3) asc_trans by (auto simp: t_def)
  moreover have key: "key_cmp cmp key (node_right n) \<noteq> Some Ascending" if "entry_of (node_right n) = Some e"
    using that ge by (simp add: key_cmp_def)
  have right: "invh (node_right n)"
      "invc (node_right n) \<and> bendable (node_right n) \<or> rlean (node_right n) \<and> entry_of (node_right n) = Some e"
    and step: "removed_ok (node_right n) u \<Longrightarrow>
      (if bendable t \<or> rlean t then removed_ok t (fix_up (set_right u (set_entry f n)))
       else removed_root (fix_up (set_right u (set_entry f n))))"
    and last: "count (node_right n) = 0 \<Longrightarrow> inorder t = [e'] \<and>
       (if bendable t \<or> rlean t then removed_ok t (Empty Black :: ('a, 'v) llrb)
        else removed_root (Empty Black :: ('a, 'v) llrb))" for u f
  proof -
    have "invh (node_right n) \<and>
      (invc (node_right n) \<and> bendable (node_right n) \<or> rlean (node_right n) \<and> entry_of (node_right n) = Some e) \<and>
      (removed_ok (node_right n) u \<longrightarrow>
        (if bendable t \<or> rlean t then removed_ok t (fix_up (set_right u (set_entry f n)))
         else removed_root (fix_up (set_right u (set_entry f n))))) \<and>
      (count (node_right n) = 0 \<longrightarrow> inorder t = [e'] \<and>
        (if bendable t \<or> rlean t then removed_ok t (Empty Black :: ('a, 'v) llrb)
         else removed_root (Empty Black :: ('a, 'v) llrb)))"
    proof (cases "rlean t")
      case True
      then have n: "n = t" by (simp add: n_def descend_right_rlean)
      have "invc r" "red r" "invh r" "count r \<noteq> 0" using True inv(1) by (cases r; simp add: t_def)+
      then show ?thesis
        using rlean_step[OF True[unfolded t_def] inv(1)[unfolded t_def]] True
        unfolding n by (simp add: t_def bendable_def)
    next
      case False
      then have ic: "invc t" using inv(4) by simp
      note R = right_step[OF ic[unfolded t_def] inv(1)[unfolded t_def], folded t_def, folded n_def]
      have "inorder t = [e'] \<and> (if bendable t then removed_ok t (Empty Black :: ('a, 'v) llrb)
         else removed_root (Empty Black :: ('a, 'v) llrb))" if 0: "count (node_right n) = 0"
      proof -
        from R(4)[OF 0] obtain d where d: "l = Empty d" "inorder r = []" "n = t"
          using count_0_Empty length_inorder[of r] by auto
        then show ?thesis
          using single_removed[of e c s d r] ic inv(1) e' by (auto simp: t_def)
      qed
      with R False show ?thesis by (simp only: simp_thms) blast
    qed
    then show "invh (node_right n)"
      "invc (node_right n) \<and> bendable (node_right n) \<or> rlean (node_right n) \<and> entry_of (node_right n) = Some e"
      "removed_ok (node_right n) u \<Longrightarrow>
      (if bendable t \<or> rlean t then removed_ok t (fix_up (set_right u (set_entry f n)))
       else removed_root (fix_up (set_right u (set_entry f n))))"
      "count (node_right n) = 0 \<Longrightarrow> inorder t = [e'] \<and>
       (if bendable t \<or> rlean t then removed_ok t (Empty Black :: ('a, 'v) llrb)
        else removed_root (Empty Black :: ('a, 'v) llrb))"
      by blast+
  qed
  have "erase_pre cmp key (node_right n)"
    using right key size_ok_node_right[OF sn] inv(3) unfolding erase_pre_def ino by auto
  moreover have "invc (node_right n) \<and> bendable (node_right n)" if "cmp key (fst e') = Same"
  proof (rule ccontr)
    assume "\<not> (invc (node_right n) \<and> bendable (node_right n))"
    with right(2) have "entry_of (node_right n) = Some e" by simp
    then have "e \<in> set (inorder (node_right n))" by (cases "node_right n") auto
    then have "cmp (fst e') (fst e) = Ascending" using inv(3) unfolding ino by auto
    with that ge same_cong_left[OF that, of "fst e"] show False by simp
  qed
  moreover have "bendable (node_right n) \<or> rlean (node_right n)" using right(2) by blast
  ultimately show ?thesis using that[OF e' ino _ sn _ _ _ step last] by simp
qed

lemma erase_right_step:
  fixes e :: "'a \<times> 'v"
  assumes pre: "erase_pre cmp key (Node e c s l r)" and ge: "cmp key (fst e) \<noteq> Ascending"
    and IH: "\<And>t :: ('a, 'v) llrb. count t < count (Node e c s l r) \<Longrightarrow> erase_pre cmp key t \<Longrightarrow>
      erase_post cmp key t (inner_erase cmp key t)"
  shows "erase_post cmp key (Node e c s l r) (inner_erase cmp key (Node e c s l r))"
proof -
  let ?t = "Node e c s l r"
  define n where "n = descend_right ?t"
  show ?thesis
  proof (rule erase_right_facts[OF pre ge, folded n_def], goal_cases)
    case (1 e')
    note e' = 1(1) and ino = 1(2) and ge' = 1(3) and sn = 1(4) and preR = 1(5) and bend = 1(6)
      and same = 1(7) and step = 1(8) and last = 1(9)
    have st: "size_ok ?t" and so: "sorted_keys cmp (inorder ?t)" using pre by (auto simp: erase_pre_def)
    have del: "al_del cmp key (inorder ?t) = inorder (node_left n) @ al_del cmp key (e' # inorder (node_right n))"
      using al_del_ge[OF ge', of "inorder (node_left n)" "inorder (node_right n)"] so unfolding ino by simp
    note eq = inner_erase_ge[where cmp = cmp and key = key, OF st ge, folded n_def]
    have kc: "key_cmp cmp key n = Some (cmp key (fst e'))" using e' by (simp add: key_cmp_def)
    show ?thesis
    proof (cases "cmp key (fst e') = Same")
      case True
      show ?thesis
      proof (cases "count (node_right n) = 0")
        case 0: True
        with True last[OF 0] eq kc del show ?thesis
          by (cases e') (auto simp: erase_post_def)
      next
        case False
        define u where "u = remove_min (node_right n)"
        have u: "removed_ok (node_right n) u" "size_ok u" "inorder u = tl (inorder (node_right n))"
          using remove_min_correct[of "node_right n"] same[OF True] preR by (auto simp: u_def erase_pre_def)
        have ne: "inorder (node_right n) \<noteq> []" using False length_inorder[of "node_right n"] by auto
        have cu: "count u \<le> count (node_right n)"
          using u(3) length_inorder[of u] length_inorder[of "node_right n"] by simp
        have "inner_erase cmp key ?t = fix_up (set_right u (set_entry (hd (inorder (node_right n))) n))"
          using eq kc True False by (simp add: u_def)
        then show ?thesis
          using step[OF u(1)] size_ok_fix_right[OF sn u(2) cu] inorder_set_right_fix[OF e'] u(3) ne True del
          by (cases e') (simp add: erase_post_def)
      qed
    next
      case False
      define u where "u = inner_erase cmp key (node_right n)"
      have small: "count (node_right n) < count ?t"
        using length_inorder[of ?t] unfolding ino by (simp add: length_inorder)
      note post = IH[OF small preR, folded u_def]
      then have u: "removed_ok (node_right n) u" "size_ok u" "inorder u = al_del cmp key (inorder (node_right n))"
        using bend by (auto simp: erase_post_def split: if_splits)
      have "inner_erase cmp key ?t = fix_up (set_right u (set_entry e' n))"
        using eq kc False set_entry_self[OF e'] by (simp add: u_def)
      then show ?thesis
        using step[OF u(1)] size_ok_fix_right[OF sn u(2) erase_post_count[OF post]]
          inorder_set_right_fix[OF e'] u(3) False del
        by (cases e') (simp add: erase_post_def)
    qed
  qed
qed

lemma inner_erase_correct:
  "erase_pre cmp key t \<Longrightarrow> erase_post cmp key t (inner_erase cmp key t)"
proof (induction "count t" arbitrary: t rule: less_induct)
  case less
  show ?case
  proof (cases t)
    case (Empty c)
    then show ?thesis using less.prems
      by (auto simp: erase_pre_def erase_post_def removed_ok_def removed_root_def)
  next
    case (Node e c s l r)
    then show ?thesis
      using erase_left_step[of key e c s l r] erase_right_step[of key e c s l r] less by blast
  qed
qed

end

section \<open>The public operations\<close>

lemma removed_root_of_ok: "removed_ok t u \<Longrightarrow> removed_root u"
  by (simp add: removed_ok_def removed_root_def invc_invc2)

context total_comparator
begin

lemma node_insert_correct:
  assumes "llrb_ok t" "\<not> red t" "sorted_keys cmp (inorder t)" "count t + 1 < 2 ^ 31"
  shows "llrb_ok (node_insert cmp k v t) \<and> \<not> red (node_insert cmp k v t) \<and>
    inorder (node_insert cmp k v t) = al_put cmp k v (inorder t)"
proof -
  have s: "size_ok t" using assms(1) by (simp add: llrb_ok_def)
  note I = inner_insert_inv[OF assms(1), of cmp k v]
  have "llrb_ok (node_insert cmp k v t) \<and> \<not> red (node_insert cmp k v t)"
    unfolding node_insert_def
    using I inner_insert_count[OF s assms(4), of cmp k v] assms(2) by (intro llrb_ok_fix_root) auto
  then show ?thesis using inorder_inner_insert[OF s assms(3)] by (simp add: node_insert_def)
qed

lemma node_erase_correct:
  assumes "llrb_ok t" "\<not> red t" "sorted_keys cmp (inorder t)"
  shows "llrb_ok (node_erase cmp k t) \<and> \<not> red (node_erase cmp k t) \<and>
    inorder (node_erase cmp k t) = al_del cmp k (inorder t)"
proof -
  have "erase_pre cmp k t" using assms by (simp add: erase_pre_def llrb_ok_def)
  then have P: "erase_post cmp k t (inner_erase cmp k t)" by (rule inner_erase_correct)
  then have R: "removed_root (inner_erase cmp k t)" "size_ok (inner_erase cmp k t)"
    by (auto simp: erase_post_def intro: removed_root_of_ok split: if_splits)
  have "llrb_ok (node_erase cmp k t) \<and> \<not> red (node_erase cmp k t)"
    unfolding node_erase_def using R by (intro llrb_ok_fix_root) (auto simp: removed_root_def)
  then show ?thesis using P by (simp add: erase_post_def node_erase_def)
qed

end

section \<open>Balance\<close>

fun tree_height :: "('k, 'v) llrb \<Rightarrow> nat" where
  "tree_height (Empty c) = 0"
| "tree_height (Node e c s l r) = Suc (max (tree_height l) (tree_height r))"

lemma height_le_bheight:
  "invc t \<Longrightarrow> invh t \<Longrightarrow> tree_height t \<le> 2 * bheight t + (if red t then 1 else 0)"
  by (induction t) (auto split: if_splits)

lemma bheight_le_count: "invh t \<Longrightarrow> 2 ^ bheight t \<le> count t + 1"
  by (induction t) auto

end
