(* ===== verification/ArraySortedMap.thy ===== *)
theory ArraySortedMap
  imports SortedSpec "HOL-Library.Word"
begin

text \<open>
  \<open>immutable/array_sorted_map.h\<close>: the fixed-capacity array behind small sorted maps.  A
  \<open>FixedArray\<close> is the list of its used elements; appending beyond \<open>kFixedSize\<close> fails the
  assertion of the code.  Iterators are positions, \<open>end()\<close> is the length.  The positions the
  standard algorithms return (\<open>std::lower_bound\<close>, \<open>std::find_if\<close>) are the first position
  at which the predicate changes, resp. holds.
\<close>

type_synonym ('k, 'v) array_map = "('k \<times> 'v) list"

definition kFixedSize :: nat where
  "kFixedSize = 25"

definition npos :: "32 word" where
  "npos = -1"

definition fa_append :: "'a list \<Rightarrow> 'a list \<Rightarrow> 'a list result" where
  "fa_append arr src = hard_assert (length arr + length src \<le> kFixedSize) (Inr (arr @ src))"

definition fa_append1 :: "'a list \<Rightarrow> 'a \<Rightarrow> 'a list result" where
  "fa_append1 arr x = hard_assert (length arr + 1 \<le> kFixedSize) (Inr (arr @ [x]))"

definition am_lower_bound :: "('k \<Rightarrow> 'k \<Rightarrow> comparison_result) \<Rightarrow> 'k \<Rightarrow> ('k, 'v) array_map \<Rightarrow> nat" where
  "am_lower_bound cmp key m = length (takeWhile (\<lambda>el. cmp (fst el) key = Ascending) m)"

definition am_find :: "('k \<Rightarrow> 'k \<Rightarrow> comparison_result) \<Rightarrow> 'k \<Rightarrow> ('k, 'v) array_map \<Rightarrow> nat" where
  "am_find cmp key m = length (takeWhile (\<lambda>kv. cmp key (fst kv) \<noteq> Same) m)"

definition am_contains :: "('k \<Rightarrow> 'k \<Rightarrow> comparison_result) \<Rightarrow> 'k \<Rightarrow> ('k, 'v) array_map \<Rightarrow> bool" where
  "am_contains cmp key m = (am_find cmp key m \<noteq> length m)"

definition am_find_index :: "('k \<Rightarrow> 'k \<Rightarrow> comparison_result) \<Rightarrow> 'k \<Rightarrow> ('k, 'v) array_map \<Rightarrow> 32 word" where
  "am_find_index cmp key m =
     (let found = am_find cmp key m in if found = length m then npos else of_nat found)"

definition am_insert ::
  "('k \<Rightarrow> 'k \<Rightarrow> comparison_result) \<Rightarrow> 'k \<Rightarrow> 'v \<Rightarrow> ('k, 'v) array_map \<Rightarrow> ('k, 'v) array_map result" where
  "am_insert cmp key v m =
     (let current_end = length m; pos = am_lower_bound cmp key m;
          replacing_entry = (pos \<noteq> current_end \<and> cmp key (fst (m ! pos)) = Same)
      in if replacing_entry \<and> v = snd (m ! pos) then Inr m
         else rbind (fa_append [] (take pos m)) (\<lambda>copy.
              rbind (fa_append1 copy (key, v)) (\<lambda>copy.
              if replacing_entry then fa_append copy (drop (pos + 1) m)
              else fa_append copy (drop pos m))))"

definition am_erase ::
  "('k \<Rightarrow> 'k \<Rightarrow> comparison_result) \<Rightarrow> 'k \<Rightarrow> ('k, 'v) array_map \<Rightarrow> ('k, 'v) array_map result" where
  "am_erase cmp key m =
     (let current_end = length m; pos = am_find cmp key m
      in if pos = current_end then Inr m
         else if length m \<le> 1 then Inr []
         else rbind (fa_append [] (take pos m)) (\<lambda>copy. fa_append copy (drop (pos + 1) m)))"

definition am_min :: "('k, 'v) array_map \<Rightarrow> nat" where
  "am_min m = 0"

definition am_max :: "('k, 'v) array_map \<Rightarrow> nat" where
  "am_max m = (if length m = 0 then length m else length m - 1)"

text \<open>The constructor from an initialiser list sorts the entries (and keeps duplicates).\<close>

fun insort_cmp :: "('k \<Rightarrow> 'k \<Rightarrow> comparison_result) \<Rightarrow> 'k \<times> 'v \<Rightarrow> ('k \<times> 'v) list \<Rightarrow> ('k \<times> 'v) list" where
  "insort_cmp cmp e [] = [e]"
| "insort_cmp cmp e (f # fs) =
     (if cmp (fst f) (fst e) = Ascending then f # insort_cmp cmp e fs else e # f # fs)"

definition am_SortedArray ::
  "('k \<Rightarrow> 'k \<Rightarrow> comparison_result) \<Rightarrow> ('k \<times> 'v) list \<Rightarrow> ('k, 'v) array_map result" where
  "am_SortedArray cmp es = fa_append [] (foldr (insort_cmp cmp) es [])"

definition am_inv :: "('k \<Rightarrow> 'k \<Rightarrow> comparison_result) \<Rightarrow> ('k, 'v) array_map \<Rightarrow> bool" where
  "am_inv cmp m = (sorted_keys cmp m \<and> length m \<le> kFixedSize)"

section \<open>Positions\<close>

lemma am_find_takeWhile: "take (am_find cmp key m) m = takeWhile (\<lambda>kv. cmp key (fst kv) \<noteq> Same) m"
  by (simp add: am_find_def)

lemma am_find_le: "am_find cmp key m \<le> length m"
  by (simp add: am_find_def length_takeWhile_le)

lemma am_find_end: "(am_find cmp key m = length m) = (al_get cmp key m = None)"
  by (induction m) (auto simp: am_find_def)

lemma am_find_get: "am_find cmp key m \<noteq> length m \<Longrightarrow> al_get cmp key m = Some (snd (m ! am_find cmp key m))"
  by (induction m) (auto simp: am_find_def)

text \<open>
  The insertion as a recursion: an entry with the same key is kept when the value is the same
  and replaced, key and all, otherwise.
\<close>

fun al_ins :: "('k \<Rightarrow> 'k \<Rightarrow> comparison_result) \<Rightarrow> 'k \<Rightarrow> 'v \<Rightarrow> ('k \<times> 'v) list \<Rightarrow> ('k \<times> 'v) list" where
  "al_ins cmp k v [] = [(k, v)]"
| "al_ins cmp k v ((k', v') # es) =
     (case cmp k k' of
        Ascending \<Rightarrow> (k, v) # (k', v') # es
      | Same \<Rightarrow> if v = v' then (k', v') # es else (k, v) # es
      | Descending \<Rightarrow> (k', v') # al_ins cmp k v es)"

definition am_pos_ins :: "('k \<Rightarrow> 'k \<Rightarrow> comparison_result) \<Rightarrow> 'k \<Rightarrow> 'v \<Rightarrow> ('k \<times> 'v) list \<Rightarrow> nat \<Rightarrow> ('k \<times> 'v) list" where
  "am_pos_ins cmp k v m pos =
     (if pos \<noteq> length m \<and> cmp k (fst (m ! pos)) = Same
      then (if v = snd (m ! pos) then m else take pos m @ (k, v) # drop (pos + 1) m)
      else take pos m @ (k, v) # drop pos m)"

lemma am_find_del:
  assumes "al_get cmp key m \<noteq> None"
  shows "take (am_find cmp key m) m @ drop (am_find cmp key m + 1) m = al_del cmp key m"
  using assms by (induction m) (auto simp: am_find_def)

lemma length_al_del: "al_get cmp key m \<noteq> None \<Longrightarrow> length (al_del cmp key m) = length m - 1"
proof (induction m)
  case (Cons e m)
  then show ?case by (cases e; cases m) (auto split: if_splits)
qed simp

lemma al_del_absent: "al_get cmp key m = None \<Longrightarrow> al_del cmp key m = m"
  by (induction m) (auto split: if_splits)

context total_comparator
begin

lemma am_pos_ins_al_ins:
  "am_pos_ins cmp key v m (am_lower_bound cmp key m) = al_ins cmp key v m"
proof (induction m)
  case Nil
  then show ?case by (simp add: am_pos_ins_def am_lower_bound_def)
next
  case (Cons e m)
  obtain k' v' where e: "e = (k', v')" by (cases e)
  show ?case
  proof (cases "cmp k' key = Ascending")
    case True
    then have "cmp key k' = Descending" using flip[of k' key] by simp
    moreover have "am_lower_bound cmp key (e # m) = Suc (am_lower_bound cmp key m)"
      using True by (simp add: e am_lower_bound_def)
    ultimately show ?thesis using Cons by (auto simp: e am_pos_ins_def)
  next
    case False
    then have "cmp key k' = Ascending \<or> cmp key k' = Same"
      using flip[of k' key] by (cases "cmp key k'") auto
    moreover have "am_lower_bound cmp key (e # m) = 0"
      using False by (simp add: e am_lower_bound_def)
    ultimately show ?thesis by (auto simp: e am_pos_ins_def)
  qed
qed

lemma length_al_ins:
  "sorted_keys cmp m \<Longrightarrow> al_get cmp k m \<noteq> None \<Longrightarrow> length (al_ins cmp k v m) = length m"
proof (induction m)
  case (Cons e m)
  obtain k' v' where e: "e = (k', v')" by (cases e)
  have "al_get cmp k m = None" if "cmp k k' = Ascending"
    by (rule al_get_None) (use that Cons.prems asc_trans in \<open>fastforce simp: e\<close>)
  then show ?case using Cons by (auto simp: e split: comparison_result.splits)
qed simp

lemma length_al_ins_le: "length (al_ins cmp k v m) \<le> Suc (length m)"
  by (induction m) (auto split: comparison_result.splits)

lemma al_ins_keys: "x \<in> set (al_ins cmp k v es) \<Longrightarrow> fst x = k \<or> (\<exists>y \<in> set es. fst x = fst y)"
  by (induction es) (auto split: comparison_result.splits if_splits)

lemma sorted_al_ins: "sorted_keys cmp es \<Longrightarrow> sorted_keys cmp (al_ins cmp k v es)"
proof (induction es)
  case (Cons e es)
  obtain k' v' where e: "e = (k', v')" by (cases e)
  have "cmp k' (fst x) = Ascending" if "cmp k k' = Descending" "x \<in> set (al_ins cmp k v es)" for x
    using al_ins_keys[OF that(2)] that(1) Cons.prems desc_iff[of k k'] unfolding e by auto
  moreover have "cmp k (fst x) = Ascending" if "cmp k k' = Same" "x \<in> set es" for x
    using that Cons.prems same_cong_left[of k k' "fst x"] unfolding e by auto
  ultimately show ?case
    using Cons unfolding e by (auto split: comparison_result.splits intro: asc_trans)
qed simp

lemma al_get_al_ins:
  "sorted_keys cmp es \<Longrightarrow> al_get cmp k' (al_ins cmp k v es) = al_get cmp k' (al_put cmp k v es)"
proof (induction es)
  case (Cons e es)
  obtain a b where e: "e = (a, b)" by (cases e)
  have "(cmp k' k = Same) = (cmp k' a = Same)" if "cmp k a = Same"
    using that same_cong_right[of k a k'] by simp
  then show ?case using Cons unfolding e by (auto split: comparison_result.splits)
qed simp

lemma am_insert_room:
  assumes "length m < kFixedSize"
  shows "am_insert cmp key v m = Inr (al_ins cmp key v m)"
proof -
  define p where "p = am_lower_bound cmp key m"
  have p: "p \<le> length m" by (simp add: p_def am_lower_bound_def length_takeWhile_le)
  have "am_insert cmp key v m = Inr (am_pos_ins cmp key v m p)"
    using assms p
    by (auto simp: am_insert_def am_pos_ins_def Let_def fa_append_def fa_append1_def kFixedSize_def
        p_def[symmetric] hard_assert_def)
  then show ?thesis by (simp add: p_def am_pos_ins_al_ins)
qed

text \<open>A full array still accepts a new value for a key it holds, and rejects a new key.\<close>

lemma am_insert_full:
  assumes "am_inv cmp m" "length m = kFixedSize"
  shows "am_insert cmp key v m =
    (if al_get cmp key m = None then Inl HardAssert else Inr (al_ins cmp key v m))"
proof -
  define p where "p = am_lower_bound cmp key m"
  have p: "p \<le> length m" by (simp add: p_def am_lower_bound_def length_takeWhile_le)
  have rep: "(p \<noteq> length m \<and> cmp key (fst (m ! p)) = Same) = (al_get cmp key m \<noteq> None)"
    using assms(1) unfolding p_def am_inv_def
  proof (induction m)
    case (Cons e m)
    have none: "al_get cmp key m = None" if "cmp key (fst e) = Ascending"
      by (rule al_get_None) (use that Cons.prems asc_trans in fastforce)
    show ?case
    proof (cases "cmp (fst e) key = Ascending")
      case True
      then have "cmp key (fst e) = Descending" using flip[of "fst e" key] by simp
      with True Cons show ?thesis by (cases e) (auto simp: am_lower_bound_def)
    next
      case False
      then have "cmp key (fst e) = Ascending \<or> cmp key (fst e) = Same"
        using flip[of "fst e" key] by (cases "cmp key (fst e)") auto
      with False none show ?thesis by (cases e) (auto simp: am_lower_bound_def)
    qed
  qed (simp add: am_lower_bound_def)
  have "am_insert cmp key v m =
    (if al_get cmp key m = None then Inl HardAssert else Inr (am_pos_ins cmp key v m p))"
    using p rep assms(2)
    by (auto simp: am_insert_def am_pos_ins_def Let_def fa_append_def fa_append1_def kFixedSize_def
        p_def[symmetric] hard_assert_def)
  then show ?thesis by (simp add: p_def am_pos_ins_al_ins)
qed

lemma am_erase_eq:
  assumes "length m \<le> kFixedSize"
  shows "am_erase cmp key m = Inr (al_del cmp key m)"
proof (cases "al_get cmp key m = None")
  case True
  then have "am_find cmp key m = length m" by (simp add: am_find_end)
  then show ?thesis by (simp add: am_erase_def al_del_absent True)
next
  case False
  then have f: "am_find cmp key m \<noteq> length m" by (simp add: am_find_end)
  show ?thesis
  proof (cases "length m \<le> 1")
    case True
    then have "al_del cmp key m = []" using length_al_del[OF False] by (cases m) auto
    with True f show ?thesis by (simp add: am_erase_def)
  next
    case big: False
    have "am_find cmp key m < length m" using f am_find_le[of cmp key m] by simp
    then show ?thesis
      using f big assms am_find_del[OF False]
      by (simp add: am_erase_def Let_def fa_append_def hard_assert_def)
  qed
qed

end

context strict_comparator
begin

lemma al_ins_eq_al_put: "al_ins cmp k v es = al_put cmp k v es"
  by (induction es) (auto split: comparison_result.splits)

end

section \<open>The array map meets the contract while it has room\<close>

definition am_inserted :: "('k \<Rightarrow> 'k \<Rightarrow> comparison_result) \<Rightarrow> 'k \<Rightarrow> 'v \<Rightarrow> ('k, 'v) array_map \<Rightarrow> ('k, 'v) array_map" where
  "am_inserted cmp k v m = (case am_insert cmp k v m of Inr m' \<Rightarrow> m' | Inl _ \<Rightarrow> m)"

definition am_erased :: "('k \<Rightarrow> 'k \<Rightarrow> comparison_result) \<Rightarrow> 'k \<Rightarrow> ('k, 'v) array_map \<Rightarrow> ('k, 'v) array_map" where
  "am_erased cmp k m = (case am_erase cmp k m of Inr m' \<Rightarrow> m' | Inl _ \<Rightarrow> m)"

definition am_get :: "('k \<Rightarrow> 'k \<Rightarrow> comparison_result) \<Rightarrow> 'k \<Rightarrow> ('k, 'v) array_map \<Rightarrow> 'v option" where
  "am_get cmp k m = (let i = am_find cmp k m in if i = length m then None else Some (snd (m ! i)))"

lemma am_get_eq: "am_get cmp k m = al_get cmp k m"
  using am_find_get[of cmp k m] am_find_end[of cmp k m] by (auto simp: am_get_def Let_def)

context total_comparator
begin

lemma am_sorted_map:
  "sorted_map cmp (am_inv cmp) (\<lambda>m. length m < kFixedSize) (\<lambda>m. m)
     (am_inserted cmp) (am_erased cmp) (am_get cmp)"
proof unfold_locales
  fix m :: "('a, 'b) array_map" and k v k'
  assume inv: "am_inv cmp m"
  then have s: "sorted_keys cmp m" and l: "length m \<le> kFixedSize" by (simp_all add: am_inv_def)
  show "sorted_keys cmp m" by (rule s)
  show "am_get cmp k m = al_get cmp k m" by (rule am_get_eq)
  have e: "am_erased cmp k m = al_del cmp k m" using am_erase_eq[OF l] by (simp add: am_erased_def)
  show "am_erased cmp k m = al_del cmp k m" by (rule e)
  have "length (al_del cmp k m) \<le> length m"
    using length_al_del[of cmp k m] al_del_absent[of cmp k m] by (cases "al_get cmp k m") auto
  then show "am_inv cmp (am_erased cmp k m)" unfolding e am_inv_def using s l sorted_al_del by auto
  assume "length m < kFixedSize"
  then have i: "am_inserted cmp k v m = al_ins cmp k v m" by (simp add: am_inserted_def am_insert_room)
  show "am_inv cmp (am_inserted cmp k v m)"
    unfolding i am_inv_def using s \<open>length m < kFixedSize\<close> length_al_ins_le[of k v m] sorted_al_ins by auto
  show "al_get cmp k' (am_inserted cmp k v m) = (if cmp k' k = Same then Some v else al_get cmp k' m)"
    unfolding i using s by (simp add: al_get_al_ins al_get_al_put)
qed

end

sublocale total_comparator < am: sorted_map cmp "am_inv cmp" "\<lambda>m. length m < kFixedSize" "\<lambda>m. m"
  "am_inserted cmp" "am_erased cmp" "am_get cmp"
  by (rule am_sorted_map)

end
