(* ===== verification/TreeSortedMap.thy ===== *)
theory TreeSortedMap
  imports LlrbProofs ArraySortedMap
begin

text \<open>
  \<open>immutable/tree_sorted_map.h\<close> and \<open>immutable/llrb_node_iterator.h\<close>: lookups by descent,
  the index of a key by counting pruned nodes, and the forward iterator, which is the stack of
  nodes still to be visited.
\<close>

section \<open>The iterator\<close>

type_synonym ('k, 'v) llrb_iter = "('k, 'v) llrb list"

fun accumulate_left :: "('k, 'v) llrb \<Rightarrow> ('k, 'v) llrb_iter \<Rightarrow> ('k, 'v) llrb_iter" where
  "accumulate_left (Empty c) stack = stack"
| "accumulate_left (Node e c s l r) stack =
     (if node_empty (Node e c s l r) then stack else accumulate_left l (Node e c s l r # stack))"

definition it_begin :: "('k, 'v) llrb \<Rightarrow> ('k, 'v) llrb_iter" where
  "it_begin root = accumulate_left root []"

definition it_is_end :: "('k, 'v) llrb_iter \<Rightarrow> bool" where
  "it_is_end it = (it = [])"

definition it_get :: "('k, 'v) llrb_iter \<Rightarrow> ('k \<times> 'v) result" where
  "it_get it = (case it of [] \<Rightarrow> Inl HardAssert
     | t # _ \<Rightarrow> (case entry_of t of None \<Rightarrow> Inl Unreachable | Some e \<Rightarrow> Inr e))"

definition it_next :: "('k, 'v) llrb_iter \<Rightarrow> ('k, 'v) llrb_iter result" where
  "it_next it = (case it of [] \<Rightarrow> Inl HardAssert | t # stack \<Rightarrow> Inr (accumulate_left (node_right t) stack))"

fun it_lower_bound ::
  "('k \<Rightarrow> 'k \<Rightarrow> comparison_result) \<Rightarrow> 'k \<Rightarrow> ('k, 'v) llrb \<Rightarrow> ('k, 'v) llrb_iter \<Rightarrow> ('k, 'v) llrb_iter" where
  "it_lower_bound cmp key (Empty c) stack = stack"
| "it_lower_bound cmp key (Node e c s l r) stack =
     (if node_empty (Node e c s l r) then stack
      else (case cmp key (fst e) of
              Same \<Rightarrow> Node e c s l r # stack
            | Ascending \<Rightarrow> it_lower_bound cmp key l (Node e c s l r # stack)
            | Descending \<Rightarrow> it_lower_bound cmp key r stack))"

text \<open>The entries an iterator still visits, in order.\<close>

fun it_rest :: "('k, 'v) llrb_iter \<Rightarrow> ('k \<times> 'v) list" where
  "it_rest [] = []"
| "it_rest (Empty c # stack) = it_rest stack"
| "it_rest (Node e c s l r # stack) = e # inorder r @ it_rest stack"

text \<open>Running an iterator to its end, as a range-for loop does; the fuel bounds the steps.\<close>

fun it_run :: "nat \<Rightarrow> ('k, 'v) llrb_iter \<Rightarrow> ('k \<times> 'v) list result" where
  "it_run 0 it = (if it_is_end it then Inr [] else Inl Unreachable)"
| "it_run (Suc fuel) it =
     (if it_is_end it then Inr []
      else rbind (it_get it) (\<lambda>e. rbind (it_next it) (\<lambda>it'. rmap ((#) e) (it_run fuel it'))))"

section \<open>Lookups\<close>

fun tm_contains :: "('k \<Rightarrow> 'k \<Rightarrow> comparison_result) \<Rightarrow> 'k \<Rightarrow> ('k, 'v) llrb \<Rightarrow> bool" where
  "tm_contains cmp key (Empty c) = False"
| "tm_contains cmp key (Node e c s l r) =
     (if node_empty (Node e c s l r) then False
      else (case cmp key (fst e) of
              Same \<Rightarrow> True
            | Ascending \<Rightarrow> tm_contains cmp key l
            | Descending \<Rightarrow> tm_contains cmp key r))"

fun tm_find_index_from ::
  "('k \<Rightarrow> 'k \<Rightarrow> comparison_result) \<Rightarrow> 'k \<Rightarrow> ('k, 'v) llrb \<Rightarrow> 32 word \<Rightarrow> 32 word" where
  "tm_find_index_from cmp key (Empty c) pruned_nodes = npos"
| "tm_find_index_from cmp key (Node e c s l r) pruned_nodes =
     (if node_empty (Node e c s l r) then npos
      else (case cmp key (fst e) of
              Same \<Rightarrow> pruned_nodes + of_nat (node_size l)
            | Ascending \<Rightarrow> tm_find_index_from cmp key l pruned_nodes
            | Descending \<Rightarrow> tm_find_index_from cmp key r (pruned_nodes + (of_nat (node_size l) + 1))))"

definition tm_find_index :: "('k \<Rightarrow> 'k \<Rightarrow> comparison_result) \<Rightarrow> 'k \<Rightarrow> ('k, 'v) llrb \<Rightarrow> 32 word" where
  "tm_find_index cmp key root = tm_find_index_from cmp key root 0"

definition tm_lower_bound :: "('k \<Rightarrow> 'k \<Rightarrow> comparison_result) \<Rightarrow> 'k \<Rightarrow> ('k, 'v) llrb \<Rightarrow> ('k, 'v) llrb_iter" where
  "tm_lower_bound cmp key root = it_lower_bound cmp key root []"

definition tm_find :: "('k \<Rightarrow> 'k \<Rightarrow> comparison_result) \<Rightarrow> 'k \<Rightarrow> ('k, 'v) llrb \<Rightarrow> ('k, 'v) llrb_iter" where
  "tm_find cmp key root =
     (let found = tm_lower_bound cmp key root
      in case found of
           [] \<Rightarrow> []
         | t # _ \<Rightarrow> (if key_cmp cmp key t = Some Same then found else []))"

definition tm_max :: "('k, 'v) llrb \<Rightarrow> ('k, 'v) llrb_iter" where
  "tm_max root = (if node_empty root then [] else [node_max root])"

fun tm_Create_from ::
  "('k \<Rightarrow> 'k \<Rightarrow> comparison_result) \<Rightarrow> ('k \<times> 'v) list \<Rightarrow> ('k, 'v) llrb \<Rightarrow> ('k, 'v) llrb" where
  "tm_Create_from cmp [] node = node"
| "tm_Create_from cmp (e # es) node = tm_Create_from cmp es (node_insert cmp (fst e) (snd e) node)"

definition tm_Create :: "('k \<Rightarrow> 'k \<Rightarrow> comparison_result) \<Rightarrow> ('k \<times> 'v) list \<Rightarrow> ('k, 'v) llrb" where
  "tm_Create cmp es = tm_Create_from cmp es (Empty Black)"

definition tm_inv :: "('k \<Rightarrow> 'k \<Rightarrow> comparison_result) \<Rightarrow> ('k, 'v) llrb \<Rightarrow> bool" where
  "tm_inv cmp t = (llrb_ok t \<and> \<not> red t \<and> sorted_keys cmp (inorder t))"

section \<open>The iterator visits the entries in order\<close>

lemma it_rest_accumulate_left:
  "size_ok t \<Longrightarrow> it_rest (accumulate_left t stack) = inorder t @ it_rest stack"
  by (induction t arbitrary: stack) (auto simp: node_empty_def)

fun it_ok :: "('k, 'v) llrb_iter \<Rightarrow> bool" where
  "it_ok [] = True"
| "it_ok (t # stack) = (size_ok t \<and> count t \<noteq> 0 \<and> it_ok stack)"

lemma it_ok_accumulate_left: "size_ok t \<Longrightarrow> it_ok stack \<Longrightarrow> it_ok (accumulate_left t stack)"
  by (induction t arbitrary: stack) (auto simp: node_empty_def)

lemma it_run_rest:
  "it_ok it \<Longrightarrow> length (it_rest it) \<le> fuel \<Longrightarrow> it_run fuel it = Inr (it_rest it)"
proof (induction fuel arbitrary: it)
  case 0
  then show ?case by (cases it rule: it_rest.cases) (auto simp: it_is_end_def)
next
  case (Suc fuel)
  show ?case
  proof (cases it)
    case Nil
    then show ?thesis by (simp add: it_is_end_def)
  next
    case (Cons t stack)
    then obtain e c s l r where t: "t = Node e c s l r" using Suc.prems(1) by (cases t) auto
    have ok: "size_ok r" "it_ok stack" using Suc.prems(1) Cons t by auto
    have "it_run fuel (accumulate_left r stack) = Inr (inorder r @ it_rest stack)"
      using Suc.IH[OF it_ok_accumulate_left[OF ok]] it_rest_accumulate_left[OF ok(1)] Suc.prems(2)
      by (simp add: Cons t)
    then show ?thesis by (simp add: Cons t it_is_end_def it_get_def it_next_def)
  qed
qed

context total_comparator
begin

lemma al_get_inorder_descend:
  assumes "sorted_keys cmp (xs @ e # ys)"
  shows "al_get cmp k (xs @ e # ys) =
    (case cmp k (fst e) of Same \<Rightarrow> Some (snd e) | Ascending \<Rightarrow> al_get cmp k xs | Descending \<Rightarrow> al_get cmp k ys)"
proof -
  obtain a b where e: "e = (a, b)" by (cases e)
  have l: "al_get cmp k xs = None" if "cmp k a \<noteq> Ascending"
  proof (rule al_get_None, rule ballI)
    fix x assume "x \<in> set xs"
    then have "cmp (fst x) a = Ascending" using assms e by auto
    then show "cmp k (fst x) \<noteq> Same" using that same_cong_left[of k "fst x" a] by auto
  qed
  have r: "al_get cmp k ys = None" if "cmp k a \<noteq> Descending"
  proof (rule al_get_None, rule ballI)
    fix x assume "x \<in> set ys"
    then have "cmp a (fst x) = Ascending" using assms e by auto
    then have "cmp k (fst x) = Ascending" using that le_asc_trans by blast
    then show "cmp k (fst x) \<noteq> Same" by simp
  qed
  show ?thesis
    using l r by (cases "cmp k a") (auto simp: e al_get_append split: option.splits)
qed

lemma tm_contains_get:
  "size_ok t \<Longrightarrow> sorted_keys cmp (inorder t) \<Longrightarrow> tm_contains cmp k t = (al_get cmp k (inorder t) \<noteq> None)"
proof (induction t)
  case (Node e c s l r)
  then show ?case
    using al_get_inorder_descend[of "inorder l" e "inorder r" k]
    by (cases "cmp k (fst e)") (auto simp: node_empty_def)
qed simp

lemma it_lower_bound_rest:
  "size_ok t \<Longrightarrow> sorted_keys cmp (inorder t) \<Longrightarrow>
   it_rest (it_lower_bound cmp k t stack) =
   dropWhile (\<lambda>e. cmp k (fst e) = Descending) (inorder t) @ it_rest stack"
proof (induction t arbitrary: stack)
  case (Node e c s l r)
  have ne: "\<not> node_empty (Node e c s l r)" using Node.prems by (simp add: node_empty_def)
  have dl: "dropWhile (\<lambda>e. cmp k (fst e) = Descending) (inorder l) = []" if "cmp k (fst e) \<noteq> Ascending"
  proof -
    have "cmp k (fst x) = Descending" if "x \<in> set (inorder l)" for x
    proof -
      have "cmp (fst x) (fst e) = Ascending" using that Node.prems by auto
      moreover have "cmp (fst e) k \<noteq> Descending" using \<open>cmp k (fst e) \<noteq> Ascending\<close> desc_iff by blast
      ultimately show ?thesis using asc_le_trans desc_iff by blast
    qed
    then show ?thesis by (simp add: dropWhile_eq_Nil_conv)
  qed
  then have app: "dropWhile (\<lambda>e. cmp k (fst e) = Descending) (inorder l @ zs) =
      dropWhile (\<lambda>e. cmp k (fst e) = Descending) zs" if "cmp k (fst e) \<noteq> Ascending" for zs
    using that by (simp add: dropWhile_append dropWhile_eq_Nil_conv)
  show ?case
  proof (cases "cmp k (fst e)")
    case Ascending
    then have "dropWhile (\<lambda>e. cmp k (fst e) = Descending) (inorder l @ e # inorder r) =
      dropWhile (\<lambda>e. cmp k (fst e) = Descending) (inorder l) @ e # inorder r"
      by (intro dropWhile_append3) simp
    then show ?thesis using Node ne Ascending by simp
  next
    case Same
    then show ?thesis using Node ne app by simp
  next
    case Descending
    then show ?thesis using Node ne app by simp
  qed
qed simp

lemma it_ok_lower_bound: "size_ok t \<Longrightarrow> it_ok stack \<Longrightarrow> it_ok (it_lower_bound cmp k t stack)"
proof (induction t arbitrary: stack)
  case (Node e c s l r)
  then show ?case by (cases "cmp k (fst e)") simp_all
qed simp

lemma tm_find_rest:
  assumes "tm_inv cmp t"
  shows "(case tm_find cmp k t of [] \<Rightarrow> None | n # _ \<Rightarrow> map_option snd (entry_of n)) = al_get cmp k (inorder t)"
proof -
  have s: "size_ok t" "sorted_keys cmp (inorder t)" using assms by (auto simp: tm_inv_def llrb_ok_def)
  define it where "it = tm_lower_bound cmp k t"
  have rest: "it_rest it = dropWhile (\<lambda>e. cmp k (fst e) = Descending) (inorder t)"
    unfolding it_def tm_lower_bound_def using it_lower_bound_rest[OF s, of k "[]"] by simp
  have nodes: "it_ok it"
    unfolding it_def tm_lower_bound_def by (rule it_ok_lower_bound) (use s in simp_all)
  have get: "al_get cmp k es = (case dropWhile (\<lambda>e. cmp k (fst e) = Descending) es of [] \<Rightarrow> None
      | e # _ \<Rightarrow> if cmp k (fst e) = Same then Some (snd e) else None)" if "sorted_keys cmp es" for es :: "('a \<times> 'b) list"
    using that
  proof (induction es)
    case (Cons e es)
    have "al_get cmp k es = None" if "cmp k (fst e) = Ascending"
      by (rule al_get_None) (use that Cons.prems asc_trans in fastforce)
    then show ?case using Cons by (cases e; cases "cmp k (fst e)") auto
  qed simp
  show ?thesis
  proof (cases it)
    case Nil
    then show ?thesis using rest get[OF s(2)] by (simp add: tm_find_def it_def[symmetric])
  next
    case (Cons n stack)
    then obtain e c sz l r where n: "n = Node e c sz l r" using nodes by (cases n) auto
    then have "it_rest it = e # inorder r @ it_rest stack" using Cons by simp
    then have "dropWhile (\<lambda>e. cmp k (fst e) = Descending) (inorder t) = e # inorder r @ it_rest stack"
      using rest by simp
    then show ?thesis using get[OF s(2)] Cons n
      by (simp add: tm_find_def it_def[symmetric] key_cmp_def)
  qed
qed

lemma tm_find_index_from_eq:
  "size_ok t \<Longrightarrow> sorted_keys cmp (inorder t) \<Longrightarrow>
   tm_find_index_from cmp k t p =
   (if al_get cmp k (inorder t) = None then npos
    else p + of_nat (length (takeWhile (\<lambda>e. cmp k (fst e) \<noteq> Same) (inorder t))))"
proof (induction t arbitrary: p)
  case (Node e c s l r)
  have ne: "\<not> node_empty (Node e c s l r)" using Node.prems by (simp add: node_empty_def)
  have sl: "node_size l = length (inorder l)" using Node.prems by (simp add: node_size_count length_inorder)
  note get = al_get_inorder_descend[of "inorder l" e "inorder r" k]
  have notl: "\<forall>x \<in> set (inorder l). cmp k (fst x) \<noteq> Same" if "cmp k (fst e) \<noteq> Ascending"
  proof
    fix x assume "x \<in> set (inorder l)"
    then have "cmp (fst x) (fst e) = Ascending" using Node.prems by auto
    then show "cmp k (fst x) \<noteq> Same" using that same_cong_left[of k "fst x" "fst e"] by auto
  qed
  have twl: "takeWhile (\<lambda>e. cmp k (fst e) \<noteq> Same) (inorder l @ zs) =
      inorder l @ takeWhile (\<lambda>e. cmp k (fst e) \<noteq> Same) zs" if "cmp k (fst e) \<noteq> Ascending" for zs
    using notl[OF that] by (intro takeWhile_append2) auto
  show ?case
  proof (cases "cmp k (fst e)")
    case Ascending
    have "takeWhile (\<lambda>e. cmp k (fst e) \<noteq> Same) (inorder l @ e # inorder r) =
        takeWhile (\<lambda>e. cmp k (fst e) \<noteq> Same) (inorder l)" if "al_get cmp k (inorder l) \<noteq> None"
    proof -
      obtain k' v where "(k', v) \<in> set (inorder l)" "cmp k k' = Same"
        using \<open>al_get cmp k (inorder l) \<noteq> None\<close> al_get_Some_set by fastforce
      then show ?thesis by (intro takeWhile_append1[of "(k', v)"]) simp_all
    qed
    then show ?thesis using Node ne get Ascending by auto
  next
    case Same
    then show ?thesis using Node.prems ne get sl twl by simp
  next
    case Descending
    then show ?thesis using Node ne get sl twl by (simp add: algebra_simps)
  qed
qed simp

lemma tm_Create_from_correct:
  "tm_inv cmp t \<Longrightarrow> count t + length es < 2 ^ 31 \<Longrightarrow>
   tm_inv cmp (tm_Create_from cmp es t) \<and>
   inorder (tm_Create_from cmp es t) = foldl (\<lambda>m e. al_put cmp (fst e) (snd e) m) (inorder t) es"
proof (induction es arbitrary: t)
  case (Cons e es)
  have c: "count t + 1 < 2 ^ 31" using Cons.prems by simp
  define u where "u = node_insert cmp (fst e) (snd e) t"
  have u: "tm_inv cmp u" "inorder u = al_put cmp (fst e) (snd e) (inorder t)"
    using node_insert_correct[of t "fst e" "snd e"] Cons.prems(1) c sorted_al_put
    by (auto simp: tm_inv_def u_def)
  have "count u \<le> count t + 1"
    using u(2) length_inorder[of u] length_inorder[of t] length_al_put[of cmp "fst e" "snd e" "inorder t"] by simp
  then show ?case using Cons.IH[OF u(1)] Cons.prems(2) u(2) by (simp add: u_def[symmetric])
qed simp

lemma tm_sorted_map:
  "sorted_map cmp (tm_inv cmp) (\<lambda>m. count m + 1 < 2 ^ 31) inorder
     (node_insert cmp) (node_erase cmp)
     (\<lambda>k t. case tm_find cmp k t of [] \<Rightarrow> None | n # _ \<Rightarrow> map_option snd (entry_of n))"
proof unfold_locales
  fix m :: "('a, 'b) llrb" and k v k'
  assume inv: "tm_inv cmp m"
  then have s: "llrb_ok m" "\<not> red m" "sorted_keys cmp (inorder m)" by (simp_all add: tm_inv_def)
  show "sorted_keys cmp (inorder m)" by (rule s(3))
  show "(case tm_find cmp k m of [] \<Rightarrow> None | n # _ \<Rightarrow> map_option snd (entry_of n)) = al_get cmp k (inorder m)"
    by (rule tm_find_rest[OF inv])
  show "tm_inv cmp (node_erase cmp k m)" "inorder (node_erase cmp k m) = al_del cmp k (inorder m)"
    using node_erase_correct[OF s, of k] sorted_al_del[OF s(3), of k] by (simp_all add: tm_inv_def)
  assume "count m + 1 < 2 ^ 31"
  note I = node_insert_correct[OF s this, of k v]
  show "tm_inv cmp (node_insert cmp k v m)" using I sorted_al_put[OF s(3)] by (simp add: tm_inv_def)
  show "al_get cmp k' (inorder (node_insert cmp k v m)) =
      (if cmp k' k = Same then Some v else al_get cmp k' (inorder m))"
    using I al_get_al_put[OF s(3)] by simp
qed

end

sublocale total_comparator < tm: sorted_map cmp "tm_inv cmp" "\<lambda>m. count m + 1 < 2 ^ 31" inorder
  "node_insert cmp" "node_erase cmp"
  "\<lambda>k t. case tm_find cmp k t of [] \<Rightarrow> None | n # _ \<Rightarrow> map_option snd (entry_of n)"
  by (rule tm_sorted_map)

end
