(* ===== verification/SortedMap.thy ===== *)
theory SortedMap
  imports TreeSortedMap
begin

text \<open>
  \<open>immutable/sorted_map.h\<close>, \<open>immutable/keys_view.h\<close> and \<open>immutable/sorted_set.h\<close>: the map
  the client uses, a tagged union of an array map and a tree map.  Insertion moves to the tree
  once the array is full, removal of the last entry moves back to the array.  A range of
  iterators is the list of the entries its loop visits.
\<close>

section \<open>The tagged union\<close>

datatype ('k, 'v) sm = SM_Array "('k, 'v) array_map" | SM_Tree "('k, 'v) llrb"

datatype ('k, 'v) sm_iter = SI_Array "('k \<times> 'v) list" | SI_Tree "('k, 'v) llrb_iter"

definition sm_new :: "('k, 'v) sm" where
  "sm_new = SM_Array []"

text \<open>
  The constructor from an initialiser list sets the tag only when the entries fit the array;
  beyond that the tag of the object is indeterminate, the value \<open>None\<close> here.
\<close>

definition sm_init_list ::
  "('k \<Rightarrow> 'k \<Rightarrow> comparison_result) \<Rightarrow> ('k \<times> 'v) list \<Rightarrow> ('k, 'v) sm result option" where
  "sm_init_list cmp es =
     (if length es \<le> kFixedSize then Some (rmap SM_Array (am_SortedArray cmp es)) else None)"

fun sm_empty :: "('k, 'v) sm \<Rightarrow> bool" where
  "sm_empty (SM_Array a) = (a = [])"
| "sm_empty (SM_Tree t) = node_empty t"

fun sm_size :: "('k, 'v) sm \<Rightarrow> nat" where
  "sm_size (SM_Array a) = length a"
| "sm_size (SM_Tree t) = node_size t"

fun sm_insert ::
  "('k \<Rightarrow> 'k \<Rightarrow> comparison_result) \<Rightarrow> 'k \<Rightarrow> 'v \<Rightarrow> ('k, 'v) sm \<Rightarrow> ('k, 'v) sm result" where
  "sm_insert cmp key v (SM_Array a) =
     (if kFixedSize \<le> length a
      then (let tree = tm_Create cmp a in Inr (SM_Tree (node_insert cmp key v tree)))
      else rmap SM_Array (am_insert cmp key v a))"
| "sm_insert cmp key v (SM_Tree t) = Inr (SM_Tree (node_insert cmp key v t))"

fun sm_erase :: "('k \<Rightarrow> 'k \<Rightarrow> comparison_result) \<Rightarrow> 'k \<Rightarrow> ('k, 'v) sm \<Rightarrow> ('k, 'v) sm result" where
  "sm_erase cmp key (SM_Array a) = rmap SM_Array (am_erase cmp key a)"
| "sm_erase cmp key (SM_Tree t) =
     (let res = node_erase cmp key t
      in if node_empty res then Inr sm_new else Inr (SM_Tree res))"

fun sm_contains :: "('k \<Rightarrow> 'k \<Rightarrow> comparison_result) \<Rightarrow> 'k \<Rightarrow> ('k, 'v) sm \<Rightarrow> bool" where
  "sm_contains cmp key (SM_Array a) = am_contains cmp key a"
| "sm_contains cmp key (SM_Tree t) = tm_contains cmp key t"

fun sm_find :: "('k \<Rightarrow> 'k \<Rightarrow> comparison_result) \<Rightarrow> 'k \<Rightarrow> ('k, 'v) sm \<Rightarrow> ('k, 'v) sm_iter" where
  "sm_find cmp key (SM_Array a) = SI_Array (drop (am_find cmp key a) a)"
| "sm_find cmp key (SM_Tree t) = SI_Tree (tm_find cmp key t)"

fun sm_find_index :: "('k \<Rightarrow> 'k \<Rightarrow> comparison_result) \<Rightarrow> 'k \<Rightarrow> ('k, 'v) sm \<Rightarrow> 32 word" where
  "sm_find_index cmp key (SM_Array a) = am_find_index cmp key a"
| "sm_find_index cmp key (SM_Tree t) = tm_find_index cmp key t"

fun si_deref :: "('k, 'v) sm_iter \<Rightarrow> ('k \<times> 'v) option" where
  "si_deref (SI_Array es) = (case es of [] \<Rightarrow> None | e # _ \<Rightarrow> Some e)"
| "si_deref (SI_Tree it) = (case it of [] \<Rightarrow> None | n # _ \<Rightarrow> entry_of n)"

definition sm_get :: "('k \<Rightarrow> 'k \<Rightarrow> comparison_result) \<Rightarrow> 'k \<Rightarrow> ('k, 'v) sm \<Rightarrow> 'v option" where
  "sm_get cmp key m = map_option snd (si_deref (sm_find cmp key m))"

fun sm_lower_bound :: "('k \<Rightarrow> 'k \<Rightarrow> comparison_result) \<Rightarrow> 'k \<Rightarrow> ('k, 'v) sm \<Rightarrow> ('k, 'v) sm_iter" where
  "sm_lower_bound cmp key (SM_Array a) = SI_Array (drop (am_lower_bound cmp key a) a)"
| "sm_lower_bound cmp key (SM_Tree t) = SI_Tree (tm_lower_bound cmp key t)"

fun sm_min :: "('k, 'v) sm \<Rightarrow> ('k, 'v) sm_iter" where
  "sm_min (SM_Array a) = SI_Array (drop (am_min a) a)"
| "sm_min (SM_Tree t) = SI_Tree (it_begin t)"

fun sm_max :: "('k, 'v) sm \<Rightarrow> ('k, 'v) sm_iter" where
  "sm_max (SM_Array a) = SI_Array (drop (am_max a) a)"
| "sm_max (SM_Tree t) = SI_Tree (tm_max t)"

fun sm_begin :: "('k, 'v) sm \<Rightarrow> ('k, 'v) sm_iter" where
  "sm_begin (SM_Array a) = SI_Array a"
| "sm_begin (SM_Tree t) = SI_Tree (it_begin t)"

text \<open>What a loop from an iterator to \<open>end()\<close> visits.\<close>

fun si_rest :: "('k, 'v) sm_iter \<Rightarrow> ('k \<times> 'v) list" where
  "si_rest (SI_Array es) = es"
| "si_rest (SI_Tree it) = it_rest it"

definition sm_keys :: "('k, 'v) sm \<Rightarrow> 'k list" where
  "sm_keys m = map fst (si_rest (sm_begin m))"

definition sm_keys_from :: "('k \<Rightarrow> 'k \<Rightarrow> comparison_result) \<Rightarrow> 'k \<Rightarrow> ('k, 'v) sm \<Rightarrow> 'k list" where
  "sm_keys_from cmp key m = map fst (si_rest (sm_lower_bound cmp key m))"

definition sm_keys_in ::
  "('k \<Rightarrow> 'k \<Rightarrow> comparison_result) \<Rightarrow> 'k \<Rightarrow> 'k \<Rightarrow> ('k, 'v) sm \<Rightarrow> 'k list" where
  "sm_keys_in cmp start_key end_key m =
     (let empty_range = (cmp start_key end_key \<noteq> Ascending)
      in if empty_range then []
         else (let range_begin = si_rest (sm_lower_bound cmp start_key m);
                   range_end = si_rest (sm_lower_bound cmp end_key m)
               in map fst (take (length range_begin - length range_end) range_begin)))"

section \<open>Sets\<close>

type_synonym 'k ss = "('k, unit) sm"

definition ss_insert :: "('k \<Rightarrow> 'k \<Rightarrow> comparison_result) \<Rightarrow> 'k \<Rightarrow> 'k ss \<Rightarrow> 'k ss result" where
  "ss_insert cmp key s = sm_insert cmp key () s"

definition ss_of_list :: "('k \<Rightarrow> 'k \<Rightarrow> comparison_result) \<Rightarrow> 'k list \<Rightarrow> 'k ss result" where
  "ss_of_list cmp ks = rfold (\<lambda>m v. sm_insert cmp v () m) sm_new ks"

definition ss_erase :: "('k \<Rightarrow> 'k \<Rightarrow> comparison_result) \<Rightarrow> 'k \<Rightarrow> 'k ss \<Rightarrow> 'k ss result" where
  "ss_erase cmp key s = sm_erase cmp key s"

definition ss_contains :: "('k \<Rightarrow> 'k \<Rightarrow> comparison_result) \<Rightarrow> 'k \<Rightarrow> 'k ss \<Rightarrow> bool" where
  "ss_contains cmp key s = sm_contains cmp key s"

definition ss_union_with :: "('k \<Rightarrow> 'k \<Rightarrow> comparison_result) \<Rightarrow> 'k ss \<Rightarrow> 'k ss \<Rightarrow> 'k ss result" where
  "ss_union_with cmp this other =
     (let (result, other) = (if sm_size this < sm_size other then (other, this) else (this, other))
      in rfold (\<lambda>r k. ss_insert cmp k r) result (sm_keys other))"

definition ss_eq :: "'k ss \<Rightarrow> 'k ss \<Rightarrow> bool" where
  "ss_eq lhs rhs = (if sm_size lhs \<noteq> sm_size rhs then False else sm_keys lhs = sm_keys rhs)"

section \<open>The entries and the invariant\<close>

fun sm_entries :: "('k, 'v) sm \<Rightarrow> ('k \<times> 'v) list" where
  "sm_entries (SM_Array a) = a"
| "sm_entries (SM_Tree t) = inorder t"

fun sm_inv :: "('k \<Rightarrow> 'k \<Rightarrow> comparison_result) \<Rightarrow> ('k, 'v) sm \<Rightarrow> bool" where
  "sm_inv cmp (SM_Array a) = am_inv cmp a"
| "sm_inv cmp (SM_Tree t) = (tm_inv cmp t \<and> inorder t \<noteq> [])"

definition sm_room :: "('k, 'v) sm \<Rightarrow> bool" where
  "sm_room m = (length (sm_entries m) + 1 < 2 ^ 31)"

definition sm_inserted :: "('k \<Rightarrow> 'k \<Rightarrow> comparison_result) \<Rightarrow> 'k \<Rightarrow> 'v \<Rightarrow> ('k, 'v) sm \<Rightarrow> ('k, 'v) sm" where
  "sm_inserted cmp k v m = (case sm_insert cmp k v m of Inr m' \<Rightarrow> m' | Inl _ \<Rightarrow> m)"

definition sm_erased :: "('k \<Rightarrow> 'k \<Rightarrow> comparison_result) \<Rightarrow> 'k \<Rightarrow> ('k, 'v) sm \<Rightarrow> ('k, 'v) sm" where
  "sm_erased cmp k m = (case sm_erase cmp k m of Inr m' \<Rightarrow> m' | Inl _ \<Rightarrow> m)"

definition sm_ins_entries ::
  "('k \<Rightarrow> 'k \<Rightarrow> comparison_result) \<Rightarrow> 'k \<Rightarrow> 'v \<Rightarrow> ('k, 'v) sm \<Rightarrow> ('k \<times> 'v) list" where
  "sm_ins_entries cmp k v m =
     (case m of SM_Array a \<Rightarrow> if kFixedSize \<le> length a then al_put cmp k v a else al_ins cmp k v a
              | SM_Tree t \<Rightarrow> al_put cmp k v (inorder t))"

lemma kFixedSize_room: "n \<le> kFixedSize \<Longrightarrow> n + 1 < 2 ^ 31"
  by (simp add: kFixedSize_def)

lemma tm_inv_Empty [simp]: "tm_inv cmp (Empty Black)"
  by (simp add: tm_inv_def llrb_ok_def)

lemma node_empty_inorder: "size_ok t \<Longrightarrow> node_empty t = (inorder t = [])"
  by (cases t) (auto simp: node_empty_def)

lemma al_put_nonempty: "al_put cmp k v es \<noteq> []"
  by (cases es) (auto split: comparison_result.splits)

context total_comparator
begin

lemma foldl_al_put_append:
  "sorted_keys cmp (acc @ es) \<Longrightarrow> foldl (\<lambda>m e. al_put cmp (fst e) (snd e) m) acc es = acc @ es"
proof (induction es arbitrary: acc)
  case (Cons e es)
  have "al_put cmp (fst e) (snd e) acc = acc @ [e]"
    using al_put_append_ge[of acc "fst e" "snd e" "[]"] Cons.prems desc_iff by auto
  then show ?case using Cons.IH[of "acc @ [e]"] Cons.prems by simp
qed simp

lemma tm_Create_sorted:
  assumes "sorted_keys cmp es" "length es < 2 ^ 31"
  shows "tm_inv cmp (tm_Create cmp es) \<and> inorder (tm_Create cmp es) = es"
  using tm_Create_from_correct[of "Empty Black" es] foldl_al_put_append[of "[]" es] assms
  by (simp add: tm_Create_def)

lemma tm_insert_inv:
  assumes "tm_inv cmp t" "length (inorder t) + 1 < 2 ^ 31"
  shows "tm_inv cmp (node_insert cmp k v t) \<and> inorder (node_insert cmp k v t) = al_put cmp k v (inorder t)"
proof -
  have s: "llrb_ok t" "\<not> red t" "sorted_keys cmp (inorder t)" using assms(1) by (simp_all add: tm_inv_def)
  have "count t + 1 < 2 ^ 31" using assms(2) by (simp add: length_inorder)
  from node_insert_correct[OF s this] show ?thesis using sorted_al_put[OF s(3)] by (simp add: tm_inv_def)
qed

text \<open>Insertion never fails, and its entries are those of the reference insertion.\<close>

lemma sm_insert_correct:
  assumes "sm_inv cmp m" "sm_room m"
  shows "\<exists>m'. sm_insert cmp k v m = Inr m' \<and> sm_inv cmp m' \<and> sm_entries m' = sm_ins_entries cmp k v m"
proof (cases m)
  case (SM_Array a)
  then have inv: "sorted_keys cmp a" "length a \<le> kFixedSize" using assms(1) by (simp_all add: am_inv_def)
  show ?thesis
  proof (cases "kFixedSize \<le> length a")
    case True
    have "length a < 2 ^ 31" using kFixedSize_room[OF inv(2)] by simp
    note C = tm_Create_sorted[OF inv(1) this]
    have "length (inorder (tm_Create cmp a)) + 1 < 2 ^ 31" using C kFixedSize_room[OF inv(2)] by simp
    from tm_insert_inv[OF conjunct1[OF C] this] show ?thesis
      using True C by (simp add: SM_Array sm_ins_entries_def al_put_nonempty)
  next
    case False
    then have "am_inv cmp (al_ins cmp k v a)"
      using inv sorted_al_ins length_al_ins_le[of k v a] by (simp add: am_inv_def)
    then show ?thesis using False by (simp add: SM_Array sm_ins_entries_def am_insert_room)
  qed
next
  case (SM_Tree t)
  then show ?thesis using assms tm_insert_inv[of t k v]
    by (simp add: sm_room_def sm_ins_entries_def al_put_nonempty)
qed

lemma sm_erase_correct:
  assumes "sm_inv cmp m"
  shows "\<exists>m'. sm_erase cmp k m = Inr m' \<and> sm_inv cmp m' \<and> sm_entries m' = al_del cmp k (sm_entries m)"
proof (cases m)
  case (SM_Array a)
  then have inv: "sorted_keys cmp a" "length a \<le> kFixedSize" using assms(1) by (simp_all add: am_inv_def)
  have "length (al_del cmp k a) \<le> length a"
    using length_al_del[of cmp k a] al_del_absent[of cmp k a] by (cases "al_get cmp k a") auto
  then show ?thesis
    using am_erase_eq[OF inv(2)] inv sorted_al_del by (simp add: SM_Array am_inv_def)
next
  case (SM_Tree t)
  then have s: "llrb_ok t" "\<not> red t" "sorted_keys cmp (inorder t)" using assms(1) by (simp_all add: tm_inv_def)
  note E = node_erase_correct[OF s, of k]
  have "size_ok (node_erase cmp k t)" using E by (simp add: llrb_ok_def)
  then show ?thesis using E sorted_al_del[OF s(3)]
    by (simp add: SM_Tree Let_def node_empty_inorder sm_new_def tm_inv_def am_inv_def)
qed

lemma sm_get_eq: "sm_inv cmp m \<Longrightarrow> sm_get cmp k m = al_get cmp k (sm_entries m)"
proof (cases m)
  case (SM_Array a)
  have "drop (am_find cmp k a) a = dropWhile (\<lambda>kv. cmp k (fst kv) \<noteq> Same) a" by (simp add: am_find_def)
  moreover have "map_option snd (case dropWhile (\<lambda>kv. cmp k (fst kv) \<noteq> Same) a of [] \<Rightarrow> None | e # x \<Rightarrow> Some e)
      = al_get cmp k a"
    by (induction a) auto
  ultimately show ?thesis by (simp add: SM_Array sm_get_def)
next
  case (SM_Tree t)
  assume "sm_inv cmp m"
  then have "tm_inv cmp t" by (simp add: SM_Tree)
  from tm_find_rest[OF this, of k] show ?thesis
    by (auto simp: SM_Tree sm_get_def split: list.splits)
qed

lemma sm_contains_eq: "sm_inv cmp m \<Longrightarrow> sm_contains cmp k m = (al_get cmp k (sm_entries m) \<noteq> None)"
  by (cases m) (auto simp: am_contains_def am_find_end tm_contains_get tm_inv_def llrb_ok_def)

lemma sm_size_eq: "sm_inv cmp m \<Longrightarrow> sm_size m = length (sm_entries m)"
  by (cases m) (auto simp: tm_inv_def llrb_ok_def node_size_count length_inorder)

lemma sm_begin_rest: "sm_inv cmp m \<Longrightarrow> si_rest (sm_begin m) = sm_entries m"
  by (cases m) (auto simp: it_begin_def it_rest_accumulate_left tm_inv_def llrb_ok_def)

lemma sm_lower_bound_rest:
  "sm_inv cmp m \<Longrightarrow> si_rest (sm_lower_bound cmp k m) = dropWhile (\<lambda>e. cmp k (fst e) = Descending) (sm_entries m)"
proof (cases m)
  case (SM_Array a)
  have "cmp k x = Descending \<longleftrightarrow> cmp x k = Ascending" for x by (rule desc_iff)
  then show ?thesis by (simp add: SM_Array am_lower_bound_def)
next
  case (SM_Tree t)
  assume "sm_inv cmp m"
  then show ?thesis using it_lower_bound_rest[of t k "[]"]
    by (simp add: SM_Tree tm_inv_def llrb_ok_def tm_lower_bound_def)
qed

lemma sm_find_index_eq:
  "sm_inv cmp m \<Longrightarrow> sm_find_index cmp k m =
   (if al_get cmp k (sm_entries m) = None then npos
    else of_nat (length (takeWhile (\<lambda>e. cmp k (fst e) \<noteq> Same) (sm_entries m))))"
proof (cases m)
  case (SM_Array a)
  have "(am_find cmp k a = length a) = (al_get cmp k a = None)" by (rule am_find_end)
  then show ?thesis by (simp add: SM_Array am_find_index_def Let_def) (simp add: am_find_def)
next
  case (SM_Tree t)
  assume "sm_inv cmp m"
  then show ?thesis using tm_find_index_from_eq[of t k 0]
    by (simp add: SM_Tree tm_inv_def llrb_ok_def tm_find_index_def)
qed

lemma sm_sorted_map:
  "sorted_map cmp (sm_inv cmp) sm_room sm_entries (sm_inserted cmp) (sm_erased cmp) (sm_get cmp)"
proof unfold_locales
  fix m :: "('a, 'b) sm" and k v k'
  assume inv: "sm_inv cmp m"
  show s: "sorted_keys cmp (sm_entries m)" using inv by (cases m) (auto simp: am_inv_def tm_inv_def)
  show "sm_get cmp k m = al_get cmp k (sm_entries m)" by (rule sm_get_eq[OF inv])
  show "sm_inv cmp (sm_erased cmp k m)" "sm_entries (sm_erased cmp k m) = al_del cmp k (sm_entries m)"
    using sm_erase_correct[OF inv, of k] by (auto simp: sm_erased_def)
  assume "sm_room m"
  note I = sm_insert_correct[OF inv this, of k v]
  have e: "sm_entries (sm_inserted cmp k v m) = sm_ins_entries cmp k v m" using I by (auto simp: sm_inserted_def)
  show "sm_inv cmp (sm_inserted cmp k v m)" using I by (auto simp: sm_inserted_def)
  have "al_get cmp k' (sm_ins_entries cmp k v m) = al_get cmp k' (al_put cmp k v (sm_entries m))"
    using s by (auto simp: sm_ins_entries_def al_get_al_ins split: sm.splits)
  then show "al_get cmp k' (sm_entries (sm_inserted cmp k v m)) =
      (if cmp k' k = Same then Some v else al_get cmp k' (sm_entries m))"
    using s by (simp add: e al_get_al_put)
qed

text \<open>The range views are filters of the keys.\<close>

lemma dropWhile_desc_filter:
  "sorted_keys cmp es \<Longrightarrow>
   dropWhile (\<lambda>e. cmp k (fst e) = Descending) es = filter (\<lambda>e. cmp k (fst e) \<noteq> Descending) es"
proof (induction es)
  case (Cons e es)
  have "filter (\<lambda>e. cmp k (fst e) \<noteq> Descending) es = es" if "cmp k (fst e) \<noteq> Descending"
  proof (rule filter_True, rule ballI)
    fix x assume "x \<in> set es"
    then have "cmp (fst e) (fst x) = Ascending" using Cons.prems by auto
    then show "cmp k (fst x) \<noteq> Descending" using that le_asc_trans by fastforce
  qed
  then show ?case using Cons by simp
qed simp

lemma sm_keys_from_filter:
  assumes "sm_inv cmp m"
  shows "sm_keys_from cmp k m = filter (\<lambda>x. cmp k x \<noteq> Descending) (map fst (sm_entries m))"
proof -
  have "sorted_keys cmp (sm_entries m)" using assms by (cases m) (auto simp: am_inv_def tm_inv_def)
  then show ?thesis
    by (simp add: sm_keys_from_def sm_lower_bound_rest[OF assms] dropWhile_desc_filter filter_map o_def)
qed

lemma range_take:
  assumes "sorted_keys cmp es" "cmp a b = Ascending"
  shows "take (length (filter (\<lambda>e. cmp a (fst e) \<noteq> Descending) es) -
      length (filter (\<lambda>e. cmp b (fst e) \<noteq> Descending) es)) (filter (\<lambda>e. cmp a (fst e) \<noteq> Descending) es)
    = filter (\<lambda>e. cmp a (fst e) \<noteq> Descending \<and> cmp (fst e) b = Ascending) es"
  using assms(1)
proof (induction es)
  case (Cons e es)
  have sub: "cmp a (fst x) \<noteq> Descending" if "cmp b (fst x) \<noteq> Descending" for x :: "'a \<times> 'b"
    using asc_le_trans[OF assms(2) that] by simp
  have di: "(cmp (fst x) b = Ascending) = (cmp b (fst x) = Descending)" for x :: "'a \<times> 'b"
    using desc_iff by simp
  have le: "length (filter (\<lambda>e. cmp b (fst e) \<noteq> Descending) es) \<le> length (filter (\<lambda>e. cmp a (fst e) \<noteq> Descending) es)"
    using sub by (induction es) auto
  show ?case
  proof (cases "cmp b (fst e) = Descending")
    case True
    with Cons le di show ?thesis by (auto simp: Suc_diff_le)
  next
    case False
    have b: "cmp b (fst x) \<noteq> Descending" if "x \<in> set es" for x
    proof -
      have "cmp (fst e) (fst x) = Ascending" using that Cons.prems by auto
      then show ?thesis using False le_asc_trans by fastforce
    qed
    have all_b: "filter (\<lambda>e. cmp b (fst e) \<noteq> Descending) es = es" using b by (auto intro: filter_True)
    have all_a: "filter (\<lambda>e. cmp a (fst e) \<noteq> Descending) es = es" using b sub by (auto intro!: filter_True)
    have none: "filter (\<lambda>e. cmp a (fst e) \<noteq> Descending \<and> cmp (fst e) b = Ascending) es = []"
      using b di by (auto simp: filter_empty_conv)
    show ?thesis using False sub[OF False] all_a all_b none di by simp
  qed
qed simp

lemma sm_keys_in_filter:
  assumes "sm_inv cmp m"
  shows "sm_keys_in cmp a b m =
    filter (\<lambda>x. cmp a x \<noteq> Descending \<and> cmp x b = Ascending) (map fst (sm_entries m))"
proof -
  have s: "sorted_keys cmp (sm_entries m)" using assms by (cases m) (auto simp: am_inv_def tm_inv_def)
  have e: "filter (\<lambda>x. cmp a (fst x) \<noteq> Descending \<and> cmp (fst x) b = Ascending) (sm_entries m) = []"
    if "cmp a b \<noteq> Ascending"
  proof -
    have "cmp a b = Ascending" if "cmp a x \<noteq> Descending" "cmp x b = Ascending" for x
      using le_asc_trans that by blast
    then show ?thesis using \<open>cmp a b \<noteq> Ascending\<close> by (auto simp: filter_empty_conv)
  qed
  show ?thesis
    using range_take[OF s, of a b] e
    by (simp add: sm_keys_in_def Let_def sm_lower_bound_rest[OF assms] dropWhile_desc_filter[OF s] filter_map o_def)
qed

end

sublocale total_comparator < sm: sorted_map cmp "sm_inv cmp" sm_room sm_entries
  "sm_inserted cmp" "sm_erased cmp" "sm_get cmp"
  by (rule sm_sorted_map)

context strict_comparator
begin

text \<open>With a comparator whose \<open>Same\<close> is equality both representations put the same entries.\<close>

lemma sm_ins_entries_put: "sm_ins_entries cmp k v m = al_put cmp k v (sm_entries m)"
  by (cases m) (simp_all add: sm_ins_entries_def al_ins_eq_al_put)

lemma al_get_map_of: "al_get cmp k es = map_of es k"
  by (induction es) (auto simp: same_eq)

lemma al_put_key_set: "set (map fst (al_put cmp k v es)) = insert k (set (map fst es))"
proof (induction es)
  case (Cons e es)
  then show ?case by (cases e; cases "cmp k (fst e)") (auto simp: same_eq simp del: set_map)
qed simp

lemma ss_fold_insert:
  assumes "sm_inv cmp s" "length (sm_entries s) + length ks < 2 ^ 31"
  shows "\<exists>r. rfold (\<lambda>r k. ss_insert cmp k r) s ks = Inr r \<and> sm_inv cmp r \<and>
    set (map fst (sm_entries r)) = set (map fst (sm_entries s)) \<union> set ks"
  using assms
proof (induction ks arbitrary: s)
  case (Cons k ks)
  have "sm_room s" using Cons.prems(2) by (simp add: sm_room_def)
  from sm_insert_correct[OF Cons.prems(1) this, of k "()"] obtain s' where
    s': "sm_insert cmp k () s = Inr s'" "sm_inv cmp s'" "sm_entries s' = al_put cmp k () (sm_entries s)"
    by (auto simp: sm_ins_entries_put)
  have "length (sm_entries s') + length ks < 2 ^ 31"
    using Cons.prems(2) s'(3) length_al_put[of cmp k "()" "sm_entries s"] by simp
  from Cons.IH[OF s'(2) this] obtain r where
    r: "rfold (\<lambda>r k. ss_insert cmp k r) s' ks = Inr r" "sm_inv cmp r"
       "set (map fst (sm_entries r)) = set (map fst (sm_entries s')) \<union> set ks" by auto
  have "set (map fst (al_put cmp k () es)) = insert k (set (map fst es))" for es
    by (rule al_put_key_set)
  then show ?case using r s' by (simp add: ss_insert_def)
qed simp

lemma sm_keys_eq: "sm_inv cmp m \<Longrightarrow> sm_keys m = map fst (sm_entries m)"
  by (simp add: sm_keys_def sm_begin_rest)

lemma sorted_keys_unique:
  assumes "sorted_wrt (\<lambda>a b. cmp a b = Ascending) xs" "sorted_wrt (\<lambda>a b. cmp a b = Ascending) ys"
    "set xs = set ys"
  shows "xs = ys"
proof (rule sorted_wrt_unique_lists[OF _ _ assms])
  show "cmp a b = Ascending \<Longrightarrow> cmp b c = Ascending \<Longrightarrow> cmp a c = Ascending" for a b c by (rule asc_trans)
  show "cmp a a \<noteq> Ascending" for a using cmp_refl by simp
qed

lemma ss_eq_iff:
  assumes "sm_inv cmp s" "sm_inv cmp t"
  shows "ss_eq s t = (set (sm_keys s) = set (sm_keys t))"
proof -
  have "sorted_wrt (\<lambda>a b. cmp a b = Ascending) (sm_keys u)" if "sm_inv cmp u" for u :: "'a ss"
    using sm.inv_sorted[OF that] sm_keys_eq[OF that] by (simp add: sorted_keys_def)
  then have "sm_keys s = sm_keys t" if "set (sm_keys s) = set (sm_keys t)"
    using sorted_keys_unique that assms by blast
  moreover have "sm_size s = length (sm_keys s)" "sm_size t = length (sm_keys t)"
    using assms by (simp_all add: sm_keys_eq sm_size_eq)
  ultimately show ?thesis by (auto simp: ss_eq_def)
qed

lemma ss_union_with_set:
  assumes "sm_inv cmp s" "sm_inv cmp t" "sm_size s + sm_size t < 2 ^ 31"
  shows "\<exists>r. ss_union_with cmp s t = Inr r \<and> sm_inv cmp r \<and> set (sm_keys r) = set (sm_keys s) \<union> set (sm_keys t)"
proof (cases "sm_size s < sm_size t")
  case True
  have "length (sm_entries t) + length (sm_keys s) < 2 ^ 31"
    using assms by (simp add: sm_keys_eq sm_size_eq)
  from ss_fold_insert[OF assms(2) this] show ?thesis
    using True assms by (auto simp: ss_union_with_def sm_keys_eq)
next
  case False
  have "length (sm_entries s) + length (sm_keys t) < 2 ^ 31"
    using assms by (simp add: sm_keys_eq sm_size_eq)
  from ss_fold_insert[OF assms(1) this] show ?thesis
    using False assms by (auto simp: ss_union_with_def sm_keys_eq)
qed

end

end
