(* ===== verification/ReferenceSets.thy ===== *)
theory ReferenceSets
  imports Documents SortedMap
begin

text \<open>
  \<open>local/document_key_reference.cc\<close> and \<open>local/reference_set.cc\<close>: references from numbered entities
  (targets, batches) to documents, in one set ordered by key and one ordered by id.  As elsewhere a
  sorted set is its list of entries; \<open>values_from\<close> and \<open>values_in\<close> are what a loop over a range of it
  visits, in either representation.  The sum \<open>id + 1\<close> wraps where the code would overflow.
\<close>

section \<open>Ranges of a sorted set\<close>

definition values_from :: "('k \<Rightarrow> 'k \<Rightarrow> comparison_result) \<Rightarrow> 'k \<Rightarrow> ('k \<times> 'v) list \<Rightarrow> 'k list" where
  "values_from cmp k es = map fst (dropWhile (\<lambda>e. cmp k (fst e) = Descending) es)"

definition values_in :: "('k \<Rightarrow> 'k \<Rightarrow> comparison_result) \<Rightarrow> 'k \<Rightarrow> 'k \<Rightarrow> ('k \<times> 'v) list \<Rightarrow> 'k list" where
  "values_in cmp a b es =
     (if cmp a b \<noteq> Ascending then []
      else map fst (filter (\<lambda>e. cmp a (fst e) \<noteq> Descending \<and> cmp (fst e) b = Ascending) es))"

context total_comparator
begin

lemma values_from_filter:
  "sorted_keys cmp es \<Longrightarrow> values_from cmp k es = filter (\<lambda>x. cmp k x \<noteq> Descending) (map fst es)"
  by (simp add: values_from_def dropWhile_desc_filter filter_map o_def)

lemma sm_values_from: "sm_inv cmp m \<Longrightarrow> sm_keys_from cmp k m = values_from cmp k (sm_entries m)"
  by (cases m) (auto simp: sm_keys_from_filter values_from_filter am_inv_def tm_inv_def)

lemma sm_values_in: "sm_inv cmp m \<Longrightarrow> sm_keys_in cmp a b m = values_in cmp a b (sm_entries m)"
  using le_asc_trans[of a _ b]
  by (auto simp: sm_keys_in_filter values_in_def filter_map o_def filter_empty_conv)

lemma values_in_filter:
  "cmp a b = Ascending \<Longrightarrow>
   values_in cmp a b es = filter (\<lambda>x. cmp a x \<noteq> Descending \<and> cmp x b = Ascending) (map fst es)"
  by (simp add: values_in_def filter_map o_def)

lemma sorted_values: "sorted_keys cmp es \<Longrightarrow> sorted_wrt (\<lambda>a b. cmp a b = Ascending) (map fst es)"
  by (simp add: sorted_keys_def)

end

context strict_comparator
begin

lemma al_del_key_set: "sorted_keys cmp es \<Longrightarrow> set (map fst (al_del cmp k es)) = set (map fst es) - {k}"
proof (induction es)
  case (Cons e es)
  have "k \<notin> fst ` set es" if "fst e = k"
    using Cons.prems that asc_not_same by (fastforce simp: cmp_refl)
  then show ?case using Cons by (cases e) auto
qed simp

end

section \<open>References\<close>

record DocumentKeyReference =
  ref_key :: DocumentKey
  ref_id :: int32

definition ref_ByKey :: "DocumentKeyReference \<Rightarrow> DocumentKeyReference \<Rightarrow> comparison_result" where
  "ref_ByKey lhs rhs =
     (let result = DocumentKey_CompareTo (ref_key lhs) (ref_key rhs)
      in if result \<noteq> Same then result else DefaultCompare (sint (ref_id lhs)) (sint (ref_id rhs)))"

definition ref_ById :: "DocumentKeyReference \<Rightarrow> DocumentKeyReference \<Rightarrow> comparison_result" where
  "ref_ById lhs rhs =
     (let result = DefaultCompare (sint (ref_id lhs)) (sint (ref_id rhs))
      in if result \<noteq> Same then result else DocumentKey_CompareTo (ref_key lhs) (ref_key rhs))"

lemma sint_same: "sint a = sint b \<Longrightarrow> a = b" for a b :: int32
  by (rule signed_word_eqI)

lemma same_reference: "ref_key a = ref_key b \<Longrightarrow> sint (ref_id a) = sint (ref_id b) \<Longrightarrow> a = b"
  for a b :: DocumentKeyReference
  using sint_same[of "ref_id a" "ref_id b"] by (cases a; cases b) simp

lemma DocumentKey_CompareTo_Default: "DocumentKey_CompareTo = DefaultCompare"
  by (intro ext) (simp add: DocumentKey_CompareTo_def path_CompareTo_Default)

interpretation by_key: strict_comparator ref_ByKey
  by unfold_locales
    (auto simp: ref_ByKey_def DocumentKey_CompareTo_Default DefaultCompare_def Let_def
        split: if_splits intro: same_reference)

interpretation by_id: strict_comparator ref_ById
  by unfold_locales
    (auto simp: ref_ById_def DocumentKey_CompareTo_Default DefaultCompare_def Let_def
        split: if_splits intro: same_reference)

section \<open>Reference sets\<close>

record ReferenceSet =
  rs_by_key :: "(DocumentKeyReference \<times> unit) list"
  rs_by_id :: "(DocumentKeyReference \<times> unit) list"

definition rs_new :: ReferenceSet where
  "rs_new = \<lparr>rs_by_key = [], rs_by_id = []\<rparr>"

definition rs_empty :: "ReferenceSet \<Rightarrow> bool" where
  "rs_empty s = (rs_by_key s = [])"

definition rs_size :: "ReferenceSet \<Rightarrow> nat" where
  "rs_size s = length (rs_by_key s)"

definition rs_AddReference :: "DocumentKey \<Rightarrow> int32 \<Rightarrow> ReferenceSet \<Rightarrow> ReferenceSet" where
  "rs_AddReference key i s =
     (let reference = \<lparr>ref_key = key, ref_id = i\<rparr>
      in s\<lparr>rs_by_key := al_put ref_ByKey reference () (rs_by_key s),
           rs_by_id := al_put ref_ById reference () (rs_by_id s)\<rparr>)"

definition rs_AddReferences :: "DocumentKeySet \<Rightarrow> int32 \<Rightarrow> ReferenceSet \<Rightarrow> ReferenceSet" where
  "rs_AddReferences keys i s = foldl (\<lambda>s key. rs_AddReference key i s) s keys"

definition rs_remove :: "DocumentKeyReference \<Rightarrow> ReferenceSet \<Rightarrow> ReferenceSet" where
  "rs_remove reference s =
     s\<lparr>rs_by_key := al_del ref_ByKey reference (rs_by_key s), rs_by_id := al_del ref_ById reference (rs_by_id s)\<rparr>"

definition rs_RemoveReference :: "DocumentKey \<Rightarrow> int32 \<Rightarrow> ReferenceSet \<Rightarrow> ReferenceSet" where
  "rs_RemoveReference key i s = rs_remove \<lparr>ref_key = key, ref_id = i\<rparr> s"

definition rs_RemoveReferencesTo :: "DocumentKeySet \<Rightarrow> int32 \<Rightarrow> ReferenceSet \<Rightarrow> ReferenceSet" where
  "rs_RemoveReferencesTo keys i s = foldl (\<lambda>s key. rs_RemoveReference key i s) s keys"

definition refs_of_id :: "int32 \<Rightarrow> ReferenceSet \<Rightarrow> DocumentKeyReference list" where
  "refs_of_id i s = values_in ref_ById \<lparr>ref_key = [], ref_id = i\<rparr> \<lparr>ref_key = [], ref_id = i + 1\<rparr> (rs_by_id s)"

definition rs_RemoveReferences :: "int32 \<Rightarrow> ReferenceSet \<Rightarrow> DocumentKeySet \<times> ReferenceSet" where
  "rs_RemoveReferences i s =
     foldl (\<lambda>(removed, s) reference. (dks_insert (ref_key reference) removed, rs_remove reference s))
       ([], s) (refs_of_id i s)"

definition rs_RemoveAllReferences :: "ReferenceSet \<Rightarrow> ReferenceSet" where
  "rs_RemoveAllReferences s = foldl (\<lambda>s reference. rs_remove reference s) s (map fst (rs_by_key s))"

definition rs_ReferencedKeys :: "int32 \<Rightarrow> ReferenceSet \<Rightarrow> DocumentKeySet" where
  "rs_ReferencedKeys i s = foldl (\<lambda>keys reference. dks_insert (ref_key reference) keys) [] (refs_of_id i s)"

definition rs_ContainsKey :: "DocumentKey \<Rightarrow> ReferenceSet \<Rightarrow> bool" where
  "rs_ContainsKey key s =
     (case values_from ref_ByKey \<lparr>ref_key = key, ref_id = 0\<rparr> (rs_by_key s) of
        [] \<Rightarrow> False
      | reference # _ \<Rightarrow> ref_key reference = key)"

section \<open>They are a relation between keys and ids\<close>

definition rs_ok :: "ReferenceSet \<Rightarrow> bool" where
  "rs_ok s = (sorted_keys ref_ByKey (rs_by_key s) \<and> sorted_keys ref_ById (rs_by_id s) \<and>
     set (map fst (rs_by_id s)) = set (map fst (rs_by_key s)))"

definition rs_refs :: "ReferenceSet \<Rightarrow> DocumentKeyReference set" where
  "rs_refs s = set (map fst (rs_by_key s))"

lemma rs_new_ok [simp]: "rs_ok rs_new" "rs_refs rs_new = {}"
  by (simp_all add: rs_ok_def rs_new_def rs_refs_def)

lemma rs_empty_refs: "rs_empty s = (rs_refs s = {})"
  by (simp add: rs_empty_def rs_refs_def)

lemma rs_Add_ok [simp]:
  assumes "rs_ok s"
  shows "rs_ok (rs_AddReference k i s)" "rs_refs (rs_AddReference k i s) = insert \<lparr>ref_key = k, ref_id = i\<rparr> (rs_refs s)"
  using assms by (simp_all add: rs_ok_def rs_refs_def rs_AddReference_def Let_def by_key.sorted_al_put by_id.sorted_al_put
      by_key.al_put_key_set by_id.al_put_key_set del: set_map)

lemma rs_remove_ok [simp]:
  assumes "rs_ok s"
  shows "rs_ok (rs_remove r s)" "rs_refs (rs_remove r s) = rs_refs s - {r}"
  using assms by (simp_all add: rs_ok_def rs_refs_def rs_remove_def by_key.sorted_al_del by_id.sorted_al_del
      by_key.al_del_key_set by_id.al_del_key_set del: set_map)

lemma rs_Remove_ok [simp]:
  assumes "rs_ok s"
  shows "rs_ok (rs_RemoveReference k i s)"
    "rs_refs (rs_RemoveReference k i s) = rs_refs s - {\<lparr>ref_key = k, ref_id = i\<rparr>}"
  using assms by (simp_all add: rs_RemoveReference_def)

lemma rs_AddReferences_ok [simp]:
  assumes "rs_ok s"
  shows "rs_ok (rs_AddReferences ks i s)"
    "rs_refs (rs_AddReferences ks i s) = rs_refs s \<union> (\<lambda>k. \<lparr>ref_key = k, ref_id = i\<rparr>) ` set ks"
  using assms by (induction ks arbitrary: s) (auto simp: rs_AddReferences_def)

lemma rs_RemoveReferencesTo_ok [simp]:
  assumes "rs_ok s"
  shows "rs_ok (rs_RemoveReferencesTo ks i s)"
    "rs_refs (rs_RemoveReferencesTo ks i s) = rs_refs s - (\<lambda>k. \<lparr>ref_key = k, ref_id = i\<rparr>) ` set ks"
  using assms by (induction ks arbitrary: s) (auto simp: rs_RemoveReferencesTo_def)

lemma Nil_le [simp]: "\<not> (k :: string list) < []"
  by simp

lemma refs_of_id_set:
  assumes "rs_ok s" "sint i < 2 ^ 31 - 1"
  shows "set (refs_of_id i s) = {r \<in> rs_refs s. ref_id r = i}"
proof -
  have step: "sint (i + 1) = sint i + 1"
    using assms(2) sint_range_size[of i] by (simp add: word_size sint_word_ariths signed_take_bit_int_eq_self)
  have lt: "ref_ById \<lparr>ref_key = [], ref_id = i\<rparr> \<lparr>ref_key = [], ref_id = i + 1\<rparr> = Ascending"
    by (simp add: ref_ById_def Let_def step)
  have start: "(ref_ById \<lparr>ref_key = [], ref_id = i\<rparr> r \<noteq> Descending) = (sint i \<le> sint (ref_id r))" for r
    by (auto simp: ref_ById_def Let_def DocumentKey_CompareTo_Default DefaultCompare_def)
  have stop: "(ref_ById r \<lparr>ref_key = [], ref_id = i + 1\<rparr> = Ascending) = (sint (ref_id r) < sint i + 1)" for r
    by (auto simp: ref_ById_def Let_def DocumentKey_CompareTo_Default DefaultCompare_def step)
  have eq: "(sint i \<le> sint (ref_id r) \<and> sint (ref_id r) < sint i + 1) = (ref_id r = i)" for r
    using sint_same[of i "ref_id r"] by auto
  have "refs_of_id i s = filter (\<lambda>r. ref_id r = i) (map fst (rs_by_id s))"
    unfolding refs_of_id_def by_id.values_in_filter[OF lt] start stop eq ..
  then show ?thesis using assms(1) by (simp add: rs_ok_def rs_refs_def del: set_map) 
qed

lemma foldl_rs_remove:
  "rs_ok s \<Longrightarrow> foldl (\<lambda>(removed, s) r. (dks_insert (ref_key r) removed, rs_remove r s)) (ks, s) rs = (ks', s') \<Longrightarrow>
   rs_ok s' \<and> rs_refs s' = rs_refs s - set rs \<and> set ks' = set ks \<union> ref_key ` set rs \<and> (std_set_ok ks \<longrightarrow> std_set_ok ks')"
proof (induction rs arbitrary: ks s)
  case (Cons r rs)
  from Cons.IH[of "rs_remove r s" "dks_insert (ref_key r) ks"] Cons.prems show ?case
    by (simp add: dks_insert_def) blast
qed simp

theorem rs_RemoveReferences_ok:
  assumes "rs_ok s" "sint i < 2 ^ 31 - 1" "rs_RemoveReferences i s = (ks, s')"
  shows "rs_ok s'" "rs_refs s' = {r \<in> rs_refs s. ref_id r \<noteq> i}"
    "set ks = ref_key ` {r \<in> rs_refs s. ref_id r = i}" "std_set_ok ks"
  using foldl_rs_remove[OF assms(1), of "[]" "refs_of_id i s" ks s'] assms(3) refs_of_id_set[OF assms(1,2)]
  by (auto simp: rs_RemoveReferences_def)

lemma rs_RemoveAll_ok:
  assumes "rs_ok s"
  shows "rs_ok (rs_RemoveAllReferences s) \<and> rs_refs (rs_RemoveAllReferences s) = {}"
proof -
  have "rs_ok (foldl (\<lambda>s r. rs_remove r s) s rs) \<and> rs_refs (foldl (\<lambda>s r. rs_remove r s) s rs) = rs_refs s - set rs"
    if "rs_ok s" for s rs
    using that by (induction rs arbitrary: s) auto
  from this[OF assms] show ?thesis by (simp add: rs_RemoveAllReferences_def) (simp add: rs_refs_def)
qed

lemma rs_ReferencedKeys_ok:
  assumes "rs_ok s" "sint i < 2 ^ 31 - 1"
  shows "set (rs_ReferencedKeys i s) = ref_key ` {r \<in> rs_refs s. ref_id r = i}" "std_set_ok (rs_ReferencedKeys i s)"
proof -
  have "set (foldl (\<lambda>ks r. dks_insert (ref_key r) ks) ks rs) = set ks \<union> ref_key ` set rs \<and>
      (std_set_ok ks \<longrightarrow> std_set_ok (foldl (\<lambda>ks r. dks_insert (ref_key r) ks) ks rs))" for ks rs
    by (induction rs arbitrary: ks) (auto simp: dks_insert_def)
  from this[of "[]" "refs_of_id i s"] show "set (rs_ReferencedKeys i s) = ref_key ` {r \<in> rs_refs s. ref_id r = i}"
    "std_set_ok (rs_ReferencedKeys i s)"
    by (simp_all add: rs_ReferencedKeys_def refs_of_id_set[OF assms])
qed

lemma values_from_key_hd:
  assumes "sorted_keys ref_ByKey es" "r \<in> set (map fst es)" "ref_key r = key" "0 \<le> sint (ref_id r)"
  shows "\<exists>r' rs. values_from ref_ByKey \<lparr>ref_key = key, ref_id = 0\<rparr> es = r' # rs \<and> ref_key r' = key"
proof -
  let ?start = "\<lparr>ref_key = key, ref_id = 0\<rparr>"
  let ?v = "values_from ref_ByKey ?start es"
  have v: "?v = filter (\<lambda>x. ref_ByKey ?start x \<noteq> Descending) (map fst es)"
    by (rule by_key.values_from_filter[OF assms(1)])
  have r: "r \<in> set ?v" using assms(2-4) by (auto simp: v ref_ByKey_def Let_def)
  then obtain r' rs where v': "?v = r' # rs" by (cases ?v) auto
  have "sorted_wrt (\<lambda>a b. ref_ByKey a b = Ascending) ?v"
    unfolding v by (rule sorted_wrt_filter) (rule by_key.sorted_values[OF assms(1)])
  then have "ref_ByKey r' r \<noteq> Descending" using r v' by (cases "r = r'") auto
  moreover have "r' \<in> set ?v" by (simp add: v')
  then have "ref_ByKey ?start r' \<noteq> Descending" unfolding v by simp
  ultimately have "ref_key r' = key" using assms(3)
    by (auto simp: ref_ByKey_def Let_def DocumentKey_CompareTo_Default DefaultCompare_def split: if_splits)
  then show ?thesis using v' by blast
qed

lemma rs_ContainsKey_iff:
  assumes "rs_ok s"
  shows "rs_ContainsKey key s = (\<exists>r \<in> rs_refs s. ref_key r = key \<and> 0 \<le> sint (ref_id r))"
proof
  assume "\<exists>r \<in> rs_refs s. ref_key r = key \<and> 0 \<le> sint (ref_id r)"
  then obtain r where r: "r \<in> rs_refs s" "ref_key r = key" "0 \<le> sint (ref_id r)" by blast
  have "sorted_keys ref_ByKey (rs_by_key s)" using assms by (simp add: rs_ok_def)
  from values_from_key_hd[OF this r(1)[unfolded rs_refs_def] r(2,3)] show "rs_ContainsKey key s"
    by (auto simp: rs_ContainsKey_def)
next
  assume c: "rs_ContainsKey key s"
  have s: "sorted_keys ref_ByKey (rs_by_key s)" using assms by (simp add: rs_ok_def)
  obtain r rs where v: "values_from ref_ByKey \<lparr>ref_key = key, ref_id = 0\<rparr> (rs_by_key s) = r # rs" "ref_key r = key"
    using c by (auto simp: rs_ContainsKey_def split: list.splits)
  then have "r \<in> set (filter (\<lambda>x. ref_ByKey \<lparr>ref_key = key, ref_id = 0\<rparr> x \<noteq> Descending) (map fst (rs_by_key s)))"
    using by_key.values_from_filter[OF s, of "\<lparr>ref_key = key, ref_id = 0\<rparr>"] by simp
  then show "\<exists>r \<in> rs_refs s. ref_key r = key \<and> 0 \<le> sint (ref_id r)"
    using v(2) by (auto simp: rs_refs_def ref_ByKey_def Let_def)
qed

end
