(* ===== verification/ReferenceDelegates.thy ===== *)
theory ReferenceDelegates
  imports ReferenceSets UnorderedMaps TargetData
begin

text \<open>
  The state of the two reference delegates of the memory persistence
  (\<open>local/memory_eager_reference_delegate.cc\<close>, \<open>local/memory_lru_reference_delegate.cc\<close>,
  \<open>local/listen_sequence.h\<close>) and the operations that use nothing else.  The set that
  \<open>additional_references_\<close> points to is kept where the pointer leads.  An optional that is dereferenced
  while it is empty is a failure.
\<close>

definition kListenSequenceNumberInvalid :: ListenSequenceNumber where
  "kListenSequenceNumberInvalid = -1"

record MemoryEagerReferenceDelegate =
  ed_orphaned :: "DocumentKeySet option"
  ed_additional_references :: "ReferenceSet option"

record MemoryLruReferenceDelegate =
  ld_sequence_numbers :: "(DocumentKey \<times> ListenSequenceNumber) list"
  ld_additional_references :: "ReferenceSet option"
  ld_previous_sequence_number :: ListenSequenceNumber
  ld_current_sequence_number :: ListenSequenceNumber

datatype ReferenceDelegate = Eager MemoryEagerReferenceDelegate | Lru MemoryLruReferenceDelegate

definition make_EagerDelegate :: MemoryEagerReferenceDelegate where
  "make_EagerDelegate = \<lparr>ed_orphaned = None, ed_additional_references = None\<rparr>"

definition make_LruDelegate :: "ListenSequenceNumber \<Rightarrow> MemoryLruReferenceDelegate" where
  "make_LruDelegate highest_sequence_number =
     \<lparr>ld_sequence_numbers = [], ld_additional_references = None,
      ld_previous_sequence_number = highest_sequence_number,
      ld_current_sequence_number = kListenSequenceNumberInvalid\<rparr>"

definition ListenSequence_Next :: "MemoryLruReferenceDelegate \<Rightarrow> ListenSequenceNumber \<times> MemoryLruReferenceDelegate" where
  "ListenSequence_Next d =
     (let n = ld_previous_sequence_number d + 1 in (n, d\<lparr>ld_previous_sequence_number := n\<rparr>))"

fun rd_current_sequence_number :: "ReferenceDelegate \<Rightarrow> ListenSequenceNumber result" where
  "rd_current_sequence_number (Eager d) = Inr kListenSequenceNumberInvalid"
| "rd_current_sequence_number (Lru d) =
     hard_assert (ld_current_sequence_number d \<noteq> kListenSequenceNumberInvalid) (Inr (ld_current_sequence_number d))"

fun rd_AddInMemoryPins :: "ReferenceSet \<Rightarrow> ReferenceDelegate \<Rightarrow> ReferenceDelegate" where
  "rd_AddInMemoryPins s (Eager d) = Eager (d\<lparr>ed_additional_references := Some s\<rparr>)"
| "rd_AddInMemoryPins s (Lru d) = Lru (d\<lparr>ld_additional_references := Some s\<rparr>)"

fun rd_additional_references :: "ReferenceDelegate \<Rightarrow> ReferenceSet option" where
  "rd_additional_references (Eager d) = ed_additional_references d"
| "rd_additional_references (Lru d) = ld_additional_references d"

definition on_orphaned ::
  "(DocumentKeySet \<Rightarrow> DocumentKeySet) \<Rightarrow> MemoryEagerReferenceDelegate \<Rightarrow> MemoryEagerReferenceDelegate result" where
  "on_orphaned f d =
     (case ed_orphaned d of None \<Rightarrow> Inl HardAssert | Some orphaned \<Rightarrow> Inr (d\<lparr>ed_orphaned := Some (f orphaned)\<rparr>))"

definition touch :: "DocumentKey \<Rightarrow> MemoryLruReferenceDelegate \<Rightarrow> MemoryLruReferenceDelegate" where
  "touch key d = d\<lparr>ld_sequence_numbers := um_put (=) key (ld_current_sequence_number d) (ld_sequence_numbers d)\<rparr>"

fun rd_AddReference :: "DocumentKey \<Rightarrow> ReferenceDelegate \<Rightarrow> ReferenceDelegate result" where
  "rd_AddReference key (Eager d) = rmap Eager (on_orphaned (dks_erase key) d)"
| "rd_AddReference key (Lru d) = Inr (Lru (touch key d))"

fun rd_RemoveReference :: "DocumentKey \<Rightarrow> ReferenceDelegate \<Rightarrow> ReferenceDelegate result" where
  "rd_RemoveReference key (Eager d) = rmap Eager (on_orphaned (dks_insert key) d)"
| "rd_RemoveReference key (Lru d) = Inr (Lru (touch key d))"

fun rd_RemoveMutationReference :: "DocumentKey \<Rightarrow> ReferenceDelegate \<Rightarrow> ReferenceDelegate result" where
  "rd_RemoveMutationReference key (Eager d) = rmap Eager (on_orphaned (dks_insert key) d)"
| "rd_RemoveMutationReference key (Lru d) = Inr (Lru (touch key d))"

section \<open>Inside a transaction they do not fail\<close>

fun rd_open :: "ReferenceDelegate \<Rightarrow> bool" where
  "rd_open (Eager d) = (ed_orphaned d \<noteq> None)"
| "rd_open (Lru d) = (ld_current_sequence_number d \<noteq> kListenSequenceNumberInvalid)"

text \<open>The documents a transaction has orphaned so far.\<close>

fun rd_orphaned :: "ReferenceDelegate \<Rightarrow> DocumentKey set" where
  "rd_orphaned (Eager d) = (case ed_orphaned d of None \<Rightarrow> {} | Some s \<Rightarrow> set s)"
| "rd_orphaned (Lru d) = {}"

fun is_eager :: "ReferenceDelegate \<Rightarrow> bool" where
  "is_eager (Eager d) = True"
| "is_eager (Lru d) = False"

definition rd_same :: "ReferenceDelegate \<Rightarrow> ReferenceDelegate \<Rightarrow> bool" where
  "rd_same rd rd' = (is_eager rd' = is_eager rd \<and> rd_additional_references rd' = rd_additional_references rd \<and>
     (rd_open rd \<longrightarrow> rd_open rd') \<and> rd_current_sequence_number rd' = rd_current_sequence_number rd)"

lemma rd_same_refl [simp]: "rd_same rd rd"
  by (simp add: rd_same_def)

lemma rd_same_trans: "rd_same a b \<Longrightarrow> rd_same b c \<Longrightarrow> rd_same a c"
  by (simp add: rd_same_def)

lemma rd_AddReference_ok:
  assumes "rd_open rd"
  shows "\<exists>rd'. rd_AddReference key rd = Inr rd' \<and> rd_same rd rd' \<and> rd_orphaned rd' = rd_orphaned rd - {key}"
  using assms by (cases rd) (auto simp: on_orphaned_def rd_same_def touch_def dks_erase_def)

lemma rd_RemoveReference_ok:
  assumes "rd_open rd"
  shows "\<exists>rd'. rd_RemoveReference key rd = Inr rd' \<and> rd_same rd rd' \<and>
    rd_orphaned rd' = (if is_eager rd then insert key (rd_orphaned rd) else {})"
  using assms by (cases rd) (auto simp: on_orphaned_def rd_same_def touch_def dks_insert_def)

lemma rd_RemoveMutationReference_eq: "rd_RemoveMutationReference key rd = rd_RemoveReference key rd"
  by (cases rd) simp_all

end
