(* ===== verification/MutationQueues.thy ===== *)
theory MutationQueues
  imports IndexManagers ReferenceDelegates Mutations
begin

text \<open>
  \<open>local/memory_mutation_queue.cc\<close>: the batches that wait for the backend, in the order they were
  written, with an index of them by document key.  The queue calls the index manager and the
  reference delegate of its persistence; the operations that do take them as an argument and return
  them.
\<close>

definition kBatchIdUnknown :: BatchId where
  "kBatchIdUnknown = -1"

record MemoryMutationQueue =
  mq_queue :: "MutationBatch list"
  mq_next_batch_id :: BatchId
  mq_last_stream_token :: ByteString
  mq_batches_by_document_key :: "(DocumentKeyReference \<times> unit) list"

definition make_MutationQueue :: MemoryMutationQueue where
  "make_MutationQueue = \<lparr>mq_queue = [], mq_next_batch_id = 1, mq_last_stream_token = [],
     mq_batches_by_document_key = []\<rparr>"

definition mq_IsEmpty :: "MemoryMutationQueue \<Rightarrow> bool" where
  "mq_IsEmpty q = (mq_queue q = [])"

definition mq_AcknowledgeBatch ::
  "MutationBatch \<Rightarrow> ByteString \<Rightarrow> MemoryMutationQueue \<Rightarrow> MemoryMutationQueue result" where
  "mq_AcknowledgeBatch batch stream_token q =
     (case mq_queue q of
        [] \<Rightarrow> Inl HardAssert
      | check # _ \<Rightarrow> hard_assert (mb_batch_id batch = mb_batch_id check)
                      (Inr (q\<lparr>mq_last_stream_token := stream_token\<rparr>)))"

definition mq_Start :: "MemoryMutationQueue \<Rightarrow> MemoryMutationQueue" where
  "mq_Start q = (if mq_IsEmpty q then q\<lparr>mq_next_batch_id := 1\<rparr> else q)"

definition add_reference_step ::
  "BatchId \<Rightarrow> (DocumentKeyReference \<times> unit) list \<times> MemoryIndexManager \<Rightarrow> Mutation \<Rightarrow>
   ((DocumentKeyReference \<times> unit) list \<times> MemoryIndexManager) result" where
  "add_reference_step batch_id = (\<lambda>(refs, im) m.
     (let refs = al_put ref_ByKey \<lparr>ref_key = mut_key m, ref_id = batch_id\<rparr> () refs
      in rbind (PopLast (mut_key m)) (\<lambda>parent.
           rmap (\<lambda>im. (refs, im)) (AddToCollectionParentIndex parent im))))"

definition mq_AddMutationBatch ::
  "Timestamp \<Rightarrow> Mutation list \<Rightarrow> Mutation list \<Rightarrow> MemoryMutationQueue \<times> MemoryIndexManager \<Rightarrow>
   (MutationBatch \<times> MemoryMutationQueue \<times> MemoryIndexManager) result" where
  "mq_AddMutationBatch local_write_time base_mutations mutations = (\<lambda>(q, im).
     hard_assert (mutations \<noteq> [])
       (let batch_id = mq_next_batch_id q;
            q = q\<lparr>mq_next_batch_id := mq_next_batch_id q + 1\<rparr>
        in hard_assert (mq_queue q \<noteq> [] \<longrightarrow> sint (mb_batch_id (last (mq_queue q))) < sint batch_id)
             (rbind (make_MutationBatch batch_id local_write_time base_mutations mutations) (\<lambda>batch.
                let q = q\<lparr>mq_queue := mq_queue q @ [batch]\<rparr>
                in rmap (\<lambda>(refs, im). (batch, q\<lparr>mq_batches_by_document_key := refs\<rparr>, im))
                     (rfold (add_reference_step batch_id) (mq_batches_by_document_key q, im) (mb_mutations batch))))))"

definition mq_RemoveMutationBatch ::
  "MutationBatch \<Rightarrow> MemoryMutationQueue \<times> ReferenceDelegate \<Rightarrow> (MemoryMutationQueue \<times> ReferenceDelegate) result" where
  "mq_RemoveMutationBatch batch = (\<lambda>(q, rd).
     (case mq_queue q of
        [] \<Rightarrow> Inl HardAssert
      | head # rest \<Rightarrow>
          hard_assert (mb_batch_id head = mb_batch_id batch)
            (rfold (\<lambda>(q, rd) m.
               rmap (\<lambda>rd. (q\<lparr>mq_batches_by_document_key :=
                      al_del ref_ByKey \<lparr>ref_key = mut_key m, ref_id = mb_batch_id batch\<rparr>
                        (mq_batches_by_document_key q)\<rparr>, rd))
                 (rd_RemoveMutationReference (mut_key m) rd))
               (q\<lparr>mq_queue := rest\<rparr>, rd) (mb_mutations batch))))"

section \<open>Lookups\<close>

definition IndexOfBatchId :: "BatchId \<Rightarrow> MemoryMutationQueue \<Rightarrow> int32" where
  "IndexOfBatchId batch_id q = (case mq_queue q of [] \<Rightarrow> 0 | first_batch # _ \<Rightarrow> batch_id - mb_batch_id first_batch)"

definition LookupMutationBatch :: "BatchId \<Rightarrow> MemoryMutationQueue \<Rightarrow> MutationBatch option result" where
  "LookupMutationBatch batch_id q =
     (if mq_queue q = [] then Inr None
      else let index = IndexOfBatchId batch_id q
           in if sint index < 0 \<or> length (mq_queue q) \<le> nat (sint index) then Inr None
              else let batch = mq_queue q ! nat (sint index)
                   in hard_assert (mb_batch_id batch = batch_id) (Inr (Some batch)))"

definition batch_ids_insert :: "BatchId \<Rightarrow> BatchId list \<Rightarrow> BatchId list" where
  "batch_ids_insert b ids = (if b \<in> set ids then ids else insort_key sint b ids)"

definition AllMutationBatchesWithIds :: "BatchId list \<Rightarrow> MemoryMutationQueue \<Rightarrow> MutationBatch list result" where
  "AllMutationBatchesWithIds batch_ids q =
     rfold (\<lambda>result batch_id. rmap (\<lambda>batch. case batch of Some b \<Rightarrow> result @ [b] | None \<Rightarrow> result)
       (LookupMutationBatch batch_id q)) [] batch_ids"

text \<open>The references a loop visits that starts at a key and breaks at the first other key.\<close>

definition refs_of_key :: "DocumentKey \<Rightarrow> MemoryMutationQueue \<Rightarrow> DocumentKeyReference list" where
  "refs_of_key key q = takeWhile (\<lambda>r. ref_key r = key)
     (values_from ref_ByKey \<lparr>ref_key = key, ref_id = 0\<rparr> (mq_batches_by_document_key q))"

definition AllMutationBatchesAffectingDocumentKeys ::
  "DocumentKeySet \<Rightarrow> MemoryMutationQueue \<Rightarrow> MutationBatch list result" where
  "AllMutationBatchesAffectingDocumentKeys document_keys q =
     AllMutationBatchesWithIds
       (foldl (\<lambda>ids key. foldl (\<lambda>ids r. batch_ids_insert (ref_id r) ids) ids (refs_of_key key q)) [] document_keys) q"

definition AllMutationBatchesAffectingDocumentKey ::
  "DocumentKey \<Rightarrow> MemoryMutationQueue \<Rightarrow> MutationBatch list result" where
  "AllMutationBatchesAffectingDocumentKey key q =
     rfold (\<lambda>result r. rbind (LookupMutationBatch (ref_id r) q) (\<lambda>batch.
       case batch of None \<Rightarrow> Inl HardAssert | Some b \<Rightarrow> Inr (result @ [b]))) [] (refs_of_key key q)"

definition AllMutationBatchesAffectingQuery :: "Query \<Rightarrow> MemoryMutationQueue \<Rightarrow> MutationBatch list result" where
  "AllMutationBatchesAffectingQuery query q =
     hard_assert (\<not> IsCollectionGroupQuery query)
       (let prefix = q_path query;
            immediate_children_path_length = length prefix + 1;
            start_path = (if IsDocumentKey prefix then prefix else path_Append prefix '''')
        in rbind (make_DocumentKey start_path) (\<lambda>start_key.
             let rows = takeWhile (\<lambda>r. IsPrefixOf prefix (ref_key r))
                          (values_from ref_ByKey \<lparr>ref_key = start_key, ref_id = 0\<rparr> (mq_batches_by_document_key q));
                 unique_batch_ids = foldl (\<lambda>ids r.
                   if length (ref_key r) \<noteq> immediate_children_path_length then ids
                   else batch_ids_insert (ref_id r) ids) [] rows
             in AllMutationBatchesWithIds unique_batch_ids q))"

definition NextMutationBatchAfterBatchId :: "BatchId \<Rightarrow> MemoryMutationQueue \<Rightarrow> MutationBatch option" where
  "NextMutationBatchAfterBatchId batch_id q =
     (let next_batch_id = batch_id + 1;
          raw_index = IndexOfBatchId next_batch_id q;
          index = (if sint raw_index < 0 then 0 else nat (sint raw_index))
      in if length (mq_queue q) \<le> index then None else Some (mq_queue q ! index))"

definition mq_GetHighestUnacknowledgedBatchId :: "MemoryMutationQueue \<Rightarrow> BatchId" where
  "mq_GetHighestUnacknowledgedBatchId q = (if mq_IsEmpty q then kBatchIdUnknown else mq_next_batch_id q - 1)"

definition PerformConsistencyCheck :: "MemoryMutationQueue \<Rightarrow> unit result" where
  "PerformConsistencyCheck q =
     (if mq_queue q = [] then hard_assert (mq_batches_by_document_key q = []) (Inr ()) else Inr ())"

definition mq_ContainsKey :: "DocumentKey \<Rightarrow> MemoryMutationQueue \<Rightarrow> bool" where
  "mq_ContainsKey key q =
     (case values_from ref_ByKey \<lparr>ref_key = key, ref_id = 0\<rparr> (mq_batches_by_document_key q) of
        [] \<Rightarrow> False
      | reference # _ \<Rightarrow> ref_key reference = key)"

definition mq_CalculateByteSize :: "(MutationBatch \<Rightarrow> int64) \<Rightarrow> MemoryMutationQueue \<Rightarrow> int64" where
  "mq_CalculateByteSize sizer q = foldl (\<lambda>count batch. count + sizer batch) 0 (mq_queue q)"

definition mq_SetLastStreamToken :: "ByteString \<Rightarrow> MemoryMutationQueue \<Rightarrow> MemoryMutationQueue" where
  "mq_SetLastStreamToken token q = q\<lparr>mq_last_stream_token := token\<rparr>"

end
