(* ===== verification/MutationQueueProofs.thy ===== *)
theory MutationQueueProofs
  imports MutationQueues
begin

text \<open>
  The invariant of the mutation queue of \<open>local/memory_mutation_queue.cc\<close>: the ids of the batches
  are consecutive and end just below the next id, and the index holds exactly the references from
  the batches to the documents they write.  Every lookup is then a filter of the queue, in its order.
\<close>

definition key_ok :: "DocumentKey \<Rightarrow> bool" where
  "key_ok k = (k \<noteq> [] \<and> length k mod 2 = 0)"

definition writes :: "DocumentKey \<Rightarrow> MutationBatch \<Rightarrow> bool" where
  "writes k b = (k \<in> mut_key ` set (mb_mutations b))"

definition batch_refs :: "MutationBatch \<Rightarrow> DocumentKeyReference set" where
  "batch_refs b = (\<lambda>m. \<lparr>ref_key = mut_key m, ref_id = mb_batch_id b\<rparr>) ` set (mb_mutations b)"

definition ids_ok :: "int \<Rightarrow> MutationBatch list \<Rightarrow> bool" where
  "ids_ok n bs = (int (length bs) < n \<and> (\<forall>i < length bs. sint (mb_batch_id (bs ! i)) = n - int (length bs) + int i))"

definition mq_ok :: "MemoryMutationQueue \<Rightarrow> bool" where
  "mq_ok q = (ids_ok (sint (mq_next_batch_id q)) (mq_queue q) \<and>
     (\<forall>b \<in> set (mq_queue q). mb_mutations b \<noteq> [] \<and> (\<forall>m \<in> set (mb_mutations b). key_ok (mut_key m))) \<and>
     sorted_keys ref_ByKey (mq_batches_by_document_key q) \<and>
     set (map fst (mq_batches_by_document_key q)) = (\<Union>b \<in> set (mq_queue q). batch_refs b))"

definition by_ids :: "MutationBatch \<Rightarrow> MutationBatch \<Rightarrow> bool" where
  "by_ids a b = (sint (mb_batch_id a) < sint (mb_batch_id b))"

lemma make_MutationQueue_ok [simp]: "mq_ok make_MutationQueue"
  by (simp add: mq_ok_def make_MutationQueue_def ids_ok_def)

section \<open>Ids\<close>

lemma ids_sorted: "ids_ok n bs \<Longrightarrow> sorted_wrt by_ids bs"
  by (auto simp: sorted_wrt_iff_nth_less ids_ok_def by_ids_def)

lemma ids_tl: "ids_ok n (b # bs) \<Longrightarrow> ids_ok n bs"
  by (auto simp: ids_ok_def dest: spec[of _ "Suc i" for i])

lemma ids_snoc:
  assumes "ids_ok n bs" "sint (mb_batch_id b) = n" shows "ids_ok (n + 1) (bs @ [b])"
  using assms by (auto simp: ids_ok_def nth_append less_Suc_eq)

lemma ids_range:
  assumes "ids_ok n bs" "b \<in> set bs" shows "1 \<le> sint (mb_batch_id b)" "sint (mb_batch_id b) < n"
proof -
  obtain i where "i < length bs" "b = bs ! i" using assms(2) by (auto simp: in_set_conv_nth)
  then show "1 \<le> sint (mb_batch_id b)" "sint (mb_batch_id b) < n" using assms(1) by (auto simp: ids_ok_def)
qed

lemma ids_distinct: "ids_ok n bs \<Longrightarrow> a \<in> set bs \<Longrightarrow> b \<in> set bs \<Longrightarrow> mb_batch_id a = mb_batch_id b \<Longrightarrow> a = b"
  by (auto simp: ids_ok_def in_set_conv_nth) (metis add_left_cancel of_nat_eq_iff)

lemma sint_diff:
  "0 \<le> sint a \<Longrightarrow> 0 \<le> sint b \<Longrightarrow> sint (a - b) = sint a - sint b" for a b :: int32
  using sint_range_size[of a] sint_range_size[of b] by (simp add: word_size sint_word_ariths signed_take_bit_int_eq_self)

text \<open>The batches of some ids of the queue, in ascending order, are a filter of it.\<close>

lemma batches_of_ids:
  assumes "ids_ok n bs" "sorted_wrt by_ids cs" "set cs = {b \<in> set bs. P b}"
  shows "cs = filter P bs"
proof (rule sorted_wrt_unique_lists[of by_ids])
  show "sorted_wrt by_ids (filter P bs)" by (rule sorted_wrt_filter) (rule ids_sorted[OF assms(1)])
qed (use assms(2,3) in \<open>auto simp: by_ids_def\<close>)

lemma LookupMutationBatch_eq:
  assumes "mq_ok q" "0 \<le> sint i"
  shows "LookupMutationBatch i q = Inr (find (\<lambda>b. mb_batch_id b = i) (mq_queue q))"
proof -
  let ?bs = "mq_queue q"
  have ids: "ids_ok (sint (mq_next_batch_id q)) ?bs" using assms(1) by (simp add: mq_ok_def)
  show ?thesis
  proof (cases ?bs)
    case Nil
    then show ?thesis by (simp add: LookupMutationBatch_def)
  next
    case (Cons b bs)
    let ?k = "sint (i - mb_batch_id b)"
    have b: "sint (mb_batch_id b) = sint (mq_next_batch_id q) - int (length ?bs)"
      using ids by (auto simp: ids_ok_def Cons dest: spec[of _ 0])
    have "0 \<le> sint (mb_batch_id b)" using ids_range(1)[OF ids, of b] by (simp add: Cons)
    then have k: "?k = sint i - sint (mb_batch_id b)" by (rule sint_diff[OF assms(2)])
    have look: "LookupMutationBatch i q =
        (if ?k < 0 \<or> length ?bs \<le> nat ?k then Inr None
         else hard_assert (mb_batch_id (?bs ! nat ?k) = i) (Inr (Some (?bs ! nat ?k))))"
      by (simp add: LookupMutationBatch_def IndexOfBatchId_def Cons Let_def)
    show ?thesis
    proof (cases "?k < 0 \<or> length ?bs \<le> nat ?k")
      case True
      have "mb_batch_id c \<noteq> i" if "c \<in> set ?bs" for c
      proof -
        have "\<exists>j < length ?bs. ?bs ! j = c" using that unfolding in_set_conv_nth by blast
        then obtain j where j: "j < length ?bs" "?bs ! j = c" by blast
        then have "sint (mb_batch_id c) = sint (mb_batch_id b) + int j" using ids b by (auto simp: ids_ok_def)
        then show ?thesis using True k j(1) by auto
      qed
      then have "find (\<lambda>b. mb_batch_id b = i) ?bs = None" by (auto simp: find_None_iff)
      then show ?thesis using True look by simp
    next
      case False
      then have j: "nat ?k < length ?bs" by auto
      then have "sint (mb_batch_id (?bs ! nat ?k)) = sint i" using ids b k False by (simp add: ids_ok_def)
      then have id: "mb_batch_id (?bs ! nat ?k) = i" by (rule sint_same)
      have "find (\<lambda>b. mb_batch_id b = i) ?bs = Some (?bs ! nat ?k)"
        unfolding find_Some_iff
      proof (intro exI[of _ "nat ?k"] conjI allI impI)
        fix l assume "l < nat ?k"
        then have "by_ids (?bs ! l) (?bs ! nat ?k)"
          using ids_sorted[OF ids] j by (simp add: sorted_wrt_iff_nth_less)
        then show "mb_batch_id (?bs ! l) \<noteq> i" using id by (auto simp: by_ids_def)
      qed (use j id in auto)
      then show ?thesis using False id look by simp
    qed
  qed
qed

lemma find_batch:
  assumes "mq_ok q" "b \<in> set (mq_queue q)"
  shows "find (\<lambda>c. mb_batch_id c = mb_batch_id b) (mq_queue q) = Some b"
proof -
  have ids: "ids_ok (sint (mq_next_batch_id q)) (mq_queue q)" using assms(1) by (simp add: mq_ok_def)
  obtain c where c: "find (\<lambda>c. mb_batch_id c = mb_batch_id b) (mq_queue q) = Some c"
    using assms(2) by (cases "find (\<lambda>c. mb_batch_id c = mb_batch_id b) (mq_queue q)") (auto simp: find_None_iff)
  then have "c \<in> set (mq_queue q)" "mb_batch_id c = mb_batch_id b" by (auto simp: find_Some_iff)
  then show ?thesis using c ids_distinct[OF ids] assms(2) by auto
qed

lemma lookup_in_queue:
  assumes "mq_ok q" "b \<in> set (mq_queue q)"
  shows "LookupMutationBatch (mb_batch_id b) q = Inr (Some b)"
proof -
  have "1 \<le> sint (mb_batch_id b)" using ids_range(1) assms by (auto simp: mq_ok_def)
  then show ?thesis using LookupMutationBatch_eq[OF assms(1)] find_batch[OF assms] by simp
qed

section \<open>The index\<close>

lemma takeWhile_sorted:
  assumes "sorted_wrt R xs" "\<And>a b. a \<in> set xs \<Longrightarrow> b \<in> set xs \<Longrightarrow> R a b \<Longrightarrow> P b \<Longrightarrow> P a"
  shows "takeWhile P xs = filter P xs"
  using assms
proof (induction xs)
  case (Cons x xs)
  show ?case
  proof (cases "P x")
    case False
    then have "\<not> P y" if "y \<in> set xs" for y using Cons.prems that by auto
    then show ?thesis using False by (simp add: filter_empty_conv)
  next
    case True
    have "takeWhile P xs = filter P xs"
      using Cons.prems by (intro Cons.IH) auto
    then show ?thesis using True by simp
  qed
qed simp

lemma index_range:
  assumes "mq_ok q" "start = \<lparr>ref_key = k, ref_id = 0\<rparr>"
  shows "values_from ref_ByKey start (mq_batches_by_document_key q) =
      filter (\<lambda>r. k \<le> ref_key r) (map fst (mq_batches_by_document_key q))"
    "sorted_wrt (\<lambda>a b. ref_ByKey a b = Ascending) (map fst (mq_batches_by_document_key q))"
    "r \<in> set (map fst (mq_batches_by_document_key q)) \<Longrightarrow>
      \<exists>b \<in> set (mq_queue q). ref_id r = mb_batch_id b \<and> writes (ref_key r) b"
proof -
  let ?refs = "mq_batches_by_document_key q"
  have s: "sorted_keys ref_ByKey ?refs" and refs: "set (map fst ?refs) = (\<Union>b \<in> set (mq_queue q). batch_refs b)"
    and ids: "ids_ok (sint (mq_next_batch_id q)) (mq_queue q)"
    using assms(1) by (simp_all add: mq_ok_def)
  show r: "\<exists>b \<in> set (mq_queue q). ref_id r = mb_batch_id b \<and> writes (ref_key r) b" if "r \<in> set (map fst ?refs)" for r
    using that unfolding refs by (auto simp: batch_refs_def writes_def)
  have "(ref_ByKey start r \<noteq> Descending) = (k \<le> ref_key r)" if "r \<in> set (map fst ?refs)" for r
  proof -
    have "0 \<le> sint (ref_id r)" using r[OF that] ids_range(1)[OF ids] by force
    then show ?thesis
      by (auto simp: assms(2) ref_ByKey_def Let_def DocumentKey_CompareTo_Default DefaultCompare_def)
  qed
  then show "values_from ref_ByKey start ?refs = filter (\<lambda>r. k \<le> ref_key r) (map fst ?refs)"
    unfolding by_key.values_from_filter[OF s] by (intro filter_cong refl) simp
  show "sorted_wrt (\<lambda>a b. ref_ByKey a b = Ascending) (map fst ?refs)" by (rule by_key.sorted_values[OF s])
qed

lemma ref_ByKey_le: "ref_ByKey a b = Ascending \<Longrightarrow> ref_key a \<le> ref_key b"
  by (auto simp: ref_ByKey_def Let_def DocumentKey_CompareTo_Default DefaultCompare_def split: if_splits)

lemma ref_ByKey_id: "ref_ByKey a b = Ascending \<Longrightarrow> ref_key a = ref_key b \<Longrightarrow> sint (ref_id a) < sint (ref_id b)"
  by (auto simp: ref_ByKey_def Let_def)

lemma refs_of_key_eq:
  assumes "mq_ok q"
  shows "refs_of_key k q = filter (\<lambda>r. ref_key r = k) (map fst (mq_batches_by_document_key q))"
proof -
  let ?refs = "map fst (mq_batches_by_document_key q)"
  note range = index_range(1)[OF assms refl, of k] index_range(2)[OF assms refl]
  have "refs_of_key k q = filter (\<lambda>r. ref_key r = k) (filter (\<lambda>r. k \<le> ref_key r) ?refs)"
    unfolding refs_of_key_def range(1)
  proof (rule takeWhile_sorted)
    show "sorted_wrt (\<lambda>a b. ref_ByKey a b = Ascending) (filter (\<lambda>r. k \<le> ref_key r) ?refs)"
      by (rule sorted_wrt_filter) (rule range(2))
    fix a b assume "a \<in> set (filter (\<lambda>r. k \<le> ref_key r) ?refs)" "ref_ByKey a b = Ascending" "ref_key b = k"
    then show "ref_key a = k" using ref_ByKey_le[of a b] by auto
  qed
  then show ?thesis by (auto intro: filter_cong simp: filter_filter)
qed

lemma refs_of_key_sorted:
  assumes "mq_ok q" shows "sorted_wrt (\<lambda>a b. sint (ref_id a) < sint (ref_id b)) (refs_of_key k q)"
proof -
  have "sorted_wrt (\<lambda>a b. ref_ByKey a b = Ascending) (refs_of_key k q)"
    unfolding refs_of_key_eq[OF assms] by (rule sorted_wrt_filter) (rule index_range(2)[OF assms refl])
  moreover have "ref_key r = k" if "r \<in> set (refs_of_key k q)" for r
    using that by (simp add: refs_of_key_eq[OF assms])
  ultimately show ?thesis by (elim sorted_wrt_mono_rel[rotated]) (auto intro: ref_ByKey_id)
qed

lemma set_refs_of_key:
  assumes "mq_ok q"
  shows "ref_id ` set (refs_of_key k q) = mb_batch_id ` {b \<in> set (mq_queue q). writes k b}"
proof -
  have refs: "set (map fst (mq_batches_by_document_key q)) = (\<Union>b \<in> set (mq_queue q). batch_refs b)"
    using assms by (simp add: mq_ok_def)
  have "set (refs_of_key k q) = {r \<in> set (map fst (mq_batches_by_document_key q)). ref_key r = k}"
    by (simp add: refs_of_key_eq[OF assms])
  then have "set (refs_of_key k q) = (\<Union>b \<in> set (mq_queue q). {r \<in> batch_refs b. ref_key r = k})" unfolding refs by blast
  moreover have "ref_id ` {r \<in> batch_refs b. ref_key r = k} = (if writes k b then {mb_batch_id b} else {})" for b
    by (force simp: batch_refs_def writes_def)
  ultimately show ?thesis by (auto simp: image_UN)
qed

section \<open>Lookups\<close>

lemma rfold_collect:
  assumes "\<And>r x. x \<in> set xs \<Longrightarrow> f r x = Inr (r @ [g x])"
  shows "rfold f r xs = Inr (r @ map g xs)"
  using assms by (induction xs arbitrary: r) auto

lemma in_queue_of_ids:
  assumes "mq_ok q" "sorted_wrt (\<lambda>a b. sint a < sint b) ids" "set ids = mb_batch_id ` {b \<in> set (mq_queue q). P b}"
  shows "map (\<lambda>i. the (find (\<lambda>b. mb_batch_id b = i) (mq_queue q))) ids = filter P (mq_queue q)"
proof (rule batches_of_ids)
  let ?get = "\<lambda>i. the (find (\<lambda>b. mb_batch_id b = i) (mq_queue q))"
  have get: "?get (mb_batch_id b) = b" if "b \<in> set (mq_queue q)" for b
    using find_batch[OF assms(1) that] by simp
  then have id: "mb_batch_id (?get i) = i" if "i \<in> set ids" for i
    using that unfolding assms(3) by auto
  show "ids_ok (sint (mq_next_batch_id q)) (mq_queue q)" using assms(1) by (simp add: mq_ok_def)
  show "sorted_wrt by_ids (map ?get ids)"
    using assms(2) id by (simp add: sorted_wrt_map by_ids_def) (auto elim: sorted_wrt_mono_rel[rotated])
  show "set (map ?get ids) = {b \<in> set (mq_queue q). P b}"
    unfolding set_map assms(3) image_image using get by auto
qed

lemma AllMutationBatchesWithIds_eq:
  assumes "mq_ok q" "sorted_wrt (\<lambda>a b. sint a < sint b) ids" "set ids = mb_batch_id ` {b \<in> set (mq_queue q). P b}"
  shows "AllMutationBatchesWithIds ids q = Inr (filter P (mq_queue q))"
proof -
  have "rmap (\<lambda>b. case b of Some b \<Rightarrow> r @ [b] | None \<Rightarrow> r) (LookupMutationBatch i q) =
      Inr (r @ [the (find (\<lambda>b. mb_batch_id b = i) (mq_queue q))])" if "i \<in> set ids" for r i
    using that find_batch[OF assms(1)] lookup_in_queue[OF assms(1)] unfolding assms(3) by auto
  then have "AllMutationBatchesWithIds ids q = Inr ([] @ map (\<lambda>i. the (find (\<lambda>b. mb_batch_id b = i) (mq_queue q))) ids)"
    unfolding AllMutationBatchesWithIds_def by (rule rfold_collect)
  then show ?thesis using in_queue_of_ids[OF assms] by simp
qed

definition id_set_ok :: "BatchId list \<Rightarrow> bool" where
  "id_set_ok ids = sorted_wrt (\<lambda>a b. sint a < sint b) ids"

lemma batch_ids_insert_ok [simp]:
  "set (batch_ids_insert i ids) = insert i (set ids)"
  "id_set_ok ids \<Longrightarrow> id_set_ok (batch_ids_insert i ids)"
proof -
  show "set (batch_ids_insert i ids) = insert i (set ids)" by (auto simp: batch_ids_insert_def set_insort_key)
  have strict: "id_set_ok ids = (sorted (map sint ids) \<and> distinct ids)" for ids
  proof (induction ids)
    case (Cons a ids)
    have "(\<forall>x \<in> set ids. sint a < sint x) = ((\<forall>x \<in> set ids. sint a \<le> sint x) \<and> a \<notin> set ids)"
      using sint_same[of a] by (auto simp: order.strict_iff_order)
    then show ?case using Cons by (auto simp: id_set_ok_def)
  qed (simp add: id_set_ok_def)
  show "id_set_ok ids \<Longrightarrow> id_set_ok (batch_ids_insert i ids)"
    unfolding strict by (simp add: batch_ids_insert_def sorted_insort_key distinct_insort)
qed

lemma fold_ids:
  "set (foldl (\<lambda>ids r. if P r then batch_ids_insert (ref_id r) ids else ids) ids rs) = set ids \<union> ref_id ` {r \<in> set rs. P r}"
  "id_set_ok ids \<Longrightarrow> id_set_ok (foldl (\<lambda>ids r. if P r then batch_ids_insert (ref_id r) ids else ids) ids rs)"
  by (induction rs arbitrary: ids) auto

theorem AffectingDocumentKey_eq:
  assumes "mq_ok q"
  shows "AllMutationBatchesAffectingDocumentKey k q = Inr (filter (writes k) (mq_queue q))"
proof -
  let ?ids = "map ref_id (refs_of_key k q)"
  let ?get = "\<lambda>i. the (find (\<lambda>b. mb_batch_id b = i) (mq_queue q))"
  have ids: "set ?ids = mb_batch_id ` {b \<in> set (mq_queue q). writes k b}" using set_refs_of_key[OF assms] by simp
  have "rbind (LookupMutationBatch (ref_id r) q) (\<lambda>b. case b of None \<Rightarrow> Inl HardAssert | Some b \<Rightarrow> Inr (l @ [b])) =
      Inr (l @ [?get (ref_id r)])" if "r \<in> set (refs_of_key k q)" for l r
  proof -
    have "ref_id r \<in> set ?ids" using that by simp
    then obtain b where "b \<in> set (mq_queue q)" "ref_id r = mb_batch_id b" unfolding ids by auto
    then show ?thesis using lookup_in_queue[OF assms] find_batch[OF assms] by simp
  qed
  then have "AllMutationBatchesAffectingDocumentKey k q = Inr (map ?get ?ids)"
    unfolding AllMutationBatchesAffectingDocumentKey_def using rfold_collect[of "refs_of_key k q" _ "\<lambda>r. ?get (ref_id r)" "[]"]
    by (simp add: o_def)
  moreover have "sorted_wrt (\<lambda>a b. sint a < sint b) ?ids"
    using refs_of_key_sorted[OF assms] by (simp add: sorted_wrt_map)
  ultimately show ?thesis using in_queue_of_ids[OF assms _ ids] by simp
qed

theorem AffectingDocumentKeys_eq:
  assumes "mq_ok q"
  shows "AllMutationBatchesAffectingDocumentKeys ks q = Inr (filter (\<lambda>b. \<exists>k \<in> set ks. writes k b) (mq_queue q))"
proof -
  let ?step = "\<lambda>ids k. foldl (\<lambda>ids r. batch_ids_insert (ref_id r) ids) ids (refs_of_key k q)"
  have "set (foldl ?step ids ks) = set ids \<union> mb_batch_id ` {b \<in> set (mq_queue q). \<exists>k \<in> set ks. writes k b} \<and>
      (id_set_ok ids \<longrightarrow> id_set_ok (foldl ?step ids ks))" for ids
  proof (induction ks arbitrary: ids)
    case (Cons k ks)
    have "set (?step ids k) = set ids \<union> mb_batch_id ` {b \<in> set (mq_queue q). writes k b}"
      "id_set_ok ids \<longrightarrow> id_set_ok (?step ids k)"
      using fold_ids[where P = "\<lambda>_. True" and ids = ids and rs = "refs_of_key k q"] set_refs_of_key[OF assms, of k]
      by simp_all
    then show ?case using Cons[of "?step ids k"] by auto
  qed simp
  from this[of "[]"] show ?thesis
    unfolding AllMutationBatchesAffectingDocumentKeys_def
    by (intro AllMutationBatchesWithIds_eq[OF assms]) (simp_all add: id_set_ok_def)
qed

text \<open>The scan for a query: the keys below a path are an interval of the order on keys.\<close>

lemma prefix_between:
  fixes p :: "'a::linorder list"
  assumes "p \<le> a" "a \<le> p @ r" shows "\<exists>s. a = p @ s"
  using assms
proof (induction p arbitrary: a)
  case (Cons x p)
  then obtain y b where a: "a = y # b" by (cases a) auto
  then have "y = x" "p \<le> b" "b \<le> p @ r" using Cons.prems by auto
  then show ?case using Cons.IH[of b] a by auto
qed simp

lemma prefix_le: "p \<le> p @ (r :: 'a::linorder list)"
  by (induction p) auto

lemma append_mono: "(r :: 'a::linorder list) \<le> s \<Longrightarrow> p @ r \<le> p @ s"
  by (induction p) auto

lemma Nil_string_le: "[[]] \<le> s # (ss :: string list)"
  by (cases s) auto

definition child_writes :: "ResourcePath \<Rightarrow> MutationBatch \<Rightarrow> bool" where
  "child_writes p b = (\<exists>m \<in> set (mb_mutations b). IsImmediateParentOf p (mut_key m))"

theorem AffectingQuery_eq:
  assumes "mq_ok q" "\<not> IsCollectionGroupQuery query"
  shows "AllMutationBatchesAffectingQuery query q = Inr (filter (child_writes (q_path query)) (mq_queue q))"
proof -
  let ?p = "q_path query"
  let ?refs = "map fst (mq_batches_by_document_key q)"
  define start_path where "start_path = (if IsDocumentKey ?p then ?p else path_Append ?p '''')"
  have start: "make_DocumentKey start_path = Inr start_path"
    by (auto simp: make_DocumentKey_def start_path_def IsDocumentKey_def path_Append_def) presburger
  have le: "?p \<le> start_path" by (simp add: start_path_def path_Append_def prefix_le)
  note range = index_range(1)[OF assms(1) refl, of start_path] index_range(2)[OF assms(1) refl]
  define rows where "rows = takeWhile (\<lambda>r. IsPrefixOf ?p (ref_key r))
      (values_from ref_ByKey \<lparr>ref_key = start_path, ref_id = 0\<rparr> (mq_batches_by_document_key q))"
  have rows: "rows = filter (\<lambda>r. IsPrefixOf ?p (ref_key r)) (filter (\<lambda>r. start_path \<le> ref_key r) ?refs)"
    unfolding rows_def range(1)
  proof (rule takeWhile_sorted)
    show "sorted_wrt (\<lambda>a b. ref_ByKey a b = Ascending) (filter (\<lambda>r. start_path \<le> ref_key r) ?refs)"
      by (rule sorted_wrt_filter) (rule range(2))
    fix a b assume a: "a \<in> set (filter (\<lambda>r. start_path \<le> ref_key r) ?refs)" "ref_ByKey a b = Ascending"
      and b: "IsPrefixOf ?p (ref_key b)"
    obtain r where r: "ref_key b = ?p @ r" using b by (auto simp: IsPrefixOf_iff)
    have "?p \<le> ref_key a" "ref_key a \<le> ?p @ r" using a le ref_ByKey_le[OF a(2)] r by auto
    from prefix_between[OF this] show "IsPrefixOf ?p (ref_key a)" by (simp add: IsPrefixOf_iff)
  qed
  let ?ids = "foldl (\<lambda>ids r. if length (ref_key r) \<noteq> length ?p + 1 then ids else batch_ids_insert (ref_id r) ids) [] rows"
  have swap: "(\<lambda>ids r. if length (ref_key r) \<noteq> length ?p + 1 then ids else batch_ids_insert (ref_id r) ids) =
      (\<lambda>ids r. if length (ref_key r) = length ?p + 1 then batch_ids_insert (ref_id r) ids else ids)"
    by (intro ext) simp
  have child: "(r \<in> set rows \<and> length (ref_key r) = length ?p + 1) = (r \<in> set ?refs \<and> IsImmediateParentOf ?p (ref_key r))" for r
  proof -
    have "start_path \<le> ref_key r" if "IsImmediateParentOf ?p (ref_key r)"
    proof -
      have "\<exists>s. ref_key r = ?p @ [s]" using that by (simp add: IsImmediateParentOf_iff path_Append_def)
      then obtain s where "ref_key r = ?p @ [s]" by blast
      then show ?thesis using append_mono[OF Nil_string_le[of s "[]"], of ?p] prefix_le[of ?p "[s]"]
        by (simp add: start_path_def path_Append_def)
    qed
    moreover have "IsImmediateParentOf ?p (ref_key r) = (IsPrefixOf ?p (ref_key r) \<and> length (ref_key r) = length ?p + 1)"
      by (auto simp: IsImmediateParentOf_def IsPrefixOf_def)
    ultimately show ?thesis by (auto simp: rows)
  qed
  have "set ?ids = mb_batch_id ` {b \<in> set (mq_queue q). child_writes ?p b}"
  proof -
    have "set ?ids = ref_id ` {r \<in> set rows. length (ref_key r) = length ?p + 1}"
      unfolding swap
      using fold_ids(1)[where P = "\<lambda>r. length (ref_key r) = length ?p + 1" and ids = "[]" and rs = rows] by simp
    also have "\<dots> = ref_id ` {r \<in> set ?refs. IsImmediateParentOf ?p (ref_key r)}" unfolding child ..
    also have "set ?refs = (\<Union>b \<in> set (mq_queue q). batch_refs b)" using assms(1) by (simp add: mq_ok_def)
    finally have "set ?ids = (\<Union>b \<in> set (mq_queue q). ref_id ` {r \<in> batch_refs b. IsImmediateParentOf ?p (ref_key r)})"
      by blast
    moreover have "ref_id ` {r \<in> batch_refs b. IsImmediateParentOf ?p (ref_key r)} =
        (if child_writes ?p b then {mb_batch_id b} else {})" for b
      by (force simp: batch_refs_def child_writes_def)
    ultimately show ?thesis by auto
  qed
  moreover have "id_set_ok ?ids"
    unfolding swap by (rule fold_ids(2)[where P = "\<lambda>r. length (ref_key r) = length ?p + 1"]) (simp add: id_set_ok_def)
  ultimately have "AllMutationBatchesWithIds ?ids q = Inr (filter (child_writes ?p) (mq_queue q))"
    by (intro AllMutationBatchesWithIds_eq[OF assms(1)]) (simp_all add: id_set_ok_def)
  then show ?thesis
    using assms(2) start
    by (simp add: AllMutationBatchesAffectingQuery_def Let_def start_path_def[symmetric] rows_def[symmetric])
qed

section \<open>Positions in the queue\<close>

lemma NextMutationBatch_eq:
  assumes "mq_ok q" "-1 \<le> sint i" "sint i < 2 ^ 31 - 1"
  shows "NextMutationBatchAfterBatchId i q = find (\<lambda>b. sint i < sint (mb_batch_id b)) (mq_queue q)"
proof (cases "mq_queue q")
  case Nil
  then show ?thesis by (simp add: NextMutationBatchAfterBatchId_def IndexOfBatchId_def Let_def)
next
  case (Cons b bs)
  let ?bs = "mq_queue q"
  let ?k = "sint (i + 1 - mb_batch_id b)"
  have ids: "ids_ok (sint (mq_next_batch_id q)) ?bs" using assms(1) by (simp add: mq_ok_def)
  have b: "1 \<le> sint (mb_batch_id b)" using ids_range(1)[OF ids, of b] by (simp add: Cons)
  have pos: "sint (mb_batch_id (?bs ! j)) = sint (mb_batch_id b) + int j" if "j < length ?bs" for j
  proof -
    have "sint (mb_batch_id (?bs ! 0)) = sint (mq_next_batch_id q) - int (length ?bs)"
      using ids Cons by (auto simp: ids_ok_def dest: spec[of _ 0])
    then show ?thesis using ids that Cons by (simp add: ids_ok_def)
  qed
  have "sint (i + 1) = sint i + 1"
    using assms(2,3) by (simp add: word_size sint_word_ariths signed_take_bit_int_eq_self)
  then have k: "?k = sint i + 1 - sint (mb_batch_id b)" using sint_diff[of "i + 1" "mb_batch_id b"] assms(2) b by simp
  let ?n = "if ?k < 0 then 0 else nat ?k"
  have nxt: "NextMutationBatchAfterBatchId i q = (if length ?bs \<le> ?n then None else Some (?bs ! ?n))"
    by (simp add: NextMutationBatchAfterBatchId_def IndexOfBatchId_def Let_def Cons)
  have gt: "sint i < sint (mb_batch_id (?bs ! j)) \<longleftrightarrow> ?n \<le> j" if "j < length ?bs" for j
    using pos[OF that] k by auto
  show ?thesis
  proof (cases "length ?bs \<le> ?n")
    case True
    have "\<not> sint i < sint (mb_batch_id c)" if "c \<in> set ?bs" for c
    proof -
      have "\<exists>j < length ?bs. ?bs ! j = c" using that unfolding in_set_conv_nth by blast
      then show ?thesis using gt True by fastforce
    qed
    then have "find (\<lambda>b. sint i < sint (mb_batch_id b)) ?bs = None" by (auto simp: find_None_iff)
    then show ?thesis using nxt True by simp
  next
    case False
    then have "find (\<lambda>b. sint i < sint (mb_batch_id b)) ?bs = Some (?bs ! ?n)"
      unfolding find_Some_iff by (intro exI[of _ ?n]) (use gt in auto)
    then show ?thesis using nxt False by simp
  qed
qed

lemma Highest_eq:
  assumes "mq_ok q"
  shows "mq_GetHighestUnacknowledgedBatchId q = (if mq_queue q = [] then kBatchIdUnknown else mb_batch_id (last (mq_queue q)))"
proof (cases "mq_queue q = []")
  case False
  have ids: "ids_ok (sint (mq_next_batch_id q)) (mq_queue q)" using assms by (simp add: mq_ok_def)
  then have "sint (mb_batch_id (last (mq_queue q))) = sint (mq_next_batch_id q) - 1"
    using False by (auto simp: ids_ok_def last_conv_nth of_nat_diff Suc_le_eq)
  moreover have "sint (mq_next_batch_id q - 1) = sint (mq_next_batch_id q) - 1"
    using ids sint_diff[of "mq_next_batch_id q" 1] by (auto simp: ids_ok_def)
  ultimately have "mb_batch_id (last (mq_queue q)) = mq_next_batch_id q - 1" by (intro sint_same) simp
  then show ?thesis using False by (simp add: mq_GetHighestUnacknowledgedBatchId_def mq_IsEmpty_def)
qed (simp add: mq_GetHighestUnacknowledgedBatchId_def mq_IsEmpty_def)

lemma mq_ContainsKey_iff:
  assumes "mq_ok q" shows "mq_ContainsKey k q = (\<exists>b \<in> set (mq_queue q). writes k b)"
proof
  let ?refs = "mq_batches_by_document_key q"
  have refs: "set (map fst ?refs) = (\<Union>b \<in> set (mq_queue q). batch_refs b)"
    and s: "sorted_keys ref_ByKey ?refs" using assms by (simp_all add: mq_ok_def)
  assume "\<exists>b \<in> set (mq_queue q). writes k b"
  then obtain b where b: "b \<in> set (mq_queue q)" "writes k b" by blast
  then have "\<lparr>ref_key = k, ref_id = mb_batch_id b\<rparr> \<in> set (map fst ?refs)"
    unfolding refs by (auto simp: writes_def batch_refs_def)
  moreover have "1 \<le> sint (mb_batch_id b)" using ids_range(1) b(1) assms by (auto simp: mq_ok_def)
  ultimately show "mq_ContainsKey k q" using values_from_key_hd[OF s] by (fastforce simp: mq_ContainsKey_def)
next
  let ?refs = "mq_batches_by_document_key q"
  assume "mq_ContainsKey k q"
  then obtain r rs where r: "values_from ref_ByKey \<lparr>ref_key = k, ref_id = 0\<rparr> ?refs = r # rs" "ref_key r = k"
    by (auto simp: mq_ContainsKey_def split: list.splits)
  then have "r \<in> set (filter (\<lambda>r. k \<le> ref_key r) (map fst ?refs))" using index_range(1)[OF assms refl, of k] by simp
  then show "\<exists>b \<in> set (mq_queue q). writes k b" using index_range(3)[OF assms refl, of r] r(2) by auto
qed

section \<open>Writing and removing batches\<close>

lemma add_references:
  assumes "sorted_keys ref_ByKey refs" "\<forall>m \<in> set ms. key_ok (mut_key m)"
  shows "\<exists>refs' im'. rfold (add_reference_step i) (refs, im) ms = Inr (refs', im') \<and> sorted_keys ref_ByKey refs' \<and>
    set (map fst refs') = set (map fst refs) \<union> (\<lambda>m. \<lparr>ref_key = mut_key m, ref_id = i\<rparr>) ` set ms \<and>
    im_collections im' = im_collections im \<union> (\<lambda>m. butlast (mut_key m)) ` set ms \<and> (im_ok im \<longrightarrow> im_ok im')"
  using assms
proof (induction ms arbitrary: refs im)
  case (Cons m ms)
  have k: "mut_key m \<noteq> []" "length (mut_key m) mod 2 = 0" using Cons.prems(2) by (simp_all add: key_ok_def)
  then have "length (butlast (mut_key m)) mod 2 = 1" by (cases "mut_key m" rule: rev_cases) (auto, presburger)
  then obtain im1 where im1: "AddToCollectionParentIndex (butlast (mut_key m)) im = Inr im1"
    "im_collections im1 = insert (butlast (mut_key m)) (im_collections im)"
    using AddToCollectionParentIndex_ok by blast
  have pop: "PopLast (mut_key m) = Inr (butlast (mut_key m))" using k by (simp add: PopLast_def butlast_conv_take)
  let ?refs = "al_put ref_ByKey \<lparr>ref_key = mut_key m, ref_id = i\<rparr> () refs"
  have "sorted_keys ref_ByKey ?refs" using Cons.prems(1) by (rule by_key.sorted_al_put)
  from Cons.IH[OF this, of im1] Cons.prems(2) obtain refs' im' where
    r: "rfold (add_reference_step i) (?refs, im1) ms = Inr (refs', im')" "sorted_keys ref_ByKey refs'"
      "set (map fst refs') = set (map fst ?refs) \<union> (\<lambda>m. \<lparr>ref_key = mut_key m, ref_id = i\<rparr>) ` set ms"
      "im_collections im' = im_collections im1 \<union> (\<lambda>m. butlast (mut_key m)) ` set ms" "im_ok im1 \<longrightarrow> im_ok im'"
    by auto
  have "set (map fst ?refs) = insert \<lparr>ref_key = mut_key m, ref_id = i\<rparr> (set (map fst refs))"
    by (rule by_key.al_put_key_set)
  then show ?case using r im1 im_ok_add[OF _ im1(1)] by (simp add: add_reference_step_def pop)
qed simp

theorem AddMutationBatch_ok:
  assumes "mq_ok q" "ms \<noteq> []" "\<forall>m \<in> set ms. key_ok (mut_key m)" "sint (mq_next_batch_id q) < 2 ^ 31 - 1"
  shows "\<exists>q' im'. mq_AddMutationBatch t base ms (q, im) =
      Inr (\<lparr>mb_batch_id = mq_next_batch_id q, mb_local_write_time = t, mb_base_mutations = base, mb_mutations = ms\<rparr>, q', im') \<and>
    mq_ok q' \<and> mq_queue q' = mq_queue q @
      [\<lparr>mb_batch_id = mq_next_batch_id q, mb_local_write_time = t, mb_base_mutations = base, mb_mutations = ms\<rparr>] \<and>
    mq_last_stream_token q' = mq_last_stream_token q \<and>
    im_collections im' = im_collections im \<union> (\<lambda>m. butlast (mut_key m)) ` set ms \<and> (im_ok im \<longrightarrow> im_ok im')"
proof -
  let ?i = "mq_next_batch_id q"
  let ?b = "\<lparr>mb_batch_id = ?i, mb_local_write_time = t, mb_base_mutations = base, mb_mutations = ms\<rparr>"
  have q: "ids_ok (sint ?i) (mq_queue q)" "sorted_keys ref_ByKey (mq_batches_by_document_key q)"
    "set (map fst (mq_batches_by_document_key q)) = (\<Union>b \<in> set (mq_queue q). batch_refs b)"
    "\<forall>b \<in> set (mq_queue q). mb_mutations b \<noteq> [] \<and> (\<forall>m \<in> set (mb_mutations b). key_ok (mut_key m))"
    using assms(1) by (simp_all add: mq_ok_def)
  have "0 \<le> sint ?i" using q(1) by (simp add: ids_ok_def)
  then have next_id: "sint (?i + 1) = sint ?i + 1"
    using assms(4) by (simp add: word_size sint_word_ariths signed_take_bit_int_eq_self)
  have last: "mq_queue q \<noteq> [] \<longrightarrow> sint (mb_batch_id (last (mq_queue q))) < sint ?i"
    using ids_range(2)[OF q(1)] last_in_set by blast
  obtain refs im' where r: "rfold (add_reference_step ?i) (mq_batches_by_document_key q, im) ms = Inr (refs, im')"
    "sorted_keys ref_ByKey refs" "set (map fst refs) = set (map fst (mq_batches_by_document_key q)) \<union> batch_refs ?b"
    "im_collections im' = im_collections im \<union> (\<lambda>m. butlast (mut_key m)) ` set ms" "im_ok im \<longrightarrow> im_ok im'"
    using add_references[OF q(2) assms(3), of ?i im] by (auto simp: batch_refs_def simp del: set_map)
  let ?q = "q\<lparr>mq_next_batch_id := ?i + 1, mq_queue := mq_queue q @ [?b], mq_batches_by_document_key := refs\<rparr>"
  have "mq_ok ?q"
    using ids_snoc[OF q(1), of ?b] q(3,4) r(2,3) assms(2,3) next_id by (auto simp: mq_ok_def simp del: set_map)
  moreover have "mq_AddMutationBatch t base ms (q, im) = Inr (?b, ?q, im')"
    using assms(2) last r(1) by (simp add: mq_AddMutationBatch_def Let_def make_MutationBatch_def)
  ultimately show ?thesis using r(4,5) by simp
qed

lemma remove_references:
  assumes "sorted_keys ref_ByKey (mq_batches_by_document_key q)" "rd_open rd"
  shows "\<exists>q' rd'. rfold (\<lambda>(q, rd) m. rmap (\<lambda>rd. (q\<lparr>mq_batches_by_document_key :=
        al_del ref_ByKey \<lparr>ref_key = mut_key m, ref_id = i\<rparr> (mq_batches_by_document_key q)\<rparr>, rd))
        (rd_RemoveMutationReference (mut_key m) rd)) (q, rd) ms = Inr (q', rd') \<and>
    mq_queue q' = mq_queue q \<and> mq_next_batch_id q' = mq_next_batch_id q \<and> mq_last_stream_token q' = mq_last_stream_token q \<and>
    sorted_keys ref_ByKey (mq_batches_by_document_key q') \<and>
    set (map fst (mq_batches_by_document_key q')) =
      set (map fst (mq_batches_by_document_key q)) - (\<lambda>m. \<lparr>ref_key = mut_key m, ref_id = i\<rparr>) ` set ms \<and>
    rd_same rd rd' \<and> rd_orphaned rd' = rd_orphaned rd \<union> (if is_eager rd then mut_key ` set ms else {})"
  using assms
proof (induction ms arbitrary: q rd)
  case (Cons m ms)
  let ?q = "q\<lparr>mq_batches_by_document_key :=
        al_del ref_ByKey \<lparr>ref_key = mut_key m, ref_id = i\<rparr> (mq_batches_by_document_key q)\<rparr>"
  obtain rd1 where rd1: "rd_RemoveMutationReference (mut_key m) rd = Inr rd1" "rd_same rd rd1"
    "rd_orphaned rd1 = (if is_eager rd then insert (mut_key m) (rd_orphaned rd) else {})"
    using rd_RemoveReference_ok[OF Cons.prems(2), of "mut_key m"] by (auto simp: rd_RemoveMutationReference_eq)
  have o: "rd_open rd1" "is_eager rd1 = is_eager rd" using rd1(2) Cons.prems(2) by (simp_all add: rd_same_def)
  have s: "sorted_keys ref_ByKey (mq_batches_by_document_key ?q)"
    using Cons.prems(1) by (simp add: by_key.sorted_al_del)
  have del: "set (map fst (mq_batches_by_document_key ?q)) =
      set (map fst (mq_batches_by_document_key q)) - {\<lparr>ref_key = mut_key m, ref_id = i\<rparr>}"
    using by_key.al_del_key_set[OF Cons.prems(1)] by (simp del: set_map)
  have none: "\<not> is_eager rd \<Longrightarrow> rd_orphaned rd = {}" by (cases rd) simp_all
  from Cons.IH[OF s o(1)] obtain q' rd' where
    r: "rfold (\<lambda>(q, rd) m. rmap (\<lambda>rd. (q\<lparr>mq_batches_by_document_key :=
        al_del ref_ByKey \<lparr>ref_key = mut_key m, ref_id = i\<rparr> (mq_batches_by_document_key q)\<rparr>, rd))
        (rd_RemoveMutationReference (mut_key m) rd)) (?q, rd1) ms = Inr (q', rd')"
      "mq_queue q' = mq_queue q" "mq_next_batch_id q' = mq_next_batch_id q" "mq_last_stream_token q' = mq_last_stream_token q"
      "sorted_keys ref_ByKey (mq_batches_by_document_key q')"
      "set (map fst (mq_batches_by_document_key q')) =
        set (map fst (mq_batches_by_document_key ?q)) - (\<lambda>m. \<lparr>ref_key = mut_key m, ref_id = i\<rparr>) ` set ms"
      "rd_same rd1 rd'" "rd_orphaned rd' = rd_orphaned rd1 \<union> (if is_eager rd1 then mut_key ` set ms else {})"
    by auto
  have "rd_same rd rd'" using rd_same_trans[OF rd1(2) r(7)] .
  moreover have "rd_orphaned rd' = rd_orphaned rd \<union> (if is_eager rd then mut_key ` set (m # ms) else {})"
    using r(8) rd1(3) o(2) none by auto
  moreover have "set (map fst (mq_batches_by_document_key q')) =
      set (map fst (mq_batches_by_document_key q)) - (\<lambda>m. \<lparr>ref_key = mut_key m, ref_id = i\<rparr>) ` set (m # ms)"
    unfolding r(6) del by auto
  ultimately show ?case using r(1-5) rd1(1) by simp
qed simp

lemma batch_refs_disjoint:
  "mb_batch_id a \<noteq> mb_batch_id b \<Longrightarrow> batch_refs a \<inter> batch_refs b = {}"
  by (auto simp: batch_refs_def)

theorem RemoveMutationBatch_ok:
  assumes "mq_ok q" "mq_queue q = batch # rest" "rd_open rd"
  shows "\<exists>q' rd'. mq_RemoveMutationBatch batch (q, rd) = Inr (q', rd') \<and> mq_ok q' \<and> mq_queue q' = rest \<and>
    mq_next_batch_id q' = mq_next_batch_id q \<and> mq_last_stream_token q' = mq_last_stream_token q \<and> rd_same rd rd' \<and>
    rd_orphaned rd' = rd_orphaned rd \<union> (if is_eager rd then set (Batch_keys batch) else {})"
proof -
  have q: "ids_ok (sint (mq_next_batch_id q)) (batch # rest)" "sorted_keys ref_ByKey (mq_batches_by_document_key q)"
    "set (map fst (mq_batches_by_document_key q)) = batch_refs batch \<union> (\<Union>b \<in> set rest. batch_refs b)"
    "\<forall>b \<in> set rest. mb_mutations b \<noteq> [] \<and> (\<forall>m \<in> set (mb_mutations b). key_ok (mut_key m))"
    using assms(1,2) by (simp_all add: mq_ok_def)
  have "sorted_keys ref_ByKey (mq_batches_by_document_key (q\<lparr>mq_queue := rest\<rparr>))" using q(2) by simp
  from remove_references[OF this assms(3), of "mb_batch_id batch" "mb_mutations batch"] obtain q' rd' where
    r: "mq_RemoveMutationBatch batch (q, rd) = Inr (q', rd')" "mq_queue q' = rest" "mq_next_batch_id q' = mq_next_batch_id q"
      "mq_last_stream_token q' = mq_last_stream_token q" "sorted_keys ref_ByKey (mq_batches_by_document_key q')"
      "set (map fst (mq_batches_by_document_key q')) = set (map fst (mq_batches_by_document_key q)) - batch_refs batch"
      "rd_same rd rd'" "rd_orphaned rd' = rd_orphaned rd \<union> (if is_eager rd then set (Batch_keys batch) else {})"
    by (auto simp: mq_RemoveMutationBatch_def assms(2) batch_refs_def set_Batch_keys simp del: set_map)
  have "batch_refs b \<inter> batch_refs batch = {}" if "b \<in> set rest" for b
  proof -
    have "by_ids batch b" using ids_sorted[OF q(1)] that by simp
    then show ?thesis by (intro batch_refs_disjoint) (auto simp: by_ids_def)
  qed
  then have "set (map fst (mq_batches_by_document_key q')) = (\<Union>b \<in> set rest. batch_refs b)"
    unfolding r(6) q(3) by blast
  then have "mq_ok q'" unfolding mq_ok_def r(2,3) using ids_tl[OF q(1)] q(4) r(5) by blast
  then show ?thesis using r by blast
qed

lemma AcknowledgeBatch_ok:
  "mq_queue q = batch # rest \<Longrightarrow> mq_AcknowledgeBatch batch token q = Inr (q\<lparr>mq_last_stream_token := token\<rparr>)"
  by (simp add: mq_AcknowledgeBatch_def)

lemma mq_ok_token [simp]: "mq_ok (q\<lparr>mq_last_stream_token := token\<rparr>) = mq_ok q"
  by (simp add: mq_ok_def)

lemma mq_ok_Start: "mq_ok q \<Longrightarrow> mq_ok (mq_Start q) \<and> mq_queue (mq_Start q) = mq_queue q"
  by (auto simp: mq_Start_def mq_IsEmpty_def mq_ok_def ids_ok_def)

lemma PerformConsistencyCheck_ok: "mq_ok q \<Longrightarrow> PerformConsistencyCheck q = Inr ()"
  by (auto simp: PerformConsistencyCheck_def mq_ok_def)

section \<open>The contract of a mutation queue\<close>

text \<open>
  What the view of the local documents relies on (\<open>local/mutation_queue.h\<close>): the batches that may
  affect a document, in the order of the queue.  A batch that does not write a document leaves it
  unchanged, so the batches a queue returns have the effect of all of them.
\<close>

locale mutation_queue =
  fixes inv :: "'q \<Rightarrow> bool" and batches :: "'q \<Rightarrow> MutationBatch list"
    and of_key :: "DocumentKey \<Rightarrow> 'q \<Rightarrow> MutationBatch list result"
    and of_keys :: "DocumentKeySet \<Rightarrow> 'q \<Rightarrow> MutationBatch list result"
  assumes of_key: "inv q \<Longrightarrow> of_key k q = Inr (filter (writes k) (batches q))"
    and of_keys: "inv q \<Longrightarrow> of_keys ks q = Inr (filter (\<lambda>b. \<exists>k \<in> set ks. writes k b) (batches q))"

definition base_in_batch :: "MutationBatch \<Rightarrow> bool" where
  "base_in_batch b = (mut_key ` set (mb_base_mutations b) \<subseteq> mut_key ` set (mb_mutations b))"

definition apply_batches :: "DocumentKey \<Rightarrow> MutationBatch list \<Rightarrow> MaybeDocument option \<Rightarrow> MaybeDocument option result" where
  "apply_batches k bs d = rfold (\<lambda>d b. Batch_ApplyToLocalDocument b d k) d bs"

lemma apply_batches_total:
  assumes "\<forall>b \<in> set bs. batch_ok b" "VerifyKeyMatches k d"
  shows "\<exists>d'. apply_batches k bs d = Inr d' \<and> VerifyKeyMatches k d'"
  unfolding apply_batches_def by (rule rfold_total) (use assms Batch_local_total in auto)

lemma apply_batches_filter:
  assumes "\<forall>b \<in> set bs. batch_ok b \<and> base_in_batch b" "VerifyKeyMatches k d" "\<And>b. b \<in> set bs \<Longrightarrow> writes k b \<Longrightarrow> P b"
  shows "apply_batches k (filter P bs) d = apply_batches k bs d"
  using assms
proof (induction bs arbitrary: d)
  case (Cons b bs)
  show ?case
  proof (cases "P b")
    case True
    obtain d' where "Batch_ApplyToLocalDocument b d k = Inr d'" "VerifyKeyMatches k d'"
      using Batch_local_total[of b k d] Cons.prems(1,2) by auto
    then show ?thesis using Cons True by (simp add: apply_batches_def)
  next
    case False
    then have "\<not> writes k b" using Cons.prems(3) by auto
    then have "Batch_ApplyToLocalDocument b d k = Inr d"
      using Batch_local_other_key[of k d b] Cons.prems(1,2) by (auto simp: writes_def set_Batch_keys base_in_batch_def)
    then show ?thesis using Cons False by (simp add: apply_batches_def)
  qed
qed simp

context mutation_queue
begin

lemma local_view_of_key:
  assumes "inv q" "\<forall>b \<in> set (batches q). batch_ok b \<and> base_in_batch b" "VerifyKeyMatches k d"
  shows "rbind (of_key k q) (\<lambda>bs. apply_batches k bs d) = apply_batches k (batches q) d"
  using apply_batches_filter[OF assms(2,3), of "writes k"] of_key[OF assms(1)] by simp

lemma local_view_of_keys:
  assumes "inv q" "\<forall>b \<in> set (batches q). batch_ok b \<and> base_in_batch b" "VerifyKeyMatches k d" "k \<in> set ks"
  shows "rbind (of_keys ks q) (\<lambda>bs. apply_batches k bs d) = apply_batches k (batches q) d"
  using apply_batches_filter[OF assms(2,3), of "\<lambda>b. \<exists>k \<in> set ks. writes k b"] of_keys[OF assms(1)] assms(4) by auto

end

interpretation memory_queue: mutation_queue mq_ok mq_queue
  AllMutationBatchesAffectingDocumentKey AllMutationBatchesAffectingDocumentKeys
  by unfold_locales (simp_all add: AffectingDocumentKey_eq AffectingDocumentKeys_eq)

end
