(* ===== verification/DocumentCaches.thy ===== *)
theory DocumentCaches
  imports MutationQueueProofs
begin

text \<open>
  \<open>local/memory_remote_document_cache.cc\<close>: the documents the backend sent, each with the version of the
  snapshot it came with.  The cache enters the collections of its documents in the index manager of
  its persistence, which \<open>Add\<close> takes and returns.
\<close>

record MemoryRemoteDocumentCache =
  rc_docs :: "(DocumentKey \<times> MaybeDocument \<times> SnapshotVersion) list"

type_synonym OptionalMaybeDocumentMap = "(DocumentKey \<times> MaybeDocument option) list"

definition make_RemoteDocumentCache :: MemoryRemoteDocumentCache where
  "make_RemoteDocumentCache = \<lparr>rc_docs = []\<rparr>"

definition rc_Add ::
  "MaybeDocument \<Rightarrow> SnapshotVersion \<Rightarrow> MemoryRemoteDocumentCache \<times> MemoryIndexManager \<Rightarrow>
   (MemoryRemoteDocumentCache \<times> MemoryIndexManager) result" where
  "rc_Add document read_time = (\<lambda>(rc, im).
     (let rc = rc\<lparr>rc_docs := dm_insert (doc_key document) (document, read_time) (rc_docs rc)\<rparr>
      in rbind (PopLast (doc_key document)) (\<lambda>parent.
           rmap (\<lambda>im. (rc, im)) (AddToCollectionParentIndex parent im))))"

definition rc_Remove :: "DocumentKey \<Rightarrow> MemoryRemoteDocumentCache \<Rightarrow> MemoryRemoteDocumentCache" where
  "rc_Remove key rc = rc\<lparr>rc_docs := dm_erase key (rc_docs rc)\<rparr>"

definition rc_Get :: "DocumentKey \<Rightarrow> MemoryRemoteDocumentCache \<Rightarrow> MaybeDocument option" where
  "rc_Get key rc = (case dm_get key (rc_docs rc) of Some entry \<Rightarrow> Some (fst entry) | None \<Rightarrow> None)"

definition rc_GetAll :: "DocumentKeySet \<Rightarrow> MemoryRemoteDocumentCache \<Rightarrow> OptionalMaybeDocumentMap" where
  "rc_GetAll keys rc = foldl (\<lambda>results key. dm_insert key (rc_Get key rc) results) [] keys"

fun matching_scan ::
  "Query \<Rightarrow> SnapshotVersion \<Rightarrow> (DocumentKey \<times> MaybeDocument \<times> SnapshotVersion) list \<Rightarrow> MaybeDocumentMap \<Rightarrow>
   MaybeDocumentMap result" where
  "matching_scan query since_read_time [] results = Inr results"
| "matching_scan query since_read_time ((key, maybe_doc, read_time) # it) results =
     (if \<not> IsPrefixOf (q_path query) key then Inr results
      else if \<not> is_document maybe_doc then matching_scan query since_read_time it results
      else if read_time \<le> since_read_time then matching_scan query since_read_time it results
      else rbind (Query_Matches query maybe_doc) (\<lambda>matches.
             matching_scan query since_read_time it (if matches then dm_insert key maybe_doc results else results)))"

definition rc_GetMatching ::
  "Query \<Rightarrow> SnapshotVersion \<Rightarrow> MemoryRemoteDocumentCache \<Rightarrow> MaybeDocumentMap result" where
  "rc_GetMatching query since_read_time rc =
     hard_assert (\<not> IsCollectionGroupQuery query)
       (rbind (make_DocumentKey (path_Append (q_path query) '''')) (\<lambda>prefix.
          matching_scan query since_read_time
            (dropWhile (\<lambda>e. DocumentKey_CompareTo prefix (fst e) = Descending) (rc_docs rc)) []))"

definition rc_RemoveOrphanedDocuments ::
  "(DocumentKey \<Rightarrow> bool) \<Rightarrow> MemoryRemoteDocumentCache \<Rightarrow> DocumentKey list \<times> MemoryRemoteDocumentCache" where
  "rc_RemoveOrphanedDocuments is_pinned rc =
     (let (removed, updated_docs) = foldl (\<lambda>(removed, updated_docs) kv.
            let key = fst kv
            in if \<not> is_pinned key then (removed @ [key], dm_erase key updated_docs) else (removed, updated_docs))
          ([], rc_docs rc) (rc_docs rc)
      in (removed, rc\<lparr>rc_docs := updated_docs\<rparr>))"

definition rc_CalculateByteSize :: "(MaybeDocument \<Rightarrow> int64) \<Rightarrow> MemoryRemoteDocumentCache \<Rightarrow> int64" where
  "rc_CalculateByteSize sizer rc = foldl (\<lambda>count kv. count + sizer (fst (snd kv))) 0 (rc_docs rc)"

section \<open>The cache is a map of documents\<close>

definition rc_ok :: "MemoryRemoteDocumentCache \<Rightarrow> bool" where
  "rc_ok rc = (dm_ok (rc_docs rc) \<and> (\<forall>e \<in> set (rc_docs rc). doc_key (fst (snd e)) = fst e \<and> key_ok (fst e)))"

lemma make_RemoteDocumentCache_ok [simp]: "rc_ok make_RemoteDocumentCache" "rc_Get k make_RemoteDocumentCache = None"
  by (simp_all add: rc_ok_def make_RemoteDocumentCache_def rc_Get_def)

lemma rc_Get_mem: "rc_ok rc \<Longrightarrow> (rc_Get k rc = Some d) = (\<exists>rt. (k, d, rt) \<in> set (rc_docs rc))"
proof -
  assume "rc_ok rc"
  then have m: "dm_get k (rc_docs rc) = Some e \<longleftrightarrow> (k, e) \<in> set (rc_docs rc)" for e by (simp add: rc_ok_def dm_get_mem)
  have "(rc_Get k rc = Some d) = (\<exists>rt. dm_get k (rc_docs rc) = Some (d, rt))"
    by (cases "dm_get k (rc_docs rc)") (auto simp: rc_Get_def)
  then show ?thesis unfolding m .
qed

lemma rc_Get_key: "rc_ok rc \<Longrightarrow> rc_Get k rc = Some d \<Longrightarrow> doc_key d = k \<and> key_ok k"
  by (subst (asm) rc_Get_mem) (auto simp: rc_ok_def)

lemma rc_Get_matches: "rc_ok rc \<Longrightarrow> VerifyKeyMatches k (rc_Get k rc)"
  using rc_Get_key[of rc k] by (auto simp: VerifyKeyMatches_def split: option.split)

lemma set_dm_insert: "dm_ok m \<Longrightarrow> set (dm_insert k v m) = insert (k, v) {e \<in> set m. fst e \<noteq> k}"
proof -
  assume m: "dm_ok m"
  have "(a, b) \<in> set (dm_insert k v m) \<longleftrightarrow> (a, b) \<in> insert (k, v) {e \<in> set m. fst e \<noteq> k}" for a b
    using dm_get_mem[of "dm_insert k v m" a b] dm_get_mem[OF m, of a b] m by (cases "a = k") auto
  then show ?thesis by auto
qed

lemma set_dm_erase: "dm_ok m \<Longrightarrow> set (dm_erase k m) = {e \<in> set m. fst e \<noteq> k}"
proof -
  assume m: "dm_ok m"
  have "(a, b) \<in> set (dm_erase k m) \<longleftrightarrow> (a, b) \<in> {e \<in> set m. fst e \<noteq> k}" for a b
    using dm_get_mem[of "dm_erase k m" a b] dm_get_mem[OF m, of a b] m by (cases "a = k") (auto simp: dm_get_erase)
  then show ?thesis by auto
qed

theorem rc_Add_ok:
  assumes "rc_ok rc" "key_ok (doc_key d)"
  shows "\<exists>rc' im'. rc_Add d rt (rc, im) = Inr (rc', im') \<and> rc_ok rc' \<and>
    (\<forall>k. rc_Get k rc' = (if k = doc_key d then Some d else rc_Get k rc)) \<and>
    im_collections im' = insert (butlast (doc_key d)) (im_collections im) \<and> (im_ok im \<longrightarrow> im_ok im')"
proof -
  have k: "doc_key d \<noteq> []" "length (doc_key d) mod 2 = 0" using assms(2) by (simp_all add: key_ok_def)
  then have "length (butlast (doc_key d)) mod 2 = 1" by (cases "doc_key d" rule: rev_cases) (auto, presburger)
  then obtain im' where im': "AddToCollectionParentIndex (butlast (doc_key d)) im = Inr im'"
    "im_collections im' = insert (butlast (doc_key d)) (im_collections im)"
    using AddToCollectionParentIndex_ok by blast
  have "PopLast (doc_key d) = Inr (butlast (doc_key d))" using k by (simp add: PopLast_def butlast_conv_take)
  then show ?thesis
    using im' im_ok_add[OF _ im'(1)] assms
    by (auto simp: rc_Add_def Let_def rc_ok_def set_dm_insert rc_Get_def)
qed

theorem rc_Remove_ok:
  assumes "rc_ok rc"
  shows "rc_ok (rc_Remove k rc) \<and> rc_Get k' (rc_Remove k rc) = (if k' = k then None else rc_Get k' rc)"
  using assms by (auto simp: rc_Remove_def rc_ok_def set_dm_erase rc_Get_def dm_get_erase)

theorem rc_GetAll_ok: "dm_ok (rc_GetAll ks rc) \<and> dm_get k (rc_GetAll ks rc) = (if k \<in> set ks then Some (rc_Get k rc) else None)"
proof -
  have "dm_ok m \<Longrightarrow> dm_ok (foldl (\<lambda>r k. dm_insert k (rc_Get k rc) r) m ks) \<and>
      dm_get k (foldl (\<lambda>r k. dm_insert k (rc_Get k rc) r) m ks) = (if k \<in> set ks then Some (rc_Get k rc) else dm_get k m)" for m
    by (induction ks arbitrary: m) auto
  from this[of "[]"] show ?thesis by (simp add: rc_GetAll_def)
qed

section \<open>The scan of a collection\<close>

lemma matching_scan_total:
  assumes "query_ok query"
  shows "\<exists>r. matching_scan query since es results = Inr r \<and> (dm_ok results \<longrightarrow> dm_ok r)"
proof (induction es arbitrary: results)
  case (Cons e es)
  obtain k d rt where e: "e = (k, d, rt)" by (cases e)
  obtain b where "Query_Matches query d = Inr b" using Query_Matches_total[OF assms] by blast
  then show ?case using Cons[of results] Cons[of "dm_insert k d results"] by (cases b) (auto simp: e)
qed simp

lemma matching_scan_get:
  assumes "query_ok query" "matching_scan query since es results = Inr r" "sorted_keys DocumentKey_CompareTo es"
    "\<forall>e \<in> set es. q_path query \<le> fst e"
  shows "dm_get k r = (if \<exists>d rt. (k, d, rt) \<in> set es \<and> IsPrefixOf (q_path query) k \<and> is_document d \<and> since < rt \<and>
      Query_Matches query d = Inr True then map_option fst (map_of es k) else dm_get k results)"
  using assms(2-4)
proof (induction es arbitrary: results)
  case (Cons e es)
  obtain k' d rt where e: "e = (k', d, rt)" by (cases e)
  have gt: "k' < fst x" if "x \<in> set es" for x
    using Cons.prems(2) that by (auto simp: e key_less_iff)
  obtain b where b: "Query_Matches query d = Inr b" using Query_Matches_total[OF assms(1)] by blast
  have later: "\<not> IsPrefixOf (q_path query) (fst x)" if "x \<in> set es" "\<not> IsPrefixOf (q_path query) k'" for x
  proof
    assume "IsPrefixOf (q_path query) (fst x)"
    then obtain r where "fst x = q_path query @ r" by (auto simp: IsPrefixOf_iff)
    then have "k' \<le> q_path query @ r" using gt[OF that(1)] by simp
    moreover have "q_path query \<le> k'" using Cons.prems(3) by (simp add: e)
    ultimately show False using prefix_between that(2) by (auto simp: IsPrefixOf_iff)
  qed
  have new: "map_of es k' = None" "(k', x) \<notin> set es" for x
    using gt[of "(k', x)"] gt by (fastforce simp: map_of_eq_None_iff)+
  note IH = Cons.IH
  show ?case
  proof (cases "IsPrefixOf (q_path query) k'")
    case False
    then show ?thesis using Cons.prems(1) later by (auto simp: e)
  next
    case True
    let ?hit = "is_document d \<and> since < rt \<and> b"
    let ?results = "if ?hit then dm_insert k' d results else results"
    have "matching_scan query since es ?results = Inr r"
      using Cons.prems(1) True b by (auto simp: e not_le split: if_splits)
    from IH[OF this] Cons.prems(2,3) show ?thesis using new True b by (auto simp: e)
  qed
qed simp

lemma dm_lower_bound:
  assumes "dm_ok m" shows "dropWhile (\<lambda>e. DocumentKey_CompareTo p (fst e) = Descending) m = filter (\<lambda>e. p \<le> fst e) m"
proof -
  have "dropWhile (\<lambda>e. DocumentKey_CompareTo p (fst e) = Descending) m =
      filter (\<lambda>e. DocumentKey_CompareTo p (fst e) \<noteq> Descending) m"
    using assms by (intro total_comparator.dropWhile_desc_filter[OF key_cmp.total_comparator_axioms]) (simp add: dm_ok_def)
  then show ?thesis by (simp add: DocumentKey_CompareTo_Default not_less)
qed

text \<open>A scan returns exactly the matching documents that were read after the version.\<close>

definition read_after :: "SnapshotVersion \<Rightarrow> DocumentKey \<Rightarrow> MemoryRemoteDocumentCache \<Rightarrow> bool" where
  "read_after since k rc = (\<exists>d rt. dm_get k (rc_docs rc) = Some (d, rt) \<and> since < rt)"

theorem rc_GetMatching_ok:
  assumes "rc_ok rc" "query_ok query" "\<not> IsCollectionGroupQuery query" "length (q_path query) mod 2 = 1"
  shows "\<exists>r. rc_GetMatching query since rc = Inr r \<and> dm_ok r \<and>
    (\<forall>k d. dm_get k r = Some d \<longleftrightarrow>
       rc_Get k rc = Some d \<and> is_document d \<and> Query_Matches query d = Inr True \<and> read_after since k rc)"
proof -
  let ?prefix = "path_Append (q_path query) ''''"
  let ?es = "filter (\<lambda>e. ?prefix \<le> fst e) (rc_docs rc)"
  have m: "dm_ok (rc_docs rc)" using assms(1) by (simp add: rc_ok_def)
  have prefix: "make_DocumentKey ?prefix = Inr ?prefix"
    using assms(4) by (simp add: make_DocumentKey_def IsDocumentKey_def path_Append_def) presburger
  obtain r where r: "matching_scan query since ?es [] = Inr r" "dm_ok r"
    using matching_scan_total[OF assms(2), of since ?es "[]"] by auto
  have sorted: "sorted_keys DocumentKey_CompareTo ?es"
    using m by (simp add: dm_ok_def sorted_keys_def sorted_wrt_filter_keys)
  have above: "\<forall>e \<in> set ?es. q_path query \<le> fst e"
    using prefix_le[of "q_path query" "[[]]"] by (auto simp: path_Append_def)
  note get = matching_scan_get[OF assms(2) r(1) sorted above]
  have child: "IsPrefixOf (q_path query) k \<and> ?prefix \<le> k" if "Query_Matches query d = Inr True" "doc_key d = k" for k d
  proof -
    have "IsImmediateParentOf (q_path query) k"
      using that assms(3,4) by (auto simp: Query_Matches_def MatchesPathAndCollectionGroup_def Let_def IsDocumentKey_def
          IsCollectionGroupQuery_def split: if_splits)
    then obtain s where "k = q_path query @ [s]" by (auto simp: IsImmediateParentOf_iff path_Append_def)
    then show ?thesis using append_mono[OF Nil_string_le[of s "[]"], of "q_path query"]
      by (auto simp: IsPrefixOf_iff path_Append_def)
  qed
  have "dm_get k r = Some d \<longleftrightarrow>
      rc_Get k rc = Some d \<and> is_document d \<and> Query_Matches query d = Inr True \<and> read_after since k rc" for k d
  proof -
    have mo: "(k, d, rt) \<in> set (rc_docs rc) \<longleftrightarrow> dm_get k (rc_docs rc) = Some (d, rt)" for k d rt
      using dm_get_mem[OF m] by blast
    have es: "map_of ?es k = (if ?prefix \<le> k then dm_get k (rc_docs rc) else None)" for k
    proof -
      have "map_of ?es k = dm_get k ?es" by (simp add: dm_get_def strict_comparator.al_get_map_of[OF key_cmp.strict_comparator_axioms])
      moreover have "dm_ok ?es" using sorted by (simp add: dm_ok_def)
      ultimately show ?thesis
        using dm_get_mem[of ?es k] dm_get_mem[OF m, of k]
        by (cases "dm_get k ?es"; cases "dm_get k (rc_docs rc)") auto
    qed
    have key: "doc_key d = k" if "dm_get k (rc_docs rc) = Some (d, rt)" for d rt
      using that assms(1) by (auto simp: mo[symmetric] rc_ok_def)
    show ?thesis
      unfolding get using child key
      by (cases "dm_get k (rc_docs rc)") (auto simp: mo es rc_Get_def read_after_def split: if_splits)
  qed
  moreover have "rc_GetMatching query since rc = Inr r"
    using assms(3) prefix r(1) dm_lower_bound[OF m, of ?prefix] by (simp add: rc_GetMatching_def)
  ultimately show ?thesis using r(2) by blast
qed

section \<open>The removal of orphaned documents\<close>

theorem rc_RemoveOrphaned_ok:
  assumes "rc_ok rc" "rc_RemoveOrphanedDocuments pinned rc = (removed, rc')"
  shows "rc_ok rc' \<and> (\<forall>k. rc_Get k rc' = (if pinned k then rc_Get k rc else None)) \<and>
    set removed = {k. rc_Get k rc \<noteq> None \<and> \<not> pinned k} \<and> distinct removed"
proof -
  let ?f = "\<lambda>(removed, docs) (kv :: DocumentKey \<times> MaybeDocument \<times> SnapshotVersion).
      let key = fst kv in if \<not> pinned key then (removed @ [key], dm_erase key docs) else (removed, docs)"
  have fold: "foldl ?f (r, m) es = (r', m') \<Longrightarrow> dm_ok m \<Longrightarrow>
      r' = r @ filter (\<lambda>k. \<not> pinned k) (map fst es) \<and> dm_ok m' \<and>
      (\<forall>k. dm_get k m' = (if k \<in> fst ` set es \<and> \<not> pinned k then None else dm_get k m)) \<and> set m' \<subseteq> set m" for r m es r' m'
  proof (induction es arbitrary: r m)
    case (Cons e es)
    show ?case
    proof (cases "pinned (fst e)")
      case True
      then show ?thesis using Cons.IH[of r m] Cons.prems by auto
    next
      case False
      have "set (dm_erase (fst e) m) \<subseteq> set m" using Cons.prems(2) by (auto simp: set_dm_erase)
      moreover have "foldl ?f (r @ [fst e], dm_erase (fst e) m) es = (r', m')"
        using Cons.prems(1) False by (simp add: Let_def)
      ultimately show ?thesis
        using Cons.IH[of "r @ [fst e]" "dm_erase (fst e) m"] Cons.prems(2) False by (auto simp: dm_get_erase)
    qed
  qed auto
  have m: "dm_ok (rc_docs rc)" using assms(1) by (simp add: rc_ok_def)
  obtain docs where f: "foldl ?f ([], rc_docs rc) (rc_docs rc) = (removed, docs)" "rc' = rc\<lparr>rc_docs := docs\<rparr>"
    using assms(2) by (auto simp: rc_RemoveOrphanedDocuments_def Let_def split: prod.splits)
  note r = fold[OF f(1) m]
  have keys: "(k \<in> fst ` set (rc_docs rc)) = (rc_Get k rc \<noteq> None)" for k
    using rc_Get_mem[OF assms(1), of k] by (cases "rc_Get k rc") force+
  have dist: "distinct (map fst (rc_docs rc))"
    using m strict_sorted_iff[of "map fst (rc_docs rc)"] by (simp add: dm_ok_def sorted_keys_def key_less_iff)
  have "rc_ok rc'" using r assms(1) by (auto simp: rc_ok_def f(2))
  moreover have "rc_Get k rc' = (if pinned k then rc_Get k rc else None)" for k
    using r keys[of k] by (auto simp: rc_Get_def f(2) split: option.splits)
  moreover have "set removed = {k. rc_Get k rc \<noteq> None \<and> \<not> pinned k}" using r keys by auto
  moreover have "distinct removed" using r dist by simp
  ultimately show ?thesis by blast
qed

end
