(* ===== verification/LocalDocumentsViews.thy ===== *)
theory LocalDocumentsViews
  imports DocumentCaches
begin

text \<open>
  \<open>local/local_documents_view.cc\<close>: the documents as the user sees them, the cached documents with the
  pending mutations of the queue applied.  The view only reads the parts it points to.
\<close>

record LocalDocumentsView =
  ldv_remote_document_cache :: MemoryRemoteDocumentCache
  ldv_mutation_queue :: MemoryMutationQueue
  ldv_index_manager :: MemoryIndexManager

definition ldv_GetDocumentFrom ::
  "DocumentKey \<Rightarrow> MutationBatch list \<Rightarrow> LocalDocumentsView \<Rightarrow> MaybeDocument option result" where
  "ldv_GetDocumentFrom key batches v =
     rfold (\<lambda>document batch. Batch_ApplyToLocalDocument batch document key)
       (rc_Get key (ldv_remote_document_cache v)) batches"

definition ldv_GetDocument :: "DocumentKey \<Rightarrow> LocalDocumentsView \<Rightarrow> MaybeDocument option result" where
  "ldv_GetDocument key v =
     rbind (AllMutationBatchesAffectingDocumentKey key (ldv_mutation_queue v)) (\<lambda>batches.
       ldv_GetDocumentFrom key batches v)"

definition ApplyLocalMutationsToDocuments ::
  "OptionalMaybeDocumentMap \<Rightarrow> MutationBatch list \<Rightarrow> OptionalMaybeDocumentMap result" where
  "ApplyLocalMutationsToDocuments docs batches =
     rfold (\<lambda>results (key, doc).
       rmap (\<lambda>local_view. dm_insert key local_view results)
         (rfold (\<lambda>local_view batch. Batch_ApplyToLocalDocument batch local_view key) doc batches)) [] docs"

definition GetLocalViewOfDocuments ::
  "OptionalMaybeDocumentMap \<Rightarrow> LocalDocumentsView \<Rightarrow> MaybeDocumentMap result" where
  "GetLocalViewOfDocuments base_docs v =
     (let all_keys = foldl (\<lambda>keys kv. dks_insert (fst kv) keys) [] base_docs
      in rbind (AllMutationBatchesAffectingDocumentKeys all_keys (ldv_mutation_queue v)) (\<lambda>batches.
         rmap (\<lambda>docs.
           foldl (\<lambda>results (key, maybe_doc).
             dm_insert key (case maybe_doc of None \<Rightarrow> NoDocument key SnapshotVersion_None False | Some d \<Rightarrow> d) results)
             [] docs)
           (ApplyLocalMutationsToDocuments base_docs batches)))"

definition ldv_GetDocuments :: "DocumentKeySet \<Rightarrow> LocalDocumentsView \<Rightarrow> MaybeDocumentMap result" where
  "ldv_GetDocuments keys v = GetLocalViewOfDocuments (rc_GetAll keys (ldv_remote_document_cache v)) v"

section \<open>Queries\<close>

definition GetDocumentsMatchingDocumentQuery :: "ResourcePath \<Rightarrow> LocalDocumentsView \<Rightarrow> MaybeDocumentMap result" where
  "GetDocumentsMatchingDocumentQuery doc_path v =
     rbind (make_DocumentKey doc_path) (\<lambda>key.
       rmap (\<lambda>doc. case doc of
            Some d \<Rightarrow> if is_document d then dm_insert (doc_key d) d [] else []
          | None \<Rightarrow> [])
         (ldv_GetDocument key v))"

definition missing_keys_step :: "MaybeDocumentMap \<Rightarrow> DocumentKeySet \<Rightarrow> Mutation \<Rightarrow> DocumentKeySet" where
  "missing_keys_step existing_docs keys m =
     (case m of
        PatchMutation key _ _ _ \<Rightarrow> if dm_get key existing_docs = None then dks_insert key keys else keys
      | _ \<Rightarrow> keys)"

definition AddMissingBaseDocuments ::
  "MutationBatch list \<Rightarrow> MaybeDocumentMap \<Rightarrow> LocalDocumentsView \<Rightarrow> MaybeDocumentMap" where
  "AddMissingBaseDocuments matching_batches existing_docs v =
     (let missing_doc_keys = foldl (\<lambda>keys batch. foldl (missing_keys_step existing_docs) keys (mb_mutations batch))
            [] matching_batches;
          missing_docs = rc_GetAll missing_doc_keys (ldv_remote_document_cache v)
      in foldl (\<lambda>existing_docs (key, maybe_doc).
           case maybe_doc of
             Some d \<Rightarrow> if is_document d then dm_insert key d existing_docs else existing_docs
           | None \<Rightarrow> existing_docs) existing_docs missing_docs)"

definition collection_step :: "Query \<Rightarrow> Timestamp \<Rightarrow> MaybeDocumentMap \<Rightarrow> Mutation \<Rightarrow> MaybeDocumentMap result" where
  "collection_step query local_write_time results m =
     (if \<not> IsImmediateParentOf (q_path query) (mut_key m) then Inr results
      else let key = mut_key m;
               base_doc = dm_get key results
           in rmap (\<lambda>mutated_doc. case mutated_doc of
                  Some d \<Rightarrow> if is_document d then dm_insert key d results else dm_erase key results
                | None \<Rightarrow> dm_erase key results)
                (Mutation_ApplyToLocalView m base_doc base_doc local_write_time))"

definition GetDocumentsMatchingCollectionQuery ::
  "Query \<Rightarrow> SnapshotVersion \<Rightarrow> LocalDocumentsView \<Rightarrow> MaybeDocumentMap result" where
  "GetDocumentsMatchingCollectionQuery query since_read_time v =
     rbind (rc_GetMatching query since_read_time (ldv_remote_document_cache v)) (\<lambda>results.
     rbind (AllMutationBatchesAffectingQuery query (ldv_mutation_queue v)) (\<lambda>matching_batches.
       let results = AddMissingBaseDocuments matching_batches results v
       in rbind (rfold (\<lambda>results batch. rfold (collection_step query (mb_local_write_time batch)) results (mb_mutations batch))
                 results matching_batches) (\<lambda>unfiltered.
            rfold (\<lambda>results (key, doc).
              rmap (\<lambda>matches. if \<not> matches then dm_erase key results else results) (Query_Matches query doc))
              unfiltered unfiltered)))"

definition GetDocumentsMatchingCollectionGroupQuery ::
  "Query \<Rightarrow> SnapshotVersion \<Rightarrow> LocalDocumentsView \<Rightarrow> MaybeDocumentMap result" where
  "GetDocumentsMatchingCollectionGroupQuery query since_read_time v =
     hard_assert (q_path query = [])
       (let collection_id = the (q_collection_group query);
            parents = GetCollectionParents collection_id (ldv_index_manager v)
        in rfold (\<lambda>results parent.
             let collection_query = AsCollectionQueryAtPath (path_Append parent collection_id) query
             in rmap (\<lambda>collection_results. foldl (\<lambda>results kv. dm_insert (fst kv) (snd kv) results) results collection_results)
                  (GetDocumentsMatchingCollectionQuery collection_query since_read_time v)) [] parents)"

definition ldv_GetDocumentsMatchingQuery ::
  "Query \<Rightarrow> SnapshotVersion \<Rightarrow> LocalDocumentsView \<Rightarrow> MaybeDocumentMap result" where
  "ldv_GetDocumentsMatchingQuery query since_read_time v =
     (if Query_IsDocumentQuery query then GetDocumentsMatchingDocumentQuery (q_path query) v
      else if IsCollectionGroupQuery query then GetDocumentsMatchingCollectionGroupQuery query since_read_time v
      else GetDocumentsMatchingCollectionQuery query since_read_time v)"

end
