(* ===== verification/LocalDocumentsProofs.thy ===== *)
theory LocalDocumentsProofs
  imports LocalDocumentsViews
begin

text \<open>
  The view of the local documents is the cached documents with all pending batches applied; a query
  over a collection returns the local documents that match, although it works on the matching cached
  documents and the matching batches only.
\<close>

definition ldv_ok :: "LocalDocumentsView \<Rightarrow> bool" where
  "ldv_ok v = (rc_ok (ldv_remote_document_cache v) \<and> mq_ok (ldv_mutation_queue v) \<and> im_ok (ldv_index_manager v) \<and>
     (\<forall>b \<in> set (mq_queue (ldv_mutation_queue v)). batch_ok b \<and> base_in_batch b))"

text \<open>The specification: every batch of the queue applied to the cached document.\<close>

definition local_view :: "LocalDocumentsView \<Rightarrow> DocumentKey \<Rightarrow> MaybeDocument option result" where
  "local_view v k = apply_batches k (mq_queue (ldv_mutation_queue v)) (rc_Get k (ldv_remote_document_cache v))"

lemma local_view_total: "ldv_ok v \<Longrightarrow> \<exists>d. local_view v k = Inr d \<and> VerifyKeyMatches k d"
  unfolding local_view_def by (rule apply_batches_total) (auto simp: ldv_ok_def rc_Get_matches)

theorem GetDocument_eq: "ldv_ok v \<Longrightarrow> ldv_GetDocument k v = local_view v k"
  using memory_queue.local_view_of_key[of "ldv_mutation_queue v" k "rc_Get k (ldv_remote_document_cache v)"]
  by (simp add: ldv_ok_def ldv_GetDocument_def ldv_GetDocumentFrom_def local_view_def rc_Get_matches flip: apply_batches_def)

section \<open>Maps built by a loop\<close>

lemma rfold_dm_insert:
  assumes "dm_ok docs" "\<And>k d. (k, d) \<in> set docs \<Longrightarrow> f k d = Inr (g k d)"
  shows "\<exists>r. rfold (\<lambda>results (k, d). rmap (\<lambda>x. dm_insert k x results) (f k d)) r0 docs = Inr r \<and> (dm_ok r0 \<longrightarrow> dm_ok r) \<and>
    (\<forall>k. dm_get k r = (case dm_get k docs of Some d \<Rightarrow> Some (g k d) | None \<Rightarrow> dm_get k r0))"
  using assms
proof (induction docs arbitrary: r0)
  case (Cons e docs)
  obtain k d where e: "e = (k, d)" by (cases e)
  have docs: "dm_ok docs" and new: "k \<notin> fst ` set docs" using Cons.prems(1) by (auto simp: dm_ok_def e key_less_iff)
  have get: "dm_get k' (e # docs) = (if k' = k then Some d else dm_get k' docs)" for k'
    by (simp add: dm_get_def e)
  have "dm_get k docs = None" using new dm_get_mem[OF docs, of k] by (cases "dm_get k docs") force+
  note none = this
  have f: "f k d = Inr (g k d)" using Cons.prems(2) by (simp add: e)
  obtain r where r: "rfold (\<lambda>results (k, d). rmap (\<lambda>x. dm_insert k x results) (f k d)) (dm_insert k (g k d) r0) docs = Inr r"
    "dm_ok (dm_insert k (g k d) r0) \<longrightarrow> dm_ok r"
    "\<And>k'. dm_get k' r = (case dm_get k' docs of Some d \<Rightarrow> Some (g k' d) | None \<Rightarrow> dm_get k' (dm_insert k (g k d) r0))"
    using Cons.IH[OF docs, of "dm_insert k (g k d) r0"] Cons.prems(2) by auto
  have "dm_get k' r = (case dm_get k' (e # docs) of Some d \<Rightarrow> Some (g k' d) | None \<Rightarrow> dm_get k' r0)" for k'
    using none by (cases "dm_get k' docs") (auto simp: r(3) get)
  then show ?case using r(1,2) f by (simp add: e)
qed auto

lemma foldl_dm_insert:
  assumes "dm_ok docs"
  shows "dm_get k (foldl (\<lambda>results (k, d). dm_insert k (g k d) results) r0 docs) =
      (case dm_get k docs of Some d \<Rightarrow> Some (g k d) | None \<Rightarrow> dm_get k r0)"
    "dm_ok r0 \<Longrightarrow> dm_ok (foldl (\<lambda>results (k, d). dm_insert k (g k d) results) r0 docs)"
proof -
  have "rfold (\<lambda>results (k, d). rmap (\<lambda>x. dm_insert k x results) (Inr (g k d))) r0 es =
      Inr (foldl (\<lambda>results (k, d). dm_insert k (g k d) results) r0 es)" for r0 and es :: "(DocumentKey \<times> 'a) list"
    by (induction es arbitrary: r0) auto
  then show "dm_get k (foldl (\<lambda>results (k, d). dm_insert k (g k d) results) r0 docs) =
      (case dm_get k docs of Some d \<Rightarrow> Some (g k d) | None \<Rightarrow> dm_get k r0)"
    "dm_ok r0 \<Longrightarrow> dm_ok (foldl (\<lambda>results (k, d). dm_insert k (g k d) results) r0 docs)"
    using rfold_dm_insert[OF assms, of "\<lambda>k d. Inr (g k d)" g r0] by auto
qed

lemma keys_of_map: "set (foldl (\<lambda>keys kv. dks_insert (fst kv) keys) [] docs) = fst ` set docs"
proof -
  have "set (foldl (\<lambda>keys kv. dks_insert (fst kv) keys) ks docs) = set ks \<union> fst ` set docs" for ks
    by (induction docs arbitrary: ks) (auto simp: dks_insert_def)
  then show ?thesis by simp
qed

definition doc_or_missing :: "DocumentKey \<Rightarrow> MaybeDocument option \<Rightarrow> MaybeDocument" where
  "doc_or_missing k d = (case d of None \<Rightarrow> NoDocument k SnapshotVersion_None False | Some d \<Rightarrow> d)"

theorem GetLocalViewOfDocuments_ok:
  assumes "ldv_ok v" "dm_ok docs" "\<And>k d. (k, d) \<in> set docs \<Longrightarrow> VerifyKeyMatches k d"
  shows "\<exists>r. GetLocalViewOfDocuments docs v = Inr r \<and> dm_ok r \<and>
    (\<forall>k. case dm_get k docs of None \<Rightarrow> dm_get k r = None
       | Some d \<Rightarrow> \<exists>d'. apply_batches k (mq_queue (ldv_mutation_queue v)) d = Inr d' \<and> dm_get k r = Some (doc_or_missing k d'))"
proof -
  let ?q = "ldv_mutation_queue v"
  let ?keys = "foldl (\<lambda>keys kv. dks_insert (fst kv) keys) [] docs"
  let ?bs = "filter (\<lambda>b. \<exists>k \<in> set ?keys. writes k b) (mq_queue ?q)"
  let ?view = "\<lambda>k d. case apply_batches k (mq_queue ?q) d of Inr d' \<Rightarrow> d' | Inl _ \<Rightarrow> None"
  have ok: "mq_ok ?q" "\<forall>b \<in> set (mq_queue ?q). batch_ok b \<and> base_in_batch b" using assms(1) by (simp_all add: ldv_ok_def)
  have all: "\<exists>d'. apply_batches k (mq_queue ?q) d = Inr d'" if "(k, d) \<in> set docs" for k d
    using apply_batches_total[of "mq_queue ?q" k d] ok(2) assms(3)[OF that] by auto
  have app: "rfold (\<lambda>d b. Batch_ApplyToLocalDocument b d k) d ?bs = Inr (?view k d)" if "(k, d) \<in> set docs" for k d
  proof -
    have "k \<in> set ?keys" unfolding keys_of_map using that by force
    then have "apply_batches k ?bs d = apply_batches k (mq_queue ?q) d"
      by (intro apply_batches_filter[OF ok(2) assms(3)[OF that]]) (erule bexI[rotated])
    then have "apply_batches k ?bs d = Inr (?view k d)" using all[OF that] by auto
    then show ?thesis unfolding apply_batches_def .
  qed
  have "\<exists>m. ApplyLocalMutationsToDocuments docs ?bs = Inr m \<and> (dm_ok ([] :: OptionalMaybeDocumentMap) \<longrightarrow> dm_ok m) \<and>
      (\<forall>k. dm_get k m = (case dm_get k docs of Some d \<Rightarrow> Some (?view k d) | None \<Rightarrow> dm_get k ([] :: OptionalMaybeDocumentMap)))"
    unfolding ApplyLocalMutationsToDocuments_def 
    by (rule rfold_dm_insert[OF assms(2), of "\<lambda>k d. rfold (\<lambda>d b. Batch_ApplyToLocalDocument b d k) d ?bs" ?view "[]", OF app])
  then obtain m where m: "ApplyLocalMutationsToDocuments docs ?bs = Inr m" "dm_ok m"
    "\<And>k. dm_get k m = (case dm_get k docs of Some d \<Rightarrow> Some (?view k d) | None \<Rightarrow> None)"
    unfolding dm_get_Nil by auto
  let ?r = "foldl (\<lambda>results (k, d). dm_insert k (doc_or_missing k d) results) [] m"
  have run: "GetLocalViewOfDocuments docs v = Inr ?r"
    using m(1) AffectingDocumentKeys_eq[OF ok(1), of ?keys] by (simp add: GetLocalViewOfDocuments_def doc_or_missing_def Let_def)
  have get: "dm_get k ?r = (case dm_get k m of Some d \<Rightarrow> Some (doc_or_missing k d) | None \<Rightarrow> None)" and "dm_ok ?r" for k
    using foldl_dm_insert[OF m(2), where g = doc_or_missing and ?r0.0 = "[]"] unfolding dm_get_Nil by simp_all
  have "case dm_get k docs of None \<Rightarrow> dm_get k ?r = None
      | Some d \<Rightarrow> \<exists>d'. apply_batches k (mq_queue ?q) d = Inr d' \<and> dm_get k ?r = Some (doc_or_missing k d')" for k
  proof (cases "dm_get k docs")
    case (Some d)
    then obtain d' where "apply_batches k (mq_queue ?q) d = Inr d'" using all[of k d] dm_get_mem[OF assms(2)] by blast
    then show ?thesis using Some by (simp add: get m(3))
  qed (simp add: get m(3))
  then show ?thesis using run \<open>dm_ok ?r\<close> by blast
qed

theorem GetDocuments_ok:
  assumes "ldv_ok v"
  shows "\<exists>r. ldv_GetDocuments ks v = Inr r \<and> dm_ok r \<and>
    (\<forall>k. if k \<in> set ks then \<exists>d. local_view v k = Inr d \<and> dm_get k r = Some (doc_or_missing k d) else dm_get k r = None)"
proof -
  let ?docs = "rc_GetAll ks (ldv_remote_document_cache v)"
  have docs: "dm_ok ?docs" "dm_get k ?docs = (if k \<in> set ks then Some (rc_Get k (ldv_remote_document_cache v)) else None)" for k
    using rc_GetAll_ok by auto
  have "VerifyKeyMatches k d" if "(k, d) \<in> set ?docs" for k d
  proof -
    have "d = rc_Get k (ldv_remote_document_cache v)" using that docs(2)[of k] by (simp add: dm_get_mem[OF docs(1), symmetric] split: if_splits)
    then show ?thesis using assms by (simp add: rc_Get_matches ldv_ok_def)
  qed
  from GetLocalViewOfDocuments_ok[OF assms docs(1) this] obtain r where
    r: "GetLocalViewOfDocuments ?docs v = Inr r" "dm_ok r"
      "case dm_get k ?docs of None \<Rightarrow> dm_get k r = None
       | Some d \<Rightarrow> \<exists>d'. apply_batches k (mq_queue (ldv_mutation_queue v)) d = Inr d' \<and> dm_get k r = Some (doc_or_missing k d')" for k
    by blast
  have "if k \<in> set ks then \<exists>d. local_view v k = Inr d \<and> dm_get k r = Some (doc_or_missing k d) else dm_get k r = None" for k
    using r(3)[of k] by (simp add: docs(2) local_view_def split: if_splits)
  then show ?thesis using r(1,2) by (simp add: ldv_GetDocuments_def)
qed

theorem DocumentQuery_ok:
  assumes "ldv_ok v" "IsDocumentKey p"
  shows "\<exists>d. local_view v p = Inr d \<and> GetDocumentsMatchingDocumentQuery p v =
    Inr (case d of Some d \<Rightarrow> if is_document d then [(p, d)] else [] | None \<Rightarrow> [])"
proof -
  obtain d where d: "local_view v p = Inr d" "VerifyKeyMatches p d" using local_view_total[OF assms(1)] by blast
  have "dm_insert p x [] = [(p, x)]" for x :: MaybeDocument by (simp add: dm_insert_def)
  then have "GetDocumentsMatchingDocumentQuery p v =
      Inr (case d of Some d \<Rightarrow> if is_document d then [(p, d)] else [] | None \<Rightarrow> [])"
    using d assms(2) GetDocument_eq[OF assms(1), of p]
    by (cases d) (simp_all add: GetDocumentsMatchingDocumentQuery_def make_DocumentKey_def VerifyKeyMatches_def)
  then show ?thesis using d(1) by blast
qed

section \<open>Documents with the same contents\<close>

text \<open>
  A write to a document that the scan has not loaded gives it no version, so the results agree with
  the local view up to versions, which no query looks at.
\<close>

fun same_contents :: "MaybeDocument \<Rightarrow> MaybeDocument \<Rightarrow> bool" where
  "same_contents (Document data k v st) (Document data' k' v' st') = (data = data' \<and> k = k' \<and> st = st')"
| "same_contents _ _ = False"

lemma same_contents_parts:
  "same_contents x y \<Longrightarrow> is_document x \<and> is_document y \<and> doc_key x = doc_key y \<and> Document_field x = Document_field y"
  by (cases x; cases y) (auto simp: is_document_def Document_field_def fun_eq_iff)

lemma same_contents_refl: "is_document x \<Longrightarrow> same_contents x x"
  by (cases x) (auto simp: is_document_def)

lemma Filter_Matches_same:
  assumes "doc_key x = doc_key y" "Document_field x = Document_field y"
  shows "Filter_Matches f x = Filter_Matches f y"
proof -
  have "KeyFieldIn_Contains vs x = KeyFieldIn_Contains vs y" for vs by (induction vs) (simp_all add: assms(1) cong: if_cong)
  then show ?thesis
    by (simp add: Filter_Matches_def FieldFilter_Matches_def ArrayContains_Matches_def ArrayContainsAny_Matches_def
        InFilter_Matches_def NotInFilter_Matches_def KeyFieldFilter_Matches_def KeyFieldIn_Matches_def KeyFieldNotIn_Matches_def
        assms cong: if_cong split: FilterType.split)
qed

lemma Query_Matches_same:
  assumes "same_contents x y" shows "Query_Matches q x = Query_Matches q y"
proof -
  note e = same_contents_parts[OF assms]
  have f: "all_match fs x = all_match fs y" for fs using e by (induction fs) (simp_all add: Filter_Matches_same[of x y] cong: if_cong)
  have b: "SortsBeforeDocument b obs x = SortsBeforeDocument b obs y" for b obs
  proof -
    have "bound_compare vs obs x = bound_compare vs obs y" for vs
    proof (induction vs arbitrary: obs)
      case (Cons v vs)
      show ?case by (cases obs) (simp_all add: e Cons Let_def cong: if_cong option.case_cong)
    qed simp
    then show ?thesis by (simp add: SortsBeforeDocument_def)
  qed
  have "MatchesPathAndCollectionGroup q x = MatchesPathAndCollectionGroup q y" "MatchesOrderBy q x = MatchesOrderBy q y"
    using e by (simp_all add: MatchesPathAndCollectionGroup_def MatchesOrderBy_def Let_def cong: option.case_cong)
  moreover have "MatchesFilters q x = MatchesFilters q y" "MatchesBounds q x = MatchesBounds q y"
    unfolding MatchesFilters_def MatchesBounds_def f b by simp_all
  ultimately show ?thesis using e by (simp add: Query_Matches_def cong: if_cong)
qed

section \<open>Plain writes\<close>

text \<open>
  The writes the scan treats like the local view: sets and deletes without precondition, updates (patches
  of existing documents) and merges (patches without precondition), in batches without base mutations.
\<close>

fun plain :: "Mutation \<Rightarrow> bool" where
  "plain (SetMutation k v p) = (p = Precondition_None)"
| "plain (PatchMutation k v fm p) = (p = Precondition_Exists True \<or> p = Precondition_None)"
| "plain (DeleteMutation k p) = (p = Precondition_None)"
| "plain _ = False"

definition plain_batch :: "MutationBatch \<Rightarrow> bool" where
  "plain_batch b = (mb_base_mutations b = [] \<and> (\<forall>m \<in> set (mb_mutations b). plain m))"

fun is_patch :: "Mutation \<Rightarrow> bool" where
  "is_patch (PatchMutation k v fm p) = True"
| "is_patch _ = False"

lemma plain_ok: "plain m \<Longrightarrow> mutation_ok m"
  by (cases m) auto

lemma plain_batch_ok: "plain_batch b \<Longrightarrow> batch_ok b \<and> base_in_batch b"
  by (auto simp: plain_batch_def batch_ok_def base_in_batch_def plain_ok)

definition only_documents :: "MaybeDocument option \<Rightarrow> MaybeDocument option" where
  "only_documents d = (case d of Some x \<Rightarrow> if is_document x then Some x else None | None \<Rightarrow> None)"

definition agree :: "MaybeDocument option \<Rightarrow> MaybeDocument option \<Rightarrow> bool" where
  "agree l s = (case s of None \<Rightarrow> only_documents l = None | Some x \<Rightarrow> \<exists>y. l = Some y \<and> same_contents y x)"

lemma PatchDocument_same: "same_contents y x \<Longrightarrow> PatchDocument v fm (Some y) = PatchDocument v fm (Some x)"
  by (cases x; cases y) (auto simp: PatchDocument_def)

lemma only_documents_None: "(only_documents l = None) = (\<forall>x. l = Some x \<longrightarrow> \<not> is_document x)"
  by (auto simp: only_documents_def split: option.splits)

lemma plain_step:
  assumes "plain m" "VerifyKeyMatches (mut_key m) l" "VerifyKeyMatches (mut_key m) s" "agree l s \<or> (s = None \<and> \<not> is_patch m)"
  shows "\<exists>l' s'. Mutation_ApplyToLocalView m l b t = Inr l' \<and> Mutation_ApplyToLocalView m s c t = Inr s' \<and> agree l' (only_documents s')"
proof (cases m)
  case (SetMutation k v p)
  then show ?thesis using assms(1-3) by (auto simp: agree_def only_documents_def is_document_def)
next
  case (DeleteMutation k p)
  then show ?thesis using assms(1-3) by (auto simp: agree_def only_documents_def is_document_def)
next
  case (PatchMutation k v fm p)
  then have a: "agree l s" and p: "p = Precondition_Exists True \<or> p = Precondition_None" using assms(1,4) by auto
  show ?thesis
  proof (cases s)
    case None
    then have no: "only_documents l = None" using a by (simp add: agree_def)
    then have "PatchDocument v fm l = PatchDocument v fm None"
      by (auto simp: PatchDocument_def only_documents_def is_document_def split: option.splits MaybeDocument.splits)
    moreover obtain d where "PatchDocument v fm None = Inr d"
      using PatchObject_total[of v fm "[]"] by (auto simp: PatchDocument_def)
    moreover have "IsValidFor p l = (p = Precondition_None)" "IsValidFor p s = (p = Precondition_None)"
      using p no None by (auto simp: only_documents_None IsValidFor_def Precondition_Exists_def Precondition_None_def split: option.splits)
    ultimately show ?thesis using assms(2,3) None a
      by (auto simp: PatchMutation agree_def only_documents_def is_document_def)
  next
    case (Some x)
    then obtain y where y: "l = Some y" "same_contents y x" using a by (auto simp: agree_def)
    obtain d where d: "PatchDocument v fm (Some x) = Inr d"
      unfolding PatchDocument_def by (cases x) (simp_all, (metis PatchObject_total)+)
    have "is_document x" "is_document y" using same_contents_parts[OF y(2)] by auto
    then have "IsValidFor p (Some x)" "IsValidFor p (Some y)"
      using p by (auto simp: IsValidFor_def Precondition_Exists_def Precondition_None_def)
    then show ?thesis
      using assms(2,3) d PatchDocument_same[OF y(2)] by (auto simp: PatchMutation Some y(1) agree_def only_documents_def is_document_def)
  qed
qed (use assms(1) in auto)

section \<open>One document through the loops\<close>

definition writes_of :: "MutationBatch list \<Rightarrow> (Timestamp \<times> Mutation) list" where
  "writes_of bs = concat (map (\<lambda>b. map (Pair (mb_local_write_time b)) (mb_mutations b)) bs)"

lemma rfold_map: "rfold f s (map g xs) = rfold (\<lambda>s x. f s (g x)) s xs"
proof (induction xs arbitrary: s)
  case (Cons x xs)
  then show ?case by (cases "f s (g x)") simp_all
qed simp

lemma rfold_batches:
  "rfold (\<lambda>s b. rfold (\<lambda>s m. f (mb_local_write_time b) s m) s (mb_mutations b)) s bs = rfold (\<lambda>s (t, m). f t s m) s (writes_of bs)"
proof (induction bs arbitrary: s)
  case (Cons b bs)
  then show ?case
    by (simp add: writes_of_def rfold_append rfold_map split: sum.split)
qed (simp add: writes_of_def)

definition key_step :: "DocumentKey \<Rightarrow> MaybeDocument option \<Rightarrow> Timestamp \<times> Mutation \<Rightarrow> MaybeDocument option result" where
  "key_step k d = (\<lambda>(t, m). if mut_key m = k then Mutation_ApplyToLocalView m d d t else Inr d)"

definition scan_step :: "DocumentKey \<Rightarrow> MaybeDocument option \<Rightarrow> Timestamp \<times> Mutation \<Rightarrow> MaybeDocument option result" where
  "scan_step k d = (\<lambda>(t, m). if mut_key m = k then rmap only_documents (Mutation_ApplyToLocalView m d d t) else Inr d)"

lemma plain_ignores_base: "plain m \<Longrightarrow> Mutation_ApplyToLocalView m d b t = Mutation_ApplyToLocalView m d c t"
  by (cases m) auto

lemma rfold_cong: "(\<And>s x. x \<in> set xs \<Longrightarrow> f s x = g s x) \<Longrightarrow> rfold f s xs = rfold g s xs"
  by (induction xs arbitrary: s) (auto split: sum.split)

lemma apply_plain:
  assumes "\<forall>b \<in> set bs. plain_batch b" "VerifyKeyMatches k d"
  shows "apply_batches k bs d = rfold (key_step k) d (writes_of bs)"
  using assms
proof (induction bs arbitrary: d)
  case (Cons b bs)
  have plain: "mb_base_mutations b = []" "\<forall>m \<in> set (mb_mutations b). plain m" using Cons.prems(1) by (auto simp: plain_batch_def)
  have "Batch_ApplyToLocalDocument b d k = rfold (local_step k (\<lambda>_. d) (mb_local_write_time b)) d (mb_mutations b)"
    using plain(1) Cons.prems(2) by (simp add: Batch_ApplyToLocalDocument_def)
  also have "\<dots> = rfold (key_step k) d (map (Pair (mb_local_write_time b)) (mb_mutations b))"
    unfolding rfold_map by (rule rfold_cong) (use plain(2) in \<open>auto simp: local_step_def key_step_def intro: plain_ignores_base\<close>)
  finally have b: "Batch_ApplyToLocalDocument b d k = rfold (key_step k) d (map (Pair (mb_local_write_time b)) (mb_mutations b))" .
  obtain d' where d': "Batch_ApplyToLocalDocument b d k = Inr d'" "VerifyKeyMatches k d'"
    using Batch_local_total[of b k d] plain_batch_ok[of b] Cons.prems by auto
  then show ?case
    using Cons.IH[OF _ d'(2)] Cons.prems(1) b by (simp add: apply_batches_def writes_of_def rfold_append)
qed (simp add: apply_batches_def writes_of_def)

lemma VerifyKey_only: "VerifyKeyMatches k d \<Longrightarrow> VerifyKeyMatches k (only_documents d)"
  by (auto simp: VerifyKeyMatches_def only_documents_def split: option.splits)

lemma key_and_scan:
  assumes "\<forall>w \<in> set ws. plain (snd w)" "VerifyKeyMatches k l" "VerifyKeyMatches k s"
    "agree l s \<or> (s = None \<and> (\<forall>w \<in> set ws. mut_key (snd w) = k \<longrightarrow> \<not> is_patch (snd w)))"
  shows "\<exists>l' s'. rfold (key_step k) l ws = Inr l' \<and> rfold (scan_step k) s ws = Inr s' \<and>
    (if agree l s \<or> (\<exists>w \<in> set ws. mut_key (snd w) = k) then agree l' s' else l' = l \<and> s' = None)"
  using assms
proof (induction ws arbitrary: l s)
  case (Cons w ws)
  obtain t m where w: "w = (t, m)" by (cases w)
  show ?case
  proof (cases "mut_key m = k")
    case True
    obtain l1 s1 where a: "Mutation_ApplyToLocalView m l l t = Inr l1" "Mutation_ApplyToLocalView m s s t = Inr s1"
      "agree l1 (only_documents s1)"
      using plain_step[of m l s l t s] Cons.prems True by (auto simp: w)
    have v: "VerifyKeyMatches k l1" "VerifyKeyMatches k (only_documents s1)"
      using Mutation_local_total[of m l l t] Mutation_local_total[of m s s t] plain_ok[of m] a Cons.prems True
      by (auto simp: w intro: VerifyKey_only)
    from Cons.IH[OF _ v] a Cons.prems(1) show ?thesis by (auto simp: w True key_step_def scan_step_def)
  next
    case False
    then show ?thesis using Cons.IH[of l s] Cons.prems by (auto simp: w key_step_def scan_step_def)
  qed
qed auto


section \<open>The scan of a collection\<close>

definition documents_by_key :: "MaybeDocumentMap \<Rightarrow> bool" where
  "documents_by_key m = (dm_ok m \<and> (\<forall>k d. dm_get k m = Some d \<longrightarrow> doc_key d = k \<and> is_document d))"

lemma documents_by_key_matches: "documents_by_key m \<Longrightarrow> VerifyKeyMatches k (dm_get k m)"
  by (auto simp: documents_by_key_def VerifyKeyMatches_def split: option.split)

lemma collection_step_ok:
  assumes "plain mu" "documents_by_key m"
  shows "\<exists>m'. collection_step query t m mu = Inr m' \<and> documents_by_key m' \<and>
    (\<forall>k. if IsImmediateParentOf (q_path query) k then scan_step k (dm_get k m) (t, mu) = Inr (dm_get k m')
         else dm_get k m' = dm_get k m)"
proof (cases "IsImmediateParentOf (q_path query) (mut_key mu)")
  case True
  let ?k = "mut_key mu"
  obtain d where d: "Mutation_ApplyToLocalView mu (dm_get ?k m) (dm_get ?k m) t = Inr d" "VerifyKeyMatches ?k d"
    using Mutation_local_total[OF plain_ok[OF assms(1)] documents_by_key_matches[OF assms(2)]] by blast
  let ?m = "case only_documents d of Some d \<Rightarrow> dm_insert ?k d m | None \<Rightarrow> dm_erase ?k m"
  have run: "collection_step query t m mu = Inr ?m"
    using True d(1) by (auto simp: collection_step_def only_documents_def Let_def split: option.split)
  have m: "dm_ok m" using assms(2) by (simp add: documents_by_key_def)
  have get: "dm_get k ?m = (if k = ?k then only_documents d else dm_get k m)" for k
    using m by (auto simp: dm_get_erase split: option.split)
  have "documents_by_key ?m"
    using assms(2) d(2) unfolding documents_by_key_def get
    by (auto simp: VerifyKeyMatches_def only_documents_def split: option.splits if_splits)
  moreover have "if IsImmediateParentOf (q_path query) k then scan_step k (dm_get k m) (t, mu) = Inr (dm_get k ?m)
      else dm_get k ?m = dm_get k m" for k
    using True d(1) by (auto simp: scan_step_def get)
  ultimately show ?thesis using run by blast
next
  case False
  then show ?thesis using assms(2) by (auto simp: collection_step_def scan_step_def)
qed

lemma collection_scan_ok:
  assumes "\<forall>w \<in> set ws. plain (snd w)" "documents_by_key m"
  shows "\<exists>m'. rfold (\<lambda>m (t, mu). collection_step query t m mu) m ws = Inr m' \<and> documents_by_key m' \<and>
    (\<forall>k. if IsImmediateParentOf (q_path query) k then rfold (scan_step k) (dm_get k m) ws = Inr (dm_get k m')
         else dm_get k m' = dm_get k m)"
  using assms
proof (induction ws arbitrary: m)
  case (Cons w ws)
  obtain t mu where w: "w = (t, mu)" by (cases w)
  obtain m1 where m1: "collection_step query t m mu = Inr m1" "documents_by_key m1"
    "\<And>k. if IsImmediateParentOf (q_path query) k then scan_step k (dm_get k m) (t, mu) = Inr (dm_get k m1)
         else dm_get k m1 = dm_get k m"
    using collection_step_ok[of mu m query t] Cons.prems by (auto simp: w)
  from Cons.IH[OF _ m1(2)] Cons.prems(1) obtain m2 where m2:
    "rfold (\<lambda>m (t, mu). collection_step query t m mu) m1 ws = Inr m2" "documents_by_key m2"
    "\<And>k. if IsImmediateParentOf (q_path query) k then rfold (scan_step k) (dm_get k m1) ws = Inr (dm_get k m2)
         else dm_get k m2 = dm_get k m1" by auto
  have "if IsImmediateParentOf (q_path query) k then rfold (scan_step k) (dm_get k m) (w # ws) = Inr (dm_get k m2)
      else dm_get k m2 = dm_get k m" for k
    using m1(3)[of k] m2(3)[of k] by (auto simp: w split: if_splits)
  moreover have "rfold (\<lambda>m (t, mu). collection_step query t m mu) m (w # ws) = Inr m2" using m1(1) m2(1) by (simp add: w)
  ultimately show ?case using m2(2) by blast
qed auto

definition patched :: "MutationBatch list \<Rightarrow> DocumentKey \<Rightarrow> bool" where
  "patched bs k = (\<exists>b \<in> set bs. \<exists>m \<in> set (mb_mutations b). mut_key m = k \<and> is_patch m)"

lemma missing_keys:
  "set (foldl (\<lambda>keys b. foldl (missing_keys_step docs) keys (mb_mutations b)) ks bs) =
     set ks \<union> {k. patched bs k \<and> dm_get k docs = None}"
proof -
  have step: "set (foldl (missing_keys_step docs) ks ms) =
      set ks \<union> {k. dm_get k docs = None \<and> (\<exists>m \<in> set ms. mut_key m = k \<and> is_patch m)}" for ks ms
    by (induction ms arbitrary: ks) (auto simp: missing_keys_step_def dks_insert_def split: Mutation.splits)
  show ?thesis
    by (induction bs arbitrary: ks) (auto simp: step patched_def)
qed

lemma add_documents:
  assumes "dm_ok ds"
  shows "dm_get k (foldl (\<lambda>docs (key, d). case d of Some d \<Rightarrow> if is_document d then dm_insert key d docs else docs | None \<Rightarrow> docs) m ds)
    = (case dm_get k ds of Some d \<Rightarrow> (case only_documents d of Some d \<Rightarrow> Some d | None \<Rightarrow> dm_get k m) | None \<Rightarrow> dm_get k m)"
    "dm_ok m \<Longrightarrow> dm_ok (foldl (\<lambda>docs (key, d). case d of Some d \<Rightarrow> if is_document d then dm_insert key d docs else docs | None \<Rightarrow> docs) m ds)"
proof -
  have "dm_get k (foldl (\<lambda>docs (key, d). case d of Some d \<Rightarrow> if is_document d then dm_insert key d docs else docs | None \<Rightarrow> docs) m ds)
    = (case dm_get k ds of Some d \<Rightarrow> (case only_documents d of Some d \<Rightarrow> Some d | None \<Rightarrow> dm_get k m) | None \<Rightarrow> dm_get k m) \<and>
    (dm_ok m \<longrightarrow> dm_ok (foldl (\<lambda>docs (key, d). case d of Some d \<Rightarrow> if is_document d then dm_insert key d docs else docs | None \<Rightarrow> docs) m ds))"
    using assms
  proof (induction ds arbitrary: m)
    case (Cons e ds)
    obtain key d where e: "e = (key, d)" by (cases e)
    have ds: "dm_ok ds" and new: "key \<notin> fst ` set ds" using Cons.prems by (auto simp: dm_ok_def e key_less_iff)
    have get: "dm_get k (e # ds) = (if k = key then Some d else dm_get k ds)" by (simp add: dm_get_def e)
    have "dm_get key ds = None" using new dm_get_mem[OF ds, of key] by (cases "dm_get key ds") force+
    then show ?case
      using Cons.IH[OF ds] by (auto simp: e get[unfolded e] only_documents_def split: option.splits)
  qed simp
  then show "dm_get k (foldl (\<lambda>docs (key, d). case d of Some d \<Rightarrow> if is_document d then dm_insert key d docs else docs | None \<Rightarrow> docs) m ds)
    = (case dm_get k ds of Some d \<Rightarrow> (case only_documents d of Some d \<Rightarrow> Some d | None \<Rightarrow> dm_get k m) | None \<Rightarrow> dm_get k m)"
    "dm_ok m \<Longrightarrow> dm_ok (foldl (\<lambda>docs (key, d). case d of Some d \<Rightarrow> if is_document d then dm_insert key d docs else docs | None \<Rightarrow> docs) m ds)"
    by auto
qed

lemma AddMissing_ok:
  assumes "rc_ok (ldv_remote_document_cache v)" "documents_by_key m"
  shows "documents_by_key (AddMissingBaseDocuments bs m v)"
    "dm_get k (AddMissingBaseDocuments bs m v) = (case dm_get k m of Some d \<Rightarrow> Some d
       | None \<Rightarrow> if patched bs k then only_documents (rc_Get k (ldv_remote_document_cache v)) else None)"
proof -
  let ?rc = "ldv_remote_document_cache v"
  let ?ks = "foldl (\<lambda>keys b. foldl (missing_keys_step m) keys (mb_mutations b)) [] bs"
  have docs: "dm_ok (rc_GetAll ?ks ?rc)"
    "dm_get k (rc_GetAll ?ks ?rc) = (if patched bs k \<and> dm_get k m = None then Some (rc_Get k ?rc) else None)" for k
    using rc_GetAll_ok[of ?ks ?rc k] missing_keys[of m "[]" bs] by (auto simp del: foldl.simps)
  have get: "dm_get k (AddMissingBaseDocuments bs m v) = (case dm_get k m of Some d \<Rightarrow> Some d
       | None \<Rightarrow> if patched bs k then only_documents (rc_Get k ?rc) else None)" for k
    unfolding AddMissingBaseDocuments_def Let_def add_documents[OF docs(1)] docs(2) by (auto split: option.split)
  then show "dm_get k (AddMissingBaseDocuments bs m v) = (case dm_get k m of Some d \<Rightarrow> Some d
       | None \<Rightarrow> if patched bs k then only_documents (rc_Get k ?rc) else None)" .
  have "dm_ok (AddMissingBaseDocuments bs m v)"
    using assms(2) add_documents(2)[OF docs(1)] by (simp add: AddMissingBaseDocuments_def Let_def documents_by_key_def)
  then show "documents_by_key (AddMissingBaseDocuments bs m v)"
    using assms rc_Get_key[OF assms(1)] unfolding documents_by_key_def get
    by (auto simp: only_documents_def split: option.splits if_splits)
qed

lemma erase_unmatched:
  assumes "query_ok query" "dm_ok r0"
  shows "\<exists>r. rfold (\<lambda>results (key, doc). rmap (\<lambda>matches. if \<not> matches then dm_erase key results else results) (Query_Matches query doc))
      r0 es = Inr r \<and> dm_ok r \<and>
    (\<forall>k. dm_get k r = (if \<exists>d. (k, d) \<in> set es \<and> Query_Matches query d = Inr False then None else dm_get k r0))"
  using assms(2)
proof (induction es arbitrary: r0)
  case (Cons e es)
  obtain key doc where e: "e = (key, doc)" by (cases e)
  obtain b where b: "Query_Matches query doc = Inr b" using Query_Matches_total[OF assms(1)] by blast
  let ?r1 = "if \<not> b then dm_erase key r0 else r0"
  have "dm_ok ?r1" "dm_get k ?r1 = (if k = key \<and> \<not> b then None else dm_get k r0)" for k
    using Cons.prems by (simp_all add: dm_get_erase)
  with Cons.IH[of ?r1] b show ?case by (cases b) (auto simp: e)
qed auto

text \<open>What a query over a collection should show of a key.\<close>

definition shown_view :: "Query \<Rightarrow> SnapshotVersion \<Rightarrow> LocalDocumentsView \<Rightarrow> DocumentKey \<Rightarrow> MaybeDocument option" where
  "shown_view query since v k =
     (case local_view v k of
        Inr (Some d) \<Rightarrow> if is_document d \<and> Query_Matches query d = Inr True \<and>
            (read_after since k (ldv_remote_document_cache v) \<or> (\<exists>b \<in> set (mq_queue (ldv_mutation_queue v)). writes k b))
          then Some d else None
      | _ \<Rightarrow> None)"

lemma matches_child:
  assumes "Query_Matches query d = Inr True" "\<not> IsCollectionGroupQuery query" "length (q_path query) mod 2 = 1"
  shows "IsImmediateParentOf (q_path query) (doc_key d)"
  using assms by (auto simp: Query_Matches_def MatchesPathAndCollectionGroup_def IsCollectionGroupQuery_def IsDocumentKey_def
      split: if_splits)

lemma unwritten_scan: "\<not> (\<exists>w \<in> set ws. mut_key (snd w) = k) \<Longrightarrow> rfold (scan_step k) s ws = Inr s"
  by (induction ws) (auto simp: scan_step_def)

lemma unwritten_key: "\<not> (\<exists>w \<in> set ws. mut_key (snd w) = k) \<Longrightarrow> rfold (key_step k) s ws = Inr s"
  by (induction ws) (auto simp: key_step_def)

lemma scan_shown:
  assumes v: "ldv_ok v" "\<forall>b \<in> set (mq_queue (ldv_mutation_queue v)). plain_batch b" and q: "query_ok query"
    and child: "IsImmediateParentOf (q_path query) k"
    and cached: "\<And>d. c = Some d \<longleftrightarrow> rc_Get k (ldv_remote_document_cache v) = Some d \<and> is_document d \<and>
      Query_Matches query d = Inr True \<and> read_after since k (ldv_remote_document_cache v)"
    and bs: "bs = filter (child_writes (q_path query)) (mq_queue (ldv_mutation_queue v))"
    and start: "s = (case c of Some d \<Rightarrow> Some d
      | None \<Rightarrow> if patched bs k then only_documents (rc_Get k (ldv_remote_document_cache v)) else None)"
    and scan: "rfold (scan_step k) s (writes_of bs) = Inr s'"
  shows "rel_option same_contents (shown_view query since v k)
    (case s' of Some d \<Rightarrow> if Query_Matches query d = Inr True then Some d else None | None \<Rightarrow> None)"
proof -
  let ?rc = "ldv_remote_document_cache v" and ?Q = "mq_queue (ldv_mutation_queue v)" and ?ws = "writes_of bs"
  define l where "l = rc_Get k ?rc"
  have rc: "rc_ok ?rc" using v(1) by (simp add: ldv_ok_def)
  have l: "VerifyKeyMatches k l" using rc_Get_matches[OF rc] by (simp add: l_def)
  then have s: "VerifyKeyMatches k s" using cached VerifyKey_only[OF l] by (auto simp: start l_def VerifyKeyMatches_def split: option.splits)
  have plain: "\<forall>w \<in> set ?ws. plain (snd w)" using v(2) by (auto simp: bs writes_of_def plain_batch_def)
  have written: "(\<exists>w \<in> set ?ws. mut_key (snd w) = k) \<longleftrightarrow> (\<exists>b \<in> set ?Q. writes k b)"
    using child by (force simp: bs writes_of_def writes_def child_writes_def)
  have patches: "patched bs k \<longleftrightarrow> (\<exists>w \<in> set ?ws. mut_key (snd w) = k \<and> is_patch (snd w))"
    by (force simp: patched_def writes_of_def)
  have "apply_batches k bs l = apply_batches k ?Q l"
    unfolding bs using v(1) l child by (intro apply_batches_filter) (auto simp: ldv_ok_def writes_def child_writes_def)
  then have local: "local_view v k = rfold (key_step k) l ?ws"
    using apply_plain[OF _ l, of bs] v(2) by (simp add: local_view_def l_def bs)
  have agree: "agree l s \<or> (s = None \<and> (\<forall>w \<in> set ?ws. mut_key (snd w) = k \<longrightarrow> \<not> is_patch (snd w)))"
    using cached patches
    by (auto simp: start l_def agree_def only_documents_def same_contents_refl split: option.splits)
  from key_and_scan[OF plain l s agree] scan obtain l' where
    l': "local_view v k = Inr l'"
      "if agree l s \<or> (\<exists>w \<in> set ?ws. mut_key (snd w) = k) then agree l' s' else l' = l \<and> s' = None"
    unfolding local by auto
  have unwritten: "l' = l \<and> s' = s" if "\<not> (\<exists>b \<in> set ?Q. writes k b)"
  proof -
    have none: "\<not> (\<exists>w \<in> set ?ws. mut_key (snd w) = k)" using that written by blast
    then have "rfold (key_step k) l ?ws = Inr l" by (rule unwritten_key)
    then show ?thesis using l'(1) scan unwritten_scan[OF none] by (simp add: local)
  qed
  show ?thesis
  proof (cases "agree l s \<or> (\<exists>b \<in> set ?Q. writes k b)")
    case True
    then have a: "agree l' s'" using l'(2) written by simp
    show ?thesis
    proof (cases s')
      case None
      then show ?thesis using a by (auto simp: agree_def only_documents_None shown_view_def l'(1) split: option.splits)
    next
      case (Some x)
      then obtain y where y: "l' = Some y" "same_contents y x" using a by (auto simp: agree_def)
      have read: "read_after since k ?rc \<or> (\<exists>b \<in> set ?Q. writes k b)"
        using unwritten patches written cached[THEN iffD1] Some by (auto simp: start split: option.splits if_splits)
      show ?thesis
        using y same_contents_parts[OF y(2)] Query_Matches_same[OF y(2), of query] read
        by (simp add: shown_view_def l'(1) Some)
    qed
  next
    case False
    then have "l' = l" "s' = None" using l'(2) written by auto
    moreover have "c = None"
    proof (cases c)
      case (Some d)
      then have "rc_Get k ?rc = Some d \<and> is_document d" using cached[of d] by simp
      then show ?thesis using False Some by (simp add: start agree_def l_def same_contents_refl)
    qed
    ultimately show ?thesis using False cached by (auto simp: shown_view_def l'(1) l_def split: option.splits)
  qed
qed

theorem CollectionQuery_ok:
  assumes v: "ldv_ok v" "\<forall>b \<in> set (mq_queue (ldv_mutation_queue v)). plain_batch b"
    and q: "query_ok query" "\<not> IsCollectionGroupQuery query" "length (q_path query) mod 2 = 1"
  shows "\<exists>r. GetDocumentsMatchingCollectionQuery query since v = Inr r \<and> dm_ok r \<and>
    (\<forall>k. rel_option same_contents (shown_view query since v k) (dm_get k r))"
proof -
  let ?rc = "ldv_remote_document_cache v" and ?Q = "mq_queue (ldv_mutation_queue v)"
  define bs where "bs = filter (child_writes (q_path query)) ?Q"
  have bs: "AllMutationBatchesAffectingQuery query (ldv_mutation_queue v) = Inr bs"
    using AffectingQuery_eq[OF _ q(2)] v(1) by (simp add: bs_def ldv_ok_def)
  obtain c where c: "rc_GetMatching query since ?rc = Inr c" "dm_ok c"
    "\<And>k d. dm_get k c = Some d \<longleftrightarrow> rc_Get k ?rc = Some d \<and> is_document d \<and> Query_Matches query d = Inr True \<and> read_after since k ?rc"
    using rc_GetMatching_ok[OF _ q] v(1) unfolding ldv_ok_def by blast
  have rc: "rc_ok ?rc" using v(1) by (simp add: ldv_ok_def)
  have "documents_by_key c" using c(2) rc_Get_key[OF rc] by (auto simp: documents_by_key_def c(3))
  note start = AddMissing_ok[OF rc this, where bs = bs]
  have "\<forall>w \<in> set (writes_of bs). plain (snd w)" using v(2) by (auto simp: bs_def writes_of_def plain_batch_def)
  from collection_scan_ok[OF this start(1), of query] obtain m where m:
    "rfold (\<lambda>m (t, mu). collection_step query t m mu) (AddMissingBaseDocuments bs c v) (writes_of bs) = Inr m"
    "documents_by_key m"
    "\<And>k. if IsImmediateParentOf (q_path query) k
      then rfold (scan_step k) (dm_get k (AddMissingBaseDocuments bs c v)) (writes_of bs) = Inr (dm_get k m)
      else dm_get k m = dm_get k (AddMissingBaseDocuments bs c v)" by blast
  have ok: "dm_ok m" using m(2) by (simp add: documents_by_key_def)
  obtain r where r: "rfold (\<lambda>results (key, doc). rmap (\<lambda>matches. if \<not> matches then dm_erase key results else results)
      (Query_Matches query doc)) m m = Inr r" "dm_ok r"
    "\<And>k. dm_get k r = (if \<exists>d. (k, d) \<in> set m \<and> Query_Matches query d = Inr False then None else dm_get k m)"
    using erase_unmatched[OF q(1) ok, of m] by blast
  have get: "dm_get k r = (case dm_get k m of Some d \<Rightarrow> if Query_Matches query d = Inr True then Some d else None | None \<Rightarrow> None)" for k
  proof (cases "dm_get k m")
    case (Some d)
    moreover obtain b where "Query_Matches query d = Inr b" using Query_Matches_total[OF q(1)] by blast
    ultimately show ?thesis by (cases b) (auto simp: r(3) simp flip: dm_get_mem[OF ok])
  qed (simp add: r(3))
  have "rel_option same_contents (shown_view query since v k) (dm_get k r)" for k
  proof (cases "IsImmediateParentOf (q_path query) k")
    case True
    then show ?thesis unfolding get using m(3)[of k] by (intro scan_shown[OF v q(1) True c(3) bs_def start(2)]) simp
  next
    case False
    have "dm_get k r = None" using m(2) matches_child[OF _ q(2,3)] False
      by (auto simp: get documents_by_key_def split: option.split)
    moreover have "shown_view query since v k = None"
      using local_view_total[OF v(1), of k] matches_child[OF _ q(2,3)] False
      by (auto simp: shown_view_def VerifyKeyMatches_def split: option.splits)
    ultimately show ?thesis by simp
  qed
  moreover have "GetDocumentsMatchingCollectionQuery query since v = Inr r"
    using c(1) bs m(1) r(1) rfold_batches[of "collection_step query" "AddMissingBaseDocuments bs c v" bs]
    by (simp add: GetDocumentsMatchingCollectionQuery_def Let_def)
  ultimately show ?thesis using r(2) by blast
qed

section \<open>Collection groups\<close>

text \<open>
  A collection group query runs one query per collection the index knows; the index knows the collection
  of every cached and every written document.
\<close>

definition index_complete :: "LocalDocumentsView \<Rightarrow> bool" where
  "index_complete v =
     ((\<forall>k. rc_Get k (ldv_remote_document_cache v) \<noteq> None \<longrightarrow> butlast k \<in> im_collections (ldv_index_manager v)) \<and>
      (\<forall>b \<in> set (mq_queue (ldv_mutation_queue v)). \<forall>k. writes k b \<longrightarrow> butlast k \<in> im_collections (ldv_index_manager v)) \<and>
      (\<forall>p \<in> im_collections (ldv_index_manager v). length p mod 2 = 1))"

lemma at_path_simps:
  "q_path (AsCollectionQueryAtPath p query) = p" "q_collection_group (AsCollectionQueryAtPath p query) = None"
  "q_filters (AsCollectionQueryAtPath p query) = q_filters query"
  "q_explicit_order_bys (AsCollectionQueryAtPath p query) = q_explicit_order_bys query"
  "q_start_at (AsCollectionQueryAtPath p query) = q_start_at query" "q_end_at (AsCollectionQueryAtPath p query) = q_end_at query"
  by (simp_all add: AsCollectionQueryAtPath_def)

lemma order_bys_at_path: "order_bys (AsCollectionQueryAtPath p query) = order_bys query"
  unfolding order_bys_def InequalityFilterField_def FirstOrderByField_def at_path_simps ..

lemma query_ok_at_path: "query_ok (AsCollectionQueryAtPath p query) = query_ok query"
  unfolding query_ok_def order_bys_at_path at_path_simps ..

lemma Query_Matches_at_path:
  assumes "q_path query = []" "q_collection_group query = Some i" "doc_key d = p @ [i, x]" "length p mod 2 = 0"
  shows "Query_Matches (AsCollectionQueryAtPath (path_Append p i) query) d = Query_Matches query d"
proof -
  let ?q = "AsCollectionQueryAtPath (path_Append p i) query"
  have "Suc (length p) mod 2 = 1" using assms(4) by presburger
  then have "MatchesPathAndCollectionGroup ?q d" "MatchesPathAndCollectionGroup query d"
    using assms by (simp_all add: MatchesPathAndCollectionGroup_def AsCollectionQueryAtPath_def path_Append_def IsDocumentKey_def
        IsImmediateParentOf_def HasCollectionId_def IsPrefixOf_def nth_append)
  moreover have "MatchesOrderBy ?q d = MatchesOrderBy query d" "MatchesFilters ?q d = MatchesFilters query d"
    "MatchesBounds ?q d = MatchesBounds query d"
    unfolding MatchesOrderBy_def MatchesFilters_def MatchesBounds_def order_bys_at_path at_path_simps by (rule refl)+
  ultimately show ?thesis by (simp add: Query_Matches_def cong: if_cong)
qed

lemma rfold_collections:
  assumes "\<And>p. p \<in> set ps \<Longrightarrow> f p = Inr (g p) \<and> dm_ok (g p)" "\<And>p k d. p \<in> set ps \<Longrightarrow> dm_get k (g p) = Some d \<Longrightarrow> h k = p"
  shows "\<exists>r. rfold (\<lambda>results p. rmap (\<lambda>c. foldl (\<lambda>results kv. dm_insert (fst kv) (snd kv) results) results c) (f p)) r0 ps = Inr r \<and>
    (dm_ok r0 \<longrightarrow> dm_ok r) \<and>
    (\<forall>k. dm_get k r = (if h k \<in> set ps \<and> dm_get k (g (h k)) \<noteq> None then dm_get k (g (h k)) else dm_get k r0))"
  using assms
proof (induction ps arbitrary: r0)
  case (Cons p ps)
  let ?r1 = "foldl (\<lambda>results kv. dm_insert (fst kv) (snd kv) results) r0 (g p)"
  have g: "f p = Inr (g p)" "dm_ok (g p)" using Cons.prems(1) by simp_all
  have swap: "(\<lambda>results kv. dm_insert (fst kv) (snd kv) results) = (\<lambda>results (k, d). dm_insert k d results)"
    by (auto intro!: ext)
  have one: "dm_ok r0 \<longrightarrow> dm_ok ?r1" "dm_get k ?r1 = (case dm_get k (g p) of Some d \<Rightarrow> Some d | None \<Rightarrow> dm_get k r0)" for k
    using foldl_dm_insert[OF g(2), where g = "\<lambda>k d. d"] unfolding swap by auto
  obtain r where r: "rfold (\<lambda>results p. rmap (\<lambda>c. foldl (\<lambda>results kv. dm_insert (fst kv) (snd kv) results) results c) (f p)) ?r1 ps = Inr r"
    "dm_ok ?r1 \<longrightarrow> dm_ok r"
    "\<And>k. dm_get k r = (if h k \<in> set ps \<and> dm_get k (g (h k)) \<noteq> None then dm_get k (g (h k)) else dm_get k ?r1)"
    using Cons.IH[of ?r1] Cons.prems by fastforce
  have "dm_get k r = (if h k \<in> set (p # ps) \<and> dm_get k (g (h k)) \<noteq> None then dm_get k (g (h k)) else dm_get k r0)" for k
    using Cons.prems(2)[of p k] by (auto simp: r(3) one(2) split: option.split)
  then show ?case using g(1) r(1,2) one(1) by auto
qed simp

lemma unwritten_local_view:
  assumes "ldv_ok v" "\<And>b. b \<in> set (mq_queue (ldv_mutation_queue v)) \<Longrightarrow> \<not> writes k b"
  shows "local_view v k = Inr (rc_Get k (ldv_remote_document_cache v))"
proof -
  let ?Q = "mq_queue (ldv_mutation_queue v)"
  have "apply_batches k (filter (\<lambda>_. False) ?Q) d = apply_batches k ?Q d" if "VerifyKeyMatches k d" for d
    using assms by (intro apply_batches_filter[OF _ that]) (auto simp: ldv_ok_def)
  then show ?thesis using assms(1) by (simp add: local_view_def apply_batches_def ldv_ok_def rc_Get_matches)
qed

theorem CollectionGroupQuery_ok:
  assumes v: "ldv_ok v" "\<forall>b \<in> set (mq_queue (ldv_mutation_queue v)). plain_batch b" "index_complete v"
    and q: "query_ok query" "q_path query = []" "q_collection_group query = Some i"
  shows "\<exists>r. GetDocumentsMatchingCollectionGroupQuery query since v = Inr r \<and> dm_ok r \<and>
    (\<forall>k. rel_option same_contents (shown_view query since v k) (dm_get k r))"
proof -
  let ?ps = "GetCollectionParents i (ldv_index_manager v)"
  let ?q = "\<lambda>p. AsCollectionQueryAtPath (path_Append p i) query"
  have odd: "length p mod 2 = 0" if "p \<in> set ?ps" for p
  proof -
    have "length (p @ [i]) mod 2 = 1" using that v(3) unfolding GetCollectionParents_ok index_complete_def by blast
    then show ?thesis by simp presburger
  qed
  have odd_Suc: "Suc (length p) mod 2 = Suc 0" if "p \<in> set ?ps" for p using odd[OF that] by presburger
  have "\<exists>r. GetDocumentsMatchingCollectionQuery (?q p) since v = Inr r \<and> dm_ok r \<and>
      (\<forall>k. rel_option same_contents (shown_view (?q p) since v k) (dm_get k r))" if "p \<in> set ?ps" for p
  proof (rule CollectionQuery_ok[OF v(1,2)])
    show "length (q_path (?q p)) mod 2 = 1" using odd[OF that] by (simp add: at_path_simps path_Append_def) presburger
  qed (simp_all add: query_ok_at_path q(1) IsCollectionGroupQuery_def at_path_simps)
  then obtain g where g: "\<And>p. p \<in> set ?ps \<Longrightarrow> GetDocumentsMatchingCollectionQuery (?q p) since v = Inr (g p) \<and> dm_ok (g p) \<and>
      (\<forall>k. rel_option same_contents (shown_view (?q p) since v k) (dm_get k (g p)))"
    by metis
  have key: "doc_key d = k" if "local_view v k = Inr (Some d)" for k d
    using local_view_total[OF v(1), of k] that by (auto simp: VerifyKeyMatches_def)
  have child: "butlast k = p @ [i] \<and> k \<noteq> []" if "shown_view (?q p) since v k = Some d" "p \<in> set ?ps" for p k d
  proof -
    have l: "local_view v k = Inr (Some d)" "Query_Matches (?q p) d = Inr True"
      using that by (auto simp: shown_view_def split: sum.splits option.splits if_splits)
    have "IsImmediateParentOf (p @ [i]) (doc_key d)"
      using matches_child[OF l(2)] odd_Suc[OF that(2)] by (simp add: at_path_simps IsCollectionGroupQuery_def path_Append_def)
    then show ?thesis
      unfolding key[OF l(1)] by (cases k rule: rev_cases) (auto simp: IsImmediateParentOf_def IsPrefixOf_def)
  qed
  have "butlast (butlast k) = p" if "p \<in> set ?ps" "dm_get k (g p) = Some d" for p k d
    using g[OF that(1)] child[OF _ that(1), of k] that(2) by (metis butlast_snoc option.rel_distinct(1) option.exhaust)
  note parent = this
  have "\<exists>r. rfold (\<lambda>results p. rmap (\<lambda>c. foldl (\<lambda>results kv. dm_insert (fst kv) (snd kv) results) results c)
      (GetDocumentsMatchingCollectionQuery (?q p) since v)) [] ?ps = Inr r \<and> (dm_ok ([] :: MaybeDocumentMap) \<longrightarrow> dm_ok r) \<and>
    (\<forall>k. dm_get k r = (if butlast (butlast k) \<in> set ?ps \<and> dm_get k (g (butlast (butlast k))) \<noteq> None
       then dm_get k (g (butlast (butlast k))) else dm_get k ([] :: MaybeDocumentMap)))"
    by (rule rfold_collections) (use g parent in blast)+
  then obtain r where r: "rfold (\<lambda>results p. rmap (\<lambda>c. foldl (\<lambda>results kv. dm_insert (fst kv) (snd kv) results) results c)
      (GetDocumentsMatchingCollectionQuery (?q p) since v)) [] ?ps = Inr r"
    "dm_ok ([] :: MaybeDocumentMap) \<longrightarrow> dm_ok r"
    "\<And>k. dm_get k r = (if butlast (butlast k) \<in> set ?ps \<and> dm_get k (g (butlast (butlast k))) \<noteq> None
       then dm_get k (g (butlast (butlast k))) else dm_get k ([] :: MaybeDocumentMap))" by blast
  have "rel_option same_contents (shown_view query since v k) (dm_get k r)" for k
  proof -
    let ?p = "butlast (butlast k)"
    have same: "shown_view query since v k = (if ?p \<in> set ?ps then shown_view (?q ?p) since v k else None)"
    proof (cases "\<exists>x. k = ?p @ [i, x]")
      case True
      then obtain x where k: "k = ?p @ [i, x]" by blast
      show ?thesis
      proof (cases "?p \<in> set ?ps")
        case True
        have "Query_Matches (?q ?p) d = Query_Matches query d" if "local_view v k = Inr (Some d)" for d
          using Query_Matches_at_path[OF q(2,3) _ odd[OF True]] key[OF that] k by metis
        then show ?thesis using True by (simp add: shown_view_def split: sum.split option.split)
      next
        case False
        then have "butlast k \<notin> im_collections (ldv_index_manager v)"
          unfolding GetCollectionParents_ok by (subst k) (simp add: butlast_append)
        then have "rc_Get k (ldv_remote_document_cache v) = None" "\<And>b. b \<in> set (mq_queue (ldv_mutation_queue v)) \<Longrightarrow> \<not> writes k b"
          using v(3) by (auto simp: index_complete_def)
        then show ?thesis using False unwritten_local_view[OF v(1), of k] by (simp add: shown_view_def)
      qed
    next
      case False
      have "shown_view query since v k = None"
      proof (rule ccontr)
        assume "shown_view query since v k \<noteq> None"
        then obtain d where d: "local_view v k = Inr (Some d)" "Query_Matches query d = Inr True"
          by (auto simp: shown_view_def split: sum.splits option.splits if_splits)
        then have "HasCollectionId k i"
          using key[OF d(1)] by (auto simp: Query_Matches_def MatchesPathAndCollectionGroup_def q(3) split: if_splits)
        then have "\<exists>p x. k = p @ [i, x]"
          by (cases k rule: rev_cases; cases "butlast k" rule: rev_cases) (auto simp: HasCollectionId_def Let_def nth_append)
        then show False using False by (auto simp: butlast_append)
      qed
      moreover have "shown_view (?q ?p) since v k = None" if "?p \<in> set ?ps"
        using child[OF _ that, of k] False by (metis append_butlast_last_id append_Cons append_Nil append_assoc not_None_eq)
      ultimately show ?thesis by simp
    qed
    have "rel_option same_contents (shown_view (?q ?p) since v k) (dm_get k (g ?p))" if "?p \<in> set ?ps" using g[OF that] by blast
    then show ?thesis unfolding same r(3) dm_get_Nil by (auto split: if_splits)
  qed
  then show ?thesis using r(1,2) by (auto simp: GetDocumentsMatchingCollectionGroupQuery_def q(2,3) Let_def)
qed

section \<open>Base mutations\<close>

text \<open>
  The local view starts a batch from its base mutations (the value a transform saw when it was made),
  the scan of a collection does not.
\<close>

definition incremented_view :: LocalDocumentsView where
  "incremented_view =
     (let key = [''rooms'', ''eros''];
          base = PatchMutation key [(''n'', FInteger 0)] [[''n'']] (Precondition_Exists True);
          increment = TransformMutation key [\<lparr>ft_path = [''n''], ft_transformation = NumericIncrementTransform (FInteger 1)\<rparr>]
      in \<lparr>ldv_remote_document_cache =
            \<lparr>rc_docs = [(key, Document [(''n'', FInteger 1)] key (Timestamp 2 0) kSynced, Timestamp 2 0)]\<rparr>,
          ldv_mutation_queue =
            \<lparr>mq_queue = [\<lparr>mb_batch_id = 1, mb_local_write_time = Timestamp 1 0, mb_base_mutations = [base], mb_mutations = [increment]\<rparr>],
             mq_next_batch_id = 2, mq_last_stream_token = [], mq_batches_by_document_key = [(\<lparr>ref_key = key, ref_id = 1\<rparr>, ())]\<rparr>,
          ldv_index_manager = \<lparr>im_collection_parents_index = [(''rooms'', [[]])]\<rparr>\<rparr>)"

lemmas run_increment = local_step_def VerifyKeyMatches_def IsValidFor_def Precondition_Exists_def is_document_def
  PatchDocument_def PatchObject_def patch_step_def ObjectValue_Get_def SetChild_def maybe_field_def Document_field_def
  LocalTransformResults_def TransformObject_def Increment_ApplyToLocalView_def Increment_ComputeBaseValue_def
  is_number_def SafeIncrement_def LONG_MAX_def LONG_MIN_def Let_def

lemma incremented_queue_ok: "mq_ok (ldv_mutation_queue incremented_view)"
  by (simp add: incremented_view_def Let_def mq_ok_def ids_ok_def batch_refs_def key_ok_def)

lemma view_of_increment:
  "rmap (map_option doc_data) (ldv_GetDocument [''rooms'', ''eros''] incremented_view) = Inr (Some [(''n'', FInteger 1)])"
  unfolding ldv_GetDocument_def AffectingDocumentKey_eq[OF incremented_queue_ok]
  by (simp add: incremented_view_def ldv_GetDocumentFrom_def rc_Get_def Batch_ApplyToLocalDocument_def dm_get_def writes_def run_increment)

lemma matches_rooms:
  "Query_Matches (make_Query [''rooms''] None) (Document data [''rooms'', ''eros''] v st) = Inr True"
  by (simp add: Query_Matches_def MatchesPathAndCollectionGroup_def IsDocumentKey_def IsImmediateParentOf_def
      MatchesOrderBy_def MatchesFilters_def MatchesBounds_def make_Query_def order_bys_def
      InequalityFilterField_def FirstOrderByField_def Let_def)

lemma scan_of_increment:
  "rmap (map (\<lambda>e. doc_data (snd e))) (GetDocumentsMatchingCollectionQuery (make_Query [''rooms''] None) SnapshotVersion_None incremented_view) =
     Inr [[(''n'', FInteger 2)]]"
proof -
  let ?q = "make_Query [''rooms''] None" and ?k = "[''rooms'', ''eros'']"
  have q: "q_path ?q = [''rooms'']" "\<not> IsCollectionGroupQuery ?q" by (simp_all add: make_Query_def IsCollectionGroupQuery_def)
  have cached: "rc_GetMatching ?q SnapshotVersion_None (ldv_remote_document_cache incremented_view) =
      Inr [(?k, Document [(''n'', FInteger 1)] ?k (Timestamp 2 0) kSynced)]"
    by (simp add: rc_GetMatching_def q incremented_view_def Let_def path_Append_def make_DocumentKey_def IsDocumentKey_def
        DocumentKey_CompareTo_Default DefaultCompare_def matches_rooms is_document_def
        less_eq_Timestamp_def less_Timestamp_def SnapshotVersion_None_def IsPrefixOf_def dm_insert_def)
  define b where "b = hd (mq_queue (ldv_mutation_queue incremented_view))"
  have b: "mq_queue (ldv_mutation_queue incremented_view) = [b]"
    "mb_mutations b = [TransformMutation ?k [\<lparr>ft_path = [''n''], ft_transformation = NumericIncrementTransform (FInteger 1)\<rparr>]]"
    by (simp_all add: b_def incremented_view_def Let_def)
  then have "child_writes [''rooms''] b" by (simp add: child_writes_def IsImmediateParentOf_def)
  then have bs: "AllMutationBatchesAffectingQuery ?q (ldv_mutation_queue incremented_view) = Inr [b]"
    by (simp add: AffectingQuery_eq[OF incremented_queue_ok q(2)] q(1) b(1))
  have add: "AddMissingBaseDocuments [b] docs incremented_view = docs" for docs
    by (simp add: AddMissingBaseDocuments_def b(2) missing_keys_step_def rc_GetAll_def)
  have step: "collection_step ?q (mb_local_write_time b) [(?k, Document [(''n'', FInteger 1)] ?k (Timestamp 2 0) kSynced)]
      (TransformMutation ?k [\<lparr>ft_path = [''n''], ft_transformation = NumericIncrementTransform (FInteger 1)\<rparr>]) =
      Inr [(?k, Document [(''n'', FInteger 2)] ?k (Timestamp 2 0) kLocalMutations)]"
    by (simp add: collection_step_def q(1) dm_get_def dm_insert_def run_increment IsImmediateParentOf_def)
  show ?thesis
    by (simp add: GetDocumentsMatchingCollectionQuery_def cached bs add b(2) step matches_rooms Let_def)
qed

lemma incremented_view_ok: "ldv_ok incremented_view"
proof -
  have "rc_ok (ldv_remote_document_cache incremented_view)"
    by (simp add: incremented_view_def Let_def rc_ok_def dm_ok_def key_ok_def)
  moreover have "im_ok (ldv_index_manager incremented_view)"
    by (simp add: incremented_view_def Let_def im_ok_def GetCollectionParents_def GetEntries_def um_find_def std_set_ok_def)
  ultimately show ?thesis
    using incremented_queue_ok by (simp add: ldv_ok_def) (simp add: incremented_view_def Let_def batch_ok_def base_in_batch_def is_number_def)
qed

lemma rooms_collection_ok: "query_ok (make_Query [''rooms''] None)" "\<not> IsCollectionGroupQuery (make_Query [''rooms''] None)"
  "length (q_path (make_Query [''rooms''] None)) mod 2 = 1"
  by (simp_all add: make_Query_def IsCollectionGroupQuery_def query_ok_def order_bys_def InequalityFilterField_def FirstOrderByField_def)

text \<open>The same document with a pending delete.\<close>

definition deleted_view :: LocalDocumentsView where
  "deleted_view = incremented_view\<lparr>ldv_mutation_queue := (ldv_mutation_queue incremented_view)
     \<lparr>mq_queue := [\<lparr>mb_batch_id = 1, mb_local_write_time = Timestamp 1 0, mb_base_mutations = [],
        mb_mutations = [DeleteMutation [''rooms'', ''eros''] Precondition_None]\<rparr>]\<rparr>\<rparr>"

lemma deleted_view_ok:
  "ldv_ok deleted_view" "\<forall>b \<in> set (mq_queue (ldv_mutation_queue deleted_view)). plain_batch b" "index_complete deleted_view"
proof -
  have "mq_ok (ldv_mutation_queue deleted_view)"
    by (simp add: deleted_view_def incremented_view_def Let_def mq_ok_def ids_ok_def batch_refs_def key_ok_def)
  then show "ldv_ok deleted_view"
    using incremented_view_ok by (simp add: ldv_ok_def) (simp add: deleted_view_def batch_ok_def base_in_batch_def)
  show "\<forall>b \<in> set (mq_queue (ldv_mutation_queue deleted_view)). plain_batch b"
    by (simp add: deleted_view_def plain_batch_def)
  have "im_collections (ldv_index_manager deleted_view) = {[''rooms'']}"
    by (auto simp: deleted_view_def incremented_view_def Let_def im_collections_def GetCollectionParents_def GetEntries_def um_find_def)
  then show "index_complete deleted_view"
    by (simp add: index_complete_def)
      (simp add: deleted_view_def incremented_view_def Let_def rc_Get_def dm_get_def writes_def split: option.splits)
qed

lemma deleted_view_shows:
  "local_view deleted_view [''rooms'', ''eros''] = Inr (Some (NoDocument [''rooms'', ''eros''] SnapshotVersion_None False))"
  by (simp add: local_view_def apply_batches_def deleted_view_def incremented_view_def Let_def rc_Get_def dm_get_def
      Batch_ApplyToLocalDocument_def local_step_def VerifyKeyMatches_def)

end
