(* ===== verification/QueryEngines.thy ===== *)
theory QueryEngines
  imports LocalDocumentsProofs DocumentSets
begin

text \<open>
  \<open>local/query_engine.cc\<close>: a query runs over the documents the backend assigned to its target and those
  that changed since the last snapshot without limbo documents, when that is enough, and over the whole
  collection otherwise.
\<close>

definition ApplyQuery :: "Query \<Rightarrow> MaybeDocumentMap \<Rightarrow> DocumentSet result" where
  "ApplyQuery query documents =
     rfold (\<lambda>query_results (key, maybe_doc).
       if is_document maybe_doc
       then rmap (\<lambda>matches. if matches then ds_insert (query_cmp query) (Some maybe_doc) query_results else query_results)
              (Query_Matches query maybe_doc)
       else Inr query_results) ds_new documents"

definition NeedsRefill :: "LimitType \<Rightarrow> DocumentSet \<Rightarrow> DocumentKeySet \<Rightarrow> SnapshotVersion \<Rightarrow> bool" where
  "NeedsRefill limit_type sorted_previous_results remote_keys limbo_free_snapshot_version =
     (if length remote_keys \<noteq> ds_size sorted_previous_results then True
      else let document_at_limit_edge = (if limit_type = LimitFirst then ds_GetLastDocument sorted_previous_results
                                         else ds_GetFirstDocument sorted_previous_results)
           in case document_at_limit_edge of
                None \<Rightarrow> False
              | Some d \<Rightarrow> has_pending_writes d \<or> limbo_free_snapshot_version < doc_version d)"

definition ExecuteFullCollectionScan :: "Query \<Rightarrow> LocalDocumentsView \<Rightarrow> MaybeDocumentMap result" where
  "ExecuteFullCollectionScan query v = ldv_GetDocumentsMatchingQuery query SnapshotVersion_None v"

definition qe_GetDocumentsMatchingQuery ::
  "Query \<Rightarrow> SnapshotVersion \<Rightarrow> DocumentKeySet \<Rightarrow> LocalDocumentsView \<Rightarrow> MaybeDocumentMap result" where
  "qe_GetDocumentsMatchingQuery query last_limbo_free_snapshot_version remote_keys v =
     (if MatchesAllDocuments query then ExecuteFullCollectionScan query v
      else if last_limbo_free_snapshot_version = SnapshotVersion_None then ExecuteFullCollectionScan query v
      else rbind (ldv_GetDocuments remote_keys v) (\<lambda>documents.
           rbind (ApplyQuery query documents) (\<lambda>previous_results.
             if q_limit_type query \<noteq> LimitNone \<and>
                NeedsRefill (q_limit_type query) previous_results remote_keys last_limbo_free_snapshot_version
             then ExecuteFullCollectionScan query v
             else rmap (\<lambda>updated_results.
                    foldl (\<lambda>results d. dm_insert (doc_key d) d results) updated_results (ds_docs previous_results))
                  (ldv_GetDocumentsMatchingQuery query last_limbo_free_snapshot_version v))))"

section \<open>The engine computes the matching documents of the local view\<close>

definition matching_view :: "Query \<Rightarrow> LocalDocumentsView \<Rightarrow> DocumentKey \<Rightarrow> MaybeDocument option" where
  "matching_view query v k =
     (case local_view v k of
        Inr (Some d) \<Rightarrow> if is_document d \<and> Query_Matches query d = Inr True then Some d else None
      | _ \<Rightarrow> None)"

definition is_written :: "LocalDocumentsView \<Rightarrow> DocumentKey \<Rightarrow> bool" where
  "is_written v k = (\<exists>b \<in> set (mq_queue (ldv_mutation_queue v)). writes k b)"

lemma shown_view_eq:
  "shown_view query since v k =
     (if read_after since k (ldv_remote_document_cache v) \<or> is_written v k then matching_view query v k else None)"
  by (auto simp: shown_view_def matching_view_def is_written_def split: sum.split option.split)

text \<open>A query that scans: over a collection, or over a collection group the index knows.\<close>

definition scannable :: "Query \<Rightarrow> LocalDocumentsView \<Rightarrow> bool" where
  "scannable query v = (query_ok query \<and>
     (if IsCollectionGroupQuery query then q_path query = [] \<and> index_complete v else length (q_path query) mod 2 = 1))"

definition view_ready :: "LocalDocumentsView \<Rightarrow> bool" where
  "view_ready v = (ldv_ok v \<and> (\<forall>b \<in> set (mq_queue (ldv_mutation_queue v)). plain_batch b) \<and>
     (\<forall>k. rc_Get k (ldv_remote_document_cache v) \<noteq> None \<longrightarrow> read_after SnapshotVersion_None k (ldv_remote_document_cache v)))"

lemma scan_ok:
  assumes "view_ready v" "scannable query v"
  shows "\<exists>r. ldv_GetDocumentsMatchingQuery query since v = Inr r \<and> dm_ok r \<and>
    (\<forall>k. rel_option same_contents (shown_view query since v k) (dm_get k r))"
proof (cases "q_collection_group query")
  case None
  then show ?thesis
    using assms CollectionQuery_ok[of v query since]
    by (auto simp: view_ready_def scannable_def ldv_GetDocumentsMatchingQuery_def IsCollectionGroupQuery_def
        Query_IsDocumentQuery_def IsDocumentKey_def)
next
  case (Some i)
  then show ?thesis
    using assms CollectionGroupQuery_ok[of v query i since]
    by (auto simp: view_ready_def scannable_def ldv_GetDocumentsMatchingQuery_def IsCollectionGroupQuery_def
        Query_IsDocumentQuery_def)
qed

lemma matching_key: "ldv_ok v \<Longrightarrow> matching_view query v k = Some d \<Longrightarrow>
    doc_key d = k \<and> is_document d \<and> Query_Matches query d = Inr True \<and> local_view v k = Inr (Some d)"
  using local_view_total[of v k] by (auto simp: matching_view_def VerifyKeyMatches_def split: sum.splits option.splits if_splits)

text \<open>Since every cached document was read after time zero, a full scan shows all matching documents.\<close>

lemma shown_from_start:
  assumes "view_ready v" shows "shown_view query SnapshotVersion_None v k = matching_view query v k"
proof (cases "is_written v k \<or> rc_Get k (ldv_remote_document_cache v) \<noteq> None")
  case True
  then show ?thesis using assms by (auto simp: shown_view_eq view_ready_def)
next
  case False
  then have "local_view v k = Inr None"
    using unwritten_local_view[of v k] assms by (auto simp: view_ready_def is_written_def)
  then show ?thesis by (simp add: shown_view_eq matching_view_def)
qed

definition results_exact :: "Query \<Rightarrow> LocalDocumentsView \<Rightarrow> MaybeDocumentMap \<Rightarrow> bool" where
  "results_exact query v r = (dm_ok r \<and> (\<forall>k. rel_option same_contents (matching_view query v k) (dm_get k r)))"

lemma full_scan_ok:
  "view_ready v \<Longrightarrow> scannable query v \<Longrightarrow> \<exists>r. ExecuteFullCollectionScan query v = Inr r \<and> results_exact query v r"
  using scan_ok[of v query SnapshotVersion_None] by (simp add: ExecuteFullCollectionScan_def results_exact_def shown_from_start)

section \<open>The previous results\<close>

lemma ApplyQuery_ok:
  assumes "query_ok query" "dm_ok docs" "\<forall>e \<in> set docs. doc_key (snd e) = fst e"
  shows "\<exists>s. ApplyQuery query docs = Inr s \<and> ds_inv (query_cmp query) s \<and>
    (\<forall>k. ds_GetDocument k s =
      (case dm_get k docs of Some d \<Rightarrow> if is_document d \<and> Query_Matches query d = Inr True then Some d else None | None \<Rightarrow> None))"
proof -
  let ?step = "\<lambda>s (key, d). if is_document d
      then rmap (\<lambda>m. if m then ds_insert (query_cmp query) (Some d) s else s) (Query_Matches query d) else Inr s"
  have "\<exists>s. rfold ?step s0 docs = Inr s \<and> ds_inv (query_cmp query) s \<and>
      (\<forall>k. ds_GetDocument k s = (case dm_get k docs of
         Some d \<Rightarrow> if is_document d \<and> Query_Matches query d = Inr True then Some d else ds_GetDocument k s0
       | None \<Rightarrow> ds_GetDocument k s0))" if "ds_inv (query_cmp query) s0" for s0
    using assms(2,3) that
  proof (induction docs arbitrary: s0)
    case (Cons e docs)
    obtain key d where e: "e = (key, d)" by (cases e)
    have docs: "dm_ok docs" and new: "key \<notin> fst ` set docs" using Cons.prems(1) by (auto simp: dm_ok_def e key_less_iff)
    have get: "dm_get k (e # docs) = (if k = key then Some d else dm_get k docs)" for k by (simp add: dm_get_def e)
    have none: "dm_get key docs = None" using new dm_get_mem[OF docs, of key] by (cases "dm_get key docs") force+
    obtain b where b: "Query_Matches query d = Inr b" using Query_Matches_total[OF assms(1)] by blast
    define s1 where "s1 = (if is_document d \<and> b then ds_insert (query_cmp query) (Some d) s0 else s0)"
    have step: "?step s0 e = Inr s1" by (simp add: e s1_def b)
    have s1: "ds_inv (query_cmp query) s1" using Cons.prems(3) by (simp add: s1_def query_set.insert_inv)
    have "doc_key d = key" using Cons.prems(2) by (simp add: e)
    then have get1: "ds_GetDocument k s1 = (if k = key \<and> is_document d \<and> b then Some d else ds_GetDocument k s0)" for k
      using Cons.prems(3) by (simp add: s1_def query_set.get_insert)
    obtain s where s: "rfold ?step s1 docs = Inr s" "ds_inv (query_cmp query) s"
      "\<And>k. ds_GetDocument k s = (case dm_get k docs of
         Some d \<Rightarrow> if is_document d \<and> Query_Matches query d = Inr True then Some d else ds_GetDocument k s1
       | None \<Rightarrow> ds_GetDocument k s1)"
      using Cons.IH[OF docs _ s1] Cons.prems(2) by auto
    have "ds_GetDocument k s = (case dm_get k (e # docs) of
         Some d \<Rightarrow> if is_document d \<and> Query_Matches query d = Inr True then Some d else ds_GetDocument k s0
       | None \<Rightarrow> ds_GetDocument k s0)" for k
      using none b by (auto simp: s(3) get get1 split: option.split)
    moreover have "rfold ?step s0 (e # docs) = Inr s" using step s(1) by simp
    ultimately show ?case using s(2) by blast
  qed auto
  from this[OF ds_inv_new] show ?thesis unfolding ds_get_new ApplyQuery_def .
qed

lemma insert_documents:
  "dm_ok m \<Longrightarrow> (\<And>x y. x \<in> set ds \<Longrightarrow> y \<in> set ds \<Longrightarrow> doc_key x = doc_key y \<Longrightarrow> x = y) \<Longrightarrow>
   dm_ok (foldl (\<lambda>m d. dm_insert (doc_key d) d m) m ds) \<and>
   (\<forall>k. dm_get k (foldl (\<lambda>m d. dm_insert (doc_key d) d m) m ds) =
     (case find (\<lambda>d. doc_key d = k) ds of Some d \<Rightarrow> Some d | None \<Rightarrow> dm_get k m))"
proof (induction ds arbitrary: m)
  case (Cons x ds)
  have u: "find (\<lambda>d. doc_key d = doc_key x) ds = None \<or> find (\<lambda>d. doc_key d = doc_key x) ds = Some x"
  proof (cases "find (\<lambda>d. doc_key d = doc_key x) ds")
    case (Some y)
    then have "y \<in> set ds" "doc_key y = doc_key x" by (auto simp: find_Some_iff)
    then show ?thesis using Cons.prems(2)[of y x] Some by simp
  qed simp
  show ?case using Cons.IH[of "dm_insert (doc_key x) x m"] Cons.prems u by (auto split: option.split)
qed simp

lemma find_document:
  assumes "ds_inv (query_cmp query) s"
  shows "find (\<lambda>d. doc_key d = k) (ds_docs s) = ds_GetDocument k s"
proof (cases "ds_GetDocument k s")
  case None
  then show ?thesis using ds_mem[OF assms] by (auto simp: find_None_iff)
next
  case (Some d)
  have d: "d \<in> set (ds_docs s)" "doc_key d = k" using ds_get_mem[OF assms Some] ds_get_key[OF assms Some] by auto
  then obtain x where x: "find (\<lambda>d. doc_key d = k) (ds_docs s) = Some x"
    by (cases "find (\<lambda>d. doc_key d = k) (ds_docs s)") (auto simp: find_None_iff)
  then have "x \<in> set (ds_docs s)" "doc_key x = k" by (auto simp: find_Some_iff)
  then show ?thesis using ds_unique[OF assms _ d(1)] d(2) x Some by simp
qed

lemma previous_results:
  assumes "view_ready v" "query_ok query"
  shows "\<exists>docs s. ldv_GetDocuments ks v = Inr docs \<and> ApplyQuery query docs = Inr s \<and> ds_inv (query_cmp query) s \<and>
    (\<forall>k. ds_GetDocument k s = (if k \<in> set ks then matching_view query v k else None))"
proof -
  have v: "ldv_ok v" using assms(1) by (simp add: view_ready_def)
  obtain docs where docs: "ldv_GetDocuments ks v = Inr docs" "dm_ok docs"
    "\<And>k. if k \<in> set ks then \<exists>d. local_view v k = Inr d \<and> dm_get k docs = Some (doc_or_missing k d) else dm_get k docs = None"
    using GetDocuments_ok[OF v] by blast
  have "doc_key d = k" if "(k, d) \<in> set docs" for k d
    using that docs(3)[of k] local_view_total[OF v, of k]
    by (auto simp: dm_get_mem[OF docs(2), symmetric] doc_or_missing_def VerifyKeyMatches_def split: if_splits option.splits)
  then obtain s where s: "ApplyQuery query docs = Inr s" "ds_inv (query_cmp query) s"
    "\<And>k. ds_GetDocument k s =
      (case dm_get k docs of Some d \<Rightarrow> if is_document d \<and> Query_Matches query d = Inr True then Some d else None | None \<Rightarrow> None)"
    using ApplyQuery_ok[OF assms(2) docs(2)] by auto
  have "ds_GetDocument k s = (if k \<in> set ks then matching_view query v k else None)" for k
    using docs(3)[of k] by (auto simp: s(3) matching_view_def doc_or_missing_def is_document_def split: if_splits option.splits)
  then show ?thesis using docs(1) s(1,2) by blast
qed

text \<open>What the engine returns when it runs on the previous results.\<close>

lemma merged_results:
  assumes "view_ready v" "scannable query v" "ds_inv (query_cmp query) s"
    "\<And>k. ds_GetDocument k s = (if k \<in> set ks then matching_view query v k else None)"
  shows "\<exists>r. rmap (\<lambda>updated. foldl (\<lambda>results d. dm_insert (doc_key d) d results) updated (ds_docs s))
      (ldv_GetDocumentsMatchingQuery query since v) = Inr r \<and> dm_ok r \<and>
    (\<forall>k. rel_option same_contents
      (if k \<in> set ks \<or> read_after since k (ldv_remote_document_cache v) \<or> is_written v k then matching_view query v k else None)
      (dm_get k r))"
proof -
  obtain u where u: "ldv_GetDocumentsMatchingQuery query since v = Inr u" "dm_ok u"
    "\<And>k. rel_option same_contents (shown_view query since v k) (dm_get k u)"
    using scan_ok[OF assms(1,2)] by blast
  let ?r = "foldl (\<lambda>results d. dm_insert (doc_key d) d results) u (ds_docs s)"
  have r: "dm_ok ?r" "dm_get k ?r = (case ds_GetDocument k s of Some d \<Rightarrow> Some d | None \<Rightarrow> dm_get k u)" for k
    using insert_documents[OF u(2), of "ds_docs s"] ds_unique[OF assms(3)] unfolding find_document[OF assms(3)] by blast+
  have v: "ldv_ok v" using assms(1) by (simp add: view_ready_def)
  have "rel_option same_contents
      (if k \<in> set ks \<or> read_after since k (ldv_remote_document_cache v) \<or> is_written v k then matching_view query v k else None)
      (dm_get k ?r)" for k
  proof (cases "ds_GetDocument k s")
    case None
    then have "shown_view query since v k =
        (if k \<in> set ks \<or> read_after since k (ldv_remote_document_cache v) \<or> is_written v k then matching_view query v k else None)"
      using assms(4)[of k] by (auto simp: shown_view_eq split: if_splits)
    then show ?thesis using u(3)[of k] by (simp add: r(2) None)
  next
    case (Some d)
    then have "k \<in> set ks" "matching_view query v k = Some d" using assms(4)[of k] by (auto split: if_splits)
    then show ?thesis using matching_key[OF v] by (simp add: r(2) Some same_contents_refl)
  qed
  then show ?thesis using u(1) r(1) by (intro exI[of _ ?r]) simp
qed

text \<open>
  Without limit: nothing is lost if the keys the backend assigned hold every matching document that
  was not read since and that no pending write changes.
\<close>

theorem engine_without_limit:
  assumes v: "view_ready v" "scannable query v" and "q_limit_type query = LimitNone"
    and known: "\<And>k. matching_view query v k \<noteq> None \<Longrightarrow> \<not> is_written v k \<Longrightarrow>
      \<not> read_after limbo_free k (ldv_remote_document_cache v) \<Longrightarrow> k \<in> set remote_keys"
  shows "\<exists>r. qe_GetDocumentsMatchingQuery query limbo_free remote_keys v = Inr r \<and> results_exact query v r"
proof (cases "MatchesAllDocuments query \<or> limbo_free = SnapshotVersion_None")
  case True
  then show ?thesis using full_scan_ok[OF v] by (auto simp: qe_GetDocumentsMatchingQuery_def)
next
  case False
  obtain docs s where s: "ldv_GetDocuments remote_keys v = Inr docs" "ApplyQuery query docs = Inr s" "ds_inv (query_cmp query) s"
    "\<And>k. ds_GetDocument k s = (if k \<in> set remote_keys then matching_view query v k else None)"
    using previous_results[OF v(1)] v(2) unfolding scannable_def by blast
  obtain r where r: "rmap (\<lambda>updated. foldl (\<lambda>results d. dm_insert (doc_key d) d results) updated (ds_docs s))
      (ldv_GetDocumentsMatchingQuery query limbo_free v) = Inr r" "dm_ok r"
    "\<And>k. rel_option same_contents
      (if k \<in> set remote_keys \<or> read_after limbo_free k (ldv_remote_document_cache v) \<or> is_written v k
       then matching_view query v k else None) (dm_get k r)"
    using merged_results[OF v s(3,4), of limbo_free] by blast
  have "rel_option same_contents (matching_view query v k) (dm_get k r)" for k
    using r(3)[of k] known[of k] by (cases "matching_view query v k") (simp_all split: if_splits)
  then show ?thesis using False assms(3) s(1,2) r(1,2) by (auto simp: qe_GetDocumentsMatchingQuery_def results_exact_def)
qed

section \<open>Limits\<close>

definition before :: "Query \<Rightarrow> MaybeDocument \<Rightarrow> MaybeDocument \<Rightarrow> bool" where
  "before query a b = (if q_limit_type query = LimitFirst then query_cmp query a b = Ascending else query_cmp query b a = Ascending)"

lemma before_trans: "before query a b \<Longrightarrow> before query b c \<Longrightarrow> before query a c"
  unfolding before_def by (auto split: if_splits intro: query_set.asc_trans)

text \<open>The document at the edge of the limit is the last of the previous results in the order of the limit.\<close>

lemma edge_last:
  assumes "ds_inv (query_cmp query) s" "d \<in> set (ds_docs s)"
    "(if q_limit_type query = LimitFirst then ds_GetLastDocument s else ds_GetFirstDocument s) = Some e"
  shows "e \<in> set (ds_docs s) \<and> (d = e \<or> before query d e)"
proof -
  have sorted: "sorted_wrt (\<lambda>a b. query_cmp query a b = Ascending) (ds_docs s)"
    using assms(1) by (simp add: ds_inv_def sorted_keys_def ds_docs_def)
  show ?thesis
  proof (cases "q_limit_type query = LimitFirst")
    case True
    then obtain ds where "ds_docs s = ds @ [e]"
      using assms(3) by (cases "ds_docs s" rule: rev_cases) (auto simp: ds_GetLastDocument_def split: if_splits)
    then show ?thesis using sorted assms(2) True by (auto simp: sorted_wrt_append before_def)
  next
    case False
    then obtain ds where "ds_docs s = e # ds"
      using assms(3) by (cases "ds_docs s") (auto simp: ds_GetFirstDocument_def)
    then show ?thesis using sorted assms(2) False by (auto simp: before_def)
  qed
qed

text \<open>
  With a limit the engine may leave out documents beyond it.  When the assigned keys were the first ones
  at the limbo-free version, an old document outside comes after every assigned document that has not
  changed since; the check of the edge suffices for the whole result.
\<close>

definition results_within :: "nat \<Rightarrow> Query \<Rightarrow> LocalDocumentsView \<Rightarrow> MaybeDocumentMap \<Rightarrow> bool" where
  "results_within n query v r = (dm_ok r \<and>
     (\<forall>k d. dm_get k r = Some d \<longrightarrow> (\<exists>y. matching_view query v k = Some y \<and> same_contents y d)) \<and>
     (\<forall>k y. matching_view query v k = Some y \<and> card {k'. \<exists>x. matching_view query v k' = Some x \<and> before query x y} < n \<longrightarrow>
        (\<exists>d. dm_get k r = Some d \<and> same_contents y d)))"

lemma exact_within: "results_exact query v r \<Longrightarrow> results_within n query v r"
proof -
  assume r: "results_exact query v r"
  then have rel: "rel_option same_contents (matching_view query v k) (dm_get k r)" for k by (simp add: results_exact_def)
  have "\<exists>y. matching_view query v k = Some y \<and> same_contents y d" if "dm_get k r = Some d" for k d
    using rel[of k] that by (cases "matching_view query v k") auto
  moreover have "\<exists>d. dm_get k r = Some d \<and> same_contents y d" if "matching_view query v k = Some y" for k y
    using rel[of k] that by (cases "dm_get k r") auto
  ultimately show ?thesis using r by (simp add: results_exact_def results_within_def)
qed

lemma dm_get_keys: "dm_ok m \<Longrightarrow> {k. dm_get k m \<noteq> None} = fst ` set m"
proof -
  assume m: "dm_ok m"
  have "(\<exists>v. dm_get k m = Some v) = (k \<in> fst ` set m)" for k
    unfolding dm_get_mem[OF m] by force
  then show ?thesis by auto
qed

lemma matching_finite:
  assumes "view_ready v" "scannable query v" shows "finite {k. matching_view query v k \<noteq> None}"
proof -
  obtain r where r: "results_exact query v r" using full_scan_ok[OF assms] by blast
  have "k \<in> fst ` set r" if some: "matching_view query v k \<noteq> None" for k
  proof -
    have "rel_option same_contents (matching_view query v k) (dm_get k r)" "dm_ok r" using r by (simp_all add: results_exact_def)
    then obtain d where "dm_get k r = Some d" using some by (cases "dm_get k r"; cases "matching_view query v k") auto
    then show ?thesis using dm_get_mem[OF \<open>dm_ok r\<close>, of k d] by force
  qed
  then have "{k. matching_view query v k \<noteq> None} \<subseteq> fst ` set r" by blast
  then show ?thesis by (rule finite_subset) simp
qed

theorem engine_with_limit:
  assumes v: "view_ready v" "scannable query v" and keys: "distinct remote_keys"
    and outside: "\<And>k y. matching_view query v k = Some y \<Longrightarrow> \<not> is_written v k \<Longrightarrow>
      \<not> read_after limbo_free k (ldv_remote_document_cache v) \<Longrightarrow> k \<notin> set remote_keys \<Longrightarrow>
      n \<le> length remote_keys \<and>
      (\<forall>k' \<in> set remote_keys. \<forall>x. matching_view query v k' = Some x \<and> \<not> has_pending_writes x \<and> \<not> limbo_free < doc_version x
         \<longrightarrow> before query x y)"
    and limit: "q_limit_type query \<noteq> LimitNone"
  shows "\<exists>r. qe_GetDocumentsMatchingQuery query limbo_free remote_keys v = Inr r \<and> results_within n query v r"
proof -
  have ok: "ldv_ok v" using v(1) by (simp add: view_ready_def)
  obtain docs s where s: "ldv_GetDocuments remote_keys v = Inr docs" "ApplyQuery query docs = Inr s" "ds_inv (query_cmp query) s"
    "\<And>k. ds_GetDocument k s = (if k \<in> set remote_keys then matching_view query v k else None)"
    using previous_results[OF v(1)] v(2) unfolding scannable_def by blast
  show ?thesis
  proof (cases "MatchesAllDocuments query \<or> limbo_free = SnapshotVersion_None \<or>
      NeedsRefill (q_limit_type query) s remote_keys limbo_free")
    case True
    then show ?thesis
      using full_scan_ok[OF v] s(1,2) limit exact_within by (auto simp: qe_GetDocumentsMatchingQuery_def)
  next
    case False
    obtain r where r: "rmap (\<lambda>updated. foldl (\<lambda>results d. dm_insert (doc_key d) d results) updated (ds_docs s))
        (ldv_GetDocumentsMatchingQuery query limbo_free v) = Inr r" "dm_ok r"
      "\<And>k. rel_option same_contents
        (if k \<in> set remote_keys \<or> read_after limbo_free k (ldv_remote_document_cache v) \<or> is_written v k
         then matching_view query v k else None) (dm_get k r)"
      using merged_results[OF v s(3,4), of limbo_free] by blast
    have within: "\<exists>y. matching_view query v k = Some y \<and> same_contents y d" if "dm_get k r = Some d" for k d
      using r(3)[of k] that by (cases "matching_view query v k") (auto split: if_splits)
    have members: "x \<in> set (ds_docs s) \<longleftrightarrow> doc_key x \<in> set remote_keys \<and> matching_view query v (doc_key x) = Some x" for x
      using ds_mem[OF s(3)] s(4) by simp
    have all: "matching_view query v k \<noteq> None" if "k \<in> set remote_keys" for k
    proof -
      have "{k. ds_GetDocument k s \<noteq> None} = fst ` set (ds_index s)"
        using dm_get_keys[of "ds_index s"] s(3) by (simp add: ds_GetDocument_def ds_inv_def)
      moreover have "distinct (map fst (ds_index s))"
        using s(3) strict_sorted_iff[of "map fst (ds_index s)"] by (simp add: ds_inv_def dm_ok_def sorted_keys_def key_less_iff)
      ultimately have "card {k. ds_GetDocument k s \<noteq> None} = ds_size s"
        using distinct_card[of "map fst (ds_index s)"] by (simp add: ds_size_def)
      also have "\<dots> = card (set remote_keys)" using False distinct_card[OF keys] by (auto simp: NeedsRefill_def split: if_splits)
      finally have "{k. ds_GetDocument k s \<noteq> None} = set remote_keys"
        by (intro card_subset_eq) (auto simp: s(4) split: if_splits)
      then show ?thesis using that s(4)[of k] by (metis (mono_tags, lifting) mem_Collect_eq)
    qed
    have "\<exists>d. dm_get k r = Some d \<and> same_contents y d"
      if y: "matching_view query v k = Some y" and few: "card {k'. \<exists>x. matching_view query v k' = Some x \<and> before query x y} < n" for k y
    proof (rule ccontr)
      assume none: "\<nexists>d. dm_get k r = Some d \<and> same_contents y d"
      then have k: "k \<notin> set remote_keys" "\<not> read_after limbo_free k (ldv_remote_document_cache v)" "\<not> is_written v k"
        using r(3)[of k] y by (cases "dm_get k r"; force split: if_splits)+
      note out = outside[OF y k(3,2,1)]
      have "remote_keys \<noteq> []" using few out by auto
      then obtain k0 where k0: "k0 \<in> set remote_keys" by (cases remote_keys) auto
      then obtain x where x: "matching_view query v k0 = Some x" using all by blast
      then have "x \<in> set (ds_docs s)" using k0 members matching_key[OF ok x] by simp
      then obtain e where e: "(if q_limit_type query = LimitFirst then ds_GetLastDocument s else ds_GetFirstDocument s) = Some e"
        by (cases "ds_docs s"; cases "q_limit_type query = LimitFirst")
          (simp_all add: ds_GetLastDocument_def ds_GetFirstDocument_def)
      have edge: "e \<in> set (ds_docs s)" using edge_last[OF s(3) \<open>x \<in> set (ds_docs s)\<close> e] by blast
      have "\<not> has_pending_writes e" "\<not> limbo_free < doc_version e" using False e by (auto simp: NeedsRefill_def Let_def split: if_splits)
      then have e_before: "before query e y" using out edge members by blast
      have "set remote_keys \<subseteq> {k'. \<exists>x. matching_view query v k' = Some x \<and> before query x y}"
      proof
        fix k' assume k': "k' \<in> set remote_keys"
        then obtain x where x: "matching_view query v k' = Some x" using all by blast
        then have "x \<in> set (ds_docs s)" using k' members matching_key[OF ok x] by simp
        then show "k' \<in> {k'. \<exists>x. matching_view query v k' = Some x \<and> before query x y}"
          using edge_last[OF s(3) _ e] e_before x before_trans by blast
      qed
      moreover have "finite {k'. \<exists>x. matching_view query v k' = Some x \<and> before query x y}"
        by (rule finite_subset[OF _ matching_finite[OF v]]) auto
      ultimately have "card (set remote_keys) \<le> card {k'. \<exists>x. matching_view query v k' = Some x \<and> before query x y}"
        by (intro card_mono)
      then show False using few out distinct_card[OF keys] by simp
    qed
    then have "results_within n query v r" using within r(2) by (auto simp: results_within_def)
    then show ?thesis using False limit s(1,2) r(1) by (auto simp: qe_GetDocumentsMatchingQuery_def)
  qed
qed

end
