(* ===== verification/TargetCaches.thy ===== *)
theory TargetCaches
  imports ReferenceDelegates
begin

text \<open>
  \<open>local/memory_target_cache.cc\<close>: the targets the client has listened to and the keys of the documents
  that match each.  The operations on matching keys report to the reference delegate of the
  persistence, which they take and return.
\<close>

record MemoryTargetCache =
  tg_highest_listen_sequence_number :: ListenSequenceNumber
  tg_highest_target_id :: TargetId
  tg_last_remote_snapshot_version :: SnapshotVersion
  tg_targets :: "(Target \<times> TargetData) list"
  tg_references :: ReferenceSet

definition make_TargetCache :: MemoryTargetCache where
  "make_TargetCache = \<lparr>tg_highest_listen_sequence_number = 0, tg_highest_target_id = 0,
     tg_last_remote_snapshot_version = SnapshotVersion_None, tg_targets = [], tg_references = rs_new\<rparr>"

definition tg_AddTarget :: "TargetData \<Rightarrow> MemoryTargetCache \<Rightarrow> MemoryTargetCache" where
  "tg_AddTarget target_data tg =
     (let tg = tg\<lparr>tg_targets := um_put Target_eq (td_target target_data) target_data (tg_targets tg)\<rparr>;
          tg = (if sint (tg_highest_target_id tg) < sint (td_target_id target_data)
                then tg\<lparr>tg_highest_target_id := td_target_id target_data\<rparr> else tg)
      in if sint (tg_highest_listen_sequence_number tg) < sint (td_sequence_number target_data)
         then tg\<lparr>tg_highest_listen_sequence_number := td_sequence_number target_data\<rparr> else tg)"

definition tg_UpdateTarget :: "TargetData \<Rightarrow> MemoryTargetCache \<Rightarrow> MemoryTargetCache" where
  "tg_UpdateTarget target_data tg = tg_AddTarget target_data tg"

definition tg_RemoveTarget :: "TargetData \<Rightarrow> MemoryTargetCache \<Rightarrow> MemoryTargetCache" where
  "tg_RemoveTarget target_data tg =
     (let tg = tg\<lparr>tg_targets := um_erase Target_eq (td_target target_data) (tg_targets tg)\<rparr>
      in tg\<lparr>tg_references := snd (rs_RemoveReferences (td_target_id target_data) (tg_references tg))\<rparr>)"

definition tg_GetTarget :: "Target \<Rightarrow> MemoryTargetCache \<Rightarrow> TargetData option" where
  "tg_GetTarget target tg = um_find Target_eq target (tg_targets tg)"

definition tg_EnumerateSequenceNumbers :: "MemoryTargetCache \<Rightarrow> ListenSequenceNumber list" where
  "tg_EnumerateSequenceNumbers tg = map (\<lambda>kv. td_sequence_number (snd kv)) (tg_targets tg)"

definition remove_targets_step ::
  "ListenSequenceNumber \<Rightarrow> (TargetId \<times> TargetData) list \<Rightarrow> Target list \<times> ReferenceSet \<Rightarrow> Target \<times> TargetData \<Rightarrow>
   Target list \<times> ReferenceSet" where
  "remove_targets_step upper_bound live_targets = (\<lambda>(to_remove, refs) (target, target_data).
     if sint (td_sequence_number target_data) \<le> sint upper_bound then
       (if um_find (=) (td_target_id target_data) live_targets = None
        then (to_remove @ [target], snd (rs_RemoveReferences (td_target_id target_data) refs))
        else (to_remove, refs))
     else (to_remove, refs))"

definition tg_RemoveTargets ::
  "ListenSequenceNumber \<Rightarrow> (TargetId \<times> TargetData) list \<Rightarrow> MemoryTargetCache \<Rightarrow> nat \<times> MemoryTargetCache" where
  "tg_RemoveTargets upper_bound live_targets tg =
     (let (to_remove, refs) = foldl (remove_targets_step upper_bound live_targets) ([], tg_references tg) (tg_targets tg)
      in (length to_remove,
          tg\<lparr>tg_references := refs,
             tg_targets := foldl (\<lambda>targets element. um_erase Target_eq element targets) (tg_targets tg) to_remove\<rparr>))"

definition tg_AddMatchingKeys ::
  "DocumentKeySet \<Rightarrow> TargetId \<Rightarrow> MemoryTargetCache \<times> ReferenceDelegate \<Rightarrow> (MemoryTargetCache \<times> ReferenceDelegate) result" where
  "tg_AddMatchingKeys keys target_id = (\<lambda>(tg, rd).
     (let tg = tg\<lparr>tg_references := rs_AddReferences keys target_id (tg_references tg)\<rparr>
      in rmap (\<lambda>rd. (tg, rd)) (rfold (\<lambda>rd key. rd_AddReference key rd) rd keys)))"

definition tg_RemoveMatchingKeys ::
  "DocumentKeySet \<Rightarrow> TargetId \<Rightarrow> MemoryTargetCache \<times> ReferenceDelegate \<Rightarrow> (MemoryTargetCache \<times> ReferenceDelegate) result" where
  "tg_RemoveMatchingKeys keys target_id = (\<lambda>(tg, rd).
     (let tg = tg\<lparr>tg_references := rs_RemoveReferencesTo keys target_id (tg_references tg)\<rparr>
      in rmap (\<lambda>rd. (tg, rd)) (rfold (\<lambda>rd key. rd_RemoveReference key rd) rd keys)))"

definition tg_GetMatchingKeys :: "TargetId \<Rightarrow> MemoryTargetCache \<Rightarrow> DocumentKeySet" where
  "tg_GetMatchingKeys target_id tg = rs_ReferencedKeys target_id (tg_references tg)"

definition tg_Contains :: "DocumentKey \<Rightarrow> MemoryTargetCache \<Rightarrow> bool" where
  "tg_Contains key tg = rs_ContainsKey key (tg_references tg)"

definition tg_CalculateByteSize :: "(TargetData \<Rightarrow> int64) \<Rightarrow> MemoryTargetCache \<Rightarrow> int64" where
  "tg_CalculateByteSize sizer tg = foldl (\<lambda>count kv. count + sizer (snd kv)) 0 (tg_targets tg)"

definition tg_size :: "MemoryTargetCache \<Rightarrow> nat" where
  "tg_size tg = length (tg_targets tg)"

definition tg_SetLastRemoteSnapshotVersion :: "SnapshotVersion \<Rightarrow> MemoryTargetCache \<Rightarrow> MemoryTargetCache" where
  "tg_SetLastRemoteSnapshotVersion version tg = tg\<lparr>tg_last_remote_snapshot_version := version\<rparr>"

section \<open>The cache is a map of targets and a relation from targets to keys\<close>

text \<open>Target ids are positive and below the largest 32-bit integer.\<close>

definition id_ok :: "TargetId \<Rightarrow> bool" where
  "id_ok i = (0 \<le> sint i \<and> sint i < 2 ^ 31 - 1)"

definition tg_ok :: "MemoryTargetCache \<Rightarrow> bool" where
  "tg_ok tg = (um_ok Target_eq (tg_targets tg) \<and> rs_ok (tg_references tg) \<and>
     (\<forall>e \<in> set (tg_targets tg). Target_eq (fst e) (td_target (snd e)) \<and> id_ok (td_target_id (snd e)) \<and>
        sint (td_target_id (snd e)) \<le> sint (tg_highest_target_id tg) \<and>
        sint (td_sequence_number (snd e)) \<le> sint (tg_highest_listen_sequence_number tg)) \<and>
     (\<forall>r \<in> rs_refs (tg_references tg). id_ok (ref_id r)))"

definition matching :: "TargetId \<Rightarrow> MemoryTargetCache \<Rightarrow> DocumentKey set" where
  "matching i tg = {k. \<lparr>ref_key = k, ref_id = i\<rparr> \<in> rs_refs (tg_references tg)}"

lemma make_TargetCache_ok [simp]: "tg_ok make_TargetCache" "tg_GetTarget t make_TargetCache = None" "matching i make_TargetCache = {}"
  by (simp_all add: tg_ok_def make_TargetCache_def tg_GetTarget_def matching_def)

lemma ref_keys: "ref_key ` {r \<in> R. ref_id r = i} = {k. \<lparr>ref_key = k, ref_id = i\<rparr> \<in> R}"
  for R :: "DocumentKeyReference set"
proof (intro equalityI subsetI)
  fix k assume "k \<in> ref_key ` {r \<in> R. ref_id r = i}"
  then obtain r where r: "r \<in> R" "ref_id r = i" "ref_key r = k" by auto
  then show "k \<in> {k. \<lparr>ref_key = k, ref_id = i\<rparr> \<in> R}" by (cases r) auto
qed (force intro: rev_image_eqI)

theorem tg_GetMatchingKeys_ok:
  "tg_ok tg \<Longrightarrow> id_ok i \<Longrightarrow> set (tg_GetMatchingKeys i tg) = matching i tg \<and> std_set_ok (tg_GetMatchingKeys i tg)"
  using rs_ReferencedKeys_ok[of "tg_references tg" i] by (simp add: tg_ok_def id_ok_def tg_GetMatchingKeys_def ref_keys matching_def)

theorem tg_Contains_iff: "tg_ok tg \<Longrightarrow> tg_Contains k tg = (\<exists>i. k \<in> matching i tg)"
proof -
  assume "tg_ok tg"
  then have "tg_Contains k tg = (\<exists>r \<in> rs_refs (tg_references tg). ref_key r = k)"
    by (auto simp: tg_ok_def id_ok_def tg_Contains_def rs_ContainsKey_iff)
  also have "\<dots> = (\<exists>i. k \<in> ref_key ` {r \<in> rs_refs (tg_references tg). ref_id r = i})" by auto
  finally show ?thesis by (simp add: ref_keys matching_def)
qed

theorem tg_AddTarget_ok:
  assumes "tg_ok tg" "id_ok (td_target_id td)"
  shows "tg_ok (tg_AddTarget td tg) \<and>
    (\<forall>t. tg_GetTarget t (tg_AddTarget td tg) = (if Target_eq (td_target td) t then Some td else tg_GetTarget t tg)) \<and>
    tg_references (tg_AddTarget td tg) = tg_references tg \<and>
    sint (tg_highest_target_id (tg_AddTarget td tg)) = max (sint (tg_highest_target_id tg)) (sint (td_target_id td)) \<and>
    sint (tg_highest_listen_sequence_number (tg_AddTarget td tg)) =
      max (sint (tg_highest_listen_sequence_number tg)) (sint (td_sequence_number td)) \<and>
    tg_last_remote_snapshot_version (tg_AddTarget td tg) = tg_last_remote_snapshot_version tg"
proof -
  let ?ts = "um_put Target_eq (td_target td) td (tg_targets tg)"
  have f: "tg_targets (tg_AddTarget td tg) = ?ts" "tg_references (tg_AddTarget td tg) = tg_references tg"
    "sint (tg_highest_target_id (tg_AddTarget td tg)) = max (sint (tg_highest_target_id tg)) (sint (td_target_id td))"
    "sint (tg_highest_listen_sequence_number (tg_AddTarget td tg)) =
      max (sint (tg_highest_listen_sequence_number tg)) (sint (td_sequence_number td))"
    "tg_last_remote_snapshot_version (tg_AddTarget td tg) = tg_last_remote_snapshot_version tg"
    by (auto simp: tg_AddTarget_def Let_def max_def)
  have e: "Target_eq (fst e) (td_target (snd e)) \<and> id_ok (td_target_id (snd e)) \<and>
      sint (td_target_id (snd e)) \<le> max (sint (tg_highest_target_id tg)) (sint (td_target_id td)) \<and>
      sint (td_sequence_number (snd e)) \<le> max (sint (tg_highest_listen_sequence_number tg)) (sint (td_sequence_number td))"
    if "e \<in> set ?ts" for e
    using set_um_put[OF that] assms target_eq.refl[of "td_target td"] by (auto simp: tg_ok_def)
  have "tg_ok (tg_AddTarget td tg)"
    using assms(1) e target_eq.um_ok_put[of "tg_targets tg"] unfolding tg_ok_def f by blast
  then show ?thesis using f by (simp add: tg_GetTarget_def target_eq.um_find_put)
qed

lemma tg_ok_erase: "tg_ok tg \<Longrightarrow> rs_ok R \<Longrightarrow> rs_refs R \<subseteq> rs_refs (tg_references tg) \<Longrightarrow>
    tg_ok (tg\<lparr>tg_targets := filter P (tg_targets tg), tg_references := R\<rparr>)"
  by (auto simp: tg_ok_def um_ok_filter)

theorem tg_RemoveTarget_ok:
  assumes "tg_ok tg" "id_ok (td_target_id td)"
  shows "tg_ok (tg_RemoveTarget td tg) \<and>
    (\<forall>t. tg_GetTarget t (tg_RemoveTarget td tg) = (if Target_eq (td_target td) t then None else tg_GetTarget t tg)) \<and>
    (\<forall>i. matching i (tg_RemoveTarget td tg) = (if i = td_target_id td then {} else matching i tg))"
proof -
  obtain ks R where r: "rs_RemoveReferences (td_target_id td) (tg_references tg) = (ks, R)" by force
  have "rs_ok (tg_references tg)" using assms(1) by (simp add: tg_ok_def)
  note R = rs_RemoveReferences_ok[OF this _ r]
  have R': "rs_ok R" "rs_refs R = {r \<in> rs_refs (tg_references tg). ref_id r \<noteq> td_target_id td}"
    using R(1,2) assms(2) by (simp_all add: id_ok_def)
  have eq: "tg_RemoveTarget td tg =
      tg\<lparr>tg_targets := um_erase Target_eq (td_target td) (tg_targets tg), tg_references := R\<rparr>"
    by (simp add: tg_RemoveTarget_def Let_def r)
  have "tg_ok (tg_RemoveTarget td tg)"
    unfolding eq um_erase_def using tg_ok_erase[OF assms(1) R'(1)] R'(2) by auto
  then show ?thesis using R' by (auto simp: eq tg_GetTarget_def target_eq.um_find_erase matching_def)
qed

theorem tg_AddMatchingKeys_ok:
  assumes "tg_ok tg" "id_ok i" "rd_open rd"
  shows "\<exists>tg' rd'. tg_AddMatchingKeys ks i (tg, rd) = Inr (tg', rd') \<and> tg_ok tg' \<and> rd_same rd rd' \<and>
    rd_orphaned rd' = rd_orphaned rd - set ks \<and> tg' = tg\<lparr>tg_references := tg_references tg'\<rparr> \<and>
    (\<forall>j. matching j tg' = (if j = i then matching i tg \<union> set ks else matching j tg))"
proof -
  have "\<exists>rd'. rfold (\<lambda>rd key. rd_AddReference key rd) rd ks = Inr rd' \<and> rd_same rd rd' \<and> rd_orphaned rd' = rd_orphaned rd - set ks"
    using assms(3)
  proof (induction ks arbitrary: rd)
    case (Cons k ks)
    obtain rd1 where rd1: "rd_AddReference k rd = Inr rd1" "rd_same rd rd1" "rd_orphaned rd1 = rd_orphaned rd - {k}"
      using rd_AddReference_ok[OF Cons.prems, of k] by auto
    then have "rd_open rd1" using Cons.prems by (simp add: rd_same_def)
    then show ?case using Cons.IH[of rd1] rd1 rd_same_trans[OF rd1(2)] by auto
  qed simp
  moreover have "rs_ok (tg_references tg)" using assms(1) by (simp add: tg_ok_def)
  ultimately show ?thesis
    using assms(1,2) by (auto simp: tg_AddMatchingKeys_def Let_def tg_ok_def matching_def)
qed

theorem tg_RemoveMatchingKeys_ok:
  assumes "tg_ok tg" "rd_open rd"
  shows "\<exists>tg' rd'. tg_RemoveMatchingKeys ks i (tg, rd) = Inr (tg', rd') \<and> tg_ok tg' \<and> rd_same rd rd' \<and>
    rd_orphaned rd' = rd_orphaned rd \<union> (if is_eager rd then set ks else {}) \<and> tg' = tg\<lparr>tg_references := tg_references tg'\<rparr> \<and>
    (\<forall>j. matching j tg' = (if j = i then matching i tg - set ks else matching j tg))"
proof -
  have "\<exists>rd'. rfold (\<lambda>rd key. rd_RemoveReference key rd) rd ks = Inr rd' \<and> rd_same rd rd' \<and>
      rd_orphaned rd' = rd_orphaned rd \<union> (if is_eager rd then set ks else {})"
    using assms(2)
  proof (induction ks arbitrary: rd)
    case (Cons k ks)
    obtain rd1 where rd1: "rd_RemoveReference k rd = Inr rd1" "rd_same rd rd1"
      "rd_orphaned rd1 = (if is_eager rd then insert k (rd_orphaned rd) else {})"
      using rd_RemoveReference_ok[OF Cons.prems, of k] by auto
    then have o: "rd_open rd1" "is_eager rd1 = is_eager rd" using Cons.prems by (simp_all add: rd_same_def)
    have "\<not> is_eager rd \<Longrightarrow> rd_orphaned rd = {}" by (cases rd) simp_all
    then show ?case using Cons.IH[OF o(1)] rd1 rd_same_trans[OF rd1(2)] o(2) by (auto split: if_splits)
  qed simp
  moreover have "rs_ok (tg_references tg)" using assms(1) by (simp add: tg_ok_def)
  ultimately show ?thesis
    using assms(1) by (auto simp: tg_RemoveMatchingKeys_def Let_def tg_ok_def matching_def)
qed

section \<open>The removal of old targets\<close>

definition collectable :: "ListenSequenceNumber \<Rightarrow> (TargetId \<times> TargetData) list \<Rightarrow> TargetData \<Rightarrow> bool" where
  "collectable upper_bound live td =
     (sint (td_sequence_number td) \<le> sint upper_bound \<and> um_find (=) (td_target_id td) live = None)"

lemma remove_targets_fold:
  assumes "rs_ok R" "\<forall>e \<in> set ts. id_ok (td_target_id (snd e))"
    "foldl (remove_targets_step bound live) (rem, R) ts = (rem', R')"
  shows "rem' = rem @ map fst (filter (\<lambda>e. collectable bound live (snd e)) ts) \<and> rs_ok R' \<and>
    rs_refs R' = {r \<in> rs_refs R. \<not> (\<exists>e \<in> set ts. collectable bound live (snd e) \<and> td_target_id (snd e) = ref_id r)}"
  using assms
proof (induction ts arbitrary: rem R)
  case (Cons e ts)
  obtain t td where e: "e = (t, td)" by (cases e)
  obtain ks R1 where r: "rs_RemoveReferences (td_target_id td) R = (ks, R1)" by force
  have R1: "rs_ok R1" "rs_refs R1 = {r \<in> rs_refs R. ref_id r \<noteq> td_target_id td}"
    using rs_RemoveReferences_ok(1,2)[OF Cons.prems(1) _ r] Cons.prems(2) by (auto simp: e id_ok_def)
  show ?case
  proof (cases "collectable bound live td")
    case True
    then have "foldl (remove_targets_step bound live) (rem @ [t], R1) ts = (rem', R')"
      using Cons.prems(3) r by (simp add: e remove_targets_step_def collectable_def)
    from Cons.IH[OF R1(1) _ this] Cons.prems(2) True R1(2) show ?thesis by (auto simp: e)
  next
    case False
    then have "foldl (remove_targets_step bound live) (rem, R) ts = (rem', R')"
      using Cons.prems(3) by (auto simp: e remove_targets_step_def collectable_def split: if_splits)
    from Cons.IH[OF Cons.prems(1) _ this] Cons.prems(2) False show ?thesis by (auto simp: e)
  qed
qed simp

lemma um_erase_all:
  "foldl (\<lambda>ts t. um_erase Target_eq t ts) ts ks = filter (\<lambda>e. \<not> (\<exists>k \<in> set ks. Target_eq (fst e) k)) ts"
  by (induction ks arbitrary: ts) (auto simp: um_erase_def intro: filter_cong)

lemma um_same_entry:
  "um_ok Target_eq ts \<Longrightarrow> e \<in> set ts \<Longrightarrow> e' \<in> set ts \<Longrightarrow> Target_eq (fst e) (fst e') \<Longrightarrow> e = e'"
proof (induction ts)
  case (Cons x ts)
  then show ?case using target_eq.sym by auto
qed simp

theorem tg_RemoveTargets_ok:
  assumes "tg_ok tg" "tg_RemoveTargets bound live tg = (n, tg')"
  shows "tg_ok tg' \<and> tg_targets tg' = filter (\<lambda>e. \<not> collectable bound live (snd e)) (tg_targets tg) \<and>
    n = length (tg_targets tg) - length (tg_targets tg') \<and>
    (\<forall>i. matching i tg' =
      (if \<exists>e \<in> set (tg_targets tg). collectable bound live (snd e) \<and> td_target_id (snd e) = i then {} else matching i tg))"
proof -
  let ?ts = "tg_targets tg"
  obtain rem R where f: "foldl (remove_targets_step bound live) ([], tg_references tg) ?ts = (rem, R)" by force
  have ok: "rs_ok (tg_references tg)" "\<forall>e \<in> set ?ts. id_ok (td_target_id (snd e))" "um_ok Target_eq ?ts"
    using assms(1) by (simp_all add: tg_ok_def)
  note fold = remove_targets_fold[OF ok(1,2) f]
  have same: "(\<exists>k \<in> set rem. Target_eq (fst e) k) = collectable bound live (snd e)" if "e \<in> set ?ts" for e
  proof
    assume "\<exists>k \<in> set rem. Target_eq (fst e) k"
    then obtain e' where "e' \<in> set ?ts" "collectable bound live (snd e')" "Target_eq (fst e) (fst e')"
      using fold by auto
    then show "collectable bound live (snd e)" using um_same_entry[OF ok(3) that] by blast
  next
    assume "collectable bound live (snd e)"
    then have "fst e \<in> set rem" using fold that by auto
    then show "\<exists>k \<in> set rem. Target_eq (fst e) k" using target_eq.refl by blast
  qed
  have "foldl (\<lambda>ts t. um_erase Target_eq t ts) ?ts rem = filter (\<lambda>e. \<not> collectable bound live (snd e)) ?ts"
    unfolding um_erase_all by (rule filter_cong) (simp_all add: same)
  then have tg': "tg' = tg\<lparr>tg_references := R, tg_targets := filter (\<lambda>e. \<not> collectable bound live (snd e)) ?ts\<rparr>"
    "n = length (filter (\<lambda>e. collectable bound live (snd e)) ?ts)"
    using assms(2) fold by (simp_all add: tg_RemoveTargets_def f)
  have "tg' = tg\<lparr>tg_targets := filter (\<lambda>e. \<not> collectable bound live (snd e)) ?ts, tg_references := R\<rparr>"
    by (simp add: tg'(1))
  then have "tg_ok tg'" using tg_ok_erase[OF assms(1), of R] fold by auto
  then show ?thesis
    using fold tg' sum_length_filter_compl[of "\<lambda>e. collectable bound live (snd e)" ?ts] by (auto simp: matching_def)
qed

end
