(* ===== verification/MemoryPersistences.thy ===== *)
theory MemoryPersistences
  imports DocumentCaches TargetCaches
begin

text \<open>
  \<open>local/memory_persistence.cc\<close> with its two reference delegates,
  \<open>local/memory_eager_reference_delegate.cc\<close> and \<open>local/memory_lru_reference_delegate.cc\<close>: the state is
  one record of all the parts, which refer to each other through the persistence.  The pointer to the
  mutation queue of a user is the user.  A block that \<open>Run\<close> executes is a function of the state.
\<close>

section \<open>The state\<close>

record User =
  user_uid :: string
  user_is_authenticated :: bool

definition User_eq :: "User \<Rightarrow> User \<Rightarrow> bool" where
  "User_eq lhs rhs = (user_is_authenticated lhs = user_is_authenticated rhs \<and>
     (\<not> user_is_authenticated lhs \<or> user_uid lhs = user_uid rhs))"

interpretation user_eq: equivalence_test User_eq
  by unfold_locales (auto simp: User_eq_def)

record MemoryPersistence =
  mp_mutation_queues :: "(User \<times> MemoryMutationQueue) list"
  mp_target_cache :: MemoryTargetCache
  mp_remote_document_cache :: MemoryRemoteDocumentCache
  mp_index_manager :: MemoryIndexManager
  mp_reference_delegate :: ReferenceDelegate
  mp_started :: bool

definition make_MemoryPersistence :: "ReferenceDelegate \<Rightarrow> MemoryPersistence" where
  "make_MemoryPersistence delegate = \<lparr>mp_mutation_queues = [], mp_target_cache = make_TargetCache,
     mp_remote_document_cache = make_RemoteDocumentCache,
     mp_index_manager = \<lparr>im_collection_parents_index = []\<rparr>,
     mp_reference_delegate = delegate, mp_started = True\<rparr>"

definition WithEagerGarbageCollector :: MemoryPersistence where
  "WithEagerGarbageCollector = make_MemoryPersistence (Eager make_EagerDelegate)"

definition WithLruGarbageCollector :: MemoryPersistence where
  "WithLruGarbageCollector =
     make_MemoryPersistence (Lru (make_LruDelegate (tg_highest_listen_sequence_number make_TargetCache)))"

definition mp_Shutdown :: "MemoryPersistence \<Rightarrow> MemoryPersistence result" where
  "mp_Shutdown mp = hard_assert (mp_started mp) (Inr (mp\<lparr>mp_started := False\<rparr>))"

definition mp_current_sequence_number :: "MemoryPersistence \<Rightarrow> ListenSequenceNumber result" where
  "mp_current_sequence_number mp = rd_current_sequence_number (mp_reference_delegate mp)"

definition mp_GetMutationQueueForUser :: "User \<Rightarrow> MemoryPersistence \<Rightarrow> MemoryPersistence" where
  "mp_GetMutationQueueForUser user mp =
     (case um_find User_eq user (mp_mutation_queues mp) of
        None \<Rightarrow> mp\<lparr>mp_mutation_queues := mp_mutation_queues mp @ [(user, make_MutationQueue)]\<rparr>
      | Some _ \<Rightarrow> mp)"

definition MutationQueuesContainKey :: "DocumentKey \<Rightarrow> MemoryPersistence \<Rightarrow> bool" where
  "MutationQueuesContainKey key mp = list_ex (\<lambda>entry. mq_ContainsKey key (snd entry)) (mp_mutation_queues mp)"

section \<open>The eager delegate\<close>

definition additional_contains :: "DocumentKey \<Rightarrow> MemoryPersistence \<Rightarrow> bool" where
  "additional_contains key mp =
     (case rd_additional_references (mp_reference_delegate mp) of
        None \<Rightarrow> False
      | Some additional_references \<Rightarrow> rs_ContainsKey key additional_references)"

definition IsReferenced :: "DocumentKey \<Rightarrow> MemoryPersistence \<Rightarrow> bool" where
  "IsReferenced key mp =
     (if tg_Contains key (mp_target_cache mp) then True
      else if MutationQueuesContainKey key mp then True
      else if additional_contains key mp then True else False)"

definition remove_orphan :: "MemoryPersistence \<Rightarrow> DocumentKey \<Rightarrow> MemoryPersistence" where
  "remove_orphan mp key =
     (if \<not> IsReferenced key mp
      then mp\<lparr>mp_remote_document_cache := rc_Remove key (mp_remote_document_cache mp)\<rparr> else mp)"

section \<open>The operations of a delegate that use the persistence\<close>

definition rd_RemoveTarget :: "TargetData \<Rightarrow> MemoryPersistence \<Rightarrow> MemoryPersistence result" where
  "rd_RemoveTarget target_data mp =
     (case mp_reference_delegate mp of
        Eager d \<Rightarrow>
          rmap (\<lambda>d. mp\<lparr>mp_reference_delegate := Eager d,
                        mp_target_cache := tg_RemoveTarget target_data (mp_target_cache mp)\<rparr>)
            (rfold (\<lambda>d doc_key. on_orphaned (dks_insert doc_key) d) d
               (tg_GetMatchingKeys (td_target_id target_data) (mp_target_cache mp)))
      | Lru d \<Rightarrow>
          (let updated = WithSequenceNumber (ld_current_sequence_number d) target_data
           in Inr (mp\<lparr>mp_target_cache := tg_UpdateTarget updated (mp_target_cache mp)\<rparr>)))"

definition rd_UpdateLimboDocument :: "DocumentKey \<Rightarrow> MemoryPersistence \<Rightarrow> MemoryPersistence result" where
  "rd_UpdateLimboDocument key mp =
     (case mp_reference_delegate mp of
        Eager d \<Rightarrow>
          rmap (\<lambda>d. mp\<lparr>mp_reference_delegate := Eager d\<rparr>)
            (if IsReferenced key mp then on_orphaned (dks_erase key) d else on_orphaned (dks_insert key) d)
      | Lru d \<Rightarrow> Inr (mp\<lparr>mp_reference_delegate := Lru (touch key d)\<rparr>))"

definition OnTransactionStarted :: "MemoryPersistence \<Rightarrow> MemoryPersistence" where
  "OnTransactionStarted mp =
     (case mp_reference_delegate mp of
        Eager d \<Rightarrow> mp\<lparr>mp_reference_delegate := Eager (d\<lparr>ed_orphaned := Some []\<rparr>)\<rparr>
      | Lru d \<Rightarrow> (let (n, d) = ListenSequence_Next d
                 in mp\<lparr>mp_reference_delegate := Lru (d\<lparr>ld_current_sequence_number := n\<rparr>)\<rparr>))"

definition OnTransactionCommitted :: "MemoryPersistence \<Rightarrow> MemoryPersistence result" where
  "OnTransactionCommitted mp =
     (case mp_reference_delegate mp of
        Eager d \<Rightarrow>
          (case ed_orphaned d of
             None \<Rightarrow> Inl HardAssert
           | Some orphaned \<Rightarrow>
               (let mp = foldl remove_orphan mp orphaned
                in Inr (mp\<lparr>mp_reference_delegate := Eager (d\<lparr>ed_orphaned := None\<rparr>)\<rparr>)))
      | Lru d \<Rightarrow>
          Inr (mp\<lparr>mp_reference_delegate := Lru (d\<lparr>ld_current_sequence_number := kListenSequenceNumberInvalid\<rparr>)\<rparr>))"

definition mp_Run :: "(MemoryPersistence \<Rightarrow> ('a \<times> MemoryPersistence) result) \<Rightarrow> MemoryPersistence \<Rightarrow>
   ('a \<times> MemoryPersistence) result" where
  "mp_Run block mp =
     rbind (block (OnTransactionStarted mp)) (\<lambda>(a, mp). rmap (\<lambda>mp. (a, mp)) (OnTransactionCommitted mp))"

section \<open>The LRU delegate\<close>

definition IsPinnedAtSequenceNumber :: "ListenSequenceNumber \<Rightarrow> DocumentKey \<Rightarrow> MemoryLruReferenceDelegate \<Rightarrow> MemoryPersistence \<Rightarrow> bool" where
  "IsPinnedAtSequenceNumber upper_bound key d mp =
     (if MutationQueuesContainKey key mp then True
      else if (case ld_additional_references d of None \<Rightarrow> False | Some s \<Rightarrow> rs_ContainsKey key s) then True
      else if tg_Contains key (mp_target_cache mp) then True
      else case um_find (=) key (ld_sequence_numbers d) of
             Some n \<Rightarrow> sint upper_bound < sint n
           | None \<Rightarrow> False)"

definition EnumerateOrphanedDocuments ::
  "MemoryLruReferenceDelegate \<Rightarrow> MemoryPersistence \<Rightarrow> (DocumentKey \<times> ListenSequenceNumber) list" where
  "EnumerateOrphanedDocuments d mp =
     filter (\<lambda>(key, sequence_number). \<not> IsPinnedAtSequenceNumber sequence_number key d mp) (ld_sequence_numbers d)"

definition GetSequenceNumberCount :: "MemoryLruReferenceDelegate \<Rightarrow> MemoryPersistence \<Rightarrow> nat" where
  "GetSequenceNumberCount d mp =
     foldl (\<lambda>total_count _. total_count + 1) (tg_size (mp_target_cache mp)) (EnumerateOrphanedDocuments d mp)"

definition lru_RemoveTargets ::
  "ListenSequenceNumber \<Rightarrow> (TargetId \<times> TargetData) list \<Rightarrow> MemoryPersistence \<Rightarrow> int32 \<times> MemoryPersistence" where
  "lru_RemoveTargets sequence_number live_queries mp =
     (let (n, tg) = tg_RemoveTargets sequence_number live_queries (mp_target_cache mp)
      in (word_of_nat n, mp\<lparr>mp_target_cache := tg\<rparr>))"

definition lru_RemoveOrphanedDocuments ::
  "ListenSequenceNumber \<Rightarrow> MemoryLruReferenceDelegate \<Rightarrow> MemoryPersistence \<Rightarrow> int32 \<times> MemoryPersistence" where
  "lru_RemoveOrphanedDocuments upper_bound d mp =
     (let (removed, rc) = rc_RemoveOrphanedDocuments (\<lambda>key. IsPinnedAtSequenceNumber upper_bound key d mp)
            (mp_remote_document_cache mp);
          d = foldl (\<lambda>d key. d\<lparr>ld_sequence_numbers := um_erase (=) key (ld_sequence_numbers d)\<rparr>) d removed
      in (word_of_nat (length removed), mp\<lparr>mp_remote_document_cache := rc, mp_reference_delegate := Lru d\<rparr>))"

record Sizer =
  sizer_document :: "MaybeDocument \<Rightarrow> int64"
  sizer_batch :: "MutationBatch \<Rightarrow> int64"
  sizer_target :: "TargetData \<Rightarrow> int64"

definition lru_CalculateByteSize :: "Sizer \<Rightarrow> MemoryPersistence \<Rightarrow> int64" where
  "lru_CalculateByteSize sizer mp =
     (let count = 0 + tg_CalculateByteSize (sizer_target sizer) (mp_target_cache mp);
          count = count + rc_CalculateByteSize (sizer_document sizer) (mp_remote_document_cache mp)
      in foldl (\<lambda>count entry. count + mq_CalculateByteSize (sizer_batch sizer) (snd entry)) count (mp_mutation_queues mp))"

end
