(* ===== verification/MemoryPersistenceProofs.thy ===== *)
theory MemoryPersistenceProofs
  imports MemoryPersistences
begin

text \<open>
  The invariant of the memory persistence, and what its reference delegates keep: at the end of a
  transaction the eager delegate removes exactly the orphaned documents that nothing references, and
  the LRU delegate gives every transaction a larger sequence number.
\<close>

definition refs_ok :: "ReferenceSet \<Rightarrow> bool" where
  "refs_ok s = (rs_ok s \<and> (\<forall>r \<in> rs_refs s. id_ok (ref_id r)))"

definition mp_ok :: "MemoryPersistence \<Rightarrow> bool" where
  "mp_ok mp = (um_ok User_eq (mp_mutation_queues mp) \<and> (\<forall>e \<in> set (mp_mutation_queues mp). mq_ok (snd e)) \<and>
     tg_ok (mp_target_cache mp) \<and> rc_ok (mp_remote_document_cache mp) \<and> im_ok (mp_index_manager mp) \<and>
     (case rd_additional_references (mp_reference_delegate mp) of None \<Rightarrow> True | Some s \<Rightarrow> refs_ok s))"

definition pins :: "ReferenceSet option \<Rightarrow> DocumentKey set" where
  "pins s = (case s of None \<Rightarrow> {} | Some s \<Rightarrow> ref_key ` rs_refs s)"

definition written :: "MemoryPersistence \<Rightarrow> DocumentKey set" where
  "written mp = {k. \<exists>e \<in> set (mp_mutation_queues mp). \<exists>b \<in> set (mq_queue (snd e)). writes k b}"

definition targeted :: "MemoryPersistence \<Rightarrow> DocumentKey set" where
  "targeted mp = (\<Union>i. matching i (mp_target_cache mp))"

definition referenced :: "MemoryPersistence \<Rightarrow> DocumentKey set" where
  "referenced mp = targeted mp \<union> written mp \<union> pins (rd_additional_references (mp_reference_delegate mp))"

lemma im_ok_new [simp]: "im_ok \<lparr>im_collection_parents_index = []\<rparr>"
  by (simp add: im_ok_def GetCollectionParents_def GetEntries_def)

lemma make_MemoryPersistence_ok:
  "rd_additional_references rd = None \<Longrightarrow> mp_ok (make_MemoryPersistence rd)"
  by (simp add: mp_ok_def make_MemoryPersistence_def)

lemma refs_ContainsKey: "refs_ok s \<Longrightarrow> rs_ContainsKey k s = (k \<in> ref_key ` rs_refs s)"
  by (auto simp: refs_ok_def rs_ContainsKey_iff id_ok_def)

lemma additional_contains_iff:
  "mp_ok mp \<Longrightarrow> additional_contains k mp = (k \<in> pins (rd_additional_references (mp_reference_delegate mp)))"
  by (auto simp: mp_ok_def additional_contains_def pins_def refs_ContainsKey split: option.splits)

lemma MutationQueuesContainKey_iff: "mp_ok mp \<Longrightarrow> MutationQueuesContainKey k mp = (k \<in> written mp)"
  by (auto simp: mp_ok_def MutationQueuesContainKey_def written_def list_ex_iff mq_ContainsKey_iff)

lemma targeted_iff: "mp_ok mp \<Longrightarrow> tg_Contains k (mp_target_cache mp) = (k \<in> targeted mp)"
  by (simp add: mp_ok_def targeted_def tg_Contains_iff)

theorem IsReferenced_iff: "mp_ok mp \<Longrightarrow> IsReferenced k mp = (k \<in> referenced mp)"
  by (simp add: IsReferenced_def referenced_def additional_contains_iff MutationQueuesContainKey_iff targeted_iff)

section \<open>Changes of one part\<close>

lemma GetMutationQueueForUser_ok:
  assumes "mp_ok mp"
  shows "mp_ok (mp_GetMutationQueueForUser u mp) \<and> um_find User_eq u (mp_mutation_queues (mp_GetMutationQueueForUser u mp)) =
      Some (case um_find User_eq u (mp_mutation_queues mp) of None \<Rightarrow> make_MutationQueue | Some q \<Rightarrow> q) \<and>
    written (mp_GetMutationQueueForUser u mp) = written mp"
proof (cases "um_find User_eq u (mp_mutation_queues mp)")
  case None
  then have none: "\<forall>e \<in> set (mp_mutation_queues mp). \<not> User_eq (fst e) u" by (simp add: um_find_None)
  have "um_ok User_eq (qs @ [(u, q)])" if "um_ok User_eq qs" "\<forall>e \<in> set qs. \<not> User_eq (fst e) u" for qs q
    using that by (induction qs) auto
  moreover have "um_find User_eq u (qs @ [(u, q)]) = Some q" if "\<forall>e \<in> set qs. \<not> User_eq (fst e) u" for qs q
    using that by (induction qs) (auto simp: user_eq.refl)
  ultimately show ?thesis
    using assms none None
    by (auto simp: mp_GetMutationQueueForUser_def mp_ok_def written_def) (simp_all add: make_MutationQueue_def)
next
  case (Some q)
  then show ?thesis using assms by (simp add: mp_GetMutationQueueForUser_def)
qed

text \<open>A change of the queue of one user.\<close>

definition queue_of :: "User \<Rightarrow> MemoryPersistence \<Rightarrow> MemoryMutationQueue" where
  "queue_of u mp = (case um_find User_eq u (mp_mutation_queues mp) of None \<Rightarrow> make_MutationQueue | Some q \<Rightarrow> q)"

definition set_queue :: "User \<Rightarrow> MemoryMutationQueue \<Rightarrow> MemoryPersistence \<Rightarrow> MemoryPersistence" where
  "set_queue u q mp = mp\<lparr>mp_mutation_queues := um_put User_eq u q (mp_mutation_queues mp)\<rparr>"

lemma queue_of_set [simp]: "queue_of u (set_queue u q mp) = q"
  by (simp add: queue_of_def set_queue_def user_eq.um_find_put user_eq.refl)

lemma queue_of_ok: "mp_ok mp \<Longrightarrow> mq_ok (queue_of u mp)"
  by (auto simp: mp_ok_def queue_of_def dest!: um_find_Some split: option.split)

lemma set_queue_ok: "mp_ok mp \<Longrightarrow> mq_ok q \<Longrightarrow> mp_ok (set_queue u q mp)"
proof -
  assume mp: "mp_ok mp" and q: "mq_ok q"
  have "mq_ok (snd e)" if "e \<in> set (um_put User_eq u q (mp_mutation_queues mp))" for e
    using set_um_put[OF that] mp q by (auto simp: mp_ok_def)
  then show ?thesis using mp by (auto simp: mp_ok_def set_queue_def user_eq.um_ok_put)
qed

lemma set_queue_parts [simp]:
  "mp_target_cache (set_queue u q mp) = mp_target_cache mp"
  "mp_remote_document_cache (set_queue u q mp) = mp_remote_document_cache mp"
  "mp_index_manager (set_queue u q mp) = mp_index_manager mp"
  "mp_reference_delegate (set_queue u q mp) = mp_reference_delegate mp"
  by (simp_all add: set_queue_def)

section \<open>The eager delegate\<close>

lemma remove_orphan_fold:
  assumes "mp_ok mp"
  shows "mp_ok (foldl remove_orphan mp ks) \<and>
    (\<forall>k. rc_Get k (mp_remote_document_cache (foldl remove_orphan mp ks)) =
      (if k \<in> set ks \<and> k \<notin> referenced mp then None else rc_Get k (mp_remote_document_cache mp))) \<and>
    foldl remove_orphan mp ks =
      mp\<lparr>mp_remote_document_cache := mp_remote_document_cache (foldl remove_orphan mp ks)\<rparr>"
  using assms
proof (induction ks arbitrary: mp)
  case (Cons k ks)
  let ?mp = "remove_orphan mp k"
  have rc: "rc_ok (mp_remote_document_cache mp)" using Cons.prems by (simp add: mp_ok_def)
  have eq: "?mp = mp\<lparr>mp_remote_document_cache := mp_remote_document_cache ?mp\<rparr>" by (simp add: remove_orphan_def)
  have ok: "mp_ok ?mp" and ref: "referenced ?mp = referenced mp" and
    get: "rc_Get k' (mp_remote_document_cache ?mp) =
      (if k' = k \<and> k \<notin> referenced mp then None else rc_Get k' (mp_remote_document_cache mp))" for k'
    using Cons.prems rc_Remove_ok[OF rc, of k k'] IsReferenced_iff[OF Cons.prems, of k]
    by (auto simp: remove_orphan_def mp_ok_def referenced_def targeted_def written_def)
  note IH = Cons.IH[OF ok]
  have "foldl remove_orphan mp (k # ks) = ?mp\<lparr>mp_remote_document_cache := mp_remote_document_cache (foldl remove_orphan mp (k # ks))\<rparr>"
    using IH by simp
  also have "\<dots> = mp\<lparr>mp_remote_document_cache := mp_remote_document_cache (foldl remove_orphan mp (k # ks))\<rparr>"
    by (subst eq) simp
  finally show ?case using IH get ref by auto
qed simp

text \<open>
  At the end of a transaction a document is gone exactly if it was orphaned in it and nothing
  references it any more.
\<close>

theorem eager_commit:
  assumes "mp_ok mp" "mp_reference_delegate mp = Eager d" "ed_orphaned d = Some orphaned"
  shows "\<exists>mp'. OnTransactionCommitted mp = Inr mp' \<and> mp_ok mp' \<and> referenced mp' = referenced mp \<and>
    (\<forall>k. rc_Get k (mp_remote_document_cache mp') =
      (if k \<in> set orphaned \<and> k \<notin> referenced mp then None else rc_Get k (mp_remote_document_cache mp))) \<and>
    mp_mutation_queues mp' = mp_mutation_queues mp \<and> mp_target_cache mp' = mp_target_cache mp \<and>
    mp_index_manager mp' = mp_index_manager mp \<and> mp_started mp' = mp_started mp \<and>
    mp_reference_delegate mp' = Eager (d\<lparr>ed_orphaned := None\<rparr>)"
proof -
  define m where "m = foldl remove_orphan mp orphaned"
  let ?mp = "m\<lparr>mp_reference_delegate := Eager (d\<lparr>ed_orphaned := None\<rparr>)\<rparr>"
  note f = remove_orphan_fold[OF assms(1), of orphaned, folded m_def]
  have com: "OnTransactionCommitted mp = Inr ?mp" by (simp add: OnTransactionCommitted_def assms(2,3) m_def)
  obtain rc where m: "m = mp\<lparr>mp_remote_document_cache := rc\<rparr>" using f by blast
  have "mp_ok ?mp" using f assms(1,2) by (simp add: mp_ok_def m)
  moreover have "referenced ?mp = referenced mp" using assms(2) by (simp add: m referenced_def targeted_def written_def)
  ultimately show ?thesis using f com by (simp add: m)
qed

section \<open>The LRU delegate\<close>

definition pinned_at :: "ListenSequenceNumber \<Rightarrow> MemoryLruReferenceDelegate \<Rightarrow> MemoryPersistence \<Rightarrow> DocumentKey set" where
  "pinned_at bound d mp = targeted mp \<union> written mp \<union> pins (ld_additional_references d) \<union>
     {k. \<exists>n. um_find (=) k (ld_sequence_numbers d) = Some n \<and> sint bound < sint n}"

theorem IsPinned_iff:
  assumes "mp_ok mp" "mp_reference_delegate mp = Lru d"
  shows "IsPinnedAtSequenceNumber bound k d mp = (k \<in> pinned_at bound d mp)"
proof -
  have "(case ld_additional_references d of None \<Rightarrow> False | Some s \<Rightarrow> rs_ContainsKey k s) = (k \<in> pins (ld_additional_references d))"
    using additional_contains_iff[OF assms(1), of k] by (simp add: additional_contains_def assms(2))
  then show ?thesis
    by (auto simp: IsPinnedAtSequenceNumber_def pinned_at_def MutationQueuesContainKey_iff[OF assms(1)] targeted_iff[OF assms(1)]
        split: option.split)
qed

lemma lru_transaction:
  assumes "mp_reference_delegate mp = Lru d" "sint (ld_previous_sequence_number d) < 2 ^ 63 - 1" "0 \<le> sint (ld_previous_sequence_number d)"
  shows "\<exists>d'. mp_reference_delegate (OnTransactionStarted mp) = Lru d' \<and> rd_open (Lru d') \<and>
    sint (ld_current_sequence_number d') = sint (ld_previous_sequence_number d) + 1 \<and>
    ld_previous_sequence_number d' = ld_current_sequence_number d' \<and>
    ld_sequence_numbers d' = ld_sequence_numbers d \<and> ld_additional_references d' = ld_additional_references d"
proof -
  have n: "sint (ld_previous_sequence_number d + 1) = sint (ld_previous_sequence_number d) + 1"
    using assms(2,3) by (simp add: word_size sint_word_ariths signed_take_bit_int_eq_self)
  then have "ld_previous_sequence_number d + 1 \<noteq> kListenSequenceNumberInvalid"
    using assms(3) by (intro notI) (simp add: kListenSequenceNumberInvalid_def)
  then show ?thesis using n by (simp add: OnTransactionStarted_def ListenSequence_Next_def assms(1) Let_def)
qed

lemma foldl_um_erase:
  "foldl (\<lambda>d key. d\<lparr>ld_sequence_numbers := um_erase (=) key (ld_sequence_numbers d)\<rparr>) d ks =
     d\<lparr>ld_sequence_numbers := filter (\<lambda>e. fst e \<notin> set ks) (ld_sequence_numbers d)\<rparr>"
proof (induction ks arbitrary: d)
  case (Cons k ks)
  have "(\<lambda>e. fst e \<noteq> k \<and> fst e \<notin> set ks) = (\<lambda>e. fst e \<notin> set (k # ks))" by auto
  then show ?case using Cons by (simp add: um_erase_def filter_filter conj_commute)
qed simp

text \<open>A collection of documents removes exactly those that are not pinned at the bound.\<close>

theorem lru_RemoveOrphanedDocuments_ok:
  assumes "mp_ok mp" "mp_reference_delegate mp = Lru d" "lru_RemoveOrphanedDocuments bound d mp = (n, mp')"
  shows "mp_ok mp' \<and>
    (\<forall>k. rc_Get k (mp_remote_document_cache mp') =
      (if k \<in> pinned_at bound d mp then rc_Get k (mp_remote_document_cache mp) else None)) \<and>
    n = word_of_nat (card {k. rc_Get k (mp_remote_document_cache mp) \<noteq> None \<and> k \<notin> pinned_at bound d mp}) \<and>
    mp_mutation_queues mp' = mp_mutation_queues mp \<and> mp_target_cache mp' = mp_target_cache mp \<and>
    referenced mp' = referenced mp"
proof -
  obtain removed rc where r: "rc_RemoveOrphanedDocuments (\<lambda>key. IsPinnedAtSequenceNumber bound key d mp)
      (mp_remote_document_cache mp) = (removed, rc)" by force
  have "rc_ok (mp_remote_document_cache mp)" using assms(1) by (simp add: mp_ok_def)
  note rem = rc_RemoveOrphaned_ok[OF this r, unfolded IsPinned_iff[OF assms(1,2)]]
  let ?d = "d\<lparr>ld_sequence_numbers := filter (\<lambda>e. fst e \<notin> set removed) (ld_sequence_numbers d)\<rparr>"
  have mp': "mp' = mp\<lparr>mp_remote_document_cache := rc, mp_reference_delegate := Lru ?d\<rparr>" "n = word_of_nat (length removed)"
    using assms(3) by (simp_all add: lru_RemoveOrphanedDocuments_def r foldl_um_erase)
  have "length removed = card {k. rc_Get k (mp_remote_document_cache mp) \<noteq> None \<and> k \<notin> pinned_at bound d mp}"
    using rem distinct_card[of removed] by simp
  moreover have "mp_ok mp'" using rem assms(1,2) by (simp add: mp' mp_ok_def)
  moreover have "referenced mp' = referenced mp" using assms(2) by (simp add: mp' referenced_def targeted_def written_def)
  ultimately show ?thesis using rem by (simp add: mp')
qed

end
