(* ===== verification/LruGarbageCollectors.thy ===== *)
theory LruGarbageCollectors
  imports MemoryPersistenceProofs "HOL-Library.Multiset"
begin

text \<open>
  \<open>local/lru_garbage_collector.cc\<close>: the collector asks its delegate for the sequence numbers of the
  targets and of the orphaned documents, finds the number below which the oldest share of them lies,
  and has the delegate remove what is not newer.  The delegate (the abstract class \<open>LruDelegate\<close>) is a
  record of its operations; the locale \<open>lru_delegate\<close> states what they promise.  A \<open>std::priority_queue\<close>
  is the descending list of its elements.  Timing and log messages are left out.
\<close>

section \<open>Single precision\<close>

text \<open>
  \<open>QueryCountForPercentile\<close> computes in \<open>float\<close>: the percentile divided by \<open>100.0f\<close>, times the count, both
  rounded to 24 significant bits, ties to even.  The quotient is a 24 bit integer times a power of two.
\<close>

definition round_quot :: "nat \<Rightarrow> nat \<Rightarrow> nat" where
  "round_quot a b =
     (let q = a div b; r = a mod b
      in if b < 2 * r \<or> (b = 2 * r \<and> odd q) then q + 1 else q)"

fun bit_length :: "nat \<Rightarrow> nat" where
  "bit_length n = (if n = 0 then 0 else Suc (bit_length (n div 2)))"

declare bit_length.simps [simp del]

definition round24 :: "nat \<Rightarrow> nat" where
  "round24 n = (let l = bit_length n
                in if l \<le> 24 then n else round_quot n (2 ^ (l - 24)) * 2 ^ (l - 24))"

text \<open>For a percentile between 1 and 100 the quotient is \<open>m / 2 ^ k\<close> with \<open>2 ^ 23 \<le> m \<le> 2 ^ 24\<close>.\<close>

definition quot_shift :: "nat \<Rightarrow> nat" where
  "quot_shift percentile = (case find (\<lambda>k. 100 * 2 ^ 23 \<le> percentile * 2 ^ k) [0..<31] of Some k \<Rightarrow> k | None \<Rightarrow> 0)"

definition float_percentage :: "nat \<Rightarrow> nat \<times> nat" where
  "float_percentage percentile = (let k = quot_shift percentile in (round_quot (percentile * 2 ^ k) 100, k))"

section \<open>The delegate\<close>

record 's LruDelegateOps =
  lo_CalculateByteSize :: "'s \<Rightarrow> int64"
  lo_GetSequenceNumberCount :: "'s \<Rightarrow> nat"
  lo_EnumerateTargetSequenceNumbers :: "'s \<Rightarrow> ListenSequenceNumber list"
  lo_EnumerateOrphanedDocuments :: "'s \<Rightarrow> (DocumentKey \<times> ListenSequenceNumber) list"
  lo_RemoveOrphanedDocuments :: "ListenSequenceNumber \<Rightarrow> 's \<Rightarrow> int32 \<times> 's"
  lo_RemoveTargets :: "ListenSequenceNumber \<Rightarrow> (TargetId \<times> TargetData) list \<Rightarrow> 's \<Rightarrow> int32 \<times> 's"

section \<open>The buffer of the smallest sequence numbers\<close>

record RollingSequenceNumberBuffer =
  rb_queue :: "ListenSequenceNumber list"
  rb_max_elements :: nat

definition make_RollingBuffer :: "nat \<Rightarrow> RollingSequenceNumberBuffer" where
  "make_RollingBuffer max_elements = \<lparr>rb_queue = [], rb_max_elements = max_elements\<rparr>"

fun pq_push :: "ListenSequenceNumber \<Rightarrow> ListenSequenceNumber list \<Rightarrow> ListenSequenceNumber list" where
  "pq_push n [] = [n]"
| "pq_push n (x # xs) = (if sint x \<le> sint n then n # x # xs else x # pq_push n xs)"

definition rb_AddElement :: "ListenSequenceNumber \<Rightarrow> RollingSequenceNumberBuffer \<Rightarrow> RollingSequenceNumberBuffer" where
  "rb_AddElement sequence_number b =
     (if length (rb_queue b) < rb_max_elements b then b\<lparr>rb_queue := pq_push sequence_number (rb_queue b)\<rparr>
      else let highest_value = hd (rb_queue b)
           in if sint sequence_number < sint highest_value
              then b\<lparr>rb_queue := pq_push sequence_number (tl (rb_queue b))\<rparr> else b)"

text \<open>The top of an empty queue is undefined in the code.\<close>

definition rb_max_value :: "RollingSequenceNumberBuffer \<Rightarrow> ListenSequenceNumber result" where
  "rb_max_value b = (case rb_queue b of [] \<Rightarrow> Inl HardAssert | n # _ \<Rightarrow> Inr n)"

section \<open>The collector\<close>

record LruParams =
  min_bytes_threshold :: int64
  percentile_to_collect :: nat
  maximum_sequence_numbers_to_collect :: int32

definition CacheSizeUnlimited :: int64 where
  "CacheSizeUnlimited = -1"

definition LruParams_Default :: LruParams where
  "LruParams_Default = \<lparr>min_bytes_threshold = 100 * 1024 * 1024, percentile_to_collect = 10,
     maximum_sequence_numbers_to_collect = 1000\<rparr>"

definition LruParams_Disabled :: LruParams where
  "LruParams_Disabled = \<lparr>min_bytes_threshold = CacheSizeUnlimited, percentile_to_collect = 0,
     maximum_sequence_numbers_to_collect = 0\<rparr>"

definition LruParams_WithCacheSize :: "int64 \<Rightarrow> LruParams" where
  "LruParams_WithCacheSize cache_size = LruParams_Default\<lparr>min_bytes_threshold := cache_size\<rparr>"

record LruResults =
  lr_did_run :: bool
  lr_sequence_numbers_collected :: int32
  lr_targets_removed :: int32
  lr_documents_removed :: int32

definition LruResults_DidNotRun :: LruResults where
  "LruResults_DidNotRun = \<lparr>lr_did_run = False, lr_sequence_numbers_collected = 0, lr_targets_removed = 0,
     lr_documents_removed = 0\<rparr>"

definition QueryCountForPercentile :: "'s LruDelegateOps \<Rightarrow> nat \<Rightarrow> 's \<Rightarrow> int32" where
  "QueryCountForPercentile delegate percentile s =
     (let total_count = lo_GetSequenceNumberCount delegate s;
          (m, k) = float_percentage percentile
      in word_of_nat (round24 (m * round24 total_count) div 2 ^ k))"

definition SequenceNumberForQueryCount :: "'s LruDelegateOps \<Rightarrow> int32 \<Rightarrow> 's \<Rightarrow> ListenSequenceNumber result" where
  "SequenceNumberForQueryCount delegate query_count s =
     (if query_count = 0 then Inr kListenSequenceNumberInvalid
      else let buffer = make_RollingBuffer (nat (sint query_count));
               buffer = foldl (\<lambda>b n. rb_AddElement n b) buffer (lo_EnumerateTargetSequenceNumbers delegate s);
               buffer = foldl (\<lambda>b (key, n). rb_AddElement n b) buffer (lo_EnumerateOrphanedDocuments delegate s)
           in rb_max_value buffer)"

definition RunGarbageCollection ::
  "'s LruDelegateOps \<Rightarrow> LruParams \<Rightarrow> (TargetId \<times> TargetData) list \<Rightarrow> 's \<Rightarrow> (LruResults \<times> 's) result" where
  "RunGarbageCollection delegate params live_targets s =
     (let sequence_numbers = QueryCountForPercentile delegate (percentile_to_collect params) s;
          sequence_numbers = (if sint (maximum_sequence_numbers_to_collect params) < sint sequence_numbers
                              then maximum_sequence_numbers_to_collect params else sequence_numbers)
      in rmap (\<lambda>upper_bound.
           let (num_targets_removed, s) = lo_RemoveTargets delegate upper_bound live_targets s;
               (num_documents_removed, s) = lo_RemoveOrphanedDocuments delegate upper_bound s
           in (\<lparr>lr_did_run = True, lr_sequence_numbers_collected = sequence_numbers,
                lr_targets_removed = num_targets_removed, lr_documents_removed = num_documents_removed\<rparr>, s))
           (SequenceNumberForQueryCount delegate sequence_numbers s))"

text \<open>The delegate of the memory persistence always knows its size, so the status is always ok.\<close>

definition Collect ::
  "'s LruDelegateOps \<Rightarrow> LruParams \<Rightarrow> (TargetId \<times> TargetData) list \<Rightarrow> 's \<Rightarrow> (LruResults \<times> 's) result" where
  "Collect delegate params live_targets s =
     (if min_bytes_threshold params = CacheSizeUnlimited then Inr (LruResults_DidNotRun, s)
      else let current_size = lo_CalculateByteSize delegate s
           in if sint current_size < sint (min_bytes_threshold params) then Inr (LruResults_DidNotRun, s)
              else RunGarbageCollection delegate params live_targets s)"

text \<open>The delegate of a memory persistence with LRU collection.\<close>

definition lru_of :: "MemoryPersistence \<Rightarrow> MemoryLruReferenceDelegate" where
  "lru_of mp = (case mp_reference_delegate mp of Lru d \<Rightarrow> d | Eager _ \<Rightarrow> make_LruDelegate 0)"

definition memory_delegate :: "Sizer \<Rightarrow> MemoryPersistence LruDelegateOps" where
  "memory_delegate sizer = \<lparr>lo_CalculateByteSize = lru_CalculateByteSize sizer,
     lo_GetSequenceNumberCount = (\<lambda>mp. GetSequenceNumberCount (lru_of mp) mp),
     lo_EnumerateTargetSequenceNumbers = (\<lambda>mp. tg_EnumerateSequenceNumbers (mp_target_cache mp)),
     lo_EnumerateOrphanedDocuments = (\<lambda>mp. EnumerateOrphanedDocuments (lru_of mp) mp),
     lo_RemoveOrphanedDocuments = (\<lambda>upper_bound mp. lru_RemoveOrphanedDocuments upper_bound (lru_of mp) mp),
     lo_RemoveTargets = lru_RemoveTargets\<rparr>"

section \<open>The buffer holds the smallest numbers\<close>

definition ascending :: "ListenSequenceNumber list \<Rightarrow> ListenSequenceNumber list" where
  "ascending = sort_key sint"

lemma sorted_unique:
  assumes "mset xs = mset ys" "sorted (map sint xs)" "sorted (map sint ys)"
  shows "xs = (ys :: ListenSequenceNumber list)"
proof -
  have "sort (map sint ys) = map sint xs" by (rule properties_for_sort) (use assms in simp_all)
  moreover have "sort (map sint ys) = map sint ys" using assms(3) by (rule sorted_sort_id)
  ultimately have "map sint xs = map sint ys" by simp
  moreover have "inj (sint :: ListenSequenceNumber \<Rightarrow> int)" by (intro injI) (rule signed_word_eqI)
  ultimately show ?thesis by (simp add: inj_map_eq_map)
qed

lemma ascending_ok [simp]: "mset (ascending xs) = mset xs" "sorted (map sint (ascending xs))" "length (ascending xs) = length xs"
  by (simp_all add: ascending_def)

lemma pq_push_ok:
  "mset (pq_push n q) = add_mset n (mset q)"
  "sorted (rev (map sint q)) \<Longrightarrow> sorted (rev (map sint (pq_push n q)))"
proof -
  show m: "mset (pq_push n q) = add_mset n (mset q)" for q by (induction q) auto
  show "sorted (rev (map sint q)) \<Longrightarrow> sorted (rev (map sint (pq_push n q)))"
  proof (induction q)
    case (Cons x q)
    have "set (pq_push n q) = insert n (set q)" using m by (metis set_mset_add_mset_insert set_mset_mset)
    then show ?case using Cons by (auto simp: sorted_append)
  qed simp
qed

lemma pq_push_rev: "sorted (map sint xs) \<Longrightarrow> pq_push n (rev xs) = rev (ascending (n # xs))"
proof -
  assume s: "sorted (map sint xs)"
  have "rev (pq_push n (rev xs)) = ascending (n # xs)"
    using pq_push_ok[where n = n and q = "rev xs"] s by (intro sorted_unique) (simp_all add: rev_map)
  then show ?thesis by (metis rev_rev_ident)
qed

lemma take_ascending:
  assumes "sorted (map sint xs)" "0 < n" "n \<le> length xs"
  shows "take n (ascending (x # xs)) =
    (if sint x < sint (xs ! (n - 1)) then ascending (x # take (n - 1) xs) else take n xs)"
proof -
  obtain m where n: "n = Suc m" using assms(2) by (cases n) auto
  then obtain ys y zs where xs: "xs = ys @ y # zs" and len: "length ys = m"
    using assms(3) id_take_nth_drop[of m xs] by (metis Suc_le_eq length_take min.absorb4)
  have nth: "xs ! (n - 1) = y" "take (n - 1) xs = ys" "take n xs = ys @ [y]" by (simp_all add: xs n len[symmetric])
  have s: "sorted (map sint ys)" "\<And>a. a \<in> set ys \<Longrightarrow> sint a \<le> sint y" "sorted (map sint zs)"
    "\<And>b. b \<in> set zs \<Longrightarrow> sint y \<le> sint b"
    using assms(1) by (auto simp: xs sorted_append)
  have members: "set (ascending (x # l)) = insert x (set l)" for l
    using ascending_ok(1)[of "x # l"] by (metis list.simps(15) set_mset_mset)
  show ?thesis
  proof (cases "sint x < sint y")
    case True
    have "ascending (x # xs) = ascending (x # ys) @ y # zs"
      by (rule sorted_unique) (use True s in \<open>force simp: xs sorted_append members\<close>)+
    then show ?thesis unfolding nth using True by (simp add: n len[symmetric])
  next
    case False
    have "ascending (x # xs) = ys @ y # ascending (x # zs)"
      by (rule sorted_unique) (use False s in \<open>force simp: xs sorted_append members\<close>)+
    then show ?thesis unfolding nth using False by (simp add: n len[symmetric])
  qed
qed

theorem rolling_buffer:
  assumes "0 < n"
  shows "foldl (\<lambda>b x. rb_AddElement x b) (make_RollingBuffer n) xs =
    \<lparr>rb_queue = rev (take n (ascending xs)), rb_max_elements = n\<rparr>"
proof (induction xs rule: rev_induct)
  case (snoc x xs)
  let ?before = "\<lparr>rb_queue = rev (take n (ascending xs)), rb_max_elements = n\<rparr>"
  have step: "foldl (\<lambda>b x. rb_AddElement x b) (make_RollingBuffer n) (xs @ [x]) = rb_AddElement x ?before"
    using snoc by simp
  have cons: "ascending (xs @ [x]) = ascending (x # ascending xs)"
    by (rule sorted_unique) simp_all
  have s: "sorted (map sint (take n (ascending xs)))" using sorted_wrt_take[of "(\<le>)" "map sint (ascending xs)"] by (simp add: take_map)
  show ?case
  proof (cases "length xs < n")
    case True
    then show ?thesis using pq_push_rev[of "ascending xs" x] cons unfolding step by (simp add: rb_AddElement_def)
  next
    case False
    obtain m where n: "n = Suc m" using assms by (cases n) auto
    have q: "rev (take n (ascending xs)) = ascending xs ! m # rev (take m (ascending xs))"
      using False n by (simp add: take_Suc_conv_app_nth)
    have m: "n - Suc 0 = m" using n by simp
    have "sorted (map sint (take m (ascending xs)))" using sorted_wrt_take[of "(\<le>)" "map sint (ascending xs)"] by (simp add: take_map)
    note push = pq_push_rev[OF this, of x]
    have hd: "hd (rev (take n (ascending xs))) = ascending xs ! m" and tl: "tl (rev (take n (ascending xs))) = rev (take m (ascending xs))"
      by (simp_all add: q)
    have "rb_AddElement x ?before = \<lparr>rb_queue = (if sint x < sint (ascending xs ! m)
        then rev (ascending (x # take m (ascending xs))) else rev (take n (ascending xs))), rb_max_elements = n\<rparr>"
      using False push by (simp add: rb_AddElement_def Let_def hd tl)
    then show ?thesis
      using take_ascending[of "ascending xs" n x] False assms unfolding step cons by (simp add: m)
  qed
qed (simp add: make_RollingBuffer_def ascending_def)

section \<open>The share that is collected never exceeds what is there\<close>

lemma bit_length_bounds: "n < 2 ^ bit_length n \<and> (0 < n \<longrightarrow> 2 ^ (bit_length n - 1) \<le> n)"
proof (induction n rule: bit_length.induct)
  case (1 n)
  show ?case
  proof (cases "n = 0")
    case False
    then have l: "bit_length n = Suc (bit_length (n div 2))" by (subst bit_length.simps) simp
    have IH: "n div 2 < 2 ^ bit_length (n div 2)" "0 < n div 2 \<longrightarrow> 2 ^ (bit_length (n div 2) - 1) \<le> n div 2"
      using 1[OF False] by simp_all
    show ?thesis
    proof (cases "n div 2 = 0")
      case True
      then have "n = 1" using False by simp
      then show ?thesis by (simp add: bit_length.simps)
    next
      case half: False
      then have "bit_length (n div 2) \<noteq> 0" by (subst bit_length.simps) simp
      then obtain j where j: "bit_length (n div 2) = Suc j" by (cases "bit_length (n div 2)") auto
      show ?thesis using IH half by (simp add: l j) linarith
    qed
  qed (simp add: bit_length.simps)
qed

lemma round_quot_le:
  assumes "0 < b" "a \<le> c * b" shows "round_quot a b \<le> c"
proof -
  have q: "a div b \<le> c" using div_le_mono[OF assms(2), of b] assms(1) by simp
  have "a mod b = 0" if "a div b = c"
    using assms that div_mult_mod_eq[of a b] by simp
  then show ?thesis using q assms(1) by (cases "a div b = c") (auto simp: round_quot_def Let_def)
qed

lemma round24_le:
  assumes "n \<le> a * 2 ^ k" "a < 2 ^ 24" shows "round24 n \<le> a * 2 ^ k"
proof (cases "bit_length n \<le> 24")
  case True
  then show ?thesis using assms(1) by (simp add: round24_def)
next
  case False
  define s where "s = bit_length n - 24"
  have l: "bit_length n = 24 + s" "0 < s" using False by (simp_all add: s_def)
  then have n: "2 ^ (23 + s) \<le> n" using bit_length_bounds[of n] by (cases n) (auto simp: bit_length.simps[of 0])
  have "k \<ge> s"
  proof (rule ccontr)
    assume "\<not> s \<le> k"
    then have "(2::nat) ^ k \<le> 2 ^ (s - 1)" by (intro power_increasing) auto
    then have "a * 2 ^ k < 2 ^ 24 * 2 ^ (s - 1)" using assms(2) by (intro mult_less_le_imp_less) auto
    also have "\<dots> = 2 ^ (24 + (s - 1))" by (simp only: power_add)
    also have "24 + (s - 1) = 23 + s" using l(2) by simp
    finally show False using n assms(1) by simp
  qed
  then have eq: "a * 2 ^ k = (a * 2 ^ (k - s)) * 2 ^ s" by (simp flip: power_add)
  then have "round_quot n (2 ^ s) \<le> a * 2 ^ (k - s)" using assms(1) by (intro round_quot_le) auto
  then have "round_quot n (2 ^ s) * 2 ^ s \<le> a * 2 ^ k" unfolding eq by (rule mult_le_mono1)
  moreover have "round24 n = round_quot n (2 ^ s) * 2 ^ s" using l by (simp add: round24_def Let_def)
  ultimately show ?thesis by simp
qed

lemma round24_small: "n < 2 ^ 24 \<Longrightarrow> round24 n = n"
proof -
  assume n: "n < 2 ^ 24"
  have "bit_length n \<le> 24"
  proof (rule ccontr)
    assume l: "\<not> bit_length n \<le> 24"
    then have "0 < n" by (cases n) (auto simp: bit_length.simps)
    then have "2 ^ (bit_length n - 1) \<le> n" using bit_length_bounds by blast
    moreover have "(2::nat) ^ 24 \<le> 2 ^ (bit_length n - 1)" using l by (intro power_increasing) auto
    ultimately show False using n by simp
  qed
  then show ?thesis by (simp add: round24_def)
qed

definition query_count :: "nat \<Rightarrow> nat \<Rightarrow> nat" where
  "query_count percentile tot = (let (m, k) = float_percentage percentile in round24 (m * round24 tot) div 2 ^ k)"

theorem query_count_le:
  assumes "percentile \<le> 100" "tot < 2 ^ 24" shows "query_count percentile tot \<le> tot"
proof -
  obtain m k where mk: "float_percentage percentile = (m, k)" by force
  then have "m = round_quot (percentile * 2 ^ k) 100" by (auto simp: float_percentage_def Let_def)
  then have "m \<le> 2 ^ k" using assms(1) by (auto intro!: round_quot_le)
  then have "m * tot \<le> tot * 2 ^ k" by simp
  from round24_le[OF this assms(2)] have "round24 (m * tot) div 2 ^ k \<le> tot"
    by (metis div_le_mono nonzero_mult_div_cancel_right power_not_zero zero_neq_numeral)
  then show ?thesis by (simp add: query_count_def mk round24_small[OF assms(2)])
qed

lemma sint_of_count: "n < 2 ^ 31 \<Longrightarrow> sint (word_of_nat n :: int32) = int n"
  by (simp add: signed_of_nat signed_take_bit_int_eq_self)

section \<open>The contract of a delegate\<close>

locale lru_delegate =
  fixes ops :: "'s LruDelegateOps" and inv :: "'s \<Rightarrow> bool"
    and targets :: "'s \<Rightarrow> TargetData list" and docs :: "'s \<Rightarrow> DocumentKey \<Rightarrow> MaybeDocument option"
    and pinned :: "ListenSequenceNumber \<Rightarrow> 's \<Rightarrow> DocumentKey set"
  assumes count: "inv s \<Longrightarrow> lo_GetSequenceNumberCount ops s =
      length (targets s) + length (lo_EnumerateOrphanedDocuments ops s)"
    and numbers: "inv s \<Longrightarrow> lo_EnumerateTargetSequenceNumbers ops s = map td_sequence_number (targets s)"
    and remove_targets: "inv s \<Longrightarrow> lo_RemoveTargets ops bound live s = (n, s') \<Longrightarrow>
      inv s' \<and> targets s' = filter (\<lambda>td. \<not> collectable bound live td) (targets s) \<and> docs s' = docs s \<and>
      pinned b s' \<subseteq> pinned b s \<and> n = word_of_nat (length (targets s) - length (targets s'))"
    and remove_documents: "inv s \<Longrightarrow> lo_RemoveOrphanedDocuments ops bound s = (n, s') \<Longrightarrow>
      inv s' \<and> targets s' = targets s \<and> docs s' = (\<lambda>k. if k \<in> pinned bound s then docs s k else None)"
begin

definition all_numbers :: "'s \<Rightarrow> ListenSequenceNumber list" where
  "all_numbers s = map td_sequence_number (targets s) @ map snd (lo_EnumerateOrphanedDocuments ops s)"

text \<open>The bound is the n-th smallest of all the numbers; the buffer is never empty when it is read.\<close>

lemma sequence_number:
  assumes "inv s" "0 \<le> sint n" "nat (sint n) \<le> length (all_numbers s)"
  shows "SequenceNumberForQueryCount ops n s =
    Inr (if n = 0 then kListenSequenceNumberInvalid else ascending (all_numbers s) ! (nat (sint n) - 1))"
proof (cases "n = 0")
  case False
  then have pos: "0 < nat (sint n)" using assms(2) sint_same[of n 0] by (cases "sint n = 0") auto
  have second: "foldl (\<lambda>b (key, n). rb_AddElement n b) b xs = foldl (\<lambda>b n. rb_AddElement n b) b (map snd xs)" for b xs
    by (induction xs arbitrary: b) auto
  have "foldl (\<lambda>b (key, n). rb_AddElement n b) (foldl (\<lambda>b n. rb_AddElement n b) (make_RollingBuffer (nat (sint n)))
      (map td_sequence_number (targets s))) (lo_EnumerateOrphanedDocuments ops s) =
      \<lparr>rb_queue = rev (take (nat (sint n)) (ascending (all_numbers s))), rb_max_elements = nat (sint n)\<rparr>"
    unfolding second by (simp add: all_numbers_def rolling_buffer[OF pos, symmetric])
  moreover obtain m where m: "nat (sint n) = Suc m" using pos by (cases "nat (sint n)") auto
  moreover have "rev (take (Suc m) (ascending (all_numbers s))) =
      ascending (all_numbers s) ! m # rev (take m (ascending (all_numbers s)))"
    using assms(3) m by (simp add: take_Suc_conv_app_nth)
  ultimately show ?thesis
    using False by (simp add: SequenceNumberForQueryCount_def Let_def numbers[OF assms(1)] rb_max_value_def)
qed (simp add: SequenceNumberForQueryCount_def)

lemma run_collects:
  assumes "inv s" "percentile_to_collect params \<le> 100" "length (all_numbers s) < 2 ^ 24"
    "0 \<le> sint (maximum_sequence_numbers_to_collect params)"
  shows "\<exists>n bound results s1 s'. RunGarbageCollection ops params live s = Inr (results, s') \<and>
    n = min (query_count (percentile_to_collect params) (length (all_numbers s)))
          (nat (sint (maximum_sequence_numbers_to_collect params))) \<and> n \<le> length (all_numbers s) \<and>
    bound = (if n = 0 then kListenSequenceNumberInvalid else ascending (all_numbers s) ! (n - 1)) \<and>
    inv s' \<and> targets s' = filter (\<lambda>td. \<not> collectable bound live td) (targets s) \<and>
    lo_RemoveTargets ops bound live s = (lr_targets_removed results, s1) \<and> inv s1 \<and>
    lo_RemoveOrphanedDocuments ops bound s1 = (lr_documents_removed results, s') \<and>
    docs s' = (\<lambda>k. if k \<in> pinned bound s1 then docs s k else None) \<and>
    lr_did_run results \<and> sint (lr_sequence_numbers_collected results) = int n"
proof -
  let ?c = "query_count (percentile_to_collect params) (length (all_numbers s))"
  let ?max = "maximum_sequence_numbers_to_collect params"
  define n where "n = min ?c (nat (sint ?max))"
  define w :: int32 where "w = (if sint ?max < sint (word_of_nat ?c :: int32) then ?max else word_of_nat ?c)"
  have le: "?c \<le> length (all_numbers s)" by (rule query_count_le[OF assms(2,3)])
  then have c: "sint (word_of_nat ?c :: int32) = int ?c" using assms(3) by (intro sint_of_count) simp
  then have w: "sint w = int n" using assms(4) by (auto simp: w_def n_def min_def)
  then have w0: "(w = 0) = (n = 0)" using sint_same[of w 0] by auto
  have q: "QueryCountForPercentile ops (percentile_to_collect params) s = word_of_nat ?c"
    by (simp add: QueryCountForPercentile_def query_count_def count[OF assms(1)] all_numbers_def Let_def split: prod.split)
  have nle: "n \<le> length (all_numbers s)" using le by (simp add: n_def)
  then have num: "SequenceNumberForQueryCount ops w s =
      Inr (if n = 0 then kListenSequenceNumberInvalid else ascending (all_numbers s) ! (n - 1))"
    using sequence_number[OF assms(1), of w] nle w w0 by simp
  define bound where "bound = (if n = 0 then kListenSequenceNumberInvalid else ascending (all_numbers s) ! (n - 1))"
  obtain nt s1 where t: "lo_RemoveTargets ops bound live s = (nt, s1)" by force
  obtain nd s' where d: "lo_RemoveOrphanedDocuments ops bound s1 = (nd, s')" by force
  have rt: "targets s1 = filter (\<lambda>td. \<not> collectable bound live td) (targets s)" "docs s1 = docs s" and inv1: "inv s1"
    using remove_targets[OF assms(1) t] by auto
  note rd = remove_documents[OF inv1 d]
  let ?r = "\<lparr>lr_did_run = True, lr_sequence_numbers_collected = w, lr_targets_removed = nt, lr_documents_removed = nd\<rparr>"
  have "RunGarbageCollection ops params live s = Inr (?r, s')"
    unfolding RunGarbageCollection_def q Let_def w_def[symmetric] num bound_def[symmetric] by (simp add: t d)
  moreover have "docs s' = (\<lambda>k. if k \<in> pinned bound s1 then docs s k else None)" using rd unfolding rt(2) by blast
  moreover have "targets s' = filter (\<lambda>td. \<not> collectable bound live td) (targets s)" using rd rt by simp
  moreover have "sint (lr_sequence_numbers_collected ?r) = int n" using w by simp
  ultimately show ?thesis using rd inv1 t d bound_def nle n_def by (intro exI[of _ n] exI[of _ bound] exI[of _ ?r] exI[of _ s1] exI[of _ s']) simp
qed

end

section \<open>The memory persistence is such a delegate\<close>

definition lru_inv :: "MemoryPersistence \<Rightarrow> bool" where
  "lru_inv mp = (mp_ok mp \<and> mp_reference_delegate mp = Lru (lru_of mp))"

definition cached :: "MemoryPersistence \<Rightarrow> DocumentKey \<Rightarrow> MaybeDocument option" where
  "cached mp k = rc_Get k (mp_remote_document_cache mp)"

definition cached_targets :: "MemoryPersistence \<Rightarrow> TargetData list" where
  "cached_targets mp = map snd (tg_targets (mp_target_cache mp))"

definition lru_pinned :: "ListenSequenceNumber \<Rightarrow> MemoryPersistence \<Rightarrow> DocumentKey set" where
  "lru_pinned bound mp = pinned_at bound (lru_of mp) mp"

lemma lru_RemoveTargets_ok:
  assumes "lru_inv mp" "lru_RemoveTargets bound live mp = (n, mp')"
  shows "lru_inv mp' \<and> cached_targets mp' = filter (\<lambda>td. \<not> collectable bound live td) (cached_targets mp) \<and>
    cached mp' = cached mp \<and> lru_pinned b mp' \<subseteq> lru_pinned b mp \<and>
    n = word_of_nat (length (cached_targets mp) - length (cached_targets mp')) \<and> lru_of mp' = lru_of mp \<and>
    written mp' = written mp \<and> (\<forall>i. um_find (=) i live \<noteq> None \<longrightarrow> matching i (mp_target_cache mp') = matching i (mp_target_cache mp))"
proof -
  obtain c tg where r: "tg_RemoveTargets bound live (mp_target_cache mp) = (c, tg)" by force
  have mp': "mp' = mp\<lparr>mp_target_cache := tg\<rparr>" "n = word_of_nat c" using assms(2) by (simp_all add: lru_RemoveTargets_def r)
  have "tg_ok (mp_target_cache mp)" using assms(1) by (simp add: lru_inv_def mp_ok_def)
  note tg = tg_RemoveTargets_ok[OF this r]
  have lru: "lru_of mp' = lru_of mp" by (simp add: mp' lru_of_def)
  have "mp_ok mp" using assms(1) by (simp add: lru_inv_def)
  then have "mp_ok mp'" using tg unfolding mp_ok_def mp' by simp
  moreover have "mp_reference_delegate mp' = Lru (lru_of mp')" using assms(1) unfolding lru lru_inv_def by (simp add: mp')
  ultimately have "lru_inv mp'" by (simp add: lru_inv_def)
  moreover have "lru_pinned b mp' \<subseteq> lru_pinned b mp"
    unfolding lru_pinned_def lru pinned_at_def using tg
    by (auto simp: mp' targeted_def written_def split: if_splits)
  moreover have "matching i tg = matching i (mp_target_cache mp)" if "um_find (=) i live \<noteq> None" for i
    using tg that by (auto simp: collectable_def)
  moreover have "cached mp' = cached mp" by (rule ext) (simp add: mp' cached_def)
  moreover have "cached_targets mp' = filter (\<lambda>td. \<not> collectable bound live td) (cached_targets mp)" "written mp' = written mp"
    "n = word_of_nat (length (cached_targets mp) - length (cached_targets mp'))"
    using tg by (simp_all add: mp' cached_targets_def filter_map o_def written_def)
  ultimately show ?thesis using lru by (simp add: mp'(1))
qed

lemma lru_RemoveDocuments_ok:
  assumes "lru_inv mp" "lru_RemoveOrphanedDocuments bound (lru_of mp) mp = (n, mp')"
  shows "lru_inv mp' \<and> cached_targets mp' = cached_targets mp \<and>
    cached mp' = (\<lambda>k. if k \<in> lru_pinned bound mp then cached mp k else None) \<and> referenced mp' = referenced mp"
proof -
  have mp: "mp_ok mp" "mp_reference_delegate mp = Lru (lru_of mp)" using assms(1) by (simp_all add: lru_inv_def)
  have "mp_reference_delegate mp' = Lru (lru_of mp')"
    using assms(2) by (auto simp: lru_RemoveOrphanedDocuments_def lru_of_def split: prod.splits)
  then show ?thesis
    using lru_RemoveOrphanedDocuments_ok[OF mp assms(2)] by (simp add: lru_inv_def cached_targets_def cached_def lru_pinned_def fun_eq_iff)
qed

lemma GetSequenceNumberCount_eq:
  "GetSequenceNumberCount d mp = tg_size (mp_target_cache mp) + length (EnumerateOrphanedDocuments d mp)"
proof -
  have "foldl (\<lambda>n _. n + 1) c xs = c + length xs" for c :: nat and xs :: "'z list" by (induction xs arbitrary: c) auto
  then show ?thesis by (simp add: GetSequenceNumberCount_def)
qed

interpretation memory_lru: lru_delegate "memory_delegate sizer" lru_inv cached_targets cached lru_pinned for sizer
proof
  show "lo_GetSequenceNumberCount (memory_delegate sizer) mp =
      length (cached_targets mp) + length (lo_EnumerateOrphanedDocuments (memory_delegate sizer) mp)" for mp
    by (simp add: memory_delegate_def GetSequenceNumberCount_eq tg_size_def cached_targets_def)
  show "lo_EnumerateTargetSequenceNumbers (memory_delegate sizer) mp = map td_sequence_number (cached_targets mp)" for mp
    by (simp add: memory_delegate_def tg_EnumerateSequenceNumbers_def cached_targets_def)
  show "lru_inv mp' \<and> cached_targets mp' = filter (\<lambda>td. \<not> collectable bound live td) (cached_targets mp) \<and>
      cached mp' = cached mp \<and> lru_pinned b mp' \<subseteq> lru_pinned b mp \<and>
      n = word_of_nat (length (cached_targets mp) - length (cached_targets mp'))"
    if "lru_inv mp" "lo_RemoveTargets (memory_delegate sizer) bound live mp = (n, mp')" for mp bound live n mp' b
    using lru_RemoveTargets_ok[OF that(1), of bound live n mp' b] that(2) by (simp add: memory_delegate_def)
  show "lru_inv mp' \<and> cached_targets mp' = cached_targets mp \<and>
      cached mp' = (\<lambda>k. if k \<in> lru_pinned bound mp then cached mp k else None)"
    if "lru_inv mp" "lo_RemoveOrphanedDocuments (memory_delegate sizer) bound mp = (n, mp')" for mp bound n mp'
    using lru_RemoveDocuments_ok[OF that(1), of bound n mp'] that(2) by (simp add: memory_delegate_def)
qed

section \<open>A collection of the memory persistence\<close>

lemma um_find_filter: "um_find (=) k (filter (\<lambda>e. fst e \<notin> R) m) = (if k \<in> R then None else um_find (=) k m)"
  by (induction m) (auto simp: um_find_def split: option.splits)

lemma lru_RemoveDocuments_pinned:
  assumes "lru_inv mp" "lru_RemoveOrphanedDocuments bound (lru_of mp) mp = (n, mp')"
  shows "lru_pinned bound mp' = lru_pinned bound mp"
proof -
  let ?d = "lru_of mp"
  have mp: "mp_ok mp" "mp_reference_delegate mp = Lru ?d" using assms(1) by (simp_all add: lru_inv_def)
  obtain removed rc where r: "rc_RemoveOrphanedDocuments (\<lambda>key. IsPinnedAtSequenceNumber bound key ?d mp)
      (mp_remote_document_cache mp) = (removed, rc)" by force
  have "rc_ok (mp_remote_document_cache mp)" using mp(1) by (simp add: mp_ok_def)
  note rem = rc_RemoveOrphaned_ok[OF this r, unfolded IsPinned_iff[OF mp]]
  let ?d' = "?d\<lparr>ld_sequence_numbers := filter (\<lambda>e. fst e \<notin> set removed) (ld_sequence_numbers ?d)\<rparr>"
  have mp': "mp' = mp\<lparr>mp_remote_document_cache := rc, mp_reference_delegate := Lru ?d'\<rparr>"
    using assms(2) by (simp add: lru_RemoveOrphanedDocuments_def r foldl_um_erase)
  then have "lru_of mp' = ?d'" by (simp add: lru_of_def)
  then have "lru_pinned bound mp' = targeted mp \<union> written mp \<union> pins (ld_additional_references ?d) \<union>
      {k. k \<notin> set removed \<and> (\<exists>n. um_find (=) k (ld_sequence_numbers ?d) = Some n \<and> sint bound < sint n)}"
    by (auto simp: lru_pinned_def pinned_at_def mp' targeted_def written_def um_find_filter)
  moreover have "set removed \<inter> pinned_at bound ?d mp = {}" using rem by auto
  ultimately show ?thesis unfolding lru_pinned_def pinned_at_def by blast
qed

definition sequence_numbers :: "MemoryPersistence \<Rightarrow> ListenSequenceNumber list" where
  "sequence_numbers mp = map td_sequence_number (cached_targets mp) @ map snd (EnumerateOrphanedDocuments (lru_of mp) mp)"

theorem memory_collects:
  assumes "lru_inv mp" "percentile_to_collect params \<le> 100" "length (sequence_numbers mp) < 2 ^ 24"
    "0 \<le> sint (maximum_sequence_numbers_to_collect params)"
  shows "\<exists>n bound results mp'. RunGarbageCollection (memory_delegate sizer) params live mp = Inr (results, mp') \<and> lru_inv mp' \<and>
    n = min (query_count (percentile_to_collect params) (length (sequence_numbers mp)))
          (nat (sint (maximum_sequence_numbers_to_collect params))) \<and>
    bound = (if n = 0 then kListenSequenceNumberInvalid else ascending (sequence_numbers mp) ! (n - 1)) \<and>
    cached_targets mp' = filter (\<lambda>td. \<not> collectable bound live td) (cached_targets mp) \<and>
    (\<forall>k. cached mp' k = (if k \<in> lru_pinned bound mp' then cached mp k else None)) \<and>
    written mp' = written mp \<and> (\<forall>i. um_find (=) i live \<noteq> None \<longrightarrow> matching i (mp_target_cache mp) \<subseteq> lru_pinned bound mp') \<and>
    written mp \<subseteq> lru_pinned bound mp' \<and> pins (ld_additional_references (lru_of mp)) \<subseteq> lru_pinned bound mp'"
proof -
  have nums: "memory_lru.all_numbers sizer mp = sequence_numbers mp"
    unfolding memory_lru.all_numbers_def sequence_numbers_def by (simp add: memory_delegate_def)
  obtain n bound results s1 mp' where r: "RunGarbageCollection (memory_delegate sizer) params live mp = Inr (results, mp')"
    "n = min (query_count (percentile_to_collect params) (length (sequence_numbers mp)))
          (nat (sint (maximum_sequence_numbers_to_collect params)))"
    "bound = (if n = 0 then kListenSequenceNumberInvalid else ascending (sequence_numbers mp) ! (n - 1))"
    "lru_inv mp'" "cached_targets mp' = filter (\<lambda>td. \<not> collectable bound live td) (cached_targets mp)"
    "lo_RemoveTargets (memory_delegate sizer) bound live mp = (lr_targets_removed results, s1)" "lru_inv s1"
    "cached mp' = (\<lambda>k. if k \<in> lru_pinned bound s1 then cached mp k else None)"
    "lo_RemoveOrphanedDocuments (memory_delegate sizer) bound s1 = (lr_documents_removed results, mp')"
    using memory_lru.run_collects[OF assms(1,2) _ assms(4), of sizer live] assms(3) unfolding nums by blast
  have t: "lru_RemoveTargets bound live mp = (lr_targets_removed results, s1)"
    and d: "lru_RemoveOrphanedDocuments bound (lru_of s1) s1 = (lr_documents_removed results, mp')"
    using r(6,9) by (simp_all add: memory_delegate_def)
  note s1 = lru_RemoveTargets_ok[OF assms(1) t]
  have pinned: "lru_pinned bound mp' = lru_pinned bound s1" by (rule lru_RemoveDocuments_pinned[OF r(7) d])
  have "mp_mutation_queues mp' = mp_mutation_queues s1"
    using lru_RemoveOrphanedDocuments_ok[OF _ _ d] r(7) by (simp add: lru_inv_def)
  then have "written mp' = written mp" using s1 by (simp add: written_def)
  moreover have "matching i (mp_target_cache mp) \<subseteq> lru_pinned bound mp'" if "um_find (=) i live \<noteq> None" for i
  proof -
    have "matching i (mp_target_cache mp) = matching i (mp_target_cache s1)" using s1 that by blast
    then show ?thesis unfolding pinned by (auto simp: lru_pinned_def pinned_at_def targeted_def)
  qed
  moreover have "written mp \<subseteq> lru_pinned bound mp'" "pins (ld_additional_references (lru_of mp)) \<subseteq> lru_pinned bound mp'"
    using s1 unfolding pinned by (auto simp: lru_pinned_def pinned_at_def)
  ultimately show ?thesis using r(1-5,8) pinned
    by (intro exI[of _ n] exI[of _ bound] exI[of _ results] exI[of _ mp']) simp
qed

end
