(* ===== verification/LocalStores.thy ===== *)
theory LocalStores
  imports QueryEngines LruGarbageCollectors Views RemoteEvents
begin

text \<open>
  \<open>local/local_store.cc\<close>: the store the sync engine works on, over a memory persistence.  The mutation
  queue it points to is that of its user in the persistence; its set of local view references, to which
  the reference delegate has a pointer, is the one of the delegate; the view of the local documents and
  the query engine only read.  Every operation runs in a transaction.
\<close>

section \<open>Local view changes\<close>

record LocalViewChanges =
  lvc_target_id :: TargetId
  lvc_from_cache :: bool
  lvc_added_keys :: DocumentKeySet
  lvc_removed_keys :: DocumentKeySet

definition FromViewSnapshot :: "ViewSnapshot \<Rightarrow> TargetId \<Rightarrow> LocalViewChanges" where
  "FromViewSnapshot snapshot target_id =
     (let (added_keys, removed_keys) = foldl (\<lambda>(added_keys, removed_keys) doc_change.
            case dvc_type doc_change of
              CAdded \<Rightarrow> (dks_insert (doc_key (dvc_document doc_change)) added_keys, removed_keys)
            | CRemoved \<Rightarrow> (added_keys, dks_insert (doc_key (dvc_document doc_change)) removed_keys)
            | _ \<Rightarrow> (added_keys, removed_keys)) ([], []) (vs_document_changes snapshot)
      in \<lparr>lvc_target_id = target_id, lvc_from_cache = vs_from_cache snapshot,
          lvc_added_keys = added_keys, lvc_removed_keys = removed_keys\<rparr>)"

record LocalWriteResult =
  lwr_batch_id :: BatchId
  lwr_changes :: MaybeDocumentMap

record QueryResult =
  qr_documents :: MaybeDocumentMap
  qr_remote_keys :: DocumentKeySet

section \<open>The store\<close>

record LocalStore =
  ls_persistence :: MemoryPersistence
  ls_user :: User
  ls_target_id_generator :: TargetIdGenerator
  ls_target_data_by_target :: "(TargetId \<times> TargetData) list"
  ls_target_id_by_target :: "(Target \<times> TargetId) list"

definition ls_queue :: "LocalStore \<Rightarrow> MemoryMutationQueue" where
  "ls_queue ls = queue_of (ls_user ls) (ls_persistence ls)"

definition set_ls_queue :: "MemoryMutationQueue \<Rightarrow> LocalStore \<Rightarrow> LocalStore" where
  "set_ls_queue q ls = ls\<lparr>ls_persistence := set_queue (ls_user ls) q (ls_persistence ls)\<rparr>"

definition local_documents :: "LocalStore \<Rightarrow> LocalDocumentsView" where
  "local_documents ls =
     \<lparr>ldv_remote_document_cache = mp_remote_document_cache (ls_persistence ls),
      ldv_mutation_queue = ls_queue ls,
      ldv_index_manager = mp_index_manager (ls_persistence ls)\<rparr>"

definition ls_delegate :: "LocalStore \<Rightarrow> ReferenceDelegate" where
  "ls_delegate ls = mp_reference_delegate (ls_persistence ls)"

definition set_ls_delegate :: "ReferenceDelegate \<Rightarrow> LocalStore \<Rightarrow> LocalStore" where
  "set_ls_delegate rd ls = ls\<lparr>ls_persistence := (ls_persistence ls)\<lparr>mp_reference_delegate := rd\<rparr>\<rparr>"

definition local_view_references :: "LocalStore \<Rightarrow> ReferenceSet" where
  "local_view_references ls =
     (case rd_additional_references (ls_delegate ls) of None \<Rightarrow> rs_new | Some s \<Rightarrow> s)"

definition set_local_view_references :: "ReferenceSet \<Rightarrow> LocalStore \<Rightarrow> LocalStore" where
  "set_local_view_references s ls = set_ls_delegate (rd_AddInMemoryPins s (ls_delegate ls)) ls"

definition set_ls_target_cache :: "MemoryTargetCache \<Rightarrow> LocalStore \<Rightarrow> LocalStore" where
  "set_ls_target_cache tg ls = ls\<lparr>ls_persistence := (ls_persistence ls)\<lparr>mp_target_cache := tg\<rparr>\<rparr>"

definition set_ls_documents :: "MemoryRemoteDocumentCache \<times> MemoryIndexManager \<Rightarrow> LocalStore \<Rightarrow> LocalStore" where
  "set_ls_documents = (\<lambda>(rc, im) ls.
     ls\<lparr>ls_persistence := (ls_persistence ls)\<lparr>mp_remote_document_cache := rc, mp_index_manager := im\<rparr>\<rparr>)"

definition make_LocalStore :: "MemoryPersistence \<Rightarrow> User \<Rightarrow> LocalStore result" where
  "make_LocalStore persistence initial_user =
     (let persistence = mp_GetMutationQueueForUser initial_user persistence;
          persistence = persistence\<lparr>mp_reference_delegate := rd_AddInMemoryPins rs_new (mp_reference_delegate persistence)\<rparr>
      in rmap (\<lambda>target_id_generator.
           \<lparr>ls_persistence = persistence, ls_user = initial_user, ls_target_id_generator = target_id_generator,
            ls_target_data_by_target = [], ls_target_id_by_target = []\<rparr>) (TargetCacheTargetIdGenerator 0))"

text \<open>A transaction over the store.\<close>

definition ls_Run :: "(LocalStore \<Rightarrow> ('a \<times> LocalStore) result) \<Rightarrow> LocalStore \<Rightarrow> ('a \<times> LocalStore) result" where
  "ls_Run block ls =
     rbind (block (ls\<lparr>ls_persistence := OnTransactionStarted (ls_persistence ls)\<rparr>)) (\<lambda>(a, ls).
       rmap (\<lambda>mp. (a, ls\<lparr>ls_persistence := mp\<rparr>)) (OnTransactionCommitted (ls_persistence ls)))"

definition StartMutationQueue :: "LocalStore \<Rightarrow> LocalStore result" where
  "StartMutationQueue ls = rmap snd (ls_Run (\<lambda>ls. Inr ((), set_ls_queue (mq_Start (ls_queue ls)) ls)) ls)"

definition ls_Start :: "LocalStore \<Rightarrow> LocalStore result" where
  "ls_Start ls =
     rbind (StartMutationQueue ls) (\<lambda>ls.
       let target_id = tg_highest_target_id (mp_target_cache (ls_persistence ls))
       in rmap (\<lambda>g. ls\<lparr>ls_target_id_generator := g\<rparr>) (TargetCacheTargetIdGenerator target_id))"

section \<open>Writes\<close>

definition batches_keys :: "MutationBatch list \<Rightarrow> DocumentKeySet" where
  "batches_keys batches =
     foldl (\<lambda>keys batch. foldl (\<lambda>keys m. dks_insert (mut_key m) keys) keys (mb_mutations batch)) [] batches"

definition HandleUserChange :: "User \<Rightarrow> LocalStore \<Rightarrow> (MaybeDocumentMap \<times> LocalStore) result" where
  "HandleUserChange user ls =
     rbind (ls_Run (\<lambda>ls. Inr (mq_queue (ls_queue ls), ls)) ls) (\<lambda>(old_batches, ls).
       let ls = ls\<lparr>ls_persistence := mp_GetMutationQueueForUser user (ls_persistence ls), ls_user := user\<rparr>
       in rbind (StartMutationQueue ls) (ls_Run (\<lambda>ls.
            let new_batches = mq_queue (ls_queue ls);
                changed_keys = batches_keys (old_batches @ new_batches)
            in rmap (\<lambda>docs. (docs, ls)) (ldv_GetDocuments changed_keys (local_documents ls)))))"

definition base_mutation_step :: "MaybeDocumentMap \<Rightarrow> Mutation list \<Rightarrow> Mutation \<Rightarrow> Mutation list result" where
  "base_mutation_step existing_documents base_mutations m =
     (let base_document = dm_get (mut_key m) existing_documents
      in rmap (\<lambda>base_value. case base_value of
             None \<Rightarrow> base_mutations
           | Some v \<Rightarrow> base_mutations @ [PatchMutation (mut_key m) v (ToFieldMask v) (Precondition_Exists True)])
           (ExtractBaseValue m base_document))"

definition WriteLocally :: "Timestamp \<Rightarrow> Mutation list \<Rightarrow> LocalStore \<Rightarrow> (LocalWriteResult \<times> LocalStore) result" where
  "WriteLocally local_write_time mutations ls =
     (let keys = foldl (\<lambda>keys m. dks_insert (mut_key m) keys) [] mutations
      in ls_Run (\<lambda>ls.
           rbind (ldv_GetDocuments keys (local_documents ls)) (\<lambda>existing_documents.
           rbind (rfold (base_mutation_step existing_documents) [] mutations) (\<lambda>base_mutations.
           rbind (mq_AddMutationBatch local_write_time base_mutations mutations
                    (ls_queue ls, mp_index_manager (ls_persistence ls))) (\<lambda>(batch, q, im).
           rmap (\<lambda>changed_documents.
               (\<lparr>lwr_batch_id = mb_batch_id batch, lwr_changes = changed_documents\<rparr>,
                set_ls_queue q (ls\<lparr>ls_persistence := (ls_persistence ls)\<lparr>mp_index_manager := im\<rparr>\<rparr>)))
             (Batch_ApplyToLocalDocumentSet batch existing_documents))))) ls)"

definition batch_result_step ::
  "MutationBatchResult \<Rightarrow> MemoryRemoteDocumentCache \<times> MemoryIndexManager \<Rightarrow> DocumentKey \<Rightarrow>
   (MemoryRemoteDocumentCache \<times> MemoryIndexManager) result" where
  "batch_result_step batch_result = (\<lambda>(rc, im) key.
     (let remote_doc = rc_Get key rc
      in case dm_get key (mbr_doc_versions batch_result) of
           None \<Rightarrow> Inl HardAssert
         | Some ack_version \<Rightarrow>
             (if (case remote_doc of None \<Rightarrow> True | Some d \<Rightarrow> doc_version d < ack_version)
              then rbind (Batch_ApplyToRemoteDocument (mbr_batch batch_result) remote_doc key batch_result) (\<lambda>doc.
                     case doc of
                       None \<Rightarrow> hard_assert (remote_doc = None) (Inr (rc, im))
                     | Some d \<Rightarrow> rc_Add d (mbr_commit_version batch_result) (rc, im))
              else Inr (rc, im))))"

definition RemoveBatch :: "MutationBatch \<Rightarrow> LocalStore \<Rightarrow> LocalStore result" where
  "RemoveBatch batch ls =
     rmap (\<lambda>(q, rd). set_ls_delegate rd (set_ls_queue q ls)) (mq_RemoveMutationBatch batch (ls_queue ls, ls_delegate ls))"

definition ApplyBatchResult :: "MutationBatchResult \<Rightarrow> LocalStore \<Rightarrow> LocalStore result" where
  "ApplyBatchResult batch_result ls =
     rbind (rfold (batch_result_step batch_result)
              (mp_remote_document_cache (ls_persistence ls), mp_index_manager (ls_persistence ls))
              (Batch_keys (mbr_batch batch_result))) (\<lambda>docs.
       RemoveBatch (mbr_batch batch_result) (set_ls_documents docs ls))"

definition AcknowledgeBatch :: "MutationBatchResult \<Rightarrow> LocalStore \<Rightarrow> (MaybeDocumentMap \<times> LocalStore) result" where
  "AcknowledgeBatch batch_result = ls_Run (\<lambda>ls.
     let batch = mbr_batch batch_result
     in rbind (mq_AcknowledgeBatch batch (mbr_stream_token batch_result) (ls_queue ls)) (\<lambda>q.
        rbind (ApplyBatchResult batch_result (set_ls_queue q ls)) (\<lambda>ls.
        rbind (PerformConsistencyCheck (ls_queue ls)) (\<lambda>_.
        rmap (\<lambda>docs. (docs, ls)) (ldv_GetDocuments (Batch_keys batch) (local_documents ls))))))"

definition RejectBatch :: "BatchId \<Rightarrow> LocalStore \<Rightarrow> (MaybeDocumentMap \<times> LocalStore) result" where
  "RejectBatch batch_id = ls_Run (\<lambda>ls.
     rbind (LookupMutationBatch batch_id (ls_queue ls)) (\<lambda>to_reject.
       case to_reject of
         None \<Rightarrow> Inl HardAssert
       | Some batch \<Rightarrow>
           rbind (RemoveBatch batch ls) (\<lambda>ls.
           rbind (PerformConsistencyCheck (ls_queue ls)) (\<lambda>_.
           rmap (\<lambda>docs. (docs, ls)) (ldv_GetDocuments (Batch_keys batch) (local_documents ls))))))"

definition ls_GetLastStreamToken :: "LocalStore \<Rightarrow> ByteString" where
  "ls_GetLastStreamToken ls = mq_last_stream_token (ls_queue ls)"

definition ls_SetLastStreamToken :: "ByteString \<Rightarrow> LocalStore \<Rightarrow> LocalStore result" where
  "ls_SetLastStreamToken stream_token ls =
     rmap snd (ls_Run (\<lambda>ls. Inr ((), set_ls_queue (mq_SetLastStreamToken stream_token (ls_queue ls)) ls)) ls)"

definition ls_GetLastRemoteSnapshotVersion :: "LocalStore \<Rightarrow> SnapshotVersion" where
  "ls_GetLastRemoteSnapshotVersion ls = tg_last_remote_snapshot_version (mp_target_cache (ls_persistence ls))"

definition GetNextMutationBatch :: "BatchId \<Rightarrow> LocalStore \<Rightarrow> (MutationBatch option \<times> LocalStore) result" where
  "GetNextMutationBatch batch_id = ls_Run (\<lambda>ls. Inr (NextMutationBatchAfterBatchId batch_id (ls_queue ls), ls))"

definition ReadDocument :: "DocumentKey \<Rightarrow> LocalStore \<Rightarrow> (MaybeDocument option \<times> LocalStore) result" where
  "ReadDocument key = ls_Run (\<lambda>ls. rmap (\<lambda>d. (d, ls)) (ldv_GetDocument key (local_documents ls)))"

definition ls_GetHighestUnacknowledgedBatchId :: "LocalStore \<Rightarrow> (BatchId \<times> LocalStore) result" where
  "ls_GetHighestUnacknowledgedBatchId = ls_Run (\<lambda>ls. Inr (mq_GetHighestUnacknowledgedBatchId (ls_queue ls), ls))"

section \<open>Remote events\<close>

definition kResumeTokenMaxAgeSeconds :: int64 where
  "kResumeTokenMaxAgeSeconds = 5 * 60"

definition ShouldPersistTargetData :: "TargetData \<Rightarrow> TargetData \<Rightarrow> TargetChange \<Rightarrow> bool result" where
  "ShouldPersistTargetData new_target_data old_target_data change =
     hard_assert (td_resume_token new_target_data \<noteq> [])
       (if td_resume_token old_target_data = [] then Inr True
        else let new_seconds = seconds (td_snapshot_version new_target_data);
                 old_seconds = seconds (td_snapshot_version old_target_data);
                 time_delta = new_seconds - old_seconds
             in if sint kResumeTokenMaxAgeSeconds \<le> sint time_delta then Inr True
                else let changes = length (tc_added_documents change) + length (tc_modified_documents change) +
                                   length (tc_removed_documents change)
                     in Inr (0 < changes))"

definition ls_target_change_step ::
  "SnapshotVersion \<Rightarrow> ListenSequenceNumber \<Rightarrow> LocalStore \<Rightarrow> TargetId \<times> TargetChange \<Rightarrow> LocalStore result" where
  "ls_target_change_step snapshot_version sequence_number ls = (\<lambda>(target_id, change).
     case um_find (=) target_id (ls_target_data_by_target ls) of
       None \<Rightarrow> Inr ls
     | Some old_target_data \<Rightarrow>
         rbind (tg_RemoveMatchingKeys (tc_removed_documents change) target_id
                  (mp_target_cache (ls_persistence ls), ls_delegate ls)) (\<lambda>cache.
         rbind (tg_AddMatchingKeys (tc_added_documents change) target_id cache) (\<lambda>(tg, rd).
           let ls = set_ls_delegate rd (set_ls_target_cache tg ls);
               resume_token = tc_resume_token change
           in if resume_token \<noteq> [] then
                let new_target_data = WithSequenceNumber sequence_number
                      (WithResumeToken resume_token snapshot_version old_target_data);
                    ls = ls\<lparr>ls_target_data_by_target := um_put (=) target_id new_target_data (ls_target_data_by_target ls)\<rparr>
                in rmap (\<lambda>persist. if persist
                       then set_ls_target_cache (tg_UpdateTarget new_target_data (mp_target_cache (ls_persistence ls))) ls
                       else ls)
                     (ShouldPersistTargetData new_target_data old_target_data change)
              else Inr ls)))"

definition is_no_document :: "MaybeDocument \<Rightarrow> bool" where
  "is_no_document d = (case d of NoDocument _ _ _ \<Rightarrow> True | _ \<Rightarrow> False)"

text \<open>Whether a document of the event replaces the cached one.\<close>

definition is_newer :: "MaybeDocument \<Rightarrow> MaybeDocument option \<Rightarrow> bool" where
  "is_newer doc existing_doc =
     (case existing_doc of
        None \<Rightarrow> True
      | Some e \<Rightarrow> doc_version e < doc_version doc \<or> (doc_version doc = doc_version e \<and> has_pending_writes e))"

definition document_update_step ::
  "RemoteEvent \<Rightarrow> OptionalMaybeDocumentMap \<Rightarrow> OptionalMaybeDocumentMap \<times> LocalStore \<Rightarrow> DocumentKey \<times> MaybeDocument \<Rightarrow>
   (OptionalMaybeDocumentMap \<times> LocalStore) result" where
  "document_update_step remote_event existing_docs = (\<lambda>(changed_docs, ls) (key, doc).
     (let existing_doc = (case dm_get key existing_docs of Some e \<Rightarrow> e | None \<Rightarrow> None);
          rc = mp_remote_document_cache (ls_persistence ls);
          im = mp_index_manager (ls_persistence ls)
      in rbind
           (if is_no_document doc \<and> doc_version doc = SnapshotVersion_None then
              Inr (dm_insert key (Some doc) changed_docs, set_ls_documents (rc_Remove key rc, im) ls)
            else if is_newer doc existing_doc then
              hard_assert (re_snapshot_version remote_event \<noteq> SnapshotVersion_None)
                (rmap (\<lambda>docs. (dm_insert key (Some doc) changed_docs, set_ls_documents docs ls))
                   (rc_Add doc (re_snapshot_version remote_event) (rc, im)))
            else Inr (changed_docs, ls))
           (\<lambda>(changed_docs, ls).
             if key \<in> set (re_limbo_document_changes remote_event)
             then rmap (\<lambda>mp. (changed_docs, ls\<lparr>ls_persistence := mp\<rparr>)) (rd_UpdateLimboDocument key (ls_persistence ls))
             else Inr (changed_docs, ls))))"

definition ApplyRemoteEvent :: "RemoteEvent \<Rightarrow> LocalStore \<Rightarrow> (MaybeDocumentMap \<times> LocalStore) result" where
  "ApplyRemoteEvent remote_event = ls_Run (\<lambda>ls.
     let last_remote_version = tg_last_remote_snapshot_version (mp_target_cache (ls_persistence ls))
     in rbind (mp_current_sequence_number (ls_persistence ls)) (\<lambda>sequence_number.
        rbind (rfold (ls_target_change_step (re_snapshot_version remote_event) sequence_number) ls
                 (re_target_changes remote_event)) (\<lambda>ls.
        let updated_keys = foldl (\<lambda>keys kv. dks_insert (fst kv) keys) [] (re_document_updates remote_event);
            existing_docs = rc_GetAll updated_keys (mp_remote_document_cache (ls_persistence ls))
        in rbind (rfold (document_update_step remote_event existing_docs) ([], ls) (re_document_updates remote_event))
             (\<lambda>(changed_docs, ls).
        let remote_version = re_snapshot_version remote_event
        in rbind (if remote_version \<noteq> SnapshotVersion_None
                  then hard_assert (last_remote_version \<le> remote_version)
                         (Inr (set_ls_target_cache
                            (tg_SetLastRemoteSnapshotVersion remote_version (mp_target_cache (ls_persistence ls))) ls))
                  else Inr ls) (\<lambda>ls.
        rmap (\<lambda>docs. (docs, ls)) (GetLocalViewOfDocuments changed_docs (local_documents ls)))))))"

section \<open>Targets and views\<close>

text \<open>
  The lookup of \<open>GetTargetData\<close> in the map of target data would add invalid data for an id it does not
  have; the invariant excludes it, and the model fails.
\<close>

definition GetTargetData :: "Target \<Rightarrow> LocalStore \<Rightarrow> TargetData option result" where
  "GetTargetData target ls =
     (case um_find Target_eq target (ls_target_id_by_target ls) of
        Some target_id \<Rightarrow> (case um_find (=) target_id (ls_target_data_by_target ls) of
            Some target_data \<Rightarrow> Inr (Some target_data)
          | None \<Rightarrow> Inl HardAssert)
      | None \<Rightarrow> Inr (tg_GetTarget target (mp_target_cache (ls_persistence ls))))"

definition view_change_step :: "LocalStore \<Rightarrow> LocalViewChanges \<Rightarrow> LocalStore result" where
  "view_change_step ls view_change =
     (let target_id = lvc_target_id view_change
      in rbind (rfold (\<lambda>rd key. rd_RemoveReference key rd) (ls_delegate ls) (lvc_removed_keys view_change)) (\<lambda>rd.
         let ls = set_ls_delegate rd ls;
             refs = rs_AddReferences (lvc_added_keys view_change) target_id (local_view_references ls);
             refs = rs_RemoveReferencesTo (lvc_removed_keys view_change) target_id refs;
             ls = set_local_view_references refs ls
         in if \<not> lvc_from_cache view_change then
              (case um_find (=) target_id (ls_target_data_by_target ls) of
                 None \<Rightarrow> Inl HardAssert
               | Some target_data \<Rightarrow>
                   (let updated_target_data =
                          WithLastLimboFreeSnapshotVersion (td_snapshot_version target_data) target_data
                    in Inr (ls\<lparr>ls_target_data_by_target :=
                         um_put (=) target_id updated_target_data (ls_target_data_by_target ls)\<rparr>)))
            else Inr ls))"

definition NotifyLocalViewChanges :: "LocalViewChanges list \<Rightarrow> LocalStore \<Rightarrow> LocalStore result" where
  "NotifyLocalViewChanges view_changes ls =
     rmap snd (ls_Run (\<lambda>ls. rmap (Pair ()) (rfold view_change_step ls view_changes)) ls)"

definition AllocateTarget :: "Target \<Rightarrow> LocalStore \<Rightarrow> (TargetData \<times> LocalStore) result" where
  "AllocateTarget target ls =
     rmap (\<lambda>(target_data, ls).
       let target_id = td_target_id target_data
       in (target_data,
           if um_find (=) target_id (ls_target_data_by_target ls) = None
           then ls\<lparr>ls_target_data_by_target := um_put (=) target_id target_data (ls_target_data_by_target ls),
                   ls_target_id_by_target := um_put Target_eq (td_target target_data) target_id (ls_target_id_by_target ls)\<rparr>
           else ls))
     (ls_Run (\<lambda>ls.
        let tg = mp_target_cache (ls_persistence ls)
        in case tg_GetTarget target tg of
             Some target_data \<Rightarrow> Inr (target_data, ls)
           | None \<Rightarrow>
               rmap (\<lambda>sequence_number.
                   let (target_id, generator) = tig_NextId (ls_target_id_generator ls);
                       target_data = make_TargetData target target_id sequence_number QPListen
                   in (target_data, set_ls_target_cache (tg_AddTarget target_data tg) (ls\<lparr>ls_target_id_generator := generator\<rparr>)))
                 (mp_current_sequence_number (ls_persistence ls))) ls)"

definition ReleaseTarget :: "TargetId \<Rightarrow> LocalStore \<Rightarrow> LocalStore result" where
  "ReleaseTarget target_id ls =
     rmap snd (ls_Run (\<lambda>ls.
       case um_find (=) target_id (ls_target_data_by_target ls) of
         None \<Rightarrow> Inl HardAssert
       | Some target_data \<Rightarrow>
           (let (removed, refs) = rs_RemoveReferences (td_target_id target_data) (local_view_references ls);
                ls = set_local_view_references refs ls
            in rbind (rfold (\<lambda>rd key. rd_RemoveReference key rd) (ls_delegate ls) removed) (\<lambda>rd.
               let ls = set_ls_delegate rd ls
               in rmap (\<lambda>mp. ((), ls\<lparr>ls_persistence := mp,
                      ls_target_data_by_target := um_erase (=) target_id (ls_target_data_by_target ls),
                      ls_target_id_by_target := um_erase Target_eq (td_target target_data) (ls_target_id_by_target ls)\<rparr>))
                    (rd_RemoveTarget target_data (ls_persistence ls))))) ls)"

definition ExecuteQuery :: "Query \<Rightarrow> bool \<Rightarrow> LocalStore \<Rightarrow> (QueryResult \<times> LocalStore) result" where
  "ExecuteQuery query use_previous_results = ls_Run (\<lambda>ls.
     rbind (ToTarget query) (\<lambda>target.
     rbind (GetTargetData target ls) (\<lambda>target_data.
       let (last_limbo_free_snapshot_version, remote_keys) = (case target_data of
              Some td \<Rightarrow> (td_last_limbo_free_snapshot_version td,
                          tg_GetMatchingKeys (td_target_id td) (mp_target_cache (ls_persistence ls)))
            | None \<Rightarrow> (SnapshotVersion_None, []))
       in rmap (\<lambda>documents. (\<lparr>qr_documents = documents, qr_remote_keys = remote_keys\<rparr>, ls))
            (qe_GetDocumentsMatchingQuery query
               (if use_previous_results then last_limbo_free_snapshot_version else SnapshotVersion_None)
               (if use_previous_results then remote_keys else []) (local_documents ls)))))"

definition GetRemoteDocumentKeys :: "TargetId \<Rightarrow> LocalStore \<Rightarrow> (DocumentKeySet \<times> LocalStore) result" where
  "GetRemoteDocumentKeys target_id = ls_Run (\<lambda>ls.
     Inr (tg_GetMatchingKeys target_id (mp_target_cache (ls_persistence ls)), ls))"

definition CollectGarbage :: "Sizer \<Rightarrow> LruParams \<Rightarrow> LocalStore \<Rightarrow> (LruResults \<times> LocalStore) result" where
  "CollectGarbage sizer params = ls_Run (\<lambda>ls.
     rmap (\<lambda>(results, mp). (results, ls\<lparr>ls_persistence := mp\<rparr>))
       (Collect (memory_delegate sizer) params (ls_target_data_by_target ls) (ls_persistence ls)))"

end
