(* ===== verification/SyncEngines.thy ===== *)
theory SyncEngines
  imports LocalStores QueryListeners
begin

text \<open>
  \<open>core/sync_engine.cc\<close>: the engine between the local store, the remote store and the event manager.
  What it calls on the remote store, on its callback and on the callbacks of the user is its output, in
  order; the remote store only reads from it.  A callback of the user is a number.
\<close>

section \<open>State\<close>

type_synonym StatusCallback = nat

datatype sync_output =
    OnViewSnapshots "ViewSnapshot list"
  | OnSyncError Query Status
  | OnOnlineState OnlineState
  | RemoteListen TargetData
  | RemoteStopListening TargetId
  | FillWritePipeline
  | RemoteCredentialChange
  | CallStatusCallback StatusCallback Status

record QueryView =
  qv_query :: Query
  qv_target_id :: TargetId
  qv_view :: View

record LimboResolution =
  lr_key :: DocumentKey
  lr_document_received :: bool

definition make_LimboResolution :: "DocumentKey \<Rightarrow> LimboResolution" where
  "make_LimboResolution key = \<lparr>lr_key = key, lr_document_received = False\<rparr>"

definition kIrrelevantSequenceNumber :: ListenSequenceNumber where
  "kIrrelevantSequenceNumber = -1"

record SyncEngine =
  se_local_store :: LocalStore
  se_current_user :: User
  se_has_callback :: bool
  se_target_id_generator :: TargetIdGenerator
  se_mutation_callbacks :: "(User \<times> (BatchId \<times> StatusCallback) list) list"
  se_pending_writes_callbacks :: "(BatchId \<times> StatusCallback list) list"
  se_query_views_by_query :: "(Query \<times> QueryView) list"
  se_queries_by_target :: "(TargetId \<times> Query list) list"
  se_max_concurrent_limbo_resolutions :: nat
  se_enqueued_limbo_resolutions :: "DocumentKey list"
  se_active_limbo_targets_by_key :: "(DocumentKey \<times> TargetId) list"
  se_active_limbo_resolutions_by_target :: "(TargetId \<times> LimboResolution) list"
  se_limbo_document_refs :: ReferenceSet
  se_output :: "sync_output list"

definition make_SyncEngine :: "LocalStore \<Rightarrow> User \<Rightarrow> nat \<Rightarrow> SyncEngine result" where
  "make_SyncEngine local_store initial_user max_concurrent_limbo_resolutions =
     rmap (\<lambda>generator.
       \<lparr>se_local_store = local_store, se_current_user = initial_user, se_has_callback = False,
        se_target_id_generator = generator, se_mutation_callbacks = [], se_pending_writes_callbacks = [],
        se_query_views_by_query = [], se_queries_by_target = [],
        se_max_concurrent_limbo_resolutions = max_concurrent_limbo_resolutions,
        se_enqueued_limbo_resolutions = [], se_active_limbo_targets_by_key = [],
        se_active_limbo_resolutions_by_target = [], se_limbo_document_refs = rs_new, se_output = []\<rparr>)
     SyncEngineTargetIdGenerator"

definition se_SetCallback :: "SyncEngine \<Rightarrow> SyncEngine" where
  "se_SetCallback se = se\<lparr>se_has_callback := True\<rparr>"

definition emit :: "sync_output \<Rightarrow> SyncEngine \<Rightarrow> SyncEngine" where
  "emit out se = se\<lparr>se_output := se_output se @ [out]\<rparr>"

definition set_local_store :: "LocalStore \<Rightarrow> SyncEngine \<Rightarrow> SyncEngine" where
  "set_local_store ls se = se\<lparr>se_local_store := ls\<rparr>"

section \<open>Limbo resolution\<close>

text \<open>\<open>emplace\<close> of a map leaves an entry that is there.\<close>

definition emplace_limbo_target :: "DocumentKey \<Rightarrow> TargetId \<Rightarrow> (DocumentKey \<times> TargetId) list \<Rightarrow> (DocumentKey \<times> TargetId) list" where
  "emplace_limbo_target key i m = (if dm_get key m = None then dm_insert key i m else m)"

definition emplace_resolution ::
  "TargetId \<Rightarrow> LimboResolution \<Rightarrow> (TargetId \<times> LimboResolution) list \<Rightarrow> (TargetId \<times> LimboResolution) list" where
  "emplace_resolution i r m = (if um_find (=) i m = None then um_put (=) i r m else m)"

definition start_limbo_resolution :: "DocumentKey \<Rightarrow> Target \<Rightarrow> SyncEngine \<Rightarrow> SyncEngine" where
  "start_limbo_resolution key target se =
     (let (limbo_target_id, generator) = tig_NextId (se_target_id_generator se)
      in emit (RemoteListen (make_TargetData target limbo_target_id kIrrelevantSequenceNumber QPLimboResolution))
           (se\<lparr>se_target_id_generator := generator,
               se_active_limbo_resolutions_by_target :=
                 emplace_resolution limbo_target_id (make_LimboResolution key) (se_active_limbo_resolutions_by_target se),
               se_active_limbo_targets_by_key :=
                 emplace_limbo_target key limbo_target_id (se_active_limbo_targets_by_key se)\<rparr>))"

lemma start_limbo_enqueued [simp]:
  "se_enqueued_limbo_resolutions (start_limbo_resolution key target se) = se_enqueued_limbo_resolutions se"
  by (simp add: start_limbo_resolution_def emit_def split: prod.split)

function PumpEnqueuedLimboResolutions :: "SyncEngine \<Rightarrow> SyncEngine result" where
  "PumpEnqueuedLimboResolutions se =
     (case se_enqueued_limbo_resolutions se of
        [] \<Rightarrow> Inr se
      | key # rest \<Rightarrow>
          if length (se_active_limbo_targets_by_key se) < se_max_concurrent_limbo_resolutions se
          then (case ToTarget (make_Query key None) of
                  Inl e \<Rightarrow> Inl e
                | Inr target \<Rightarrow> PumpEnqueuedLimboResolutions
                    (start_limbo_resolution key target (se\<lparr>se_enqueued_limbo_resolutions := rest\<rparr>)))
          else Inr se)"
  by pat_completeness auto

termination
  by (relation "measure (\<lambda>se. length (se_enqueued_limbo_resolutions se))") auto

declare PumpEnqueuedLimboResolutions.simps [simp del]

definition RemoveLimboTarget :: "DocumentKey \<Rightarrow> SyncEngine \<Rightarrow> SyncEngine result" where
  "RemoveLimboTarget key se =
     (case dm_get key (se_active_limbo_targets_by_key se) of
        None \<Rightarrow> Inr se
      | Some limbo_target_id \<Rightarrow>
          PumpEnqueuedLimboResolutions
            ((emit (RemoteStopListening limbo_target_id) se)
               \<lparr>se_active_limbo_targets_by_key := dm_erase key (se_active_limbo_targets_by_key se),
                se_active_limbo_resolutions_by_target :=
                  um_erase (=) limbo_target_id (se_active_limbo_resolutions_by_target se)\<rparr>))"

definition TrackLimboChange :: "DocumentKey \<Rightarrow> SyncEngine \<Rightarrow> SyncEngine result" where
  "TrackLimboChange key se =
     (if dm_get key (se_active_limbo_targets_by_key se) = None
      then PumpEnqueuedLimboResolutions
             (se\<lparr>se_enqueued_limbo_resolutions := se_enqueued_limbo_resolutions se @ [key]\<rparr>)
      else Inr se)"

definition limbo_change_step :: "TargetId \<Rightarrow> SyncEngine \<Rightarrow> LimboDocumentChange \<Rightarrow> SyncEngine result" where
  "limbo_change_step target_id se limbo_change =
     (case limbo_change of
        LimboAdded key \<Rightarrow>
          TrackLimboChange key
            (se\<lparr>se_limbo_document_refs := rs_AddReference key target_id (se_limbo_document_refs se)\<rparr>)
      | LimboRemoved key \<Rightarrow>
          (let se = se\<lparr>se_limbo_document_refs := rs_RemoveReference key target_id (se_limbo_document_refs se)\<rparr>
           in if \<not> rs_ContainsKey key (se_limbo_document_refs se) then RemoveLimboTarget key se else Inr se))"

definition UpdateTrackedLimboDocuments :: "LimboDocumentChange list \<Rightarrow> TargetId \<Rightarrow> SyncEngine \<Rightarrow> SyncEngine result" where
  "UpdateTrackedLimboDocuments limbo_changes target_id se = rfold (limbo_change_step target_id) se limbo_changes"

section \<open>Snapshots\<close>

text \<open>One iteration of the loop over the query views, with the snapshots and changes collected so far.\<close>

definition emit_step ::
  "MaybeDocumentMap \<Rightarrow> RemoteEvent option \<Rightarrow> SyncEngine \<times> ViewSnapshot list \<times> LocalViewChanges list \<Rightarrow> Query \<times> QueryView \<Rightarrow>
   (SyncEngine \<times> ViewSnapshot list \<times> LocalViewChanges list) result" where
  "emit_step changes maybe_remote_event = (\<lambda>(se, new_snapshots, document_changes) (query, query_view).
     let view = qv_view query_view
     in rbind (ComputeDocumentChanges view changes None) (\<lambda>view_doc_changes.
        rbind (if vdc_needs_refill view_doc_changes
               then rbind (ExecuteQuery (qv_query query_view) False (se_local_store se)) (\<lambda>(query_result, ls).
                      rmap (\<lambda>view_doc_changes. (view_doc_changes, set_local_store ls se))
                        (ComputeDocumentChanges view (qr_documents query_result) (Some view_doc_changes)))
               else Inr (view_doc_changes, se)) (\<lambda>(view_doc_changes, se).
        let target_changes = (case maybe_remote_event of
               None \<Rightarrow> None
             | Some remote_event \<Rightarrow> um_find (=) (qv_target_id query_view) (re_target_changes remote_event))
        in rbind (View_ApplyChanges view_doc_changes target_changes view) (\<lambda>(view_change, view).
           let query_view = query_view\<lparr>qv_view := view\<rparr>;
               se = se\<lparr>se_query_views_by_query := um_put Query_eq query query_view (se_query_views_by_query se)\<rparr>
           in rmap (\<lambda>se. case vc_snapshot view_change of
                  Some snapshot \<Rightarrow> (se, new_snapshots @ [snapshot],
                                    document_changes @ [FromViewSnapshot snapshot (qv_target_id query_view)])
                | None \<Rightarrow> (se, new_snapshots, document_changes))
                (UpdateTrackedLimboDocuments (vc_limbo_changes view_change) (qv_target_id query_view) se)))))"

definition EmitNewSnapshotsAndNotifyLocalStore ::
  "MaybeDocumentMap \<Rightarrow> RemoteEvent option \<Rightarrow> SyncEngine \<Rightarrow> SyncEngine result" where
  "EmitNewSnapshotsAndNotifyLocalStore changes maybe_remote_event se =
     rbind (rfold (emit_step changes maybe_remote_event) (se, [], []) (se_query_views_by_query se))
       (\<lambda>(se, new_snapshots, document_changes_in_all_views).
       let se = emit (OnViewSnapshots new_snapshots) se
       in rmap (\<lambda>ls. set_local_store ls se) (NotifyLocalViewChanges document_changes_in_all_views (se_local_store se)))"

section \<open>Listens\<close>

definition AssertCallbackExists :: "(SyncEngine \<Rightarrow> 'a result) \<Rightarrow> SyncEngine \<Rightarrow> 'a result" where
  "AssertCallbackExists body se = hard_assert (se_has_callback se) (body se)"

text \<open>
  The first query of a target has a view; the code would dereference a null pointer otherwise, and the
  model fails.
\<close>

definition synthesized_change :: "TargetId \<Rightarrow> SyncEngine \<Rightarrow> TargetChange option result" where
  "synthesized_change target_id se =
     (case um_find (=) target_id (se_queries_by_target se) of
        None \<Rightarrow> Inr None
      | Some [] \<Rightarrow> Inl Unreachable
      | Some (mirror_query # _) \<Rightarrow>
          (case um_find Query_eq mirror_query (se_query_views_by_query se) of
             None \<Rightarrow> Inl Unreachable
           | Some query_view \<Rightarrow>
               Inr (Some (CreateSynthesizedTargetChange (view_sync_state (qv_view query_view) = SSSynced)))))"

definition queries_of :: "TargetId \<Rightarrow> SyncEngine \<Rightarrow> Query list" where
  "queries_of target_id se = (case um_find (=) target_id (se_queries_by_target se) of None \<Rightarrow> [] | Some qs \<Rightarrow> qs)"

definition InitializeViewAndComputeSnapshot ::
  "Query \<Rightarrow> TargetId \<Rightarrow> SyncEngine \<Rightarrow> (ViewSnapshot \<times> SyncEngine) result" where
  "InitializeViewAndComputeSnapshot query target_id se =
     rbind (ExecuteQuery query True (se_local_store se)) (\<lambda>(query_result, ls).
       let se = set_local_store ls se
       in rbind (synthesized_change target_id se) (\<lambda>synthesized_current_change.
          let view = make_View query (qr_remote_keys query_result)
          in rbind (ComputeDocumentChanges view (qr_documents query_result) None) (\<lambda>view_doc_changes.
             rbind (View_ApplyChanges view_doc_changes synthesized_current_change view) (\<lambda>(view_change, view).
             rbind (UpdateTrackedLimboDocuments (vc_limbo_changes view_change) target_id se) (\<lambda>se.
               let query_view = \<lparr>qv_query = query, qv_target_id = target_id, qv_view = view\<rparr>;
                   se = se\<lparr>se_query_views_by_query := um_put Query_eq query query_view (se_query_views_by_query se)\<rparr>;
                   se = se\<lparr>se_queries_by_target :=
                          um_put (=) target_id (queries_of target_id se @ [query]) (se_queries_by_target se)\<rparr>
               in case vc_snapshot view_change of
                    None \<Rightarrow> Inl HardAssert
                  | Some snapshot \<Rightarrow> Inr (snapshot, se))))))"

definition se_Listen :: "Query \<Rightarrow> SyncEngine \<Rightarrow> (TargetId \<times> SyncEngine) result" where
  "se_Listen query = AssertCallbackExists (\<lambda>se.
     hard_assert (um_find Query_eq query (se_query_views_by_query se) = None)
       (rbind (ToTarget query) (\<lambda>target.
        rbind (AllocateTarget target (se_local_store se)) (\<lambda>(target_data, ls).
        rmap (\<lambda>(view_snapshot, se).
            (td_target_id target_data, emit (RemoteListen target_data) (emit (OnViewSnapshots [view_snapshot]) se)))
          (InitializeViewAndComputeSnapshot query (td_target_id target_data) (set_local_store ls se))))))"

definition remove_unreferenced :: "SyncEngine \<Rightarrow> DocumentKey \<Rightarrow> SyncEngine result" where
  "remove_unreferenced se key =
     (if \<not> rs_ContainsKey key (se_limbo_document_refs se) then RemoveLimboTarget key se else Inr se)"

definition drop_query :: "Status \<Rightarrow> SyncEngine \<Rightarrow> Query \<Rightarrow> SyncEngine" where
  "drop_query status se query =
     (let se = se\<lparr>se_query_views_by_query := um_erase Query_eq query (se_query_views_by_query se)\<rparr>
      in if \<not> Status_ok status then emit (OnSyncError query status) se else se)"

text \<open>\<open>at\<close> of a map throws for a missing key, which aborts; the model fails.\<close>

definition RemoveAndCleanupTarget :: "TargetId \<Rightarrow> Status \<Rightarrow> SyncEngine \<Rightarrow> SyncEngine result" where
  "RemoveAndCleanupTarget target_id status se =
     (case um_find (=) target_id (se_queries_by_target se) of
        None \<Rightarrow> Inl HardAssert
      | Some queries \<Rightarrow>
          (let se = foldl (drop_query status) se queries;
               se = se\<lparr>se_queries_by_target := um_erase (=) target_id (se_queries_by_target se)\<rparr>;
               limbo_keys = rs_ReferencedKeys target_id (se_limbo_document_refs se);
               se = se\<lparr>se_limbo_document_refs := snd (rs_RemoveReferences target_id (se_limbo_document_refs se))\<rparr>
           in rfold remove_unreferenced se limbo_keys))"

text \<open>
  \<open>queries.erase(std::remove(\<dots>))\<close> erases one element, which is right when the query is in the list once,
  as the invariant has it; the code would corrupt the list otherwise, and the model fails.
\<close>

definition remove_query :: "Query \<Rightarrow> Query list \<Rightarrow> Query list result" where
  "remove_query query queries =
     (if length (filter (\<lambda>q. Query_eq q query) queries) = 1
      then Inr (filter (\<lambda>q. \<not> Query_eq q query) queries) else Inl Unreachable)"

definition se_StopListening :: "Query \<Rightarrow> SyncEngine \<Rightarrow> SyncEngine result" where
  "se_StopListening query = AssertCallbackExists (\<lambda>se.
     case um_find Query_eq query (se_query_views_by_query se) of
       None \<Rightarrow> Inl HardAssert
     | Some query_view \<Rightarrow>
         (let se = se\<lparr>se_query_views_by_query := um_erase Query_eq query (se_query_views_by_query se)\<rparr>;
              target_id = qv_target_id query_view
          in rbind (remove_query query (queries_of target_id se)) (\<lambda>queries.
             let se = se\<lparr>se_queries_by_target := um_put (=) target_id queries (se_queries_by_target se)\<rparr>
             in if queries = []
                then rbind (ReleaseTarget target_id (se_local_store se)) (\<lambda>ls.
                       RemoveAndCleanupTarget target_id Status_OK
                         (emit (RemoteStopListening target_id) (set_local_store ls se)))
                else Inr se)))"

section \<open>Writes\<close>

definition callbacks_of :: "User \<Rightarrow> SyncEngine \<Rightarrow> (BatchId \<times> StatusCallback) list" where
  "callbacks_of user se = (case um_find User_eq user (se_mutation_callbacks se) of None \<Rightarrow> [] | Some cs \<Rightarrow> cs)"

definition add_mutation_callback :: "BatchId \<Rightarrow> StatusCallback \<Rightarrow> SyncEngine \<Rightarrow> SyncEngine" where
  "add_mutation_callback batch_id callback se =
     (let callbacks = callbacks_of (se_current_user se) se;
          callbacks = (if um_find (=) batch_id callbacks = None then um_put (=) batch_id callback callbacks else callbacks)
      in se\<lparr>se_mutation_callbacks := um_put User_eq (se_current_user se) callbacks (se_mutation_callbacks se)\<rparr>)"

definition WriteMutations :: "Timestamp \<Rightarrow> Mutation list \<Rightarrow> StatusCallback \<Rightarrow> SyncEngine \<Rightarrow> SyncEngine result" where
  "WriteMutations local_write_time mutations callback = AssertCallbackExists (\<lambda>se.
     rbind (WriteLocally local_write_time mutations (se_local_store se)) (\<lambda>(result, ls).
       let se = add_mutation_callback (lwr_batch_id result) callback (set_local_store ls se)
       in rmap (emit FillWritePipeline) (EmitNewSnapshotsAndNotifyLocalStore (lwr_changes result) None se)))"

definition RegisterPendingWritesCallback :: "StatusCallback \<Rightarrow> SyncEngine \<Rightarrow> SyncEngine result" where
  "RegisterPendingWritesCallback callback se =
     rmap (\<lambda>(largest_pending_batch_id, ls).
       let se = set_local_store ls se
       in if largest_pending_batch_id = kBatchIdUnknown
          then emit (CallStatusCallback callback Status_OK) se
          else let callbacks = (case um_find (=) largest_pending_batch_id (se_pending_writes_callbacks se) of
                     None \<Rightarrow> [] | Some cs \<Rightarrow> cs)
               in se\<lparr>se_pending_writes_callbacks :=
                       um_put (=) largest_pending_batch_id (callbacks @ [callback]) (se_pending_writes_callbacks se)\<rparr>)
     (ls_GetHighestUnacknowledgedBatchId (se_local_store se))"

definition NotifyUser :: "BatchId \<Rightarrow> Status \<Rightarrow> SyncEngine \<Rightarrow> SyncEngine" where
  "NotifyUser batch_id status se =
     (case um_find User_eq (se_current_user se) (se_mutation_callbacks se) of
        None \<Rightarrow> se
      | Some callbacks \<Rightarrow>
          (case um_find (=) batch_id callbacks of
             None \<Rightarrow> se
           | Some callback \<Rightarrow>
               (emit (CallStatusCallback callback status) se)
                 \<lparr>se_mutation_callbacks :=
                    um_put User_eq (se_current_user se) (um_erase (=) batch_id callbacks) (se_mutation_callbacks se)\<rparr>))"

definition call_all :: "Status \<Rightarrow> StatusCallback list \<Rightarrow> SyncEngine \<Rightarrow> SyncEngine" where
  "call_all status callbacks se = foldl (\<lambda>se callback. emit (CallStatusCallback callback status) se) se callbacks"

definition TriggerPendingWriteCallbacks :: "BatchId \<Rightarrow> SyncEngine \<Rightarrow> SyncEngine" where
  "TriggerPendingWriteCallbacks batch_id se =
     (case um_find (=) batch_id (se_pending_writes_callbacks se) of
        None \<Rightarrow> se
      | Some callbacks \<Rightarrow> (call_all Status_OK callbacks se)
          \<lparr>se_pending_writes_callbacks := um_erase (=) batch_id (se_pending_writes_callbacks se)\<rparr>)"

definition FailOutstandingPendingWriteCallbacks :: "string \<Rightarrow> SyncEngine \<Rightarrow> SyncEngine" where
  "FailOutstandingPendingWriteCallbacks message se =
     (foldl (\<lambda>se entry. call_all (kErrorCancelled, message) (snd entry) se) se (se_pending_writes_callbacks se))
       \<lparr>se_pending_writes_callbacks := []\<rparr>"

definition HandleSuccessfulWrite :: "MutationBatchResult \<Rightarrow> SyncEngine \<Rightarrow> SyncEngine result" where
  "HandleSuccessfulWrite batch_result = AssertCallbackExists (\<lambda>se.
     let batch_id = mb_batch_id (mbr_batch batch_result);
         se = TriggerPendingWriteCallbacks batch_id (NotifyUser batch_id Status_OK se)
     in rbind (AcknowledgeBatch batch_result (se_local_store se)) (\<lambda>(changes, ls).
          EmitNewSnapshotsAndNotifyLocalStore changes None (set_local_store ls se)))"

definition HandleRejectedWrite :: "BatchId \<Rightarrow> Status \<Rightarrow> SyncEngine \<Rightarrow> SyncEngine result" where
  "HandleRejectedWrite batch_id error = AssertCallbackExists (\<lambda>se.
     rbind (RejectBatch batch_id (se_local_store se)) (\<lambda>(changes, ls).
       let se = TriggerPendingWriteCallbacks batch_id (NotifyUser batch_id error (set_local_store ls se))
       in EmitNewSnapshotsAndNotifyLocalStore changes None se))"

section \<open>Events\<close>

definition se_HandleCredentialChange :: "User \<Rightarrow> SyncEngine \<Rightarrow> SyncEngine result" where
  "se_HandleCredentialChange user se =
     (let user_changed = (\<not> User_eq (se_current_user se) user);
          se = se\<lparr>se_current_user := user\<rparr>
      in rmap (emit RemoteCredentialChange)
           (if user_changed
            then let se = FailOutstandingPendingWriteCallbacks
                       (CHR 0x27 # ''waitForPendingWrites'' @ [CHR 0x27] @ '' callback is cancelled due to a user change.'') se
                 in rbind (HandleUserChange user (se_local_store se)) (\<lambda>(changes, ls).
                      EmitNewSnapshotsAndNotifyLocalStore changes None (set_local_store ls se))
            else Inr se))"

definition limbo_event_step :: "SyncEngine \<Rightarrow> TargetId \<times> TargetChange \<Rightarrow> SyncEngine result" where
  "limbo_event_step se = (\<lambda>(target_id, change).
     case um_find (=) target_id (se_active_limbo_resolutions_by_target se) of
       None \<Rightarrow> Inr se
     | Some limbo_resolution \<Rightarrow>
         (let set_received = (\<lambda>received. se\<lparr>se_active_limbo_resolutions_by_target :=
                um_put (=) target_id (limbo_resolution\<lparr>lr_document_received := received\<rparr>)
                  (se_active_limbo_resolutions_by_target se)\<rparr>)
          in hard_assert (length (tc_added_documents change) + length (tc_modified_documents change) +
                          length (tc_removed_documents change) \<le> 1)
               (if tc_added_documents change \<noteq> [] then Inr (set_received True)
                else if tc_modified_documents change \<noteq> [] then
                  hard_assert (lr_document_received limbo_resolution) (Inr se)
                else if tc_removed_documents change \<noteq> [] then
                  hard_assert (lr_document_received limbo_resolution) (Inr (set_received False))
                else Inr se)))"

definition se_ApplyRemoteEvent :: "RemoteEvent \<Rightarrow> SyncEngine \<Rightarrow> SyncEngine result" where
  "se_ApplyRemoteEvent remote_event = AssertCallbackExists (\<lambda>se.
     rbind (rfold limbo_event_step se (re_target_changes remote_event)) (\<lambda>se.
     rbind (ApplyRemoteEvent remote_event (se_local_store se)) (\<lambda>(changes, ls).
       EmitNewSnapshotsAndNotifyLocalStore changes (Some remote_event) (set_local_store ls se))))"

definition HandleRejectedListen :: "TargetId \<Rightarrow> Status \<Rightarrow> SyncEngine \<Rightarrow> SyncEngine result" where
  "HandleRejectedListen target_id error = AssertCallbackExists (\<lambda>se.
     case um_find (=) target_id (se_active_limbo_resolutions_by_target se) of
       Some limbo_resolution \<Rightarrow>
         (let limbo_key = lr_key limbo_resolution;
              se = se\<lparr>se_active_limbo_targets_by_key := dm_erase limbo_key (se_active_limbo_targets_by_key se),
                      se_active_limbo_resolutions_by_target :=
                        um_erase (=) target_id (se_active_limbo_resolutions_by_target se)\<rparr>
          in rbind (PumpEnqueuedLimboResolutions se)
               (se_ApplyRemoteEvent
                  \<lparr>re_snapshot_version = SnapshotVersion_None, re_target_changes = [], re_target_mismatches = [],
                   re_document_updates = [(limbo_key, NoDocument limbo_key SnapshotVersion_None False)],
                   re_limbo_document_changes = [limbo_key]\<rparr>))
     | None \<Rightarrow>
         rbind (ReleaseTarget target_id (se_local_store se)) (\<lambda>ls.
           RemoveAndCleanupTarget target_id error (set_local_store ls se)))"

definition online_step ::
  "OnlineState \<Rightarrow> SyncEngine \<times> ViewSnapshot list \<Rightarrow> Query \<times> QueryView \<Rightarrow> (SyncEngine \<times> ViewSnapshot list) result" where
  "online_step online_state = (\<lambda>(se, new_view_snapshot) (query, query_view).
     rbind (View_ApplyOnlineStateChange online_state (qv_view query_view)) (\<lambda>(view_change, view).
       let query_view = query_view\<lparr>qv_view := view\<rparr>;
           se = se\<lparr>se_query_views_by_query := um_put Query_eq query query_view (se_query_views_by_query se)\<rparr>
       in hard_assert (vc_limbo_changes view_change = [])
            (Inr (se, case vc_snapshot view_change of
                 Some snapshot \<Rightarrow> new_view_snapshot @ [snapshot] | None \<Rightarrow> new_view_snapshot))))"

definition se_HandleOnlineStateChange :: "OnlineState \<Rightarrow> SyncEngine \<Rightarrow> SyncEngine result" where
  "se_HandleOnlineStateChange online_state = AssertCallbackExists (\<lambda>se.
     rmap (\<lambda>(se, new_view_snapshot).
         emit (OnOnlineState online_state) (emit (OnViewSnapshots new_view_snapshot) se))
       (rfold (online_step online_state) (se, []) (se_query_views_by_query se)))"

definition synced_step :: "SyncEngine \<Rightarrow> DocumentKeySet \<Rightarrow> Query \<Rightarrow> DocumentKeySet result" where
  "synced_step se keys query =
     (case um_find Query_eq query (se_query_views_by_query se) of
        None \<Rightarrow> Inl HardAssert
      | Some query_view \<Rightarrow>
          Inr (foldl (\<lambda>keys key. dks_insert key keys) keys (view_synced_documents (qv_view query_view))))"

definition se_GetRemoteKeys :: "TargetId \<Rightarrow> SyncEngine \<Rightarrow> DocumentKeySet result" where
  "se_GetRemoteKeys target_id se =
     (let by_queries = (case um_find (=) target_id (se_queries_by_target se) of
            None \<Rightarrow> Inr []
          | Some queries \<Rightarrow> rfold (synced_step se) [] queries)
      in case um_find (=) target_id (se_active_limbo_resolutions_by_target se) of
           Some r \<Rightarrow> if lr_document_received r then Inr [lr_key r] else by_queries
         | None \<Rightarrow> by_queries)"

end
