(* ===== verification/LocalStoreProofs.thy ===== *)
theory LocalStoreProofs
  imports LocalStores
begin

text \<open>
  The operations of the local store keep its invariant and do to its documents, batches and targets what
  they promise: a transaction commits what its block did, less the documents that nothing references any
  more; a write appends its batch; the documents an operation returns are the local views of its keys.
\<close>

section \<open>The invariant\<close>

definition batches_ok :: "MemoryPersistence \<Rightarrow> bool" where
  "batches_ok mp = (\<forall>e \<in> set (mp_mutation_queues mp). \<forall>b \<in> set (mq_queue (snd e)). batch_ok b \<and> base_in_batch b)"

definition parents_ok :: "MemoryPersistence \<Rightarrow> bool" where
  "parents_ok mp =
     ((\<forall>k. rc_Get k (mp_remote_document_cache mp) \<noteq> None \<longrightarrow> butlast k \<in> im_collections (mp_index_manager mp)) \<and>
      (\<forall>k \<in> written mp. butlast k \<in> im_collections (mp_index_manager mp)) \<and>
      (\<forall>p \<in> im_collections (mp_index_manager mp). length p mod 2 = 1))"

definition read_ok :: "MemoryRemoteDocumentCache \<Rightarrow> bool" where
  "read_ok rc = (\<forall>k. rc_Get k rc \<noteq> None \<longrightarrow> read_after SnapshotVersion_None k rc)"

definition store_ok :: "MemoryPersistence \<Rightarrow> bool" where
  "store_ok mp = (mp_ok mp \<and> batches_ok mp \<and> parents_ok mp \<and> read_ok (mp_remote_document_cache mp))"

definition ids_unique :: "MemoryTargetCache \<Rightarrow> bool" where
  "ids_unique tg = (even (tg_highest_target_id tg) \<and> 0 \<le> sint (tg_highest_target_id tg) \<and>
     (\<forall>t a. tg_GetTarget t tg = Some a \<longrightarrow> even (td_target_id a)) \<and>
     (\<forall>t t' a b. tg_GetTarget t tg = Some a \<and> tg_GetTarget t' tg = Some b \<and> td_target_id a = td_target_id b \<longrightarrow>
        Target_eq t t'))"

text \<open>The two maps of live targets agree with each other and with the target cache.\<close>

definition live_ok :: "LocalStore \<Rightarrow> bool" where
  "live_ok ls =
     ((\<forall>i td. um_find (=) i (ls_target_data_by_target ls) = Some td \<longrightarrow>
         td_target_id td = i \<and> um_find Target_eq (td_target td) (ls_target_id_by_target ls) = Some i \<and>
         (\<exists>c. tg_GetTarget (td_target td) (mp_target_cache (ls_persistence ls)) = Some c \<and> td_target_id c = i)) \<and>
      (\<forall>t i. um_find Target_eq t (ls_target_id_by_target ls) = Some i \<longrightarrow>
         (\<exists>td. um_find (=) i (ls_target_data_by_target ls) = Some td \<and> Target_eq (td_target td) t)))"

definition generator_ok :: "LocalStore \<Rightarrow> bool" where
  "generator_ok ls = (even (tig_next_id (ls_target_id_generator ls)) \<and>
     sint (tg_highest_target_id (mp_target_cache (ls_persistence ls))) < sint (tig_next_id (ls_target_id_generator ls)))"

definition ls_ok :: "LocalStore \<Rightarrow> bool" where
  "ls_ok ls = (store_ok (ls_persistence ls) \<and> ids_unique (mp_target_cache (ls_persistence ls)) \<and> live_ok ls \<and>
     generator_ok ls \<and> rd_additional_references (ls_delegate ls) \<noteq> None)"

text \<open>Room for one more transaction: the numbers it may take do not wrap around.\<close>

definition rd_ready :: "ReferenceDelegate \<Rightarrow> bool" where
  "rd_ready rd = (case rd of Eager _ \<Rightarrow> True
     | Lru d \<Rightarrow> 0 \<le> sint (ld_previous_sequence_number d) \<and> sint (ld_previous_sequence_number d) < 2 ^ 63 - 1)"

definition remote :: "LocalStore \<Rightarrow> DocumentKey \<Rightarrow> MaybeDocument option" where
  "remote ls k = rc_Get k (mp_remote_document_cache (ls_persistence ls))"

abbreviation pending :: "LocalStore \<Rightarrow> MutationBatch list" where
  "pending ls \<equiv> mq_queue (ls_queue ls)"

section \<open>Transactions\<close>

text \<open>Two persistences that differ in the delegate's bookkeeping only.\<close>

definition same_store :: "MemoryPersistence \<Rightarrow> MemoryPersistence \<Rightarrow> bool" where
  "same_store mp mp' =
     (mp' = mp\<lparr>mp_reference_delegate := mp_reference_delegate mp'\<rparr> \<and>
      rd_additional_references (mp_reference_delegate mp') = rd_additional_references (mp_reference_delegate mp) \<and>
      is_eager (mp_reference_delegate mp') = is_eager (mp_reference_delegate mp))"

lemma OnTransactionStarted_ok:
  assumes "rd_ready (mp_reference_delegate mp)"
  shows "same_store mp (OnTransactionStarted mp) \<and> rd_open (mp_reference_delegate (OnTransactionStarted mp)) \<and>
    rd_orphaned (mp_reference_delegate (OnTransactionStarted mp)) = {}"
proof (cases "mp_reference_delegate mp")
  case (Eager d)
  then show ?thesis by (simp add: OnTransactionStarted_def same_store_def)
next
  case (Lru d)
  then obtain d' where "mp_reference_delegate (OnTransactionStarted mp) = Lru d'" "rd_open (Lru d')"
      "ld_additional_references d' = ld_additional_references d"
    using lru_transaction[OF Lru] assms by (auto simp: rd_ready_def)
  moreover have "OnTransactionStarted mp = mp\<lparr>mp_reference_delegate := mp_reference_delegate (OnTransactionStarted mp)\<rparr>"
    by (simp add: OnTransactionStarted_def Lru Let_def split: prod.split)
  ultimately show ?thesis by (simp add: same_store_def Lru)
qed

lemma same_store_mp:
  assumes "same_store mp mp'"
  shows "mp_mutation_queues mp' = mp_mutation_queues mp" "mp_target_cache mp' = mp_target_cache mp"
    "mp_remote_document_cache mp' = mp_remote_document_cache mp" "mp_index_manager mp' = mp_index_manager mp"
  using assms unfolding same_store_def by (metis MemoryPersistence.select_convs MemoryPersistence.update_convs(5) MemoryPersistence.surjective)+

lemma same_store_refs:
  assumes "same_store mp mp'"
  shows "rd_additional_references (mp_reference_delegate mp') = rd_additional_references (mp_reference_delegate mp)"
    "is_eager (mp_reference_delegate mp') = is_eager (mp_reference_delegate mp)"
  using assms by (simp_all add: same_store_def)

lemma same_store_ok:
  assumes "same_store mp mp'"
  shows "store_ok mp' = store_ok mp" "written mp' = written mp" "referenced mp' = referenced mp"
proof -
  note parts = same_store_mp[OF assms]
  have refs: "rd_additional_references (mp_reference_delegate mp') = rd_additional_references (mp_reference_delegate mp)"
    using assms by (simp add: same_store_def)
  show w: "written mp' = written mp" by (simp add: written_def parts)
  show "referenced mp' = referenced mp" by (simp add: referenced_def targeted_def w parts refs)
  show "store_ok mp' = store_ok mp" by (simp add: store_ok_def mp_ok_def batches_ok_def parents_ok_def parts w refs)
qed

lemma read_ok_Remove:
  assumes "rc_ok rc" "read_ok rc" shows "read_ok (rc_Remove k rc)"
proof -
  have "dm_ok (rc_docs rc)" using assms(1) by (simp add: rc_ok_def)
  then have "dm_get k' (rc_docs (rc_Remove k rc)) = (if k' = k then None else dm_get k' (rc_docs rc))" for k'
    by (simp add: rc_Remove_def dm_get_erase)
  then show ?thesis using assms(2) by (simp add: read_ok_def read_after_def rc_Get_def)
qed

lemma read_ok_orphans:
  "mp_ok mp \<Longrightarrow> read_ok (mp_remote_document_cache mp) \<Longrightarrow>
   read_ok (mp_remote_document_cache (foldl remove_orphan mp ks))"
proof (induction ks arbitrary: mp)
  case (Cons k ks)
  have "mp_ok (remove_orphan mp k)" using remove_orphan_fold[OF Cons.prems(1), of "[k]"] by simp
  moreover have "rc_ok (mp_remote_document_cache mp)" using Cons.prems(1) by (simp add: mp_ok_def)
  then have "read_ok (mp_remote_document_cache (remove_orphan mp k))"
    using Cons.prems(2) by (simp add: remove_orphan_def read_ok_Remove)
  ultimately show ?case using Cons.IH by simp
qed simp

text \<open>What a commit does: the orphaned documents that nothing references are gone.\<close>

definition committed :: "MemoryPersistence \<Rightarrow> MemoryPersistence \<Rightarrow> bool" where
  "committed mp mp' =
     (mp_mutation_queues mp' = mp_mutation_queues mp \<and> mp_target_cache mp' = mp_target_cache mp \<and>
      mp_index_manager mp' = mp_index_manager mp \<and>
      rd_additional_references (mp_reference_delegate mp') = rd_additional_references (mp_reference_delegate mp) \<and>
      is_eager (mp_reference_delegate mp') = is_eager (mp_reference_delegate mp) \<and>
      (\<forall>k. rc_Get k (mp_remote_document_cache mp') =
        (if k \<in> rd_orphaned (mp_reference_delegate mp) \<and> k \<notin> referenced mp then None
         else rc_Get k (mp_remote_document_cache mp))))"

lemma commit_ok:
  assumes "store_ok mp" "rd_open (mp_reference_delegate mp)"
  shows "\<exists>mp'. OnTransactionCommitted mp = Inr mp' \<and> store_ok mp' \<and> committed mp mp'"
proof (cases "mp_reference_delegate mp")
  case (Eager d)
  then obtain orphaned where o: "ed_orphaned d = Some orphaned" using assms(2) by auto
  have ok: "mp_ok mp" "batches_ok mp" "parents_ok mp" "read_ok (mp_remote_document_cache mp)"
    using assms(1) by (simp_all add: store_ok_def)
  obtain mp' where mp': "OnTransactionCommitted mp = Inr mp'" "mp_ok mp'"
      "\<And>k. rc_Get k (mp_remote_document_cache mp') =
        (if k \<in> set orphaned \<and> k \<notin> referenced mp then None else rc_Get k (mp_remote_document_cache mp))"
      "mp_mutation_queues mp' = mp_mutation_queues mp" "mp_target_cache mp' = mp_target_cache mp"
      "mp_index_manager mp' = mp_index_manager mp" "mp_reference_delegate mp' = Eager (d\<lparr>ed_orphaned := None\<rparr>)"
    using eager_commit[OF ok(1) Eager o] by blast
  have "read_ok (mp_remote_document_cache mp')"
    using mp'(1) read_ok_orphans[OF ok(1,4), of orphaned] by (auto simp: OnTransactionCommitted_def Eager o Let_def)
  moreover have "written mp' = written mp" by (simp add: written_def mp'(4))
  ultimately have "store_ok mp'"
    using ok mp'(2,3) by (auto simp: store_ok_def batches_ok_def parents_ok_def mp'(4,6) split: if_splits)
  then show ?thesis using mp' by (simp add: committed_def Eager o)
next
  case (Lru d)
  define mp' where "mp' = mp\<lparr>mp_reference_delegate := Lru (d\<lparr>ld_current_sequence_number := kListenSequenceNumberInvalid\<rparr>)\<rparr>"
  have "same_store mp mp'" by (simp add: same_store_def mp'_def Lru)
  moreover have "committed mp mp'" by (simp add: committed_def mp'_def Lru)
  moreover have "OnTransactionCommitted mp = Inr mp'" by (simp add: OnTransactionCommitted_def Lru mp'_def)
  ultimately show ?thesis using same_store_ok(1) assms(1) by blast
qed

text \<open>
  What the operations on documents and batches leave alone: everything about targets, and the references
  of the views.
\<close>

definition framed :: "LocalStore \<Rightarrow> LocalStore \<Rightarrow> bool" where
  "framed ls ls' =
     (ls_user ls' = ls_user ls \<and> ls_target_id_generator ls' = ls_target_id_generator ls \<and>
      ls_target_data_by_target ls' = ls_target_data_by_target ls \<and> ls_target_id_by_target ls' = ls_target_id_by_target ls \<and>
      mp_target_cache (ls_persistence ls') = mp_target_cache (ls_persistence ls) \<and>
      rd_additional_references (ls_delegate ls') = rd_additional_references (ls_delegate ls) \<and>
      is_eager (ls_delegate ls') = is_eager (ls_delegate ls))"

lemma framed_trans: "framed a b \<Longrightarrow> framed b c \<Longrightarrow> framed a c"
  by (simp add: framed_def)

lemma framed_refl [simp]: "framed a a"
  by (simp add: framed_def)

lemma framed_ok: "ls_ok ls \<Longrightarrow> framed ls ls' \<Longrightarrow> store_ok (ls_persistence ls') \<Longrightarrow> ls_ok ls'"
  by (simp add: ls_ok_def live_ok_def generator_ok_def framed_def)

text \<open>The store as the block of a transaction finds it, and as the transaction leaves it.\<close>

definition opened :: "LocalStore \<Rightarrow> LocalStore \<Rightarrow> bool" where
  "opened ls ls1 = (framed ls ls1 \<and> same_store (ls_persistence ls) (ls_persistence ls1) \<and>
     rd_open (ls_delegate ls1) \<and> rd_orphaned (ls_delegate ls1) = {})"

definition closed :: "LocalStore \<Rightarrow> LocalStore \<Rightarrow> bool" where
  "closed ls2 ls' = (framed ls2 ls' \<and> committed (ls_persistence ls2) (ls_persistence ls'))"

theorem ls_Run_ok:
  assumes "ls_ok ls" "rd_ready (ls_delegate ls)"
    and block: "\<And>ls1. opened ls ls1 \<Longrightarrow> ls_ok ls1 \<Longrightarrow>
      \<exists>a ls2. block ls1 = Inr (a, ls2) \<and> ls_ok ls2 \<and> rd_open (ls_delegate ls2) \<and> Q ls1 a ls2"
  shows "\<exists>ls1 a ls2 ls'. ls_Run block ls = Inr (a, ls') \<and> opened ls ls1 \<and> ls_ok ls1 \<and> ls_ok ls2 \<and> Q ls1 a ls2 \<and>
    closed ls2 ls' \<and> ls_ok ls'"
proof -
  define ls1 where "ls1 = ls\<lparr>ls_persistence := OnTransactionStarted (ls_persistence ls)\<rparr>"
  note start = OnTransactionStarted_ok[OF assms(2)[unfolded ls_delegate_def]]
  have same: "same_store (ls_persistence ls) (OnTransactionStarted (ls_persistence ls))" using start by blast
  have f1: "framed ls ls1" by (simp add: framed_def ls1_def ls_delegate_def same_store_mp[OF same] same_store_refs[OF same])
  have o: "opened ls ls1" using start f1 by (simp add: opened_def ls1_def ls_delegate_def)
  have ok1: "ls_ok ls1"
    using framed_ok[OF assms(1) f1] same_store_ok[OF same] assms(1) by (simp add: ls1_def ls_ok_def)
  obtain a ls2 where b: "block ls1 = Inr (a, ls2)" "ls_ok ls2" "rd_open (ls_delegate ls2)" "Q ls1 a ls2"
    using block[OF o ok1] by blast
  have "store_ok (ls_persistence ls2)" using b(2) by (simp add: ls_ok_def)
  then obtain mp' where mp': "OnTransactionCommitted (ls_persistence ls2) = Inr mp'" "store_ok mp'"
      "committed (ls_persistence ls2) mp'"
    using commit_ok b(3) by (auto simp: ls_delegate_def)
  have c: "closed ls2 (ls2\<lparr>ls_persistence := mp'\<rparr>)"
    using mp'(3) by (simp add: closed_def framed_def ls_delegate_def committed_def)
  moreover have "ls_ok (ls2\<lparr>ls_persistence := mp'\<rparr>)"
    using mp'(2) b(2) c by (intro framed_ok[OF b(2)]) (simp_all add: closed_def)
  moreover have "ls_Run block ls = Inr (a, ls2\<lparr>ls_persistence := mp'\<rparr>)"
    by (simp add: ls_Run_def ls1_def[symmetric] b(1) mp'(1))
  ultimately show ?thesis using o ok1 b(2,4) by blast
qed

lemma ls_Run_rule:
  assumes "ls_ok ls" "rd_ready (ls_delegate ls)"
    and "\<And>ls1. opened ls ls1 \<Longrightarrow> ls_ok ls1 \<Longrightarrow>
      \<exists>a ls2. block ls1 = Inr (a, ls2) \<and> ls_ok ls2 \<and> rd_open (ls_delegate ls2) \<and>
        (\<forall>ls'. closed ls2 ls' \<longrightarrow> ls_ok ls' \<longrightarrow> P a ls')"
  shows "\<exists>a ls'. ls_Run block ls = Inr (a, ls') \<and> P a ls'"
  using ls_Run_ok[OF assms(1,2), of block "\<lambda>_ a ls2. \<forall>ls'. closed ls2 ls' \<longrightarrow> ls_ok ls' \<longrightarrow> P a ls'"] assms(3) by blast

lemma opened_parts:
  assumes "opened ls ls1"
  shows "framed ls ls1" "remote ls1 = remote ls" "ls_queue ls1 = ls_queue ls" "rd_open (ls_delegate ls1)"
    "rd_orphaned (ls_delegate ls1) = {}" "referenced (ls_persistence ls1) = referenced (ls_persistence ls)"
    "local_documents ls1 = local_documents ls" "mp_index_manager (ls_persistence ls1) = mp_index_manager (ls_persistence ls)"
    "mp_mutation_queues (ls_persistence ls1) = mp_mutation_queues (ls_persistence ls)"
proof -
  have same: "same_store (ls_persistence ls) (ls_persistence ls1)" using assms by (simp add: opened_def)
  show f: "framed ls ls1" "rd_open (ls_delegate ls1)" "rd_orphaned (ls_delegate ls1) = {}"
    using assms by (simp_all add: opened_def)
  then have u: "ls_user ls1 = ls_user ls" by (simp add: framed_def)
  show "remote ls1 = remote ls" "referenced (ls_persistence ls1) = referenced (ls_persistence ls)"
    "mp_index_manager (ls_persistence ls1) = mp_index_manager (ls_persistence ls)"
    "mp_mutation_queues (ls_persistence ls1) = mp_mutation_queues (ls_persistence ls)"
    by (simp_all add: remote_def same_store_mp[OF same] same_store_ok[OF same] fun_eq_iff)
  show q: "ls_queue ls1 = ls_queue ls" by (simp add: ls_queue_def queue_of_def same_store_mp[OF same] u)
  show "local_documents ls1 = local_documents ls" by (simp add: local_documents_def q same_store_mp[OF same])
qed

lemma closed_parts:
  assumes "closed ls2 ls'"
  shows "framed ls2 ls'" "ls_queue ls' = ls_queue ls2"
    "remote ls' k = (if k \<in> rd_orphaned (ls_delegate ls2) \<and> k \<notin> referenced (ls_persistence ls2) then None else remote ls2 k)"
    "mp_index_manager (ls_persistence ls') = mp_index_manager (ls_persistence ls2)"
    "mp_mutation_queues (ls_persistence ls') = mp_mutation_queues (ls_persistence ls2)"
    "referenced (ls_persistence ls') = referenced (ls_persistence ls2)"
  using assms
  by (auto simp: remote_def closed_def framed_def committed_def ls_queue_def queue_of_def ls_delegate_def referenced_def targeted_def written_def)

section \<open>The mutation queue of the user\<close>

lemma queue_batches:
  assumes "b \<in> set (mq_queue (queue_of u mp))"
  shows "\<exists>e \<in> set (mp_mutation_queues mp). b \<in> set (mq_queue (snd e))"
proof (cases "um_find User_eq u (mp_mutation_queues mp)")
  case (Some q)
  then have "b \<in> set (mq_queue q)" using assms by (simp add: queue_of_def)
  then show ?thesis using um_find_Some[OF Some] by force
qed (use assms in \<open>simp add: queue_of_def make_MutationQueue_def\<close>)

lemma queue_batches_ok:
  assumes "store_ok mp" "b \<in> set (mq_queue (queue_of u mp))"
  shows "batch_ok b" "base_in_batch b" "writes k b \<Longrightarrow> k \<in> written mp"
  using queue_batches[OF assms(2)] assms(1) by (auto simp: store_ok_def batches_ok_def written_def)

lemma ls_queue_ok: "ls_ok ls \<Longrightarrow> mq_ok (ls_queue ls)"
  by (simp add: ls_ok_def store_ok_def ls_queue_def queue_of_ok)

lemma set_queue_store_ok:
  assumes "store_ok mp" "mq_ok q"
    and "\<And>b. b \<in> set (mq_queue q) \<Longrightarrow> batch_ok b \<and> base_in_batch b \<and> (\<forall>k. writes k b \<longrightarrow> butlast k \<in> im_collections (mp_index_manager mp))"
  shows "store_ok (set_queue u q mp)"
proof -
  have entries: "e \<in> set (mp_mutation_queues mp) \<or> snd e = q"
    if "e \<in> set (mp_mutation_queues (set_queue u q mp))" for e
    using set_um_put[of e User_eq u q] that by (auto simp: set_queue_def)
  then have "batches_ok (set_queue u q mp)"
    using assms(1,3) by (fastforce simp: batches_ok_def store_ok_def)
  moreover have "k \<in> written mp \<or> butlast k \<in> im_collections (mp_index_manager mp)" if "k \<in> written (set_queue u q mp)" for k
    using that entries assms(3) by (fastforce simp: written_def)
  ultimately show ?thesis
    using assms(1) set_queue_ok[of mp q u] assms(2) by (auto simp: store_ok_def parents_ok_def)
qed

lemma local_documents_ok:
  assumes "ls_ok ls" shows "ldv_ok (local_documents ls)" "index_complete (local_documents ls)"
proof -
  have s: "store_ok (ls_persistence ls)" using assms by (simp add: ls_ok_def)
  show "ldv_ok (local_documents ls)"
    using s ls_queue_ok[OF assms] queue_batches_ok(1,2)[OF s]
    by (simp add: ldv_ok_def local_documents_def store_ok_def mp_ok_def ls_queue_def)
  show "index_complete (local_documents ls)"
    using s queue_batches_ok(3)[OF s]
    by (auto simp: index_complete_def local_documents_def store_ok_def parents_ok_def ls_queue_def)
qed

lemma local_view_eq: "local_view (local_documents ls) k = apply_batches k (pending ls) (remote ls k)"
  by (simp add: local_view_def local_documents_def remote_def)

lemma remote_matches: "ls_ok ls \<Longrightarrow> VerifyKeyMatches k (remote ls k)"
  by (simp add: ls_ok_def store_ok_def mp_ok_def rc_Get_matches remote_def)

lemma store_ok_delegate:
  "store_ok mp \<Longrightarrow> rd_additional_references rd = rd_additional_references (mp_reference_delegate mp) \<Longrightarrow>
   store_ok (mp\<lparr>mp_reference_delegate := rd\<rparr>)"
  by (simp add: store_ok_def mp_ok_def batches_ok_def parents_ok_def written_def)

lemma set_ls_queue_parts [simp]:
  "ls_queue (set_ls_queue q ls) = q" "remote (set_ls_queue q ls) k = remote ls k" "ls_delegate (set_ls_queue q ls) = ls_delegate ls"
  "framed ls (set_ls_queue q ls)" "mp_index_manager (ls_persistence (set_ls_queue q ls)) = mp_index_manager (ls_persistence ls)"
  by (simp_all add: ls_queue_def set_ls_queue_def ls_delegate_def framed_def remote_def)

lemma set_ls_delegate_parts [simp]:
  "ls_queue (set_ls_delegate rd ls) = ls_queue ls" "remote (set_ls_delegate rd ls) k = remote ls k"
  "ls_delegate (set_ls_delegate rd ls) = rd"
  "mp_index_manager (ls_persistence (set_ls_delegate rd ls)) = mp_index_manager (ls_persistence ls)"
  "mp_target_cache (ls_persistence (set_ls_delegate rd ls)) = mp_target_cache (ls_persistence ls)"
  by (simp_all add: ls_queue_def set_ls_delegate_def ls_delegate_def queue_of_def remote_def)

lemma framed_delegate: "rd_same (ls_delegate ls) rd \<Longrightarrow> framed ls (set_ls_delegate rd ls)"
  by (simp add: framed_def set_ls_delegate_def ls_delegate_def rd_same_def)

lemma set_ls_queue_ok:
  assumes "ls_ok ls" "mq_ok q"
    and "\<And>b. b \<in> set (mq_queue q) \<Longrightarrow>
      batch_ok b \<and> base_in_batch b \<and> (\<forall>k. writes k b \<longrightarrow> butlast k \<in> im_collections (mp_index_manager (ls_persistence ls)))"
  shows "ls_ok (set_ls_queue q ls)"
proof (rule framed_ok[OF assms(1)])
  show "store_ok (ls_persistence (set_ls_queue q ls))"
    using set_queue_store_ok assms by (simp add: set_ls_queue_def ls_ok_def)
qed simp

lemma set_ls_delegate_ok: "ls_ok ls \<Longrightarrow> rd_same (ls_delegate ls) rd \<Longrightarrow> ls_ok (set_ls_delegate rd ls)"
  using framed_ok[OF _ framed_delegate] store_ok_delegate
  by (simp add: set_ls_delegate_def rd_same_def ls_delegate_def ls_ok_def)

lemma pending_ok:
  assumes "ls_ok ls" "b \<in> set (pending ls)"
  shows "batch_ok b" "base_in_batch b" "writes k b \<Longrightarrow> butlast k \<in> im_collections (mp_index_manager (ls_persistence ls))"
    "writes k b \<Longrightarrow> k \<in> written (ls_persistence ls)"
proof -
  have s: "store_ok (ls_persistence ls)" using assms(1) by (simp add: ls_ok_def)
  note b = queue_batches_ok[OF s assms(2)[unfolded ls_queue_def]]
  show "batch_ok b" "base_in_batch b" "writes k b \<Longrightarrow> k \<in> written (ls_persistence ls)" by (rule b, assumption?)+
  then show "writes k b \<Longrightarrow> butlast k \<in> im_collections (mp_index_manager (ls_persistence ls))"
    using s by (simp add: store_ok_def parents_ok_def)
qed

text \<open>Removing the first batch of the queue may orphan the documents it wrote.\<close>

lemma RemoveBatch_ok:
  assumes "ls_ok ls" "pending ls = b # rest" "rd_open (ls_delegate ls)"
  shows "\<exists>ls'. RemoveBatch b ls = Inr ls' \<and> ls_ok ls' \<and> framed ls ls' \<and> pending ls' = rest \<and>
    mq_next_batch_id (ls_queue ls') = mq_next_batch_id (ls_queue ls) \<and>
    mq_last_stream_token (ls_queue ls') = mq_last_stream_token (ls_queue ls) \<and> remote ls' = remote ls \<and>
    rd_open (ls_delegate ls') \<and>
    rd_orphaned (ls_delegate ls') = rd_orphaned (ls_delegate ls) \<union> (if is_eager (ls_delegate ls) then set (Batch_keys b) else {})"
proof -
  obtain q rd where r: "mq_RemoveMutationBatch b (ls_queue ls, ls_delegate ls) = Inr (q, rd)" "mq_ok q" "mq_queue q = rest"
      "mq_next_batch_id q = mq_next_batch_id (ls_queue ls)" "mq_last_stream_token q = mq_last_stream_token (ls_queue ls)"
      "rd_same (ls_delegate ls) rd"
      "rd_orphaned rd = rd_orphaned (ls_delegate ls) \<union> (if is_eager (ls_delegate ls) then set (Batch_keys b) else {})"
    using RemoveMutationBatch_ok[OF ls_queue_ok[OF assms(1)] assms(2,3)] by blast
  have q: "ls_ok (set_ls_queue q ls)"
    using r(2,3) pending_ok[OF assms(1)] assms(2) by (intro set_ls_queue_ok[OF assms(1)]) auto
  have rd: "ls_ok (set_ls_delegate rd (set_ls_queue q ls))" by (rule set_ls_delegate_ok[OF q]) (simp add: r(6))
  have f: "framed ls (set_ls_delegate rd (set_ls_queue q ls))"
    by (rule framed_trans[OF _ framed_delegate]) (simp_all add: r(6))
  have "remote (set_ls_delegate rd (set_ls_queue q ls)) = remote ls" by (intro ext) simp
  moreover have "rd_open rd" using r(6) assms(3) by (simp add: rd_same_def)
  ultimately show ?thesis using r rd f by (simp add: RemoveBatch_def)
qed

text \<open>The documents an operation returns are the local views of its keys.\<close>

definition views_of :: "DocumentKey set \<Rightarrow> LocalStore \<Rightarrow> MaybeDocumentMap \<Rightarrow> bool" where
  "views_of ks ls docs = (dm_ok docs \<and>
     (\<forall>k. if k \<in> ks then \<exists>d. apply_batches k (pending ls) (remote ls k) = Inr d \<and> dm_get k docs = Some (doc_or_missing k d)
          else dm_get k docs = None))"

lemma GetDocuments_views:
  assumes "ls_ok ls" shows "\<exists>docs. ldv_GetDocuments ks (local_documents ls) = Inr docs \<and> views_of (set ks) ls docs"
  using GetDocuments_ok[OF local_documents_ok(1)[OF assms], of ks] unfolding views_of_def local_view_eq by blast

section \<open>Rejecting a batch\<close>

theorem RejectBatch_ok:
  assumes "ls_ok ls" "rd_ready (ls_delegate ls)" "pending ls = b # rest"
  shows "\<exists>docs ls'. RejectBatch (mb_batch_id b) ls = Inr (docs, ls') \<and> ls_ok ls' \<and> framed ls ls' \<and> pending ls' = rest \<and>
    mq_next_batch_id (ls_queue ls') = mq_next_batch_id (ls_queue ls) \<and>
    (\<exists>ls2. pending ls2 = rest \<and> remote ls2 = remote ls \<and> views_of (set (Batch_keys b)) ls2 docs) \<and>
    (\<forall>k. remote ls' k = (if is_eager (ls_delegate ls) \<and> k \<in> set (Batch_keys b) \<and> k \<notin> referenced (ls_persistence ls')
      then None else remote ls k))"
  unfolding RejectBatch_def
proof (rule ls_Run_rule[OF assms(1,2)], goal_cases)
  case (1 ls1)
  note o = opened_parts[OF 1(1)]
  have p: "pending ls1 = b # rest" by (simp add: o(3) assms(3))
  have lookup: "LookupMutationBatch (mb_batch_id b) (ls_queue ls1) = Inr (Some b)"
    by (rule lookup_in_queue[OF ls_queue_ok[OF 1(2)]]) (simp add: p)
  obtain ls2 where r: "RemoveBatch b ls1 = Inr ls2" "ls_ok ls2" "framed ls1 ls2" "pending ls2 = rest"
      "mq_next_batch_id (ls_queue ls2) = mq_next_batch_id (ls_queue ls1)" "remote ls2 = remote ls1" "rd_open (ls_delegate ls2)"
      "rd_orphaned (ls_delegate ls2) = (if is_eager (ls_delegate ls1) then set (Batch_keys b) else {})"
    using RemoveBatch_ok[OF 1(2) p o(4)] by (auto simp: o(5))
  obtain docs where docs: "ldv_GetDocuments (Batch_keys b) (local_documents ls2) = Inr docs" "views_of (set (Batch_keys b)) ls2 docs"
    using GetDocuments_views[OF r(2)] by blast
  have "framed ls ls'" if "closed ls2 ls'" for ls'
    using framed_trans[OF framed_trans[OF o(1) r(3)] closed_parts(1)[OF that]] .
  moreover have "is_eager (ls_delegate ls1) = is_eager (ls_delegate ls)" using o(1) by (simp add: framed_def)
  ultimately show ?case
    using r docs PerformConsistencyCheck_ok[OF ls_queue_ok[OF r(2)]]
    by (intro exI[of _ docs] exI[of _ ls2] conjI allI impI)
      (simp_all add: lookup closed_parts, simp_all add: o)
qed

section \<open>A new store\<close>

lemma new_generator: "TargetCacheTargetIdGenerator 0 = Inr \<lparr>tig_generator_id = GenTargetCache, tig_next_id = 2\<rparr>"
  by (simp add: TargetCacheTargetIdGenerator_def seek_TargetCache tig_NextId_def kReservedBits_def)

theorem make_LocalStore_ok:
  assumes "rd_additional_references rd = None"
  shows "\<exists>ls. make_LocalStore (make_MemoryPersistence rd) u = Inr ls \<and> ls_ok ls \<and> pending ls = [] \<and>
    mq_next_batch_id (ls_queue ls) = 1 \<and> remote ls = (\<lambda>k. None) \<and> ls_delegate ls = rd_AddInMemoryPins rs_new rd"
proof -
  define mp where "mp = mp_GetMutationQueueForUser u (make_MemoryPersistence rd)"
  define mp' where "mp' = mp\<lparr>mp_reference_delegate := rd_AddInMemoryPins rs_new (mp_reference_delegate mp)\<rparr>"
  define ls where "ls = \<lparr>ls_persistence = mp', ls_user = u, ls_target_id_generator = \<lparr>tig_generator_id = GenTargetCache, tig_next_id = 2\<rparr>,
      ls_target_data_by_target = [], ls_target_id_by_target = []\<rparr>"
  have mp: "mp = (make_MemoryPersistence rd)\<lparr>mp_mutation_queues := [(u, make_MutationQueue)]\<rparr>"
    by (simp add: mp_def mp_GetMutationQueueForUser_def make_MemoryPersistence_def)
  have refs: "rd_additional_references (rd_AddInMemoryPins rs_new rd) = Some rs_new" by (cases rd) simp_all
  have "im_collections \<lparr>im_collection_parents_index = []\<rparr> = {}"
    by (simp add: im_collections_def GetCollectionParents_def GetEntries_def um_find_def)
  then have "store_ok mp'"
    by (simp add: mp'_def mp store_ok_def mp_ok_def make_MemoryPersistence_def batches_ok_def parents_ok_def written_def refs
        refs_ok_def read_ok_def) (simp add: make_MutationQueue_def)
  moreover have "ids_unique (mp_target_cache mp')" by (simp add: mp'_def mp make_MemoryPersistence_def ids_unique_def) (simp add: make_TargetCache_def)
  ultimately have "ls_ok ls"
    by (simp add: ls_ok_def ls_def live_ok_def generator_ok_def ls_delegate_def mp'_def mp make_MemoryPersistence_def refs make_TargetCache_def)
  moreover have "make_LocalStore (make_MemoryPersistence rd) u = Inr ls"
    by (simp add: make_LocalStore_def Let_def new_generator ls_def mp'_def mp_def)
  moreover have "User_eq u u" by (simp add: User_eq_def)
  then have "ls_queue ls = make_MutationQueue" by (simp add: ls_queue_def ls_def mp'_def mp queue_of_def)
  ultimately show ?thesis
    by (intro exI[of _ ls])
      (simp add: ls_def mp'_def mp remote_def fun_eq_iff make_MemoryPersistence_def make_MutationQueue_def ls_delegate_def)
qed

end
