(* ===== verification/LocalStoreWrites.thy ===== *)
theory LocalStoreWrites
  imports LocalStoreProofs
begin

text \<open>
  Writes: \<open>WriteLocally\<close> appends its batch to the queue of the user and returns the local views of the keys
  it wrote; \<open>AcknowledgeBatch\<close> moves the effect of the first batch into the remote documents.
\<close>

section \<open>A missing document and a deleted one\<close>

lemma missing_Mutation:
  assumes "mut_key m = k" "\<And>p. maybe_field b' p = maybe_field b p" "VerifyKeyMatches k d"
  shows "Mutation_ApplyToLocalView m (Some (doc_or_missing k d)) b' t =
    rmap (\<lambda>d'. Some (doc_or_missing k d')) (Mutation_ApplyToLocalView m d b t)"
proof (cases d)
  case None
  have v: "IsValidFor p (Some (NoDocument k SnapshotVersion_None False)) = IsValidFor p None" for p
    by (simp add: IsValidFor_def is_document_def split: PreconditionType.split)
  show ?thesis
    using assms(1) None
    by (cases m) (auto simp: doc_or_missing_def VerifyKeyMatches_def v GetPostMutationVersion_def is_document_def PatchDocument_def
        rmap_def split: sum.split)
next
  case (Some x)
  have l: "LocalTransformResults ts d b' t = LocalTransformResults ts d b t" for ts
    by (simp add: LocalTransformResults_def assms(2) cong: if_cong)
  show ?thesis
  proof (cases m)
    case (TransformMutation key ts)
    show ?thesis using Some l[of ts, unfolded Some]
      by (auto simp: TransformMutation doc_or_missing_def rmap_def rbind_def hard_assert_def split: sum.splits MaybeDocument.splits)
  qed (auto simp: Some doc_or_missing_def rmap_def hard_assert_def split: sum.split)
qed

lemma maybe_field_missing: "VerifyKeyMatches k d \<Longrightarrow> maybe_field (Some (doc_or_missing k d)) p = maybe_field d p"
  by (simp add: maybe_field_def doc_or_missing_def is_document_def split: option.split)

lemma VerifyKey_missing: "VerifyKeyMatches k d \<Longrightarrow> VerifyKeyMatches k (Some (doc_or_missing k d))"
  by (simp add: VerifyKeyMatches_def doc_or_missing_def split: option.splits)

lemma missing_steps:
  assumes "\<forall>m \<in> set ms. mutation_ok m" "VerifyKeyMatches k d"
    and "\<And>d p. VerifyKeyMatches k d \<Longrightarrow> maybe_field (base' (Some (doc_or_missing k d))) p = maybe_field (base d) p"
  shows "rfold (local_step k base' t) (Some (doc_or_missing k d)) ms =
    rmap (\<lambda>d'. Some (doc_or_missing k d')) (rfold (local_step k base t) d ms)"
  using assms(1,2)
proof (induction ms arbitrary: d)
  case (Cons m ms)
  obtain e where e: "local_step k base t d m = Inr e" "VerifyKeyMatches k e"
    using local_step_total[of "[m]" k d base t] Cons.prems by (auto split: sum.splits)
  have "local_step k base' t (Some (doc_or_missing k d)) m = rmap (\<lambda>d'. Some (doc_or_missing k d')) (local_step k base t d m)"
    using missing_Mutation[OF _ assms(3) Cons.prems(2), of m d] Cons.prems(2) by (simp add: local_step_def)
  then show ?case using Cons.IH[OF _ e(2)] Cons.prems(1) by (simp add: e(1))
qed simp

text \<open>
  The view of the documents shows a missing document as a deleted one; applying a batch to either gives
  the same.
\<close>

lemma missing_Batch:
  assumes "batch_ok b" "VerifyKeyMatches k d"
  shows "Batch_ApplyToLocalDocument b (Some (doc_or_missing k d)) k =
    rmap (\<lambda>d'. Some (doc_or_missing k d')) (Batch_ApplyToLocalDocument b d k)"
proof -
  have ms: "\<forall>m \<in> set (mb_base_mutations b). mutation_ok m" "\<forall>m \<in> set (mb_mutations b). mutation_ok m"
    using assms(1) by (auto simp: batch_ok_def)
  obtain e where e: "rfold (local_step k (\<lambda>d. d) (mb_local_write_time b)) d (mb_base_mutations b) = Inr e" "VerifyKeyMatches k e"
    using local_step_total[OF ms(1) assms(2)] by blast
  have "rfold (local_step k (\<lambda>d. d) (mb_local_write_time b)) (Some (doc_or_missing k d)) (mb_base_mutations b) =
      Inr (Some (doc_or_missing k e))"
    using missing_steps[OF ms(1) assms(2), of "\<lambda>d. d" "\<lambda>d. d"] by (simp add: e(1) maybe_field_missing)
  moreover have "rfold (local_step k (\<lambda>_. Some (doc_or_missing k e)) (mb_local_write_time b)) (Some (doc_or_missing k e)) (mb_mutations b) =
      rmap (\<lambda>d'. Some (doc_or_missing k d')) (rfold (local_step k (\<lambda>_. e) (mb_local_write_time b)) e (mb_mutations b))"
    using e(2) by (intro missing_steps[OF ms(2)]) (simp_all add: maybe_field_missing)
  ultimately show ?thesis
    using assms(2) e(1) VerifyKey_missing by (simp add: Batch_ApplyToLocalDocument_def)
qed

lemma Batch_set_total:
  assumes "batch_ok b" "dm_ok docs" "\<And>k. VerifyKeyMatches k (dm_get k docs)"
  shows "\<exists>docs'. Batch_ApplyToLocalDocumentSet b docs = Inr docs' \<and> dm_ok docs'"
proof -
  have "\<exists>docs'. local_set_step b docs m = Inr docs' \<and> dm_ok docs' \<and> (\<forall>k. VerifyKeyMatches k (dm_get k docs'))"
    if "dm_ok docs \<and> (\<forall>k. VerifyKeyMatches k (dm_get k docs))" for docs :: MaybeDocumentMap and m
  proof -
    note inv = that
    obtain d where d: "Batch_ApplyToLocalDocument b (dm_get (mut_key m) docs) (mut_key m) = Inr d" "VerifyKeyMatches (mut_key m) d"
      using Batch_local_total[OF assms(1), of "mut_key m" "dm_get (mut_key m) docs"] inv by blast
    then show ?thesis using inv by (cases d) (auto simp: local_set_step_def VerifyKeyMatches_def)
  qed
  then show ?thesis
    using rfold_total[of "\<lambda>docs. dm_ok docs \<and> (\<forall>k. VerifyKeyMatches k (dm_get k docs))" "mb_mutations b" "local_set_step b" docs]
      assms(2,3) by (auto simp: Batch_ApplyToLocalDocumentSet_def)
qed

section \<open>The base of a batch\<close>

lemma ExtractBaseValue_total: "mutation_ok m \<Longrightarrow> \<exists>v. ExtractBaseValue m d = Inr v"
proof (cases m)
  case (TransformMutation k ts)
  assume "mutation_ok m"
  then have paths: "ft_path t \<noteq> []" if "t \<in> set ts" for t using that by (simp add: TransformMutation)
  have "\<exists>s'. ExtractBaseValue_step d s t = Inr s' \<and> True" if "t \<in> set ts" for s t
  proof (cases "Transform_ComputeBaseValue (ft_transformation t) (maybe_field d (ft_path t))")
    case (Some v)
    show ?thesis
      using ObjectValue_Set_total[OF paths[OF that], of v "case s of None \<Rightarrow> [] | Some b \<Rightarrow> b"]
      by (auto simp: ExtractBaseValue_step_def Some)
  qed (simp add: ExtractBaseValue_step_def)
  then show ?thesis using rfold_total[of "\<lambda>_. True" ts "ExtractBaseValue_step d" None] by (auto simp: TransformMutation)
qed simp_all

lemma base_mutations_ok:
  assumes "\<forall>m \<in> set ms. mutation_ok m"
  shows "\<exists>base. rfold (base_mutation_step docs) [] ms = Inr base \<and>
    (\<forall>m \<in> set base. mutation_ok m \<and> mut_key m \<in> mut_key ` set ms)"
proof -
  have "\<exists>base'. base_mutation_step docs base m = Inr base' \<and> (\<forall>m \<in> set base'. mutation_ok m \<and> mut_key m \<in> mut_key ` set ms)"
    if "\<forall>m \<in> set base. mutation_ok m \<and> mut_key m \<in> mut_key ` set ms" "m \<in> set ms" for base m
  proof -
    note inv = that
    obtain v where "ExtractBaseValue m (dm_get (mut_key m) docs) = Inr v"
      using ExtractBaseValue_total inv(2) assms by blast
    then show ?thesis using inv by (cases v) (auto simp: base_mutation_step_def)
  qed
  then show ?thesis
    using rfold_total[of "\<lambda>base. \<forall>m \<in> set base. mutation_ok m \<and> mut_key m \<in> mut_key ` set ms" ms "base_mutation_step docs" "[]"]
    by auto
qed

lemma set_keys_of: "set (foldl (\<lambda>keys m. dks_insert (mut_key m) keys) ks ms) = set ks \<union> mut_key ` set ms"
  by (induction ms arbitrary: ks) (auto simp: dks_insert_def)

section \<open>Writing\<close>

lemma written_index: "written (mp\<lparr>mp_index_manager := im\<rparr>) = written mp"
  by (simp add: written_def)

lemma set_index_ok:
  assumes "ls_ok ls" "im_ok im" "im_collections (mp_index_manager (ls_persistence ls)) \<subseteq> im_collections im"
    "\<forall>p \<in> im_collections im. length p mod 2 = 1"
  shows "ls_ok (ls\<lparr>ls_persistence := (ls_persistence ls)\<lparr>mp_index_manager := im\<rparr>\<rparr>)"
proof (rule framed_ok[OF assms(1)])
  show "framed ls (ls\<lparr>ls_persistence := (ls_persistence ls)\<lparr>mp_index_manager := im\<rparr>\<rparr>)"
    by (simp add: framed_def ls_delegate_def)
  show "store_ok (ls_persistence (ls\<lparr>ls_persistence := (ls_persistence ls)\<lparr>mp_index_manager := im\<rparr>\<rparr>))"
    using assms by (auto simp: ls_ok_def store_ok_def mp_ok_def batches_ok_def parents_ok_def written_index simp del: One_nat_def)
qed

lemma views_of_cong: "pending ls' = pending ls \<Longrightarrow> remote ls' = remote ls \<Longrightarrow> views_of ks ls' = views_of ks ls"
  by (intro ext) (simp add: views_of_def)

lemma views_of_get:
  assumes "views_of ks ls docs" "k \<in> ks"
  shows "\<exists>d. apply_batches k (pending ls) (remote ls k) = Inr d \<and> dm_get k docs = Some (doc_or_missing k d)"
proof -
  have "\<forall>k. if k \<in> ks then \<exists>d. apply_batches k (pending ls) (remote ls k) = Inr d \<and> dm_get k docs = Some (doc_or_missing k d)
      else dm_get k docs = None" using assms(1) unfolding views_of_def by blast
  from this[rule_format, of k] show ?thesis using assms(2) by simp
qed

lemma parent_odd: "key_ok k \<Longrightarrow> length (butlast k) mod 2 = 1"
  unfolding key_ok_def by (cases k rule: rev_cases) (simp, simp, presburger)

lemma views_match: "views_of ks ls docs \<Longrightarrow> ls_ok ls \<Longrightarrow> VerifyKeyMatches k (dm_get k docs)"
proof -
  assume v: "views_of ks ls docs" and ok: "ls_ok ls"
  show ?thesis
  proof (cases "k \<in> ks")
    case True
    then obtain d where d: "apply_batches k (pending ls) (remote ls k) = Inr d" "dm_get k docs = Some (doc_or_missing k d)"
      using views_of_get[OF v True] by blast
    have "VerifyKeyMatches k d"
      using apply_batches_total[of "pending ls" k "remote ls k"] pending_ok(1)[OF ok] remote_matches[OF ok] d(1) by auto
    then show ?thesis using d(2) VerifyKey_missing by simp
  next
    case False
    then have "dm_get k docs = None" using v by (simp add: views_of_def)
    then show ?thesis by (simp add: VerifyKeyMatches_def)
  qed
qed

lemma views_after_batch:
  assumes ok: "ls_ok ls" and v: "views_of (mut_key ` set (mb_mutations b)) ls docs" and b: "batch_ok b"
    and docs': "Batch_ApplyToLocalDocumentSet b docs = Inr docs'" "dm_ok docs'"
    and one: "distinct (map mut_key (mb_mutations b))"
    and ls': "pending ls' = pending ls @ [b]" "remote ls' = remote ls"
  shows "views_of (mut_key ` set (mb_mutations b)) ls' docs'"
proof -
  have "\<exists>d. apply_batches (mut_key m) (pending ls') (remote ls' (mut_key m)) = Inr d \<and>
      dm_get (mut_key m) docs' = Some (doc_or_missing (mut_key m) d)" if m: "m \<in> set (mb_mutations b)" for m
  proof -
    obtain d where d: "apply_batches (mut_key m) (pending ls) (remote ls (mut_key m)) = Inr d"
        "dm_get (mut_key m) docs = Some (doc_or_missing (mut_key m) d)"
      using views_of_get[OF v, of "mut_key m"] m by blast
    have match: "VerifyKeyMatches (mut_key m) d"
      using apply_batches_total[of "pending ls" "mut_key m" "remote ls (mut_key m)"] pending_ok(1)[OF ok] remote_matches[OF ok] d(1)
      by auto
    obtain e where e: "Batch_ApplyToLocalDocument b d (mut_key m) = Inr e" using Batch_local_total[OF b match] by blast
    have "dm_get (mut_key m) docs' = Some (doc_or_missing (mut_key m) e)"
      using Batch_local_set_pointwise_aux[OF one docs'(1)[unfolded Batch_ApplyToLocalDocumentSet_def] m]
        missing_Batch[OF b match] by (simp add: d(2) e)
    moreover have "apply_batches (mut_key m) (pending ls') (remote ls' (mut_key m)) = Inr e"
      using d(1) e by (simp add: apply_batches_def ls' rfold_append)
    ultimately show ?thesis by simp
  qed
  moreover have "dm_get k docs' = None" if "k \<notin> mut_key ` set (mb_mutations b)" for k
    using Batch_local_set_other[OF docs'(1), of k] that v by (simp add: set_Batch_keys views_of_def)
  ultimately show ?thesis using docs'(2) by (auto simp: views_of_def)
qed

definition writable :: "Mutation \<Rightarrow> bool" where
  "writable m = (key_ok (mut_key m) \<and> mutation_ok m)"

theorem WriteLocally_ok:
  assumes "ls_ok ls" "rd_ready (ls_delegate ls)" "ms \<noteq> []" "\<forall>m \<in> set ms. writable m"
    "sint (mq_next_batch_id (ls_queue ls)) < 2 ^ 31 - 1"
  shows "\<exists>res ls'. WriteLocally t ms ls = Inr (res, ls') \<and> ls_ok ls' \<and> framed ls ls' \<and> remote ls' = remote ls \<and>
    (\<exists>base. pending ls' = pending ls @
        [\<lparr>mb_batch_id = lwr_batch_id res, mb_local_write_time = t, mb_base_mutations = base, mb_mutations = ms\<rparr>]) \<and>
    lwr_batch_id res = mq_next_batch_id (ls_queue ls) \<and>
    (distinct (map mut_key ms) \<longrightarrow> views_of (mut_key ` set ms) ls' (lwr_changes res))"
  unfolding WriteLocally_def Let_def
proof (rule ls_Run_rule[OF assms(1,2)], goal_cases)
  case (1 ls1)
  note o = opened_parts[OF 1(1)]
  let ?keys = "foldl (\<lambda>keys m. dks_insert (mut_key m) keys) [] ms"
  obtain docs where docs: "ldv_GetDocuments ?keys (local_documents ls1) = Inr docs" "views_of (mut_key ` set ms) ls1 docs"
    using GetDocuments_views[OF 1(2), of ?keys] by (auto simp: set_keys_of)
  have ms: "\<forall>m \<in> set ms. mutation_ok m" "\<forall>m \<in> set ms. key_ok (mut_key m)" using assms(4) by (auto simp: writable_def)
  obtain base where base: "rfold (base_mutation_step docs) [] ms = Inr base"
      "\<forall>m \<in> set base. mutation_ok m \<and> mut_key m \<in> mut_key ` set ms"
    using base_mutations_ok[OF ms(1)] by blast
  define b where "b = \<lparr>mb_batch_id = mq_next_batch_id (ls_queue ls1), mb_local_write_time = t, mb_base_mutations = base, mb_mutations = ms\<rparr>"
  have b: "batch_ok b" "base_in_batch b" using ms base(2) by (auto simp: b_def batch_ok_def base_in_batch_def)
  let ?im = "mp_index_manager (ls_persistence ls1)"
  obtain q im where q: "mq_AddMutationBatch t base ms (ls_queue ls1, ?im) = Inr (b, q, im)" "mq_ok q"
      "mq_queue q = pending ls1 @ [b]" "im_collections im = im_collections ?im \<union> (\<lambda>m. butlast (mut_key m)) ` set ms"
      "im_ok ?im \<longrightarrow> im_ok im"
    using AddMutationBatch_ok[OF ls_queue_ok[OF 1(2)] assms(3) ms(2), of t base ?im] assms(5) unfolding b_def o(3) by blast
  define ls2 where "ls2 = ls1\<lparr>ls_persistence := (ls_persistence ls1)\<lparr>mp_index_manager := im\<rparr>\<rparr>"
  have parents: "\<forall>p \<in> im_collections im. length p mod 2 = 1" "im_ok ?im"
    using 1(2) ms(2) parent_odd by (auto simp: q(4) ls_ok_def store_ok_def parents_ok_def mp_ok_def simp del: One_nat_def)
  have ok2: "ls_ok ls2" using set_index_ok[OF 1(2)] q(4,5) parents by (simp add: ls2_def)
  have ok3: "ls_ok (set_ls_queue q ls2)"
  proof (rule set_ls_queue_ok[OF ok2 q(2)])
    fix c assume "c \<in> set (mq_queue q)"
    then show "batch_ok c \<and> base_in_batch c \<and> (\<forall>k. writes k c \<longrightarrow> butlast k \<in> im_collections (mp_index_manager (ls_persistence ls2)))"
      using b pending_ok[OF 1(2), of c] by (auto simp: q(3,4) ls2_def writes_def b_def)
  qed
  obtain docs' where docs': "Batch_ApplyToLocalDocumentSet b docs = Inr docs'" "dm_ok docs'"
    using Batch_set_total[OF b(1), of docs] views_match[OF docs(2) 1(2)] docs(2) unfolding views_of_def by blast
  define ls3 where "ls3 = set_ls_queue q ls2"
  have d2: "ls_delegate ls2 = ls_delegate ls1" "remote ls2 = remote ls1" "framed ls1 ls2"
    by (simp_all add: ls2_def ls_delegate_def remote_def fun_eq_iff framed_def)
  have f3: "framed ls ls3" "remote ls3 = remote ls" "pending ls3 = pending ls @ [b]" "ls_delegate ls3 = ls_delegate ls1"
    using framed_trans[OF framed_trans[OF o(1) d2(3)], of ls3]
    by (simp_all add: ls3_def d2 q(3) fun_eq_iff, simp_all add: o)
  have views: "distinct (map mut_key ms) \<longrightarrow> views_of (mut_key ` set ms) ls3 docs'"
    using views_after_batch[OF 1(2) _ b(1) docs', of ls3] docs(2) f3 by (simp add: b_def o)
  let ?res = "\<lparr>lwr_batch_id = mb_batch_id b, lwr_changes = docs'\<rparr>"
  have "ls_ok ls3" "rd_open (ls_delegate ls3)" "rd_orphaned (ls_delegate ls3) = {}"
    using ok3 o(4,5) by (simp_all add: ls3_def[symmetric] f3(4))
  moreover have "framed ls ls' \<and> remote ls' = remote ls \<and> pending ls' = pending ls @ [b] \<and>
      (distinct (map mut_key ms) \<longrightarrow> views_of (mut_key ` set ms) ls' docs')" if c: "closed ls3 ls'" for ls'
  proof -
    have r: "remote ls' = remote ls3" using closed_parts(3)[OF c] o(5) by (intro ext) (simp add: f3(4))
    have p: "pending ls' = pending ls3" by (simp add: closed_parts(2)[OF c])
    show ?thesis using framed_trans[OF f3(1) closed_parts(1)[OF c]] r p views f3(2,3) views_of_cong[OF p r] by simp
  qed
  ultimately show ?case
    by (intro exI[of _ ?res] exI[of _ ls3] conjI allI impI exI[of _ base])
      (simp_all add: docs base q docs' ls3_def[symmetric] ls2_def[symmetric], simp_all add: b_def o)
qed

section \<open>Two stores for concrete instances\<close>

definition first_store :: LocalStore where
  "first_store = (case make_LocalStore WithEagerGarbageCollector \<lparr>user_uid = [], user_is_authenticated = False\<rparr> of
     Inr ls \<Rightarrow> ls | Inl _ \<Rightarrow> undefined)"

lemma eager_ready: "is_eager rd \<Longrightarrow> rd_ready rd"
  by (cases rd) (simp_all add: rd_ready_def)

lemma first_store_ok:
  "ls_ok first_store" "rd_ready (ls_delegate first_store)" "is_eager (ls_delegate first_store)" "pending first_store = []"
  "mq_next_batch_id (ls_queue first_store) = 1" "remote first_store = (\<lambda>k. None)"
proof -
  have "rd_additional_references (Eager make_EagerDelegate) = None" by (simp add: make_EagerDelegate_def)
  from make_LocalStore_ok[OF this] obtain ls where
    "make_LocalStore WithEagerGarbageCollector \<lparr>user_uid = [], user_is_authenticated = False\<rparr> = Inr ls" "ls_ok ls" "pending ls = []"
    "mq_next_batch_id (ls_queue ls) = 1" "remote ls = (\<lambda>k. None)" "ls_delegate ls = rd_AddInMemoryPins rs_new (Eager make_EagerDelegate)"
    unfolding WithEagerGarbageCollector_def by blast
  then show "ls_ok first_store" "rd_ready (ls_delegate first_store)" "is_eager (ls_delegate first_store)" "pending first_store = []"
    "mq_next_batch_id (ls_queue first_store) = 1" "remote first_store = (\<lambda>k. None)"
    by (simp_all add: first_store_def rd_ready_def)
qed

definition written_store :: LocalStore where
  "written_store = (case WriteLocally (Timestamp 1 0) [SetMutation [''rooms'', ''eros''] [] Precondition_None] first_store of
     Inr (_, ls) \<Rightarrow> ls | Inl _ \<Rightarrow> undefined)"

lemma written_store_ok:
  "ls_ok written_store" "rd_ready (ls_delegate written_store)"
  "\<exists>b. pending written_store = [b] \<and> mb_mutations b = [SetMutation [''rooms'', ''eros''] [] Precondition_None] \<and> mb_batch_id b = 1"
  "is_eager (ls_delegate written_store)"
proof -
  have "\<forall>m \<in> set [SetMutation [''rooms'', ''eros''] [] Precondition_None]. writable m"
    by (simp add: writable_def key_ok_def)
  from WriteLocally_ok[OF first_store_ok(1,2) _ this, of "Timestamp 1 0"] obtain res ls base where
    w: "WriteLocally (Timestamp 1 0) [SetMutation [''rooms'', ''eros''] [] Precondition_None] first_store = Inr (res, ls)"
      "ls_ok ls" "framed first_store ls"
      "pending ls = [\<lparr>mb_batch_id = lwr_batch_id res, mb_local_write_time = Timestamp 1 0, mb_base_mutations = base,
         mb_mutations = [SetMutation [''rooms'', ''eros''] [] Precondition_None]\<rparr>]" "lwr_batch_id res = 1"
    by (auto simp: first_store_ok)
  then have "is_eager (ls_delegate ls)" using first_store_ok(3) by (simp add: framed_def)
  with w show "ls_ok written_store" "rd_ready (ls_delegate written_store)"
    "\<exists>b. pending written_store = [b] \<and> mb_mutations b = [SetMutation [''rooms'', ''eros''] [] Precondition_None] \<and> mb_batch_id b = 1"
    "is_eager (ls_delegate written_store)"
    by (simp_all add: written_store_def eager_ready)
qed

end
