(* ===== verification/LocalStoreAcks.thy ===== *)
theory LocalStoreAcks
  imports LocalStoreWrites
begin

text \<open>
  \<open>AcknowledgeBatch\<close>: the first batch leaves the queue and its effect, with the versions and transform
  results of the backend, enters the remote documents unless they are already newer.
\<close>

section \<open>Applying a batch with the results of the backend\<close>

definition result_ok :: "Mutation \<Rightarrow> MutationResult \<Rightarrow> bool" where
  "result_ok m r = (case m of
       TransformMutation k ts \<Rightarrow> (case mr_transform_results r of None \<Rightarrow> False | Some vs \<Rightarrow> length vs = length ts)
     | _ \<Rightarrow> mr_transform_results r = None)"

lemma Mutation_remote_total:
  assumes "mutation_ok m" "result_ok m r" "VerifyKeyMatches (mut_key m) d"
  shows "\<exists>d'. Mutation_ApplyToRemoteDocument m d r = Inr d'"
proof (cases m)
  case (PatchMutation k v fm p)
  have "\<exists>obj. PatchDocument v fm d = Inr obj"
    using PatchObject_total[of v fm] by (cases d) (simp_all add: PatchDocument_def split: MaybeDocument.split)
  then obtain obj where "PatchDocument v fm d = Inr obj" by blast
  then show ?thesis using assms by (simp add: PatchMutation result_ok_def)
next
  case (TransformMutation k ts)
  obtain vs where vs: "mr_transform_results r = Some vs" "length vs = length ts"
    using assms(2) by (auto simp: TransformMutation result_ok_def split: option.splits)
  show ?thesis
  proof (cases "IsValidFor (Precondition_Exists True) d")
    case True
    then obtain x where x: "d = Some x" "is_document x" by (cases d) auto
    then obtain data key' v' st where doc: "d = Some (Document data key' v' st)"
      by (cases x) (auto simp: is_document_def)
    have "\<exists>y. (case z of (ft, server_result) \<Rightarrow> Transform_ApplyToRemoteDocument (ft_transformation ft) (maybe_field d (ft_path ft)) server_result) = Inr y"
      if "z \<in> set (zip ts vs)" for z
    proof -
      obtain ft r' where z: "z = (ft, r')" by (cases z)
      then have "ft \<in> set ts" using that set_zip_leftD by metis
      then have "transform_ok (ft_transformation ft)" using assms(1) by (simp add: TransformMutation)
      then show ?thesis using Transform_remote_total by (simp add: z)
    qed
    from rmapM_total[OF this] obtain ys where ys: "ServerTransformResults ts d vs = Inr ys" "length ys = length ts"
      using rmapM_length vs(2) by (fastforce simp: ServerTransformResults_def)
    then obtain obj where "TransformObject ts data ys = Inr obj"
      using TransformObject_total[of ys ts data] assms(1) by (auto simp: TransformMutation)
    then show ?thesis using assms(3) ys(1) vs(1) True by (simp add: TransformMutation doc)
  qed (use assms(3) vs(1) in \<open>simp add: TransformMutation\<close>)
qed (use assms in \<open>auto simp: result_ok_def\<close>)

lemma remote_steps:
  assumes "\<forall>(m, r) \<in> set zs. mutation_ok m \<and> result_ok m r" "VerifyKeyMatches k d"
  shows "\<exists>d'. rfold (\<lambda>d (m, r). if mut_key m = k then rmap Some (Mutation_ApplyToRemoteDocument m d r) else Inr d) d zs = Inr d' \<and>
    VerifyKeyMatches k d' \<and>
    (if k \<in> (mut_key \<circ> fst) ` set zs
     then \<exists>x. d' = Some x \<and> doc_key x = k \<and> dm_get k (foldl (doc_versions_step c) vs zs) = Some (doc_version x)
     else d' = d \<and> dm_get k (foldl (doc_versions_step c) vs zs) = dm_get k vs)"
  using assms
proof (induction zs arbitrary: d vs)
  case (Cons z zs)
  obtain m r where z: "z = (m, r)" by (cases z)
  have zs: "\<forall>(m, r) \<in> set zs. mutation_ok m \<and> result_ok m r" using Cons.prems(1) by simp
  have step: "dm_get k (doc_versions_step c vs z) = (if mut_key m = k then Some (mr_version r) else dm_get k vs)"
    by (auto simp: doc_versions_step_def z)
  show ?case
  proof (cases "mut_key m = k")
    case True
    then obtain x where x: "Mutation_ApplyToRemoteDocument m d r = Inr x"
      using Mutation_remote_total[of m r d] Cons.prems by (auto simp: z)
    note xk = Mutation_remote_key[OF x]
    have "VerifyKeyMatches k (Some x)" using xk True by (simp add: VerifyKeyMatches_def)
    from Cons.IH[OF zs this, of "doc_versions_step c vs z"] show ?thesis
      using True xk step by (auto simp: z x split: if_splits)
  next
    case False
    from Cons.IH[OF zs Cons.prems(2), of "doc_versions_step c vs z"] show ?thesis
      using False step by (auto simp: z split: if_splits)
  qed
qed simp

definition batch_result_ok :: "MutationBatchResult \<Rightarrow> bool" where
  "batch_result_ok br = (list_all2 result_ok (mb_mutations (mbr_batch br)) (mbr_mutation_results br) \<and>
     mbr_doc_versions br = foldl (doc_versions_step (mbr_commit_version br)) []
       (zip (mb_mutations (mbr_batch br)) (mbr_mutation_results br)) \<and>
     SnapshotVersion_None < mbr_commit_version br)"

lemma Batch_remote_total:
  assumes "batch_result_ok br" "batch_ok (mbr_batch br)" "VerifyKeyMatches k d" "k \<in> set (Batch_keys (mbr_batch br))"
  shows "\<exists>x. Batch_ApplyToRemoteDocument (mbr_batch br) d k br = Inr (Some x) \<and> doc_key x = k \<and>
    dm_get k (mbr_doc_versions br) = Some (doc_version x)"
proof -
  let ?ms = "mb_mutations (mbr_batch br)"
  let ?zs = "zip ?ms (mbr_mutation_results br)"
  have len: "length (mbr_mutation_results br) = length ?ms" and all: "\<forall>(m, r) \<in> set ?zs. result_ok m r"
    using assms(1) by (auto simp: batch_result_ok_def list_all2_iff)
  have zs: "\<forall>(m, r) \<in> set ?zs. mutation_ok m \<and> result_ok m r"
    using all assms(2) by (auto simp: batch_ok_def dest: set_zip_leftD)
  have "(mut_key \<circ> fst) ` set ?zs = mut_key ` fst ` set ?zs" by (simp add: image_comp)
  also have "fst ` set ?zs = set ?ms" using len by (metis list.set_map map_fst_zip)
  finally have "k \<in> (mut_key \<circ> fst) ` set ?zs" using assms(4) by (simp add: set_Batch_keys)
  then show ?thesis
    using remote_steps[OF zs assms(3), of "mbr_commit_version br" "[]"] assms(1,3) len
    by (auto simp: Batch_ApplyToRemoteDocument_def batch_result_ok_def)
qed

section \<open>Adding a remote document\<close>

lemma read_ok_Add:
  assumes "rc_Add d rt (rc, im) = Inr (rc', im')" "read_ok rc" "SnapshotVersion_None < rt"
  shows "read_ok rc'"
proof -
  have "rc' = rc\<lparr>rc_docs := dm_insert (doc_key d) (d, rt) (rc_docs rc)\<rparr>"
    using assms(1) by (auto simp: rc_Add_def Let_def rbind_Inr_conv rmap_Inr_conv)
  then show ?thesis using assms(2,3) by (auto simp: read_ok_def read_after_def rc_Get_def)
qed

abbreviation ls_cache :: "LocalStore \<Rightarrow> MemoryRemoteDocumentCache \<times> MemoryIndexManager" where
  "ls_cache ls \<equiv> (mp_remote_document_cache (ls_persistence ls), mp_index_manager (ls_persistence ls))"

lemma set_ls_documents_parts [simp]:
  "ls_queue (set_ls_documents docs ls) = ls_queue ls" "ls_delegate (set_ls_documents docs ls) = ls_delegate ls"
  "ls_cache (set_ls_documents docs ls) = docs" "framed ls (set_ls_documents docs ls)"
  "set_ls_documents docs (set_ls_documents docs' ls) = set_ls_documents docs ls"
  "mp_mutation_queues (ls_persistence (set_ls_documents docs ls)) = mp_mutation_queues (ls_persistence ls)"
  by (simp_all add: set_ls_documents_def ls_queue_def ls_delegate_def framed_def queue_of_def split: prod.split)

lemma set_ls_documents_same [simp]: "set_ls_documents (ls_cache ls) ls = ls"
  by (simp add: set_ls_documents_def)

lemma written_documents: "written (mp\<lparr>mp_remote_document_cache := rc, mp_index_manager := im\<rparr>) = written mp"
  by (simp add: written_def)

lemma set_documents_ok:
  assumes "ls_ok ls" "rc_ok rc" "read_ok rc" "im_ok im"
    and "im_collections (mp_index_manager (ls_persistence ls)) \<subseteq> im_collections im" "\<forall>p \<in> im_collections im. length p mod 2 = 1"
    and "\<And>k. rc_Get k rc \<noteq> None \<Longrightarrow> butlast k \<in> im_collections im"
  shows "ls_ok (set_ls_documents (rc, im) ls)"
proof (rule framed_ok[OF assms(1)])
  show "store_ok (ls_persistence (set_ls_documents (rc, im) ls))"
    using assms by (auto simp: set_ls_documents_def ls_ok_def store_ok_def mp_ok_def batches_ok_def parents_ok_def written_documents
        simp del: One_nat_def)
qed simp

lemma add_document_ok:
  assumes "ls_ok ls" "key_ok (doc_key d)" "SnapshotVersion_None < rt"
  shows "\<exists>docs. rc_Add d rt (ls_cache ls) = Inr docs \<and> ls_ok (set_ls_documents docs ls) \<and>
    remote (set_ls_documents docs ls) = (remote ls)(doc_key d \<mapsto> d) \<and>
    im_collections (mp_index_manager (ls_persistence ls)) \<subseteq> im_collections (snd docs)"
proof -
  have s: "store_ok (ls_persistence ls)" using assms(1) by (simp add: ls_ok_def)
  then have parts: "rc_ok (mp_remote_document_cache (ls_persistence ls))" "read_ok (mp_remote_document_cache (ls_persistence ls))"
      "im_ok (mp_index_manager (ls_persistence ls))" "parents_ok (ls_persistence ls)"
    by (simp_all add: store_ok_def mp_ok_def)
  obtain rc' im' where a: "rc_Add d rt (ls_cache ls) = Inr (rc', im')" "rc_ok rc'"
      "\<And>k. rc_Get k rc' = (if k = doc_key d then Some d else rc_Get k (mp_remote_document_cache (ls_persistence ls)))"
      "im_collections im' = insert (butlast (doc_key d)) (im_collections (mp_index_manager (ls_persistence ls)))" "im_ok im'"
    using rc_Add_ok[OF parts(1) assms(2), of rt "mp_index_manager (ls_persistence ls)"] parts(3) by blast
  have "ls_ok (set_ls_documents (rc', im') ls)"
  proof (rule set_documents_ok[OF assms(1) a(2) read_ok_Add[OF a(1) parts(2) assms(3)] a(5)])
    show "\<forall>p \<in> im_collections im'. length p mod 2 = 1"
      using parts(4) parent_odd[OF assms(2)] unfolding a(4) parents_ok_def by blast
    show "butlast k \<in> im_collections im'" if "rc_Get k rc' \<noteq> None" for k
      using that parts(4) by (auto simp: a(3,4) parents_ok_def split: if_splits)
  qed (auto simp: a(4))
  moreover have "remote (set_ls_documents (rc', im') ls) = (remote ls)(doc_key d \<mapsto> d)"
    by (simp add: remote_def set_ls_documents_def a(3) fun_eq_iff)
  ultimately show ?thesis using a(1,4) by auto
qed

section \<open>Acknowledging a batch\<close>

text \<open>The document a key has once the result of a batch was applied to it.\<close>

definition acked :: "MutationBatchResult \<Rightarrow> DocumentKey \<Rightarrow> MaybeDocument option \<Rightarrow> MaybeDocument option result" where
  "acked br k d =
     (case dm_get k (mbr_doc_versions br) of
        None \<Rightarrow> Inl HardAssert
      | Some v \<Rightarrow> (case d of
            Some x \<Rightarrow> if doc_version x < v then Batch_ApplyToRemoteDocument (mbr_batch br) d k br else Inr d
          | None \<Rightarrow> Batch_ApplyToRemoteDocument (mbr_batch br) d k br))"

lemma batch_result_steps:
  assumes br: "batch_result_ok br" "batch_ok (mbr_batch br)"
    and "ls_ok ls" "\<forall>k \<in> set ks. k \<in> set (Batch_keys (mbr_batch br)) \<and> key_ok k" "distinct ks"
  shows "\<exists>docs. rfold (batch_result_step br) (ls_cache ls) ks = Inr docs \<and> ls_ok (set_ls_documents docs ls) \<and>
    (\<forall>k. if k \<in> set ks
       then \<exists>d v. acked br k (remote ls k) = Inr (Some d) \<and> remote (set_ls_documents docs ls) k = Some d \<and>
         dm_get k (mbr_doc_versions br) = Some v \<and> \<not> doc_version d < v
       else remote (set_ls_documents docs ls) k = remote ls k)"
  using assms(3-5)
proof (induction ks arbitrary: ls)
  case (Cons k ks)
  let ?d = "remote ls k"
  have rc: "rc_Get k (mp_remote_document_cache (ls_persistence ls)) = ?d" by (simp add: remote_def)
  have match: "VerifyKeyMatches k ?d" by (rule remote_matches[OF Cons.prems(1)])
  obtain x where x: "Batch_ApplyToRemoteDocument (mbr_batch br) ?d k br = Inr (Some x)" "doc_key x = k"
      "dm_get k (mbr_doc_versions br) = Some (doc_version x)"
    using Batch_remote_total[OF br match] Cons.prems(2) by auto
  have "\<exists>docs d. batch_result_step br (ls_cache ls) k = Inr docs \<and> ls_ok (set_ls_documents docs ls) \<and>
      remote (set_ls_documents docs ls) = (remote ls)(k \<mapsto> d) \<and> acked br k ?d = Inr (Some d) \<and> \<not> doc_version d < doc_version x"
  proof (cases "case ?d of None \<Rightarrow> True | Some d \<Rightarrow> doc_version d < doc_version x")
    case True
    obtain docs where "rc_Add x (mbr_commit_version br) (ls_cache ls) = Inr docs" "ls_ok (set_ls_documents docs ls)"
        "remote (set_ls_documents docs ls) = (remote ls)(k \<mapsto> x)"
      using add_document_ok[OF Cons.prems(1), of x "mbr_commit_version br"] br(1) Cons.prems(2) x(2)
      by (auto simp: batch_result_ok_def)
    then show ?thesis
      using True x by (auto simp: batch_result_step_def Let_def rc acked_def split: option.splits)
  next
    case False
    then obtain d where "?d = Some d" "\<not> doc_version d < doc_version x" by (auto split: option.splits)
    then show ?thesis
      using x(3) Cons.prems(1) by (auto simp: batch_result_step_def Let_def rc acked_def fun_upd_idem)
  qed
  then obtain docs d where s: "batch_result_step br (ls_cache ls) k = Inr docs" "ls_ok (set_ls_documents docs ls)"
      "remote (set_ls_documents docs ls) = (remote ls)(k \<mapsto> d)" "acked br k ?d = Inr (Some d)" "\<not> doc_version d < doc_version x"
    by blast
  obtain docs' where r: "rfold (batch_result_step br) docs ks = Inr docs'" "ls_ok (set_ls_documents docs' ls)"
      "\<And>k'. if k' \<in> set ks
       then \<exists>d v. acked br k' (remote (set_ls_documents docs ls) k') = Inr (Some d) \<and> remote (set_ls_documents docs' ls) k' = Some d \<and>
         dm_get k' (mbr_doc_versions br) = Some v \<and> \<not> doc_version d < v
       else remote (set_ls_documents docs' ls) k' = remote (set_ls_documents docs ls) k'"
    using Cons.IH[OF s(2)] Cons.prems(2,3) by (simp only: set_ls_documents_parts) auto
  have "if k' \<in> set (k # ks)
       then \<exists>d v. acked br k' (remote ls k') = Inr (Some d) \<and> remote (set_ls_documents docs' ls) k' = Some d \<and>
         dm_get k' (mbr_doc_versions br) = Some v \<and> \<not> doc_version d < v
       else remote (set_ls_documents docs' ls) k' = remote ls k'" for k'
    using r(3)[of k'] s(3-5) x(3) Cons.prems(3) by (cases "k' = k") (auto split: if_splits)
  moreover have "rfold (batch_result_step br) (ls_cache ls) (k # ks) = Inr docs'" by (simp add: s(1) r(1))
  ultimately show ?case using r(2) by blast
qed simp

lemma Batch_keys_distinct: "distinct (Batch_keys b)"
proof -
  have "std_set_ok s \<Longrightarrow> std_set_ok (foldl (\<lambda>s m. dks_insert (mut_key m) s) s ms)" for s ms
    by (induction ms arbitrary: s) (simp_all add: dks_insert_def)
  from this[of "[]" "mb_mutations b"] show ?thesis by (simp add: Batch_keys_def std_set_ok_def)
qed

text \<open>The remote documents after the results: no key of the batch is behind the version acknowledged for it.\<close>

definition results_applied :: "MutationBatchResult \<Rightarrow> LocalStore \<Rightarrow> LocalStore \<Rightarrow> bool" where
  "results_applied br ls ls2 = (\<forall>k. if k \<in> set (Batch_keys (mbr_batch br))
     then \<exists>d v. acked br k (remote ls k) = Inr (Some d) \<and> remote ls2 k = Some d \<and>
       dm_get k (mbr_doc_versions br) = Some v \<and> \<not> doc_version d < v
     else remote ls2 k = remote ls k)"

lemma ApplyBatchResult_ok:
  assumes "ls_ok ls" "pending ls = mbr_batch br # rest" "rd_open (ls_delegate ls)" "batch_result_ok br"
  shows "\<exists>ls2. ApplyBatchResult br ls = Inr ls2 \<and> ls_ok ls2 \<and> framed ls ls2 \<and> pending ls2 = rest \<and>
    mq_last_stream_token (ls_queue ls2) = mq_last_stream_token (ls_queue ls) \<and> results_applied br ls ls2 \<and> rd_open (ls_delegate ls2) \<and>
    rd_orphaned (ls_delegate ls2) =
      rd_orphaned (ls_delegate ls) \<union> (if is_eager (ls_delegate ls) then set (Batch_keys (mbr_batch br)) else {})"
proof -
  let ?b = "mbr_batch br"
  have b: "batch_ok ?b" using pending_ok(1)[OF assms(1)] assms(2) by simp
  have "\<forall>m \<in> set (mb_mutations ?b). key_ok (mut_key m)"
    using ls_queue_ok[OF assms(1)] assms(2) by (simp add: mq_ok_def)
  then have keys: "\<forall>k \<in> set (Batch_keys ?b). k \<in> set (Batch_keys ?b) \<and> key_ok k" by (auto simp: set_Batch_keys)
  obtain docs where d: "rfold (batch_result_step br) (ls_cache ls) (Batch_keys ?b) = Inr docs" "ls_ok (set_ls_documents docs ls)"
      "results_applied br ls (set_ls_documents docs ls)"
    using batch_result_steps[OF assms(4) b assms(1) keys Batch_keys_distinct] unfolding results_applied_def by blast
  obtain ls2 where r: "RemoveBatch ?b (set_ls_documents docs ls) = Inr ls2" "ls_ok ls2" "framed (set_ls_documents docs ls) ls2"
      "pending ls2 = rest" "mq_last_stream_token (ls_queue ls2) = mq_last_stream_token (ls_queue ls)"
      "remote ls2 = remote (set_ls_documents docs ls)" "rd_open (ls_delegate ls2)"
      "rd_orphaned (ls_delegate ls2) = rd_orphaned (ls_delegate ls) \<union> (if is_eager (ls_delegate ls) then set (Batch_keys ?b) else {})"
    using RemoveBatch_ok[OF d(2), of ?b rest] assms(2,3) by auto
  have "ApplyBatchResult br ls = Inr ls2" by (simp add: ApplyBatchResult_def d(1) r(1))
  moreover have "framed ls ls2" by (rule framed_trans[OF _ r(3)]) simp
  moreover have "results_applied br ls ls2" using d(3) unfolding results_applied_def r(6) .
  ultimately show ?thesis using r by blast
qed

theorem ls_AcknowledgeBatch_ok:
  assumes "ls_ok ls" "rd_ready (ls_delegate ls)" "pending ls = mbr_batch br # rest" "batch_result_ok br"
  shows "\<exists>docs ls'. AcknowledgeBatch br ls = Inr (docs, ls') \<and> ls_ok ls' \<and> framed ls ls' \<and> pending ls' = rest \<and>
    mq_last_stream_token (ls_queue ls') = mbr_stream_token br \<and>
    (\<exists>ls2. pending ls2 = rest \<and> results_applied br ls ls2 \<and> views_of (set (Batch_keys (mbr_batch br))) ls2 docs \<and>
      (\<forall>k. remote ls' k = (if is_eager (ls_delegate ls) \<and> k \<in> set (Batch_keys (mbr_batch br)) \<and> k \<notin> referenced (ls_persistence ls')
        then None else remote ls2 k)))"
  unfolding AcknowledgeBatch_def Let_def
proof (rule ls_Run_rule[OF assms(1,2)], goal_cases)
  case (1 ls1)
  note o = opened_parts[OF 1(1)]
  let ?b = "mbr_batch br"
  define q where "q = (ls_queue ls1)\<lparr>mq_last_stream_token := mbr_stream_token br\<rparr>"
  have p: "pending ls1 = ?b # rest" by (simp add: o(3) assms(3))
  have ack: "mq_AcknowledgeBatch ?b (mbr_stream_token br) (ls_queue ls1) = Inr q"
    by (simp add: AcknowledgeBatch_ok[OF p] q_def)
  have q: "ls_ok (set_ls_queue q ls1)"
    using ls_queue_ok[OF 1(2)] pending_ok[OF 1(2)] by (intro set_ls_queue_ok[OF 1(2)]) (auto simp: q_def)
  obtain ls2 where r: "ApplyBatchResult br (set_ls_queue q ls1) = Inr ls2" "ls_ok ls2" "framed (set_ls_queue q ls1) ls2"
      "pending ls2 = rest" "mq_last_stream_token (ls_queue ls2) = mbr_stream_token br" "results_applied br (set_ls_queue q ls1) ls2"
      "rd_open (ls_delegate ls2)" "rd_orphaned (ls_delegate ls2) = (if is_eager (ls_delegate ls1) then set (Batch_keys ?b) else {})"
    using ApplyBatchResult_ok[OF q, of br rest] p assms(4) o(4,5) by (auto simp: q_def)
  obtain docs where docs: "ldv_GetDocuments (Batch_keys ?b) (local_documents ls2) = Inr docs" "views_of (set (Batch_keys ?b)) ls2 docs"
    using GetDocuments_views[OF r(2)] by blast
  have f: "framed ls ls2"
    using framed_trans[OF framed_trans[OF o(1), of "set_ls_queue q ls1"] r(3)] by simp
  then have e: "is_eager (ls_delegate ls1) = is_eager (ls_delegate ls)" using o(1) by (simp add: framed_def)
  have same: "remote (set_ls_queue q ls1) = remote ls" by (intro ext) (simp add: o(2))
  have "results_applied br ls ls2" using r(6) unfolding results_applied_def same .
  moreover have "framed ls ls'" if "closed ls2 ls'" for ls' using framed_trans[OF f closed_parts(1)[OF that]] .
  ultimately show ?case
    using r docs PerformConsistencyCheck_ok[OF ls_queue_ok[OF r(2)]]
    by (intro exI[of _ docs] exI[of _ ls2] conjI allI impI)
      (simp_all add: ack closed_parts, simp_all add: e)
qed

end
