(* ===== verification/SyncEngineProofs.thy ===== *)
theory SyncEngineProofs
  imports SyncEngines LocalStoreAcks
begin

text \<open>
  What the sync engine keeps of limbo resolution in every reachable state, which callbacks of the user it
  calls, and two runs in which it resolves documents that are not in limbo.
\<close>

section \<open>Maps by key\<close>

lemma dm_keys: "dm_ok m \<Longrightarrow> fst ` set m = {k. dm_get k m \<noteq> None}"
  using dm_get_keys by blast

lemma dm_length: "dm_ok m \<Longrightarrow> length m = card {k. dm_get k m \<noteq> None}"
proof -
  assume m: "dm_ok m"
  then have "distinct (map fst m)" unfolding dm_ok_def by (induction m) (auto simp: key_less_iff)
  then have "length m = card (fst ` set m)" by (metis distinct_card length_map list.set_map)
  then show ?thesis by (simp add: dm_keys[OF m])
qed

lemma dm_length_insert:
  assumes "dm_ok m" "dm_get k m = None" shows "length (dm_insert k v m) = Suc (length m)"
proof -
  have "{k'. dm_get k' (dm_insert k v m) \<noteq> None} = insert k {k'. dm_get k' m \<noteq> None}" by auto
  moreover have "finite {k'. dm_get k' m \<noteq> None}" using dm_keys[OF assms(1)] by (metis finite_imageI finite_set)
  ultimately show ?thesis using assms dm_length[of "dm_insert k v m"] dm_length[of m] by simp
qed

lemma dm_length_erase: "length (dm_erase k m) \<le> length m" if "dm_ok m"
proof -
  have "{k'. dm_get k' (dm_erase k m) \<noteq> None} \<subseteq> {k'. dm_get k' m \<noteq> None}" using that by (auto simp: dm_get_erase)
  moreover have "finite {k'. dm_get k' m \<noteq> None}" using dm_keys[OF that] by (metis finite_imageI finite_set)
  ultimately show ?thesis using that dm_length[of "dm_erase k m"] dm_length[of m] by (simp add: card_mono)
qed

section \<open>The limbo queue\<close>

text \<open>
  At most the allowed number of documents are resolved at a time, and no document waits while fewer are.
\<close>

definition limbo_ok :: "SyncEngine \<Rightarrow> bool" where
  "limbo_ok se =
     (dm_ok (se_active_limbo_targets_by_key se) \<and>
      length (se_active_limbo_targets_by_key se) \<le> se_max_concurrent_limbo_resolutions se \<and>
      (se_enqueued_limbo_resolutions se = [] \<or>
       length (se_active_limbo_targets_by_key se) = se_max_concurrent_limbo_resolutions se) \<and>
      rs_ok (se_limbo_document_refs se))"

definition is_callback :: "sync_output \<Rightarrow> bool" where
  "is_callback out = (case out of CallStatusCallback _ _ \<Rightarrow> True | _ \<Rightarrow> False)"

text \<open>What the operations on limbo documents leave alone; they call no callback of the user.\<close>

definition limbo_framed :: "SyncEngine \<Rightarrow> SyncEngine \<Rightarrow> bool" where
  "limbo_framed se se' =
     (se_local_store se' = se_local_store se \<and> se_current_user se' = se_current_user se \<and>
      se_has_callback se' = se_has_callback se \<and> se_mutation_callbacks se' = se_mutation_callbacks se \<and>
      se_pending_writes_callbacks se' = se_pending_writes_callbacks se \<and>
      se_query_views_by_query se' = se_query_views_by_query se \<and> se_queries_by_target se' = se_queries_by_target se \<and>
      se_max_concurrent_limbo_resolutions se' = se_max_concurrent_limbo_resolutions se \<and>
      (\<exists>out. se_output se' = se_output se @ out \<and> list_all (\<lambda>x. \<not> is_callback x) out))"

lemma limbo_framed_refl [simp]: "limbo_framed se se"
  by (simp add: limbo_framed_def)

lemma limbo_framed_trans: "limbo_framed a b \<Longrightarrow> limbo_framed b c \<Longrightarrow> limbo_framed a c"
  by (auto simp: limbo_framed_def)

abbreviation active_keys :: "SyncEngine \<Rightarrow> DocumentKey set" where
  "active_keys se \<equiv> {k. dm_get k (se_active_limbo_targets_by_key se) \<noteq> None}"

lemma limbo_target_exists: "\<exists>target. ToTarget (make_Query key None) = Inr target"
  by (simp add: ToTarget_def make_Query_def order_bys_def InequalityFilterField_def FirstOrderByField_def Let_def)

lemma start_limbo_ok:
  assumes "dm_ok (se_active_limbo_targets_by_key se)"
  shows "limbo_framed se (start_limbo_resolution key target se)"
    "se_limbo_document_refs (start_limbo_resolution key target se) = se_limbo_document_refs se"
    "dm_ok (se_active_limbo_targets_by_key (start_limbo_resolution key target se))"
    "active_keys (start_limbo_resolution key target se) = insert key (active_keys se)"
    "length (se_active_limbo_targets_by_key (start_limbo_resolution key target se)) \<le>
       Suc (length (se_active_limbo_targets_by_key se))"
  using assms
  by (auto simp: start_limbo_resolution_def emit_def limbo_framed_def is_callback_def emplace_limbo_target_def
      tig_NextId_def Let_def dm_length_insert)

text \<open>
  The loop that starts resolutions ends, with the queue empty or all slots taken; what it took from the
  queue is active.
\<close>

lemma Pump_ok:
  assumes "dm_ok (se_active_limbo_targets_by_key se)"
    "length (se_active_limbo_targets_by_key se) \<le> se_max_concurrent_limbo_resolutions se"
  shows "\<exists>se' started. PumpEnqueuedLimboResolutions se = Inr se' \<and> limbo_framed se se' \<and>
    se_enqueued_limbo_resolutions se = started @ se_enqueued_limbo_resolutions se' \<and>
    se_limbo_document_refs se' = se_limbo_document_refs se \<and> dm_ok (se_active_limbo_targets_by_key se') \<and>
    active_keys se' = active_keys se \<union> set started \<and>
    length (se_active_limbo_targets_by_key se') \<le> se_max_concurrent_limbo_resolutions se' \<and>
    (se_enqueued_limbo_resolutions se' = [] \<or>
     length (se_active_limbo_targets_by_key se') = se_max_concurrent_limbo_resolutions se')"
  using assms
proof (induction se rule: PumpEnqueuedLimboResolutions.induct)
  case (1 se)
  show ?case
  proof (cases "se_enqueued_limbo_resolutions se")
    case Nil
    then show ?thesis
      using "1.prems" by (intro exI[of _ se] exI[of _ "[]"]) (simp add: PumpEnqueuedLimboResolutions.simps[of se])
  next
    case (Cons key rest)
    obtain target where t: "ToTarget (make_Query key None) = Inr target" using limbo_target_exists by blast
    show ?thesis
    proof (cases "length (se_active_limbo_targets_by_key se) < se_max_concurrent_limbo_resolutions se")
      case True
      define se1 where "se1 = start_limbo_resolution key target (se\<lparr>se_enqueued_limbo_resolutions := rest\<rparr>)"
      have s: "limbo_framed (se\<lparr>se_enqueued_limbo_resolutions := rest\<rparr>) se1" "se_limbo_document_refs se1 = se_limbo_document_refs se"
          "dm_ok (se_active_limbo_targets_by_key se1)" "active_keys se1 = insert key (active_keys se)"
          "length (se_active_limbo_targets_by_key se1) \<le> Suc (length (se_active_limbo_targets_by_key se))"
          "se_enqueued_limbo_resolutions se1 = rest"
        using start_limbo_ok[of "se\<lparr>se_enqueued_limbo_resolutions := rest\<rparr>" key target] "1.prems"(1) by (simp_all add: se1_def)
      have m: "se_max_concurrent_limbo_resolutions se1 = se_max_concurrent_limbo_resolutions se"
        using s(1) by (simp add: limbo_framed_def)
      have "limbo_framed se se1" using s(1) by (simp add: limbo_framed_def)
      moreover have "PumpEnqueuedLimboResolutions se = PumpEnqueuedLimboResolutions se1"
        using True t by (simp add: PumpEnqueuedLimboResolutions.simps[of se] Cons se1_def)
      moreover obtain se' started where p: "PumpEnqueuedLimboResolutions se1 = Inr se'" "limbo_framed se1 se'"
          "rest = started @ se_enqueued_limbo_resolutions se'" "se_limbo_document_refs se' = se_limbo_document_refs se1"
          "dm_ok (se_active_limbo_targets_by_key se')" "active_keys se' = active_keys se1 \<union> set started"
          "length (se_active_limbo_targets_by_key se') \<le> se_max_concurrent_limbo_resolutions se'"
          "se_enqueued_limbo_resolutions se' = [] \<or>
           length (se_active_limbo_targets_by_key se') = se_max_concurrent_limbo_resolutions se'"
        using "1.IH"[OF Cons True t] s m True unfolding se1_def[symmetric] by auto
      ultimately show ?thesis
        using limbo_framed_trans[of se se1 se'] s
        by (intro exI[of _ se'] exI[of _ "key # started"]) (simp add: Cons)
    next
      case False
      then show ?thesis
        using "1.prems" by (intro exI[of _ se] exI[of _ "[]"]) (simp add: PumpEnqueuedLimboResolutions.simps[of se] Cons)
    qed
  qed
qed

abbreviation waiting_keys :: "SyncEngine \<Rightarrow> DocumentKey set" where
  "waiting_keys se \<equiv> set (se_enqueued_limbo_resolutions se)"

definition known_keys :: "SyncEngine \<Rightarrow> DocumentKey set" where
  "known_keys se = active_keys se \<union> waiting_keys se"

text \<open>Every document that some target has in limbo is being resolved or waits for it.\<close>

definition limbo_tracked :: "SyncEngine \<Rightarrow> bool" where
  "limbo_tracked se = (refs_ok (se_limbo_document_refs se) \<and>
     ref_key ` rs_refs (se_limbo_document_refs se) \<subseteq> known_keys se)"

lemma Pump_keeps:
  assumes "dm_ok (se_active_limbo_targets_by_key se)" "rs_ok (se_limbo_document_refs se)"
    "length (se_active_limbo_targets_by_key se) \<le> se_max_concurrent_limbo_resolutions se"
  shows "\<exists>se'. PumpEnqueuedLimboResolutions se = Inr se' \<and> limbo_ok se' \<and> limbo_framed se se' \<and>
    se_limbo_document_refs se' = se_limbo_document_refs se \<and>
    known_keys se' = known_keys se"
proof -
  obtain se' started where p: "PumpEnqueuedLimboResolutions se = Inr se'" "limbo_framed se se'"
      "se_enqueued_limbo_resolutions se = started @ se_enqueued_limbo_resolutions se'"
      "se_limbo_document_refs se' = se_limbo_document_refs se" "dm_ok (se_active_limbo_targets_by_key se')"
      "active_keys se' = active_keys se \<union> set started"
      "length (se_active_limbo_targets_by_key se') \<le> se_max_concurrent_limbo_resolutions se'"
      "se_enqueued_limbo_resolutions se' = [] \<or>
       length (se_active_limbo_targets_by_key se') = se_max_concurrent_limbo_resolutions se'"
    using Pump_ok[OF assms(1,3)] by blast
  have "waiting_keys se = set started \<union> waiting_keys se'" by (simp add: p(3))
  then show ?thesis using p assms(2) unfolding limbo_ok_def known_keys_def by (intro exI[of _ se']) auto
qed

lemma RemoveLimboTarget_ok:
  assumes "limbo_ok se"
  shows "\<exists>se'. RemoveLimboTarget key se = Inr se' \<and> limbo_ok se' \<and> limbo_framed se se' \<and>
    se_limbo_document_refs se' = se_limbo_document_refs se \<and>
    known_keys se - {key} \<subseteq> known_keys se'"
proof (cases "dm_get key (se_active_limbo_targets_by_key se)")
  case (Some i)
  define se1 where "se1 = (emit (RemoteStopListening i) se)
    \<lparr>se_active_limbo_targets_by_key := dm_erase key (se_active_limbo_targets_by_key se),
     se_active_limbo_resolutions_by_target := um_erase (=) i (se_active_limbo_resolutions_by_target se)\<rparr>"
  have ok: "dm_ok (se_active_limbo_targets_by_key se)" "rs_ok (se_limbo_document_refs se)"
      "length (se_active_limbo_targets_by_key se) \<le> se_max_concurrent_limbo_resolutions se"
    using assms by (simp_all add: limbo_ok_def)
  have f: "limbo_framed se se1" by (simp add: se1_def emit_def limbo_framed_def is_callback_def)
  obtain se' where p: "PumpEnqueuedLimboResolutions se1 = Inr se'" "limbo_ok se'" "limbo_framed se1 se'"
      "se_limbo_document_refs se' = se_limbo_document_refs se1"
      "known_keys se' = known_keys se1"
    using Pump_keeps[of se1] ok dm_length_erase[OF ok(1), of key] by (auto simp: se1_def emit_def)
  have "active_keys se1 = active_keys se - {key}" "waiting_keys se1 = waiting_keys se"
    using ok(1) by (auto simp: se1_def emit_def dm_get_erase)
  moreover have "RemoveLimboTarget key se = Inr se'" using Some p(1) by (simp add: RemoveLimboTarget_def se1_def)
  moreover have "se_limbo_document_refs se1 = se_limbo_document_refs se" by (simp add: se1_def emit_def)
  ultimately show ?thesis using p limbo_framed_trans[OF f p(3)] by (auto simp: known_keys_def)
qed (use assms in \<open>auto simp: RemoveLimboTarget_def\<close>)

lemma TrackLimboChange_ok:
  assumes "limbo_ok se"
  shows "\<exists>se'. TrackLimboChange key se = Inr se' \<and> limbo_ok se' \<and> limbo_framed se se' \<and>
    se_limbo_document_refs se' = se_limbo_document_refs se \<and>
    insert key (known_keys se) \<subseteq> known_keys se'"
proof (cases "dm_get key (se_active_limbo_targets_by_key se)")
  case None
  define se1 where "se1 = se\<lparr>se_enqueued_limbo_resolutions := se_enqueued_limbo_resolutions se @ [key]\<rparr>"
  have f: "limbo_framed se se1" by (simp add: se1_def limbo_framed_def)
  obtain se' where p: "PumpEnqueuedLimboResolutions se1 = Inr se'" "limbo_ok se'" "limbo_framed se1 se'"
      "se_limbo_document_refs se' = se_limbo_document_refs se1"
      "known_keys se' = known_keys se1"
    using Pump_keeps[of se1] assms by (auto simp: se1_def limbo_ok_def)
  moreover have "TrackLimboChange key se = Inr se'" using None p(1) by (simp add: TrackLimboChange_def se1_def)
  moreover have "known_keys se1 = insert key (known_keys se)" by (auto simp: se1_def known_keys_def)
  ultimately show ?thesis using limbo_framed_trans[OF f p(3)] by (simp add: se1_def subset_insertI)
qed (use assms in \<open>auto simp: TrackLimboChange_def known_keys_def\<close>)

lemma refs_ok_ops:
  assumes "refs_ok s"
  shows "id_ok i \<Longrightarrow> refs_ok (rs_AddReference k i s)" "refs_ok (rs_RemoveReference k i s)"
  using assms by (auto simp: refs_ok_def)

lemma limbo_change_ok:
  assumes "limbo_ok se"
  shows "\<exists>se'. limbo_change_step target_id se change = Inr se' \<and> limbo_ok se' \<and> limbo_framed se se' \<and>
    (limbo_tracked se \<and> id_ok target_id \<longrightarrow> limbo_tracked se')"
proof (cases change)
  case (LimboAdded key)
  define se1 where "se1 = se\<lparr>se_limbo_document_refs := rs_AddReference key target_id (se_limbo_document_refs se)\<rparr>"
  have "limbo_ok se1" using assms by (simp add: limbo_ok_def se1_def)
  then obtain se' where t: "TrackLimboChange key se1 = Inr se'" "limbo_ok se'" "limbo_framed se1 se'"
      "se_limbo_document_refs se' = se_limbo_document_refs se1"
      "insert key (known_keys se1) \<subseteq> known_keys se'"
    using TrackLimboChange_ok by blast
  have k1: "known_keys se1 = known_keys se" by (simp add: se1_def known_keys_def)
  have "limbo_framed se se'" using t(3) by (simp add: se1_def limbo_framed_def)
  moreover have "limbo_tracked se'" if tr: "limbo_tracked se \<and> id_ok target_id"
  proof -
    have refs: "refs_ok (se_limbo_document_refs se)" "rs_ok (se_limbo_document_refs se)"
      using tr by (simp_all add: limbo_tracked_def refs_ok_def)
    have "ref_key ` rs_refs (se_limbo_document_refs se1) = insert key (ref_key ` rs_refs (se_limbo_document_refs se))"
      using refs(2) by (simp add: se1_def)
    moreover have "refs_ok (se_limbo_document_refs se1)" using refs_ok_ops(1)[OF refs(1)] tr by (simp add: se1_def)
    ultimately show ?thesis using tr t(4,5) k1 by (auto simp: limbo_tracked_def)
  qed
  ultimately show ?thesis using t(1,2) by (simp add: limbo_change_step_def LimboAdded se1_def)
next
  case (LimboRemoved key)
  define se1 where "se1 = se\<lparr>se_limbo_document_refs := rs_RemoveReference key target_id (se_limbo_document_refs se)\<rparr>"
  have ok1: "limbo_ok se1" using assms by (simp add: limbo_ok_def se1_def)
  have f1: "limbo_framed se se1" by (simp add: se1_def limbo_framed_def)
  have k1: "known_keys se1 = known_keys se" by (simp add: se1_def known_keys_def)
  have refs: "refs_ok (se_limbo_document_refs se1) \<and> rs_refs (se_limbo_document_refs se1) \<subseteq> rs_refs (se_limbo_document_refs se)"
    if "limbo_tracked se"
    using that refs_ok_ops(2) by (auto simp: limbo_tracked_def se1_def refs_ok_def)
  show ?thesis
  proof (cases "rs_ContainsKey key (se_limbo_document_refs se1)")
    case True
    have "limbo_tracked se1" if "limbo_tracked se" using refs[OF that] that k1 by (auto simp: limbo_tracked_def)
    then show ?thesis using True ok1 f1 by (simp add: limbo_change_step_def LimboRemoved se1_def)
  next
    case False
    obtain se' where r: "RemoveLimboTarget key se1 = Inr se'" "limbo_ok se'" "limbo_framed se1 se'"
        "se_limbo_document_refs se' = se_limbo_document_refs se1"
        "known_keys se1 - {key} \<subseteq> known_keys se'"
      using RemoveLimboTarget_ok[OF ok1] by blast
    have "limbo_tracked se'" if tr: "limbo_tracked se"
    proof -
      have "key \<notin> ref_key ` rs_refs (se_limbo_document_refs se1)"
        using False refs_ContainsKey[of "se_limbo_document_refs se1" key] refs[OF tr] by simp
      then have "ref_key ` rs_refs (se_limbo_document_refs se1) \<subseteq> known_keys se - {key}"
        using refs[OF tr] tr by (auto simp: limbo_tracked_def)
      then show ?thesis using refs[OF tr] r(4,5) k1 unfolding limbo_tracked_def by auto
    qed
    then show ?thesis
      using False r(1,2) limbo_framed_trans[OF f1 r(3)] by (simp add: limbo_change_step_def LimboRemoved se1_def)
  qed
qed

lemma UpdateTracked_ok:
  assumes "limbo_ok se"
  shows "\<exists>se'. UpdateTrackedLimboDocuments changes target_id se = Inr se' \<and> limbo_ok se' \<and> limbo_framed se se' \<and>
    (limbo_tracked se \<and> id_ok target_id \<longrightarrow> limbo_tracked se')"
  unfolding UpdateTrackedLimboDocuments_def
  using assms
proof (induction changes arbitrary: se)
  case (Cons c cs)
  obtain se1 where s: "limbo_change_step target_id se c = Inr se1" "limbo_ok se1" "limbo_framed se se1"
      "limbo_tracked se \<and> id_ok target_id \<longrightarrow> limbo_tracked se1"
    using limbo_change_ok[OF Cons.prems] by blast
  from Cons.IH[OF s(2)] show ?case using s limbo_framed_trans[OF s(3)] by auto
qed simp

section \<open>Every operation keeps the limbo queue\<close>

text \<open>Operations that call no callback of the user and keep those registered.\<close>

definition quiet :: "SyncEngine \<Rightarrow> SyncEngine \<Rightarrow> bool" where
  "quiet se se' =
     (se_current_user se' = se_current_user se \<and> se_has_callback se' = se_has_callback se \<and>
      se_mutation_callbacks se' = se_mutation_callbacks se \<and>
      se_pending_writes_callbacks se' = se_pending_writes_callbacks se \<and>
      se_max_concurrent_limbo_resolutions se' = se_max_concurrent_limbo_resolutions se \<and>
      (\<exists>out. se_output se' = se_output se @ out \<and> list_all (\<lambda>x. \<not> is_callback x) out))"

lemma quiet_refl [simp]: "quiet se se"
  by (simp add: quiet_def)

lemma quiet_trans: "quiet a b \<Longrightarrow> quiet b c \<Longrightarrow> quiet a c"
  by (auto simp: quiet_def)

lemma limbo_framed_quiet: "limbo_framed se se' \<Longrightarrow> quiet se se'"
  by (simp add: limbo_framed_def quiet_def)

lemma quiet_emit [simp]: "quiet se (emit out se) = (\<not> is_callback out)"
  by (auto simp: quiet_def emit_def)

lemma quiet_updates [simp]:
  "quiet se (se\<lparr>se_query_views_by_query := qv\<rparr>)" "quiet se (se\<lparr>se_queries_by_target := qt\<rparr>)"
  "quiet se (set_local_store ls se)"
  by (simp_all add: quiet_def set_local_store_def)

lemma limbo_ok_updates [simp]:
  "limbo_ok (emit out se) = limbo_ok se" "limbo_ok (set_local_store ls se) = limbo_ok se"
  "limbo_ok (se\<lparr>se_query_views_by_query := qv\<rparr>) = limbo_ok se" "limbo_ok (se\<lparr>se_queries_by_target := qt\<rparr>) = limbo_ok se"
  "limbo_ok (se\<lparr>se_mutation_callbacks := mc\<rparr>) = limbo_ok se" "limbo_ok (se\<lparr>se_pending_writes_callbacks := pc\<rparr>) = limbo_ok se"
  "limbo_ok (se\<lparr>se_current_user := u\<rparr>) = limbo_ok se"
  by (simp_all add: limbo_ok_def emit_def set_local_store_def)

definition keeps :: "SyncEngine \<Rightarrow> SyncEngine \<Rightarrow> bool" where
  "keeps se se' = (limbo_ok se' \<and> quiet se se')"

lemma keeps_trans: "keeps a b \<Longrightarrow> keeps b c \<Longrightarrow> keeps a c"
  by (auto simp: keeps_def intro: quiet_trans)

lemma UpdateTracked_keeps:
  "UpdateTrackedLimboDocuments changes target_id se = Inr se' \<Longrightarrow> limbo_ok se \<Longrightarrow> keeps se se'"
  using UpdateTracked_ok[of se changes target_id] limbo_framed_quiet by (auto simp: keeps_def)

lemma rbind_InrE:
  assumes "rbind r f = Inr y" obtains x where "r = Inr x" "f x = Inr y"
  using assms by (auto simp: rbind_Inr_conv)

lemma emit_step_cases:
  assumes "emit_step changes event (se, ss, cs) (query, qv) = Inr (se', ss', cs')"
  obtains se1 and vc :: ViewChange and view where "se1 = se \<or> (\<exists>ls. se1 = set_local_store ls se)"
    "UpdateTrackedLimboDocuments (vc_limbo_changes vc) (qv_target_id qv)
       (se1\<lparr>se_query_views_by_query := um_put Query_eq query (qv\<lparr>qv_view := view\<rparr>) (se_query_views_by_query se1)\<rparr>) = Inr se'"
  using assms unfolding emit_step_def prod.case Let_def
  apply (elim rbind_InrE)
  subgoal for vdc1 p
    apply (cases p)
    apply (simp only: prod.case)
    apply (erule rbind_InrE)
    subgoal for vdc se1 q
      apply (cases q)
      apply (rule that[of se1 "fst q" "snd q"])
       apply (auto simp: rbind_Inr_conv rmap_Inr_conv split: if_splits)[1]
      apply (auto simp: rmap_Inr_conv split: option.splits)
      done
    done
  done

lemma emit_step_keeps:
  assumes "emit_step changes event (se, ss, cs) e = Inr (se', ss', cs')" "limbo_ok se"
  shows "keeps se se'"
proof -
  obtain query qv where e: "e = (query, qv)" by (cases e)
  obtain se1 and vc :: ViewChange and view where s: "se1 = se \<or> (\<exists>ls. se1 = set_local_store ls se)"
      "UpdateTrackedLimboDocuments (vc_limbo_changes vc) (qv_target_id qv)
         (se1\<lparr>se_query_views_by_query := um_put Query_eq query (qv\<lparr>qv_view := view\<rparr>) (se_query_views_by_query se1)\<rparr>) = Inr se'"
    using emit_step_cases assms(1) unfolding e by metis
  have s1: "keeps se se1" using s(1) assms(2) by (auto simp: keeps_def)
  let ?se = "se1\<lparr>se_query_views_by_query := um_put Query_eq query (qv\<lparr>qv_view := view\<rparr>) (se_query_views_by_query se1)\<rparr>"
  have "keeps se ?se" using s1 quiet_trans[of se se1 ?se] by (simp add: keeps_def)
  moreover have "keeps ?se se'" using UpdateTracked_keeps[OF s(2)] s1 by (simp add: keeps_def)
  ultimately show ?thesis using keeps_trans by blast
qed

lemma Emit_keeps:
  assumes "EmitNewSnapshotsAndNotifyLocalStore changes event se = Inr se'" "limbo_ok se"
  shows "keeps se se'"
proof -
  obtain se1 ss cs ls where r: "rfold (emit_step changes event) (se, [], []) (se_query_views_by_query se) = Inr (se1, ss, cs)"
      "se' = set_local_store ls (emit (OnViewSnapshots ss) se1)"
    using assms(1) by (auto simp: EmitNewSnapshotsAndNotifyLocalStore_def rbind_Inr_conv rmap_Inr_conv Let_def split: prod.splits)
  have "keeps se (fst (se1, ss, cs))"
  proof (rule rfold_keeps[OF r(1), of "\<lambda>t. keeps se (fst t)"])
    show "keeps se (fst (se, [], []))" using assms(2) by (simp add: keeps_def)
  next
    fix t e t'
    assume t: "keeps se (fst t)" "emit_step changes event t e = Inr t'"
    obtain t1 t2 t3 u1 u2 u3 where "t = (t1, t2, t3)" "t' = (u1, u2, u3)" by (metis prod_cases3)
    then show "keeps se (fst t')"
      using t emit_step_keeps[of changes event t1 t2 t3 e u1 u2 u3] keeps_trans[of se t1 u1] by (simp add: keeps_def)
  qed
  then have k: "keeps se se1" by simp
  have "keeps se1 se'"
    using k quiet_trans[of se1 "emit (OnViewSnapshots ss) se1" se'] by (simp add: r(2) keeps_def is_callback_def)
  then show ?thesis using k keeps_trans by blast
qed

lemma remove_unreferenced_ok:
  assumes "limbo_ok se"
  shows "\<exists>se'. remove_unreferenced se key = Inr se' \<and> limbo_ok se' \<and> limbo_framed se se' \<and>
    (limbo_tracked se \<longrightarrow> limbo_tracked se')"
proof (cases "rs_ContainsKey key (se_limbo_document_refs se)")
  case False
  obtain se' where r: "RemoveLimboTarget key se = Inr se'" "limbo_ok se'" "limbo_framed se se'"
      "se_limbo_document_refs se' = se_limbo_document_refs se" "known_keys se - {key} \<subseteq> known_keys se'"
    using RemoveLimboTarget_ok[OF assms] by blast
  have "limbo_tracked se'" if tr: "limbo_tracked se"
  proof -
    have "key \<notin> ref_key ` rs_refs (se_limbo_document_refs se)"
      using False refs_ContainsKey[of "se_limbo_document_refs se" key] tr by (simp add: limbo_tracked_def)
    then show ?thesis using tr r(4,5) by (auto simp: limbo_tracked_def)
  qed
  then show ?thesis using r False by (simp add: remove_unreferenced_def)
qed (use assms in \<open>simp add: remove_unreferenced_def\<close>)

lemma remove_all_unreferenced_ok:
  assumes "limbo_ok se"
  shows "\<exists>se'. rfold remove_unreferenced se keys = Inr se' \<and> limbo_ok se' \<and> limbo_framed se se' \<and>
    (limbo_tracked se \<longrightarrow> limbo_tracked se')"
  using assms
proof (induction keys arbitrary: se)
  case (Cons k ks)
  obtain se1 where s: "remove_unreferenced se k = Inr se1" "limbo_ok se1" "limbo_framed se se1"
      "limbo_tracked se \<longrightarrow> limbo_tracked se1"
    using remove_unreferenced_ok[OF Cons.prems] by blast
  from Cons.IH[OF s(2)] show ?case using s limbo_framed_trans[OF s(3)] by auto
qed simp

lemma drop_queries_ok:
  "limbo_ok (foldl (drop_query status) se qs) = limbo_ok se" "limbo_tracked (foldl (drop_query status) se qs) = limbo_tracked se"
  "quiet se (foldl (drop_query status) se qs)"
  "se_queries_by_target (foldl (drop_query status) se qs) = se_queries_by_target se"
  "se_limbo_document_refs (foldl (drop_query status) se qs) = se_limbo_document_refs se"
proof -
  have step: "limbo_ok (drop_query status se q) = limbo_ok se \<and> limbo_tracked (drop_query status se q) = limbo_tracked se \<and>
      quiet se (drop_query status se q) \<and> se_queries_by_target (drop_query status se q) = se_queries_by_target se \<and>
      se_limbo_document_refs (drop_query status se q) = se_limbo_document_refs se" for se q
    by (auto simp: drop_query_def Let_def limbo_ok_def limbo_tracked_def known_keys_def emit_def quiet_def is_callback_def)
  show "limbo_ok (foldl (drop_query status) se qs) = limbo_ok se" "limbo_tracked (foldl (drop_query status) se qs) = limbo_tracked se"
    "se_queries_by_target (foldl (drop_query status) se qs) = se_queries_by_target se"
    "se_limbo_document_refs (foldl (drop_query status) se qs) = se_limbo_document_refs se"
    using step by (induction qs arbitrary: se) auto
  show "quiet se (foldl (drop_query status) se qs)"
  proof (induction qs arbitrary: se)
    case (Cons q qs)
    show ?case using quiet_trans[OF _ Cons.IH[of "drop_query status se q"], of se] step by simp
  qed simp
qed

lemma RemoveAndCleanupTarget_ok:
  assumes "limbo_ok se" "um_find (=) target_id (se_queries_by_target se) = Some qs"
  shows "\<exists>se'. RemoveAndCleanupTarget target_id status se = Inr se' \<and> keeps se se' \<and>
    (limbo_tracked se \<and> id_ok target_id \<longrightarrow> limbo_tracked se')"
proof -
  define se1 where "se1 = foldl (drop_query status) se qs"
  define se2 where "se2 = se1\<lparr>se_queries_by_target := um_erase (=) target_id (se_queries_by_target se1)\<rparr>"
  obtain removed refs where rr: "rs_RemoveReferences target_id (se_limbo_document_refs se) = (removed, refs)" by force
  define se3 where "se3 = se2\<lparr>se_limbo_document_refs := refs\<rparr>"
  have rs: "rs_ok (se_limbo_document_refs se)" using assms(1) by (simp add: limbo_ok_def)
  have refs: "rs_ok refs" using foldl_rs_remove[OF rs] rr by (simp add: rs_RemoveReferences_def)
  have q3: "quiet se se3"
    using drop_queries_ok(3)[of se status qs] by (simp add: se3_def se2_def se1_def quiet_def)
  have ok3: "limbo_ok se3"
    using drop_queries_ok(1)[of status se qs] assms(1) refs by (simp add: se3_def se2_def se1_def[symmetric] limbo_ok_def)
  have tr3: "limbo_tracked se3" if "limbo_tracked se" "id_ok target_id"
  proof -
    have "sint target_id < 2 ^ 31 - 1" using that(2) by (simp add: id_ok_def)
    note r = rs_RemoveReferences_ok[OF rs this rr]
    have "limbo_tracked se1" using that(1) by (simp add: se1_def drop_queries_ok)
    then show ?thesis
      using r(1,2) drop_queries_ok(5)[of status se qs]
      by (auto simp: limbo_tracked_def se3_def se2_def se1_def[symmetric] refs_ok_def known_keys_def)
  qed
  obtain se' where f: "rfold remove_unreferenced se3 (rs_ReferencedKeys target_id (se_limbo_document_refs se)) = Inr se'"
      "limbo_ok se'" "limbo_framed se3 se'" "limbo_tracked se3 \<longrightarrow> limbo_tracked se'"
    using remove_all_unreferenced_ok[OF ok3] by blast
  have "RemoveAndCleanupTarget target_id status se = Inr se'"
    using f(1) assms(2) rr drop_queries_ok(5)[of status se qs]
    by (simp add: RemoveAndCleanupTarget_def Let_def se3_def se2_def se1_def)
  then show ?thesis using f(2,4) tr3 quiet_trans[OF q3 limbo_framed_quiet[OF f(3)]] by (simp add: keeps_def)
qed

lemma UpdateTracked_limbo_ok:
  "UpdateTrackedLimboDocuments changes target_id se = Inr se' \<Longrightarrow> limbo_ok se \<Longrightarrow> limbo_ok se'"
  using UpdateTracked_keeps by (simp add: keeps_def)

lemma Emit_limbo_ok: "EmitNewSnapshotsAndNotifyLocalStore changes event se = Inr se' \<Longrightarrow> limbo_ok se \<Longrightarrow> limbo_ok se'"
  using Emit_keeps by (simp add: keeps_def)

lemma Cleanup_limbo_ok: "RemoveAndCleanupTarget target_id status se = Inr se' \<Longrightarrow> limbo_ok se \<Longrightarrow> limbo_ok se'"
  using RemoveAndCleanupTarget_ok[of se target_id _ status]
  by (cases "um_find (=) target_id (se_queries_by_target se)") (auto simp: keeps_def RemoveAndCleanupTarget_def)

lemma Initialize_limbo_ok:
  assumes "InitializeViewAndComputeSnapshot query target_id se = Inr (snapshot, se')" "limbo_ok se"
  shows "limbo_ok se'"
  using assms UpdateTracked_limbo_ok
  by (fastforce simp: InitializeViewAndComputeSnapshot_def Let_def rbind_Inr_conv split: prod.splits option.splits)

lemma callback_limbo_ok [simp]:
  "limbo_ok (NotifyUser batch_id status se) = limbo_ok se" "limbo_ok (call_all status cs se) = limbo_ok se"
  "limbo_ok (TriggerPendingWriteCallbacks batch_id se) = limbo_ok se"
  "limbo_ok (FailOutstandingPendingWriteCallbacks message se) = limbo_ok se"
  "limbo_ok (add_mutation_callback batch_id callback se) = limbo_ok se"
proof -
  show c: "limbo_ok (call_all status cs se) = limbo_ok se" for status cs se
    by (induction cs arbitrary: se) (simp_all add: call_all_def)
  show "limbo_ok (NotifyUser batch_id status se) = limbo_ok se"
    by (simp add: NotifyUser_def split: option.split)
  show "limbo_ok (TriggerPendingWriteCallbacks batch_id se) = limbo_ok se"
    by (simp add: TriggerPendingWriteCallbacks_def c split: option.split)
  have "limbo_ok (foldl (\<lambda>se entry. call_all st (snd entry) se) se es) = limbo_ok se" for st se and es :: "(BatchId \<times> StatusCallback list) list"
    by (induction es arbitrary: se) (simp_all add: c)
  then show "limbo_ok (FailOutstandingPendingWriteCallbacks message se) = limbo_ok se"
    by (simp add: FailOutstandingPendingWriteCallbacks_def)
  show "limbo_ok (add_mutation_callback batch_id callback se) = limbo_ok se"
    by (simp add: add_mutation_callback_def Let_def)
qed

lemma limbo_event_limbo_ok:
  "rfold limbo_event_step se changes = Inr se' \<Longrightarrow> limbo_ok se \<Longrightarrow> limbo_ok se'"
  by (erule rfold_keeps)
    (auto simp: limbo_event_step_def Let_def limbo_ok_def split: option.splits if_splits)

lemma ApplyRemoteEvent_limbo_ok:
  assumes "se_ApplyRemoteEvent event se = Inr se'" "limbo_ok se"
  shows "limbo_ok se'"
proof -
  obtain se1 changes ls where "rfold limbo_event_step se (re_target_changes event) = Inr se1"
      "EmitNewSnapshotsAndNotifyLocalStore changes (Some event) (set_local_store ls se1) = Inr se'"
    using assms(1) by (auto simp: se_ApplyRemoteEvent_def AssertCallbackExists_def rbind_Inr_conv split: prod.splits)
  then show ?thesis using Emit_limbo_ok limbo_event_limbo_ok assms(2) by fastforce
qed

lemma RejectedListen_limbo_ok:
  assumes "HandleRejectedListen target_id status se = Inr se'" "limbo_ok se"
  shows "limbo_ok se'"
proof (cases "um_find (=) target_id (se_active_limbo_resolutions_by_target se)")
  case None
  then obtain ls where "RemoveAndCleanupTarget target_id status (set_local_store ls se) = Inr se'"
    using assms(1) by (auto simp: HandleRejectedListen_def AssertCallbackExists_def rbind_Inr_conv)
  from Cleanup_limbo_ok[OF this] show ?thesis using assms(2) by simp
next
  case (Some r)
  define se1 where "se1 = se\<lparr>se_active_limbo_targets_by_key := dm_erase (lr_key r) (se_active_limbo_targets_by_key se),
    se_active_limbo_resolutions_by_target := um_erase (=) target_id (se_active_limbo_resolutions_by_target se)\<rparr>"
  have "dm_ok (se_active_limbo_targets_by_key se)" using assms(2) by (simp add: limbo_ok_def)
  then obtain se2 where "PumpEnqueuedLimboResolutions se1 = Inr se2" "limbo_ok se2"
    using Pump_keeps[of se1] assms(2) dm_length_erase[of "se_active_limbo_targets_by_key se" "lr_key r"]
    by (auto simp: se1_def limbo_ok_def)
  then show ?thesis
    using assms(1) Some ApplyRemoteEvent_limbo_ok
    by (auto simp: HandleRejectedListen_def AssertCallbackExists_def Let_def se1_def)
qed

lemma StopListening_limbo_ok:
  assumes "se_StopListening query se = Inr se'" "limbo_ok se"
  shows "limbo_ok se'"
proof -
  obtain qv where qv: "um_find Query_eq query (se_query_views_by_query se) = Some qv"
    using assms(1) by (auto simp: se_StopListening_def AssertCallbackExists_def split: option.splits)
  define se1 where "se1 = se\<lparr>se_query_views_by_query := um_erase Query_eq query (se_query_views_by_query se)\<rparr>"
  obtain qs where qs: "(if qs = []
      then rbind (ReleaseTarget (qv_target_id qv)
               (se_local_store (se1\<lparr>se_queries_by_target := um_put (=) (qv_target_id qv) qs (se_queries_by_target se1)\<rparr>))) (\<lambda>ls.
             RemoveAndCleanupTarget (qv_target_id qv) Status_OK (emit (RemoteStopListening (qv_target_id qv))
               (set_local_store ls (se1\<lparr>se_queries_by_target := um_put (=) (qv_target_id qv) qs (se_queries_by_target se1)\<rparr>))))
      else Inr (se1\<lparr>se_queries_by_target := um_put (=) (qv_target_id qv) qs (se_queries_by_target se1)\<rparr>)) = Inr se'"
    using assms(1) qv
    by (auto simp: se_StopListening_def AssertCallbackExists_def Let_def se1_def[symmetric] rbind_Inr_conv)
  show ?thesis
  proof (cases "qs = []")
    case True
    then obtain ls where "RemoveAndCleanupTarget (qv_target_id qv) Status_OK (emit (RemoteStopListening (qv_target_id qv))
        (set_local_store ls (se1\<lparr>se_queries_by_target := um_put (=) (qv_target_id qv) qs (se_queries_by_target se1)\<rparr>))) = Inr se'"
      using qs by (auto simp: rbind_Inr_conv)
    from Cleanup_limbo_ok[OF this] show ?thesis using assms(2) by (simp add: se1_def)
  next
    case False
    then show ?thesis using qs assms(2) by (auto simp: se1_def)
  qed
qed

lemma online_limbo_ok:
  assumes "rfold (online_step online) (se, ss) es = Inr (se', ss')" "limbo_ok se"
  shows "limbo_ok se'"
  using assms
proof (induction es arbitrary: se ss)
  case (Cons e es)
  obtain se1 ss1 where s: "online_step online (se, ss) e = Inr (se1, ss1)" "rfold (online_step online) (se1, ss1) es = Inr (se', ss')"
    using Cons.prems(1) by (auto split: sum.splits)
  have "limbo_ok se1"
    using s(1) Cons.prems(2) by (cases e) (auto simp: online_step_def rbind_Inr_conv Let_def split: prod.splits)
  then show ?case using Cons.IH[OF s(2)] by blast
qed simp

section \<open>Reachable states\<close>

inductive sync_step :: "SyncEngine \<Rightarrow> SyncEngine \<Rightarrow> bool" where
  set_callback: "sync_step se (se_SetCallback se)"
| listen: "se_Listen query se = Inr (target_id, se') \<Longrightarrow> sync_step se se'"
| stop_listening: "se_StopListening query se = Inr se' \<Longrightarrow> sync_step se se'"
| write_mutations: "WriteMutations t ms callback se = Inr se' \<Longrightarrow> sync_step se se'"
| pending_writes: "RegisterPendingWritesCallback callback se = Inr se' \<Longrightarrow> sync_step se se'"
| credential_change: "se_HandleCredentialChange user se = Inr se' \<Longrightarrow> sync_step se se'"
| remote_event: "se_ApplyRemoteEvent event se = Inr se' \<Longrightarrow> sync_step se se'"
| rejected_listen: "HandleRejectedListen target_id status se = Inr se' \<Longrightarrow> sync_step se se'"
| successful_write: "HandleSuccessfulWrite batch_result se = Inr se' \<Longrightarrow> sync_step se se'"
| rejected_write: "HandleRejectedWrite batch_id status se = Inr se' \<Longrightarrow> sync_step se se'"
| online_state: "se_HandleOnlineStateChange online se = Inr se' \<Longrightarrow> sync_step se se'"

inductive sync_reachable :: "SyncEngine \<Rightarrow> bool" where
  start: "make_SyncEngine ls user n = Inr se \<Longrightarrow> sync_reachable se"
| step: "sync_reachable se \<Longrightarrow> sync_step se se' \<Longrightarrow> sync_reachable se'"

lemma sync_step_limbo_ok: "sync_step se se' \<Longrightarrow> limbo_ok se \<Longrightarrow> limbo_ok se'"
proof (induction rule: sync_step.induct)
  case (set_callback se)
  then show ?case by (simp add: se_SetCallback_def limbo_ok_def)
next
  case (listen query se target_id se')
  then show ?case
    using Initialize_limbo_ok
    by (fastforce simp: se_Listen_def AssertCallbackExists_def rbind_Inr_conv rmap_Inr_conv split: prod.splits)
next
  case (stop_listening query se se')
  then show ?case by (rule StopListening_limbo_ok)
next
  case (write_mutations t ms callback se se')
  then show ?case
    using Emit_limbo_ok
    by (fastforce simp: WriteMutations_def AssertCallbackExists_def rbind_Inr_conv rmap_Inr_conv Let_def split: prod.splits)
next
  case (pending_writes callback se se')
  then show ?case
    by (auto simp: RegisterPendingWritesCallback_def rmap_Inr_conv Let_def split: prod.splits if_splits)
next
  case (credential_change user se se')
  then show ?case
    using Emit_limbo_ok
    by (fastforce simp: se_HandleCredentialChange_def rbind_Inr_conv rmap_Inr_conv Let_def split: prod.splits if_splits)
next
  case (remote_event event se se')
  then show ?case by (rule ApplyRemoteEvent_limbo_ok)
next
  case (rejected_listen target_id status se se')
  then show ?case by (rule RejectedListen_limbo_ok)
next
  case (successful_write batch_result se se')
  then show ?case
    using Emit_limbo_ok
    by (fastforce simp: HandleSuccessfulWrite_def AssertCallbackExists_def rbind_Inr_conv Let_def split: prod.splits)
next
  case (rejected_write batch_id status se se')
  then show ?case
    using Emit_limbo_ok
    by (fastforce simp: HandleRejectedWrite_def AssertCallbackExists_def rbind_Inr_conv Let_def split: prod.splits)
next
  case (online_state online se se')
  then show ?case
    using online_limbo_ok
    by (fastforce simp: se_HandleOnlineStateChange_def AssertCallbackExists_def rmap_Inr_conv split: prod.splits)
qed

theorem reachable_limbo_ok: "sync_reachable se \<Longrightarrow> limbo_ok se"
proof (induction rule: sync_reachable.induct)
  case (start ls user n se)
  then show ?case by (auto simp: make_SyncEngine_def rmap_Inr_conv limbo_ok_def)
next
  case (step se se')
  then show ?case using sync_step_limbo_ok by blast
qed

section \<open>Callbacks of the user\<close>

definition write_callback :: "BatchId \<Rightarrow> SyncEngine \<Rightarrow> StatusCallback option" where
  "write_callback batch_id se = um_find (=) batch_id (callbacks_of (se_current_user se) se)"

definition waiting_callbacks :: "BatchId \<Rightarrow> SyncEngine \<Rightarrow> StatusCallback list" where
  "waiting_callbacks batch_id se =
     (case um_find (=) batch_id (se_pending_writes_callbacks se) of None \<Rightarrow> [] | Some cs \<Rightarrow> cs)"

definition calls :: "Status \<Rightarrow> StatusCallback list \<Rightarrow> sync_output list" where
  "calls status cs = map (\<lambda>c. CallStatusCallback c status) cs"

lemma call_all_eq: "call_all status cs se = se\<lparr>se_output := se_output se @ calls status cs\<rparr>"
  by (induction cs arbitrary: se) (simp_all add: call_all_def emit_def calls_def)

lemma NotifyUser_calls:
  "se_output (NotifyUser i status se) = se_output se @ calls status (case write_callback i se of None \<Rightarrow> [] | Some c \<Rightarrow> [c])"
  "write_callback j (NotifyUser i status se) = (if j = i then None else write_callback j se)"
  "waiting_callbacks j (NotifyUser i status se) = waiting_callbacks j se"
  by (auto simp: NotifyUser_def write_callback_def waiting_callbacks_def callbacks_of_def emit_def calls_def
      user_eq.um_find_put plain_eq.um_find_erase user_eq.refl split: option.splits)

lemma Trigger_calls:
  "se_output (TriggerPendingWriteCallbacks i se) = se_output se @ calls Status_OK (waiting_callbacks i se)"
  "write_callback j (TriggerPendingWriteCallbacks i se) = write_callback j se"
  "waiting_callbacks j (TriggerPendingWriteCallbacks i se) = (if j = i then [] else waiting_callbacks j se)"
  by (auto simp: TriggerPendingWriteCallbacks_def call_all_eq write_callback_def waiting_callbacks_def callbacks_of_def
      calls_def plain_eq.um_find_erase split: option.splits)

lemma quiet_callbacks:
  assumes "quiet se se'"
  shows "write_callback i se' = write_callback i se" "waiting_callbacks i se' = waiting_callbacks i se"
    "\<exists>out. se_output se' = se_output se @ out \<and> list_all (\<lambda>x. \<not> is_callback x) out"
  using assms by (simp_all add: quiet_def write_callback_def waiting_callbacks_def callbacks_of_def)

text \<open>
  Both outcomes of a write call the callback of its batch and those that wait for it, each once, before
  any snapshot, and forget them.
\<close>

definition batch_called :: "Status \<Rightarrow> BatchId \<Rightarrow> SyncEngine \<Rightarrow> SyncEngine \<Rightarrow> bool" where
  "batch_called status i se se' =
     ((\<exists>out. se_output se' = se_output se @ calls status (case write_callback i se of None \<Rightarrow> [] | Some c \<Rightarrow> [c]) @
          calls Status_OK (waiting_callbacks i se) @ out \<and> list_all (\<lambda>x. \<not> is_callback x) out) \<and>
      (\<forall>j. write_callback j se' = (if j = i then None else write_callback j se) \<and>
           waiting_callbacks j se' = (if j = i then [] else waiting_callbacks j se)))"

lemma notify_then_emit:
  assumes "quiet (TriggerPendingWriteCallbacks i (NotifyUser i status se)) se'"
  shows "batch_called status i se se'"
proof -
  obtain out where "se_output se' = se_output (TriggerPendingWriteCallbacks i (NotifyUser i status se)) @ out"
      "list_all (\<lambda>x. \<not> is_callback x) out"
    using quiet_callbacks(3)[OF assms] by blast
  moreover have "write_callback j se' = (if j = i then None else write_callback j se)"
    "waiting_callbacks j se' = (if j = i then [] else waiting_callbacks j se)" for j
    by (simp_all add: quiet_callbacks(1,2)[OF assms] Trigger_calls NotifyUser_calls)
  ultimately show ?thesis by (simp add: batch_called_def Trigger_calls NotifyUser_calls)
qed

lemma SuccessfulWrite_calls:
  assumes "HandleSuccessfulWrite br se = Inr se'" "limbo_ok se"
  shows "batch_called Status_OK (mb_batch_id (mbr_batch br)) se se'"
proof (rule notify_then_emit)
  let ?se = "TriggerPendingWriteCallbacks (mb_batch_id (mbr_batch br)) (NotifyUser (mb_batch_id (mbr_batch br)) Status_OK se)"
  obtain changes ls where "EmitNewSnapshotsAndNotifyLocalStore changes None (set_local_store ls ?se) = Inr se'"
    using assms(1) by (auto simp: HandleSuccessfulWrite_def AssertCallbackExists_def Let_def rbind_Inr_conv split: prod.splits)
  from Emit_keeps[OF this] have "quiet (set_local_store ls ?se) se'" using assms(2) by (simp add: keeps_def)
  then show "quiet ?se se'" using quiet_trans[of ?se "set_local_store ls ?se"] by simp
qed

lemma RejectedWrite_calls:
  assumes "HandleRejectedWrite i status se = Inr se'" "limbo_ok se"
  shows "batch_called status i se se'"
proof -
  obtain changes ls where
    "EmitNewSnapshotsAndNotifyLocalStore changes None (TriggerPendingWriteCallbacks i (NotifyUser i status (set_local_store ls se))) = Inr se'"
    using assms(1) by (auto simp: HandleRejectedWrite_def AssertCallbackExists_def Let_def rbind_Inr_conv split: prod.splits)
  from Emit_keeps[OF this] have "quiet (TriggerPendingWriteCallbacks i (NotifyUser i status (set_local_store ls se))) se'"
    using assms(2) by (simp add: keeps_def)
  then have "batch_called status i (set_local_store ls se) se'" by (rule notify_then_emit)
  then show ?thesis
    by (simp add: batch_called_def set_local_store_def write_callback_def waiting_callbacks_def callbacks_of_def)
qed

lemma WriteMutations_registers:
  assumes "WriteMutations t ms callback se = Inr se'" "limbo_ok se"
  shows "\<exists>i. (\<exists>res ls. WriteLocally t ms (se_local_store se) = Inr (res, ls) \<and> lwr_batch_id res = i) \<and>
    write_callback i se' = (case write_callback i se of None \<Rightarrow> Some callback | Some c \<Rightarrow> Some c) \<and>
    (\<forall>j. j \<noteq> i \<longrightarrow> write_callback j se' = write_callback j se) \<and>
    (\<exists>out. se_output se' = se_output se @ out \<and> list_all (\<lambda>x. \<not> is_callback x) out)"
proof -
  obtain res ls where w: "WriteLocally t ms (se_local_store se) = Inr (res, ls)"
    using assms(1) by (auto simp: WriteMutations_def AssertCallbackExists_def rbind_Inr_conv)
  define i where "i = lwr_batch_id res"
  define se1 where "se1 = add_mutation_callback i callback (set_local_store ls se)"
  obtain se2 where e: "EmitNewSnapshotsAndNotifyLocalStore (lwr_changes res) None se1 = Inr se2" "se' = emit FillWritePipeline se2"
    using assms(1) w by (auto simp: WriteMutations_def AssertCallbackExists_def Let_def rmap_Inr_conv i_def se1_def)
  have "quiet se1 se2" using Emit_keeps[OF e(1)] assms(2) by (simp add: se1_def keeps_def)
  then have "quiet se1 se'" using quiet_trans[of se1 se2 se'] e(2) by (simp add: is_callback_def)
  note q = quiet_callbacks[OF this]
  have "write_callback j se1 =
      (if j = i then (case write_callback i se of None \<Rightarrow> Some callback | Some c \<Rightarrow> Some c) else write_callback j se)" for j
    by (auto simp: se1_def add_mutation_callback_def Let_def write_callback_def callbacks_of_def set_local_store_def
        user_eq.um_find_put user_eq.refl plain_eq.um_find_put split: option.splits)
  moreover have "se_output se1 = se_output se" by (simp add: se1_def add_mutation_callback_def Let_def set_local_store_def)
  ultimately show ?thesis using w q by (intro exI[of _ i]) (auto simp: i_def)
qed

lemma notify_nothing:
  assumes "ls_ok ls" "rd_ready (ls_delegate ls)" shows "\<exists>ls'. NotifyLocalViewChanges [] ls = Inr ls'"
proof -
  have "\<exists>a ls'. ls_Run (\<lambda>ls. rmap (Pair ()) (rfold view_change_step ls [])) ls = Inr (a, ls') \<and> True"
    using assms by (rule ls_Run_rule) (auto simp: opened_def)
  then show ?thesis by (auto simp: NotifyLocalViewChanges_def)
qed

section \<open>Two runs that resolve documents that are not in limbo\<close>

definition limbo_run :: "SyncEngine \<Rightarrow> (LimboDocumentChange list \<times> TargetId) list \<Rightarrow> SyncEngine result" where
  "limbo_run se changes = rfold (\<lambda>se (cs, target_id). UpdateTrackedLimboDocuments cs target_id se) se changes"

definition limbo_targets :: "sync_output list \<Rightarrow> TargetId set" where
  "limbo_targets out =
     set (concat (map (\<lambda>x. case x of RemoteListen td \<Rightarrow> [td_target_id td] | _ \<Rightarrow> []) out)) -
     set (concat (map (\<lambda>x. case x of RemoteStopListening i \<Rightarrow> [i] | _ \<Rightarrow> []) out))"

lemmas run_limbo = limbo_run_def UpdateTrackedLimboDocuments_def limbo_change_step_def TrackLimboChange_def RemoveLimboTarget_def
  PumpEnqueuedLimboResolutions.simps start_limbo_resolution_def emit_def tig_NextId_def kReservedBits_def
  emplace_limbo_target_def emplace_resolution_def make_LimboResolution_def make_TargetData_def
  rs_AddReference_def rs_RemoveReference_def rs_remove_def rs_ContainsKey_def values_from_def ref_ByKey_def ref_ById_def
  dm_get_def dm_insert_def dm_erase_def DocumentKey_CompareTo_Default DefaultCompare_def um_find_def um_erase_def Let_def

definition fresh_engine :: "LocalStore \<Rightarrow> User \<Rightarrow> nat \<Rightarrow> SyncEngine" where
  "fresh_engine ls user n =
     \<lparr>se_local_store = ls, se_current_user = user, se_has_callback = False,
      se_target_id_generator = \<lparr>tig_generator_id = GenSyncEngine, tig_next_id = 1\<rparr>, se_mutation_callbacks = [],
      se_pending_writes_callbacks = [], se_query_views_by_query = [], se_queries_by_target = [],
      se_max_concurrent_limbo_resolutions = n, se_enqueued_limbo_resolutions = [], se_active_limbo_targets_by_key = [],
      se_active_limbo_resolutions_by_target = [], se_limbo_document_refs = rs_new, se_output = []\<rparr>"

lemma make_SyncEngine_eq: "make_SyncEngine ls user n = Inr (fresh_engine ls user n)"
  by (simp add: make_SyncEngine_def SyncEngineTargetIdGenerator_def make_TargetIdGenerator_def tig_seek_def fresh_engine_def)

text \<open>A document that left limbo while it waited is resolved nevertheless and keeps the slot it takes.\<close>

lemma waiting_document_not_forgotten:
  "\<exists>se. limbo_run (fresh_engine ls user 1)
       [([LimboAdded [''r'', ''a''], LimboAdded [''r'', ''b'']], 2), ([LimboRemoved [''r'', ''b'']], 2),
        ([LimboRemoved [''r'', ''a'']], 2), ([LimboAdded [''r'', ''c'']], 2)] = Inr se \<and>
    se_active_limbo_targets_by_key se = [([''r'', ''b''], 3)] \<and> se_enqueued_limbo_resolutions se = [[''r'', ''c'']] \<and>
    rs_refs (se_limbo_document_refs se) = {\<lparr>ref_key = [''r'', ''c''], ref_id = 2\<rparr>}"
proof -
  obtain T where t: "\<And>k. ToTarget (make_Query k None) = Inr (T k)" using limbo_target_exists by metis
  show ?thesis by (simp add: run_limbo fresh_engine_def rs_new_def rs_refs_def t)
qed

text \<open>
  A document that two targets put in limbo while it waits is queued twice; its second resolution is not in
  the map by key, so that its target is never stopped.
\<close>

lemma document_resolved_twice:
  "\<exists>se. limbo_run (fresh_engine ls user 2)
       [([LimboAdded [''r'', ''a''], LimboAdded [''r'', ''b''], LimboAdded [''r'', ''c'']], 2), ([LimboAdded [''r'', ''c'']], 4),
        ([LimboRemoved [''r'', ''a''], LimboRemoved [''r'', ''b''], LimboRemoved [''r'', ''c'']], 2),
        ([LimboRemoved [''r'', ''c'']], 4)] = Inr se \<and>
    rs_refs (se_limbo_document_refs se) = {} \<and> se_active_limbo_targets_by_key se = [] \<and> limbo_targets (se_output se) = {7}"
proof -
  obtain T where t: "\<And>k. ToTarget (make_Query k None) = Inr (T k)" using limbo_target_exists by metis
  show ?thesis by (simp add: run_limbo fresh_engine_def rs_new_def rs_refs_def t limbo_targets_def) auto
qed

end
