(* ===== verification/LocalStoreViews.thy ===== *)
theory LocalStoreViews
  imports LocalStoreAcks
begin

text \<open>
  What the views do with the local store: they run queries, tell it which documents they show, and
  allocate the targets they listen to.
\<close>

section \<open>References of the views\<close>

abbreviation view_references :: "LocalStore \<Rightarrow> DocumentKeyReference set" where
  "view_references ls \<equiv> rs_refs (local_view_references ls)"

lemma local_view_references_ok: "ls_ok ls \<Longrightarrow> refs_ok (local_view_references ls)"
  by (auto simp: ls_ok_def store_ok_def mp_ok_def local_view_references_def ls_delegate_def split: option.splits)

lemma rd_pins [simp]:
  "rd_additional_references (rd_AddInMemoryPins s rd) = Some s" "is_eager (rd_AddInMemoryPins s rd) = is_eager rd"
  "rd_open (rd_AddInMemoryPins s rd) = rd_open rd" "rd_orphaned (rd_AddInMemoryPins s rd) = rd_orphaned rd"
  by (cases rd; simp)+

text \<open>What telling the store about views leaves alone.\<close>

definition notified :: "LocalStore \<Rightarrow> LocalStore \<Rightarrow> bool" where
  "notified ls ls' =
     (ls_user ls' = ls_user ls \<and> ls_target_id_generator ls' = ls_target_id_generator ls \<and>
      ls_target_id_by_target ls' = ls_target_id_by_target ls \<and>
      mp_target_cache (ls_persistence ls') = mp_target_cache (ls_persistence ls) \<and>
      mp_mutation_queues (ls_persistence ls') = mp_mutation_queues (ls_persistence ls) \<and>
      mp_index_manager (ls_persistence ls') = mp_index_manager (ls_persistence ls) \<and>
      is_eager (ls_delegate ls') = is_eager (ls_delegate ls) \<and>
      (\<forall>i. map_option td_target (um_find (=) i (ls_target_data_by_target ls')) =
        map_option td_target (um_find (=) i (ls_target_data_by_target ls))))"

lemma notified_trans: "notified a b \<Longrightarrow> notified b c \<Longrightarrow> notified a c"
  by (simp add: notified_def)

lemma notified_refl [simp]: "notified a a"
  by (simp add: notified_def)

lemma notified_queue: "notified ls ls' \<Longrightarrow> ls_queue ls' = ls_queue ls"
  by (simp add: notified_def ls_queue_def queue_of_def)

lemma set_references_ok:
  assumes "ls_ok ls" "refs_ok s"
  shows "ls_ok (set_local_view_references s ls)" "notified ls (set_local_view_references s ls)"
    "local_view_references (set_local_view_references s ls) = s" "remote (set_local_view_references s ls) = remote ls"
    "ls_delegate (set_local_view_references s ls) = rd_AddInMemoryPins s (ls_delegate ls)"
    "ls_target_data_by_target (set_local_view_references s ls) = ls_target_data_by_target ls"
  using assms
  by (auto simp: set_local_view_references_def ls_ok_def set_ls_delegate_def store_ok_def mp_ok_def batches_ok_def parents_ok_def
      written_def live_ok_def generator_ok_def ls_delegate_def notified_def local_view_references_def remote_def fun_eq_iff)

lemma rd_RemoveReferences_ok:
  "rd_open rd \<Longrightarrow> \<exists>rd'. rfold (\<lambda>rd key. rd_RemoveReference key rd) rd ks = Inr rd' \<and> rd_same rd rd' \<and>
     rd_orphaned rd' = rd_orphaned rd \<union> (if is_eager rd then set ks else {})"
proof (induction ks arbitrary: rd)
  case (Cons k ks)
  obtain rd1 where r: "rd_RemoveReference k rd = Inr rd1" "rd_same rd rd1"
      "rd_orphaned rd1 = (if is_eager rd then insert k (rd_orphaned rd) else {})"
    using rd_RemoveReference_ok[OF Cons.prems] by blast
  moreover obtain rd2 where "rfold (\<lambda>rd key. rd_RemoveReference key rd) rd1 ks = Inr rd2" "rd_same rd1 rd2"
      "rd_orphaned rd2 = rd_orphaned rd1 \<union> (if is_eager rd1 then set ks else {})"
    using Cons.IH[of rd1] r(2) Cons.prems by (auto simp: rd_same_def)
  moreover have "rd_orphaned rd = {}" if "\<not> is_eager rd" using that by (cases rd) simp_all
  ultimately show ?case using rd_same_trans[of rd rd1 rd2] by (auto simp: rd_same_def)
qed auto

lemma update_target_data_ok:
  assumes "ls_ok ls" "um_find (=) i (ls_target_data_by_target ls) = Some td" "td_target td' = td_target td" "td_target_id td' = i"
  shows "ls_ok (ls\<lparr>ls_target_data_by_target := um_put (=) i td' (ls_target_data_by_target ls)\<rparr>)"
    "notified ls (ls\<lparr>ls_target_data_by_target := um_put (=) i td' (ls_target_data_by_target ls)\<rparr>)"
proof -
  have l: "live_ok ls" using assms(1) by (simp add: ls_ok_def)
  then have "td_target_id td = i" using assms(2) by (simp add: live_ok_def)
  with l have "live_ok (ls\<lparr>ls_target_data_by_target := um_put (=) i td' (ls_target_data_by_target ls)\<rparr>)"
    using assms(2-4) by (auto simp: live_ok_def plain_eq.um_find_put) (metis option.inject)
  then show "ls_ok (ls\<lparr>ls_target_data_by_target := um_put (=) i td' (ls_target_data_by_target ls)\<rparr>)"
    using assms(1) by (simp add: ls_ok_def generator_ok_def ls_delegate_def)
  show "notified ls (ls\<lparr>ls_target_data_by_target := um_put (=) i td' (ls_target_data_by_target ls)\<rparr>)"
    using assms(2,3) by (simp add: notified_def plain_eq.um_find_put ls_delegate_def)
qed


section \<open>Telling the store what the views show\<close>

definition changed_references :: "LocalViewChanges list \<Rightarrow> DocumentKeyReference set \<Rightarrow> DocumentKeyReference set" where
  "changed_references changes refs = foldl (\<lambda>refs c.
     (refs \<union> (\<lambda>k. \<lparr>ref_key = k, ref_id = lvc_target_id c\<rparr>) ` set (lvc_added_keys c)) -
     (\<lambda>k. \<lparr>ref_key = k, ref_id = lvc_target_id c\<rparr>) ` set (lvc_removed_keys c)) refs changes"

definition view_change_ok :: "LocalStore \<Rightarrow> LocalViewChanges \<Rightarrow> bool" where
  "view_change_ok ls c = (id_ok (lvc_target_id c) \<and>
     (\<not> lvc_from_cache c \<longrightarrow> um_find (=) (lvc_target_id c) (ls_target_data_by_target ls) \<noteq> None))"

lemma view_change_ok_notified: "notified ls ls' \<Longrightarrow> view_change_ok ls' c = view_change_ok ls c"
  unfolding view_change_ok_def notified_def by (metis option.map_disc_iff)

lemma view_change_step_ok:
  assumes "ls_ok ls" "rd_open (ls_delegate ls)" "view_change_ok ls c"
  shows "\<exists>ls'. view_change_step ls c = Inr ls' \<and> ls_ok ls' \<and> rd_open (ls_delegate ls') \<and> notified ls ls' \<and> remote ls' = remote ls \<and>
    view_references ls' = changed_references [c] (view_references ls) \<and>
    rd_orphaned (ls_delegate ls') = rd_orphaned (ls_delegate ls) \<union> (if is_eager (ls_delegate ls) then set (lvc_removed_keys c) else {})"
proof -
  obtain rd where rd: "rfold (\<lambda>rd key. rd_RemoveReference key rd) (ls_delegate ls) (lvc_removed_keys c) = Inr rd"
      "rd_same (ls_delegate ls) rd"
      "rd_orphaned rd = rd_orphaned (ls_delegate ls) \<union> (if is_eager (ls_delegate ls) then set (lvc_removed_keys c) else {})"
    using rd_RemoveReferences_ok[OF assms(2)] by blast
  define ls1 where "ls1 = set_ls_delegate rd ls"
  have ls1: "ls_ok ls1" "ls_delegate ls1 = rd" "remote ls1 = remote ls" "rd_open rd" "local_view_references ls1 = local_view_references ls"
      "notified ls ls1" "ls_target_data_by_target ls1 = ls_target_data_by_target ls"
    using set_ls_delegate_ok[OF assms(1) rd(2)] rd(2) assms(2)
    by (auto simp: ls1_def rd_same_def local_view_references_def notified_def fun_eq_iff) (simp_all add: set_ls_delegate_def ls_delegate_def)
  define refs where "refs = rs_RemoveReferencesTo (lvc_removed_keys c) (lvc_target_id c)
    (rs_AddReferences (lvc_added_keys c) (lvc_target_id c) (local_view_references ls1))"
  have r0: "rs_ok (local_view_references ls1)" using local_view_references_ok[OF ls1(1)] by (simp add: refs_ok_def)
  have refs: "refs_ok refs" "rs_refs refs = changed_references [c] (view_references ls)"
    using local_view_references_ok[OF ls1(1)] assms(3) r0
    by (auto simp: refs_def refs_ok_def view_change_ok_def changed_references_def ls1(5))
  define ls2 where "ls2 = set_local_view_references refs ls1"
  note ls2 = set_references_ok[OF ls1(1) refs(1), folded ls2_def]
  have n2: "notified ls ls2" using notified_trans[OF ls1(6) ls2(2)] .
  have o2: "rd_open (ls_delegate ls2)" "rd_orphaned (ls_delegate ls2) = rd_orphaned rd"
    using ls1(2,4) by (simp_all add: ls2(5))
  show ?thesis
  proof (cases "lvc_from_cache c")
    case True
    then have "view_change_step ls c = Inr ls2"
      by (simp add: view_change_step_def Let_def rd(1) ls1_def[symmetric] refs_def[symmetric] ls2_def)
    then show ?thesis using ls2 ls1(3) n2 o2 refs(2) rd(3) by auto
  next
    case False
    then obtain td where td: "um_find (=) (lvc_target_id c) (ls_target_data_by_target ls2) = Some td"
      using assms(3) by (auto simp: view_change_ok_def ls2(6) ls1(7))
    let ?td = "WithLastLimboFreeSnapshotVersion (td_snapshot_version td) td"
    define ls3 where "ls3 = ls2\<lparr>ls_target_data_by_target := um_put (=) (lvc_target_id c) ?td (ls_target_data_by_target ls2)\<rparr>"
    have "td_target_id td = lvc_target_id c" using ls2(1) td by (simp add: ls_ok_def live_ok_def)
    then have ls3: "ls_ok ls3" "notified ls2 ls3"
      using update_target_data_ok[OF ls2(1) td, of ?td] by (simp_all add: ls3_def WithLastLimboFreeSnapshotVersion_def)
    have "view_change_step ls c = Inr ls3"
      using False td by (simp add: view_change_step_def Let_def rd(1) ls1_def[symmetric] refs_def[symmetric] ls2_def[symmetric] ls3_def)
    moreover have "remote ls3 = remote ls2" "ls_delegate ls3 = ls_delegate ls2" "local_view_references ls3 = local_view_references ls2"
      by (simp_all add: ls3_def remote_def ls_delegate_def local_view_references_def fun_eq_iff)
    ultimately show ?thesis using ls3 notified_trans[OF n2 ls3(2)] ls2 ls1(3) o2 refs(2) rd(3) by auto
  qed
qed

lemma view_change_steps:
  assumes "ls_ok ls" "rd_open (ls_delegate ls)" "\<forall>c \<in> set cs. view_change_ok ls c"
  shows "\<exists>ls'. rfold view_change_step ls cs = Inr ls' \<and> ls_ok ls' \<and> rd_open (ls_delegate ls') \<and> notified ls ls' \<and> remote ls' = remote ls \<and>
    view_references ls' = changed_references cs (view_references ls) \<and>
    rd_orphaned (ls_delegate ls') \<subseteq> rd_orphaned (ls_delegate ls) \<union> (\<Union>c \<in> set cs. set (lvc_removed_keys c))"
  using assms
proof (induction cs arbitrary: ls)
  case (Cons c cs)
  obtain ls1 where s: "view_change_step ls c = Inr ls1" "ls_ok ls1" "rd_open (ls_delegate ls1)" "notified ls ls1" "remote ls1 = remote ls"
      "view_references ls1 = changed_references [c] (view_references ls)"
      "rd_orphaned (ls_delegate ls1) = rd_orphaned (ls_delegate ls) \<union> (if is_eager (ls_delegate ls) then set (lvc_removed_keys c) else {})"
    using view_change_step_ok[OF Cons.prems(1,2), of c] Cons.prems(3) by auto
  have "\<forall>c \<in> set cs. view_change_ok ls1 c" using Cons.prems(3) by (simp add: view_change_ok_notified[OF s(4)])
  from Cons.IH[OF s(2,3) this] obtain ls2 where r: "rfold view_change_step ls1 cs = Inr ls2" "ls_ok ls2" "rd_open (ls_delegate ls2)"
      "notified ls1 ls2" "remote ls2 = remote ls1" "view_references ls2 = changed_references cs (view_references ls1)"
      "rd_orphaned (ls_delegate ls2) \<subseteq> rd_orphaned (ls_delegate ls1) \<union> (\<Union>c \<in> set cs. set (lvc_removed_keys c))" by blast
  have "view_references ls2 = changed_references (c # cs) (view_references ls)" by (simp add: r(6) s(6) changed_references_def)
  moreover have "rd_orphaned (ls_delegate ls2) \<subseteq> rd_orphaned (ls_delegate ls) \<union> (\<Union>c \<in> set (c # cs). set (lvc_removed_keys c))"
    using r(7) s(7) by (auto split: if_splits)
  ultimately show ?case using s r(1-5) notified_trans[OF s(4) r(4)] by simp
qed (simp add: changed_references_def)


theorem NotifyLocalViewChanges_ok:
  assumes "ls_ok ls" "rd_ready (ls_delegate ls)" "\<forall>c \<in> set cs. view_change_ok ls c"
  shows "\<exists>ls'. NotifyLocalViewChanges cs ls = Inr ls' \<and> ls_ok ls' \<and> notified ls ls' \<and>
    view_references ls' = changed_references cs (view_references ls) \<and>
    (\<forall>k. remote ls' k = remote ls k \<or>
      remote ls' k = None \<and> k \<notin> referenced (ls_persistence ls') \<and> (\<exists>c \<in> set cs. k \<in> set (lvc_removed_keys c)))"
proof -
  have "\<exists>a ls'. ls_Run (\<lambda>ls. rmap (Pair ()) (rfold view_change_step ls cs)) ls = Inr (a, ls') \<and>
    (ls_ok ls' \<and> notified ls ls' \<and> view_references ls' = changed_references cs (view_references ls) \<and>
    (\<forall>k. remote ls' k = remote ls k \<or>
      remote ls' k = None \<and> k \<notin> referenced (ls_persistence ls') \<and> (\<exists>c \<in> set cs. k \<in> set (lvc_removed_keys c))))"
  proof (rule ls_Run_rule[OF assms(1,2)])
    fix ls1 assume o: "opened ls ls1" and ok: "ls_ok ls1"
    note op = opened_parts[OF o]
    have n1: "notified ls ls1" "local_view_references ls1 = local_view_references ls"
      using op(1,8,9) by (simp_all add: notified_def framed_def local_view_references_def)
    have "\<forall>c \<in> set cs. view_change_ok ls1 c" using assms(3) by (simp add: view_change_ok_notified[OF n1(1)])
    from view_change_steps[OF ok op(4) this] obtain ls2 where s: "rfold view_change_step ls1 cs = Inr ls2" "ls_ok ls2"
        "rd_open (ls_delegate ls2)" "notified ls1 ls2" "remote ls2 = remote ls1"
        "view_references ls2 = changed_references cs (view_references ls1)"
        "rd_orphaned (ls_delegate ls2) \<subseteq> rd_orphaned (ls_delegate ls1) \<union> (\<Union>c \<in> set cs. set (lvc_removed_keys c))" by blast
    have "ls_ok ls' \<and> notified ls ls' \<and> view_references ls' = changed_references cs (view_references ls) \<and>
      (\<forall>k. remote ls' k = remote ls k \<or>
        remote ls' k = None \<and> k \<notin> referenced (ls_persistence ls') \<and> (\<exists>c \<in> set cs. k \<in> set (lvc_removed_keys c)))"
      if c: "closed ls2 ls'" and ok': "ls_ok ls'" for ls'
    proof -
      note cl = closed_parts[OF c]
      have n2: "notified ls2 ls'" "local_view_references ls' = local_view_references ls2"
        using cl(1,4,5) by (simp_all add: notified_def framed_def local_view_references_def)
      have "remote ls' k = remote ls k \<or>
          remote ls' k = None \<and> k \<notin> referenced (ls_persistence ls') \<and> (\<exists>c \<in> set cs. k \<in> set (lvc_removed_keys c))" for k
        using s(7) op(5) by (auto simp: cl(3)[of k] cl(6) s(5) op(2))
      with ok' notified_trans[OF notified_trans[OF n1(1) s(4)] n2(1)] s(6) show ?thesis by (simp add: n1(2) n2(2))
    qed
    with s show "\<exists>a ls2. rmap (Pair ()) (rfold view_change_step ls1 cs) = Inr (a, ls2) \<and> ls_ok ls2 \<and> rd_open (ls_delegate ls2) \<and>
      (\<forall>ls'. closed ls2 ls' \<longrightarrow> ls_ok ls' \<longrightarrow> ls_ok ls' \<and> notified ls ls' \<and>
        view_references ls' = changed_references cs (view_references ls) \<and>
        (\<forall>k. remote ls' k = remote ls k \<or>
          remote ls' k = None \<and> k \<notin> referenced (ls_persistence ls') \<and> (\<exists>c \<in> set cs. k \<in> set (lvc_removed_keys c))))"
      by (intro exI[of _ "()"] exI[of _ ls2]) simp
  qed
  then show ?thesis by (auto simp: NotifyLocalViewChanges_def)
qed

section \<open>Running queries\<close>

text \<open>A transaction that only reads changes nothing that is visible.\<close>

definition untouched :: "LocalStore \<Rightarrow> LocalStore \<Rightarrow> bool" where
  "untouched ls ls' = (framed ls ls' \<and> remote ls' = remote ls \<and> ls_queue ls' = ls_queue ls \<and>
     mp_mutation_queues (ls_persistence ls') = mp_mutation_queues (ls_persistence ls) \<and>
     mp_index_manager (ls_persistence ls') = mp_index_manager (ls_persistence ls) \<and>
     local_view_references ls' = local_view_references ls)"

lemma untouched_notified: "untouched ls ls' \<Longrightarrow> notified ls ls'"
  by (simp add: untouched_def notified_def framed_def)

lemma reading_transaction:
  assumes "ls_ok ls" "rd_ready (ls_delegate ls)" "\<And>ls1. opened ls ls1 \<Longrightarrow> ls_ok ls1 \<Longrightarrow> block ls1 = Inr (a, ls1)"
  shows "\<exists>ls'. ls_Run block ls = Inr (a, ls') \<and> ls_ok ls' \<and> untouched ls ls'"
proof -
  have "\<exists>a' ls'. ls_Run block ls = Inr (a', ls') \<and> (a' = a \<and> ls_ok ls' \<and> untouched ls ls')"
  proof (rule ls_Run_rule[OF assms(1,2)])
    fix ls1 assume o: "opened ls ls1" and ok: "ls_ok ls1"
    note op = opened_parts[OF o]
    have "untouched ls ls'" if c: "closed ls1 ls'" for ls'
    proof -
      note cl = closed_parts[OF c]
      have "remote ls' k = remote ls k" for k by (simp add: cl(3) op(2,5))
      then show ?thesis
        using framed_trans[OF op(1) cl(1)] op cl by (auto simp: untouched_def local_view_references_def framed_def)
    qed
    with assms(3)[OF o ok] ok op(4) show "\<exists>a' ls2. block ls1 = Inr (a', ls2) \<and> ls_ok ls2 \<and> rd_open (ls_delegate ls2) \<and>
      (\<forall>ls'. closed ls2 ls' \<longrightarrow> ls_ok ls' \<longrightarrow> a' = a \<and> ls_ok ls' \<and> untouched ls ls')" by auto
  qed
  then show ?thesis by blast
qed

lemma store_view_ready: "ls_ok ls \<Longrightarrow> \<forall>b \<in> set (pending ls). plain_batch b \<Longrightarrow> view_ready (local_documents ls)"
  using local_documents_ok(1)[of ls]
  by (auto simp: view_ready_def local_documents_def ls_ok_def store_ok_def read_ok_def)

lemma GetTargetData_ok:
  assumes "ls_ok ls"
  shows "GetTargetData t ls = Inr (case um_find Target_eq t (ls_target_id_by_target ls) of
     Some i \<Rightarrow> um_find (=) i (ls_target_data_by_target ls) | None \<Rightarrow> tg_GetTarget t (mp_target_cache (ls_persistence ls)))"
  using assms by (fastforce simp: GetTargetData_def ls_ok_def live_ok_def split: option.splits)

definition limbo_free_version :: "Query \<Rightarrow> LocalStore \<Rightarrow> SnapshotVersion" where
  "limbo_free_version query ls =
     (case rbind (ToTarget query) (\<lambda>t. GetTargetData t ls) of Inr (Some td) \<Rightarrow> td_last_limbo_free_snapshot_version td | _ \<Rightarrow> SnapshotVersion_None)"

definition remote_keys_of :: "Query \<Rightarrow> LocalStore \<Rightarrow> DocumentKeySet" where
  "remote_keys_of query ls =
     (case rbind (ToTarget query) (\<lambda>t. GetTargetData t ls) of
        Inr (Some td) \<Rightarrow> tg_GetMatchingKeys (td_target_id td) (mp_target_cache (ls_persistence ls)) | _ \<Rightarrow> [])"

lemma ExecuteQuery_eq:
  assumes "ls_ok ls" "rd_ready (ls_delegate ls)" "has_target query"
    "qe_GetDocumentsMatchingQuery query (if use then limbo_free_version query ls else SnapshotVersion_None)
       (if use then remote_keys_of query ls else []) (local_documents ls) = Inr r"
  shows "\<exists>ls'. ExecuteQuery query use ls = Inr (\<lparr>qr_documents = r, qr_remote_keys = remote_keys_of query ls\<rparr>, ls') \<and>
    ls_ok ls' \<and> untouched ls ls'"
  unfolding ExecuteQuery_def
proof (rule reading_transaction[OF assms(1,2)])
  fix ls1 assume o: "opened ls ls1" and ok: "ls_ok ls1"
  note op = opened_parts[OF o]
  obtain t where t: "ToTarget query = Inr t" using assms(3) by (auto simp: has_target_def)
  have "GetTargetData t ls1 = GetTargetData t ls"
    using op(1) unfolding GetTargetData_ok[OF ok] GetTargetData_ok[OF assms(1)] by (simp add: framed_def cong: option.case_cong)
  moreover obtain td where td: "GetTargetData t ls = Inr td" using GetTargetData_ok[OF assms(1)] by blast
  moreover have "mp_target_cache (ls_persistence ls1) = mp_target_cache (ls_persistence ls)" using op(1) by (simp add: framed_def)
  ultimately show "rbind (ToTarget query) (\<lambda>target.
     rbind (GetTargetData target ls1) (\<lambda>target_data.
       let (last_limbo_free_snapshot_version, remote_keys) = (case target_data of
              Some td \<Rightarrow> (td_last_limbo_free_snapshot_version td,
                          tg_GetMatchingKeys (td_target_id td) (mp_target_cache (ls_persistence ls1)))
            | None \<Rightarrow> (SnapshotVersion_None, []))
       in rmap (\<lambda>documents. (\<lparr>qr_documents = documents, qr_remote_keys = remote_keys\<rparr>, ls1))
            (qe_GetDocumentsMatchingQuery query
               (if use then last_limbo_free_snapshot_version else SnapshotVersion_None)
               (if use then remote_keys else []) (local_documents ls1)))) =
     Inr (\<lparr>qr_documents = r, qr_remote_keys = remote_keys_of query ls\<rparr>, ls1)"
    using assms(4) by (cases td; cases use) (simp_all add: t op(7) limbo_free_version_def remote_keys_of_def)
qed

text \<open>Without an index of a limbo-free snapshot the query is answered by a scan, which is exact.\<close>

theorem ExecuteQuery_scan:
  assumes "ls_ok ls" "rd_ready (ls_delegate ls)" "\<forall>b \<in> set (pending ls). plain_batch b" "scannable query (local_documents ls)"
    "use \<longrightarrow> limbo_free_version query ls = SnapshotVersion_None"
  shows "\<exists>r ls'. ExecuteQuery query use ls = Inr (\<lparr>qr_documents = r, qr_remote_keys = remote_keys_of query ls\<rparr>, ls') \<and>
    ls_ok ls' \<and> untouched ls ls' \<and> results_exact query (local_documents ls) r"
proof -
  obtain r where r: "ExecuteFullCollectionScan query (local_documents ls) = Inr r" "results_exact query (local_documents ls) r"
    using full_scan_ok[OF store_view_ready[OF assms(1,3)] assms(4)] by blast
  have "has_target query" using assms(4) query_ok_has_target by (auto simp: scannable_def)
  moreover have "qe_GetDocumentsMatchingQuery query (if use then limbo_free_version query ls else SnapshotVersion_None)
       (if use then remote_keys_of query ls else []) (local_documents ls) = Inr r"
    using r(1) assms(5) by (simp add: qe_GetDocumentsMatchingQuery_def)
  ultimately show ?thesis using ExecuteQuery_eq[OF assms(1,2)] r(2) by blast
qed

section \<open>Allocating targets\<close>

lemma cached_target:
  assumes "ls_ok ls" "tg_GetTarget t (mp_target_cache (ls_persistence ls)) = Some td"
  shows "Target_eq (td_target td) t" "id_ok (td_target_id td)" "tg_GetTarget (td_target td) (mp_target_cache (ls_persistence ls)) = Some td"
proof -
  have ok: "tg_ok (mp_target_cache (ls_persistence ls))" using assms(1) by (simp add: ls_ok_def store_ok_def mp_ok_def)
  obtain t' where m: "(t', td) \<in> set (tg_targets (mp_target_cache (ls_persistence ls)))" "Target_eq t' t"
    using um_find_Some[of Target_eq t _ td] assms(2) by (auto simp: tg_GetTarget_def)
  then have e: "Target_eq t' (td_target td)" "id_ok (td_target_id td)" using ok by (auto simp: tg_ok_def)
  then show "Target_eq (td_target td) t" "id_ok (td_target_id td)" using m(2) target_eq.sym target_eq.trans by blast+
  then have "Target_eq t (td_target td)" using target_eq.sym by blast
  then show "tg_GetTarget (td_target td) (mp_target_cache (ls_persistence ls)) = Some td"
    using assms(2) target_eq.um_find_cong unfolding tg_GetTarget_def by metis
qed

lemma current_sequence: "rd_open rd \<Longrightarrow> \<exists>n. rd_current_sequence_number rd = Inr n"
  by (cases rd) simp_all

definition new_target :: "Target \<Rightarrow> ListenSequenceNumber \<Rightarrow> LocalStore \<Rightarrow> TargetData" where
  "new_target target n ls = make_TargetData target (tig_next_id (ls_target_id_generator ls)) n QPListen"

definition with_new_target :: "TargetData \<Rightarrow> LocalStore \<Rightarrow> LocalStore" where
  "with_new_target td ls = set_ls_target_cache (tg_AddTarget td (mp_target_cache (ls_persistence ls)))
     (ls\<lparr>ls_target_id_generator := snd (tig_NextId (ls_target_id_generator ls))\<rparr>)"

lemma next_id_ok:
  assumes "ls_ok ls" "sint (tig_next_id (ls_target_id_generator ls)) < 2 ^ 31 - 2"
  shows "id_ok (tig_next_id (ls_target_id_generator ls))" "even (tig_next_id (ls_target_id_generator ls))"
    "sint (tig_next_id (snd (tig_NextId (ls_target_id_generator ls)))) = sint (tig_next_id (ls_target_id_generator ls)) + 2"
    "even (tig_next_id (snd (tig_NextId (ls_target_id_generator ls))))"
proof -
  let ?n = "tig_next_id (ls_target_id_generator ls)"
  have g: "even ?n" "0 \<le> sint ?n"
    using assms(1) by (auto simp: ls_ok_def generator_ok_def ids_unique_def)
  show "id_ok ?n" "even ?n" using g assms(2) by (simp_all add: id_ok_def)
  have e: "tig_next_id (snd (tig_NextId (ls_target_id_generator ls))) = ?n + 2"
    by (simp add: tig_NextId_def kReservedBits_def Let_def)
  show "sint (tig_next_id (snd (tig_NextId (ls_target_id_generator ls)))) = sint ?n + 2"
    using g(2) assms(2) unfolding e by (simp add: word_size sint_word_ariths signed_take_bit_int_eq_self)
  show "even (tig_next_id (snd (tig_NextId (ls_target_id_generator ls))))" using g(1) word_even_sum[of ?n 1] by (simp add: e)
qed

lemma with_new_target_ok:
  assumes ok: "ls_ok ls" and n: "sint (tig_next_id (ls_target_id_generator ls)) < 2 ^ 31 - 2"
    and new: "tg_GetTarget target (mp_target_cache (ls_persistence ls)) = None"
  shows "ls_ok (with_new_target (new_target target s ls) ls)"
    "tg_GetTarget target (mp_target_cache (ls_persistence (with_new_target (new_target target s ls) ls))) = Some (new_target target s ls)"
    "matching i (mp_target_cache (ls_persistence (with_new_target td ls))) = matching i (mp_target_cache (ls_persistence ls))"
proof -
  let ?tg = "mp_target_cache (ls_persistence ls)" and ?n = "tig_next_id (ls_target_id_generator ls)"
  let ?td = "new_target target s ls"
  note id = next_id_ok[OF ok n]
  have td: "td_target ?td = target" "td_target_id ?td = ?n" by (simp_all add: new_target_def make_TargetData_def)
  have tg: "tg_ok ?tg" using ok by (simp add: ls_ok_def store_ok_def mp_ok_def)
  note add = tg_AddTarget_ok[OF tg, of ?td, unfolded td, OF id(1)]
  have get: "tg_GetTarget t (tg_AddTarget ?td ?tg) = (if Target_eq target t then Some ?td else tg_GetTarget t ?tg)" for t
    using add by blast
  have high: "sint (tg_highest_target_id (tg_AddTarget ?td ?tg)) = sint ?n"
    using add ok by (auto simp: ls_ok_def generator_ok_def)
  then have high': "tg_highest_target_id (tg_AddTarget ?td ?tg) = ?n" by (rule sint_same)
  have old: "\<not> Target_eq target t" if "tg_GetTarget t ?tg = Some c" for t c
    using that new target_eq.um_find_cong[of target t "tg_targets ?tg"] by (auto simp: tg_GetTarget_def)
  have lt: "td_target_id c \<noteq> ?n" if has: "tg_GetTarget t ?tg = Some c" for t c
  proof -
    obtain t' where "(t', c) \<in> set (tg_targets ?tg)" using um_find_Some[of Target_eq t "tg_targets ?tg" c] has by (auto simp: tg_GetTarget_def)
    then have "sint (td_target_id c) \<le> sint (tg_highest_target_id ?tg)" using tg by (auto simp: tg_ok_def)
    then show ?thesis using ok by (auto simp: ls_ok_def generator_ok_def)
  qed
  have u: "ids_unique ?tg" "live_ok ls" using ok by (simp_all add: ls_ok_def)
  have "ids_unique (tg_AddTarget ?td ?tg)"
    using u(1) id(1,2) lt by (auto simp: ids_unique_def high' get td id_ok_def split: if_splits)
      (metis target_eq.sym target_eq.trans)+
  moreover have "live_ok (with_new_target ?td ls)"
    using u(2) old by (fastforce simp: live_ok_def with_new_target_def set_ls_target_cache_def get)
  moreover have "store_ok (ls_persistence (with_new_target ?td ls))"
    using ok add by (simp add: with_new_target_def set_ls_target_cache_def ls_ok_def store_ok_def mp_ok_def batches_ok_def parents_ok_def written_def)
  moreover have "generator_ok (with_new_target ?td ls)"
    using id by (simp add: with_new_target_def set_ls_target_cache_def generator_ok_def high')
  ultimately show "ls_ok (with_new_target ?td ls)"
    using ok by (simp add: ls_ok_def with_new_target_def set_ls_target_cache_def ls_delegate_def)
  show "tg_GetTarget target (mp_target_cache (ls_persistence (with_new_target ?td ls))) = Some ?td"
    by (simp add: with_new_target_def set_ls_target_cache_def get target_eq.refl)
  show "matching i (mp_target_cache (ls_persistence (with_new_target td ls))) = matching i ?tg"
    by (simp add: with_new_target_def set_ls_target_cache_def matching_def tg_AddTarget_def Let_def)
qed

text \<open>What allocating a target leaves alone.\<close>

definition same_documents :: "LocalStore \<Rightarrow> LocalStore \<Rightarrow> bool" where
  "same_documents ls ls' =
     (ls_user ls' = ls_user ls \<and> mp_mutation_queues (ls_persistence ls') = mp_mutation_queues (ls_persistence ls) \<and>
      mp_index_manager (ls_persistence ls') = mp_index_manager (ls_persistence ls) \<and> remote ls' = remote ls \<and>
      is_eager (ls_delegate ls') = is_eager (ls_delegate ls) \<and> local_view_references ls' = local_view_references ls \<and>
      (\<forall>i. matching i (mp_target_cache (ls_persistence ls')) = matching i (mp_target_cache (ls_persistence ls))))"

lemma same_documents_trans: "same_documents a b \<Longrightarrow> same_documents b c \<Longrightarrow> same_documents a c"
  by (simp add: same_documents_def)

lemma same_documents_queue: "same_documents ls ls' \<Longrightarrow> ls_queue ls' = ls_queue ls"
  by (simp add: same_documents_def ls_queue_def queue_of_def)

lemma untouched_same: "untouched ls ls' \<Longrightarrow> same_documents ls ls'"
  by (simp add: untouched_def same_documents_def framed_def)

lemma with_new_target_same: "same_documents ls (with_new_target td ls)"
  by (auto simp: same_documents_def with_new_target_def set_ls_target_cache_def ls_delegate_def local_view_references_def remote_def
      matching_def tg_AddTarget_def Let_def fun_eq_iff)

lemma opened_same: "opened ls ls1 \<Longrightarrow> same_documents ls ls1"
  using opened_parts[of ls ls1] by (simp add: same_documents_def framed_def local_view_references_def)

lemma closed_same: "closed ls2 ls' \<Longrightarrow> rd_orphaned (ls_delegate ls2) = {} \<Longrightarrow> same_documents ls2 ls'"
  using closed_parts[of ls2 ls'] by (simp add: same_documents_def framed_def local_view_references_def fun_eq_iff)

definition allocated :: "Target \<Rightarrow> LocalStore \<Rightarrow> TargetData \<Rightarrow> LocalStore \<Rightarrow> bool" where
  "allocated target ls td ls' =
     (ls_ok ls' \<and> same_documents ls ls' \<and> tg_GetTarget target (mp_target_cache (ls_persistence ls')) = Some td \<and>
      ls_target_data_by_target ls' = ls_target_data_by_target ls \<and> ls_target_id_by_target ls' = ls_target_id_by_target ls \<and>
      (tg_GetTarget target (mp_target_cache (ls_persistence ls)) = None \<longrightarrow> (\<exists>n. td = new_target target n ls)))"

lemma allocate_run:
  assumes "ls_ok ls" "rd_ready (ls_delegate ls)" "sint (tig_next_id (ls_target_id_generator ls)) < 2 ^ 31 - 2"
  shows "\<exists>td ls'. ls_Run (\<lambda>ls.
        let tg = mp_target_cache (ls_persistence ls)
        in case tg_GetTarget target tg of
             Some target_data \<Rightarrow> Inr (target_data, ls)
           | None \<Rightarrow>
               rmap (\<lambda>sequence_number.
                   let (target_id, generator) = tig_NextId (ls_target_id_generator ls);
                       target_data = make_TargetData target target_id sequence_number QPListen
                   in (target_data, set_ls_target_cache (tg_AddTarget target_data tg) (ls\<lparr>ls_target_id_generator := generator\<rparr>)))
                 (mp_current_sequence_number (ls_persistence ls))) ls = Inr (td, ls') \<and> allocated target ls td ls'"
proof (rule ls_Run_rule[OF assms(1,2)])
  fix ls1 assume o: "opened ls ls1" and ok: "ls_ok ls1"
  note op = opened_parts[OF o]
  have cache: "mp_target_cache (ls_persistence ls1) = mp_target_cache (ls_persistence ls)"
    and generator: "ls_target_id_generator ls1 = ls_target_id_generator ls" using op(1) by (simp_all add: framed_def)
  obtain n where n: "mp_current_sequence_number (ls_persistence ls1) = Inr n"
    using current_sequence[OF op(4)] by (auto simp: mp_current_sequence_number_def ls_delegate_def)
  define td ls2 where "td = (case tg_GetTarget target (mp_target_cache (ls_persistence ls1)) of Some td \<Rightarrow> td | None \<Rightarrow> new_target target n ls1)"
    and "ls2 = (if tg_GetTarget target (mp_target_cache (ls_persistence ls1)) = None then with_new_target td ls1 else ls1)"
  have ls2: "ls_ok ls2" "same_documents ls1 ls2" "tg_GetTarget target (mp_target_cache (ls_persistence ls2)) = Some td"
      "ls_delegate ls2 = ls_delegate ls1" "ls_target_data_by_target ls2 = ls_target_data_by_target ls1"
      "ls_target_id_by_target ls2 = ls_target_id_by_target ls1"
    using with_new_target_ok(1,2)[OF ok, of target n] with_new_target_same[of ls1 td] assms(3) ok
    by (auto simp: ls2_def td_def generator untouched_same same_documents_def split: option.splits)
      (simp_all add: with_new_target_def set_ls_target_cache_def ls_delegate_def)
  have new: "new_target target n ls1 = new_target target n ls" by (simp add: new_target_def generator)
  have "allocated target ls td ls'" if c: "closed ls2 ls'" and ok': "ls_ok ls'" for ls'
  proof -
    have "same_documents ls ls'"
      using same_documents_trans[OF same_documents_trans[OF opened_same[OF o] ls2(2)] closed_same[OF c]] op(5) by (simp add: ls2(4))
    moreover have "framed ls2 ls'" using closed_parts(1)[OF c] .
    ultimately show ?thesis using ls2 ok' op(1) new by (auto simp: allocated_def framed_def td_def cache)
  qed
  moreover have "(let tg = mp_target_cache (ls_persistence ls1)
        in case tg_GetTarget target tg of
             Some target_data \<Rightarrow> Inr (target_data, ls1)
           | None \<Rightarrow>
               rmap (\<lambda>sequence_number.
                   let (target_id, generator) = tig_NextId (ls_target_id_generator ls1);
                       target_data = make_TargetData target target_id sequence_number QPListen
                   in (target_data, set_ls_target_cache (tg_AddTarget target_data tg) (ls1\<lparr>ls_target_id_generator := generator\<rparr>)))
                 (mp_current_sequence_number (ls_persistence ls1))) = Inr (td, ls2)"
    by (auto simp: Let_def n td_def ls2_def with_new_target_def new_target_def tig_NextId_def split: option.splits)
  ultimately show "\<exists>a ls2. (let tg = mp_target_cache (ls_persistence ls1)
        in case tg_GetTarget target tg of
             Some target_data \<Rightarrow> Inr (target_data, ls1)
           | None \<Rightarrow>
               rmap (\<lambda>sequence_number.
                   let (target_id, generator) = tig_NextId (ls_target_id_generator ls1);
                       target_data = make_TargetData target target_id sequence_number QPListen
                   in (target_data, set_ls_target_cache (tg_AddTarget target_data tg) (ls1\<lparr>ls_target_id_generator := generator\<rparr>)))
                 (mp_current_sequence_number (ls_persistence ls1))) = Inr (a, ls2) \<and> ls_ok ls2 \<and> rd_open (ls_delegate ls2) \<and>
      (\<forall>ls'. closed ls2 ls' \<longrightarrow> ls_ok ls' \<longrightarrow> allocated target ls a ls')"
    using ls2(1,4) op(4) by (intro exI[of _ td] exI[of _ ls2]) simp
qed

text \<open>A target that the store hands out is live from then on.\<close>

definition allocates :: "Target \<Rightarrow> LocalStore \<Rightarrow> TargetData \<Rightarrow> LocalStore \<Rightarrow> bool" where
  "allocates target ls td ls' =
     (ls_ok ls' \<and> same_documents ls ls' \<and> Target_eq (td_target td) target \<and> id_ok (td_target_id td) \<and>
      um_find Target_eq target (ls_target_id_by_target ls') = Some (td_target_id td) \<and>
      (\<forall>i. um_find (=) i (ls_target_data_by_target ls') =
        (if i = td_target_id td \<and> um_find (=) i (ls_target_data_by_target ls) = None then Some td
         else um_find (=) i (ls_target_data_by_target ls))) \<and>
      (\<forall>t i. um_find Target_eq t (ls_target_id_by_target ls) = Some i \<longrightarrow> um_find Target_eq t (ls_target_id_by_target ls') = Some i) \<and>
      (tg_GetTarget target (mp_target_cache (ls_persistence ls)) = None \<longrightarrow> (\<exists>n. td = new_target target n ls)))"

theorem AllocateTarget_ok:
  assumes "ls_ok ls" "rd_ready (ls_delegate ls)" "sint (tig_next_id (ls_target_id_generator ls)) < 2 ^ 31 - 2"
  shows "\<exists>td ls'. AllocateTarget target ls = Inr (td, ls') \<and> allocates target ls td ls'"
proof -
  obtain td ls1 where r: "ls_Run (\<lambda>ls.
        let tg = mp_target_cache (ls_persistence ls)
        in case tg_GetTarget target tg of
             Some target_data \<Rightarrow> Inr (target_data, ls)
           | None \<Rightarrow>
               rmap (\<lambda>sequence_number.
                   let (target_id, generator) = tig_NextId (ls_target_id_generator ls);
                       target_data = make_TargetData target target_id sequence_number QPListen
                   in (target_data, set_ls_target_cache (tg_AddTarget target_data tg) (ls\<lparr>ls_target_id_generator := generator\<rparr>)))
                 (mp_current_sequence_number (ls_persistence ls))) ls = Inr (td, ls1)" and a: "allocated target ls td ls1"
    using allocate_run[OF assms, of target] by blast
  have ok: "ls_ok ls1" and get: "tg_GetTarget target (mp_target_cache (ls_persistence ls1)) = Some td"
    and live: "ls_target_data_by_target ls1 = ls_target_data_by_target ls" "ls_target_id_by_target ls1 = ls_target_id_by_target ls"
    using a by (simp_all add: allocated_def)
  note c = cached_target[OF ok get]
  let ?i = "td_target_id td"
  have l: "live_ok ls1" and u: "ids_unique (mp_target_cache (ls_persistence ls1))" using ok by (simp_all add: ls_ok_def)
  define ls2 where "ls2 = (if um_find (=) ?i (ls_target_data_by_target ls1) = None
    then ls1\<lparr>ls_target_data_by_target := um_put (=) ?i td (ls_target_data_by_target ls1),
             ls_target_id_by_target := um_put Target_eq (td_target td) ?i (ls_target_id_by_target ls1)\<rparr>
    else ls1)"
  have alloc: "AllocateTarget target ls = Inr (td, ls2)"
    unfolding AllocateTarget_def r by (simp add: ls2_def Let_def)
  show ?thesis
  proof (cases "um_find (=) ?i (ls_target_data_by_target ls1)")
    case None
    have fresh: "\<not> Target_eq (td_target td) (td_target td')" if has: "um_find (=) j (ls_target_data_by_target ls1) = Some td'" for j td'
    proof
      assume e: "Target_eq (td_target td) (td_target td')"
      obtain c' where "tg_GetTarget (td_target td') (mp_target_cache (ls_persistence ls1)) = Some c'" "td_target_id c' = j"
        using l has by (auto simp: live_ok_def)
      then have "c' = td" using c(3) target_eq.um_find_cong[OF e, of "tg_targets (mp_target_cache (ls_persistence ls1))"] by (simp add: tg_GetTarget_def)
      then show False using None has \<open>td_target_id c' = j\<close> by simp
    qed
    have unused: "um_find Target_eq t (ls_target_id_by_target ls1) \<noteq> Some ?i" for t
      using l None by (fastforce simp: live_ok_def)
    have kept: "\<not> Target_eq (td_target td) t" if has: "um_find Target_eq t (ls_target_id_by_target ls1) = Some j" for t j
    proof -
      obtain td' where "um_find (=) j (ls_target_data_by_target ls1) = Some td'" "Target_eq (td_target td') t"
        using l has unfolding live_ok_def by blast
      then show ?thesis using fresh target_eq.sym target_eq.trans by blast
    qed
    have "live_ok ls2"
      using fresh unused l None c(3) by (auto simp: ls2_def live_ok_def plain_eq.um_find_put target_eq.um_find_put target_eq.refl)
    then have "ls_ok ls2" using ok None by (simp add: ls2_def ls_ok_def generator_ok_def ls_delegate_def)
    moreover have "same_documents ls1 ls2" using None by (simp add: same_documents_def ls2_def remote_def ls_delegate_def local_view_references_def fun_eq_iff)
    ultimately show ?thesis
      using alloc a c None same_documents_trans kept
      by (auto simp: allocates_def allocated_def ls2_def plain_eq.um_find_put target_eq.um_find_put live)
  next
    case (Some td')
    then have "td_target_id td' = ?i" "um_find Target_eq (td_target td') (ls_target_id_by_target ls1) = Some ?i"
      "\<exists>c. tg_GetTarget (td_target td') (mp_target_cache (ls_persistence ls1)) = Some c \<and> td_target_id c = ?i"
      using l by (auto simp: live_ok_def)
    moreover have "Target_eq (td_target td') target"
      using u get calculation(3) unfolding ids_unique_def by metis
    ultimately have "um_find Target_eq target (ls_target_id_by_target ls1) = Some ?i"
      using target_eq.um_find_cong by metis
    then show ?thesis using alloc a c Some by (auto simp: allocates_def allocated_def ls2_def live)
  qed
qed

text \<open>The id of a new target belongs to no live target.\<close>

lemma new_id_unused:
  assumes "ls_ok ls" shows "um_find (=) (tig_next_id (ls_target_id_generator ls)) (ls_target_data_by_target ls) = None"
proof (rule ccontr)
  let ?n = "tig_next_id (ls_target_id_generator ls)" and ?tg = "mp_target_cache (ls_persistence ls)"
  assume "um_find (=) ?n (ls_target_data_by_target ls) \<noteq> None"
  then obtain t c where c: "tg_GetTarget t ?tg = Some c" "td_target_id c = ?n"
    using assms unfolding ls_ok_def live_ok_def by blast
  obtain t' where "(t', c) \<in> set (tg_targets ?tg)" using um_find_Some[of Target_eq t "tg_targets ?tg" c] c(1) by (auto simp: tg_GetTarget_def)
  then have "sint (td_target_id c) \<le> sint (tg_highest_target_id ?tg)"
    using assms by (auto simp: ls_ok_def store_ok_def mp_ok_def tg_ok_def)
  then show False using assms c(2) by (auto simp: ls_ok_def generator_ok_def)
qed

end
