(* ===== verification/SyncEngineViews.thy ===== *)
theory SyncEngineViews
  imports SyncEngineProofs LocalStoreViews ViewProofs
begin

text \<open>
  The views of the sync engine show the local store: what a view without limit holds is what the pending
  batches make of the remote documents, before and after the operations that change either.
\<close>

section \<open>What a view should show\<close>

definition visible :: "Query \<Rightarrow> MutationBatch list \<Rightarrow> (DocumentKey \<Rightarrow> MaybeDocument option) \<Rightarrow> DocumentKey \<Rightarrow> MaybeDocument option" where
  "visible query batches docs k =
     (case apply_batches k batches (docs k) of
        Inr (Some d) \<Rightarrow> if is_document d \<and> Query_Matches query d = Inr True then Some d else None
      | _ \<Rightarrow> None)"

lemma visible_matching: "visible query (pending ls) (remote ls) k = matching_view query (local_documents ls) k"
  by (simp add: visible_def matching_view_def local_view_eq)

text \<open>
  A view shows a document with data that compares as equal, or one with a pending write while the
  acknowledged result is not confirmed by the backend yet.
\<close>

definition shown_as :: "MaybeDocument \<Rightarrow> MaybeDocument \<Rightarrow> bool" where
  "shown_as l x = (doc_key x = doc_key l \<and> (ObjectValue_eq (doc_data x) (doc_data l) \<or> ShouldWaitForSyncedDocument l x))"

lemma ObjectValue_eq_refl [simp]: "ObjectValue_eq a a"
  by (simp add: ObjectValue_eq_def cmp_eq_def ObjectValue_CompareTo_def)

lemma shown_as_refl [simp]: "shown_as d d"
  by (simp add: shown_as_def)

lemma same_contents_shown: "same_contents l x \<Longrightarrow> shown_as l x"
  by (induction l x rule: same_contents.induct) (simp_all add: shown_as_def)

definition view_shows :: "View \<Rightarrow> MutationBatch list \<Rightarrow> (DocumentKey \<Rightarrow> MaybeDocument option) \<Rightarrow> bool" where
  "view_shows v batches docs =
     (\<forall>k. rel_option shown_as (visible (view_query v) batches docs k) (ds_GetDocument k (view_document_set v)))"

section \<open>Changing a view\<close>

abbreviation unlimited :: "Query \<Rightarrow> bool" where
  "unlimited query \<equiv> q_limit_type query = LimitNone"

text \<open>Only a view with a limit asks for a refill.\<close>

lemma no_refill_step:
  assumes "doc_change_step v old None None acc kv = Inr acc'" "\<not> vdc_needs_refill acc"
  shows "\<not> vdc_needs_refill acc'"
  using assms
  by (auto simp: doc_change_step_def Let_def rbind_Inr_conv rmap_Inr_conv document_change_def store_change_def
      split: option.splits if_splits)

lemma no_refill_fold:
  "rfold (doc_change_step v old None None) acc m = Inr acc' \<Longrightarrow> \<not> vdc_needs_refill acc \<Longrightarrow> \<not> vdc_needs_refill acc'"
proof (induction m arbitrary: acc)
  case (Cons kv m)
  then show ?case using no_refill_step[of v old acc kv] by (auto split: sum.splits)
qed simp

lemma no_refill:
  assumes "ComputeDocumentChanges v m None = Inr acc" "unlimited (view_query v)"
  shows "\<not> vdc_needs_refill acc"
proof -
  have l: "\<not> has_limit_to_first (view_query v)" "\<not> has_limit_to_last (view_query v)"
    using assms(2) by (simp_all add: has_limit_to_first_def has_limit_to_last_def)
  obtain acc1 where f: "rfold (doc_change_step v (view_document_set v) None None) (start_changes v None) m = Inr acc1"
      "apply_limit (view_query v) acc1 = Inr acc"
    using assms(1) l by (auto simp: ComputeDocumentChanges_def Let_def rbind_Inr_conv hard_assert_Inr start_changes_def)
  have "acc = acc1" using f(2) assms(2) by (simp add: apply_limit_def)
  then show ?thesis using no_refill_fold[OF f(1)] by (simp add: start_changes_def)
qed

lemma same_docs_get:
  assumes "ds_inv (query_cmp q) s" "ds_inv (query_cmp q) s'" "ds_docs s = ds_docs s'"
  shows "ds_GetDocument k s = ds_GetDocument k s'"
  by (simp only: find_document[OF assms(1), symmetric] find_document[OF assms(2), symmetric] assms(3))

text \<open>
  The documents \<open>docs\<close> tell of a change of the local store: they hold the new local documents of
  the keys whose local document is not what it was.
\<close>

definition tells :: "MaybeDocumentMap \<Rightarrow> MutationBatch list \<Rightarrow> (DocumentKey \<Rightarrow> MaybeDocument option) \<Rightarrow>
    MutationBatch list \<Rightarrow> (DocumentKey \<Rightarrow> MaybeDocument option) \<Rightarrow> bool" where
  "tells docs batches0 remote0 batches remote1 = (dm_ok docs \<and>
     (\<forall>k. case dm_get k docs of
        None \<Rightarrow> apply_batches k batches (remote1 k) = apply_batches k batches0 (remote0 k)
      | Some d \<Rightarrow> \<exists>l. apply_batches k batches (remote1 k) = Inr l \<and> VerifyKeyMatches k l \<and> d = doc_or_missing k l))"

lemma tells_other:
  assumes "tells docs b0 r0 b1 r1" "dm_get k docs = None"
  shows "apply_batches k b1 (r1 k) = apply_batches k b0 (r0 k)"
  using spec[OF conjunct2[OF assms(1)[unfolded tells_def]], of k] assms(2) by simp

lemma tells_doc:
  assumes "tells docs b0 r0 b1 r1" "dm_get k docs = Some d"
  shows "doc_key d = k" "visible q b1 r1 k = (if is_document d \<and> Query_Matches q d = Inr True then Some d else None)"
proof -
  obtain l where l: "apply_batches k b1 (r1 k) = Inr l" "VerifyKeyMatches k l" "d = doc_or_missing k l"
    using assms by (auto simp: tells_def split: option.splits)
  then show "doc_key d = k" "visible q b1 r1 k = (if is_document d \<and> Query_Matches q d = Inr True then Some d else None)"
    by (auto simp: visible_def doc_or_missing_def VerifyKeyMatches_def is_document_def split: option.splits)
qed

lemma dm_distinct: "dm_ok m \<Longrightarrow> distinct (map fst m)"
  unfolding dm_ok_def by (induction m) (auto simp: key_less_iff)

text \<open>A view without limit that is told of a change shows the new local documents.\<close>

lemma view_told:
  assumes v: "view_ok v" "unlimited (view_query v)" "view_shows v b0 r0" and t: "tells docs b0 r0 b1 r1"
  obtains acc vc v' where "ComputeDocumentChanges v docs None = Inr acc" "\<not> vdc_needs_refill acc"
    "View_ApplyChanges acc None v = Inr (vc, v')" "view_ok v'" "view_query v' = view_query v" "view_shows v' b1 r1"
    "\<forall>s. vc_snapshot vc = Some s \<longrightarrow> (\<forall>c \<in> set (vs_document_changes s). dvc_type c = CRemoved \<longrightarrow>
       dm_get (doc_key (dvc_document c)) docs \<noteq> None)"
proof -
  have dm: "dm_ok docs" using t by (simp add: tells_def)
  have dc: "doc_changes_ok docs"
    using dm_distinct[OF dm] tells_doc(1)[OF t] by (auto simp: doc_changes_ok_def dm_get_mem[OF dm])
  obtain all acc where c: "ComputeDocumentChanges v docs None = Inr acc" "changes_ok (view_query v) (view_document_set v) acc"
      "result_docs_ok (view_query v) all"
      "\<forall>k. k \<notin> fst ` set docs \<longrightarrow> ds_GetDocument k all = ds_GetDocument k (view_document_set v)"
      "\<forall>kv \<in> set docs. step_result (view_query v) (snd kv) (ds_GetDocument (fst kv) (view_document_set v)) (ds_GetDocument (fst kv) all)"
      "ds_docs (vdc_document_set acc) = ds_docs all"
    by (rule ComputeDocumentChanges_ok[OF v(1) dc]) (use v(2) in simp)
  have r: "\<not> vdc_needs_refill acc" using no_refill[OF c(1) v(2)] .
  have get: "ds_GetDocument k (vdc_document_set acc) = ds_GetDocument k all" for k
    using c(2,3,6) by (intro same_docs_get[of "view_query v"]) (simp_all add: changes_ok_def result_docs_ok_def)
  have shows_acc: "rel_option shown_as (visible (view_query v) b1 r1 k) (ds_GetDocument k (vdc_document_set acc))" for k
  proof (cases "dm_get k docs")
    case None
    then have "k \<notin> fst ` set docs" using dm_keys[OF dm] by auto
    moreover have "visible (view_query v) b1 r1 k = visible (view_query v) b0 r0 k"
      using tells_other[OF t None] by (simp add: visible_def)
    ultimately show ?thesis using v(3) c(4) by (simp add: get view_shows_def)
  next
    case (Some d)
    then have "(k, d) \<in> set docs" by (simp add: dm_get_mem[OF dm])
    with c(5) have s: "step_result (view_query v) d (ds_GetDocument k (view_document_set v)) (ds_GetDocument k all)" by force
    have old: "doc_key x = k" if "ds_GetDocument k (view_document_set v) = Some x" for x
      using v(1) result_docs_get[OF _ that] by (auto simp: view_ok_def)
    show ?thesis
      using s old tells_doc(1)[OF t Some]
      unfolding tells_doc(2)[OF t Some] get step_result_def
      by (auto simp: shown_as_def split: if_splits option.splits)
  qed
  obtain vc v' where a: "View_ApplyChanges acc None v = Inr (vc, v')" "view_ok v'" "view_document_set v' = vdc_document_set acc"
      "view_query v' = view_query v"
      "\<forall>s. vc_snapshot vc = Some s \<longrightarrow> vs_document_changes s = std_sort (change_less (view_query v)) (map snd (vdc_change_set acc))"
    by (rule View_ApplyChanges_spec[OF v(1) c(2) r, of None]) (auto simp: target_change_ok_def)
  have "view_shows v' b1 r1" using shows_acc by (simp add: view_shows_def a(3,4))
  moreover have "dm_get (doc_key (dvc_document ch)) docs \<noteq> None"
    if s: "vc_snapshot vc = Some s" "ch \<in> set (vs_document_changes s)" "dvc_type ch = CRemoved" for s ch
  proof
    assume none: "dm_get (doc_key (dvc_document ch)) docs = None"
    have cs: "dm_ok (vdc_change_set acc)" using c(2) by (simp add: changes_ok_def)
    have "set (vs_document_changes s) = snd ` set (vdc_change_set acc)"
      using a(5) s(1) changes_sorted[of "view_query v" "map snd (vdc_change_set acc)"] by (metis set_mset_mset image_set)
    then obtain k where k: "dm_get k (vdc_change_set acc) = Some ch" using s(2) dm_get_mem[OF cs] by auto
    have at: "cs_at (ds_GetDocument k (view_document_set v)) (ds_GetDocument k (vdc_document_set acc)) (Some ch)"
      using c(2) k unfolding changes_ok_def by metis
    then obtain b where b: "ds_GetDocument k (view_document_set v) = Some b" "ds_GetDocument k (vdc_document_set acc) = None"
        "doc_key (dvc_document ch) = doc_key b"
      using s(3) by (auto simp: cs_at_def split: option.splits)
    have "doc_key b = k" using v(1) result_docs_get[OF _ b(1)] by (auto simp: view_ok_def)
    then have "k \<notin> fst ` set docs" using none b(3) dm_keys[OF dm] by auto
    then show False using c(4) b(1,2) by (simp add: get)
  qed
  ultimately show ?thesis using that[OF c(1) r a(1,2,4)] by blast
qed

section \<open>Telling every view\<close>

text \<open>An entry of the map of views: its query has no limit and its target is live in the local store.\<close>

definition entry_ok :: "LocalStore \<Rightarrow> Query \<times> QueryView \<Rightarrow> bool" where
  "entry_ok ls e =
     (qv_query (snd e) = fst e \<and> view_query (qv_view (snd e)) = fst e \<and> unlimited (fst e) \<and> view_ok (qv_view (snd e)) \<and>
      (\<exists>t. ToTarget (fst e) = Inr t \<and> um_find Target_eq t (ls_target_id_by_target ls) = Some (qv_target_id (snd e))))"

lemma entry_ok_cong: "ls_target_id_by_target ls' = ls_target_id_by_target ls \<Longrightarrow> entry_ok ls' e = entry_ok ls e"
  by (simp add: entry_ok_def)

lemma entry_live:
  assumes "ls_ok ls" "entry_ok ls e"
  shows "id_ok (qv_target_id (snd e))" "um_find (=) (qv_target_id (snd e)) (ls_target_data_by_target ls) \<noteq> None"
    "Query_eq (fst e) (fst e)"
proof -
  obtain t where t: "ToTarget (fst e) = Inr t" "um_find Target_eq t (ls_target_id_by_target ls) = Some (qv_target_id (snd e))"
    using assms(2) by (auto simp: entry_ok_def)
  have l: "live_ok ls" using assms(1) by (simp add: ls_ok_def)
  obtain td where td: "um_find (=) (qv_target_id (snd e)) (ls_target_data_by_target ls) = Some td"
    using l t(2) unfolding live_ok_def by blast
  obtain c where "tg_GetTarget (td_target td) (mp_target_cache (ls_persistence ls)) = Some c" "td_target_id c = qv_target_id (snd e)"
    using l td unfolding live_ok_def by blast
  then show "id_ok (qv_target_id (snd e))" using cached_target(2)[OF assms(1)] by metis
  show "um_find (=) (qv_target_id (snd e)) (ls_target_data_by_target ls) \<noteq> None" using td by simp
  show "Query_eq (fst e) (fst e)" using t(1) by (intro Query_eq_refl) (auto simp: has_target_def)
qed

definition entry_told :: "LocalStore \<Rightarrow> MutationBatch list \<Rightarrow> (DocumentKey \<Rightarrow> MaybeDocument option) \<Rightarrow>
    Query \<times> QueryView \<Rightarrow> Query \<times> QueryView \<Rightarrow> bool" where
  "entry_told ls batches docs e e' =
     (fst e' = fst e \<and> qv_target_id (snd e') = qv_target_id (snd e) \<and> entry_ok ls e' \<and> view_shows (qv_view (snd e')) batches docs)"

lemma um_put_middle:
  "\<forall>e \<in> set xs. \<not> eq (fst e) q \<Longrightarrow> eq q q \<Longrightarrow> um_put eq q v (xs @ (q, w) # ys) = xs @ (q, v) # ys"
  by (induction xs) auto

lemma um_ok_middle:
  "um_ok eq (xs @ (q, w) # ys) \<Longrightarrow> (\<forall>e \<in> set xs. \<not> eq (fst e) q) \<and> um_ok eq ((xs @ [(q, v)]) @ ys)"
  by (induction xs) auto

lemma removed_keys:
  "lvc_target_id (FromViewSnapshot s i) = i"
  "set (lvc_removed_keys (FromViewSnapshot s i)) = (\<lambda>c. doc_key (dvc_document c)) ` {c \<in> set (vs_document_changes s). dvc_type c = CRemoved}"
proof -
  let ?f = "\<lambda>(added_keys, removed_keys) (c :: DocumentViewChange). case dvc_type c of
      CAdded \<Rightarrow> (dks_insert (doc_key (dvc_document c)) added_keys, removed_keys)
    | CRemoved \<Rightarrow> (added_keys, dks_insert (doc_key (dvc_document c)) removed_keys)
    | _ \<Rightarrow> (added_keys, removed_keys)"
  have "set (snd (foldl ?f (as, rs) cs)) = set rs \<union> (\<lambda>c. doc_key (dvc_document c)) ` {c \<in> set cs. dvc_type c = CRemoved}" for as rs cs
    by (induction cs arbitrary: as rs) (auto split: ChangeType.splits)
  then show "set (lvc_removed_keys (FromViewSnapshot s i)) = (\<lambda>c. doc_key (dvc_document c)) ` {c \<in> set (vs_document_changes s). dvc_type c = CRemoved}"
    by (simp add: FromViewSnapshot_def split_beta)
  show "lvc_target_id (FromViewSnapshot s i) = i" by (simp add: FromViewSnapshot_def split_beta)
qed

definition change_told :: "LocalStore \<Rightarrow> MaybeDocumentMap \<Rightarrow> LocalViewChanges \<Rightarrow> bool" where
  "change_told ls docs c = (view_change_ok ls c \<and> (\<forall>k \<in> set (lvc_removed_keys c). dm_get k docs \<noteq> None))"

lemma emit_step_told:
  assumes se: "limbo_ok se" "limbo_tracked se" "ls_ok (se_local_store se)"
    and e: "entry_ok (se_local_store se) (q, qv)" "view_shows (qv_view qv) b0 r0" and t: "tells docs b0 r0 b1 r1"
    and views: "se_query_views_by_query se = xs @ (q, qv) # ys" "\<forall>e \<in> set xs. \<not> Query_eq (fst e) q"
  shows "\<exists>se' ss' cs' qv'. emit_step docs None (se, ss, cs) (q, qv) = Inr (se', ss', cs @ cs') \<and> limbo_ok se' \<and> limbo_tracked se' \<and>
    se_local_store se' = se_local_store se \<and> se_queries_by_target se' = se_queries_by_target se \<and>
    se_query_views_by_query se' = xs @ (q, qv') # ys \<and> entry_told (se_local_store se) b1 r1 (q, qv) (q, qv') \<and>
    (\<forall>c \<in> set cs'. change_told (se_local_store se) docs c) \<and> quiet se se'"
proof -
  note live = entry_live[OF se(3) e(1)]
  have qv: "view_ok (qv_view qv)" "unlimited (view_query (qv_view qv))" using e(1) by (simp_all add: entry_ok_def)
  obtain acc vc v' where c: "ComputeDocumentChanges (qv_view qv) docs None = Inr acc" "\<not> vdc_needs_refill acc"
      "View_ApplyChanges acc None (qv_view qv) = Inr (vc, v')" "view_ok v'" "view_query v' = view_query (qv_view qv)" "view_shows v' b1 r1"
      "\<forall>s. vc_snapshot vc = Some s \<longrightarrow> (\<forall>c \<in> set (vs_document_changes s). dvc_type c = CRemoved \<longrightarrow>
         dm_get (doc_key (dvc_document c)) docs \<noteq> None)"
    by (rule view_told[OF qv e(2) t])
  define qv' where "qv' = qv\<lparr>qv_view := v'\<rparr>"
  define se1 where "se1 = se\<lparr>se_query_views_by_query := xs @ (q, qv') # ys\<rparr>"
  have se1: "limbo_ok se1" "limbo_tracked se1" using se(1,2) by (simp_all add: se1_def limbo_tracked_def known_keys_def)
  obtain se2 where u: "UpdateTrackedLimboDocuments (vc_limbo_changes vc) (qv_target_id qv) se1 = Inr se2" "limbo_ok se2"
      "limbo_framed se1 se2" "limbo_tracked se2"
    using UpdateTracked_ok[OF se1(1), of "vc_limbo_changes vc" "qv_target_id qv"] se1(2) live(1) by auto
  have put: "um_put Query_eq q qv' (se_query_views_by_query se) = xs @ (q, qv') # ys"
    using um_put_middle[of xs Query_eq q qv' qv ys] views live(3) by simp
  define cs' where "cs' = (case vc_snapshot vc of None \<Rightarrow> [] | Some s \<Rightarrow> [FromViewSnapshot s (qv_target_id qv)])"
  have same_id: "qv_target_id qv' = qv_target_id qv" by (simp add: qv'_def)
  have "emit_step docs None (se, ss, cs) (q, qv) =
      Inr (se2, ss @ (case vc_snapshot vc of None \<Rightarrow> [] | Some s \<Rightarrow> [s]), cs @ cs')"
    using c(1,2,3) put u(1) same_id
    by (simp add: emit_step_def Let_def qv'_def[symmetric] se1_def[symmetric] cs'_def split: option.splits)
  moreover have "se_local_store se2 = se_local_store se" "se_queries_by_target se2 = se_queries_by_target se"
      "se_query_views_by_query se2 = xs @ (q, qv') # ys"
    using u(3) by (simp_all add: limbo_framed_def se1_def)
  moreover have "entry_told (se_local_store se) b1 r1 (q, qv) (q, qv')"
    using e(1) c(4-6) by (simp add: entry_told_def entry_ok_def qv'_def)
  moreover have "\<forall>c \<in> set cs'. change_told (se_local_store se) docs c"
    using c(7) live(1,2) by (cases "vc_snapshot vc") (auto simp: cs'_def change_told_def view_change_ok_def removed_keys)
  moreover have "quiet se se2" using quiet_trans[OF _ limbo_framed_quiet[OF u(3)], of se] by (simp add: se1_def)
  ultimately show ?thesis using u(2,4) by blast
qed

lemma emit_run_told:
  assumes "limbo_ok se" "limbo_tracked se" "ls_ok (se_local_store se)" "tells docs b0 r0 b1 r1"
    and "\<forall>e \<in> set ys. entry_ok (se_local_store se) e \<and> view_shows (qv_view (snd e)) b0 r0"
    and "se_query_views_by_query se = xs @ ys" "um_ok Query_eq (xs @ ys)"
  shows "\<exists>se' ss' cs' ys'. rfold (emit_step docs None) (se, ss, cs) ys = Inr (se', ss', cs @ cs') \<and> limbo_ok se' \<and> limbo_tracked se' \<and>
    se_local_store se' = se_local_store se \<and> se_queries_by_target se' = se_queries_by_target se \<and>
    se_query_views_by_query se' = xs @ ys' \<and> list_all2 (entry_told (se_local_store se) b1 r1) ys ys' \<and>
    (\<forall>c \<in> set cs'. change_told (se_local_store se) docs c) \<and> quiet se se'"
  using assms(1-3,5-)
proof (induction ys arbitrary: se ss cs xs)
  case Nil
  then show ?case by (intro exI[of _ se] exI[of _ ss] exI[of _ "[]"]) simp
next
  case (Cons e ys)
  obtain q qv where e: "e = (q, qv)" by (cases e)
  have sep: "\<forall>x \<in> set xs. \<not> Query_eq (fst x) q" "um_ok Query_eq ((xs @ [(q, w)]) @ ys)" for w
    using um_ok_middle[of Query_eq xs q qv ys w] Cons.prems(6) by (simp_all add: e)
  obtain se1 ss1 cs1 qv1 where s: "emit_step docs None (se, ss, cs) (q, qv) = Inr (se1, ss1, cs @ cs1)" "limbo_ok se1" "limbo_tracked se1"
      "se_local_store se1 = se_local_store se" "se_queries_by_target se1 = se_queries_by_target se"
      "se_query_views_by_query se1 = xs @ (q, qv1) # ys" "entry_told (se_local_store se) b1 r1 (q, qv) (q, qv1)"
      "\<forall>c \<in> set cs1. change_told (se_local_store se) docs c" "quiet se se1"
    using emit_step_told[OF Cons.prems(1-3) _ _ assms(4), of q qv xs ys ss cs] Cons.prems(4,5) sep(1) unfolding e by auto
  have "\<forall>e \<in> set ys. entry_ok (se_local_store se1) e \<and> view_shows (qv_view (snd e)) b0 r0"
    using Cons.prems(4) by (simp add: s(4))
  moreover have "se_query_views_by_query se1 = (xs @ [(q, qv1)]) @ ys" by (simp add: s(6))
  ultimately obtain se2 ss2 cs2 ys2 where r: "rfold (emit_step docs None) (se1, ss1, cs @ cs1) ys = Inr (se2, ss2, (cs @ cs1) @ cs2)"
      "limbo_ok se2" "limbo_tracked se2" "se_local_store se2 = se_local_store se1" "se_queries_by_target se2 = se_queries_by_target se1"
      "se_query_views_by_query se2 = (xs @ [(q, qv1)]) @ ys2" "list_all2 (entry_told (se_local_store se1) b1 r1) ys ys2"
      "\<forall>c \<in> set cs2. change_told (se_local_store se1) docs c" "quiet se1 se2"
    using Cons.IH[of se1 "xs @ [(q, qv1)]" ss1 "cs @ cs1"] s(2-4) Cons.prems(3) sep(2) by (metis (no_types, lifting))
  have "quiet se se2" using quiet_trans[OF s(9) r(9)] .
  then show ?case
    using s r by (intro exI[of _ se2] exI[of _ ss2] exI[of _ "cs1 @ cs2"] exI[of _ "(q, qv1) # ys2"]) (auto simp: e)
qed

theorem Emit_told:
  assumes "limbo_ok se" "limbo_tracked se" "ls_ok (se_local_store se)" "rd_ready (ls_delegate (se_local_store se))"
    and "tells docs b0 r0 b1 r1" "um_ok Query_eq (se_query_views_by_query se)"
    and "\<forall>e \<in> set (se_query_views_by_query se). entry_ok (se_local_store se) e \<and> view_shows (qv_view (snd e)) b0 r0"
  shows "\<exists>se'. EmitNewSnapshotsAndNotifyLocalStore docs None se = Inr se' \<and> limbo_ok se' \<and> limbo_tracked se' \<and> quiet se se' \<and>
    se_queries_by_target se' = se_queries_by_target se \<and> ls_ok (se_local_store se') \<and> notified (se_local_store se) (se_local_store se') \<and>
    list_all2 (entry_told (se_local_store se) b1 r1) (se_query_views_by_query se) (se_query_views_by_query se') \<and>
    (\<forall>k. remote (se_local_store se') k = remote (se_local_store se) k \<or>
       remote (se_local_store se') k = None \<and> k \<notin> referenced (ls_persistence (se_local_store se')) \<and> dm_get k docs \<noteq> None)"
proof -
  obtain se1 ss cs where r: "rfold (emit_step docs None) (se, [], []) (se_query_views_by_query se) = Inr (se1, ss, cs)"
      "limbo_ok se1" "limbo_tracked se1" "se_local_store se1 = se_local_store se" "se_queries_by_target se1 = se_queries_by_target se"
      "list_all2 (entry_told (se_local_store se) b1 r1) (se_query_views_by_query se) (se_query_views_by_query se1)"
      "\<forall>c \<in> set cs. change_told (se_local_store se) docs c" "quiet se se1"
    using emit_run_told[OF assms(1-3,5,7), of "[]" "[]" "[]"] assms(6) by auto
  obtain ls where n: "NotifyLocalViewChanges cs (se_local_store se) = Inr ls" "ls_ok ls" "notified (se_local_store se) ls"
      "\<forall>k. remote ls k = remote (se_local_store se) k \<or>
        remote ls k = None \<and> k \<notin> referenced (ls_persistence ls) \<and> (\<exists>c \<in> set cs. k \<in> set (lvc_removed_keys c))"
    using NotifyLocalViewChanges_ok[OF assms(3,4), of cs] r(7) by (auto simp: change_told_def)
  have "remote ls k = remote (se_local_store se) k \<or>
      remote ls k = None \<and> k \<notin> referenced (ls_persistence ls) \<and> dm_get k docs \<noteq> None" for k
    using n(4) r(7) unfolding change_told_def by blast
  moreover have "EmitNewSnapshotsAndNotifyLocalStore docs None se = Inr (set_local_store ls (emit (OnViewSnapshots ss) se1))"
    using r(1,4) n(1) by (simp add: EmitNewSnapshotsAndNotifyLocalStore_def emit_def)
  moreover have "quiet se (set_local_store ls (emit (OnViewSnapshots ss) se1))"
    using quiet_trans[OF r(8), of "set_local_store ls (emit (OnViewSnapshots ss) se1)"]
      quiet_trans[of se1 "emit (OnViewSnapshots ss) se1" "set_local_store ls (emit (OnViewSnapshots ss) se1)"]
    by (simp add: is_callback_def)
  moreover have "limbo_tracked (set_local_store ls (emit (OnViewSnapshots ss) se1))"
    using r(3) by (simp add: limbo_tracked_def known_keys_def set_local_store_def emit_def)
  moreover have "limbo_ok (set_local_store ls (emit (OnViewSnapshots ss) se1))" using r(2) by simp
  ultimately show ?thesis
    using r n(2,3) by (intro exI[of _ "set_local_store ls (emit (OnViewSnapshots ss) se1)"]) (simp_all add: set_local_store_def emit_def)
qed

section \<open>Writes are shown at once\<close>

lemma views_of_tell:
  assumes "views_of ks ls docs" "\<forall>b \<in> set (pending ls). batch_ok b" "\<And>k. VerifyKeyMatches k (remote ls k)"
    and "\<And>k. k \<notin> ks \<Longrightarrow> apply_batches k (pending ls) (remote ls k) = apply_batches k b0 (r0 k)"
  shows "tells docs b0 r0 (pending ls) (remote ls)"
proof -
  have "case dm_get k docs of
        None \<Rightarrow> apply_batches k (pending ls) (remote ls k) = apply_batches k b0 (r0 k)
      | Some d \<Rightarrow> \<exists>l. apply_batches k (pending ls) (remote ls k) = Inr l \<and> VerifyKeyMatches k l \<and> d = doc_or_missing k l" for k
  proof (cases "k \<in> ks")
    case True
    obtain d where d: "apply_batches k (pending ls) (remote ls k) = Inr d" "dm_get k docs = Some (doc_or_missing k d)"
      using views_of_get[OF assms(1) True] by blast
    moreover have "VerifyKeyMatches k d"
      using apply_batches_total[of "pending ls" k "remote ls k"] assms(2,3) d(1) by auto
    ultimately show ?thesis by simp
  next
    case False
    moreover have "dm_get k docs = None" using assms(1) False unfolding views_of_def by meson
    ultimately show ?thesis using assms(4) by simp
  qed
  then show ?thesis using assms(1) by (simp add: tells_def views_of_def)
qed

lemma unwritten_batch:
  assumes "\<forall>b \<in> set (bs @ [b]). batch_ok b \<and> base_in_batch b" "VerifyKeyMatches k d" "\<not> writes k b"
  shows "apply_batches k (bs @ [b]) d = apply_batches k bs d"
  using apply_batches_filter[of "bs @ [b]" k d "writes k"] apply_batches_filter[of bs k d "writes k"] assms by simp

lemma unwritten_head:
  assumes "\<forall>c \<in> set (b # bs). batch_ok c \<and> base_in_batch c" "\<And>k. VerifyKeyMatches k (docs k)" "\<not> writes k b"
  shows "apply_batches k (b # bs) (docs k) = apply_batches k bs (docs k)"
  using apply_batches_filter[of "b # bs" k "docs k" "writes k"] apply_batches_filter[of bs k "docs k" "writes k"] assms by simp

text \<open>A target that queries are mapped to has a query, and each of its queries has a view for it.\<close>

definition queries_ok :: "(TargetId \<times> Query list) list \<Rightarrow> (Query \<times> QueryView) list \<Rightarrow> bool" where
  "queries_ok by_target views =
     (\<forall>i qs. um_find (=) i by_target = Some qs \<longrightarrow>
        qs \<noteq> [] \<and> (\<forall>q \<in> set qs. \<exists>e \<in> set views. Query_eq (fst e) q \<and> qv_target_id (snd e) = i))"

lemma told_queries_ok:
  assumes "list_all2 (entry_told ls b r) es es'" "queries_ok m es" shows "queries_ok m es'"
proof -
  have "\<exists>e' \<in> set es'. fst e' = fst e \<and> qv_target_id (snd e') = qv_target_id (snd e)" if "e \<in> set es" for e
    using assms(1) that by (induction rule: list_all2_induct) (auto simp: entry_told_def)
  then show ?thesis using assms(2) unfolding queries_ok_def by metis
qed

text \<open>Every view shows these batches over these documents; the invariant has those of the local store.\<close>

definition engine_shows :: "SyncEngine \<Rightarrow> MutationBatch list \<Rightarrow> (DocumentKey \<Rightarrow> MaybeDocument option) \<Rightarrow> bool" where
  "engine_shows se batches docs =
     (limbo_ok se \<and> limbo_tracked se \<and> ls_ok (se_local_store se) \<and> is_eager (ls_delegate (se_local_store se)) \<and>
      um_ok Query_eq (se_query_views_by_query se) \<and> queries_ok (se_queries_by_target se) (se_query_views_by_query se) \<and>
      (\<forall>e \<in> set (se_query_views_by_query se). entry_ok (se_local_store se) e \<and> view_shows (qv_view (snd e)) batches docs))"

definition engine_ok :: "SyncEngine \<Rightarrow> bool" where
  "engine_ok se = engine_shows se (pending (se_local_store se)) (remote (se_local_store se))"

lemma engine_shows_emit [simp]: "engine_shows (emit out se) b r = engine_shows se b r"
  by (simp add: engine_shows_def emit_def limbo_ok_def limbo_tracked_def known_keys_def)

lemma told_keys: "list_all2 (entry_told ls b r) es es' \<Longrightarrow> map fst es' = map fst es"
  by (induction rule: list_all2_induct) (simp_all add: entry_told_def)

lemma told_all: "list_all2 (entry_told ls b r) es es' \<Longrightarrow> e' \<in> set es' \<Longrightarrow> entry_ok ls e' \<and> view_shows (qv_view (snd e')) b r"
  by (induction rule: list_all2_induct) (auto simp: entry_told_def)

lemma engine_showsI:
  assumes "limbo_ok se'" "limbo_tracked se'" "ls_ok (se_local_store se')" "is_eager (ls_delegate (se_local_store se'))"
    and "um_ok Query_eq es" "list_all2 (entry_told ls b r) es (se_query_views_by_query se')"
    and "ls_target_id_by_target (se_local_store se') = ls_target_id_by_target ls" "queries_ok (se_queries_by_target se') es"
  shows "engine_shows se' b r"
  using assms(1-5) told_queries_ok[OF assms(6,8)] told_keys[OF assms(6)] told_all[OF assms(6)] entry_ok_cong[OF assms(7)]
  by (auto simp: engine_shows_def um_ok_def)

text \<open>Telling the views of a change of the local store.\<close>

lemma Emit_shows:
  assumes se: "engine_shows se b0 r0" and t: "tells docs b0 r0 b1 r1"
  shows "\<exists>se'. EmitNewSnapshotsAndNotifyLocalStore docs None se = Inr se' \<and> engine_shows se' b1 r1 \<and> quiet se se' \<and>
    map fst (se_query_views_by_query se') = map fst (se_query_views_by_query se) \<and>
    pending (se_local_store se') = pending (se_local_store se) \<and>
    (\<forall>k. remote (se_local_store se') k = remote (se_local_store se) k \<or>
       remote (se_local_store se') k = None \<and> k \<notin> referenced (ls_persistence (se_local_store se')) \<and> dm_get k docs \<noteq> None)"
proof -
  have e: "limbo_ok se" "limbo_tracked se" "ls_ok (se_local_store se)" "is_eager (ls_delegate (se_local_store se))"
      "um_ok Query_eq (se_query_views_by_query se)"
      "\<forall>e \<in> set (se_query_views_by_query se). entry_ok (se_local_store se) e \<and> view_shows (qv_view (snd e)) b0 r0"
      "queries_ok (se_queries_by_target se) (se_query_views_by_query se)"
    using se by (simp_all add: engine_shows_def)
  obtain se' where s: "EmitNewSnapshotsAndNotifyLocalStore docs None se = Inr se'" "limbo_ok se'" "limbo_tracked se'" "quiet se se'"
      "ls_ok (se_local_store se')" "notified (se_local_store se) (se_local_store se')"
      "list_all2 (entry_told (se_local_store se) b1 r1) (se_query_views_by_query se) (se_query_views_by_query se')"
      "\<forall>k. remote (se_local_store se') k = remote (se_local_store se) k \<or>
         remote (se_local_store se') k = None \<and> k \<notin> referenced (ls_persistence (se_local_store se')) \<and> dm_get k docs \<noteq> None"
      "se_queries_by_target se' = se_queries_by_target se"
    using Emit_told[OF e(1-3) eager_ready[OF e(4)] t e(5,6)] by blast
  have "engine_shows se' b1 r1"
    using s(6,9) e(4,7) by (intro engine_showsI[OF s(2,3,5) _ e(5) s(7)]) (simp_all add: notified_def)
  then show ?thesis using s(1,4,8) notified_queue[OF s(6)] told_keys[OF s(7)] by auto
qed

lemma engine_shows_store:
  assumes "engine_shows se b r" "ls_ok ls" "framed (se_local_store se) ls" "se_local_store se' = ls"
    "se_query_views_by_query se' = se_query_views_by_query se" "limbo_ok se' = limbo_ok se" "limbo_tracked se' = limbo_tracked se"
    "se_queries_by_target se' = se_queries_by_target se"
  shows "engine_shows se' b r"
proof -
  have "is_eager (ls_delegate ls) = is_eager (ls_delegate (se_local_store se))"
    "ls_target_id_by_target ls = ls_target_id_by_target (se_local_store se)" using assms(3) by (simp_all add: framed_def)
  then show ?thesis using assms by (simp add: engine_shows_def entry_ok_def)
qed

text \<open>
  A local write never fails, and when it returns the views show it, before the backend hears of it.
\<close>

theorem WriteMutations_ok:
  assumes se: "engine_ok se" "se_has_callback se"
    and ms: "ms \<noteq> []" "\<forall>m \<in> set ms. writable m" "distinct (map mut_key ms)"
    and ids: "sint (mq_next_batch_id (ls_queue (se_local_store se))) < 2 ^ 31 - 1"
  shows "\<exists>se' b. WriteMutations t ms callback se = Inr se' \<and> engine_ok se' \<and> se_has_callback se' \<and> mb_mutations b = ms \<and> mb_local_write_time b = t \<and>
    map fst (se_query_views_by_query se') = map fst (se_query_views_by_query se) \<and>
    pending (se_local_store se') = pending (se_local_store se) @ [b] \<and> remote (se_local_store se') = remote (se_local_store se)"
proof -
  let ?ls = "se_local_store se"
  have e: "ls_ok ?ls" "is_eager (ls_delegate ?ls)" using se(1) by (simp_all add: engine_ok_def engine_shows_def)
  obtain res ls b where w: "WriteLocally t ms ?ls = Inr (res, ls)" "ls_ok ls" "framed ?ls ls" "remote ls = remote ?ls"
      "pending ls = pending ?ls @ [b]" "mb_mutations b = ms" "mb_local_write_time b = t"
      "views_of (mut_key ` set ms) ls (lwr_changes res)"
    using WriteLocally_ok[OF e(1) eager_ready[OF e(2)] ms(1,2) ids, of t] ms(3) by auto
  define se1 where "se1 = add_mutation_callback (lwr_batch_id res) callback (set_local_store ls se)"
  have store: "se_local_store se1 = ls" by (simp add: se1_def add_mutation_callback_def Let_def set_local_store_def)
  have se1: "engine_shows se1 (pending ?ls) (remote ?ls)"
    by (rule engine_shows_store[OF se(1)[unfolded engine_ok_def] w(2,3) store])
      (simp_all add: se1_def add_mutation_callback_def Let_def set_local_store_def limbo_ok_def limbo_tracked_def known_keys_def)
  have batches: "\<forall>b \<in> set (pending ls). batch_ok b \<and> base_in_batch b" using pending_ok(1,2)[OF w(2)] by blast
  have "tells (lwr_changes res) (pending ?ls) (remote ?ls) (pending ls) (remote ls)"
  proof (rule views_of_tell[OF w(8)])
    fix k assume "k \<notin> mut_key ` set ms"
    then have "\<not> writes k b" by (simp add: writes_def w(6))
    then show "apply_batches k (pending ls) (remote ls k) = apply_batches k (pending ?ls) (remote ?ls k)"
      using unwritten_batch[of "pending ?ls" b k "remote ?ls k"] batches remote_matches[OF e(1)] by (simp add: w(4,5))
  qed (use batches remote_matches[OF w(2)] in auto)
  then obtain se2 where s: "EmitNewSnapshotsAndNotifyLocalStore (lwr_changes res) None se1 = Inr se2"
      "engine_shows se2 (pending ls) (remote ls)" "pending (se_local_store se2) = pending ls"
      "\<forall>k. remote (se_local_store se2) k = remote ls k \<or>
         remote (se_local_store se2) k = None \<and> k \<notin> referenced (ls_persistence (se_local_store se2)) \<and> dm_get k (lwr_changes res) \<noteq> None"
      "map fst (se_query_views_by_query se2) = map fst (se_query_views_by_query se1)" "quiet se1 se2"
    using Emit_shows[OF se1] unfolding store by blast
  have "se_has_callback se1" using se(2) by (simp add: se1_def add_mutation_callback_def Let_def set_local_store_def)
  then have called: "se_has_callback se2" using s(6) by (simp add: quiet_def)
  have views1: "se_query_views_by_query se1 = se_query_views_by_query se"
    by (simp add: se1_def add_mutation_callback_def Let_def set_local_store_def)
  have ok2: "ls_ok (se_local_store se2)" using s(2) by (simp add: engine_shows_def)
  have "remote (se_local_store se2) k = remote ls k" for k
  proof (cases "dm_get k (lwr_changes res)")
    case (Some d)
    then have "k \<in> mut_key ` set ms" using w(8) unfolding views_of_def by (metis option.distinct(1))
    then have "writes k b" by (simp add: writes_def w(6))
    moreover have "b \<in> set (pending (se_local_store se2))" by (simp add: s(3) w(5))
    ultimately have "k \<in> referenced (ls_persistence (se_local_store se2))"
      using pending_ok(3,4)[OF ok2] by (auto simp: referenced_def)
    then show ?thesis using s(4) by blast
  qed (use s(4) in auto)
  then have r: "remote (se_local_store se2) = remote ls" by blast
  have "engine_ok (emit FillWritePipeline se2)" using s(2,3) r by (simp add: engine_ok_def) (simp add: emit_def)
  moreover have "WriteMutations t ms callback se = Inr (emit FillWritePipeline se2)"
    using s(1) se(2) by (simp add: WriteMutations_def AssertCallbackExists_def w(1) Let_def se1_def[symmetric])
  ultimately show ?thesis using w(4-7) s(3,5) r
    by (intro exI[of _ "emit FillWritePipeline se2"] exI[of _ b]) (simp add: emit_def views1 called)
qed

lemma notify_user_parts:
  "se_local_store (NotifyUser i status se) = se_local_store se"
  "se_query_views_by_query (NotifyUser i status se) = se_query_views_by_query se"
  "limbo_tracked (NotifyUser i status se) = limbo_tracked se"
  "se_queries_by_target (NotifyUser i status se) = se_queries_by_target se"
  "se_has_callback (NotifyUser i status se) = se_has_callback se"
  by (simp_all add: NotifyUser_def emit_def limbo_tracked_def known_keys_def split: option.splits)

lemma trigger_parts:
  "se_local_store (TriggerPendingWriteCallbacks i se) = se_local_store se"
  "se_query_views_by_query (TriggerPendingWriteCallbacks i se) = se_query_views_by_query se"
  "limbo_tracked (TriggerPendingWriteCallbacks i se) = limbo_tracked se"
  "se_queries_by_target (TriggerPendingWriteCallbacks i se) = se_queries_by_target se"
  "se_has_callback (TriggerPendingWriteCallbacks i se) = se_has_callback se"
  by (simp_all add: TriggerPendingWriteCallbacks_def call_all_eq limbo_tracked_def known_keys_def split: option.splits)

text \<open>
  When a write is rejected the views show the remaining batches over the remote documents the store had;
  of these it may drop those that nothing references any more.
\<close>

theorem HandleRejectedWrite_ok:
  assumes se: "engine_ok se" "se_has_callback se" and p: "pending (se_local_store se) = b # rest"
  shows "\<exists>se'. HandleRejectedWrite (mb_batch_id b) status se = Inr se' \<and> engine_shows se' rest (remote (se_local_store se)) \<and>
    map fst (se_query_views_by_query se') = map fst (se_query_views_by_query se) \<and>
    pending (se_local_store se') = rest \<and>
    (\<forall>k. remote (se_local_store se') k = remote (se_local_store se) k \<or>
       remote (se_local_store se') k = None \<and> writes k b)"
proof -
  let ?ls = "se_local_store se"
  have e: "ls_ok ?ls" "is_eager (ls_delegate ?ls)" using se(1) by (simp_all add: engine_ok_def engine_shows_def)
  obtain docs ls ls2 where r: "RejectBatch (mb_batch_id b) ?ls = Inr (docs, ls)" "ls_ok ls" "framed ?ls ls" "pending ls = rest"
      "pending ls2 = rest" "remote ls2 = remote ?ls" "views_of (set (Batch_keys b)) ls2 docs"
      "\<forall>k. remote ls k = (if is_eager (ls_delegate ?ls) \<and> k \<in> set (Batch_keys b) \<and> k \<notin> referenced (ls_persistence ls)
        then None else remote ?ls k)"
    using RejectBatch_ok[OF e(1) eager_ready[OF e(2)] p] by blast
  have keys: "k \<in> set (Batch_keys b) \<longleftrightarrow> writes k b" for k by (simp add: writes_def set_Batch_keys)
  have batches: "\<forall>b \<in> set (b # rest). batch_ok b \<and> base_in_batch b" using pending_ok(1,2)[OF e(1)] unfolding p by blast
  have "tells docs (pending ?ls) (remote ?ls) (pending ls2) (remote ls2)"
  proof (rule views_of_tell[OF r(7)])
    fix k assume "k \<notin> set (Batch_keys b)"
    then show "apply_batches k (pending ls2) (remote ls2 k) = apply_batches k (pending ?ls) (remote ?ls k)"
      using unwritten_head[OF batches remote_matches[OF e(1)], of k] by (simp add: r(5,6) p keys)
  qed (use batches remote_matches[OF e(1)] in \<open>auto simp: r(5,6)\<close>)
  define se1 where "se1 = TriggerPendingWriteCallbacks (mb_batch_id b) (NotifyUser (mb_batch_id b) status (set_local_store ls se))"
  have store: "se_local_store se1 = ls" by (simp add: se1_def trigger_parts notify_user_parts set_local_store_def)
  have se1: "engine_shows se1 (pending ?ls) (remote ?ls)"
    by (rule engine_shows_store[OF se(1)[unfolded engine_ok_def] r(2,3) store])
      (simp_all add: se1_def trigger_parts notify_user_parts, simp_all add: set_local_store_def limbo_tracked_def known_keys_def)
  obtain se2 where s: "EmitNewSnapshotsAndNotifyLocalStore docs None se1 = Inr se2" "engine_shows se2 rest (remote ?ls)"
      "pending (se_local_store se2) = pending ls"
      "\<forall>k. remote (se_local_store se2) k = remote ls k \<or>
         remote (se_local_store se2) k = None \<and> k \<notin> referenced (ls_persistence (se_local_store se2)) \<and> dm_get k docs \<noteq> None"
      "map fst (se_query_views_by_query se2) = map fst (se_query_views_by_query se1)"
    using Emit_shows[OF se1 \<open>tells docs _ _ _ _\<close>] unfolding store r(5,6) by blast
  have "se_query_views_by_query se1 = se_query_views_by_query se"
    by (simp add: se1_def trigger_parts notify_user_parts set_local_store_def)
  then have views: "map fst (se_query_views_by_query se2) = map fst (se_query_views_by_query se)" by (simp add: s(5))
  have "remote (se_local_store se2) k = remote ?ls k \<or> remote (se_local_store se2) k = None \<and> writes k b" for k
  proof -
    have "dm_get k docs \<noteq> None \<Longrightarrow> writes k b" using r(7) keys unfolding views_of_def by (metis option.distinct(1))
    moreover have "remote ls k = remote ?ls k \<or> remote ls k = None \<and> writes k b" using r(8) keys by auto
    ultimately show ?thesis using s(4) by metis
  qed
  moreover have "HandleRejectedWrite (mb_batch_id b) status se = Inr se2"
    using s(1) se(2) by (simp add: HandleRejectedWrite_def AssertCallbackExists_def r(1) Let_def se1_def[symmetric])
  ultimately show ?thesis using s(2,3) r(4) views by auto
qed

text \<open>
  When a write is acknowledged the views show the remaining batches over the results of the backend.
\<close>

definition acked_docs :: "MutationBatchResult \<Rightarrow> (DocumentKey \<Rightarrow> MaybeDocument option) \<Rightarrow> DocumentKey \<Rightarrow> MaybeDocument option" where
  "acked_docs br docs k =
     (if writes k (mbr_batch br) then case acked br k (docs k) of Inr d \<Rightarrow> d | Inl _ \<Rightarrow> None else docs k)"

lemma acked_matches:
  assumes "batch_result_ok br" "batch_ok (mbr_batch br)" "VerifyKeyMatches k d" "writes k (mbr_batch br)" "acked br k d = Inr (Some d')"
  shows "VerifyKeyMatches k (Some d')"
proof -
  have "k \<in> set (Batch_keys (mbr_batch br))" using assms(4) by (simp add: writes_def set_Batch_keys)
  from Batch_remote_total[OF assms(1-3) this] obtain x where
    "Batch_ApplyToRemoteDocument (mbr_batch br) d k br = Inr (Some x)" "doc_key x = k" by blast
  then show ?thesis using assms(3,5) by (auto simp: acked_def VerifyKeyMatches_def split: option.splits if_splits)
qed

theorem HandleSuccessfulWrite_ok:
  assumes se: "engine_ok se" "se_has_callback se" and p: "pending (se_local_store se) = mbr_batch br # rest" and br: "batch_result_ok br"
  shows "\<exists>se'. HandleSuccessfulWrite br se = Inr se' \<and> engine_shows se' rest (acked_docs br (remote (se_local_store se))) \<and>
    map fst (se_query_views_by_query se') = map fst (se_query_views_by_query se) \<and>
    pending (se_local_store se') = rest \<and>
    (\<forall>k. remote (se_local_store se') k = acked_docs br (remote (se_local_store se)) k \<or>
       remote (se_local_store se') k = None \<and> writes k (mbr_batch br))"
proof -
  let ?b = "mbr_batch br" and ?i = "mb_batch_id (mbr_batch br)"
  define se0 where "se0 = TriggerPendingWriteCallbacks ?i (NotifyUser ?i Status_OK se)"
  let ?ls = "se_local_store se"
  have store0: "se_local_store se0 = ?ls" by (simp add: se0_def trigger_parts notify_user_parts)
  have se0: "engine_shows se0 (pending ?ls) (remote ?ls)"
    using se(1) by (simp add: se0_def engine_ok_def engine_shows_def trigger_parts notify_user_parts)
  have e: "ls_ok ?ls" "is_eager (ls_delegate ?ls)" using se(1) by (simp_all add: engine_ok_def engine_shows_def)
  obtain docs ls ls2 where r: "AcknowledgeBatch br ?ls = Inr (docs, ls)" "ls_ok ls" "framed ?ls ls" "pending ls = rest"
      "pending ls2 = rest" "results_applied br ?ls ls2" "views_of (set (Batch_keys ?b)) ls2 docs"
      "\<forall>k. remote ls k = (if is_eager (ls_delegate ?ls) \<and> k \<in> set (Batch_keys ?b) \<and> k \<notin> referenced (ls_persistence ls)
        then None else remote ls2 k)"
    using ls_AcknowledgeBatch_ok[OF e(1) eager_ready[OF e(2)] p br] by blast
  have keys: "k \<in> set (Batch_keys ?b) \<longleftrightarrow> writes k ?b" for k by (simp add: writes_def set_Batch_keys)
  have batches: "\<forall>b \<in> set (?b # rest). batch_ok b \<and> base_in_batch b" using pending_ok(1,2)[OF e(1)] unfolding p by blast
  have applied: "if writes k ?b then \<exists>d. acked br k (remote ?ls k) = Inr (Some d) \<and> remote ls2 k = Some d
      else remote ls2 k = remote ?ls k" for k
    using r(6) unfolding results_applied_def keys by (metis (mono_tags, lifting))
  have docs2: "remote ls2 = acked_docs br (remote ?ls)"
  proof
    fix k show "remote ls2 k = acked_docs br (remote ?ls) k" using applied[of k] by (auto simp: acked_docs_def split: if_splits)
  qed
  have matches: "VerifyKeyMatches k (remote ls2 k)" for k
  proof (cases "writes k ?b")
    case True
    then obtain d where d: "acked br k (remote ?ls k) = Inr (Some d)" "remote ls2 k = Some d" using applied[of k] by auto
    have "batch_ok ?b" using batches by simp
    then show ?thesis using acked_matches[OF br _ remote_matches[OF e(1)] True d(1)] by (simp add: d(2))
  next
    case False
    then have "remote ls2 k = remote ?ls k" using applied[of k] by simp
    then show ?thesis using remote_matches[OF e(1), of k] by simp
  qed
  have tell: "tells docs (pending ?ls) (remote ?ls) (pending ls2) (remote ls2)"
  proof (rule views_of_tell[OF r(7)])
    fix k assume "k \<notin> set (Batch_keys ?b)"
    then show "apply_batches k (pending ls2) (remote ls2 k) = apply_batches k (pending ?ls) (remote ?ls k)"
      using unwritten_head[OF batches remote_matches[OF e(1)], of k] applied[of k] by (simp add: r(5) p keys)
  qed (use batches matches in \<open>auto simp: r(5)\<close>)
  define se1 where "se1 = set_local_store ls se0"
  have se1: "engine_shows se1 (pending ?ls) (remote ?ls)" and store: "se_local_store se1 = ls"
    using engine_shows_store[OF se0 r(2), of se1] r(3)
    by (simp_all add: se1_def store0) (simp_all add: set_local_store_def limbo_tracked_def known_keys_def)
  obtain se2 where s: "EmitNewSnapshotsAndNotifyLocalStore docs None se1 = Inr se2" "engine_shows se2 rest (remote ls2)"
      "pending (se_local_store se2) = pending ls"
      "\<forall>k. remote (se_local_store se2) k = remote ls k \<or>
         remote (se_local_store se2) k = None \<and> k \<notin> referenced (ls_persistence (se_local_store se2)) \<and> dm_get k docs \<noteq> None"
      "map fst (se_query_views_by_query se2) = map fst (se_query_views_by_query se1)"
    using Emit_shows[OF se1 tell] unfolding store r(5) by blast
  have "se_query_views_by_query se1 = se_query_views_by_query se"
    by (simp add: se1_def se0_def trigger_parts notify_user_parts set_local_store_def)
  then have views: "map fst (se_query_views_by_query se2) = map fst (se_query_views_by_query se)" by (simp add: s(5))
  have "remote (se_local_store se2) k = acked_docs br (remote ?ls) k \<or> remote (se_local_store se2) k = None \<and> writes k ?b" for k
  proof -
    have "dm_get k docs \<noteq> None \<Longrightarrow> writes k ?b" using r(7) keys unfolding views_of_def by (metis option.distinct(1))
    moreover have "remote ls k = remote ls2 k \<or> remote ls k = None \<and> writes k ?b" using r(8) keys by auto
    ultimately show ?thesis using s(4) unfolding docs2 by metis
  qed
  moreover have "HandleSuccessfulWrite br se = Inr se2"
    using s(1) se(2) by (simp add: HandleSuccessfulWrite_def AssertCallbackExists_def Let_def se0_def[symmetric] se1_def[symmetric] r(1) store0)
  ultimately show ?thesis using s(2,3) r(4) views unfolding docs2 by auto
qed

section \<open>A new listen\<close>

definition listenable :: "Query \<Rightarrow> bool" where
  "listenable query = (query_ok query \<and> unlimited query \<and>
     (if IsCollectionGroupQuery query then q_path query = [] else length (q_path query) mod 2 = 1))"

lemma listenable_scannable: "ls_ok ls \<Longrightarrow> listenable query \<Longrightarrow> scannable query (local_documents ls)"
  using local_documents_ok(2)[of ls] by (simp add: scannable_def listenable_def)

text \<open>A new view that gets the results of its query shows the local store.\<close>

lemma new_view_shows:
  assumes ls: "ls_ok ls" and q: "query_ok query" "unlimited query" and r: "results_exact query (local_documents ls) docs"
  obtains acc vc v' where "ComputeDocumentChanges (make_View query keys) docs None = Inr acc"
    "View_ApplyChanges acc None (make_View query keys) = Inr (vc, v')" "view_ok v'" "view_query v' = query"
    "view_shows v' (pending ls) (remote ls)" "vc_snapshot vc \<noteq> None"
proof -
  let ?v = "make_View query keys"
  have v: "view_ok ?v" "view_query ?v = query" "view_document_set ?v = ds_new" "view_sync_state ?v = SSNone"
    using make_View_ok[OF q(1)] by (simp_all add: make_View_def)
  have dm: "dm_ok docs" and exact: "rel_option same_contents (matching_view query (local_documents ls) k) (dm_get k docs)" for k
    using r by (simp_all add: results_exact_def)
  have result: "doc_key d = k \<and> is_document d \<and> Query_Matches query d = Inr True" if has: "dm_get k docs = Some d" for k d
  proof -
    obtain l where l: "matching_view query (local_documents ls) k = Some l" "same_contents l d"
      using exact[of k] has by (auto simp: option_rel_Some2)
    then show ?thesis
      using matching_key[OF local_documents_ok(1)[OF ls] l(1)] same_contents_parts[OF l(2)] Query_Matches_same[OF l(2), of query] by metis
  qed
  have dc: "doc_changes_ok docs"
    using dm_distinct[OF dm] result by (auto simp: doc_changes_ok_def dm_get_mem[OF dm])
  obtain all acc where c: "ComputeDocumentChanges ?v docs None = Inr acc" "changes_ok query ds_new acc"
      "result_docs_ok query all" "\<forall>k. k \<notin> fst ` set docs \<longrightarrow> ds_GetDocument k all = ds_GetDocument k ds_new"
      "\<forall>kv \<in> set docs. step_result query (snd kv) (ds_GetDocument (fst kv) ds_new) (ds_GetDocument (fst kv) all)"
      "ds_docs (vdc_document_set acc) = ds_docs all"
    by (rule ComputeDocumentChanges_ok[OF v(1) dc, unfolded v(2,3)]) (use q(2) in simp)
  have none: "ds_GetDocument k ds_new = None" for k by simp
  have get: "ds_GetDocument k (vdc_document_set acc) = ds_GetDocument k all" for k
    using c(2,3,6) by (intro same_docs_get[of query]) (simp_all add: changes_ok_def result_docs_ok_def)
  have all: "ds_GetDocument k all = dm_get k docs" for k
  proof (cases "dm_get k docs")
    case None
    then show ?thesis using c(4) dm_keys[OF dm] by (auto simp: none)
  next
    case (Some d)
    then have "step_result query d None (ds_GetDocument k all)"
      using c(5) dm_get_mem[OF dm, of k d] by (force simp: none)
    then show ?thesis using result[OF Some] by (simp add: step_result_def Some)
  qed
  have r: "\<not> vdc_needs_refill acc" using no_refill[OF c(1)] q(2) by (simp add: v(2))
  obtain vc v' where a: "View_ApplyChanges acc None ?v = Inr (vc, v')" "view_ok v'" "view_document_set v' = vdc_document_set acc"
      "view_query v' = view_query ?v" "(vc_snapshot vc = None) = (vdc_change_set acc = [] \<and> view_sync_state v' = view_sync_state ?v)"
      "view_sync_state v' = (if view_current v' \<and> view_limbo_documents v' = [] then SSSynced else SSLocal)"
  proof (rule View_ApplyChanges_spec[OF v(1) _ r, of ds_new None])
    show "changes_ok (view_query ?v) ds_new acc" using c(2) by (simp add: v(2))
    show "target_change_ok ?v None" by (simp add: target_change_ok_def)
  qed (rule that, assumption+)
  have "rel_option shown_as (visible query (pending ls) (remote ls) k) (dm_get k docs)" for k
    using exact[of k] by (auto simp: visible_matching intro: option.rel_mono_strong same_contents_shown)
  then have "view_shows v' (pending ls) (remote ls)" by (simp add: view_shows_def a(3,4) v(2) get all)
  then show ?thesis using that[OF c(1) a(1,2)] a(4-6) v(2,4) by auto
qed

lemma um_put_new: "um_find eq q m = None \<Longrightarrow> um_put eq q v m = m @ [(q, v)]"
  by (induction m) (auto split: if_splits)

lemma um_ok_append: "um_ok eq (m @ [e]) = (um_ok eq m \<and> um_find eq (fst e) m = None)"
  by (auto simp: um_ok_def sorted_wrt_append um_find_None)

lemma new_target_version:
  assumes "ls_ok ls" "allocates t ls td ls'" "tg_GetTarget t (mp_target_cache (ls_persistence ls)) = None" "ToTarget query = Inr t"
  shows "limbo_free_version query ls' = SnapshotVersion_None"
    "um_find (=) (td_target_id td) (ls_target_data_by_target ls) = None"
proof -
  obtain n where td: "td = new_target t n ls" using assms(2,3) by (auto simp: allocates_def)
  then have i: "td_target_id td = tig_next_id (ls_target_id_generator ls)" by (simp add: new_target_def make_TargetData_def)
  show unused: "um_find (=) (td_target_id td) (ls_target_data_by_target ls) = None"
    using new_id_unused[OF assms(1)] by (simp add: i)
  have "ls_ok ls'" using assms(2) by (simp add: allocates_def)
  then have "GetTargetData t ls' = Inr (Some td)"
    using assms(2) unused by (simp add: GetTargetData_ok allocates_def)
  then show "limbo_free_version query ls' = SnapshotVersion_None"
    by (simp add: limbo_free_version_def assms(4) td new_target_def make_TargetData_def)
qed

text \<open>
  Listening to a query the store does not know gives it a view that shows the local store; the remote
  store is asked to listen last.
\<close>

theorem Listen_ok:
  assumes se: "engine_ok se" "se_has_callback se"
    and q: "listenable query" "ToTarget query = Inr t" "um_find Query_eq query (se_query_views_by_query se) = None"
    and new: "tg_GetTarget t (mp_target_cache (ls_persistence (se_local_store se))) = None"
    and ids: "sint (tig_next_id (ls_target_id_generator (se_local_store se))) < 2 ^ 31 - 2"
    and plain: "\<forall>b \<in> set (pending (se_local_store se)). plain_batch b"
  shows "\<exists>td qv snapshot out se'. se_Listen query se = Inr (td_target_id td, se') \<and> engine_ok se' \<and> se_has_callback se' \<and>
    ls_queue (se_local_store se') = ls_queue (se_local_store se) \<and> remote (se_local_store se') = remote (se_local_store se) \<and>
    se_query_views_by_query se' = se_query_views_by_query se @ [(query, qv)] \<and> qv_target_id qv = td_target_id td \<and>
    se_output se' = se_output se @ out @ [OnViewSnapshots [snapshot], RemoteListen td]"
proof -
  let ?ls = "se_local_store se"
  have e: "limbo_ok se" "limbo_tracked se" "ls_ok ?ls" "is_eager (ls_delegate ?ls)" "um_ok Query_eq (se_query_views_by_query se)"
      "queries_ok (se_queries_by_target se) (se_query_views_by_query se)"
      "\<forall>e \<in> set (se_query_views_by_query se). entry_ok ?ls e \<and> view_shows (qv_view (snd e)) (pending ?ls) (remote ?ls)"
    using se(1) by (simp_all add: engine_ok_def engine_shows_def)
  have qok: "query_ok query" "unlimited query" using q(1) by (simp_all add: listenable_def)
  obtain td ls1 where al: "AllocateTarget t ?ls = Inr (td, ls1)" "allocates t ?ls td ls1"
    using AllocateTarget_ok[OF e(3) eager_ready[OF e(4)] ids] by blast
  note version = new_target_version[OF e(3) al(2) new q(2)]
  have ls1: "ls_ok ls1" "same_documents ?ls ls1" "id_ok (td_target_id td)"
      "um_find Target_eq t (ls_target_id_by_target ls1) = Some (td_target_id td)"
      "\<forall>t i. um_find Target_eq t (ls_target_id_by_target ?ls) = Some i \<longrightarrow> um_find Target_eq t (ls_target_id_by_target ls1) = Some i"
    using al(2) unfolding allocates_def by blast+
  have same1: "ls_queue ls1 = ls_queue ?ls" "remote ls1 = remote ?ls" "is_eager (ls_delegate ls1)"
    using ls1(2) e(4) same_documents_queue[OF ls1(2)] by (simp_all add: same_documents_def)
  obtain r ls2 where ex: "ExecuteQuery query True ls1 = Inr (\<lparr>qr_documents = r, qr_remote_keys = remote_keys_of query ls1\<rparr>, ls2)"
      "ls_ok ls2" "untouched ls1 ls2" "results_exact query (local_documents ls1) r"
    using ExecuteQuery_scan[OF ls1(1) eager_ready[OF same1(3)] _ listenable_scannable[OF ls1(1) q(1)], of True] plain version(1)
    by (auto simp: same1(1))
  have same2: "ls_queue ls2 = ls_queue ?ls" "remote ls2 = remote ?ls" "is_eager (ls_delegate ls2)"
      "ls_target_id_by_target ls2 = ls_target_id_by_target ls1"
    using ex(3) same1 by (simp_all add: untouched_def framed_def)
  let ?keys = "remote_keys_of query ls1" and ?i = "td_target_id td"
  obtain acc vc v' where v: "ComputeDocumentChanges (make_View query ?keys) r None = Inr acc"
      "View_ApplyChanges acc None (make_View query ?keys) = Inr (vc, v')" "view_ok v'" "view_query v' = query"
      "view_shows v' (pending ls1) (remote ls1)" "vc_snapshot vc \<noteq> None"
    by (rule new_view_shows[OF ls1(1) qok ex(4)])
  obtain s where s: "vc_snapshot vc = Some s" using v(6) by blast
  have "entry_ok ?ls x \<Longrightarrow> qv_target_id (snd x) \<noteq> ?i" for x using entry_live(2)[OF e(3), of x] version(2) by auto
  then have unmapped: "um_find (=) ?i (se_queries_by_target se) = None"
    using e(6,7) unfolding queries_ok_def by (metis all_not_in_conv not_None_eq set_empty)
  define se1 where "se1 = set_local_store ls2 (set_local_store ls1 se)"
  have se1: "limbo_ok se1" "limbo_tracked se1" "se_queries_by_target se1 = se_queries_by_target se"
      "se_query_views_by_query se1 = se_query_views_by_query se" "se_local_store se1 = ls2" "se_output se1 = se_output se"
      "se_has_callback se1 = se_has_callback se"
    using e(1,2) by (simp_all add: se1_def) (simp_all add: limbo_tracked_def known_keys_def set_local_store_def)
  have syn: "synthesized_change ?i se1 = Inr None" using unmapped by (simp add: synthesized_change_def se1(3))
  obtain se2 where u: "UpdateTrackedLimboDocuments (vc_limbo_changes vc) ?i se1 = Inr se2" "limbo_ok se2" "limbo_tracked se2" "limbo_framed se1 se2"
    using UpdateTracked_ok[OF se1(1), of "vc_limbo_changes vc" ?i] se1(2) ls1(3) by auto
  have se2: "se_queries_by_target se2 = se_queries_by_target se" "se_query_views_by_query se2 = se_query_views_by_query se"
      "se_local_store se2 = ls2" "\<exists>out. se_output se2 = se_output se @ out" "se_has_callback se2"
    using u(4) se1 se(2) by (auto simp: limbo_framed_def)
  define qv where "qv = \<lparr>qv_query = query, qv_target_id = ?i, qv_view = v'\<rparr>"
  define se3 where "se3 = se2\<lparr>se_query_views_by_query := se_query_views_by_query se @ [(query, qv)],
    se_queries_by_target := um_put (=) ?i [query] (se_queries_by_target se)\<rparr>"
  have "InitializeViewAndComputeSnapshot query ?i (set_local_store ls1 se) = Inr (s, se3)"
    using ex(1) syn v(1,2) u(1) s um_put_new[OF q(3), of qv] unmapped
    by (simp add: InitializeViewAndComputeSnapshot_def Let_def set_local_store_def se1_def qv_def se3_def se2 queries_of_def)
  then have listen: "se_Listen query se = Inr (?i, emit (RemoteListen td) (emit (OnViewSnapshots [s]) se3))"
    using se(2) q(2,3) al(1) by (simp add: se_Listen_def AssertCallbackExists_def)
  have entry: "entry_ok ls2 (query, qv)" using q(2) v(3,4) ls1(4) qok by (simp add: entry_ok_def qv_def same2)
  have entries: "entry_ok ls2 x" if "entry_ok ?ls x" for x using that ls1(5) unfolding entry_ok_def same2 by blast
  have "Query_eq query query" using q(2) by (intro Query_eq_refl) (auto simp: has_target_def)
  then have queries: "queries_ok (um_put (=) ?i [query] (se_queries_by_target se)) (se_query_views_by_query se @ [(query, qv)])"
    using e(6) by (force simp: queries_ok_def plain_eq.um_find_put qv_def)
  have "engine_shows se3 (pending ls2) (remote ls2)"
    unfolding engine_shows_def
  proof (intro conjI)
    show "limbo_ok se3" using u(2) by (simp add: se3_def)
    show "limbo_tracked se3" using u(3) by (simp add: se3_def limbo_tracked_def known_keys_def)
    show "um_ok Query_eq (se_query_views_by_query se3)" using e(5) q(3) by (simp add: se3_def um_ok_append)
    show "\<forall>e \<in> set (se_query_views_by_query se3). entry_ok (se_local_store se3) e \<and> view_shows (qv_view (snd e)) (pending ls2) (remote ls2)"
      using e(7) entry entries v(5) by (auto simp: se3_def se2 same1 same2 qv_def)
  qed (use ex(2) same2 queries in \<open>simp_all add: se3_def se2\<close>)
  then have "engine_ok (emit (RemoteListen td) (emit (OnViewSnapshots [s]) se3))" by (simp add: engine_ok_def) (simp add: emit_def se3_def se2)
  moreover obtain out where "se_output se2 = se_output se @ out" using se2(4) by blast
  ultimately show ?thesis using listen same2
    by (intro exI[of _ td] exI[of _ qv] exI[of _ s] exI[of _ out] exI[of _ "emit (RemoteListen td) (emit (OnViewSnapshots [s]) se3)"])
      (simp add: emit_def se3_def se2 qv_def)
qed

section \<open>Online state changes\<close>

lemma online_keeps_query:
  assumes "View_ApplyOnlineStateChange os v = Inr (vc, v')" shows "view_query v' = view_query v"
  using assms
  by (auto simp: View_ApplyOnlineStateChange_def View_ApplyChanges_def ApplyTargetChange_def UpdateLimboDocuments_def Let_def
      split: if_splits prod.splits)

lemma online_entry:
  assumes "entry_ok ls (q, qv)" "view_shows (qv_view qv) b r"
  obtains vc v' where "View_ApplyOnlineStateChange os (qv_view qv) = Inr (vc, v')" "vc_limbo_changes vc = []"
    "entry_told ls b r (q, qv) (q, qv\<lparr>qv_view := v'\<rparr>)"
proof -
  obtain vc v' where v: "View_ApplyOnlineStateChange os (qv_view qv) = Inr (vc, v')" "view_ok v'"
      "view_document_set v' = view_document_set (qv_view qv)" "vc_limbo_changes vc = []"
  proof (rule ApplyOnlineStateChange_ok[of "qv_view qv" os])
    show "view_ok (qv_view qv)" using assms(1) by (simp add: entry_ok_def)
  qed (rule that, assumption+)
  have "entry_told ls b r (q, qv) (q, qv\<lparr>qv_view := v'\<rparr>)"
    using assms v online_keeps_query[OF v(1)] by (simp add: entry_told_def entry_ok_def view_shows_def)
  then show ?thesis using that v(1,4) by blast
qed

lemma online_run:
  assumes "\<forall>e \<in> set ys. entry_ok ls e \<and> view_shows (qv_view (snd e)) b r"
    and "se_query_views_by_query se = xs @ ys" "um_ok Query_eq (xs @ ys)" "se_local_store se = ls" "ls_ok ls"
  shows "\<exists>ss' ys'. rfold (online_step os) (se, ss) ys = Inr (se\<lparr>se_query_views_by_query := xs @ ys'\<rparr>, ss') \<and> list_all2 (entry_told ls b r) ys ys'"
  using assms(1-4)
proof (induction ys arbitrary: se ss xs)
  case Nil
  then show ?case by (intro exI[of _ ss] exI[of _ "[]"]) simp
next
  case (Cons e ys)
  obtain q qv where e: "e = (q, qv)" by (cases e)
  have e1: "entry_ok ls (q, qv)" "view_shows (qv_view qv) b r" using Cons.prems(1) by (auto simp: e)
  obtain vc v' where v: "View_ApplyOnlineStateChange os (qv_view qv) = Inr (vc, v')" "vc_limbo_changes vc = []"
      "entry_told ls b r (q, qv) (q, qv\<lparr>qv_view := v'\<rparr>)"
    by (rule online_entry[OF e1, of os])
  let ?qv = "qv\<lparr>qv_view := v'\<rparr>"
  have sep: "\<forall>x \<in> set xs. \<not> Query_eq (fst x) q" "um_ok Query_eq ((xs @ [(q, ?qv)]) @ ys)"
    using um_ok_middle[of Query_eq xs q qv ys ?qv] Cons.prems(3) by (simp_all add: e)
  have put: "um_put Query_eq q ?qv (se_query_views_by_query se) = (xs @ [(q, ?qv)]) @ ys"
    using um_put_middle[of xs Query_eq q ?qv qv ys] sep(1) entry_live(3)[OF assms(5) e1(1)] Cons.prems(2) by (simp add: e)
  define se1 where "se1 = se\<lparr>se_query_views_by_query := (xs @ [(q, ?qv)]) @ ys\<rparr>"
  define ss1 where "ss1 = (case vc_snapshot vc of Some s \<Rightarrow> ss @ [s] | None \<Rightarrow> ss)"
  have step: "online_step os (se, ss) (q, qv) = Inr (se1, ss1)"
    using v(1,2) put by (simp add: online_step_def Let_def se1_def ss1_def)
  obtain ss' ys' where r: "rfold (online_step os) (se1, ss1) ys = Inr (se1\<lparr>se_query_views_by_query := (xs @ [(q, ?qv)]) @ ys'\<rparr>, ss')"
      "list_all2 (entry_told ls b r) ys ys'"
    using Cons.IH[of se1 "xs @ [(q, ?qv)]" ss1] Cons.prems(1,4) sep(2) by (auto simp: se1_def)
  then show ?case using step v(3) by (intro exI[of _ ss'] exI[of _ "(q, ?qv) # ys'"]) (simp add: e se1_def)
qed

text \<open>A change of the online state never fails and changes no documents.\<close>

theorem se_HandleOnlineStateChange_ok:
  assumes se: "engine_shows se b r" "se_has_callback se"
  shows "\<exists>ss se'. se_HandleOnlineStateChange os se = Inr se' \<and> engine_shows se' b r \<and> se_local_store se' = se_local_store se \<and>
    se_output se' = se_output se @ [OnViewSnapshots ss, OnOnlineState os]"
proof -
  let ?ls = "se_local_store se"
  have e: "limbo_ok se" "limbo_tracked se" "ls_ok ?ls" "is_eager (ls_delegate ?ls)" "um_ok Query_eq (se_query_views_by_query se)"
      "queries_ok (se_queries_by_target se) (se_query_views_by_query se)"
      "\<forall>e \<in> set (se_query_views_by_query se). entry_ok ?ls e \<and> view_shows (qv_view (snd e)) b r"
    using se(1) by (simp_all add: engine_shows_def)
  obtain ss ys where run: "rfold (online_step os) (se, []) (se_query_views_by_query se) = Inr (se\<lparr>se_query_views_by_query := ys\<rparr>, ss)"
      "list_all2 (entry_told ?ls b r) (se_query_views_by_query se) ys"
    using online_run[OF e(7), of se "[]" os "[]"] e(3,5) by auto
  have "engine_shows (se\<lparr>se_query_views_by_query := ys\<rparr>) b r"
    using e by (intro engine_showsI[where ls = ?ls and es = "se_query_views_by_query se"])
      (simp_all add: run(2) limbo_tracked_def known_keys_def)
  moreover have "se_HandleOnlineStateChange os se =
      Inr (emit (OnOnlineState os) (emit (OnViewSnapshots ss) (se\<lparr>se_query_views_by_query := ys\<rparr>)))"
    using se(2) run(1) by (simp add: se_HandleOnlineStateChange_def AssertCallbackExists_def)
  ultimately show ?thesis
    by (intro exI[of _ ss] exI[of _ "emit (OnOnlineState os) (emit (OnViewSnapshots ss) (se\<lparr>se_query_views_by_query := ys\<rparr>))"])
      (simp, simp add: emit_def)
qed

end
