(* ===== verification/SyncEngineRuns.thy ===== *)
theory SyncEngineRuns
  imports SyncEngineViews
begin

text \<open>Concrete engines: one over an empty store, one over a store with a pending write.\<close>

section \<open>A first engine\<close>

definition anonymous :: User where
  "anonymous = \<lparr>user_uid = [], user_is_authenticated = False\<rparr>"

definition started_engine :: "LocalStore \<Rightarrow> SyncEngine" where
  "started_engine ls = se_SetCallback (fresh_engine ls anonymous 100)"

lemma started_engine_ok:
  assumes "ls_ok ls" "is_eager (ls_delegate ls)"
  shows "engine_ok (started_engine ls)" "se_has_callback (started_engine ls)" "se_local_store (started_engine ls) = ls"
    "se_query_views_by_query (started_engine ls) = []" "se_output (started_engine ls) = []"
  using assms
  by (simp_all add: started_engine_def se_SetCallback_def fresh_engine_def engine_ok_def engine_shows_def limbo_ok_def limbo_tracked_def
      refs_ok_def queries_ok_def dm_ok_def)

lemma engine_shows_views:
  assumes "engine_shows se b r"
  shows "\<forall>(q, qv) \<in> set (se_query_views_by_query se). \<forall>k.
    rel_option shown_as (visible q b r k) (ds_GetDocument k (view_document_set (qv_view qv)))"
  using assms by (fastforce simp: engine_shows_def entry_ok_def view_shows_def)

section \<open>A query over the rooms\<close>

abbreviation rooms :: Query where
  "rooms \<equiv> make_Query [''rooms''] None"

lemma rooms_listenable: "listenable rooms"
  using rooms_collection_ok by (simp add: listenable_def) (simp add: make_Query_def)

lemma first_store_targets:
  "mp_target_cache (ls_persistence first_store) = make_TargetCache" "tig_next_id (ls_target_id_generator first_store) = 2"
  by (simp_all add: first_store_def make_LocalStore_def new_generator Let_def mp_GetMutationQueueForUser_def WithEagerGarbageCollector_def
      make_MemoryPersistence_def)

lemma written_store_targets:
  "mp_target_cache (ls_persistence written_store) = make_TargetCache" "tig_next_id (ls_target_id_generator written_store) = 2"
  "remote written_store = (\<lambda>k. None)"
proof -
  have "\<forall>m \<in> set [SetMutation [''rooms'', ''eros''] [] Precondition_None]. writable m" by (simp add: writable_def key_ok_def)
  from WriteLocally_ok[OF first_store_ok(1,2) _ this, of "Timestamp 1 0"] obtain res ls where
    w: "WriteLocally (Timestamp 1 0) [SetMutation [''rooms'', ''eros''] [] Precondition_None] first_store = Inr (res, ls)"
      "framed first_store ls" "remote ls = remote first_store"
    by (auto simp: first_store_ok)
  have "written_store = ls" by (simp add: written_store_def w(1))
  then show "mp_target_cache (ls_persistence written_store) = make_TargetCache" "tig_next_id (ls_target_id_generator written_store) = 2"
    "remote written_store = (\<lambda>k. None)"
    using w(2,3) first_store_ok(6) first_store_targets by (simp_all add: framed_def)
qed

text \<open>A batch that sets one room, over no document.\<close>

lemma set_batch_view:
  assumes "batch_ok b" "mb_mutations b = [SetMutation k v Precondition_None]"
  shows "\<exists>ver. apply_batches k [b] None = Inr (Some (Document v k ver kLocalMutations))"
proof -
  obtain l where l: "apply_batches k [b] None = Inr l" using apply_batches_total[of "[b]" k None] assms(1) by (auto simp: VerifyKeyMatches_def)
  then have "\<exists>ver. l = Some (Document v k ver kLocalMutations)"
    using assms(2) by (auto simp: apply_batches_def Batch_ApplyToLocalDocument_def rbind_Inr_conv local_step_def split: sum.splits)
  then show ?thesis using l by auto
qed

lemma eros_visible:
  assumes "batch_ok b" "mb_mutations b = [SetMutation [''rooms'', ''eros''] [] Precondition_None]"
  shows "visible rooms [b] (\<lambda>k. None) [''rooms'', ''eros''] \<noteq> None"
  using set_batch_view[OF assms] by (auto simp: visible_def is_document_def matches_rooms)

lemma view_holds:
  assumes "engine_shows se b r" "(q, qv) \<in> set (se_query_views_by_query se)" "visible q b r k \<noteq> None"
  shows "ds_GetDocument k (view_document_set (qv_view qv)) \<noteq> None"
proof -
  have "rel_option shown_as (visible q b r k) (ds_GetDocument k (view_document_set (qv_view qv)))"
    using engine_shows_views[OF assms(1)] assms(2) by blast
  then show ?thesis using assms(3) by (auto simp: option_rel_Some1)
qed

text \<open>A view of the rooms, and a write to one of them that the backend has not answered yet.\<close>

abbreviation set_eros :: "Mutation list" where
  "set_eros \<equiv> [SetMutation [''rooms'', ''eros''] [] Precondition_None]"

lemma set_eros_writable: "\<forall>m \<in> set set_eros. writable m"
  by (simp add: writable_def key_ok_def)

lemma first_listen:
  "\<exists>td qv se. se_Listen rooms (started_engine first_store) = Inr (td, se) \<and> engine_ok se \<and> se_has_callback se \<and>
     ls_queue (se_local_store se) = ls_queue first_store \<and> remote (se_local_store se) = (\<lambda>k. None) \<and>
     se_query_views_by_query se = [(rooms, qv)]"
proof -
  note start = started_engine_ok[OF first_store_ok(1,3)]
  obtain t where t: "ToTarget rooms = Inr t" using limbo_target_exists by blast
  have "um_find Query_eq rooms (se_query_views_by_query (started_engine first_store)) = None" by (simp add: start(4))
  from Listen_ok[OF start(1,2) rooms_listenable t this, unfolded start(3)] show ?thesis
    by (fastforce simp: first_store_targets first_store_ok(4,6) start(4))
qed

lemma eros_engine:
  obtains se1 se2 b td where "se_Listen rooms (started_engine first_store) = Inr (td, se1)"
    "WriteMutations (Timestamp 1 0) set_eros 7 se1 = Inr se2" "engine_ok se2" "se_has_callback se2"
    "pending (se_local_store se2) = [b]" "mb_mutations b = set_eros" "remote (se_local_store se2) = (\<lambda>k. None)"
    "map fst (se_query_views_by_query se2) = [rooms]" "batch_ok b"
proof -
  obtain td qv se1 where l: "se_Listen rooms (started_engine first_store) = Inr (td, se1)" "engine_ok se1" "se_has_callback se1"
      "ls_queue (se_local_store se1) = ls_queue first_store" "remote (se_local_store se1) = (\<lambda>k. None)"
      "se_query_views_by_query se1 = [(rooms, qv)]"
    using first_listen by blast
  have "sint (mq_next_batch_id (ls_queue (se_local_store se1))) < 2 ^ 31 - 1" by (simp add: l(4) first_store_ok(5))
  from WriteMutations_ok[OF l(2,3) _ set_eros_writable _ this, of "Timestamp 1 0" 7] obtain se2 b where
    w: "WriteMutations (Timestamp 1 0) set_eros 7 se1 = Inr se2" "engine_ok se2" "se_has_callback se2" "mb_mutations b = set_eros"
      "map fst (se_query_views_by_query se2) = [rooms]" "pending (se_local_store se2) = [b]" "remote (se_local_store se2) = (\<lambda>k. None)"
    by (auto simp: l(4-6) first_store_ok(4))
  have "ls_ok (se_local_store se2)" using w(2) by (simp add: engine_ok_def engine_shows_def)
  then have "batch_ok b" using pending_ok(1) w(6) by fastforce
  then show ?thesis using that[OF l(1) w(1-3,6,4,7,5)] by blast
qed

end
