(* ===== verification/UserData.thy ===== *)
theory UserData
  imports SyncEngines
begin

text \<open>
  \<open>core/user_data.cc\<close> and \<open>api/write_batch.cc\<close>: the context in which the data of a user is parsed, what
  the parser accumulates, the mutations made of it, and the batches of writes.  The walk over the
  Objective-C values that drives the contexts is not in the language of the model; it is a sequence of
  calls here.  The context shares the accumulator with its children, so the operations that write to it
  pass it along.
\<close>

section \<open>Parsed data\<close>

record ParsedSetData =
  psd_data :: ObjectValue
  psd_field_mask :: FieldMask
  psd_field_transforms :: "FieldTransform list"
  psd_patch :: bool

record ParsedUpdateData =
  pud_data :: ObjectValue
  pud_field_mask :: FieldMask
  pud_field_transforms :: "FieldTransform list"

definition make_ParsedSetData :: "ObjectValue \<Rightarrow> FieldTransform list \<Rightarrow> ParsedSetData" where
  "make_ParsedSetData data transforms =
     \<lparr>psd_data = data, psd_field_mask = [], psd_field_transforms = transforms, psd_patch = False\<rparr>"

definition make_ParsedMergeData :: "ObjectValue \<Rightarrow> FieldMask \<Rightarrow> FieldTransform list \<Rightarrow> ParsedSetData" where
  "make_ParsedMergeData data fmask transforms =
     \<lparr>psd_data = data, psd_field_mask = fmask, psd_field_transforms = transforms, psd_patch = True\<rparr>"

definition make_ParsedUpdateData :: "ObjectValue \<Rightarrow> FieldMask \<Rightarrow> FieldTransform list \<Rightarrow> ParsedUpdateData" where
  "make_ParsedUpdateData data fmask transforms =
     \<lparr>pud_data = data, pud_field_mask = fmask, pud_field_transforms = transforms\<rparr>"

definition psd_ToMutations :: "ParsedSetData \<Rightarrow> DocumentKey \<Rightarrow> Precondition \<Rightarrow> Mutation list" where
  "psd_ToMutations d key precondition =
     (let mutations = (if psd_patch d then [PatchMutation key (psd_data d) (psd_field_mask d) precondition]
                       else [SetMutation key (psd_data d) precondition])
      in if psd_field_transforms d \<noteq> [] then mutations @ [TransformMutation key (psd_field_transforms d)]
         else mutations)"

definition pud_ToMutations :: "ParsedUpdateData \<Rightarrow> DocumentKey \<Rightarrow> Precondition \<Rightarrow> Mutation list" where
  "pud_ToMutations d key precondition =
     (let mutations = [PatchMutation key (pud_data d) (pud_field_mask d) precondition]
      in if pud_field_transforms d \<noteq> [] then mutations @ [TransformMutation key (pud_field_transforms d)]
         else mutations)"

text \<open>
  The mutations are about the key, and the first has the precondition: the backend checks it before
  anything of the write is applied.
\<close>

definition guarded_writes :: "DocumentKey \<Rightarrow> Precondition \<Rightarrow> Mutation list \<Rightarrow> bool" where
  "guarded_writes key precondition ms =
     (ms \<noteq> [] \<and> mut_precondition (hd ms) = precondition \<and> (\<forall>m \<in> set ms. mut_key m = key))"

lemma ToMutations_guarded:
  "guarded_writes key precondition (psd_ToMutations d key precondition)"
  "guarded_writes key precondition (pud_ToMutations u key precondition)"
  by (simp_all add: guarded_writes_def psd_ToMutations_def pud_ToMutations_def Let_def)

section \<open>The accumulator\<close>

datatype UserDataSource = SourceSet | SourceMergeSet | SourceUpdate | SourceArgument | SourceArrayArgument

record ParseAccumulator =
  pa_data_source :: UserDataSource
  pa_field_mask :: "FieldPath list"
  pa_field_transforms :: "FieldTransform list"

definition make_ParseAccumulator :: "UserDataSource \<Rightarrow> ParseAccumulator" where
  "make_ParseAccumulator source = \<lparr>pa_data_source = source, pa_field_mask = [], pa_field_transforms = []\<rparr>"

definition pa_Contains :: "FieldPath \<Rightarrow> ParseAccumulator \<Rightarrow> bool" where
  "pa_Contains field_path a =
     (if list_ex (\<lambda>field. IsPrefixOf field_path field) (pa_field_mask a) then True
      else if list_ex (\<lambda>field_transform. IsPrefixOf field_path (ft_path field_transform)) (pa_field_transforms a)
      then True else False)"

definition pa_AddToFieldMask :: "FieldPath \<Rightarrow> ParseAccumulator \<Rightarrow> ParseAccumulator" where
  "pa_AddToFieldMask field_path a = a\<lparr>pa_field_mask := std_set_insert field_path (pa_field_mask a)\<rparr>"

definition pa_AddToFieldTransforms :: "FieldPath \<Rightarrow> TransformOperation \<Rightarrow> ParseAccumulator \<Rightarrow> ParseAccumulator" where
  "pa_AddToFieldTransforms field_path transform_operation a =
     a\<lparr>pa_field_transforms :=
         pa_field_transforms a @ [\<lparr>ft_path = field_path, ft_transformation = transform_operation\<rparr>]\<rparr>"

definition MergeData :: "ObjectValue \<Rightarrow> ParseAccumulator \<Rightarrow> ParsedSetData" where
  "MergeData data a = make_ParsedMergeData data (pa_field_mask a) (pa_field_transforms a)"

definition MergeData_masked :: "ObjectValue \<Rightarrow> FieldMask \<Rightarrow> ParseAccumulator \<Rightarrow> ParsedSetData" where
  "MergeData_masked data user_field_mask a =
     (let covered_field_transforms =
            filter (\<lambda>field_transform. mask_covers user_field_mask (ft_path field_transform)) (pa_field_transforms a)
      in make_ParsedMergeData data user_field_mask covered_field_transforms)"

definition pa_SetData :: "ObjectValue \<Rightarrow> ParseAccumulator \<Rightarrow> ParsedSetData" where
  "pa_SetData data a = make_ParsedSetData data (pa_field_transforms a)"

definition pa_UpdateData :: "ObjectValue \<Rightarrow> ParseAccumulator \<Rightarrow> ParsedUpdateData" where
  "pa_UpdateData data a = make_ParsedUpdateData data (pa_field_mask a) (pa_field_transforms a)"

section \<open>Contexts\<close>

text \<open>No path means a place inside an array.\<close>

record ParseContext =
  pc_path :: "FieldPath option"
  pc_array_element :: bool

definition RootContext :: ParseContext where
  "RootContext = \<lparr>pc_path = Some [], pc_array_element = False\<rparr>"

definition FieldDescription :: "ParseContext \<Rightarrow> string" where
  "FieldDescription c =
     (case pc_path c of
        None \<Rightarrow> ''''
      | Some path \<Rightarrow> (if path = [] then '''' else '' (found in field '' @ FieldPath_CanonicalString path @ '')''))"

definition context_write :: "UserDataSource \<Rightarrow> bool" where
  "context_write source =
     (case source of SourceSet \<Rightarrow> True | SourceMergeSet \<Rightarrow> True | SourceUpdate \<Rightarrow> True
      | SourceArgument \<Rightarrow> False | SourceArrayArgument \<Rightarrow> False)"

definition RESERVED_FIELD_DESIGNATOR :: string where
  "RESERVED_FIELD_DESIGNATOR = ''__''"

definition StartsWith :: "string \<Rightarrow> string \<Rightarrow> bool" where
  "StartsWith s prefix =
     (prefix = [] \<or> (length prefix \<le> length s \<and> take (length prefix) s = prefix))"

definition EndsWith :: "string \<Rightarrow> string \<Rightarrow> bool" where
  "EndsWith s suffix =
     (suffix = [] \<or> (length suffix \<le> length s \<and> drop (length s - length suffix) s = suffix))"

definition ValidatePathSegment :: "UserDataSource \<Rightarrow> string \<Rightarrow> unit result" where
  "ValidatePathSegment source segment =
     (if segment = '''' then Inl InvalidArgument
      else if context_write source \<and> StartsWith segment RESERVED_FIELD_DESIGNATOR \<and>
              EndsWith segment RESERVED_FIELD_DESIGNATOR then Inl InvalidArgument
      else Inr ())"

definition ValidatePath :: "UserDataSource \<Rightarrow> ParseContext \<Rightarrow> unit result" where
  "ValidatePath source c =
     (case pc_path c of
        None \<Rightarrow> Inr ()
      | Some path \<Rightarrow> rfold (\<lambda>_ segment. ValidatePathSegment source segment) () path)"

definition ChildContext_name :: "UserDataSource \<Rightarrow> string \<Rightarrow> ParseContext \<Rightarrow> ParseContext result" where
  "ChildContext_name source field_name c =
     (let child = \<lparr>pc_path = map_option (\<lambda>path. path_Append path field_name) (pc_path c), pc_array_element = False\<rparr>
      in rmap (\<lambda>_. child) (ValidatePathSegment source field_name))"

definition ChildContext_path :: "UserDataSource \<Rightarrow> FieldPath \<Rightarrow> ParseContext \<Rightarrow> ParseContext result" where
  "ChildContext_path source field_path c =
     (let child = \<lparr>pc_path = map_option (\<lambda>path. path_Concat path field_path) (pc_path c), pc_array_element = False\<rparr>
      in rmap (\<lambda>_. child) (ValidatePath source child))"

definition ChildContext_index :: "nat \<Rightarrow> ParseContext \<Rightarrow> ParseContext" where
  "ChildContext_index array_index c = \<lparr>pc_path = None, pc_array_element = True\<rparr>"

text \<open>The contexts that a walk over user data reaches.\<close>

inductive context_reached :: "UserDataSource \<Rightarrow> ParseContext \<Rightarrow> bool" for source where
  root_context: "context_reached source RootContext"
| name_context: "context_reached source c \<Longrightarrow> ChildContext_name source field_name c = Inr c' \<Longrightarrow> context_reached source c'"
| path_context: "context_reached source c \<Longrightarrow> ChildContext_path source field_path c = Inr c' \<Longrightarrow> context_reached source c'"
| index_context: "context_reached source c \<Longrightarrow> context_reached source (ChildContext_index i c)"

definition segment_allowed :: "UserDataSource \<Rightarrow> string \<Rightarrow> bool" where
  "segment_allowed source segment =
     (segment \<noteq> '''' \<and> (context_write source \<longrightarrow> \<not> (StartsWith segment ''__'' \<and> EndsWith segment ''__'')))"

lemma ValidatePathSegment_iff: "(ValidatePathSegment source segment = Inr ()) = segment_allowed source segment"
  by (auto simp: ValidatePathSegment_def segment_allowed_def RESERVED_FIELD_DESIGNATOR_def)

lemma validate_segments:
  "(rfold (\<lambda>_ segment. ValidatePathSegment source segment) () path = Inr ()) = (\<forall>s \<in> set path. segment_allowed source s)"
proof (induction path)
  case (Cons s path)
  have "(ValidatePathSegment source s = Inr u) = segment_allowed source s" for u
    using ValidatePathSegment_iff by (cases u) simp
  then show ?case using Cons by (cases "ValidatePathSegment source s") auto
qed simp

lemma ValidatePath_iff:
  "(ValidatePath source c = Inr ()) = (\<forall>path. pc_path c = Some path \<longrightarrow> (\<forall>s \<in> set path. segment_allowed source s))"
  by (auto simp: ValidatePath_def validate_segments split: option.splits)

text \<open>Every field path of the user that is reached has only allowed segments.\<close>

lemma context_reached_allowed:
  assumes "context_reached source c" "pc_path c = Some path"
  shows "\<forall>s \<in> set path. segment_allowed source s"
  using assms
proof (induction arbitrary: path rule: context_reached.induct)
  case root_context
  then show ?case by (simp add: RootContext_def)
next
  case (name_context c field_name c')
  then have "ValidatePathSegment source field_name = Inr ()"
    by (cases "ValidatePathSegment source field_name") (auto simp: ChildContext_name_def)
  then have "segment_allowed source field_name" by (simp add: ValidatePathSegment_iff)
  then show ?case using name_context by (auto simp: ChildContext_name_def path_Append_def rmap_Inr_conv)
next
  case (path_context c field_path c')
  then have "ValidatePath source c' = Inr ()" by (auto simp: ChildContext_path_def rmap_Inr_conv)
  then show ?case using path_context by (simp add: ValidatePath_iff)
next
  case (index_context c i)
  then show ?case by (simp add: ChildContext_index_def)
qed

section \<open>What the parser keeps\<close>

lemma pa_Contains_iff:
  "pa_Contains p a = (\<exists>r. p @ r \<in> set (pa_field_mask a) \<or> p @ r \<in> ft_path ` set (pa_field_transforms a))"
  by (auto simp: pa_Contains_def list_ex_iff IsPrefixOf_iff image_iff) metis+

lemma pa_Contains_added:
  "pa_Contains p (pa_AddToFieldMask q a) = (IsPrefixOf p q \<or> pa_Contains p a)"
  "pa_Contains p (pa_AddToFieldTransforms q t a) = (IsPrefixOf p q \<or> pa_Contains p a)"
  by (auto simp: pa_Contains_def pa_AddToFieldMask_def pa_AddToFieldTransforms_def list_ex_iff)

lemma pa_field_mask_ok:
  "std_set_ok (pa_field_mask a) \<Longrightarrow> std_set_ok (pa_field_mask (pa_AddToFieldMask p a))"
  by (simp add: pa_AddToFieldMask_def std_set_ok_def std_set_insert_def sorted_insort distinct_insort)

lemma MergeData_masked_covered:
  "t \<in> set (psd_field_transforms (MergeData_masked data m a)) =
     (t \<in> set (pa_field_transforms a) \<and> mask_covers m (ft_path t))"
  by (auto simp: MergeData_masked_def make_ParsedMergeData_def Let_def)

section \<open>Batches of writes\<close>

text \<open>An instance of the client is a number: only its identity is compared.\<close>

record DocumentReference =
  dref_firestore :: nat
  dref_key :: DocumentKey

definition make_DocumentReference :: "ResourcePath \<Rightarrow> nat \<Rightarrow> DocumentReference result" where
  "make_DocumentReference path firestore =
     (if length path mod 2 \<noteq> 0 then Inl HardFail
      else rmap (\<lambda>key. \<lparr>dref_firestore = firestore, dref_key = key\<rparr>) (make_DocumentKey path))"

record WriteBatch =
  wb_firestore :: nat
  wb_mutations :: "Mutation list"
  wb_committed :: bool

definition make_WriteBatch :: "nat \<Rightarrow> WriteBatch" where
  "make_WriteBatch firestore = \<lparr>wb_firestore = firestore, wb_mutations = [], wb_committed = False\<rparr>"

definition VerifyNotCommitted :: "WriteBatch \<Rightarrow> 'a result \<Rightarrow> 'a result" where
  "VerifyNotCommitted wb body = (if wb_committed wb then Inl IllegalState else body)"

definition ValidateReference :: "DocumentReference \<Rightarrow> WriteBatch \<Rightarrow> 'a result \<Rightarrow> 'a result" where
  "ValidateReference reference wb body =
     (if dref_firestore reference \<noteq> wb_firestore wb then Inl InvalidArgument else body)"

definition append_mutations :: "Mutation list \<Rightarrow> WriteBatch \<Rightarrow> WriteBatch" where
  "append_mutations ms wb = wb\<lparr>wb_mutations := wb_mutations wb @ ms\<rparr>"

definition wb_SetData :: "DocumentReference \<Rightarrow> ParsedSetData \<Rightarrow> WriteBatch \<Rightarrow> WriteBatch result" where
  "wb_SetData reference set_data wb = VerifyNotCommitted wb (ValidateReference reference wb
     (Inr (append_mutations (psd_ToMutations set_data (dref_key reference) Precondition_None) wb)))"

definition wb_UpdateData :: "DocumentReference \<Rightarrow> ParsedUpdateData \<Rightarrow> WriteBatch \<Rightarrow> WriteBatch result" where
  "wb_UpdateData reference update_data wb = VerifyNotCommitted wb (ValidateReference reference wb
     (Inr (append_mutations (pud_ToMutations update_data (dref_key reference) (Precondition_Exists True)) wb)))"

definition wb_DeleteData :: "DocumentReference \<Rightarrow> WriteBatch \<Rightarrow> WriteBatch result" where
  "wb_DeleteData reference wb = VerifyNotCommitted wb (ValidateReference reference wb
     (Inr (append_mutations [DeleteMutation (dref_key reference) Precondition_None] wb)))"

text \<open>A commit hands the mutations to the client, with the batch left without them.\<close>

definition wb_Commit :: "StatusCallback \<Rightarrow> WriteBatch \<Rightarrow> ((Mutation list \<times> StatusCallback) \<times> WriteBatch) result" where
  "wb_Commit callback wb = VerifyNotCommitted wb
     (Inr ((wb_mutations wb, callback), wb\<lparr>wb_committed := True, wb_mutations := []\<rparr>))"

end
