(* ===== verification/Transactions.thy ===== *)
theory Transactions
  imports UserData Backoff
begin

text \<open>
  \<open>core/transaction.cc\<close>: a transaction records the versions of the documents it reads and guards its
  writes with them.  What it asks of the datastore is output.
\<close>

section \<open>Transactions\<close>

text \<open>What the transaction asks of the datastore.\<close>

datatype datastore_call = LookupDocuments "DocumentKey list" | CommitMutations "Mutation list"

record Transaction =
  txn_mutations :: "Mutation list"
  txn_committed :: bool
  txn_permanent_error :: bool
  txn_last_write_error :: Status
  txn_written_docs :: "DocumentKey list"
  txn_read_versions :: "(DocumentKey \<times> SnapshotVersion) list"

definition make_Transaction :: Transaction where
  "make_Transaction =
     \<lparr>txn_mutations = [], txn_committed = False, txn_permanent_error = False, txn_last_write_error = Status_OK,
      txn_written_docs = [], txn_read_versions = []\<rparr>"

definition EnsureCommitNotCalled :: "Transaction \<Rightarrow> 'a result \<Rightarrow> 'a result" where
  "EnsureCommitNotCalled txn body = hard_assert (\<not> txn_committed txn) body"

definition txn_GetVersion :: "DocumentKey \<Rightarrow> Transaction \<Rightarrow> SnapshotVersion option" where
  "txn_GetVersion key txn = um_find (=) key (txn_read_versions txn)"

text \<open>The version a read records: a missing document has none.\<close>

fun recorded_version :: "MaybeDocument \<Rightarrow> SnapshotVersion result" where
  "recorded_version (Document data key version state) = Inr version"
| "recorded_version (NoDocument key version committed) = Inr SnapshotVersion_None"
| "recorded_version (UnknownDocument key version) = Inl HardFail"

definition version_changed :: Status where
  "version_changed = (kErrorAborted, ''Document version changed between two reads.'')"

definition RecordVersion :: "MaybeDocument \<Rightarrow> Transaction \<Rightarrow> (Status \<times> Transaction) result" where
  "RecordVersion doc txn =
     rmap (\<lambda>doc_version.
       case txn_GetVersion (doc_key doc) txn of
         Some existing_version \<Rightarrow>
           (if \<not> cmp_eq SnapshotVersion_CompareTo doc_version existing_version then (version_changed, txn)
            else (Status_OK, txn))
       | None \<Rightarrow> (Status_OK, txn\<lparr>txn_read_versions := um_put (=) (doc_key doc) doc_version (txn_read_versions txn)\<rparr>))
     (recorded_version doc)"

definition reads_before_writes :: Status where
  "reads_before_writes =
     (kErrorInvalidArgument, ''Firestore transactions require all reads to be executed before all writes'')"

text \<open>A lookup fails at once, or asks the datastore, which calls back with the documents or an error.\<close>

definition txn_Lookup :: "DocumentKey list \<Rightarrow> Transaction \<Rightarrow> (Status + datastore_call) result" where
  "txn_Lookup keys txn = EnsureCommitNotCalled txn
     (if txn_mutations txn \<noteq> [] then Inr (Inl reads_before_writes) else Inr (Inr (LookupDocuments keys)))"

fun record_documents :: "MaybeDocument list \<Rightarrow> Transaction \<Rightarrow> (Status \<times> Transaction) result" where
  "record_documents [] txn = Inr (Status_OK, txn)"
| "record_documents (doc # documents) txn =
     rbind (RecordVersion doc txn) (\<lambda>(record_error, txn).
       if \<not> Status_ok record_error then Inr (record_error, txn) else record_documents documents txn)"

definition lookup_done ::
  "Status + MaybeDocument list \<Rightarrow> Transaction \<Rightarrow> ((Status + MaybeDocument list) \<times> Transaction) result" where
  "lookup_done maybe_documents txn =
     (case maybe_documents of
        Inl status \<Rightarrow> Inr (Inl status, txn)
      | Inr documents \<Rightarrow>
          rmap (\<lambda>(record_error, txn).
              if \<not> Status_ok record_error then (Inl record_error, txn) else (maybe_documents, txn))
            (record_documents documents txn))"

definition txn_WriteMutations :: "Mutation list \<Rightarrow> Transaction \<Rightarrow> Transaction result" where
  "txn_WriteMutations mutations txn =
     EnsureCommitNotCalled txn (Inr (txn\<lparr>txn_mutations := txn_mutations txn @ mutations\<rparr>))"

definition CreatePrecondition :: "DocumentKey \<Rightarrow> Transaction \<Rightarrow> Precondition" where
  "CreatePrecondition key txn =
     (case txn_GetVersion key txn of
        Some version \<Rightarrow> (if key \<notin> set (txn_written_docs txn) then Precondition_UpdateTime version else Precondition_None)
      | None \<Rightarrow> Precondition_None)"

definition update_of_missing :: Status where
  "update_of_missing = (kErrorInvalidArgument, ''Can'' @ [CHR 0x27] @ ''t update a document that doesn'' @ [CHR 0x27] @ ''t exist.'')"

definition CreateUpdatePrecondition :: "DocumentKey \<Rightarrow> Transaction \<Rightarrow> Status + Precondition" where
  "CreateUpdatePrecondition key txn =
     (case txn_GetVersion key txn of
        Some version \<Rightarrow>
          (if key \<notin> set (txn_written_docs txn) then
             (if cmp_eq SnapshotVersion_CompareTo version SnapshotVersion_None then Inl update_of_missing
              else Inr (Precondition_UpdateTime version))
           else Inr (Precondition_Exists True))
      | None \<Rightarrow> Inr (Precondition_Exists True))"

definition insert_written :: "DocumentKey \<Rightarrow> Transaction \<Rightarrow> Transaction" where
  "insert_written key txn =
     txn\<lparr>txn_written_docs := (if key \<in> set (txn_written_docs txn) then txn_written_docs txn
                             else txn_written_docs txn @ [key])\<rparr>"

definition txn_Set :: "DocumentKey \<Rightarrow> ParsedSetData \<Rightarrow> Transaction \<Rightarrow> Transaction result" where
  "txn_Set key data txn =
     rmap (insert_written key) (txn_WriteMutations (psd_ToMutations data key (CreatePrecondition key txn)) txn)"

definition txn_Update :: "DocumentKey \<Rightarrow> ParsedUpdateData \<Rightarrow> Transaction \<Rightarrow> Transaction result" where
  "txn_Update key data txn =
     rmap (insert_written key)
       (case CreateUpdatePrecondition key txn of
          Inl status \<Rightarrow> Inr (txn\<lparr>txn_last_write_error := status\<rparr>)
        | Inr precondition \<Rightarrow> txn_WriteMutations (pud_ToMutations data key precondition) txn)"

definition txn_Delete :: "DocumentKey \<Rightarrow> Transaction \<Rightarrow> Transaction result" where
  "txn_Delete key txn =
     rmap (insert_written key) (txn_WriteMutations [DeleteMutation key (CreatePrecondition key txn)] txn)"

text \<open>
  The documents that were read and not written, in the order of the set of the code; the model has the
  order of the reads.
\<close>

definition unwritten_docs :: "Transaction \<Rightarrow> DocumentKey list" where
  "unwritten_docs txn =
     foldl (\<lambda>unwritten m. filter (\<lambda>key. key \<noteq> mut_key m) unwritten) (map fst (txn_read_versions txn)) (txn_mutations txn)"

definition txn_Commit :: "Transaction \<Rightarrow> ((Status + datastore_call) \<times> Transaction) result" where
  "txn_Commit txn = EnsureCommitNotCalled txn
     (if \<not> Status_ok (txn_last_write_error txn) then Inr (Inl (txn_last_write_error txn), txn)
      else let verifications = map (\<lambda>key. VerifyMutation key (CreatePrecondition key txn)) (unwritten_docs txn);
               txn = txn\<lparr>txn_mutations := txn_mutations txn @ verifications\<rparr>;
               txn = txn\<lparr>txn_committed := True\<rparr>
           in Inr (Inr (CommitMutations (txn_mutations txn)), txn))"

definition MarkPermanentlyFailed :: "Transaction \<Rightarrow> Transaction" where
  "MarkPermanentlyFailed txn = txn\<lparr>txn_permanent_error := True\<rparr>"

section \<open>What a user does in a transaction\<close>

text \<open>
  A read waits for its callback, as the interface of the user does, so that a lookup and its answer are
  one step.  The documents the user was given are kept beside the transaction.
\<close>

datatype txn_op =
    TxnRead "DocumentKey list" "Status + MaybeDocument list"
  | TxnSet DocumentKey ParsedSetData
  | TxnUpdate DocumentKey ParsedUpdateData
  | TxnDelete DocumentKey
  | TxnFail

fun txn_do :: "Transaction \<times> MaybeDocument list \<Rightarrow> txn_op \<Rightarrow> (Transaction \<times> MaybeDocument list) result" where
  "txn_do (txn, reads) (TxnRead keys response) =
     rbind (txn_Lookup keys txn) (\<lambda>lookup.
       case lookup of
         Inl error \<Rightarrow> Inr (txn, reads)
       | Inr request \<Rightarrow>
           rmap (\<lambda>(result, txn). case result of Inl error \<Rightarrow> (txn, reads) | Inr documents \<Rightarrow> (txn, reads @ documents))
             (lookup_done response txn))"
| "txn_do (txn, reads) (TxnSet key data) = rmap (\<lambda>txn. (txn, reads)) (txn_Set key data txn)"
| "txn_do (txn, reads) (TxnUpdate key data) = rmap (\<lambda>txn. (txn, reads)) (txn_Update key data txn)"
| "txn_do (txn, reads) (TxnDelete key) = rmap (\<lambda>txn. (txn, reads)) (txn_Delete key txn)"
| "txn_do (txn, reads) TxnFail = Inr (MarkPermanentlyFailed txn, reads)"

definition txn_run :: "txn_op list \<Rightarrow> (Transaction \<times> MaybeDocument list) result" where
  "txn_run ops = rfold txn_do (make_Transaction, []) ops"

section \<open>What a transaction keeps\<close>

definition first_write :: "DocumentKey \<Rightarrow> Mutation list \<Rightarrow> Mutation option" where
  "first_write key ms = find (\<lambda>m. mut_key m = key) ms"

lemma first_write_Nil [simp]: "first_write key [] = None"
  by (simp add: first_write_def)

lemma first_write_append:
  "first_write key (ms @ ns) = (case first_write key ms of None \<Rightarrow> first_write key ns | Some m \<Rightarrow> Some m)"
  by (induction ms) (simp_all add: first_write_def)

lemma first_write_None: "(first_write key ms = None) = (key \<notin> mut_key ` set ms)"
  by (auto simp: first_write_def find_None_iff)

lemma first_write_guarded:
  assumes "guarded_writes key precondition ms"
  shows "first_write key' ms = (if key' = key then Some (hd ms) else None)"
  using assms by (cases ms) (auto simp: guarded_writes_def first_write_None[unfolded first_write_def] first_write_def)

lemma guarded_writes_keys: "guarded_writes key precondition ms \<Longrightarrow> mut_key ` set ms = {key}"
  by (cases ms) (auto simp: guarded_writes_def)

text \<open>
  While no write has failed, the written documents are those of the mutations, and the first mutation of
  a document that was read has its version as the precondition.
\<close>

definition writes_guarded :: "Transaction \<Rightarrow> bool" where
  "writes_guarded txn =
     (set (txn_written_docs txn) = mut_key ` set (txn_mutations txn) \<and>
      (\<forall>key version m. txn_GetVersion key txn = Some version \<longrightarrow> first_write key (txn_mutations txn) = Some m \<longrightarrow>
         mut_precondition m = Precondition_UpdateTime version))"

definition reads_recorded :: "Transaction \<Rightarrow> MaybeDocument list \<Rightarrow> bool" where
  "reads_recorded txn reads =
     (\<forall>d \<in> set reads. \<exists>version. recorded_version d = Inr version \<and> txn_GetVersion (doc_key d) txn = Some version)"

definition txn_ok :: "Transaction \<times> MaybeDocument list \<Rightarrow> bool" where
  "txn_ok = (\<lambda>(txn, reads). \<not> txn_committed txn \<and> reads_recorded txn reads \<and>
     (Status_ok (txn_last_write_error txn) \<longrightarrow> writes_guarded txn))"

lemma make_Transaction_ok: "txn_ok (make_Transaction, [])"
  by (simp add: txn_ok_def make_Transaction_def reads_recorded_def writes_guarded_def)

text \<open>A read adds versions, and nothing else; it never changes one.\<close>

definition only_reads :: "Transaction \<Rightarrow> Transaction \<Rightarrow> bool" where
  "only_reads txn txn' =
     (txn_mutations txn' = txn_mutations txn \<and> txn_committed txn' = txn_committed txn \<and>
      txn_permanent_error txn' = txn_permanent_error txn \<and> txn_last_write_error txn' = txn_last_write_error txn \<and>
      txn_written_docs txn' = txn_written_docs txn \<and>
      (\<forall>key version. txn_GetVersion key txn = Some version \<longrightarrow> txn_GetVersion key txn' = Some version))"

lemma only_reads_refl: "only_reads txn txn"
  by (simp add: only_reads_def)

lemma only_reads_trans: "only_reads a b \<Longrightarrow> only_reads b c \<Longrightarrow> only_reads a c"
  by (simp add: only_reads_def)

lemma RecordVersion_reads:
  assumes "RecordVersion doc txn = Inr (status, txn')"
  shows "only_reads txn txn'" "Status_ok status \<Longrightarrow> reads_recorded txn' [doc]"
proof -
  obtain version where v: "recorded_version doc = Inr version"
    using assms by (cases "recorded_version doc") (auto simp: RecordVersion_def)
  show "only_reads txn txn'"
    using assms v by (auto simp: RecordVersion_def only_reads_def txn_GetVersion_def plain_eq.um_find_put
      split: option.splits if_splits)
  show "reads_recorded txn' [doc]" if "Status_ok status"
    using assms v that
    by (auto simp: RecordVersion_def reads_recorded_def txn_GetVersion_def plain_eq.um_find_put       version_changed_def Status_ok_def kErrorAborted_def split: option.splits if_splits)
qed

lemma reads_recorded_later: "reads_recorded txn ds \<Longrightarrow> only_reads txn txn' \<Longrightarrow> reads_recorded txn' ds"
  by (auto simp: reads_recorded_def only_reads_def)

lemma record_documents_reads:
  assumes "record_documents ds txn = Inr (status, txn')"
  shows "only_reads txn txn' \<and> (Status_ok status \<longrightarrow> reads_recorded txn' ds)"
  using assms
proof (induction ds arbitrary: txn)
  case Nil
  then show ?case by (simp add: only_reads_refl reads_recorded_def)
next
  case (Cons d ds)
  obtain s1 t1 where r: "RecordVersion d txn = Inr (s1, t1)"
    using Cons.prems by (cases "RecordVersion d txn") auto
  note one = RecordVersion_reads[OF r]
  show ?case
  proof (cases "Status_ok s1")
    case True
    then have "record_documents ds t1 = Inr (status, txn')" using Cons.prems r by simp
    from Cons.IH[OF this] have later: "only_reads t1 txn'" "Status_ok status \<longrightarrow> reads_recorded txn' ds" by auto
    have "reads_recorded txn' [d]" using one(2)[OF True] later(1) by (rule reads_recorded_later)
    then have "Status_ok status \<longrightarrow> reads_recorded txn' (d # ds)" using later(2) by (auto simp: reads_recorded_def)
    then show ?thesis using only_reads_trans[OF one(1) later(1)] by blast
  next
    case False
    then have "status = s1" "txn' = t1" using Cons.prems r by simp_all
    then show ?thesis using one False by simp
  qed
qed

lemma writes_guarded_read:
  "only_reads txn txn' \<Longrightarrow> txn_mutations txn = [] \<Longrightarrow> writes_guarded txn \<Longrightarrow> writes_guarded txn'"
  by (simp add: only_reads_def writes_guarded_def)

lemma lookup_done_reads:
  assumes "lookup_done response txn = Inr (answer, txn')"
  shows "only_reads txn txn'" "answer = Inr documents \<Longrightarrow> reads_recorded txn' documents"
  using assms by (auto simp: lookup_done_def rmap_Inr_conv only_reads_refl dest!: record_documents_reads
      split: sum.splits if_splits)

lemma insert_written_simps [simp]:
  "set (txn_written_docs (insert_written key txn)) = insert key (set (txn_written_docs txn))"
  "txn_mutations (insert_written key txn) = txn_mutations txn"
  "txn_committed (insert_written key txn) = txn_committed txn"
  "txn_last_write_error (insert_written key txn) = txn_last_write_error txn"
  "txn_read_versions (insert_written key txn) = txn_read_versions txn"
  "txn_permanent_error (insert_written key txn) = txn_permanent_error txn"
  by (auto simp: insert_written_def)

lemma GetVersion_fields: "txn_read_versions txn = txn_read_versions txn' \<Longrightarrow> txn_GetVersion key txn = txn_GetVersion key txn'"
  by (simp add: txn_GetVersion_def)

text \<open>A write of a key appends guarded mutations; the guard is the version unless the key was written.\<close>

lemma writes_guarded_write:
  assumes "writes_guarded txn" and ms: "guarded_writes key precondition ms"
    and "\<And>version. txn_GetVersion key txn = Some version \<Longrightarrow> key \<notin> set (txn_written_docs txn) \<Longrightarrow>
           precondition = Precondition_UpdateTime version"
  shows "writes_guarded (insert_written key (txn\<lparr>txn_mutations := txn_mutations txn @ ms\<rparr>))"
proof -
  let ?txn = "insert_written key (txn\<lparr>txn_mutations := txn_mutations txn @ ms\<rparr>)"
  have written: "set (txn_written_docs txn) = mut_key ` set (txn_mutations txn)"
    using assms(1) by (simp add: writes_guarded_def)
  have "mut_precondition m = Precondition_UpdateTime version"
    if v: "txn_GetVersion k txn = Some version" and m: "first_write k (txn_mutations txn @ ms) = Some m" for k version m
  proof (cases "first_write k (txn_mutations txn)")
    case None
    then have "k = key" "m = hd ms" using m first_write_guarded[OF ms, of k]
      by (auto simp: first_write_append split: if_splits)
    moreover have "k \<notin> set (txn_written_docs txn)" using None written by (simp add: first_write_None)
    ultimately show ?thesis using assms(3) v ms by (simp add: guarded_writes_def)
  next
    case (Some m')
    then have "m' = m" using m by (simp add: first_write_append)
    then show ?thesis using Some v assms(1) by (simp add: writes_guarded_def)
  qed
  then show ?thesis using written guarded_writes_keys[OF ms]
    by (simp add: writes_guarded_def image_Un txn_GetVersion_def Un_commute)
qed

lemma CreatePrecondition_guards:
  "txn_GetVersion key txn = Some version \<Longrightarrow> key \<notin> set (txn_written_docs txn) \<Longrightarrow>
   CreatePrecondition key txn = Precondition_UpdateTime version"
  by (simp add: CreatePrecondition_def)

lemma CreateUpdatePrecondition_guards:
  "CreateUpdatePrecondition key txn = Inr precondition \<Longrightarrow> txn_GetVersion key txn = Some version \<Longrightarrow>
   key \<notin> set (txn_written_docs txn) \<Longrightarrow> precondition = Precondition_UpdateTime version"
  by (auto simp: CreateUpdatePrecondition_def split: if_splits)

lemma write_keeps:
  assumes "txn_ok (txn, reads)" "guarded_writes key precondition ms"
    and "\<And>version. txn_GetVersion key txn = Some version \<Longrightarrow> key \<notin> set (txn_written_docs txn) \<Longrightarrow>
           precondition = Precondition_UpdateTime version"
    and "rmap (insert_written key) (txn_WriteMutations ms txn) = Inr txn'"
  shows "txn_ok (txn', reads)"
proof -
  have "txn' = insert_written key (txn\<lparr>txn_mutations := txn_mutations txn @ ms\<rparr>)"
    using assms(4) by (auto simp: txn_WriteMutations_def EnsureCommitNotCalled_def rmap_Inr_conv)
  then show ?thesis using assms(1) writes_guarded_write[OF _ assms(2,3)]
    by (auto simp: txn_ok_def reads_recorded_def txn_GetVersion_def)
qed

lemma txn_Update_keeps:
  assumes "txn_ok (txn, reads)" "txn_Update key data txn = Inr txn'"
  shows "txn_ok (txn', reads)"
proof (cases "CreateUpdatePrecondition key txn")
  case (Inl status)
  then have "txn' = insert_written key (txn\<lparr>txn_last_write_error := status\<rparr>)" "status = update_of_missing"
    using assms(2) by (auto simp: txn_Update_def CreateUpdatePrecondition_def split: option.splits if_splits)
  then show ?thesis using assms(1)
    by (simp add: txn_ok_def reads_recorded_def txn_GetVersion_def update_of_missing_def kErrorInvalidArgument_def
        Status_ok_def)
next
  case (Inr precondition)
  then have u: "rmap (insert_written key) (txn_WriteMutations (pud_ToMutations data key precondition) txn) = Inr txn'"
    using assms(2) by (simp add: txn_Update_def)
  show ?thesis
    by (rule write_keeps[OF assms(1) ToMutations_guarded(2) CreateUpdatePrecondition_guards[OF Inr] u])
qed

lemma delete_guarded: "guarded_writes key p [DeleteMutation key p]"
  by (simp add: guarded_writes_def)

lemma txn_read_keeps:
  assumes "txn_ok (txn, reads)" "txn_do (txn, reads) (TxnRead keys response) = Inr (txn', reads')"
  shows "txn_ok (txn', reads')"
proof (cases "txn_Lookup keys txn")
  case (Inr lookup)
  show ?thesis
  proof (cases lookup)
    case (Inl error)
    then show ?thesis using assms Inr by simp
  next
    case (Inr request)
    have "txn_mutations txn = []" using \<open>txn_Lookup keys txn = Inr lookup\<close> Inr
      by (auto simp: txn_Lookup_def EnsureCommitNotCalled_def split: if_splits)
    moreover obtain answer where d: "lookup_done response txn = Inr (answer, txn')"
        "reads' = (case answer of Inl error \<Rightarrow> reads | Inr documents \<Rightarrow> reads @ documents)"
      using assms(2) Inr \<open>txn_Lookup keys txn = Inr lookup\<close>
      by (cases "lookup_done response txn") (auto split: sum.splits)
    note later = lookup_done_reads[OF d(1)]
    ultimately have "Status_ok (txn_last_write_error txn') \<longrightarrow> writes_guarded txn'"
      using assms(1) writes_guarded_read[OF later(1)] by (auto simp: txn_ok_def only_reads_def)
    moreover have "reads_recorded txn' reads" using assms(1) later(1) reads_recorded_later by (auto simp: txn_ok_def)
    then have "reads_recorded txn' reads'" using d(2) later(2) by (auto simp: reads_recorded_def split: sum.splits)
    moreover have "\<not> txn_committed txn'" using assms(1) later(1) by (simp add: txn_ok_def only_reads_def)
    ultimately show ?thesis by (simp add: txn_ok_def)
  qed
qed (use assms in simp)

lemma txn_do_keeps:
  assumes "txn_ok (txn, reads)" "txn_do (txn, reads) op = Inr (txn', reads')"
  shows "txn_ok (txn', reads')"
proof (cases op)
  case (TxnRead keys response)
  then show ?thesis using txn_read_keeps assms by blast
next
  case (TxnSet key data)
  then have "reads' = reads" and u: "rmap (insert_written key)
      (txn_WriteMutations (psd_ToMutations data key (CreatePrecondition key txn)) txn) = Inr txn'"
    using assms(2) by (auto simp: txn_Set_def rmap_Inr_conv)
  then show ?thesis
    using write_keeps[OF assms(1) ToMutations_guarded(1) CreatePrecondition_guards u] by simp
next
  case (TxnUpdate key data)
  then show ?thesis using txn_Update_keeps[OF assms(1)] assms(2) by (auto simp: rmap_Inr_conv)
next
  case (TxnDelete key)
  then have "reads' = reads" and u: "rmap (insert_written key)
      (txn_WriteMutations [DeleteMutation key (CreatePrecondition key txn)] txn) = Inr txn'"
    using assms(2) by (auto simp: txn_Delete_def rmap_Inr_conv)
  then show ?thesis using write_keeps[OF assms(1) delete_guarded CreatePrecondition_guards u] by simp
next
  case TxnFail
  then show ?thesis using assms
    by (auto simp: txn_ok_def MarkPermanentlyFailed_def reads_recorded_def writes_guarded_def txn_GetVersion_def)
qed

lemma txn_run_ok:
  assumes "txn_run ops = Inr (txn, reads)"
  shows "txn_ok (txn, reads)"
proof -
  have "txn_ok s'" if "txn_ok s" "txn_do s op = Inr s'" for s op s'
    using that txn_do_keeps by (cases s; cases s') blast
  then show ?thesis using rfold_keeps[of txn_do "(make_Transaction, [])" ops "(txn, reads)" txn_ok] assms make_Transaction_ok
    by (auto simp: txn_run_def)
qed

section \<open>The commit\<close>

lemma set_unwritten_docs:
  "set (unwritten_docs txn) = {key. txn_GetVersion key txn \<noteq> None} - mut_key ` set (txn_mutations txn)"
proof -
  have "set (foldl (\<lambda>unwritten m. filter (\<lambda>key. key \<noteq> mut_key m) unwritten) ks ms) = set ks - mut_key ` set ms" for ks ms
    by (induction ms arbitrary: ks) auto
  moreover have "set (map fst (txn_read_versions txn)) = {key. txn_GetVersion key txn \<noteq> None}"
    using um_find_keys[where m = "txn_read_versions txn"] by (auto simp: txn_GetVersion_def)
  ultimately show ?thesis by (simp add: unwritten_docs_def)
qed

text \<open>A commit sends what was written, and a verification of the version of each document that was only read.\<close>

lemma txn_Commit_sends:
  assumes "txn_Commit txn = Inr (Inr (CommitMutations ms), txn')"
  shows "ms = txn_mutations txn @ map (\<lambda>key. VerifyMutation key (CreatePrecondition key txn)) (unwritten_docs txn)"
    "txn_committed txn'" "Status_ok (txn_last_write_error txn)"
  using assms by (auto simp: txn_Commit_def EnsureCommitNotCalled_def Let_def split: if_splits)

lemma txn_Commit_guards:
  assumes "txn_ok (txn, reads)" "txn_Commit txn = Inr (Inr (CommitMutations ms), txn')" "d \<in> set reads"
  shows "\<exists>version m. recorded_version d = Inr version \<and> first_write (doc_key d) ms = Some m \<and>
     mut_precondition m = Precondition_UpdateTime version"
proof -
  note sent = txn_Commit_sends[OF assms(2)]
  have w: "writes_guarded txn" using assms(1) sent(3) by (simp add: txn_ok_def)
  obtain version where v: "recorded_version d = Inr version" "txn_GetVersion (doc_key d) txn = Some version"
    using assms(1,3) by (auto simp: txn_ok_def reads_recorded_def)
  show ?thesis
  proof (cases "first_write (doc_key d) (txn_mutations txn)")
    case (Some m)
    then show ?thesis using w v sent(1) by (simp add: writes_guarded_def first_write_append)
  next
    case None
    then have unwritten: "doc_key d \<in> set (unwritten_docs txn)" "doc_key d \<notin> set (txn_written_docs txn)"
      using v(2) w by (auto simp: set_unwritten_docs first_write_None writes_guarded_def)
    have "first_write k (map (\<lambda>key. VerifyMutation key (CreatePrecondition key txn)) ks) =
        Some (VerifyMutation k (CreatePrecondition k txn))" if "k \<in> set ks" for k ks
      using that by (induction ks) (auto simp: first_write_def)
    from this[OF unwritten(1)] show ?thesis
      using v CreatePrecondition_guards[OF v(2) unwritten(2)] None sent(1) by (simp add: first_write_append)
  qed
qed

text \<open>Two reads of a document gave the same version.\<close>

lemma txn_reads_consistent:
  assumes "txn_ok (txn, reads)" "d \<in> set reads" "d' \<in> set reads" "doc_key d = doc_key d'"
  shows "recorded_version d = recorded_version d'"
proof -
  have r: "\<exists>version. recorded_version e = Inr version \<and> txn_GetVersion (doc_key e) txn = Some version"
    if "e \<in> set reads" for e
    using assms(1) that by (simp add: txn_ok_def reads_recorded_def)
  show ?thesis using r[OF assms(2)] r[OF assms(3)] assms(4) by auto
qed

text \<open>
  The order of a read and a write is checked when the lookup starts.  A lookup whose documents arrive
  after a write records versions that guard nothing, so the invariant needs the reads that wait.
\<close>

lemma late_read_unguarded:
  "txn_Lookup [key] make_Transaction = Inr (Inr (LookupDocuments [key])) \<and>
   rbind (txn_Delete key make_Transaction) (\<lambda>txn.
     rbind (lookup_done (Inr [Document data key version state]) txn) (\<lambda>(answer, txn). rmap fst (txn_Commit txn))) =
   Inr (Inr (CommitMutations [DeleteMutation key Precondition_None]))"
  by (simp add: txn_Lookup_def EnsureCommitNotCalled_def make_Transaction_def txn_Delete_def txn_WriteMutations_def
      insert_written_def lookup_done_def RecordVersion_def txn_GetVersion_def CreatePrecondition_def txn_Commit_def
      unwritten_docs_def Status_ok_def Status_OK_def Let_def)

end
