(* ===== verification/TransactionRunners.thy ===== *)
theory TransactionRunners
  imports Transactions
begin

text \<open>
  \<open>core/transaction_runner.cc\<close>: the runner waits for its backoff, gives a new transaction to the callback
  of the user, commits it, and starts again after an error that a retry may cure.  The state has, beside
  the fields of the code, which of its closures is outstanding; the steps are the calls of these closures,
  on the queue that runs one at a time.
\<close>

section \<open>The runner\<close>

definition kRetryCount :: nat where
  "kRetryCount = 5"

definition IsRetryableTransactionError :: "Status \<Rightarrow> bool result" where
  "IsRetryableTransactionError error =
     (if fst error = kErrorAborted \<or> fst error = kErrorFailedPrecondition then Inr True
      else rmap Not (IsPermanentError error))"

datatype runner_output =
    UpdateCallback
  | DatastoreCommit "Mutation list"
  | ResultCallback Status

datatype runner_wait = AwaitBackoff | AwaitUser Transaction | AwaitCommit Transaction | Released

record TransactionRunner =
  tr_backoff :: ExponentialBackoff
  tr_retries_left :: nat
  tr_wait :: runner_wait
  tr_output :: "runner_output list"

definition make_TransactionRunner :: "TransactionRunner result" where
  "make_TransactionRunner =
     rmap (\<lambda>backoff. \<lparr>tr_backoff = backoff, tr_retries_left = kRetryCount, tr_wait = Released, tr_output = []\<rparr>)
       default_ExponentialBackoff"

definition runner_emit :: "runner_output \<Rightarrow> TransactionRunner \<Rightarrow> TransactionRunner" where
  "runner_emit out r = r\<lparr>tr_output := tr_output r @ [out]\<rparr>"

text \<open>The jitter and the time since the last attempt are those of \<open>BackoffAndRun\<close>.\<close>

definition runner_Run :: "int \<Rightarrow> int \<Rightarrow> TransactionRunner \<Rightarrow> TransactionRunner" where
  "runner_Run jitter elapsed r =
     r\<lparr>tr_backoff := BackoffAndRun jitter elapsed (tr_backoff r), tr_wait := AwaitBackoff\<rparr>"

text \<open>The closure of \<open>Run\<close>, when the backoff is over.\<close>

definition begin_attempt :: "TransactionRunner \<Rightarrow> TransactionRunner" where
  "begin_attempt r = (runner_emit UpdateCallback r)\<lparr>tr_wait := AwaitUser make_Transaction\<rparr>"

definition release_runner :: "Status \<Rightarrow> TransactionRunner \<Rightarrow> TransactionRunner" where
  "release_runner status r = (runner_emit (ResultCallback status) r)\<lparr>tr_wait := Released\<rparr>"

definition HandleTransactionError :: "int \<Rightarrow> int \<Rightarrow> Transaction \<Rightarrow> Status \<Rightarrow> TransactionRunner \<Rightarrow> TransactionRunner result" where
  "HandleTransactionError jitter elapsed txn status r =
     (if tr_retries_left r > 0 then
        rmap (\<lambda>retryable.
            if retryable \<and> \<not> txn_permanent_error txn
            then runner_Run jitter elapsed (r\<lparr>tr_retries_left := tr_retries_left r - 1\<rparr>)
            else release_runner status r)
          (IsRetryableTransactionError status)
      else Inr (release_runner status r))"

definition DispatchResult :: "int \<Rightarrow> int \<Rightarrow> Transaction \<Rightarrow> Status \<Rightarrow> TransactionRunner \<Rightarrow> TransactionRunner result" where
  "DispatchResult jitter elapsed txn status r =
     (if Status_ok status then Inr (release_runner status r) else HandleTransactionError jitter elapsed txn status r)"

text \<open>The callback of a commit is called at once when a write failed before.\<close>

definition ContinueCommit :: "int \<Rightarrow> int \<Rightarrow> Transaction \<Rightarrow> Status \<Rightarrow> TransactionRunner \<Rightarrow> TransactionRunner result" where
  "ContinueCommit jitter elapsed txn status r =
     (if \<not> Status_ok status then HandleTransactionError jitter elapsed txn status r
      else rbind (txn_Commit txn) (\<lambda>(answer, txn).
        case answer of
          Inl error \<Rightarrow> DispatchResult jitter elapsed txn error r
        | Inr (CommitMutations ms) \<Rightarrow> Inr ((runner_emit (DatastoreCommit ms) r)\<lparr>tr_wait := AwaitCommit txn\<rparr>)
        | Inr (LookupDocuments keys) \<Rightarrow> Inl Unreachable))"

text \<open>\<open>SyncEngine::Transaction\<close> looks at the number of retries it is given only to assert that it is not negative.\<close>

definition se_Transaction :: "int \<Rightarrow> int \<Rightarrow> int \<Rightarrow> TransactionRunner result" where
  "se_Transaction retries jitter elapsed =
     hard_assert (retries \<ge> 0) (rmap (runner_Run jitter elapsed) make_TransactionRunner)"

section \<open>Steps\<close>

text \<open>
  The callback of the user does what it likes with its transaction and then calls back once with a status;
  the datastore calls back once with the status of the commit.
\<close>

inductive runner_step :: "TransactionRunner \<Rightarrow> TransactionRunner \<Rightarrow> bool" where
  backoff_over: "tr_wait r = AwaitBackoff \<Longrightarrow> runner_step r (begin_attempt r)"
| user_done: "tr_wait r = AwaitUser make_Transaction \<Longrightarrow> txn_run ops = Inr (txn, reads) \<Longrightarrow>
    ContinueCommit jitter elapsed txn status r = Inr r' \<Longrightarrow> runner_step r r'"
| commit_done: "tr_wait r = AwaitCommit txn \<Longrightarrow>
    DispatchResult jitter elapsed txn status r = Inr r' \<Longrightarrow> runner_step r r'"

inductive_cases runner_stepE: "runner_step r r'"

inductive runner_reachable :: "TransactionRunner \<Rightarrow> bool" where
  runner_start: "se_Transaction retries jitter elapsed = Inr r \<Longrightarrow> runner_reachable r"
| runner_moves: "runner_reachable r \<Longrightarrow> runner_step r r' \<Longrightarrow> runner_reachable r'"

fun wait_rank :: "runner_wait \<Rightarrow> nat" where
  "wait_rank AwaitBackoff = 3"
| "wait_rank (AwaitUser txn) = 2"
| "wait_rank (AwaitCommit txn) = 1"
| "wait_rank Released = 0"

definition runner_rank :: "TransactionRunner \<Rightarrow> nat" where
  "runner_rank r = (if tr_wait r = Released then 0 else 3 * tr_retries_left r + wait_rank (tr_wait r))"

lemma runner_simps [simp]:
  "tr_output (runner_Run j e r) = tr_output r" "tr_wait (runner_Run j e r) = AwaitBackoff"
  "tr_retries_left (runner_Run j e r) = tr_retries_left r"
  "tr_output (begin_attempt r) = tr_output r @ [UpdateCallback]" "tr_wait (begin_attempt r) = AwaitUser make_Transaction"
  "tr_retries_left (begin_attempt r) = tr_retries_left r"
  "tr_output (release_runner s r) = tr_output r @ [ResultCallback s]" "tr_wait (release_runner s r) = Released"
  "tr_retries_left (release_runner s r) = tr_retries_left r"
  by (simp_all add: runner_Run_def begin_attempt_def release_runner_def runner_emit_def)

text \<open>What an error leads to: another attempt, with one retry less, or the result.\<close>

lemma HandleTransactionError_cases:
  assumes "HandleTransactionError j e txn status r = Inr r'"
  obtains (retry) "tr_retries_left r > 0" "IsRetryableTransactionError status = Inr True" "\<not> txn_permanent_error txn"
      "r' = runner_Run j e (r\<lparr>tr_retries_left := tr_retries_left r - 1\<rparr>)"
  | (release) "r' = release_runner status r"
  using assms by (auto simp: HandleTransactionError_def rmap_Inr_conv split: if_splits)

lemma DispatchResult_cases:
  assumes "DispatchResult j e txn status r = Inr r'"
  obtains (retry) "tr_retries_left r > 0" "\<not> Status_ok status" "\<not> txn_permanent_error txn"
      "r' = runner_Run j e (r\<lparr>tr_retries_left := tr_retries_left r - 1\<rparr>)"
  | (release) "r' = release_runner status r"
  using assms by (auto simp: DispatchResult_def split: if_splits elim: HandleTransactionError_cases)

lemma ContinueCommit_cases:
  assumes "ContinueCommit j e txn status r = Inr r'"
  obtains (retry) "tr_retries_left r > 0" "r' = runner_Run j e (r\<lparr>tr_retries_left := tr_retries_left r - 1\<rparr>)"
  | (release) error where "r' = release_runner error r" "\<not> Status_ok error"
  | (sent) ms txn' where "txn_Commit txn = Inr (Inr (CommitMutations ms), txn')"
      "r' = (runner_emit (DatastoreCommit ms) r)\<lparr>tr_wait := AwaitCommit txn'\<rparr>"
proof (cases "Status_ok status")
  case False
  then have "HandleTransactionError j e txn status r = Inr r'" using assms by (simp add: ContinueCommit_def)
  then show thesis by (cases rule: HandleTransactionError_cases) (use False retry release in blast)+
next
  case True
  then obtain answer txn' where c: "txn_Commit txn = Inr (answer, txn')"
    using assms by (cases "txn_Commit txn") (auto simp: ContinueCommit_def)
  show thesis
  proof (cases answer)
    case (Inl error)
    then have d: "DispatchResult j e txn' error r = Inr r'" using assms True c by (simp add: ContinueCommit_def)
    have "\<not> Status_ok error" using c Inl by (auto simp: txn_Commit_def EnsureCommitNotCalled_def Let_def split: if_splits)
    with d show thesis by (cases rule: DispatchResult_cases) (use retry release in blast)+
  next
    case (Inr call)
    then show thesis using assms True c sent by (cases call) (auto simp: ContinueCommit_def)
  qed
qed

lemma runner_step_rank: "runner_step r r' \<Longrightarrow> runner_rank r' < runner_rank r"
proof (induction rule: runner_step.induct)
  case (user_done r ops txn reads jitter elapsed status r')
  show ?case using user_done(3)
    by (cases rule: ContinueCommit_cases) (use user_done(1) in \<open>auto simp: runner_rank_def runner_emit_def\<close>)
next
  case (commit_done r txn jitter elapsed status r')
  show ?case using commit_done(2)
    by (cases rule: DispatchResult_cases) (use commit_done(1) in \<open>auto simp: runner_rank_def\<close>)
qed (simp add: runner_rank_def)

section \<open>What every run does\<close>

definition attempt_calls :: "TransactionRunner \<Rightarrow> nat" where
  "attempt_calls r = length (filter (\<lambda>out. out = UpdateCallback) (tr_output r))"

definition is_result :: "runner_output \<Rightarrow> bool" where
  "is_result out = (case out of ResultCallback s \<Rightarrow> True | _ \<Rightarrow> False)"

definition result_calls :: "TransactionRunner \<Rightarrow> nat" where
  "result_calls r = length (filter is_result (tr_output r))"

text \<open>What was sent to the datastore last is the commit of what the user did with the transaction.\<close>

definition sent_commit :: "runner_output list \<Rightarrow> Transaction \<Rightarrow> bool" where
  "sent_commit outs txn =
     (\<exists>before ops txn0 reads ms. txn_run ops = Inr (txn0, reads) \<and> txn_Commit txn0 = Inr (Inr (CommitMutations ms), txn) \<and>
        outs = before @ [DatastoreCommit ms])"

fun wait_ok :: "runner_wait \<Rightarrow> TransactionRunner \<Rightarrow> bool" where
  "wait_ok AwaitBackoff r = (attempt_calls r + tr_retries_left r = kRetryCount \<and> result_calls r = 0)"
| "wait_ok (AwaitUser txn) r = (attempt_calls r + tr_retries_left r = Suc kRetryCount \<and> result_calls r = 0 \<and> txn = make_Transaction)"
| "wait_ok (AwaitCommit txn) r =
     (attempt_calls r + tr_retries_left r = Suc kRetryCount \<and> result_calls r = 0 \<and> sent_commit (tr_output r) txn)"
| "wait_ok Released r =
     (attempt_calls r + tr_retries_left r = Suc kRetryCount \<and>
      (\<exists>outs s. tr_output r = outs @ [ResultCallback s] \<and> length (filter is_result outs) = 0 \<and>
         (Status_ok s \<longrightarrow> (\<exists>txn. sent_commit outs txn))))"

definition runner_ok :: "TransactionRunner \<Rightarrow> bool" where
  "runner_ok r = wait_ok (tr_wait r) r"

lemma runner_start_ok: "se_Transaction retries j e = Inr r \<Longrightarrow> runner_ok r"
  by (auto simp: se_Transaction_def runner_ok_def make_TransactionRunner_def rmap_Inr_conv attempt_calls_def result_calls_def
      runner_Run_def)

lemma retry_ok:
  assumes "attempt_calls r + tr_retries_left r = Suc kRetryCount" "result_calls r = 0" "tr_retries_left r > 0"
  shows "runner_ok (runner_Run j e (r\<lparr>tr_retries_left := tr_retries_left r - 1\<rparr>))"
  using assms by (simp add: runner_ok_def attempt_calls_def result_calls_def)

lemma release_ok:
  assumes "attempt_calls r + tr_retries_left r = Suc kRetryCount" "result_calls r = 0"
    and "Status_ok s \<Longrightarrow> \<exists>txn. sent_commit (tr_output r) txn"
  shows "runner_ok (release_runner s r)"
  using assms by (simp add: runner_ok_def attempt_calls_def result_calls_def is_result_def)

lemma runner_step_ok: "runner_step r r' \<Longrightarrow> runner_ok r \<Longrightarrow> runner_ok r'"
proof (induction rule: runner_step.induct)
  case (backoff_over r)
  then show ?case by (simp add: runner_ok_def attempt_calls_def result_calls_def is_result_def)
next
  case (user_done r ops txn reads jitter elapsed status r')
  then have r: "attempt_calls r + tr_retries_left r = Suc kRetryCount" "result_calls r = 0" by (simp_all add: runner_ok_def)
  from user_done(3) show ?case
  proof (cases rule: ContinueCommit_cases)
    case retry
    then show ?thesis using retry_ok r by simp
  next
    case (release error)
    then show ?thesis using release_ok[OF r, of error] by blast
  next
    case (sent ms txn')
    have "sent_commit (tr_output r @ [DatastoreCommit ms]) txn'"
      using user_done(2) sent(1) unfolding sent_commit_def by blast
    then show ?thesis using r sent(2)
      by (simp add: runner_ok_def attempt_calls_def result_calls_def runner_emit_def is_result_def)
  qed
next
  case (commit_done r txn jitter elapsed status r')
  then have r: "attempt_calls r + tr_retries_left r = Suc kRetryCount" "result_calls r = 0" "sent_commit (tr_output r) txn"
    by (simp_all add: runner_ok_def)
  from commit_done(2) show ?case
    by (cases rule: DispatchResult_cases) (use retry_ok[OF r(1,2)] release_ok[OF r(1,2)] r(3) in blast)+
qed

lemma runner_reachable_ok: "runner_reachable r \<Longrightarrow> runner_ok r"
  by (induction rule: runner_reachable.induct) (auto intro: runner_start_ok runner_step_ok)

lemma runner_attempts: "runner_ok r \<Longrightarrow> attempt_calls r \<le> 6"
  by (cases "tr_wait r") (auto simp: runner_ok_def kRetryCount_def)

lemma runner_results: "runner_ok r \<Longrightarrow> result_calls r = (if tr_wait r = Released then 1 else 0)"
  by (cases "tr_wait r") (auto simp: runner_ok_def result_calls_def is_result_def)

text \<open>A runner that is not released has a step.\<close>

lemma runner_can_step:
  assumes "runner_ok r" "tr_wait r \<noteq> Released"
  shows "\<exists>r'. runner_step r r'"
proof (cases "tr_wait r")
  case AwaitBackoff
  then show ?thesis using backoff_over by blast
next
  case (AwaitUser txn)
  then have w: "tr_wait r = AwaitUser make_Transaction" using assms by (simp add: runner_ok_def)
  have "txn_run [] = Inr (make_Transaction, [])" by (simp add: txn_run_def)
  moreover have "\<exists>r'. ContinueCommit 0 0 make_Transaction Status_OK r = Inr r'"
    by (simp add: ContinueCommit_def txn_Commit_def EnsureCommitNotCalled_def make_Transaction_def Status_ok_def
        Status_OK_def Let_def)
  ultimately show ?thesis using user_done[OF w] by blast
next
  case (AwaitCommit txn)
  have "DispatchResult 0 0 txn Status_OK r = Inr (release_runner Status_OK r)"
    by (simp add: DispatchResult_def Status_ok_def Status_OK_def)
  then show ?thesis using commit_done[OF AwaitCommit] by blast
qed (use assms in simp)

lemma released_stays: "tr_wait r = Released \<Longrightarrow> \<not> runner_step r r'"
  by (auto elim: runner_stepE)

lemma runner_steps_rank: "(runner_step ^^ n) r r' \<Longrightarrow> n + runner_rank r' \<le> runner_rank r"
proof (induction n arbitrary: r')
  case (Suc n)
  then obtain s where "(runner_step ^^ n) r s" "runner_step s r'" by auto
  then show ?case using Suc.IH runner_step_rank by fastforce
qed simp

lemma runner_steps_reachable: "(runner_step ^^ n) r r' \<Longrightarrow> runner_reachable r \<Longrightarrow> runner_reachable r'"
  by (induction n arbitrary: r') (auto intro: runner_moves)

lemma runner_start_rank: "se_Transaction retries j e = Inr r \<Longrightarrow> runner_rank r = 18"
  by (auto simp: se_Transaction_def make_TransactionRunner_def rmap_Inr_conv runner_rank_def kRetryCount_def runner_Run_def)

text \<open>A success the user is told of is a commit the backend accepted, with every read guarded.\<close>

lemma runner_success:
  assumes "runner_ok r" "ResultCallback s \<in> set (tr_output r)" "Status_ok s"
  shows "\<exists>outs ms txn reads ops txn'. tr_output r = outs @ [DatastoreCommit ms, ResultCallback s] \<and>
    txn_run ops = Inr (txn, reads) \<and> txn_Commit txn = Inr (Inr (CommitMutations ms), txn')"
proof -
  have "is_result (ResultCallback s)" by (simp add: is_result_def)
  then have "result_calls r \<noteq> 0" using assms(2) unfolding result_calls_def length_0_conv filter_empty_conv by blast
  then have "tr_wait r = Released" using runner_results[OF assms(1)] by (simp split: if_splits)
  then obtain outs s' where o: "tr_output r = outs @ [ResultCallback s']" "length (filter is_result outs) = 0"
      "Status_ok s' \<longrightarrow> (\<exists>txn. sent_commit outs txn)"
    using assms(1) by (auto simp: runner_ok_def)
  have "ResultCallback s \<notin> set outs" using o(2) by (auto simp: filter_empty_conv is_result_def)
  then have "s' = s" using assms(2) o(1) by auto
  then obtain txn' where "sent_commit outs txn'" using o(3) assms(3) by blast
  then show ?thesis using o(1) \<open>s' = s\<close> unfolding sent_commit_def by fastforce
qed

end
