(* ===== verification/Spec2Isabelle.thy ===== *)
theory Spec2Isabelle
  imports EventManagerProofs LevelDbKeyProofs RemoteEventProofs Streams SyncEngineRuns TransactionRunners
begin

text \<open>
The core of the Firestore client for C++, as vendored by the application under
  \<open>src/SocialApp/Pods/FirebaseFirestore/Firestore/core/src/\<close>; file names below are relative to that
  directory.  A client keeps documents it got from the backend, lays the mutations of its user over
  them, runs queries on the result and raises a snapshot whenever a view of a query changes.

  \<^bold>\<open>Parts and how they interact.\<close>  Values (\<open>model/\<close>, \<open>immutable/\<close>): a document is an object of field
  values under a key, at a version.  Mutations change documents, in batches, locally first and again
  when the backend acknowledges them.  Queries (\<open>core/\<close>) filter, order and limit documents; a target is
  what the backend sees of a query.  A view holds the results of one query as a document set; it
  computes the changes that new documents or an event of the backend make and raises snapshots.  The
  watch change aggregator (\<open>remote/\<close>) collects the changes the backend streams for each target and turns
  them into remote events, whose target changes the views apply.  The persistence layer (\<open>local/\<close>) keys
  its rows by an order-preserving encoding (\<open>util/ordered_code\<close>).

  \<^bold>\<open>Conventions.\<close>  \<open>HARD_ASSERT\<close>, \<open>HARD_FAIL\<close>, \<open>UNREACHABLE\<close> and \<open>ThrowInvalidArgument\<close> are the failures
  of the type \<open>'a result\<close> (\<open>Prelude\<close>); a function of the code that can reach one returns a result, and
  the theorems show when it does not.  Integers keep their width (\<open>int32\<close>, \<open>int64\<close>, words read by \<open>sint\<close>);
  a double is its 64 bits (\<open>Floating\<close>).  A mutable object is a record that an operation returns updated.
  A string is the list of its bytes as characters; in the keys of LevelDB it is a list of 8 bit words.
  Pointers to immutable objects are the objects.  A function of the code keeps its name, with its class
  as a prefix where the name alone is ambiguous.

  \<^bold>\<open>The theories.\<close>
  \<^item> \<open>Prelude\<close>, \<open>Comparison\<close> (\<open>util/comparison.h\<close>), \<open>Floating\<close> (IEEE doubles, \<open>util/comparison.cc\<close>):
    failures, three-way comparison and the locale \<open>strict_comparator\<close> of the laws a comparator obeys, and
    the exact value of a double, against which the mixed comparison of integers and doubles is proved.
  \<^item> \<open>SortedSpec\<close>, \<open>ArraySortedMap\<close>, \<open>LlrbNode\<close>, \<open>LlrbProofs\<close>, \<open>TreeSortedMap\<close>, \<open>SortedMap\<close>
    (\<open>immutable/\<close>): sorted maps as fixed arrays and as left-leaning red-black trees, and the switch between
    them; the abstract specification is a finite map with sorted keys, which both refine.
  \<^item> \<open>Paths\<close>, \<open>Timestamps\<close>, \<open>FieldValues\<close>, \<open>FieldValueProofs\<close>, \<open>ObjectValues\<close>, \<open>Documents\<close> (\<open>model/\<close>,
    \<open>timestamp.cc\<close>, \<open>geo_point.cc\<close>): paths with their parser and printer, the total order on field values,
    objects with reading, setting and deleting at a path, documents and preconditions.
  \<^item> \<open>Transforms\<close>, \<open>Mutations\<close> (\<open>model/transform_operation.cc\<close>, \<open>model/mutation*.cc\<close> and its kinds): the
    local and the acknowledged effect of every kind of mutation and of batches.
  \<^item> \<open>Filters\<close>, \<open>Queries\<close>, \<open>TargetData\<close>, \<open>DocumentSets\<close> (\<open>core/\<close>, \<open>local/target_data.cc\<close>,
    \<open>model/document_set.cc\<close>): matching, ordering and limits.
  \<^item> \<open>Views\<close>, \<open>ViewProofs\<close> (\<open>core/view.cc\<close>, \<open>core/view_snapshot.cc\<close>): the state of a view is its document
    set, the confirmed documents, those in limbo and those with pending writes; an invariant relates
    them, and every operation keeps it.
  \<^item> \<open>QueryEquality\<close>, \<open>QueryListeners\<close>, \<open>EventManagers\<close>, \<open>EventManagerProofs\<close> (\<open>core/query_listener.cc\<close>,
    \<open>core/event_manager.cc\<close>): a listener decides which snapshots its user sees, and the event manager hands
    the snapshots of a query to its listeners, objects in a heap; what the listeners call is output.
  \<^item> \<open>RemoteEvents\<close>, \<open>RemoteEventProofs\<close> (\<open>remote/remote_event.cc\<close>, \<open>remote/watch_change.h\<close>): the aggregator
    refines, for every target, a set of documents (\<open>members\<close>); a remote event is the difference of that
    set to the documents the view has.
  \<^item> \<open>OrderedCode\<close>, \<open>OrderedCodeProofs\<close>, \<open>OrderedNumbers\<close> (\<open>util/ordered_code.cc\<close>, \<open>util/bits.h\<close>),
    \<open>LevelDbKeys\<close>, \<open>LevelDbKeyProofs\<close> (\<open>local/leveldb_key.cc\<close>): encodings that keep the order, and the
    keys made of them.  The locale \<open>ordered_item\<close> states what the keys need of one encoding; it is
    interpreted on the codes of strings, signed and unsigned numbers.
  \<^item> \<open>UnorderedMaps\<close>, \<open>ReferenceSets\<close>, \<open>IndexManagers\<close>, \<open>MutationQueues\<close>, \<open>MutationQueueProofs\<close>,
    \<open>DocumentCaches\<close>, \<open>TargetCaches\<close> (\<open>local/reference_set.cc\<close>, \<open>local/memory_*.cc\<close>): the parts of the
    memory persistence; a reference set refines a relation, the lookups of the queue are searches of its
    list of batches, the scan of the cache is exact.  The locale \<open>mutation_queue\<close> is what a view of the
    local documents needs of a queue, interpreted on the memory queue.
  \<^item> \<open>ReferenceDelegates\<close>, \<open>MemoryPersistences\<close>, \<open>MemoryPersistenceProofs\<close>, \<open>LruGarbageCollectors\<close>
    (\<open>local/memory_persistence.cc\<close>, the two reference delegates, \<open>local/lru_garbage_collector.cc\<close>):
    transactions, what they leave in the cache, and the collector over the locale \<open>lru_delegate\<close>, which the
    memory persistence is an interpretation of.
  \<^item> \<open>LocalDocumentsViews\<close>, \<open>LocalDocumentsProofs\<close> (\<open>local/local_documents_view.cc\<close>): the cached documents
    with the pending batches applied, by key, for a collection and for a collection group.
  \<^item> \<open>QueryEngines\<close> (\<open>local/query_engine.cc\<close>): answers a query from the keys of its last limbo-free
    snapshot when it can; proved equal to a scan of all documents.
  \<^item> \<open>LocalStores\<close>, \<open>LocalStoreProofs\<close>, \<open>LocalStoreWrites\<close>, \<open>LocalStoreAcks\<close>
    (\<open>local/local_store.cc\<close>): the store over all of these.  Its invariant \<open>ls_ok\<close> covers the
    persistence, the batches, the index and the two maps of live targets; \<open>ls_Run_rule\<close> is the rule every
    proof about a transaction uses.
  \<^item> \<open>SyncEngines\<close>, \<open>SyncEngineProofs\<close> (\<open>core/sync_engine.cc\<close>): the engine between the local store, the
    views and the remote store.  What it calls on the remote store and on callbacks is its output.
    \<open>limbo_ok\<close> is the invariant of limbo resolution, kept by every step of \<open>sync_step\<close>; \<open>limbo_tracked\<close> says
    that no document in limbo is lost; \<open>write_callback\<close> and \<open>waiting_callbacks\<close> are the callbacks of a batch.
  \<^item> \<open>LocalStoreViews\<close>, \<open>SyncEngineViews\<close>, \<open>SyncEngineRuns\<close>: the parts together.  \<open>engine_ok\<close> says that every
    view of a query without limit shows what the pending batches make of the remote documents (\<open>visible\<close>,
    up to \<open>shown_as\<close>); a listen and a write keep it, an acknowledgement and a rejection give it for the
    documents before the eager collector runs.  \<open>SyncEngineRuns\<close> holds concrete engines for the witnesses.
  \<^item> \<open>Statuses\<close>, \<open>UserData\<close>, \<open>Transactions\<close>, \<open>TransactionRunners\<close> (\<open>core/user_data.cc\<close>,
    \<open>api/write_batch.cc\<close>, \<open>core/transaction.cc\<close>, \<open>core/transaction_runner.cc\<close>): the data of a user as
    mutations, and transactions.  \<open>txn_ok\<close> is the invariant of a transaction under the operations of its
    user: reads are recorded, and the first write of a document that was read is guarded by its version.
    \<open>runner_step\<close> are the calls of the outstanding closures of a runner; \<open>runner_rank\<close> decreases with each.
  \<^item> \<open>Streams\<close> (\<open>remote/stream.cc\<close>, \<open>watch_stream.cc\<close>, \<open>write_stream.cc\<close>): the state machine of a stream
    with its timers and its requests for a token; \<open>stream_ok\<close> is kept by every step of \<open>stream_step\<close>.
  \<^item> \<open>OnlineState\<close>, \<open>TargetIds\<close>, \<open>Backoff\<close> (\<open>remote/online_state_tracker.cc\<close>,
    \<open>core/target_id_generator.cc\<close>, \<open>remote/exponential_backoff.cc\<close>): small state machines, with their
    reachable states.

  \<^bold>\<open>Loops.\<close>  Every loop is a recursion that is structural or has a proved measure (the bytes left of a
  key, the entries left of a list, the documents that wait for a limbo resolution); no fuel is used.  The trees need no bound on their height, which is
  a theorem.

  \<^bold>\<open>Parameters.\<close>  What the code takes from outside is an argument: the clock and the timer of the online
  state tracker, the jitter of the backoff, and the metadata provider of the aggregator (the remote keys
  and the target data of a target), a record of two functions, the time of a local write, and the sizes
  a \<open>Sizer\<close> gives.  A percentile
  of the garbage collector is a number up to 100; the priority queue it uses is a descending list.

  \<^bold>\<open>Not modelled.\<close>  Hash functions, \<open>ToString\<close> and \<open>DescribeKey\<close> (texts for logs); the conversions to
  and from protocol buffers, gRPC streams and certificates (third-party types throughout); the
  asynchronous queue, executors, threads and files (the operating system); the LevelDB tables
  themselves, which call the LevelDB library, beyond their keys; the API layer in Objective-C++; and
  the vendored libraries.  Of the remaining core, the remote
  store is not modelled: it joins the streams to the sync engine, whose calls on it are output of the model.
\<close>

section \<open>A query for the concrete instances\<close>

lemma rooms_query_ok: "query_ok (make_Query [''rooms''] None)"
  by (simp add: query_ok_def make_Query_def order_bys_def InequalityFilterField_def FirstOrderByField_def Let_def)

lemma rooms_query_matches: "Query_Matches (make_Query [''rooms''] None) (Document [] [''rooms'', s] ver st) = Inr True"
  by (simp add: Query_Matches_def make_Query_def MatchesPathAndCollectionGroup_def IsDocumentKey_def
      IsImmediateParentOf_def MatchesOrderBy_def MatchesFilters_def MatchesBounds_def order_bys_def
      InequalityFilterField_def FirstOrderByField_def Let_def)

lemma rooms_view_ok: "view_ok (make_View (make_Query [''rooms''] None) ks)"
  by (rule make_View_ok[OF rooms_query_ok])

definition rooms_target :: Target where
  "rooms_target = (case ToTarget (make_Query [''rooms''] None) of Inr t \<Rightarrow> t | Inl _ \<Rightarrow> undefined)"

lemma rooms_target_path: "t_path rooms_target = [''rooms'']"
  by (simp add: rooms_target_def ToTarget_def make_Query_def order_bys_def InequalityFilterField_def
      FirstOrderByField_def Let_def)

lemma deleted_view_ready: "view_ready deleted_view"
proof -
  have "SnapshotVersion_None < Timestamp 2 0" by (simp add: SnapshotVersion_None_def less_Timestamp_def)
  then have "rc_Get k (ldv_remote_document_cache deleted_view) \<noteq> None \<longrightarrow>
      read_after SnapshotVersion_None k (ldv_remote_document_cache deleted_view)" for k
    by (simp add: deleted_view_def incremented_view_def Let_def rc_Get_def dm_get_def read_after_def)
  then show ?thesis using deleted_view_ok(1,2) by (simp add: view_ready_def)
qed

section \<open>The properties\<close>

section \<open>The run of a query listener\<close>

lemma listener_run_events:
  assumes "list_all input_ok is"
  obtains shown l where "rfold run_step ([], make_QueryListener q options) is = Inr (shown, l)"
    "ql_raised_initial_event l = (shown \<noteq> [])"
    "shown \<noteq> [] \<longrightarrow> initial_event (hd shown) \<and> (\<forall>e \<in> set (tl shown). later_event options e)"
    "shown = [] \<longrightarrow> (\<forall>s. ql_snapshot l = Some s \<longrightarrow> vs_from_cache s \<and> ql_online_state l \<noteq> OS_Offline \<and>
       (wait_for_sync_when_online options \<or> ds_size (vs_documents s) = 0))"
proof -
  obtain shown l where r: "rfold run_step ([], make_QueryListener q options) is = Inr (shown, l)" "listener_inv shown l"
    "ql_options l = options"
    using listener_run[OF assms listener_inv_init, of q options] by (auto simp: make_QueryListener_def)
  then show ?thesis using that[of shown l] unfolding listener_inv_def initial_ready_def by (auto split: option.splits)
qed

text \<open>
  C1. Latency compensation: in an engine whose views (of queries without limit) show the local
  store, a write with distinct keys never fails, leaves its batch last in the queue and the remote
  documents alone, and when it returns every view shows the pending batches, the new one included,
  over the remote documents.
\<close>

theorem local_writes_shown:
  assumes "engine_ok se" "se_has_callback se" "ms \<noteq> []" "\<forall>m \<in> set ms. writable m" "distinct (map mut_key ms)"
    "sint (mq_next_batch_id (ls_queue (se_local_store se))) < 2 ^ 31 - 1"
  shows "\<exists>se' b. WriteMutations t ms callback se = Inr se' \<and> engine_ok se' \<and> mb_mutations b = ms \<and> mb_local_write_time b = t \<and>
    pending (se_local_store se') = pending (se_local_store se) @ [b] \<and> remote (se_local_store se') = remote (se_local_store se) \<and>
    map fst (se_query_views_by_query se') = map fst (se_query_views_by_query se) \<and>
    (\<forall>(q, qv) \<in> set (se_query_views_by_query se'). \<forall>k.
       rel_option shown_as (visible q (pending (se_local_store se) @ [b]) (remote (se_local_store se)) k)
         (ds_GetDocument k (view_document_set (qv_view qv))))"
proof -
  from WriteMutations_ok[OF assms, of t callback] obtain se' b where w: "WriteMutations t ms callback se = Inr se'" "engine_ok se'"
      "mb_mutations b = ms" "mb_local_write_time b = t"
      "pending (se_local_store se') = pending (se_local_store se) @ [b]" "remote (se_local_store se') = remote (se_local_store se)"
      "map fst (se_query_views_by_query se') = map fst (se_query_views_by_query se)" by blast
  show ?thesis
    using w engine_shows_views[OF w(2)[unfolded engine_ok_def]] by (intro exI[of _ se'] exI[of _ b]) simp
qed

lemma local_writes_shown_witness:
  "\<exists>td qv se1 se2. se_Listen rooms (started_engine first_store) = Inr (td, se1) \<and>
     WriteMutations (Timestamp 1 0) set_eros 7 se1 = Inr se2 \<and> (rooms, qv) \<in> set (se_query_views_by_query se2) \<and>
     ds_GetDocument [''rooms'', ''eros''] (view_document_set (qv_view qv)) \<noteq> None"
proof -
  obtain td qv1 se1 where l: "se_Listen rooms (started_engine first_store) = Inr (td, se1)" "engine_ok se1" "se_has_callback se1"
      "ls_queue (se_local_store se1) = ls_queue first_store" "remote (se_local_store se1) = (\<lambda>k. None)"
      "se_query_views_by_query se1 = [(rooms, qv1)]"
    using first_listen by blast
  have "sint (mq_next_batch_id (ls_queue (se_local_store se1))) < 2 ^ 31 - 1" by (simp add: l(4) first_store_ok(5))
  from local_writes_shown[OF l(2,3) _ set_eros_writable _ this, of "Timestamp 1 0" 7] obtain se2 b where
    w: "WriteMutations (Timestamp 1 0) set_eros 7 se1 = Inr se2" "engine_ok se2" "mb_mutations b = set_eros"
      "pending (se_local_store se2) = [b]" "remote (se_local_store se2) = (\<lambda>k. None)" "map fst (se_query_views_by_query se2) = [rooms]"
    by (auto simp: l(4-6) first_store_ok(4))
  obtain qv where q: "(rooms, qv) \<in> set (se_query_views_by_query se2)" using w(6) by (auto simp: map_eq_Cons_conv)
  have "ls_ok (se_local_store se2)" using w(2) by (simp add: engine_ok_def engine_shows_def)
  then have "batch_ok b" using pending_ok(1) w(4) by fastforce
  then have "visible rooms (pending (se_local_store se2)) (remote (se_local_store se2)) [''rooms'', ''eros''] \<noteq> None"
    using eros_visible w(3) by (simp add: w(4,5))
  then show ?thesis using view_holds[OF w(2)[unfolded engine_ok_def] q] l(1) w(1) q by blast
qed







text \<open>
  C5. In every reachable state of the sync engine at most the allowed number of limbo resolutions
  is active, and a document waits for one only while all are taken.
\<close>

theorem limbo_resolutions_bounded:
  assumes "sync_reachable se"
  shows "length (se_active_limbo_targets_by_key se) \<le> se_max_concurrent_limbo_resolutions se \<and>
    (se_enqueued_limbo_resolutions se \<noteq> [] \<longrightarrow>
     length (se_active_limbo_targets_by_key se) = se_max_concurrent_limbo_resolutions se)"
  using reachable_limbo_ok[OF assms] by (auto simp: limbo_ok_def)

lemma limbo_resolutions_bounded_witness:
  "length (se_active_limbo_targets_by_key (fresh_engine first_store \<lparr>user_uid = [], user_is_authenticated = False\<rparr> 3)) \<le> 3"
  using limbo_resolutions_bounded[OF sync_reachable.start[OF make_SyncEngine_eq[of first_store "\<lparr>user_uid = [], user_is_authenticated = False\<rparr>" 3]]]
  by (simp add: fresh_engine_def)



text \<open>
  C7. Whatever a user does in a transaction, a commit sends the writes in their order and then a
  verification for each document that was only read; for every document the user was given, the
  first mutation of its key carries the version that was read as its precondition, and two reads
  of a document gave the same version.
\<close>

theorem transaction_guards_reads:
  assumes "txn_run ops = Inr (txn, docs)" "txn_Commit txn = Inr (Inr (CommitMutations ms), txn')"
  shows "(\<exists>verifications. ms = txn_mutations txn @ verifications \<and>
      (\<forall>m \<in> set verifications. mut_key m \<notin> mut_key ` set (txn_mutations txn) \<and> (\<exists>key p. m = VerifyMutation key p))) \<and>
    (\<forall>d \<in> set docs. \<exists>version m. recorded_version d = Inr version \<and>
       find (\<lambda>m. mut_key m = doc_key d) ms = Some m \<and> mut_precondition m = Precondition_UpdateTime version) \<and>
    (\<forall>d \<in> set docs. \<forall>d' \<in> set docs. doc_key d = doc_key d' \<longrightarrow> recorded_version d = recorded_version d')"
proof (intro conjI ballI impI)
  let ?verify = "\<lambda>key. VerifyMutation key (CreatePrecondition key txn)"
  have "\<forall>m \<in> set (map ?verify (unwritten_docs txn)). mut_key m \<notin> mut_key ` set (txn_mutations txn) \<and>
      (\<exists>key p. m = VerifyMutation key p)" by (auto simp: set_unwritten_docs)
  then show "\<exists>verifications. ms = txn_mutations txn @ verifications \<and>
      (\<forall>m \<in> set verifications. mut_key m \<notin> mut_key ` set (txn_mutations txn) \<and> (\<exists>key p. m = VerifyMutation key p))"
    using txn_Commit_sends(1)[OF assms(2)] by blast
next
  fix d assume "d \<in> set docs"
  from txn_Commit_guards[OF txn_run_ok[OF assms(1)] assms(2) this]
  show "\<exists>version m. recorded_version d = Inr version \<and>
      find (\<lambda>m. mut_key m = doc_key d) ms = Some m \<and> mut_precondition m = Precondition_UpdateTime version"
    by (simp add: first_write_def)
next
  fix d d' assume "d \<in> set docs" "d' \<in> set docs" "doc_key d = doc_key d'"
  with txn_run_ok[OF assms(1)] show "recorded_version d = recorded_version d'" by (rule txn_reads_consistent)
qed

lemma transaction_guards_reads_witness:
  "\<exists>ms. find (\<lambda>m. mut_key m = [''r'', ''a'']) ms = Some (DeleteMutation [''r'', ''a''] (Precondition_UpdateTime (Timestamp 5 0))) \<and>
     find (\<lambda>m. mut_key m = [''r'', ''b'']) ms = Some (VerifyMutation [''r'', ''b''] (Precondition_UpdateTime SnapshotVersion_None))"
proof -
  let ?a = "[''r'', ''a'']" and ?b = "[''r'', ''b'']"
  let ?ops = "[TxnRead [?a, ?b] (Inr [Document [] ?a (Timestamp 5 0) kSynced, NoDocument ?b (Timestamp 7 0) False]), TxnDelete ?a]"
  let ?ms = "[DeleteMutation ?a (Precondition_UpdateTime (Timestamp 5 0)), VerifyMutation ?b (Precondition_UpdateTime SnapshotVersion_None)]"
  let ?docs = "[Document [] ?a (Timestamp 5 0) kSynced, NoDocument ?b (Timestamp 7 0) False]"
  have "\<exists>txn txn'. txn_run ?ops = Inr (txn, ?docs) \<and> txn_Commit txn = Inr (Inr (CommitMutations ?ms), txn')"
    by (simp add: txn_run_def txn_Lookup_def EnsureCommitNotCalled_def make_Transaction_def txn_Delete_def
        txn_WriteMutations_def insert_written_def lookup_done_def RecordVersion_def txn_GetVersion_def
        CreatePrecondition_def txn_Commit_def unwritten_docs_def Status_ok_def Status_OK_def Let_def)
  then obtain txn txn' where "txn_run ?ops = Inr (txn, ?docs)" "txn_Commit txn = Inr (Inr (CommitMutations ?ms), txn')" by blast
  from transaction_guards_reads[OF this] show ?thesis by (intro exI[of _ ?ms]) simp
qed



text \<open>
  C9. A transaction that is started ends: it makes at most eighteen steps and six attempts,
  however the user and the backend answer, and it stops exactly when the callback of the user has
  been told a result, which happens once.
\<close>

theorem transaction_attempts_bounded:
  assumes "se_Transaction retries jitter elapsed = Inr r" "(runner_step ^^ n) r r'"
  shows "n \<le> 18 \<and> length (filter (\<lambda>out. out = UpdateCallback) (tr_output r')) \<le> 6 \<and>
    length (filter is_result (tr_output r')) = (if \<exists>r''. runner_step r' r'' then 0 else 1)"
proof -
  have ok: "runner_ok r'"
    using runner_steps_reachable[OF assms(2) runner_start[OF assms(1)]] by (rule runner_reachable_ok)
  have "n \<le> 18" using runner_steps_rank[OF assms(2)] runner_start_rank[OF assms(1)] by simp
  moreover have "(\<exists>r''. runner_step r' r'') = (tr_wait r' \<noteq> Released)"
    using runner_can_step[OF ok] released_stays by blast
  ultimately show ?thesis using runner_attempts[OF ok] runner_results[OF ok] by (simp add: attempt_calls_def result_calls_def)
qed

lemma transaction_attempts_bounded_witness:
  "\<exists>r r'. se_Transaction 3 0 0 = Inr r \<and> (runner_step ^^ 1) r r' \<and> length (filter is_result (tr_output r')) \<le> 1"
proof -
  obtain r where r: "se_Transaction 3 0 0 = Inr r" "tr_wait r = AwaitBackoff"
    by (simp add: se_Transaction_def make_TransactionRunner_def default_ExponentialBackoff_def make_ExponentialBackoff_def
        kDefaultBackoffInitialDelay_def kDefaultBackoffMaxDelay_def)
  have s: "(runner_step ^^ 1) r (begin_attempt r)" using backoff_over[OF r(2)] by (auto simp: relcompp_apply)
  from transaction_attempts_bounded[OF r(1) s] show ?thesis using r(1) s by (intro exI[of _ r] exI[of _ "begin_attempt r"]) auto
qed



text \<open>
  C11. Applying computed changes keeps the invariant of the view; a snapshot is raised exactly
  when there is a change or the sync state changes, it carries the old and the new results and all
  changes in the order removed, added, modified (and of the query within each kind), and it is
  from the cache unless the view is current with no document in limbo.
\<close>

theorem view_snapshot_correct:
  assumes "view_ok v" "changes_ok (view_query v) base acc" "\<not> vdc_needs_refill acc" "target_change_ok v tc"
  shows "\<exists>vc v'. View_ApplyChanges acc tc v = Inr (vc, v') \<and> view_ok v' \<and>
    (vc_snapshot vc = None) = (vdc_change_set acc = [] \<and> view_sync_state v' = view_sync_state v) \<and>
    (case vc_snapshot vc of None \<Rightarrow> True | Some s \<Rightarrow>
       vs_old_documents s = view_document_set v \<and> vs_documents s = view_document_set v' \<and>
       mset (vs_document_changes s) = mset (map snd (vdc_change_set acc)) \<and>
       sorted_wrt (\<lambda>a b. \<not> change_less (view_query v) b a) (vs_document_changes s) \<and>
       vs_from_cache s = (\<not> (view_current v' \<and> view_limbo_documents v' = [])))"
proof (rule View_ApplyChanges_spec[OF assms])
  fix vc v'
  assume r: "View_ApplyChanges acc tc v = Inr (vc, v')" "view_ok v'"
    "(vc_snapshot vc = None) = (vdc_change_set acc = [] \<and> view_sync_state v' = view_sync_state v)"
    "view_sync_state v' = (if view_current v' \<and> view_limbo_documents v' = [] then SSSynced else SSLocal)"
    "\<forall>s. vc_snapshot vc = Some s \<longrightarrow> vs_documents s = view_document_set v' \<and>
       vs_old_documents s = view_document_set v \<and> vs_mutated_keys s = view_mutated_keys v' \<and>
       vs_document_changes s = std_sort (change_less (view_query v)) (map snd (vdc_change_set acc)) \<and>
       vs_from_cache s = (view_sync_state v' \<noteq> SSSynced) \<and>
       vs_sync_state_changed s = (view_sync_state v' \<noteq> view_sync_state v)"
  then show ?thesis
    using changes_sorted[of "view_query v" "map snd (vdc_change_set acc)"]
    by (intro exI[of _ vc] exI[of _ v']) (simp split: option.split)
qed

lemma view_snapshot_correct_witness:
  "\<exists>vc v'. View_ApplyChanges (start_changes (make_View (make_Query [''rooms''] None) []) None)
     (Some (CreateSynthesizedTargetChange True)) (make_View (make_Query [''rooms''] None) []) = Inr (vc, v') \<and> view_ok v'"
proof -
  let ?v = "make_View (make_Query [''rooms''] None) []"
  have "changes_ok (view_query ?v) (view_document_set ?v) (start_changes ?v None)" by (rule start_changes_ok[OF rooms_view_ok])
  moreover have "\<not> vdc_needs_refill (start_changes ?v None)" by (simp add: start_changes_def)
  moreover have "target_change_ok ?v (Some (CreateSynthesizedTargetChange True))"
    by (simp add: target_change_ok_def CreateSynthesizedTargetChange_def)
  ultimately show ?thesis using view_snapshot_correct[OF rooms_view_ok] by blast
qed

text \<open>
  C12. The results a view computes are those of the unlimited result set, cut to the first (or
  last) documents of the limit in the order of the query: a changed document is in the unlimited
  set exactly when it matches the query, with its new version or, when the contents agree or a
  write awaits confirmation, with the old one; every other document stays as it was.
\<close>

theorem view_results_expected:
  assumes "view_ok v" "doc_changes_ok m"
  shows "\<exists>acc all. ComputeDocumentChanges v m None = Inr acc \<and> result_docs_ok (view_query v) all \<and>
    (\<forall>k. k \<notin> fst ` set m \<longrightarrow> ds_GetDocument k all = ds_GetDocument k (view_document_set v)) \<and>
    (\<forall>kv \<in> set m. step_result (view_query v) (snd kv)
        (ds_GetDocument (fst kv) (view_document_set v)) (ds_GetDocument (fst kv) all)) \<and>
    ds_docs (vdc_document_set acc) =
      (if q_limit_type (view_query v) = LimitNone then ds_docs all
       else if has_limit_to_first (view_query v) then take (limit_size (q_limit (view_query v))) (ds_docs all)
       else drop (length (ds_docs all) - limit_size (q_limit (view_query v))) (ds_docs all))"
proof (rule ComputeDocumentChanges_ok[OF assms])
  fix all acc
  let ?q = "view_query v"
  assume c: "ComputeDocumentChanges v m None = Inr acc" "result_docs_ok ?q all"
    "\<forall>k. k \<notin> fst ` set m \<longrightarrow> ds_GetDocument k all = ds_GetDocument k (view_document_set v)"
    "\<forall>kv \<in> set m. step_result ?q (snd kv) (ds_GetDocument (fst kv) (view_document_set v)) (ds_GetDocument (fst kv) all)"
    "ds_docs (vdc_document_set acc) = (if q_limit_type ?q = LimitNone then ds_docs all
       else limited ?q (length (ds_docs all) - limit_size (q_limit ?q)) (ds_docs all))"
  have "ds_docs (vdc_document_set acc) =
      (if q_limit_type ?q = LimitNone then ds_docs all
       else if has_limit_to_first ?q then take (limit_size (q_limit ?q)) (ds_docs all)
       else drop (length (ds_docs all) - limit_size (q_limit ?q)) (ds_docs all))"
    unfolding c(5) by (cases "length (ds_docs all) \<le> limit_size (q_limit ?q)") (simp_all add: limited_def)
  with c(1-4) show ?thesis by (intro exI[of _ acc] exI[of _ all] conjI)
qed

lemma view_results_expected_witness:
  "\<exists>acc. ComputeDocumentChanges (make_View (make_Query [''rooms''] None) [])
     [([''rooms'', ''eros''], Document [] [''rooms'', ''eros''] (Timestamp 1 0) kSynced)] None = Inr acc \<and>
     ds_docs (vdc_document_set acc) \<noteq> []"
proof -
  let ?d = "Document [] [''rooms'', ''eros''] (Timestamp 1 0) kSynced" and ?v = "make_View (make_Query [''rooms''] None) []"
  have "doc_changes_ok [([''rooms'', ''eros''], ?d)]" by (simp add: doc_changes_ok_def)
  from view_results_expected[OF rooms_view_ok[of "[]"] this] obtain acc all where
    c: "ComputeDocumentChanges ?v [([''rooms'', ''eros''], ?d)] None = Inr acc" "result_docs_ok (view_query ?v) all"
    "step_result (view_query ?v) ?d (ds_GetDocument [''rooms'', ''eros''] (view_document_set ?v))
       (ds_GetDocument [''rooms'', ''eros''] all)"
    "ds_docs (vdc_document_set acc) = (if q_limit_type (view_query ?v) = LimitNone then ds_docs all
       else if has_limit_to_first (view_query ?v) then take (limit_size (q_limit (view_query ?v))) (ds_docs all)
       else drop (length (ds_docs all) - limit_size (q_limit (view_query ?v))) (ds_docs all))" by auto
  have vq: "view_query ?v = make_Query [''rooms''] None" by (simp add: make_View_def)
  have "ds_GetDocument [''rooms'', ''eros''] all = Some ?d"
    using c(3) rooms_query_matches unfolding vq by (simp add: step_result_def is_document_def make_View_def ds_new_def ds_GetDocument_def)
  then have "?d \<in> set (ds_docs all)" using c(2) ds_get_mem by (auto simp: result_docs_ok_def)
  moreover have "q_limit_type (view_query ?v) = LimitNone" unfolding vq by (simp add: make_Query_def)
  ultimately show ?thesis using c(1,4) by auto
qed



text \<open>
  C14. A target change raised by the aggregator for a query target never trips the assertion of
  the view, and applied to a view whose confirmed documents are the remote keys of the target it
  makes them the documents the target now has: the view and the aggregator stay in agreement.
\<close>

theorem watch_event_keeps_view_in_sync:
  assumes "wca_ok p w" "CreateRemoteEvent p version w = Inr (ev, w')" "map_of (re_target_changes ev) t = Some tc"
    "GetTargetDataForTarget p t = Some td" "\<not> Target_IsDocumentQuery (td_target td)"
    "set (view_synced_documents v) = set (GetRemoteKeysForTarget p t)"
  shows "\<exists>v'. ApplyTargetChange (Some tc) v = Inr v' \<and> set (view_synced_documents v') = members p w t \<and>
    view_current v' = ts_current (EnsureTargetState t w)"
proof -
  have r: "raised p w t (Some tc)"
    by (rule CreateRemoteEvent_raised(1)[OF assms(1,2,3)])
  then have c: "change_of_members (GetRemoteKeysForTarget p t) (members p w t) tc" "tc_current tc = ts_current (EnsureTargetState t w)"
    using assms(4,5) by (auto simp: raised_def settled_members_def)
  then have "target_change_ok v (Some tc)" using assms(6) by (auto simp: target_change_ok_def change_of_members_def)
  then obtain synced where s: "ApplyTargetChange (Some tc) v = Inr (v\<lparr>view_synced_documents := synced, view_current := tc_current tc\<rparr>)"
    "set synced = (set (view_synced_documents v) \<union> set (tc_added_documents tc)) - set (tc_removed_documents tc)"
    using ApplyTargetChange_spec[of v "Some tc"] by auto
  have "set synced = members p w t" using s(2) c(1) assms(6) by (auto simp: change_of_members_def)
  then show ?thesis using s(1) c(2) by simp
qed

lemma watch_event_keeps_view_in_sync_witness:
  "\<exists>ev w' tc v'. CreateRemoteEvent
     \<lparr>GetRemoteKeysForTarget = \<lambda>_. [], GetTargetDataForTarget = \<lambda>t. Some (make_TargetData rooms_target t 1 QPListen)\<rparr>
     (Timestamp 1 0) (on_target_state id 2 new_WatchChangeAggregator) = Inr (ev, w') \<and>
     map_of (re_target_changes ev) 2 = Some tc \<and>
     ApplyTargetChange (Some tc) (make_View (make_Query [''rooms''] None) []) = Inr v'"
proof -
  let ?p = "\<lparr>GetRemoteKeysForTarget = \<lambda>_. [], GetTargetDataForTarget = \<lambda>t. Some (make_TargetData rooms_target t 1 QPListen)\<rparr>"
  let ?w = "on_target_state id 2 new_WatchChangeAggregator"
  have e: "EnsureTargetState 2 ?w = new_TargetState" by simp (simp add: EnsureTargetState_def new_WatchChangeAggregator_def)
  have ok: "wca_ok ?p ?w" by (rule on_target_state_fit[OF new_wca_ok]) simp
  have nd: "\<not> Target_IsDocumentQuery (td_target (make_TargetData rooms_target 2 1 QPListen))"
    by (simp add: make_TargetData_def Target_IsDocumentQuery_def IsDocumentKey_def rooms_target_path)
  have tr: "2 \<in> fst ` set (wca_target_states ?w) \<and> IsActiveTarget ?p ?w 2"
    using e by (simp add: IsActiveTarget_eq) (simp add: on_target_state_def new_WatchChangeAggregator_def)
  obtain ev w' where ev: "CreateRemoteEvent ?p (Timestamp 1 0) ?w = Inr (ev, w')"
    by (rule CreateRemoteEvent_spec[OF ok, of "Timestamp 1 0"]) blast
  have "raised ?p ?w 2 (map_of (re_target_changes ev) 2)" by (rule CreateRemoteEvent_raised(2)[OF ok ev tr])
  then obtain tc where tc: "map_of (re_target_changes ev) 2 = Some tc"
    using e by (cases "map_of (re_target_changes ev) 2") (auto simp: raised_def)
  have "set (view_synced_documents (make_View (make_Query [''rooms''] None) [])) = set (GetRemoteKeysForTarget ?p 2)"
    by (simp add: make_View_def)
  then show ?thesis using watch_event_keeps_view_in_sync[OF ok ev tc _ nd] ev tc by fastforce
qed

text \<open>
  C15. SortedMap, in its array form and in its tree form, implements a finite map: insertion and
  removal never fail, keep the invariant and act on the map of the entries as update and deletion,
  across the switch of representation at 25 entries; get, contains and size read that map.
\<close>

theorem sorted_map_refines_map:
  assumes "strict_comparator cmp" "sm_inv cmp m" "sm_room m"
  shows "(\<exists>m'. sm_insert cmp k v m = Inr m' \<and> sm_inv cmp m' \<and>
            map_of (sm_entries m') = (map_of (sm_entries m))(k \<mapsto> v)) \<and>
         (\<exists>m'. sm_erase cmp k m = Inr m' \<and> sm_inv cmp m' \<and>
            map_of (sm_entries m') = (map_of (sm_entries m))(k := None)) \<and>
         sm_get cmp k m = map_of (sm_entries m) k \<and>
         sm_contains cmp k m = (k \<in> dom (map_of (sm_entries m))) \<and>
         sm_size m = length (sm_entries m)"
proof -
  note t = strict_comparator.axioms(1)[OF assms(1)]
  note g = strict_comparator.al_get_map_of[OF assms(1), symmetric]
  have s: "sorted_keys cmp (sm_entries m)" using assms(2) by (cases m) (auto simp: am_inv_def tm_inv_def)
  show ?thesis
    using total_comparator.sm_insert_correct[OF t assms(2,3), of k v] total_comparator.sm_erase_correct[OF t assms(2), of k]
      total_comparator.sm_get_eq[OF t assms(2)] total_comparator.sm_contains_eq[OF t assms(2)]
      total_comparator.sm_size_eq[OF t assms(2)]
    by (auto simp: fun_eq_iff g dom_def strict_comparator.sm_ins_entries_put[OF assms(1)]
        strict_comparator.al_get_put_strict[OF assms(1)] total_comparator.al_get_al_del[OF t s]
        strict_comparator.same_iff_eq[OF assms(1)])
qed

lemma sorted_map_refines_map_witness:
  "\<exists>m'. sm_insert DocumentKey_CompareTo [''c'', ''d''] (1 :: nat) sm_new = Inr m' \<and> sm_inv DocumentKey_CompareTo m' \<and>
     map_of (sm_entries m') = [[''c'', ''d''] \<mapsto> 1]"
  using sorted_map_refines_map[OF key_cmp.strict_comparator_axioms, of "sm_new" "[''c'', ''d'']" "1 :: nat"]
  by (simp add: sm_new_def am_inv_def sm_room_def)

text \<open>
  C16. FieldValue::CompareTo is a total order on all values, mixed numbers, NaN, timestamps with
  pending server timestamps and nested arrays and maps included: the comparison of the swapped
  arguments is the reverse, and the relation is transitive; operator== implies that the comparison
  says Same.
\<close>

theorem FieldValue_order_total:
  "FieldValue_CompareTo b a = ReverseOrder (FieldValue_CompareTo a b) \<and>
   \<not> (FieldValue_CompareTo a b \<noteq> Descending \<and> FieldValue_CompareTo b c \<noteq> Descending \<and>
      FieldValue_CompareTo a c = Descending) \<and>
   \<not> (FieldValue_eq a b \<and> FieldValue_CompareTo a b \<noteq> Same)"
  using fv_cmp.flip[of b a] fv_cmp.le_trans[of a b c] FieldValue_eq_Same[of a b] by blast


text \<open>
  C18. When the backend acknowledges or rejects a write, the callback of its batch is called with
  the outcome and those that wait for the batch with success, each once, in this order and before
  any snapshot; they are forgotten and no other callback is called or lost.
\<close>

theorem write_callbacks_once:
  assumes "limbo_ok se"
    and "(i = mb_batch_id (mbr_batch br) \<and> status = Status_OK \<and> HandleSuccessfulWrite br se = Inr se') \<or>
         HandleRejectedWrite i status se = Inr se'"
  shows "\<exists>out. se_output se' = se_output se @ calls status (case write_callback i se of None \<Rightarrow> [] | Some c \<Rightarrow> [c]) @
      calls Status_OK (waiting_callbacks i se) @ out \<and> list_all (\<lambda>x. \<not> is_callback x) out \<and>
    (\<forall>j. write_callback j se' = (if j = i then None else write_callback j se) \<and>
         waiting_callbacks j se' = (if j = i then [] else waiting_callbacks j se))"
  using assms(2) SuccessfulWrite_calls[of br se se'] RejectedWrite_calls[of i status se se'] assms(1)
  unfolding batch_called_def by blast

lemma write_callbacks_once_witness:
  "\<exists>se se'. limbo_ok se \<and> se_local_store se = written_store \<and> write_callback 1 se = Some 7 \<and> se_output se = [] \<and>
     HandleRejectedWrite 1 (7, ''denied'') se = Inr se' \<and> (\<exists>out. se_output se' = CallStatusCallback 7 (7, ''denied'') # out)"
proof -
  let ?u = "\<lparr>user_uid = [], user_is_authenticated = False\<rparr>"
  define se where "se = add_mutation_callback 1 7 (se_SetCallback (fresh_engine written_store ?u 1))"
  have ok: "limbo_ok se"
    unfolding se_def using sync_step_limbo_ok[OF sync_step.set_callback] reachable_limbo_ok[OF sync_reachable.start[OF make_SyncEngine_eq]]
    by simp
  obtain b where "pending written_store = [b]" "mb_batch_id b = 1" using written_store_ok(3) by blast
  then obtain docs ls where r: "RejectBatch 1 written_store = Inr (docs, ls)" "ls_ok ls" "framed written_store ls"
    using RejectBatch_ok[OF written_store_ok(1,2), of b "[]"] by auto
  have ready: "rd_ready (ls_delegate ls)" using r(3) written_store_ok(4) by (simp add: framed_def eager_ready)
  obtain ls' where n: "NotifyLocalViewChanges [] ls = Inr ls'" using notify_nothing[OF r(2) ready] by blast
  have se: "se_local_store se = written_store" "se_output se = []" "write_callback 1 se = Some 7" "se_has_callback se"
    "se_query_views_by_query se = []" "waiting_callbacks 1 se = []"
    by (simp_all add: se_def add_mutation_callback_def se_SetCallback_def fresh_engine_def write_callback_def waiting_callbacks_def
        callbacks_of_def Let_def um_find_def User_eq_def)
  have v: "se_query_views_by_query (TriggerPendingWriteCallbacks 1 (NotifyUser 1 (7, ''denied'') (set_local_store ls se))) = []"
    "se_local_store (TriggerPendingWriteCallbacks 1 (NotifyUser 1 (7, ''denied'') (set_local_store ls se))) = ls"
    using se(5) by (simp_all add: TriggerPendingWriteCallbacks_def NotifyUser_def call_all_eq set_local_store_def emit_def split: option.splits)
  have "\<exists>se'. HandleRejectedWrite 1 (7, ''denied'') se = Inr se'"
    using r(1) n se v by (simp add: HandleRejectedWrite_def AssertCallbackExists_def Let_def EmitNewSnapshotsAndNotifyLocalStore_def emit_def)
  then obtain se' where h: "HandleRejectedWrite 1 (7, ''denied'') se = Inr se'" by blast
  have "\<exists>out. se_output se' = CallStatusCallback 7 (7, ''denied'') # out"
    using write_callbacks_once[OF ok disjI2[OF h]] se by (auto simp: calls_def)
  with h ok se show ?thesis by blast
qed



text \<open>
  C20. Insertion into and removal from the left-leaning red-black tree keep its colour, black-
  height and size invariants with a black root, and the height of the result is at most twice the
  logarithm of its number of entries.
\<close>

theorem llrb_stays_balanced:
  assumes "total_comparator cmp" "llrb_ok t" "\<not> red t" "sorted_keys cmp (inorder t)" "LlrbNode.count t + 1 < 2 ^ 31"
  shows "(let u = node_insert cmp k v t
          in llrb_ok u \<and> \<not> red u \<and> sorted_keys cmp (inorder u) \<and> 2 ^ (tree_height u div 2) \<le> LlrbNode.count u + 1) \<and>
         (let u = node_erase cmp k t
          in llrb_ok u \<and> \<not> red u \<and> sorted_keys cmp (inorder u) \<and> 2 ^ (tree_height u div 2) \<le> LlrbNode.count u + 1)"
proof -
  have h: "2 ^ (tree_height u div 2) \<le> LlrbNode.count u + 1" if "llrb_ok u" "\<not> red u" for u :: "('a, 'b) llrb"
  proof -
    have "tree_height u div 2 \<le> bheight u" using height_le_bheight[of u] that by (simp add: llrb_ok_def)
    then have "(2 :: nat) ^ (tree_height u div 2) \<le> 2 ^ bheight u" by simp
    also have "\<dots> \<le> LlrbNode.count u + 1" using bheight_le_count[of u] that by (simp add: llrb_ok_def)
    finally show ?thesis .
  qed
  show ?thesis
    using total_comparator.node_insert_correct[OF assms(1-5), of k v] total_comparator.node_erase_correct[OF assms(1-4), of k]
      total_comparator.sorted_al_put[OF assms(1,4)] total_comparator.sorted_al_del[OF assms(1,4)] h
    by (simp add: Let_def)
qed

lemma llrb_stays_balanced_witness:
  "llrb_ok (node_insert DocumentKey_CompareTo [''c'', ''d''] (1 :: nat) (Empty Black))"
  using llrb_stays_balanced[OF key_cmp.total_comparator_axioms, of "Empty Black" "[''c'', ''d'']" "1 :: nat"]
  by (simp add: llrb_ok_def Let_def)







text \<open>
  C24. The local view of a batch of well-formed mutations always exists: no assertion of the
  mutations fails, and the result is again a document of the same key; a document whose key the
  batch does not touch is returned as it is.
\<close>

theorem batch_overlay_total:
  assumes "batch_ok batch" "VerifyKeyMatches k d"
  shows "\<exists>d'. Batch_ApplyToLocalDocument batch d k = Inr d' \<and> VerifyKeyMatches k d' \<and>
    \<not> (k \<notin> mut_key ` set (mb_base_mutations batch) \<and> k \<notin> set (Batch_keys batch) \<and> d' \<noteq> d)"
  using Batch_local_total[OF assms] Batch_local_other_key[OF assms(2)] by fastforce

lemma batch_overlay_total_witness:
  "\<exists>d'. Batch_ApplyToLocalDocument \<lparr>mb_batch_id = 1, mb_local_write_time = Timestamp 0 0, mb_base_mutations = [],
      mb_mutations = [DeleteMutation [''a'', ''b''] Precondition_None]\<rparr> None [''a'', ''b''] = Inr d'"
proof -
  have "batch_ok \<lparr>mb_batch_id = 1, mb_local_write_time = Timestamp 0 0, mb_base_mutations = [],
      mb_mutations = [DeleteMutation [''a'', ''b''] Precondition_None]\<rparr>" by (simp add: batch_ok_def)
  from batch_overlay_total[OF this, of "[''a'', ''b'']" None] show ?thesis by (auto simp: VerifyKeyMatches_def)
qed

text \<open>
  C25. On the documents that match a well-formed query its comparator never fails and is a total
  order; documents it does not distinguish have the same key.
\<close>

theorem query_comparator_total_order:
  assumes "query_ok q" "Query_Matches q d1 = Inr True" "Query_Matches q d2 = Inr True" "Query_Matches q d3 = Inr True"
  shows "\<exists>c12 c23 c13. Query_Comparator q d1 d2 = Inr c12 \<and> Query_Comparator q d2 d3 = Inr c23 \<and>
    Query_Comparator q d1 d3 = Inr c13 \<and> Query_Comparator q d2 d1 = Inr (ReverseOrder c12) \<and>
    \<not> (c12 \<noteq> Descending \<and> c23 \<noteq> Descending \<and> c13 = Descending) \<and> \<not> (c12 = Same \<and> doc_key d1 \<noteq> doc_key d2)"
  using Query_Comparator_eq[OF assms(1)] assms(2-4) query_cmp_same_key[of q d1 d2]
    total_comparator.flip[OF query_cmp_total, of q d2 d1] total_comparator.le_trans[OF query_cmp_total, of q d1 d2 d3]
  by simp blast

lemma query_comparator_total_order_witness:
  "\<exists>c. Query_Comparator (make_Query [''rooms''] None) (Document [] [''rooms'', ''eros''] (Timestamp 1 0) kSynced)
      (Document [] [''rooms'', ''blue''] (Timestamp 1 0) kSynced) = Inr c"
proof -
  have "query_ok (make_Query [''rooms''] None)"
    by (simp add: query_ok_def make_Query_def order_bys_def InequalityFilterField_def FirstOrderByField_def Let_def)
  moreover have "Query_Matches (make_Query [''rooms''] None) (Document [] [''rooms'', s] (Timestamp 1 0) kSynced) = Inr True" for s
    by (simp add: Query_Matches_def make_Query_def MatchesPathAndCollectionGroup_def IsDocumentKey_def
        IsImmediateParentOf_def MatchesOrderBy_def MatchesFilters_def MatchesBounds_def order_bys_def
        InequalityFilterField_def FirstOrderByField_def Let_def)
  ultimately show ?thesis using query_comparator_total_order by blast
qed



text \<open>
  C27. After applying changes to a view that is current, the documents in limbo are exactly its
  results without local mutations that the backend has not confirmed (the confirmed ones being
  updated by the target change), and the limbo changes are exactly the difference to the former
  limbo documents; a view that is not current reports none.
\<close>

theorem view_limbo_exact:
  assumes "view_ok v" "changes_ok (view_query v) base acc" "\<not> vdc_needs_refill acc" "target_change_ok v (Some tc)"
  shows "\<exists>vc v'. View_ApplyChanges acc (Some tc) v = Inr (vc, v') \<and> view_current v' = tc_current tc \<and>
    set (view_synced_documents v') =
      (set (view_synced_documents v) \<union> set (tc_added_documents tc)) - set (tc_removed_documents tc) \<and>
    (if tc_current tc
     then set (view_limbo_documents v') = {k. k \<notin> set (view_synced_documents v') \<and>
            (\<exists>d \<in> set (ds_docs (vdc_document_set acc)). doc_key d = k \<and> \<not> has_local_mutations d)}
     else view_limbo_documents v' = view_limbo_documents v) \<and>
    set (vc_limbo_changes vc) = LimboRemoved ` (set (view_limbo_documents v) - set (view_limbo_documents v')) \<union>
      LimboAdded ` (set (view_limbo_documents v') - set (view_limbo_documents v))"
proof (rule View_ApplyChanges_spec[OF assms])
  fix vc v'
  assume r: "View_ApplyChanges acc (Some tc) v = Inr (vc, v')" "view_ok v'" "view_document_set v' = vdc_document_set acc"
    "view_current v' = (case Some tc of None \<Rightarrow> view_current v | Some c \<Rightarrow> tc_current c)"
    "set (view_synced_documents v') = (case Some tc of None \<Rightarrow> set (view_synced_documents v)
       | Some c \<Rightarrow> (set (view_synced_documents v) \<union> set (tc_added_documents c)) - set (tc_removed_documents c))"
    "set (vc_limbo_changes vc) = LimboRemoved ` (set (view_limbo_documents v) - set (view_limbo_documents v')) \<union>
       LimboAdded ` (set (view_limbo_documents v') - set (view_limbo_documents v))"
    "\<not> view_current v' \<longrightarrow> view_limbo_documents v' = view_limbo_documents v"
  have "result_docs_ok (view_query v') (view_document_set v')" using r(2) by (simp add: view_ok_def)
  from ShouldBeInLimbo_iff[OF this] r(2,3) have "view_current v' \<longrightarrow> set (view_limbo_documents v') =
     {k. k \<notin> set (view_synced_documents v') \<and>
       (\<exists>d \<in> set (ds_docs (vdc_document_set acc)). doc_key d = k \<and> \<not> has_local_mutations d)}"
    by (simp add: view_ok_def)
  then show ?thesis using r by (intro exI[of _ vc] exI[of _ v']) simp
qed

lemma view_limbo_exact_witness:
  "\<exists>vc v'. View_ApplyChanges (start_changes (make_View (make_Query [''rooms''] None) []) None)
     (Some (CreateSynthesizedTargetChange True)) (make_View (make_Query [''rooms''] None) []) = Inr (vc, v') \<and>
     view_current v' \<and> set (view_limbo_documents v') = {}"
proof -
  let ?v = "make_View (make_Query [''rooms''] None) []" and ?tc = "CreateSynthesizedTargetChange True"
  have "changes_ok (view_query ?v) (view_document_set ?v) (start_changes ?v None)" by (rule start_changes_ok[OF rooms_view_ok])
  moreover have "\<not> vdc_needs_refill (start_changes ?v None)" by (simp add: start_changes_def)
  moreover have "target_change_ok ?v (Some ?tc)" by (simp add: target_change_ok_def CreateSynthesizedTargetChange_def)
  ultimately obtain vc v' where "View_ApplyChanges (start_changes ?v None) (Some ?tc) ?v = Inr (vc, v')"
    "view_current v' = tc_current ?tc" "if tc_current ?tc
     then set (view_limbo_documents v') = {k. k \<notin> set (view_synced_documents v') \<and>
            (\<exists>d \<in> set (ds_docs (vdc_document_set (start_changes ?v None))). doc_key d = k \<and> \<not> has_local_mutations d)}
     else view_limbo_documents v' = view_limbo_documents ?v"
    using view_limbo_exact[OF rooms_view_ok] by blast
  moreover have "tc_current ?tc" "ds_docs (vdc_document_set (start_changes ?v None)) = []"
    by (simp_all add: CreateSynthesizedTargetChange_def start_changes_def make_View_def)
  ultimately show ?thesis by simp
qed

text \<open>
  C28. The watch change aggregator refines, for every target, a set of documents: a document
  change adds its key to the set of each active updated target when it carries a document, removes
  it when it carries a deleted document, removes it from each active removed target, and leaves
  inactive and other targets alone; the invariant of the accumulated changes is kept.
\<close>

theorem watch_document_change_members:
  assumes "wca_ok p w" "case dwc_new_document c of None \<Rightarrow> True | Some d \<Rightarrow> doc_key d = dwc_document_key c"
  shows "wca_ok p (HandleDocumentChange p c w) \<and>
    IsActiveTarget p (HandleDocumentChange p c w) t = IsActiveTarget p w t \<and>
    members p (HandleDocumentChange p c w) t =
      (if IsActiveTarget p w t then changed_members c t (members p w t) else members p w t)"
  using HandleDocumentChange_spec[OF assms(1), of c] assms(2) by (auto split: option.splits)

lemma watch_document_change_members_witness:
  "members \<lparr>GetRemoteKeysForTarget = \<lambda>_. [], GetTargetDataForTarget = \<lambda>t. Some (make_TargetData rooms_target t 1 QPListen)\<rparr>
     (HandleDocumentChange
       \<lparr>GetRemoteKeysForTarget = \<lambda>_. [], GetTargetDataForTarget = \<lambda>t. Some (make_TargetData rooms_target t 1 QPListen)\<rparr>
       \<lparr>dwc_updated_target_ids = [2], dwc_removed_target_ids = [], dwc_document_key = [''rooms'', ''eros''],
        dwc_new_document = Some (Document [] [''rooms'', ''eros''] (Timestamp 1 0) kSynced)\<rparr> new_WatchChangeAggregator) 2 =
   {[''rooms'', ''eros'']}"
proof -
  let ?p = "\<lparr>GetRemoteKeysForTarget = \<lambda>_. [], GetTargetDataForTarget = \<lambda>t. Some (make_TargetData rooms_target t 1 QPListen)\<rparr>"
  let ?c = "\<lparr>dwc_updated_target_ids = [2 :: TargetId], dwc_removed_target_ids = [], dwc_document_key = [''rooms'', ''eros''],
        dwc_new_document = Some (Document [] [''rooms'', ''eros''] (Timestamp 1 0) kSynced)\<rparr>"
  have "members ?p new_WatchChangeAggregator 2 = {}" "IsActiveTarget ?p new_WatchChangeAggregator 2"
    by (simp_all add: members_def IsActiveTarget_eq new_WatchChangeAggregator_def EnsureTargetState_def)
  then show ?thesis using watch_document_change_members[OF new_wca_ok, of ?c ?p 2]
    by (simp add: changed_members_def is_document_def)
qed

text \<open>
  C29. For an active target that is not a document query the existence filter compares the
  expected count with the exact number of documents of the target, computed modulo 2 ^ 32 from the
  sizes of the sets: on a mismatch, and only then, the target is reset to no documents and
  recorded for a new listen.
\<close>

theorem watch_existence_filter_exact:
  assumes "wca_ok p w" "TargetDataForActiveTarget p w t = Some td" "\<not> Target_IsDocumentQuery (td_target td)"
    "distinct (GetRemoteKeysForTarget p t)"
  shows "\<exists>w'. HandleExistenceFilter p \<lparr>efc_count = n, efc_target_id = t\<rparr> w = Inr w' \<and> wca_ok p w' \<and>
    set (wca_target_resets w') = set (wca_target_resets w) \<union> (if word_of_nat (card (members p w t)) \<noteq> n then {t} else {}) \<and>
    (\<forall>t'. members p w' t' = (if t' = t \<and> word_of_nat (card (members p w t)) \<noteq> n then {} else members p w t'))"
  by (rule HandleExistenceFilter_spec[OF assms, of n]) blast

lemma watch_existence_filter_exact_witness:
  "\<exists>w'. HandleExistenceFilter
     \<lparr>GetRemoteKeysForTarget = \<lambda>_. [[''rooms'', ''eros'']], GetTargetDataForTarget = \<lambda>t. Some (make_TargetData rooms_target t 1 QPListen)\<rparr>
     \<lparr>efc_count = 0, efc_target_id = 2\<rparr> new_WatchChangeAggregator = Inr w' \<and> set (wca_target_resets w') = {2}"
proof -
  let ?p = "\<lparr>GetRemoteKeysForTarget = \<lambda>_. [[''rooms'', ''eros'']], GetTargetDataForTarget = \<lambda>t. Some (make_TargetData rooms_target t 1 QPListen)\<rparr>"
  let ?w = new_WatchChangeAggregator
  have e: "EnsureTargetState 2 ?w = new_TargetState" by (simp add: EnsureTargetState_def new_WatchChangeAggregator_def)
  have td: "TargetDataForActiveTarget ?p ?w 2 = Some (make_TargetData rooms_target 2 1 QPListen)"
    by (simp add: TargetDataForActiveTarget_eq e)
  have nd: "\<not> Target_IsDocumentQuery (td_target (make_TargetData rooms_target 2 1 QPListen))"
    by (simp add: make_TargetData_def Target_IsDocumentQuery_def IsDocumentKey_def rooms_target_path)
  have "members ?p ?w 2 = {[''rooms'', ''eros'']}" by (auto simp: members_def e)
  then show ?thesis
    using watch_existence_filter_exact[OF new_wca_ok td nd, of 0] by (auto simp: new_WatchChangeAggregator_def)
qed



text \<open>
  C31. The documents of the last event a user was shown are, up to a relation R, those of the last
  snapshot of the view: for a listener with document metadata changes this holds with equality
  when each snapshot starts from the documents of the one before and has the same documents when
  it lists no change; for one without them R may identify documents that differ in metadata.
\<close>

theorem listener_shows_current_results:
  assumes "list_all input_ok is" "chained docs is" "list_all (unseen_same options R) is" "reflp R" "transp R"
    and "rfold run_step ([], make_QueryListener q options) is = Inr (shown, l)"
  shows "shown \<noteq> [] \<longrightarrow> R (shown_documents shown) (last_documents docs is)"
proof -
  let ?l = "make_QueryListener q options"
  have "shows_current R docs [] ?l" "ql_options ?l = options" by (simp_all add: shows_current_def make_QueryListener_def)
  then have "shows_current R (last_documents docs is) shown l"
    using shows_current_run[OF _ listener_inv_init assms(1) _ _ _ assms(2,6)] assms(3,4,5) by (simp add: reflp_def transp_def)
  then show ?thesis by (simp add: shows_current_def)
qed

lemma listener_shows_current_results_witness:
  "\<exists>shown l. rfold run_step ([], make_QueryListener (make_Query [''rooms''] None) (FromIncludeMetadataChanges True))
     [ViewInput (FromInitialDocuments (make_Query [''rooms''] None) ds_new [] False False)] = Inr (shown, l) \<and> shown \<noteq> [] \<and>
     shown_documents shown = ds_new"
proof -
  let ?is = "[ViewInput (FromInitialDocuments (make_Query [''rooms''] None) ds_new [] False False)]"
  have ok: "list_all input_ok ?is" "chained ds_new ?is" "list_all (unseen_same (FromIncludeMetadataChanges True) (=)) ?is"
    by (simp_all add: FromInitialDocuments_def ds_docs_def ds_new_def)
  obtain shown l where r: "rfold run_step ([], make_QueryListener (make_Query [''rooms''] None) (FromIncludeMetadataChanges True)) ?is = Inr (shown, l)"
    and i: "shown = [] \<longrightarrow> (\<forall>s. ql_snapshot l = Some s \<longrightarrow> vs_from_cache s)"
    by (rule listener_run_events[OF ok(1)]) blast
  have "ql_snapshot l = Some (FromInitialDocuments (make_Query [''rooms''] None) ds_new [] False False)"
    using r by (auto simp: run_step_def OnViewSnapshot_spec FromInitialDocuments_def Let_def make_QueryListener_def kept_def
        FromIncludeMetadataChanges_def initial_ready_def rmap_Inr_conv split: if_splits)
  then have "shown \<noteq> []" using i by (auto simp: FromInitialDocuments_def)
  moreover from this have "shown_documents shown = ds_new"
    using listener_shows_current_results[OF ok _ _ r] by (simp add: reflp_def transp_def FromInitialDocuments_def)
  ultimately show ?thesis using r by blast
qed

text \<open>
  C32. With the eager collector every transaction ends: the commit never fails when the block ran,
  and then exactly the documents that were orphaned in the transaction and that no target, no
  pending write and no in-memory pin references any more are gone from the cache; nothing else
  changes.
\<close>

theorem eager_collection:
  assumes "block (OnTransactionStarted mp) = Inr (a, mp1)" "mp_ok mp1" "mp_reference_delegate mp1 = Eager d"
    "ed_orphaned d = Some orphaned"
  shows "\<exists>mp'. mp_Run block mp = Inr (a, mp') \<and> mp_ok mp' \<and> referenced mp' = referenced mp1 \<and>
    (\<forall>k. rc_Get k (mp_remote_document_cache mp') =
      (if k \<in> set orphaned \<and> k \<notin> referenced mp1 then None else rc_Get k (mp_remote_document_cache mp1))) \<and>
    mp_mutation_queues mp' = mp_mutation_queues mp1 \<and> mp_target_cache mp' = mp_target_cache mp1 \<and>
    mp_index_manager mp' = mp_index_manager mp1"
  using eager_commit[OF assms(2,3,4)] assms(1) by (auto simp: mp_Run_def)

lemma eager_collection_witness:
  "\<exists>mp'. mp_Run (\<lambda>mp. Inr ((), mp\<lparr>mp_remote_document_cache := ldv_remote_document_cache incremented_view,
       mp_reference_delegate := Eager (make_EagerDelegate\<lparr>ed_orphaned := Some [[''rooms'', ''eros'']]\<rparr>)\<rparr>))
     WithEagerGarbageCollector = Inr ((), mp') \<and> rc_Get [''rooms'', ''eros''] (mp_remote_document_cache mp') = None"
proof -
  define mp1 where "mp1 = (OnTransactionStarted WithEagerGarbageCollector)
    \<lparr>mp_remote_document_cache := ldv_remote_document_cache incremented_view,
     mp_reference_delegate := Eager (make_EagerDelegate\<lparr>ed_orphaned := Some [[''rooms'', ''eros'']]\<rparr>)\<rparr>"
  have base: "mp_ok WithEagerGarbageCollector"
    unfolding WithEagerGarbageCollector_def by (rule make_MemoryPersistence_ok) (simp add: make_EagerDelegate_def)
  then have "mp_ok mp1" "referenced mp1 = {}"
    by (auto simp: mp1_def mp_ok_def incremented_view_def Let_def rc_ok_def dm_ok_def key_ok_def OnTransactionStarted_def
        WithEagerGarbageCollector_def make_MemoryPersistence_def make_EagerDelegate_def referenced_def targeted_def written_def
        pins_def matching_def make_TargetCache_def)
  with eager_collection[of "\<lambda>mp. Inr ((), mp\<lparr>mp_remote_document_cache := ldv_remote_document_cache incremented_view,
       mp_reference_delegate := Eager (make_EagerDelegate\<lparr>ed_orphaned := Some [[''rooms'', ''eros'']]\<rparr>)\<rparr>)"
      WithEagerGarbageCollector "()" mp1 _ "[[''rooms'', ''eros'']]"]
  show ?thesis by (fastforce simp: mp1_def)
qed



text \<open>
  C34. The local view of documents never fails and is the specification: GetDocument gives the
  cached document with every batch of the queue applied although it asks for the batches of its
  key only, and GetDocuments gives for every asked key that document, or a missing document of
  version 0 where there is none, and nothing else.
\<close>

theorem local_documents_are_overlays:
  assumes "ldv_ok v"
  shows "\<exists>r. ldv_GetDocuments ks v = Inr r \<and> dm_ok r \<and>
    (\<forall>k. \<exists>d. apply_batches k (mq_queue (ldv_mutation_queue v)) (rc_Get k (ldv_remote_document_cache v)) = Inr d \<and>
       ldv_GetDocument k v = Inr d \<and> dm_get k r = (if k \<in> set ks then Some (doc_or_missing k d) else None))"
proof -
  obtain r where r: "ldv_GetDocuments ks v = Inr r" "dm_ok r"
    "\<And>k. if k \<in> set ks then \<exists>d. local_view v k = Inr d \<and> dm_get k r = Some (doc_or_missing k d) else dm_get k r = None"
    using GetDocuments_ok[OF assms, of ks] by blast
  have "\<exists>d. local_view v k = Inr d \<and> dm_get k r = (if k \<in> set ks then Some (doc_or_missing k d) else None)" for k
    using r(3)[of k] local_view_total[OF assms, of k] by (auto split: if_splits)
  then show ?thesis using r(1,2) GetDocument_eq[OF assms] by (simp flip: local_view_def)
qed

lemma local_documents_are_overlays_witness:
  "\<exists>r. ldv_GetDocuments [[''rooms'', ''eros''], [''rooms'', ''other'']] incremented_view = Inr r \<and>
     dm_get [''rooms'', ''eros''] r \<noteq> None \<and> dm_get [''a'', ''b''] r = None"
proof -
  let ?ks = "[[''rooms'', ''eros''], [''rooms'', ''other'']]"
  obtain r where r: "ldv_GetDocuments ?ks incremented_view = Inr r"
    "\<And>k. \<exists>d. dm_get k r = (if k \<in> set ?ks then Some (doc_or_missing k d) else None)"
    using local_documents_are_overlays[OF incremented_view_ok, of ?ks] by metis
  show ?thesis using r(1) r(2)[of "[''rooms'', ''eros'']"] r(2)[of "[''a'', ''b'']"] by auto
qed






text \<open>
  C38. The loop that starts limbo resolutions returns: it starts a prefix of the waiting
  documents, keeps the rest in order, and ends with no document waiting or all resolutions taken.
\<close>

theorem limbo_pump_terminates:
  assumes "dm_ok (se_active_limbo_targets_by_key se)"
    "length (se_active_limbo_targets_by_key se) \<le> se_max_concurrent_limbo_resolutions se"
  shows "\<exists>se' started. PumpEnqueuedLimboResolutions se = Inr se' \<and>
    se_enqueued_limbo_resolutions se = started @ se_enqueued_limbo_resolutions se' \<and>
    (\<forall>k. (dm_get k (se_active_limbo_targets_by_key se') \<noteq> None) =
      (dm_get k (se_active_limbo_targets_by_key se) \<noteq> None \<or> k \<in> set started)) \<and>
    length (se_active_limbo_targets_by_key se') \<le> se_max_concurrent_limbo_resolutions se' \<and>
    (se_enqueued_limbo_resolutions se' = [] \<or>
     length (se_active_limbo_targets_by_key se') = se_max_concurrent_limbo_resolutions se')"
proof -
  from Pump_ok[OF assms] obtain se' started where p: "PumpEnqueuedLimboResolutions se = Inr se'"
      "se_enqueued_limbo_resolutions se = started @ se_enqueued_limbo_resolutions se'"
      "active_keys se' = active_keys se \<union> set started"
      "length (se_active_limbo_targets_by_key se') \<le> se_max_concurrent_limbo_resolutions se'"
      "se_enqueued_limbo_resolutions se' = [] \<or>
       length (se_active_limbo_targets_by_key se') = se_max_concurrent_limbo_resolutions se'" by blast
  have "\<forall>k. (dm_get k (se_active_limbo_targets_by_key se') \<noteq> None) =
      (dm_get k (se_active_limbo_targets_by_key se) \<noteq> None \<or> k \<in> set started)" using p(3) by blast
  with p show ?thesis by blast
qed

lemma limbo_pump_terminates_witness:
  "\<exists>se'. PumpEnqueuedLimboResolutions ((fresh_engine first_store \<lparr>user_uid = [], user_is_authenticated = False\<rparr> 1)
       \<lparr>se_enqueued_limbo_resolutions := [[''r'', ''a''], [''r'', ''b'']]\<rparr>) = Inr se' \<and>
     length (se_active_limbo_targets_by_key se') \<le> se_max_concurrent_limbo_resolutions se'"
  using limbo_pump_terminates[of "(fresh_engine first_store \<lparr>user_uid = [], user_is_authenticated = False\<rparr> 1)
       \<lparr>se_enqueued_limbo_resolutions := [[''r'', ''a''], [''r'', ''b'']]\<rparr>"]
  by (auto simp: fresh_engine_def dm_ok_def)



section \<open>Further facts\<close>

text \<open>
  SortedSet: the union of two sets succeeds whichever is larger and holds exactly the elements of
  both, and operator== holds exactly when the elements agree, whatever the representations of the
  two sets.
\<close>

theorem sorted_set_operations:
  assumes "strict_comparator cmp" "sm_inv cmp s" "sm_inv cmp t" "sm_size s + sm_size t < 2 ^ 31"
  shows "(\<exists>r. ss_union_with cmp s t = Inr r \<and> sm_inv cmp r \<and> set (sm_keys r) = set (sm_keys s) \<union> set (sm_keys t)) \<and>
         ss_eq s t = (set (sm_keys s) = set (sm_keys t))"
  using strict_comparator.ss_union_with_set[OF assms] strict_comparator.ss_eq_iff[OF assms(1-3)] by blast

lemma sorted_set_operations_witness:
  "\<exists>r. ss_union_with DocumentKey_CompareTo (SM_Array [([''a''], ())]) (SM_Array [([''b''], ())]) = Inr r \<and>
     set (sm_keys r) = {[''a''], [''b'']}"
  using sorted_set_operations[OF key_cmp.strict_comparator_axioms, of "SM_Array [([''a''], ())]" "SM_Array [([''b''], ())]"]
  by (auto simp: am_inv_def kFixedSize_def sm_keys_def)

text \<open>
  keys_from and keys_in of a SortedMap are the keys, in order, that are not below the first bound
  and, for keys_in, below the second; an inverted range is empty.
\<close>

theorem sorted_map_ranges:
  assumes "total_comparator cmp" "sm_inv cmp m"
  shows "sm_keys_from cmp a m = filter (\<lambda>x. cmp a x \<noteq> Descending) (map fst (sm_entries m)) \<and>
         sm_keys_in cmp a b m = filter (\<lambda>x. cmp a x \<noteq> Descending \<and> cmp x b = Ascending) (map fst (sm_entries m))"
  using total_comparator.sm_keys_from_filter[OF assms] total_comparator.sm_keys_in_filter[OF assms] by blast

lemma sorted_map_ranges_witness:
  "sm_keys_in DocumentKey_CompareTo [''b''] [''c''] (SM_Array [([''a''], 1 :: nat), ([''b''], 2)]) = [[''b'']]"
proof -
  have "sm_inv DocumentKey_CompareTo (SM_Array [([''a''], 1 :: nat), ([''b''], 2)])"
    by (simp add: am_inv_def kFixedSize_def DocumentKey_CompareTo_def path_CompareTo_def StringCompare_def ComparisonResultFromInt_def)
  from conjunct2[OF sorted_map_ranges[OF key_cmp.total_comparator_axioms this, of "[''b'']" "[''c'']"]] show ?thesis
    by (simp add: DocumentKey_CompareTo_def path_CompareTo_def StringCompare_def ComparisonResultFromInt_def)
qed

text \<open>
  ObjectValue::Delete with a non-empty path succeeds; afterwards nothing is found at the path or
  below it, and every path that is neither an extension nor a prefix of it reads as before.
\<close>

theorem ObjectValue_delete_get:
  assumes "p \<noteq> []" "obj_ok obj"
  shows "\<exists>obj'. ObjectValue_Delete p obj = Inr obj' \<and> obj_ok obj' \<and>
    (\<forall>q. get_from (FObject obj') (p @ q) = None) \<and>
    \<not> (\<exists>q. \<not> IsPrefixOf p q \<and> \<not> IsPrefixOf q p \<and> get_from (FObject obj') q \<noteq> get_from (FObject obj) q)"
proof -
  obtain obj' where o: "ObjectValue_Delete p obj = Inr obj'" using ObjectValue_Delete_total[OF assms(1)] by blast
  then show ?thesis
    using ObjectValue_Delete_ok[OF o assms(2)] ObjectValue_Delete_below[OF o assms(2)]
      ObjectValue_Delete_disjoint[OF o assms(2)] by blast
qed

lemma ObjectValue_delete_get_witness:
  "\<exists>obj'. ObjectValue_Delete [''a''] [(''a'', FNull)] = Inr obj' \<and> get_from (FObject obj') [''a''] = None"
proof -
  have "obj_ok [(''a'', FNull)]" by simp
  from ObjectValue_delete_get[of "[''a'']", OF _ this]
  obtain obj' where o: "ObjectValue_Delete [''a''] [(''a'', FNull)] = Inr obj'"
    "\<forall>q. get_from (FObject obj') ([''a''] @ q) = None" by auto
  then show ?thesis using spec[OF o(2), of "[]"] by auto
qed

text \<open>
  ObjectValue::ToFieldMask lists exactly the paths of the leaves of the object: the non-empty
  paths at which it holds a value that is not a non-empty map.
\<close>

theorem ToFieldMask_covers_leaves:
  assumes "obj_ok obj"
  shows "(p \<in> set (ToFieldMask obj)) =
    (p \<noteq> [] \<and> (\<exists>v. get_from (FObject obj) p = Some v \<and> \<not> (\<exists>ns. v = FObject ns \<and> ns \<noteq> [])))"
  using ToFieldMask_leaves[OF assms, of p] by blast

lemma ToFieldMask_covers_leaves_witness: "[''a''] \<in> set (ToFieldMask [(''a'', FNull)])"
proof -
  have "obj_ok [(''a'', FNull)]" by simp
  from ToFieldMask_covers_leaves[OF this, of "[''a'']"] show ?thesis by simp
qed

text \<open>
  A change of the online state never fails: no view changes its documents, the local store is left
  alone, and the snapshots are raised before the state is announced.
\<close>

theorem online_state_keeps_documents:
  assumes "engine_shows se b r" "se_has_callback se"
  shows "\<exists>ss se'. se_HandleOnlineStateChange os se = Inr se' \<and> engine_shows se' b r \<and> se_local_store se' = se_local_store se \<and>
    se_output se' = se_output se @ [OnViewSnapshots ss, OnOnlineState os]"
  by (rule se_HandleOnlineStateChange_ok[OF assms])

lemma online_state_keeps_documents_witness:
  "\<exists>se. se_HandleOnlineStateChange OS_Offline (started_engine first_store) = Inr se \<and> se_local_store se = first_store"
proof -
  note start = started_engine_ok[OF first_store_ok(1,3)]
  show ?thesis using online_state_keeps_documents[OF start(1)[unfolded engine_ok_def] start(2), of OS_Offline] start(3) by auto
qed

text \<open>
  Every field path that a parser reaches in the data of a user has only segments that are not
  empty and, in a write, do not begin and end with the reserved designator.
\<close>

theorem user_field_paths_valid:
  assumes "context_reached source c" "pc_path c = Some path" "segment \<in> set path"
  shows "segment \<noteq> [] \<and> (context_write source \<longrightarrow> \<not> (StartsWith segment ''__'' \<and> EndsWith segment ''__''))"
  using context_reached_allowed[OF assms(1,2)] assms(3) by (auto simp: segment_allowed_def)

lemma user_field_paths_valid_witness:
  "\<not> (StartsWith ''name'' ''__'' \<and> EndsWith ''name'' ''__'')"
proof -
  have "ChildContext_name SourceSet ''name'' RootContext = Inr \<lparr>pc_path = Some [''name''], pc_array_element = False\<rparr>"
    by (simp add: ChildContext_name_def ValidatePathSegment_def RootContext_def path_Append_def StartsWith_def
        RESERVED_FIELD_DESIGNATOR_def context_write_def)
  from user_field_paths_valid[OF name_context[OF root_context this], of "[''name'']" "''name''"]
  show ?thesis by (simp add: context_write_def)
qed

text \<open>
  The number of retries that the sync engine is asked for has no effect: every count that is not
  negative starts the same runner, with five retries.
\<close>

theorem transaction_retries_ignored:
  "se_Transaction 0 jitter elapsed = se_Transaction 1 jitter elapsed \<and>
   (\<exists>r. se_Transaction 0 jitter elapsed = Inr r \<and> tr_retries_left r = 5)"
  by (simp add: se_Transaction_def make_TransactionRunner_def default_ExponentialBackoff_def make_ExponentialBackoff_def
      kDefaultBackoffInitialDelay_def kDefaultBackoffMaxDelay_def kRetryCount_def)

text \<open>
  ApplyToLocalDocumentSet of a batch with one mutation per document gives, for every document of
  the batch, the result of ApplyToLocalDocument on it, and leaves the other documents of the map
  alone.
\<close>

theorem batch_set_overlay_pointwise:
  assumes "Batch_ApplyToLocalDocumentSet batch docs = Inr docs'" "distinct (map mut_key (mb_mutations batch))"
  shows "(if k \<in> set (Batch_keys batch)
          then \<exists>d'. Batch_ApplyToLocalDocument batch (dm_get k docs) k = Inr d' \<and>
                 dm_get k docs' = (case d' of None \<Rightarrow> dm_get k docs | Some d \<Rightarrow> Some d)
          else dm_get k docs' = dm_get k docs)"
proof (cases "k \<in> set (Batch_keys batch)")
  case True
  then obtain m where m: "m \<in> set (mb_mutations batch)" "k = mut_key m" by (auto simp: set_Batch_keys)
  then show ?thesis
    using Batch_local_set_pointwise_aux[OF assms(2), of batch docs docs' m] assms(1) True
    unfolding m(2) by (simp only: Batch_ApplyToLocalDocumentSet_def if_True)
next
  case False
  then show ?thesis using Batch_local_set_other[OF assms(1)] by simp
qed

lemma batch_set_overlay_pointwise_witness:
  "dm_get [''c'', ''d''] (case Batch_ApplyToLocalDocumentSet \<lparr>mb_batch_id = 1, mb_local_write_time = Timestamp 0 0,
      mb_base_mutations = [], mb_mutations = [DeleteMutation [''a'', ''b''] Precondition_None]\<rparr> [] of
      Inr m \<Rightarrow> m | Inl _ \<Rightarrow> []) = None"
proof -
  define b where "b = \<lparr>mb_batch_id = 1, mb_local_write_time = Timestamp 0 0,
      mb_base_mutations = [], mb_mutations = [DeleteMutation [''a'', ''b''] Precondition_None]\<rparr>"
  obtain docs' where d: "Batch_ApplyToLocalDocumentSet b [] = Inr docs'"
    by (simp add: b_def Batch_ApplyToLocalDocumentSet_def local_set_step_def Batch_ApplyToLocalDocument_def
        VerifyKeyMatches_def local_step_def Let_def)
  have "distinct (map mut_key (mb_mutations b))" "[''c'', ''d''] \<notin> set (Batch_keys b)"
    by (simp_all add: b_def set_Batch_keys)
  with batch_set_overlay_pointwise[OF d, of "[''c'', ''d'']"] d show ?thesis by (simp add: b_def)
qed

text \<open>
  A mutation applied to a remote document gives a document of the mutation, at the version of the
  acknowledgement, that still counts as having pending writes until the watch stream confirms it.
\<close>

theorem acknowledged_mutation_result:
  assumes "Mutation_ApplyToRemoteDocument m d r = Inr d'"
  shows "doc_key d' = mut_key m \<and> doc_version d' = mr_version r \<and> has_pending_writes d'"
  by (rule Mutation_remote_key[OF assms])

lemma acknowledged_mutation_result_witness:
  "\<exists>d'. Mutation_ApplyToRemoteDocument (SetMutation [''a'', ''b''] [] Precondition_None) None
      \<lparr>mr_version = Timestamp 5 0, mr_transform_results = None\<rparr> = Inr d' \<and> has_pending_writes d'"
proof -
  let ?r = "\<lparr>mr_version = Timestamp 5 0, mr_transform_results = None\<rparr>"
  have "Mutation_ApplyToRemoteDocument (SetMutation [''a'', ''b''] [] Precondition_None) None ?r =
      Inr (Document [] [''a'', ''b''] (Timestamp 5 0) kCommittedMutations)" by (simp add: VerifyKeyMatches_def)
  from this acknowledged_mutation_result[OF this] show ?thesis by blast
qed

text \<open>
  The integer increment of a numeric transform is the mathematical sum clamped to the range of
  int64: it never wraps around.
\<close>

theorem SafeIncrement_saturates:
  "sint (SafeIncrement x y) = max (- (2 ^ 63)) (min (2 ^ 63 - 1) (sint x + sint y))"
  by (rule SafeIncrement_clamps)

text \<open>
  Array union appends to the old array only elements of the operand, ends with every operand
  element present, and applying it again changes nothing, as the missing base value requires.
\<close>

theorem array_union_idempotent:
  "\<exists>zs. ArrayTransform_Apply TTArrayUnion elements prev = Inr (FArray (CoercedFieldValuesArray prev @ zs)) \<and>
     set zs \<subseteq> set elements \<and>
     list_all (\<lambda>e. list_ex (\<lambda>y. FieldValue_eq y e) (CoercedFieldValuesArray prev @ zs)) elements \<and>
     ArrayTransform_Apply TTArrayUnion elements (Some (FArray (CoercedFieldValuesArray prev @ zs))) =
       Inr (FArray (CoercedFieldValuesArray prev @ zs))"
proof -
  obtain v where v: "ArrayTransform_Apply TTArrayUnion elements prev = Inr v"
    using ArrayTransform_Apply_total[of TTArrayUnion elements prev] by (auto simp: IsArrayTransform_def)
  from ArrayUnion_contents[OF v] obtain zs where z: "v = FArray (CoercedFieldValuesArray prev @ zs)" "set zs \<subseteq> set elements"
    "\<forall>e \<in> set elements. \<exists>y \<in> set (CoercedFieldValuesArray prev @ zs). FieldValue_eq y e" by blast
  then show ?thesis using v ArrayUnion_idempotent[OF v] unfolding list_all_iff list_ex_iff by blast
qed

text \<open>
  Array removal takes out only the first element equal to the operand: from an array holding the
  value twice it leaves one, and a second application of the same transform removes that one too,
  so the transform is not idempotent.
\<close>

theorem array_remove_leaves_duplicates:
  "ArrayTransform_Apply TTArrayRemove [e] (Some (FArray [e, e])) = Inr (FArray [e]) \<and>
   ArrayTransform_Apply TTArrayRemove [e] (Some (FArray [e])) = Inr (FArray [])"
  by (simp add: ArrayRemove_single)

text \<open>
  Two documents that differ only in an integer 1 against the double 1.0 are equal for operator==
  of Document, although their field values are not.
\<close>

theorem Document_equality_is_coarse:
  "MaybeDocument_eq (Document [(f, FInteger 1)] k v st) (Document [(f, FDouble 0x3FF0000000000000)] k v st) \<and>
   \<not> FieldValue_eq (FInteger 1) (FDouble 0x3FF0000000000000)"
proof -
  have "CompareMixedNumber 0x3FF0000000000000 1 = Same"
    by (simp add: CompareMixedNumber_key fp_isnan_def fp_exp_def fp_frac_def fp_scaled_def fp_sign_def fp_mag_def
        fp_unit_def DefaultCompare_def)
  then show ?thesis using Document_eq_ignores_number_type by simp
qed

text \<open>
  In every run of the online state tracker no assertion fails and the invariant holds; the handler
  is told of every change and of nothing else, so that the last broadcast is the state of the
  tracker; at most one offline warning is logged.
\<close>

theorem online_state_reporting:
  assumes "tracker_run t out"
  shows "tracker_inv t \<and> last (OS_Unknown # broadcasts out) = ost_state t \<and>
    distinct_adj (OS_Unknown # broadcasts out) \<and> warnings out \<le> 1 \<and>
    \<not> (\<exists>ev. tracker_enabled ev t \<and> \<not> (\<exists>t' out'. tracker_handle ev t = Inr (t', out')))"
  using tracker_run_inv[OF assms] tracker_run_broadcasts[OF assms] tracker_run_warnings[OF assms] tracker_step_inv
  by blast

lemma online_state_reporting_witness:
  "\<exists>t. tracker_run t [LogDebug, Broadcast OS_Offline] \<or> tracker_run t [LogWarn, Broadcast OS_Offline] \<and> tracker_inv t"
proof -
  have a: "tracker_run (tracker_init\<lparr>online_state_timer := True\<rparr>) ([] @ [])"
    by (rule run_step[where ev = EStart, OF run_init])
       (simp_all add: tracker_enabled_def tracker_handle_def HandleWatchStreamStart_def tracker_init_def SetAndBroadcast_def)
  have "tracker_run (tracker_init\<lparr>ost_state := OS_Offline, should_warn_client_is_offline := False\<rparr>) (([] @ []) @ [LogWarn, Broadcast OS_Offline])"
    by (rule run_step[where ev = ETimeout, OF a])
       (simp_all add: tracker_enabled_def tracker_handle_def OnlineStateTimeout_def tracker_init_def SetAndBroadcast_def
          LogClientOfflineWarningIfNecessary_def Let_def)
  from online_state_reporting[OF this] this show ?thesis by auto
qed

text \<open>
  The ids of a target cache generator that starts after an even id and those of the sync engine
  generator never coincide, even across the wrap-around of the 32-bit counter; until it overflows,
  a generator hands out strictly increasing ids.
\<close>

theorem target_ids_disjoint:
  assumes "TargetCacheTargetIdGenerator after = Inr g" "SyncEngineTargetIdGenerator = Inr h" "even after"
  shows "set (tig_ids n g) \<inter> set (tig_ids m h) = {} \<and>
    \<not> (\<exists>i j. sint (tig_next_id g) + 2 * int n < 2 ^ 31 \<and> i < j \<and> j < n \<and>
        \<not> sint (tig_ids n g ! i) < sint (tig_ids n g ! j))"
  using generators_disjoint[OF assms] tig_ids_increasing[of g n] by blast

lemma target_ids_disjoint_witness:
  "set (tig_ids 3 \<lparr>tig_generator_id = GenTargetCache, tig_next_id = 4\<rparr>) \<inter>
   set (tig_ids 3 \<lparr>tig_generator_id = GenSyncEngine, tig_next_id = 1\<rparr>) = {}"
proof -
  have "TargetCacheTargetIdGenerator 2 = Inr \<lparr>tig_generator_id = GenTargetCache, tig_next_id = 4\<rparr>"
    by (simp add: TargetCacheTargetIdGenerator_def make_TargetIdGenerator_def tig_seek_def tig_NextId_def kReservedBits_def)
  moreover have "SyncEngineTargetIdGenerator = Inr \<lparr>tig_generator_id = GenSyncEngine, tig_next_id = 1\<rparr>"
    by (simp add: SyncEngineTargetIdGenerator_def make_TargetIdGenerator_def tig_seek_def)
  ultimately show ?thesis using target_ids_disjoint[of 2 _ _ 3 3] by simp
qed

text \<open>
  However often an exponential backoff runs, its base stays within the configured delays (or 0
  before the first attempt), never decreases without a reset, and the scheduled delay is non-
  negative and at most one and a half times the maximal delay, for any jitter of at most half the
  base.
\<close>

theorem backoff_delays_bounded:
  assumes "eb_inv b" "0 \<le> d" "\<bar>2 * j\<bar> \<le> eb_current_base b"
  shows "eb_inv (BackoffAndRun j d b) \<and> eb_inv (eb_Reset b) \<and> eb_inv (eb_ResetToMax b) \<and>
    eb_current_base b \<le> eb_current_base (BackoffAndRun j d b) \<and>
    (\<exists>t. eb_pending (BackoffAndRun j d b) = Some t \<and> 0 \<le> t \<and> 2 * t \<le> 3 * eb_max_delay b)"
  using BackoffAndRun_inv[OF assms(1)] eb_resets_inv[OF assms(1)] BackoffAndRun_grows[OF assms(1)]
    BackoffAndRun_delay[OF assms] by blast

lemma backoff_delays_bounded_witness:
  "\<exists>t. eb_pending (BackoffAndRun 100 0 \<lparr>eb_pending = None, eb_current_base = 1000, eb_initial_delay = 1000, eb_max_delay = 60000\<rparr>) = Some t \<and>
     2 * t \<le> 180000"
  using backoff_delays_bounded[of "\<lparr>eb_pending = None, eb_current_base = 1000, eb_initial_delay = 1000, eb_max_delay = 60000\<rparr>" 0 100]
  by (auto simp: eb_inv_def)

text \<open>
  Matching a well-formed query against a document never fails an assertion, and a document that
  matches has every field the query sorts by.
\<close>

theorem query_matching_total:
  assumes "query_ok q"
  shows "\<exists>b obs. Query_Matches q doc = Inr b \<and> order_bys q = Inr obs \<and> \<not> (b \<and> \<not> has_order_fields obs doc)"
proof -
  obtain b where b: "Query_Matches q doc = Inr b" using Query_Matches_total[OF assms] by blast
  obtain obs where o: "order_bys q = Inr obs" using assms by (auto simp: query_ok_def)
  then show ?thesis using b Query_Matches_fields[OF assms _ o, of doc] by (cases b) auto
qed

lemma query_matching_total_witness:
  "\<exists>b. Query_Matches (make_Query [''rooms''] None) (Document [] [''rooms'', ''eros''] (Timestamp 1 0) kSynced) = Inr b"
proof -
  have "query_ok (make_Query [''rooms''] None)"
    by (simp add: query_ok_def make_Query_def order_bys_def InequalityFilterField_def FirstOrderByField_def Let_def)
  from query_matching_total[OF this] show ?thesis by blast
qed

text \<open>
  The target sent to the backend accepts by its bounds the same documents as the query does, also
  for a limit-to-last query, whose orderings are reversed and whose bounds are swapped.
\<close>

theorem limit_to_last_target_bounds:
  assumes "query_ok q" "ToTarget q = Inr t" "order_bys q = Inr obs" "has_order_fields obs doc"
  shows "Target_bounds t doc = MatchesBounds q doc"
  by (rule ToTarget_bounds[OF assms])

lemma limit_to_last_target_bounds_witness:
  "\<exists>t. ToTarget (WithLimitToLast 3 (make_Query [''rooms''] None)) = Inr t \<and>
     Target_bounds t (Document [] [''rooms'', ''eros''] (Timestamp 1 0) kSynced) = Inr True"
proof -
  let ?q = "WithLimitToLast 3 (make_Query [''rooms''] None)"
  have o: "order_bys ?q = Inr [key_order DirAscending]"
    by (simp add: WithLimitToLast_def make_Query_def order_bys_def InequalityFilterField_def FirstOrderByField_def Let_def)
  then have ok: "query_ok ?q" by (simp add: query_ok_def) (simp add: WithLimitToLast_def make_Query_def)
  obtain t where t: "ToTarget ?q = Inr t" using o by (simp add: ToTarget_def)
  have h: "has_order_fields [key_order DirAscending] d" for d by (simp add: has_order_fields_def key_order_def)
  have "MatchesBounds ?q d = Inr True" for d
    by (simp add: MatchesBounds_def o) (simp add: WithLimitToLast_def make_Query_def)
  then show ?thesis using limit_to_last_target_bounds[OF ok t o h] t by auto
qed

text \<open>
  Parsing the canonical form of a resource path gives the path back, for every path of non-empty
  segments without slashes, and those are the only paths the parser returns.
\<close>

theorem resource_path_roundtrip:
  "(ResourcePath_FromString (ResourcePath_CanonicalString p) = Inr p) =
   list_all (\<lambda>s. s \<noteq> [] \<and> CHR ''/'' \<notin> set s) p"
  using ResourcePath_FromString_Canonical[of p] ResourcePath_FromString_segments[of "ResourcePath_CanonicalString p" p]
  by (auto simp: list_all_iff)

text \<open>
  Normalising seconds and nanoseconds keeps the instant and gives a timestamp within the
  documented bounds, for nanoseconds above minus one second.
\<close>

theorem timestamp_normalisation:
  assumes "MakeNormalizedTimestamp s n = Inr t" "- kNanosPerSecond \<le> sint n" "- (2 ^ 62) \<le> sint s"
  shows "sint (seconds t) * kNanosPerSecond + sint (nanoseconds t) = sint s * kNanosPerSecond + sint n \<and> ValidateBounds t"
  using MakeNormalizedTimestamp_value[OF assms] by blast

lemma timestamp_normalisation_witness:
  "\<exists>t. MakeNormalizedTimestamp 10 (- 1) = Inr t \<and> sint (seconds t) * kNanosPerSecond + sint (nanoseconds t) = 9999999999"
proof -
  have "MakeNormalizedTimestamp 10 (- 1) = Inr (Timestamp 9 999999999)"
    by (simp add: MakeNormalizedTimestamp_def make_Timestamp_def ValidateBounds_def kNanosPerSecond_def hard_assert_def)
  from timestamp_normalisation[OF this] this show ?thesis by (simp add: kNanosPerSecond_def)
qed

text \<open>
  A document set is a finite map from keys to documents that also lists its documents in the order
  of its comparator: insert replaces the document of a key, erase removes it, and after either
  operation the list is again sorted, without duplicates, and of exactly the mapped documents.
\<close>

theorem document_set_operations:
  assumes "ds_inv (query_cmp q) s" "s' = ds_insert (query_cmp q) (Some d) s \<or> s' = ds_erase (query_cmp q) (doc_key d) s"
  shows "ds_inv (query_cmp q) s' \<and> sorted_wrt (\<lambda>a b. query_cmp q a b = Ascending) (ds_docs s') \<and>
    ds_size s' = length (ds_docs s') \<and> distinct (map doc_key (ds_docs s')) \<and>
    (x \<in> set (ds_docs s')) = (ds_GetDocument (doc_key x) s' = Some x) \<and>
    ds_GetDocument k (ds_insert (query_cmp q) (Some d) s) = (if k = doc_key d then Some d else ds_GetDocument k s) \<and>
    ds_GetDocument k (ds_erase (query_cmp q) (doc_key d) s) = (if k = doc_key d then None else ds_GetDocument k s) \<and>
    ds_IndexOf (query_cmp q) k s' = (if ds_ContainsKey k s'
      then Some (length (takeWhile (\<lambda>d. doc_key d \<noteq> k) (ds_docs s'))) else None)"
proof -
  have inv: "ds_inv (query_cmp q) s'"
    using assms query_set.insert_inv[OF assms(1)] query_set.erase_inv[OF assms(1)] by auto
  show ?thesis
    using inv query_set.docs_sorted[OF inv] query_set.size_docs[OF inv] query_set.docs_keys_distinct[OF inv]
      ds_mem[OF inv, of x] query_set.get_insert[OF assms(1)] query_set.get_erase[OF assms(1)]
      query_set.IndexOf_spec[OF inv] by simp
qed

lemma document_set_operations_witness:
  "ds_GetDocument [''rooms'', ''eros''] (ds_insert (query_cmp (make_Query [''rooms''] None))
     (Some (Document [] [''rooms'', ''eros''] (Timestamp 1 0) kSynced)) ds_new) =
   Some (Document [] [''rooms'', ''eros''] (Timestamp 1 0) kSynced)"
  using document_set_operations[OF ds_inv_new disjI1[OF refl],
      where q="make_Query [''rooms''] None" and d="Document [] [''rooms'', ''eros''] (Timestamp 1 0) kSynced"
        and k="[''rooms'', ''eros'']"] by simp

text \<open>
  ComputeDocumentChanges of a view never fails on well-formed changes (no unsupported combination
  of changes is ever added, not even by the loop that enforces the limit), its change set is
  exactly the difference of the old and the new results, every result matches the query, and the
  mutated keys are those of the results with local mutations.
\<close>

theorem view_changes_exact:
  assumes "view_ok v" "doc_changes_ok m"
  shows "\<exists>acc. ComputeDocumentChanges v m None = Inr acc \<and> result_docs_ok (view_query v) (vdc_document_set acc) \<and>
    mutated_ok (vdc_document_set acc) (vdc_mutated_keys acc) \<and>
    (\<forall>k. cs_at (ds_GetDocument k (view_document_set v)) (ds_GetDocument k (vdc_document_set acc))
           (dm_get k (vdc_change_set acc)))"
  by (rule ComputeDocumentChanges_ok[OF assms]) (auto simp: changes_ok_def)

lemma view_changes_exact_witness:
  "\<exists>acc. ComputeDocumentChanges (make_View (make_Query [''rooms''] None) [])
     [([''rooms'', ''eros''], Document [] [''rooms'', ''eros''] (Timestamp 1 0) kSynced)] None = Inr acc"
proof -
  have "doc_changes_ok [([''rooms'', ''eros''], Document [] [''rooms'', ''eros''] (Timestamp 1 0) kSynced)]"
    by (simp add: doc_changes_ok_def)
  from view_changes_exact[OF rooms_view_ok this] show ?thesis by blast
qed

text \<open>
  A refill from matching documents that agree with the results of the first pass never trips the
  assertion that a refill needs no further refill, and its changes are again the exact difference
  to the results of the view.
\<close>

theorem view_refill_succeeds:
  assumes "view_ok v" "doc_changes_ok m1" "ComputeDocumentChanges v m1 None = Inr prev" "doc_changes_ok m2"
    "list_all (\<lambda>kv. is_document (snd kv) \<and> Query_Matches (view_query v) (snd kv) = Inr True \<and>
       ds_GetDocument (fst kv) (vdc_document_set prev) \<in> {None, Some (snd kv)}) m2"
  shows "\<exists>acc. ComputeDocumentChanges v m2 (Some prev) = Inr acc \<and> \<not> vdc_needs_refill acc \<and>
    result_docs_ok (view_query v) (vdc_document_set acc) \<and> mutated_ok (vdc_document_set acc) (vdc_mutated_keys acc) \<and>
    (\<forall>k. cs_at (ds_GetDocument k (view_document_set v)) (ds_GetDocument k (vdc_document_set acc))
           (dm_get k (vdc_change_set acc)))"
proof -
  have "changes_ok (view_query v) (view_document_set v) prev"
    by (rule ComputeDocumentChanges_ok[OF assms(1,2)]) (use assms(3) in simp)
  moreover have "\<forall>kv \<in> set m2. (ds_GetDocument (fst kv) (vdc_document_set prev) = Some (snd kv) \<or>
        ds_GetDocument (fst kv) (vdc_document_set prev) = None) \<and>
       is_document (snd kv) \<and> Query_Matches (view_query v) (snd kv) = Inr True"
    using assms(5) by (auto simp: list_all_iff)
  ultimately show ?thesis using refill_ok[OF assms(1,4)] unfolding changes_ok_def by blast
qed

lemma view_refill_succeeds_witness:
  "\<exists>prev acc. ComputeDocumentChanges (make_View (make_Query [''rooms''] None) []) [] None = Inr prev \<and>
     ComputeDocumentChanges (make_View (make_Query [''rooms''] None) [])
     [([''rooms'', ''eros''], Document [] [''rooms'', ''eros''] (Timestamp 1 0) kSynced)] (Some prev) = Inr acc"
proof -
  let ?d = "Document [] [''rooms'', ''eros''] (Timestamp 1 0) kSynced" and ?v = "make_View (make_Query [''rooms''] None) []"
  have p: "ComputeDocumentChanges ?v [] None = Inr (start_changes ?v None)"
    by (simp add: ComputeDocumentChanges_def start_changes_def make_View_def apply_limit_def make_Query_def hard_assert_def)
  have "doc_changes_ok [([''rooms'', ''eros''], ?d)]" "doc_changes_ok []" by (simp_all add: doc_changes_ok_def)
  moreover have "list_all (\<lambda>kv. is_document (snd kv) \<and> Query_Matches (view_query ?v) (snd kv) = Inr True \<and>
       ds_GetDocument (fst kv) (vdc_document_set (start_changes ?v None)) \<in> {None, Some (snd kv)}) [([''rooms'', ''eros''], ?d)]"
    using rooms_query_matches by (simp add: is_document_def start_changes_def make_View_def ds_new_def ds_GetDocument_def)
  ultimately show ?thesis using view_refill_succeeds[OF rooms_view_ok _ p] p by blast
qed

text \<open>
  An offline event makes a current view not current and no longer synced, keeps its results,
  reports no limbo changes, and keeps the invariant; every other online state leaves the view
  alone.
\<close>

theorem view_offline_raises_from_cache:
  assumes "view_ok v"
  shows "\<exists>vc v'. View_ApplyOnlineStateChange os v = Inr (vc, v') \<and> view_ok v' \<and> vc_limbo_changes vc = [] \<and>
    view_document_set v' = view_document_set v \<and>
    (if os = OS_Offline then \<not> view_current v' \<and> view_sync_state v' \<noteq> SSSynced else vc_snapshot vc = None \<and> v' = v)"
proof (cases "os = OS_Offline")
  case True
  obtain vc v' where "View_ApplyOnlineStateChange os v = Inr (vc, v')" "view_ok v'"
    "view_document_set v' = view_document_set v" "vc_limbo_changes vc = []" "\<not> view_current v' \<and> view_sync_state v' \<noteq> SSSynced"
    using ApplyOnlineStateChange_ok[OF assms, of os] True by blast
  then show ?thesis using True by (intro exI[of _ vc] exI[of _ v']) simp
qed (use assms in \<open>simp add: View_ApplyOnlineStateChange_def\<close>)

lemma view_offline_raises_from_cache_witness:
  "\<exists>vc v'. View_ApplyOnlineStateChange OS_Offline (make_View (make_Query [''rooms''] None) []) = Inr (vc, v') \<and> view_ok v'"
  using view_offline_raises_from_cache[OF rooms_view_ok, of OS_Offline] by blast

text \<open>
  A target change for one target never fails when the cause of a removal is fine: the last
  outstanding response of an added or removed target makes its documents the remote keys again, a
  reset of an active target empties them, and every other change, and every other target, keeps
  its documents; the invariant is kept.
\<close>

theorem watch_target_change_members:
  assumes "wca_ok p w" "\<not> (wtc_state c = WRemoved \<and> \<not> Status_ok (wtc_cause c))" "wtc_target_ids c = [t]"
  shows "\<exists>w'. HandleTargetChange p c w = Inr w' \<and> wca_ok p w' \<and>
    (\<forall>t'. members p w' t' = (if t' = t then members_after p c w t else members p w t'))"
  using HandleTargetChange_one[OF assms(1) _ assms(3)] assms(2) by blast

lemma watch_target_change_members_witness:
  "\<exists>w'. HandleTargetChange \<lparr>GetRemoteKeysForTarget = \<lambda>_. [[''rooms'', ''eros'']], GetTargetDataForTarget = \<lambda>t. None\<rparr>
     \<lparr>wtc_state = WRemoved, wtc_target_ids = [2], wtc_resume_token = [], wtc_cause = Status_OK\<rparr>
     (RecordPendingTargetRequest 2 new_WatchChangeAggregator) = Inr w' \<and>
     members \<lparr>GetRemoteKeysForTarget = \<lambda>_. [[''rooms'', ''eros'']], GetTargetDataForTarget = \<lambda>t. None\<rparr> w' 2 =
       {[''rooms'', ''eros'']}"
proof -
  let ?p = "\<lparr>GetRemoteKeysForTarget = \<lambda>_. [[''rooms'', ''eros'']], GetTargetDataForTarget = \<lambda>t :: TargetId. None :: TargetData option\<rparr>"
  let ?c = "\<lparr>wtc_state = WRemoved, wtc_target_ids = [2 :: TargetId], wtc_resume_token = [] :: ByteString, wtc_cause = Status_OK\<rparr>"
  have "wca_ok ?p (RecordPendingTargetRequest 2 new_WatchChangeAggregator)"
    by (rule RecordPendingTargetRequest_ok[OF new_wca_ok])
  from watch_target_change_members[OF this, of ?c 2] show ?thesis
    by (auto simp: members_after_def RecordPendingTargetRequest_def ts_RecordPendingTargetRequest_def
        EnsureTargetState_def new_WatchChangeAggregator_def new_TargetState_def on_target_state_def)
qed

text \<open>
  SkipToNextSpecialByte, which tests eight and four bytes at once with word arithmetic, returns
  without tripping one of its assertions the offset of the first byte 0 or 255, or the length when
  there is none.
\<close>

theorem special_byte_scan: "SkipToNextSpecialByte p = Inr (length (takeWhile (\<lambda>c. c \<noteq> 0 \<and> c \<noteq> 0xff) p))"
  by (simp add: SkipToNextSpecialByte_spec plain_prefix_def IsSpecialByte_iff)

text \<open>
  WriteString appends an encoding that ReadString (and ReadStringOrInfinity) reads back whatever
  bytes follow it, leaving those; two encodings compare, whatever follows them, as the strings do,
  and below the encoding of infinity.
\<close>

theorem ordered_string_encoding:
  "\<exists>c. WriteString dest s = Inr (dest @ c) \<and> ReadString (c @ rest) = Inr (Some (rest, s)) \<and>
     (\<forall>t d u v. WriteString [] t = Inr d \<longrightarrow> bytes_less s t \<longrightarrow> bytes_less (c @ u) (d @ v)) \<and>
     bytes_less (c @ u') (WriteInfinity [])"
proof -
  have "bytes_less (string_code s @ u') [0xff, 0xff]"
    using byte_before_less[OF byte_before_append[OF string_code_before_infinity[of s], of u' "[]"]] by simp
  then show ?thesis
    by (auto simp: WriteString_spec ReadString_code WriteInfinity_def ordered_code_chars string_item.code_less)
qed

lemma ordered_string_encoding_witness:
  "\<exists>c d. WriteString [7] [1, 0] = Inr ([7] @ c) \<and> WriteString [] [1, 0xff] = Inr d \<and> bytes_less (c @ [9]) (d @ [3])"
proof -
  have "bytes_less [1, 0] [1, 0xff]"
    using byte_before_less[OF byte_before_prefix[OF byte_before_Cons[of 0 "0xff" "[]" "[]"], of "[1]"]] by simp
  moreover obtain d where "WriteString [] [1, 0xff] = Inr d" using WriteString_spec by blast
  ultimately show ?thesis using ordered_string_encoding[of "[7]" "[1, 0]" "[]" "[]"] by blast
qed

text \<open>
  WriteSignedNumIncreasing never trips its assertion and appends an encoding of 1 to 10 bytes that
  ReadSignedNumIncreasing reads back whatever bytes follow, for every 64 bit number; two encodings
  compare, whatever follows them, as the signed numbers do.
\<close>

theorem ordered_signed_encoding:
  "\<exists>c. WriteSignedNumIncreasing dest x = Inr (dest @ c) \<and> 1 \<le> length c \<and> length c \<le> 10 \<and>
     ReadSignedNumIncreasing (c @ rest) = Inr (Some (rest, x)) \<and>
     (\<forall>y d u v. WriteSignedNumIncreasing [] y = Inr d \<longrightarrow> sint x < sint y \<longrightarrow> bytes_less (c @ u) (d @ v))"
  by (auto simp: WriteSignedNumIncreasing_spec ReadSignedNumIncreasing_code signed_code_length signed_item.code_less
      word_sless_alt intro!: exI[of _ "signed_code x"])

lemma ordered_signed_encoding_witness:
  "\<exists>c d. WriteSignedNumIncreasing [] (- 1000) = Inr c \<and> WriteSignedNumIncreasing [] 5 = Inr d \<and> bytes_less (c @ [9]) (d @ [3])"
proof -
  have "sint (- 1000 :: 64 word) < sint (5 :: 64 word)" by simp
  moreover obtain d where "WriteSignedNumIncreasing [] 5 = Inr d" using WriteSignedNumIncreasing_spec by blast
  ultimately show ?thesis using ordered_signed_encoding[of "[]" "- 1000" "[]"] by auto
qed

text \<open>
  WriteNumIncreasing appends an encoding that ReadNumIncreasing reads back whatever bytes follow,
  for every unsigned 64 bit number; two encodings compare, whatever follows them, as the numbers
  do.
\<close>

theorem ordered_unsigned_encoding:
  "\<exists>c. WriteNumIncreasing dest x = dest @ c \<and> ReadNumIncreasing (c @ rest) = Inr (Some (rest, x)) \<and>
     (\<forall>y u v. x < y \<longrightarrow> bytes_less (c @ u) (WriteNumIncreasing [] y @ v))"
  by (auto simp: WriteNumIncreasing_spec ReadNumIncreasing_code num_item.code_less intro!: exI[of _ "num_code x"])

lemma ordered_unsigned_encoding_witness:
  "\<exists>c. WriteNumIncreasing [1] 255 = [1] @ c \<and> bytes_less (c @ [9]) (WriteNumIncreasing [] 256 @ [3])"
  using ordered_unsigned_encoding[of "[1]" 255 "[]"] by force

text \<open>
  Decoding the key of another table never trips an assertion and returns false, for every table
  with rows and every row of the other table, whatever bytes the row has after the name of its
  table.
\<close>

theorem leveldb_foreign_key_refused:
  assumes "WriteTableName t [] = Inr row"
  shows "(t \<noteq> kMutationsTable \<longrightarrow> (\<exists>x. LevelDbMutationKey_Decode (row @ rest) = Inr (x, False))) \<and>
    (t \<noteq> kDocumentMutationsTable \<longrightarrow> (\<exists>x. LevelDbDocumentMutationKey_Decode (row @ rest) = Inr (x, False))) \<and>
    (t \<noteq> kMutationQueuesTable \<longrightarrow> (\<exists>x. LevelDbMutationQueueKey_Decode (row @ rest) = Inr (x, False))) \<and>
    (t \<noteq> kTargetsTable \<longrightarrow> (\<exists>x. LevelDbTargetKey_Decode (row @ rest) = Inr (x, False))) \<and>
    (t \<noteq> kQueryTargetsTable \<longrightarrow> (\<exists>x. LevelDbQueryTargetKey_Decode (row @ rest) = Inr (x, False))) \<and>
    (t \<noteq> kTargetDocumentsTable \<longrightarrow> (\<exists>x. LevelDbTargetDocumentKey_Decode (row @ rest) = Inr (x, False))) \<and>
    (t \<noteq> kDocumentTargetsTable \<longrightarrow> (\<exists>x. LevelDbDocumentTargetKey_Decode (row @ rest) = Inr (x, False))) \<and>
    (t \<noteq> kRemoteDocumentsTable \<longrightarrow> (\<exists>x. LevelDbRemoteDocumentKey_Decode (row @ rest) = Inr (x, False))) \<and>
    (t \<noteq> kCollectionParentsTable \<longrightarrow> (\<exists>x. LevelDbCollectionParentKey_Decode (row @ rest) = Inr (x, False))) \<and>
    (t \<noteq> kRemoteDocumentReadTimeTable \<longrightarrow> (\<exists>x. LevelDbRemoteDocumentReadTimeKey_Decode (row @ rest) = Inr (x, False)))"
proof -
  have "table_row t (row @ rest)" using assms by (auto simp: table_row_def)
  note refused = decode_other_table[OF this]
  show ?thesis by (intro conjI impI refused)
qed

lemma leveldb_foreign_key_refused_witness:
  "\<exists>row x. WriteTableName kMutationQueuesTable [] = Inr row \<and> LevelDbMutationKey_Decode (row @ [1, 2]) = Inr (x, False)"
proof -
  have "kMutationQueuesTable \<noteq> kMutationsTable" by (simp add: kMutationQueuesTable_def kMutationsTable_def)
  then show ?thesis using leveldb_foreign_key_refused[OF write_codes(3)[of kMutationQueuesTable "[]"]] write_codes(3) by blast
qed

text \<open>
  The bytewise order of the keys of a table is the order of their fields: mutations by user and
  then batch id, remote documents by DocumentKey::CompareTo, rows of the document-target index by
  document key and then target id.
\<close>

theorem leveldb_keys_order:
  assumes "LevelDbMutationKey_Key u b = Inr m" "LevelDbMutationKey_Key u' b' = Inr m'"
    and "LevelDbRemoteDocumentKey_Key k = Inr r" "LevelDbRemoteDocumentKey_Key k' = Inr r'"
    and "LevelDbDocumentTargetKey_Key k t = Inr d" "LevelDbDocumentTargetKey_Key k' t' = Inr d'"
  shows "bytes_less m m' = ((u < u' \<or> u = u' \<and> sint b < sint b')) \<and>
    (bytes_less r r') = ((DocumentKey_CompareTo k k' = Ascending)) \<and>
    (bytes_less d d') = ((DocumentKey_CompareTo k k' = Ascending \<or> k = k' \<and> sint t < sint t'))"
  using mutation_keys_order[OF assms(1,2)] remote_document_keys_order[OF assms(3,4)]
    document_target_keys_order[OF assms(5,6)]
  by (simp_all add: word_sless_alt key_less_iff)

lemma leveldb_keys_order_witness:
  "\<exists>m m'. LevelDbMutationKey_Key ''a'' 300 = Inr m \<and> LevelDbMutationKey_Key ''a'' (- 1) = Inr m' \<and> bytes_less m' m"
proof -
  obtain r where r: "LevelDbRemoteDocumentKey_Key [''rooms'', ''eros''] = Inr r" by (simp add: key_defs)
  obtain d where d: "LevelDbDocumentTargetKey_Key [''rooms'', ''eros''] 2 = Inr d" by (simp add: key_defs)
  show ?thesis
    using leveldb_keys_order[OF mutation_key_bytes mutation_key_bytes r r d d, of "''a''" "- 1" "''a''" 300] mutation_key_bytes
    by simp
qed

text \<open>
  The rows a prefix scan selects are those asked for: KeyPrefix with a path is a prefix of the key
  of a document exactly when the path is one of the document key (for the mutation index also the
  user must agree), and in the read time index the keys after KeyPrefix(collection, version) are
  those of documents read at that version or later.
\<close>

theorem leveldb_prefix_scans:
  assumes "LevelDbRemoteDocumentKey_KeyPrefix_path p = Inr rp" "LevelDbRemoteDocumentKey_Key k = Inr r"
    and "LevelDbDocumentMutationKey_KeyPrefix_path u p = Inr mp" "LevelDbDocumentMutationKey_Key u' k b = Inr m"
    and "LevelDbRemoteDocumentReadTimeKey_KeyPrefix c v = Inr vp" "LevelDbRemoteDocumentReadTimeKey_Key c w d = Inr t"
  shows "((\<exists>s. r = rp @ s) = IsPrefixOf p k) \<and>
    ((\<exists>s. m = mp @ s) = (u = u' \<and> IsPrefixOf p k)) \<and>
    bytes_less vp t = (v \<le> w)"
  by (intro conjI remote_document_prefix[OF assms(1,2)] document_mutation_prefix[OF assms(3,4)] read_time_scan[OF assms(5,6)])

lemma leveldb_prefix_scans_witness:
  "\<exists>rp r. LevelDbRemoteDocumentKey_KeyPrefix_path [''rooms''] = Inr rp \<and>
     LevelDbRemoteDocumentKey_Key [''rooms'', ''eros''] = Inr r \<and> (\<exists>s. r = rp @ s)"
proof -
  obtain rp where rp: "LevelDbRemoteDocumentKey_KeyPrefix_path [''rooms''] = Inr rp"
    by (simp add: LevelDbRemoteDocumentKey_KeyPrefix_path_def)
  obtain r where r: "LevelDbRemoteDocumentKey_Key [''rooms'', ''eros''] = Inr r" by (simp add: key_defs)
  obtain mp where mp: "LevelDbDocumentMutationKey_KeyPrefix_path ''u'' [''rooms''] = Inr mp"
    by (simp add: LevelDbDocumentMutationKey_KeyPrefix_path_def)
  obtain m where m: "LevelDbDocumentMutationKey_Key ''u'' [''rooms'', ''eros''] 1 = Inr m" by (simp add: key_defs)
  obtain vp where vp: "LevelDbRemoteDocumentReadTimeKey_KeyPrefix [''rooms''] (Timestamp 1 0) = Inr vp"
    by (simp add: LevelDbRemoteDocumentReadTimeKey_KeyPrefix_def)
  obtain t where t: "LevelDbRemoteDocumentReadTimeKey_Key [''rooms''] (Timestamp 1 0) ''eros'' = Inr t" by (simp add: key_defs)
  show ?thesis using leveldb_prefix_scans[OF rp r mp m vp t] rp r by (simp add: IsPrefixOf_iff)
qed

text \<open>
  Whatever sequence of snapshots (each with a change or a change of the sync state) and online
  states a query listener is told, no assertion fails; the first event of the user lists all
  documents of the snapshot as added and none follows that lists no change or a metadata change
  unless the options ask for it; no event was raised only while the last snapshot came from the
  cache, the client is not offline, and there are no documents or the user waits for a sync.
\<close>

theorem listener_events:
  assumes "list_all input_ok is"
  shows "\<exists>shown l. rfold run_step ([], make_QueryListener q options) is = Inr (shown, l) \<and>
    ql_raised_initial_event l = (shown \<noteq> []) \<and>
    (shown \<noteq> [] \<longrightarrow> initial_event (hd shown) \<and> (\<forall>e \<in> set (tl shown). later_event options e)) \<and>
    (shown = [] \<longrightarrow> (\<forall>s. ql_snapshot l = Some s \<longrightarrow> vs_from_cache s \<and> ql_online_state l \<noteq> OS_Offline \<and>
       (wait_for_sync_when_online options \<or> ds_size (vs_documents s) = 0)))"
  by (rule listener_run_events[OF assms, of q options]) blast

lemma listener_events_witness:
  "\<exists>shown l. rfold run_step ([], make_QueryListener (make_Query [''rooms''] None) DefaultOptions)
     [ViewInput (FromInitialDocuments (make_Query [''rooms''] None) ds_new [] True False), OnlineInput OS_Offline] = Inr (shown, l) \<and>
     ql_raised_initial_event l = (shown \<noteq> [])"
  using listener_events[of "[ViewInput (FromInitialDocuments (make_Query [''rooms''] None) ds_new [] True False), OnlineInput OS_Offline]"]
  by (fastforce simp: FromInitialDocuments_def)

text \<open>
  A snapshot handed to the event manager never trips an assertion and reaches exactly the
  listeners of its query, each in the state the listener itself takes, and no other listener; it
  becomes the snapshot of the query, and the invariant that ties the listeners of a query to its
  last snapshot and to the online state is kept.
\<close>

theorem event_manager_fan_out:
  assumes "em_ok em" "input_ok (ViewInput s)" "has_target (vs_query s)"
  shows "\<exists>out em'. em_OnViewSnapshots [s] em = Inr (out, em') \<and> em_ok em' \<and>
    out = told_events s em @ (if told_events s em = [] then [] else map ToInSync (em_in_sync em)) \<and>
    (\<forall>r. if r \<in> set (listeners_of (vs_query s) em)
       then \<exists>raised events. ql_OnViewSnapshot s (em_heap em r) = Inr (raised, events, em_heap em' r)
       else em_heap em' r = em_heap em r) \<and>
    (\<forall>i. qm_find (vs_query s) (em_queries em') = Some i \<longrightarrow> qi_snapshot i = Some s) \<and>
    (\<forall>q. listeners_of q em' = listeners_of q em)"
proof -
  note step = view_snapshot_step_spec[OF assms, of False "[]"]
  have r: "em_OnViewSnapshots [s] em =
      Inr (told_events s em @ (if told_events s em = [] then [] else map ToInSync (em_in_sync em)), told s em)"
    using step by (simp add: em_OnViewSnapshots_def RaiseSnapshotsInSyncEvent_def told_def)
  have "\<exists>raised events. ql_OnViewSnapshot s (em_heap em r) = Inr (raised, events, em_heap (told s em) r)"
    if "r \<in> set (listeners_of (vs_query s) em)" for r
    using that by (auto simp: told_def told_heap_def after_snapshot_def OnViewSnapshot_spec[OF assms(2)] Let_def)
  moreover have "em_heap (told s em) r = em_heap em r" if "r \<notin> set (listeners_of (vs_query s) em)" for r
    using that by (simp add: told_def told_heap_def)
  moreover have "qi_snapshot i = Some s" if "qm_find (vs_query s) (em_queries (told s em)) = Some i" for i
    using that assms(3) by (auto simp: told_def qm_find_update Query_eq_refl)
  moreover have "listeners_of q (told s em) = listeners_of q em" for q
    using told_same[OF assms(3), of em] by (simp add: same_entries_def)
  ultimately show ?thesis using r step by auto
qed

lemma event_manager_fan_out_witness:
  "\<exists>out em'. em_OnViewSnapshots [FromInitialDocuments (make_Query [''rooms''] None) ds_new [] False False]
     (make_EventManager (\<lambda>_. make_QueryListener (make_Query [''rooms''] None) DefaultOptions)) = Inr (out, em') \<and> em_ok em'"
  using event_manager_fan_out[OF make_EventManager_ok, of "FromInitialDocuments (make_Query [''rooms''] None) ds_new [] False False"]
    query_ok_has_target[OF rooms_query_ok] by (fastforce simp: FromInitialDocuments_def)

text \<open>
  Adding a new listener never fails and adds it to the listeners of its query, and the event
  source is told to listen exactly when it is the first; removing a listener removes it from them,
  and the source is told to stop exactly when it was the last; a change of the online state and an
  error of a query call the source for nothing, and every operation keeps the invariant.
\<close>

theorem event_manager_listens:
  assumes "em_ok em" "q = ql_query (em_heap em r)" "has_target q"
  shows "(fresh_listener r em \<longrightarrow> snapshots_ok (snd (listen q)) \<longrightarrow>
      (\<exists>t out em'. AddQueryListener listen r em = Inr (t, out, em') \<and> em_ok em' \<and>
        filter is_call out = (if listeners_of q em = [] then [CallListen q] else []) \<and>
        (\<forall>q'. listeners_of q' em' = (if Query_eq q q' then listeners_of q em @ [r] else listeners_of q' em)))) \<and>
    (\<exists>em'. RemoveQueryListener r em = Inr (if listeners_of q em = [r] then [CallStopListening q] else [], em') \<and> em_ok em' \<and>
        (\<forall>q'. listeners_of q' em' = (if Query_eq q q' then remove1 r (listeners_of q em) else listeners_of q' em))) \<and>
    (\<exists>out em'. HandleOnlineStateChange os em = Inr (out, em') \<and> em_ok em' \<and> em_online_state em' = os \<and>
        em_queries em' = em_queries em \<and> filter is_call out = []) \<and>
    (\<exists>em'. em_OnError q e em = Inr (map (\<lambda>r. ToListener r (UserError e)) (listeners_of q em), em') \<and> em_ok em' \<and>
        listeners_of q em' = [])"
proof -
  have "has_target (ql_query (em_heap em r))" using assms(2,3) by simp
  note remove = RemoveQueryListener_ok[OF assms(1) this, folded assms(2)]
  have add: "fresh_listener r em \<Longrightarrow> snapshots_ok (snd (listen q)) \<Longrightarrow>
      \<exists>t out em'. AddQueryListener listen r em = Inr (t, out, em') \<and> em_ok em' \<and>
        filter is_call out = (if listeners_of q em = [] then [CallListen q] else []) \<and>
        (\<forall>q'. listeners_of q' em' = (if Query_eq q q' then listeners_of q em @ [r] else listeners_of q' em))"
    using AddQueryListener_ok[OF assms(1), of r listen] unfolding assms(2)[symmetric] by blast
  show ?thesis
    using add remove HandleOnlineStateChange_ok[OF assms(1), of os] em_OnError_ok[OF assms(1,3), of e] Query_eq_refl[OF assms(3)]
    by (intro conjI impI) (blast, blast, blast, metis)
qed

lemma event_manager_listens_witness:
  "\<exists>t out em'. AddQueryListener (\<lambda>_. (2, [])) 7
     (make_EventManager (\<lambda>_. make_QueryListener (make_Query [''rooms''] None) DefaultOptions)) = Inr (t, out, em') \<and>
     filter is_call out = [CallListen (make_Query [''rooms''] None)]"
proof -
  let ?q = "make_Query [''rooms''] None"
  let ?em = "make_EventManager (\<lambda>_. make_QueryListener ?q DefaultOptions)"
  have "?q = ql_query (em_heap ?em 7)" "fresh_listener 7 ?em" "listeners_of ?q ?em = []"
    using query_ok_has_target[OF rooms_query_ok]
    by (simp_all add: make_EventManager_def make_QueryListener_def fresh_listener_def all_listeners_def listeners_of_def)
  then show ?thesis
    using event_manager_listens[OF make_EventManager_ok _ query_ok_has_target[OF rooms_query_ok], of _ 7 "\<lambda>_. (2, [])"]
    by (fastforce simp: snapshots_ok_def)
qed

text \<open>
  A reference set, two sorted sets of the same references, refines a relation between keys and
  ids: adding and removing references changes the relation by exactly these pairs, the keys of an
  id are found by its range scan, removing an id removes and returns exactly its keys, and a key
  is contained exactly when it has a reference with a non-negative id.
\<close>

theorem reference_sets_are_relations:
  assumes "rs_ok s" "sint i < 2 ^ 31 - 1"
  shows "rs_ok (rs_AddReferences ks i s) \<and> rs_refs (rs_AddReferences ks i s) = rs_refs s \<union> (\<lambda>k. \<lparr>ref_key = k, ref_id = i\<rparr>) ` set ks \<and>
    rs_ok (rs_RemoveReference k i s) \<and> rs_refs (rs_RemoveReference k i s) = rs_refs s - {\<lparr>ref_key = k, ref_id = i\<rparr>} \<and>
    set (rs_ReferencedKeys i s) = ref_key ` {r \<in> rs_refs s. ref_id r = i} \<and>
    (case rs_RemoveReferences i s of (removed, s') \<Rightarrow> rs_ok s' \<and> set removed = set (rs_ReferencedKeys i s) \<and>
       rs_refs s' = {r \<in> rs_refs s. ref_id r \<noteq> i}) \<and>
    rs_ContainsKey k s = (\<exists>r \<in> rs_refs s. ref_key r = k \<and> 0 \<le> sint (ref_id r))"
proof -
  obtain removed s' where r: "rs_RemoveReferences i s = (removed, s')" by force
  show ?thesis
    using rs_RemoveReferences_ok[OF assms r] rs_ReferencedKeys_ok[OF assms] rs_ContainsKey_iff[OF assms(1)] assms(1)
    by (simp add: r)
qed

lemma reference_sets_are_relations_witness:
  "set (rs_ReferencedKeys 2 (rs_AddReferences [[''a'', ''b''], [''a'', ''c'']] 2 rs_new)) = {[''a'', ''b''], [''a'', ''c'']}"
proof -
  let ?s = "rs_AddReferences [[''a'', ''b''], [''a'', ''c'']] 2 rs_new"
  have "rs_ok ?s" "rs_refs ?s = (\<lambda>k. \<lparr>ref_key = k, ref_id = 2\<rparr>) ` set [[''a'', ''b''], [''a'', ''c'']]"
    using reference_sets_are_relations[of rs_new 2 "[[''a'', ''b''], [''a'', ''c'']]"] by (simp_all del: set_simps)
  with reference_sets_are_relations[of ?s 2] have "set (rs_ReferencedKeys 2 ?s) =
      ref_key ` {r \<in> (\<lambda>k. \<lparr>ref_key = k, ref_id = 2\<rparr>) ` set [[''a'', ''b''], [''a'', ''c'']]. ref_id r = 2}" by simp
  also have "\<dots> = set [[''a'', ''b''], [''a'', ''c'']]" by force
  finally show ?thesis by simp
qed

text \<open>
  Although they read an index of references and subtract batch ids, the lookups of the memory
  mutation queue never fail and are plain searches of its list of batches: those that write a key,
  one of some keys or a child of a collection, in the order of the queue, the batch of an id, the
  next batch, and whether some batch writes a key.
\<close>

theorem mutation_queue_lookups:
  assumes "mq_ok q" "\<not> IsCollectionGroupQuery query" "0 \<le> sint i"
  shows "AllMutationBatchesAffectingDocumentKey k q = Inr (filter (writes k) (mq_queue q)) \<and>
    AllMutationBatchesAffectingDocumentKeys ks q = Inr (filter (\<lambda>b. \<exists>k \<in> set ks. writes k b) (mq_queue q)) \<and>
    AllMutationBatchesAffectingQuery query q = Inr (filter (child_writes (q_path query)) (mq_queue q)) \<and>
    LookupMutationBatch i q = Inr (find (\<lambda>b. mb_batch_id b = i) (mq_queue q)) \<and>
    mq_ContainsKey k q = (\<exists>b \<in> set (mq_queue q). writes k b)"
  by (simp add: AffectingDocumentKey_eq[OF assms(1)] AffectingDocumentKeys_eq[OF assms(1)] AffectingQuery_eq[OF assms(1,2)]
      LookupMutationBatch_eq[OF assms(1,3)] mq_ContainsKey_iff[OF assms(1)])

lemma mutation_queue_lookups_witness:
  "mq_ContainsKey [''rooms'', ''eros''] (ldv_mutation_queue incremented_view) \<and>
   \<not> mq_ContainsKey [''rooms'', ''other''] (ldv_mutation_queue incremented_view)"
  using mutation_queue_lookups[OF incremented_queue_ok, of "make_Query [''rooms''] None" 1 "[''rooms'', ''eros'']"]
    mutation_queue_lookups[OF incremented_queue_ok, of "make_Query [''rooms''] None" 1 "[''rooms'', ''other'']"]
  by (simp add: make_Query_def IsCollectionGroupQuery_def) (simp add: incremented_view_def Let_def writes_def Let_def)

text \<open>
  Adding a batch and removing the first batch never trip an assertion and keep the invariant of
  the queue (consecutive positive ids, an index with exactly the references of the batches); a new
  batch gets the next id and is appended, its collections enter the index, a removed batch leaves
  the rest and orphans its documents for the eager collector.
\<close>

theorem mutation_queue_changes:
  assumes "mq_ok q" "mq_queue q = batch # rest" "ms \<noteq> []" "\<forall>m \<in> set ms. key_ok (mut_key m)"
    "sint (mq_next_batch_id q) < 2 ^ 31 - 1" "rd_open rd"
  shows "\<exists>b q' im' q'' rd'. mq_AddMutationBatch t base ms (q, im) = Inr (b, q', im') \<and> mq_ok q' \<and>
    mb_batch_id b = mq_next_batch_id q \<and> mb_local_write_time b = t \<and> mb_base_mutations b = base \<and> mb_mutations b = ms \<and>
    mq_queue q' = mq_queue q @ [b] \<and>
    im_collections im' = im_collections im \<union> (\<lambda>m. butlast (mut_key m)) ` set ms \<and>
    mq_RemoveMutationBatch batch (q, rd) = Inr (q'', rd') \<and> mq_ok q'' \<and> mq_queue q'' = rest \<and>
    rd_orphaned rd' = rd_orphaned rd \<union> (if is_eager rd then set (Batch_keys batch) else {})"
  using AddMutationBatch_ok[OF assms(1,3,4,5), of t base im] RemoveMutationBatch_ok[OF assms(1,2,6)] by fastforce

lemma mutation_queue_changes_witness:
  "\<exists>q'' rd'. mq_RemoveMutationBatch (hd (mq_queue (ldv_mutation_queue incremented_view)))
     (ldv_mutation_queue incremented_view, Eager (make_EagerDelegate\<lparr>ed_orphaned := Some []\<rparr>)) = Inr (q'', rd') \<and>
     mq_ok q'' \<and> mq_queue q'' = [] \<and> rd_orphaned rd' = {[''rooms'', ''eros'']}"
proof -
  have "mq_queue (ldv_mutation_queue incremented_view) = hd (mq_queue (ldv_mutation_queue incremented_view)) # []"
    "set (Batch_keys (hd (mq_queue (ldv_mutation_queue incremented_view)))) = {[''rooms'', ''eros'']}"
    "sint (mq_next_batch_id (ldv_mutation_queue incremented_view)) < 2 ^ 31 - 1"
    by (simp_all add: incremented_view_def Let_def set_Batch_keys Let_def)
  with mutation_queue_changes[OF incremented_queue_ok this(1), of "[DeleteMutation [''a'', ''b''] Precondition_None]"
      "Eager (make_EagerDelegate\<lparr>ed_orphaned := Some []\<rparr>)"]
  show ?thesis by (auto simp: key_ok_def make_EagerDelegate_def)
qed

text \<open>
  The prefix scan of the remote document cache for a query over a collection never fails and finds
  exactly the cached documents that match the query and were read after the given time; it may
  stop at the first key outside the path.
\<close>

theorem document_cache_scan_exact:
  assumes "rc_ok rc" "query_ok query" "\<not> IsCollectionGroupQuery query" "length (q_path query) mod 2 = 1"
  shows "\<exists>r. rc_GetMatching query since rc = Inr r \<and> dm_ok r \<and>
    (\<forall>k d. dm_get k r = Some d \<longleftrightarrow>
       rc_Get k rc = Some d \<and> is_document d \<and> Query_Matches query d = Inr True \<and> read_after since k rc)"
  by (rule rc_GetMatching_ok[OF assms])

lemma document_cache_scan_exact_witness:
  "\<exists>r. rc_GetMatching (make_Query [''rooms''] None) SnapshotVersion_None (ldv_remote_document_cache incremented_view) = Inr r \<and>
     dm_get [''rooms'', ''eros''] r \<noteq> None"
proof -
  let ?rc = "ldv_remote_document_cache incremented_view" and ?k = "[''rooms'', ''eros'']"
  have rc: "rc_ok ?rc" by (simp add: incremented_view_def Let_def rc_ok_def dm_ok_def key_ok_def)
  have q: "query_ok (make_Query [''rooms''] None)" "\<not> IsCollectionGroupQuery (make_Query [''rooms''] None)"
    "length (q_path (make_Query [''rooms''] None)) mod 2 = 1"
    by (simp_all add: make_Query_def IsCollectionGroupQuery_def query_ok_def order_bys_def InequalityFilterField_def FirstOrderByField_def)
  obtain d where d: "rc_Get ?k ?rc = Some d" "is_document d" "Query_Matches (make_Query [''rooms''] None) d = Inr True"
    "read_after SnapshotVersion_None ?k ?rc"
    by (simp add: incremented_view_def Let_def rc_Get_def dm_get_def is_document_def matches_rooms read_after_def less_Timestamp_def SnapshotVersion_None_def)
  with document_cache_scan_exact[OF rc q, of SnapshotVersion_None] show ?thesis by blast
qed

text \<open>
  A collection group query runs one query per collection of that name the index knows; when the
  index knows the collection of every cached and every written document it never fails and shows
  exactly the matching documents of the local view, of whatever collection.
\<close>

theorem collection_group_query_exact:
  assumes "ldv_ok v" "\<forall>b \<in> set (mq_queue (ldv_mutation_queue v)). plain_batch b" "index_complete v"
    and "query_ok query" "q_path query = []" "q_collection_group query = Some i"
  shows "\<exists>r. GetDocumentsMatchingCollectionGroupQuery query since v = Inr r \<and> dm_ok r \<and>
    (\<forall>k. rel_option same_contents (shown_view query since v k) (dm_get k r))"
  by (rule CollectionGroupQuery_ok[OF assms])

lemma collection_group_query_exact_witness:
  "\<exists>r. GetDocumentsMatchingCollectionGroupQuery (make_Query [] (Some ''rooms'')) SnapshotVersion_None deleted_view = Inr r \<and>
     dm_get [''rooms'', ''eros''] r = None"
proof -
  have q: "query_ok (make_Query [] (Some ''rooms''))" "q_path (make_Query [] (Some ''rooms'')) = []"
    "q_collection_group (make_Query [] (Some ''rooms'')) = Some ''rooms''"
    by (simp_all add: make_Query_def query_ok_def order_bys_def InequalityFilterField_def FirstOrderByField_def)
  obtain r where r: "GetDocumentsMatchingCollectionGroupQuery (make_Query [] (Some ''rooms'')) SnapshotVersion_None deleted_view = Inr r"
    "\<And>k. rel_option same_contents (shown_view (make_Query [] (Some ''rooms'')) SnapshotVersion_None deleted_view k) (dm_get k r)"
    using collection_group_query_exact[OF deleted_view_ok q] by blast
  have "shown_view (make_Query [] (Some ''rooms'')) SnapshotVersion_None deleted_view [''rooms'', ''eros''] = None"
    by (simp add: shown_view_def deleted_view_shows is_document_def)
  with r(2)[of "[''rooms'', ''eros'']"] r(1) show ?thesis by auto
qed

text \<open>
  For a query with a limit the check of the document at the edge of the previous results is
  enough: when documents outside the remembered keys that were not written or read since sort
  behind every unchanged remembered result, the index-free answer holds every matching document
  that is among the first n, with its contents, and no document that does not match.
\<close>

theorem limit_query_refill_check:
  assumes "view_ready v" "scannable query v" "distinct remote_keys"
    and "\<And>k y. matching_view query v k = Some y \<Longrightarrow> \<not> is_written v k \<Longrightarrow>
      \<not> read_after limbo_free k (ldv_remote_document_cache v) \<Longrightarrow> k \<notin> set remote_keys \<Longrightarrow>
      n \<le> length remote_keys \<and>
      (\<forall>k' \<in> set remote_keys. \<forall>x. matching_view query v k' = Some x \<and> \<not> has_pending_writes x \<and> \<not> limbo_free < doc_version x
         \<longrightarrow> before query x y)"
    and "q_limit_type query \<noteq> LimitNone"
  shows "\<exists>r. qe_GetDocumentsMatchingQuery query limbo_free remote_keys v = Inr r \<and> dm_ok r \<and>
    (\<forall>k d. dm_get k r = Some d \<longrightarrow> (\<exists>y. matching_view query v k = Some y \<and> same_contents y d)) \<and>
    (\<forall>k y. matching_view query v k = Some y \<and> card {k'. \<exists>x. matching_view query v k' = Some x \<and> before query x y} < n \<longrightarrow>
       (\<exists>d. dm_get k r = Some d \<and> same_contents y d))"
  using engine_with_limit[OF assms(1-3) assms(4) assms(5)] by (simp add: results_within_def)

lemma limit_query_refill_check_witness:
  "\<exists>r. qe_GetDocumentsMatchingQuery ((make_Query [''rooms''] None)\<lparr>q_limit_type := LimitFirst, q_limit := 1\<rparr>) (Timestamp 1 0)
     [[''rooms'', ''eros'']] deleted_view = Inr r \<and> dm_ok r"
proof -
  let ?q = "(make_Query [''rooms''] None)\<lparr>q_limit_type := LimitFirst, q_limit := 1\<rparr>"
  have s: "scannable ?q deleted_view"
    by (simp add: scannable_def query_ok_def make_Query_def IsCollectionGroupQuery_def order_bys_def InequalityFilterField_def
        FirstOrderByField_def Let_def)
  have w: "k \<in> set [[''rooms'', ''eros'']]" if m: "matching_view ?q deleted_view k = Some y" for k y
  proof (rule ccontr)
    assume "k \<notin> set [[''rooms'', ''eros'']]"
    then have "rc_Get k (ldv_remote_document_cache deleted_view) = None" "\<not> is_written deleted_view k"
      by (simp_all add: deleted_view_def incremented_view_def Let_def rc_Get_def dm_get_def is_written_def writes_def)
    then have "local_view deleted_view k = Inr None"
      using unwritten_local_view[OF deleted_view_ok(1), of k] by (auto simp: is_written_def)
    then show False using m by (simp add: matching_view_def)
  qed
  have "\<exists>r. qe_GetDocumentsMatchingQuery ?q (Timestamp 1 0) [[''rooms'', ''eros'']] deleted_view = Inr r \<and> dm_ok r \<and>
    (\<forall>k d. dm_get k r = Some d \<longrightarrow> (\<exists>y. matching_view ?q deleted_view k = Some y \<and> same_contents y d)) \<and>
    (\<forall>k y. matching_view ?q deleted_view k = Some y \<and> card {k'. \<exists>x. matching_view ?q deleted_view k' = Some x \<and> before ?q x y} < 1 \<longrightarrow>
       (\<exists>d. dm_get k r = Some d \<and> same_contents y d))"
    by (rule limit_query_refill_check[OF deleted_view_ready s]) (use w in \<open>auto simp: make_Query_def\<close>)
  then show ?thesis by blast
qed

text \<open>
  A write of well-formed mutations never fails: its batch, with the next id and the given time, is
  appended to the queue of the user, no remote document changes, the invariant of the store holds
  again, and when the mutations have distinct keys the documents returned are exactly the new
  local views of these keys.
\<close>

theorem local_write:
  assumes "ls_ok ls" "rd_ready (ls_delegate ls)" "ms \<noteq> []" "\<forall>m \<in> set ms. writable m"
    "sint (mq_next_batch_id (ls_queue ls)) < 2 ^ 31 - 1"
  shows "\<exists>res ls'. WriteLocally t ms ls = Inr (res, ls') \<and> ls_ok ls' \<and> remote ls' = remote ls \<and>
    (\<exists>base. pending ls' = pending ls @
        [\<lparr>mb_batch_id = lwr_batch_id res, mb_local_write_time = t, mb_base_mutations = base, mb_mutations = ms\<rparr>]) \<and>
    lwr_batch_id res = mq_next_batch_id (ls_queue ls) \<and>
    (distinct (map mut_key ms) \<longrightarrow> views_of (mut_key ` set ms) ls' (lwr_changes res))"
  using WriteLocally_ok[OF assms, of t] by blast

lemma local_write_witness:
  "\<exists>res ls. WriteLocally (Timestamp 1 0) [DeleteMutation [''rooms'', ''eros''] Precondition_None] written_store = Inr (res, ls) \<and>
     length (pending ls) = 2"
proof -
  have "\<forall>m \<in> set [DeleteMutation [''rooms'', ''eros''] Precondition_None]. writable m" by (simp add: writable_def key_ok_def)
  moreover have "sint (mq_next_batch_id (ls_queue written_store)) < 2 ^ 31 - 1"
    using ls_queue_ok[OF written_store_ok(1)] written_store_ok(3) by (auto simp: mq_ok_def ids_ok_def)
  ultimately show ?thesis
    using local_write[OF written_store_ok(1,2), of "[DeleteMutation [''rooms'', ''eros''] Precondition_None]" "Timestamp 1 0"]
      written_store_ok(3) by auto
qed

text \<open>
  Rejecting the first batch never fails: the rest of the queue stays, the documents returned are
  the local views of the keys of the batch without it, and committing removes the remote documents
  of these keys that nothing references any more when the collector is eager, and no other.
\<close>

theorem rejected_write:
  assumes "ls_ok ls" "rd_ready (ls_delegate ls)" "pending ls = b # rest"
  shows "\<exists>docs ls'. RejectBatch (mb_batch_id b) ls = Inr (docs, ls') \<and> ls_ok ls' \<and> pending ls' = rest \<and>
    (\<exists>ls2. pending ls2 = rest \<and> remote ls2 = remote ls \<and> views_of (set (Batch_keys b)) ls2 docs) \<and>
    (\<forall>k. remote ls' k = (if is_eager (ls_delegate ls) \<and> k \<in> set (Batch_keys b) \<and> k \<notin> referenced (ls_persistence ls')
      then None else remote ls k))"
  using RejectBatch_ok[OF assms] by blast

lemma rejected_write_witness: "\<exists>docs ls. RejectBatch 1 written_store = Inr (docs, ls) \<and> pending ls = []"
proof -
  obtain b where "pending written_store = [b]" "mb_batch_id b = 1" using written_store_ok(3) by blast
  then show ?thesis using rejected_write[OF written_store_ok(1,2), of b "[]"] by auto
qed

end
